(* ===== verification/Prelude.thy ===== *)
theory Prelude
  imports Main "HOL-Library.Word" "HOL-Library.Monad_Syntax"
begin

text \<open>
  Shared vocabulary of the development: the machine types of the C++ code
  (\<open>u8\<close> .. \<open>u64\<close> of \<open>src/shared/include/common.hpp\<close>), byte buffers with explicit
  out-of-bounds accesses, little-endian loads and stores, and the lemma collections
  that the component theories feed.

  Conventions used everywhere:
  \<^item> a buffer or a C array is a list; a read or write outside it is the value \<open>None\<close>
    ("undefined behaviour"), so that a theorem \<open>f x = Some y\<close> also says that \<open>f\<close> stays in bounds;
  \<^item> a nullable pointer is an \<open>option\<close>; a pointer into an array is an index;
  \<^item> an allocation that the code checks is a boolean argument of the model.
\<close>

unbundle bit_operations_syntax

type_synonym u8 = "8 word"
type_synonym u16 = "16 word"
type_synonym u32 = "32 word"
type_synonym u64 = "64 word"

named_theorems buf_simps \<open>rules for reads and writes of byte buffers\<close>
named_theorems inv_intros \<open>preservation of component invariants\<close>

section \<open>Buffers\<close>

definition rd8 :: "u8 list \<Rightarrow> nat \<Rightarrow> u8 option" where
  "rd8 buf i = (if i < length buf then Some (buf ! i) else None)"

definition rd16 :: "u8 list \<Rightarrow> nat \<Rightarrow> u16 option" where
  "rd16 buf i = do { a \<leftarrow> rd8 buf i; b \<leftarrow> rd8 buf (i + 1);
     Some (push_bit 8 (ucast b) OR ucast a) }"

definition rd32 :: "u8 list \<Rightarrow> nat \<Rightarrow> u32 option" where
  "rd32 buf i = do { a \<leftarrow> rd16 buf i; b \<leftarrow> rd16 buf (i + 2);
     Some (push_bit 16 (ucast b) OR ucast a) }"

definition rd64 :: "u8 list \<Rightarrow> nat \<Rightarrow> u64 option" where
  "rd64 buf i = do { a \<leftarrow> rd32 buf i; b \<leftarrow> rd32 buf (i + 4);
     Some (push_bit 32 (ucast b) OR ucast a) }"

definition rd_bytes :: "u8 list \<Rightarrow> nat \<Rightarrow> nat \<Rightarrow> u8 list option" where
  "rd_bytes buf i n = (if i + n \<le> length buf then Some (take n (drop i buf)) else None)"

definition wr8 :: "'a list \<Rightarrow> nat \<Rightarrow> 'a \<Rightarrow> 'a list option" where
  "wr8 buf i x = (if i < length buf then Some (buf[i := x]) else None)"

definition wr_bytes :: "'a list \<Rightarrow> nat \<Rightarrow> 'a list \<Rightarrow> 'a list option" where
  "wr_bytes buf i xs =
     (if i + length xs \<le> length buf
      then Some (take i buf @ xs @ drop (i + length xs) buf) else None)"

definition rd_slice :: "'a list \<Rightarrow> nat \<Rightarrow> nat \<Rightarrow> 'a list option" where
  "rd_slice buf i n = (if i + n \<le> length buf then Some (take n (drop i buf)) else None)"

text \<open>A loop whose body may fail.\<close>

fun each :: "('a \<Rightarrow> 's \<Rightarrow> 's option) \<Rightarrow> 'a list \<Rightarrow> 's \<Rightarrow> 's option" where
  "each f [] s = Some s"
| "each f (x # xs) s = do { s \<leftarrow> f x s; each f xs s }"

lemma each_append: "each f (xs @ ys) s = Option.bind (each f xs s) (each f ys)"
  by (induction xs arbitrary: s) (auto split: Option.bind_splits)

text \<open>The little-endian memory image of an integer.\<close>

definition le16 :: "u16 \<Rightarrow> u8 list" where
  "le16 x = [ucast x, ucast (drop_bit 8 x)]"

definition le32 :: "u32 \<Rightarrow> u8 list" where
  "le32 x = [ucast x, ucast (drop_bit 8 x), ucast (drop_bit 16 x), ucast (drop_bit 24 x)]"

lemma rd8_Some [buf_simps]: "i < length buf \<Longrightarrow> rd8 buf i = Some (buf ! i)"
  by (simp add: rd8_def)

lemma rd8_None [buf_simps]: "length buf \<le> i \<Longrightarrow> rd8 buf i = None"
  by (simp add: rd8_def)

lemma rd8_Some_iff: "rd8 buf i = Some x \<longleftrightarrow> i < length buf \<and> x = buf ! i"
  by (auto simp: rd8_def)

lemma rd8_at: "drop i buf = x # r \<Longrightarrow> rd8 buf i = Some x"
  by (metis drop_eq_Nil2 list.discI not_le nth_via_drop rd8_Some)

lemma rd_bytes_Some [buf_simps]:
  "i + n \<le> length buf \<Longrightarrow> rd_bytes buf i n = Some (take n (drop i buf))"
  by (simp add: rd_bytes_def)

lemma wr8_Some [buf_simps]: "i < length buf \<Longrightarrow> wr8 buf i x = Some (buf[i := x])"
  by (simp add: wr8_def)

lemma wr_bytes_Some [buf_simps]:
  "i + length xs \<le> length buf \<Longrightarrow>
   wr_bytes buf i xs = Some (take i buf @ xs @ drop (i + length xs) buf)"
  by (simp add: wr_bytes_def)

lemma wr_bytes_length:
  "wr_bytes buf i xs = Some buf' \<Longrightarrow> length buf' = length buf"
  by (auto simp: wr_bytes_def split: if_splits)

lemma wr8_length: "wr8 buf i x = Some buf' \<Longrightarrow> length buf' = length buf"
  by (auto simp: wr8_def split: if_splits)

lemma rd16_None_iff: "rd16 buf i = None \<longleftrightarrow> length buf \<le> i + 1"
  by (auto simp: rd16_def rd8_def split: if_splits)

lemma rd16_defined: "i + 1 < length buf \<Longrightarrow> \<exists>x. rd16 buf i = Some x"
  using rd16_None_iff [of buf i] by auto

lemma rd32_None_iff: "rd32 buf i = None \<longleftrightarrow> length buf \<le> i + 3"
proof -
  have "rd32 buf i = None \<longleftrightarrow> rd16 buf i = None \<or> rd16 buf (i + 2) = None"
    by (auto simp: rd32_def split: Option.bind_splits)
  then show ?thesis by (auto simp: rd16_None_iff)
qed

lemma rd32_defined: "i + 3 < length buf \<Longrightarrow> \<exists>x. rd32 buf i = Some x"
  using rd32_None_iff [of buf i] by auto

section \<open>Words\<close>

lemma unat_ucast_up:
  "LENGTH('a) \<le> LENGTH('b) \<Longrightarrow> unat (ucast (x :: 'a::len word) :: 'b::len word) = unat x"
  by (simp add: unsigned_ucast_eq take_bit_nat_eq_self less_le_trans [OF unsigned_less])

lemma unat_u8_less: "unat (x :: u8) < 256"
  using unsigned_less [of x, where 'a = nat] by simp

lemma unat_u16_less: "unat (x :: u16) < 65536"
  using unsigned_less [of x, where 'a = nat] by simp

lemma unat_u32_less: "unat (x :: u32) < 4294967296"
  using unsigned_less [of x, where 'a = nat] by simp

lemma unat_u64_less: "unat (x :: u64) < 18446744073709551616"
  using unsigned_less [of x, where 'a = nat] by simp

text \<open>\<open>AND\<close> with a byte mask keeps the low byte.\<close>

lemma and_ff: "(x :: 'a::len word) AND 0xFF = take_bit 8 x"
proof -
  have "mask 8 = (0xFF :: 'a word)" by (simp add: mask_eq_exp_minus_1)
  then show ?thesis by (metis take_bit_eq_mask)
qed

lemma bit_and_ff: "bit ((x :: 'a::len word) AND 0xFF) n \<longleftrightarrow> n < 8 \<and> bit x n"
  unfolding and_ff by (simp add: bit_take_bit_iff)

lemma unat_plus_no_wrap:
  "unat x + unat y < 2 ^ LENGTH('a) \<Longrightarrow> unat (x + y :: 'a::len word) = unat x + unat y"
  by (simp add: unat_word_ariths)

lemma unat_minus_no_wrap:
  "y \<le> x \<Longrightarrow> unat (x - y :: 'a::len word) = unat x - unat y"
  by (simp add: unat_sub)

section \<open>Arithmetic, options and lists\<close>

lemma mod_add_once:
  "(a::nat) < n \<Longrightarrow> b < n \<Longrightarrow> (a + b) mod n = (if a + b < n then a + b else a + b - n)"
  by (simp add: mod_if)

lemma Suc_mod_once: "(a::nat) < n \<Longrightarrow> Suc a mod n = (if Suc a < n then Suc a else 0)"
  by (simp add: mod_if)

lemma bind_Some_iff:
  "(m \<bind> f) = Some y \<longleftrightarrow> (\<exists>x. m = Some x \<and> f x = Some y)"
  by (cases m) auto

lemma list_update_swap_take:
  "i < length xs \<Longrightarrow> take i xs @ [x] @ drop (Suc i) xs = xs[i := x]"
  by (simp add: upd_conv_take_nth_drop)

section \<open>Bytes at an offset\<close>

lemma rd8_drop: "rd8 (drop off buf) k = rd8 buf (off + k)"
  by (auto simp: rd8_def)

lemma rd16_drop: "rd16 (drop off buf) k = rd16 buf (off + k)"
  by (simp add: rd16_def rd8_drop)

lemma rd32_drop: "rd32 (drop off buf) k = rd32 buf (off + k)"
  by (simp add: rd32_def rd16_drop add.assoc)

lemma u16_of_bytes: "push_bit 8 (ucast (ucast (drop_bit 8 x) :: u8)) OR ucast (ucast (x :: u16) :: u8) = x"
  by (rule bit_word_eqI) (auto simp: bit_or_iff bit_push_bit_iff bit_ucast_iff bit_drop_bit_eq dest: bit_imp_le_length)

lemma u32_of_bytes:
  "push_bit 16 (ucast (push_bit 8 (ucast (ucast (drop_bit 24 x) :: u8)) OR ucast (ucast (drop_bit 16 x) :: u8) :: u16))
    OR ucast (push_bit 8 (ucast (ucast (drop_bit 8 x) :: u8)) OR ucast (ucast (x :: u32) :: u8) :: u16) = x"
proof (rule bit_word_eqI)
  fix n
  show "bit (push_bit 16 (ucast (push_bit 8 (ucast (ucast (drop_bit 24 x) :: u8)) OR ucast (ucast (drop_bit 16 x) :: u8) :: u16))
    OR ucast (push_bit 8 (ucast (ucast (drop_bit 8 x) :: u8)) OR ucast (ucast x :: u8) :: u16) :: u32) n = bit x n"
    by (cases "n < 16") (auto simp: bit_or_iff bit_push_bit_iff bit_ucast_iff bit_drop_bit_eq dest: bit_imp_le_length)
qed

lemma rd16_le16: "drop off buf = le16 x @ r \<Longrightarrow> rd16 buf off = Some x"
  using rd16_drop [of off buf 0] by (simp add: rd16_def rd8_def le16_def u16_of_bytes)

lemma rd32_le32: "drop off buf = le32 x @ r \<Longrightarrow> rd32 buf off = Some x"
  using rd32_drop [of off buf 0] by (simp add: rd32_def rd16_def rd8_def le32_def u32_of_bytes)

lemma length_le16 [simp]: "length (le16 x) = 2" and length_le32 [simp]: "length (le32 y) = 4"
  by (simp_all add: le16_def le32_def)

lemma drop_step: "drop off buf = xs @ r \<Longrightarrow> n = off + length xs \<Longrightarrow> drop n buf = r"
  by (metis add.commute append_eq_conv_conj drop_drop)

section \<open>Bytes at a place\<close>

definition holds :: "u8 list \<Rightarrow> nat \<Rightarrow> u8 list \<Rightarrow> bool" where
  "holds data off r \<longleftrightarrow> off + length r \<le> length data \<and> take (length r) (drop off data) = r"

lemma holds_append: "holds data off (a @ b) \<longleftrightarrow> holds data off a \<and> holds data (off + length a) b"
proof
  assume h: "holds data off (a @ b)"
  then have "take (length a + length b) (drop off data) = a @ b" by (simp add: holds_def)
  then have "take (length a) (drop off data) @ take (length b) (drop (length a) (drop off data)) = a @ b"
    by (simp only: take_add)
  moreover have "off + (length a + length b) \<le> length data" using h by (simp add: holds_def)
  ultimately show "holds data off a \<and> holds data (off + length a) b" by (simp add: holds_def add.commute)
next
  assume "holds data off a \<and> holds data (off + length a) b"
  then show "holds data off (a @ b)" by (simp add: holds_def take_add add.commute)
qed

lemma holds_all: "holds data 0 data"
  by (simp add: holds_def)

lemma holds_length: "holds data off r \<Longrightarrow> off + length r \<le> length data"
  by (simp add: holds_def)

lemma holds_nth: "holds data off r \<Longrightarrow> k < length r \<Longrightarrow> data ! (off + k) = r ! k"
  unfolding holds_def by (metis add_leD1 nth_drop nth_take)

lemma holds_rd8:
  assumes "holds data off r" "k < length r"
  shows "rd8 data (off + k) = Some (r ! k)"
proof -
  have "off + k < length data" using holds_length [OF assms(1)] assms(2) by linarith
  then show ?thesis by (simp add: rd8_def holds_nth [OF assms])
qed

lemma holds_rd8_eq: "holds data off r \<Longrightarrow> k < length r \<Longrightarrow> rd8 data (off + k) = rd8 r k"
  by (simp only: holds_rd8 rd8_Some)

lemma holds_rd32: "holds data off r \<Longrightarrow> k + 3 < length r \<Longrightarrow> rd32 data (off + k) = rd32 r k"
  using holds_rd8_eq [of data off r k] holds_rd8_eq [of data off r "k + 1"]
    holds_rd8_eq [of data off r "k + 2"] holds_rd8_eq [of data off r "k + 2 + 1"]
  by (simp add: rd32_def rd16_def add.assoc)

lemma holds_rd_bytes: "holds data off r \<Longrightarrow> k + n \<le> length r \<Longrightarrow> rd_bytes data (off + k) n = Some (take n (drop k r))"
proof -
  assume h: "holds data off r" and k: "k + n \<le> length r"
  have "take n (drop k r) = take n (drop k (take (length r) (drop off data)))" using h by (simp add: holds_def)
  also have "\<dots> = take n (drop (off + k) data)" using k by (simp add: drop_take min_def add.commute)
  finally show ?thesis using holds_length [OF h] k by (simp add: rd_bytes_def)
qed

end
