(* ===== verification/Common.thy ===== *)
theory Common
  imports Prelude
begin

text \<open>
  \<open>src/shared/include/common.hpp\<close> (bit macros, alignment, byte swapping, string hashes,
  address packing) and \<open>src/shared/include/std/random.hpp\<close> (the linear congruential
  generator). Everything is at the width of the code: \<open>u16\<close>, \<open>u32\<close>, \<open>u64\<close>.
\<close>

section \<open>Constants and bit macros\<close>

definition PAGE_SIZE :: u64 where "PAGE_SIZE = 0x1000"
definition PAGE_SIZE_LARGE :: u64 where "PAGE_SIZE_LARGE = 0x200000"
definition PAGE_SIZE_HUGE :: u64 where "PAGE_SIZE_HUGE = 0x40000000"

definition BIT :: "nat \<Rightarrow> u64" where "BIT n = push_bit n 1"
definition BIT_SET :: "u64 \<Rightarrow> nat \<Rightarrow> u64" where "BIT_SET x n = x OR BIT n"
definition BIT_CLEAR :: "u64 \<Rightarrow> nat \<Rightarrow> u64" where "BIT_CLEAR x n = x AND NOT (BIT n)"
definition BIT_TOGGLE :: "u64 \<Rightarrow> nat \<Rightarrow> u64" where "BIT_TOGGLE x n = x XOR BIT n"
definition BIT_CHECK :: "u64 \<Rightarrow> nat \<Rightarrow> bool" where
  "BIT_CHECK x n \<longleftrightarrow> drop_bit n x AND 1 \<noteq> 0"

definition is_aligned :: "u64 \<Rightarrow> u64 \<Rightarrow> bool" where
  "is_aligned addr align \<longleftrightarrow> addr AND (align - 1) = 0"

definition align_up :: "u64 \<Rightarrow> u64 \<Rightarrow> u64" where
  "align_up addr align = (addr + (align - 1)) AND NOT (align - 1)"

definition align_down :: "u64 \<Rightarrow> u64 \<Rightarrow> u64" where
  "align_down addr align = addr AND NOT (align - 1)"

fun memeq :: "u8 list \<Rightarrow> u8 list \<Rightarrow> nat \<Rightarrow> bool option" where
  "memeq a b 0 = Some True"
| "memeq (x # a) (y # b) (Suc n) = (if x \<noteq> y then Some False else memeq a b n)"
| "memeq _ _ (Suc n) = None"

definition TO_IP :: "u8 \<Rightarrow> u8 \<Rightarrow> u8 \<Rightarrow> u8 \<Rightarrow> u32" where
  "TO_IP a0 a1 a2 a3 =
     push_bit 24 (ucast a0 AND 0xff) OR push_bit 16 (ucast a1 AND 0xff)
     OR push_bit 8 (ucast a2 AND 0xff) OR push_bit 0 (ucast a3 AND 0xff)"

definition FROM_IP :: "u32 \<Rightarrow> u32 list" where
  "FROM_IP ip = [drop_bit 24 ip AND 0xFF, drop_bit 16 ip AND 0xFF,
                 drop_bit 8 ip AND 0xFF, drop_bit 0 ip AND 0xFF]"

definition BCD_TO_BIN :: "u8 \<Rightarrow> nat" where
  "BCD_TO_BIN bcd = unat (drop_bit 4 bcd) * 10 + unat (bcd AND 0x0F)"

section \<open>Byte order\<close>

definition bswap16 :: "u16 \<Rightarrow> u16" where
  "bswap16 num = push_bit 8 (num AND 0xFF) OR (drop_bit 8 num AND 0xFF)"

definition bswap32 :: "u32 \<Rightarrow> u32" where
  "bswap32 num = push_bit 24 (num AND 0xFF) OR push_bit 16 (drop_bit 8 num AND 0xFF)
     OR push_bit 8 (drop_bit 16 num AND 0xFF) OR (drop_bit 24 num AND 0xFF)"

section \<open>String hashes\<close>

text \<open>A C string is the list of its characters before the terminator; \<open>char\<close> is signed on
  the target, so the conversion to \<open>u64\<close> extends the sign.\<close>

definition char_u64 :: "char \<Rightarrow> u64" where
  "char_u64 c = scast (of_char c :: u8)"

fun hash_fnv1a_64 :: "string \<Rightarrow> u64 \<Rightarrow> u64" where
  "hash_fnv1a_64 [] hash = hash"
| "hash_fnv1a_64 (c # str) hash = hash_fnv1a_64 str ((hash XOR char_u64 c) * 1099511628211)"

definition fnv1a_64 :: "string \<Rightarrow> u64" where
  "fnv1a_64 str = hash_fnv1a_64 str 14695981039346656037"

fun hash_string_64 :: "string \<Rightarrow> u64 \<Rightarrow> u64" where
  "hash_string_64 [] hash = hash"
| "hash_string_64 (c # str) hash = hash_string_64 str (push_bit 1 hash + char_u64 c)"

section \<open>The random number generator\<close>

text \<open>The static seed is passed explicitly.\<close>

definition seed_random :: "u64 \<Rightarrow> u64" where
  "seed_random seed = seed"

definition random_number :: "u64 \<Rightarrow> u64 \<times> u64" where
  "random_number seed = (let seed' = seed * 6364136223846793005 + 1 in (seed', seed'))"

text \<open>\<open>random_number(min, max)\<close>: the modulus \<open>max - min + 1\<close> wraps to 0 on the full range, a
  division by zero (\<open>None\<close>).\<close>

definition random_number_range :: "u64 \<Rightarrow> u64 \<Rightarrow> u64 \<Rightarrow> (u64 \<times> u64) option" where
  "random_number_range mn mx seed =
     (let (r, seed') = random_number seed; m = mx - mn + 1
      in if m = 0 then None else Some (r mod m + mn, seed'))"

section \<open>Lemmas\<close>

lemma BIT_CHECK_bit: "BIT_CHECK x n \<longleftrightarrow> bit x n"
  by (simp add: BIT_CHECK_def bit_iff_and_drop_bit_eq_1 and_one_eq)

lemma bit_BIT: "bit (BIT n) i \<longleftrightarrow> i = n \<and> n < 64"
  by (auto simp: BIT_def bit_simps bit_1_iff)

lemma bit_BIT_SET: "bit (BIT_SET x n) i \<longleftrightarrow> bit x i \<or> (i = n \<and> n < 64)"
  by (auto simp: BIT_SET_def bit_simps bit_BIT)

lemma bit_BIT_CLEAR: "bit (BIT_CLEAR x n) i \<longleftrightarrow> bit x i \<and> i \<noteq> n"
  by (auto simp: BIT_CLEAR_def bit_simps bit_BIT dest: bit_imp_le_length)

lemma memeq_take:
  "n \<le> length a \<Longrightarrow> n \<le> length b \<Longrightarrow> memeq a b n = Some (take n a = take n b)"
proof (induction n arbitrary: a b)
  case (Suc n)
  then show ?case by (cases a; cases b) auto
qed simp

lemma bit_bswap16:
  "bit (bswap16 x) n \<longleftrightarrow> (if n < 8 then bit x (n + 8) else n < 16 \<and> bit x (n - 8))"
  unfolding bswap16_def and_ff
  by (auto simp: bit_or_iff bit_push_bit_iff bit_drop_bit_eq bit_take_bit_iff add.commute
      dest: bit_imp_le_length)

lemma bit_bswap32:
  "bit (bswap32 x) n \<longleftrightarrow>
     (if n < 8 then bit x (n + 24) else if n < 16 then bit x (n + 8)
      else if n < 24 then bit x (n - 8) else n < 32 \<and> bit x (n - 24))"
  unfolding bswap32_def and_ff
  by (auto simp: bit_or_iff bit_push_bit_iff bit_drop_bit_eq bit_take_bit_iff add.commute
      dest: bit_imp_le_length)

lemma bswap16_bswap16 [simp]: "bswap16 (bswap16 x) = x"
  by (rule bit_word_eqI) (auto simp: bit_bswap16)

lemma bswap32_bswap32 [simp]: "bswap32 (bswap32 x) = x"
  by (rule bit_word_eqI) (auto simp: bit_bswap32)

text \<open>Rounding to a power of two.\<close>

lemma pow2_minus_1: "2 ^ k - 1 = (mask k :: u64)"
  by (simp add: mask_eq_exp_minus_1)

lemma unat_align_down:
  assumes "k < 64"
  shows "unat (align_down a (2 ^ k)) = unat a - unat a mod 2 ^ k"
proof -
  have "a - take_bit k a = a AND NOT (take_bit k a)"
    by (rule disjunctive_diff_eq_and_not)
      (auto intro!: bit_word_eqI simp: bit_and_iff bit_not_iff bit_take_bit_iff)
  also have "\<dots> = align_down a (2 ^ k)"
    unfolding align_down_def pow2_minus_1
    by (rule bit_word_eqI) (auto simp: bit_and_iff bit_not_iff bit_take_bit_iff bit_mask_iff)
  finally have "align_down a (2 ^ k) = a - take_bit k a" ..
  moreover have t: "unat (take_bit k a) = unat a mod 2 ^ k"
    by (simp only: unsigned_take_bit_eq) (simp only: take_bit_eq_mod)
  moreover have "take_bit k a \<le> a" by (simp add: word_le_nat_alt t)
  ultimately show ?thesis by (simp add: unat_sub)
qed

lemma align_up_props:
  assumes "k < 64" "unat a + 2 ^ k \<le> 2 ^ 64"
  shows "unat a \<le> unat (align_up a (2 ^ k))" "unat (align_up a (2 ^ k)) < unat a + 2 ^ k"
    "2 ^ k dvd unat (align_up a (2 ^ k))"
proof -
  have "unat (mask k :: u64) = mask k"
    using assms(1) by (intro bit_eqI) (auto simp: bit_unsigned_iff bit_mask_iff)
  then have "unat (2 ^ k - 1 :: u64) = 2 ^ k - 1" unfolding pow2_minus_1
    by (simp add: mask_eq_exp_minus_1)
  then have s: "unat (a + (2 ^ k - 1)) = unat a + (2 ^ k - 1)"
    using assms by (subst unat_plus_no_wrap) (auto simp: le_diff_conv2 Nat.add_diff_assoc)
  have eq: "unat (align_up a (2 ^ k)) = (unat a + (2 ^ k - 1)) - (unat a + (2 ^ k - 1)) mod 2 ^ k"
    using unat_align_down [OF assms(1), of "a + (2 ^ k - 1)"] s by (simp add: align_up_def align_down_def)
  define y p :: nat where "y = (unat a + (2 ^ k - 1)) mod 2 ^ k" and "p = 2 ^ k"
  have "y < p" by (simp add: y_def p_def)
  then have "unat a \<le> unat a + (p - 1) - y" "unat a + (p - 1) - y < unat a + p" by auto
  then show "unat a \<le> unat (align_up a (2 ^ k))" "unat (align_up a (2 ^ k)) < unat a + 2 ^ k"
    unfolding eq y_def [symmetric] by (simp_all add: p_def)
  show "2 ^ k dvd unat (align_up a (2 ^ k))" unfolding eq by (rule dvd_minus_mod)
qed

lemma is_aligned_pow2:
  assumes "k < 64"
  shows "is_aligned a (2 ^ k) \<longleftrightarrow> 2 ^ k dvd unat a"
proof -
  have "is_aligned a (2 ^ k) \<longleftrightarrow> unat (take_bit k a) = 0"
    unfolding is_aligned_def pow2_minus_1 by (simp only: take_bit_eq_mask unat_eq_zero)
  also have "unat (take_bit k a) = unat a mod 2 ^ k"
    by (simp only: unsigned_take_bit_eq) (simp only: take_bit_eq_mod)
  finally show ?thesis by (simp add: dvd_eq_mod_eq_0)
qed

lemma unat_pow2:
  assumes "k < 64"
  shows "unat (2 ^ k :: u64) = 2 ^ k"
proof -
  have "(2::nat) ^ k < 2 ^ 64" using assms by (intro power_strict_increasing) auto
  then show ?thesis using unat_of_nat [of "2 ^ k", where 'a = 64] by simp
qed

end
