(* ===== verification/Bitmap.thy ===== *)
theory Bitmap
  imports Common
begin

text \<open>
  \<open>src/kernel/src/utils/bitmap.cpp\<close> and \<open>src/kernel/include/utils/bitmap.hpp\<close>: a bit set in an
  array of \<open>u64\<close>. The pointer versions take the number of words as an argument and can run out
  of the array; the template versions take it from the array's type and cannot.
\<close>

definition bitmap_get_size :: "nat \<Rightarrow> nat" where
  "bitmap_get_size n = n * 64"

definition bitmap_get_p :: "u64 list \<Rightarrow> nat \<Rightarrow> nat \<Rightarrow> bool option" where
  "bitmap_get_p p_bitmap n index =
     (if bitmap_get_size n \<le> index then Some False
      else let item_index = index div 64; bit_index = index mod 64
           in if item_index < length p_bitmap
              then Some (BIT_CHECK (p_bitmap ! item_index) bit_index) else None)"

definition bitmap_set_p :: "u64 list \<Rightarrow> nat \<Rightarrow> nat \<Rightarrow> bool \<Rightarrow> u64 list option" where
  "bitmap_set_p p_bitmap n index state =
     (if bitmap_get_size n \<le> index then Some p_bitmap
      else let item_index = index div 64; bit_index = index mod 64
           in if item_index < length p_bitmap
              then Some (p_bitmap[item_index :=
                     (if state then BIT_SET (p_bitmap ! item_index) bit_index
                      else BIT_CLEAR (p_bitmap ! item_index) bit_index)])
              else None)"

definition bitmap_get :: "u64 list \<Rightarrow> nat \<Rightarrow> bool" where
  "bitmap_get bitmap index = the (bitmap_get_p bitmap (length bitmap) index)"

definition bitmap_set :: "u64 list \<Rightarrow> nat \<Rightarrow> bool \<Rightarrow> u64 list" where
  "bitmap_set bitmap index state = the (bitmap_set_p bitmap (length bitmap) index state)"

section \<open>The template versions stay in bounds\<close>

lemma bitmap_get_p_array:
  "bitmap_get_p bm (length bm) i = Some (bitmap_get bm i)"
proof -
  have "i div 64 < length bm" if "\<not> bitmap_get_size (length bm) \<le> i"
    using that by (simp add: bitmap_get_size_def div_less_iff_less_mult)
  then show ?thesis by (simp add: bitmap_get_def bitmap_get_p_def Let_def)
qed

lemma bitmap_set_p_array:
  "bitmap_set_p bm (length bm) i b = Some (bitmap_set bm i b)"
proof -
  have "i div 64 < length bm" if "\<not> bitmap_get_size (length bm) \<le> i"
    using that by (simp add: bitmap_get_size_def div_less_iff_less_mult)
  then show ?thesis by (simp add: bitmap_set_def bitmap_set_p_def Let_def)
qed

lemma bitmap_get_alt:
  "bitmap_get bm i \<longleftrightarrow> i < 64 * length bm \<and> bit (bm ! (i div 64)) (i mod 64)"
proof -
  have "i div 64 < length bm" if "i < 64 * length bm"
    using that by (simp add: div_less_iff_less_mult mult.commute)
  then show ?thesis
    by (auto simp: bitmap_get_def bitmap_get_p_def Let_def bitmap_get_size_def BIT_CHECK_bit
        mult.commute)
qed

lemma length_bitmap_set [simp]: "length (bitmap_set bm i b) = length bm"
  using bitmap_set_p_array [of bm i b]
  by (auto simp: bitmap_set_p_def Let_def split: if_splits dest!: sym [of "_[_ := _]"])

text \<open>Reading back: a set changes exactly its own bit, and only inside the bitmap.\<close>

lemma bitmap_get_set:
  "bitmap_get (bitmap_set bm i b) j =
     (if i = j \<and> i < 64 * length bm then b else bitmap_get bm j)"
proof (cases "i < 64 * length bm")
  case False
  then have "bitmap_set bm i b = bm"
    by (simp add: bitmap_set_def bitmap_set_p_def bitmap_get_size_def)
  with False show ?thesis by simp
next
  case True
  then have i: "i div 64 < length bm"
    by (simp add: div_less_iff_less_mult mult.commute)
  have set: "bitmap_set bm i b = bm[i div 64 :=
      (if b then BIT_SET (bm ! (i div 64)) (i mod 64)
       else BIT_CLEAR (bm ! (i div 64)) (i mod 64))]"
    using True i by (simp add: bitmap_set_def bitmap_set_p_def bitmap_get_size_def Let_def mult.commute)
  have ij: "i = j \<longleftrightarrow> i div 64 = j div 64 \<and> i mod 64 = j mod 64"
    by (metis div_mult_mod_eq)
  show ?thesis
    using True i unfolding bitmap_get_alt length_bitmap_set set
    by (cases "i div 64 = j div 64") (auto simp: bit_BIT_SET bit_BIT_CLEAR ij)
qed

text \<open>The set of free indices, the ghost resource of the page allocator.\<close>

definition free_bits :: "u64 list \<Rightarrow> nat set" where
  "free_bits bm = {i. i < 64 * length bm \<and> \<not> bitmap_get bm i}"

lemma finite_free_bits [simp]: "finite (free_bits bm)"
  by (simp add: free_bits_def)

lemma free_bits_set_True: "free_bits (bitmap_set bm i True) = free_bits bm - {i}"
  by (auto simp: free_bits_def bitmap_get_set)

lemma card_free_bits_bound: "card (free_bits bm) \<le> 64 * length bm"
proof -
  have "free_bits bm \<subseteq> {..<64 * length bm}" by (auto simp: free_bits_def)
  then have "card (free_bits bm) \<le> card {..<64 * length bm}" by (intro card_mono) auto
  then show ?thesis by simp
qed

end
