(* ===== verification/Ring_Buffer.thy ===== *)
theory Ring_Buffer
  imports Prelude
begin

text \<open>
  \<open>src/shared/include/std/ring_buffer.hpp\<close>: the head/tail ring buffer behind the packet queues
  of the network controller, the PS/2 event buffers and the window event queues.

  The locale \<open>bounded_fifo\<close> states the contract the clients rely on; the interpretation \<open>rb\<close>
  discharges it for the ring buffer, and the run lemmas proved in the locale then hold for it.
\<close>

section \<open>The container\<close>

text \<open>\<open>buffer_size\<close> is the template argument, here the length of the array.\<close>

record 'a ring_buffer =
  rb_buffer :: "'a list"
  rb_head :: nat
  rb_tail :: nat

definition buffer_size :: "'a ring_buffer \<Rightarrow> nat" where
  "buffer_size rb = length (rb_buffer rb)"

definition rb_new :: "'a list \<Rightarrow> 'a ring_buffer" where
  "rb_new storage = \<lparr>rb_buffer = storage, rb_head = 0, rb_tail = 0\<rparr>"

definition rb_insert :: "'a \<Rightarrow> 'a ring_buffer \<Rightarrow> bool \<times> 'a ring_buffer" where
  "rb_insert data rb =
     (let nxt = (rb_head rb + 1) mod buffer_size rb
      in if nxt = rb_tail rb then (False, rb)
         else (True, rb\<lparr>rb_buffer := (rb_buffer rb)[rb_head rb := data], rb_head := nxt\<rparr>))"

definition rb_get :: "'a ring_buffer \<Rightarrow> 'a option \<times> 'a ring_buffer" where
  "rb_get rb =
     (if rb_head rb = rb_tail rb then (None, rb)
      else (Some (rb_buffer rb ! rb_tail rb),
            rb\<lparr>rb_tail := (rb_tail rb + 1) mod buffer_size rb\<rparr>))"

definition rb_capacity :: "'a ring_buffer \<Rightarrow> nat" where
  "rb_capacity rb = buffer_size rb - 1"

definition rb_size :: "'a ring_buffer \<Rightarrow> nat" where
  "rb_size rb = (rb_head rb + buffer_size rb - rb_tail rb) mod buffer_size rb"

definition rb_empty :: "'a ring_buffer \<Rightarrow> bool" where
  "rb_empty rb \<longleftrightarrow> rb_head rb = rb_tail rb"

definition rb_full :: "'a ring_buffer \<Rightarrow> bool" where
  "rb_full rb \<longleftrightarrow> (rb_head rb + 1) mod buffer_size rb = rb_tail rb"

section \<open>Invariant and abstraction\<close>

definition rb_inv :: "'a ring_buffer \<Rightarrow> bool" where
  "rb_inv rb \<longleftrightarrow> rb_head rb < buffer_size rb \<and> rb_tail rb < buffer_size rb"

definition rb_list :: "'a ring_buffer \<Rightarrow> 'a list" where
  "rb_list rb = map (\<lambda>k. rb_buffer rb ! ((rb_tail rb + k) mod buffer_size rb)) [0..<rb_size rb]"

section \<open>The contract of a bounded queue\<close>

datatype 'a queue_op = Ins 'a | Get

datatype 'a queue_out = Accepted bool | Got "'a option"

text \<open>Running a sequence of operations, once on any queue, once on the abstract list.\<close>

fun run_queue ::
  "('a \<Rightarrow> 'q \<Rightarrow> bool \<times> 'q) \<Rightarrow> ('q \<Rightarrow> 'a option \<times> 'q) \<Rightarrow> 'a queue_op list \<Rightarrow> 'q \<Rightarrow> 'a queue_out list \<times> 'q"
where
  "run_queue ins get [] q = ([], q)"
| "run_queue ins get (Ins x # ops) q =
     (case ins x q of (b, q') \<Rightarrow> case run_queue ins get ops q' of (os, q'') \<Rightarrow> (Accepted b # os, q''))"
| "run_queue ins get (Get # ops) q =
     (case get q of (r, q') \<Rightarrow> case run_queue ins get ops q' of (os, q'') \<Rightarrow> (Got r # os, q''))"

definition list_ins :: "nat \<Rightarrow> 'a \<Rightarrow> 'a list \<Rightarrow> bool \<times> 'a list" where
  "list_ins cap x xs = (if length xs < cap then (True, xs @ [x]) else (False, xs))"

definition list_get :: "'a list \<Rightarrow> 'a option \<times> 'a list" where
  "list_get xs = (case xs of [] \<Rightarrow> (None, []) | x # xs' \<Rightarrow> (Some x, xs'))"

locale bounded_fifo =
  fixes ins :: "'a \<Rightarrow> 'q \<Rightarrow> bool \<times> 'q"
    and get :: "'q \<Rightarrow> 'a option \<times> 'q"
    and contents :: "'q \<Rightarrow> 'a list"
    and cap :: "'q \<Rightarrow> nat"
    and inv :: "'q \<Rightarrow> bool"
  assumes ins_inv: "inv q \<Longrightarrow> inv (snd (ins x q))"
    and get_inv: "inv q \<Longrightarrow> inv (snd (get q))"
    and ins_cap: "inv q \<Longrightarrow> cap (snd (ins x q)) = cap q"
    and get_cap: "inv q \<Longrightarrow> cap (snd (get q)) = cap q"
    and ins_contents:
      "inv q \<Longrightarrow> (fst (ins x q), contents (snd (ins x q))) = list_ins (cap q) x (contents q)"
    and get_contents:
      "inv q \<Longrightarrow> (fst (get q), contents (snd (get q))) = list_get (contents q)"
    and contents_cap: "inv q \<Longrightarrow> length (contents q) \<le> cap q"
begin

lemma ins_split:
  "inv q \<Longrightarrow> ins x q = (b, q') \<Longrightarrow>
   inv q' \<and> cap q' = cap q \<and> list_ins (cap q) x (contents q) = (b, contents q')"
  using ins_inv [of q x] ins_cap [of q x] ins_contents [of q x] by simp

lemma get_split:
  "inv q \<Longrightarrow> get q = (r, q') \<Longrightarrow>
   inv q' \<and> cap q' = cap q \<and> list_get (contents q) = (r, contents q')"
  using get_inv [of q] get_cap [of q] get_contents [of q] by simp

text \<open>Every run of the queue answers exactly as the bounded list does.\<close>

lemma run_refines:
  "inv q \<Longrightarrow> run_queue ins get ops q = (os, q') \<Longrightarrow>
   inv q' \<and> cap q' = cap q \<and>
   run_queue (list_ins (cap q)) list_get ops (contents q) = (os, contents q')"
proof (induction ops arbitrary: q os)
  case (Cons op ops)
  show ?case
  proof (cases op)
    case (Ins x)
    obtain b q1 where 1: "ins x q = (b, q1)" by fastforce
    obtain os1 where 2: "run_queue ins get ops q1 = (os1, q')" "os = Accepted b # os1"
      using Cons.prems(2) Ins 1 by (auto split: prod.splits)
    from ins_split [OF Cons.prems(1) 1] Cons.IH [OF _ 2(1)] Ins 2(2) show ?thesis by auto
  next
    case Get
    obtain r q1 where 1: "get q = (r, q1)" by fastforce
    obtain os1 where 2: "run_queue ins get ops q1 = (os1, q')" "os = Got r # os1"
      using Cons.prems(2) Get 1 by (auto split: prod.splits)
    from get_split [OF Cons.prems(1) 1] Cons.IH [OF _ 2(1)] Get 2(2) show ?thesis by auto
  qed
qed simp

text \<open>What is accepted comes out again, in order.\<close>

lemma ins_then_contents:
  "inv q \<Longrightarrow> fst (ins x q) \<longleftrightarrow> length (contents q) < cap q"
  using ins_contents [of q x] by (auto simp: list_ins_def split: if_splits)

end

section \<open>The ring buffer implements the contract\<close>

lemma rb_size_alt:
  "rb_inv rb \<Longrightarrow>
   rb_size rb = (if rb_tail rb \<le> rb_head rb then rb_head rb - rb_tail rb
                 else rb_head rb + buffer_size rb - rb_tail rb)"
  by (auto simp: rb_size_def rb_inv_def mod_if)

lemma rb_size_less: "rb_inv rb \<Longrightarrow> rb_size rb < buffer_size rb"
  by (simp add: rb_size_def rb_inv_def)

lemma length_rb_list [simp]: "length (rb_list rb) = rb_size rb"
  by (simp add: rb_list_def)

lemma rb_full_iff: "rb_inv rb \<Longrightarrow> rb_full rb \<longleftrightarrow> rb_size rb = rb_capacity rb"
  by (auto simp: rb_size_alt rb_full_def rb_capacity_def rb_inv_def Suc_mod_once)

lemma rb_slot_mod:
  "rb_inv rb \<Longrightarrow> k < buffer_size rb \<Longrightarrow>
   (rb_tail rb + k) mod buffer_size rb =
   (if rb_tail rb + k < buffer_size rb then rb_tail rb + k else rb_tail rb + k - buffer_size rb)"
  by (simp add: rb_inv_def mod_add_once)

lemma rb_slot_head: "rb_inv rb \<Longrightarrow> (rb_tail rb + rb_size rb) mod buffer_size rb = rb_head rb"
  using rb_size_alt [of rb] rb_size_less [of rb]
  by (auto simp: rb_slot_mod rb_inv_def split: if_splits)

lemma rb_slot_other:
  "rb_inv rb \<Longrightarrow> k < rb_size rb \<Longrightarrow> (rb_tail rb + k) mod buffer_size rb \<noteq> rb_head rb"
  using rb_size_alt [of rb] rb_size_less [of rb]
  by (auto simp: rb_slot_mod rb_inv_def split: if_splits)

lemma nth_rb_list:
  "k < rb_size rb \<Longrightarrow> rb_list rb ! k = rb_buffer rb ! ((rb_tail rb + k) mod buffer_size rb)"
  by (simp add: rb_list_def)

lemma rb_insert_full: "rb_full rb \<Longrightarrow> rb_insert x rb = (False, rb)"
  by (simp add: rb_insert_def rb_full_def)

lemma rb_insert_ok:
  assumes "rb_inv rb" "\<not> rb_full rb"
  shows "fst (rb_insert x rb)" and "rb_inv (snd (rb_insert x rb))"
    and "buffer_size (snd (rb_insert x rb)) = buffer_size rb"
    and "rb_size (snd (rb_insert x rb)) = Suc (rb_size rb)"
    and "rb_list (snd (rb_insert x rb)) = rb_list rb @ [x]"
proof -
  let ?rb = "snd (rb_insert x rb)"
  have eq: "rb_insert x rb = (True, rb\<lparr>rb_buffer := (rb_buffer rb)[rb_head rb := x],
      rb_head := (rb_head rb + 1) mod buffer_size rb\<rparr>)"
    using assms(2) by (simp add: rb_insert_def rb_full_def Let_def)
  show "fst (rb_insert x rb)" by (simp add: eq)
  show size: "buffer_size ?rb = buffer_size rb" by (simp add: eq buffer_size_def)
  show inv: "rb_inv ?rb" using assms(1) size by (auto simp: eq rb_inv_def)
  show sz: "rb_size ?rb = Suc (rb_size rb)"
    using rb_size_alt [OF inv] rb_size_alt [OF assms(1)] size assms
    by (auto simp: eq rb_full_def rb_inv_def Suc_mod_once split: if_splits)
  show "rb_list ?rb = rb_list rb @ [x]"
  proof (rule nth_equalityI)
    fix k assume "k < length (rb_list ?rb)"
    then have k: "k < Suc (rb_size rb)" by (simp add: sz)
    let ?i = "(rb_tail rb + k) mod buffer_size rb"
    have "rb_list ?rb ! k = (rb_buffer rb)[rb_head rb := x] ! ?i"
      using k by (simp add: nth_rb_list sz size) (simp add: eq)
    moreover have "?i < buffer_size rb" using assms(1) by (simp add: rb_inv_def)
    moreover have "?i = rb_head rb" if "\<not> k < rb_size rb"
      using k that rb_slot_head [OF assms(1)] by (simp add: less_Suc_eq)
    moreover have "?i \<noteq> rb_head rb" if "k < rb_size rb"
      using rb_slot_other [OF assms(1) that] .
    ultimately show "rb_list ?rb ! k = (rb_list rb @ [x]) ! k"
      using k by (cases "k < rb_size rb")
        (auto simp: nth_append nth_rb_list buffer_size_def less_Suc_eq)
  qed (simp add: sz)
qed

lemma rb_get_empty: "rb_inv rb \<Longrightarrow> rb_empty rb \<Longrightarrow> rb_get rb = (None, rb) \<and> rb_list rb = []"
  by (simp add: rb_get_def rb_empty_def rb_list_def rb_size_alt)

lemma rb_get_ok:
  assumes "rb_inv rb" "\<not> rb_empty rb"
  shows "rb_inv (snd (rb_get rb))" and "buffer_size (snd (rb_get rb)) = buffer_size rb"
    and "\<exists>x xs. rb_list rb = x # xs \<and> fst (rb_get rb) = Some x \<and> rb_list (snd (rb_get rb)) = xs"
proof -
  let ?rb = "snd (rb_get rb)"
  have eq: "rb_get rb = (Some (rb_buffer rb ! rb_tail rb),
      rb\<lparr>rb_tail := (rb_tail rb + 1) mod buffer_size rb\<rparr>)"
    using assms(2) by (simp add: rb_get_def rb_empty_def)
  show size: "buffer_size ?rb = buffer_size rb" by (simp add: eq buffer_size_def)
  show inv: "rb_inv ?rb" using assms(1) size by (auto simp: eq rb_inv_def)
  have sz: "rb_size rb = Suc (rb_size ?rb)"
    using rb_size_alt [OF inv] rb_size_alt [OF assms(1)] size assms
    by (auto simp: eq rb_empty_def rb_inv_def Suc_mod_once split: if_splits)
  have hd: "rb_list rb ! 0 = rb_buffer rb ! rb_tail rb"
    using assms(1) sz by (simp add: nth_rb_list rb_inv_def)
  have tl: "rb_list ?rb = tl (rb_list rb)"
  proof (rule nth_equalityI)
    fix k assume "k < length (rb_list ?rb)"
    then have k: "k < rb_size ?rb" by simp
    have "rb_list ?rb ! k = rb_buffer rb ! ((rb_tail rb + 1 + k) mod buffer_size rb)"
      using k by (simp add: nth_rb_list size) (simp add: eq mod_simps)
    then show "rb_list ?rb ! k = tl (rb_list rb) ! k"
      using k by (simp add: nth_tl nth_rb_list sz)
  qed (simp add: sz)
  have "rb_list rb \<noteq> []" using sz by (metis length_rb_list list.size(3) nat.distinct(1))
  then show "\<exists>x xs. rb_list rb = x # xs \<and> fst (rb_get rb) = Some x \<and> rb_list ?rb = xs"
    using hd tl by (cases "rb_list rb") (auto simp: eq)
qed

interpretation rb: bounded_fifo rb_insert rb_get rb_list rb_capacity rb_inv
proof unfold_locales
  fix q :: "'a ring_buffer" and x
  assume inv: "rb_inv q"
  show "rb_inv (snd (rb_insert x q))"
    using inv rb_insert_ok(2) [OF inv] by (cases "rb_full q") (auto simp: rb_insert_full)
  show "rb_inv (snd (rb_get q))"
    using inv rb_get_ok(1) [OF inv] by (cases "rb_empty q") (auto simp: rb_get_empty)
  show "rb_capacity (snd (rb_insert x q)) = rb_capacity q"
    using rb_insert_ok(3) [OF inv]
    by (cases "rb_full q") (auto simp: rb_insert_full rb_capacity_def)
  show "rb_capacity (snd (rb_get q)) = rb_capacity q"
    using rb_get_ok(2) [OF inv] inv
    by (cases "rb_empty q") (auto simp: rb_get_empty rb_capacity_def)
  show "(fst (rb_insert x q), rb_list (snd (rb_insert x q))) = list_ins (rb_capacity q) x (rb_list q)"
    using rb_insert_ok [OF inv, of x] rb_full_iff [OF inv] rb_size_less [OF inv]
    by (cases "rb_full q") (auto simp: rb_insert_full list_ins_def rb_capacity_def)
  show "(fst (rb_get q), rb_list (snd (rb_get q))) = list_get (rb_list q)"
    using rb_get_ok(3) [OF inv] rb_get_empty [OF inv]
    by (cases "rb_empty q") (auto simp: list_get_def)
  show "length (rb_list q) \<le> rb_capacity q"
    using rb_size_less [OF inv] by (simp add: rb_capacity_def)
qed

lemma rb_new_inv: "storage \<noteq> [] \<Longrightarrow> rb_inv (rb_new storage) \<and> rb_list (rb_new storage) = []"
  by (simp add: rb_inv_def rb_new_def buffer_size_def rb_list_def rb_size_def)

section \<open>Properties\<close>

text \<open>
  C6. From a new ring buffer over an array of N > 0 slots, every sequence of inserts and gets
  answers exactly as a FIFO list bounded by N - 1 elements: what is accepted comes out once and in
  order, an insert is refused exactly when N - 1 elements wait, a get fails exactly when none does.
\<close>

theorem ring_buffer_is_bounded_fifo:
  assumes "storage \<noteq> []"
  shows "fst (run_queue rb_insert rb_get ops (rb_new storage)) =
         fst (run_queue (list_ins (length storage - 1)) list_get ops [])"
proof -
  obtain os q where run: "run_queue rb_insert rb_get ops (rb_new storage) = (os, q)" by fastforce
  have "rb_capacity (rb_new storage) = length storage - 1"
    by (simp add: rb_capacity_def buffer_size_def rb_new_def)
  with rb.run_refines [OF _ run] rb_new_inv [OF assms] run show ?thesis by simp
qed

theorem ring_buffer_is_bounded_fifo_witness:
  "fst (run_queue rb_insert rb_get [Ins 1, Ins 2, Ins 3, Get, Get, Get] (rb_new [0, 0, 0 :: nat])) =
   [Accepted True, Accepted True, Accepted False, Got (Some 1), Got (Some 2), Got None]"
  using ring_buffer_is_bounded_fifo
    [of "[0, 0, 0 :: nat]" "[Ins 1, Ins 2, Ins 3, Get, Get, Get]"]
  by (simp add: list_ins_def list_get_def)

end
