(* ===== verification/Containers.thy ===== *)
theory Containers
  imports Prelude
begin

text \<open>
  \<open>src/shared/include/std/array.hpp\<close> (\<open>dynamic_array\<close>) and \<open>src/shared/include/std/map.hpp\<close>
  (\<open>linear_map\<close>).

  A \<open>dynamic_array\<close> is modelled down to its storage: a list of \<open>capacity\<close> slots, each holding a
  constructed element (\<open>Some\<close>) or raw memory (\<open>None\<close>). The moves and explicit destructor calls of
  the code are slot updates; reading or destroying a raw slot, or touching a slot outside the
  storage, makes the operation \<open>None\<close>. Every operation that allocates takes the answer of its
  \<open>malloc_aligned\<close> as a boolean.

  A \<open>linear_map\<close> is the list of its pairs, i.e. the contents of its \<open>dynamic_array\<close>, under the
  assumption that growing it succeeds. The locale \<open>key_value_store\<close> is the contract its clients use.
\<close>

section \<open>The dynamic array\<close>

record 'a dynamic_array =
  da_slots :: "'a option list"
  da_size :: nat

definition da_capacity :: "'a dynamic_array \<Rightarrow> nat" where
  "da_capacity a = length (da_slots a)"

definition da_empty :: "'a dynamic_array" where
  "da_empty = \<lparr>da_slots = [], da_size = 0\<rparr>"

text \<open>\<open>new (&data[i]) T(move(data[j])); data[j].~T();\<close> as one step on the storage.\<close>

definition move_slot :: "'a option list \<Rightarrow> nat \<Rightarrow> nat \<Rightarrow> 'a option list option" where
  "move_slot ss i j =
     (if i < length ss \<and> j < length ss \<and> ss ! j \<noteq> None
      then Some (ss[i := ss ! j, j := None]) else None)"

definition destroy_slot :: "'a option list \<Rightarrow> nat \<Rightarrow> 'a option list option" where
  "destroy_slot ss i = (if i < length ss \<and> ss ! i \<noteq> None then Some (ss[i := None]) else None)"

definition construct_slot :: "'a option list \<Rightarrow> nat \<Rightarrow> 'a \<Rightarrow> 'a option list option" where
  "construct_slot ss i x = (if i < length ss then Some (ss[i := Some x]) else None)"

text \<open>The loop \<open>for (i = index; i < size - 1; i++)\<close> of \<open>delete_at\<close>; \<open>n\<close> counts its iterations.\<close>

fun shift_down :: "'a option list \<Rightarrow> nat \<Rightarrow> nat \<Rightarrow> 'a option list option" where
  "shift_down ss i 0 = Some ss"
| "shift_down ss i (Suc n) = do { ss' \<leftarrow> move_slot ss i (i + 1); shift_down ss' (i + 1) n }"

text \<open>The loop \<open>for (i = size; i > index; --i)\<close> of \<open>insert_at\<close>.\<close>

fun shift_up :: "'a option list \<Rightarrow> nat \<Rightarrow> nat \<Rightarrow> 'a option list option" where
  "shift_up ss i 0 = Some ss"
| "shift_up ss i (Suc n) = do { ss' \<leftarrow> move_slot ss i (i - 1); shift_up ss' (i - 1) n }"

definition da_resize :: "bool \<Rightarrow> nat \<Rightarrow> 'a dynamic_array \<Rightarrow> bool \<times> 'a dynamic_array" where
  "da_resize alloc_ok new_size a =
     (if new_size \<le> da_capacity a then (False, a)
      else if \<not> alloc_ok then (False, a)
      else (True, a\<lparr>da_slots := take (da_size a) (da_slots a) @ replicate (new_size - da_size a) None\<rparr>))"

definition da_insert_back :: "bool \<Rightarrow> 'a \<Rightarrow> 'a dynamic_array \<Rightarrow> 'a dynamic_array option" where
  "da_insert_back alloc_ok value a =
     (let a' = (if da_size a = da_capacity a then snd (da_resize alloc_ok (da_capacity a + 2) a) else a)
      in do { ss \<leftarrow> construct_slot (da_slots a') (da_size a') value;
              Some (a'\<lparr>da_slots := ss, da_size := da_size a' + 1\<rparr>) })"

definition da_delete_at :: "nat \<Rightarrow> 'a dynamic_array \<Rightarrow> (bool \<times> 'a dynamic_array) option" where
  "da_delete_at index a =
     (if da_size a \<le> index then Some (False, a)
      else do { ss \<leftarrow> destroy_slot (da_slots a) index;
                ss' \<leftarrow> shift_down ss index (da_size a - 1 - index);
                Some (True, a\<lparr>da_slots := ss', da_size := da_size a - 1\<rparr>) })"

definition da_insert_at :: "bool \<Rightarrow> nat \<Rightarrow> 'a \<Rightarrow> 'a dynamic_array \<Rightarrow> (bool \<times> 'a dynamic_array) option" where
  "da_insert_at alloc_ok index value a =
     (if da_size a < index then Some (False, a)
      else let a' = (if da_size a = da_capacity a then snd (da_resize alloc_ok (da_capacity a + 2) a) else a)
      in do { ss \<leftarrow> shift_up (da_slots a') (da_size a') (da_size a' - index);
              ss' \<leftarrow> construct_slot ss index value;
              Some (True, a'\<lparr>da_slots := ss', da_size := da_size a' + 1\<rparr>) })"

fun destroy_first :: "'a option list \<Rightarrow> nat \<Rightarrow> 'a option list option" where
  "destroy_first ss 0 = Some ss"
| "destroy_first ss (Suc n) = do { ss' \<leftarrow> destroy_first ss n; destroy_slot ss' n }"

definition da_clear :: "'a dynamic_array \<Rightarrow> 'a dynamic_array option" where
  "da_clear a = do { ss \<leftarrow> destroy_first (da_slots a) (da_size a);
                     Some (a\<lparr>da_slots := ss, da_size := 0\<rparr>) }"

definition da_length :: "'a dynamic_array \<Rightarrow> nat" where
  "da_length a = da_size a"

definition da_get_at :: "'a dynamic_array \<Rightarrow> nat \<Rightarrow> 'a option" where
  "da_get_at a index = (if index < da_capacity a then da_slots a ! index else None)"

text \<open>Well-formed: exactly the first \<open>size\<close> slots are constructed. The contents are those elements.\<close>

definition da_inv :: "'a dynamic_array \<Rightarrow> bool" where
  "da_inv a \<longleftrightarrow> da_size a \<le> da_capacity a \<and>
     (\<forall>i < da_capacity a. da_slots a ! i \<noteq> None \<longleftrightarrow> i < da_size a)"

definition da_list :: "'a dynamic_array \<Rightarrow> 'a list" where
  "da_list a = map the (take (da_size a) (da_slots a))"

section \<open>The dynamic array implements a list\<close>

text \<open>The storage of a well-formed array, in closed form.\<close>

definition storage :: "'a list \<Rightarrow> nat \<Rightarrow> 'a option list" where
  "storage xs n = map Some xs @ replicate n None"

lemma length_storage [simp]: "length (storage xs n) = length xs + n"
  by (simp add: storage_def)

lemma storage_nth:
  "i < length xs + n \<Longrightarrow> storage xs n ! i = (if i < length xs then Some (xs ! i) else None)"
  by (auto simp: storage_def nth_append)

text \<open>A record over such storage is well-formed and holds the list.\<close>

lemma da_of_storage:
  assumes "da_slots a = storage xs n" "da_size a = length xs"
  shows "da_inv a" and "da_list a = xs" and "da_capacity a = length xs + n"
  using assms by (auto simp: da_inv_def da_list_def da_capacity_def storage_nth)
    (simp add: storage_def o_def)

lemma da_inv_E:
  assumes "da_inv a"
  obtains n xs where "da_slots a = storage xs n" "da_size a = length xs" "da_list a = xs"
    "da_capacity a = length xs + n"
proof -
  define xs where "xs = da_list a"
  define n where "n = da_capacity a - da_size a"
  have le: "da_size a \<le> length (da_slots a)"
    using assms by (simp add: da_inv_def da_capacity_def)
  have size: "da_size a = length xs" using le by (simp add: xs_def da_list_def)
  have "da_slots a = storage xs n"
  proof (rule nth_equalityI)
    show "length (da_slots a) = length (storage xs n)"
      using le size by (simp add: n_def da_capacity_def)
    fix i assume i: "i < length (da_slots a)"
    then have "da_slots a ! i \<noteq> None \<longleftrightarrow> i < length xs"
      using assms size by (simp add: da_inv_def da_capacity_def)
    moreover have "xs ! i = the (da_slots a ! i)" if "i < length xs"
      using that le by (simp add: xs_def da_list_def)
    moreover have "i < length xs + n" using i le size by (simp add: n_def da_capacity_def)
    ultimately show "da_slots a ! i = storage xs n ! i"
      by (cases "i < length xs") (auto simp: storage_nth)
  qed
  with size da_of_storage [OF this size] show ?thesis by (intro that) auto
qed

lemma storage_snoc: "construct_slot (storage xs (Suc n)) (length xs) x = Some (storage (xs @ [x]) n)"
  by (simp add: construct_slot_def storage_def list_update_append)

lemma take_storage: "take (length xs) (storage xs n) = map Some xs"
  by (simp add: storage_def)

lemma da_resize_ok:
  assumes "da_inv a"
  shows "da_inv (snd (da_resize ok m a)) \<and> da_list (snd (da_resize ok m a)) = da_list a \<and>
    da_size (snd (da_resize ok m a)) = da_size a \<and>
    (fst (da_resize ok m a) \<longleftrightarrow> ok \<and> da_capacity a < m) \<and>
    da_capacity (snd (da_resize ok m a)) = (if fst (da_resize ok m a) then m else da_capacity a)"
proof (cases "da_capacity a < m \<and> ok")
  case False
  with assms show ?thesis by (auto simp: da_resize_def)
next
  case True
  obtain n xs where n: "da_slots a = storage xs n" "da_size a = length xs" "da_list a = xs"
    "da_capacity a = length xs + n" using da_inv_E [OF assms] .
  let ?b = "snd (da_resize ok m a)"
  have "da_slots ?b = storage xs (m - length xs)" "da_size ?b = length xs" "fst (da_resize ok m a)"
    using True n by (auto simp: da_resize_def take_storage) (simp add: storage_def)
  from da_of_storage [OF this(1,2)] this True n show ?thesis by simp
qed

text \<open>Appending: the list grows by the element, unless the array is full and the allocation fails;
  then the code writes past the storage.\<close>

lemma da_insert_back_ok:
  assumes "da_inv a" "da_size a < da_capacity a \<or> ok"
  shows "\<exists>a'. da_insert_back ok x a = Some a' \<and> da_inv a' \<and> da_list a' = da_list a @ [x]"
proof -
  define b where "b = (if da_size a = da_capacity a then snd (da_resize ok (da_capacity a + 2) a) else a)"
  have b: "da_inv b" "da_list b = da_list a" "da_size b < da_capacity b"
    using assms da_resize_ok [OF assms(1), of ok "da_capacity a + 2"]
    by (auto simp: b_def da_inv_def)
  obtain n xs where n: "da_slots b = storage xs n" "da_size b = length xs" "da_list b = xs"
    "da_capacity b = length xs + n" using da_inv_E [OF b(1)] .
  with b(3) obtain m where m: "n = Suc m" by (cases n) auto
  let ?c = "b\<lparr>da_slots := storage (xs @ [x]) m, da_size := length xs + 1\<rparr>"
  have "da_insert_back ok x a = Some ?c"
    unfolding da_insert_back_def Let_def b_def [symmetric] n(1) m n(2) storage_snoc by simp
  moreover have "da_inv ?c \<and> da_list ?c = xs @ [x]"
    using da_of_storage [of ?c "xs @ [x]" m] by simp
  ultimately show ?thesis using b(2) n(3) by auto
qed

lemma da_insert_back_overflow:
  "da_inv a \<Longrightarrow> da_size a = da_capacity a \<Longrightarrow> da_insert_back False x a = None"
  by (simp add: da_insert_back_def da_resize_def construct_slot_def da_capacity_def)

lemma shift_down_eq:
  assumes "i + n < length ss" "\<forall>j. i < j \<and> j \<le> i + n \<longrightarrow> ss ! j \<noteq> None"
  shows "shift_down ss i n =
    Some (take i ss @ take n (drop (Suc i) ss) @ (if n = 0 then [ss ! i] else [None]) @ drop (i + n + 1) ss)"
  using assms
proof (induction n arbitrary: i ss)
  case 0
  then show ?case by (simp add: id_take_nth_drop [symmetric])
next
  case (Suc n)
  let ?ss = "ss[i := ss ! Suc i, Suc i := None]"
  have mv: "move_slot ss i (i + 1) = Some ?ss"
    using Suc.prems by (simp add: move_slot_def)
  have "shift_down ?ss (i + 1) n =
    Some (take (i + 1) ?ss @ take n (drop (Suc (i + 1)) ?ss) @ (if n = 0 then [?ss ! (i + 1)] else [None])
          @ drop (i + 1 + n + 1) ?ss)"
    using Suc.prems by (intro Suc.IH) auto
  moreover have "take (i + 1) ?ss = take i ss @ [ss ! Suc i]"
    using Suc.prems by (intro nth_equalityI) (auto simp: nth_append less_Suc_eq)
  moreover have "drop (Suc (Suc i)) ?ss = drop (Suc (Suc i)) ss"
    by (simp add: drop_update_cancel)
  moreover have "drop (i + 1 + n + 1) ?ss = drop (i + Suc n + 1) ss"
    by (simp add: drop_update_cancel)
  moreover have "take (Suc n) (drop (Suc i) ss) = ss ! Suc i # take n (drop (Suc (Suc i)) ss)"
    using Suc.prems by (simp add: Cons_nth_drop_Suc [symmetric])
  ultimately show ?case using Suc.prems mv by simp
qed

lemma da_delete_at_ok:
  assumes "da_inv a"
  shows "\<exists>a'. da_delete_at i a = Some (i < da_size a, a') \<and> da_inv a' \<and>
    da_list a' = take i (da_list a) @ drop (Suc i) (da_list a)"
proof (cases "i < da_size a")
  case False
  with assms show ?thesis by (auto simp: da_delete_at_def da_list_def)
next
  case True
  obtain n xs where n: "da_slots a = storage xs n" "da_size a = length xs" "da_list a = xs"
    "da_capacity a = length xs + n" using da_inv_E [OF assms] .
  let ?m = "length xs - 1 - i" let ?ss = "(storage xs n)[i := None]"
  let ?ys = "take i xs @ drop (Suc i) xs"
  have d: "destroy_slot (storage xs n) i = Some ?ss"
    using True n by (simp add: destroy_slot_def storage_nth)
  have "shift_down ?ss i ?m =
    Some (take i ?ss @ take ?m (drop (Suc i) ?ss) @ (if ?m = 0 then [?ss ! i] else [None]) @ drop (i + ?m + 1) ?ss)"
    using True n by (intro shift_down_eq) (auto simp: storage_nth nth_list_update)
  also have "\<dots> = Some (storage ?ys (Suc n))"
    using True n(2) by (simp add: storage_def take_map drop_map)
  finally have s: "shift_down ?ss i ?m = Some (storage ?ys (Suc n))" .
  let ?c = "a\<lparr>da_slots := storage ?ys (Suc n), da_size := length xs - 1\<rparr>"
  have "da_delete_at i a = Some (True, ?c)"
    using True n(1,2) by (simp add: da_delete_at_def d s [simplified])
  moreover have "da_inv ?c \<and> da_list ?c = ?ys"
    using True n(2) da_of_storage [of ?c ?ys "Suc n"] by simp
  ultimately show ?thesis using True n(3) by auto
qed

lemma destroy_first_storage:
  "k \<le> length xs \<Longrightarrow> destroy_first (map Some xs @ zs) k = Some (replicate k None @ drop k (map Some xs) @ zs)"
proof (induction k)
  case (Suc k)
  then have "drop k (map Some xs) = Some (xs ! k) # drop (Suc k) (map Some xs)"
    by (simp add: Cons_nth_drop_Suc [symmetric] drop_map)
  with Suc show ?case
    by (simp add: destroy_slot_def nth_append list_update_append replicate_app_Cons_same)
qed simp

lemma da_clear_ok:
  assumes "da_inv a"
  shows "\<exists>a'. da_clear a = Some a' \<and> da_inv a' \<and> da_list a' = []"
proof -
  obtain n xs where n: "da_slots a = storage xs n" "da_size a = length xs" using da_inv_E [OF assms] .
  let ?c = "a\<lparr>da_slots := replicate (length xs + n) None, da_size := 0\<rparr>"
  have "da_clear a = Some ?c"
    using n destroy_first_storage [of "length xs" xs "replicate n None"]
    by (simp add: da_clear_def storage_def replicate_add)
  moreover have "da_inv ?c \<and> da_list ?c = []" by (simp add: da_inv_def da_capacity_def da_list_def)
  ultimately show ?thesis by blast
qed

section \<open>The linear map\<close>

type_synonym ('k, 'v) linear_map = "('k \<times> 'v) list"

text \<open>\<open>get\<close>: the index of the first pair with the key; \<open>None\<close> is \<open>end()\<close>.\<close>

fun lm_get :: "'k \<Rightarrow> ('k, 'v) linear_map \<Rightarrow> nat option" where
  "lm_get key [] = None"
| "lm_get key (kv # m) = (if fst kv = key then Some 0 else map_option Suc (lm_get key m))"

definition lm_contains :: "'k \<Rightarrow> ('k, 'v) linear_map \<Rightarrow> bool" where
  "lm_contains key m \<longleftrightarrow> lm_get key m \<noteq> None"

definition lm_lookup :: "('k, 'v) linear_map \<Rightarrow> 'k \<Rightarrow> 'v option" where
  "lm_lookup m key = map_option (\<lambda>i. snd (m ! i)) (lm_get key m)"

text \<open>\<open>operator[]\<close>: the index of the value the reference points to, and the map after a
  default pair has been appended for a new key.\<close>

definition lm_index :: "'k \<Rightarrow> 'v \<Rightarrow> ('k, 'v) linear_map \<Rightarrow> nat \<times> ('k, 'v) linear_map" where
  "lm_index key dflt m =
     (case lm_get key m of Some i \<Rightarrow> (i, m) | None \<Rightarrow> (length m, m @ [(key, dflt)]))"

text \<open>\<open>map[key] = value\<close>: assignment through that reference.\<close>

definition lm_put :: "'k \<Rightarrow> 'v \<Rightarrow> 'v \<Rightarrow> ('k, 'v) linear_map \<Rightarrow> ('k, 'v) linear_map" where
  "lm_put key dflt value m =
     (let (i, m') = lm_index key dflt m in m'[i := (fst (m' ! i), value)])"

definition lm_insert :: "'k \<Rightarrow> 'v \<Rightarrow> ('k, 'v) linear_map \<Rightarrow> bool \<times> ('k, 'v) linear_map" where
  "lm_insert key value m = (if lm_contains key m then (False, m) else (True, m @ [(key, value)]))"

text \<open>\<open>remove\<close>: \<open>delete_at\<close> of the first index with the key.\<close>

fun lm_remove :: "'k \<Rightarrow> ('k, 'v) linear_map \<Rightarrow> bool \<times> ('k, 'v) linear_map" where
  "lm_remove key [] = (False, [])"
| "lm_remove key (kv # m) =
     (if fst kv = key then (True, m) else (case lm_remove key m of (b, m') \<Rightarrow> (b, kv # m')))"

definition lm_size :: "('k, 'v) linear_map \<Rightarrow> nat" where
  "lm_size m = length m"

section \<open>The contract of a key/value store\<close>

datatype ('k, 'v) store_op = Insert 'k 'v | Put 'k 'v | Remove 'k

text \<open>A run answers with the flags of its inserts and removes.\<close>

fun run_store ::
  "('k \<Rightarrow> 'v \<Rightarrow> 'm \<Rightarrow> bool \<times> 'm) \<Rightarrow> ('k \<Rightarrow> 'v \<Rightarrow> 'm \<Rightarrow> 'm) \<Rightarrow> ('k \<Rightarrow> 'm \<Rightarrow> bool \<times> 'm) \<Rightarrow>
   ('k, 'v) store_op list \<Rightarrow> 'm \<Rightarrow> bool list \<times> 'm"
where
  "run_store ins put rem [] m = ([], m)"
| "run_store ins put rem (Insert k v # ops) m =
     (case ins k v m of (b, m') \<Rightarrow> case run_store ins put rem ops m' of (bs, m'') \<Rightarrow> (b # bs, m''))"
| "run_store ins put rem (Put k v # ops) m = run_store ins put rem ops (put k v m)"
| "run_store ins put rem (Remove k # ops) m =
     (case rem k m of (b, m') \<Rightarrow> case run_store ins put rem ops m' of (bs, m'') \<Rightarrow> (b # bs, m''))"

definition map_ins :: "'k \<Rightarrow> 'v \<Rightarrow> ('k \<rightharpoonup> 'v) \<Rightarrow> bool \<times> ('k \<rightharpoonup> 'v)" where
  "map_ins k v f = (if f k = None then (True, f(k \<mapsto> v)) else (False, f))"

definition map_rem :: "'k \<Rightarrow> ('k \<rightharpoonup> 'v) \<Rightarrow> bool \<times> ('k \<rightharpoonup> 'v)" where
  "map_rem k f = (f k \<noteq> None, f(k := None))"

locale key_value_store =
  fixes lookup :: "'m \<Rightarrow> 'k \<Rightarrow> 'v option"
    and ins :: "'k \<Rightarrow> 'v \<Rightarrow> 'm \<Rightarrow> bool \<times> 'm"
    and put :: "'k \<Rightarrow> 'v \<Rightarrow> 'm \<Rightarrow> 'm"
    and rem :: "'k \<Rightarrow> 'm \<Rightarrow> bool \<times> 'm"
    and inv :: "'m \<Rightarrow> bool"
  assumes ins_inv: "inv m \<Longrightarrow> inv (snd (ins k v m))"
    and put_inv: "inv m \<Longrightarrow> inv (put k v m)"
    and rem_inv: "inv m \<Longrightarrow> inv (snd (rem k m))"
    and ins_law: "inv m \<Longrightarrow> (fst (ins k v m), lookup (snd (ins k v m))) = map_ins k v (lookup m)"
    and put_law: "inv m \<Longrightarrow> lookup (put k v m) = (lookup m)(k \<mapsto> v)"
    and rem_law: "inv m \<Longrightarrow> (fst (rem k m), lookup (snd (rem k m))) = map_rem k (lookup m)"
begin

lemma lookup_put: "inv m \<Longrightarrow> lookup (put k v m) j = (if j = k then Some v else lookup m j)"
  by (simp add: put_law)

lemma lookup_ins:
  "inv m \<Longrightarrow> lookup (snd (ins k v m)) j = (if j = k \<and> lookup m k = None then Some v else lookup m j)"
  using ins_law [of m k v] by (auto simp: map_ins_def split: if_splits)

lemma ins_flag: "inv m \<Longrightarrow> fst (ins k v m) \<longleftrightarrow> lookup m k = None"
  using ins_law [of m k v] by (auto simp: map_ins_def split: if_splits)

lemma lookup_rem: "inv m \<Longrightarrow> lookup (snd (rem k m)) j = (if j = k then None else lookup m j)"
  using rem_law [of m k] by (auto simp: map_rem_def)

lemma run_refines:
  "inv m \<Longrightarrow> run_store ins put rem ops m = (bs, m') \<Longrightarrow>
   inv m' \<and> run_store map_ins (\<lambda>k v f. f(k \<mapsto> v)) map_rem ops (lookup m) = (bs, lookup m')"
proof (induction ops arbitrary: m bs)
  case (Cons op ops)
  show ?case
  proof (cases op)
    case (Insert k v)
    then obtain b m1 bs1 where 1: "ins k v m = (b, m1)" "run_store ins put rem ops m1 = (bs1, m')"
      "bs = b # bs1" using Cons.prems(2) by (auto split: prod.splits)
    then show ?thesis
      using Insert Cons.IH [OF _ 1(2)] ins_inv [OF Cons.prems(1), of k v]
        ins_law [OF Cons.prems(1), of k v] by (auto split: prod.splits)
  next
    case (Put k v)
    then show ?thesis
      using Cons.prems Cons.IH [of "put k v m" bs] put_inv put_law by auto
  next
    case (Remove k)
    then obtain b m1 bs1 where 1: "rem k m = (b, m1)" "run_store ins put rem ops m1 = (bs1, m')"
      "bs = b # bs1" using Cons.prems(2) by (auto split: prod.splits)
    then show ?thesis
      using Remove Cons.IH [OF _ 1(2)] rem_inv [OF Cons.prems(1), of k]
        rem_law [OF Cons.prems(1), of k] by (auto split: prod.splits)
  qed
qed simp

end

section \<open>The linear map implements the contract\<close>

definition lm_inv :: "('k, 'v) linear_map \<Rightarrow> bool" where
  "lm_inv m \<longleftrightarrow> distinct (map fst m)"

lemma lm_lookup_Cons:
  "lm_lookup (kv # m) k = (if fst kv = k then Some (snd kv) else lm_lookup m k)"
  by (simp add: lm_lookup_def option.map_comp o_def)

lemma lm_lookup_map_of: "lm_lookup m = map_of m"
proof
  fix k show "lm_lookup m k = map_of m k"
    by (induction m) (auto simp: lm_lookup_Cons, simp add: lm_lookup_def)
qed

lemma lm_get_None: "lm_get k m = None \<longleftrightarrow> k \<notin> fst ` set m"
  by (induction m) auto

lemma lm_get_Some:
  "lm_get k m = Some i \<Longrightarrow> i < length m \<and> fst (m ! i) = k \<and> (\<forall>j < i. fst (m ! j) \<noteq> k)"
proof (induction m arbitrary: i)
  case (Cons kv m)
  then show ?case by (auto split: if_splits simp: nth_Cons split: nat.splits)
qed simp

lemma map_of_snoc: "k \<notin> fst ` set m \<Longrightarrow> map_of (m @ [(k, v)]) = (map_of m)(k \<mapsto> v)"
  by (induction m) (auto simp: fun_upd_twist)

lemma lm_put_new: "lm_get k m = None \<Longrightarrow> lm_put k d v m = m @ [(k, v)]"
  by (simp add: lm_put_def lm_index_def)

lemma lm_put_old: "lm_get k m = Some i \<Longrightarrow> lm_put k d v m = m[i := (k, v)]"
  using lm_get_Some [of k m i] by (simp add: lm_put_def lm_index_def)

lemma map_of_update_first:
  "lm_get k m = Some i \<Longrightarrow> map_of (m[i := (k, v)]) = (map_of m)(k \<mapsto> v)"
proof (induction m arbitrary: i)
  case (Cons kv m)
  show ?case
  proof (cases "fst kv = k")
    case True
    with Cons.prems show ?thesis by (cases kv) auto
  next
    case False
    then obtain j where "lm_get k m = Some j" "i = Suc j" using Cons.prems by auto
    with Cons.IH False show ?thesis by (cases kv) (auto simp: fun_upd_twist)
  qed
qed simp

lemma lm_remove_eq:
  "lm_remove k m = (k \<in> fst ` set m,
     (case lm_get k m of None \<Rightarrow> m | Some i \<Rightarrow> take i m @ drop (Suc i) m))"
  by (induction m) (auto split: option.splits prod.splits)

lemma lm_remove_filter: "lm_inv m \<Longrightarrow> snd (lm_remove k m) = filter (\<lambda>kv. fst kv \<noteq> k) m"
proof (induction m)
  case (Cons kv m)
  then show ?case
    by (auto simp: lm_inv_def image_iff split: prod.splits intro!: filter_True [symmetric])
qed simp

lemma fst_lm_remove: "fst (lm_remove k m) \<longleftrightarrow> k \<in> fst ` set m"
  by (simp add: lm_remove_eq)

lemma map_of_filter_key:
  "map_of (filter (\<lambda>kv. fst kv \<noteq> k) m) x = (if x = k then None else map_of m x)"
  by (induction m) auto

interpretation lm: key_value_store
  "lm_lookup :: ('k, 'v) linear_map \<Rightarrow> _" lm_insert "\<lambda>k. lm_put k d" lm_remove lm_inv for d
proof unfold_locales
  fix m :: "('k, 'v) linear_map" and k and v :: 'v
  assume inv: "lm_inv m"
  show "lm_inv (snd (lm_insert k v m))"
    using inv by (auto simp: lm_insert_def lm_inv_def lm_contains_def lm_get_None)
  show "lm_inv (lm_put k d v m)"
  proof (cases "lm_get k m")
    case None
    with inv show ?thesis by (auto simp: lm_put_new lm_inv_def lm_get_None)
  next
    case (Some i)
    then have "map fst (m[i := (k, v)]) = map fst m"
      using lm_get_Some [OF Some] by (metis fst_conv list_update_id map_update nth_map)
    with inv Some show ?thesis by (simp add: lm_put_old lm_inv_def)
  qed
  show "lm_inv (snd (lm_remove k m))"
    using inv by (simp add: lm_remove_filter) (simp add: lm_inv_def distinct_map_filter)
  show "(fst (lm_insert k v m), lm_lookup (snd (lm_insert k v m))) = map_ins k v (lm_lookup m)"
    by (auto simp: lm_insert_def lm_contains_def lm_get_None map_ins_def lm_lookup_map_of
        map_of_eq_None_iff map_of_snoc simp del: map_of_append)
  show "lm_lookup (lm_put k d v m) = (lm_lookup m)(k \<mapsto> v)"
    by (cases "lm_get k m")
      (auto simp: lm_put_new lm_put_old lm_lookup_map_of map_of_update_first lm_get_None
        map_of_snoc simp del: map_of_append)
  show "(fst (lm_remove k m), lm_lookup (snd (lm_remove k m))) = map_rem k (lm_lookup m)"
    using inv by (auto simp: fst_lm_remove lm_remove_filter lm_lookup_map_of map_rem_def
        map_of_eq_None_iff map_of_filter_key fun_eq_iff)
qed

section \<open>Properties\<close>

text \<open>
  From the empty map, every sequence of \<open>insert\<close>, \<open>map[key] = value\<close> and \<open>remove\<close> on the
  linear map answers as a finite map does (an insert is refused exactly on a present key, a remove
  succeeds exactly on one), and afterwards every lookup agrees with the finite map.
\<close>

theorem linear_map_is_finite_map:
  "run_store map_ins (\<lambda>k v f. f(k \<mapsto> v)) map_rem ops Map.empty =
   map_prod id lm_lookup (run_store lm_insert (\<lambda>k. lm_put k d) lm_remove ops [])"
proof -
  obtain bs m where run: "run_store lm_insert (\<lambda>k. lm_put k d) lm_remove ops [] = (bs, m)"
    by fastforce
  have inv: "lm_inv []" and empty: "lm_lookup [] = Map.empty"
    by (auto simp: lm_inv_def lm_lookup_def)
  from lm.run_refines [OF inv run] run show ?thesis by (simp add: empty)
qed

text \<open>
  On a well-formed dynamic array, \<open>delete_at\<close> never moves from, destroys or writes a slot it
  should not: it returns whether the index was valid, removes exactly that element and keeps the
  order of the rest, and the array stays well-formed (no leaked or doubly destroyed element).
\<close>

theorem dynamic_array_delete_at:
  assumes "da_inv a"
  shows "\<exists>a'. da_delete_at i a = Some (i < da_size a, a') \<and> da_inv a' \<and>
    da_list a' = take i (da_list a) @ drop (Suc i) (da_list a)"
  using assms by (rule da_delete_at_ok)

theorem dynamic_array_delete_at_witness:
  "\<exists>a'. da_delete_at 1 \<lparr>da_slots = [Some 5, Some 6, Some (7::nat), None], da_size = 3\<rparr> = Some (True, a') \<and>
     da_inv a' \<and> da_list a' = [5, 7]"
  using dynamic_array_delete_at
    [of "\<lparr>da_slots = [Some 5, Some 6, Some (7::nat), None], da_size = 3\<rparr>" 1]
  by (simp add: da_inv_def da_capacity_def da_list_def less_Suc_eq all_conj_distrib numeral_eq_Suc)

end
