(* ===== verification/Multiboot.thy ===== *)
theory Multiboot
  imports Common
begin

text \<open>
  \<open>src/kernel/src/multiboot.cpp\<close> and \<open>src/kernel/include/multiboot.hpp\<close>: walking the boot
  loader's information structure.

  The multiboot2 structure is a byte buffer; a pointer into it is an offset. All loops advance by
  a length read from the buffer, so they are \<open>partial_function\<close>s: the outer \<open>None\<close> is a read
  outside the buffer or a loop that never ends (a zero \<open>size\<close> or \<open>entry_size\<close>), the inner one is
  \<open>nullptr\<close>. Tags start at offset 8; a memory map tag has its entries at offset 16.
\<close>

definition MB_TAG_MMAP :: u32 where "MB_TAG_MMAP = 6"
definition MB_TAG_FRAMEBUFFER :: u32 where "MB_TAG_FRAMEBUFFER = 8"
definition MB_MEMORY_USABLE :: u32 where "MB_MEMORY_USABLE = 1"

definition mb2_tags :: nat where "mb2_tags = 8"
definition mb2_mmap_entries :: "nat \<Rightarrow> nat" where "mb2_mmap_entries tag = tag + 16"

definition mb2_tag_advance :: "nat \<Rightarrow> u32 \<Rightarrow> nat" where
  "mb2_tag_advance tag sz = tag + unat (align_up (ucast sz) 8)"

partial_function (option) mb2_find_mmap :: "u8 list \<Rightarrow> nat \<Rightarrow> nat option option" where
  "mb2_find_mmap mbi tag = do {
     ty \<leftarrow> rd32 mbi tag;
     if ty = 0 then Some None else do {
       sz \<leftarrow> rd32 mbi (tag + 4);
       if sz = 8 then Some None
       else if ty \<noteq> MB_TAG_MMAP then mb2_find_mmap mbi (mb2_tag_advance tag sz)
       else Some (Some tag) } }"

definition mb2_get_first_entry :: "u8 list \<Rightarrow> nat option option" where
  "mb2_get_first_entry mbi = map_option (map_option mb2_mmap_entries) (mb2_find_mmap mbi mb2_tags)"

text \<open>The inner loop of \<open>mb2_get_next_entry\<close>; \<open>stop\<close> is the end of the tag.\<close>

partial_function (option) mb2_next_in_tag ::
  "nat \<Rightarrow> nat \<Rightarrow> nat \<Rightarrow> bool \<Rightarrow> nat \<Rightarrow> nat option option" where
  "mb2_next_in_tag stop esz prev is_next mmap_entry =
     (if mmap_entry < stop then
        if is_next then Some (Some mmap_entry)
        else mb2_next_in_tag stop esz prev (mmap_entry = prev) (mmap_entry + esz)
      else Some None)"

definition mb2_get_next_entry :: "u8 list \<Rightarrow> nat \<Rightarrow> nat option option" where
  "mb2_get_next_entry mbi prev = do {
     r \<leftarrow> mb2_find_mmap mbi mb2_tags;
     case r of None \<Rightarrow> Some None
     | Some tag \<Rightarrow> do {
         sz \<leftarrow> rd32 mbi (tag + 4);
         esz \<leftarrow> rd32 mbi (tag + 8);
         mb2_next_in_tag (tag + unat sz) (unat esz) prev False (mb2_mmap_entries tag) } }"

partial_function (option) mb2_find_framebuffer :: "u8 list \<Rightarrow> nat \<Rightarrow> nat option option" where
  "mb2_find_framebuffer mbi tag = do {
     ty \<leftarrow> rd32 mbi tag;
     if ty = 0 then Some None
     else if ty \<noteq> MB_TAG_FRAMEBUFFER then do {
       sz \<leftarrow> rd32 mbi (tag + 4);
       mb2_find_framebuffer mbi (mb2_tag_advance tag sz) }
     else Some (Some tag) }"

definition mb2_get_framebuffer :: "u8 list \<Rightarrow> nat option option" where
  "mb2_get_framebuffer mbi = mb2_find_framebuffer mbi mb2_tags"

text \<open>Fields of a memory map entry.\<close>

definition mmap_addr :: "u8 list \<Rightarrow> nat \<Rightarrow> u64 option" where "mmap_addr mbi e = rd64 mbi e"
definition mmap_len :: "u8 list \<Rightarrow> nat \<Rightarrow> u64 option" where "mmap_len mbi e = rd64 mbi (e + 8)"
definition mmap_type :: "u8 list \<Rightarrow> nat \<Rightarrow> u32 option" where "mmap_type mbi e = rd32 mbi (e + 16)"

text \<open>\<open>for (e = mb2_get_first_entry(mb); e; e = mb2_get_next_entry(mb, e))\<close>, the loop of every
  client, as the list of the entries it visits.\<close>

partial_function (option) mb2_walk :: "u8 list \<Rightarrow> nat option \<Rightarrow> nat list option" where
  "mb2_walk mbi e = (case e of None \<Rightarrow> Some []
     | Some x \<Rightarrow> do { e' \<leftarrow> mb2_get_next_entry mbi x; xs \<leftarrow> mb2_walk mbi e'; Some (x # xs) })"

definition mb2_entries :: "u8 list \<Rightarrow> nat list option" where
  "mb2_entries mbi = do { e \<leftarrow> mb2_get_first_entry mbi; mb2_walk mbi e }"

section \<open>Multiboot 1\<close>

record multiboot1_info =
  mb1_flags :: u32
  mb1_mmap_length :: u32
  mb1_mmap_addr :: u32

text \<open>The first bound is computed in 32 bits, the second one in 64.\<close>

definition mb1_get_first_entry :: "multiboot1_info \<Rightarrow> u64 option" where
  "mb1_get_first_entry mbi =
     (if mb1_flags mbi AND 64 = 0 then None
      else if (ucast (mb1_mmap_addr mbi) :: u64) < ucast (mb1_mmap_addr mbi + mb1_mmap_length mbi)
      then Some (ucast (mb1_mmap_addr mbi)) else None)"

text \<open>\<open>prev_size\<close> is the \<open>size\<close> field of the entry at \<open>p_prev\<close>.\<close>

definition mb1_get_next_entry :: "multiboot1_info \<Rightarrow> u64 \<Rightarrow> u32 \<Rightarrow> u64 option" where
  "mb1_get_next_entry mbi p_prev prev_size =
     (let p = p_prev + ucast prev_size + 4
      in if p < ucast (mb1_mmap_addr mbi) + ucast (mb1_mmap_length mbi) then Some p else None)"

section \<open>The walk visits every entry of the memory map\<close>

text \<open>The offsets of the \<open>n\<close> entries of a tag.\<close>

definition entry_offsets :: "nat \<Rightarrow> nat \<Rightarrow> nat \<Rightarrow> nat list" where
  "entry_offsets tag esz n = map (\<lambda>k. mb2_mmap_entries tag + k * esz) [0..<n]"

lemma mb2_next_in_tag_True:
  "mb2_next_in_tag stop esz prev True e = Some (if e < stop then Some e else None)"
  by (subst mb2_next_in_tag.simps) simp

text \<open>Scanning from entry \<open>j\<close> for the successor of entry \<open>k\<close>.\<close>

lemma mb2_next_in_tag_scan:
  assumes "0 < esz" "stop = base + n * esz" "j \<le> k" "k < n"
  shows "mb2_next_in_tag stop esz (base + k * esz) False (base + j * esz) =
    Some (if Suc k < n then Some (base + Suc k * esz) else None)"
  using assms(3)
proof (induction rule: inc_induct)
  case base
  have "base + k * esz < stop" using assms by simp
  moreover have "base + Suc k * esz < stop \<longleftrightarrow> Suc k < n"
    using assms by (simp only: nat_add_left_cancel_less mult_less_cancel2 simp_thms)
  ultimately show ?case
    by (subst mb2_next_in_tag.simps)
      (simp add: mb2_next_in_tag_True add.assoc add.commute [of esz])
next
  case (step m)
  then have "base + m * esz < stop" "m * esz \<noteq> k * esz" using assms by auto
  with step.IH show ?case
    by (subst mb2_next_in_tag.simps) (simp add: add.assoc add.commute [of esz])
qed

text \<open>A memory map tag whose length is exactly its header and \<open>n\<close> entries.\<close>

definition mmap_tag_at :: "u8 list \<Rightarrow> nat \<Rightarrow> nat \<Rightarrow> nat \<Rightarrow> bool" where
  "mmap_tag_at mbi tag esz n \<longleftrightarrow> mb2_find_mmap mbi mb2_tags = Some (Some tag) \<and> 0 < esz \<and>
     map_option unat (rd32 mbi (tag + 4)) = Some (16 + n * esz) \<and>
     map_option unat (rd32 mbi (tag + 8)) = Some esz"

lemma mb2_get_next_entry_at:
  assumes "mmap_tag_at mbi tag esz n" "k < n"
  shows "mb2_get_next_entry mbi (mb2_mmap_entries tag + k * esz) =
    Some (if Suc k < n then Some (mb2_mmap_entries tag + Suc k * esz) else None)"
proof -
  have "mb2_next_in_tag (tag + (16 + n * esz)) esz (mb2_mmap_entries tag + k * esz) False
      (mb2_mmap_entries tag + 0 * esz) =
    Some (if Suc k < n then Some (mb2_mmap_entries tag + Suc k * esz) else None)"
    using assms by (intro mb2_next_in_tag_scan [where n = n])
      (auto simp: mmap_tag_at_def mb2_mmap_entries_def)
  then show ?thesis using assms by (auto simp: mb2_get_next_entry_def mmap_tag_at_def)
qed

lemma mb2_walk_from:
  assumes tag: "mmap_tag_at mbi tag esz n" and "k < n"
  shows "mb2_walk mbi (Some (mb2_mmap_entries tag + k * esz)) =
    Some (map (\<lambda>k. mb2_mmap_entries tag + k * esz) [k..<n])"
proof -
  have "k \<le> n - 1" using assms by simp
  then show ?thesis
  proof (induction rule: inc_induct)
    case base
    have "[n - 1..<n] = [n - 1]" using assms by (simp add: upt_rec)
    then show ?case
      using assms mb2_get_next_entry_at [OF tag, of "n - 1"]
      by (simp add: mb2_walk.simps [of _ "Some _"] mb2_walk.simps [of _ None])
  next
    case (step m)
    then have "[m..<n] = m # [Suc m..<n]" by (simp add: upt_rec)
    with step mb2_get_next_entry_at [OF tag, of m] \<open>m < n - 1\<close> show ?case
      by (simp add: mb2_walk.simps [of _ "Some (_ + m * _)"] less_diff_conv)
  qed
qed

section \<open>Properties\<close>

text \<open>
  For a boot information structure with a well-formed memory map tag of \<open>n > 0\<close> entries, the
  loop over \<open>mb2_get_first_entry\<close> / \<open>mb2_get_next_entry\<close> ends, and visits each entry of the tag
  exactly once, in order, whatever entry size the boot loader announces.
\<close>

theorem mb2_walk_complete:
  assumes "mmap_tag_at mbi tag esz n" and "0 < n"
  shows "mb2_entries mbi = Some (entry_offsets tag esz n)"
  using assms mb2_walk_from [OF assms]
  by (simp add: mb2_entries_def mb2_get_first_entry_def entry_offsets_def mmap_tag_at_def)

definition sample_mbi :: "u8 list" where
  "sample_mbi = [88,0,0,0, 0,0,0,0,  1,0,0,0, 9,0,0,0, 0, 0,0,0,0,0,0,0,
     6,0,0,0, 48,0,0,0, 16,0,0,0, 0,0,0,0] @ replicate 32 0 @ [0,0,0,0, 8,0,0,0]"

theorem mb2_walk_complete_witness:
  "mb2_entries sample_mbi = Some [40, 56]"
proof -
  have "align_up 9 8 = 16" by (simp add: align_up_def)
  then have "mb2_find_mmap sample_mbi mb2_tags = Some (Some 24)"
    by (subst mb2_find_mmap.simps, subst mb2_find_mmap.simps)
      (simp add: sample_mbi_def mb2_tags_def rd32_def rd16_def rd8_def MB_TAG_MMAP_def
        mb2_tag_advance_def nth_append nth_Cons')
  then have "mmap_tag_at sample_mbi 24 16 2"
    by (simp add: mmap_tag_at_def sample_mbi_def rd32_def rd16_def rd8_def nth_append nth_Cons')
  from mb2_walk_complete [OF this] show ?thesis
    by (simp add: entry_offsets_def mb2_mmap_entries_def upt_rec)
qed

end
