(* ===== verification/Pmem.thy ===== *)
theory Pmem
  imports Bitmap Multiboot "HOL-Library.Log_Nat"
begin

text \<open>
  \<open>src/kernel/src/memory/paging.cpp\<close>: the physical page allocator, a bitmap with one bit per
  4 KiB page (set = taken or reserved) and the amount of memory the boot loader reported.

  The functions run under \<open>global_pmem_mutex\<close> or before other threads exist, so each is one atomic
  step on the state. \<open>memory_size * 0.001\<close> is computed in IEEE double precision and truncated;
  \<open>round53\<close> is rounding to 53 significant bits, ties to even, on naturals.
\<close>

record pmem =
  global_page_bitmap :: "u64 list"
  memory_size :: u64

definition PAGING_BITMAP_SIZE :: nat where "PAGING_BITMAP_SIZE = 0x4000"

section \<open>The double-precision product\<close>

definition round53 :: "nat \<Rightarrow> nat" where
  "round53 n = (let k = floorlog 2 n - 53 in
     if k = 0 then n
     else let q = n div 2 ^ k; r = n mod 2 ^ k; half = 2 ^ (k - 1)
          in (if half < r \<or> (r = half \<and> odd q) then q + 1 else q) * 2 ^ k)"

text \<open>\<open>0.001\<close> is \<open>1152921504606847 / 2 ^ 60\<close> as a double.\<close>

definition memory_kb :: "u64 \<Rightarrow> nat" where
  "memory_kb sz = round53 (round53 (unat sz) * 1152921504606847) div 2 ^ 60"

section \<open>Operations\<close>

function pmem_find :: "u64 list \<Rightarrow> nat \<Rightarrow> nat \<Rightarrow> nat option" where
  "pmem_find bm stop i =
     (if i < stop then (if \<not> bitmap_get bm i then Some i else pmem_find bm stop (i + 1)) else None)"
  by auto
termination by (relation "measure (\<lambda>(bm, stop, i). stop - i)") auto

declare pmem_find.simps [simp del]

definition pmem_limit :: "'a pmem_scheme \<Rightarrow> nat" where
  "pmem_limit p = min (bitmap_get_size (length (global_page_bitmap p))) (memory_kb (memory_size p))"

text \<open>The returned pointer is 0 for \<open>nullptr\<close>.\<close>

definition pmem_get_page :: "'a pmem_scheme \<Rightarrow> u64 \<times> 'a pmem_scheme" where
  "pmem_get_page p =
     (case pmem_find (global_page_bitmap p) (pmem_limit p) 1 of
        None \<Rightarrow> (0, p)
      | Some i \<Rightarrow> (of_nat i * PAGE_SIZE,
                   p\<lparr>global_page_bitmap := bitmap_set (global_page_bitmap p) i True\<rparr>))"

text \<open>The loop of \<open>pmem_try_reserve_address\<close>; \<open>n\<close> is \<open>count - pages_reserved\<close>.\<close>

fun reserve_loop :: "u64 list \<Rightarrow> u64 \<Rightarrow> u64 \<Rightarrow> nat \<Rightarrow> bool \<times> u64 list" where
  "reserve_loop bm paddr pages_reserved 0 = (True, bm)"
| "reserve_loop bm paddr pages_reserved (Suc n) =
     (let address_current = paddr + pages_reserved * PAGE_SIZE
      in if of_nat (bitmap_get_size (length bm)) * PAGE_SIZE \<le> address_current then (False, bm)
         else let index = unat (address_current div PAGE_SIZE)
           in if bitmap_get_size (length bm) \<le> index then (False, bm)
              else reserve_loop (bitmap_set bm index True) paddr (pages_reserved + 1) n)"

definition pmem_try_reserve_address :: "u64 \<Rightarrow> nat \<Rightarrow> 'a pmem_scheme \<Rightarrow> bool \<times> 'a pmem_scheme" where
  "pmem_try_reserve_address paddr count p =
     (if \<not> is_aligned paddr PAGE_SIZE then (False, p)
      else case reserve_loop (global_page_bitmap p) paddr 0 count of
        (ok, bm) \<Rightarrow> (ok, p\<lparr>global_page_bitmap := bm\<rparr>))"

definition pmem_is_in_memory_range :: "u64 \<Rightarrow> 'a pmem_scheme \<Rightarrow> bool" where
  "pmem_is_in_memory_range address p \<longleftrightarrow>
     address \<le> of_nat (bitmap_get_size (length (global_page_bitmap p))) * PAGE_SIZE"

section \<open>Initialisation from the memory map\<close>

text \<open>First loop: add up the usable entries.\<close>

fun sum_usable :: "u8 list \<Rightarrow> nat list \<Rightarrow> u64 \<Rightarrow> u64 option" where
  "sum_usable mbi [] acc = Some acc"
| "sum_usable mbi (e # es) acc = do {
     ty \<leftarrow> mmap_type mbi e;
     len \<leftarrow> mmap_len mbi e;
     sum_usable mbi es (if ty = MB_MEMORY_USABLE then acc + len else acc) }"

text \<open>\<open>for (i = 0; i < len; i += PAGE_SIZE)\<close> of one reserved entry. The bump of \<open>i\<close> may wrap,
  so the loop is a \<open>partial_function\<close>.\<close>

partial_function (option) reserve_entry ::
  "u64 \<Rightarrow> u64 \<Rightarrow> u64 \<Rightarrow> 'a pmem_scheme \<Rightarrow> (bool \<times> 'a pmem_scheme) option" where
  "reserve_entry addr len i p =
     (if i < len then
        (case pmem_try_reserve_address (align_down addr PAGE_SIZE + i) 1 p of
           (ok, p') \<Rightarrow> if ok then reserve_entry addr len (i + PAGE_SIZE) p' else Some (False, p'))
      else Some (True, p))"

fun reserve_entries :: "u8 list \<Rightarrow> nat list \<Rightarrow> 'a pmem_scheme \<Rightarrow> (bool \<times> 'a pmem_scheme) option" where
  "reserve_entries mbi [] p = Some (True, p)"
| "reserve_entries mbi (e # es) p = do {
     ty \<leftarrow> mmap_type mbi e;
     if ty = MB_MEMORY_USABLE then reserve_entries mbi es p
     else do {
       addr \<leftarrow> mmap_addr mbi e;
       len \<leftarrow> mmap_len mbi e;
       if \<not> pmem_is_in_memory_range (addr + len) p then reserve_entries mbi es p
       else do {
         (ok, p') \<leftarrow> reserve_entry addr len 0 p;
         if ok then reserve_entries mbi es p' else Some (False, p') } } }"

definition pmem_init :: "u64 \<Rightarrow> u8 list \<Rightarrow> 'a pmem_scheme \<Rightarrow> (bool \<times> 'a pmem_scheme) option" where
  "pmem_init linker_end_kernel_phys mbi p = do {
     es \<leftarrow> mb2_entries mbi;
     total \<leftarrow> sum_usable mbi es (memory_size p);
     let p = p\<lparr>memory_size := total\<rparr>;
         kernel_page_count = unat (align_up linker_end_kernel_phys PAGE_SIZE_LARGE div PAGE_SIZE)
     in case pmem_try_reserve_address 0 kernel_page_count p of
          (ok, p) \<Rightarrow> if ok then reserve_entries mbi es p else Some (False, p) }"

section \<open>Lemmas\<close>

lemma pmem_find_Some:
  "pmem_find bm stop i = Some j \<Longrightarrow>
     i \<le> j \<and> j < stop \<and> \<not> bitmap_get bm j \<and> (\<forall>k. i \<le> k \<and> k < j \<longrightarrow> bitmap_get bm k)"
proof (induction bm stop i rule: pmem_find.induct)
  case (1 bm stop i)
  show ?case
  proof (cases "i < stop \<and> bitmap_get bm i")
    case True
    with 1 have "i + 1 \<le> j \<and> j < stop \<and> \<not> bitmap_get bm j \<and> (\<forall>k. i + 1 \<le> k \<and> k < j \<longrightarrow> bitmap_get bm k)"
      by (simp add: pmem_find.simps [of bm stop i])
    with True show ?thesis by (metis Suc_eq_plus1 Suc_leI add_leD1 le_neq_implies_less)
  next
    case False
    with "1.prems" show ?thesis by (auto simp: pmem_find.simps [of bm stop i] split: if_splits)
  qed
qed

lemma pmem_find_None:
  "pmem_find bm stop i = None \<longleftrightarrow> (\<forall>k. i \<le> k \<and> k < stop \<longrightarrow> bitmap_get bm k)"
proof (induction bm stop i rule: pmem_find.induct)
  case (1 bm stop i)
  have step: "(\<forall>k. i \<le> k \<and> k < stop \<longrightarrow> bitmap_get bm k) \<longleftrightarrow>
      (i < stop \<longrightarrow> bitmap_get bm i \<and> (\<forall>k. i + 1 \<le> k \<and> k < stop \<longrightarrow> bitmap_get bm k))"
    by (auto simp: le_less [of i] Suc_le_eq)
  show ?case
  proof (cases "i < stop \<and> bitmap_get bm i")
    case True
    then show ?thesis unfolding step using 1 by (simp add: pmem_find.simps [of bm stop i])
  next
    case False
    then show ?thesis unfolding step by (auto simp: pmem_find.simps [of bm stop i])
  qed
qed

text \<open>The pages that can still be handed out; the allocator's remaining budget.\<close>

definition avail :: "'a pmem_scheme \<Rightarrow> nat set" where
  "avail p = {i. 1 \<le> i \<and> i < pmem_limit p \<and> \<not> bitmap_get (global_page_bitmap p) i}"

lemma finite_avail [simp]: "finite (avail p)"
  by (simp add: avail_def)

definition bitmap_ok :: "'a pmem_scheme \<Rightarrow> bool" where
  "bitmap_ok p \<longleftrightarrow> length (global_page_bitmap p) = PAGING_BITMAP_SIZE"

text \<open>A page is taken when its bit is set.\<close>

definition page_taken :: "'a pmem_scheme \<Rightarrow> u64 \<Rightarrow> bool" where
  "page_taken p pa \<longleftrightarrow> bitmap_get (global_page_bitmap p) (unat pa div 4096)"

lemma pmem_limit_le: "bitmap_ok p \<Longrightarrow> pmem_limit p \<le> 1048576"
  by (simp add: pmem_limit_def bitmap_ok_def bitmap_get_size_def PAGING_BITMAP_SIZE_def)

lemma unat_page_addr: "i < 1048576 \<Longrightarrow> unat (of_nat i * PAGE_SIZE) = i * 4096"
  by (simp add: PAGE_SIZE_def unat_word_ariths unat_of_nat)

lemma pmem_get_page_cases:
  obtains (none) "avail p = {}" "pmem_get_page p = (0, p)"
  | (some) i where "i \<in> avail p" "\<forall>k \<in> avail p. i \<le> k"
      "pmem_get_page p = (of_nat i * PAGE_SIZE,
         p\<lparr>global_page_bitmap := bitmap_set (global_page_bitmap p) i True\<rparr>)"
proof (cases "pmem_find (global_page_bitmap p) (pmem_limit p) 1")
  case None
  then have "avail p = {}" by (auto simp: pmem_find_None avail_def)
  with None show thesis by (intro none) (auto simp: pmem_get_page_def)
next
  case (Some i)
  from pmem_find_Some [OF this] have "i \<in> avail p" "\<forall>k \<in> avail p. i \<le> k"
    by (auto simp: avail_def not_less [symmetric])
  with Some show thesis by (intro some) (auto simp: pmem_get_page_def)
qed

lemma avail_mark:
  assumes "i < 64 * length (global_page_bitmap p)"
  shows "avail (p\<lparr>global_page_bitmap := bitmap_set (global_page_bitmap p) i True\<rparr>) = avail p - {i}"
  using assms by (auto simp: avail_def bitmap_get_set pmem_limit_def)

lemma avail_index: "i \<in> avail p \<Longrightarrow> i < 64 * length (global_page_bitmap p)"
  by (simp add: avail_def pmem_limit_def bitmap_get_size_def mult.commute)

text \<open>The loop of \<open>pmem_try_reserve_address\<close> only ever takes pages.\<close>

lemma reserve_loop_keeps:
  "length (snd (reserve_loop bm pa k n)) = length bm \<and>
    (bitmap_get bm i \<longrightarrow> bitmap_get (snd (reserve_loop bm pa k n)) i)"
  by (induction bm pa k n rule: reserve_loop.induct) (auto simp: Let_def bitmap_get_set)

lemma pmem_try_reserve_bitmap:
  assumes "pmem_try_reserve_address pa n p = (ok, p')"
  obtains bm where "p' = p\<lparr>global_page_bitmap := bm\<rparr>"
    "length bm = length (global_page_bitmap p)"
    "\<And>i. bitmap_get (global_page_bitmap p) i \<Longrightarrow> bitmap_get bm i"
proof (cases "is_aligned pa PAGE_SIZE")
  case False
  with assms show thesis by (intro that [of "global_page_bitmap p"])
      (auto simp: pmem_try_reserve_address_def)
next
  case True
  let ?bm = "snd (reserve_loop (global_page_bitmap p) pa 0 n)"
  show thesis
  proof (rule that [of ?bm])
    show "p' = p\<lparr>global_page_bitmap := ?bm\<rparr>"
      using assms True by (auto simp: pmem_try_reserve_address_def split: prod.splits)
  qed (use reserve_loop_keeps in blast)+
qed

text \<open>What every operation of the allocator preserves: the bitmap keeps its size, a taken page
  stays taken, the limit does not move, and nothing becomes available.\<close>

definition pmem_grows :: "'a pmem_scheme \<Rightarrow> 'a pmem_scheme \<Rightarrow> bool" where
  "pmem_grows p p' \<longleftrightarrow> (bitmap_ok p \<longrightarrow> bitmap_ok p') \<and> pmem_limit p' = pmem_limit p \<and>
     avail p' \<subseteq> avail p \<and> (\<forall>a. page_taken p a \<longrightarrow> page_taken p' a)"

lemma pmem_grows_refl [inv_intros, simp]: "pmem_grows p p"
  by (simp add: pmem_grows_def)

lemma pmem_grows_trans [trans]: "pmem_grows p q \<Longrightarrow> pmem_grows q r \<Longrightarrow> pmem_grows p r"
  by (auto simp: pmem_grows_def)

lemma pmem_grows_bitmap:
  assumes "length bm = length (global_page_bitmap p)"
    and "\<And>i. bitmap_get (global_page_bitmap p) i \<Longrightarrow> bitmap_get bm i"
  shows "pmem_grows p (p\<lparr>global_page_bitmap := bm\<rparr>)"
  using assms by (auto simp: pmem_grows_def bitmap_ok_def pmem_limit_def avail_def page_taken_def)

lemma pmem_get_page_grows [inv_intros]: "pmem_grows p (snd (pmem_get_page p))"
  by (cases p rule: pmem_get_page_cases) (auto simp: bitmap_get_set intro!: pmem_grows_bitmap)

lemma pmem_try_reserve_grows [inv_intros]:
  "pmem_grows p (snd (pmem_try_reserve_address pa n p))"
proof -
  obtain ok p' where r: "pmem_try_reserve_address pa n p = (ok, p')" by fastforce
  then show ?thesis
    by (rule pmem_try_reserve_bitmap) (simp add: r pmem_grows_bitmap)
qed

text \<open>A successful reservation takes each of its pages, and a page-aligned block that ends below
  4 GiB is always granted.\<close>

lemma reserve_loop_ok:
  assumes "length bm = PAGING_BITMAP_SIZE" "unat pa mod 4096 = 0"
    and "unat pa + (unat k + n) * 4096 \<le> 4294967296"
  shows "fst (reserve_loop bm pa k n) \<and>
    (\<forall>j. unat pa div 4096 + unat k \<le> j \<and> j < unat pa div 4096 + unat k + n \<longrightarrow>
      bitmap_get (snd (reserve_loop bm pa k n)) j)"
  using assms
proof (induction bm pa k n rule: reserve_loop.induct)
  case (2 bm pa k n)
  let ?i = "unat pa div 4096 + unat k"
  have k: "unat k < 1048576" using "2.prems" by simp
  have "unat (k * PAGE_SIZE) = unat k * 4096"
    using k by (simp add: PAGE_SIZE_def unat_word_ariths)
  then have a: "unat (pa + k * PAGE_SIZE) = unat pa + unat k * 4096"
    using "2.prems" by (subst unat_plus_no_wrap) auto
  have i: "unat ((pa + k * PAGE_SIZE) div PAGE_SIZE) = ?i"
    unfolding unat_div a using "2.prems" by (simp add: PAGE_SIZE_def)
  have lim: "of_nat (bitmap_get_size (length bm)) * PAGE_SIZE = (4294967296 :: u64)"
    using "2.prems" by (simp add: bitmap_get_size_def PAGING_BITMAP_SIZE_def PAGE_SIZE_def)
  have lt: "\<not> 4294967296 \<le> pa + k * PAGE_SIZE"
    using a "2.prems" by (simp add: word_le_nat_alt)
  have ilt: "?i < 1048576" using "2.prems" by simp
  then have il: "\<not> bitmap_get_size (length bm) \<le> ?i"
    using "2.prems" by (simp add: bitmap_get_size_def PAGING_BITMAP_SIZE_def)
  have k1: "unat (k + 1) = Suc (unat k)"
    using k by (simp add: unat_word_ariths)
  have eq: "reserve_loop bm pa k (Suc n) = reserve_loop (bitmap_set bm ?i True) pa (k + 1) n"
    using lt il by (simp add: lim i Let_def)
  have IH: "fst (reserve_loop (bitmap_set bm ?i True) pa (k + 1) n) \<and>
    (\<forall>j. unat pa div 4096 + unat (k + 1) \<le> j \<and> j < unat pa div 4096 + unat (k + 1) + n \<longrightarrow>
      bitmap_get (snd (reserve_loop (bitmap_set bm ?i True) pa (k + 1) n)) j)"
    using "2.IH" [OF refl _ refl, unfolded lim i, OF lt il] "2.prems" k1 by simp
  have first: "bitmap_get (snd (reserve_loop (bitmap_set bm ?i True) pa (k + 1) n)) ?i"
    using reserve_loop_keeps [of "bitmap_set bm ?i True" pa "k + 1" n ?i] ilt "2.prems"
    by (simp add: bitmap_get_set PAGING_BITMAP_SIZE_def)
  show ?case unfolding eq
  proof (intro conjI allI impI)
    fix j assume j: "?i \<le> j \<and> j < ?i + Suc n"
    show "bitmap_get (snd (reserve_loop (bitmap_set bm ?i True) pa (k + 1) n)) j"
      using IH first j by (cases "j = ?i") (auto simp: k1)
  qed (use IH in blast)
qed auto

lemma is_aligned_4096: "is_aligned pa PAGE_SIZE \<longleftrightarrow> unat pa mod 4096 = 0"
proof -
  have "PAGE_SIZE - 1 = mask 12" by (simp add: PAGE_SIZE_def mask_eq_exp_minus_1)
  then have "pa AND (PAGE_SIZE - 1) = take_bit 12 pa" by (simp add: take_bit_eq_mask)
  then have "is_aligned pa PAGE_SIZE \<longleftrightarrow> unat (take_bit 12 pa) = 0"
    unfolding is_aligned_def by (simp only: unat_eq_zero)
  then show ?thesis by (simp add: unsigned_take_bit_eq take_bit_eq_mod unat_mod)
qed

lemma is_aligned_2mb: "is_aligned pa PAGE_SIZE_LARGE \<longleftrightarrow> unat pa mod 2097152 = 0"
proof -
  have "PAGE_SIZE_LARGE - 1 = mask 21" by (simp add: PAGE_SIZE_LARGE_def mask_eq_exp_minus_1)
  then have "pa AND (PAGE_SIZE_LARGE - 1) = take_bit 21 pa" by (simp add: take_bit_eq_mask)
  then have "is_aligned pa PAGE_SIZE_LARGE \<longleftrightarrow> unat (take_bit 21 pa) = 0"
    unfolding is_aligned_def by (simp only: unat_eq_zero)
  then show ?thesis by (simp add: unsigned_take_bit_eq take_bit_eq_mod unat_mod)
qed

lemma pmem_try_reserve_ok:
  assumes "bitmap_ok p" "unat pa mod 4096 = 0" "unat pa + n * 4096 \<le> 4294967296"
  shows "fst (pmem_try_reserve_address pa n p)"
    and "unat pa div 4096 \<le> j \<Longrightarrow> j < unat pa div 4096 + n \<Longrightarrow>
      bitmap_get (global_page_bitmap (snd (pmem_try_reserve_address pa n p))) j"
proof -
  have "fst (reserve_loop (global_page_bitmap p) pa 0 n) \<and>
    (\<forall>j. unat pa div 4096 \<le> j \<and> j < unat pa div 4096 + n \<longrightarrow>
      bitmap_get (snd (reserve_loop (global_page_bitmap p) pa 0 n)) j)"
    using reserve_loop_ok [of "global_page_bitmap p" pa 0 n] assms by (simp add: bitmap_ok_def)
  then show "fst (pmem_try_reserve_address pa n p)"
    "unat pa div 4096 \<le> j \<Longrightarrow> j < unat pa div 4096 + n \<Longrightarrow>
      bitmap_get (global_page_bitmap (snd (pmem_try_reserve_address pa n p))) j"
    using assms(2) by (auto simp: pmem_try_reserve_address_def is_aligned_4096 split: prod.splits)
qed

lemma pmem_get_page_spec:
  assumes "bitmap_ok p" and "pmem_get_page p = (r, p')"
  shows "(r = 0 \<longleftrightarrow> avail p = {}) \<and> (r = 0 \<longrightarrow> p' = p) \<and>
    (r \<noteq> 0 \<longrightarrow> unat r mod 4096 = 0 \<and> unat r < 4294967296 \<and> \<not> page_taken p r \<and>
       (\<forall>a. page_taken p' a \<longleftrightarrow> page_taken p a \<or> unat a div 4096 = unat r div 4096) \<and>
       avail p' = avail p - {unat r div 4096})"
proof (cases p rule: pmem_get_page_cases)
  case none
  with assms show ?thesis by simp
next
  case (some i)
  then have r: "r = of_nat i * PAGE_SIZE"
    and p': "p' = p\<lparr>global_page_bitmap := bitmap_set (global_page_bitmap p) i True\<rparr>"
    using assms(2) by auto
  have i: "0 < i" "i < 1048576" "\<not> bitmap_get (global_page_bitmap p) i"
    using some(1) pmem_limit_le [OF assms(1)] by (auto simp: avail_def)
  have ur: "unat r = i * 4096" unfolding r by (rule unat_page_addr [OF i(2)])
  have nz: "r \<noteq> 0" using ur i(1) by (metis mult_is_0 not_gr_zero unsigned_0 zero_neq_numeral)
  have len: "i < 64 * length (global_page_bitmap p)" using avail_index [OF some(1)] .
  show ?thesis
    using nz ur i len some(1) avail_mark [OF len]
    by (auto simp: p' page_taken_def bitmap_get_set)
qed

text \<open>A reservation takes only the pages it names.\<close>

definition reserve_set :: "u64 \<Rightarrow> u64 \<Rightarrow> nat \<Rightarrow> nat set" where
  "reserve_set pa k n = (\<lambda>j. unat ((pa + (k + of_nat j) * PAGE_SIZE) div PAGE_SIZE)) ` {..<n}"

lemma reserve_loop_only:
  "bitmap_get (snd (reserve_loop bm pa k n)) i \<Longrightarrow> bitmap_get bm i \<or> i \<in> reserve_set pa k n"
proof (induction n arbitrary: bm k)
  case (Suc n)
  define ix where "ix = unat ((pa + k * PAGE_SIZE) div PAGE_SIZE)"
  have step: "snd (reserve_loop bm pa k (Suc n)) \<in>
      {bm, snd (reserve_loop (bitmap_set bm ix True) pa (k + 1) n)}"
    by (simp add: Let_def ix_def)
  have "reserve_set pa (k + 1) n \<subseteq> reserve_set pa k (Suc n)"
  proof
    fix x assume "x \<in> reserve_set pa (k + 1) n"
    then obtain j where "j < n" "x = unat ((pa + (k + 1 + of_nat j) * PAGE_SIZE) div PAGE_SIZE)"
      by (auto simp: reserve_set_def)
    then show "x \<in> reserve_set pa k (Suc n)"
      unfolding reserve_set_def by (intro image_eqI [of _ _ "Suc j"]) (simp_all add: add.assoc)
  qed
  moreover have "ix \<in> reserve_set pa k (Suc n)"
    unfolding reserve_set_def ix_def by (intro image_eqI [of _ _ 0]) simp_all
  ultimately show ?case
    using step Suc.IH [of "bitmap_set bm ix True" "k + 1"] Suc.prems
    by (auto simp: bitmap_get_set split: if_splits)
qed simp

lemma pmem_try_reserve_only:
  assumes "pmem_try_reserve_address pa n p = (ok, p')"
  shows "avail p - reserve_set pa 0 n \<subseteq> avail p'"
proof (cases "is_aligned pa PAGE_SIZE")
  case True
  have "p' = p\<lparr>global_page_bitmap := snd (reserve_loop (global_page_bitmap p) pa 0 n)\<rparr>"
    using assms True by (auto simp: pmem_try_reserve_address_def split: prod.splits)
  then show ?thesis
    using reserve_loop_only [of "global_page_bitmap p" pa 0 n] reserve_loop_keeps [of "global_page_bitmap p" pa 0 n]
    by (auto simp: avail_def pmem_limit_def)
qed (use assms in \<open>auto simp: pmem_try_reserve_address_def\<close>)

section \<open>Properties\<close>

text \<open>
  C5. \<open>pmem_get_page\<close> never returns a page twice and never returns a reserved one: a non-null
  result is a page-aligned address below 4 GiB, not page 0, whose bit was clear and is now set; no
  other page changes state; and \<open>nullptr\<close> is returned exactly when no page is left.
\<close>

theorem pmem_get_page_fresh:
  assumes "bitmap_ok p" and "pmem_get_page p = (r, p')"
  shows "(r = 0 \<longleftrightarrow> avail p = {}) \<and> (r = 0 \<longrightarrow> p' = p) \<and>
    (r \<noteq> 0 \<longrightarrow> unat r mod 4096 = 0 \<and> unat r < 4294967296 \<and> \<not> page_taken p r \<and>
       (\<forall>a. page_taken p' a \<longleftrightarrow> page_taken p a \<or> unat a div 4096 = unat r div 4096) \<and>
       avail p' = avail p - {unat r div 4096})"
  using assms by (rule pmem_get_page_spec)

theorem pmem_get_page_fresh_witness:
  "\<exists>r p'. pmem_get_page \<lparr>global_page_bitmap = replicate PAGING_BITMAP_SIZE 0, memory_size = 8000000\<rparr> = (r, p') \<and>
     r \<noteq> 0 \<and> unat r mod 4096 = 0 \<and> \<not> page_taken p' 0 \<and> page_taken p' r"
proof -
  let ?p = "\<lparr>global_page_bitmap = replicate PAGING_BITMAP_SIZE 0, memory_size = 8000000\<rparr>"
  obtain r p' where g: "pmem_get_page ?p = (r, p')" by fastforce
  have get0: "\<not> bitmap_get (global_page_bitmap ?p) i" if "i < 64" for i
    using that by (simp add: bitmap_get_alt PAGING_BITMAP_SIZE_def)
  have "floorlog 2 (8000000 :: nat) = 23" by (simp add: compute_floorlog)
  moreover have "floorlog 2 (9223372036854776000000 :: nat) = 73" by (simp add: compute_floorlog)
  ultimately have "memory_kb 8000000 \<ge> 2"
    by (simp add: memory_kb_def round53_def Let_def)
  then have "1 \<in> avail ?p"
    using get0 [of 1] by (simp add: avail_def pmem_limit_def bitmap_get_size_def PAGING_BITMAP_SIZE_def)
  with pmem_get_page_fresh [OF _ g] have "r \<noteq> 0" "unat r mod 4096 = 0" "page_taken p' r"
    "page_taken p' 0 \<longleftrightarrow> page_taken ?p 0 \<or> 0 = unat r div 4096"
    by (auto simp: bitmap_ok_def PAGING_BITMAP_SIZE_def)
  moreover have "0 \<noteq> unat r div 4096"
    using \<open>r \<noteq> 0\<close> \<open>unat r mod 4096 = 0\<close> by (metis div_mult_mod_eq add_0 mult_0 unsigned_eq_0_iff)
  ultimately show ?thesis using g get0 [of 0] by (auto simp: page_taken_def)
qed

end
