(* ===== verification/Page_Table.thy ===== *)
theory Page_Table
  imports Pmem
begin

text \<open>
  \<open>src/kernel/src/arch/amd64/vmem.cpp\<close>: the four-level page tables of the amd64 port, mapped with
  2 MiB pages, and the recursive-slot macros of \<open>src/kernel/include/memory/paging.hpp\<close>.

  The state extends the page allocator with physical memory (a word per 8-byte aligned physical
  address), \<open>cr3\<close> and the MMIO window's bitmap. The code reaches the tables through the
  recursive slot 511; the operations below address the same table entries physically, and
  \<open>recursive_slot_resolves\<close> proves that the processor's walk of \<open>GET_PDPT_VIRT\<close> and the other
  macros' addresses ends at exactly those entries. The TLB is not modelled.
\<close>

record vm = pmem +
  phys_mem :: "u64 \<Rightarrow> u64"
  cr3 :: u64
  mapped_mmio_bitmap :: "u64 list"

section \<open>Table entries\<close>

definition PF_PRESENT :: u64 where "PF_PRESENT = 1"
definition PF_READ_WRITE :: u64 where "PF_READ_WRITE = 2"
definition PF_USER_SUPERVISOR :: u64 where "PF_USER_SUPERVISOR = 4"
definition PF_PAGE_SIZE :: u64 where "PF_PAGE_SIZE = 128"

text \<open>\<open>KPAGING_GET_PE\<close>: nine index bits of a virtual address.\<close>

definition pt_index :: "u64 \<Rightarrow> nat \<Rightarrow> u64" where
  "pt_index vaddr offset = drop_bit offset vaddr AND 0x1FF"

text \<open>Bits 12 to 51 of an entry are the physical address it refers to.\<close>

definition pt_frame :: "u64 \<Rightarrow> u64" where "pt_frame e = e AND 0x000FFFFFFFFFF000"

definition pt_present :: "u64 \<Rightarrow> bool" where "pt_present e \<longleftrightarrow> e AND 1 \<noteq> 0"

definition ent :: "'a vm_scheme \<Rightarrow> u64 \<Rightarrow> u64 \<Rightarrow> u64" where
  "ent vm table i = phys_mem vm (table + 8 * i)"

definition set_ent :: "u64 \<Rightarrow> u64 \<Rightarrow> u64 \<Rightarrow> 'a vm_scheme \<Rightarrow> 'a vm_scheme" where
  "set_ent table i v vm = vm\<lparr>phys_mem := (phys_mem vm)(table + 8 * i := v)\<rparr>"

text \<open>\<open>memzero(..., PAGE_SIZE)\<close> of a page-sized table.\<close>

definition zero_frame :: "u64 \<Rightarrow> 'a vm_scheme \<Rightarrow> 'a vm_scheme" where
  "zero_frame f vm = vm\<lparr>phys_mem := (\<lambda>a. if a AND NOT 0xFFF = f then 0 else phys_mem vm a)\<rparr>"

section \<open>The recursive slot\<close>

definition RECURSIVE_SLOT :: u64 where "RECURSIVE_SLOT = 511"
definition SIGN_EXT :: u64 where "SIGN_EXT = 0xFFFF000000000000"

definition GET_PML4_VIRT :: u64 where
  "GET_PML4_VIRT = SIGN_EXT OR push_bit 39 RECURSIVE_SLOT OR push_bit 30 RECURSIVE_SLOT
     OR push_bit 21 RECURSIVE_SLOT OR push_bit 12 RECURSIVE_SLOT"

definition GET_PDPT_VIRT :: "u64 \<Rightarrow> u64" where
  "GET_PDPT_VIRT pml4_index = SIGN_EXT OR push_bit 39 RECURSIVE_SLOT OR push_bit 30 RECURSIVE_SLOT
     OR push_bit 21 RECURSIVE_SLOT OR push_bit 12 pml4_index"

definition GET_PDT_VIRT :: "u64 \<Rightarrow> u64 \<Rightarrow> u64" where
  "GET_PDT_VIRT pml4_index pdpt_index = SIGN_EXT OR push_bit 39 RECURSIVE_SLOT
     OR push_bit 30 RECURSIVE_SLOT OR push_bit 21 pml4_index OR push_bit 12 pdpt_index"

text \<open>The processor's walk (AMD64 manual, four levels): the physical address, or \<open>None\<close> for a
  page fault. Bit 7 of a level-3 or level-2 entry ends the walk early.\<close>

definition mmu_walk :: "'a vm_scheme \<Rightarrow> u64 \<Rightarrow> u64 option" where
  "mmu_walk vm va =
     (let e4 = ent vm (pt_frame (cr3 vm)) (pt_index va 39);
          e3 = ent vm (pt_frame e4) (pt_index va 30);
          e2 = ent vm (pt_frame e3) (pt_index va 21);
          e1 = ent vm (pt_frame e2) (pt_index va 12)
      in if \<not> pt_present e4 \<or> \<not> pt_present e3 then None
         else if bit e3 7 then Some ((pt_frame e3 AND NOT 0x3FFFFFFF) OR (va AND 0x3FFFFFFF))
         else if \<not> pt_present e2 then None
         else if bit e2 7 then Some ((pt_frame e2 AND NOT 0x1FFFFF) OR (va AND 0x1FFFFF))
         else if \<not> pt_present e1 then None
         else Some (pt_frame e1 OR (va AND 0xFFF)))"

section \<open>Operations\<close>

text \<open>\<open>if (!KPAGING_CHECK_ENTRY(table, i)) { page = pmem_get_page(); ... memzero(...); }\<close>, the
  block that occurs for the top two levels. A null page is used as if it were a page.\<close>

definition pt_ensure :: "u64 \<Rightarrow> u64 \<Rightarrow> 'a vm_scheme \<Rightarrow> 'a vm_scheme" where
  "pt_ensure table i vm =
     (if pt_present (ent vm table i) then vm
      else case pmem_get_page vm of (page, vm1) \<Rightarrow>
        let vm2 = set_ent table i ((page AND NOT 0xFFF) OR PF_PRESENT OR PF_READ_WRITE) vm1
        in zero_frame (pt_frame (ent vm2 table i)) vm2)"

definition amd64_vmem_map_2mb :: "u64 \<Rightarrow> u64 \<Rightarrow> bool \<Rightarrow> 'a vm_scheme \<Rightarrow> bool \<times> 'a vm_scheme" where
  "amd64_vmem_map_2mb vaddr paddr is_kernel vm =
     (if \<not> is_aligned vaddr PAGE_SIZE_LARGE \<or> \<not> is_aligned paddr PAGE_SIZE_LARGE then (False, vm)
      else
        let pml4e = pt_index vaddr 39; pdpe = pt_index vaddr 30; pde = pt_index vaddr 21;
            pml4 = pt_frame (cr3 vm);
            vm1 = pt_ensure pml4 pml4e vm;
            pdpt = pt_frame (ent vm1 pml4 pml4e);
            vm2 = pt_ensure pdpt pdpe vm1;
            vm3 = (if \<not> is_kernel
                   then let vm' = set_ent pdpt pdpe (ent vm2 pdpt pdpe OR PF_USER_SUPERVISOR) vm2
                        in set_ent pml4 pml4e (ent vm' pml4 pml4e OR PF_USER_SUPERVISOR) vm'
                   else vm2);
            basic_page_flags = (if \<not> is_kernel then PF_PRESENT OR PF_READ_WRITE OR PF_USER_SUPERVISOR
                                else PF_PRESENT OR PF_READ_WRITE);
            pdt = pt_frame (ent vm3 pdpt pdpe)
        in (True, set_ent pdt pde ((paddr AND NOT 0x1FFFFF) OR PF_PAGE_SIZE OR basic_page_flags) vm3))"

definition amd64_vmem_unmap_2mb :: "u64 \<Rightarrow> 'a vm_scheme \<Rightarrow> bool \<times> 'a vm_scheme" where
  "amd64_vmem_unmap_2mb vaddr vm =
     (if \<not> is_aligned vaddr PAGE_SIZE_LARGE then (False, vm)
      else
        let pml4e = pt_index vaddr 39; pdpe = pt_index vaddr 30; pde = pt_index vaddr 21;
            pml4 = pt_frame (cr3 vm)
        in if \<not> pt_present (ent vm pml4 pml4e) then (False, vm)
           else let pdpt = pt_frame (ent vm pml4 pml4e)
             in if \<not> pt_present (ent vm pdpt pdpe) then (False, vm)
                else (True, set_ent (pt_frame (ent vm pdpt pdpe)) pde 0 vm))"

text \<open>0 is \<open>nullptr\<close>.\<close>

definition amd64_vmem_virtual_to_physical :: "'a vm_scheme \<Rightarrow> u64 \<Rightarrow> u64" where
  "amd64_vmem_virtual_to_physical vm vaddr =
     (let pml4e = pt_index vaddr 39; pdpe = pt_index vaddr 30; pde = pt_index vaddr 21;
          pml4 = pt_frame (cr3 vm)
      in if \<not> pt_present (ent vm pml4 pml4e) then 0
         else let pdpt = pt_frame (ent vm pml4 pml4e)
           in if \<not> pt_present (ent vm pdpt pdpe) then 0
              else let pdt = pt_frame (ent vm pdpt pdpe)
                in if \<not> pt_present (ent vm pdt pde) then 0
                   else (ent vm pdt pde AND NOT (PAGE_SIZE_LARGE - 1))
                        + (vaddr AND (PAGE_SIZE_LARGE - 1)))"

section \<open>Word facts\<close>

lemma bit_frame_mask: "bit (0x000FFFFFFFFFF000 :: u64) n \<longleftrightarrow> 12 \<le> n \<and> n < 52"
proof -
  have eq: "(0x000FFFFFFFFFF000 :: u64) = push_bit 12 (mask 40)" by (simp add: mask_eq_exp_minus_1)
  show ?thesis unfolding eq by (auto simp: bit_push_bit_iff bit_mask_iff)
qed

lemma bit_const_fff: "bit (0xFFF :: u64) n \<longleftrightarrow> n < 12"
proof -
  have eq: "(0xFFF :: u64) = mask 12" by (simp add: mask_eq_exp_minus_1)
  show ?thesis unfolding eq by (auto simp: bit_mask_iff)
qed

lemma bit_const_1ff: "bit (0x1FF :: u64) n \<longleftrightarrow> n < 9"
proof -
  have eq: "(0x1FF :: u64) = mask 9" by (simp add: mask_eq_exp_minus_1)
  show ?thesis unfolding eq by (auto simp: bit_mask_iff)
qed

lemma bit_const_2mb: "bit (0x1FFFFF :: u64) n \<longleftrightarrow> n < 21"
proof -
  have eq: "(0x1FFFFF :: u64) = mask 21" by (simp add: mask_eq_exp_minus_1)
  show ?thesis unfolding eq by (auto simp: bit_mask_iff)
qed

lemmas bit_consts = bit_frame_mask bit_const_fff bit_const_1ff bit_const_2mb

lemma bit_pt_frame [simp]: "bit (pt_frame e) n \<longleftrightarrow> 12 \<le> n \<and> n < 52 \<and> bit e n"
  unfolding pt_frame_def bit_and_iff bit_consts by auto

lemma pt_present_bit: "pt_present e \<longleftrightarrow> bit e 0"
  by (simp add: pt_present_def and_one_eq odd_iff_mod_2_eq_one bit_0)

lemma pt_index_lt: "pt_index va s < 512"
proof -
  have "pt_index va s \<le> 0x1FF" unfolding pt_index_def by (rule word_and_le1)
  then show ?thesis by (rule le_less_trans) simp
qed

lemma index_high_bits:
  assumes "i < 512" "bit (i :: u64) n"
  shows "n < 9"
proof -
  have "unat i < 2 ^ 9" using assms(1) by (simp add: word_less_nat_alt)
  then have "take_bit 9 i = i"
    by (simp add: word_unat_eq_iff unsigned_take_bit_eq take_bit_nat_eq_self)
  then show ?thesis using assms(2) by (metis bit_take_bit_iff)
qed

lemma pt_index_decode:
  assumes "i < 512" and "\<And>n. n < 9 \<Longrightarrow> bit va (s + n) \<longleftrightarrow> bit i n"
  shows "pt_index va s = i"
proof (rule bit_word_eqI)
  fix n show "bit (pt_index va s) n \<longleftrightarrow> bit i n"
    unfolding pt_index_def bit_and_iff bit_drop_bit_eq bit_consts
    using assms index_high_bits by auto
qed

section \<open>The recursive slot resolves to the tables\<close>

lemma bit_sign_ext: "bit SIGN_EXT n \<longleftrightarrow> 48 \<le> n \<and> n < 64"
proof -
  have eq: "SIGN_EXT = push_bit 48 (mask 16)" by (simp add: SIGN_EXT_def mask_eq_exp_minus_1)
  show ?thesis unfolding eq by (auto simp: bit_push_bit_iff bit_mask_iff)
qed

lemma bit_recursive_slot: "bit RECURSIVE_SLOT n \<longleftrightarrow> n < 9"
  using bit_const_1ff [of n] by (simp add: RECURSIVE_SLOT_def)

lemma times_8_push: "8 * (i :: u64) = push_bit 3 i"
  by (simp add: push_bit_eq_mult mult.commute)

lemma bit_entry_offset:
  assumes "i < (512 :: u64)"
  shows "bit (8 * i) n \<longleftrightarrow> 3 \<le> n \<and> n < 12 \<and> bit i (n - 3)"
  using index_high_bits [OF assms, of "n - 3"]
  by (auto simp: times_8_push bit_push_bit_iff dest: bit_imp_le_length)

text \<open>A page-aligned base plus an entry offset, bit by bit.\<close>

lemma bit_entry_addr:
  assumes "i < (512 :: u64)" and "\<And>n. n < 12 \<Longrightarrow> \<not> bit base n"
  shows "bit (base + 8 * i) n \<longleftrightarrow> (if n < 12 then 3 \<le> n \<and> bit i (n - 3) else bit base n)"
proof -
  have "base AND (8 * i) = 0"
    using assms by (intro bit_word_eqI) (auto simp: bit_and_iff bit_entry_offset)
  then have "base + 8 * i = base OR (8 * i)" by (rule disjunctive_add_eq_or)
  then show ?thesis using assms by (auto simp: bit_or_iff bit_entry_offset)
qed

lemma bit_GET_PDT_VIRT:
  assumes "i < 512" "j < 512"
  shows "bit (GET_PDT_VIRT i j) n \<longleftrightarrow> n < 64 \<and>
    (if n < 12 then False else if n < 21 then bit j (n - 12) else if n < 30 then bit i (n - 21)
     else True)"
  unfolding GET_PDT_VIRT_def bit_or_iff bit_push_bit_iff bit_sign_ext bit_recursive_slot
  using index_high_bits [OF assms(1), of "n - 21"] index_high_bits [OF assms(2), of "n - 12"]
  by auto

lemma GET_PDPT_VIRT_PDT: "GET_PDPT_VIRT i = GET_PDT_VIRT RECURSIVE_SLOT i"
  by (simp add: GET_PDPT_VIRT_def GET_PDT_VIRT_def)

lemma GET_PML4_VIRT_PDT: "GET_PML4_VIRT = GET_PDT_VIRT RECURSIVE_SLOT RECURSIVE_SLOT"
  by (simp add: GET_PML4_VIRT_def GET_PDT_VIRT_def)

lemma pt_index_recursive:
  assumes "i < 512" "j < 512" "k < 512"
  shows "pt_index (GET_PDT_VIRT i j + 8 * k) 39 = 511" "pt_index (GET_PDT_VIRT i j + 8 * k) 30 = 511"
    "pt_index (GET_PDT_VIRT i j + 8 * k) 21 = i" "pt_index (GET_PDT_VIRT i j + 8 * k) 12 = j"
    "(GET_PDT_VIRT i j + 8 * k) AND 0xFFF = 8 * k"
proof -
  have b: "bit (GET_PDT_VIRT i j + 8 * k) n \<longleftrightarrow>
      (if n < 12 then 3 \<le> n \<and> bit k (n - 3) else bit (GET_PDT_VIRT i j) n)" for n
    using assms by (intro bit_entry_addr) (auto simp: bit_GET_PDT_VIRT)
  show "pt_index (GET_PDT_VIRT i j + 8 * k) 39 = 511"
    "pt_index (GET_PDT_VIRT i j + 8 * k) 30 = 511"
    by (rule pt_index_decode; (subst bit_const_1ff)?; simp add: b bit_GET_PDT_VIRT [OF assms(1,2)])+
  show "pt_index (GET_PDT_VIRT i j + 8 * k) 21 = i" "pt_index (GET_PDT_VIRT i j + 8 * k) 12 = j"
    by (rule pt_index_decode; simp add: b bit_GET_PDT_VIRT [OF assms(1,2)] assms)+
  show "(GET_PDT_VIRT i j + 8 * k) AND 0xFFF = 8 * k"
    by (rule bit_word_eqI, unfold bit_and_iff b bit_const_fff) (auto simp: bit_entry_offset [OF assms(3)])
qed

lemma frame_or_offset:
  assumes "k < (512 :: u64)"
  shows "pt_frame e OR (8 * k) = pt_frame e + 8 * k"
proof -
  have "pt_frame e AND (8 * k) = 0"
    by (rule bit_word_eqI) (auto simp: bit_and_iff bit_entry_offset [OF assms])
  then show ?thesis by (rule disjunctive_add_eq_or [symmetric])
qed

text \<open>The recursive slot is set up: entry 511 of the top table refers to that table.\<close>

definition recursive_ok :: "'a vm_scheme \<Rightarrow> bool" where
  "recursive_ok vm \<longleftrightarrow>
     (let e = ent vm (pt_frame (cr3 vm)) RECURSIVE_SLOT
      in pt_present e \<and> \<not> bit e 7 \<and> pt_frame e = pt_frame (cr3 vm))"

lemma mmu_walk_recursive:
  assumes "recursive_ok vm" "i < 512" "j < 512" "k < 512"
    and "pt_present (ent vm (pt_frame (cr3 vm)) i)" "\<not> bit (ent vm (pt_frame (cr3 vm)) i) 7"
    and "pt_present (ent vm (pt_frame (ent vm (pt_frame (cr3 vm)) i)) j)"
  shows "mmu_walk vm (GET_PDT_VIRT i j + 8 * k) =
    Some (pt_frame (ent vm (pt_frame (ent vm (pt_frame (cr3 vm)) i)) j) + 8 * k)"
  using assms(1,5-7)
  by (simp add: mmu_walk_def pt_index_recursive [OF assms(2-4)] recursive_ok_def Let_def
      RECURSIVE_SLOT_def frame_or_offset [OF assms(4)])

section \<open>Paths of tables\<close>

text \<open>A table is named by the path of indices that leads to it, last index first: \<open>[]\<close> is the
  top table (PML4), \<open>[i]\<close> a PDPT, \<open>[j, i]\<close> a page directory.\<close>

fun tbl :: "'a vm_scheme \<Rightarrow> u64 list \<Rightarrow> u64" where
  "tbl vm [] = pt_frame (cr3 vm)"
| "tbl vm (x # p) = pt_frame (ent vm (tbl vm p) x)"

fun valid :: "'a vm_scheme \<Rightarrow> u64 list \<Rightarrow> bool" where
  "valid vm [] \<longleftrightarrow> True"
| "valid vm (x # p) \<longleftrightarrow> valid vm p \<and> length p \<le> 1 \<and> x < 512 \<and> (p = [] \<longrightarrow> x \<noteq> 511) \<and>
     pt_present (ent vm (tbl vm p) x)"

text \<open>The state of a well-formed hierarchy: the tables are distinct pages, all taken from the page
  allocator, the recursive slot is intact and no entry that leads to a table has the page size bit.\<close>

definition pt_inv :: "'a vm_scheme \<Rightarrow> bool" where
  "pt_inv vm \<longleftrightarrow> bitmap_ok vm \<and> recursive_ok vm \<and>
     (\<forall>p q. valid vm p \<longrightarrow> valid vm q \<longrightarrow> tbl vm p = tbl vm q \<longrightarrow> p = q) \<and>
     (\<forall>p. valid vm p \<longrightarrow> page_taken vm (tbl vm p)) \<and>
     (\<forall>i q. valid vm (i # q) \<longrightarrow> \<not> bit (ent vm (tbl vm q) i) 7)"

text \<open>Two entries that lead the walk the same way.\<close>

definition same_ent :: "u64 \<Rightarrow> u64 \<Rightarrow> bool" where
  "same_ent e e' \<longleftrightarrow> pt_frame e = pt_frame e' \<and> pt_present e = pt_present e' \<and> bit e 7 = bit e' 7"

lemma same_ent_refl [simp]: "same_ent e e"
  by (simp add: same_ent_def)

lemma tbl_cong:
  assumes cr3: "cr3 vm' = cr3 vm"
    and same: "\<And>p x. valid vm p \<Longrightarrow> length p \<le> 1 \<Longrightarrow> x < 512 \<Longrightarrow> P p x \<Longrightarrow>
      same_ent (ent vm (tbl vm p) x) (ent vm' (tbl vm p) x)"
    and "\<And>r p x. q = r @ x # p \<Longrightarrow> P p x"
  shows "(valid vm' q \<longleftrightarrow> valid vm q) \<and> (valid vm q \<longrightarrow> tbl vm' q = tbl vm q)"
  using assms(3)
proof (induction q)
  case Nil
  then show ?case by (simp add: cr3)
next
  case (Cons y q)
  have "P q y" using Cons.prems [of "[]"] by simp
  moreover have "P p x" if "q = r @ x # p" for r p x
    using Cons.prems [of "y # r"] that by simp
  ultimately show ?case using Cons.IH same [of q y] by (auto simp: same_ent_def)
qed

text \<open>An update that changes no entry's meaning keeps the hierarchy.\<close>

lemma pt_inv_same:
  assumes inv: "pt_inv vm" and pm: "pmem_grows vm vm'" and cr3: "cr3 vm' = cr3 vm"
    and same: "\<And>p x. valid vm p \<Longrightarrow> length p \<le> 1 \<Longrightarrow> x < 512 \<Longrightarrow>
      same_ent (ent vm (tbl vm p) x) (ent vm' (tbl vm p) x)"
  shows "pt_inv vm'" and "valid vm' q = valid vm q" and "valid vm q \<Longrightarrow> tbl vm' q = tbl vm q"
proof -
  have c: "(valid vm' q \<longleftrightarrow> valid vm q) \<and> (valid vm q \<longrightarrow> tbl vm' q = tbl vm q)" for q
    using tbl_cong [OF cr3, of "\<lambda>_ _. True" q] same by blast
  then show "valid vm' q = valid vm q" "valid vm q \<Longrightarrow> tbl vm' q = tbl vm q" by auto
  have "recursive_ok vm'"
    using inv same [of "[]" RECURSIVE_SLOT] cr3
    by (simp add: pt_inv_def recursive_ok_def Let_def same_ent_def RECURSIVE_SLOT_def)
  moreover have "\<not> bit (ent vm' (tbl vm' q) i) 7" if "valid vm' (i # q)" for i q
    using that c [of "i # q"] c [of q] inv same [of q i]
    by (auto simp: pt_inv_def same_ent_def)
  ultimately show "pt_inv vm'"
    using inv pm c unfolding pt_inv_def pmem_grows_def by metis
qed

section \<open>Entries occupy distinct words\<close>

lemma entry_page: "x < 512 \<Longrightarrow> (pt_frame e + 8 * x) AND NOT 0xFFF = pt_frame e"
  unfolding frame_or_offset [symmetric]
  by (rule bit_word_eqI, unfold bit_and_iff bit_or_iff bit_not_iff bit_const_fff)
    (auto simp: bit_entry_offset)

lemma entry_inj:
  assumes "x < 512" "y < 512" "pt_frame e + 8 * x = pt_frame e' + 8 * y"
  shows "pt_frame e = pt_frame e' \<and> x = y"
proof -
  have f: "pt_frame e = pt_frame e'" using assms entry_page by metis
  then have "8 * x = 8 * y" using assms(3) by simp
  then have "bit (8 * x) (n + 3) = bit (8 * y) (n + 3)" for n by simp
  then have "bit x n = bit y n" for n
    using assms(1,2) by (cases "n < 9") (auto simp: bit_entry_offset dest: index_high_bits)
  with f show ?thesis by (simp add: bit_word_eqI)
qed

lemma tbl_frame: "\<exists>e. tbl vm p = pt_frame e"
  by (cases p) auto

lemma ent_set_ent:
  assumes "x < 512" "y < 512"
  shows "ent (set_ent (tbl w p) x v vm) (tbl w q) y =
    (if tbl w q = tbl w p \<and> y = x then v else ent vm (tbl w q) y)"
proof -
  obtain e e' where e: "tbl w p = pt_frame e" "tbl w q = pt_frame e'" using tbl_frame by metis
  show ?thesis using entry_inj [OF assms(2,1), of e' e] unfolding e
    by (auto simp: ent_def set_ent_def)
qed

lemma ent_zero_frame:
  assumes "y < 512"
  shows "ent (zero_frame (pt_frame e) vm) (pt_frame e') y =
    (if pt_frame e' = pt_frame e then 0 else ent vm (pt_frame e') y)"
  using entry_page [OF assms] by (simp add: ent_def zero_frame_def)

lemma set_ent_sel [simp]:
  "cr3 (set_ent f x v vm) = cr3 vm" "global_page_bitmap (set_ent f x v vm) = global_page_bitmap vm"
  "memory_size (set_ent f x v vm) = memory_size vm"
  "cr3 (zero_frame f vm) = cr3 vm" "global_page_bitmap (zero_frame f vm) = global_page_bitmap vm"
  "memory_size (zero_frame f vm) = memory_size vm"
  by (simp_all add: set_ent_def zero_frame_def)

text \<open>The allocator's view of a state depends on its bitmap and memory size only.\<close>

lemma pmem_grows_same:
  assumes "global_page_bitmap q = global_page_bitmap p" "memory_size q = memory_size p"
  shows "pmem_grows p q" "pmem_grows q p"
  using assms by (auto simp: pmem_grows_def bitmap_ok_def pmem_limit_def avail_def page_taken_def)

lemma pmem_grows_cong:
  assumes "pmem_grows p r" "global_page_bitmap q = global_page_bitmap r" "memory_size q = memory_size r"
  shows "pmem_grows p q"
  using assms pmem_grows_same(1) [of q r] pmem_grows_trans by blast

lemma pmem_get_page_frame:
  assumes "pmem_get_page vm = (r, vm1)"
  shows "phys_mem vm1 = phys_mem vm" "cr3 vm1 = cr3 vm" "ent vm1 = ent vm"
    "memory_size vm1 = memory_size vm" "mapped_mmio_bitmap vm1 = mapped_mmio_bitmap vm"
  using assms by (cases vm rule: pmem_get_page_cases; auto simp: ent_def fun_eq_iff)+

lemma page_bits:
  assumes "unat (r :: u64) mod 4096 = 0" "unat r < 4294967296" "bit r n"
  shows "12 \<le> n \<and> n < 32"
proof -
  have "take_bit 12 r = 0" "take_bit 32 r = r"
    using assms(1,2)
    by (simp_all add: word_unat_eq_iff unsigned_take_bit_eq take_bit_eq_mod unat_mod)
  moreover have "bit (take_bit 12 r) n \<longleftrightarrow> n < 12" "bit (take_bit 32 r) n \<longleftrightarrow> n < 32"
    using assms(3) by (simp_all only: bit_take_bit_iff simp_thms)
  ultimately show ?thesis using assms(3) by simp
qed

lemma frame_of_new_entry:
  assumes "unat r mod 4096 = 0" "unat r < 4294967296"
  shows "pt_frame ((r AND NOT 0xFFF) OR PF_PRESENT OR PF_READ_WRITE) = r"
    "pt_present ((r AND NOT 0xFFF) OR PF_PRESENT OR PF_READ_WRITE)"
    "\<not> bit ((r AND NOT 0xFFF) OR PF_PRESENT OR PF_READ_WRITE) 7"
proof -
  have c: "bit PF_PRESENT n \<longleftrightarrow> n = 0" "bit PF_READ_WRITE n \<longleftrightarrow> n = 1" for n
  proof -
    have eq: "PF_READ_WRITE = push_bit 1 1" by (simp add: PF_READ_WRITE_def)
    show "bit PF_READ_WRITE n \<longleftrightarrow> n = 1" unfolding eq bit_push_bit_iff bit_1_iff by auto
  qed (simp add: PF_PRESENT_def bit_1_iff)
  have b: "bit ((r AND NOT 0xFFF) OR PF_PRESENT OR PF_READ_WRITE) n \<longleftrightarrow> bit r n \<or> n = 0 \<or> n = 1" for n
    using page_bits [OF assms, of n]
    unfolding bit_or_iff bit_and_iff bit_not_iff bit_const_fff c
    by (auto dest: bit_imp_le_length)
  show "pt_frame ((r AND NOT 0xFFF) OR PF_PRESENT OR PF_READ_WRITE) = r"
    by (intro bit_word_eqI, unfold bit_pt_frame b) (auto dest: page_bits [OF assms])
  show "pt_present ((r AND NOT 0xFFF) OR PF_PRESENT OR PF_READ_WRITE)"
    unfolding pt_present_bit b by simp
  show "\<not> bit ((r AND NOT 0xFFF) OR PF_PRESENT OR PF_READ_WRITE) 7"
    unfolding b using page_bits [OF assms, of 7] by auto
qed

section \<open>Each step keeps the hierarchy well-formed\<close>

text \<open>A word of memory in use that belongs to no table of the hierarchy, and steps that leave all such words and
  the tables alone.\<close>

definition foreign :: "'a vm_scheme \<Rightarrow> u64 \<Rightarrow> bool" where
  "foreign vm a \<longleftrightarrow> page_taken vm a \<and> (\<forall>q. valid vm q \<longrightarrow> tbl vm q \<noteq> a AND NOT 0xFFF)"

definition spares :: "'a vm_scheme \<Rightarrow> 'a vm_scheme \<Rightarrow> bool" where
  "spares vm vm' \<longleftrightarrow> (\<forall>a. foreign vm a \<longrightarrow> foreign vm' a \<and> phys_mem vm' a = phys_mem vm a) \<and>
     (\<forall>q. valid vm q \<longrightarrow> valid vm' q \<and> tbl vm' q = tbl vm q)"

lemma spares_refl [simp]: "spares vm vm"
  by (simp add: spares_def)

lemma spares_trans: "spares vm vm1 \<Longrightarrow> spares vm1 vm2 \<Longrightarrow> spares vm vm2"
  by (simp add: spares_def)

lemma page_of: "page_taken vm (a AND NOT 0xFFF) = page_taken vm a"
proof -
  have "drop_bit 12 (a AND NOT 0xFFF) = drop_bit 12 a"
    by (rule bit_word_eqI, unfold bit_drop_bit_eq bit_and_iff bit_not_iff bit_const_fff o_def)
      (auto dest: bit_imp_le_length)
  then have "unat (drop_bit 12 (a AND NOT 0xFFF)) = unat (drop_bit 12 a)" by simp
  then have "unat (a AND NOT 0xFFF) div 4096 = unat a div 4096"
    by (simp add: drop_bit_eq_div unat_div)
  then show ?thesis by (simp only: page_taken_def)
qed

lemma sparesI:
  assumes g: "pmem_grows vm vm'" and v: "\<And>q. valid vm' q \<Longrightarrow> valid vm q \<and> tbl vm' q = tbl vm q \<or> \<not> page_taken vm (tbl vm' q)"
    and m: "\<And>a. foreign vm a \<Longrightarrow> phys_mem vm' a = phys_mem vm a"
    and t: "\<And>q. valid vm q \<Longrightarrow> valid vm' q \<and> tbl vm' q = tbl vm q"
  shows "spares vm vm'"
  unfolding spares_def
proof (intro allI impI conjI)
  show "valid vm' q" "tbl vm' q = tbl vm q" if "valid vm q" for q using t [OF that] by simp_all
next
  fix a assume a: "foreign vm a"
  then show "phys_mem vm' a = phys_mem vm a" by (rule m)
  have "page_taken vm (a AND NOT 0xFFF)" using a by (simp only: page_of foreign_def)
  then have "tbl vm' q \<noteq> a AND NOT 0xFFF" if "valid vm' q" for q
    using v [OF that] a by (auto simp: foreign_def)
  then show "foreign vm' a" using a g by (auto simp: foreign_def pmem_grows_def)
qed

text \<open>What a mapping step may do to a hierarchy: it keeps every table and every entry of a table,
  except for the entries in \<open>W\<close>, adds at most the tables in \<open>N\<close>, which are new, empty pages, and writes nowhere
  else but to free pages.\<close>

definition pt_step :: "(u64 list \<times> u64) set \<Rightarrow> u64 list set \<Rightarrow> 'a vm_scheme \<Rightarrow> 'a vm_scheme \<Rightarrow> bool" where
  "pt_step W N vm vm' \<longleftrightarrow> pt_inv vm' \<and> pmem_grows vm vm' \<and> cr3 vm' = cr3 vm \<and> spares vm vm' \<and>
     (\<forall>q. valid vm' q \<longleftrightarrow> valid vm q \<or> q \<in> N) \<and>
     (\<forall>q. valid vm q \<longrightarrow> tbl vm' q = tbl vm q) \<and>
     (\<forall>q y. valid vm q \<longrightarrow> y < 512 \<longrightarrow> (q, y) \<notin> W \<longrightarrow> ent vm' (tbl vm q) y = ent vm (tbl vm q) y) \<and>
     (\<forall>q y. q \<in> N \<longrightarrow> \<not> valid vm q \<longrightarrow> y < 512 \<longrightarrow> (q, y) \<notin> W \<longrightarrow> ent vm' (tbl vm' q) y = 0)"

lemma pt_ensure_new:
  assumes inv: "pt_inv vm" and p: "valid vm p" "length p \<le> 1" "x < 512" "p = [] \<longrightarrow> x \<noteq> 511"
    and np: "\<not> pt_present (ent vm (tbl vm p) x)" and av: "avail vm \<noteq> {}"
  shows "pt_step {(p, x)} {x # p} vm (pt_ensure (tbl vm p) x vm)"
proof -
  obtain r vm1 where g: "pmem_get_page vm = (r, vm1)" by fastforce
  have bok: "bitmap_ok vm" using inv by (simp add: pt_inv_def)
  from pmem_get_page_spec [OF bok g] av have r: "unat r mod 4096 = 0" "unat r < 4294967296"
    and fresh: "\<not> page_taken vm r" and tk: "page_taken vm1 a \<longleftrightarrow> page_taken vm a \<or> unat a div 4096 = unat r div 4096" for a
    by auto
  note e = frame_of_new_entry [OF r]
  define v where "v = (r AND NOT 0xFFF) OR PF_PRESENT OR PF_READ_WRITE"
  define vm' where "vm' = pt_ensure (tbl vm p) x vm"
  obtain E where E: "tbl vm p = pt_frame E" using tbl_frame by blast
  have v: "pt_frame v = r" "pt_present v" "\<not> bit v 7" using e by (auto simp: v_def)
  have sv: "ent (set_ent (tbl vm p) x v vm1) (tbl vm p) x = v"
    using ent_set_ent [OF p(3) p(3), of vm p v vm1 p] by simp
  have vm': "vm' = zero_frame r (set_ent (tbl vm p) x v vm1)"
    by (simp only: vm'_def pt_ensure_def g v_def [symmetric] np if_False prod.case Let_def sv v(1))
  have pm: "pmem_grows vm vm'"
    using pmem_get_page_grows [of vm] by (auto intro: pmem_grows_cong [of vm vm1] simp: vm' g)
  have cr3: "cr3 vm' = cr3 vm" using pmem_get_page_frame [OF g] by (simp add: vm')
  have ner: "tbl vm q \<noteq> r" if "valid vm q" for q
    using that inv fresh by (auto simp: pt_inv_def)
  have inj: "tbl vm q = tbl vm p \<Longrightarrow> q = p" if "valid vm q" for q
    using that inv p(1) by (auto simp: pt_inv_def)
  have ent': "ent vm' (tbl vm q) y = (if q = p \<and> y = x then v else ent vm (tbl vm q) y)"
    if "valid vm q" "y < 512" for q y
  proof -
    obtain e' where e': "tbl vm q = pt_frame e'" using tbl_frame by blast
    have "ent vm' (tbl vm q) y = ent (set_ent (tbl vm p) x v vm1) (tbl vm q) y"
      using ent_zero_frame [OF that(2), of v _ e'] ner [OF that(1)] by (simp add: vm' e' v(1))
    also have "\<dots> = (if q = p \<and> y = x then v else ent vm (tbl vm q) y)"
      using ent_set_ent [OF p(3) that(2), of vm p v vm1 q] inj [OF that(1)] pmem_get_page_frame(3) [OF g]
      by auto
    finally show ?thesis .
  qed
  have zero: "ent vm' r y = 0" if "y < 512" for y
    using ent_zero_frame [OF that, of v _ v] by (simp add: vm' v(1))
  have keep: "(valid vm' q \<longleftrightarrow> valid vm q) \<and> (valid vm q \<longrightarrow> tbl vm' q = tbl vm q)"
    if "\<nexists>s. q = s @ x # p" for q
    using that ent' by (intro tbl_cong [OF cr3, of "\<lambda>q y. (q, y) \<noteq> (p, x)"]) auto
  have nosuf: "\<nexists>s. p = s @ x # p"
  proof
    assume "\<exists>s. p = s @ x # p"
    then obtain s where "p = s @ x # p" ..
    then have "length p = length (s @ x # p)" by (rule arg_cong)
    then show False by simp
  qed
  have new: "valid vm' (x # p)" "tbl vm' (x # p) = r"
    using keep [OF nosuf] p ent' [OF p(1,3)] v by auto
  have nox: "\<not> valid vm (s @ x # p)" for s
    by (induction s) (use np in auto)
  have below: "valid vm' q \<longleftrightarrow> q = x # p" if "q = s @ x # p" for q s
  proof
    assume "valid vm' q"
    then show "q = x # p"
      unfolding that
    proof (induction s)
      case (Cons z s)
      then have "s = []" "valid vm' (z # x # p)" by (auto)
      then show ?case using new(2) zero by (auto simp: pt_present_def)
    qed simp
  qed (use new in simp)
  have val: "valid vm' q \<longleftrightarrow> valid vm q \<or> q = x # p" for q
  proof (cases "\<exists>s. q = s @ x # p")
    case True
    then show ?thesis using below nox by blast
  next
    case False
    then show ?thesis using keep [of q] by auto
  qed
  have tb: "tbl vm' q = tbl vm q" if "valid vm q" for q
    using keep [of q] nox that by auto
  have "pt_inv vm'" unfolding pt_inv_def
  proof (intro conjI allI impI)
    show "bitmap_ok vm'" using pm bok by (simp add: pmem_grows_def)
    show "recursive_ok vm'"
      using inv ent' [of "[]" 511] cr3 p(4) by (auto simp: pt_inv_def recursive_ok_def RECURSIVE_SLOT_def Let_def)
    show "q = q'" if "valid vm' q" "valid vm' q'" "tbl vm' q = tbl vm' q'" for q q'
      using that inv ner unfolding val pt_inv_def by (metis tb new(2))
    show "page_taken vm' (tbl vm' q)" if "valid vm' q" for q
    proof (cases "q = x # p")
      case True
      then show ?thesis using tk [of r] by (simp only: new(2)) (simp add: vm' page_taken_def)
    next
      case False
      then show ?thesis using that val tb inv pm by (auto simp: pt_inv_def pmem_grows_def)
    qed
    show "\<not> bit (ent vm' (tbl vm' q) i) 7" if "valid vm' (i # q)" for i q
    proof -
      have q: "valid vm q" "i < 512" using that val [of q] val [of "i # q"] p(1) nosuf zero new
        by (auto simp: pt_present_def)
      show ?thesis
        using that ent' [OF q] inv v(3) tb [OF q(1)] val [of "i # q"] by (auto simp: pt_inv_def)
    qed
  qed
  moreover have "spares vm vm'"
  proof (rule sparesI [OF pm])
    show "valid vm q \<and> tbl vm' q = tbl vm q \<or> \<not> page_taken vm (tbl vm' q)" if "valid vm' q" for q
      using that val tb new(2) fresh by auto
    show "valid vm' q \<and> tbl vm' q = tbl vm q" if "valid vm q" for q using that val tb by simp
    fix a assume a: "foreign vm a"
    have ne: "a AND NOT 0xFFF \<noteq> r" using a fresh page_of [of vm a] by (auto simp only: foreign_def)
    have "a \<noteq> tbl vm p + 8 * x" using a p(1) entry_page [OF p(3), of E] by (auto simp: foreign_def E)
    then show "phys_mem vm' a = phys_mem vm a"
      using ne pmem_get_page_frame(1) [OF g] by (simp add: vm' zero_frame_def set_ent_def)
  qed
  ultimately show ?thesis
    unfolding pt_step_def vm'_def [symmetric]
    using pm cr3 val tb ent' zero new by auto
qed

lemma pt_step_pmem_grows: "pt_step W N vm vm' \<Longrightarrow> pmem_grows vm vm'"
  by (simp add: pt_step_def)

lemma pt_step_inv: "pt_step W N vm vm' \<Longrightarrow> pt_inv vm'"
  by (simp add: pt_step_def)

lemma cr3_pt_ensure [simp]: "cr3 (pt_ensure t x vm) = cr3 vm"
  using pmem_get_page_frame(2) [of vm] by (auto simp: pt_ensure_def Let_def split: prod.splits)

lemma same_ent_user: "same_ent e (e OR PF_USER_SUPERVISOR)"
proof -
  have eq: "PF_USER_SUPERVISOR = push_bit 2 1" by (simp add: PF_USER_SUPERVISOR_def)
  have b: "bit PF_USER_SUPERVISOR n \<longleftrightarrow> n = 2" for n
    unfolding eq bit_push_bit_iff bit_1_iff by auto
  show ?thesis
    unfolding same_ent_def pt_present_bit bit_or_iff b
    by (auto intro!: bit_word_eqI simp: bit_or_iff b)
qed

lemma pt_ensure_grows [inv_intros]: "pmem_grows vm (pt_ensure t x vm)"
proof (cases "pt_present (ent vm t x)")
  case False
  obtain r vm1 where g: "pmem_get_page vm = (r, vm1)" by fastforce
  then have "pmem_grows vm vm1" using pmem_get_page_grows [of vm] by simp
  then show ?thesis
    using False g by (auto simp: pt_ensure_def Let_def intro: pmem_grows_cong)
qed (simp add: pt_ensure_def)

lemma pt_ensure_step:
  assumes "pt_inv vm" "valid vm p" "length p \<le> 1" "x < 512" "p = [] \<longrightarrow> x \<noteq> 511" "avail vm \<noteq> {}"
  shows "pt_step {(p, x)} {x # p} vm (pt_ensure (tbl vm p) x vm)"
    and "valid (pt_ensure (tbl vm p) x vm) (x # p)"
proof -
  show *: "pt_step {(p, x)} {x # p} vm (pt_ensure (tbl vm p) x vm)"
  proof (cases "pt_present (ent vm (tbl vm p) x)")
    case True
    with assms show ?thesis by (auto simp: pt_step_def pt_ensure_def)
  qed (use assms pt_ensure_new in blast)
  then show "valid (pt_ensure (tbl vm p) x vm) (x # p)"
    unfolding pt_step_def by blast
qed

text \<open>Overwriting one entry of a table; above the leaves it must lead to the same table.\<close>

lemma pt_set_step:
  assumes inv: "pt_inv vm" and p: "valid vm p" "x < 512"
    and v: "length p \<le> 1 \<longrightarrow> same_ent (ent vm (tbl vm p) x) v"
  shows "pt_step {(p, x)} {} vm (set_ent (tbl vm p) x v vm)"
proof -
  let ?vm = "set_ent (tbl vm p) x v vm"
  have ent': "ent ?vm (tbl vm q) y = (if q = p \<and> y = x then v else ent vm (tbl vm q) y)"
    if "valid vm q" "y < 512" for q y
    using ent_set_ent [OF p(2) that(2), of vm p v vm q] inv p(1) that(1) by (auto simp: pt_inv_def)
  have same: "same_ent (ent vm (tbl vm q) y) (ent ?vm (tbl vm q) y)"
    if "valid vm q" "length q \<le> 1" "y < 512" for q y
    using v ent' [OF that(1,3)] that by auto
  have pm: "pmem_grows vm ?vm" by (rule pmem_grows_same) simp_all
  note keep = pt_inv_same [OF inv pm _ same]
  obtain E where E: "tbl vm p = pt_frame E" using tbl_frame by blast
  have "spares vm ?vm"
  proof (rule sparesI [OF pm])
    show "valid vm q \<and> tbl ?vm q = tbl vm q \<or> \<not> page_taken vm (tbl ?vm q)" if "valid ?vm q" for q
      using that keep by auto
    show "valid ?vm q \<and> tbl ?vm q = tbl vm q" if "valid vm q" for q using that keep by simp
    fix a assume "foreign vm a"
    then have "a \<noteq> tbl vm p + 8 * x" using p(1) entry_page [OF p(2), of E] by (auto simp: foreign_def E)
    then show "phys_mem ?vm a = phys_mem vm a" by (simp add: set_ent_def)
  qed
  with keep pm ent' show ?thesis
    by (auto simp: pt_step_def)
qed

lemma pt_step_trans:
  assumes "pt_step W N vm vm1" "pt_step W' N' vm1 vm2"
  shows "pt_step (W \<union> W') (N \<union> N') vm vm2"
  unfolding pt_step_def
proof (intro conjI allI impI)
  show "pt_inv vm2" "cr3 vm2 = cr3 vm" using assms by (auto simp: pt_step_def)
  show "spares vm vm2" using assms spares_trans by (auto simp: pt_step_def)
  show "pmem_grows vm vm2" using assms pmem_grows_trans by (auto simp: pt_step_def)
  show "valid vm2 q \<longleftrightarrow> valid vm q \<or> q \<in> N \<union> N'" for q using assms by (auto simp: pt_step_def)
  show "tbl vm2 q = tbl vm q" if "valid vm q" for q using assms that by (simp add: pt_step_def)
  show "ent vm2 (tbl vm q) y = ent vm (tbl vm q) y"
    if "valid vm q" "y < 512" "(q, y) \<notin> W \<union> W'" for q y
  proof -
    have 1: "valid vm1 q" "tbl vm1 q = tbl vm q" "ent vm1 (tbl vm q) y = ent vm (tbl vm q) y"
      using assms(1) that by (simp_all add: pt_step_def)
    have "ent vm2 (tbl vm1 q) y = ent vm1 (tbl vm1 q) y"
      using assms(2) that 1(1) by (simp add: pt_step_def)
    with 1 show ?thesis by simp
  qed
  show "ent vm2 (tbl vm2 q) y = 0"
    if "q \<in> N \<union> N'" "\<not> valid vm q" "y < 512" "(q, y) \<notin> W \<union> W'" for q y
  proof (cases "valid vm1 q")
    case True
    then have "q \<in> N" using assms(1) that by (auto simp: pt_step_def)
    then have 1: "ent vm1 (tbl vm1 q) y = 0" using assms(1) that by (simp add: pt_step_def)
    have "tbl vm2 q = tbl vm1 q" "ent vm2 (tbl vm1 q) y = ent vm1 (tbl vm1 q) y"
      using assms(2) that True by (simp_all add: pt_step_def)
    with 1 show ?thesis by simp
  next
    case False
    then have "q \<in> N'" using assms(1) that by (auto simp: pt_step_def)
    then show ?thesis using assms(2) that False by (simp add: pt_step_def)
  qed
qed

section \<open>Mapping a 2 MiB page\<close>

text \<open>The leaf entry that decides the translation of an address.\<close>

definition leaf :: "'a vm_scheme \<Rightarrow> u64 list \<Rightarrow> u64 \<Rightarrow> u64" where
  "leaf vm q k = (if valid vm q then ent vm (tbl vm q) k else 0)"

abbreviation pd_path :: "u64 \<Rightarrow> u64 list" where
  "pd_path va \<equiv> [pt_index va 30, pt_index va 39]"

lemma virtual_to_physical_leaf:
  assumes "pt_index va 39 \<noteq> 511"
  shows "amd64_vmem_virtual_to_physical vm va =
    (let e = leaf vm (pd_path va) (pt_index va 21)
     in if pt_present e then (e AND NOT (PAGE_SIZE_LARGE - 1)) + (va AND (PAGE_SIZE_LARGE - 1)) else 0)"
  using assms pt_index_lt
  by (simp add: amd64_vmem_virtual_to_physical_def leaf_def Let_def)
    (simp add: pt_present_def)

lemma pt_step_leaf:
  assumes "pt_step W N vm vm'" "(q, k) \<notin> W" "k < 512"
  shows "leaf vm' q k = leaf vm q k"
  using assms by (auto simp: pt_step_def leaf_def)

lemma map_2mb_step:
  assumes inv: "pt_inv vm" and al: "is_aligned va PAGE_SIZE_LARGE" "is_aligned pa PAGE_SIZE_LARGE"
    and i: "pt_index va 39 \<noteq> 511"
    and m: "amd64_vmem_map_2mb va pa is_kernel vm = (ok, vm')" and av: "avail vm' \<noteq> {}"
  obtains W flags where "ok" "pt_step (insert (pd_path va, pt_index va 21) W) {[pt_index va 39], pd_path va} vm vm'"
    "\<forall>(q, k) \<in> W. length q \<le> 1" "valid vm' (pd_path va)"
    "leaf vm' (pd_path va) (pt_index va 21) = (pa AND NOT 0x1FFFFF) OR PF_PAGE_SIZE OR flags"
    "flags = (if is_kernel then PF_PRESENT OR PF_READ_WRITE else PF_PRESENT OR PF_READ_WRITE OR PF_USER_SUPERVISOR)"
proof -
  define i j k where "i = pt_index va 39" and "j = pt_index va 30" and "k = pt_index va 21"
  have lt: "i < 512" "j < 512" "k < 512" by (simp_all add: i_def j_def k_def pt_index_lt)
  define t where "t = pt_frame (cr3 vm)"
  define vm1 where "vm1 = pt_ensure t i vm"
  define d where "d = pt_frame (ent vm1 t i)"
  define vm2 where "vm2 = pt_ensure d j vm1"
  define vmx where "vmx = set_ent d j (ent vm2 d j OR PF_USER_SUPERVISOR) vm2"
  define vm3 where "vm3 = (if \<not> is_kernel
    then set_ent t i (ent vmx t i OR PF_USER_SUPERVISOR) vmx else vm2)"
  define flags where "flags = (if \<not> is_kernel then PF_PRESENT OR PF_READ_WRITE OR PF_USER_SUPERVISOR
    else PF_PRESENT OR PF_READ_WRITE)"
  define e where "e = pt_frame (ent vm3 d j)"
  define v where "v = (pa AND NOT 0x1FFFFF) OR PF_PAGE_SIZE OR flags"
  have "(ok, vm') = (True, set_ent e k v vm3)"
    unfolding m [symmetric] amd64_vmem_map_2mb_def
    by (simp only: al not_True_eq_False disj_not1 if_False Let_def i_def [symmetric] j_def [symmetric]
      k_def [symmetric] t_def [symmetric] vm1_def [symmetric] d_def [symmetric] vm2_def [symmetric]
      vmx_def [symmetric] vm3_def [symmetric] e_def [symmetric] flags_def [symmetric] v_def [symmetric]
      simp_thms)
  then have ok: "ok" and vm': "vm' = set_ent e k v vm3" by auto
  have c1: "cr3 vm1 = cr3 vm" and c2: "cr3 vm2 = cr3 vm" and cx: "cr3 vmx = cr3 vm"
    by (simp_all add: vm1_def vm2_def vmx_def)
  have t: "t = tbl vm []" "t = tbl vm1 []" "t = tbl vm2 []" "t = tbl vmx []"
    by (simp_all add: t_def c1 c2 cx)
  have d: "d = tbl vm1 [i]" by (simp add: d_def t_def c1)
  have g3: "pmem_grows vm2 vm'" "pmem_grows vm1 vm2" "pmem_grows vm vm1"
    by (auto simp: vm' vm3_def vmx_def vm2_def vm1_def intro: inv_intros pmem_grows_same)
  then have av3: "avail vm1 \<noteq> {}" "avail vm \<noteq> {}" using av by (auto simp: pmem_grows_def)
  have s1: "pt_step {([], i)} {[i]} vm vm1" "valid vm1 [i]"
    using pt_ensure_step [of vm "[]" i] inv lt(1) i av3(2) by (auto simp: vm1_def t_def i_def)
  have s2: "pt_step {([i], j)} {[j, i]} vm1 vm2" "valid vm2 [j, i]"
    using pt_ensure_step [of vm1 "[i]" j] pt_step_inv [OF s1(1)] s1(2) lt(2) av3(1)
    unfolding vm2_def d by auto
  have d2: "d = tbl vm2 [i]" using s2(1) s1(2) d by (simp add: pt_step_def del: tbl.simps)
  have vi2: "valid vm2 [i]" using s2(2) by simp
  have sx: "pt_step {([i], j)} {} vm2 vmx"
    using pt_set_step [OF pt_step_inv [OF s2(1)] vi2 lt(2)] same_ent_user
    unfolding vmx_def d2 by blast
  have s3: "pt_step {([i], j), ([], i)} {} vm2 vm3"
  proof (cases is_kernel)
    case True
    then show ?thesis using pt_step_inv [OF s2(1)] by (simp add: vm3_def pt_step_def)
  next
    case False
    have "pt_step {([], i)} {} vmx (set_ent (tbl vmx []) i (ent vmx (tbl vmx []) i OR PF_USER_SUPERVISOR) vmx)"
      by (rule pt_set_step [OF pt_step_inv [OF sx] _ lt(1)]) (simp_all add: same_ent_user)
    with pt_step_trans [OF sx] False t(4) show ?thesis by (fastforce simp: vm3_def)
  qed
  have v3: "valid vm3 [j, i]" "d = tbl vm3 [i]"
    using s3 s2(2) vi2 d2 by (simp_all add: pt_step_def del: tbl.simps valid.simps)
  have e3: "e = tbl vm3 [j, i]" using v3(2) by (simp add: e_def)
  have s4: "pt_step {([j, i], k)} {} vm3 vm'"
    unfolding vm' e3 using pt_set_step [OF pt_step_inv [OF s3] v3(1) lt(3)] by simp
  have v4: "valid vm' [j, i]" "tbl vm' [j, i] = e"
    using s4 v3(1) e3 by (simp_all add: pt_step_def del: tbl.simps valid.simps)
  have "ent vm' e k = v" by (simp add: vm' ent_def set_ent_def)
  then have l: "leaf vm' [j, i] k = v" using v4 by (simp add: leaf_def del: tbl.simps valid.simps)
  have "pt_step (insert ([j, i], k) {([i], j), ([], i)}) {[i], [j, i]} vm vm'"
    using pt_step_trans [OF pt_step_trans [OF pt_step_trans [OF s1(1) s2(1)] s3] s4]
    by (simp add: insert_commute)
  then show thesis
    using that [of "{([i], j), ([], i)}" flags] ok v4(1) l
    by (simp add: i_def j_def k_def v_def flags_def)
qed

lemma bit_pf:
  "bit PF_PRESENT n \<longleftrightarrow> n = 0" "bit PF_READ_WRITE n \<longleftrightarrow> n = 1"
  "bit PF_USER_SUPERVISOR n \<longleftrightarrow> n = 2" "bit PF_PAGE_SIZE n \<longleftrightarrow> n = 7"
proof -
  have eq: "PF_PRESENT = push_bit 0 1" "PF_READ_WRITE = push_bit 1 1"
    "PF_USER_SUPERVISOR = push_bit 2 1" "PF_PAGE_SIZE = push_bit 7 1"
    by (simp_all add: PF_PRESENT_def PF_READ_WRITE_def PF_USER_SUPERVISOR_def PF_PAGE_SIZE_def)
  show "bit PF_PRESENT n \<longleftrightarrow> n = 0" "bit PF_READ_WRITE n \<longleftrightarrow> n = 1"
    "bit PF_USER_SUPERVISOR n \<longleftrightarrow> n = 2" "bit PF_PAGE_SIZE n \<longleftrightarrow> n = 7"
    unfolding eq bit_push_bit_iff bit_1_iff by auto
qed

lemma large_mask: "PAGE_SIZE_LARGE - 1 = 0x1FFFFF"
  by (simp add: PAGE_SIZE_LARGE_def)

lemma aligned_large_bits: "is_aligned pa PAGE_SIZE_LARGE \<Longrightarrow> n < 21 \<Longrightarrow> \<not> bit pa n"
proof -
  assume "is_aligned pa PAGE_SIZE_LARGE" and n: "n < 21"
  then have "bit (pa AND 0x1FFFFF) n = bit (0 :: u64) n" by (simp only: is_aligned_def large_mask)
  then show ?thesis unfolding bit_and_iff bit_consts using n by simp
qed

text \<open>A leaf entry written by the mapping code.\<close>

lemma leaf_entry:
  assumes "is_aligned pa PAGE_SIZE_LARGE"
    and f: "flags = (if is_kernel then PF_PRESENT OR PF_READ_WRITE
                     else PF_PRESENT OR PF_READ_WRITE OR PF_USER_SUPERVISOR)"
    and v: "v = (pa AND NOT 0x1FFFFF) OR PF_PAGE_SIZE OR flags"
  shows "pt_present v" "bit v 7" "v AND NOT 0x1FFFFF = pa"
    "\<And>n. bit v n \<longleftrightarrow> bit pa n \<or> n = 7 \<or> n = 0 \<or> n = 1 \<or> (\<not> is_kernel \<and> n = 2)"
proof -
  show b: "bit v n \<longleftrightarrow> bit pa n \<or> n = 7 \<or> n = 0 \<or> n = 1 \<or> (\<not> is_kernel \<and> n = 2)" for n
    using aligned_large_bits [OF assms(1), of n]
    unfolding v f bit_or_iff bit_and_iff bit_not_iff bit_consts
    by (auto simp: bit_pf bit_or_iff dest: bit_imp_le_length)
  show "pt_present v" "bit v 7" by (simp_all add: pt_present_bit b)
  show "v AND NOT 0x1FFFFF = pa"
    by (rule bit_word_eqI, unfold bit_and_iff bit_not_iff bit_consts b)
      (auto dest: aligned_large_bits [OF assms(1)])
qed

definition same_large_page :: "u64 \<Rightarrow> u64 \<Rightarrow> bool" where
  "same_large_page va vb \<longleftrightarrow> drop_bit 21 (take_bit 48 va) = drop_bit 21 (take_bit 48 vb)"

lemma bit_pt_index: "bit (pt_index va s) n \<longleftrightarrow> n < 9 \<and> bit va (s + n)"
  unfolding pt_index_def bit_and_iff bit_drop_bit_eq bit_consts by auto

lemma same_large_page_index:
  "same_large_page va vb \<longleftrightarrow> pt_index va 39 = pt_index vb 39 \<and> pt_index va 30 = pt_index vb 30 \<and>
     pt_index va 21 = pt_index vb 21"
proof
  assume "same_large_page va vb"
  then have "bit (drop_bit 21 (take_bit 48 va)) n = bit (drop_bit 21 (take_bit 48 vb)) n" for n
    by (simp add: same_large_page_def)
  then have b: "21 + n < 48 \<Longrightarrow> bit va (21 + n) = bit vb (21 + n)" for n
    by (simp only: bit_drop_bit_eq bit_take_bit_iff o_def) blast
  have "bit va m = bit vb m" if "21 \<le> m" "m < 48" for m
    using b [of "m - 21"] that by simp
  then show "pt_index va 39 = pt_index vb 39 \<and> pt_index va 30 = pt_index vb 30 \<and>
     pt_index va 21 = pt_index vb 21"
    by (intro conjI bit_word_eqI) (auto simp: bit_pt_index)
next
  assume a: "pt_index va 39 = pt_index vb 39 \<and> pt_index va 30 = pt_index vb 30 \<and>
     pt_index va 21 = pt_index vb 21"
  have s: "bit va (s + n) = bit vb (s + n)" if "pt_index va s = pt_index vb s" "n < 9" for s n
    using that bit_pt_index by metis
  have "bit va m = bit vb m" if "21 \<le> m" "m < 48" for m
    using a s [of 39 "m - 39"] s [of 30 "m - 30"] s [of 21 "m - 21"] that by (cases "m < 30"; cases "m < 39") auto
  then show "same_large_page va vb"
    unfolding same_large_page_def
    by (intro bit_word_eqI) (auto simp: bit_drop_bit_eq bit_take_bit_iff)
qed

lemma mmu_walk_leaf:
  assumes inv: "pt_inv vm" and i: "pt_index va 39 \<noteq> 511" and v: "valid vm (pd_path va)"
    and e: "e = leaf vm (pd_path va) (pt_index va 21)" "pt_present e" "bit e 7"
  shows "mmu_walk vm va = Some ((pt_frame e AND NOT 0x1FFFFF) OR (va AND 0x1FFFFF))"
proof -
  have "\<not> bit (ent vm (tbl vm [pt_index va 39]) (pt_index va 30)) 7"
    using inv v unfolding pt_inv_def by blast
  with v e show ?thesis by (simp add: mmu_walk_def Let_def leaf_def)
qed

text \<open>A mapping call takes at most two pages.\<close>

lemma avail_cong:
  "global_page_bitmap q = global_page_bitmap p \<Longrightarrow> memory_size q = memory_size p \<Longrightarrow> avail q = avail p"
  by (simp add: avail_def pmem_limit_def)

lemma pt_ensure_avail: "\<exists>i. avail vm - {i} \<subseteq> avail (pt_ensure t x vm)"
proof (cases "pt_present (ent vm t x)")
  case False
  obtain r vm1 where g: "pmem_get_page vm = (r, vm1)" by fastforce
  have "avail (pt_ensure t x vm) = avail vm1"
    using False g by (auto simp: pt_ensure_def Let_def intro!: avail_cong)
  then show ?thesis
    using g by (cases vm rule: pmem_get_page_cases) (auto simp: avail_mark avail_index)
qed (auto simp: pt_ensure_def)

lemma map_2mb_grows:
  assumes "amd64_vmem_map_2mb va pa is_kernel vm = (ok, vm')"
  shows "pmem_grows vm vm'" and "ok \<longleftrightarrow> is_aligned va PAGE_SIZE_LARGE \<and> is_aligned pa PAGE_SIZE_LARGE"
    and "\<exists>i j. avail vm - {i, j} \<subseteq> avail vm'"
proof -
  define t where "t = pt_frame (cr3 vm)"
  define vm1 where "vm1 = pt_ensure t (pt_index va 39) vm"
  define vm2 where "vm2 = pt_ensure (pt_frame (ent vm1 t (pt_index va 39))) (pt_index va 30) vm1"
  have g: "pmem_grows vm vm2"
    using pmem_grows_trans [OF pt_ensure_grows pt_ensure_grows] by (simp add: vm2_def vm1_def)
  have c: "vm' = vm \<and> \<not> ok \<or>
      global_page_bitmap vm' = global_page_bitmap vm2 \<and> memory_size vm' = memory_size vm2 \<and> ok"
    using assms by (cases is_kernel)
      (auto simp: amd64_vmem_map_2mb_def Let_def t_def vm1_def vm2_def split: if_splits)
  then show "pmem_grows vm vm'" using g pmem_grows_cong [OF g] by auto
  show "ok \<longleftrightarrow> is_aligned va PAGE_SIZE_LARGE \<and> is_aligned pa PAGE_SIZE_LARGE"
    using assms by (auto simp: amd64_vmem_map_2mb_def Let_def split: if_splits)
  obtain i j where "avail vm - {i} \<subseteq> avail vm1" "avail vm1 - {j} \<subseteq> avail vm2"
    using pt_ensure_avail unfolding vm2_def vm1_def by metis
  then show "\<exists>i j. avail vm - {i, j} \<subseteq> avail vm'"
    using c avail_cong [of vm' vm2] by blast
qed

lemmas map_2mb_avail = map_2mb_grows(3)

lemma map_2mb_correct:
  assumes inv: "pt_inv vm" and al: "is_aligned vaddr PAGE_SIZE_LARGE" "is_aligned paddr PAGE_SIZE_LARGE"
    and i: "pt_index vaddr 39 \<noteq> 511" and pa: "pt_frame paddr = paddr"
    and m: "amd64_vmem_map_2mb vaddr paddr is_kernel vm = (ok, vm')" and av: "avail vm' \<noteq> {}"
  shows "ok \<and> pt_inv vm' \<and> pmem_grows vm vm' \<and> cr3 vm' = cr3 vm \<and> spares vm vm' \<and>
    (\<forall>va. same_large_page va vaddr \<longrightarrow>
       mmu_walk vm' va = Some (paddr + (va AND 0x1FFFFF)) \<and>
       amd64_vmem_virtual_to_physical vm' va = paddr + (va AND 0x1FFFFF)) \<and>
    (\<forall>va. \<not> same_large_page va vaddr \<and> pt_index va 39 \<noteq> 511 \<longrightarrow>
       amd64_vmem_virtual_to_physical vm' va = amd64_vmem_virtual_to_physical vm va)"
proof -
  obtain W flags where ok: ok
    and st: "pt_step (insert (pd_path vaddr, pt_index vaddr 21) W) {[pt_index vaddr 39], pd_path vaddr} vm vm'"
    and W: "\<forall>(q, k) \<in> W. length q \<le> 1" and val: "valid vm' (pd_path vaddr)"
    and lf: "leaf vm' (pd_path vaddr) (pt_index vaddr 21) = (paddr AND NOT 0x1FFFFF) OR PF_PAGE_SIZE OR flags"
    and fl: "flags = (if is_kernel then PF_PRESENT OR PF_READ_WRITE
                      else PF_PRESENT OR PF_READ_WRITE OR PF_USER_SUPERVISOR)"
    using map_2mb_step [OF inv al i m av] by metis
  note v = leaf_entry [OF al(2) fl lf]
  have inv': "pt_inv vm'" using st by (rule pt_step_inv)
  have same: "mmu_walk vm' va = Some (paddr + (va AND 0x1FFFFF)) \<and>
      amd64_vmem_virtual_to_physical vm' va = paddr + (va AND 0x1FFFFF)"
    if "same_large_page va vaddr" for va
  proof -
    have ix: "pt_index va 39 = pt_index vaddr 39" "pd_path va = pd_path vaddr"
      "pt_index va 21 = pt_index vaddr 21"
      using that by (simp_all add: same_large_page_index)
    have "paddr AND (va AND 0x1FFFFF) = 0"
      by (rule bit_word_eqI, unfold bit_and_iff bit_consts)
        (auto dest: aligned_large_bits [OF al(2)])
    then have add: "paddr + (va AND 0x1FFFFF) = paddr OR (va AND 0x1FFFFF)"
      by (rule disjunctive_add_eq_or)
    define e where "e = leaf vm' (pd_path vaddr) (pt_index vaddr 21)"
    have fr: "bit (pt_frame paddr) n = bit paddr n" for n by (simp only: pa)
    have pb: "bit paddr n \<Longrightarrow> 21 \<le> n \<and> n < 52" for n
      using fr [of n] aligned_large_bits [OF al(2), of n] unfolding bit_pt_frame by (metis not_less)
    have "pt_frame e AND NOT 0x1FFFFF = paddr"
      unfolding e_def
      by (rule bit_word_eqI, unfold bit_and_iff bit_not_iff bit_consts bit_pt_frame v(4))
        (auto dest: pb)
    moreover have "mmu_walk vm' va = Some ((pt_frame e AND NOT 0x1FFFFF) OR (va AND 0x1FFFFF))"
    proof (rule mmu_walk_leaf [OF inv'])
      show "pt_index va 39 \<noteq> 511" using i by (simp only: ix(1) not_False_eq_True)
      show "valid vm' (pd_path va)" unfolding ix(2) by (rule val)
      show "e = leaf vm' (pd_path va) (pt_index va 21)" by (simp only: e_def ix(2,3))
    qed (use v(1,2) in \<open>simp_all only: e_def\<close>)
    ultimately have "mmu_walk vm' va = Some (paddr OR (va AND 0x1FFFFF))" by (simp only:)
    moreover have "amd64_vmem_virtual_to_physical vm' va = paddr + (va AND 0x1FFFFF)"
    proof -
      have ee: "leaf vm' (pd_path va) (pt_index va 21) = e" by (simp only: e_def ix(2,3))
      have i': "pt_index va 39 \<noteq> 511" using i by (simp only: ix(1) not_False_eq_True)
      have "pt_present e" "e AND NOT 0x1FFFFF = paddr" using v(1,3) by (simp_all only: e_def)
      then show ?thesis
        by (simp only: virtual_to_physical_leaf [OF i'] ee Let_def large_mask if_True)
    qed
    ultimately show ?thesis by (simp add: add)
  qed
  have other: "amd64_vmem_virtual_to_physical vm' va = amd64_vmem_virtual_to_physical vm va"
    if "\<not> same_large_page va vaddr" "pt_index va 39 \<noteq> 511" for va
  proof -
    have "(pd_path va, pt_index va 21) \<notin> insert (pd_path vaddr, pt_index vaddr 21) W"
      using that(1) W by (auto simp: same_large_page_index)
    from pt_step_leaf [OF st this pt_index_lt] show ?thesis
      by (simp add: virtual_to_physical_leaf [OF that(2)])
  qed
  show ?thesis using ok inv' same other st by (auto simp: pt_step_def)
qed

section \<open>Unmapping\<close>

lemma unmap_2mb_correct:
  assumes inv: "pt_inv vm" and al: "is_aligned vaddr PAGE_SIZE_LARGE" and i: "pt_index vaddr 39 \<noteq> 511"
    and m: "amd64_vmem_unmap_2mb vaddr vm = (ok, vm')"
  shows "pt_inv vm' \<and> (\<not> ok \<longrightarrow> vm' = vm) \<and>
    (\<forall>va. pt_index va 39 \<noteq> 511 \<longrightarrow> amd64_vmem_virtual_to_physical vm' va =
       (if same_large_page va vaddr then 0 else amd64_vmem_virtual_to_physical vm va))"
proof -
  define i j k where "i = pt_index vaddr 39" and "j = pt_index vaddr 30" and "k = pt_index vaddr 21"
  have lt: "i < 512" "j < 512" "k < 512" by (simp_all add: i_def j_def k_def pt_index_lt)
  have ok: "ok \<longleftrightarrow> valid vm [j, i]" and vm': "vm' = (if ok then set_ent (tbl vm [j, i]) k 0 vm else vm)"
    using m al i lt by (auto simp: amd64_vmem_unmap_2mb_def Let_def i_def j_def k_def split: if_splits)
  show ?thesis
  proof (cases ok)
    case False
    have "amd64_vmem_virtual_to_physical vm va = 0" if "same_large_page va vaddr" "pt_index va 39 \<noteq> 511" for va
      using that False ok virtual_to_physical_leaf [OF that(2), of vm]
      by (simp add: same_large_page_index leaf_def i_def j_def pt_present_def del: valid.simps)
    with False vm' inv show ?thesis by auto
  next
    case True
    have st: "pt_step {([j, i], k)} {} vm vm'"
      using pt_set_step [OF inv, of "[j, i]" k 0] True ok vm' lt by simp
    have l0: "leaf vm' [j, i] k = 0"
      using st True ok vm' by (auto simp: leaf_def pt_step_def ent_def set_ent_def simp del: tbl.simps valid.simps)
    have "amd64_vmem_virtual_to_physical vm' va =
        (if same_large_page va vaddr then 0 else amd64_vmem_virtual_to_physical vm va)"
      if "pt_index va 39 \<noteq> 511" for va
    proof (cases "same_large_page va vaddr")
      case True
      then have "leaf vm' (pd_path va) (pt_index va 21) = 0"
        using l0 by (simp only: same_large_page_index i_def j_def k_def)
      with True show ?thesis by (simp add: virtual_to_physical_leaf that pt_present_def)
    next
      case False
      then have "(pd_path va, pt_index va 21) \<notin> {([j, i], k)}"
        by (auto simp: same_large_page_index i_def j_def k_def)
      from pt_step_leaf [OF st this pt_index_lt] False show ?thesis
        by (simp add: virtual_to_physical_leaf that)
    qed
    then show ?thesis using True pt_step_inv [OF st] by blast
  qed
qed

section \<open>Properties\<close>

text \<open>
  C4. Mapping a 2 MiB page in a well-formed table hierarchy: unless the page allocator runs out,
  the call succeeds; afterwards the processor's walk and the kernel's own
  \<open>virtual_to_physical\<close> both send every address of the page to the requested physical page, the
  translation of every other address (outside the recursive slot) is what it was, and the
  hierarchy is still well-formed (all tables distinct pages owned by the allocator, the recursive
  slot intact).
\<close>

theorem vmem_map_2mb_translates:
  assumes "pt_inv vm" and "is_aligned vaddr PAGE_SIZE_LARGE" and "is_aligned paddr PAGE_SIZE_LARGE"
    and "pt_index vaddr 39 \<noteq> 511" and "pt_frame paddr = paddr"
    and "amd64_vmem_map_2mb vaddr paddr is_kernel vm = (ok, vm')" and "avail vm' \<noteq> {}"
  shows "ok \<and> pt_inv vm' \<and>
    (\<forall>va. same_large_page va vaddr \<longrightarrow>
       mmu_walk vm' va = Some (paddr + (va AND 0x1FFFFF)) \<and>
       amd64_vmem_virtual_to_physical vm' va = paddr + (va AND 0x1FFFFF)) \<and>
    (\<forall>va. \<not> same_large_page va vaddr \<and> pt_index va 39 \<noteq> 511 \<longrightarrow>
       amd64_vmem_virtual_to_physical vm' va = amd64_vmem_virtual_to_physical vm va)"
  using map_2mb_correct [OF assms] by blast

text \<open>A hierarchy with only its top table, at physical page 1.\<close>

definition boot_vm :: vm where
  "boot_vm = \<lparr>global_page_bitmap = 3 # replicate (PAGING_BITMAP_SIZE - 1) 0, memory_size = 8000000,
     phys_mem = (\<lambda>_. 0)(0x1FF8 := 0x1003), cr3 = 0x1000, mapped_mmio_bitmap = [0, 0]\<rparr>"

lemma memory_kb_8mb: "memory_kb 8000000 = 8000"
proof -
  have "floorlog 2 (8000000 :: nat) = 23" by (simp add: compute_floorlog)
  moreover have "floorlog 2 (9223372036854776000000 :: nat) = 73" by (simp add: compute_floorlog)
  ultimately show ?thesis by (simp add: memory_kb_def round53_def Let_def)
qed

lemma boot_frame: "pt_frame 0x1000 = 0x1000" "pt_frame 0x1003 = 0x1000"
  by (simp_all add: pt_frame_def)

lemma boot_valid: "valid boot_vm p \<longleftrightarrow> p = []"
proof (induction p)
  case (Cons x p)
  have "x = 511" if "x < (512 :: u64)" "0x1000 + 8 * x = 0x1FF8"
    using entry_inj [OF that(1), of 511 "0x1000" "0x1000"] that by (simp add: boot_frame)
  then show ?case using Cons
    by (auto simp: boot_vm_def boot_frame ent_def pt_present_def split: if_splits)
qed simp

lemma boot_inv: "pt_inv boot_vm"
proof -
  have "bitmap_ok boot_vm" by (simp add: bitmap_ok_def boot_vm_def PAGING_BITMAP_SIZE_def)
  moreover have "recursive_ok boot_vm"
    by (simp add: recursive_ok_def boot_vm_def ent_def boot_frame RECURSIVE_SLOT_def Let_def pt_present_def
        bit_iff_odd)
  moreover have "page_taken boot_vm 0x1000"
    by (simp add: page_taken_def boot_vm_def bitmap_get_alt PAGING_BITMAP_SIZE_def bit_iff_odd)
  ultimately show ?thesis
    unfolding pt_inv_def boot_valid by (auto simp: boot_frame) (simp add: boot_vm_def boot_frame)
qed

lemma boot_avail: "2 \<le> i \<Longrightarrow> i < 64 \<Longrightarrow> i \<in> avail boot_vm"
proof -
  assume i: "2 \<le> i" "i < 64"
  have eq: "(3 :: u64) = mask 2" by (simp add: mask_eq_exp_minus_1)
  have "\<not> bit (3 :: u64) i" unfolding eq using i by (auto simp: bit_mask_iff)
  with i show ?thesis
    by (simp add: avail_def pmem_limit_def memory_kb_8mb boot_vm_def bitmap_get_alt
        PAGING_BITMAP_SIZE_def bitmap_get_size_def)
qed

text \<open>The first mapping of the boot hierarchy at \<open>0x200000\<close> allocates two tables and succeeds.\<close>

definition boot_mapped :: vm where
  "boot_mapped = snd (amd64_vmem_map_2mb 0x200000 0x600000 True boot_vm)"

lemma boot_args:
  "is_aligned 0x200000 PAGE_SIZE_LARGE" "is_aligned 0x600000 PAGE_SIZE_LARGE"
  "pt_index 0x200000 39 \<noteq> 511" "pt_frame 0x600000 = 0x600000" "pd_path 0x200000 = [0, 0]"
  by (simp_all add: is_aligned_def PAGE_SIZE_LARGE_def pt_index_def pt_frame_def)

lemma boot_mapped_eq: "\<exists>ok. amd64_vmem_map_2mb 0x200000 0x600000 True boot_vm = (ok, boot_mapped)"
  by (metis boot_mapped_def prod.collapse)

lemma boot_mapped_avail: "avail boot_mapped \<noteq> {}"
proof -
  obtain i j where ij: "avail boot_vm - {i, j} \<subseteq> avail boot_mapped"
    using map_2mb_avail boot_mapped_eq by metis
  have "2 \<notin> {i, j} \<or> 3 \<notin> {i, j} \<or> 4 \<notin> {i, j}" by auto
  then show ?thesis using ij boot_avail [of 2] boot_avail [of 3] boot_avail [of 4] by auto
qed

lemma boot_mapped_valid: "pt_inv boot_mapped" "valid boot_mapped [0, 0]"
proof -
  obtain ok where m: "amd64_vmem_map_2mb 0x200000 0x600000 True boot_vm = (ok, boot_mapped)"
    using boot_mapped_eq by blast
  obtain W where "pt_step (insert (pd_path 0x200000, pt_index 0x200000 21) W)
      {[pt_index 0x200000 39], pd_path 0x200000} boot_vm boot_mapped"
    and v: "valid boot_mapped (pd_path 0x200000)"
    by (rule map_2mb_step [OF boot_inv boot_args(1-3) m boot_mapped_avail]) blast
  then show "pt_inv boot_mapped" by (auto simp: pt_step_def)
  show "valid boot_mapped [0, 0]" using v unfolding boot_args(5) .
qed

theorem vmem_map_2mb_translates_witness:
  "mmu_walk boot_mapped 0x212345 = Some 0x612345 \<and>
   amd64_vmem_virtual_to_physical boot_mapped 0x212345 = 0x612345"
proof -
  obtain ok where m: "amd64_vmem_map_2mb 0x200000 0x600000 True boot_vm = (ok, boot_mapped)"
    using boot_mapped_eq by blast
  have "same_large_page 0x212345 0x200000" by (simp add: same_large_page_index pt_index_def)
  with vmem_map_2mb_translates [OF boot_inv boot_args(1-4) m boot_mapped_avail]
  have "mmu_walk boot_mapped 0x212345 = Some (0x600000 + (0x212345 AND 0x1FFFFF)) \<and>
    amd64_vmem_virtual_to_physical boot_mapped 0x212345 = 0x600000 + (0x212345 AND 0x1FFFFF)"
    by blast
  then show ?thesis by simp
qed

text \<open>
  Unmapping: on a well-formed hierarchy the call changes nothing when it reports failure; in
  any case the page translates to nothing afterwards, every other translation is unchanged and the
  hierarchy stays well-formed.
\<close>

theorem vmem_unmap_2mb_removes:
  assumes "pt_inv vm" and "is_aligned vaddr PAGE_SIZE_LARGE" and "pt_index vaddr 39 \<noteq> 511"
    and "amd64_vmem_unmap_2mb vaddr vm = (ok, vm')"
  shows "pt_inv vm' \<and> (\<not> ok \<longrightarrow> vm' = vm) \<and>
    (\<forall>va. pt_index va 39 \<noteq> 511 \<longrightarrow> amd64_vmem_virtual_to_physical vm' va =
       (if same_large_page va vaddr then 0 else amd64_vmem_virtual_to_physical vm va))"
  using assms by (rule unmap_2mb_correct)

theorem vmem_unmap_2mb_removes_witness:
  "pt_inv (snd (amd64_vmem_unmap_2mb 0x200000 boot_vm)) \<and>
   amd64_vmem_virtual_to_physical (snd (amd64_vmem_unmap_2mb 0x200000 boot_vm)) 0x212345 = 0"
proof -
  have ix: "pt_index 0x200000 39 \<noteq> 511" "pt_index 0x212345 39 \<noteq> 511" by (simp_all add: pt_index_def)
  have al: "is_aligned 0x200000 PAGE_SIZE_LARGE" by (simp add: is_aligned_def PAGE_SIZE_LARGE_def)
  have "same_large_page 0x212345 0x200000" by (simp add: same_large_page_index pt_index_def)
  with vmem_unmap_2mb_removes [OF boot_inv al ix(1) prod.collapse [symmetric]] ix(2) show ?thesis by simp
qed

text \<open>
  The recursive-slot macros are right: on a well-formed hierarchy the processor's walk of the
  addresses \<open>GET_PML4_VIRT\<close>, \<open>GET_PDPT_VIRT\<close> and \<open>GET_PDT_VIRT\<close> (plus an entry offset) ends at the
  entry of the top table, of the PDPT and of the page directory they are meant to expose.
\<close>

theorem recursive_slot_resolves:
  assumes "pt_inv vm" and "valid vm [j, i]" and "k < 512"
  shows "mmu_walk vm (GET_PML4_VIRT + 8 * k) = Some (tbl vm [] + 8 * k) \<and>
    mmu_walk vm (GET_PDPT_VIRT i + 8 * k) = Some (tbl vm [i] + 8 * k) \<and>
    mmu_walk vm (GET_PDT_VIRT i j + 8 * k) = Some (tbl vm [j, i] + 8 * k)"
proof -
  have r: "recursive_ok vm" and ij: "i < 512" "j < 512" and pr: "pt_present (ent vm (pt_frame (cr3 vm)) i)"
    "pt_present (ent vm (pt_frame (ent vm (pt_frame (cr3 vm)) i)) j)"
    using assms(1,2) by (auto simp: pt_inv_def)
  have "valid vm [i]" using assms(2) by simp
  then have p7: "\<not> bit (ent vm (pt_frame (cr3 vm)) i) 7"
    using assms(1) unfolding pt_inv_def by (metis tbl.simps(1))
  from r have s: "pt_present (ent vm (pt_frame (cr3 vm)) 511)" "\<not> bit (ent vm (pt_frame (cr3 vm)) 511) 7"
    "pt_frame (ent vm (pt_frame (cr3 vm)) 511) = pt_frame (cr3 vm)"
    by (simp_all add: recursive_ok_def RECURSIVE_SLOT_def Let_def)
  show ?thesis
    using mmu_walk_recursive [OF r, of 511 511 k] mmu_walk_recursive [OF r, of 511 i k]
      mmu_walk_recursive [OF r ij assms(3)] s pr p7 ij assms(3)
    by (simp add: GET_PML4_VIRT_PDT GET_PDPT_VIRT_PDT RECURSIVE_SLOT_def)
qed

theorem recursive_slot_resolves_witness:
  "mmu_walk boot_mapped (GET_PML4_VIRT + 8 * 3) = Some (tbl boot_mapped [] + 8 * 3) \<and>
   mmu_walk boot_mapped (GET_PDPT_VIRT 0 + 8 * 3) = Some (tbl boot_mapped [0] + 8 * 3) \<and>
   mmu_walk boot_mapped (GET_PDT_VIRT 0 0 + 8 * 3) = Some (tbl boot_mapped [0, 0] + 8 * 3)"
  by (rule recursive_slot_resolves [OF boot_mapped_valid]) simp

end
