(* ===== verification/Vmem.thy ===== *)
theory Vmem
  imports Page_Table
begin

text \<open>
  \<open>src/kernel/src/memory/vmem.cpp\<close>: the portable virtual memory layer on top of the page tables.
  \<open>vmem_smart_alloc_pages\<close> backs a range with fresh 2 MiB pages; its loop ends because every
  iteration takes a page from the allocator (the measure of its termination proof).
\<close>

definition VMEM_BIT_USER_KERNEL :: nat where "VMEM_BIT_USER_KERNEL = 0"
definition VMEM_KERNEL :: u64 where "VMEM_KERNEL = 1"
definition VMEM_USER :: u64 where "VMEM_USER = 0"
definition VMEM_READWRITE :: u64 where "VMEM_READWRITE = 2"
definition VMEM_EXECUTE :: u64 where "VMEM_EXECUTE = 4"
definition VMEM_MAPPED_MMIO_REGION :: u64 where "VMEM_MAPPED_MMIO_REGION = 0xFFFFF80200000000"

definition vmem_virtual_to_physical :: "'a vm_scheme \<Rightarrow> u64 \<Rightarrow> u64" where
  "vmem_virtual_to_physical vm vaddr = amd64_vmem_virtual_to_physical vm vaddr"

definition vmem_map_2mb :: "u64 \<Rightarrow> u64 \<Rightarrow> u64 \<Rightarrow> 'a vm_scheme \<Rightarrow> bool \<times> 'a vm_scheme" where
  "vmem_map_2mb vaddr paddr flags vm =
     amd64_vmem_map_2mb vaddr paddr (BIT_CHECK flags VMEM_BIT_USER_KERNEL) vm"

definition vmem_unmap_2mb :: "u64 \<Rightarrow> 'a vm_scheme \<Rightarrow> bool \<times> 'a vm_scheme" where
  "vmem_unmap_2mb vaddr vm = amd64_vmem_unmap_2mb vaddr vm"

text \<open>\<open>vmem_map_2mb_remote\<close>: map while another process's page table is loaded.\<close>

definition vmem_map_2mb_remote :: "u64 \<Rightarrow> u64 \<Rightarrow> u64 \<Rightarrow> u64 \<Rightarrow> 'a vm_scheme \<Rightarrow> bool \<times> 'a vm_scheme" where
  "vmem_map_2mb_remote page_table vaddr paddr flags vm =
     (case vmem_map_2mb vaddr paddr flags (vm\<lparr>cr3 := page_table\<rparr>) of
        (result, vm') \<Rightarrow> (result, vm'\<lparr>cr3 := cr3 vm\<rparr>))"

text \<open>The search for a free slot of the MMIO window; slot 0 is never used.\<close>

fun mmio_slot :: "u64 list \<Rightarrow> nat list \<Rightarrow> nat option" where
  "mmio_slot bm [] = None"
| "mmio_slot bm (i # is) = (if \<not> bitmap_get bm i then Some i else mmio_slot bm is)"

definition vmem_map_mmio_region :: "u64 \<Rightarrow> 'a vm_scheme \<Rightarrow> u64 \<times> 'a vm_scheme" where
  "vmem_map_mmio_region paddr vm =
     (let page_paddr = align_down paddr PAGE_SIZE_LARGE; offset = paddr - page_paddr;
          bm = mapped_mmio_bitmap vm
      in case mmio_slot bm [1..<bitmap_get_size (length bm)] of
           None \<Rightarrow> (0, vm)
         | Some i \<Rightarrow>
             let vaddr = VMEM_MAPPED_MMIO_REGION + of_nat i * PAGE_SIZE_LARGE
             in case vmem_map_2mb vaddr page_paddr (VMEM_EXECUTE OR VMEM_READWRITE OR VMEM_KERNEL)
                       (vm\<lparr>mapped_mmio_bitmap := bitmap_set bm i True\<rparr>) of
                  (ok, vm') \<Rightarrow> if ok then (vaddr + offset, vm') else (0, vm'))"

section \<open>Backing a range\<close>

lemma get_page_measure:
  assumes "pmem_get_page vm = (t, vm1)" "t \<noteq> 0"
  shows "card (avail vm1) < card (avail vm)"
proof (cases vm rule: pmem_get_page_cases)
  case none
  with assms show ?thesis by simp
next
  case (some i)
  have "vm1 = vm\<lparr>global_page_bitmap := bitmap_set (global_page_bitmap vm) i True\<rparr>"
    using trans [OF assms(1) [symmetric] some(3)] by simp
  then have "avail vm1 = avail vm - {i}"
    by (simp only: avail_mark [OF avail_index [OF some(1)]])
  with card_Diff1_less [OF finite_avail some(1)] show ?thesis by simp
qed

lemma grows_card: "pmem_grows vm vm' \<Longrightarrow> card (avail vm') \<le> card (avail vm)"
  by (auto simp: pmem_grows_def intro: card_mono)

lemma vmem_map_2mb_grows [inv_intros]: "pmem_grows vm (snd (vmem_map_2mb va pa flags vm))"
  unfolding vmem_map_2mb_def by (rule map_2mb_grows(1) [OF prod.collapse [symmetric]])

text \<open>One whole iteration leaves strictly fewer pages.\<close>

lemma iteration_measure:
  assumes "pmem_get_page vm = (t, vm1)" "t \<noteq> 0" "pmem_try_reserve_address a n vm1 = (ok, vm2)"
    "vmem_map_2mb va pa flags vm2 = (ok', vm3)"
  shows "pmem_grows vm1 vm3" "card (avail vm3) < card (avail vm)"
proof -
  show "pmem_grows vm1 vm3"
    using pmem_grows_trans [OF pmem_try_reserve_grows vmem_map_2mb_grows] assms(3,4) by (metis snd_conv)
  then show "card (avail vm3) < card (avail vm)"
    using grows_card get_page_measure [OF assms(1,2)] le_less_trans by blast
qed

function smart_alloc_loop ::
  "u64 \<Rightarrow> u64 \<Rightarrow> u64 \<Rightarrow> u64 \<Rightarrow> 'a vm_scheme \<Rightarrow> u64 \<times> 'a vm_scheme" where
  "smart_alloc_loop flags sz allocated current_virtual_address vm =
     (if allocated < sz then
        case pmem_get_page vm of (target, vm1) \<Rightarrow>
        if target = 0 then (allocated, vm1)
        else if \<not> is_aligned target PAGE_SIZE_LARGE
        then smart_alloc_loop flags sz allocated current_virtual_address vm1
        else case pmem_try_reserve_address (target + PAGE_SIZE)
                    (unat (PAGE_SIZE_LARGE div PAGE_SIZE - 1)) vm1 of (ok, vm2) \<Rightarrow>
        if \<not> ok then (allocated, vm2)
        else case vmem_map_2mb current_virtual_address target flags vm2 of (ok, vm3) \<Rightarrow>
        if \<not> ok then (allocated, vm3)
        else smart_alloc_loop flags sz (allocated + PAGE_SIZE_LARGE)
               (current_virtual_address + PAGE_SIZE_LARGE) vm3
      else (allocated, vm))"
  by auto
termination
proof (relation "measure (\<lambda>(flags, sz, allocated, cur, vm). card (avail vm))")
qed (auto dest!: sym [of "(_, _)"] dest: get_page_measure iteration_measure(2))

declare smart_alloc_loop.simps [simp del]

definition vmem_smart_alloc_pages :: "u64 \<Rightarrow> u64 \<Rightarrow> u64 \<Rightarrow> 'a vm_scheme \<Rightarrow> u64 \<times> 'a vm_scheme" where
  "vmem_smart_alloc_pages vaddr sz flags vm = smart_alloc_loop flags sz 0 vaddr vm"

section \<open>What backing a range guarantees to its clients\<close>

lemma unat_large: "unat PAGE_SIZE_LARGE = 2097152"
  by (simp add: PAGE_SIZE_LARGE_def)

lemma pages_per_large: "unat (PAGE_SIZE_LARGE div PAGE_SIZE - 1) = 511"
  by (simp add: PAGE_SIZE_LARGE_def PAGE_SIZE_def)

lemma is_aligned_add_large:
  assumes "is_aligned a PAGE_SIZE_LARGE"
  shows "is_aligned (a + PAGE_SIZE_LARGE) PAGE_SIZE_LARGE"
proof -
  have "(unat a + 2097152) mod 2 ^ 64 mod 2097152 = (unat a + 2097152) mod 2097152"
    by (rule mod_mod_cancel) (simp add: dvd_def)
  then show ?thesis using assms by (simp add: is_aligned_2mb unat_word_ariths unat_large)
qed

text \<open>Reserving the rest of a 2 MiB block below 4 GiB never fails.\<close>

lemma reserve_rest_ok:
  assumes "bitmap_ok p" "is_aligned t PAGE_SIZE_LARGE" "unat t < 4294967296"
  shows "fst (pmem_try_reserve_address (t + PAGE_SIZE) 511 p)"
    and "unat t div 4096 < j \<Longrightarrow> j < unat t div 4096 + 512 \<Longrightarrow>
      bitmap_get (global_page_bitmap (snd (pmem_try_reserve_address (t + PAGE_SIZE) 511 p))) j"
proof -
  obtain q where q: "unat t = 2097152 * q" using assms(2) by (auto simp: is_aligned_2mb dest: mod_0_imp_dvd)
  then have qq: "q < 2048" using assms(3) by simp
  have u: "unat (t + PAGE_SIZE) = 2097152 * q + 4096"
    using qq q by (subst unat_plus_no_wrap) (auto simp: PAGE_SIZE_def)
  then have "unat (t + PAGE_SIZE) mod 4096 = 0" "unat (t + PAGE_SIZE) + 511 * 4096 \<le> 4294967296"
    using qq by (auto simp: mod_eq_0_iff_dvd)
  note ok = pmem_try_reserve_ok [OF assms(1) this]
  show "fst (pmem_try_reserve_address (t + PAGE_SIZE) 511 p)" by (rule ok(1))
  show "unat t div 4096 < j \<Longrightarrow> j < unat t div 4096 + 512 \<Longrightarrow>
      bitmap_get (global_page_bitmap (snd (pmem_try_reserve_address (t + PAGE_SIZE) 511 p))) j"
    using q u by (intro ok(2)) auto
qed

text \<open>The bytes the allocator can still hand out as 2 MiB pages, an upper bound.\<close>

definition vm_budget :: "'a vm_scheme \<Rightarrow> nat" where
  "vm_budget vm = 2097152 * card (avail vm)"

lemma vm_budget_bound: "bitmap_ok vm \<Longrightarrow> vm_budget vm \<le> 2199023255552"
proof -
  assume "bitmap_ok vm"
  then have "avail vm \<subseteq> {..<1048576}" using pmem_limit_le by (fastforce simp: avail_def)
  then have "card (avail vm) \<le> 1048576" using card_mono [of "{..<1048576}" "avail vm"] by simp
  then show ?thesis by (simp add: vm_budget_def)
qed

lemma smart_alloc_loop_laws:
  assumes "smart_alloc_loop fl sz al cur vm = (r, vm')" "bitmap_ok vm"
    and "unat al + vm_budget vm < 2 ^ 64" "2097152 dvd unat al" "is_aligned cur PAGE_SIZE_LARGE"
  shows "pmem_grows vm vm' \<and> unat r + vm_budget vm' \<le> unat al + vm_budget vm \<and> 2097152 dvd unat r \<and>
    (r < sz \<longrightarrow> avail vm' = {})"
  using assms
proof (induction fl sz al cur vm arbitrary: r vm' rule: smart_alloc_loop.induct)
  case (1 fl sz al cur vm)
  note step = smart_alloc_loop.simps [of fl sz al cur vm]
  show ?case
  proof (cases "al < sz")
    case False
    with "1.prems" step show ?thesis by simp
  next
    case True
    obtain t vm1 where g: "pmem_get_page vm = (t, vm1)" by fastforce
    note spec = pmem_get_page_spec [OF "1.prems"(2) g]
    have gr1: "pmem_grows vm vm1" using pmem_get_page_grows [of vm] g by simp
    have ok1: "bitmap_ok vm1" using gr1 "1.prems"(2) by (simp add: pmem_grows_def)
    show ?thesis
    proof (cases "t = 0")
      case t0: True
      with True "1.prems"(1,4) step g spec show ?thesis by auto
    next
      case t1: False
      have b1: "vm_budget vm1 + 2097152 \<le> vm_budget vm"
        using get_page_measure [OF g t1] by (simp add: vm_budget_def)
      show ?thesis
      proof (cases "is_aligned t PAGE_SIZE_LARGE")
        case False
        with True t1 step g "1.prems"(1) have "smart_alloc_loop fl sz al cur vm1 = (r, vm')" by simp
        from "1.IH"(1) [OF True g [symmetric] t1 False this ok1] "1.prems"(3-5) b1
        show ?thesis using pmem_grows_trans [OF gr1] by auto
      next
        case al2: True
        obtain k vm2 where res: "pmem_try_reserve_address (t + PAGE_SIZE) 511 vm1 = (k, vm2)" by fastforce
        have k: k using reserve_rest_ok(1) [OF ok1 al2] spec t1 res by simp
        obtain k' vm3 where mp: "vmem_map_2mb cur t fl vm2 = (k', vm3)" by fastforce
        then have k': k' using map_2mb_grows(2) [of cur t _ vm2] "1.prems"(5) al2
          by (auto simp: vmem_map_2mb_def)
        have gr3: "pmem_grows vm1 vm3" using iteration_measure(1) [OF g t1 res mp] .
        have b3: "vm_budget vm3 + 2097152 \<le> vm_budget vm"
          using iteration_measure(2) [OF g t1 res mp] by (simp add: vm_budget_def)
        have ual: "unat (al + PAGE_SIZE_LARGE) = unat al + 2097152"
          using "1.prems"(3) b3 by (subst unat_plus_no_wrap) (auto simp: unat_large)
        have "smart_alloc_loop fl sz (al + PAGE_SIZE_LARGE) (cur + PAGE_SIZE_LARGE) vm3 = (r, vm')"
          using True t1 al2 step g res k mp k' "1.prems"(1) by (simp add: pages_per_large)
        from "1.IH"(2) [OF True g [symmetric] t1 _ _ _ mp [symmetric] _ this, of k]
        have "pmem_grows vm3 vm' \<and>
            unat r + vm_budget vm' \<le> unat (al + PAGE_SIZE_LARGE) + vm_budget vm3 \<and>
            2097152 dvd unat r \<and> (r < sz \<longrightarrow> avail vm' = {})"
          using al2 res mp k k' gr3 ok1 "1.prems"(3-5) b3 ual
          by (simp add: pages_per_large is_aligned_add_large pmem_grows_def)
        with b3 ual show ?thesis using pmem_grows_trans [OF gr1 pmem_grows_trans [OF gr3]] by auto
      qed
    qed
  qed
qed

text \<open>What the heap needs: the bytes mapped come out of the budget, in whole 2 MiB pages, and only
  an exhausted allocator gives less than was asked for.\<close>

lemma smart_alloc_laws:
  assumes "vmem_smart_alloc_pages va sz fl vm = (r, vm')" "bitmap_ok vm" "is_aligned va PAGE_SIZE_LARGE"
  shows "pmem_grows vm vm'" "bitmap_ok vm'" "unat r + vm_budget vm' \<le> vm_budget vm" "2097152 dvd unat r"
    "r < sz \<Longrightarrow> avail vm' = {}" "avail vm = {} \<Longrightarrow> avail vm' = {}" "avail vm = {} \<Longrightarrow> r = 0"
proof -
  have "pmem_grows vm vm' \<and> unat r + vm_budget vm' \<le> unat (0 :: u64) + vm_budget vm \<and> 2097152 dvd unat r \<and>
    (r < sz \<longrightarrow> avail vm' = {})"
    using assms vm_budget_bound [OF assms(2)]
    by (intro smart_alloc_loop_laws) (auto simp: vmem_smart_alloc_pages_def)
  then show g: "pmem_grows vm vm'" and "unat r + vm_budget vm' \<le> vm_budget vm" "2097152 dvd unat r"
    "r < sz \<Longrightarrow> avail vm' = {}" and "avail vm = {} \<Longrightarrow> avail vm' = {}" "avail vm = {} \<Longrightarrow> r = 0"
    by (auto simp: pmem_grows_def vm_budget_def unat_eq_zero)
  show "bitmap_ok vm'" using g assms(2) by (simp add: pmem_grows_def)
qed

section \<open>A backed range translates to distinct fresh pages\<close>

text \<open>Steps that only touch the page bitmap keep hierarchy and translation.\<close>

lemma pt_inv_bitmap:
  assumes "pt_inv vm" "pmem_grows vm vm'" "phys_mem vm' = phys_mem vm" "cr3 vm' = cr3 vm"
  shows "pt_inv vm'" "amd64_vmem_virtual_to_physical vm' = amd64_vmem_virtual_to_physical vm" "spares vm vm'"
proof -
  have e: "ent vm' = ent vm" using assms(3) by (simp add: ent_def fun_eq_iff)
  note keep = pt_inv_same [OF assms(1,2,4)]
  show "pt_inv vm'" by (rule keep(1)) (simp add: e)
  show "spares vm vm'"
    by (rule sparesI [OF assms(2)]) (use keep(2,3) assms(3) in \<open>auto simp: e\<close>)
  show "amd64_vmem_virtual_to_physical vm' = amd64_vmem_virtual_to_physical vm"
    by (simp add: amd64_vmem_virtual_to_physical_def e assms(4) fun_eq_iff Let_def)
qed

lemma reserve_frame:
  assumes "pmem_try_reserve_address pa n vm = (ok, vm')"
  shows "phys_mem vm' = phys_mem vm" "cr3 vm' = cr3 vm"
  by (rule pmem_try_reserve_bitmap [OF assms], simp)+

text \<open>The \<open>k\<close>-th page of a range; pages less than \<open>2 ^ 27\<close> apart are different.\<close>

definition range_page :: "u64 \<Rightarrow> nat \<Rightarrow> u64" where
  "range_page va k = va + of_nat k * PAGE_SIZE_LARGE"

lemma range_page_Suc: "range_page va (Suc k) = range_page (va + PAGE_SIZE_LARGE) k"
  by (simp add: range_page_def algebra_simps)

lemma range_page_0 [simp]: "range_page va 0 = va"
  by (simp add: range_page_def)

lemma range_page_other:
  assumes "is_aligned va PAGE_SIZE_LARGE" "0 < k" "k < 134217728"
  shows "\<not> same_large_page (range_page va k) va"
proof
  assume s: "same_large_page (range_page va k) va"
  have um: "unat (drop_bit 21 (take_bit 48 x)) = unat x mod 281474976710656 div 2097152" for x :: u64
    by (simp add: unsigned_drop_bit_eq unsigned_take_bit_eq drop_bit_eq_div take_bit_eq_mod unat_div unat_mod)
  have eq: "unat (range_page va k) mod 281474976710656 div 2097152 = unat va mod 281474976710656 div 2097152"
    using s unfolding same_large_page_def by (metis um)
  obtain q where q: "unat va = 2097152 * q"
    using assms(1) by (auto simp: is_aligned_2mb dest: mod_0_imp_dvd)
  have rp: "unat (range_page va k) mod 281474976710656 = (2097152 * (q + k)) mod 281474976710656"
  proof -
    have "unat (of_nat k :: u64) = k" using assms(3) by (simp add: unat_of_nat)
    then have "unat (of_nat k * PAGE_SIZE_LARGE) = k * 2097152"
      using assms(3) by (simp add: unat_word_ariths unat_large)
    then have "unat (range_page va k) = (unat va + k * 2097152) mod 18446744073709551616"
      by (simp add: range_page_def unat_word_ariths)
    also have "unat va + k * 2097152 = 2097152 * (q + k)" by (simp add: q)
    finally have "unat (range_page va k) mod 281474976710656 =
        2097152 * (q + k) mod 18446744073709551616 mod 281474976710656" by (rule arg_cong)
    also have "\<dots> = 2097152 * (q + k) mod 281474976710656"
      by (rule mod_mod_cancel) (simp add: dvd_def)
    finally show ?thesis .
  qed
  have mm: "(2097152 * x) mod 281474976710656 div 2097152 = x mod 134217728" for x :: nat
    using mult_mod_right [of 2097152 x 134217728] by simp
  have "(q + k) mod 134217728 = q mod 134217728"
    using eq unfolding rp q mm .
  then have "134217728 dvd k"
    by (metis add_diff_cancel_left' le_add1 mod_eq_dvd_iff_nat)
  then show False using assms(2,3) by (auto dest: dvd_imp_le)
qed

lemma same_large_page_trans:
  "same_large_page a b \<Longrightarrow> same_large_page b c \<Longrightarrow> same_large_page a c"
  "same_large_page a b \<Longrightarrow> same_large_page b a"
  by (simp_all add: same_large_page_def)

definition backed :: "u64 \<Rightarrow> u64 list \<Rightarrow> 'a vm_scheme \<Rightarrow> 'a vm_scheme \<Rightarrow> bool" where
  "backed va fs vm vm' \<longleftrightarrow> distinct fs \<and> spares vm vm' \<and>
     (\<forall>f \<in> set fs. is_aligned f PAGE_SIZE_LARGE \<and> \<not> page_taken vm f \<and> page_taken vm' f) \<and>
     (\<forall>k < length fs. \<forall>x. same_large_page x (range_page va k) \<longrightarrow>
        amd64_vmem_virtual_to_physical vm' x = fs ! k + (x AND 0x1FFFFF)) \<and>
     (\<forall>x. pt_index x 39 \<noteq> 511 \<longrightarrow> (\<forall>k < length fs. \<not> same_large_page x (range_page va k)) \<longrightarrow>
        amd64_vmem_virtual_to_physical vm' x = amd64_vmem_virtual_to_physical vm x)"

lemma backed_Cons:
  assumes va: "is_aligned va PAGE_SIZE_LARGE" "length fs < 134217727" "pt_index va 39 \<noteq> 511"
    and f: "is_aligned f PAGE_SIZE_LARGE" "\<not> page_taken vm f" "page_taken vm1 f"
    and g: "pmem_grows vm vm1" "pmem_grows vm1 vm'"
    and m: "\<And>x. same_large_page x va \<Longrightarrow> amd64_vmem_virtual_to_physical vm1 x = f + (x AND 0x1FFFFF)"
      "\<And>x. \<not> same_large_page x va \<Longrightarrow> pt_index x 39 \<noteq> 511 \<Longrightarrow>
        amd64_vmem_virtual_to_physical vm1 x = amd64_vmem_virtual_to_physical vm x"
    and sp: "spares vm vm1"
    and b: "backed (va + PAGE_SIZE_LARGE) fs vm1 vm'"
  shows "backed va (f # fs) vm vm'"
  unfolding backed_def
proof (intro conjI allI impI ballI)
  show "spares vm vm'" using sp b spares_trans by (auto simp: backed_def)
  show "distinct (f # fs)" using b f(3) by (auto simp: backed_def)
  fix h assume "h \<in> set (f # fs)"
  then show "is_aligned h PAGE_SIZE_LARGE" "\<not> page_taken vm h" "page_taken vm' h"
    using b f g by (auto simp: backed_def pmem_grows_def)
next
  fix k x assume k: "k < length (f # fs)" and x: "same_large_page x (range_page va k)"
  show "amd64_vmem_virtual_to_physical vm' x = (f # fs) ! k + (x AND 0x1FFFFF)"
  proof (cases k)
    case 0
    have xv: "same_large_page x va" using x 0 by simp
    have "\<not> same_large_page x (range_page (va + PAGE_SIZE_LARGE) j)" if "j < length fs" for j
    proof
      assume "same_large_page x (range_page (va + PAGE_SIZE_LARGE) j)"
      then have "same_large_page (range_page va (Suc j)) va"
        using xv same_large_page_trans unfolding range_page_Suc by blast
      then show False using range_page_other [OF va(1), of "Suc j"] that va(2) by simp
    qed
    moreover have "pt_index x 39 \<noteq> 511" using x 0 va(3) by (simp add: same_large_page_index)
    ultimately show ?thesis using b m(1) x 0 by (simp add: backed_def)
  next
    case (Suc j)
    then show ?thesis using b x k by (simp add: backed_def range_page_Suc)
  qed
next
  fix x assume x: "pt_index x 39 \<noteq> 511" and n: "\<forall>k < length (f # fs). \<not> same_large_page x (range_page va k)"
  then have "\<not> same_large_page x va" "\<And>k. k < length fs \<Longrightarrow> \<not> same_large_page x (range_page (va + PAGE_SIZE_LARGE) k)"
    by (force simp: range_page_Suc [symmetric])+
  then show "amd64_vmem_virtual_to_physical vm' x = amd64_vmem_virtual_to_physical vm x"
    using b x m(2) by (simp add: backed_def)
qed

lemma smart_alloc_loop_backs:
  assumes "smart_alloc_loop fl sz al cur vm = (r, vm')" "pt_inv vm" "avail vm' \<noteq> {}"
    and "is_aligned cur PAGE_SIZE_LARGE" "2097152 dvd unat al" "unat sz \<le> 1099511627776"
    and "unat sz \<le> unat al + 2097152 * n" "0 < n \<longrightarrow> unat al + 2097152 * (n - 1) < unat sz"
    and "\<forall>k < n. pt_index (range_page cur k) 39 \<noteq> 511"
  shows "\<exists>fs. length fs = n \<and> unat r = unat al + 2097152 * n \<and> pt_inv vm' \<and> backed cur fs vm vm'"
  using assms
proof (induction fl sz al cur vm arbitrary: r vm' n rule: smart_alloc_loop.induct)
  case (1 fl sz al cur vm)
  note step = smart_alloc_loop.simps [of fl sz al cur vm]
  have bok: "bitmap_ok vm" using "1.prems"(2) by (simp add: pt_inv_def)
  show ?case
  proof (cases "al < sz")
    case False
    then have "unat sz \<le> unat al" by (simp add: word_less_nat_alt)
    then have "n = 0" using "1.prems"(8) by (cases n) auto
    with "1.prems" step False show ?thesis by (simp add: backed_def)
  next
    case True
    obtain t vm1 where g: "pmem_get_page vm = (t, vm1)" by fastforce
    note spec = pmem_get_page_spec [OF bok g]
    have gr1: "pmem_grows vm vm1" using pmem_get_page_grows [of vm] g by simp
    have ok1: "bitmap_ok vm1" using gr1 bok by (simp add: pmem_grows_def)
    note f1 = pmem_get_page_frame [OF g]
    note inv1 = pt_inv_bitmap [OF "1.prems"(2) gr1 f1(1,2)]
    have lt: "unat al < unat sz" using True by (simp add: word_less_nat_alt)
    have t1: "t \<noteq> 0" using True "1.prems"(1,3) step g spec by auto
    show ?thesis
    proof (cases "is_aligned t PAGE_SIZE_LARGE")
      case False
      with True t1 step g "1.prems"(1) have "smart_alloc_loop fl sz al cur vm1 = (r, vm')" by simp
      from "1.IH"(1) [OF True g [symmetric] t1 False this inv1(1) "1.prems"(3-9)]
      obtain fs where fs: "length fs = n" "unat r = unat al + 2097152 * n" "pt_inv vm'" "backed cur fs vm1 vm'"
        by blast
      then have "backed cur fs vm vm'"
        using inv1(2,3) gr1 spares_trans by (auto simp: backed_def pmem_grows_def)
      with fs show ?thesis by blast
    next
      case al2: True
      obtain k vm2 where res: "pmem_try_reserve_address (t + PAGE_SIZE) 511 vm1 = (k, vm2)" by fastforce
      have k: k using reserve_rest_ok(1) [OF ok1 al2] spec t1 res by simp
      have gr2: "pmem_grows vm1 vm2" using pmem_try_reserve_grows [of vm1 "t + PAGE_SIZE" 511] res by simp
      note inv2 = pt_inv_bitmap [OF inv1(1) gr2 reserve_frame [OF res]]
      obtain k' vm3 where mp: "vmem_map_2mb cur t fl vm2 = (k', vm3)" by fastforce
      then have mp': "amd64_vmem_map_2mb cur t (BIT_CHECK fl VMEM_BIT_USER_KERNEL) vm2 = (k', vm3)"
        by (simp add: vmem_map_2mb_def)
      have k': k' using map_2mb_grows(2) [OF mp'] "1.prems"(4) al2 by simp
      obtain m where n: "n = Suc m"
        using lt "1.prems"(7) by (cases n) auto
      have ual: "unat (al + PAGE_SIZE_LARGE) = unat al + 2097152"
        using lt "1.prems"(6) by (subst unat_plus_no_wrap) (auto simp: unat_large)
      have loop: "smart_alloc_loop fl sz (al + PAGE_SIZE_LARGE) (cur + PAGE_SIZE_LARGE) vm3 = (r, vm')"
        using True t1 al2 step g res k mp k' "1.prems"(1) by (simp add: pages_per_large)
      have gr3: "pmem_grows vm2 vm3" by (rule map_2mb_grows(1) [OF mp'])
      have ok3: "bitmap_ok vm3" using ok1 gr2 gr3 by (simp add: pmem_grows_def)
      have gr4: "pmem_grows vm3 vm'"
        using smart_alloc_loop_laws [OF loop ok3] vm_budget_bound [OF ok3] ual lt "1.prems"(4-6)
        by (simp add: is_aligned_add_large)
      then have av3: "avail vm3 \<noteq> {}" using "1.prems"(3) by (auto simp: pmem_grows_def)
      have ix: "pt_index cur 39 \<noteq> 511" using "1.prems"(9) n by force
      have "unat t < 4294967296" using spec t1 by simp
      then have pf: "pt_frame t = t" using spec t1 page_bits [of t]
        by (intro bit_word_eqI) fastforce
      note mc = map_2mb_correct [OF inv2(1) "1.prems"(4) al2 ix pf mp' av3]
      have "\<exists>fs. length fs = m \<and> unat r = unat (al + PAGE_SIZE_LARGE) + 2097152 * m \<and> pt_inv vm' \<and>
          backed (cur + PAGE_SIZE_LARGE) fs vm3 vm'"
      proof (rule "1.IH"(2) [OF True g [symmetric] t1 _ _ _ mp [symmetric] _ loop, of k])
        show "\<forall>k<m. pt_index (range_page (cur + PAGE_SIZE_LARGE) k) 39 \<noteq> 511"
          using "1.prems"(9) n by (auto simp: range_page_Suc [symmetric])
        show "0 < m \<longrightarrow> unat (al + PAGE_SIZE_LARGE) + 2097152 * (m - 1) < unat sz"
          using "1.prems"(8) n ual by (cases m) auto
      qed (use mc al2 k k' res "1.prems" n ual in \<open>auto simp: pages_per_large is_aligned_add_large\<close>)
      then obtain fs where fs: "length fs = m" "unat r = unat (al + PAGE_SIZE_LARGE) + 2097152 * m" "pt_inv vm'"
        "backed (cur + PAGE_SIZE_LARGE) fs vm3 vm'" by blast
      have "backed cur (t # fs) vm vm'"
      proof (rule backed_Cons [OF "1.prems"(4) _ ix al2 _ _ _ gr4 _ _ _ fs(4)])
        show "spares vm vm3" using inv1(3) inv2(3) mc spares_trans by blast
        show "length fs < 134217727" using "1.prems"(6,8) n fs(1) by simp
        show "\<not> page_taken vm t" using spec t1 by simp
        have "page_taken vm1 t" using spec t1 by simp
        then show "page_taken vm3 t" using gr2 gr3 by (simp add: pmem_grows_def)
        show "pmem_grows vm vm3" using gr1 gr2 gr3 pmem_grows_trans by blast
      qed (use mc inv1(2) inv2(2) in auto)
      with fs n ual show ?thesis by (intro exI [of _ "t # fs"]) simp
    qed
  qed
qed

section \<open>Properties\<close>


definition boot_vm2 :: vm where
  "boot_vm2 = boot_vm\<lparr>global_page_bitmap := replicate 8 (- 1) @ replicate (PAGING_BITMAP_SIZE - 8) 0\<rparr>"

lemma boot_vm2_bit: "bitmap_get (global_page_bitmap boot_vm2) i \<longleftrightarrow> i < 512"
proof -
  have "i div 64 < 8 \<longleftrightarrow> i < 512" by auto
  then show ?thesis
    by (auto simp: boot_vm2_def bitmap_get_alt nth_append PAGING_BITMAP_SIZE_def)
qed

lemma boot_vm2_inv: "pt_inv boot_vm2"
proof (rule pt_inv_bitmap(1) [OF boot_inv])
  have "bitmap_get (global_page_bitmap boot_vm) i \<Longrightarrow> bitmap_get (global_page_bitmap boot_vm2) i" for i
    using boot_avail [of i] unfolding boot_vm2_bit
    by (auto simp: boot_vm_def bitmap_get_alt PAGING_BITMAP_SIZE_def nth_Cons' split: if_splits)
  then show "pmem_grows boot_vm boot_vm2"
    unfolding boot_vm2_def by (intro pmem_grows_bitmap) (auto simp: boot_vm_def PAGING_BITMAP_SIZE_def)
qed (simp_all add: boot_vm2_def)

lemma boot_vm2_avail: "avail boot_vm2 = {512..<8000}"
proof -
  have "pmem_limit boot_vm2 = 8000"
    by (simp add: pmem_limit_def boot_vm2_def boot_vm_def memory_kb_8mb bitmap_get_size_def PAGING_BITMAP_SIZE_def)
  then show ?thesis by (auto simp: avail_def boot_vm2_bit)
qed

lemma boot_vm2_first: "\<exists>vm1. pmem_get_page boot_vm2 = (0x200000, vm1) \<and> avail vm1 = {513..<8000}"
proof (cases boot_vm2 rule: pmem_get_page_cases)
  case none
  then show ?thesis by (simp add: boot_vm2_avail)
next
  case (some i)
  have "i = 512" using some(1) bspec [OF some(2), of 512] by (simp add: boot_vm2_avail)
  define vm1 where "vm1 = boot_vm2\<lparr>global_page_bitmap := bitmap_set (global_page_bitmap boot_vm2) i True\<rparr>"
  have "avail vm1 = avail boot_vm2 - {i}" unfolding vm1_def by (rule avail_mark [OF avail_index [OF some(1)]])
  also have "\<dots> = {513..<8000}" unfolding boot_vm2_avail \<open>i = 512\<close> by auto
  finally have "avail vm1 = {513..<8000}" .
  moreover have "of_nat 512 * PAGE_SIZE = 0x200000" by (simp add: PAGE_SIZE_def)
  ultimately show ?thesis using some(3) unfolding vm1_def \<open>i = 512\<close> by metis
qed

lemma boot_vm2_reserve: "reserve_set (0x200000 + PAGE_SIZE) 0 511 \<subseteq> {..<1024}"
proof
  fix x assume "x \<in> reserve_set (0x200000 + PAGE_SIZE) 0 511"
  then obtain j where j: "j < 511" "x = unat ((0x200000 + PAGE_SIZE + of_nat j * PAGE_SIZE) div PAGE_SIZE)"
    by (auto simp: reserve_set_def)
  have "unat (0x200000 + PAGE_SIZE + of_nat j * PAGE_SIZE) = 0x201000 + j * 4096"
    using j(1) by (simp add: PAGE_SIZE_def unat_word_ariths unat_of_nat)
  then show "x \<in> {..<1024}" using j by (simp add: unat_div PAGE_SIZE_def)
qed

lemma boot_vm2_alloc:
  "\<exists>vm' i j. vmem_smart_alloc_pages 0x400000 1 fl boot_vm2 = (PAGE_SIZE_LARGE, vm') \<and>
     {1024..<8000} - {i, j} \<subseteq> avail vm'"
proof -
  obtain vm1 where g: "pmem_get_page boot_vm2 = (0x200000, vm1)" "avail vm1 = {513..<8000}"
    using boot_vm2_first by blast
  have al: "is_aligned 0x200000 PAGE_SIZE_LARGE" "is_aligned 0x400000 PAGE_SIZE_LARGE"
    by (simp_all add: is_aligned_def PAGE_SIZE_LARGE_def)
  have "bitmap_ok boot_vm2" using boot_vm2_inv by (simp add: pt_inv_def)
  then have "bitmap_ok vm1" using pmem_get_page_grows [of boot_vm2] g by (simp add: pmem_grows_def)
  then have "fst (pmem_try_reserve_address (0x200000 + PAGE_SIZE) 511 vm1)"
    using al by (intro reserve_rest_ok(1)) simp_all
  then obtain vm2 where res: "pmem_try_reserve_address (0x200000 + PAGE_SIZE) 511 vm1 = (True, vm2)"
    by (metis prod.collapse)
  have S: "{1024..<8000} \<subseteq> avail vm2"
    using pmem_try_reserve_only [OF res] g(2) boot_vm2_reserve by force
  obtain k vm3 where mp: "vmem_map_2mb 0x400000 0x200000 fl vm2 = (k, vm3)" by fastforce
  note mp' = mp [unfolded vmem_map_2mb_def]
  obtain i j where ij: "avail vm2 - {i, j} \<subseteq> avail vm3" using map_2mb_avail [OF mp'] by blast
  have "k" using map_2mb_grows(2) [OF mp'] al by simp
  then have "vmem_smart_alloc_pages 0x400000 1 fl boot_vm2 = (PAGE_SIZE_LARGE, vm3)"
    using g(1) al res mp unfolding vmem_smart_alloc_pages_def
    by (subst smart_alloc_loop.simps)
      (simp add: pages_per_large smart_alloc_loop.simps [of _ 1 PAGE_SIZE_LARGE], simp add: PAGE_SIZE_LARGE_def)
  with S ij show ?thesis by blast
qed


end
