(* ===== verification/Heap.thy ===== *)
theory Heap
  imports Vmem
begin

text \<open>
  \<open>src/kernel/src/memory/heap.cpp\<close>: the kernel heap. A heap is an array of block descriptors, linked
  by their \<open>next\<close> pointers from descriptor 0 in address order; \<open>used\<close> marks a descriptor that is
  in the chain and \<open>free\<close> a block that can be given out. A pointer to a descriptor is its index,
  \<open>None\<close> is \<open>nullptr\<close>; addresses and sizes are 64-bit words, the null address is 0.

  The heap obtains memory from \<open>vmem_smart_alloc_pages\<close>. Its functions take that operation as the
  argument \<open>valloc\<close>, with the machine state it runs on, so that what the heap relies on can be
  stated as the locale \<open>page_provider\<close>; the properties instantiate it with the kernel's own.
\<close>

record heap_block =
  start_real_addr :: u64
  hb_size :: u64
  hb_next :: "nat option"
  hb_free :: bool
  hb_used :: bool

record heap =
  heap_block_array :: u64
  hp_blocks :: "heap_block list"
  heap_block_count :: nat
  start_virtual_addr :: u64
  hp_size :: u64

type_synonym 'm valloc = "u64 \<Rightarrow> u64 \<Rightarrow> u64 \<Rightarrow> 'm \<Rightarrow> u64 \<times> 'm"

definition sizeof_heap_block :: nat where "sizeof_heap_block = 25"

definition zero_block :: heap_block where
  "zero_block = \<lparr>start_real_addr = 0, hb_size = 0, hb_next = None, hb_free = False, hb_used = False\<rparr>"

section \<open>Filters\<close>

definition donor_block_filter :: "heap_block \<Rightarrow> u64 \<Rightarrow> bool" where
  "donor_block_filter b param \<longleftrightarrow> hb_used b \<and> hb_free b \<and> param \<le> hb_size b"

definition unused_block_filter :: "heap_block \<Rightarrow> u64 \<Rightarrow> bool" where
  "unused_block_filter b param \<longleftrightarrow> \<not> hb_used b"

definition last_block_filter :: "heap_block \<Rightarrow> u64 \<Rightarrow> bool" where
  "last_block_filter b param \<longleftrightarrow> hb_used b \<and> hb_next b = None"

text \<open>The inner loop: block \<open>i\<close> goes to the first empty slot whose filter accepts it.\<close>

fun fill_slot :: "(heap_block \<Rightarrow> u64 \<Rightarrow> bool) list \<Rightarrow> u64 \<Rightarrow> heap_block \<Rightarrow> nat \<Rightarrow>
    nat option list \<Rightarrow> bool \<times> nat option list" where
  "fill_slot (f # fs) param b i (s # ss) =
     (if s = None \<and> f b param then (True, Some i # ss)
      else (case fill_slot fs param b i ss of (r, ss') \<Rightarrow> (r, s # ss')))"
| "fill_slot _ param b i ss = (False, ss)"

text \<open>The outer loop, from block \<open>i\<close> on.\<close>

fun filter_loop :: "(heap_block \<Rightarrow> u64 \<Rightarrow> bool) list \<Rightarrow> u64 \<Rightarrow> nat \<Rightarrow> heap_block list \<Rightarrow>
    nat option list \<Rightarrow> nat \<Rightarrow> nat option list \<times> nat" where
  "filter_loop fs param i [] ss found = (ss, found)"
| "filter_loop fs param i (b # bs) ss found =
     (if found = length ss then (ss, found)
      else case fill_slot fs param b i ss of
        (r, ss') \<Rightarrow> filter_loop fs param (i + 1) bs ss' (if r then found + 1 else found))"

definition heap_filter_blocks :: "heap \<Rightarrow> u64 \<Rightarrow> (heap_block \<Rightarrow> u64 \<Rightarrow> bool) list \<Rightarrow>
    nat option list \<Rightarrow> int \<times> nat option list" where
  "heap_filter_blocks h param fs ss =
     (if length fs \<noteq> length ss then (-1, ss)
      else case filter_loop fs param 0 (hp_blocks h) ss 0 of (ss', found) \<Rightarrow> (int found, ss'))"

section \<open>Heap operations\<close>

abbreviation upd_block :: "nat \<Rightarrow> (heap_block \<Rightarrow> heap_block) \<Rightarrow> heap_block list \<Rightarrow> heap_block list" where
  "upd_block i f bs \<equiv> bs[i := f (bs ! i)]"

text \<open>The end of \<open>heap_init\<close> and \<open>dma_heap_init\<close>; \<open>raw\<close> is the memory of the freshly mapped array,
  which the code does not clear.\<close>

definition setup_heap :: "u64 \<Rightarrow> u64 \<Rightarrow> heap_block list \<Rightarrow> heap" where
  "setup_heap vaddr heap_size raw =
     \<lparr>heap_block_array = vaddr,
      hp_blocks = raw[0 := \<lparr>start_real_addr = vaddr + PAGE_SIZE_LARGE, hb_size = heap_size,
                            hb_next = None, hb_free = True, hb_used = True\<rparr>],
      heap_block_count = 1,
      start_virtual_addr = vaddr + PAGE_SIZE_LARGE,
      hp_size = heap_size\<rparr>"

text \<open>\<open>while (p_page && !is_aligned(p_page, PAGE_SIZE_LARGE)) p_page = pmem_get_page();\<close>\<close>

function get_aligned_page :: "u64 \<Rightarrow> 'a vm_scheme \<Rightarrow> u64 \<times> 'a vm_scheme" where
  "get_aligned_page p_page vm =
     (if p_page \<noteq> 0 \<and> \<not> is_aligned p_page PAGE_SIZE_LARGE
      then (case pmem_get_page vm of (p, vm') \<Rightarrow> get_aligned_page p vm')
      else (p_page, vm))"
  by auto
termination
proof (relation "measure (\<lambda>(p, vm). card (avail vm) + (if p = 0 then 0 else 1))")
  fix p vm r vm'
  assume "p \<noteq> 0 \<and> \<not> is_aligned p PAGE_SIZE_LARGE" "(r, vm') = pmem_get_page vm"
  then show "((r, vm'), p, vm) \<in> measure (\<lambda>(p, vm). card (avail vm) + (if p = 0 then 0 else 1))"
    using get_page_measure [of vm r vm'] grows_card [OF pmem_get_page_grows, of vm]
    by (cases "r = 0") (auto dest: sym)
qed simp

declare get_aligned_page.simps [simp del]

definition heap_flags :: "bool \<Rightarrow> u64" where
  "heap_flags is_user = VMEM_EXECUTE OR (if is_user then VMEM_USER else VMEM_KERNEL) OR VMEM_READWRITE"

definition map_block_array :: "u64 \<Rightarrow> u64 \<Rightarrow> 'a vm_scheme \<Rightarrow> bool \<times> 'a vm_scheme" where
  "map_block_array vaddr flags vm =
     (case pmem_get_page vm of (p0, vm1) \<Rightarrow> case get_aligned_page p0 vm1 of (p_page, vm2) \<Rightarrow>
        if p_page = 0 then (False, vm2)
        else case pmem_try_reserve_address (p_page + PAGE_SIZE)
                    (unat (PAGE_SIZE_LARGE div PAGE_SIZE - 1)) vm2 of (ok, vm3) \<Rightarrow>
          if \<not> ok then (False, vm3) else vmem_map_2mb vaddr p_page flags vm3)"

definition heap_init :: "u64 \<Rightarrow> u64 \<Rightarrow> bool \<Rightarrow> heap_block list \<Rightarrow> 'a vm_scheme \<Rightarrow> heap option \<times> 'a vm_scheme" where
  "heap_init vaddr sz is_user raw vm =
     (case vmem_smart_alloc_pages (vaddr + PAGE_SIZE_LARGE) sz (heap_flags is_user) vm of
        (heap_size, vm1) \<Rightarrow>
      case map_block_array vaddr (heap_flags is_user) vm1 of (ok, vm2) \<Rightarrow>
        (if ok then Some (setup_heap vaddr heap_size raw) else None, vm2))"

definition heap_expand :: "'m valloc \<Rightarrow> heap \<Rightarrow> u64 \<Rightarrow> 'm \<Rightarrow> bool \<times> heap \<times> 'm" where
  "heap_expand valloc h sz m =
     (case heap_filter_blocks h sz [last_block_filter, unused_block_filter] [None, None] of
        (result, [Some last_block, Some new_block]) \<Rightarrow>
          let heap_virtual_end = start_virtual_addr h + hp_size h
          in (case valloc heap_virtual_end sz (VMEM_EXECUTE OR VMEM_KERNEL OR VMEM_READWRITE) m of
                (new_heap_block_size, m') \<Rightarrow>
              let bs = upd_block new_block (\<lambda>b. b\<lparr>hb_used := True, hb_free := True,
                         hb_size := new_heap_block_size, start_real_addr := heap_virtual_end\<rparr>) (hp_blocks h);
                  bs' = upd_block last_block (\<lambda>b. b\<lparr>hb_next := Some new_block\<rparr>) bs
              in (True, h\<lparr>hp_size := hp_size h + new_heap_block_size, hp_blocks := bs'\<rparr>, m'))
      | _ \<Rightarrow> (False, h, m))"

definition unused_count :: "heap \<Rightarrow> nat" where
  "unused_count h = length (filter (\<lambda>b. \<not> hb_used b) (hp_blocks h))"

section \<open>Filter search\<close>

text \<open>The first index of a block with a property.\<close>

fun first_ix :: "(heap_block \<Rightarrow> bool) \<Rightarrow> nat \<Rightarrow> heap_block list \<Rightarrow> nat option" where
  "first_ix P i [] = None"
| "first_ix P i (b # bs) = (if P b then Some i else first_ix P (i + 1) bs)"

lemma first_ix_Some:
  "first_ix P i bs = Some j \<Longrightarrow> i \<le> j \<and> j < i + length bs \<and> P (bs ! (j - i))"
  by (induction bs arbitrary: i) (fastforce split: if_splits simp: nth_Cons')+

lemma first_ix_None: "first_ix P i bs = None \<longleftrightarrow> (\<forall>b \<in> set bs. \<not> P b)"
  by (induction bs arbitrary: i) auto

definition ofs :: "'a option \<Rightarrow> nat" where
  "ofs x = (if x = None then 0 else 1)"

text \<open>Two filters that never accept the same block are answered independently.\<close>

lemma filter_loop_two:
  assumes "\<And>b. \<not> (f b p \<and> g b p)"
  shows "filter_loop [f, g] p i bs [a, b] (ofs a + ofs b) =
    (let a' = (if a = None then first_ix (\<lambda>b. f b p) i bs else a);
         b' = (if b = None then first_ix (\<lambda>b. g b p) i bs else b)
     in ([a', b'], ofs a' + ofs b'))"
  using assms
proof (induction bs arbitrary: i a b)
  case Nil
  then show ?case by (simp add: Let_def)
next
  case (Cons x bs)
  show ?case
    using Cons.prems [of x] Cons.IH [OF Cons.prems, of "Suc i" a b]
      Cons.IH [OF Cons.prems, of "Suc i" "Some i" b] Cons.IH [OF Cons.prems, of "Suc i" a "Some i"]
    by (cases a; cases b; cases "f x p"; cases "g x p") (auto simp: ofs_def Let_def)
qed

lemma heap_filter_two:
  assumes "\<And>b. \<not> (f b p \<and> g b p)"
  shows "heap_filter_blocks h p [f, g] [None, None] =
    (let a = first_ix (\<lambda>b. f b p) 0 (hp_blocks h); b = first_ix (\<lambda>b. g b p) 0 (hp_blocks h)
     in (int (ofs a + ofs b), [a, b]))"
  using filter_loop_two [of f p g 0 "hp_blocks h" None None, OF assms]
  by (simp add: heap_filter_blocks_def ofs_def Let_def)

lemma disjoint_filters:
  "\<not> (donor_block_filter b p \<and> unused_block_filter b p)"
  "\<not> (last_block_filter b p \<and> unused_block_filter b p)"
  by (auto simp: donor_block_filter_def unused_block_filter_def last_block_filter_def)

definition find_donor :: "u64 \<Rightarrow> heap \<Rightarrow> nat option" where
  "find_donor sz h = first_ix (\<lambda>b. donor_block_filter b sz) 0 (hp_blocks h)"

definition find_unused :: "heap \<Rightarrow> nat option" where
  "find_unused h = first_ix (\<lambda>b. \<not> hb_used b) 0 (hp_blocks h)"

definition find_last :: "heap \<Rightarrow> nat option" where
  "find_last h = first_ix (\<lambda>b. hb_used b \<and> hb_next b = None) 0 (hp_blocks h)"

lemma filter_donor_unused:
  "heap_filter_blocks h sz [donor_block_filter, unused_block_filter] [None, None] =
     (int (ofs (find_donor sz h) + ofs (find_unused h)), [find_donor sz h, find_unused h])"
  unfolding heap_filter_two [of donor_block_filter sz unused_block_filter h, OF disjoint_filters(1)]
  by (simp add: find_donor_def find_unused_def unused_block_filter_def Let_def)

lemma filter_last_unused:
  "heap_filter_blocks h sz [last_block_filter, unused_block_filter] [None, None] =
     (int (ofs (find_last h) + ofs (find_unused h)), [find_last h, find_unused h])"
  unfolding heap_filter_two [of last_block_filter sz unused_block_filter h, OF disjoint_filters(2)]
  by (simp add: find_last_def find_unused_def unused_block_filter_def last_block_filter_def Let_def)

lemma find_unused_Some: "find_unused h = Some i \<Longrightarrow> i < length (hp_blocks h) \<and> \<not> hb_used (hp_blocks h ! i)"
  unfolding find_unused_def by (drule first_ix_Some) simp

lemma find_last_Some:
  "find_last h = Some i \<Longrightarrow> i < length (hp_blocks h) \<and> hb_used (hp_blocks h ! i) \<and> hb_next (hp_blocks h ! i) = None"
  unfolding find_last_def by (drule first_ix_Some) simp

lemma find_donor_Some:
  "find_donor sz h = Some i \<Longrightarrow> i < length (hp_blocks h) \<and> hb_used (hp_blocks h ! i) \<and>
     hb_free (hp_blocks h ! i) \<and> sz \<le> hb_size (hp_blocks h ! i)"
  unfolding find_donor_def by (drule first_ix_Some) (simp add: donor_block_filter_def)

text \<open>Taking a descriptor into use leaves one fewer.\<close>

lemma unused_filter_upd:
  assumes "i < length bs"
  shows "length (filter (\<lambda>b. \<not> hb_used b) (bs[i := b])) + (if hb_used (bs ! i) then 0 else 1) =
    length (filter (\<lambda>b. \<not> hb_used b) bs) + (if hb_used b then 0 else 1)"
proof -
  have bs: "bs = take i bs @ bs ! i # drop (Suc i) bs" using assms by (simp add: id_take_nth_drop)
  show ?thesis
    unfolding arg_cong [OF bs, of "\<lambda>l. length (filter (\<lambda>b. \<not> hb_used b) l)"] upd_conv_take_nth_drop [OF assms]
    by simp
qed

lemma unused_filter_update:
  assumes "i < length bs" "\<not> hb_used (bs ! i)" "hb_used b"
  shows "length (filter (\<lambda>b. \<not> hb_used b) (bs[i := b])) < length (filter (\<lambda>b. \<not> hb_used b) bs)"
  using unused_filter_upd [OF assms(1), of b] assms by simp

lemma unused_filter_same:
  assumes "hb_used b \<longleftrightarrow> hb_used (bs ! i)"
  shows "length (filter (\<lambda>b. \<not> hb_used b) (bs[i := b])) = length (filter (\<lambda>b. \<not> hb_used b) bs)"
  using unused_filter_upd [of i bs b] assms by (cases "i < length bs") (auto split: if_splits simp: list_update_beyond)

lemma heap_expand_cases:
  obtains (fail) "find_last h = None \<or> find_unused h = None" "heap_expand valloc h sz m = (False, h, m)"
  | (grow) l n r m' where "find_last h = Some l" "find_unused h = Some n"
      "valloc (start_virtual_addr h + hp_size h) sz (VMEM_EXECUTE OR VMEM_KERNEL OR VMEM_READWRITE) m = (r, m')"
      "heap_expand valloc h sz m = (True, h\<lparr>hp_size := hp_size h + r,
         hp_blocks := upd_block l (\<lambda>b. b\<lparr>hb_next := Some n\<rparr>)
           (upd_block n (\<lambda>b. b\<lparr>hb_used := True, hb_free := True, hb_size := r,
              start_real_addr := start_virtual_addr h + hp_size h\<rparr>) (hp_blocks h))\<rparr>, m')"
proof (cases "find_last h")
  case None
  then show thesis by (intro fail) (simp_all add: heap_expand_def filter_last_unused)
next
  case (Some l)
  show thesis
  proof (cases "find_unused h")
    case None
    then show thesis by (intro fail) (simp_all add: heap_expand_def filter_last_unused Some)
  next
    case u: (Some n)
    obtain r m' where "valloc (start_virtual_addr h + hp_size h) sz (VMEM_EXECUTE OR VMEM_KERNEL OR VMEM_READWRITE) m = (r, m')"
      by fastforce
    with Some u show thesis by (intro grow) (simp_all add: heap_expand_def filter_last_unused Let_def)
  qed
qed

lemma heap_expand_unused:
  assumes "heap_expand valloc h sz m = (True, h', m')"
  shows "unused_count h' < unused_count h"
proof (cases rule: heap_expand_cases [where valloc = valloc and h = h and sz = sz and m = m])
  case (grow l n r m'')
  note n = find_unused_Some [OF grow(2)] and l = find_last_Some [OF grow(1)]
  have "l \<noteq> n" using n l by auto
  have "h' = h\<lparr>hp_size := hp_size h + r,
         hp_blocks := upd_block l (\<lambda>b. b\<lparr>hb_next := Some n\<rparr>)
           (upd_block n (\<lambda>b. b\<lparr>hb_used := True, hb_free := True, hb_size := r,
              start_real_addr := start_virtual_addr h + hp_size h\<rparr>) (hp_blocks h))\<rparr>"
    using trans [OF assms [symmetric] grow(4)] by simp
  then show ?thesis
    using n unused_filter_update [of n "hp_blocks h"] by (simp add: unused_count_def unused_filter_same)
qed (use assms in simp)

section \<open>Allocation and release\<close>

function heap_alloc :: "'m valloc \<Rightarrow> heap \<Rightarrow> u64 \<Rightarrow> 'm \<Rightarrow> u64 \<times> heap \<times> 'm" where
  "heap_alloc valloc h sz m =
     (case heap_filter_blocks h sz [donor_block_filter, unused_block_filter] [None, None] of
        (result, blocks) \<Rightarrow>
        (case blocks of
           [Some donor, unused] \<Rightarrow>
             let d = hp_blocks h ! donor in
             if hb_size d = sz
             then (start_real_addr d,
                   h\<lparr>hp_blocks := upd_block donor (\<lambda>b. b\<lparr>hb_free := False, hb_used := True\<rparr>) (hp_blocks h)\<rparr>, m)
             else (case unused of
                 Some u \<Rightarrow>
                   let new_size = hb_size d - sz;
                       addr = start_real_addr d + new_size;
                       bs = upd_block donor (\<lambda>b. b\<lparr>hb_size := new_size\<rparr>) (hp_blocks h);
                       bs = upd_block u (\<lambda>b. b\<lparr>hb_free := False, hb_used := True, hb_size := sz,
                              start_real_addr := addr, hb_next := hb_next d\<rparr>) bs;
                       bs = upd_block donor (\<lambda>b. b\<lparr>hb_next := Some u\<rparr>) bs
                   in (addr, h\<lparr>hp_blocks := bs\<rparr>, m)
               | None \<Rightarrow> (case heap_expand valloc h sz m of (ok, h', m') \<Rightarrow>
                   if ok then heap_alloc valloc h' sz m' else (0, h', m')))
         | _ \<Rightarrow> (case heap_expand valloc h sz m of (ok, h', m') \<Rightarrow>
             if ok then heap_alloc valloc h' sz m' else (0, h', m'))))"
  by auto
termination
  by (relation "measure (\<lambda>(valloc, h, sz, m). unused_count h)")
    (auto intro!: heap_expand_unused [OF sym])

declare heap_alloc.simps [simp del]

text \<open>The first loop of \<open>heap_free\<close>; a pointer that leaves the array, or a cycle, is \<open>None\<close>.\<close>

partial_function (option) mark_free ::
  "heap_block list \<Rightarrow> nat option \<Rightarrow> u64 \<Rightarrow> heap_block list option" where
  "mark_free bs current p_ptr =
     (case current of None \<Rightarrow> Some bs
      | Some i \<Rightarrow>
          if i < length bs then
            if start_real_addr (bs ! i) = p_ptr then Some (upd_block i (\<lambda>b. b\<lparr>hb_free := True\<rparr>) bs)
            else mark_free bs (hb_next (bs ! i)) p_ptr
          else None)"

text \<open>The second loop: one pass that merges a free block with a free successor and then moves on.\<close>

partial_function (option) coalesce ::
  "heap_block list \<Rightarrow> nat option \<Rightarrow> heap_block list option" where
  "coalesce bs current =
     (case current of None \<Rightarrow> Some bs
      | Some i \<Rightarrow>
          if i < length bs then
            (case hb_next (bs ! i) of
               None \<Rightarrow> coalesce bs None
             | Some n \<Rightarrow>
                 if \<not> hb_free (bs ! i) then coalesce bs (Some n)
                 else if n < length bs then
                   if hb_free (bs ! n) then
                     let bs' = (upd_block i (\<lambda>b. b\<lparr>hb_size := hb_size b + hb_size (bs ! n),
                                   hb_next := hb_next (bs ! n)\<rparr>) bs)[n := zero_block]
                     in coalesce bs' (hb_next (bs' ! i))
                   else coalesce bs (Some n)
                 else None)
          else None)"

definition heap_free :: "heap \<Rightarrow> u64 \<Rightarrow> heap option" where
  "heap_free h p_ptr = do {
     bs \<leftarrow> mark_free (hp_blocks h) (Some 0) p_ptr;
     bs' \<leftarrow> coalesce bs (Some 0);
     Some (h\<lparr>hp_blocks := bs'\<rparr>) }"

section \<open>The chain of blocks\<close>

text \<open>\<open>seg bs cur ix fin\<close>: following \<open>next\<close> from \<open>cur\<close> visits \<open>ix\<close> and arrives at \<open>fin\<close>.\<close>

fun seg :: "heap_block list \<Rightarrow> nat option \<Rightarrow> nat list \<Rightarrow> nat option \<Rightarrow> bool" where
  "seg bs cur [] fin \<longleftrightarrow> cur = fin"
| "seg bs cur (i # ix) fin \<longleftrightarrow> cur = Some i \<and> i < length bs \<and> seg bs (hb_next (bs ! i)) ix fin"

text \<open>\<open>tiled bs a ix e\<close>: the blocks \<open>ix\<close> cover the addresses from \<open>a\<close> to \<open>e\<close> without gap or
  overlap.\<close>

fun tiled :: "heap_block list \<Rightarrow> nat \<Rightarrow> nat list \<Rightarrow> nat \<Rightarrow> bool" where
  "tiled bs a [] e \<longleftrightarrow> a = e"
| "tiled bs a (i # ix) e \<longleftrightarrow>
     unat (start_real_addr (bs ! i)) = a \<and> tiled bs (a + unat (hb_size (bs ! i))) ix e"

lemma seg_append: "seg bs cur (xs @ ys) fin \<longleftrightarrow> (\<exists>m. seg bs cur xs m \<and> seg bs m ys fin)"
  by (induction xs arbitrary: cur) auto

lemma tiled_append: "tiled bs a (xs @ ys) e \<longleftrightarrow> (\<exists>m. tiled bs a xs m \<and> tiled bs m ys e)"
  by (induction xs arbitrary: a) auto

lemma seg_cong:
  assumes "seg bs cur ix fin" "length bs' = length bs" "\<And>i. i \<in> set ix \<Longrightarrow> hb_next (bs' ! i) = hb_next (bs ! i)"
  shows "seg bs' cur ix fin"
  using assms by (induction bs cur ix fin rule: seg.induct) auto

lemma tiled_cong:
  assumes "tiled bs a ix e"
    "\<And>i. i \<in> set ix \<Longrightarrow> start_real_addr (bs' ! i) = start_real_addr (bs ! i) \<and> hb_size (bs' ! i) = hb_size (bs ! i)"
  shows "tiled bs' a ix e"
  using assms by (induction bs a ix e rule: tiled.induct) auto

lemma seg_bounds: "seg bs cur ix fin \<Longrightarrow> i \<in> set ix \<Longrightarrow> i < length bs"
  by (induction bs cur ix fin rule: seg.induct) auto

lemma tiled_le: "tiled bs a ix e \<Longrightarrow> a \<le> e"
  by (induction bs a ix e rule: tiled.induct) fastforce+

lemma tiled_within:
  "tiled bs a ix e \<Longrightarrow> i \<in> set ix \<Longrightarrow>
     a \<le> unat (start_real_addr (bs ! i)) \<and> unat (start_real_addr (bs ! i)) + unat (hb_size (bs ! i)) \<le> e"
  by (induction bs a ix e rule: tiled.induct) (auto dest: tiled_le)

lemma tiled_disjoint:
  "tiled bs a ix e \<Longrightarrow> i \<in> set ix \<Longrightarrow> j \<in> set ix \<Longrightarrow> i \<noteq> j \<Longrightarrow>
     unat (start_real_addr (bs ! i)) + unat (hb_size (bs ! i)) \<le> unat (start_real_addr (bs ! j)) \<or>
     unat (start_real_addr (bs ! j)) + unat (hb_size (bs ! j)) \<le> unat (start_real_addr (bs ! i))"
proof (induction bs a ix e rule: tiled.induct)
  case (2 bs a k ix e)
  then show ?case
    using tiled_within [of bs "a + unat (hb_size (bs ! k))" ix e] by fastforce
qed simp

definition heap_end :: "heap \<Rightarrow> nat" where
  "heap_end h = unat (start_virtual_addr h) + unat (hp_size h)"

definition heap_chain :: "heap \<Rightarrow> nat list \<Rightarrow> bool" where
  "heap_chain h ix \<longleftrightarrow> seg (hp_blocks h) (Some 0) ix None \<and> distinct ix \<and>
     (\<forall>i < length (hp_blocks h). hb_used (hp_blocks h ! i) \<longleftrightarrow> i \<in> set ix) \<and>
     (\<forall>i < length (hp_blocks h). \<not> hb_used (hp_blocks h ! i) \<longrightarrow> hb_next (hp_blocks h ! i) = None) \<and>
     tiled (hp_blocks h) (unat (start_virtual_addr h)) ix (heap_end h) \<and>
     start_virtual_addr h \<noteq> 0 \<and> heap_end h < 2 ^ 64"

lemma chain_used: "heap_chain h ix \<Longrightarrow> i < length (hp_blocks h) \<Longrightarrow> hb_used (hp_blocks h ! i) \<longleftrightarrow> i \<in> set ix"
  by (simp add: heap_chain_def)

lemma chain_ne: "heap_chain h ix \<Longrightarrow> ix \<noteq> []"
  by (auto simp: heap_chain_def)

lemma chain_lt: "heap_chain h ix \<Longrightarrow> i \<in> set ix \<Longrightarrow> i < length (hp_blocks h)"
  using seg_bounds by (auto simp: heap_chain_def)

text \<open>Only the last block of a chain has no successor.\<close>

lemma seg_last:
  "seg bs cur ix None \<Longrightarrow> i \<in> set ix \<Longrightarrow> hb_next (bs ! i) = None \<Longrightarrow> distinct ix \<Longrightarrow> \<exists>xs. ix = xs @ [i]"
proof (induction bs cur ix "None :: nat option" rule: seg.induct)
  case (2 bs cur j ix)
  show ?case
  proof (cases ix)
    case Nil
    with 2 show ?thesis by (intro exI [of _ "[]"]) auto
  next
    case (Cons k ix')
    then have "i \<noteq> j" using 2 by auto
    then obtain xs where "ix = xs @ [i]" using 2 by auto
    then show ?thesis by (intro exI [of _ "j # xs"]) simp
  qed
qed simp

lemma chain_find_last:
  assumes "heap_chain h ix"
  obtains xs l where "find_last h = Some l" "ix = xs @ [l]"
proof -
  obtain xs l where ix: "ix = xs @ [l]" using chain_ne [OF assms] by (metis append_butlast_last_id)
  have "seg (hp_blocks h) (Some 0) (xs @ [l]) None" using assms ix by (simp add: heap_chain_def)
  then have l: "l < length (hp_blocks h)" "hb_next (hp_blocks h ! l) = None" by (auto simp: seg_append)
  then have "hb_used (hp_blocks h ! l)" using chain_used [OF assms l(1)] ix by simp
  with l nth_mem [OF l(1)] have "find_last h \<noteq> None" by (auto simp: find_last_def first_ix_None)
  then obtain k where k: "find_last h = Some k" by blast
  with find_last_Some [OF k] assms obtain ys where "ix = ys @ [k]"
    using seg_last [of "hp_blocks h" "Some 0" ix k] by (auto simp: heap_chain_def)
  with k show thesis by (rule that)
qed

section \<open>Shape lemmas of the three pointer updates\<close>

text \<open>Appending a new last block.\<close>

lemma chain_append:
  assumes c: "heap_chain h ix" and n: "n < length (hp_blocks h)" "\<not> hb_used (hp_blocks h ! n)"
    and ix: "ix = xs @ [l]" and r: "heap_end h + unat r < 2 ^ 64"
  defines "h' \<equiv> h\<lparr>hp_size := hp_size h + r,
         hp_blocks := upd_block l (\<lambda>b. b\<lparr>hb_next := Some n\<rparr>)
           (upd_block n (\<lambda>b. b\<lparr>hb_used := True, hb_free := True, hb_size := r,
              start_real_addr := start_virtual_addr h + hp_size h\<rparr>) (hp_blocks h))\<rparr>"
  shows "heap_chain h' (ix @ [n])" "heap_end h' = heap_end h + unat r"
proof -
  let ?bs = "hp_blocks h" and ?bs' = "hp_blocks h'"
  have nix: "n \<notin> set ix" using chain_used [OF c n(1)] n(2) by simp
  then have ln: "l \<noteq> n" using ix by auto
  have l: "l < length ?bs" using chain_lt [OF c] ix by simp
  have b': "?bs' ! n = (?bs ! n)\<lparr>hb_used := True, hb_free := True, hb_size := r,
              start_real_addr := start_virtual_addr h + hp_size h\<rparr>"
    "?bs' ! l = (?bs ! l)\<lparr>hb_next := Some n\<rparr>"
    "\<And>i. i \<noteq> l \<Longrightarrow> i \<noteq> n \<Longrightarrow> ?bs' ! i = ?bs ! i"
    using n(1) l ln by (auto simp: h'_def nth_list_update)
  have len: "length ?bs' = length ?bs" by (simp add: h'_def)
  have sz: "unat (hp_size h + r) = unat (hp_size h) + unat r"
    using r by (intro unat_plus_no_wrap) (simp add: heap_end_def)
  have st: "unat (start_virtual_addr h + hp_size h) = heap_end h"
    using c by (subst unat_plus_no_wrap) (auto simp: heap_chain_def heap_end_def)
  show he: "heap_end h' = heap_end h + unat r" using sz by (simp add: h'_def heap_end_def)
  have sg: "seg ?bs (Some 0) (xs @ [l]) None" and ds: "distinct (xs @ [l])"
    and tl: "tiled ?bs (unat (start_virtual_addr h)) (xs @ [l]) (heap_end h)"
    using c ix by (auto simp: heap_chain_def)
  then have "seg ?bs (Some 0) xs (Some l)" by (auto simp: seg_append)
  then have "seg ?bs' (Some 0) xs (Some l)"
  proof (rule seg_cong [OF _ len])
    fix i assume "i \<in> set xs"
    then have "i \<noteq> l" "i \<noteq> n" using ds nix ix by auto
    then show "hb_next (?bs' ! i) = hb_next (?bs ! i)" using b'(3) by simp
  qed
  moreover have "hb_next (?bs ! n) = None" using c n by (simp add: heap_chain_def)
  ultimately have 1: "seg ?bs' (Some 0) (ix @ [n]) None"
    using b' n l len ix by (auto simp: seg_append)
  have "tiled ?bs' (unat (start_virtual_addr h)) (xs @ [l]) (heap_end h)"
  proof (rule tiled_cong [OF tl])
    fix i assume "i \<in> set (xs @ [l])"
    then show "start_real_addr (?bs' ! i) = start_real_addr (?bs ! i) \<and> hb_size (?bs' ! i) = hb_size (?bs ! i)"
      using b' nix ix by (cases "i = n"; cases "i = l") auto
  qed
  then have 2: "tiled ?bs' (unat (start_virtual_addr h)) (ix @ [n]) (heap_end h')"
    unfolding ix tiled_append [of _ _ "xs @ [l]"] using b'(1) st he by auto
  have 3: "hb_used (?bs' ! i) \<longleftrightarrow> i \<in> set (ix @ [n])" if "i < length ?bs" for i
    using chain_used [OF c that] b' ix by (cases "i = n"; cases "i = l") auto
  have "hb_next (?bs' ! i) = None" if "i < length ?bs" "\<not> hb_used (?bs' ! i)" for i
    using that 3 [OF that(1)] c b'(3) [of i] ix by (auto simp: heap_chain_def)
  with 1 2 3 show "heap_chain h' (ix @ [n])"
    using c nix r he len by (auto simp: heap_chain_def h'_def)
qed

text \<open>Splitting a block: descriptor \<open>u\<close> takes the upper \<open>sz\<close> bytes of block \<open>d\<close>.\<close>

definition split_block :: "nat \<Rightarrow> nat \<Rightarrow> u64 \<Rightarrow> heap_block list \<Rightarrow> heap_block list" where
  "split_block d u sz bs = bs[d := (bs ! d)\<lparr>hb_size := hb_size (bs ! d) - sz, hb_next := Some u\<rparr>,
     u := (bs ! u)\<lparr>hb_free := False, hb_used := True, hb_size := sz,
             start_real_addr := start_real_addr (bs ! d) + (hb_size (bs ! d) - sz),
             hb_next := hb_next (bs ! d)\<rparr>]"

lemma chain_split:
  assumes c: "heap_chain h ix" and u: "u < length (hp_blocks h)" "\<not> hb_used (hp_blocks h ! u)"
    and d: "d < length (hp_blocks h)" "hb_used (hp_blocks h ! d)" and sz: "sz \<le> hb_size (hp_blocks h ! d)"
  shows "\<exists>ix'. heap_chain (h\<lparr>hp_blocks := split_block d u sz (hp_blocks h)\<rparr>) ix'"
proof -
  let ?bs = "hp_blocks h" let ?bs' = "split_block d u sz ?bs"
  obtain xs ys where ix: "ix = xs @ d # ys"
    using chain_used [OF c d(1)] d(2) by (auto simp: in_set_conv_decomp)
  have uix: "u \<notin> set ix" using chain_used [OF c u(1)] u(2) by simp
  then have du: "d \<noteq> u" using ix by auto
  have ds: "distinct (xs @ d # ys)" using c ix by (simp add: heap_chain_def)
  have len: "length ?bs' = length ?bs" by (simp add: split_block_def)
  have b': "?bs' ! d = (?bs ! d)\<lparr>hb_size := hb_size (?bs ! d) - sz, hb_next := Some u\<rparr>"
    "?bs' ! u = (?bs ! u)\<lparr>hb_free := False, hb_used := True, hb_size := sz,
             start_real_addr := start_real_addr (?bs ! d) + (hb_size (?bs ! d) - sz),
             hb_next := hb_next (?bs ! d)\<rparr>"
    "\<And>i. i \<noteq> d \<Longrightarrow> i \<noteq> u \<Longrightarrow> ?bs' ! i = ?bs ! i"
    using u(1) d(1) du by (auto simp: split_block_def nth_list_update)
  have same: "?bs' ! i = ?bs ! i" if "i \<in> set xs \<union> set ys" for i
    using that ds uix ix by (intro b'(3)) auto
  have sg: "seg ?bs (Some 0) xs (Some d)" "seg ?bs (hb_next (?bs ! d)) ys None"
    and tl: "tiled ?bs (unat (start_virtual_addr h)) (xs @ d # ys) (heap_end h)" and he: "heap_end h < 2 ^ 64"
    using c ix by (auto simp: heap_chain_def seg_append)
  have "seg ?bs' (Some 0) xs (Some d)" "seg ?bs' (hb_next (?bs ! d)) ys None"
    by (rule seg_cong [OF sg(1) len], simp add: same) (rule seg_cong [OF sg(2) len], simp add: same)
  then have 1: "seg ?bs' (Some 0) (xs @ d # u # ys) None"
    using b' d u len by (auto simp: seg_append)
  obtain m where m: "tiled ?bs (unat (start_virtual_addr h)) xs m" "unat (start_real_addr (?bs ! d)) = m"
    "tiled ?bs (m + unat (hb_size (?bs ! d))) ys (heap_end h)" using tl by (auto simp: tiled_append)
  have le: "m + unat (hb_size (?bs ! d)) < 2 ^ 64" using tiled_le [OF m(3)] he by simp
  have us: "unat (hb_size (?bs ! d) - sz) = unat (hb_size (?bs ! d)) - unat sz" "unat sz \<le> unat (hb_size (?bs ! d))"
    using sz by (simp_all add: unat_minus_no_wrap word_le_nat_alt)
  have st: "unat (start_real_addr (?bs ! d) + (hb_size (?bs ! d) - sz)) = m + (unat (hb_size (?bs ! d)) - unat sz)"
    using le us m(2) by (subst unat_plus_no_wrap) auto
  have "tiled ?bs' (unat (start_virtual_addr h)) xs m" "tiled ?bs' (m + unat (hb_size (?bs ! d))) ys (heap_end h)"
    by (rule tiled_cong [OF m(1)], simp add: same) (rule tiled_cong [OF m(3)], simp add: same)
  then have 2: "tiled ?bs' (unat (start_virtual_addr h)) (xs @ d # u # ys) (heap_end h)"
    using b' m(2) us st by (auto simp: tiled_append)
  have 3: "hb_used (?bs' ! i) \<longleftrightarrow> i \<in> set (xs @ d # u # ys)" if "i < length ?bs" for i
    using chain_used [OF c that] b' ix d(2) by (cases "i = d"; cases "i = u") auto
  have 4: "hb_next (?bs' ! i) = None" if "i < length ?bs" "\<not> hb_used (?bs' ! i)" for i
    using that 3 [OF that(1)] c b'(3) [of i] ix by (auto simp: heap_chain_def)
  have "heap_chain (h\<lparr>hp_blocks := ?bs'\<rparr>) (xs @ d # u # ys)"
    using 1 2 3 4 c ds uix ix du len by (auto simp: heap_chain_def heap_end_def)
  then show ?thesis ..
qed

text \<open>Merging a block \<open>i\<close> with its successor \<open>n\<close>.\<close>

definition merge_block :: "nat \<Rightarrow> nat \<Rightarrow> heap_block list \<Rightarrow> heap_block list" where
  "merge_block i n bs = (upd_block i (\<lambda>b. b\<lparr>hb_size := hb_size b + hb_size (bs ! n),
                           hb_next := hb_next (bs ! n)\<rparr>) bs)[n := zero_block]"

lemma merge_block_nth:
  assumes "i < length bs" "n < length bs" "i \<noteq> n"
  shows "merge_block i n bs ! i = (bs ! i)\<lparr>hb_size := hb_size (bs ! i) + hb_size (bs ! n), hb_next := hb_next (bs ! n)\<rparr>"
    "merge_block i n bs ! n = zero_block"
    "\<And>j. j \<noteq> i \<Longrightarrow> j \<noteq> n \<Longrightarrow> merge_block i n bs ! j = bs ! j"
  using assms by (auto simp: merge_block_def nth_list_update)

lemma chain_merge:
  assumes c: "heap_chain h (xs @ i # n # ys)"
  shows "heap_chain (h\<lparr>hp_blocks := merge_block i n (hp_blocks h)\<rparr>) (xs @ i # ys)"
    and "unat (hb_size (hp_blocks h ! i) + hb_size (hp_blocks h ! n)) =
      unat (hb_size (hp_blocks h ! i)) + unat (hb_size (hp_blocks h ! n))"
proof -
  let ?bs = "hp_blocks h" let ?bs' = "merge_block i n ?bs"
  have ds: "distinct (xs @ i # n # ys)" using c by (simp add: heap_chain_def)
  have lt: "i < length ?bs" "n < length ?bs" using chain_lt [OF c] by auto
  have ne: "i \<noteq> n" using ds by auto
  note b' = merge_block_nth [OF lt ne]
  have len: "length ?bs' = length ?bs" by (simp add: merge_block_def)
  have same: "?bs' ! j = ?bs ! j" if "j \<in> set xs \<union> set ys" for j
    using that ds by (intro b'(3)) auto
  have sg: "seg ?bs (Some 0) xs (Some i)" "seg ?bs (hb_next (?bs ! n)) ys None" "hb_next (?bs ! i) = Some n"
    and tl: "tiled ?bs (unat (start_virtual_addr h)) (xs @ i # n # ys) (heap_end h)" and he: "heap_end h < 2 ^ 64"
    using c by (auto simp: heap_chain_def seg_append)
  have "seg ?bs' (Some 0) xs (Some i)" "seg ?bs' (hb_next (?bs ! n)) ys None"
    by (rule seg_cong [OF sg(1) len], simp add: same) (rule seg_cong [OF sg(2) len], simp add: same)
  then have 1: "seg ?bs' (Some 0) (xs @ i # ys) None" using b'(1) lt len by (auto simp: seg_append)
  obtain m where m: "tiled ?bs (unat (start_virtual_addr h)) xs m" "unat (start_real_addr (?bs ! i)) = m"
    "tiled ?bs (m + unat (hb_size (?bs ! i)) + unat (hb_size (?bs ! n))) ys (heap_end h)"
    using tl by (auto simp: tiled_append)
  show sz: "unat (hb_size (?bs ! i) + hb_size (?bs ! n)) = unat (hb_size (?bs ! i)) + unat (hb_size (?bs ! n))"
    using tiled_le [OF m(3)] he by (intro unat_plus_no_wrap) simp
  have "tiled ?bs' (unat (start_virtual_addr h)) xs m"
    "tiled ?bs' (m + unat (hb_size (?bs ! i)) + unat (hb_size (?bs ! n))) ys (heap_end h)"
    by (rule tiled_cong [OF m(1)], simp add: same) (rule tiled_cong [OF m(3)], simp add: same)
  then have 2: "tiled ?bs' (unat (start_virtual_addr h)) (xs @ i # ys) (heap_end h)"
    using b'(1) m(2) sz by (auto simp: tiled_append add.assoc)
  have 3: "hb_used (?bs' ! j) \<longleftrightarrow> j \<in> set (xs @ i # ys)" if "j < length ?bs" for j
    using chain_used [OF c that] chain_used [OF c lt(1)] b' ds
    by (cases "j = n"; cases "j = i") (auto simp: zero_block_def)
  have 4: "hb_next (?bs' ! j) = None" if "j < length ?bs" "\<not> hb_used (?bs' ! j)" for j
    using that 3 [OF that(1)] c b'(2) b'(3) [of j] by (cases "j = n") (auto simp: heap_chain_def zero_block_def)
  show "heap_chain (h\<lparr>hp_blocks := ?bs'\<rparr>) (xs @ i # ys)"
    using 1 2 3 4 c ds len by (auto simp: heap_chain_def heap_end_def)
qed

text \<open>Changing only the \<open>free\<close> mark of a block.\<close>

lemma chain_free_mark:
  assumes "heap_chain h ix"
  shows "heap_chain (h\<lparr>hp_blocks := upd_block i (\<lambda>b. b\<lparr>hb_free := f\<rparr>) (hp_blocks h)\<rparr>) ix"
proof -
  let ?bs' = "upd_block i (\<lambda>b. b\<lparr>hb_free := f\<rparr>) (hp_blocks h)"
  have b: "hb_next (?bs' ! j) = hb_next (hp_blocks h ! j)" "hb_used (?bs' ! j) = hb_used (hp_blocks h ! j)"
    "hb_size (?bs' ! j) = hb_size (hp_blocks h ! j)" "start_real_addr (?bs' ! j) = start_real_addr (hp_blocks h ! j)" for j
    by (cases "i < length (hp_blocks h)"; cases "j = i"; simp add: list_update_beyond)+
  have "seg ?bs' (Some 0) ix None" using assms b by (auto simp: heap_chain_def intro: seg_cong)
  moreover have "tiled ?bs' (unat (start_virtual_addr h)) ix (heap_end h)"
    using assms b by (auto simp: heap_chain_def intro: tiled_cong)
  ultimately show ?thesis using assms b by (simp add: heap_chain_def heap_end_def)
qed

section \<open>Live blocks\<close>

definition live_ix :: "heap \<Rightarrow> nat set" where
  "live_ix h = {i. i < length (hp_blocks h) \<and> hb_used (hp_blocks h ! i) \<and> \<not> hb_free (hp_blocks h ! i)}"

definition live :: "heap \<Rightarrow> (u64 \<times> u64) set" where
  "live h = (\<lambda>i. (start_real_addr (hp_blocks h ! i), hb_size (hp_blocks h ! i))) ` live_ix h"

definition same_live :: "heap \<Rightarrow> heap \<Rightarrow> bool" where
  "same_live h h' \<longleftrightarrow> live_ix h' = live_ix h \<and>
     (\<forall>i \<in> live_ix h. start_real_addr (hp_blocks h' ! i) = start_real_addr (hp_blocks h ! i) \<and>
        hb_size (hp_blocks h' ! i) = hb_size (hp_blocks h ! i))"

lemma same_live_live: "same_live h h' \<Longrightarrow> live h' = live h"
  by (auto simp: same_live_def live_def intro!: image_cong)

lemma same_live_refl [simp]: "same_live h h"
  by (simp add: same_live_def)

lemma same_live_trans: "same_live h h1 \<Longrightarrow> same_live h1 h2 \<Longrightarrow> same_live h h2"
  by (simp add: same_live_def)

text \<open>Blocks of size 0 arise only when memory has run out (\<open>E\<close>); they lie at the end of the heap and
  are free.\<close>

definition zero_ok :: "bool \<Rightarrow> heap \<Rightarrow> bool" where
  "zero_ok E h \<longleftrightarrow> (\<forall>i < length (hp_blocks h). hb_used (hp_blocks h ! i) \<longrightarrow> hb_size (hp_blocks h ! i) = 0 \<longrightarrow>
     hb_free (hp_blocks h ! i) \<and> unat (start_real_addr (hp_blocks h ! i)) = heap_end h \<and> E)"

text \<open>The block that starts at a live address is unique.\<close>

lemma live_start_unique:
  assumes c: "heap_chain h ix" and z: "zero_ok E h" and i: "i \<in> live_ix h" and j: "j \<in> set ix"
    and eq: "start_real_addr (hp_blocks h ! j) = start_real_addr (hp_blocks h ! i)"
  shows "j = i"
proof (rule ccontr)
  assume ne: "j \<noteq> i"
  have ij: "i \<in> set ix" using i chain_used [OF c] by (auto simp: live_ix_def)
  have t: "tiled (hp_blocks h) (unat (start_virtual_addr h)) ix (heap_end h)" using c by (simp add: heap_chain_def)
  have pos: "hb_size (hp_blocks h ! i) \<noteq> 0" using i z by (auto simp: live_ix_def zero_ok_def)
  then have "0 < unat (hb_size (hp_blocks h ! i))" by (simp add: unat_gt_0)
  have "unat (hb_size (hp_blocks h ! j)) = 0"
    using tiled_disjoint [OF t ij j ne [symmetric]] \<open>0 < unat (hb_size (hp_blocks h ! i))\<close> unfolding eq by linarith
  then have z0: "hb_size (hp_blocks h ! j) = 0" by (simp add: unat_eq_zero)
  have lt: "unat (start_real_addr (hp_blocks h ! j)) < heap_end h"
    using tiled_within [OF t ij] \<open>0 < unat (hb_size (hp_blocks h ! i))\<close> eq by simp
  have "j < length (hp_blocks h)" using chain_lt [OF c j] .
  with z z0 lt j chain_used [OF c] show False by (auto simp: zero_ok_def)
qed

lemma live_inj: "heap_chain h ix \<Longrightarrow> zero_ok E h \<Longrightarrow> inj_on (\<lambda>i. start_real_addr (hp_blocks h ! i)) (live_ix h)"
proof (rule inj_onI)
  fix i j assume a: "heap_chain h ix" "zero_ok E h" "i \<in> live_ix h" "j \<in> live_ix h"
    "start_real_addr (hp_blocks h ! i) = start_real_addr (hp_blocks h ! j)"
  then have "i \<in> set ix" using chain_used by (auto simp: live_ix_def)
  with a live_start_unique [of h ix E j i] show "i = j" by simp
qed

section \<open>Release\<close>

lemma mark_free_hit:
  "seg bs cur ix None \<Longrightarrow> i \<in> set ix \<Longrightarrow> start_real_addr (bs ! i) = p \<Longrightarrow>
   (\<And>j. j \<in> set ix \<Longrightarrow> start_real_addr (bs ! j) = p \<Longrightarrow> j = i) \<Longrightarrow>
   mark_free bs cur p = Some (upd_block i (\<lambda>b. b\<lparr>hb_free := True\<rparr>) bs)"
proof (induction bs cur ix "None :: nat option" rule: seg.induct)
  case (2 bs cur j ix)
  from "2.prems"(1) have cur: "cur = Some j" "j < length bs" and sg: "seg bs (hb_next (bs ! j)) ix None"
    by simp_all
  show ?case
  proof (cases "start_real_addr (bs ! j) = p")
    case True
    with "2.prems"(4) have "j = i" by simp
    with True cur show ?thesis by (subst mark_free.simps) simp
  next
    case False
    then have "i \<in> set ix" using "2.prems"(2,3) by auto
    with "2.hyps" [OF sg _ "2.prems"(3)] "2.prems"(4)
    have "mark_free bs (hb_next (bs ! j)) p = Some (upd_block i (\<lambda>b. b\<lparr>hb_free := True\<rparr>) bs)" by simp
    with False cur show ?thesis by (subst mark_free.simps) simp
  qed
qed simp

lemma mark_free_miss:
  "seg bs cur ix None \<Longrightarrow> (\<And>j. j \<in> set ix \<Longrightarrow> start_real_addr (bs ! j) \<noteq> p) \<Longrightarrow> mark_free bs cur p = Some bs"
proof (induction bs cur ix "None :: nat option" rule: seg.induct)
  case (1 bs cur)
  then show ?case by (simp add: mark_free.simps)
next
  case (2 bs cur j ix)
  then show ?case by (simp add: mark_free.simps [of _ "Some _"])
qed

lemma merge_live:
  assumes "i < length (hp_blocks h)" "n < length (hp_blocks h)" "i \<noteq> n"
    and "hb_free (hp_blocks h ! i)" "hb_free (hp_blocks h ! n)"
  shows "same_live h (h\<lparr>hp_blocks := merge_block i n (hp_blocks h)\<rparr>)"
proof -
  note b = merge_block_nth [OF assms(1-3)]
  have len: "length (merge_block i n (hp_blocks h)) = length (hp_blocks h)" by (simp add: merge_block_def)
  have "j \<in> live_ix h \<Longrightarrow> j \<noteq> i \<and> j \<noteq> n" for j using assms by (auto simp: live_ix_def)
  moreover have "j \<in> live_ix (h\<lparr>hp_blocks := merge_block i n (hp_blocks h)\<rparr>) \<longleftrightarrow> j \<in> live_ix h" for j
    using assms(4,5) b len by (cases "j = i"; cases "j = n") (auto simp: live_ix_def zero_block_def)
  ultimately show ?thesis using b(3) by (auto simp: same_live_def)
qed

lemma merge_zero_ok:
  assumes c: "heap_chain h (xs @ i # n # ys)" and z: "zero_ok E h"
    and f: "hb_free (hp_blocks h ! i)"
  shows "zero_ok E (h\<lparr>hp_blocks := merge_block i n (hp_blocks h)\<rparr>)"
proof -
  have lt: "i < length (hp_blocks h)" "n < length (hp_blocks h)" using chain_lt [OF c] by auto
  have ne: "i \<noteq> n" using c by (auto simp: heap_chain_def)
  note b = merge_block_nth [OF lt ne] and sz = chain_merge(2) [OF c]
  have len: "length (merge_block i n (hp_blocks h)) = length (hp_blocks h)" by (simp add: merge_block_def)
  have "hb_size (hp_blocks h ! i) = 0" if "hb_size (hp_blocks h ! i) + hb_size (hp_blocks h ! n) = 0"
    using sz that by (metis add_is_0 unsigned_0 unsigned_eq_0_iff)
  moreover have "hb_used (hp_blocks h ! i)" using chain_used [OF c lt(1)] by simp
  moreover have "heap_end (h\<lparr>hp_blocks := merge_block i n (hp_blocks h)\<rparr>) = heap_end h"
    by (simp add: heap_end_def)
  moreover have "hb_free (merge_block i n (hp_blocks h) ! j) \<and>
      unat (start_real_addr (merge_block i n (hp_blocks h) ! j)) = heap_end h \<and> E"
    if j: "j < length (hp_blocks h)" "hb_used (merge_block i n (hp_blocks h) ! j)"
      "hb_size (merge_block i n (hp_blocks h) ! j) = 0" for j
  proof -
    consider "j = i" | "j = n" | "j \<noteq> i" "j \<noteq> n" by blast
    then show ?thesis
    proof cases
      case 1
      with j b(1) calculation z lt(1) show ?thesis by (simp add: zero_ok_def)
    next
      case 2
      with j b(2) show ?thesis by (simp add: zero_block_def)
    next
      case 3
      with j b(3) z show ?thesis by (simp add: zero_ok_def)
    qed
  qed
  ultimately show ?thesis using len by (simp add: zero_ok_def)
qed

text \<open>The merging pass, from the head of \<open>ys\<close> on.\<close>

lemma coalesce_ok:
  "heap_chain h (xs @ ys) \<Longrightarrow> zero_ok E h \<Longrightarrow> seg (hp_blocks h) cur ys None \<Longrightarrow>
   \<exists>bs'. coalesce (hp_blocks h) cur = Some bs' \<and> (\<exists>ix'. heap_chain (h\<lparr>hp_blocks := bs'\<rparr>) ix') \<and>
     zero_ok E (h\<lparr>hp_blocks := bs'\<rparr>) \<and> same_live h (h\<lparr>hp_blocks := bs'\<rparr>)"
proof (induction "length ys" arbitrary: xs ys h cur rule: less_induct)
  case less
  show ?case
  proof (cases ys)
    case Nil
    with less.prems show ?thesis by (auto simp: coalesce.simps [of _ None])
  next
    case (Cons i zs)
    then have i: "cur = Some i" "i < length (hp_blocks h)" and zs: "seg (hp_blocks h) (hb_next (hp_blocks h ! i)) zs None"
      using less.prems by auto
    show ?thesis
    proof (cases zs)
      case Nil
      with i zs less.prems show ?thesis
        by (auto simp: coalesce.simps [of _ None] coalesce.simps [of _ "Some i"])
    next
      case zs': (Cons n ws)
      then have n: "hb_next (hp_blocks h ! i) = Some n" "n < length (hp_blocks h)"
        and ws: "seg (hp_blocks h) (hb_next (hp_blocks h ! n)) ws None" using zs by auto
      have c: "heap_chain h (xs @ i # n # ws)" using less.prems(1) Cons zs' by simp
      have ne: "i \<noteq> n" using c by (auto simp: heap_chain_def)
      show ?thesis
      proof (cases "hb_free (hp_blocks h ! i) \<and> hb_free (hp_blocks h ! n)")
        case False
        have "coalesce (hp_blocks h) cur = coalesce (hp_blocks h) (Some n)"
          using i n False by (simp add: coalesce.simps [of _ "Some i"])
        with less.hyps [where ys = zs and xs = "xs @ [i]" and h = h and cur = "Some n"] less.prems Cons zs' zs n show ?thesis by simp
      next
        case True
        let ?h = "h\<lparr>hp_blocks := merge_block i n (hp_blocks h)\<rparr>"
        note b = merge_block_nth [OF i(2) n(2) ne]
        have c': "heap_chain ?h ((xs @ [i]) @ ws)" using chain_merge(1) [OF c] by simp
        then have "seg (hp_blocks ?h) (hb_next (hp_blocks ?h ! i)) ws None"
          by (auto simp: heap_chain_def seg_append)
        from less.hyps [OF _ c' merge_zero_ok [OF c less.prems(2)] this] True Cons zs'
        obtain bs' where bs': "coalesce (hp_blocks ?h) (hb_next (hp_blocks ?h ! i)) = Some bs'"
          "\<exists>ix'. heap_chain (h\<lparr>hp_blocks := bs'\<rparr>) ix'" "zero_ok E (h\<lparr>hp_blocks := bs'\<rparr>)"
          "same_live ?h (h\<lparr>hp_blocks := bs'\<rparr>)" by auto
        have "coalesce (hp_blocks h) cur = coalesce (hp_blocks ?h) (hb_next (hp_blocks ?h ! i))"
          using i n True by (simp add: coalesce.simps [of _ "Some i"] merge_block_def Let_def)
        with bs' same_live_trans [OF merge_live [OF i(2) n(2) ne]] True show ?thesis by auto
      qed
    qed
  qed
qed

text \<open>A well-formed heap, whatever its memory provider; \<open>E\<close>: the provider has run out.\<close>

definition heap_wf :: "bool \<Rightarrow> heap \<Rightarrow> bool" where
  "heap_wf E h \<longleftrightarrow> (\<exists>ix. heap_chain h ix) \<and> zero_ok E h"

lemma heap_free_live:
  assumes wf: "heap_wf E h" and p: "(p, n) \<in> live h"
  shows "\<exists>bs. heap_free h p = Some (h\<lparr>hp_blocks := bs\<rparr>) \<and> heap_wf E (h\<lparr>hp_blocks := bs\<rparr>) \<and>
    live (h\<lparr>hp_blocks := bs\<rparr>) = live h - {(p, n)}"
proof -
  obtain ix where c: "heap_chain h ix" and z: "zero_ok E h" using wf by (auto simp: heap_wf_def)
  from p obtain i where i: "i \<in> live_ix h" "start_real_addr (hp_blocks h ! i) = p" "hb_size (hp_blocks h ! i) = n"
    by (auto simp: live_def)
  have il: "i < length (hp_blocks h)" using i(1) by (simp add: live_ix_def)
  have ii: "i \<in> set ix" using i(1) chain_used [OF c] by (auto simp: live_ix_def)
  have mf: "mark_free (hp_blocks h) (Some 0) p = Some (upd_block i (\<lambda>b. b\<lparr>hb_free := True\<rparr>) (hp_blocks h))"
  proof (rule mark_free_hit [OF _ ii i(2)])
    show "seg (hp_blocks h) (Some 0) ix None" using c by (simp add: heap_chain_def)
    show "j = i" if "j \<in> set ix" "start_real_addr (hp_blocks h ! j) = p" for j
      using live_start_unique [OF c z i(1) that(1)] that(2) i(2) by simp
  qed
  let ?h = "h\<lparr>hp_blocks := upd_block i (\<lambda>b. b\<lparr>hb_free := True\<rparr>) (hp_blocks h)\<rparr>"
  have c': "heap_chain ?h ([] @ ix)" using chain_free_mark [OF c] by simp
  have b: "hb_used (hp_blocks ?h ! j) = hb_used (hp_blocks h ! j)" "hb_size (hp_blocks ?h ! j) = hb_size (hp_blocks h ! j)"
    "start_real_addr (hp_blocks ?h ! j) = start_real_addr (hp_blocks h ! j)"
    "hb_free (hp_blocks ?h ! j) \<longleftrightarrow> j = i \<or> hb_free (hp_blocks h ! j)" for j
    using il by (auto simp: nth_list_update)
  have z': "zero_ok E ?h" using z b by (auto simp: zero_ok_def heap_end_def)
  have "live_ix ?h = live_ix h - {i}" using b by (auto simp: live_ix_def)
  moreover have "(\<lambda>j. (start_real_addr (hp_blocks h ! j), hb_size (hp_blocks h ! j))) ` (live_ix h - {i}) = live h - {(p, n)}"
  proof -
    have "inj_on (\<lambda>j. (start_real_addr (hp_blocks h ! j), hb_size (hp_blocks h ! j))) (live_ix h)"
      using live_inj [OF c z] by (auto simp: inj_on_def)
    then show ?thesis using i unfolding live_def by (subst inj_on_image_set_diff) auto
  qed
  ultimately have l: "live ?h = live h - {(p, n)}" using b by (simp add: live_def)
  have "seg (hp_blocks ?h) (Some 0) ix None" using c' by (simp add: heap_chain_def)
  from coalesce_ok [OF c' z' this] obtain bs where "coalesce (hp_blocks ?h) (Some 0) = Some bs"
    "\<exists>ix'. heap_chain (?h\<lparr>hp_blocks := bs\<rparr>) ix'" "zero_ok E (?h\<lparr>hp_blocks := bs\<rparr>)"
    "same_live ?h (?h\<lparr>hp_blocks := bs\<rparr>)" by blast
  with mf l same_live_live [of ?h "?h\<lparr>hp_blocks := bs\<rparr>"] show ?thesis
    by (intro exI [of _ bs]) (simp add: heap_free_def heap_wf_def)
qed

text \<open>Freeing an address at which no block of the heap starts changes no live block.\<close>

lemma heap_free_foreign:
  assumes wf: "heap_wf E h" and p: "\<And>i. i < length (hp_blocks h) \<Longrightarrow> hb_used (hp_blocks h ! i) \<Longrightarrow>
    start_real_addr (hp_blocks h ! i) \<noteq> p"
  shows "\<exists>bs. heap_free h p = Some (h\<lparr>hp_blocks := bs\<rparr>) \<and> heap_wf E (h\<lparr>hp_blocks := bs\<rparr>) \<and>
    live (h\<lparr>hp_blocks := bs\<rparr>) = live h"
proof -
  obtain ix where c: "heap_chain h ([] @ ix)" and z: "zero_ok E h" using wf by (auto simp: heap_wf_def)
  have sg: "seg (hp_blocks h) (Some 0) ix None" using c by (simp add: heap_chain_def)
  have "mark_free (hp_blocks h) (Some 0) p = Some (hp_blocks h)"
    using p chain_lt [OF c] chain_used [OF c] by (intro mark_free_miss [OF sg]) auto
  moreover obtain bs where "coalesce (hp_blocks h) (Some 0) = Some bs"
    "\<exists>ix'. heap_chain (h\<lparr>hp_blocks := bs\<rparr>) ix'" "zero_ok E (h\<lparr>hp_blocks := bs\<rparr>)"
    "same_live h (h\<lparr>hp_blocks := bs\<rparr>)" using coalesce_ok [OF c z sg] by blast
  ultimately show ?thesis using same_live_live
    by (intro exI [of _ bs]) (simp add: heap_free_def heap_wf_def)
qed

text \<open>The three ways an allocation goes.\<close>

lemma heap_alloc_cases:
  obtains (exact) d where "find_donor sz h = Some d" "hb_size (hp_blocks h ! d) = sz"
      "heap_alloc valloc h sz m = (start_real_addr (hp_blocks h ! d),
         h\<lparr>hp_blocks := upd_block d (\<lambda>b. b\<lparr>hb_free := False\<rparr>) (hp_blocks h)\<rparr>, m)"
  | (split) d u where "find_donor sz h = Some d" "sz < hb_size (hp_blocks h ! d)" "find_unused h = Some u"
      "heap_alloc valloc h sz m =
         (start_real_addr (hp_blocks h ! d) + (hb_size (hp_blocks h ! d) - sz),
          h\<lparr>hp_blocks := split_block d u sz (hp_blocks h)\<rparr>, m)"
  | (expand) "find_donor sz h = None \<or> find_unused h = None"
      "heap_alloc valloc h sz m = (case heap_expand valloc h sz m of (ok, h', m') \<Rightarrow>
         if ok then heap_alloc valloc h' sz m' else (0, h', m'))"
proof (cases "find_donor sz h")
  case None
  then show thesis by (intro expand) (auto simp: heap_alloc.simps [of _ h] filter_donor_unused)
next
  case (Some d)
  note d = find_donor_Some [OF Some]
  show thesis
  proof (cases "hb_size (hp_blocks h ! d) = sz")
    case True
    moreover have "(hp_blocks h ! d)\<lparr>hb_free := False, hb_used := True\<rparr> = (hp_blocks h ! d)\<lparr>hb_free := False\<rparr>"
      using d by simp
    ultimately show thesis using Some
      by (intro exact) (simp_all add: heap_alloc.simps [of _ h] filter_donor_unused Let_def)
  next
    case False
    show thesis
    proof (cases "find_unused h")
      case None
      with Some False show thesis
        by (intro expand) (auto simp: heap_alloc.simps [of _ h] filter_donor_unused Let_def)
    next
      case u: (Some u)
      have "u \<noteq> d" using d find_unused_Some [OF u] by auto
      then have "(upd_block u (\<lambda>b. b\<lparr>hb_free := False, hb_used := True, hb_size := sz,
            start_real_addr := start_real_addr (hp_blocks h ! d) + (hb_size (hp_blocks h ! d) - sz),
            hb_next := hb_next (hp_blocks h ! d)\<rparr>)
          (upd_block d (\<lambda>b. b\<lparr>hb_size := hb_size (hp_blocks h ! d) - sz\<rparr>) (hp_blocks h)))
          [d := (hp_blocks h ! d)\<lparr>hb_size := hb_size (hp_blocks h ! d) - sz, hb_next := Some u\<rparr>] =
        split_block d u sz (hp_blocks h)"
        using d find_unused_Some [OF u] by (simp add: split_block_def list_update_swap)
      then show thesis
        using Some False u d \<open>u \<noteq> d\<close> by (intro split) (auto simp: heap_alloc.simps [of _ h] filter_donor_unused Let_def)
    qed
  qed
qed

text \<open>The outcome of an allocation: on failure nothing live changes and no descriptor is left; on
  success exactly one block, of the requested size, is added.\<close>

definition alloc_outcome :: "heap \<Rightarrow> u64 \<Rightarrow> u64 \<Rightarrow> heap \<Rightarrow> bool" where
  "alloc_outcome h sz r h' \<longleftrightarrow>
     (if r = 0 then same_live h h' \<and> find_unused h' = None
      else \<exists>u. u < length (hp_blocks h') \<and> u \<notin> live_ix h \<and> live_ix h' = insert u (live_ix h) \<and>
        start_real_addr (hp_blocks h' ! u) = r \<and> hb_size (hp_blocks h' ! u) = sz \<and>
        (\<forall>i \<in> live_ix h. start_real_addr (hp_blocks h' ! i) = start_real_addr (hp_blocks h ! i) \<and>
           hb_size (hp_blocks h' ! i) = hb_size (hp_blocks h ! i)))"

lemma alloc_outcome_trans:
  "same_live h h1 \<Longrightarrow> alloc_outcome h1 sz r h' \<Longrightarrow> alloc_outcome h sz r h'"
  by (auto simp: alloc_outcome_def same_live_def split: if_splits)

lemma chain_start_nonzero: "heap_chain h ix \<Longrightarrow> i \<in> set ix \<Longrightarrow> start_real_addr (hp_blocks h ! i) \<noteq> 0"
  using tiled_within [of "hp_blocks h" "unat (start_virtual_addr h)" ix "heap_end h" i]
  by (auto simp: heap_chain_def unat_eq_zero)

lemma exact_outcome:
  assumes c: "heap_chain h ix" and z: "zero_ok E h" and d: "find_donor sz h = Some d"
    and sz: "hb_size (hp_blocks h ! d) = sz" "0 < sz"
  defines "h' \<equiv> h\<lparr>hp_blocks := upd_block d (\<lambda>b. b\<lparr>hb_free := False\<rparr>) (hp_blocks h)\<rparr>"
  shows "heap_wf E h' \<and> alloc_outcome h sz (start_real_addr (hp_blocks h ! d)) h'"
proof -
  note d = find_donor_Some [OF d]
  have b: "hb_used (hp_blocks h' ! j) = hb_used (hp_blocks h ! j)" "hb_size (hp_blocks h' ! j) = hb_size (hp_blocks h ! j)"
    "start_real_addr (hp_blocks h' ! j) = start_real_addr (hp_blocks h ! j)"
    "hb_free (hp_blocks h' ! j) \<longleftrightarrow> j \<noteq> d \<and> hb_free (hp_blocks h ! j)" for j
    using d by (auto simp: h'_def nth_list_update)
  have len: "length (hp_blocks h') = length (hp_blocks h)" by (simp add: h'_def)
  have "heap_chain h' ix" unfolding h'_def by (rule chain_free_mark [OF c])
  moreover have "zero_ok E h'"
    unfolding zero_ok_def len
  proof (intro allI impI)
    fix i assume i: "i < length (hp_blocks h)" "hb_used (hp_blocks h' ! i)" "hb_size (hp_blocks h' ! i) = 0"
    then have "i \<noteq> d" using sz b by auto
    then show "hb_free (hp_blocks h' ! i) \<and> unat (start_real_addr (hp_blocks h' ! i)) = heap_end h' \<and> E"
      using i z b by (auto simp: zero_ok_def heap_end_def h'_def)
  qed
  moreover have "start_real_addr (hp_blocks h ! d) \<noteq> 0"
    using chain_start_nonzero [OF c] chain_used [OF c] d by blast
  moreover have "live_ix h' = insert d (live_ix h)" using b len d by (auto simp: live_ix_def)
  moreover have "d \<notin> live_ix h" using d by (simp add: live_ix_def)
  ultimately show ?thesis using d b len sz(1) unfolding alloc_outcome_def heap_wf_def
    by (auto intro!: exI [of _ d])
qed

lemma split_outcome:
  assumes c: "heap_chain h ix" and z: "zero_ok E h" and d: "find_donor sz h = Some d" and u: "find_unused h = Some u"
    and sz: "sz < hb_size (hp_blocks h ! d)" "0 < sz"
  defines "h' \<equiv> h\<lparr>hp_blocks := split_block d u sz (hp_blocks h)\<rparr>"
  shows "heap_wf E h' \<and>
    alloc_outcome h sz (start_real_addr (hp_blocks h ! d) + (hb_size (hp_blocks h ! d) - sz)) h'"
proof -
  note d = find_donor_Some [OF d] and u = find_unused_Some [OF u]
  have du: "d \<noteq> u" using d u by auto
  have len: "length (hp_blocks h') = length (hp_blocks h)" by (simp add: h'_def split_block_def)
  have b: "hp_blocks h' ! d = (hp_blocks h ! d)\<lparr>hb_size := hb_size (hp_blocks h ! d) - sz, hb_next := Some u\<rparr>"
    "hp_blocks h' ! u = (hp_blocks h ! u)\<lparr>hb_free := False, hb_used := True, hb_size := sz,
             start_real_addr := start_real_addr (hp_blocks h ! d) + (hb_size (hp_blocks h ! d) - sz),
             hb_next := hb_next (hp_blocks h ! d)\<rparr>"
    "\<And>i. i \<noteq> d \<Longrightarrow> i \<noteq> u \<Longrightarrow> hp_blocks h' ! i = hp_blocks h ! i"
    using u d du by (auto simp: h'_def split_block_def nth_list_update)
  obtain ix' where c': "heap_chain h' ix'"
    using chain_split [OF c, of u d sz] u d sz(1) unfolding h'_def by auto
  have "zero_ok E h'"
    unfolding zero_ok_def len
  proof (intro allI impI)
    fix i assume i: "i < length (hp_blocks h)" "hb_used (hp_blocks h' ! i)" "hb_size (hp_blocks h' ! i) = 0"
    have "i \<noteq> d" "i \<noteq> u" using i sz b by auto
    then show "hb_free (hp_blocks h' ! i) \<and> unat (start_real_addr (hp_blocks h' ! i)) = heap_end h' \<and> E"
      using i z b by (auto simp: zero_ok_def heap_end_def h'_def)
  qed
  moreover have "u \<in> set ix'" using chain_used [OF c', of u] u b(2) len by simp
  then have "start_real_addr (hp_blocks h' ! u) \<noteq> 0" by (rule chain_start_nonzero [OF c'])
  moreover have "j \<in> live_ix h' \<longleftrightarrow> j \<in> insert u (live_ix h)" for j
    using b(1,2) b(3) [of j] len d u by (cases "j = d"; cases "j = u") (auto simp: live_ix_def)
  moreover have "u \<notin> live_ix h" "d \<notin> live_ix h" using u d by (simp_all add: live_ix_def)
  moreover have "\<forall>i \<in> live_ix h. hp_blocks h' ! i = hp_blocks h ! i" using b(3) calculation(4,5) by metis
  ultimately show ?thesis using c' u b(2) len unfolding alloc_outcome_def heap_wf_def
    by (auto intro!: exI [of _ u])
qed

section \<open>What the heap needs from its memory provider\<close>

text \<open>The contract of \<open>vmem_smart_alloc_pages\<close> as the heap uses it: memory comes in whole 2 MiB
  pages out of a finite budget, and only a provider that has run out (and stays so) gives less
  than it is asked for.\<close>

locale page_provider =
  fixes valloc :: "'m valloc" and inv :: "'m \<Rightarrow> bool" and budget :: "'m \<Rightarrow> nat" and exhausted :: "'m \<Rightarrow> bool"
  assumes prov_inv: "inv m \<Longrightarrow> 2097152 dvd unat va \<Longrightarrow> valloc va sz fl m = (r, m') \<Longrightarrow> inv m'"
    and prov_budget: "inv m \<Longrightarrow> 2097152 dvd unat va \<Longrightarrow> valloc va sz fl m = (r, m') \<Longrightarrow> unat r + budget m' \<le> budget m"
    and prov_large: "inv m \<Longrightarrow> 2097152 dvd unat va \<Longrightarrow> valloc va sz fl m = (r, m') \<Longrightarrow> 2097152 dvd unat r"
    and prov_short: "inv m \<Longrightarrow> 2097152 dvd unat va \<Longrightarrow> valloc va sz fl m = (r, m') \<Longrightarrow> r < sz \<Longrightarrow> exhausted m'"
    and prov_dry: "inv m \<Longrightarrow> 2097152 dvd unat va \<Longrightarrow> valloc va sz fl m = (r, m') \<Longrightarrow> exhausted m \<Longrightarrow> r = 0 \<and> exhausted m'"
begin

definition heap_ok :: "heap \<Rightarrow> 'm \<Rightarrow> bool" where
  "heap_ok h m \<longleftrightarrow> heap_wf (exhausted m) h \<and> inv m \<and> 2097152 dvd unat (start_virtual_addr h) \<and>
     2097152 dvd unat (hp_size h) \<and> heap_end h + budget m < 2 ^ 64"

lemma expand_ok:
  assumes ok: "heap_ok h m" and e: "heap_expand valloc h sz m = (True, h', m')" and sz: "0 < sz"
  shows "heap_ok h' m' \<and> same_live h h'"
proof -
  obtain ix where c: "heap_chain h ix" and z: "zero_ok (exhausted m) h" using ok by (auto simp: heap_ok_def heap_wf_def)
  obtain l n r where f: "find_last h = Some l" "find_unused h = Some n"
    and v: "valloc (start_virtual_addr h + hp_size h) sz (VMEM_EXECUTE OR VMEM_KERNEL OR VMEM_READWRITE) m = (r, m')"
    and h': "h' = h\<lparr>hp_size := hp_size h + r,
         hp_blocks := upd_block l (\<lambda>b. b\<lparr>hb_next := Some n\<rparr>)
           (upd_block n (\<lambda>b. b\<lparr>hb_used := True, hb_free := True, hb_size := r,
              start_real_addr := start_virtual_addr h + hp_size h\<rparr>) (hp_blocks h))\<rparr>"
  proof (cases rule: heap_expand_cases [where valloc = valloc and h = h and sz = sz and m = m])
    case fail
    with e show thesis by simp
  next
    case (grow l n r m1)
    show thesis
    proof (rule that [OF grow(1,2)])
      show "valloc (start_virtual_addr h + hp_size h) sz (VMEM_EXECUTE OR VMEM_KERNEL OR VMEM_READWRITE) m = (r, m')"
        using grow(3) trans [OF e [symmetric] grow(4)] by simp
    qed (use trans [OF e [symmetric] grow(4)] in simp)
  qed
  have st: "unat (start_virtual_addr h + hp_size h) = heap_end h"
    using c by (subst unat_plus_no_wrap) (auto simp: heap_chain_def heap_end_def)
  have al: "2097152 dvd unat (start_virtual_addr h + hp_size h)"
    using ok unfolding st by (simp add: heap_ok_def heap_end_def)
  have inv: "inv m" using ok by (simp add: heap_ok_def)
  note prov = prov_inv [OF inv al v] prov_budget [OF inv al v] prov_large [OF inv al v]
    prov_short [OF inv al v] prov_dry [OF inv al v]
  have fit: "heap_end h + unat r + budget m' < 2 ^ 64" using ok prov(2) by (simp add: heap_ok_def)
  note n = find_unused_Some [OF f(2)]
  obtain xs l' where ll: "find_last h = Some l'" and ixl: "ix = xs @ [l']" using chain_find_last [OF c] .
  have "l' = l" using ll f(1) by simp
  then have ix: "ix = xs @ [l]" using ixl by simp
  have r: "heap_end h + unat r < 2 ^ 64" using fit by simp
  have c': "heap_chain h' (ix @ [n])" and he: "heap_end h' = heap_end h + unat r"
    using chain_append [OF c conjunct1 [OF n] conjunct2 [OF n] ix r] by (simp_all add: h')
  have ll: "l < length (hp_blocks h)" "l \<noteq> n" "hb_used (hp_blocks h ! l)"
    using find_last_Some [OF f(1)] n by auto
  have len: "length (hp_blocks h') = length (hp_blocks h)" by (simp add: h')
  have b: "hp_blocks h' ! n = (hp_blocks h ! n)\<lparr>hb_used := True, hb_free := True, hb_size := r,
              start_real_addr := start_virtual_addr h + hp_size h\<rparr>"
    "hp_blocks h' ! l = (hp_blocks h ! l)\<lparr>hb_next := Some n\<rparr>"
    "\<And>i. i \<noteq> l \<Longrightarrow> i \<noteq> n \<Longrightarrow> hp_blocks h' ! i = hp_blocks h ! i"
    using n ll by (auto simp: h' nth_list_update)
  have same: "start_real_addr (hp_blocks h' ! i) = start_real_addr (hp_blocks h ! i) \<and>
      hb_size (hp_blocks h' ! i) = hb_size (hp_blocks h ! i) \<and> hb_used (hp_blocks h' ! i) = hb_used (hp_blocks h ! i) \<and>
      hb_free (hp_blocks h' ! i) = hb_free (hp_blocks h ! i)" if "i \<noteq> n" for i
    using b that by (cases "i = l") auto
  have "zero_ok (exhausted m') h'"
    unfolding zero_ok_def len
  proof (intro allI impI)
    fix i assume i: "i < length (hp_blocks h)" "hb_used (hp_blocks h' ! i)" "hb_size (hp_blocks h' ! i) = 0"
    show "hb_free (hp_blocks h' ! i) \<and> unat (start_real_addr (hp_blocks h' ! i)) = heap_end h' \<and> exhausted m'"
    proof (cases "i = n")
      case True
      with i b(1) have "r = 0" by simp
      then show ?thesis using True b(1) st he prov(4) sz by simp
    next
      case False
      with i same z have "hb_free (hp_blocks h ! i) \<and> unat (start_real_addr (hp_blocks h ! i)) = heap_end h \<and> exhausted m"
        by (simp add: zero_ok_def)
      with prov(5) False same he show ?thesis by auto
    qed
  qed
  moreover have "same_live h h'"
  proof -
    have "i \<in> live_ix h' \<longleftrightarrow> i \<in> live_ix h" for i
      using same [of i] n b(1) len by (cases "i = n") (auto simp: live_ix_def)
    moreover have "i \<noteq> n" if "i \<in> live_ix h" for i using that n by (auto simp: live_ix_def)
    ultimately show ?thesis using same by (auto simp: same_live_def)
  qed
  moreover have "2097152 dvd unat (hp_size h')"
  proof -
    have "unat (hp_size h + r) = unat (hp_size h) + unat r"
      using r by (intro unat_plus_no_wrap) (simp add: heap_end_def)
    then show ?thesis using ok prov(3) by (simp add: h' heap_ok_def)
  qed
  ultimately show ?thesis
    using c' ok fit he prov(1) by (auto simp: heap_ok_def heap_wf_def h')
qed

lemma alloc_ok:
  "heap_ok h m \<Longrightarrow> 0 < sz \<Longrightarrow> heap_alloc valloc h sz m = (r, h', m') \<Longrightarrow>
   heap_ok h' m' \<and> alloc_outcome h sz r h'"
proof (induction "unused_count h" arbitrary: h m rule: less_induct)
  case less
  note ok = less.prems(1)
  obtain ix where c: "heap_chain h ix" and z: "zero_ok (exhausted m) h" using ok by (auto simp: heap_ok_def heap_wf_def)
  show ?case
  proof (cases rule: heap_alloc_cases [where valloc = valloc and h = h and sz = sz and m = m])
    case (exact d)
    with exact_outcome [OF c z exact(1,2) less.prems(2)] less.prems(3) ok show ?thesis
      by (auto simp: heap_ok_def heap_end_def)
  next
    case (split d u)
    with split_outcome [OF c z split(1,3,2) less.prems(2)] less.prems(3) ok show ?thesis
      by (auto simp: heap_ok_def heap_end_def)
  next
    case expand
    show ?thesis
    proof (cases rule: heap_expand_cases [where valloc = valloc and h = h and sz = sz and m = m])
      case fail
      then have "(0, h, m) = (r, h', m')" using expand(2) less.prems(3) by simp
      moreover have "find_unused h = None"
        using fail(1) chain_find_last [OF c] by (metis option.distinct(1))
      ultimately show ?thesis using ok by (auto simp: alloc_outcome_def)
    next
      case (grow l n r1 m1)
      then obtain h1 where e: "heap_expand valloc h sz m = (True, h1, m1)" by blast
      then have "heap_alloc valloc h1 sz m1 = (r, h', m')" using expand(2) less.prems(3) by simp
      with less.hyps [OF heap_expand_unused [OF e]] expand_ok [OF ok e less.prems(2)] less.prems(2)
      show ?thesis using alloc_outcome_trans by blast
    qed
  qed
qed

end

section \<open>The kernel's own provider\<close>

interpretation kheap: page_provider vmem_smart_alloc_pages bitmap_ok vm_budget "\<lambda>vm. avail vm = {}"
proof unfold_locales
  fix m :: "'a vm_scheme" and va sz fl r m'
  assume a: "bitmap_ok m" "2097152 dvd unat va" "vmem_smart_alloc_pages va sz fl m = (r, m')"
  then have "is_aligned va PAGE_SIZE_LARGE" by (simp add: is_aligned_2mb mod_eq_0_iff_dvd)
  note l = smart_alloc_laws [OF a(3,1) this]
  show "bitmap_ok m'" "unat r + vm_budget m' \<le> vm_budget m" "2097152 dvd unat r"
    "r < sz \<Longrightarrow> avail m' = {}" "avail m = {} \<Longrightarrow> r = 0 \<and> avail m' = {}"
    using l by auto
qed

text \<open>The well-formedness of a heap on the machine state it allocates from.\<close>

definition heap_inv :: "heap \<Rightarrow> 'a vm_scheme \<Rightarrow> bool" where
  "heap_inv h vm \<longleftrightarrow> heap_wf (avail vm = {}) h \<and> bitmap_ok vm \<and> 2097152 dvd unat (start_virtual_addr h) \<and>
     2097152 dvd unat (hp_size h) \<and> heap_end h + vm_budget vm < 2 ^ 64"

lemma heap_inv_ok: "heap_inv h vm \<longleftrightarrow> kheap.heap_ok h vm"
  by (simp add: heap_inv_def kheap.heap_ok_def)

text \<open>From descriptors to regions.\<close>

definition regions_disjoint :: "u64 \<times> u64 \<Rightarrow> u64 \<times> u64 \<Rightarrow> bool" where
  "regions_disjoint a b \<longleftrightarrow> unat (fst a) + unat (snd a) \<le> unat (fst b) \<or> unat (fst b) + unat (snd b) \<le> unat (fst a)"

lemma alloc_outcome_regions:
  assumes c: "heap_chain h' ix" and o: "alloc_outcome h sz r h'" "r \<noteq> 0"
  shows "live h' = insert (r, sz) (live h)" "\<And>b. b \<in> live h \<Longrightarrow> regions_disjoint (r, sz) b"
    "unat (start_virtual_addr h') \<le> unat r" "unat r + unat sz \<le> heap_end h'"
proof -
  obtain u where u: "u < length (hp_blocks h')" "u \<notin> live_ix h" "live_ix h' = insert u (live_ix h)"
    "start_real_addr (hp_blocks h' ! u) = r" "hb_size (hp_blocks h' ! u) = sz"
    and same: "\<forall>i \<in> live_ix h. start_real_addr (hp_blocks h' ! i) = start_real_addr (hp_blocks h ! i) \<and>
           hb_size (hp_blocks h' ! i) = hb_size (hp_blocks h ! i)"
    using o by (auto simp: alloc_outcome_def)
  show "live h' = insert (r, sz) (live h)" using u same by (auto simp: live_def image_iff)
  have t: "tiled (hp_blocks h') (unat (start_virtual_addr h')) ix (heap_end h')" using c by (simp add: heap_chain_def)
  have inix: "i \<in> set ix" if "i \<in> live_ix h'" for i
    using that chain_used [OF c] by (auto simp: live_ix_def)
  show "unat (start_virtual_addr h') \<le> unat r" "unat r + unat sz \<le> heap_end h'"
    using tiled_within [OF t inix, of u] u by auto
  fix b assume "b \<in> live h"
  then obtain i where i: "i \<in> live_ix h" "b = (start_real_addr (hp_blocks h ! i), hb_size (hp_blocks h ! i))"
    by (auto simp: live_def)
  have "u \<noteq> i" using i(1) u(2) by auto
  then show "regions_disjoint (r, sz) b"
    using tiled_disjoint [OF t inix inix, of u i] i same u by (auto simp: regions_disjoint_def)
qed

section \<open>Initialisation\<close>

lemma get_aligned_page_props:
  assumes "get_aligned_page p vm = (r, vm')" "bitmap_ok vm"
  shows "pmem_grows vm vm' \<and> (r \<noteq> 0 \<longrightarrow> is_aligned r PAGE_SIZE_LARGE) \<and>
    (r \<noteq> 0 \<longrightarrow> r = p \<or> unat r < 4294967296)"
  using assms
proof (induction p vm arbitrary: r vm' rule: get_aligned_page.induct)
  case (1 p vm)
  show ?case
  proof (cases "p \<noteq> 0 \<and> \<not> is_aligned p PAGE_SIZE_LARGE")
    case False
    with "1.prems" show ?thesis by (auto simp: get_aligned_page.simps [of p vm])
  next
    case True
    obtain p1 vm1 where g: "pmem_get_page vm = (p1, vm1)" by fastforce
    have gr: "pmem_grows vm vm1" using pmem_get_page_grows [of vm] g by simp
    have "get_aligned_page p1 vm1 = (r, vm')" using "1.prems"(1) True g by (simp add: get_aligned_page.simps [of p vm])
    from "1.IH" [OF True g [symmetric] this] gr "1.prems"(2) pmem_get_page_spec [OF "1.prems"(2) g]
    show ?thesis using pmem_grows_trans [OF gr] by (auto simp: pmem_grows_def)
  qed
qed

lemma map_block_array_grows:
  assumes "bitmap_ok vm" "map_block_array va fl vm = (ok, vm')"
  shows "pmem_grows vm vm'"
proof -
  obtain p0 vm1 where g: "pmem_get_page vm = (p0, vm1)" by fastforce
  have gr1: "pmem_grows vm vm1" using pmem_get_page_grows [of vm] g by simp
  obtain p vm2 where a: "get_aligned_page p0 vm1 = (p, vm2)" by fastforce
  have gr2: "pmem_grows vm1 vm2" using get_aligned_page_props [OF a] gr1 assms(1) by (simp add: pmem_grows_def)
  obtain ok3 vm3 where r: "pmem_try_reserve_address (p + PAGE_SIZE) 511 vm2 = (ok3, vm3)" by fastforce
  have gr3: "pmem_grows vm2 vm3" using pmem_try_reserve_grows [of vm2 "p + PAGE_SIZE" 511] r by simp
  have gr4: "pmem_grows vm3 (snd (vmem_map_2mb va p fl vm3))" by (rule vmem_map_2mb_grows)
  have "vm' \<in> {vm2, vm3, snd (vmem_map_2mb va p fl vm3)}"
    using assms(2) g a r by (auto simp: map_block_array_def pages_per_large split: if_splits)
  then show ?thesis using gr1 gr2 gr3 gr4 pmem_grows_trans by (metis empty_iff insert_iff)
qed

text \<open>What the code relies on for the memory of the new descriptor array: it reads as zero.\<close>

definition fresh_blocks :: "heap_block list \<Rightarrow> bool" where
  "fresh_blocks raw \<longleftrightarrow> raw \<noteq> [] \<and> (\<forall>b \<in> set (tl raw). \<not> hb_used b \<and> hb_next b = None)"

lemma setup_heap_wf:
  assumes "fresh_blocks raw" "va + PAGE_SIZE_LARGE \<noteq> 0" "unat (va + PAGE_SIZE_LARGE) + unat sz < 2 ^ 64" "sz = 0 \<longrightarrow> E"
  shows "heap_wf E (setup_heap va sz raw)" "live (setup_heap va sz raw) = {}"
proof -
  obtain b bs where raw: "raw = b # bs" and u: "\<And>x. x \<in> set bs \<Longrightarrow> \<not> hb_used x \<and> hb_next x = None"
    using assms(1) by (cases raw) (auto simp: fresh_blocks_def)
  have n: "\<not> hb_used (bs ! i) \<and> hb_next (bs ! i) = None" if "i < length bs" for i using u that by simp
  have "heap_chain (setup_heap va sz raw) [0]"
    using assms(2,3) n by (auto simp: heap_chain_def setup_heap_def raw heap_end_def nth_Cons split: nat.splits)
  moreover have "zero_ok E (setup_heap va sz raw)"
    using assms(4) n by (auto simp: zero_ok_def setup_heap_def raw heap_end_def nth_Cons split: nat.splits)
  ultimately show "heap_wf E (setup_heap va sz raw)" by (auto simp: heap_wf_def)
  show "live (setup_heap va sz raw) = {}"
    using n by (auto simp: live_def live_ix_def setup_heap_def raw nth_Cons split: nat.splits)
qed

lemma heap_init_ok:
  assumes i: "heap_init va sz is_user raw vm = (Some h, vm')" and raw: "fresh_blocks raw" and ok: "bitmap_ok vm"
    and va: "is_aligned va PAGE_SIZE_LARGE" and fit: "unat va + 2097152 + vm_budget vm < 2 ^ 64" and sz: "0 < sz"
  shows "heap_inv h vm' \<and> live h = {}"
proof -
  obtain r vm1 where a: "vmem_smart_alloc_pages (va + PAGE_SIZE_LARGE) sz (heap_flags is_user) vm = (r, vm1)" by fastforce
  note l = smart_alloc_laws [OF a ok is_aligned_add_large [OF va]]
  obtain ok2 where m: "map_block_array va (heap_flags is_user) vm1 = (ok2, vm')" and h: "h = setup_heap va r raw"
    using i a by (auto simp: heap_init_def split: prod.splits if_splits)
  have gr: "pmem_grows vm1 vm'" by (rule map_block_array_grows [OF l(2) m])
  then have b: "vm_budget vm' \<le> vm_budget vm1" using grows_card by (simp add: vm_budget_def)
  have u: "unat (va + PAGE_SIZE_LARGE) = unat va + 2097152"
    using fit by (subst unat_plus_no_wrap) (auto simp: unat_large)
  have nz: "va + PAGE_SIZE_LARGE \<noteq> 0" using u by (metis add_is_0 unsigned_0 zero_neq_numeral)
  have f: "unat (va + PAGE_SIZE_LARGE) + unat r + vm_budget vm' < 2 ^ 64" using fit u l(3) b by simp
  have "r = 0 \<longrightarrow> avail vm' = {}" using l(5) sz gr by (auto simp: pmem_grows_def)
  with setup_heap_wf [OF raw nz] f have "heap_wf (avail vm' = {}) h" "live h = {}" by (auto simp: h)
  moreover have "bitmap_ok vm'" using gr l(2) by (simp add: pmem_grows_def)
  moreover have "2097152 dvd unat (va + PAGE_SIZE_LARGE)"
    using is_aligned_add_large [OF va] by (simp add: is_aligned_2mb mod_eq_0_iff_dvd)
  ultimately show ?thesis using f l(4) by (simp add: heap_inv_def h setup_heap_def heap_end_def)
qed

text \<open>Finding a 2 MiB-aligned page succeeds when one is left.\<close>

lemma get_aligned_page_finds:
  assumes "bitmap_ok vm" "p \<noteq> 0" "512 * k \<in> avail vm"
  shows "fst (get_aligned_page p vm) \<noteq> 0"
  using assms
proof (induction p vm rule: get_aligned_page.induct)
  case (1 p vm)
  show ?case
  proof (cases "is_aligned p PAGE_SIZE_LARGE")
    case True
    then show ?thesis using "1.prems" by (simp add: get_aligned_page.simps [of p vm])
  next
    case False
    obtain p1 vm1 where g: "pmem_get_page vm = (p1, vm1)" by fastforce
    note spec = pmem_get_page_spec [OF "1.prems"(1) g]
    have p1: "p1 \<noteq> 0" using spec "1.prems"(3) by auto
    have eq: "get_aligned_page p vm = get_aligned_page p1 vm1"
      using False "1.prems"(2) g by (simp add: get_aligned_page.simps [of p vm])
    have ok1: "bitmap_ok vm1" using pmem_get_page_grows [of vm] g "1.prems"(1) by (simp add: pmem_grows_def)
    show ?thesis
    proof (cases "512 * k \<in> avail vm1")
      case True
      then show ?thesis unfolding eq using "1.IH" [OF _ g [symmetric] ok1 p1] False "1.prems"(2) by blast
    next
      case False
      then have "512 * k = unat p1 div 4096" using spec p1 "1.prems"(3) by auto
      moreover have "unat p1 = 4096 * (unat p1 div 4096)" using spec p1 by auto
      ultimately have "unat p1 = 2097152 * k" by linarith
      then have "is_aligned p1 PAGE_SIZE_LARGE" by (simp add: is_aligned_2mb)
      then show ?thesis unfolding eq using p1 by (simp add: get_aligned_page.simps [of p1 vm1])
    qed
  qed
qed

lemma map_block_array_ok:
  assumes ok: "bitmap_ok vm" and k: "512 * k \<in> avail vm" and va: "is_aligned va PAGE_SIZE_LARGE"
  shows "fst (map_block_array va fl vm)"
proof -
  obtain p0 vm1 where g: "pmem_get_page vm = (p0, vm1)" by fastforce
  note spec = pmem_get_page_spec [OF ok g]
  have ok1: "bitmap_ok vm1" using pmem_get_page_grows [of vm] g ok by (simp add: pmem_grows_def)
  have p0: "p0 \<noteq> 0" "unat p0 mod 4096 = 0" "unat p0 < 4294967296" "avail vm1 = avail vm - {unat p0 div 4096}"
    using spec k by auto
  obtain p vm2 where a: "get_aligned_page p0 vm1 = (p, vm2)" by fastforce
  have "p \<noteq> 0"
  proof (cases "512 * k \<in> avail vm1")
    case True
    then show ?thesis using get_aligned_page_finds [OF ok1 p0(1)] a by (metis fst_conv)
  next
    case False
    then have "unat p0 div 4096 = 512 * k" using k p0(4) by auto
    then have "unat p0 = 4096 * (512 * k)" using p0(2) by (metis add_0_right mult_div_mod_eq)
    then have "is_aligned p0 PAGE_SIZE_LARGE" by (simp add: is_aligned_2mb)
    then show ?thesis using a p0(1) by (simp add: get_aligned_page.simps [of p0 vm1])
  qed
  note ap = get_aligned_page_props [OF a ok1]
  have ok2: "bitmap_ok vm2" using ap ok1 by (simp add: pmem_grows_def)
  have pl: "is_aligned p PAGE_SIZE_LARGE" "unat p < 4294967296" using ap \<open>p \<noteq> 0\<close> p0(3) by auto
  obtain b vm3 where r: "pmem_try_reserve_address (p + PAGE_SIZE) 511 vm2 = (b, vm3)" by fastforce
  have b using reserve_rest_ok(1) [OF ok2 pl] r by simp
  moreover have "fst (vmem_map_2mb va p fl vm3)"
    using map_2mb_grows(2) [of va p _ vm3] va pl(1) unfolding vmem_map_2mb_def by (metis prod.collapse)
  ultimately show ?thesis using g a r \<open>p \<noteq> 0\<close> by (simp add: map_block_array_def pages_per_large)
qed

section \<open>The C library entry points\<close>

text \<open>\<open>g\<close> is the global heap pointer: \<open>None\<close> before \<open>set_global_heap\<close>. \<open>operator new\<close> and
  \<open>operator delete\<close> are the same two functions. The aligned versions keep the address of the raw
  block in the word below the pointer they return; \<open>mem\<close> is that memory.\<close>

definition malloc :: "'m valloc \<Rightarrow> heap option \<Rightarrow> u64 \<Rightarrow> 'm \<Rightarrow> u64 \<times> heap option \<times> 'm" where
  "malloc valloc g sz m = (case g of None \<Rightarrow> (0, None, m)
     | Some h \<Rightarrow> (case heap_alloc valloc h sz m of (r, h', m') \<Rightarrow> (r, Some h', m')))"

definition free :: "heap option \<Rightarrow> u64 \<Rightarrow> heap option option" where
  "free g ptr = (case g of None \<Rightarrow> Some None | Some h \<Rightarrow> map_option Some (heap_free h ptr))"

definition malloc_aligned :: "'m valloc \<Rightarrow> heap option \<Rightarrow> (u64 \<Rightarrow> u64) \<Rightarrow> u64 \<Rightarrow> u64 \<Rightarrow> 'm \<Rightarrow>
    u64 \<times> heap option \<times> (u64 \<Rightarrow> u64) \<times> 'm" where
  "malloc_aligned valloc g mem sz align m =
     (case malloc valloc g (sz + align + 8) m of (raw, g', m') \<Rightarrow>
        if raw = 0 then (0, g', mem, m')
        else let aligned = align_up (raw + 8) align in (aligned, g', mem(aligned - 8 := raw), m'))"

definition free_aligned :: "heap option \<Rightarrow> (u64 \<Rightarrow> u64) \<Rightarrow> u64 \<Rightarrow> heap option option" where
  "free_aligned g mem ptr = (if ptr \<noteq> 0 then free g (mem (ptr - 8)) else Some g)"

section \<open>A client of the heap\<close>

text \<open>A client allocates non-zero sizes and frees its \<open>k\<close>-th outstanding block; \<open>outs\<close> is the list of
  the blocks it holds.\<close>

datatype heap_op = Malloc u64 | Free nat

fun heap_run :: "heap_op list \<Rightarrow> heap \<Rightarrow> (u64 \<times> u64) list \<Rightarrow> 'a vm_scheme \<Rightarrow>
    (heap \<times> (u64 \<times> u64) list \<times> 'a vm_scheme) option" where
  "heap_run [] h outs vm = Some (h, outs, vm)"
| "heap_run (Malloc sz # ops) h outs vm =
     (case heap_alloc vmem_smart_alloc_pages h sz vm of (r, h', vm') \<Rightarrow>
        heap_run ops h' (if r = 0 then outs else outs @ [(r, sz)]) vm')"
| "heap_run (Free k # ops) h outs vm =
     (if k < length outs
      then do { h' \<leftarrow> heap_free h (fst (outs ! k)); heap_run ops h' (take k outs @ drop (Suc k) outs) vm }
      else heap_run ops h outs vm)"

definition pairwise_disjoint :: "(u64 \<times> u64) list \<Rightarrow> bool" where
  "pairwise_disjoint outs \<longleftrightarrow> (\<forall>i < length outs. \<forall>j < length outs. i \<noteq> j \<longrightarrow> regions_disjoint (outs ! i) (outs ! j))"

definition client_inv :: "heap \<Rightarrow> (u64 \<times> u64) list \<Rightarrow> 'a vm_scheme \<Rightarrow> bool" where
  "client_inv h outs vm \<longleftrightarrow> heap_inv h vm \<and> set outs = live h \<and> distinct outs"

lemma live_pairwise:
  assumes "heap_wf E h" "a \<in> live h" "b \<in> live h" "a \<noteq> b"
  shows "regions_disjoint a b"
proof -
  obtain ix where c: "heap_chain h ix" using assms(1) by (auto simp: heap_wf_def)
  obtain i j where ij: "i \<in> live_ix h" "j \<in> live_ix h"
    "a = (start_real_addr (hp_blocks h ! i), hb_size (hp_blocks h ! i))"
    "b = (start_real_addr (hp_blocks h ! j), hb_size (hp_blocks h ! j))" using assms(2,3) by (auto simp: live_def)
  have "i \<noteq> j" using ij assms(4) by auto
  moreover have "i \<in> set ix" "j \<in> set ix" using ij chain_used [OF c] by (auto simp: live_ix_def)
  ultimately show ?thesis
    using tiled_disjoint [of "hp_blocks h" "unat (start_virtual_addr h)" ix "heap_end h" i j] c ij
    by (simp add: heap_chain_def regions_disjoint_def)
qed

lemma client_pairwise: "client_inv h outs vm \<Longrightarrow> pairwise_disjoint outs"
  unfolding pairwise_disjoint_def client_inv_def heap_inv_def
  by (metis live_pairwise nth_eq_iff_index_eq nth_mem)

lemma live_pos: "heap_wf E h \<Longrightarrow> (p, n) \<in> live h \<Longrightarrow> n \<noteq> 0"
  by (auto simp: live_def live_ix_def heap_wf_def zero_ok_def)

lemma heap_alloc_inv:
  assumes "heap_inv h vm" "0 < sz" "heap_alloc vmem_smart_alloc_pages h sz vm = (r, h', vm')"
  shows "heap_inv h' vm' \<and>
    (r = 0 \<longrightarrow> live h' = live h \<and> find_unused h' = None) \<and>
    (r \<noteq> 0 \<longrightarrow> live h' = insert (r, sz) (live h) \<and> (\<forall>b \<in> live h. regions_disjoint (r, sz) b) \<and>
       unat (start_virtual_addr h') \<le> unat r \<and> unat r + unat sz \<le> heap_end h')"
proof -
  have o: "heap_inv h' vm'" "alloc_outcome h sz r h'"
    using kheap.alloc_ok [of h vm sz r h' vm'] assms by (auto simp: heap_inv_ok)
  then obtain ix where c: "heap_chain h' ix" by (auto simp: heap_inv_def heap_wf_def)
  show ?thesis
  proof (cases "r = 0")
    case True
    with o show ?thesis by (auto simp: alloc_outcome_def same_live_live)
  next
    case False
    with o alloc_outcome_regions [OF c o(2) False] show ?thesis by simp
  qed
qed

lemma heap_free_inv:
  assumes "heap_inv h vm" "(p, n) \<in> live h"
  shows "\<exists>h'. heap_free h p = Some h' \<and> heap_inv h' vm \<and> live h' = live h - {(p, n)}"
proof -
  obtain bs where "heap_free h p = Some (h\<lparr>hp_blocks := bs\<rparr>)" "heap_wf (avail vm = {}) (h\<lparr>hp_blocks := bs\<rparr>)"
    "live (h\<lparr>hp_blocks := bs\<rparr>) = live h - {(p, n)}"
    using heap_free_live [of "avail vm = {}" h p n] assms by (auto simp: heap_inv_def)
  with assms(1) show ?thesis by (auto simp: heap_inv_def heap_end_def)
qed

lemma heap_run_inv:
  assumes "client_inv h outs vm" "\<forall>sz. Malloc sz \<in> set ops \<longrightarrow> 0 < sz"
  shows "\<exists>h' outs' vm'. heap_run ops h outs vm = Some (h', outs', vm') \<and> client_inv h' outs' vm'"
  using assms
proof (induction ops arbitrary: h outs vm)
  case (Cons op ops)
  show ?case
  proof (cases op)
    case (Malloc sz)
    obtain r h' vm' where a: "heap_alloc vmem_smart_alloc_pages h sz vm = (r, h', vm')" by (metis prod_cases3)
    have sz: "0 < sz" using Cons.prems(2) Malloc by auto
    note i = heap_alloc_inv [OF _ sz a]
    have "(r, sz) \<notin> live h" if "r \<noteq> 0"
    proof -
      have "0 < unat sz" using sz by (simp add: word_less_nat_alt)
      then show ?thesis using i that Cons.prems(1) by (force simp: client_inv_def regions_disjoint_def)
    qed
    then have "client_inv h' (if r = 0 then outs else outs @ [(r, sz)]) vm'"
      using i Cons.prems(1) by (auto simp: client_inv_def)
    with Cons Malloc a show ?thesis by simp
  next
    case (Free k)
    show ?thesis
    proof (cases "k < length outs")
      case False
      with Cons Free show ?thesis by simp
    next
      case True
      obtain p n where pn: "outs ! k = (p, n)" by fastforce
      then have "(p, n) \<in> live h" using True Cons.prems(1) nth_mem [OF True] by (simp add: client_inv_def)
      with heap_free_inv Cons.prems(1) obtain h' where h': "heap_free h p = Some h'" "heap_inv h' vm"
        "live h' = live h - {(p, n)}" unfolding client_inv_def by blast
      have outs: "outs = take k outs @ (p, n) # drop (Suc k) outs" using True pn by (metis id_take_nth_drop)
      have "distinct (take k outs @ (p, n) # drop (Suc k) outs)"
        "set (take k outs @ (p, n) # drop (Suc k) outs) = live h"
        using Cons.prems(1) outs by (simp_all add: client_inv_def)
      then have "client_inv h' (take k outs @ drop (Suc k) outs) vm"
        using h' by (auto simp: client_inv_def)
      with Cons Free True pn h' show ?thesis by simp
    qed
  qed
qed simp

section \<open>Properties\<close>

text \<open>
  C1. Allocating \<open>sz > 0\<close> bytes from a well-formed heap (growing it as needed) always returns, and
  keeps the heap well-formed: descriptors linked in address order without cycle, exactly the used
  ones in the chain, and the blocks tiling the heap without gap or overlap. A non-null result is a
  new block of \<open>sz\<close> bytes inside the heap that overlaps no live block, and all live blocks stay as
  they were; a null result leaves every live block as it was.
\<close>

theorem heap_alloc_fresh:
  assumes "heap_inv h vm" and "0 < sz" and "heap_alloc vmem_smart_alloc_pages h sz vm = (r, h', vm')"
  shows "heap_inv h' vm' \<and> (r = 0 \<longrightarrow> live h' = live h) \<and>
    (r \<noteq> 0 \<longrightarrow> live h' = insert (r, sz) (live h) \<and> (\<forall>b \<in> live h. regions_disjoint (r, sz) b) \<and>
       unat (start_virtual_addr h') \<le> unat r \<and> unat r + unat sz \<le> heap_end h')"
  using heap_alloc_inv [OF assms] by blast

text \<open>A heap of 2 MiB with three descriptors, one free block.\<close>

definition small_heap :: heap where
  "small_heap = setup_heap 0x40000000 0x200000 (replicate 3 zero_block)"

lemma small_heap_inv: "heap_inv small_heap boot_vm2" "live small_heap = {}"
proof -
  have ok: "bitmap_ok boot_vm2" using boot_vm2_inv by (simp add: pt_inv_def)
  have f: "fresh_blocks (replicate 3 zero_block)" by (simp add: fresh_blocks_def zero_block_def numeral_3_eq_3)
  have st: "0x40000000 + PAGE_SIZE_LARGE = 0x40200000" by (simp add: PAGE_SIZE_LARGE_def)
  show "live small_heap = {}" unfolding small_heap_def by (rule setup_heap_wf(2) [OF f]) (simp_all add: st)
  have "heap_wf (avail boot_vm2 = {}) small_heap"
    unfolding small_heap_def by (rule setup_heap_wf(1) [OF f]) (simp_all add: st)
  moreover have "start_virtual_addr small_heap = 0x40200000" "hp_size small_heap = 0x200000"
    by (simp_all add: small_heap_def setup_heap_def st)
  ultimately show "heap_inv small_heap boot_vm2"
    using ok vm_budget_bound [OF ok] by (simp add: heap_inv_def heap_end_def)
qed

lemma small_heap_blocks:
  "hp_blocks small_heap = [\<lparr>start_real_addr = 0x40200000, hb_size = 0x200000, hb_next = None, hb_free = True, hb_used = True\<rparr>,
     zero_block, zero_block]"
  by (simp add: small_heap_def setup_heap_def PAGE_SIZE_LARGE_def numeral_3_eq_3)

lemma small_heap_alloc:
  "\<exists>h'. heap_alloc vmem_smart_alloc_pages small_heap 0x1000 boot_vm2 = (0x403FF000, h', boot_vm2)"
  by (simp add: heap_alloc.simps filter_donor_unused find_donor_def find_unused_def small_heap_blocks
      zero_block_def donor_block_filter_def Let_def)

theorem heap_alloc_fresh_witness:
  "\<exists>h'. heap_alloc vmem_smart_alloc_pages small_heap 0x1000 boot_vm2 = (0x403FF000, h', boot_vm2) \<and>
     heap_inv h' boot_vm2 \<and> live h' = {(0x403FF000, 0x1000)}"
proof -
  obtain h' where a: "heap_alloc vmem_smart_alloc_pages small_heap 0x1000 boot_vm2 = (0x403FF000, h', boot_vm2)"
    using small_heap_alloc by blast
  from heap_alloc_fresh [OF small_heap_inv(1) _ a] a show ?thesis by (simp add: small_heap_inv(2))
qed

text \<open>
  Freeing a live block of a well-formed heap: the search and the merging pass both end without
  leaving the descriptor array; exactly that block stops being live, all other live blocks keep
  address and size, and the heap (after merging free neighbours) is well-formed again.
\<close>

theorem heap_free_releases:
  assumes "heap_inv h vm" and "(p, n) \<in> live h"
  shows "\<exists>h'. heap_free h p = Some h' \<and> heap_inv h' vm \<and> live h' = live h - {(p, n)}"
  using assms by (rule heap_free_inv)

theorem heap_free_releases_witness:
  "\<exists>h h'. heap_alloc vmem_smart_alloc_pages small_heap 0x1000 boot_vm2 = (0x403FF000, h, boot_vm2) \<and>
     heap_free h 0x403FF000 = Some h' \<and> live h' = {}"
proof -
  obtain h where a: "heap_alloc vmem_smart_alloc_pages small_heap 0x1000 boot_vm2 = (0x403FF000, h, boot_vm2)"
    using small_heap_alloc by blast
  have "heap_inv h boot_vm2" "live h = {(0x403FF000, 0x1000)}"
    using heap_alloc_inv [OF small_heap_inv(1) _ a] by (simp_all add: small_heap_inv(2))
  with heap_free_releases [of h boot_vm2 "0x403FF000" "0x1000"] a show ?thesis by auto
qed

text \<open>
  C2. The whole life of a heap: from any state in which the client's blocks are the live ones,
  every sequence of allocations of non-zero sizes and frees of held blocks runs to its end (no
  fault, no endless loop), and at the end the blocks the client holds are pairwise disjoint and
  exactly the live blocks of a well-formed heap.
\<close>

theorem heap_run_safe:
  assumes "client_inv h outs vm" and "\<forall>sz. Malloc sz \<in> set ops \<longrightarrow> 0 < sz"
  shows "\<exists>h' outs' vm'. heap_run ops h outs vm = Some (h', outs', vm') \<and>
    heap_inv h' vm' \<and> set outs' = live h' \<and> distinct outs' \<and> pairwise_disjoint outs'"
proof -
  obtain h' outs' vm' where r: "heap_run ops h outs vm = Some (h', outs', vm')" and c: "client_inv h' outs' vm'"
    using heap_run_inv [OF assms] by blast
  from c have "heap_inv h' vm' \<and> set outs' = live h' \<and> distinct outs'" by (simp add: client_inv_def)
  with r client_pairwise [OF c] show ?thesis by blast
qed

theorem heap_run_safe_witness:
  "\<exists>h' outs' vm'. heap_run [Malloc 0x1000, Malloc 0x300000, Free 0, Malloc 64] small_heap [] boot_vm2 =
     Some (h', outs', vm') \<and> heap_inv h' vm' \<and> pairwise_disjoint outs'"
proof -
  have c: "client_inv small_heap [] boot_vm2" using small_heap_inv by (simp add: client_inv_def)
  have z: "\<forall>sz. Malloc sz \<in> set [Malloc 0x1000, Malloc 0x300000, Free 0, Malloc 64] \<longrightarrow> 0 < sz" by auto
  from heap_run_safe [OF c z] show ?thesis by blast
qed

text \<open>
  \<open>heap_init\<close> establishes what allocation needs: when it succeeds on a 2 MiB-aligned address
  range that does not wrap, and the memory of the descriptor array reads as unused descriptors, the
  heap is well-formed and has no live block. (The code never clears that array.)
\<close>

theorem heap_init_establishes:
  assumes "heap_init va sz is_user raw vm = (Some h, vm')" and "fresh_blocks raw" and "bitmap_ok vm"
    and "is_aligned va PAGE_SIZE_LARGE" and "unat va + 2097152 + vm_budget vm < 2 ^ 64" and "0 < sz"
  shows "heap_inv h vm' \<and> live h = {}"
  using assms by (rule heap_init_ok)

theorem heap_init_establishes_witness:
  "\<exists>h vm'. heap_init 0x200000 1 False (replicate 3 zero_block) boot_vm2 = (Some h, vm') \<and>
     heap_inv h vm' \<and> live h = {}"
proof -
  have ok: "bitmap_ok boot_vm2" using boot_vm2_inv by (simp add: pt_inv_def)
  have al: "is_aligned 0x200000 PAGE_SIZE_LARGE" "is_aligned 0x400000 PAGE_SIZE_LARGE"
    by (simp_all add: is_aligned_def PAGE_SIZE_LARGE_def)
  have va: "0x200000 + PAGE_SIZE_LARGE = 0x400000" by (simp add: PAGE_SIZE_LARGE_def)
  obtain vm1 i j where a: "vmem_smart_alloc_pages 0x400000 1 (heap_flags False) boot_vm2 = (PAGE_SIZE_LARGE, vm1)"
    "{1024..<8000} - {i, j} \<subseteq> avail vm1" using boot_vm2_alloc by blast
  have "\<exists>k. 512 * k \<in> avail vm1"
    using a(2) by (cases "i = 512 * 3 \<or> j = 512 * 3"; cases "i = 512 * 4 \<or> j = 512 * 4";
        auto simp: subset_iff intro: exI [of _ 3] exI [of _ 4] exI [of _ 5])
  then have "fst (map_block_array 0x200000 (heap_flags False) vm1)"
    using map_block_array_ok [OF smart_alloc_laws(2) [OF a(1) ok al(2)] _ al(1)] by blast
  then obtain vm2 where "map_block_array 0x200000 (heap_flags False) vm1 = (True, vm2)" by (metis prod.collapse)
  then obtain h where i: "heap_init 0x200000 1 False (replicate 3 zero_block) boot_vm2 = (Some h, vm2)"
    using a(1) va by (auto simp: heap_init_def)
  have raw: "fresh_blocks (replicate 3 zero_block)" by (simp add: fresh_blocks_def zero_block_def numeral_3_eq_3)
  from heap_init_establishes [OF i raw ok al(1)] vm_budget_bound [OF ok] i show ?thesis by auto
qed

end
