(* ===== verification/Dma_Heap.thy ===== *)
theory Dma_Heap
  imports Heap Containers
begin

text \<open>
  The DMA part of \<open>src/kernel/src/memory/heap.cpp\<close>: aligned allocation from a heap of its own
  (never grown), its release, and the manager that places such heaps in a window of addresses.
\<close>

section \<open>Operations\<close>

text \<open>The last step of \<open>dma_heap_alloc\<close>: the filler block \<open>f\<close> takes the \<open>correction\<close> bytes that
  make the start of block \<open>u\<close> aligned.\<close>

definition insert_filler :: "nat \<Rightarrow> nat \<Rightarrow> nat \<Rightarrow> u64 \<Rightarrow> heap_block list \<Rightarrow> heap_block list" where
  "insert_filler d f u correction bs =
     (let bs = upd_block f (\<lambda>b. b\<lparr>hb_free := True, hb_size := correction,
                 start_real_addr := start_real_addr (bs ! u), hb_used := True\<rparr>) bs;
          bs = upd_block u (\<lambda>b. b\<lparr>start_real_addr := start_real_addr (bs ! f) + correction\<rparr>) bs;
          bs = upd_block u (\<lambda>b. b\<lparr>hb_size := hb_size b - correction\<rparr>) bs;
          bs = upd_block d (\<lambda>b. b\<lparr>hb_next := Some f\<rparr>) bs
      in upd_block f (\<lambda>b. b\<lparr>hb_next := Some u\<rparr>) bs)"

definition dma_heap_alloc :: "heap \<Rightarrow> u64 \<Rightarrow> u64 \<Rightarrow> u64 \<times> heap" where
  "dma_heap_alloc h sz align =
     (if \<not> is_aligned sz align then (0, h)
      else case heap_filter_blocks h (sz + align)
                  [donor_block_filter, unused_block_filter, unused_block_filter] [None, None, None] of
        (result, [donor, unused, filler]) \<Rightarrow>
          (if \<exists>d. donor = Some d \<and> hb_size (hp_blocks h ! d) = sz
                 \<and> is_aligned (start_real_addr (hp_blocks h ! d)) align
           then let d = the donor in
             (start_real_addr (hp_blocks h ! d),
              h\<lparr>hp_blocks := upd_block d (\<lambda>b. b\<lparr>hb_free := False, hb_used := True\<rparr>) (hp_blocks h)\<rparr>)
           else case (donor, unused, filler) of
             (Some d, Some u, Some f) \<Rightarrow>
               let bs = split_block d u (sz + align) (hp_blocks h);
                   start = start_real_addr (bs ! u);
                   correction = (align - start mod align) mod align;
                   bs' = (if \<not> is_aligned start align then insert_filler d f u correction bs else bs)
               in (start_real_addr (bs' ! u), h\<lparr>hp_blocks := bs'\<rparr>)
           | _ \<Rightarrow> (0, h))
      | _ \<Rightarrow> (0, h))"

text \<open>\<open>dma_heap_free\<close> is the text of \<open>heap_free\<close>.\<close>

definition dma_heap_free :: "heap \<Rightarrow> u64 \<Rightarrow> heap option" where
  "dma_heap_free h p_block = heap_free h p_block"

definition dma_get_physical :: "'a vm_scheme \<Rightarrow> u64 \<Rightarrow> u64" where
  "dma_get_physical vm p_block = vmem_virtual_to_physical vm p_block"

definition dma_get_physical_lower :: "'a vm_scheme \<Rightarrow> u64 \<Rightarrow> u32" where
  "dma_get_physical_lower vm p_block = ucast (dma_get_physical vm p_block)"

definition dma_get_physical_upper :: "'a vm_scheme \<Rightarrow> u64 \<Rightarrow> u32" where
  "dma_get_physical_upper vm p_block = ucast (drop_bit 32 (dma_get_physical vm p_block))"

text \<open>The result code of \<open>dma_heap_init\<close>, and the heap when it is 0.\<close>

definition dma_heap_init :: "u64 \<Rightarrow> u64 \<Rightarrow> heap_block list \<Rightarrow> 'a vm_scheme \<Rightarrow>
    int \<times> heap option \<times> 'a vm_scheme" where
  "dma_heap_init va sz raw vm =
     (if \<not> is_aligned va PAGE_SIZE then (1, None, vm)
      else if PAGE_SIZE_LARGE < sz then (1, None, vm)
      else case vmem_smart_alloc_pages (va + PAGE_SIZE_LARGE) sz (heap_flags False) vm of (heap_size, vm1) \<Rightarrow>
        if heap_size \<noteq> sz then (2, None, vm1)
        else case map_block_array va (heap_flags False) vm1 of (ok, vm2) \<Rightarrow>
          if \<not> ok then (3, None, vm2) else (0, Some (setup_heap va heap_size raw), vm2))"

record dma_heap_manager =
  dm_start_virtual_addr :: u64
  dm_size :: u64
  dm_heaps :: "heap list"

definition dma_heap_manager_init :: "u64 \<Rightarrow> u64 \<Rightarrow> dma_heap_manager option" where
  "dma_heap_manager_init va sz =
     (if \<not> is_aligned sz PAGE_SIZE_LARGE then None
      else Some \<lparr>dm_start_virtual_addr = va, dm_size = sz, dm_heaps = []\<rparr>)"

text \<open>The inner loop: the end of the first heap that overlaps \<open>[begin, begin + size)\<close>, if any.\<close>

fun first_overlap :: "heap list \<Rightarrow> u64 \<Rightarrow> u64 \<Rightarrow> u64 option" where
  "first_overlap [] b sz = None"
| "first_overlap (h # hs) b sz =
     (let heap_begin = heap_block_array h;
          heap_end = start_virtual_addr h + hp_size h + PAGE_SIZE_LARGE
      in if b < heap_end \<and> heap_begin < b + sz then Some heap_end else first_overlap hs b sz)"

lemma first_overlap_gt: "first_overlap hs b sz = Some e \<Longrightarrow> b < e"
  by (induction hs) (auto simp: Let_def split: if_splits)

function place_heap :: "heap list \<Rightarrow> u64 \<Rightarrow> u64 \<Rightarrow> u64 \<Rightarrow> u64" where
  "place_heap hs sz stop b =
     (if b + sz \<le> stop then
        (case first_overlap hs b sz of None \<Rightarrow> b | Some e \<Rightarrow> place_heap hs sz stop e)
      else 0)"
  by auto
termination
proof (relation "measure (\<lambda>(hs, sz, stop, b). 2 ^ 64 - unat b)")
  fix hs sz stop b e
  assume "first_overlap hs b sz = Some e"
  then have "unat b < unat e" using first_overlap_gt by (simp add: word_less_nat_alt)
  moreover have "unat e < 2 ^ 64" using unat_u64_less [of e] by simp
  ultimately show "((hs, sz, stop, e), hs, sz, stop, b) \<in> measure (\<lambda>(hs, sz, stop, b). 2 ^ 64 - unat b)"
    by simp
qed simp

declare place_heap.simps [simp del]

definition dma_heap_manager_get_virtual_address :: "dma_heap_manager \<Rightarrow> u64 \<Rightarrow> u64" where
  "dma_heap_manager_get_virtual_address mgr sz =
     place_heap (dm_heaps mgr) sz (dm_start_virtual_addr mgr + dm_size mgr) (dm_start_virtual_addr mgr)"

text \<open>The new heap's index in the manager, \<open>None\<close> for \<open>nullptr\<close>.\<close>

definition dma_heap_manager_create_heap :: "dma_heap_manager \<Rightarrow> u64 \<Rightarrow> heap_block list \<Rightarrow> 'a vm_scheme \<Rightarrow>
    nat option \<times> dma_heap_manager \<times> 'a vm_scheme" where
  "dma_heap_manager_create_heap mgr sz raw vm =
     (let va = dma_heap_manager_get_virtual_address mgr sz
      in if va = 0 then (None, mgr, vm)
         else case dma_heap_init va sz raw vm of
           (r, Some h, vm') \<Rightarrow> (Some (length (dm_heaps mgr)), mgr\<lparr>dm_heaps := dm_heaps mgr @ [h]\<rparr>, vm')
         | (r, None, vm') \<Rightarrow> (None, mgr, vm'))"

section \<open>Three filters\<close>

text \<open>The second unused descriptor after the first.\<close>

fun second_unused :: "nat \<Rightarrow> heap_block list \<Rightarrow> nat option" where
  "second_unused i [] = None"
| "second_unused i (b # bs) =
     (if \<not> hb_used b then first_ix (\<lambda>b. \<not> hb_used b) (i + 1) bs else second_unused (i + 1) bs)"

lemma filters_at:
  "unused_block_filter x p \<longleftrightarrow> \<not> hb_used x" "\<not> hb_used x \<Longrightarrow> \<not> donor_block_filter x p"
  by (simp_all add: unused_block_filter_def donor_block_filter_def)

lemma filter_loop_third:
  "filter_loop [donor_block_filter, unused_block_filter, unused_block_filter] p i bs
     [a, Some u, c] (ofs a + 1 + ofs c) =
    (let a' = (if a = None then first_ix (\<lambda>b. donor_block_filter b p) i bs else a);
         c' = (if c = None then first_ix (\<lambda>b. \<not> hb_used b) i bs else c)
     in ([a', Some u, c'], ofs a' + 1 + ofs c'))"
proof (induction bs arbitrary: i a c)
  case (Cons x bs)
  show ?case
    using Cons.IH [of "Suc i" a c] Cons.IH [of "Suc i" "Some i" c] Cons.IH [of "Suc i" a "Some i"]
      filters_at [of x p]
    by (cases a; cases c; cases "donor_block_filter x p"; cases "hb_used x") (auto simp: ofs_def Let_def)
qed (simp add: Let_def)

lemma filter_loop_three:
  "filter_loop [donor_block_filter, unused_block_filter, unused_block_filter] p i bs [a, None, None] (ofs a) =
    (let a' = (if a = None then first_ix (\<lambda>b. donor_block_filter b p) i bs else a);
         u = first_ix (\<lambda>b. \<not> hb_used b) i bs; f = second_unused i bs
     in ([a', u, f], ofs a' + ofs u + ofs f))"
proof (induction bs arbitrary: i a)
  case (Cons x bs)
  show ?case
    using Cons.IH [of "Suc i" a] Cons.IH [of "Suc i" "Some i"]
      filter_loop_third [of p "Suc i" bs a i None] filters_at [of x p]
    by (cases a; cases "donor_block_filter x p"; cases "hb_used x") (auto simp: ofs_def Let_def)
qed (simp add: Let_def ofs_def)

lemma heap_filter_three:
  "heap_filter_blocks h p [donor_block_filter, unused_block_filter, unused_block_filter] [None, None, None] =
    (int (ofs (find_donor p h) + ofs (find_unused h) + ofs (second_unused 0 (hp_blocks h))),
     [find_donor p h, find_unused h, second_unused 0 (hp_blocks h)])"
  using filter_loop_three [of p 0 "hp_blocks h" None]
  by (simp add: heap_filter_blocks_def find_donor_def find_unused_def ofs_def Let_def)

lemma second_unused_Some:
  "second_unused i bs = Some j \<Longrightarrow> first_ix (\<lambda>b. \<not> hb_used b) i bs = Some u \<Longrightarrow>
     u < j \<and> j < i + length bs \<and> \<not> hb_used (bs ! (j - i))"
proof (induction i bs rule: second_unused.induct)
  case (2 i b bs)
  show ?case
  proof (cases "hb_used b")
    case True
    with 2 have "u < j \<and> j < i + 1 + length bs \<and> \<not> hb_used (bs ! (j - (i + 1)))" "i + 1 \<le> u"
      using first_ix_Some [of "\<lambda>b. \<not> hb_used b" "i + 1" bs u] by auto
    then show ?thesis by (simp add: nth_Cons' diff_Suc_less)
  next
    case False
    with 2 first_ix_Some [of "\<lambda>b. \<not> hb_used b" "i + 1" bs j] show ?thesis by (auto simp: nth_Cons')
  qed
qed simp

section \<open>The filler keeps the chain\<close>

lemma chain_next:
  assumes c: "heap_chain h ix" and d: "d \<in> set ix" "hb_next (hp_blocks h ! d) = Some u"
  obtains xs ys where "ix = xs @ d # u # ys"
proof -
  obtain xs zs where ix: "ix = xs @ d # zs" using d(1) by (auto simp: in_set_conv_decomp)
  then have "seg (hp_blocks h) (Some u) zs None" using c d(2) by (auto simp: heap_chain_def seg_append)
  then obtain ys where "zs = u # ys" by (cases zs) auto
  with ix show thesis using that by simp
qed

lemma insert_filler_nth:
  assumes "d < length bs" "f < length bs" "u < length bs" "d \<noteq> f" "u \<noteq> f" "d \<noteq> u"
  shows "insert_filler d f u c bs ! f = (bs ! f)\<lparr>hb_free := True, hb_size := c,
      start_real_addr := start_real_addr (bs ! u), hb_used := True, hb_next := Some u\<rparr>"
    "insert_filler d f u c bs ! u = (bs ! u)\<lparr>start_real_addr := start_real_addr (bs ! u) + c,
      hb_size := hb_size (bs ! u) - c\<rparr>"
    "insert_filler d f u c bs ! d = (bs ! d)\<lparr>hb_next := Some f\<rparr>"
    "\<And>i. i \<noteq> d \<Longrightarrow> i \<noteq> f \<Longrightarrow> i \<noteq> u \<Longrightarrow> insert_filler d f u c bs ! i = bs ! i"
    "length (insert_filler d f u c bs) = length bs"
  using assms by (simp_all add: insert_filler_def Let_def nth_list_update)

lemma chain_filler:
  assumes c: "heap_chain h (xs @ d # u # ys)" and f: "f < length (hp_blocks h)" "\<not> hb_used (hp_blocks h ! f)"
    and sz: "cr \<le> hb_size (hp_blocks h ! u)"
  shows "heap_chain (h\<lparr>hp_blocks := insert_filler d f u cr (hp_blocks h)\<rparr>) (xs @ d # f # u # ys)"
proof -
  let ?bs = "hp_blocks h" let ?bs' = "insert_filler d f u cr ?bs"
  have ds: "distinct (xs @ d # u # ys)" using c by (simp add: heap_chain_def)
  have fx: "f \<notin> set (xs @ d # u # ys)" using chain_used [OF c f(1)] f(2) by simp
  have lt: "d < length ?bs" "u < length ?bs" using chain_lt [OF c] by auto
  have ne: "d \<noteq> f" "u \<noteq> f" "d \<noteq> u" using ds fx by auto
  note b' = insert_filler_nth [OF lt(1) f(1) lt(2) ne]
  have same: "?bs' ! i = ?bs ! i" if "i \<in> set xs \<union> set ys" for i
    using that ds fx by (intro b'(4)) auto
  have sg: "seg ?bs (Some 0) xs (Some d)" "seg ?bs (hb_next (?bs ! u)) ys None"
    and tl: "tiled ?bs (unat (start_virtual_addr h)) (xs @ d # u # ys) (heap_end h)" and he: "heap_end h < 2 ^ 64"
    using c by (auto simp: heap_chain_def seg_append)
  have "seg ?bs' (Some 0) xs (Some d)" "seg ?bs' (hb_next (?bs ! u)) ys None"
    by (rule seg_cong [OF sg(1) b'(5)], simp add: same) (rule seg_cong [OF sg(2) b'(5)], simp add: same)
  then have 1: "seg ?bs' (Some 0) (xs @ d # f # u # ys) None"
    using b' lt f by (auto simp: seg_append)
  obtain m where m: "tiled ?bs (unat (start_virtual_addr h)) xs m" "unat (start_real_addr (?bs ! d)) = m"
    "unat (start_real_addr (?bs ! u)) = m + unat (hb_size (?bs ! d))"
    "tiled ?bs (m + unat (hb_size (?bs ! d)) + unat (hb_size (?bs ! u))) ys (heap_end h)"
    using tl by (auto simp: tiled_append)
  have le: "unat (start_real_addr (?bs ! u)) + unat (hb_size (?bs ! u)) < 2 ^ 64" using tiled_le [OF m(4)] he m(3) by simp
  have us: "unat (hb_size (?bs ! u) - cr) = unat (hb_size (?bs ! u)) - unat cr" "unat cr \<le> unat (hb_size (?bs ! u))"
    using sz by (simp_all add: unat_minus_no_wrap word_le_nat_alt)
  have st: "unat (start_real_addr (?bs ! u) + cr) = unat (start_real_addr (?bs ! u)) + unat cr"
    using le us by (intro unat_plus_no_wrap) simp
  have "tiled ?bs' (unat (start_virtual_addr h)) xs m"
    "tiled ?bs' (m + unat (hb_size (?bs ! d)) + unat (hb_size (?bs ! u))) ys (heap_end h)"
    by (rule tiled_cong [OF m(1)], simp add: same) (rule tiled_cong [OF m(4)], simp add: same)
  then have 2: "tiled ?bs' (unat (start_virtual_addr h)) (xs @ d # f # u # ys) (heap_end h)"
    using b' m(2,3) us st by (auto simp: tiled_append add.assoc)
  have 3: "hb_used (?bs' ! i) \<longleftrightarrow> i \<in> set (xs @ d # f # u # ys)" if "i < length ?bs" for i
    using chain_used [OF c that] chain_used [OF c lt(1)] chain_used [OF c lt(2)] b'
    by (cases "i = f"; cases "i = d"; cases "i = u") auto
  have 4: "hb_next (?bs' ! i) = None" if "i < length ?bs" "\<not> hb_used (?bs' ! i)" for i
    using that 3 [OF that(1)] c b'(4) [of i] by (auto simp: heap_chain_def)
  show ?thesis using 1 2 3 4 c ds fx b'(5) by (auto simp: heap_chain_def heap_end_def)
qed

lemma dma_correction:
  assumes "k < 64" "unat s + 2 ^ k < 2 ^ 64"
  defines "c \<equiv> (2 ^ k - s mod 2 ^ k) mod (2 ^ k :: u64)"
  shows "unat c < 2 ^ k" "2 ^ k dvd unat (s + c)"
proof -
  define p :: nat where "p = 2 ^ k"
  have p: "unat (2 ^ k :: u64) = p" using unat_pow2 [OF assms(1)] by (simp add: p_def)
  have "0 < p" by (simp add: p_def)
  have m: "unat (s mod 2 ^ k) = unat s mod p" by (simp only: unat_mod p)
  have "s mod 2 ^ k \<le> 2 ^ k" unfolding word_le_nat_alt m p by (rule mod_le_divisor [OF \<open>0 < p\<close>])
  then have "unat (2 ^ k - s mod 2 ^ k) = p - unat s mod p" using unat_minus_no_wrap m p by metis
  then have c: "unat c = (p - unat s mod p) mod p" unfolding c_def by (simp only: unat_mod p)
  then show lt: "unat c < 2 ^ k" using \<open>0 < p\<close> by (simp add: p_def [symmetric])
  have "unat (s + c) = unat s + unat c" using lt assms(2) by (intro unat_plus_no_wrap) simp
  moreover have z: "(unat s + (p - unat s mod p) mod p) mod p = 0"
  proof -
    have "(unat s + (p - unat s mod p) mod p) mod p = (unat s mod p + (p - unat s mod p)) mod p"
      by (simp only: mod_add_left_eq mod_add_right_eq)
    also have "unat s mod p + (p - unat s mod p) = p" using \<open>0 < p\<close> by (simp add: less_imp_le)
    finally show ?thesis by simp
  qed
  ultimately have "unat (s + c) mod p = 0" by (simp only: c)
  then show "2 ^ k dvd unat (s + c)" by (simp only: p_def dvd_eq_mod_eq_0)
qed

section \<open>Aligned allocation\<close>

lemma split_block_nth:
  assumes "d < length bs" "u < length bs" "d \<noteq> u"
  shows "split_block d u sz bs ! d = (bs ! d)\<lparr>hb_size := hb_size (bs ! d) - sz, hb_next := Some u\<rparr>"
    "split_block d u sz bs ! u = (bs ! u)\<lparr>hb_free := False, hb_used := True, hb_size := sz,
             start_real_addr := start_real_addr (bs ! d) + (hb_size (bs ! d) - sz), hb_next := hb_next (bs ! d)\<rparr>"
    "\<And>i. i \<noteq> d \<Longrightarrow> i \<noteq> u \<Longrightarrow> split_block d u sz bs ! i = bs ! i"
    "length (split_block d u sz bs) = length bs"
  using assms by (auto simp: split_block_def nth_list_update)

text \<open>A step that turns descriptor \<open>u\<close> into a live block and touches no other live block.\<close>

lemma alloc_outcome_intro:
  assumes "u < length (hp_blocks h')" "length (hp_blocks h') = length (hp_blocks h)" "\<not> hb_used (hp_blocks h ! u)"
    and "hb_used (hp_blocks h' ! u)" "\<not> hb_free (hp_blocks h' ! u)"
    and "start_real_addr (hp_blocks h' ! u) = r" "hb_size (hp_blocks h' ! u) = n" "r \<noteq> 0"
    and other: "\<And>i. i \<noteq> u \<Longrightarrow> i < length (hp_blocks h) \<Longrightarrow>
      (hb_used (hp_blocks h ! i) \<and> \<not> hb_free (hp_blocks h ! i) \<longrightarrow> hp_blocks h' ! i = hp_blocks h ! i) \<and>
      (hb_used (hp_blocks h' ! i) \<and> \<not> hb_free (hp_blocks h' ! i) \<longrightarrow> hb_used (hp_blocks h ! i) \<and> \<not> hb_free (hp_blocks h ! i))"
  shows "alloc_outcome h n r h'"
proof -
  have "i \<in> live_ix h' \<longleftrightarrow> i \<in> insert u (live_ix h)" for i
    using other [of i] assms(1-5) by (cases "i = u") (auto simp: live_ix_def)
  moreover have "hp_blocks h' ! i = hp_blocks h ! i" if "i \<in> live_ix h" for i
    using that other [of i] assms(3) by (cases "i = u") (auto simp: live_ix_def)
  moreover have "u \<notin> live_ix h" using assms(3) by (simp add: live_ix_def)
  ultimately show ?thesis using assms unfolding alloc_outcome_def by auto
qed

lemma dma_alloc_ok:
  assumes c: "heap_chain h ix" and k: "k < 64" and fit: "unat sz + 2 ^ k < 2 ^ 64"
    and a: "dma_heap_alloc h sz (2 ^ k) = (r, h')"
  shows "(\<exists>ix'. heap_chain h' ix') \<and> (r = 0 \<and> h' = h \<or>
    r \<noteq> 0 \<and> 2 ^ k dvd unat r \<and> (\<exists>n. unat sz \<le> unat n \<and> alloc_outcome h n r h'))"
proof (cases "r = 0 \<and> h' = h")
  case True
  with c show ?thesis by blast
next
  case nz: False
  let ?al = "2 ^ k :: u64" let ?bs = "hp_blocks h"
  have sum: "unat (sz + ?al) = unat sz + 2 ^ k"
    using fit unat_pow2 [OF k] by (subst unat_plus_no_wrap) auto
  have al: "is_aligned sz ?al" using a nz by (auto simp: dma_heap_alloc_def split: if_splits)
  have noex: "\<not> (\<exists>d. find_donor (sz + ?al) h = Some d \<and> hb_size (?bs ! d) = sz \<and> P d)" for P
  proof
    assume "\<exists>d. find_donor (sz + ?al) h = Some d \<and> hb_size (?bs ! d) = sz \<and> P d"
    then have "sz + ?al \<le> sz" using find_donor_Some by fastforce
    then show False using sum by (simp add: word_le_nat_alt)
  qed
  obtain d u f where dn: "find_donor (sz + ?al) h = Some d" and un: "find_unused h = Some u"
    and fl: "second_unused 0 ?bs = Some f"
    using a al nz noex [of "\<lambda>d. is_aligned (start_real_addr (?bs ! d)) ?al"]
    by (auto simp: dma_heap_alloc_def heap_filter_three split: option.splits if_splits)
  note d = find_donor_Some [OF dn] and u = find_unused_Some [OF un]
  have f: "u < f" "f < length ?bs" "\<not> hb_used (?bs ! f)"
    using second_unused_Some [OF fl] un by (auto simp: find_unused_def)
  have ne: "d \<noteq> u" "d \<noteq> f" "u \<noteq> f" using d u f by auto
  define bs where "bs = split_block d u (sz + ?al) ?bs"
  note b = split_block_nth [where d = d and bs = ?bs and u = u and sz = "sz + ?al", folded bs_def]
  have b': "bs ! d = (?bs ! d)\<lparr>hb_size := hb_size (?bs ! d) - (sz + ?al), hb_next := Some u\<rparr>"
    "hb_used (bs ! u)" "\<not> hb_free (bs ! u)" "hb_size (bs ! u) = sz + ?al"
    "\<And>i. i \<noteq> d \<Longrightarrow> i \<noteq> u \<Longrightarrow> bs ! i = ?bs ! i" "length bs = length ?bs"
    using b d u ne by auto
  define s where "s = start_real_addr (bs ! u)"
  define cr where "cr = (?al - s mod ?al) mod ?al"
  obtain ix1 where c1: "heap_chain (h\<lparr>hp_blocks := bs\<rparr>) ix1"
    using chain_split [OF c, of u d "sz + ?al"] u d unfolding bs_def by auto
  have uix: "u \<in> set ix1" "d \<in> set ix1"
    using chain_used [OF c1, of u] chain_used [OF c1, of d] b' u d by simp_all
  define h1 where "h1 = h\<lparr>hp_blocks := bs\<rparr>"
  note res = a [unfolded dma_heap_alloc_def heap_filter_three]
  have out: "r = start_real_addr ((if \<not> is_aligned s ?al then insert_filler d f u cr bs else bs) ! u) \<and>
      h' = h\<lparr>hp_blocks := if \<not> is_aligned s ?al then insert_filler d f u cr bs else bs\<rparr>"
  proof -
    have neg: "(hb_size (?bs ! d) = sz \<and> is_aligned (start_real_addr (?bs ! d)) ?al) = False"
      using noex [of "\<lambda>d. is_aligned (start_real_addr (?bs ! d)) ?al"] dn by blast
    show ?thesis using res al
      by (simp add: dn un fl Let_def neg bs_def [symmetric] s_def [symmetric] cr_def [symmetric] split: if_splits)
  qed
  show ?thesis
  proof (cases "is_aligned s ?al")
    case True
    then have o: "r = s" "h' = h1" using out by (auto simp: s_def h1_def)
    have "r \<noteq> 0" using chain_start_nonzero [OF c1 uix(1)] by (simp add: o s_def)
    moreover have "alloc_outcome h (sz + ?al) r h1"
    proof (rule alloc_outcome_intro [of u])
      fix i assume "i \<noteq> u" "i < length ?bs"
      then show "(hb_used (?bs ! i) \<and> \<not> hb_free (?bs ! i) \<longrightarrow> hp_blocks h1 ! i = ?bs ! i) \<and>
          (hb_used (hp_blocks h1 ! i) \<and> \<not> hb_free (hp_blocks h1 ! i) \<longrightarrow> hb_used (?bs ! i) \<and> \<not> hb_free (?bs ! i))"
        using b'(1,5) d by (cases "i = d") (simp_all add: h1_def)
    qed (use u b' \<open>r \<noteq> 0\<close> o in \<open>simp_all add: h1_def s_def\<close>)
    moreover have "2 ^ k dvd unat r" using True is_aligned_pow2 [OF k] o by simp
    ultimately show ?thesis using c1 o sum h1_def by (metis le_add1)
  next
    case False
    then have o: "r = start_real_addr (insert_filler d f u cr bs ! u)" "h' = h\<lparr>hp_blocks := insert_filler d f u cr bs\<rparr>"
      using out by auto
    have t1: "tiled bs (unat (start_virtual_addr h)) ix1 (heap_end h)" and he: "heap_end h < 2 ^ 64"
      using c1 by (auto simp: heap_chain_def heap_end_def)
    have "unat s + (unat sz + 2 ^ k) \<le> heap_end h"
      using tiled_within [OF t1 uix(1)] b'(4) sum by (simp add: s_def)
    then have "unat s + 2 ^ k < 2 ^ 64" using he by linarith
    note cr = dma_correction [OF k this, folded cr_def]
    have crle: "cr \<le> hb_size (bs ! u)" using cr(1) b'(4) sum by (simp add: word_le_nat_alt)
    obtain xs ys where ix1: "ix1 = xs @ d # u # ys"
      using chain_next [OF c1 uix(2), of u] b'(1) by auto
    have fl': "f < length bs" "\<not> hb_used (bs ! f)" using f b'(5) [of f] b'(6) ne by auto
    have c2: "heap_chain h' (xs @ d # f # u # ys)"
      using chain_filler [of "h\<lparr>hp_blocks := bs\<rparr>" xs d u ys f cr] c1 ix1 fl' crle o(2) by simp
    have lt: "d < length bs" "u < length bs" using d u b'(6) by auto
    note n = insert_filler_nth [OF lt(1) fl'(1) lt(2) ne(2,3,1)]
    have r: "r = s + cr" "hb_size (hp_blocks h' ! u) = sz + ?al - cr" using o n(2) b'(4) by (simp_all add: s_def)
    have "u \<in> set (xs @ d # f # u # ys)" by simp
    from chain_start_nonzero [OF c2 this] have "r \<noteq> 0" using o by simp
    have "alloc_outcome h (sz + ?al - cr) r h'"
    proof (rule alloc_outcome_intro [of u])
      fix i assume "i \<noteq> u" "i < length ?bs"
      then show "(hb_used (?bs ! i) \<and> \<not> hb_free (?bs ! i) \<longrightarrow> hp_blocks h' ! i = ?bs ! i) \<and>
          (hb_used (hp_blocks h' ! i) \<and> \<not> hb_free (hp_blocks h' ! i) \<longrightarrow> hb_used (?bs ! i) \<and> \<not> hb_free (?bs ! i))"
        using b'(1,5) d f n(1,3) n(4) [of i] by (cases "i = d"; cases "i = f") (simp_all add: o(2))
    qed (use u b' \<open>r \<noteq> 0\<close> o n in \<open>simp_all\<close>)
    moreover have "unat sz \<le> unat (sz + ?al - cr)"
    proof -
      have "unat (sz + ?al - cr) = unat sz + 2 ^ k - unat cr"
        using crle b'(4) sum by (simp add: unat_minus_no_wrap)
      then show ?thesis using cr(1) by simp
    qed
    ultimately show ?thesis using c2 \<open>r \<noteq> 0\<close> cr(2) r(1) by blast
  qed
qed

section \<open>Placing heaps in the window\<close>

lemma first_overlap_None:
  "first_overlap hs b sz = None \<Longrightarrow> h \<in> set hs \<Longrightarrow>
     start_virtual_addr h + hp_size h + PAGE_SIZE_LARGE \<le> b \<or> b + sz \<le> heap_block_array h"
  by (induction hs) (auto simp: Let_def not_less split: if_splits)

lemma place_heap_ok:
  assumes "place_heap hs sz stop b = r" "r \<noteq> 0"
  shows "b \<le> r \<and> r + sz \<le> stop \<and> first_overlap hs r sz = None"
  using assms
proof (induction hs sz stop b rule: place_heap.induct)
  case (1 hs sz stop b)
  show ?case
  proof (cases "first_overlap hs b sz")
    case None
    with "1.prems" show ?thesis by (auto simp: place_heap.simps [of hs] split: if_splits)
  next
    case (Some e)
    have le: "b + sz \<le> stop" using "1.prems" by (auto simp: place_heap.simps [of hs] split: if_splits)
    then have "place_heap hs sz stop e = r"
      using "1.prems"(1) Some by (simp add: place_heap.simps [of hs _ _ b])
    with "1.IH" [OF le Some] "1.prems"(2) have "e \<le> r \<and> r + sz \<le> stop \<and> first_overlap hs r sz = None" by blast
    then show ?thesis using first_overlap_gt [OF Some] by (meson less_imp_le order_trans)
  qed
qed

section \<open>Properties\<close>

text \<open>
  \<open>dma_heap_alloc\<close> with a power-of-two alignment, on a heap whose descriptors form a proper
  chain that tiles the heap: the result is either null, with the heap untouched, or an aligned
  address where a new live block of at least \<open>sz\<close> bytes starts that overlaps no live block and lies
  inside the heap; every other live block is untouched and the chain stays proper (including the
  filler block that absorbs the misalignment).
\<close>

theorem dma_heap_alloc_aligned:
  assumes "heap_chain h ix" and "k < 64" and "unat sz + 2 ^ k < 2 ^ 64"
    and "dma_heap_alloc h sz (2 ^ k) = (r, h')"
  shows "(\<exists>ix'. heap_chain h' ix') \<and> (r = 0 \<and> h' = h \<or>
    r \<noteq> 0 \<and> 2 ^ k dvd unat r \<and> (\<exists>n. unat sz \<le> unat n \<and> live h' = insert (r, n) (live h) \<and>
      (\<forall>b \<in> live h. regions_disjoint (r, n) b) \<and>
      unat (start_virtual_addr h') \<le> unat r \<and> unat r + unat n \<le> heap_end h'))"
proof -
  obtain ix' where c: "heap_chain h' ix'" and
    o: "r = 0 \<and> h' = h \<or> r \<noteq> 0 \<and> 2 ^ k dvd unat r \<and> (\<exists>n. unat sz \<le> unat n \<and> alloc_outcome h n r h')"
    using dma_alloc_ok [OF assms] by blast
  show ?thesis
  proof (cases "r = 0")
    case True
    with c o show ?thesis by blast
  next
    case False
    with o obtain n where n: "2 ^ k dvd unat r" "unat sz \<le> unat n" "alloc_outcome h n r h'" by blast
    note reg = alloc_outcome_regions [OF c n(3) False]
    have "live h' = insert (r, n) (live h) \<and> (\<forall>b \<in> live h. regions_disjoint (r, n) b) \<and>
      unat (start_virtual_addr h') \<le> unat r \<and> unat r + unat n \<le> heap_end h'"
      by (intro conjI ballI reg)
    with c n False show ?thesis by blast
  qed
qed

lemma small_heap_chain: "heap_chain small_heap [0]"
  by (simp add: heap_chain_def small_heap_blocks zero_block_def less_Suc_eq heap_end_def)
    (simp add: small_heap_def setup_heap_def PAGE_SIZE_LARGE_def)

theorem dma_heap_alloc_aligned_witness:
  "\<exists>h'. dma_heap_alloc small_heap 0x1000 0x1000 = (0x403FE000, h') \<and> (0x403FE000, 0x2000) \<in> live h'"
proof -
  have "dma_heap_alloc small_heap 0x1000 (2 ^ 12) = (0x403FE000, snd (dma_heap_alloc small_heap 0x1000 (2 ^ 12)))"
    by (simp add: dma_heap_alloc_def heap_filter_three find_donor_def find_unused_def small_heap_blocks
        is_aligned_def zero_block_def donor_block_filter_def split_block_def Let_def)
  then obtain h' where a: "dma_heap_alloc small_heap 0x1000 (2 ^ 12) = (0x403FE000, h')" by metis
  from dma_heap_alloc_aligned [OF small_heap_chain _ _ this] obtain n where
    n: "0x1000 \<le> unat n" "live h' = insert (0x403FE000, n) (live small_heap)" by auto
  have "hb_size (hp_blocks h' ! 1) = 0x2000 \<and> live_ix h' = {1}"
    using a by (auto simp: dma_heap_alloc_def heap_filter_three find_donor_def find_unused_def small_heap_blocks
        is_aligned_def zero_block_def donor_block_filter_def split_block_def Let_def live_ix_def less_Suc_eq nth_Cons')
  then have "live h' = {(start_real_addr (hp_blocks h' ! 1), 0x2000)}" by (simp add: live_def)
  then have "(0x403FE000, 0x2000) \<in> live h'" using n(2) small_heap_inv(2) by auto
  with a show ?thesis by simp
qed

text \<open>
  The DMA heap manager never overlaps two heaps: the address it finds for a heap of \<open>sz\<close> bytes
  lies in the manager's window with the whole heap, and the new range is clear of the descriptor
  array and the memory of every heap placed so far. The search always ends.
\<close>

theorem dma_manager_no_overlap:
  assumes "dma_heap_manager_get_virtual_address mgr sz = va" and "va \<noteq> 0"
  shows "dm_start_virtual_addr mgr \<le> va \<and> va + sz \<le> dm_start_virtual_addr mgr + dm_size mgr \<and>
    (\<forall>h \<in> set (dm_heaps mgr). start_virtual_addr h + hp_size h + PAGE_SIZE_LARGE \<le> va \<or>
       va + sz \<le> heap_block_array h)"
  using place_heap_ok [OF assms(1) [unfolded dma_heap_manager_get_virtual_address_def] assms(2)]
    first_overlap_None by blast

theorem dma_manager_no_overlap_witness:
  "let mgr = \<lparr>dm_start_virtual_addr = 0x40000000, dm_size = 0x10000000, dm_heaps = [small_heap]\<rparr>
   in dma_heap_manager_get_virtual_address mgr 0x100000 = 0x40600000 \<and>
      (\<forall>h \<in> set (dm_heaps mgr). start_virtual_addr h + hp_size h + PAGE_SIZE_LARGE \<le> 0x40600000 \<or>
         0x40600000 + 0x100000 \<le> heap_block_array h)"
proof -
  let ?mgr = "\<lparr>dm_start_virtual_addr = 0x40000000, dm_size = 0x10000000, dm_heaps = [small_heap]\<rparr>"
  have "heap_block_array small_heap = 0x40000000" "start_virtual_addr small_heap = 0x40200000" "hp_size small_heap = 0x200000"
    by (simp_all add: small_heap_def setup_heap_def PAGE_SIZE_LARGE_def)
  then have a: "dma_heap_manager_get_virtual_address ?mgr 0x100000 = 0x40600000"
    by (simp add: dma_heap_manager_get_virtual_address_def place_heap.simps PAGE_SIZE_LARGE_def)
  from dma_manager_no_overlap [OF this] a show ?thesis by simp
qed

text \<open>When the donor is used up to its last byte, the block handed out starts where the empty donor
  starts; releasing it then finds the donor first and the block stays allocated for ever.\<close>

definition full_heap :: heap where
  "full_heap = small_heap\<lparr>hp_blocks := [\<lparr>start_real_addr = 0x40200000, hb_size = 0x2000, hb_next = None,
     hb_free = True, hb_used = True\<rparr>, zero_block, zero_block]\<rparr>"

lemma dma_free_leaks:
  "case dma_heap_alloc full_heap 0x1000 0x1000 of
     (r, h) \<Rightarrow> r = 0x40200000 \<and> (\<exists>h'. dma_heap_free h r = Some h' \<and> live_ix h' = live_ix h \<and> live_ix h = {1})"
  by (simp add: dma_heap_alloc_def heap_filter_three find_donor_def find_unused_def full_heap_def
      is_aligned_def zero_block_def donor_block_filter_def split_block_def Let_def dma_heap_free_def heap_free_def
      mark_free.simps coalesce.simps live_ix_def less_Suc_eq)
    (auto simp: nth_Cons')

end
