(* ===== verification/Std_String.thy ===== *)
theory Std_String
  imports Prelude "HOL-Library.Sublist"
begin

text \<open>
  C strings, number formatting and \<open>std::string\<close> (\<open>src/shared/include/std/string.hpp\<close>).

  A C string that a function only reads is the list of its bytes before the terminator; reading it
  at its length yields 0.  A buffer that a function writes is the list of its bytes, and a write
  outside it is \<open>None\<close>.  \<open>std::string\<close> is its pair of fields: the allocated buffer (\<open>None\<close> for
  \<open>nullptr\<close>) and \<open>len\<close>.  The code uses the result of \<open>malloc\<close> unchecked, so the
  model takes these allocations to succeed.
\<close>

section \<open>C strings\<close>

definition b8 :: "string \<Rightarrow> u8 list" where
  "b8 s = map of_char s"

text \<open>\<open>strlen\<close> on a buffer: the index of the first zero byte, \<open>None\<close> when there is none.\<close>

fun strlen :: "u8 list \<Rightarrow> nat option" where
  "strlen [] = None"
| "strlen (c # cs) = (if c = 0 then Some 0 else map_option Suc (strlen cs))"

fun strchr :: "u8 list \<Rightarrow> u8 \<Rightarrow> nat \<Rightarrow> nat option" where
  "strchr [] ch i = (if ch = 0 then Some i else None)"
| "strchr (c # cs) ch i = (if c = ch then Some i else strchr cs ch (Suc i))"

fun streq :: "u8 list \<Rightarrow> u8 list \<Rightarrow> bool" where
  "streq [] [] = True"
| "streq [] (b # bs) = (b = 0)"
| "streq (a # as) [] = (a = 0)"
| "streq (a # as) (b # bs) = (if a \<noteq> 0 \<and> b \<noteq> 0 \<and> a = b then streq as bs else a = b)"

fun strff :: "u8 list \<Rightarrow> u8 \<Rightarrow> nat \<Rightarrow> int" where
  "strff [] ch i = -1"
| "strff (c # cs) ch i = (if c = 0 then -1 else if c = ch then int i else strff cs ch (Suc i))"

fun str_starts_with :: "u8 list \<Rightarrow> u8 list \<Rightarrow> bool" where
  "str_starts_with s [] = True"
| "str_starts_with s (t # ts) =
     (case s of [] \<Rightarrow> False | c # cs \<Rightarrow> if c \<noteq> t then False else str_starts_with cs ts)"

definition str_ends_with :: "u8 list \<Rightarrow> u8 list \<Rightarrow> bool" where
  "str_ends_with s target =
     (if length target > length s then False
      else streq (drop (length s - length target) s) target)"

text \<open>\<open>strncpy\<close> copies no terminator.\<close>

definition strncpy :: "u8 list \<Rightarrow> u8 list \<Rightarrow> nat \<Rightarrow> (bool \<times> u8 list) option" where
  "strncpy dest src dest_size =
     (if length src > dest_size then Some (False, dest)
      else do { d \<leftarrow> wr_bytes dest 0 src; Some (True, d) })"

definition char_is_num :: "u8 \<Rightarrow> bool" where
  "char_is_num ch \<longleftrightarrow> 0x30 \<le> ch \<and> ch \<le> 0x39"

text \<open>\<open>atoi\<close> computes in \<open>int\<close>, whose overflow is undefined; \<open>atoll\<close> wraps.\<close>

fun atoi_loop :: "int \<Rightarrow> u8 list \<Rightarrow> int option" where
  "atoi_loop result [] = Some result"
| "atoi_loop result (c # cs) =
     (if 0x30 \<le> c \<and> c \<le> 0x39
      then let r = result * 10 + (uint c - 0x30)
           in if r < 2 ^ 31 then atoi_loop r cs else None
      else Some result)"

definition atoi :: "u8 list \<Rightarrow> int option" where
  "atoi s = atoi_loop 0 s"

fun atoll_loop :: "u64 \<Rightarrow> u8 list \<Rightarrow> u64" where
  "atoll_loop result [] = result"
| "atoll_loop result (c # cs) =
     (if 0x30 \<le> c \<and> c \<le> 0x39 then atoll_loop (result * 10 + (ucast c - 0x30)) cs else result)"

definition atoll :: "u8 list \<Rightarrow> u64" where
  "atoll s = atoll_loop 0 s"

text \<open>\<open>str_unpack_be16\<close>: the words' bytes, high byte first, without trailing blanks.\<close>

fun unpack_loop :: "nat \<Rightarrow> u16 list \<Rightarrow> u8 list \<Rightarrow> nat \<Rightarrow> (u8 list \<times> nat) option" where
  "unpack_loop 0 src dst pos = Some (dst, pos)"
| "unpack_loop (Suc n) src dst pos =
     (if pos + 1 < length dst
      then (case src of
              [] \<Rightarrow> None
            | w # ws \<Rightarrow> unpack_loop n ws (dst[pos := ucast (drop_bit 8 w), Suc pos := ucast (w AND 0xFF)]) (pos + 2))
      else Some (dst, pos))"

fun strip_blanks :: "u8 list \<Rightarrow> nat \<Rightarrow> nat" where
  "strip_blanks dst 0 = 0"
| "strip_blanks dst (Suc p) = (if dst ! p = 0x20 then strip_blanks dst p else Suc p)"

definition str_unpack_be16 :: "u16 list \<Rightarrow> nat \<Rightarrow> u8 list \<Rightarrow> u8 list option" where
  "str_unpack_be16 src word_count dst = do {
     (d, pos) \<leftarrow> unpack_loop word_count src (replicate (length dst) 0) 0;
     let p = strip_blanks d pos;
     wr8 d (if p < length d then p else length d - 1) 0 }"

section \<open>Numbers to text\<close>

definition s_numbers :: "u8 list" where
  "s_numbers = b8 ''0123456789abcdef''"

text \<open>The digit loop \<open>for (; number && i; number /= base) tmp[--i] = s_numbers[number % base];\<close>\<close>

fun put_digits :: "'a::len word \<Rightarrow> 'a word \<Rightarrow> nat \<Rightarrow> u8 list \<Rightarrow> nat \<times> u8 list" where
  "put_digits number base 0 tmp = (0, tmp)"
| "put_digits number base (Suc i) tmp =
     (if number \<noteq> 0
      then put_digits (number div base) base i (tmp[i := s_numbers ! unat (number mod base)])
      else (Suc i, tmp))"

text \<open>\<open>sprintf\<close> of a pointer: 16 hexadecimal digits, no terminator.\<close>

definition sprintf_ptr :: "u8 list option \<Rightarrow> nat \<Rightarrow> u64 \<Rightarrow> (nat \<times> u8 list option) option" where
  "sprintf_ptr buffer sz ptr =
     (if sz < 17 \<or> buffer = None then Some (0, buffer)
      else do { b \<leftarrow> wr_bytes (the buffer) 0 (replicate 16 0x30);
                Some (17, Some (snd (put_digits ptr 16 16 b))) })"

text \<open>
  The four integer versions share their text; they differ in the size of \<open>tmp\<close> (11, 12, 21, 22),
  the width of \<open>number\<close> and the sign.  \<open>ABS\<close> is applied to an unsigned value there, so it is the
  identity.  A base of 0 divides by zero; the sign is written at \<open>tmp[-1]\<close> when no room is left.
  The result counts a terminator that only the branch for 0 writes.
\<close>

definition sprintf_num :: "nat \<Rightarrow> bool \<Rightarrow> u8 list option \<Rightarrow> nat \<Rightarrow> 'a::len word \<Rightarrow> int \<Rightarrow>
    (nat \<times> u8 list option) option" where
  "sprintf_num tmp_size neg buffer sz num base =
     (if sz < tmp_size \<or> buffer = None then Some (0, buffer)
      else if base < 0 \<or> base \<ge> 17 then Some (0, buffer)
      else if num = 0 then do { b \<leftarrow> wr_bytes (the buffer) 0 [0x30, 0]; Some (2, Some b) }
      else if base = 0 then None
      else let (i, tmp) = put_digits num (word_of_int base) (tmp_size - 1) (replicate tmp_size 0)
           in do {
             (i, tmp) \<leftarrow> (if neg then if i = 0 then None else Some (i - 1, tmp[i - 1 := 0x2D]) else Some (i, tmp));
             strlength \<leftarrow> strlen (drop i tmp);
             b \<leftarrow> wr_bytes (the buffer) 0 (take strlength (drop i tmp));
             Some (strlength + 1, Some b) })"

definition sprintf_u32 :: "u8 list option \<Rightarrow> nat \<Rightarrow> u32 \<Rightarrow> int \<Rightarrow> (nat \<times> u8 list option) option" where
  "sprintf_u32 buffer sz num base = sprintf_num 11 False buffer sz num base"

definition sprintf_i32 :: "u8 list option \<Rightarrow> nat \<Rightarrow> u32 \<Rightarrow> int \<Rightarrow> (nat \<times> u8 list option) option" where
  "sprintf_i32 buffer sz num base = sprintf_num 12 (sint num < 0) buffer sz num base"

definition sprintf_u64 :: "u8 list option \<Rightarrow> nat \<Rightarrow> u64 \<Rightarrow> int \<Rightarrow> (nat \<times> u8 list option) option" where
  "sprintf_u64 buffer sz num base = sprintf_num 21 False buffer sz num base"

definition sprintf_i64 :: "u8 list option \<Rightarrow> nat \<Rightarrow> u64 \<Rightarrow> int \<Rightarrow> (nat \<times> u8 list option) option" where
  "sprintf_i64 buffer sz num base = sprintf_num 22 (sint num < 0) buffer sz num base"

text \<open>
  \<open>sprintf\<close> of a \<open>double\<close>: the two conversions to \<open>int\<close> and the power of ten are floating-point
  arithmetic, so the model starts from their results \<open>int_part\<close> and \<open>dec_part\<close>.
\<close>

definition sprintf_double :: "u8 list option \<Rightarrow> nat \<Rightarrow> u32 \<times> u32 \<Rightarrow> (nat \<times> u8 list option) option" where
  "sprintf_double buffer sz = (\<lambda>(int_part, dec_part).
     if buffer = None then Some (0, buffer) else do {
     (inc_buff_size, inc_buff) \<leftarrow> sprintf_i32 (Some (replicate 22 0)) 22 int_part 10;
     (dec_buff_size, dec_buff) \<leftarrow> sprintf_i32 (Some (replicate 22 0)) 22 dec_part 10;
     if inc_buff_size - 1 + dec_buff_size - 1 + 2 > sz then Some (0, buffer)
     else do {
       b \<leftarrow> wr_bytes (the buffer) 0 (take (inc_buff_size - 1) (the inc_buff));
       b \<leftarrow> wr8 b (inc_buff_size - 1) 0x2E;
       b \<leftarrow> wr_bytes b inc_buff_size (take dec_buff_size (the dec_buff));
       Some (inc_buff_size - 1 + dec_buff_size - 1 + 2, Some b) } })"

section \<open>The format interpreter\<close>

text \<open>An argument of the variable argument list, with the type it was passed at.\<close>

datatype fmt_arg =
    APtr u64 | AStr "u8 list option" | AChr u8 | AU32 u32 | AU64 u64 | AI32 u32 | AI64 u64 | ADbl "u32 \<times> u32"

datatype conv = CPtr | CStr | CChr | CU32 | CU64 | CX64 | CI32 | CI64 | CXI64 | CDbl | COther u8

text \<open>The conversion that starts with \<open>ch2\<close>, with the text after it.\<close>

definition parse_conv :: "u8 \<Rightarrow> u8 list \<Rightarrow> conv \<times> u8 list" where
  "parse_conv ch2 r =
     (if ch2 = 0x70 then (CPtr, r)
      else if ch2 = 0x73 then (CStr, r)
      else if ch2 = 0x63 then (CChr, r)
      else if ch2 = 0x75 then (if r \<noteq> [] \<and> hd r = 0x6C then (CU64, tl r)
                               else if r \<noteq> [] \<and> hd r = 0x68 then (CX64, tl r) else (CU32, r))
      else if ch2 = 0x69 then (if r \<noteq> [] \<and> hd r = 0x6C then (CI64, tl r)
                               else if r \<noteq> [] \<and> hd r = 0x68 then (CXI64, tl r) else (CI32, r))
      else if ch2 = 0x66 then (CDbl, r)
      else (COther ch2, r))"

text \<open>The bytes a conversion produces; reading an argument at another type than it was passed at, or
  one that was not passed, is undefined.\<close>

definition tmp_text :: "(nat \<times> u8 list option) option \<Rightarrow> u8 list option" where
  "tmp_text r = do { (n, b) \<leftarrow> r; if n = 0 then None else Some (take (n - 1) (the b)) }"

fun conv_bytes :: "conv \<Rightarrow> fmt_arg list \<Rightarrow> (u8 list \<times> fmt_arg list) option" where
  "conv_bytes (COther ch2) args = Some ([0x25, ch2], args)"
| "conv_bytes CPtr (APtr p # as) = do { t \<leftarrow> tmp_text (sprintf_ptr (Some (replicate 17 0)) 17 p); Some (t, as) }"
| "conv_bytes CStr (AStr None # as) = Some ([], as)"
| "conv_bytes CStr (AStr (Some s) # as) = Some (s, as)"
| "conv_bytes CChr (AChr c # as) = Some ([c], as)"
| "conv_bytes CU32 (AU32 n # as) = do { t \<leftarrow> tmp_text (sprintf_u32 (Some (replicate 11 0)) 11 n 10); Some (t, as) }"
| "conv_bytes CU64 (AU64 n # as) = do { t \<leftarrow> tmp_text (sprintf_u64 (Some (replicate 21 0)) 21 n 10); Some (t, as) }"
| "conv_bytes CX64 (AU64 n # as) = do { t \<leftarrow> tmp_text (sprintf_u64 (Some (replicate 21 0)) 21 n 16); Some (t, as) }"
| "conv_bytes CI32 (AI32 n # as) = do { t \<leftarrow> tmp_text (sprintf_i32 (Some (replicate 12 0)) 12 n 10); Some (t, as) }"
| "conv_bytes CI64 (AI64 n # as) = do { t \<leftarrow> tmp_text (sprintf_i64 (Some (replicate 22 0)) 22 n 10); Some (t, as) }"
| "conv_bytes CXI64 (AI64 n # as) = do { t \<leftarrow> tmp_text (sprintf_i64 (Some (replicate 22 0)) 22 n 16); Some (t, as) }"
| "conv_bytes CDbl (ADbl d # as) = do { t \<leftarrow> tmp_text (sprintf_double (Some (replicate 50 0)) 50 d); Some (t, as) }"
| "conv_bytes _ _ = None"

definition STR_CHECK_BUFF :: "u64 \<Rightarrow> u64 \<Rightarrow> u64 \<Rightarrow> bool" where
  "STR_CHECK_BUFF cur mx req \<longleftrightarrow> cur + req < mx"

text \<open>\<open>emit\<close>: the guarded \<open>memcpy(&buffer[len], ...); len += ...\<close> of every conversion.\<close>

definition emit :: "u64 \<Rightarrow> u8 list \<Rightarrow> u8 list \<times> u64 \<Rightarrow> (u8 list \<times> u64) option" where
  "emit sz bs = (\<lambda>(buf, len).
     if STR_CHECK_BUFF len sz (of_nat (length bs))
     then do { b \<leftarrow> wr_bytes buf (unat len) bs; Some (b, len + of_nat (length bs)) }
     else Some (buf, len))"

lemma parse_conv_length: "length (snd (parse_conv ch2 r)) \<le> length r"
  by (simp add: parse_conv_def)

function fmt_loop :: "u64 \<Rightarrow> u8 list \<Rightarrow> fmt_arg list \<Rightarrow> u8 list \<times> u64 \<Rightarrow> (u8 list \<times> u64) option" where
  "fmt_loop sz [] args st = Some st"
| "fmt_loop sz (ch # cs) args st =
     (if ch = 0x25
      then (case cs of
              [] \<Rightarrow> emit sz [0x25] st
            | ch2 # r \<Rightarrow>
                do { (bs, args') \<leftarrow> conv_bytes (fst (parse_conv ch2 r)) args;
                     st' \<leftarrow> emit sz bs st;
                     fmt_loop sz (snd (parse_conv ch2 r)) args' st' })
      else if \<not> STR_CHECK_BUFF (snd st) sz 1 then Some st
      else do { st' \<leftarrow> emit sz [ch] st; fmt_loop sz cs args st' })"
  by pat_completeness auto

termination
  by (relation "measure (\<lambda>(_, cs, _, _). length cs)")
    (auto intro: le_less_trans [OF parse_conv_length])

definition sprintf_fmt :: "u8 list \<Rightarrow> u64 \<Rightarrow> u8 list \<Rightarrow> fmt_arg list \<Rightarrow> (u64 \<times> u8 list) option" where
  "sprintf_fmt buffer sz fmt args = do {
     (b, len) \<leftarrow> fmt_loop sz fmt args (buffer, 0);
     b \<leftarrow> wr8 b (unat len) 0;
     Some (len + 1, b) }"

text \<open>\<open>time_format_to_string\<close>; \<open>std::string(buffer)\<close> stops at the terminator.\<close>

definition time_format_to_string :: "u64 \<Rightarrow> u8 list option" where
  "time_format_to_string ms =
     (let total_seconds = ms div 1000;
          seconds = total_seconds mod 60;
          minutes = (total_seconds div 60) mod 60;
          hours = (total_seconds div 3600) mod 24;
          days = total_seconds div 86400
      in do {
        (n, b) \<leftarrow>
          (if days > 0 then sprintf_fmt (replicate 256 0) 256 (b8 ''%uld %ulh %ulm %uls'')
                              [AU64 days, AU64 hours, AU64 minutes, AU64 seconds]
           else if hours > 0 then sprintf_fmt (replicate 256 0) 256 (b8 ''%ulh %zum %uls'')
                              [AU64 hours, AU64 minutes, AU64 seconds]
           else if minutes > 0 then sprintf_fmt (replicate 256 0) 256 (b8 ''%ulm %uls'') [AU64 minutes, AU64 seconds]
           else sprintf_fmt (replicate 256 0) 256 (b8 ''%uls'') [AU64 seconds]);
        k \<leftarrow> strlen b;
        Some (take k b) })"

section \<open>The class \<open>std::string\<close>\<close>

record std_string =
  ss_str :: "u8 list option"
  ss_len :: u64

definition npos :: u64 where
  "npos = -1"

definition string_new :: std_string where
  "string_new = \<lparr>ss_str = None, ss_len = 0\<rparr>"

text \<open>\<open>c_str()\<close> as a C string; \<open>strlen(nullptr)\<close> is 0.\<close>

definition c_str :: "std_string \<Rightarrow> u8 list option option" where
  "c_str s = (case ss_str s of None \<Rightarrow> Some None
              | Some b \<Rightarrow> do { n \<leftarrow> strlen b; Some (Some (take n b)) })"

definition cstr_bytes :: "u8 list option \<Rightarrow> u8 list" where
  "cstr_bytes p = (case p of None \<Rightarrow> [] | Some s \<Rightarrow> s)"

definition assign_char :: "u8 \<Rightarrow> std_string" where
  "assign_char ch = \<lparr>ss_str = Some [ch, 0], ss_len = 1\<rparr>"

definition assign_cstr :: "u8 list option \<Rightarrow> std_string option" where
  "assign_cstr p = do {
     let n = length (cstr_bytes p);
     b \<leftarrow> wr_bytes (replicate (n + 1) 0) 0 (cstr_bytes p);
     Some \<lparr>ss_str = Some b, ss_len = of_nat n\<rparr> }"

text \<open>\<open>assign(const std::string&)\<close> of another object; \<open>raw n\<close> are the bytes of a fresh block of \<open>n\<close> bytes.\<close>

definition assign_string :: "(nat \<Rightarrow> u8 list) \<Rightarrow> std_string \<Rightarrow> std_string option" where
  "assign_string raw other = do {
     src \<leftarrow> c_str other;
     (ok, b) \<leftarrow> strncpy (raw (unat (ss_len other) + 1)) (cstr_bytes src) (unat (ss_len other));
     b \<leftarrow> wr8 b (unat (ss_len other)) 0;
     Some \<lparr>ss_str = Some b, ss_len = ss_len other\<rparr> }"

definition assign_op :: "std_string \<Rightarrow> std_string option" where
  "assign_op other = do {
     src \<leftarrow> c_str other;
     (ok, b) \<leftarrow> strncpy (replicate (unat (ss_len other) + 1) 0) (cstr_bytes src) (unat (ss_len other));
     Some \<lparr>ss_str = Some b, ss_len = ss_len other\<rparr> }"

definition append_cstr :: "std_string \<Rightarrow> u8 list option \<Rightarrow> std_string option" where
  "append_cstr s other = do {
     let other_len = of_nat (length (cstr_bytes other));
     let new_len = ss_len s + other_len;
     old \<leftarrow> (if ss_len s = 0 then Some [] else do { b \<leftarrow> ss_str s; rd_bytes b 0 (unat (ss_len s)) });
     b \<leftarrow> wr_bytes (replicate (unat new_len + 1) 0) 0 old;
     b \<leftarrow> wr_bytes b (unat (ss_len s)) (cstr_bytes other);
     Some \<lparr>ss_str = Some b, ss_len = new_len\<rparr> }"

definition append_string :: "std_string \<Rightarrow> std_string \<Rightarrow> std_string option" where
  "append_string s other = do { p \<leftarrow> c_str other; append_cstr s p }"

definition plus_string :: "std_string \<Rightarrow> std_string \<Rightarrow> std_string option" where
  "plus_string s other = do { p \<leftarrow> c_str s; n \<leftarrow> assign_cstr p; append_string n other }"

definition plus_cstr :: "std_string \<Rightarrow> u8 list option \<Rightarrow> std_string option" where
  "plus_cstr s other = do { p \<leftarrow> c_str s; n \<leftarrow> assign_cstr p; append_cstr n other }"

text \<open>\<open>operator==\<close> reads through both pointers.\<close>

definition string_eq :: "std_string \<Rightarrow> std_string \<Rightarrow> bool option" where
  "string_eq a b = do { p \<leftarrow> c_str a; q \<leftarrow> c_str b; x \<leftarrow> p; y \<leftarrow> q; Some (streq x y) }"

definition substr :: "std_string \<Rightarrow> u64 \<Rightarrow> u64 \<Rightarrow> std_string option" where
  "substr s pos count =
     (if pos \<ge> ss_len s then Some string_new
      else let count = (if pos + count > ss_len s \<or> count = npos then ss_len s - pos else count)
           in do { b \<leftarrow> ss_str s;
                   buffer \<leftarrow> rd_bytes b (unat pos) (unat count);
                   n \<leftarrow> strlen (buffer @ [0]);
                   assign_cstr (Some (take n buffer)) })"

fun last_of :: "u8 list \<Rightarrow> u8 \<Rightarrow> nat \<Rightarrow> u64 option" where
  "last_of b c 0 = Some npos"
| "last_of b c (Suc i) = do { x \<leftarrow> rd8 b i; if x = c then Some (of_nat i) else last_of b c i }"

definition find_last_of :: "std_string \<Rightarrow> u8 \<Rightarrow> u64 option" where
  "find_last_of s c =
     (if ss_len s = 0 then Some npos else do { b \<leftarrow> ss_str s; last_of b c (unat (ss_len s)) })"

text \<open>\<open>match_at\<close> is the inner loop of \<open>find\<close>, \<open>find_loop\<close> the outer one over the \<open>n\<close> remaining positions.\<close>

fun match_at :: "u8 list \<Rightarrow> nat \<Rightarrow> u8 list \<Rightarrow> nat \<Rightarrow> nat \<Rightarrow> bool option" where
  "match_at b i t j 0 = Some True"
| "match_at b i t j (Suc n) =
     do { x \<leftarrow> rd8 b (i + j); y \<leftarrow> rd8 t j; if x \<noteq> y then Some False else match_at b i t (Suc j) n }"

fun find_loop :: "u8 list \<Rightarrow> u8 list \<Rightarrow> nat \<Rightarrow> nat \<Rightarrow> nat \<Rightarrow> u64 option" where
  "find_loop b t m i 0 = Some npos"
| "find_loop b t m i (Suc n) =
     do { r \<leftarrow> match_at b i t 0 m; if r then Some (of_nat i) else find_loop b t m (Suc i) n }"

definition string_find :: "std_string \<Rightarrow> std_string \<Rightarrow> u64 \<Rightarrow> u64 option" where
  "string_find s t start =
     (case (ss_str s, ss_str t) of
        (Some b, Some tb) \<Rightarrow>
          (if ss_len t = 0 then Some (if start \<le> ss_len s then start else npos)
           else if ss_len t > ss_len s \<or> start \<ge> ss_len s then Some npos
           else find_loop b tb (unat (ss_len t)) (unat start)
                  (Suc (unat (ss_len s - ss_len t)) - unat start))
      | _ \<Rightarrow> Some (if start \<le> ss_len s then start else npos))"

section \<open>Splitting\<close>

text \<open>The two inner loops of \<open>str_split\<close>: over the separators (\<open>eq\<close>) and over the part.\<close>

function skip_while :: "bool \<Rightarrow> u8 list \<Rightarrow> u8 \<Rightarrow> nat \<Rightarrow> nat \<Rightarrow> nat" where
  "skip_while eq str ch n i =
     (if i < n \<and> i < length str \<and> (str ! i = ch) = eq then skip_while eq str ch n (Suc i) else i)"
  by pat_completeness auto
termination by (relation "measure (\<lambda>(_, _, _, n, i). n - i)") auto

declare skip_while.simps [simp del]

lemma skip_while_ge: "i \<le> skip_while eq str ch n i"
  by (induction eq str ch n i rule: skip_while.induct) (subst skip_while.simps, auto)

function split_loop :: "std_string \<Rightarrow> u8 list \<Rightarrow> u8 \<Rightarrow> nat \<Rightarrow> std_string list \<Rightarrow> std_string list option" where
  "split_loop s str ch i parts =
     (if i < unat (ss_len s)
      then (let start = skip_while True str ch (unat (ss_len s)) i in
            if start = unat (ss_len s) then Some parts
            else let i' = skip_while False str ch (unat (ss_len s)) start in
              if i' > start
              then do { p \<leftarrow> substr s (of_nat start) (of_nat (i' - start)); split_loop s str ch i' (parts @ [p]) }
              else None)
      else Some parts)"
  by pat_completeness auto
termination
proof (relation "measure (\<lambda>(s, _, _, i, _). unat (ss_len s) - i)", goal_cases)
  case (2 s str ch i parts start i' p)
  have "i \<le> start" using 2(2) skip_while_ge by simp
  then show ?case using 2 by auto
qed simp

declare split_loop.simps [simp del]

definition str_split :: "std_string \<Rightarrow> u8 \<Rightarrow> std_string list option" where
  "str_split instr ch =
     (case ss_str instr of
        None \<Rightarrow> (if ss_len instr = 0 then Some [] else None)
      | Some str \<Rightarrow> split_loop instr str ch 0 [])"

section \<open>Digits\<close>

function digits :: "nat \<Rightarrow> nat \<Rightarrow> u8 list" where
  "digits b n = (if n = 0 \<or> b < 2 then [] else digits b (n div b) @ [s_numbers ! (n mod b)])"
  by pat_completeness auto
termination by (relation "measure snd") auto

declare digits.simps [simp del]

lemma digits_0 [simp]: "digits b 0 = []"
  by (simp add: digits.simps)

lemma digits_step: "n \<noteq> 0 \<Longrightarrow> 2 \<le> b \<Longrightarrow> digits b n = digits b (n div b) @ [s_numbers ! (n mod b)]"
  by (subst digits.simps) simp

lemma digits_length: "n < b ^ k \<Longrightarrow> 2 \<le> b \<Longrightarrow> length (digits b n) \<le> k"
proof (induction k arbitrary: n)
  case (Suc k)
  then show ?case
    by (cases "n = 0") (auto simp: digits_step less_mult_imp_div_less mult.commute)
qed (simp)

lemma put_digits_eq:
  fixes number :: "'a::len word"
  assumes "2 \<le> unat base" and "unat number < unat base ^ i" and "i \<le> length tmp"
  shows "put_digits number base i tmp =
    (i - length (digits (unat base) (unat number)),
     take (i - length (digits (unat base) (unat number))) tmp @ digits (unat base) (unat number) @ drop i tmp)"
  using assms(2,3)
proof (induction i arbitrary: number tmp)
  case (Suc i)
  let ?b = "unat base"
  show ?case
  proof (cases "number = 0")
    case False
    then have nz: "unat number \<noteq> 0" by (simp add: unat_eq_0)
    let ?ds = "digits ?b (unat number div ?b)"
    have lt: "unat (number div base) < ?b ^ i"
      using Suc.prems(1) by (simp add: unat_div less_mult_imp_div_less mult.commute)
    have "length ?ds \<le> i" using lt assms(1) by (intro digits_length) (simp_all add: unat_div)
    moreover have "put_digits number base (Suc i) tmp =
      put_digits (number div base) base i (tmp[i := s_numbers ! (unat number mod ?b)])"
      using False by (simp add: unat_mod)
    ultimately show ?thesis
      using Suc.IH [OF lt, of "tmp[i := s_numbers ! (unat number mod ?b)]"] Suc.prems(2)
      by (simp add: unat_div digits_step [OF nz assms(1)] Cons_nth_drop_Suc [symmetric] Suc_diff_le)
  qed simp
qed (simp)

lemma s_numbers_code: "s_numbers = [0x30,0x31,0x32,0x33,0x34,0x35,0x36,0x37,0x38,0x39,0x61,0x62,0x63,0x64,0x65,0x66]"
  by (simp add: s_numbers_def b8_def of_char_def)

lemma less_10: "(k::nat) < 10 \<Longrightarrow> k \<in> {0, 1, 2, 3, 4, 5, 6, 7, 8, 9}"
  by auto

lemma s_numbers_nz: "k < 16 \<Longrightarrow> s_numbers ! k \<noteq> 0"
proof -
  have "\<forall>c \<in> set s_numbers. c \<noteq> 0" "length s_numbers = 16" unfolding s_numbers_code by simp_all
  then show "k < 16 \<Longrightarrow> s_numbers ! k \<noteq> 0" by (metis nth_mem)
qed

lemma digits_nz: "2 \<le> b \<Longrightarrow> b \<le> 16 \<Longrightarrow> 0 \<notin> set (digits b n)"
proof (induction n rule: less_induct)
  case (less n)
  have "n mod b < b" using less.prems by simp
  then have "n mod b < 16" using less.prems by linarith
  then have "s_numbers ! (n mod b) \<noteq> 0" by (rule s_numbers_nz)
  moreover have "n \<noteq> 0 \<Longrightarrow> 0 \<notin> set (digits b (n div b))"
    using less by simp
  ultimately show ?case using less.prems by (cases "n = 0") (auto simp: digits_step)
qed

lemma strlen_append: "0 \<notin> set xs \<Longrightarrow> strlen (xs @ 0 # ys) = Some (length xs)"
  by (induction xs) auto

lemma digits_nonempty: "n \<noteq> 0 \<Longrightarrow> 2 \<le> b \<Longrightarrow> digits b n \<noteq> []"
  by (simp add: digits_step)

lemma atoll_append:
  "\<forall>c \<in> set xs. char_is_num c \<Longrightarrow> atoll_loop r (xs @ ys) = atoll_loop (atoll_loop r xs) ys"
  by (induction xs arbitrary: r) (auto simp: char_is_num_def)

lemma digit_is_num: "k < 10 \<Longrightarrow> char_is_num (s_numbers ! k)"
  by (drule less_10) (auto simp: s_numbers_code char_is_num_def)

lemma digit_val: "k < 10 \<Longrightarrow> ucast (s_numbers ! k) - 0x30 = (of_nat k :: u64)"
  by (drule less_10) (auto simp: s_numbers_code)

lemma atoll_digits: "atoll_loop 0 (digits 10 n) = of_nat n \<and> (\<forall>c \<in> set (digits 10 n). char_is_num c)"
proof (induction n rule: less_induct)
  case (less n)
  show ?case
  proof (cases "n = 0")
    case False
    then have IH: "atoll_loop 0 (digits 10 (n div 10)) = of_nat (n div 10)"
       "\<forall>c \<in> set (digits 10 (n div 10)). char_is_num c" using less [of "n div 10"] by auto
    have d: "char_is_num (s_numbers ! (n mod 10))" "ucast (s_numbers ! (n mod 10)) - 0x30 = (of_nat (n mod 10) :: u64)"
      by (auto intro: digit_is_num digit_val)
    have "(of_nat (n div 10) * 10 + of_nat (n mod 10) :: u64) = of_nat (n div 10 * 10 + n mod 10)"
      by (simp only: of_nat_add of_nat_mult of_nat_numeral)
    then have e: "(of_nat (n div 10) * 10 + of_nat (n mod 10) :: u64) = of_nat n" by simp
    show ?thesis
      using IH d False by (simp add: digits_step atoll_append e) (simp add: char_is_num_def)
  qed (simp)
qed


text \<open>The text of a number, sign included; \<open>ABS\<close> of an unsigned value leaves it as it is.\<close>

definition num_text :: "bool \<Rightarrow> nat \<Rightarrow> nat \<Rightarrow> u8 list" where
  "num_text neg b n = (if n = 0 then [0x30] else (if neg then [0x2D] else []) @ digits b n)"

lemma drop_sign: "drop k ((replicate (Suc k) x @ ys)[k := z]) = z # ys"
  by (induction k) auto

lemma sprintf_num_text:
  fixes num :: "'a::len word"
  assumes b: "2 \<le> b" "b \<le> 16" "16 < (2::nat) ^ LENGTH('a)"
    and room: "unat num < b ^ (N - 1 - (if neg then 1 else 0))" "3 \<le> N" "N \<le> sz" "sz \<le> length buf"
  shows "\<exists>buf'. sprintf_num N neg (Some buf) sz num (int b) = Some (length (num_text neg b (unat num)) + 1, Some buf')
    \<and> take (length (num_text neg b (unat num))) buf' = num_text neg b (unat num)
    \<and> length buf' = length buf \<and> length (num_text neg b (unat num)) < N
    \<and> drop (length (num_text neg b (unat num)) + 1) buf' = drop (length (num_text neg b (unat num)) + 1) buf"
proof (cases "num = 0")
  case True
  with assms show ?thesis by (simp add: sprintf_num_def num_text_def wr_bytes_def)
next
  case False
  let ?ds = "digits b (unat num)" and ?i = "N - 1 - length (digits b (unat num))"
  have w: "unat (word_of_int (int b) :: 'a word) = b"
    using b by (simp add: unsigned_of_nat take_bit_nat_eq_self)
  have l: "length ?ds \<le> N - 1 - (if neg then 1 else 0)" using room b by (intro digits_length) auto
  have "b ^ (N - 1 - (if neg then 1 else 0)) \<le> b ^ (N - 1)" using b by (intro power_increasing) auto
  then have "unat num < b ^ (N - 1)" using room(1) by (rule less_le_trans [rotated])
  then have pd: "put_digits num (word_of_int (int b)) (N - 1) (replicate N 0) =
      (?i, replicate ?i 0 @ ?ds @ [0])"
    using put_digits_eq [of "word_of_int (int b)" num "N - 1" "replicate N 0"] w b room by simp
  have nz: "0 \<notin> set ?ds" using b(1,2) by (rule digits_nz)
  have ne: "unat num \<noteq> 0" using False by (simp add: unat_eq_0)
  show ?thesis
  proof (cases neg)
    case False
    with pd nz ne \<open>num \<noteq> 0\<close> l room b show ?thesis
      by (auto simp: sprintf_num_def num_text_def wr_bytes_def strlen_append)
  next
    case True
    obtain k where k: "?i = Suc k" using l room True by (cases ?i) auto
    show ?thesis using True pd nz ne \<open>num \<noteq> 0\<close> l room b drop_sign [of k "0::u8" "?ds @ [0]" "0x2D"] k
      by (auto simp: sprintf_num_def num_text_def wr_bytes_def strlen_append simp del: replicate.simps)
  qed
qed


text \<open>
  Printing and reading back a 64-bit number: \<open>sprintf\<close> of any \<open>u64\<close> in base 10, into a buffer of
  the 21 bytes it asks for, succeeds and writes at most 20 digits, which \<open>atoll\<close> reads back as the
  same number; the result counts the digits and one terminator, and no byte after those changes.
\<close>

theorem sprintf_u64_roundtrip:
  assumes "21 \<le> sz" and "sz \<le> length buf"
  shows "\<exists>n buf'. sprintf_u64 (Some buf) sz num 10 = Some (n, Some buf') \<and> 2 \<le> n \<and> n \<le> 21 \<and>
    atoll (take (n - 1) buf') = num \<and> length buf' = length buf \<and> drop n buf' = drop n buf"
proof -
  let ?t = "num_text False 10 (unat num)"
  from sprintf_num_text [of 10 num 21 False sz buf] assms unat_u64_less [of num] obtain buf' where
    b: "sprintf_u64 (Some buf) sz num 10 = Some (length ?t + 1, Some buf')" "take (length ?t) buf' = ?t"
      "length buf' = length buf" "length ?t < 21" "drop (length ?t + 1) buf' = drop (length ?t + 1) buf"
    by (auto simp: sprintf_u64_def)
  have "atoll ?t = num"
    using atoll_digits [of "unat num"] by (simp add: num_text_def atoll_def unat_eq_0)
  moreover have "?t \<noteq> []" by (simp add: num_text_def digits_nonempty)
  ultimately show ?thesis using b by (intro exI [of _ "length ?t + 1"] exI [of _ buf'])
    (auto simp: Suc_le_eq)
qed


theorem sprintf_u64_roundtrip_witness:
  "\<exists>n buf'. sprintf_u64 (Some (replicate 21 0)) 21 18446744073709551615 10 = Some (n, Some buf') \<and>
     atoll (take (n - 1) buf') = 18446744073709551615"
  using sprintf_u64_roundtrip [of 21 "replicate 21 0" 18446744073709551615] by auto

section \<open>The format interpreter stays in its buffer\<close>

text \<open>What a format and its arguments stand for, without a buffer.\<close>

function render :: "u8 list \<Rightarrow> fmt_arg list \<Rightarrow> u8 list option" where
  "render [] args = Some []"
| "render (ch # cs) args =
     (if ch = 0x25
      then (case cs of
              [] \<Rightarrow> Some [0x25]
            | ch2 # r \<Rightarrow>
                do { (bs, args') \<leftarrow> conv_bytes (fst (parse_conv ch2 r)) args;
                     t \<leftarrow> render (snd (parse_conv ch2 r)) args';
                     Some (bs @ t) })
      else do { t \<leftarrow> render cs args; Some (ch # t) })"
  by pat_completeness auto
termination
  by (relation "measure (\<lambda>(cs, _). length cs)")
    (auto intro: le_less_trans [OF parse_conv_length])

text \<open>\<open>writes\<close>: the state after a step of the loop that had \<open>out\<close> to print.\<close>

definition writes :: "u64 \<Rightarrow> u8 list \<Rightarrow> u8 list \<times> u64 \<Rightarrow> u8 list \<times> u64 \<Rightarrow> bool" where
  "writes sz out st st' \<longleftrightarrow>
     length (fst st') = length (fst st) \<and> snd st \<le> snd st' \<and> snd st' < sz \<and>
     take (unat (snd st)) (fst st') = take (unat (snd st)) (fst st) \<and>
     drop (unat (snd st')) (fst st') = drop (unat (snd st')) (fst st) \<and>
     (unat (snd st) + length out < unat sz \<longrightarrow>
        unat (snd st') = unat (snd st) + length out \<and>
        take (unat (snd st')) (fst st') = take (unat (snd st)) (fst st) @ out)"

definition fmt_room :: "u64 \<Rightarrow> u8 list \<times> u64 \<Rightarrow> bool" where
  "fmt_room sz st \<longleftrightarrow> snd st < sz \<and> unat sz \<le> length (fst st) \<and> unat sz \<le> 2 ^ 63"

lemma writes_refl: "fmt_room sz st \<Longrightarrow> unat sz \<le> unat (snd st) + length out \<or> out = [] \<Longrightarrow> writes sz out st st"
  by (auto simp: writes_def fmt_room_def)

lemma writes_room: "writes sz out st st' \<Longrightarrow> fmt_room sz st \<Longrightarrow> fmt_room sz st'"
  by (simp add: writes_def fmt_room_def)

lemma writes_trans:
  assumes "writes sz t1 st st1" and "writes sz t2 st1 st2"
  shows "writes sz (t1 @ t2) st st2"
proof -
  have 1: "unat (snd st) \<le> unat (snd st1)" "unat (snd st1) \<le> unat (snd st2)" "snd st2 < sz"
     "length (fst st2) = length (fst st)"
    using assms by (simp_all add: writes_def word_le_nat_alt)
  have p: "take (unat (snd st1)) (fst st2) = take (unat (snd st1)) (fst st1)"
     "take (unat (snd st)) (fst st1) = take (unat (snd st)) (fst st)"
     "drop (unat (snd st2)) (fst st2) = drop (unat (snd st2)) (fst st1)"
     "drop (unat (snd st1)) (fst st1) = drop (unat (snd st1)) (fst st)"
    using assms by (simp_all add: writes_def)
  have 2: "take (unat (snd st)) (fst st2) = take (unat (snd st)) (fst st)"
    using arg_cong [OF p(1), of "take (unat (snd st))"] 1 p(2) by (simp add: min_absorb1)
  have 3: "drop (unat (snd st2)) (fst st2) = drop (unat (snd st2)) (fst st)"
    using arg_cong [OF p(4), of "drop (unat (snd st2) - unat (snd st1))"] 1 p(3) by simp
  have 4: "unat (snd st2) = unat (snd st) + length (t1 @ t2) \<and>
      take (unat (snd st2)) (fst st2) = take (unat (snd st)) (fst st) @ t1 @ t2"
    if r: "unat (snd st) + length (t1 @ t2) < unat sz"
  proof -
    have a: "unat (snd st1) = unat (snd st) + length t1" "take (unat (snd st1)) (fst st1) = take (unat (snd st)) (fst st) @ t1"
      using assms(1) r unfolding writes_def by auto
    then have b: "unat (snd st2) = unat (snd st1) + length t2" "take (unat (snd st2)) (fst st2) = take (unat (snd st1)) (fst st1) @ t2"
      using assms(2) r unfolding writes_def by auto
    show ?thesis unfolding b(2) a(2) using a(1) b(1) by simp
  qed
  show ?thesis unfolding writes_def word_le_nat_alt using 1 2 3 4 order_trans [OF 1(1,2)] by blast
qed

lemma emit_writes:
  assumes "fmt_room sz st" and "length bs < 2 ^ 63"
  shows "\<exists>st'. emit sz bs st = Some st' \<and> writes sz bs st st'"
proof -
  obtain buf len where st: "st = (buf, len)" by (cases st)
  have r: "unat len < unat sz" "unat sz \<le> length buf" "unat sz \<le> 2 ^ 63"
    using assms(1) by (simp_all add: st fmt_room_def word_less_nat_alt)
  have b: "unat (of_nat (length bs) :: u64) = length bs"
    using assms(2) by (simp add: unsigned_of_nat take_bit_nat_eq_self)
  have s: "unat (len + of_nat (length bs)) = unat len + length bs"
    using r assms(2) b by (subst unat_plus_no_wrap) auto
  show ?thesis
  proof (cases "unat len + length bs < unat sz")
    case True
    then show ?thesis using r s
      by (simp add: st emit_def STR_CHECK_BUFF_def word_less_nat_alt wr_bytes_def writes_def word_le_nat_alt)
  next
    case False
    then show ?thesis using r s writes_refl [OF assms(1)]
      by (simp add: st emit_def STR_CHECK_BUFF_def word_less_nat_alt)
  qed
qed

lemma fmt_loop_writes:
  assumes "render fmt args = Some out" and "fmt_room sz st" and "length out < 2 ^ 63"
  shows "\<exists>st'. fmt_loop sz fmt args st = Some st' \<and> writes sz out st st'"
  using assms
proof (induction sz fmt args st arbitrary: out rule: fmt_loop.induct)
  case (1 sz args st)
  then show ?case by (simp add: writes_refl)
next
  case (2 sz ch cs args st)
  show ?case
  proof (cases "ch = 0x25")
    case True
    show ?thesis
    proof (cases cs)
      case Nil
      then have "out = [0x25]" using 2(3) True by simp
      then show ?thesis using Nil True emit_writes [OF 2(4), of "[0x25]"] by (simp del: split_paired_Ex)
    next
      case (Cons ch2 r)
      obtain bs args' t where c: "conv_bytes (fst (parse_conv ch2 r)) args = Some (bs, args')"
        "render (snd (parse_conv ch2 r)) args' = Some t" "out = bs @ t"
        using 2(3) True Cons by (auto split: Option.bind_splits)
      obtain st1 where e: "emit sz bs st = Some st1" "writes sz bs st st1"
        using emit_writes [OF 2(4), of bs] 2(5) c(3) by auto
      obtain st2 where "fmt_loop sz (snd (parse_conv ch2 r)) args' st1 = Some st2" "writes sz t st1 st2"
        using 2(1) [OF True Cons c(1) refl e(1) c(2) writes_room [OF e(2) 2(4)]] 2(5) c(3) by auto
      then show ?thesis using True Cons c e writes_trans [OF e(2), of t st2] by simp
    qed
  next
    case False
    obtain t where t: "render cs args = Some t" "out = ch # t"
      using 2(3) False by (auto split: Option.bind_splits)
    obtain st1 where e: "emit sz [ch] st = Some st1" "writes sz [ch] st st1"
      using emit_writes [OF 2(4), of "[ch]"] by auto
    show ?thesis
    proof (cases "STR_CHECK_BUFF (snd st) sz 1")
      case True
      obtain st2 where "fmt_loop sz cs args st1 = Some st2" "writes sz t st1 st2"
        using 2(2) [OF False _ e(1) t(1) writes_room [OF e(2) 2(4)]] True 2(5) t(2) by auto
      then show ?thesis using False True t e writes_trans [OF e(2), of t st2] by simp
    next
      case no: False
      have "snd st < sz" using 2(4) by (simp add: fmt_room_def)
      then have "unat (snd st + 1) = unat (snd st) + 1"
        using 2(4) by (subst unat_plus_no_wrap) (auto simp: fmt_room_def word_less_nat_alt)
      then have "unat sz \<le> unat (snd st) + length out"
        using no t(2) by (simp add: STR_CHECK_BUFF_def word_less_nat_alt)
      then show ?thesis using False no writes_refl [OF 2(4)] by simp
    qed
  qed
qed


lemma sprintf_fmt_writes:
  assumes "render fmt args = Some out" and "length out < 2 ^ 63"
    and "0 < sz" and "unat sz \<le> length buf" and "unat sz \<le> 2 ^ 63"
  shows "\<exists>n buf'. sprintf_fmt buf sz fmt args = Some (n, buf') \<and> 0 < n \<and> n \<le> sz \<and> length buf' = length buf \<and>
    buf' ! unat (n - 1) = 0 \<and> drop (unat n) buf' = drop (unat n) buf \<and>
    (length out < unat sz \<longrightarrow> take (unat (n - 1)) buf' = out \<and> unat n = length out + 1)"
proof -
  have room: "fmt_room sz (buf, 0)" using assms by (simp add: fmt_room_def)
  obtain b len where l: "fmt_loop sz fmt args (buf, 0) = Some (b, len)" "writes sz out (buf, 0) (b, len)"
    using fmt_loop_writes [OF assms(1) room assms(2)] by auto
  have w: "length b = length buf" "len < sz" "drop (unat len) b = drop (unat len) buf"
    "length out < unat sz \<longrightarrow> unat len = length out \<and> take (unat len) b = out"
    using l(2) by (auto simp: writes_def)
  have u: "unat len < unat sz" using w(2) by (simp add: word_less_nat_alt)
  then have s: "unat (len + 1) = Suc (unat len)" using assms(5) by (subst unat_plus_no_wrap) auto
  have "drop (Suc (unat len)) b = drop (Suc (unat len)) buf"
    using arg_cong [OF w(3), of "drop 1"] by simp
  moreover have "0 < len + 1" "len + 1 \<le> sz" using s u by (auto simp: word_less_nat_alt word_le_nat_alt)
  moreover have "sprintf_fmt buf sz fmt args = Some (len + 1, b[unat len := 0])"
    using l(1) u w(1) assms(4) by (simp add: sprintf_fmt_def wr8_def)
  ultimately show ?thesis using w s u assms(4)
    by (intro exI [of _ "len + 1"] exI [of _ "b[unat len := 0]"]) auto
qed




section \<open>\<open>std::string\<close> as a byte list\<close>

text \<open>\<open>is_str s cs\<close>: the object \<open>s\<close> represents the text \<open>cs\<close>.\<close>

definition is_str :: "std_string \<Rightarrow> u8 list \<Rightarrow> bool" where
  "is_str s cs \<longleftrightarrow> 0 \<notin> set cs \<and> length cs < 2 ^ 63 \<and> unat (ss_len s) = length cs \<and>
     (ss_str s = Some (cs @ [0]) \<or> ss_str s = None \<and> cs = [])"

lemma unat_small: "n < 2 ^ 63 \<Longrightarrow> unat (of_nat n :: u64) = n"
  by (simp add: unsigned_of_nat take_bit_nat_eq_self)

lemma drop_zeros: "drop n (x # replicate n x) = [x]" "drop (m + n) (x # replicate (n + m) x) = [x]"
  by (simp_all add: replicate_append_same [symmetric])

lemma is_str_len: "is_str s cs \<Longrightarrow> ss_len s = of_nat (length cs)"
  by (simp add: is_str_def word_unat_eq_iff unat_small)

lemma is_str_new: "is_str string_new []"
  by (simp add: is_str_def string_new_def)

lemma is_str_c_str: "is_str s cs \<Longrightarrow> \<exists>p. c_str s = Some p \<and> cstr_bytes p = cs \<and> (p = None \<longrightarrow> ss_str s = None)"
  using strlen_append [of cs "[]"] by (auto simp: is_str_def c_str_def cstr_bytes_def split: option.splits)

lemma assign_cstr_str:
  "0 \<notin> set (cstr_bytes p) \<Longrightarrow> length (cstr_bytes p) < 2 ^ 63 \<Longrightarrow>
   \<exists>r. assign_cstr p = Some r \<and> is_str r (cstr_bytes p)"
  by (simp add: assign_cstr_def wr_bytes_def is_str_def unat_small Let_def drop_zeros)

lemma assign_char_str: "ch \<noteq> 0 \<Longrightarrow> is_str (assign_char ch) [ch]"
  by (simp add: assign_char_def is_str_def)

lemma assign_string_str:
  assumes "is_str t b" and "\<And>n. length (raw n) = n"
  shows "\<exists>r. assign_string raw t = Some r \<and> is_str r b"
proof -
  obtain p where p: "c_str t = Some p" "cstr_bytes p = b" using is_str_c_str [OF assms(1)] by auto
  have l: "unat (ss_len t) = length b" "0 \<notin> set b" "length b < 2 ^ 63" using assms(1) by (simp_all add: is_str_def)
  have "length (drop (length b) (raw (Suc (length b)))) = 1" using assms(2) by simp
  then obtain x where x: "drop (length b) (raw (Suc (length b))) = [x]" by (auto simp: length_Suc_conv simp del: length_drop)
  show ?thesis using p l assms(2)
    by (simp add: assign_string_def strncpy_def wr_bytes_def wr8_def is_str_def x)
qed

lemma append_cstr_str:
  assumes "is_str s a" and "0 \<notin> set (cstr_bytes p)" and "length a + length (cstr_bytes p) < 2 ^ 63"
  shows "\<exists>r. append_cstr s p = Some r \<and> is_str r (a @ cstr_bytes p)"
proof -
  let ?b = "cstr_bytes p"
  have l: "unat (ss_len s) = length a" "0 \<notin> set a" using assms(1) by (simp_all add: is_str_def)
  have n: "unat (ss_len s + of_nat (length ?b)) = length a + length ?b"
    using assms(3) l by (subst unat_plus_no_wrap) (simp_all add: unat_small)
  have old: "(if ss_len s = 0 then Some [] else ss_str s \<bind> (\<lambda>b. rd_bytes b 0 (unat (ss_len s)))) = Some a"
  proof (cases "a = []")
    case True
    then show ?thesis using l by (simp add: unat_eq_0)
  next
    case False
    then show ?thesis using assms(1) by (auto simp: is_str_def rd_bytes_def)
  qed
  have "ss_len s = of_nat (length a)" using assms(1) by (rule is_str_len)
  show ?thesis unfolding append_cstr_def Let_def old
    using n l assms(2,3) by (simp add: wr_bytes_def is_str_def drop_zeros)
qed

lemma append_string_str:
  assumes "is_str s a" "is_str t b" "length a + length b < 2 ^ 63"
  shows "\<exists>r. append_string s t = Some r \<and> is_str r (a @ b)"
proof -
  obtain p where p: "c_str t = Some p" "cstr_bytes p = b" using is_str_c_str [OF assms(2)] by auto
  have "0 \<notin> set b" using assms(2) by (simp add: is_str_def)
  with append_cstr_str [OF assms(1), of p] p assms(3) show ?thesis by (simp add: append_string_def)
qed

lemma plus_string_str:
  assumes "is_str s a" "is_str t b" "length a + length b < 2 ^ 63"
  shows "\<exists>r. plus_string s t = Some r \<and> is_str r (a @ b)"
proof -
  obtain p where p: "c_str s = Some p" "cstr_bytes p = a" using is_str_c_str [OF assms(1)] by auto
  have "0 \<notin> set a" "length a < 2 ^ 63" using assms(1) by (simp_all add: is_str_def)
  then obtain n where "assign_cstr p = Some n" "is_str n a" using assign_cstr_str [of p] p by auto
  with append_string_str [OF _ assms(2,3)] p show ?thesis by (simp add: plus_string_def)
qed

lemma take_no_zero: "0 \<notin> set cs \<Longrightarrow> 0 \<notin> set (take n (drop m cs))"
  by (meson in_set_dropD in_set_takeD)

lemma substr_str:
  assumes "is_str s a" and "count = npos \<or> unat pos + unat count < 2 ^ 64"
  shows "\<exists>r. substr s pos count = Some r \<and> is_str r (take (unat count) (drop (unat pos) a))"
proof (cases "ss_len s \<le> pos")
  case True
  then have "length a \<le> unat pos" using assms(1) by (simp add: is_str_def word_le_nat_alt)
  with True show ?thesis by (simp add: substr_def is_str_new)
next
  case False
  have l: "unat (ss_len s) = length a" "0 \<notin> set a" "length a < 2 ^ 63" using assms(1) by (simp_all add: is_str_def)
  have p: "unat pos < length a" using False l by (simp add: word_le_nat_alt)
  then have b: "ss_str s = Some (a @ [0])" using assms(1) by (auto simp: is_str_def)
  define c where "c = (if pos + count > ss_len s \<or> count = npos then ss_len s - pos else count)"
  have "unat (ss_len s - pos) = length a - unat pos" using False l by (subst unat_minus_no_wrap) simp_all
  moreover have "unat npos = 2 ^ 64 - 1" by (simp add: npos_def unsigned_minus_1_eq_mask mask_eq_exp_minus_1)
  moreover have "count \<noteq> npos \<Longrightarrow> unat (pos + count) = unat pos + unat count"
    using assms(2) by (subst unat_plus_no_wrap) auto
  ultimately have c: "unat c = min (unat count) (length a - unat pos)"
    using l p by (cases "count = npos") (auto simp: c_def word_less_nat_alt)
  have t: "take (unat c) (drop (unat pos) (a @ [0])) = take (unat count) (drop (unat pos) a)"
    using p c by (simp add: min_def)
  let ?t = "take (unat count) (drop (unat pos) a)"
  have z: "0 \<notin> set ?t" using l(2) by (rule take_no_zero)
  have "length ?t < 2 ^ 63" using l(3) by simp
  with z obtain r where "assign_cstr (Some ?t) = Some r" "is_str r ?t"
    using assign_cstr_str [of "Some ?t"] by (auto simp: cstr_bytes_def)
  moreover have "unat pos + unat c \<le> length (a @ [0])" using p c by simp
  then have "rd_bytes (a @ [0]) (unat pos) (unat c) = Some ?t" by (simp only: rd_bytes_def if_True t)
  then have "substr s pos count = assign_cstr (Some ?t)"
    using False b strlen_append [OF z, of "[]"] unfolding substr_def c_def [symmetric] Let_def
    by (simp del: length_take length_drop take_take)
  ultimately show ?thesis by simp
qed


text \<open>\<open>occurs a b i\<close>: the text \<open>b\<close> stands in \<open>a\<close> at position \<open>i\<close>.\<close>

definition occurs :: "u8 list \<Rightarrow> u8 list \<Rightarrow> nat \<Rightarrow> bool" where
  "occurs a b i \<longleftrightarrow> i + length b \<le> length a \<and> take (length b) (drop i a) = b"

lemma match_at_eq:
  "i + j + n < length b \<Longrightarrow> j + n < length t \<Longrightarrow>
   match_at b i t j n = Some (take n (drop (i + j) b) = take n (drop j t))"
proof (induction n arbitrary: j)
  case (Suc n)
  have "drop (i + j) b = b ! (i + j) # drop (i + Suc j) b" "drop j t = t ! j # drop (Suc j) t"
    using Suc.prems by (simp_all add: Cons_nth_drop_Suc)
  with Suc.IH [of "Suc j"] Suc.prems show ?case by (simp add: rd8_def)
qed simp

lemma find_loop_first:
  assumes "i + n = Suc (length a - length t)" and "length t \<le> length a" and "length a < 2 ^ 63"
  shows "\<exists>r. find_loop (a @ [0]) (t @ [0]) (length t) i n = Some r \<and>
    (r = npos \<and> (\<forall>k \<ge> i. \<not> occurs a t k) \<or>
     i \<le> unat r \<and> occurs a t (unat r) \<and> (\<forall>k. i \<le> k \<and> k < unat r \<longrightarrow> \<not> occurs a t k))"
  using assms(1)
proof (induction n arbitrary: i)
  case 0
  then show ?case by (auto simp: occurs_def)
next
  case (Suc n)
  have le: "i + length t \<le> length a" using Suc.prems assms(2) by arith
  have m: "match_at (a @ [0]) i (t @ [0]) 0 (length t) = Some (occurs a t i)"
    using le by (subst match_at_eq) (auto simp: occurs_def)
  show ?case
  proof (cases "occurs a t i")
    case True
    have "unat (of_nat i :: u64) = i" using le assms(3) by (intro unat_small) simp
    with True m show ?thesis by auto
  next
    case False
    have e: "find_loop (a @ [0]) (t @ [0]) (length t) i (Suc n) = find_loop (a @ [0]) (t @ [0]) (length t) (Suc i) n"
      using m False by simp
    obtain r where r: "find_loop (a @ [0]) (t @ [0]) (length t) (Suc i) n = Some r"
      "r = npos \<and> (\<forall>k \<ge> Suc i. \<not> occurs a t k) \<or>
       Suc i \<le> unat r \<and> occurs a t (unat r) \<and> (\<forall>k. Suc i \<le> k \<and> k < unat r \<longrightarrow> \<not> occurs a t k)"
      using Suc.IH [of "Suc i"] Suc.prems by auto
    have "\<not> occurs a t k" if "Suc i \<le> k \<longrightarrow> \<not> occurs a t k" "i \<le> k" for k
      using that False by (cases "k = i") auto
    with r show ?thesis unfolding e by auto
  qed
qed

lemma occurs_empty: "occurs a [] k \<longleftrightarrow> k \<le> length a"
  by (simp add: occurs_def)

lemma string_find_first:
  assumes "is_str s a" and "is_str t b" and "ss_str s \<noteq> None"
  shows "\<exists>r. string_find s t start = Some r \<and>
    (r = npos \<and> (\<forall>k \<ge> unat start. \<not> occurs a b k) \<or>
     unat start \<le> unat r \<and> occurs a b (unat r) \<and> (\<forall>k. unat start \<le> k \<and> k < unat r \<longrightarrow> \<not> occurs a b k))"
proof -
  have l: "unat (ss_len s) = length a" "unat (ss_len t) = length b" "length a < 2 ^ 63"
    and sa: "ss_str s = Some (a @ [0])"
    using assms by (auto simp: is_str_def)
  show ?thesis
  proof (cases "b = []")
    case True
    then have "string_find s t start = Some (if start \<le> ss_len s then start else npos)"
      using sa l by (simp add: string_find_def unat_eq_0 split: option.splits)
    with True l show ?thesis by (auto simp: occurs_empty word_le_nat_alt)
  next
    case False
    then have tb: "ss_str t = Some (b @ [0])" "ss_len t \<noteq> 0" using assms(2) l by (auto simp: is_str_def)
    show ?thesis
    proof (cases "ss_len t > ss_len s \<or> start \<ge> ss_len s")
      case True
      then have "\<not> occurs a b k" if "unat start \<le> k" for k
        using that l False by (auto simp: occurs_def word_less_nat_alt word_le_nat_alt)
      with True sa tb show ?thesis by (simp add: string_find_def)
    next
      case in_range: False
      then have le: "length b \<le> length a" "unat start < length a"
        using l by (simp_all add: word_less_nat_alt word_le_nat_alt)
      have d: "unat (ss_len s - ss_len t) = length a - length b"
        using in_range l by (subst unat_minus_no_wrap) auto
      have f: "string_find s t start = find_loop (a @ [0]) (b @ [0]) (length b) (unat start)
          (Suc (length a - length b) - unat start)"
        using sa tb in_range l d by (simp add: string_find_def)
      show ?thesis
      proof (cases "unat start \<le> Suc (length a - length b)")
        case True
        with find_loop_first [OF _ le(1) l(3), of "unat start"] show ?thesis unfolding f by simp
      next
        case False
        then show ?thesis unfolding f by (auto simp: occurs_def)
      qed
    qed
  qed
qed

lemma last_of_eq:
  "n \<le> length b \<Longrightarrow> n < 2 ^ 63 \<Longrightarrow> \<exists>r. last_of b c n = Some r \<and>
    (r = npos \<and> c \<notin> set (take n b) \<or>
     unat r < n \<and> b ! unat r = c \<and> (\<forall>k. unat r < k \<and> k < n \<longrightarrow> b ! k \<noteq> c))"
proof (induction n)
  case (Suc n)
  then have t: "take (Suc n) b = take n b @ [b ! n]" by (simp add: take_Suc_conv_app_nth)
  show ?case
  proof (cases "b ! n = c")
    case True
    then show ?thesis using Suc.prems unat_small [of n] by (intro exI [of _ "of_nat n"]) (auto simp: rd8_def)
  next
    case False
    then show ?thesis using Suc t by (auto simp: rd8_def less_Suc_eq)
  qed
qed simp

lemma find_last_of_last:
  assumes "is_str s a"
  shows "\<exists>r. find_last_of s c = Some r \<and>
    (r = npos \<and> c \<notin> set a \<or>
     unat r < length a \<and> a ! unat r = c \<and> (\<forall>k. unat r < k \<and> k < length a \<longrightarrow> a ! k \<noteq> c))"
proof (cases "ss_len s = 0")
  case True
  then show ?thesis using assms by (simp add: find_last_of_def is_str_def)
next
  case False
  then have "ss_str s = Some (a @ [0])" "unat (ss_len s) = length a" "length a < 2 ^ 63"
    using assms by (auto simp: is_str_def unat_eq_0)
  then show ?thesis using last_of_eq [of "length a" "a @ [0]" c] False
    by (auto simp: find_last_of_def nth_append)
qed

lemma streq_eq: "0 \<notin> set a \<Longrightarrow> 0 \<notin> set b \<Longrightarrow> streq a b \<longleftrightarrow> a = b"
  by (induction a b rule: streq.induct) auto

lemma string_eq_eq:
  assumes "is_str s a" "is_str t b" "ss_str s \<noteq> None" "ss_str t \<noteq> None"
  shows "string_eq s t = Some (a = b)"
proof -
  obtain p q where "c_str s = Some p" "cstr_bytes p = a" "p \<noteq> None" "c_str t = Some q" "cstr_bytes q = b" "q \<noteq> None"
    using is_str_c_str [OF assms(1)] is_str_c_str [OF assms(2)] assms(3,4) by auto
  moreover have "0 \<notin> set a" "0 \<notin> set b" using assms by (simp_all add: is_str_def)
  ultimately show ?thesis by (auto simp: string_eq_def cstr_bytes_def streq_eq)
qed

text \<open>A default-constructed string: comparing it reads through a null pointer, and searching in it
  reports every text at position 0.\<close>

lemma null_string_compare: "string_eq string_new t = None"
  by (simp add: string_eq_def string_new_def c_str_def split: bind_splits)

lemma null_string_find: "string_find string_new t 0 = Some 0"
  by (simp add: string_find_def string_new_def)



section \<open>Splitting at a separator\<close>

text \<open>The reference: all fields between separators, of which the code keeps the non-empty ones.\<close>

function fields :: "u8 \<Rightarrow> u8 list \<Rightarrow> u8 list list" where
  "fields ch xs = takeWhile (\<lambda>x. x \<noteq> ch) xs #
     (if dropWhile (\<lambda>x. x \<noteq> ch) xs = [] then [] else fields ch (tl (dropWhile (\<lambda>x. x \<noteq> ch) xs)))"
  by pat_completeness auto
termination
proof (relation "measure (\<lambda>(_, xs). length xs)", goal_cases)
  case (2 ch xs)
  have "length (dropWhile (\<lambda>x. x \<noteq> ch) xs) \<le> length xs" by (rule length_dropWhile_le)
  with 2 show ?case by (cases "dropWhile (\<lambda>x. x \<noteq> ch) xs") auto
qed simp

declare fields.simps [simp del]

definition parts_of :: "u8 \<Rightarrow> u8 list \<Rightarrow> u8 list list" where
  "parts_of ch xs = filter (\<lambda>p. p \<noteq> []) (fields ch xs)"

lemma parts_of_Nil [simp]: "parts_of ch [] = []"
  by (simp add: parts_of_def fields.simps)

lemma parts_of_sep [simp]: "parts_of ch (ch # xs) = parts_of ch xs"
  by (simp add: parts_of_def fields.simps [of ch "ch # xs"])

lemma parts_of_skip: "parts_of ch (dropWhile (\<lambda>x. x = ch) xs) = parts_of ch xs"
  by (induction xs) auto

lemma parts_of_part:
  assumes "xs \<noteq> []" and "hd xs \<noteq> ch"
  shows "parts_of ch xs = takeWhile (\<lambda>x. x \<noteq> ch) xs # parts_of ch (dropWhile (\<lambda>x. x \<noteq> ch) xs)"
proof (cases "dropWhile (\<lambda>x. x \<noteq> ch) xs")
  case Nil
  then have "fields ch xs = [takeWhile (\<lambda>x. x \<noteq> ch) xs]" by (subst fields.simps) simp
  moreover have "takeWhile (\<lambda>x. x \<noteq> ch) xs \<noteq> []" using assms by (cases xs) auto
  ultimately show ?thesis unfolding Nil by (simp add: parts_of_def [of ch xs])
next
  case (Cons y ys)
  then have "y = ch" by (metis (mono_tags) hd_dropWhile list.discI list.sel(1))
  then have "parts_of ch (dropWhile (\<lambda>x. x \<noteq> ch) xs) = parts_of ch ys" using Cons by simp
  moreover have "takeWhile (\<lambda>x. x \<noteq> ch) xs \<noteq> []" using assms by (cases xs) auto
  moreover have "fields ch xs = takeWhile (\<lambda>x. x \<noteq> ch) xs # fields ch ys"
    using Cons by (subst fields.simps) simp
  ultimately show ?thesis by (simp add: parts_of_def)
qed

lemma drop_takeWhile: "drop (i + length (takeWhile P (drop i a))) a = dropWhile P (drop i a)"
  by (subst add.commute) (simp add: dropWhile_eq_drop flip: drop_drop)

lemma skip_while_eq:
  "i \<le> length a \<Longrightarrow> skip_while eq (a @ [0]) ch (length a) i = i + length (takeWhile (\<lambda>x. (x = ch) = eq) (drop i a))"
proof (induction "length a - i" arbitrary: i)
  case 0
  then show ?case by (simp add: skip_while.simps)
next
  case (Suc n)
  then have "i < length a" by simp
  then have d: "drop i a = a ! i # drop (Suc i) a" by (simp add: Cons_nth_drop_Suc)
  have "skip_while eq (a @ [0]) ch (length a) (Suc i) = Suc i + length (takeWhile (\<lambda>x. (x = ch) = eq) (drop (Suc i) a))"
    using Suc by (intro Suc.hyps(1)) simp_all
  with \<open>i < length a\<close> show ?case
    by (subst skip_while.simps) (simp add: d nth_append)
qed

lemma split_loop_parts:
  assumes "is_str s a" and "ss_str s = Some (a @ [0])" and "i \<le> length a"
  shows "\<exists>ps. split_loop s (a @ [0]) ch i parts = Some (parts @ ps) \<and> list_all2 is_str ps (parts_of ch (drop i a))"
  using assms(3)
proof (induction "length a - i" arbitrary: i parts rule: less_induct)
  case less
  have len: "unat (ss_len s) = length a" "length a < 2 ^ 63" using assms(1) by (simp_all add: is_str_def)
  let ?start = "i + length (takeWhile (\<lambda>x. x = ch) (drop i a))"
  have st: "skip_while True (a @ [0]) ch (length a) i = ?start" using skip_while_eq [OF less(2), of True ch] by simp
  have ds: "drop ?start a = dropWhile (\<lambda>x. x = ch) (drop i a)" by (rule drop_takeWhile)
  have sle: "?start \<le> length a" using less(2) length_takeWhile_le [of "\<lambda>x. x = ch" "drop i a"] by simp
  show ?case
  proof (cases "?start = length a")
    case True
    then have "parts_of ch (drop i a) = []" using ds parts_of_skip [of ch "drop i a"] by simp
    then show ?thesis using True st len by (subst split_loop.simps) (simp add: Let_def)
  next
    case False
    let ?ys = "drop ?start a"
    let ?i' = "?start + length (takeWhile (\<lambda>x. x \<noteq> ch) ?ys)"
    have ys: "?ys \<noteq> []" using False sle by simp
    have hd: "hd ?ys \<noteq> ch" using ys unfolding ds by (metis (mono_tags) hd_dropWhile)
    have en: "skip_while False (a @ [0]) ch (length a) ?start = ?i'" using skip_while_eq [OF sle, of False ch] by simp
    have di: "drop ?i' a = dropWhile (\<lambda>x. x \<noteq> ch) ?ys" by (rule drop_takeWhile)
    have ne: "takeWhile (\<lambda>x. x \<noteq> ch) ?ys \<noteq> []" using ys hd by (cases ?ys) auto
    have ile: "?i' \<le> length a" using sle length_takeWhile_le [of "\<lambda>x. x \<noteq> ch" ?ys] by simp
    have lt: "i < length a" "?start < ?i'" "i < ?i'" using False sle ne by auto
    obtain p where p: "substr s (of_nat ?start) (of_nat (?i' - ?start)) = Some p"
      "is_str p (takeWhile (\<lambda>x. x \<noteq> ch) ?ys)"
    proof -
      have u: "unat (of_nat ?start :: u64) = ?start" "unat (of_nat (?i' - ?start) :: u64) = ?i' - ?start"
        using ile len(2) by (intro unat_small; linarith)+
      have "unat (of_nat ?start :: u64) + unat (of_nat (?i' - ?start) :: u64) < 2 ^ 64"
        unfolding u using ile len(2) by simp
      from substr_str [OF assms(1) disjI2 [OF this]] that show ?thesis
        unfolding u by (auto simp: takeWhile_eq_take [symmetric])
    qed
    obtain ps where ps: "split_loop s (a @ [0]) ch ?i' (parts @ [p]) = Some ((parts @ [p]) @ ps)"
      "list_all2 is_str ps (parts_of ch (drop ?i' a))"
      using less(1) [OF _ ile, of "parts @ [p]"] diff_less_mono2 [OF lt(3) lt(1)] by blast
    have "split_loop s (a @ [0]) ch i parts = Some (parts @ p # ps)"
      using lt st en p(1) ps(1) len False by (subst split_loop.simps) (simp add: Let_def)
    moreover have "parts_of ch (drop i a) = takeWhile (\<lambda>x. x \<noteq> ch) ?ys # parts_of ch (drop ?i' a)"
      using parts_of_part [OF ys hd] parts_of_skip [of ch "drop i a"] unfolding ds [symmetric] di by simp
    ultimately show ?thesis using p(2) ps(2) by auto
  qed
qed

lemma str_split_fields:
  assumes "is_str s a"
  shows "\<exists>ps. str_split s ch = Some ps \<and> list_all2 is_str ps (filter (\<lambda>p. p \<noteq> []) (fields ch a))"
proof (cases "ss_str s")
  case None
  then have "a = []" "ss_len s = 0" using assms by (auto simp: is_str_def unat_eq_0)
  with None show ?thesis by (simp add: str_split_def fields.simps)
next
  case (Some b)
  then have b: "b = a @ [0]" using assms by (auto simp: is_str_def)
  then show ?thesis using split_loop_parts [OF assms Some [unfolded b], of 0 ch "[]"] Some
    by (simp add: str_split_def parts_of_def)
qed

text \<open>
  C40. \<open>str_split\<close> ends, stays inside its string and yields exactly the non-empty fields between separators, in order.
\<close>

theorem str_split_parts:
  assumes "is_str s a"
  shows "\<exists>ps. str_split s ch = Some ps \<and> list_all2 is_str ps (filter (\<lambda>p. p \<noteq> []) (fields ch a))"
  using assms by (rule str_split_fields)

theorem str_split_parts_witness:
  "\<exists>s p q. str_split s 0x2F = Some [p, q] \<and> is_str p [0x61] \<and> is_str q [0x62, 0x63]"
proof -
  have "is_str \<lparr>ss_str = Some ([0x2F, 0x61, 0x2F, 0x2F, 0x62, 0x63, 0x2F] @ [0]), ss_len = 7\<rparr> [0x2F, 0x61, 0x2F, 0x2F, 0x62, 0x63, 0x2F]"
    by (simp add: is_str_def)
  from str_split_parts [OF this, where ch = "0x2F"] show ?thesis
    by (simp add: fields.simps list_all2_Cons2) blast
qed


end
