(* ===== verification/Net.thy ===== *)
theory Net
  imports Common Ring_Buffer Containers
begin

text \<open>
  The network controller and the link and internet layers:
  \<open>src/kernel/src/network/{nidm,ethernet,arp,ip,icmp}.cpp\<close>.

  An interface, a socket and a TCP control block are named by their index in the state (the pointer
  of the code).  A received frame is its list of bytes; a pointer into it is an offset and the length a
  layer claims for its payload is a separate 64-bit value, as in the code, so that a read past the
  frame is \<open>None\<close>.  A packet handed to a device driver is appended to \<open>net_sent\<close>; a call of a socket's
  listener is appended to \<open>net_upcalls\<close>, in order.  \<open>net_mem_ok\<close> is the answer of the allocations whose
  result the code checks, \<open>net_junk\<close> a byte of fresh memory that the code reads before it writes it.
\<close>

section \<open>State\<close>

datatype network_interface_device_type = DEV_UNKNOWN | E1000 | RTL8168

record network_interface =
  if_mac :: "u8 list"
  if_ip :: u32
  if_gateway :: u32
  if_subnet_mask :: u32
  if_is_configured :: bool
  if_is_active :: bool
  if_is_prefered :: bool
  if_device_type :: network_interface_device_type
  if_device :: u64

record network_packet =
  np_data :: "u8 list"
  np_interface :: nat

record arp_table_entry =
  ae_timestamp :: u64
  ae_mac :: "u8 list"

datatype socket_protocol = SP_UNKNOWN | UDP | TCP

record socket =
  so_protocol :: socket_protocol
  so_local_ip :: u32
  so_local_port :: u16
  so_remote_ip :: u32
  so_remote_port :: u16
  so_socket_data :: "nat option"

datatype tcp_state = CLOSED | OPENED | SYN_SENT | FIN_WAIT | ESTABLISHED

record tcb =
  tcb_local_ip :: u32
  tcb_local_port :: u16
  tcb_remote_ip :: u32
  tcb_remote_port :: u16
  tcb_snd_nxt :: u32
  tcb_snd_una :: u32
  tcb_rcv_nxt :: u32
  tcb_state :: tcp_state

text \<open>A call of a listener: its socket, the sender, and where in which frame the data lies.\<close>

record upcall =
  up_socket :: nat
  up_ip :: u32
  up_port :: u16
  up_mem :: "u8 list"
  up_off :: nat
  up_size :: u64

definition up_data :: "upcall \<Rightarrow> u8 list option" where
  "up_data u = rd_bytes (up_mem u) (up_off u) (unat (up_size u))"

record net =
  net_ifaces :: "network_interface list"
  nic_interfaces :: "nat list"
  nic_incoming :: "network_packet ring_buffer"
  nic_outgoing :: "network_packet ring_buffer"
  nic_buffer_selector :: u64
  net_sent :: "(network_interface_device_type \<times> network_packet) list"
  g_address_lookup_table :: "(u32, arp_table_entry) linear_map"
  net_socks :: "socket list"
  global_sockets :: "nat list"
  net_tcbs :: "tcb option list"
  net_upcalls :: "upcall list"
  net_clock :: u64
  net_seed :: u64
  net_mem_ok :: bool
  net_junk :: u8

section \<open>The interface controller\<close>

definition nic_init :: "net \<Rightarrow> net" where
  "nic_init n = n\<lparr>nic_interfaces := []\<rparr>"

definition nic_get_default_interface :: "net \<Rightarrow> nat option" where
  "nic_get_default_interface n =
     (if nic_interfaces n = [] then None
      else case find (\<lambda>i. if_is_prefered (net_ifaces n ! i)) (nic_interfaces n) of
             Some i \<Rightarrow> Some i
           | None \<Rightarrow> Some (hd (nic_interfaces n)))"

definition nic_register_interface :: "nat option \<Rightarrow> net \<Rightarrow> bool \<times> net" where
  "nic_register_interface iface n =
     (case iface of None \<Rightarrow> (False, n)
      | Some i \<Rightarrow>
          let n' = (if nic_get_default_interface n = None
                    then n\<lparr>net_ifaces := (net_ifaces n)[i := (net_ifaces n ! i)\<lparr>if_is_prefered := True\<rparr>]\<rparr> else n)
          in (True, n'\<lparr>nic_interfaces := nic_interfaces n' @ [i]\<rparr>))"

definition nic_dispatch_packet :: "network_packet \<Rightarrow> net \<Rightarrow> bool \<times> net" where
  "nic_dispatch_packet packet n =
     (case rb_insert packet (nic_outgoing n) of (ok, q) \<Rightarrow> (ok, n\<lparr>nic_outgoing := q\<rparr>))"

definition nic_receive_packet :: "network_packet \<Rightarrow> net \<Rightarrow> bool \<times> net" where
  "nic_receive_packet packet n =
     (case rb_insert packet (nic_incoming n) of (ok, q) \<Rightarrow> (ok, n\<lparr>nic_incoming := q\<rparr>))"

definition is_same_subnet :: "u32 \<Rightarrow> u32 \<Rightarrow> u32 \<Rightarrow> bool" where
  "is_same_subnet target_ip our_ip subnet_mask \<longleftrightarrow> target_ip AND subnet_mask = our_ip AND subnet_mask"

definition route_lookup :: "net \<Rightarrow> u32 \<Rightarrow> nat option" where
  "route_lookup n dst_ip =
     (if nic_interfaces n = [] then None
      else case find (\<lambda>i. is_same_subnet dst_ip (if_ip (net_ifaces n ! i)) (if_subnet_mask (net_ifaces n ! i)))
                     (nic_interfaces n) of
             Some i \<Rightarrow> Some i
           | None \<Rightarrow> (case find (\<lambda>i. if_is_prefered (net_ifaces n ! i)) (nic_interfaces n) of
                        Some i \<Rightarrow> Some i
                      | None \<Rightarrow> Some (hd (nic_interfaces n))))"

definition nic_get_interface_from_device :: "net \<Rightarrow> u64 \<Rightarrow> nat option" where
  "nic_get_interface_from_device n device =
     find (\<lambda>i. if_device (net_ifaces n ! i) = device) (nic_interfaces n)"

section \<open>Ethernet and ARP\<close>

definition ETHERNET_TYPE_IPV4 :: u16 where "ETHERNET_TYPE_IPV4 = 0x0800"
definition ETHERNET_TYPE_ARP :: u16 where "ETHERNET_TYPE_ARP = 0x0806"

text \<open>The memory image of \<open>ethernet_header_t\<close>.\<close>

definition ethernet_header :: "u8 list \<Rightarrow> u8 list \<Rightarrow> u16 \<Rightarrow> u8 list" where
  "ethernet_header dst_mac src_mac type = take 6 dst_mac @ take 6 src_mac @ le16 type"

definition ethernet_send :: "nat \<Rightarrow> u8 list \<Rightarrow> u16 \<Rightarrow> u8 list \<Rightarrow> net \<Rightarrow> net" where
  "ethernet_send iface dst_mac type packet n =
     snd (nic_dispatch_packet
           \<lparr>np_data = ethernet_header dst_mac (if_mac (net_ifaces n ! iface)) (bswap16 type) @ packet,
            np_interface = iface\<rparr> n)"

text \<open>\<open>arp_packet_t\<close>, its fields in memory order.\<close>

record arp_packet =
  ar_harware_type :: u16
  ar_protocol_type :: u16
  ar_hardware_length :: u8
  ar_protocol_length :: u8
  ar_operation :: u16
  ar_sender_hw :: "u8 list"
  ar_sender_ip :: u32
  ar_target_hw :: "u8 list"
  ar_target_ip :: u32

definition arp_bytes :: "arp_packet \<Rightarrow> u8 list" where
  "arp_bytes a = le16 (ar_harware_type a) @ le16 (ar_protocol_type a) @ [ar_hardware_length a, ar_protocol_length a]
     @ le16 (ar_operation a) @ take 6 (ar_sender_hw a) @ le32 (ar_sender_ip a) @ take 6 (ar_target_hw a)
     @ le32 (ar_target_ip a)"

definition arp_table_insert :: "u32 \<Rightarrow> u8 list \<Rightarrow> net \<Rightarrow> net" where
  "arp_table_insert ipv4 mac n =
     (let entry = \<lparr>ae_timestamp = net_clock n, ae_mac = take 6 mac\<rparr>
      in n\<lparr>g_address_lookup_table :=
             lm_put ipv4 \<lparr>ae_timestamp = 0, ae_mac = replicate 6 0\<rparr> entry (g_address_lookup_table n)\<rparr>)"

definition arp_lookup :: "u32 \<Rightarrow> net \<Rightarrow> u8 list option" where
  "arp_lookup ipv4_addr n =
     (case lm_get ipv4_addr (g_address_lookup_table n) of
        None \<Rightarrow> None
      | Some i \<Rightarrow> Some (ae_mac (snd (g_address_lookup_table n ! i))))"

definition arp_discover_request_ipv4 :: "nat \<Rightarrow> u32 \<Rightarrow> net \<Rightarrow> net" where
  "arp_discover_request_ipv4 iface ipv4 n =
     ethernet_send iface (replicate 6 0xff) ETHERNET_TYPE_ARP
       (arp_bytes \<lparr>ar_harware_type = bswap16 1, ar_protocol_type = bswap16 0x0800, ar_hardware_length = 6,
          ar_protocol_length = 4, ar_operation = bswap16 1, ar_sender_hw = if_mac (net_ifaces n ! iface),
          ar_sender_ip = bswap32 (if_ip (net_ifaces n ! iface)), ar_target_hw = replicate 6 0,
          ar_target_ip = bswap32 ipv4\<rparr>) n"

text \<open>The size argument of \<open>arp_receive\<close> is not looked at.\<close>

definition arp_receive :: "nat \<Rightarrow> u8 list \<Rightarrow> nat \<Rightarrow> net \<Rightarrow> net option" where
  "arp_receive iface frame off n = do {
     harware_type \<leftarrow> rd16 frame off;
     if bswap16 harware_type \<noteq> 1 then Some n else do {
     protocol_type \<leftarrow> rd16 frame (off + 2);
     if bswap16 protocol_type \<noteq> 0x0800 then Some n else do {
     hardware_length \<leftarrow> rd8 frame (off + 4);
     if hardware_length \<noteq> 6 then Some n else do {
     protocol_length \<leftarrow> rd8 frame (off + 5);
     if protocol_length \<noteq> 4 then Some n else do {
     operation \<leftarrow> rd16 frame (off + 6);
     n \<leftarrow> (if bswap16 operation = 1 then do {
             target_ip \<leftarrow> rd32 frame (off + 24);
             if bswap32 target_ip = if_ip (net_ifaces n ! iface) then do {
               sender_hw \<leftarrow> rd_bytes frame (off + 8) 6;
               sender_ip \<leftarrow> rd32 frame (off + 14);
               Some (ethernet_send iface sender_hw ETHERNET_TYPE_ARP
                 (arp_bytes \<lparr>ar_harware_type = bswap16 1, ar_protocol_type = bswap16 0x0800, ar_hardware_length = 6,
                    ar_protocol_length = 4, ar_operation = bswap16 2, ar_sender_hw = if_mac (net_ifaces n ! iface),
                    ar_sender_ip = bswap32 (if_ip (net_ifaces n ! iface)), ar_target_hw = sender_hw,
                    ar_target_ip = sender_ip\<rparr>) n) }
             else Some n }
           else Some n);
     if bswap16 operation = 2 then do {
       sender_ip \<leftarrow> rd32 frame (off + 14);
       sender_hw \<leftarrow> rd_bytes frame (off + 8) 6;
       Some (arp_table_insert (bswap32 sender_ip) sender_hw n) }
     else Some n } } } } }"

section \<open>IP\<close>

definition IP_PROTOCOL_ICMP :: u8 where "IP_PROTOCOL_ICMP = 1"
definition IP_PROTOCOL_TCP :: u8 where "IP_PROTOCOL_TCP = 6"
definition IP_PROTOCOL_UDP :: u8 where "IP_PROTOCOL_UDP = 17"
definition BROADCAST_IPV4 :: u32 where "BROADCAST_IPV4 = TO_IP 255 255 255 255"

record ip_header =
  ip_version_ihl :: u8
  ip_tos :: u8
  ip_total_length :: u16
  ip_identification :: u16
  ip_flags_fragment :: u16
  ip_ttl :: u8
  ip_protocol :: u8
  ip_header_checksum :: u16
  ip_src_addr :: u32
  ip_dst_addr :: u32

definition ip_bytes :: "ip_header \<Rightarrow> u8 list" where
  "ip_bytes h = [ip_version_ihl h, ip_tos h] @ le16 (ip_total_length h) @ le16 (ip_identification h)
     @ le16 (ip_flags_fragment h) @ [ip_ttl h, ip_protocol h] @ le16 (ip_header_checksum h)
     @ le32 (ip_src_addr h) @ le32 (ip_dst_addr h)"

text \<open>The two loops of the checksums: the sum over 16-bit words as the processor loads them, and the
  folding of the carries.\<close>

fun sum_words :: "u32 \<Rightarrow> u8 list \<Rightarrow> u32" where
  "sum_words s [] = s"
| "sum_words s [a] = s + ucast a"
| "sum_words s (a # b # r) = sum_words (s + (push_bit 8 (ucast b) OR ucast a)) r"

lemma fold_step_less:
  assumes "drop_bit 16 (s :: u32) \<noteq> 0"
  shows "unat ((s AND 0xFFFF) + drop_bit 16 s) < unat s"
proof -
  have m: "mask 16 = (0xFFFF :: u32)" by (simp add: mask_eq_exp_minus_1)
  have a: "unat (s AND 0xFFFF) = unat s mod 65536"
    unfolding m [symmetric] take_bit_eq_mask [symmetric] unsigned_take_bit_eq by (simp add: take_bit_eq_mod)
  have b: "unat (drop_bit 16 s) = unat s div 65536"
    by (simp add: drop_bit_eq_div unat_div)
  have "unat s div 65536 \<noteq> 0" using assms b by (metis unat_eq_0)
  moreover have "unat ((s AND 0xFFFF) + drop_bit 16 s) \<le> unat s mod 65536 + unat s div 65536"
    unfolding a [symmetric] b [symmetric] by (simp add: unat_word_ariths)
  moreover have "unat s = unat s div 65536 * 65536 + unat s mod 65536" by simp
  ultimately show ?thesis by linarith
qed

function fold_sum :: "u32 \<Rightarrow> u32" where
  "fold_sum s = (if drop_bit 16 s \<noteq> 0 then fold_sum ((s AND 0xFFFF) + drop_bit 16 s) else s)"
  by pat_completeness auto
termination by (relation "measure unat") (auto dest: fold_step_less)

declare fold_sum.simps [simp del]

definition ip_checksum :: "u8 list \<Rightarrow> u16" where
  "ip_checksum p_data = ucast (NOT (fold_sum (sum_words 0 p_data)))"

definition icmp_checksum :: "u8 list \<Rightarrow> u16" where
  "icmp_checksum p_data = ucast (NOT (fold_sum (sum_words 0 p_data)))"

definition is_local_network :: "u32 \<Rightarrow> u32 \<Rightarrow> u32 \<Rightarrow> bool" where
  "is_local_network target_ip our_ip subnet_mask \<longleftrightarrow> target_ip AND subnet_mask = our_ip AND subnet_mask"

definition get_next_hop_ip :: "network_interface \<Rightarrow> u32 \<Rightarrow> u32" where
  "get_next_hop_ip iface target_ip =
     (if target_ip = 0 then 0
      else if is_local_network target_ip (if_ip iface) (if_subnet_mask iface) then target_ip
      else if_gateway iface)"

text \<open>The header \<open>ip_send\<close> builds for a payload of \<open>len\<close> bytes.\<close>

definition ip_make_header :: "network_interface \<Rightarrow> u32 \<Rightarrow> u8 \<Rightarrow> nat \<Rightarrow> ip_header" where
  "ip_make_header iface dst_ip protocol len =
     (let ip = \<lparr>ip_version_ihl = 0x45, ip_tos = 0, ip_total_length = bswap16 (of_nat (20 + len)),
                ip_identification = 0, ip_flags_fragment = 0, ip_ttl = 64, ip_protocol = protocol,
                ip_header_checksum = 0, ip_src_addr = bswap32 (if_ip iface), ip_dst_addr = bswap32 dst_ip\<rparr>
      in ip\<lparr>ip_header_checksum := ip_checksum (ip_bytes ip)\<rparr>)"

definition ip_send :: "nat \<Rightarrow> u32 \<Rightarrow> u8 \<Rightarrow> u8 list \<Rightarrow> net \<Rightarrow> bool \<times> net" where
  "ip_send iface dst_ip protocol payload n =
     (let len = (if length payload > 1500 then 1500 else length payload);
          ip = ip_make_header (net_ifaces n ! iface) dst_ip protocol len;
          next_net_hop_ip = get_next_hop_ip (net_ifaces n ! iface) dst_ip;
          ip_payload = ip_bytes ip @ take len payload
      in if dst_ip = TO_IP 255 255 255 255
         then (True, ethernet_send iface (replicate 6 0xFF) ETHERNET_TYPE_IPV4 ip_payload n)
         else case arp_lookup next_net_hop_ip n of
                None \<Rightarrow> (False, arp_discover_request_ipv4 iface next_net_hop_ip n)
              | Some dst_mac \<Rightarrow> (True, ethernet_send iface dst_mac ETHERNET_TYPE_IPV4 ip_payload n))"

text \<open>\<open>icmp_receive\<close> answers an echo request to the address it finds 20 bytes before its payload.\<close>

definition icmp_receive :: "nat \<Rightarrow> u8 list \<Rightarrow> nat \<Rightarrow> u64 \<Rightarrow> net \<Rightarrow> net option" where
  "icmp_receive iface frame off len n =
     (if len < 8 then Some n
      else let len = (if len > 1500 then 1500 else len) in do {
        type \<leftarrow> rd8 frame off;
        if type = 8 then do {
          buf \<leftarrow> rd_bytes frame off (unat len);
          let reply = buf[0 := 0, 2 := 0, 3 := 0];
          let c = icmp_checksum reply;
          src_addr \<leftarrow> (if off < 20 then None else rd32 frame (off - 20 + 12));
          Some (snd (ip_send iface (bswap32 src_addr) IP_PROTOCOL_ICMP (reply[2 := ucast c, 3 := ucast (drop_bit 8 c)]) n)) }
        else Some n })"

section \<open>Checksums\<close>

lemma or_disjoint:
  assumes "\<And>n. bit a n \<Longrightarrow> bit b n \<Longrightarrow> False"
  shows "a OR b = a + (b :: 'a::len word)"
  using assms by (subst disjunctive_add_eq_or) (auto intro!: bit_word_eqI simp: bit_and_iff)

lemma word_of_bytes: "unat (push_bit 8 (ucast (b :: u8)) OR ucast (a :: u8) :: u32) = 256 * unat b + unat a"
proof -
  have "push_bit 8 (ucast b) OR ucast a = push_bit 8 (ucast b) + (ucast a :: u32)"
    by (rule or_disjoint) (auto simp: bit_push_bit_iff bit_ucast_iff dest!: bit_imp_le_length)
  moreover have "unat (push_bit 8 (ucast b :: u32)) = 256 * unat b"
    using unat_u8_less [of b] by (simp add: push_bit_eq_mult unat_word_ariths unat_ucast_up)
  ultimately show ?thesis
    using unat_u8_less [of b] unat_u8_less [of a] by (simp add: unat_word_ariths unat_ucast_up)
qed

fun words_le :: "u8 list \<Rightarrow> nat" where
  "words_le [] = 0"
| "words_le [a] = unat a"
| "words_le (a # b # r) = 256 * unat b + unat a + words_le r"

fun words_be :: "u8 list \<Rightarrow> nat" where
  "words_be [] = 0"
| "words_be [a] = 256 * unat a"
| "words_be (a # b # r) = 256 * unat a + unat b + words_be r"

lemma sum_words_eq: "unat s + words_le bs < 2 ^ 32 \<Longrightarrow> unat (sum_words s bs) = unat s + words_le bs"
proof (induction s bs rule: sum_words.induct)
  case (2 s a)
  then show ?case by (simp add: unat_plus_no_wrap unat_ucast_up)
next
  case (3 s a b r)
  have "unat (s + (push_bit 8 (ucast b) OR ucast a)) = unat s + (256 * unat b + unat a)"
    using 3(2) by (subst unat_plus_no_wrap) (simp_all add: word_of_bytes)
  then show ?case using 3 by simp
qed simp

lemma words_le_bound: "words_le bs \<le> 65535 * length bs"
proof (induction bs rule: words_le.induct)
  case (2 a)
  then show ?case using unat_u8_less [of a] by simp
next
  case (3 a b r)
  then show ?case using unat_u8_less [of a] unat_u8_less [of b] by simp
qed simp

lemma words_be_bound: "words_be bs \<le> 65535 * length bs"
proof (induction bs rule: words_be.induct)
  case (2 a)
  then show ?case using unat_u8_less [of a] by simp
next
  case (3 a b r)
  then show ?case using unat_u8_less [of a] unat_u8_less [of b] by simp
qed simp

lemma fold_sum_eq: "unat (fold_sum s) = (if s = 0 then 0 else (unat s - 1) mod 65535 + 1)"
proof (induction s rule: fold_sum.induct)
  case (1 s)
  have m: "mask 16 = (0xFFFF :: u32)" by (simp add: mask_eq_exp_minus_1)
  have a: "unat (s AND 0xFFFF) = unat s mod 65536"
    unfolding m [symmetric] take_bit_eq_mask [symmetric] unsigned_take_bit_eq by (simp add: take_bit_eq_mod)
  have b: "unat (drop_bit 16 s) = unat s div 65536" by (simp add: drop_bit_eq_div unat_div)
  show ?case
  proof (cases "drop_bit 16 s = 0")
    case True
    then have "unat s < 65536" using b by (simp add: div_eq_0_iff)
    moreover have "s \<noteq> 0 \<Longrightarrow> 0 < unat s" by (simp add: unat_gt_0)
    ultimately show ?thesis using True by (subst fold_sum.simps) auto
  next
    case False
    let ?s' = "(s AND 0xFFFF) + drop_bit 16 s"
    have s': "unat ?s' = unat s mod 65536 + unat s div 65536"
      using unat_u32_less [of s] by (subst unat_plus_no_wrap) (simp_all add: a b)
    have q: "unat s div 65536 \<noteq> 0" using False b by (metis unat_eq_0)
    then have nz: "?s' \<noteq> 0" "s \<noteq> 0" using s' by (auto simp: unat_eq_0 [symmetric])
    have "unat s - 1 = (unat ?s' - 1) + 65535 * (unat s div 65536)"
      using q s' div_mult_mod_eq [of "unat s" 65536] by simp
    then have "(unat s - 1) mod 65535 = (unat ?s' - 1) mod 65535" by simp
    then show ?thesis using 1 False nz by (subst fold_sum.simps) simp
  qed
qed

lemma unat_not_u16:
  assumes "unat f < 65536"
  shows "unat (ucast (NOT f :: u32) :: u16) = 65535 - unat f"
proof -
  have "NOT f = 0xFFFFFFFF - f" by (simp add: not_eq_complement)
  moreover have "f \<le> 0xFFFFFFFF" using assms by (simp add: word_le_nat_alt)
  ultimately have "unat (NOT f) = 65535 * 65536 + (65535 - unat f)"
    using assms by (simp add: unat_sub)
  moreover have "(65535 * 65536 + (65535 - unat f)) mod 65536 = 65535 - unat f" by (subst mod_mult_self3) simp
  ultimately show ?thesis by (simp only: unsigned_ucast_eq take_bit_eq_mod len_of_numeral_defs) simp
qed

text \<open>Storing the complement of the folded sum makes the sum fold to 0xFFFF, which the receiver checks.\<close>

lemma checksum_verifies:
  fixes w c :: nat
  assumes "0 < w" and "w + 65535 < 2 ^ 32"
    and "c = 65535 - ((w - 1) mod 65535 + 1)"
  shows "(w + c - 1) mod 65535 + 1 = 65535"
proof -
  define m where "m = (w - 1) mod 65535"
  have m: "m < 65535" by (simp add: m_def)
  have c: "c = 65534 - m" using assms(3) by (simp add: m_def)
  have "w - 1 = 65535 * ((w - 1) div 65535) + m" by (simp add: m_def)
  then have "w + c - 1 = 65535 * ((w - 1) div 65535) + 65534" using assms(1) c m by linarith
  then show ?thesis by simp
qed

lemma ip_checksum_unat:
  assumes "0 < words_le bs" and "words_le bs < 2 ^ 32"
  shows "unat (ip_checksum bs) = 65535 - ((words_le bs - 1) mod 65535 + 1)"
proof -
  have s: "unat (sum_words 0 bs) = words_le bs" using sum_words_eq [of 0 bs] assms(2) by simp
  have "sum_words 0 bs \<noteq> 0" using s assms(1) by (metis less_irrefl unat_0)
  then have f: "unat (fold_sum (sum_words 0 bs)) = (words_le bs - 1) mod 65535 + 1" by (simp add: fold_sum_eq s)
  moreover have "(words_le bs - 1) mod 65535 < 65535" by simp
  ultimately show ?thesis unfolding ip_checksum_def by (subst unat_not_u16) simp_all
qed

lemma words_le16: "words_le (le16 c @ r) = unat c + words_le r"
proof -
  have "push_bit 8 (ucast (ucast (drop_bit 8 c) :: u8)) OR ucast (ucast c :: u8) = (ucast c :: u32)"
    by (rule bit_word_eqI) (auto simp: bit_or_iff bit_push_bit_iff bit_ucast_iff bit_drop_bit_eq dest: bit_imp_le_length)
  then have "256 * unat (ucast (drop_bit 8 c) :: u8) + unat (ucast c :: u8) = unat c"
    using word_of_bytes [of "ucast (drop_bit 8 c)" "ucast c"] by (simp add: unat_ucast_up)
  then show ?thesis by (simp add: le16_def)
qed


lemma words_le32: "words_le (le32 x @ r) = words_le (le32 x) + words_le r"
  by (simp add: le32_def)

text \<open>
  The header checksum \<open>ip_send\<close> writes is the one a receiver accepts: the checksum of the complete
  header, with the checksum field in place, is 0.
\<close>

theorem ip_header_checksum_valid:
  "ip_checksum (ip_bytes (ip_make_header iface dst_ip protocol len)) = 0"
proof -
  define h where "h = \<lparr>ip_version_ihl = 0x45, ip_tos = 0, ip_total_length = bswap16 (of_nat (20 + len)),
                ip_identification = 0, ip_flags_fragment = 0, ip_ttl = 64, ip_protocol = protocol,
                ip_header_checksum = 0, ip_src_addr = bswap32 (if_ip iface), ip_dst_addr = bswap32 dst_ip\<rparr>"
  let ?c = "ip_checksum (ip_bytes h)" and ?w = "words_le (ip_bytes h)"
  have h': "ip_make_header iface dst_ip protocol len = h\<lparr>ip_header_checksum := ?c\<rparr>"
    by (simp add: ip_make_header_def h_def Let_def)
  have w: "words_le (ip_bytes (h\<lparr>ip_header_checksum := c\<rparr>)) = ?w + unat c" for c
    by (simp add: h_def ip_bytes_def words_le16 words_le32)
  have len: "length (ip_bytes g) = 20" for g by (simp add: ip_bytes_def le16_def le32_def)
  have pos: "0 < ?w" by (simp add: h_def ip_bytes_def words_le16 words_le32)
  have le: "?w \<le> 65535 * 20" using words_le_bound [of "ip_bytes h"] by (simp add: len)
  have c: "unat ?c = 65535 - ((?w - 1) mod 65535 + 1)" using pos le by (intro ip_checksum_unat) simp_all
  have "(?w + unat ?c - 1) mod 65535 + 1 = 65535" using pos le c by (intro checksum_verifies) simp_all
  moreover have "?w + unat ?c < 2 ^ 32" using le unat_u16_less [of ?c] by simp
  ultimately have "unat (ip_checksum (ip_bytes (h\<lparr>ip_header_checksum := ?c\<rparr>))) = 0"
    using pos w [of ?c] by (subst ip_checksum_unat) simp_all
  then show ?thesis unfolding h' by (simp add: unat_eq_0)
qed


end
