(* ===== verification/Transport.thy ===== *)
theory Transport
  imports Net
begin

text \<open>
  Sockets, UDP, TCP and the receive path that ends in them:
  \<open>src/kernel/src/network/{socket,udp,tcp}.cpp\<close>, \<open>ip_receive\<close>, \<open>ethernet_receive\<close> and \<open>nic_process_packet\<close>.
\<close>

section \<open>Sockets\<close>

definition socket_get :: "socket_protocol \<Rightarrow> u16 \<Rightarrow> net \<Rightarrow> nat option" where
  "socket_get protocol dst_port n =
     find (\<lambda>s. so_local_port (net_socks n ! s) = dst_port \<and> so_protocol (net_socks n ! s) = protocol) (global_sockets n)"

definition socket_receive ::
  "socket_protocol \<Rightarrow> u16 \<Rightarrow> u32 \<Rightarrow> u16 \<Rightarrow> u8 list \<Rightarrow> nat \<Rightarrow> u64 \<Rightarrow> net \<Rightarrow> bool \<times> net" where
  "socket_receive protocol dst_port src_ip src_port frame off sz n =
     (case find (\<lambda>s. so_local_port (net_socks n ! s) = dst_port \<and> so_protocol (net_socks n ! s) = protocol)
             (global_sockets n) of
        Some s \<Rightarrow> (True, n\<lparr>net_upcalls := net_upcalls n @
            [\<lparr>up_socket = s, up_ip = src_ip, up_port = src_port, up_mem = frame, up_off = off, up_size = sz\<rparr>]\<rparr>)
      | None \<Rightarrow> (False, n))"

definition socket_bind :: "nat \<Rightarrow> net \<Rightarrow> bool \<times> net" where
  "socket_bind sock n =
     (if \<exists>s \<in> set (global_sockets n). so_local_port (net_socks n ! sock) = so_local_port (net_socks n ! s)
           \<and> so_protocol (net_socks n ! sock) = so_protocol (net_socks n ! s)
      then (False, n)
      else (True, n\<lparr>global_sockets := global_sockets n @ [sock]\<rparr>))"

section \<open>UDP\<close>

fun sum_words_be :: "u32 \<Rightarrow> u8 list \<Rightarrow> u32" where
  "sum_words_be s [] = s"
| "sum_words_be s [a] = s + push_bit 8 (ucast a)"
| "sum_words_be s (a # b # r) = sum_words_be (s + (push_bit 8 (ucast a) OR ucast b)) r"

definition pseudo_sum :: "u32 \<Rightarrow> u32 \<Rightarrow> u32 \<Rightarrow> nat \<Rightarrow> u32" where
  "pseudo_sum src_ip dst_ip protocol len =
     (drop_bit 16 src_ip AND 0xFFFF) + (src_ip AND 0xFFFF) + (drop_bit 16 dst_ip AND 0xFFFF) + (dst_ip AND 0xFFFF)
     + protocol + of_nat len"

definition udp_checksum :: "u32 \<Rightarrow> u32 \<Rightarrow> u8 list \<Rightarrow> u16" where
  "udp_checksum src_ip dst_ip udp_packet =
     (let result = ucast (NOT (fold_sum (sum_words_be (pseudo_sum src_ip dst_ip 17 (length udp_packet)) udp_packet)))
      in if result = 0 then 0xFFFF else result)"

definition udp_header :: "u16 \<Rightarrow> u16 \<Rightarrow> u16 \<Rightarrow> u16 \<Rightarrow> u8 list" where
  "udp_header src_port dst_port len checksum = le16 src_port @ le16 dst_port @ le16 len @ le16 checksum"

definition udp_send :: "u32 \<Rightarrow> u16 \<Rightarrow> u16 \<Rightarrow> u8 list \<Rightarrow> net \<Rightarrow> bool \<times> net" where
  "udp_send dst_ip src_port dst_port payload n =
     (if length payload > 1500 - 20 - 8 then (False, n)
      else if \<not> net_mem_ok n then (False, n)
      else let packet_size = 8 + length payload;
               header = udp_header (bswap16 src_port) (bswap16 dst_port) (bswap16 (of_nat packet_size))
           in case route_lookup n dst_ip of
                None \<Rightarrow> (False, n)
              | Some iface \<Rightarrow>
                  let c = bswap16 (udp_checksum (if_ip (net_ifaces n ! iface)) dst_ip (header 0 @ payload))
                  in (True, snd (ip_send iface dst_ip IP_PROTOCOL_UDP (header c @ payload) n)))"

definition udp_receive :: "nat \<Rightarrow> u32 \<Rightarrow> u8 list \<Rightarrow> nat \<Rightarrow> u64 \<Rightarrow> net \<Rightarrow> net option" where
  "udp_receive iface src_ip frame off payload_length n = do {
     src_port \<leftarrow> rd16 frame off;
     dst_port \<leftarrow> rd16 frame (off + 2);
     len \<leftarrow> rd16 frame (off + 4);
     checksum \<leftarrow> rd16 frame (off + 6);
     Some (snd (socket_receive UDP (bswap16 dst_port) src_ip (bswap16 src_port) frame (off + 8) (payload_length - 8) n)) }"

section \<open>TCP\<close>

definition TCP_FLAG_FIN :: u8 where "TCP_FLAG_FIN = 1"
definition TCP_FLAG_SYN :: u8 where "TCP_FLAG_SYN = 2"
definition TCP_FLAG_RST :: u8 where "TCP_FLAG_RST = 4"
definition TCP_FLAG_PSH :: u8 where "TCP_FLAG_PSH = 8"
definition TCP_FLAG_ACK :: u8 where "TCP_FLAG_ACK = 16"

definition tcp_checksum :: "u32 \<Rightarrow> u32 \<Rightarrow> u8 list \<Rightarrow> u16" where
  "tcp_checksum src_ip dst_ip packet =
     ucast (NOT (fold_sum (sum_words_be (pseudo_sum src_ip dst_ip 6 (length packet)) packet)))"

definition tcp_header :: "u16 \<Rightarrow> u16 \<Rightarrow> u32 \<Rightarrow> u32 \<Rightarrow> u8 \<Rightarrow> u8 \<Rightarrow> u16 \<Rightarrow> u16 \<Rightarrow> u16 \<Rightarrow> u8 list" where
  "tcp_header src_port dst_port seq_num ack_num data_offset_reserved flags window checksum urgent_ptr =
     le16 src_port @ le16 dst_port @ le32 seq_num @ le32 ack_num @ [data_offset_reserved, flags]
     @ le16 window @ le16 checksum @ le16 urgent_ptr"

definition upd_tcb :: "nat \<Rightarrow> (tcb \<Rightarrow> tcb) \<Rightarrow> net \<Rightarrow> net" where
  "upd_tcb t f n = n\<lparr>net_tcbs := (net_tcbs n)[t := map_option f (net_tcbs n ! t)]\<rparr>"

text \<open>\<open>tcp_send_with_flags\<close>; the low nibble of the data offset byte is what fresh memory held.\<close>

definition tcp_send_with_flags :: "nat \<Rightarrow> u8 \<Rightarrow> u8 list option \<Rightarrow> net \<Rightarrow> (bool \<times> net) option" where
  "tcp_send_with_flags t flags payload n = do {
     tcb \<leftarrow> (if t < length (net_tcbs n) then net_tcbs n ! t else None);
     let data = (case payload of None \<Rightarrow> [] | Some p \<Rightarrow> p);
     if flags AND (TCP_FLAG_SYN OR TCP_FLAG_FIN OR TCP_FLAG_RST OR TCP_FLAG_ACK) = 0 \<and> data = [] then Some (False, n)
     else do {
       let ack_num = (if flags AND TCP_FLAG_ACK \<noteq> 0 then bswap32 (tcb_rcv_nxt tcb) else 0);
       let header = (\<lambda>c. tcp_header (bswap16 (tcb_local_port tcb)) (bswap16 (tcb_remote_port tcb))
             (bswap32 (tcb_snd_nxt tcb)) ack_num (push_bit 4 5 OR (net_junk n AND 0x0F)) flags (bswap16 4096) c 0);
       case route_lookup n (tcb_remote_ip tcb) of
         None \<Rightarrow> Some (False, n)
       | Some iface \<Rightarrow> do {
           let c = bswap16 (tcp_checksum (if_ip (net_ifaces n ! iface)) (tcb_remote_ip tcb) (header 0 @ data));
           let (result, n') = ip_send iface (tcb_remote_ip tcb) IP_PROTOCOL_TCP (header c @ data) n;
           let n'' = (if result
             then upd_tcb t (\<lambda>tcb. tcb\<lparr>tcb_snd_nxt := tcb_snd_nxt tcb + of_nat (length data)
                    + (if flags AND (TCP_FLAG_SYN OR TCP_FLAG_FIN) \<noteq> 0 then 1 else 0)\<rparr>) n'
             else n');
           Some (result, n'') } } }"

definition tcp_send :: "nat option \<Rightarrow> u8 list option \<Rightarrow> net \<Rightarrow> (bool \<times> net) option" where
  "tcp_send tp payload n =
     (case tp of None \<Rightarrow> Some (False, n)
      | Some t \<Rightarrow> do {
          tcb \<leftarrow> (if t < length (net_tcbs n) then net_tcbs n ! t else None);
          case tcb_state tcb of
            OPENED \<Rightarrow> tcp_send_with_flags t TCP_FLAG_SYN None (upd_tcb t (\<lambda>tcb. tcb\<lparr>tcb_state := SYN_SENT\<rparr>) n)
          | SYN_SENT \<Rightarrow> Some (False, n)
          | ESTABLISHED \<Rightarrow> tcp_send_with_flags t (TCP_FLAG_ACK OR TCP_FLAG_PSH) payload n
          | _ \<Rightarrow> Some (False, n) })"

definition tcp_generate_isn :: "net \<Rightarrow> (u32 \<times> net) option" where
  "tcp_generate_isn n = do {
     (r, seed) \<leftarrow> random_number_range 0 0xFFFFFFFF (net_seed n);
     Some (ucast r, n\<lparr>net_seed := seed\<rparr>) }"

definition tcp_create_tcb :: "u32 \<Rightarrow> u16 \<Rightarrow> u32 \<Rightarrow> u16 \<Rightarrow> net \<Rightarrow> (nat option \<times> net) option" where
  "tcp_create_tcb local_ip local_port remote_ip remote_port n =
     (if \<not> net_mem_ok n then Some (None, n)
      else do {
        (isn, n) \<leftarrow> tcp_generate_isn n;
        let tcb = \<lparr>tcb_local_ip = local_ip, tcb_local_port = local_port, tcb_remote_ip = remote_ip,
            tcb_remote_port = remote_port, tcb_snd_nxt = isn, tcb_snd_una = isn, tcb_rcv_nxt = 0, tcb_state = OPENED\<rparr>;
        Some (Some (length (net_tcbs n)), n\<lparr>net_tcbs := net_tcbs n @ [Some tcb]\<rparr>) })"

definition tcp_is_connection_established :: "nat \<Rightarrow> net \<Rightarrow> bool option" where
  "tcp_is_connection_established t n = do {
     tcb \<leftarrow> (if t < length (net_tcbs n) then net_tcbs n ! t else None);
     Some (tcb_state tcb = ESTABLISHED) }"

text \<open>\<open>tcb->state = CLOSED; delete tcb; socket->socket_data = nullptr;\<close>\<close>

definition tcp_close :: "nat \<Rightarrow> nat \<Rightarrow> net \<Rightarrow> net" where
  "tcp_close sock t n = n\<lparr>net_tcbs := (net_tcbs n)[t := None],
     net_socks := (net_socks n)[sock := (net_socks n ! sock)\<lparr>so_socket_data := None\<rparr>]\<rparr>"

text \<open>The branch of \<open>tcp_receive\<close> for data on an established connection.\<close>

definition tcp_receive_data ::
  "nat \<Rightarrow> u16 \<Rightarrow> u32 \<Rightarrow> u16 \<Rightarrow> u32 \<Rightarrow> u8 list \<Rightarrow> nat \<Rightarrow> u64 \<Rightarrow> net \<Rightarrow> net option" where
  "tcp_receive_data t dst_port src_ip src_port seq_num frame data_off tcp_data_len n = do {
     tcb \<leftarrow> net_tcbs n ! t;
     if seq_num \<noteq> tcb_rcv_nxt tcb then map_option snd (tcp_send_with_flags t TCP_FLAG_ACK None n)
     else do {
       let n = upd_tcb t (\<lambda>tcb. tcb\<lparr>tcb_rcv_nxt := tcb_rcv_nxt tcb + ucast tcp_data_len\<rparr>) n;
       let n = snd (socket_receive TCP dst_port src_ip src_port frame data_off tcp_data_len n);
       map_option snd (tcp_send_with_flags t TCP_FLAG_ACK None n) } }"

definition tcp_receive :: "nat \<Rightarrow> u32 \<Rightarrow> u8 list \<Rightarrow> nat \<Rightarrow> u64 \<Rightarrow> net \<Rightarrow> net option" where
  "tcp_receive iface src_ip frame off payload_length n = do {
     sp \<leftarrow> rd16 frame off;
     dp \<leftarrow> rd16 frame (off + 2);
     sq \<leftarrow> rd32 frame (off + 4);
     ak \<leftarrow> rd32 frame (off + 8);
     dor \<leftarrow> rd8 frame (off + 12);
     flags \<leftarrow> rd8 frame (off + 13);
     wn \<leftarrow> rd16 frame (off + 14);
     let src_port = bswap16 sp;
     let dst_port = bswap16 dp;
     let seq_num = bswap32 sq;
     let ack_num = bswap32 ak;
     let data_offset = drop_bit 4 dor;
     let window = bswap16 wn;
     case socket_get TCP dst_port n of
       None \<Rightarrow> Some n
     | Some sock \<Rightarrow>
     (case so_socket_data (net_socks n ! sock) of
        None \<Rightarrow> Some n
      | Some t \<Rightarrow> do {
     tcb \<leftarrow> (if t < length (net_tcbs n) then net_tcbs n ! t else None);
     if flags AND TCP_FLAG_FIN \<noteq> 0 then do {
       (_, n) \<leftarrow> tcp_send_with_flags t TCP_FLAG_ACK None (upd_tcb t (\<lambda>tcb. tcb\<lparr>tcb_rcv_nxt := tcb_rcv_nxt tcb + 1\<rparr>) n);
       Some (tcp_close sock t n) }
     else if flags AND TCP_FLAG_RST \<noteq> 0 then
       (if seq_num < tcb_rcv_nxt tcb \<or> seq_num \<ge> tcb_rcv_nxt tcb + ucast window then Some n
        else Some (tcp_close sock t n))
     else if tcb_state tcb = SYN_SENT then
       (if flags AND TCP_FLAG_SYN = 0 \<or> flags AND TCP_FLAG_ACK = 0 then Some n
        else if ack_num \<noteq> tcb_snd_nxt tcb then Some n
        else do {
          (_, n) \<leftarrow> tcp_send_with_flags t TCP_FLAG_ACK None
             (upd_tcb t (\<lambda>tcb. tcb\<lparr>tcb_rcv_nxt := seq_num + 1, tcb_snd_una := ack_num\<rparr>) n);
          Some (upd_tcb t (\<lambda>tcb. tcb\<lparr>tcb_state := ESTABLISHED\<rparr>) n) })
     else if tcb_state tcb = ESTABLISHED then
       (let header_len = unat data_offset * 4;
            tcp_data_len = payload_length - of_nat header_len
        in if tcp_data_len > 0
           then tcp_receive_data t dst_port src_ip src_port seq_num frame (off + header_len) tcp_data_len n
           else Some n)
     else Some n }) }"

text \<open>\<open>socket_send\<close>; the answer \<open>None\<close> is the wait for an established connection that has not ended.\<close>

definition socket_send :: "nat option \<Rightarrow> u8 list option \<Rightarrow> net \<Rightarrow> (bool option \<times> net) option" where
  "socket_send sp data n =
     (case (sp, data) of
        (Some sock, Some d) \<Rightarrow>
          let s = net_socks n ! sock in
          (case so_protocol s of
             UDP \<Rightarrow> (case udp_send (so_remote_ip s) (so_local_port s) (so_remote_port s) d n of (r, n) \<Rightarrow> Some (Some r, n))
           | TCP \<Rightarrow> do {
               (ok, n) \<leftarrow>
                 (if so_socket_data s = None then do {
                    (tp, n) \<leftarrow> tcp_create_tcb (so_local_ip s) (so_local_port s) (so_remote_ip s) (so_remote_port s) n;
                    tcp_send tp None (n\<lparr>net_socks := (net_socks n)[sock := s\<lparr>so_socket_data := tp\<rparr>]\<rparr>) }
                  else Some (True, n));
               if \<not> ok then Some (Some False, n)
               else do {
                 t \<leftarrow> so_socket_data (net_socks n ! sock);
                 est \<leftarrow> tcp_is_connection_established t n;
                 if est then do { (r, n) \<leftarrow> tcp_send (Some t) data n; Some (Some r, n) }
                 else Some (None, n) } }
           | _ \<Rightarrow> Some (Some False, n))
      | _ \<Rightarrow> Some (Some False, n))"

section \<open>The receive path\<close>

definition ip_receive :: "nat \<Rightarrow> u8 list \<Rightarrow> nat \<Rightarrow> u64 \<Rightarrow> u8 list \<Rightarrow> net \<Rightarrow> net option" where
  "ip_receive iface frame off sz src_mac n = do {
     dst_addr \<leftarrow> rd32 frame (off + 16);
     if bswap32 dst_addr \<noteq> if_ip (net_ifaces n ! iface) \<and> bswap32 dst_addr \<noteq> 0xFFFFFFFF then Some n
     else do {
       total_length \<leftarrow> rd16 frame (off + 2);
       version_ihl \<leftarrow> rd8 frame off;
       src_addr \<leftarrow> rd32 frame (off + 12);
       protocol \<leftarrow> rd8 frame (off + 9);
       let ip_len = bswap16 total_length;
       let ihl = unat (version_ihl AND 0x0F) * 4;
       let payload = off + ihl;
       let payload_len = (ucast ip_len :: u64) - of_nat ihl;
       let n = (if arp_lookup (bswap32 src_addr) n = None then arp_table_insert (bswap32 src_addr) src_mac n else n);
       if protocol = IP_PROTOCOL_ICMP then icmp_receive iface frame payload payload_len n
       else if protocol = IP_PROTOCOL_TCP then tcp_receive iface (bswap32 src_addr) frame payload payload_len n
       else if protocol = IP_PROTOCOL_UDP then udp_receive iface (bswap32 src_addr) frame payload payload_len n
       else Some n } }"

definition ethernet_receive :: "nat \<Rightarrow> u8 list \<Rightarrow> net \<Rightarrow> (nat \<times> net) option" where
  "ethernet_receive iface frame n =
     (if length frame < 14 then Some (1, n)
      else do {
        ethernet_type \<leftarrow> rd16 frame 12;
        src_mac \<leftarrow> rd_bytes frame 6 6;
        let payload_size = of_nat (length frame - 14);
        n \<leftarrow> (if bswap16 ethernet_type = ETHERNET_TYPE_IPV4 then ip_receive iface frame 14 payload_size src_mac n
             else if bswap16 ethernet_type = ETHERNET_TYPE_ARP then arp_receive iface frame 14 n
             else Some n);
        Some (0, n) })"

definition nic_process_packet :: "net \<Rightarrow> (bool \<times> net) option" where
  "nic_process_packet n = do {
     let n = n\<lparr>nic_buffer_selector := nic_buffer_selector n + 1\<rparr>;
     let (inc, q) = (if nic_buffer_selector n mod 2 = 0 then rb_get (nic_incoming n) else (None, nic_incoming n));
     case inc of
       Some packet \<Rightarrow> do {
         (_, n) \<leftarrow> ethernet_receive (np_interface packet) (np_data packet) (n\<lparr>nic_incoming := q\<rparr>);
         Some (True, n) }
     | None \<Rightarrow> (case rb_get (nic_outgoing n) of
           (None, _) \<Rightarrow> Some (False, n)
         | (Some packet, q) \<Rightarrow>
             let n = n\<lparr>nic_outgoing := q\<rparr>;
                 dev = if_device_type (net_ifaces n ! np_interface packet)
             in Some (True, if dev = DEV_UNKNOWN then n else n\<lparr>net_sent := net_sent n @ [(dev, packet)]\<rparr>)) }"

section \<open>Reading back what was written\<close>

lemma length_ip_bytes [simp]: "length (ip_bytes h) = 20"
  by (simp add: ip_bytes_def)

lemma rd_ip_bytes:
  assumes "drop off buf = ip_bytes h @ r"
  shows "rd8 buf off = Some (ip_version_ihl h)" "rd16 buf (off + 2) = Some (ip_total_length h)"
    "rd8 buf (off + 9) = Some (ip_protocol h)" "rd32 buf (off + 12) = Some (ip_src_addr h)"
    "rd32 buf (off + 16) = Some (ip_dst_addr h)" "drop (off + 20) buf = r"
proof -
  have d: "drop (off + k) buf = drop k (ip_bytes h @ r)" for k
    using arg_cong [OF assms, of "drop k"] by (simp add: add.commute)
  show "rd8 buf off = Some (ip_version_ihl h)" "rd8 buf (off + 9) = Some (ip_protocol h)"
    using rd8_drop [of off buf 0] rd8_drop [of off buf 9] unfolding assms
    by (simp_all add: rd8_def ip_bytes_def le16_def)
  show "rd16 buf (off + 2) = Some (ip_total_length h)"
    by (rule rd16_le16, subst d) (simp add: ip_bytes_def)
  show "rd32 buf (off + 12) = Some (ip_src_addr h)" "rd32 buf (off + 16) = Some (ip_dst_addr h)"
    by (rule rd32_le32, subst d, simp add: ip_bytes_def)+
  show "drop (off + 20) buf = r" by (simp add: d)
qed


section \<open>A datagram reaches its socket\<close>

text \<open>The frame \<open>udp_send\<close> puts on the wire, as seen by the sender.\<close>

definition udp_frame :: "network_interface \<Rightarrow> u8 list \<Rightarrow> u32 \<Rightarrow> u16 \<Rightarrow> u16 \<Rightarrow> u8 list \<Rightarrow> u8 list" where
  "udp_frame i dst_mac dst_ip src_port dst_port payload =
     (let header = udp_header (bswap16 src_port) (bswap16 dst_port) (bswap16 (of_nat (8 + length payload)));
          c = bswap16 (udp_checksum (if_ip i) dst_ip (header 0 @ payload))
      in ethernet_header dst_mac (if_mac i) (bswap16 ETHERNET_TYPE_IPV4)
           @ ip_bytes (ip_make_header i dst_ip IP_PROTOCOL_UDP (8 + length payload)) @ header c @ payload)"

lemma length_udp_header [simp]: "length (udp_header a b c d) = 8"
  by (simp add: udp_header_def)

lemma udp_send_frame:
  assumes "route_lookup n dst_ip = Some iface" and "net_mem_ok n" and "length payload \<le> 1472"
    and "dst_ip = TO_IP 255 255 255 255 \<and> dst_mac = replicate 6 0xFF \<or>
         dst_ip \<noteq> TO_IP 255 255 255 255 \<and> arp_lookup (get_next_hop_ip (net_ifaces n ! iface) dst_ip) n = Some dst_mac"
  shows "udp_send dst_ip src_port dst_port payload n =
    (True, snd (nic_dispatch_packet \<lparr>np_data = udp_frame (net_ifaces n ! iface) dst_mac dst_ip src_port dst_port payload,
        np_interface = iface\<rparr> n))"
  using assms by (auto simp: udp_send_def ip_send_def ethernet_send_def udp_frame_def Let_def)

lemma ethernet_fields:
  assumes "length dst_mac = 6" "length src_mac = 6"
  shows "rd16 (ethernet_header dst_mac src_mac t @ r) 12 = Some t"
    "rd_bytes (ethernet_header dst_mac src_mac t @ r) 6 6 = Some src_mac"
    "drop 14 (ethernet_header dst_mac src_mac t @ r) = r"
proof -
  show "rd16 (ethernet_header dst_mac src_mac t @ r) 12 = Some t"
    using assms by (intro rd16_le16) (simp add: ethernet_header_def)
  show "rd_bytes (ethernet_header dst_mac src_mac t @ r) 6 6 = Some src_mac"
    using assms by (simp add: rd_bytes_def ethernet_header_def)
  show "drop 14 (ethernet_header dst_mac src_mac t @ r) = r"
    using assms by (simp add: ethernet_header_def)
qed

lemma ucast_u16_u64_nat: "k < 65536 \<Longrightarrow> (ucast (of_nat k :: u16) :: u64) = of_nat k"
  by (simp add: word_unat_eq_iff unat_ucast_up unsigned_of_nat take_bit_nat_eq_self)

lemma arp_lookup_map_of: "arp_lookup ip n = map_option ae_mac (map_of (g_address_lookup_table n) ip)"
  by (simp add: arp_lookup_def lm_lookup_map_of [symmetric] lm_lookup_def split: option.splits)

lemma arp_lookup_upcalls [simp]: "arp_lookup ip (net_upcalls_update f n) = arp_lookup ip n"
  by (simp add: arp_lookup_def split: option.splits)

lemma arp_lookup_insert:
  "arp_lookup ip (arp_table_insert j mac n) = (if ip = j then Some (take 6 mac) else arp_lookup ip n)"
proof (cases "lm_get j (g_address_lookup_table n)")
  case None
  then show ?thesis
    by (simp add: arp_lookup_map_of arp_table_insert_def Let_def lm_put_new map_of_snoc lm_get_None del: map_of_append)
next
  case (Some i)
  then show ?thesis
    by (simp add: arp_lookup_map_of arp_table_insert_def Let_def lm_put_old map_of_update_first)
qed

lemma ip_make_header_fields [simp]:
  "ip_version_ihl (ip_make_header i dst_ip p len) = 0x45"
  "ip_total_length (ip_make_header i dst_ip p len) = bswap16 (of_nat (20 + len))"
  "ip_protocol (ip_make_header i dst_ip p len) = p"
  "ip_src_addr (ip_make_header i dst_ip p len) = bswap32 (if_ip i)"
  "ip_dst_addr (ip_make_header i dst_ip p len) = bswap32 dst_ip"
  by (simp_all add: ip_make_header_def Let_def)

lemma ip_protocols [simp]: "IP_PROTOCOL_UDP \<noteq> IP_PROTOCOL_ICMP" "IP_PROTOCOL_UDP \<noteq> IP_PROTOCOL_TCP"
  by (simp_all add: IP_PROTOCOL_ICMP_def IP_PROTOCOL_TCP_def IP_PROTOCOL_UDP_def)

lemma ip_receive_udp:
  assumes f: "drop off frame = ip_bytes (ip_make_header i dst_ip IP_PROTOCOL_UDP len) @ r" and l: "len \<le> 1500"
    and d: "dst_ip = if_ip (net_ifaces n ! iface) \<or> dst_ip = 0xFFFFFFFF"
  shows "ip_receive iface frame off sz src_mac n =
    udp_receive iface (if_ip i) frame (off + 20) (of_nat len)
      (if arp_lookup (if_ip i) n = None then arp_table_insert (if_ip i) src_mac n else n)"
proof -
  note rd = rd_ip_bytes [OF f]
  have "(ucast (of_nat (20 + len) :: u16) :: u64) - 20 = of_nat len"
    using l by (subst ucast_u16_u64_nat) simp_all
  then have "ucast (bswap16 (bswap16 (of_nat (20 + len)))) - (20 :: u64) = of_nat len" by simp
  then show ?thesis using d
    by (elim disjE) (simp_all add: ip_receive_def rd Let_def del: add_2_eq_Suc')
qed


lemma udp_receive_frame:
  assumes "drop off frame = udp_header (bswap16 sp) (bswap16 dp) len c @ payload @ pad"
    and "length payload \<le> 1472" and "socket_get UDP dp n = Some sock"
  shows "\<exists>u. udp_receive iface src_ip frame off (of_nat (8 + length payload)) n = Some (n\<lparr>net_upcalls := net_upcalls n @ [u]\<rparr>)
     \<and> up_socket u = sock \<and> up_ip u = src_ip \<and> up_port u = sp \<and> up_data u = Some payload"
proof -
  have d: "drop (off + k) frame = drop k (udp_header (bswap16 sp) (bswap16 dp) len c @ payload @ pad)" for k
    using arg_cong [OF assms(1), of "drop k"] by (simp add: add.commute)
  have r: "rd16 frame off = Some (bswap16 sp)" "rd16 frame (off + 2) = Some (bswap16 dp)"
    "rd16 frame (off + 4) = Some len" "rd16 frame (off + 6) = Some c"
    using d [of 0] by (rule_tac rd16_le16, simp add: udp_header_def)
      (rule rd16_le16, subst d, simp add: udp_header_def)+
  have e: "drop (off + 8) frame = payload @ pad" by (simp add: d)
  have s: "of_nat (8 + length payload) - 8 = (of_nat (length payload) :: u64)" by simp
  have u: "unat (of_nat (length payload) :: u64) = length payload"
    using assms(2) by (simp add: unsigned_of_nat take_bit_nat_eq_self)
  have "off + 8 \<le> length frame" using r(4) rd16_None_iff [of frame "off + 6"] by (cases "length frame \<le> off + 7") auto
  then have l: "off + 8 + length payload \<le> length frame"
    using arg_cong [OF e, of length] by simp
  have find: "find (\<lambda>s. so_local_port (net_socks n ! s) = dp \<and> so_protocol (net_socks n ! s) = UDP) (global_sockets n) = Some sock"
    using assms(3) by (simp add: socket_get_def)
  show ?thesis
    by (rule exI [of _ "\<lparr>up_socket = sock, up_ip = src_ip, up_port = sp, up_mem = frame, up_off = off + 8,
          up_size = of_nat (length payload)\<rparr>"])
      (use l u e in \<open>simp add: udp_receive_def r s socket_receive_def find up_data_def rd_bytes_def del: add_2_eq_Suc'\<close>)
qed

text \<open>
  C34. A datagram reaches its socket: the frame that a successful \<open>udp_send\<close> queues on the sending host, whatever
  padding the link adds to it, is received without reading outside the frame by any host that has the
  destination address (or by every host, for the broadcast address), and calls the listener of the
  socket bound to the destination port once, with the sender's address and port and exactly the payload sent.
  On the way, the receiver learns the sender's link address.
\<close>

theorem udp_datagram_delivered:
  assumes route: "route_lookup a dst_ip = Some ia" and "net_mem_ok a" and len: "length payload \<le> 1472"
    and mac: "dst_ip = TO_IP 255 255 255 255 \<and> dst_mac = replicate 6 0xFF \<or>
         dst_ip \<noteq> TO_IP 255 255 255 255 \<and> arp_lookup (get_next_hop_ip (net_ifaces a ! ia) dst_ip) a = Some dst_mac"
    and macs: "length dst_mac = 6" "length (if_mac (net_ifaces a ! ia)) = 6"
    and host: "dst_ip = if_ip (net_ifaces b ! ib) \<or> dst_ip = TO_IP 255 255 255 255"
    and sock: "socket_get UDP dst_port b = Some sock"
  shows "\<exists>frame b' u.
    udp_send dst_ip src_port dst_port payload a =
      (True, snd (nic_dispatch_packet \<lparr>np_data = frame, np_interface = ia\<rparr> a)) \<and>
    ethernet_receive ib (frame @ pad) b = Some (0, b') \<and> net_upcalls b' = net_upcalls b @ [u] \<and>
    up_socket u = sock \<and> up_ip u = if_ip (net_ifaces a ! ia) \<and> up_port u = src_port \<and> up_data u = Some payload \<and>
    arp_lookup (if_ip (net_ifaces a ! ia)) b' \<noteq> None"
proof -
  let ?i = "net_ifaces a ! ia" and ?len = "8 + length payload"
  let ?frame = "udp_frame ?i dst_mac dst_ip src_port dst_port payload"
  define b1 where "b1 = (if arp_lookup (if_ip ?i) b = None then arp_table_insert (if_ip ?i) (if_mac ?i) b else b)"
  obtain c len where f: "?frame @ pad = ethernet_header dst_mac (if_mac ?i) (bswap16 ETHERNET_TYPE_IPV4)
     @ ip_bytes (ip_make_header ?i dst_ip IP_PROTOCOL_UDP ?len) @ udp_header (bswap16 src_port) (bswap16 dst_port) len c @ payload @ pad"
    by (simp add: udp_frame_def Let_def) 
  note eth = ethernet_fields [OF macs, of "bswap16 ETHERNET_TYPE_IPV4"]
  have d14: "drop 14 (?frame @ pad) = ip_bytes (ip_make_header ?i dst_ip IP_PROTOCOL_UDP ?len)
     @ udp_header (bswap16 src_port) (bswap16 dst_port) len c @ payload @ pad"
    unfolding f by (rule eth)
  have bc: "TO_IP 255 255 255 255 = 0xFFFFFFFF" by (simp add: TO_IP_def)
  have ip: "ip_receive ib (?frame @ pad) 14 sz (if_mac ?i) b =
     udp_receive ib (if_ip ?i) (?frame @ pad) (14 + 20) (of_nat ?len) b1" for sz
    unfolding b1_def using ip_receive_udp [OF d14, of b ib sz "if_mac ?i"] len host by (simp add: bc)
  have b1: "net_socks b1 = net_socks b" "global_sockets b1 = global_sockets b" "net_upcalls b1 = net_upcalls b"
    by (simp_all add: b1_def arp_table_insert_def Let_def)
  have "socket_get UDP dst_port b1 = Some sock" using sock b1 by (simp add: socket_get_def)
  from udp_receive_frame [OF drop_step [OF d14] len this, of "14 + 20" ib "if_ip ?i"] obtain u where
    u: "udp_receive ib (if_ip ?i) (?frame @ pad) (14 + 20) (of_nat ?len) b1 = Some (b1\<lparr>net_upcalls := net_upcalls b1 @ [u]\<rparr>)"
      "up_socket u = sock" "up_ip u = if_ip ?i" "up_port u = src_port" "up_data u = Some payload"
    by auto
  have ip2: "ip_receive ib (?frame @ pad) 14 sz (if_mac ?i) b = Some (b1\<lparr>net_upcalls := net_upcalls b1 @ [u]\<rparr>)" for sz
    unfolding ip by (rule u(1))
  have "\<not> length (?frame @ pad) < 14" unfolding f using macs by (simp add: ethernet_header_def)
  moreover have "rd16 (?frame @ pad) 12 = Some (bswap16 ETHERNET_TYPE_IPV4)" "rd_bytes (?frame @ pad) 6 6 = Some (if_mac ?i)"
    unfolding f by (rule eth)+
  ultimately have "ethernet_receive ib (?frame @ pad) b = Some (0, b1\<lparr>net_upcalls := net_upcalls b1 @ [u]\<rparr>)"
    unfolding ethernet_receive_def by (simp add: ip2 Let_def del: length_append)
  moreover have "arp_lookup (if_ip ?i) b1 \<noteq> None"
    by (simp add: b1_def arp_lookup_insert)
  ultimately show ?thesis
    using udp_send_frame [OF route assms(2) len mac, of src_port dst_port] u(2-5) b1
    by (intro exI [of _ ?frame]) simp
qed

text \<open>A host with one interface and, when \<open>port\<close> is given, one bound UDP socket.\<close>

definition demo_host :: "u32 \<Rightarrow> u8 list \<Rightarrow> socket list \<Rightarrow> (u32, arp_table_entry) linear_map \<Rightarrow> net" where
  "demo_host ip mac socks arp =
     \<lparr>net_ifaces = [\<lparr>if_mac = mac, if_ip = ip, if_gateway = 0x0A000001, if_subnet_mask = 0xFFFFFF00,
         if_is_configured = True, if_is_active = True, if_is_prefered = True, if_device_type = E1000, if_device = 0\<rparr>],
      nic_interfaces = [0],
      nic_incoming = rb_new (replicate 64 \<lparr>np_data = [], np_interface = 0\<rparr>),
      nic_outgoing = rb_new (replicate 64 \<lparr>np_data = [], np_interface = 0\<rparr>),
      nic_buffer_selector = 0, net_sent = [], g_address_lookup_table = arp, net_socks = socks,
      global_sockets = [0..<length socks], net_tcbs = [], net_upcalls = [], net_clock = 0, net_seed = 0,
      net_mem_ok = True, net_junk = 0\<rparr>"

theorem udp_datagram_delivered_witness:
  "\<exists>a b frame b' u. udp_send 0x0A000002 0x1000 0x35 [1, 2, 3] a =
      (True, snd (nic_dispatch_packet \<lparr>np_data = frame, np_interface = 0\<rparr> a)) \<and>
    ethernet_receive 0 (frame @ [0, 0]) b = Some (0, b') \<and> net_upcalls b' = [u] \<and> up_data u = Some [1, 2, 3]"
proof -
  let ?m = "[0, 1, 2, 3, 4, 5]" and ?k = "[6, 7, 8, 9, 10, 11]"
  let ?s = "\<lparr>so_protocol = UDP, so_local_ip = 0, so_local_port = 0x35, so_remote_ip = 0, so_remote_port = 0, so_socket_data = None\<rparr>"
  let ?a = "demo_host 0x0A000003 ?k [] [(0x0A000002, \<lparr>ae_timestamp = 0, ae_mac = ?m\<rparr>)]" and ?b = "demo_host 0x0A000002 ?m [?s] []"
  have "route_lookup ?a 0x0A000002 = Some 0"
    by (simp add: route_lookup_def demo_host_def is_same_subnet_def)
  moreover have "(0x0A000002 :: u32) \<noteq> TO_IP 255 255 255 255 \<and>
      arp_lookup (get_next_hop_ip (net_ifaces ?a ! 0) 0x0A000002) ?a = Some ?m"
    by (simp add: TO_IP_def arp_lookup_def get_next_hop_ip_def is_local_network_def demo_host_def)
  moreover have "socket_get UDP 0x35 ?b = Some 0" by (simp add: socket_get_def demo_host_def)
  ultimately obtain frame b' u where "udp_send 0x0A000002 0x1000 0x35 [1, 2, 3] ?a =
      (True, snd (nic_dispatch_packet \<lparr>np_data = frame, np_interface = 0\<rparr> ?a))"
    "ethernet_receive 0 (frame @ [0, 0]) ?b = Some (0, b')" "net_upcalls b' = net_upcalls ?b @ [u]" "up_data u = Some [1, 2, 3]"
    using udp_datagram_delivered [of ?a "0x0A000002" 0 "[1, 2, 3]" ?m ?b 0 "0x35" 0 "0x1000" "[0, 0]"]
    by (auto simp: demo_host_def)
  moreover have "net_upcalls ?b = []" by (simp add: demo_host_def)
  ultimately show ?thesis by (intro exI conjI) (assumption | simp)+
qed


section \<open>The TCP stream\<close>

text \<open>Sending changes nothing but the outgoing queue.\<close>

definition same_net :: "net \<Rightarrow> net \<Rightarrow> bool" where
  "same_net n n' \<longleftrightarrow> (\<exists>q. n' = n\<lparr>nic_outgoing := q\<rparr>)"

lemma same_net_sel:
  "same_net n n' \<Longrightarrow> net_tcbs n' = net_tcbs n \<and> net_socks n' = net_socks n \<and> global_sockets n' = global_sockets n
     \<and> net_upcalls n' = net_upcalls n"
  by (auto simp: same_net_def)

lemma ethernet_send_same: "same_net n (ethernet_send i m t p n)"
  by (auto simp: same_net_def ethernet_send_def nic_dispatch_packet_def split: prod.splits)

lemma ip_send_same: "ip_send i d p x n = (r, n') \<Longrightarrow> same_net n n'"
  using ethernet_send_same [of n i]
  by (auto simp: ip_send_def Let_def arp_discover_request_ipv4_def split: if_splits option.splits)

lemma send_ack_same:
  assumes "t < length (net_tcbs n)" and "net_tcbs n ! t = Some tcb"
  shows "\<exists>r n'. tcp_send_with_flags t TCP_FLAG_ACK None n = Some (r, n') \<and> same_net n n'"
proof -
  have f: "TCP_FLAG_ACK AND (TCP_FLAG_SYN OR TCP_FLAG_FIN OR TCP_FLAG_RST OR TCP_FLAG_ACK) \<noteq> 0"
    "TCP_FLAG_ACK AND (TCP_FLAG_SYN OR TCP_FLAG_FIN) = 0" "TCP_FLAG_ACK AND TCP_FLAG_ACK \<noteq> 0"
    by (simp_all add: TCP_FLAG_ACK_def TCP_FLAG_SYN_def TCP_FLAG_FIN_def TCP_FLAG_RST_def)
  have u: "upd_tcb t (\<lambda>tcb. tcb) n' = n'" if "same_net n n'" for n'
    using that assms by (auto simp: same_net_def upd_tcb_def list_update_id option.map_ident)
  show ?thesis
  proof (cases "route_lookup n (tcb_remote_ip tcb)")
    case None
    have "same_net n n" by (auto simp: same_net_def intro: exI [of _ "nic_outgoing n"])
    with None show ?thesis using assms f by (auto simp: tcp_send_with_flags_def)
  next
    case (Some i)
    show ?thesis using assms f Some
      by (auto simp: tcp_send_with_flags_def Let_def u split: prod.splits dest!: ip_send_same intro: exI)
  qed
qed

text \<open>A segment in a frame: header without options, no FIN, RST; \<open>data\<close> follows, then padding.\<close>

definition segment :: "u16 \<Rightarrow> u16 \<Rightarrow> u32 \<Rightarrow> u32 \<Rightarrow> u8 \<Rightarrow> u16 \<Rightarrow> u8 list \<Rightarrow> u8 list" where
  "segment src_port dst_port seq ack flags window data =
     tcp_header (bswap16 src_port) (bswap16 dst_port) (bswap32 seq) (bswap32 ack) (push_bit 4 5) flags (bswap16 window) 0 0 @ data"

lemma length_tcp_header [simp]: "length (tcp_header a b c d e f g h i) = 20"
  by (simp add: tcp_header_def)

lemma rd_segment:
  assumes "drop off buf = segment sp dp sq ak flags wn data @ pad"
  shows "rd16 buf off = Some (bswap16 sp)" "rd16 buf (off + 2) = Some (bswap16 dp)"
    "rd32 buf (off + 4) = Some (bswap32 sq)" "rd32 buf (off + 8) = Some (bswap32 ak)"
    "rd8 buf (off + 12) = Some (push_bit 4 5)" "rd8 buf (off + 13) = Some flags" "rd16 buf (off + 14) = Some (bswap16 wn)"
    "rd_bytes buf (off + 20) (length data) = Some data"
proof -
  have d: "drop (off + k) buf = drop k (segment sp dp sq ak flags wn data @ pad)" for k
    using arg_cong [OF assms, of "drop k"] by (simp add: add.commute)
  note s = segment_def tcp_header_def
  show "rd16 buf off = Some (bswap16 sp)" using assms by (rule_tac rd16_le16, simp add: s)
  show "rd16 buf (off + 2) = Some (bswap16 dp)" by (rule rd16_le16, subst d) (simp add: s)
  show "rd32 buf (off + 4) = Some (bswap32 sq)" by (rule rd32_le32, subst d) (simp add: s)
  show "rd32 buf (off + 8) = Some (bswap32 ak)" by (rule rd32_le32, subst d) (simp add: s)
  show "rd8 buf (off + 12) = Some (push_bit 4 5)" "rd8 buf (off + 13) = Some flags"
    using rd8_drop [of off buf 12] rd8_drop [of off buf 13] unfolding assms
    by (simp_all add: rd8_def s nth_append)
  show "rd16 buf (off + 14) = Some (bswap16 wn)" by (rule rd16_le16, subst d) (simp add: s)
  have "length buf - off = length (segment sp dp sq ak flags wn data @ pad)" using assms by (metis length_drop)
  then have "off + 20 + length data \<le> length buf" by (simp add: segment_def)
  then show "rd_bytes buf (off + 20) (length data) = Some data"
    by (simp add: rd_bytes_def d) (simp add: segment_def)
qed


text \<open>An established connection of socket \<open>sock\<close> on local port \<open>dp\<close> that expects sequence number \<open>nx\<close> next.\<close>

definition connected :: "nat \<Rightarrow> u16 \<Rightarrow> u32 \<Rightarrow> net \<Rightarrow> bool" where
  "connected sock dp nx n \<longleftrightarrow> socket_get TCP dp n = Some sock \<and>
     (\<exists>t tcb. so_socket_data (net_socks n ! sock) = Some t \<and> t < length (net_tcbs n) \<and> net_tcbs n ! t = Some tcb \<and>
        tcb_state tcb = ESTABLISHED \<and> tcb_rcv_nxt tcb = nx)"

lemma connected_same: "connected sock dp nx n \<Longrightarrow> same_net n n' \<Longrightarrow> connected sock dp nx n'"
  by (auto simp: connected_def same_net_def socket_get_def)

lemma connected_upd:
  assumes "socket_get TCP dp n = Some sock" "so_socket_data (net_socks n ! sock) = Some t" "t < length (net_tcbs n)"
    "net_tcbs n ! t = Some tcb" "tcb_state tcb = ESTABLISHED"
  shows "connected sock dp (tcb_rcv_nxt tcb + k)
    (upd_tcb t (\<lambda>tcb. tcb\<lparr>tcb_rcv_nxt := tcb_rcv_nxt tcb + k\<rparr>) n \<lparr>net_upcalls := us\<rparr>)"
  using assms by (simp add: connected_def upd_tcb_def socket_get_def)

text \<open>What the listener of \<open>sock\<close> was given.\<close>

definition delivered :: "nat \<Rightarrow> upcall list \<Rightarrow> u8 list" where
  "delivered sock us = concat (map (\<lambda>u. case up_data u of None \<Rightarrow> [] | Some d \<Rightarrow> d) (filter (\<lambda>u. up_socket u = sock) us))"

lemma delivered_append [simp]: "delivered sock (us @ vs) = delivered sock us @ delivered sock vs"
  by (simp add: delivered_def)

lemma tcp_receive_segment:
  assumes c: "connected sock dp nx n" and f: "drop off frame = segment sp dp sq ak flags wn data @ pad"
    and fl: "flags AND TCP_FLAG_FIN = 0" "flags AND TCP_FLAG_RST = 0" and l: "length data < 2 ^ 32"
  shows "\<exists>n'. tcp_receive iface src_ip frame off (of_nat (20 + length data)) n = Some n' \<and>
    (if sq = nx then connected sock dp (nx + of_nat (length data)) n' \<and>
          delivered sock (net_upcalls n') = delivered sock (net_upcalls n) @ data
     else connected sock dp nx n' \<and> net_upcalls n' = net_upcalls n)"
proof -
  obtain t tcb where s: "socket_get TCP dp n = Some sock" "so_socket_data (net_socks n ! sock) = Some t"
    "t < length (net_tcbs n)" "net_tcbs n ! t = Some tcb" "tcb_state tcb = ESTABLISHED" "tcb_rcv_nxt tcb = nx"
    using c by (auto simp: connected_def)
  note rd = rd_segment [OF f]
  have o: "unat (drop_bit 4 (push_bit 4 (5 :: u8))) * 4 = 20" by simp
  have len: "of_nat (20 + length data) - of_nat 20 = (of_nat (length data) :: u64)" by simp
  have ud: "unat (of_nat (length data) :: u64) = length data" using l by (simp add: unsigned_of_nat take_bit_nat_eq_self)
  then have nz: "(of_nat (length data) :: u64) = 0 \<longleftrightarrow> data = []" by (simp add: ud flip: unat_eq_0)
  have uc: "(ucast (of_nat (length data) :: u64) :: u32) = of_nat (length data)"
    using l by (simp add: word_unat_eq_iff unsigned_ucast_eq unsigned_of_nat take_bit_nat_eq_self)
  have r: "tcp_receive iface src_ip frame off (of_nat (20 + length data)) n =
     (if data = [] then Some n
      else tcp_receive_data t dp src_ip sp sq frame (off + 20) (of_nat (length data)) n)"
    using s fl nz by (simp add: tcp_receive_def rd Let_def o len word_gt_0 del: add_2_eq_Suc')
  show ?thesis
  proof (cases "data = []")
    case True
    then show ?thesis using r c by auto
  next
    case False
    show ?thesis
    proof (cases "sq = nx")
      case ne: False
      obtain b n' where "tcp_send_with_flags t TCP_FLAG_ACK None n = Some (b, n')" "same_net n n'"
        using send_ack_same [OF s(3,4)] by blast
      then show ?thesis using False ne r s connected_same [OF c] same_net_sel by (auto simp: tcp_receive_data_def)
    next
      case eq: True
      define u where "u = \<lparr>up_socket = sock, up_ip = src_ip, up_port = sp, up_mem = frame, up_off = off + 20,
          up_size = of_nat (length data)\<rparr>"
      define n1 where "n1 = upd_tcb t (\<lambda>tcb. tcb\<lparr>tcb_rcv_nxt := tcb_rcv_nxt tcb + of_nat (length data)\<rparr>) n
          \<lparr>net_upcalls := net_upcalls n @ [u]\<rparr>"
      have c1: "connected sock dp (nx + of_nat (length data)) n1"
        using connected_upd [OF s(1-5)] s(6) by (simp add: n1_def)
      then obtain tcb1 where t1: "t < length (net_tcbs n1)" "net_tcbs n1 ! t = Some tcb1"
        using s by (auto simp: n1_def upd_tcb_def)
      obtain b n' where a: "tcp_send_with_flags t TCP_FLAG_ACK None n1 = Some (b, n')" "same_net n1 n'"
        using send_ack_same [OF t1] by blast
      have d: "delivered sock [u] = data" using rd(8) ud by (simp add: delivered_def u_def up_data_def)
      have "tcp_receive_data t dp src_ip sp sq frame (off + 20) (of_nat (length data)) n = Some n'"
        using a(1) eq s unfolding n1_def u_def
        by (simp add: tcp_receive_data_def Let_def uc socket_receive_def socket_get_def upd_tcb_def)
      then show ?thesis using False eq r c1 a(2) connected_same [OF c1 a(2)] same_net_sel [OF a(2)] d
        by (simp add: n1_def)
    qed
  qed
qed


text \<open>A run of received segments: for each, the frame, where its TCP part starts and the claimed length.\<close>

fun tcp_receive_all :: "nat \<Rightarrow> u32 \<Rightarrow> (u8 list \<times> nat \<times> u64) list \<Rightarrow> net \<Rightarrow> net option" where
  "tcp_receive_all iface src_ip [] n = Some n"
| "tcp_receive_all iface src_ip ((frame, off, len) # fs) n =
     do { n \<leftarrow> tcp_receive iface src_ip frame off len n; tcp_receive_all iface src_ip fs n }"

text \<open>\<open>part_of isn stream dp x\<close>: the received data is a segment that carries some piece of the stream whose
  first byte has sequence number \<open>isn\<close>.\<close>

definition part_of :: "u32 \<Rightarrow> u8 list \<Rightarrow> u16 \<Rightarrow> u8 list \<times> nat \<times> u64 \<Rightarrow> bool" where
  "part_of isn stream dp = (\<lambda>(frame, off, len). \<exists>sp ak flags wn k m pad. k + m \<le> length stream \<and> len = of_nat (20 + m) \<and>
     flags AND TCP_FLAG_FIN = 0 \<and> flags AND TCP_FLAG_RST = 0 \<and>
     drop off frame = segment sp dp (isn + of_nat k) ak flags wn (take m (drop k stream)) @ pad)"

lemma tcp_stream:
  assumes "connected sock dp (isn + of_nat m) n" and "m \<le> length stream" and "length stream < 2 ^ 32"
    and "\<forall>x \<in> set fs. part_of isn stream dp x"
  shows "\<exists>n' m'. tcp_receive_all iface src_ip fs n = Some n' \<and> m \<le> m' \<and> m' \<le> length stream \<and>
    connected sock dp (isn + of_nat m') n' \<and>
    delivered sock (net_upcalls n') = delivered sock (net_upcalls n) @ drop m (take m' stream)"
  using assms(1,2,4)
proof (induction fs arbitrary: n m)
  case Nil
  then show ?case by (intro exI [of _ n] exI [of _ m]) simp
next
  case (Cons x fs)
  obtain frame off len where x: "x = (frame, off, len)" by (cases x)
  obtain sp ak flags wn k l pad where p: "k + l \<le> length stream" "len = of_nat (20 + l)"
     "flags AND TCP_FLAG_FIN = 0" "flags AND TCP_FLAG_RST = 0"
     "drop off frame = segment sp dp (isn + of_nat k) ak flags wn (take l (drop k stream)) @ pad"
    using Cons.prems(3) x by (auto simp: part_of_def)
  let ?d = "take l (drop k stream)"
  have ld: "length ?d = l" using p(1) by simp
  have lt: "length ?d < 2 ^ 32" using p(1) assms(3) ld by linarith
  obtain n1 where n1: "tcp_receive iface src_ip frame off len n = Some n1"
    "if isn + of_nat k = isn + of_nat m then connected sock dp (isn + of_nat m + of_nat l) n1 \<and>
          delivered sock (net_upcalls n1) = delivered sock (net_upcalls n) @ ?d
     else connected sock dp (isn + of_nat m) n1 \<and> net_upcalls n1 = net_upcalls n"
    using tcp_receive_segment [OF Cons.prems(1) p(5,3,4) lt, of iface src_ip] unfolding ld p(2) by blast
  show ?case
  proof (cases "k = m")
    case True
    have c: "connected sock dp (isn + of_nat (m + l)) n1" and d: "delivered sock (net_upcalls n1) = delivered sock (net_upcalls n) @ ?d"
      using n1(2) True by (simp_all add: add.assoc)
    have "m + l \<le> length stream" using p(1) True by simp
    from Cons.IH [OF c this] Cons.prems(3) obtain n' m' where
      i: "tcp_receive_all iface src_ip fs n1 = Some n'" "m + l \<le> m'" "m' \<le> length stream" "connected sock dp (isn + of_nat m') n'"
        "delivered sock (net_upcalls n') = delivered sock (net_upcalls n1) @ drop (m + l) (take m' stream)" by auto
    have "drop m (take m' stream) = ?d @ drop (m + l) (take m' stream)"
    proof -
      have "?d = take l (drop m (take m' stream))" using True i(2) by (simp add: drop_take min_def)
      then show ?thesis by (metis append_take_drop_id drop_drop add.commute)
    qed
    then show ?thesis using i n1(1) x d by (intro exI [of _ n'] exI [of _ m']) simp
  next
    case False
    have km: "k < 2 ^ 32" "m < 2 ^ 32" using p(1) Cons.prems(2) assms(3) by linarith+
    have "(of_nat k :: u32) \<noteq> of_nat m"
      using False km by (simp add: word_unat_eq_iff unsigned_of_nat take_bit_nat_eq_self)
    then have c: "connected sock dp (isn + of_nat m) n1" and u: "net_upcalls n1 = net_upcalls n"
      using n1(2) by simp_all
    from Cons.IH [OF c Cons.prems(2)] Cons.prems(3) show ?thesis using n1(1) x u by simp
  qed
qed

text \<open>
  C33. TCP delivers the peer's stream in order: whatever segments of the stream arrive on an established
  connection (repeated, overlapping, reordered or with gaps), every one is processed without reading outside
  its frame, the connection stays established, and the listener has been given exactly a prefix of the
  stream, continuing where it stood, without gaps or repetitions; \<open>rcv_nxt\<close> names its end.
\<close>

theorem tcp_stream_in_order:
  assumes "connected sock dst_port (isn + of_nat m) n" and "m \<le> length stream" and "length stream < 2 ^ 32"
    and "\<forall>x \<in> set frames. part_of isn stream dst_port x"
  shows "\<exists>n' m'. tcp_receive_all iface src_ip frames n = Some n' \<and> m \<le> m' \<and> m' \<le> length stream \<and>
    connected sock dst_port (isn + of_nat m') n' \<and>
    delivered sock (net_upcalls n') = delivered sock (net_upcalls n) @ drop m (take m' stream)"
  by (rule tcp_stream [OF assms])

text \<open>A connection that has just been established, its host knowing its peer's link address.\<close>

definition demo_tcp :: net where
  "demo_tcp = (demo_host 0x0A000002 [0, 1, 2, 3, 4, 5]
       [\<lparr>so_protocol = TCP, so_local_ip = 0, so_local_port = 80, so_remote_ip = 0x0A000003, so_remote_port = 99, so_socket_data = Some 0\<rparr>]
       [(0x0A000003, \<lparr>ae_timestamp = 0, ae_mac = [6, 7, 8, 9, 10, 11]\<rparr>)])
     \<lparr>net_tcbs := [Some \<lparr>tcb_local_ip = 0, tcb_local_port = 80, tcb_remote_ip = 0x0A000003, tcb_remote_port = 99,
         tcb_snd_nxt = 1, tcb_snd_una = 1, tcb_rcv_nxt = 1000, tcb_state = ESTABLISHED\<rparr>]\<rparr>"

lemma demo_tcp_connected: "connected 0 80 (1000 + of_nat 0) demo_tcp"
  by (simp add: connected_def demo_tcp_def demo_host_def socket_get_def)

theorem tcp_stream_in_order_witness:
  "\<exists>n' m'. tcp_receive_all 0 0x0A000003
      [(segment 99 80 1002 0 16 100 [7], 0, 21), (segment 99 80 1000 0 16 100 [5, 6], 0, 22)] demo_tcp = Some n' \<and>
    delivered 0 (net_upcalls n') = take m' [5, 6, 7]"
proof -
  have "part_of 1000 [5, 6, 7] 80 (segment 99 80 1002 0 16 100 [7], 0, 21)"
    unfolding part_of_def by (clarsimp simp: TCP_FLAG_FIN_def TCP_FLAG_RST_def)
      (rule exI [of _ 99], rule exI [of _ 0], rule exI [of _ 16], rule exI [of _ 100], rule exI [of _ 2], rule exI [of _ 1], simp)
  moreover have "part_of 1000 [5, 6, 7] 80 (segment 99 80 1000 0 16 100 [5, 6], 0, 22)"
    unfolding part_of_def by (clarsimp simp: TCP_FLAG_FIN_def TCP_FLAG_RST_def)
      (rule exI [of _ 99], rule exI [of _ 0], rule exI [of _ 16], rule exI [of _ 100], rule exI [of _ 0], rule exI [of _ 2], simp)
  moreover have "net_upcalls demo_tcp = []" by (simp add: demo_tcp_def demo_host_def)
  ultimately show ?thesis
    using tcp_stream_in_order [OF demo_tcp_connected, of "[5, 6, 7]"
       "[(segment 99 80 1002 0 16 100 [7], 0, 21), (segment 99 80 1000 0 16 100 [5, 6], 0, 22)]" 0 "0x0A000003"]
    by (auto simp: delivered_def)
qed


section \<open>Opening a connection\<close>

definition resolved :: "net \<Rightarrow> nat \<Rightarrow> u32 \<Rightarrow> bool" where
  "resolved n i dst \<longleftrightarrow> dst = TO_IP 255 255 255 255 \<or> arp_lookup (get_next_hop_ip (net_ifaces n ! i) dst) n \<noteq> None"

lemma ip_send_result: "\<exists>n'. ip_send i dst p payload n = (resolved n i dst, n') \<and> same_net n n'"
  using ip_send_same [of i dst p payload n]
  by (cases "ip_send i dst p payload n") (auto simp: ip_send_def Let_def resolved_def split: if_splits option.splits)

lemma syn_flags:
  "TCP_FLAG_SYN AND (TCP_FLAG_SYN OR TCP_FLAG_FIN OR TCP_FLAG_RST OR TCP_FLAG_ACK) \<noteq> 0"
  "TCP_FLAG_SYN AND (TCP_FLAG_SYN OR TCP_FLAG_FIN) \<noteq> 0"
  by (simp_all add: TCP_FLAG_ACK_def TCP_FLAG_SYN_def TCP_FLAG_FIN_def TCP_FLAG_RST_def)

lemma tcp_send_flags_eq:
  assumes "t < length (net_tcbs n)" "net_tcbs n ! t = Some tcb" "route_lookup n (tcb_remote_ip tcb) = Some i"
    and "flags AND (TCP_FLAG_SYN OR TCP_FLAG_FIN OR TCP_FLAG_RST OR TCP_FLAG_ACK) \<noteq> 0"
  shows "\<exists>p. tcp_send_with_flags t flags None n =
    (case ip_send i (tcb_remote_ip tcb) IP_PROTOCOL_TCP p n of (result, n') \<Rightarrow>
       Some (result, if result
         then upd_tcb t (\<lambda>tcb. tcb\<lparr>tcb_snd_nxt := tcb_snd_nxt tcb + of_nat 0
               + (if flags AND (TCP_FLAG_SYN OR TCP_FLAG_FIN) \<noteq> 0 then 1 else 0)\<rparr>) n'
         else n'))"
  unfolding tcp_send_with_flags_def Let_def using assms
  by (simp only: bind.bind_lunit if_True option.case list.size append_Nil2 simp_thms if_False) (rule exI, rule refl)

text \<open>The control block right after the first call, \<open>k = 1\<close> when the SYN went out and \<open>k = 0\<close> when it did not.\<close>

definition syn_sent :: "nat \<Rightarrow> socket \<Rightarrow> u32 \<Rightarrow> u32 \<Rightarrow> net \<Rightarrow> net \<Rightarrow> bool" where
  "syn_sent sock s isn k n n' \<longleftrightarrow>
     net_socks n' = (net_socks n)[sock := s\<lparr>so_socket_data := Some (length (net_tcbs n))\<rparr>] \<and>
     global_sockets n' = global_sockets n \<and>
     net_tcbs n' = net_tcbs n @ [Some \<lparr>tcb_local_ip = so_local_ip s, tcb_local_port = so_local_port s,
        tcb_remote_ip = so_remote_ip s, tcb_remote_port = so_remote_port s, tcb_snd_nxt = isn + k, tcb_snd_una = isn,
        tcb_rcv_nxt = 0, tcb_state = SYN_SENT\<rparr>]"

lemma socket_send_syn:
  assumes s: "net_socks n ! sock = s" "sock < length (net_socks n)" "so_protocol s = TCP" "so_socket_data s = None"
    and "net_mem_ok n" and r: "route_lookup n (so_remote_ip s) = Some ia"
  shows "\<exists>isn n'. socket_send (Some sock) (Some d) n =
      Some (if resolved n ia (so_remote_ip s) then None else Some False, n')
     \<and> syn_sent sock s isn (if resolved n ia (so_remote_ip s) then 1 else 0) n n'"
proof -
  obtain x seed where rn: "random_number_range 0 0xFFFFFFFF (net_seed n) = Some (x, seed)"
    by (auto simp: random_number_range_def random_number_def Let_def)
  let ?t = "length (net_tcbs n)" and ?s = "s\<lparr>so_socket_data := Some (length (net_tcbs n))\<rparr>"
  define tc where "tc k st = \<lparr>tcb_local_ip = so_local_ip s, tcb_local_port = so_local_port s,
        tcb_remote_ip = so_remote_ip s, tcb_remote_port = so_remote_port s, tcb_snd_nxt = ucast x + k, tcb_snd_una = ucast x,
        tcb_rcv_nxt = 0, tcb_state = st\<rparr>" for k :: u32 and st
  define n1 where "n1 = n\<lparr>net_seed := seed, net_tcbs := net_tcbs n @ [Some (tc 0 OPENED)], net_socks := (net_socks n)[sock := ?s]\<rparr>"
  define n2 where "n2 = n1\<lparr>net_tcbs := net_tcbs n @ [Some (tc 0 SYN_SENT)]\<rparr>"
  have cr: "tcp_create_tcb (so_local_ip s) (so_local_port s) (so_remote_ip s) (so_remote_port s) n =
      Some (Some ?t, n\<lparr>net_seed := seed, net_tcbs := net_tcbs n @ [Some (tc 0 OPENED)]\<rparr>)"
    using assms(5) rn by (simp add: tcp_create_tcb_def tcp_generate_isn_def tc_def)
  have u: "upd_tcb ?t (\<lambda>tcb. tcb\<lparr>tcb_state := SYN_SENT\<rparr>) n1 = n2"
    by (simp add: upd_tcb_def n1_def n2_def tc_def)
  have n2: "net_tcbs n2 ! ?t = Some (tc 0 SYN_SENT)" "?t < length (net_tcbs n2)" "route_lookup n2 = route_lookup n"
    "resolved n2 ia (so_remote_ip s) = resolved n ia (so_remote_ip s)"
    by (auto simp: n2_def n1_def route_lookup_def resolved_def arp_lookup_def fun_eq_iff split: option.splits)
  obtain p where p: "tcp_send_with_flags ?t TCP_FLAG_SYN None n2 = (case ip_send ia (so_remote_ip s) IP_PROTOCOL_TCP p n2 of
     (result, n') \<Rightarrow> Some (result, if result then upd_tcb ?t (\<lambda>tcb. tcb\<lparr>tcb_snd_nxt := tcb_snd_nxt tcb + of_nat 0 + 1\<rparr>) n' else n'))"
    using tcp_send_flags_eq [OF n2(2,1) _ syn_flags(1), of ia] r n2(3) syn_flags(2) by (auto simp: tc_def)
  obtain n3 where n3: "ip_send ia (so_remote_ip s) IP_PROTOCOL_TCP p n2 = (resolved n ia (so_remote_ip s), n3)" "same_net n2 n3"
    using ip_send_result [of ia "so_remote_ip s" IP_PROTOCOL_TCP p n2] unfolding n2(4) by blast
  define n4 where "n4 = (if resolved n ia (so_remote_ip s) then n3\<lparr>net_tcbs := net_tcbs n @ [Some (tc 1 SYN_SENT)]\<rparr> else n3)"
  have t3: "net_tcbs n3 = net_tcbs n @ [Some (tc 0 SYN_SENT)]" using n3(2) by (auto simp: same_net_def n2_def)
  have snd: "tcp_send_with_flags ?t TCP_FLAG_SYN None n2 = Some (resolved n ia (so_remote_ip s), n4)"
    unfolding p n3(1) using t3 by (simp add: n4_def upd_tcb_def tc_def)
  have f4: "net_socks n4 = (net_socks n)[sock := ?s]" "global_sockets n4 = global_sockets n"
    using n3(2) by (auto simp: n4_def same_net_def n2_def n1_def)
  have t4: "net_tcbs n4 = net_tcbs n @ [Some (tc (if resolved n ia (so_remote_ip s) then 1 else 0) SYN_SENT)]"
    using t3 by (simp add: n4_def)
  have "tcp_send (Some ?t) None n1 = Some (resolved n ia (so_remote_ip s), n4)"
    using snd u by (simp add: tcp_send_def) (simp add: n1_def tc_def)
  then have "socket_send (Some sock) (Some d) n = Some (if resolved n ia (so_remote_ip s) then None else Some False, n4)"
    using s cr f4 t4 by (simp add: socket_send_def n1_def Let_def tcp_is_connection_established_def tc_def)
  moreover have "syn_sent sock s (ucast x) (if resolved n ia (so_remote_ip s) then 1 else 0) n n4"
    using f4 t4 by (simp add: syn_sent_def tc_def)
  ultimately show ?thesis by blast
qed

text \<open>When the next hop's link address is not known yet, the SYN is not sent and never will be: the call fails,
  and every later call on the socket waits although no SYN is under way.\<close>

lemma syn_lost:
  assumes "net_socks n ! sock = s" "sock < length (net_socks n)" "so_protocol s = TCP" "so_socket_data s = None"
    and "net_mem_ok n" and "route_lookup n (so_remote_ip s) = Some ia" and "\<not> resolved n ia (so_remote_ip s)"
  shows "\<exists>n'. socket_send (Some sock) (Some d) n = Some (Some False, n') \<and>
    socket_send (Some sock) (Some d) n' = Some (None, n')"
proof -
  obtain isn n' where s1: "socket_send (Some sock) (Some d) n = Some (Some False, n')" and y: "syn_sent sock s isn 0 n n'"
    using socket_send_syn [OF assms(1-6), of d] assms(7) by auto
  have "socket_send (Some sock) (Some d) n' = Some (None, n')"
    using y assms(2,3) by (simp add: socket_send_def syn_sent_def Let_def tcp_is_connection_established_def)
  with s1 show ?thesis by blast
qed

lemma establish:
  assumes y: "syn_sent sock s isn 1 n n1" and sk: "sock < length (net_socks n)" "net_socks n ! sock = s"
    and g: "socket_get TCP (so_local_port s) n = Some sock"
    and f: "drop off frame = segment sp (so_local_port s) irs (isn + 1) flags wn [] @ pad"
    and fl: "flags AND TCP_FLAG_FIN = 0" "flags AND TCP_FLAG_RST = 0" "flags AND TCP_FLAG_SYN \<noteq> 0" "flags AND TCP_FLAG_ACK \<noteq> 0"
  shows "\<exists>n2. tcp_receive iface src_ip frame off len n1 = Some n2 \<and> connected sock (so_local_port s) (irs + 1) n2"
proof -
  let ?t = "length (net_tcbs n)"
  note rd = rd_segment [OF f]
  have g1: "socket_get TCP (so_local_port s) n1 = Some sock"
  proof -
    have "find (\<lambda>k. so_local_port (net_socks n1 ! k) = so_local_port s \<and> so_protocol (net_socks n1 ! k) = TCP) (global_sockets n) =
      find (\<lambda>k. so_local_port (net_socks n ! k) = so_local_port s \<and> so_protocol (net_socks n ! k) = TCP) (global_sockets n)"
      using y sk by (intro find_cong) (auto simp: syn_sent_def nth_list_update)
    then show ?thesis using g y by (simp add: socket_get_def syn_sent_def)
  qed
  obtain tcb where tcb: "net_tcbs n1 = net_tcbs n @ [Some tcb]" "tcb_state tcb = SYN_SENT" "tcb_snd_nxt tcb = isn + 1"
    using y by (auto simp: syn_sent_def)
  have sd: "so_socket_data (net_socks n1 ! sock) = Some ?t" using y sk by (simp add: syn_sent_def)
  define n2 where "n2 = upd_tcb ?t (\<lambda>tcb. tcb\<lparr>tcb_rcv_nxt := irs + 1, tcb_snd_una := isn + 1\<rparr>) n1"
  have "?t < length (net_tcbs n2)" "\<exists>tcb2. net_tcbs n2 ! ?t = Some tcb2" using tcb by (auto simp: n2_def upd_tcb_def)
  then obtain r n3 where n3: "tcp_send_with_flags ?t TCP_FLAG_ACK None n2 = Some (r, n3)" "same_net n2 n3"
    using send_ack_same by blast
  have "tcp_receive iface src_ip frame off len n1 = Some (upd_tcb ?t (\<lambda>tcb. tcb\<lparr>tcb_state := ESTABLISHED\<rparr>) n3)"
    using rd g1 sd tcb fl n3(1) unfolding n2_def
    by (simp add: tcp_receive_def Let_def del: add_2_eq_Suc')
  moreover have "connected sock (so_local_port s) (irs + 1) (upd_tcb ?t (\<lambda>tcb. tcb\<lparr>tcb_state := ESTABLISHED\<rparr>) n3)"
    using g1 sd tcb n3(2) by (auto simp: connected_def socket_get_def upd_tcb_def same_net_def n2_def)
  ultimately show ?thesis by blast
qed

text \<open>
  A TCP connection opens: on a socket without connection, with the peer's next hop resolved, \<open>socket_send\<close>
  sends a SYN and waits, and whatever SYN-ACK then arrives that acknowledges it (\<open>ack = isn + 1\<close>) establishes the
  connection, which expects the peer's first byte (\<open>irs + 1\<close>) next.
\<close>

theorem tcp_handshake:
  assumes "net_socks n ! sock = s" "sock < length (net_socks n)" "so_protocol s = TCP" "so_socket_data s = None"
    and "socket_get TCP (so_local_port s) n = Some sock"
    and "net_mem_ok n" and "route_lookup n (so_remote_ip s) = Some ia" and "resolved n ia (so_remote_ip s)"
  shows "\<exists>isn n1. socket_send (Some sock) (Some d) n = Some (None, n1) \<and>
    (\<forall>frame off sp irs flags wn pad iface src_ip len.
       drop off frame = segment sp (so_local_port s) irs (isn + 1) flags wn [] @ pad \<and>
       flags AND TCP_FLAG_FIN = 0 \<and> flags AND TCP_FLAG_RST = 0 \<and> flags AND TCP_FLAG_SYN \<noteq> 0 \<and> flags AND TCP_FLAG_ACK \<noteq> 0 \<longrightarrow>
       (\<exists>n2. tcp_receive iface src_ip frame off len n1 = Some n2 \<and> connected sock (so_local_port s) (irs + 1) n2))"
proof -
  obtain isn n1 where "socket_send (Some sock) (Some d) n = Some (None, n1)" "syn_sent sock s isn 1 n n1"
    using socket_send_syn [OF assms(1-4,6,7), of d] assms(8) by auto
  then show ?thesis using establish [OF _ assms(2,1,5)] by blast
qed

theorem tcp_handshake_witness:
  "\<exists>n isn n1 n2. socket_send (Some 0) (Some [1]) n = Some (None, n1) \<and>
     tcp_receive 0 0 (segment 99 80 7 (isn + 1) 18 0 []) 0 20 n1 = Some n2 \<and> connected 0 80 8 n2"
proof -
  let ?s = "\<lparr>so_protocol = TCP, so_local_ip = 0, so_local_port = 80, so_remote_ip = 0x0A000003, so_remote_port = 99, so_socket_data = None\<rparr>"
  let ?n = "demo_host 0x0A000002 [0, 1, 2, 3, 4, 5] [?s] [(0x0A000003, \<lparr>ae_timestamp = 0, ae_mac = [6, 7, 8, 9, 10, 11]\<rparr>)]"
  have 1: "net_socks ?n ! 0 = ?s" "0 < length (net_socks ?n)" "so_protocol ?s = TCP" "so_socket_data ?s = None"
    "socket_get TCP (so_local_port ?s) ?n = Some 0" "net_mem_ok ?n"
    by (simp_all add: demo_host_def socket_get_def)
  have 2: "route_lookup ?n (so_remote_ip ?s) = Some 0" "resolved ?n 0 (so_remote_ip ?s)"
    by (simp_all add: demo_host_def route_lookup_def is_same_subnet_def resolved_def arp_lookup_def get_next_hop_ip_def is_local_network_def)
  obtain isn n1 where o: "socket_send (Some 0) (Some [1]) ?n = Some (None, n1)"
    and a: "\<forall>frame off sp irs flags wn pad iface src_ip len.
       drop off frame = segment sp (so_local_port ?s) irs (isn + 1) flags wn [] @ pad \<and>
       flags AND TCP_FLAG_FIN = 0 \<and> flags AND TCP_FLAG_RST = 0 \<and> flags AND TCP_FLAG_SYN \<noteq> 0 \<and> flags AND TCP_FLAG_ACK \<noteq> 0 \<longrightarrow>
       (\<exists>n2. tcp_receive iface src_ip frame off len n1 = Some n2 \<and> connected 0 (so_local_port ?s) (irs + 1) n2)"
    using tcp_handshake [OF 1 2, of "[1]"] by blast
  have "\<exists>n2. tcp_receive 0 0 (segment 99 80 7 (isn + 1) 18 0 []) 0 20 n1 = Some n2 \<and> connected 0 (so_local_port ?s) (7 + 1) n2"
    using a [rule_format, of 0 "segment 99 80 7 (isn + 1) 18 0 []" 99 7 18 0 "[]" 0 0 20]
    by (simp add: TCP_FLAG_FIN_def TCP_FLAG_RST_def TCP_FLAG_SYN_def TCP_FLAG_ACK_def)
  with o show ?thesis by auto
qed

text \<open>A frame that ends right after its Ethernet header makes \<open>ip_receive\<close> read past it.\<close>

lemma short_ipv4_frame: "ethernet_receive 0 [0, 0, 0, 0, 0, 0, 0, 0, 0, 0, 0, 0, 0x08, 0x00] n = None"
  by (simp add: ethernet_receive_def rd16_def rd8_def rd_bytes_def bswap16_def ETHERNET_TYPE_IPV4_def ip_receive_def rd32_def)


end
