(* ===== verification/Dns.thy ===== *)
theory Dns
  imports Common Containers
begin

text \<open>
  The DNS client: names on the wire, queries and the record cache (\<open>src/kernel/src/network/dns.cpp\<close>).

  A function result has two layers: \<open>None\<close> is a read or write outside a buffer, \<open>Some None\<close> the code's
  \<open>nullptr\<close>.  The arrays the code allocates have 256 (names) and 255 (visited) entries.
\<close>

section \<open>Encoding a name\<close>

definition DNS_MAX_NAME_LENGTH :: nat where "DNS_MAX_NAME_LENGTH = 255"

text \<open>The loop of \<open>dns_encode_hostname\<close>; \<open>start\<close> and \<open>len\<close> delimit the current label, \<open>wp\<close> is \<open>write_ptr\<close>.\<close>

function enc_loop :: "u8 list \<Rightarrow> nat \<Rightarrow> nat \<Rightarrow> nat \<Rightarrow> u8 list \<Rightarrow> nat \<Rightarrow> (u8 list \<times> nat) option option" where
  "enc_loop hostname i start len buf wp =
     (if i > length hostname then Some (Some (buf, wp))
      else let c = (if i < length hostname then hostname ! i else 0) in
        if c = 0x2E \<or> c = 0
        then (if len = 0 then Some (Some (buf, wp))
              else if len > 63 then Some None
              else do {
                buf \<leftarrow> wr8 buf wp (of_nat len);
                buf \<leftarrow> wr_bytes buf (wp + 1) (take len (drop start hostname));
                if c = 0 then Some (Some (buf, wp + 1 + len))
                else enc_loop hostname (Suc i) (start + len + 1) 0 buf (wp + 1 + len) })
        else enc_loop hostname (Suc i) start (Suc len) buf wp)"
  by pat_completeness auto
termination by (relation "measure (\<lambda>(h, i, _). Suc (length h) - i)") auto

declare enc_loop.simps [simp del]

text \<open>\<open>alloc\<close>: whether the buffer could be allocated; \<open>raw\<close>: its 256 bytes before anything is written.\<close>

definition dns_encode_hostname :: "bool \<Rightarrow> u8 list \<Rightarrow> u8 list \<Rightarrow> u8 list option option" where
  "dns_encode_hostname alloc raw hostname =
     (if \<not> alloc then Some None
      else do {
        r \<leftarrow> enc_loop hostname 0 0 0 raw 0;
        case r of None \<Rightarrow> Some None
        | Some (buf, wp) \<Rightarrow> do {
            buf \<leftarrow> wr8 buf wp 0;
            if wp + 1 > 255 then Some None else Some (Some (take (wp + 1) buf)) } })"

definition dns_generate_header_id :: "u64 \<Rightarrow> (u16 \<times> u64) option" where
  "dns_generate_header_id clock = do {
     (r, seed) \<leftarrow> random_number_range 0 0xFFFF (seed_random clock);
     Some (ucast r, seed) }"

definition dns_header :: "u16 \<Rightarrow> u16 \<Rightarrow> u16 \<Rightarrow> u16 \<Rightarrow> u16 \<Rightarrow> u16 \<Rightarrow> u8 list" where
  "dns_header ident flags qdcount ancount nscount arcount =
     le16 ident @ le16 flags @ le16 qdcount @ le16 ancount @ le16 nscount @ le16 arcount"

definition dns_query :: "u16 \<Rightarrow> u16 \<Rightarrow> u8 list" where
  "dns_query qtype qclass = le16 qtype @ le16 qclass"

definition dns_create_query_packet ::
  "bool \<Rightarrow> bool \<Rightarrow> u8 list \<Rightarrow> u64 \<Rightarrow> u8 list \<Rightarrow> u16 \<Rightarrow> (u8 list option \<times> u64) option" where
  "dns_create_query_packet alloc1 alloc2 raw clock hostname type = do {
     (ident, seed) \<leftarrow> dns_generate_header_id clock;
     let header = dns_header ident (bswap16 0x0100) (bswap16 1) 0 0 0;
     r \<leftarrow> dns_encode_hostname alloc1 raw hostname;
     case r of None \<Rightarrow> Some (None, seed)
     | Some encoded_hostname \<Rightarrow>
         if \<not> alloc2 then Some (None, seed)
         else Some (Some (header @ encoded_hostname @ dns_query (bswap16 type) (bswap16 1)), seed) }"

section \<open>Decoding a name\<close>

text \<open>How the loop of \<open>dns_packet_decode_hostname\<close> ends: with \<open>nullptr\<close>, or past the loop with the value of
  \<open>loops\<close>; the offset is a reference parameter, so both carry it.\<close>

datatype dec_result = DecFail nat | DecEnd u64 nat "u8 list" nat "nat option"

text \<open>The body of the loop, up to the next test.  \<open>jumped\<close> and \<open>original_offset\<close> are one option.\<close>

datatype dec_step = StepFail nat | StepBreak nat | StepNext nat "u8 list" nat "bool list" "nat option"

definition dec_body ::
  "u8 list \<Rightarrow> nat \<Rightarrow> u8 list \<Rightarrow> nat \<Rightarrow> bool list \<Rightarrow> nat option \<Rightarrow> dec_step option" where
  "dec_body src offset out out_len visited jumped = do {
     len \<leftarrow> rd8 src offset;
     if len = 0 then Some (StepBreak (offset + 1))
     else if len AND 0xC0 = 0xC0 then
       (if offset + 1 \<ge> length src then Some (StepFail offset)
        else do {
          lo \<leftarrow> rd8 src (offset + 1);
          let ptr = unat (push_bit 8 (ucast (len AND 0x3F)) OR ucast lo :: u16);
          if ptr \<ge> length src then Some (StepFail offset)
          else if ptr < DNS_MAX_NAME_LENGTH \<and> visited ! ptr then Some (StepFail offset)
          else Some (StepNext ptr out out_len
                 (if ptr < DNS_MAX_NAME_LENGTH then visited[ptr := True] else visited)
                 (if jumped = None then Some (offset + 2) else jumped)) })
     else if len AND 0xC0 \<noteq> 0 then Some (StepFail offset)
     else if len > 63 then Some (StepFail offset)
     else if offset + 1 + unat len > length src then Some (StepFail (offset + 1))
     else if out_len \<noteq> 0 \<and> out_len + 1 \<ge> DNS_MAX_NAME_LENGTH then Some (StepFail (offset + 1))
     else do {
       out \<leftarrow> (if out_len \<noteq> 0 then wr8 out out_len 0x2E else Some out);
       let out_len = (if out_len \<noteq> 0 then out_len + 1 else out_len);
       if out_len + unat len \<ge> DNS_MAX_NAME_LENGTH then Some (StepFail (offset + 1))
       else do {
         label \<leftarrow> rd_bytes src (offset + 1) (unat len);
         out \<leftarrow> wr_bytes out out_len label;
         Some (StepNext (offset + 1 + unat len) out (out_len + unat len) visited jumped) } } }"

text \<open>The test \<open>offset < size && loops-- > 0\<close> counts \<open>loops\<close> down also when it is 0 already: it wraps.\<close>

fun dec_loop ::
  "nat \<Rightarrow> u8 list \<Rightarrow> nat \<Rightarrow> u8 list \<Rightarrow> nat \<Rightarrow> bool list \<Rightarrow> nat option \<Rightarrow> dec_result option" where
  "dec_loop 0 src offset out out_len visited jumped =
     Some (DecEnd (if offset < length src then -1 else 0) offset out out_len jumped)"
| "dec_loop (Suc loops) src offset out out_len visited jumped =
     (if offset < length src
      then do {
        s \<leftarrow> dec_body src offset out out_len visited jumped;
        case s of
          StepFail off \<Rightarrow> Some (DecFail off)
        | StepBreak off \<Rightarrow> Some (DecEnd (of_nat loops) off out out_len jumped)
        | StepNext off out out_len visited jumped \<Rightarrow> dec_loop loops src off out out_len visited jumped }
      else Some (DecEnd (of_nat (Suc loops)) offset out out_len jumped))"

text \<open>The name (up to \<open>out_len\<close>) and the offset after it.\<close>

definition dns_packet_decode_hostname ::
  "bool \<Rightarrow> u8 list \<Rightarrow> u8 list \<Rightarrow> nat \<Rightarrow> (u8 list option \<times> nat) option" where
  "dns_packet_decode_hostname alloc raw src offset =
     (if offset \<ge> length src then Some (None, offset)
      else if \<not> alloc then Some (None, offset)
      else do {
        r \<leftarrow> dec_loop DNS_MAX_NAME_LENGTH src offset raw 0 (replicate DNS_MAX_NAME_LENGTH False) None;
        case r of
          DecFail off \<Rightarrow> Some (None, off)
        | DecEnd loops off out out_len jumped \<Rightarrow>
            if loops = 0 then Some (None, off)
            else do {
              out \<leftarrow> wr8 out out_len 0;
              Some (Some (take out_len out), case jumped of Some original_offset \<Rightarrow> original_offset | None \<Rightarrow> off) } })"

text \<open>\<open>dns_packet_hostname_encoded_length\<close>; \<open>n\<close> is \<open>loops\<close>.\<close>

fun enc_len_loop :: "nat \<Rightarrow> u8 list \<Rightarrow> nat \<Rightarrow> nat option" where
  "enc_len_loop 0 src offset = Some 0"
| "enc_len_loop (Suc n) src offset =
     (if offset \<ge> length src then Some 0
      else do {
        len \<leftarrow> rd8 src offset;
        if len = 0 then Some (offset + 1)
        else if len AND 0xC0 = 0xC0 then
          (if offset + 1 \<ge> length src then Some 0
           else do {
             lo \<leftarrow> rd8 src (offset + 1);
             let ptr = unat (push_bit 8 (ucast (len AND 0x3F)) OR ucast lo :: u16);
             if ptr \<ge> length src then Some 0 else Some (offset + 2) })
        else if len AND 0xC0 \<noteq> 0 then Some 0
        else if len > 63 then Some 0
        else if offset + 1 + unat len > length src then Some 0
        else enc_len_loop n src (offset + 1 + unat len) })"

definition dns_packet_hostname_encoded_length :: "u8 list \<Rightarrow> nat option" where
  "dns_packet_hostname_encoded_length src =
     (if src = [] then Some 0 else enc_len_loop DNS_MAX_NAME_LENGTH src 0)"

section \<open>The record cache\<close>

record dns_cache_record =
  dr_ip :: u32
  dr_hostname :: "u8 list"

type_synonym dns_cache = "(u64, dns_cache_record) linear_map"

text \<open>A C string ends at its first zero byte.\<close>

definition hostname_hash :: "u8 list \<Rightarrow> u64" where
  "hostname_hash h = fnv1a_64 (map (\<lambda>b. char_of (unat b)) (takeWhile (\<lambda>b. b \<noteq> 0) h))"

definition dns_client_add_record :: "dns_cache option \<Rightarrow> u8 list option \<Rightarrow> u32 \<Rightarrow> bool \<times> dns_cache option" where
  "dns_client_add_record client hostname ip =
     (case (client, hostname) of
        (Some c, Some h) \<Rightarrow>
          if ip = 0 then (False, client)
          else (True, Some (snd (lm_insert (hostname_hash h) \<lparr>dr_ip = ip, dr_hostname = h\<rparr> c)))
      | _ \<Rightarrow> (False, client))"

definition dns_client_get_record :: "dns_cache option \<Rightarrow> u8 list option \<Rightarrow> dns_cache_record option" where
  "dns_client_get_record client hostname =
     (case (client, hostname) of
        (Some c, Some h) \<Rightarrow>
          (case lm_get (hostname_hash h) c of None \<Rightarrow> None | Some i \<Rightarrow> Some (snd (c ! i)))
      | _ \<Rightarrow> None)"

section \<open>Decoding stays in bounds\<close>

lemma wr_bytes_ok: "i + length xs \<le> length buf \<Longrightarrow> \<exists>b. wr_bytes buf i xs = Some b \<and> length b = length buf
    \<and> take (i + length xs) b = take i buf @ xs"
  by (simp add: wr_bytes_def)

text \<open>What the loop needs of its arrays.\<close>

definition dec_room :: "u8 list \<Rightarrow> nat \<Rightarrow> bool list \<Rightarrow> bool" where
  "dec_room out out_len visited \<longleftrightarrow> length out = 256 \<and> out_len \<le> 254 \<and> length visited = 255"

lemma dec_body_ok:
  assumes "dec_room out out_len visited" and "offset < length src"
  shows "\<exists>s. dec_body src offset out out_len visited jumped = Some s \<and>
    (case s of StepNext off out' out_len' visited' jumped' \<Rightarrow> dec_room out' out_len' visited' | _ \<Rightarrow> True)"
proof -
  obtain len where len: "rd8 src offset = Some len" using assms(2) by (simp add: rd8_def)
  have u: "unat len \<le> 63" if "\<not> len > 63" using that by (simp add: word_le_nat_alt not_less)
  show ?thesis
  proof (cases "len = 0 \<or> len AND 0xC0 \<noteq> 0 \<or> len > 63 \<or> offset + 1 + unat len > length src
      \<or> out_len \<noteq> 0 \<and> out_len + 1 \<ge> DNS_MAX_NAME_LENGTH")
    case True
    then show ?thesis using assms len
      by (auto simp: dec_body_def dec_room_def rd8_def Let_def DNS_MAX_NAME_LENGTH_def)
  next
    case False
    define ol where "ol = (if out_len \<noteq> 0 then out_len + 1 else out_len)"
    have "\<exists>out1. (if out_len \<noteq> 0 then wr8 out out_len 0x2E else Some out) = Some out1 \<and> length out1 = 256"
      using assms(1) by (auto simp: dec_room_def wr8_def)
    then obtain out1 where o1: "(if out_len \<noteq> 0 then wr8 out out_len 0x2E else Some out) = Some out1" "length out1 = 256"
      by blast
    have lb: "rd_bytes src (offset + 1) (unat len) = Some (take (unat len) (drop (offset + 1) src))"
      using False by (simp add: rd_bytes_def)
    have ll: "length (take (unat len) (drop (offset + 1) src)) = unat len" using False by (auto simp: min_def)
    show ?thesis
    proof (cases "ol + unat len \<ge> DNS_MAX_NAME_LENGTH")
      case True
      then show ?thesis using False len o1 by (simp add: dec_body_def ol_def Let_def)
    next
      case fits: False
      then have "ol + length (take (unat len) (drop (offset + 1) src)) \<le> length out1"
        unfolding ll using o1(2) by (simp add: DNS_MAX_NAME_LENGTH_def)
      from wr_bytes_ok [OF this] obtain b where b: "wr_bytes out1 ol (take (unat len) (drop (offset + 1) src)) = Some b"
        "length b = 256" using o1(2) by auto
      have "dec_body src offset out out_len visited jumped =
          Some (StepNext (offset + 1 + unat len) b (ol + unat len) visited jumped)"
        using False len o1 lb fits b unfolding dec_body_def ol_def by (simp add: Let_def)
      then show ?thesis using fits b(2) assms(1) by (simp add: dec_room_def DNS_MAX_NAME_LENGTH_def)
    qed
  qed
qed

lemma dec_loop_ok:
  assumes "dec_room out out_len visited"
  shows "\<exists>r. dec_loop n src offset out out_len visited jumped = Some r \<and>
    (case r of DecEnd loops off out' out_len' jumped' \<Rightarrow> length out' = 256 \<and> out_len' \<le> 254 | _ \<Rightarrow> True)"
  using assms
proof (induction n arbitrary: offset out out_len visited jumped)
  case 0
  then show ?case by (simp add: dec_room_def)
next
  case (Suc n)
  show ?case
  proof (cases "offset < length src")
    case True
    from dec_body_ok [OF Suc.prems True, of jumped] obtain s where
      s: "dec_body src offset out out_len visited jumped = Some s"
        "case s of StepNext off out' out_len' visited' jumped' \<Rightarrow> dec_room out' out_len' visited' | _ \<Rightarrow> True" by blast
    show ?thesis using True s Suc by (cases s) (auto simp: dec_room_def)
  next
    case False
    then show ?thesis using Suc.prems by (simp add: dec_room_def)
  qed
qed

lemma decode_ok:
  assumes "length raw = 256"
  shows "\<exists>r off. dns_packet_decode_hostname alloc raw src offset = Some (r, off) \<and> (\<forall>t. r = Some t \<longrightarrow> length t \<le> 254)"
proof -
  have "dec_room raw 0 (replicate DNS_MAX_NAME_LENGTH False)" using assms by (simp add: dec_room_def DNS_MAX_NAME_LENGTH_def)
  from dec_loop_ok [OF this] obtain r where
    "dec_loop DNS_MAX_NAME_LENGTH src offset raw 0 (replicate DNS_MAX_NAME_LENGTH False) None = Some r"
    "case r of DecEnd loops off out' out_len' jumped' \<Rightarrow> length out' = 256 \<and> out_len' \<le> 254 | _ \<Rightarrow> True" by blast
  then show ?thesis by (cases r) (auto simp: dns_packet_decode_hostname_def wr8_def)
qed

lemma enc_len_ok: "\<exists>k. enc_len_loop n src offset = Some k"
  by (induction n arbitrary: offset) (auto simp: rd8_def Let_def)

text \<open>
  Decoding a name is safe on any bytes: from any offset of any packet \<open>dns_packet_decode_hostname\<close> ends, never
  reads outside the packet nor writes outside its 256-byte buffer, and yields at most 254 characters;
  the length scan ends and stays inside, too.
\<close>

theorem dns_decode_safe:
  assumes "length raw = 256"
  shows "(\<exists>r off. dns_packet_decode_hostname alloc raw src offset = Some (r, off) \<and> (\<forall>t. r = Some t \<longrightarrow> length t \<le> 254)) \<and>
    (\<exists>k. dns_packet_hostname_encoded_length src = Some k)"
  using decode_ok [OF assms] enc_len_ok [of _ src 0] by (simp add: dns_packet_hostname_encoded_length_def)

theorem dns_decode_safe_witness:
  "\<exists>r off. dns_packet_decode_hostname True (replicate 256 0) [0xC0, 0x00] 0 = Some (r, off)"
  using dns_decode_safe [of "replicate 256 0" True "[0xC0, 0x00]" 0] by auto


section \<open>A name survives the wire\<close>

fun join_dots :: "u8 list list \<Rightarrow> u8 list" where
  "join_dots [] = []"
| "join_dots [l] = l"
| "join_dots (l # m # ls) = l @ 0x2E # join_dots (m # ls)"

definition label_ok :: "u8 list \<Rightarrow> bool" where
  "label_ok l \<longleftrightarrow> l \<noteq> [] \<and> length l \<le> 63 \<and> 0 \<notin> set l \<and> 0x2E \<notin> set l"

definition wire_label :: "u8 list \<Rightarrow> u8 list" where
  "wire_label l = of_nat (length l) # l"

definition wire_name :: "u8 list list \<Rightarrow> u8 list" where
  "wire_name ls = concat (map wire_label ls) @ [0]"

lemma join_dots_Cons: "ls \<noteq> [] \<Longrightarrow> join_dots (l # ls) = l @ 0x2E # join_dots ls"
  by (cases ls) auto

lemma length_wire: "ls \<noteq> [] \<Longrightarrow> length (concat (map wire_label ls)) = length (join_dots ls) + 1"
  by (induction ls rule: join_dots.induct) (auto simp: wire_label_def)

lemma enc_loop_label:
  assumes "drop start h = l @ r" and "0 \<notin> set l" "0x2E \<notin> set l" and "j \<le> length l" and "start \<le> length h"
  shows "enc_loop h (start + j) start j buf wp = enc_loop h (start + length l) start (length l) buf wp"
  using assms(4)
proof (induction "length l - j" arbitrary: j)
  case (Suc k)
  then have j: "j < length l" by simp
  have "start + j < length h" using arg_cong [OF assms(1), of length] j by simp
  moreover have "h ! (start + j) = l ! j"
    using assms(1) j by (metis nth_append nth_drop assms(5))
  moreover have "l ! j \<in> set l" using j by simp
  ultimately have "enc_loop h (start + j) start j buf wp = enc_loop h (start + Suc j) start (Suc j) buf wp"
    using assms(2,3) by (subst enc_loop.simps) (auto simp: Let_def)
  also have "\<dots> = enc_loop h (start + length l) start (length l) buf wp"
    using Suc j by (intro Suc.hyps(1)) simp_all
  finally show ?case .
qed simp

lemma put_label:
  assumes "wp + length l + 1 \<le> length buf"
  shows "\<exists>b1 b2. wr8 buf wp x = Some b1 \<and> wr_bytes b1 (wp + 1) l = Some b2 \<and> length b2 = length buf \<and>
    take (wp + 1 + length l) b2 = take wp buf @ x # l"
proof -
  have "wr8 buf wp x = Some (buf[wp := x])" using assms by (simp add: wr8_def)
  moreover have "wp + 1 + length l \<le> length (buf[wp := x])" using assms by simp
  from wr_bytes_ok [OF this] obtain b2 where
    "wr_bytes (buf[wp := x]) (wp + 1) l = Some b2" "length b2 = length buf" "take (wp + 1 + length l) b2 = take (wp + 1) (buf[wp := x]) @ l"
    by auto
  moreover have "take (wp + 1) (buf[wp := x]) = take wp buf @ [x]" using assms by (simp add: take_Suc_conv_app_nth)
  ultimately show ?thesis by auto
qed

lemma enc_loop_name:
  assumes "drop start h = join_dots ls" and "ls \<noteq> []" and "\<forall>l \<in> set ls. label_ok l" and "start \<le> length h"
    and "wp + length (join_dots ls) + 1 \<le> length buf"
  shows "\<exists>buf' wp'. enc_loop h start start 0 buf wp = Some (Some (buf', wp')) \<and> length buf' = length buf \<and>
    wp' = wp + length (join_dots ls) + 1 \<and> take wp' buf' = take wp buf @ concat (map wire_label ls)"
  using assms
proof (induction ls arbitrary: start buf wp rule: join_dots.induct)
  case (2 l)
  have l: "l \<noteq> []" "length l \<le> 63" "0 \<notin> set l" "0x2E \<notin> set l" using 2 by (simp_all add: label_ok_def)
  have e: "enc_loop h start start 0 buf wp = enc_loop h (start + length l) start (length l) buf wp"
    using enc_loop_label [of start h l "[]" 0] 2 l by simp
  have sl: "start + length l = length h" using arg_cong [OF 2(1), of length] 2(4) by simp
  obtain b1 b2 where b: "wr8 buf wp (of_nat (length l)) = Some b1" "wr_bytes b1 (wp + 1) l = Some b2" "length b2 = length buf"
    "take (wp + 1 + length l) b2 = take wp buf @ of_nat (length l) # l"
    using put_label [of wp l buf "of_nat (length l)"] 2(5) by auto
  show ?case using l sl b 2(1) unfolding e
    by (subst enc_loop.simps) (simp add: wire_label_def Let_def)
next
  case (3 l m ls)
  have l: "l \<noteq> []" "length l \<le> 63" "0 \<notin> set l" "0x2E \<notin> set l" using 3 by (simp_all add: label_ok_def)
  have d: "drop start h = l @ 0x2E # join_dots (m # ls)" using 3(2) by simp
  have e: "enc_loop h start start 0 buf wp = enc_loop h (start + length l) start (length l) buf wp"
    using enc_loop_label [of start h l _ 0] d 3 l by simp
  have len: "length h - start = length l + 1 + length (join_dots (m # ls))" using arg_cong [OF d, of length] by simp
  have lt: "start + length l < length h" using len by linarith
  have dot: "h ! (start + length l) = 0x2E" using d 3(5) by (metis nth_append_length nth_drop)
  have d2: "drop (start + length l + 1) h = join_dots (m # ls)"
    using arg_cong [OF d, of "drop (length l + 1)"] by (simp add: add.commute add.left_commute)
  obtain b1 b2 where b: "wr8 buf wp (of_nat (length l)) = Some b1" "wr_bytes b1 (wp + 1) l = Some b2" "length b2 = length buf"
    "take (wp + 1 + length l) b2 = take wp buf @ of_nat (length l) # l"
    using put_label [of wp l buf "of_nat (length l)"] 3(6) by auto
  have s: "enc_loop h start start 0 buf wp =
      enc_loop h (start + length l + 1) (start + length l + 1) 0 b2 (wp + 1 + length l)"
    unfolding e using l b dot lt d
    by (subst enc_loop.simps) (simp add: Let_def)
  have "start + length l + 1 \<le> length h" using len by simp
  from 3(1) [OF d2 _ _ this, of "wp + 1 + length l" b2] obtain buf' wp' where
    "enc_loop h (start + length l + 1) (start + length l + 1) 0 b2 (wp + 1 + length l) = Some (Some (buf', wp'))"
    "length buf' = length buf" "wp' = wp + 1 + length l + length (join_dots (m # ls)) + 1"
    "take wp' buf' = take (wp + 1 + length l) b2 @ concat (map wire_label (m # ls))"
    using 3(4,6) b(3) by auto
  then show ?case unfolding s b(4) by (simp add: wire_label_def [of l])
qed simp

lemma encode_name:
  assumes "ls \<noteq> []" and "\<forall>l \<in> set ls. label_ok l" and "length (join_dots ls) \<le> 253" and "length raw = 256"
  shows "dns_encode_hostname True raw (join_dots ls) = Some (Some (wire_name ls))"
proof -
  from enc_loop_name [of 0 "join_dots ls" ls 0 raw] assms obtain buf wp where
    e: "enc_loop (join_dots ls) 0 0 0 raw 0 = Some (Some (buf, wp))" "length buf = 256" "wp = length (join_dots ls) + 1"
      "take wp buf = concat (map wire_label ls)" by auto
  have "wp < length buf" using e(2,3) assms(3) by simp
  then have "wr8 buf wp 0 = Some (buf[wp := 0])" "take (wp + 1) (buf[wp := 0]) = wire_name ls"
    using e(4) by (simp_all add: wr8_def wire_name_def take_Suc_conv_app_nth)
  then show ?thesis using e(1,3) assms(3) by (simp add: dns_encode_hostname_def)
qed

lemma and_c0: "x \<le> 63 \<Longrightarrow> x AND 0xC0 = (0 :: u8)"
proof -
  assume "x \<le> 63"
  then have "drop_bit 6 x = 0" by (simp add: drop_bit_eq_div word_le_nat_alt word_unat_eq_iff unat_div)
  moreover have "x AND NOT (mask 6) = push_bit 6 (drop_bit 6 x)"
    by (rule bit_word_eqI) (auto simp: bit_and_iff bit_not_iff bit_mask_iff bit_push_bit_iff bit_drop_bit_eq)
  moreover have "NOT (mask 6) = (0xC0 :: u8)" by (simp add: mask_eq_exp_minus_1 not_eq_complement)
  ultimately show ?thesis by simp
qed


lemma dec_body_label:
  assumes d: "drop offset src = wire_label l @ r" and l: "label_ok l" and o: "length out = 256"
    and room: "out_len + (if out_len = 0 then 0 else 1) + length l \<le> 254"
  shows "\<exists>out'. dec_body src offset out out_len visited jumped =
      Some (StepNext (offset + 1 + length l) out' (out_len + (if out_len = 0 then 0 else 1) + length l) visited jumped) \<and>
    length out' = 256 \<and> take (out_len + (if out_len = 0 then 0 else 1) + length l) out' =
      take out_len out @ (if out_len = 0 then [] else [0x2E]) @ l"
proof -
  have len: "rd8 src offset = Some (of_nat (length l))"
    using d by (intro rd8_at [where r = "l @ r"]) (simp add: wire_label_def)
  have u: "unat (of_nat (length l) :: u8) = length l" using l by (simp add: label_ok_def unsigned_of_nat take_bit_nat_eq_self)
  have c: "(of_nat (length l) :: u8) \<le> 63" "(of_nat (length l) :: u8) \<noteq> 0"
    using l u by (auto simp: word_le_nat_alt label_ok_def simp flip: unat_eq_0)
  have dl: "drop (offset + 1) src = l @ r" using arg_cong [OF d, of "drop 1"] by (simp add: wire_label_def)
  have ls: "offset + 1 + length l \<le> length src"
    using arg_cong [OF d, of length] by (simp add: wire_label_def)
  have rb: "rd_bytes src (offset + 1) (length l) = Some l" using ls dl by (simp add: rd_bytes_def)
  define ol where "ol = out_len + (if out_len = 0 then 0 else 1)"
  obtain out1 where o1: "(if out_len \<noteq> 0 then wr8 out out_len 0x2E else Some out) = Some out1" "length out1 = 256"
    "take ol out1 = take out_len out @ (if out_len = 0 then [] else [0x2E])"
  proof (cases "out_len = 0")
    case True
    with o show ?thesis by (intro that [of out]) (simp_all add: ol_def)
  next
    case False
    with o room show ?thesis
      by (intro that [of "out[out_len := 0x2E]"]) (simp_all add: ol_def wr8_def take_Suc_conv_app_nth)
  qed
  have "ol + length l \<le> length out1" using room o1(2) by (simp add: ol_def)
  from wr_bytes_ok [OF this] obtain b where b: "wr_bytes out1 ol l = Some b" "length b = 256" "take (ol + length l) b = take ol out1 @ l"
    using o1(2) by auto
  have "dec_body src offset out out_len visited jumped = Some (StepNext (offset + 1 + length l) b (ol + length l) visited jumped)"
    using len c and_c0 [OF c(1)] u ls rb room o1(1) b(1) unfolding dec_body_def ol_def DNS_MAX_NAME_LENGTH_def
    by (cases "out_len = 0") (simp_all add: Let_def not_less)
  then show ?thesis using b o1(3) by (intro exI [of _ b]) (simp add: ol_def)
qed


definition dotted :: "nat \<Rightarrow> u8 list list \<Rightarrow> u8 list" where
  "dotted out_len ls = (if out_len = 0 \<or> ls = [] then [] else [0x2E]) @ join_dots ls"

lemma dec_loop_name:
  assumes "drop offset src = wire_name ls @ r" and "\<forall>l \<in> set ls. label_ok l" and "length out = 256"
    and "out_len + length (dotted out_len ls) \<le> 254" and "length ls < n"
  shows "\<exists>out'. dec_loop n src offset out out_len visited jumped =
      Some (DecEnd (of_nat (n - length ls - 1)) (offset + length (wire_name ls)) out' (out_len + length (dotted out_len ls)) jumped) \<and>
    length out' = 256 \<and> take (out_len + length (dotted out_len ls)) out' = take out_len out @ dotted out_len ls"
  using assms
proof (induction ls arbitrary: offset out out_len n)
  case Nil
  then obtain k where n: "n = Suc k" by (cases n) auto
  have z: "rd8 src offset = Some 0" using Nil(1) by (intro rd8_at) (simp add: wire_name_def)
  then have "offset < length src" by (simp add: rd8_Some_iff)
  then show ?case using Nil n z by (simp add: dec_body_def dotted_def wire_name_def)
next
  case (Cons l ls)
  obtain k where n: "n = Suc k" using Cons.prems(5) by (cases n) auto
  have lok: "label_ok l" using Cons.prems(2) by simp
  have ne: "l \<noteq> []" using lok by (simp add: label_ok_def)
  have d: "drop offset src = wire_label l @ wire_name ls @ r" using Cons.prems(1) by (simp add: wire_name_def)
  let ?ol = "out_len + (if out_len = 0 then 0 else 1) + length l"
  have dl: "length (dotted out_len (l # ls)) = (if out_len = 0 then 0 else 1) + length l + length (dotted ?ol ls)"
    and ds: "dotted out_len (l # ls) = (if out_len = 0 then [] else [0x2E]) @ l @ dotted ?ol ls"
    using ne by (cases ls; simp add: dotted_def)+
  have room: "?ol \<le> 254" using Cons.prems(4) dl by simp
  from dec_body_label [OF d lok Cons.prems(3) room, of visited jumped] obtain out1 where
    b: "dec_body src offset out out_len visited jumped = Some (StepNext (offset + 1 + length l) out1 ?ol visited jumped)"
      "length out1 = 256" "take ?ol out1 = take out_len out @ (if out_len = 0 then [] else [0x2E]) @ l" by auto
  have d1: "drop (offset + 1 + length l) src = wire_name ls @ r"
    using arg_cong [OF d, of "drop (1 + length l)"] by (simp add: wire_label_def add.commute add.left_commute)
  have lt: "offset < length src" using arg_cong [OF d, of length] by (cases "offset < length src") (simp_all add: wire_label_def)
  from Cons.IH [OF d1 _ b(2), of ?ol k] obtain out' where
    i: "dec_loop k src (offset + 1 + length l) out1 ?ol visited jumped =
        Some (DecEnd (of_nat (k - length ls - 1)) (offset + 1 + length l + length (wire_name ls)) out' (?ol + length (dotted ?ol ls)) jumped)"
      "length out' = 256" "take (?ol + length (dotted ?ol ls)) out' = take ?ol out1 @ dotted ?ol ls"
    using Cons.prems(2,4,5) n dl by auto
  have "dec_loop n src offset out out_len visited jumped =
      Some (DecEnd (of_nat (n - length (l # ls) - 1)) (offset + length (wire_name (l # ls))) out'
        (out_len + length (dotted out_len (l # ls))) jumped)"
    using lt b(1) i(1) n unfolding dl by (simp add: wire_name_def wire_label_def [of l] add.assoc del: of_nat_diff)
  moreover have "take (out_len + length (dotted out_len (l # ls))) out' = take out_len out @ dotted out_len (l # ls)"
    using i(3) b(3) unfolding dl ds by (cases "out_len = 0") (simp_all add: add.assoc)
  ultimately show ?case using i(2) by blast
qed


lemma enc_len_name:
  assumes "drop offset src = wire_name ls @ r" and "\<forall>l \<in> set ls. label_ok l" and "length ls < n"
  shows "enc_len_loop n src offset = Some (offset + length (wire_name ls))"
  using assms
proof (induction ls arbitrary: offset n)
  case Nil
  then obtain k where n: "n = Suc k" by (cases n) auto
  have z: "rd8 src offset = Some 0" using Nil(1) by (intro rd8_at) (simp add: wire_name_def)
  then have "offset < length src" by (simp add: rd8_Some_iff)
  then show ?case using n z by (simp add: wire_name_def)
next
  case (Cons l ls)
  obtain k where n: "n = Suc k" using Cons.prems(3) by (cases n) auto
  have l: "label_ok l" using Cons.prems(2) by simp
  have d: "drop offset src = wire_label l @ wire_name ls @ r" using Cons.prems(1) by (simp add: wire_name_def)
  have len: "rd8 src offset = Some (of_nat (length l))"
    using d by (intro rd8_at [where r = "l @ wire_name ls @ r"]) (simp add: wire_label_def)
  have u: "unat (of_nat (length l) :: u8) = length l" using l by (simp add: label_ok_def unsigned_of_nat take_bit_nat_eq_self)
  have c: "(of_nat (length l) :: u8) \<le> 63" "(of_nat (length l) :: u8) \<noteq> 0"
    using l u by (auto simp: word_le_nat_alt label_ok_def simp flip: unat_eq_0)
  have ls: "offset + 1 + length l \<le> length src" using arg_cong [OF d, of length] by (simp add: wire_label_def)
  have d1: "drop (offset + 1 + length l) src = wire_name ls @ r"
    using arg_cong [OF d, of "drop (1 + length l)"] by (simp add: wire_label_def add.commute add.left_commute)
  have "enc_len_loop k src (offset + 1 + length l) = Some (offset + 1 + length l + length (wire_name ls))"
    using Cons.IH [OF d1] Cons.prems(2,3) n by simp
  then show ?case using len c and_c0 [OF c(1)] u ls n
    by (simp add: Let_def not_less wire_name_def wire_label_def [of l])
qed

lemma length_labels: "\<forall>l \<in> set ls. label_ok l \<Longrightarrow> length ls \<le> length (join_dots ls)"
proof (induction ls rule: join_dots.induct)
  case (2 l)
  then show ?case by (cases l) (auto simp: label_ok_def)
qed auto

lemma decode_wire_name:
  assumes "drop off packet = wire_name ls @ r" and "\<forall>l \<in> set ls. label_ok l" and "length (join_dots ls) \<le> 253"
    and "length raw = 256"
  shows "dns_packet_decode_hostname True raw packet off = Some (Some (join_dots ls), off + length (wire_name ls))"
proof -
  have n: "length ls \<le> 253" using length_labels [OF assms(2)] assms(3) by linarith
  have dot: "dotted 0 ls = join_dots ls" by (simp add: dotted_def)
  from dec_loop_name [OF assms(1,2,4), of 0 255 "replicate 255 False" None] obtain out' where
    d: "dec_loop 255 packet off raw 0 (replicate 255 False) None =
       Some (DecEnd (of_nat (255 - length ls - 1)) (off + length (wire_name ls)) out' (length (join_dots ls)) None)"
     "length out' = 256" "take (length (join_dots ls)) out' = join_dots ls"
    using n assms(3) dot by auto
  have k: "(of_nat k :: u64) \<noteq> 0" if "0 < k" "k < 256" for k
    using that by (auto simp: word_of_nat_eq_0_iff dest!: dvd_imp_le)
  have nz: "(of_nat (255 - length ls - 1) :: u64) \<noteq> 0" using n by (intro k) linarith+
  have "off < length packet" using arg_cong [OF assms(1), of length] by (simp add: wire_name_def)
  with d nz assms(3) show ?thesis unfolding dns_packet_decode_hostname_def DNS_MAX_NAME_LENGTH_def
    by (simp add: wr8_def del: of_nat_diff)
qed

lemma scan_wire_name:
  assumes "\<forall>l \<in> set ls. label_ok l" and "length (join_dots ls) \<le> 253"
  shows "dns_packet_hostname_encoded_length (wire_name ls @ r) = Some (length (wire_name ls))"
proof -
  have "length ls < 255" using length_labels [OF assms(1)] assms(2) by linarith
  with enc_len_name [of 0 "wire_name ls @ r" ls r 255] assms(1) show ?thesis
    by (simp add: dns_packet_hostname_encoded_length_def DNS_MAX_NAME_LENGTH_def wire_name_def)
qed

text \<open>
  C37. A host name survives the wire: every name of non-empty labels of at most 63 bytes and at most 253
  bytes in all is encoded in bounds, and wherever the encoding stands in a packet, decoding it
  gives back the name and the offset behind it, and the length scan gives its length.
\<close>

theorem dns_name_roundtrip:
  assumes "ls \<noteq> []" and "\<forall>l \<in> set ls. label_ok l" and "length (join_dots ls) \<le> 253"
    and "length raw = 256" and "length raw' = 256"
  shows "\<exists>e. dns_encode_hostname True raw (join_dots ls) = Some (Some e) \<and>
    dns_packet_decode_hostname True raw' (pre @ e @ post) (length pre) = Some (Some (join_dots ls), length pre + length e) \<and>
    dns_packet_hostname_encoded_length (e @ post) = Some (length e)"
  using encode_name [OF assms(1-4)] scan_wire_name [OF assms(2,3)]
    decode_wire_name [of "length pre" "pre @ wire_name ls @ post" ls post, OF _ assms(2,3,5)] by simp

theorem dns_name_roundtrip_witness:
  "\<exists>e. dns_encode_hostname True (replicate 256 0) [0x61, 0x2E, 0x62] = Some (Some e) \<and>
     dns_packet_decode_hostname True (replicate 256 0) ([9] @ e @ [9]) 1 = Some (Some [0x61, 0x2E, 0x62], 1 + length e)"
  using dns_name_roundtrip [of "[[0x61], [0x62]]" "replicate 256 0" "replicate 256 0" "[9]" "[9]"]
  by (auto simp: label_ok_def)

text \<open>The guard against pointer cycles wraps: a name behind the first 255 bytes that points at itself uses
  up all 255 rounds and is then accepted as the empty name.\<close>

lemma dec_body_self:
  assumes "rd8 src 300 = Some 0xC1" and "rd8 src 301 = Some 0x2C"
  shows "\<exists>j. dec_body src 300 out out_len visited jumped = Some (StepNext 300 out out_len visited j)"
proof -
  have "300 < length src" using assms by (simp add: rd8_Some_iff)
  moreover have "300 + 1 < length src" using assms by (simp add: rd8_Some_iff)
  ultimately show ?thesis using assms by (simp add: dec_body_def DNS_MAX_NAME_LENGTH_def)
qed

lemma dec_loop_self:
  assumes "rd8 src 300 = Some 0xC1" and "rd8 src 301 = Some 0x2C"
  shows "\<exists>j. dec_loop n src 300 out 0 visited jumped = Some (DecEnd (-1) 300 out 0 j)"
proof (induction n arbitrary: jumped)
  case 0
  then show ?case using assms by (simp add: rd8_Some_iff)
next
  case (Suc n)
  obtain j where "dec_body src 300 out 0 visited jumped = Some (StepNext 300 out 0 visited j)"
    using dec_body_self [OF assms] by blast
  then show ?case using Suc [of j] assms by (simp add: rd8_Some_iff)
qed

lemma pointer_cycle_accepted:
  assumes "rd8 src 300 = Some 0xC1" and "rd8 src 301 = Some 0x2C" and "length raw = 256"
  shows "\<exists>off. dns_packet_decode_hostname True raw src 300 = Some (Some [], off)"
proof -
  have "300 < length src" using assms by (simp add: rd8_Some_iff)
  then show ?thesis
    using dec_loop_self [OF assms(1,2), of DNS_MAX_NAME_LENGTH raw "replicate DNS_MAX_NAME_LENGTH False" None] assms(3)
    by (auto simp: dns_packet_decode_hostname_def wr8_def)
qed

end
