(* ===== verification/Dhcp.thy ===== *)
theory Dhcp
  imports Net
begin

text \<open>
  The DHCP client: the packets it sends and the options of the packets it gets
  (\<open>src/kernel/src/network/dhcp.cpp\<close>).

  A received packet is a position in a frame; \<open>None\<close> is a read past the frame or a write past a buffer.
\<close>

section \<open>Packets and options\<close>

definition DHCP_PORT_CLIENT :: u16 where "DHCP_PORT_CLIENT = 68"
definition DHCP_PORT_SERVER :: u16 where "DHCP_PORT_SERVER = 67"
definition DHCP_MAGIC :: u32 where "DHCP_MAGIC = 0x63825363"
definition DHCP_OP_BOOTREQUEST :: u8 where "DHCP_OP_BOOTREQUEST = 1"
definition DHCP_OP_BOOTREPLY :: u8 where "DHCP_OP_BOOTREPLY = 2"
definition DHCP_HTYPE_ETHERNET :: u8 where "DHCP_HTYPE_ETHERNET = 1"
definition DHCP_HLEN_ETHERNET_ADDRESS :: u8 where "DHCP_HLEN_ETHERNET_ADDRESS = 6"
definition DHCP_MESSAGE_TYPE_DHCPDISCOVER :: u8 where "DHCP_MESSAGE_TYPE_DHCPDISCOVER = 1"
definition DHCP_MESSAGE_TYPE_DHCPOFFER :: u8 where "DHCP_MESSAGE_TYPE_DHCPOFFER = 2"
definition DHCP_MESSAGE_TYPE_DHCPREQUEST :: u8 where "DHCP_MESSAGE_TYPE_DHCPREQUEST = 3"
definition DHCP_MESSAGE_TYPE_DHCPACK :: u8 where "DHCP_MESSAGE_TYPE_DHCPACK = 5"
definition DHCP_OPTION_PAD :: u8 where "DHCP_OPTION_PAD = 0"
definition DHCP_OPTION_SUBNET_MASK :: u8 where "DHCP_OPTION_SUBNET_MASK = 1"
definition DHCP_OPTION_ROUTER :: u8 where "DHCP_OPTION_ROUTER = 3"
definition DHCP_OPTION_DNS :: u8 where "DHCP_OPTION_DNS = 6"
definition DHCP_OPTION_HOSTNAME :: u8 where "DHCP_OPTION_HOSTNAME = 12"
definition DHCP_OPTION_REQUESTED_IP_ADDR :: u8 where "DHCP_OPTION_REQUESTED_IP_ADDR = 50"
definition DHCP_OPTION_IP_LEASE_TIME :: u8 where "DHCP_OPTION_IP_LEASE_TIME = 51"
definition DHCP_OPTION_DHCP_MESSAGE_TYPE :: u8 where "DHCP_OPTION_DHCP_MESSAGE_TYPE = 53"
definition DHCP_OPTION_DHCP_SERVER_ID :: u8 where "DHCP_OPTION_DHCP_SERVER_ID = 54"
definition DHCP_OPTION_PARAMETER_REQUEST_LIST :: u8 where "DHCP_OPTION_PARAMETER_REQUEST_LIST = 55"
definition DHCP_OPTION_CLIENT_ID :: u8 where "DHCP_OPTION_CLIENT_ID = 61"
definition DHCP_OPTION_END :: u8 where "DHCP_OPTION_END = 255"

lemmas dhcp_consts = DHCP_MESSAGE_TYPE_DHCPDISCOVER_def DHCP_MESSAGE_TYPE_DHCPOFFER_def
  DHCP_MESSAGE_TYPE_DHCPREQUEST_def DHCP_MESSAGE_TYPE_DHCPACK_def DHCP_OPTION_PAD_def
  DHCP_OPTION_SUBNET_MASK_def DHCP_OPTION_ROUTER_def DHCP_OPTION_DNS_def DHCP_OPTION_HOSTNAME_def
  DHCP_OPTION_REQUESTED_IP_ADDR_def DHCP_OPTION_IP_LEASE_TIME_def DHCP_OPTION_DHCP_MESSAGE_TYPE_def
  DHCP_OPTION_DHCP_SERVER_ID_def DHCP_OPTION_PARAMETER_REQUEST_LIST_def DHCP_OPTION_CLIENT_ID_def
  DHCP_OPTION_END_def DHCP_OP_BOOTREQUEST_def DHCP_OP_BOOTREPLY_def DHCP_HTYPE_ETHERNET_def
  DHCP_HLEN_ETHERNET_ADDRESS_def

record dhcp_packet =
  dp_op :: u8
  dp_htype :: u8
  dp_hlen :: u8
  dp_hops :: u8
  dp_xid :: u32
  dp_secs :: u16
  dp_flags :: u16
  dp_client_ip_addr :: u32
  dp_your_ip_addr :: u32
  dp_server_ip_addr :: u32
  dp_gateway_ip_addr :: u32
  dp_client_hw_addr :: "u8 list"
  dp_server_name :: "u8 list"
  dp_file :: "u8 list"
  dp_magic :: u32
  dp_options :: "u8 list"

text \<open>\<open>sizeof(dhcp_packet_t)\<close>, the offset and the size of its last member, and its memory image.\<close>

definition DHCP_OPTIONS_SIZE :: nat where "DHCP_OPTIONS_SIZE = 308"

definition dhcp_bytes :: "dhcp_packet \<Rightarrow> u8 list" where
  "dhcp_bytes p = [dp_op p, dp_htype p, dp_hlen p, dp_hops p] @ le32 (dp_xid p) @ le16 (dp_secs p) @ le16 (dp_flags p)
     @ le32 (dp_client_ip_addr p) @ le32 (dp_your_ip_addr p) @ le32 (dp_server_ip_addr p) @ le32 (dp_gateway_ip_addr p)
     @ dp_client_hw_addr p @ dp_server_name p @ dp_file p @ le32 (dp_magic p) @ dp_options p"

definition dhcp_zero :: dhcp_packet where
  "dhcp_zero = \<lparr>dp_op = 0, dp_htype = 0, dp_hlen = 0, dp_hops = 0, dp_xid = 0, dp_secs = 0, dp_flags = 0,
     dp_client_ip_addr = 0, dp_your_ip_addr = 0, dp_server_ip_addr = 0, dp_gateway_ip_addr = 0,
     dp_client_hw_addr = replicate 16 0, dp_server_name = replicate 64 0, dp_file = replicate 128 0, dp_magic = 0,
     dp_options = replicate DHCP_OPTIONS_SIZE 0\<rparr>"

section \<open>Writing options\<close>

record dhcp_options_writer =
  ow_buffer :: "u8 list"
  ow_buffer_size :: nat
  ow_offset :: nat

definition dhcp_options_writer_init :: "u8 list \<Rightarrow> nat \<Rightarrow> dhcp_options_writer" where
  "dhcp_options_writer_init buffer n = \<lparr>ow_buffer = buffer, ow_buffer_size = n, ow_offset = 0\<rparr>"

definition dhcp_options_writer_add_option ::
  "u8 \<Rightarrow> u8 list \<Rightarrow> dhcp_options_writer \<Rightarrow> (bool \<times> dhcp_options_writer) option" where
  "dhcp_options_writer_add_option type data w =
     (if ow_offset w + length data + 2 > ow_buffer_size w then Some (False, w)
      else do {
        b \<leftarrow> wr8 (ow_buffer w) (ow_offset w) type;
        b \<leftarrow> wr8 b (ow_offset w + 1) (of_nat (length data));
        b \<leftarrow> wr_bytes b (ow_offset w + 2) data;
        Some (True, w\<lparr>ow_buffer := b, ow_offset := ow_offset w + 2 + length data\<rparr>) })"

definition dhcp_options_writer_shutdown :: "dhcp_options_writer \<Rightarrow> (bool \<times> dhcp_options_writer) option" where
  "dhcp_options_writer_shutdown w =
     (if ow_offset w \<ge> ow_buffer_size w then Some (False, w)
      else do {
        b \<leftarrow> wr8 (ow_buffer w) (ow_offset w) DHCP_OPTION_END;
        Some (True, w\<lparr>ow_buffer := b, ow_offset := ow_offset w + 1\<rparr>) })"

section \<open>Finding an option\<close>

text \<open>The loop of \<open>dhcp_option_get\<close>; \<open>base\<close> is the position of \<open>packet->options\<close>, the answer that of the option.\<close>

function option_loop :: "u8 list \<Rightarrow> nat \<Rightarrow> u8 \<Rightarrow> nat \<Rightarrow> nat option option" where
  "option_loop frame base type ptr =
     (if ptr < DHCP_OPTIONS_SIZE then do {
        code \<leftarrow> rd8 frame (base + ptr);
        if code = DHCP_OPTION_END then Some None
        else if code = DHCP_OPTION_PAD then option_loop frame base type (ptr + 1)
        else if ptr + 1 \<ge> DHCP_OPTIONS_SIZE then Some None
        else do {
          len \<leftarrow> rd8 frame (base + ptr + 1);
          if ptr + 2 + unat len > DHCP_OPTIONS_SIZE then Some None
          else if code = type then Some (Some (base + ptr))
          else option_loop frame base type (ptr + 2 + unat len) } }
      else Some None)"
  by pat_completeness auto
termination by (relation "measure (\<lambda>(f, b, t, ptr). DHCP_OPTIONS_SIZE - ptr)") auto

declare option_loop.simps [simp del]

definition dhcp_option_get :: "u8 list \<Rightarrow> nat \<Rightarrow> u8 \<Rightarrow> nat option option" where
  "dhcp_option_get frame packet type = option_loop frame (packet + 240) type 0"

fun field_loop :: "u32 \<Rightarrow> u8 list \<Rightarrow> u32" where
  "field_loop number [] = number"
| "field_loop number (b # r) = field_loop (push_bit 8 number + ucast b) r"

definition dhcp_field_to_number :: "u8 list \<Rightarrow> nat \<Rightarrow> nat \<Rightarrow> u32 option" where
  "dhcp_field_to_number frame field n = map_option (field_loop 0) (rd_bytes frame field n)"

section \<open>The packets of the client\<close>

record dhcp_session =
  ds_xid :: u32
  ds_ip :: u32
  ds_dhcp_ip :: u32
  ds_lease_time :: u32
  ds_interface :: "nat option"

text \<open>The number generator is seeded by the clock.\<close>

definition dhcp_generate_xid :: "net \<Rightarrow> (u32 \<times> net) option" where
  "dhcp_generate_xid n = do {
     (r, seed) \<leftarrow> random_number_range 0 0xFFFFFFFF (seed_random (net_clock n));
     Some (ucast r, n\<lparr>net_seed := seed\<rparr>) }"

definition dhcp_client_create_session :: "nat \<Rightarrow> net \<Rightarrow> (dhcp_session \<times> net) option" where
  "dhcp_client_create_session target_interface n = do {
     (xid, n) \<leftarrow> dhcp_generate_xid n;
     Some (\<lparr>ds_xid = xid, ds_ip = 0, ds_dhcp_ip = 0, ds_lease_time = 0, ds_interface = Some target_interface\<rparr>, n) }"

text \<open>A run of calls of the writer whose results the code drops.\<close>

fun add_options :: "(u8 \<times> u8 list) list \<Rightarrow> dhcp_options_writer \<Rightarrow> dhcp_options_writer option" where
  "add_options [] w = Some w"
| "add_options ((type, data) # os) w = do {
     (_, w) \<leftarrow> dhcp_options_writer_add_option type data w;
     add_options os w }"

definition write_options :: "(u8 \<times> u8 list) list \<Rightarrow> u8 list \<Rightarrow> u8 list option" where
  "write_options os buf = do {
     w \<leftarrow> add_options os (dhcp_options_writer_init buf (length buf));
     (_, w) \<leftarrow> dhcp_options_writer_shutdown w;
     Some (ow_buffer w) }"

definition dhcp_create_discover_packet :: "u8 list \<Rightarrow> dhcp_session option \<Rightarrow> net \<Rightarrow> dhcp_packet option" where
  "dhcp_create_discover_packet hostname sess n =
     (case sess of None \<Rightarrow> Some dhcp_zero
      | Some s \<Rightarrow> do {
          i \<leftarrow> ds_interface s;
          mac \<leftarrow> rd_bytes (if_mac (net_ifaces n ! i)) 0 6;
          options \<leftarrow> write_options
            [(DHCP_OPTION_DHCP_MESSAGE_TYPE, [DHCP_MESSAGE_TYPE_DHCPDISCOVER]),
             (DHCP_OPTION_CLIENT_ID, DHCP_HTYPE_ETHERNET # mac),
             (DHCP_OPTION_HOSTNAME, hostname),
             (DHCP_OPTION_PARAMETER_REQUEST_LIST, [DHCP_OPTION_SUBNET_MASK, DHCP_OPTION_ROUTER, DHCP_OPTION_DNS])]
            (dp_options dhcp_zero);
          Some (dhcp_zero\<lparr>dp_op := DHCP_OP_BOOTREQUEST, dp_htype := DHCP_HTYPE_ETHERNET,
            dp_hlen := DHCP_HLEN_ETHERNET_ADDRESS, dp_hops := 0, dp_xid := ds_xid s, dp_secs := bswap16 0,
            dp_flags := bswap16 0x8000, dp_client_ip_addr := bswap32 0, dp_your_ip_addr := bswap32 0,
            dp_server_ip_addr := bswap32 0, dp_gateway_ip_addr := bswap32 0,
            dp_client_hw_addr := mac @ replicate 10 0, dp_magic := bswap32 DHCP_MAGIC, dp_options := options\<rparr>) })"

definition dhcp_create_request_packet :: "u8 list \<Rightarrow> dhcp_session option \<Rightarrow> u32 \<Rightarrow> net \<Rightarrow> dhcp_packet option" where
  "dhcp_create_request_packet hostname sess wanted_ip n =
     (case sess of None \<Rightarrow> Some dhcp_zero
      | Some s \<Rightarrow> do {
          i \<leftarrow> ds_interface s;
          mac \<leftarrow> rd_bytes (if_mac (net_ifaces n ! i)) 0 6;
          options \<leftarrow> write_options
            [(DHCP_OPTION_DHCP_MESSAGE_TYPE, [DHCP_MESSAGE_TYPE_DHCPREQUEST]),
             (DHCP_OPTION_CLIENT_ID, DHCP_HTYPE_ETHERNET # mac),
             (DHCP_OPTION_REQUESTED_IP_ADDR, le32 (bswap32 wanted_ip)),
             (DHCP_OPTION_DHCP_SERVER_ID, le32 (bswap32 (ds_dhcp_ip s))),
             (DHCP_OPTION_HOSTNAME, hostname),
             (DHCP_OPTION_PARAMETER_REQUEST_LIST, [DHCP_OPTION_SUBNET_MASK, DHCP_OPTION_ROUTER, DHCP_OPTION_DNS])]
            (dp_options dhcp_zero);
          Some (dhcp_zero\<lparr>dp_op := DHCP_OP_BOOTREQUEST, dp_htype := DHCP_HTYPE_ETHERNET,
            dp_hlen := DHCP_HLEN_ETHERNET_ADDRESS, dp_hops := 0, dp_xid := ds_xid s, dp_secs := bswap16 0,
            dp_flags := bswap16 0x8000, dp_client_ip_addr := bswap32 0, dp_your_ip_addr := bswap32 0,
            dp_server_ip_addr := bswap32 0, dp_gateway_ip_addr := bswap32 0,
            dp_client_hw_addr := mac @ replicate 10 0, dp_magic := bswap32 DHCP_MAGIC, dp_options := options\<rparr>) })"

definition dhcp_create_lease_extend_packet :: "u8 list \<Rightarrow> dhcp_session option \<Rightarrow> u32 \<Rightarrow> net \<Rightarrow> dhcp_packet option" where
  "dhcp_create_lease_extend_packet hostname sess ip_to_extend n =
     (case sess of None \<Rightarrow> Some dhcp_zero
      | Some s \<Rightarrow> do {
          i \<leftarrow> ds_interface s;
          mac \<leftarrow> rd_bytes (if_mac (net_ifaces n ! i)) 0 6;
          options \<leftarrow> write_options
            [(DHCP_OPTION_DHCP_MESSAGE_TYPE, [DHCP_MESSAGE_TYPE_DHCPREQUEST]),
             (DHCP_OPTION_REQUESTED_IP_ADDR, le32 (bswap32 ip_to_extend)),
             (DHCP_OPTION_DHCP_SERVER_ID, le32 (bswap32 (ds_dhcp_ip s))),
             (DHCP_OPTION_HOSTNAME, hostname)]
            (dp_options dhcp_zero);
          Some (dhcp_zero\<lparr>dp_op := DHCP_OP_BOOTREQUEST, dp_htype := DHCP_HTYPE_ETHERNET,
            dp_hlen := DHCP_HLEN_ETHERNET_ADDRESS, dp_hops := 0, dp_xid := ds_xid s, dp_secs := bswap16 0,
            dp_flags := bswap16 0, dp_client_ip_addr := bswap32 ip_to_extend, dp_your_ip_addr := bswap32 0,
            dp_server_ip_addr := bswap32 (ds_dhcp_ip s), dp_gateway_ip_addr := bswap32 0,
            dp_client_hw_addr := mac @ replicate 10 0, dp_magic := bswap32 DHCP_MAGIC, dp_options := options\<rparr>) })"

section \<open>The search is safe\<close>

lemma option_loop_ok:
  assumes "base + DHCP_OPTIONS_SIZE \<le> length frame"
  shows "\<exists>r. option_loop frame base type ptr = Some r \<and>
    (\<forall>p. r = Some p \<longrightarrow> base \<le> p \<and> frame ! p = type \<and> p + 2 + unat (frame ! (p + 1)) \<le> base + DHCP_OPTIONS_SIZE)"
  using assms
proof (induction frame base type ptr rule: option_loop.induct)
  case (1 frame base type ptr)
  let ?e = "frame ! (base + ptr) = DHCP_OPTION_END"
  let ?l = "unat (frame ! (base + ptr + 1))"
  consider "ptr < DHCP_OPTIONS_SIZE" "frame ! (base + ptr) = DHCP_OPTION_PAD" "\<not> ?e"
    | "ptr + 1 < DHCP_OPTIONS_SIZE" "frame ! (base + ptr) \<noteq> DHCP_OPTION_PAD" "\<not> ?e" "ptr + 2 + ?l \<le> DHCP_OPTIONS_SIZE"
    | "ptr < DHCP_OPTIONS_SIZE" "frame ! (base + ptr) \<noteq> DHCP_OPTION_PAD" "\<not> ?e"
      "ptr + 1 \<ge> DHCP_OPTIONS_SIZE \<or> ptr + 2 + ?l > DHCP_OPTIONS_SIZE"
    | "ptr < DHCP_OPTIONS_SIZE" ?e
    | "\<not> ptr < DHCP_OPTIONS_SIZE" by linarith
  then show ?case
  proof cases
    case 1
    then show ?thesis using "1.IH"(1) [OF 1(1) _ 1(3) 1(2) "1.prems"] "1.prems"
      by (subst option_loop.simps) (simp add: rd8_def)
  next
    case 2
    then have "rd8 frame (base + ptr) = Some (frame ! (base + ptr))" "rd8 frame (base + ptr + 1) = Some (frame ! (base + ptr + 1))"
      using "1.prems" by (simp_all add: rd8_def)
    then show ?thesis using 2 "1.IH"(2) [OF _ _ 2(3,2) _ _ _ _ "1.prems"]
      by (subst option_loop.simps) simp
  next
    case 3
    then show ?thesis using "1.prems" by (subst option_loop.simps) (auto simp: rd8_def)
  next
    case 4
    then show ?thesis using "1.prems" by (subst option_loop.simps) (simp add: rd8_def)
  next
    case 5
    then show ?thesis by (subst option_loop.simps) simp
  qed
qed

text \<open>
  On every packet that is as long as \<open>dhcp_packet_t\<close>, whatever its options hold, the search for an option
  ends without reading outside the packet, and what it finds has the code that was asked for and lies,
  with all its data, inside the options.
\<close>

theorem dhcp_option_get_in_bounds:
  assumes "packet + 548 \<le> length frame"
  shows "\<exists>r. dhcp_option_get frame packet type = Some r \<and>
    (\<forall>p. r = Some p \<longrightarrow> packet + 240 \<le> p \<and> frame ! p = type \<and> p + 2 + unat (frame ! (p + 1)) \<le> packet + 548)"
  using option_loop_ok [of "packet + 240" frame type 0] assms
  by (simp add: dhcp_option_get_def DHCP_OPTIONS_SIZE_def)

theorem dhcp_option_get_in_bounds_witness:
  "\<exists>r. dhcp_option_get (replicate 548 7) 0 53 = Some r"
  using dhcp_option_get_in_bounds [of 0 "replicate 548 7" 53] by auto

text \<open>A shorter packet, which the callback accepts, is read past its end.\<close>

lemma short_packet_overread: "dhcp_option_get (replicate 240 0) 0 type = None"
  by (simp add: dhcp_option_get_def option_loop.simps [of _ _ _ 0] rd8_def DHCP_OPTIONS_SIZE_def)

section \<open>What is written is found\<close>

definition option_bytes :: "u8 \<times> u8 list \<Rightarrow> u8 list" where
  "option_bytes o' = fst o' # of_nat (length (snd o')) # snd o'"

definition options_bytes :: "(u8 \<times> u8 list) list \<Rightarrow> u8 list" where
  "options_bytes os = concat (map option_bytes os)"

definition option_ok :: "u8 \<times> u8 list \<Rightarrow> bool" where
  "option_ok o' \<longleftrightarrow> fst o' \<noteq> DHCP_OPTION_PAD \<and> fst o' \<noteq> DHCP_OPTION_END \<and> length (snd o') \<le> 255"

lemma options_bytes_simps [simp]:
  "options_bytes [] = []" "options_bytes (o' # os) = option_bytes o' @ options_bytes os"
  by (simp_all add: options_bytes_def)

lemma options_bytes_append [simp]: "options_bytes (os @ os') = options_bytes os @ options_bytes os'"
  by (simp add: options_bytes_def)

lemma length_option_bytes [simp]: "length (option_bytes o') = length (snd o') + 2"
  by (simp add: option_bytes_def)

lemma add_option_bytes:
  assumes "ow_offset w + length data + 2 \<le> ow_buffer_size w" and "length (ow_buffer w) = ow_buffer_size w"
  shows "\<exists>w'. dhcp_options_writer_add_option type data w = Some (True, w') \<and>
    ow_offset w' = ow_offset w + 2 + length data \<and> ow_buffer_size w' = ow_buffer_size w \<and>
    length (ow_buffer w') = length (ow_buffer w) \<and>
    take (ow_offset w') (ow_buffer w') = take (ow_offset w) (ow_buffer w) @ option_bytes (type, data)"
proof -
  let ?o = "ow_offset w"
  let ?b = "((ow_buffer w)[?o := type])[?o + 1 := of_nat (length data)]"
  have "take (?o + 1) ((ow_buffer w)[?o := type]) = take ?o (ow_buffer w) @ [type]"
    using assms by (simp add: take_Suc_conv_app_nth)
  moreover have "take (?o + 2) ?b = take (?o + 1) ((ow_buffer w)[?o := type]) @ [of_nat (length data)]"
    using assms by (simp add: take_Suc_conv_app_nth)
  ultimately have "take (?o + 2) ?b = take ?o (ow_buffer w) @ [type, of_nat (length data)]" by simp
  then show ?thesis using assms
    by (auto simp: dhcp_options_writer_add_option_def wr8_def wr_bytes_def option_bytes_def min_def simp del: add_2_eq_Suc')
qed

lemma add_options_bytes:
  assumes "ow_offset w + length (options_bytes os) \<le> ow_buffer_size w" and "length (ow_buffer w) = ow_buffer_size w"
  shows "\<exists>w'. add_options os w = Some w' \<and> ow_offset w' = ow_offset w + length (options_bytes os) \<and>
    ow_buffer_size w' = ow_buffer_size w \<and> length (ow_buffer w') = length (ow_buffer w) \<and>
    take (ow_offset w') (ow_buffer w') = take (ow_offset w) (ow_buffer w) @ options_bytes os"
  using assms
proof (induction os arbitrary: w)
  case (Cons o' os)
  obtain type data where o': "o' = (type, data)" by (cases o')
  from add_option_bytes [of w data type] Cons.prems obtain w1 where
    w1: "dhcp_options_writer_add_option type data w = Some (True, w1)"
      "ow_offset w1 = ow_offset w + 2 + length data" "ow_buffer_size w1 = ow_buffer_size w"
      "length (ow_buffer w1) = length (ow_buffer w)"
      "take (ow_offset w1) (ow_buffer w1) = take (ow_offset w) (ow_buffer w) @ option_bytes (type, data)"
    by (auto simp: o')
  from Cons.IH [of w1] w1 Cons.prems show ?case by (auto simp: o')
qed simp

lemma write_options_bytes:
  assumes "length (options_bytes os) < length buf"
  shows "\<exists>b. write_options os buf = Some b \<and> length b = length buf \<and>
    take (length (options_bytes os) + 1) b = options_bytes os @ [DHCP_OPTION_END]"
proof -
  from add_options_bytes [of "dhcp_options_writer_init buf (length buf)" os] assms obtain w where
    "add_options os (dhcp_options_writer_init buf (length buf)) = Some w" "ow_offset w = length (options_bytes os)"
    "ow_buffer_size w = length buf" "length (ow_buffer w) = length buf" "take (ow_offset w) (ow_buffer w) = options_bytes os"
    by (auto simp: dhcp_options_writer_init_def)
  then show ?thesis using assms
    by (auto simp: write_options_def dhcp_options_writer_shutdown_def wr8_def take_Suc_conv_app_nth)
qed

lemma option_loop_step:
  assumes "drop (base + ptr) frame = option_bytes o' @ r" and "option_ok o'" and "ptr + 2 + length (snd o') \<le> DHCP_OPTIONS_SIZE"
  shows "option_loop frame base type ptr =
    (if fst o' = type then Some (Some (base + ptr)) else option_loop frame base type (ptr + 2 + length (snd o')))"
proof -
  have a: "rd8 frame (base + ptr) = Some (fst o')"
    using assms(1) by (intro rd8_at) (simp add: option_bytes_def)
  have "drop (base + ptr + 1) frame = of_nat (length (snd o')) # snd o' @ r"
    using arg_cong [OF assms(1), of "drop 1"] by (simp add: option_bytes_def)
  then have b: "rd8 frame (base + ptr + 1) = Some (of_nat (length (snd o')))" by (rule rd8_at)
  have "unat (of_nat (length (snd o')) :: u8) = length (snd o')"
    using assms(2) by (simp add: option_ok_def unsigned_of_nat take_bit_nat_eq_self)
  then show ?thesis using assms(2,3) a b by (subst option_loop.simps) (simp add: option_ok_def)
qed

lemma option_loop_skip:
  assumes "drop (base + ptr) frame = options_bytes os @ r" and "\<forall>o' \<in> set os. option_ok o' \<and> fst o' \<noteq> type"
    and "ptr + length (options_bytes os) \<le> DHCP_OPTIONS_SIZE"
  shows "option_loop frame base type ptr = option_loop frame base type (ptr + length (options_bytes os))"
  using assms
proof (induction os arbitrary: ptr)
  case (Cons o' os)
  have d: "drop (base + ptr) frame = option_bytes o' @ options_bytes os @ r" using Cons.prems(1) by simp
  have "drop (base + (ptr + 2 + length (snd o'))) frame = options_bytes os @ r"
    using arg_cong [OF d, of "drop (2 + length (snd o'))"] by (simp add: add.assoc add.commute add.left_commute)
  with option_loop_step [OF d, of type] Cons.IH [of "ptr + 2 + length (snd o')"] Cons.prems(2,3)
  show ?case by (simp add: add.assoc add.commute add.left_commute)
qed simp

lemma dhcp_option_get_found:
  assumes "drop (packet + 240) frame = options_bytes (os @ (type, data) # os') @ DHCP_OPTION_END # r"
    and "\<forall>o' \<in> set os. option_ok o' \<and> fst o' \<noteq> type" and "option_ok (type, data)"
    and "length (options_bytes (os @ (type, data) # os')) < DHCP_OPTIONS_SIZE"
  shows "\<exists>p. dhcp_option_get frame packet type = Some (Some p) \<and> rd8 frame (p + 1) = Some (of_nat (length data)) \<and>
    rd_bytes frame (p + 2) (length data) = Some data"
proof -
  let ?n = "length (options_bytes os)"
  have d: "drop (packet + 240 + ?n) frame = option_bytes (type, data) @ options_bytes os' @ DHCP_OPTION_END # r"
    using arg_cong [OF assms(1), of "drop ?n"] by (simp add: add.commute add.left_commute)
  have "option_loop frame (packet + 240) type 0 = option_loop frame (packet + 240) type (0 + ?n)"
    using assms by (intro option_loop_skip [where r = "options_bytes ((type, data) # os') @ DHCP_OPTION_END # r"]) simp_all
  also have "\<dots> = Some (Some (packet + 240 + ?n))"
    using option_loop_step [OF d assms(3), of type] assms(4) by simp
  finally have g: "dhcp_option_get frame packet type = Some (Some (packet + 240 + ?n))" by (simp add: dhcp_option_get_def)
  let ?p = "packet + 240 + ?n"
  have d1: "drop (?p + 1) frame = of_nat (length data) # data @ options_bytes os' @ DHCP_OPTION_END # r"
    using arg_cong [OF d, of "drop 1"] by (simp add: option_bytes_def)
  have d2: "drop (?p + 2) frame = data @ options_bytes os' @ DHCP_OPTION_END # r"
    using arg_cong [OF d1, of "drop 1"] by simp
  have "?p + 2 + length data \<le> length frame" using arg_cong [OF d2, of length] by simp
  then have "rd_bytes frame (?p + 2) (length data) = Some data" unfolding rd_bytes_def d2 by simp
  with g rd8_at [OF d1] show ?thesis by blast
qed

lemma dhcp_option_get_absent:
  assumes "drop (packet + 240) frame = options_bytes os @ DHCP_OPTION_END # r"
    and "\<forall>o' \<in> set os. option_ok o' \<and> fst o' \<noteq> type" and "length (options_bytes os) < DHCP_OPTIONS_SIZE"
  shows "dhcp_option_get frame packet type = Some None"
proof -
  let ?n = "length (options_bytes os)"
  have "drop (packet + 240 + ?n) frame = DHCP_OPTION_END # r"
    using arg_cong [OF assms(1), of "drop ?n"] by (simp add: add.commute add.left_commute)
  then have e: "rd8 frame (packet + 240 + ?n) = Some DHCP_OPTION_END" by (rule rd8_at)
  have "option_loop frame (packet + 240) type 0 = option_loop frame (packet + 240) type (0 + ?n)"
    using assms by (intro option_loop_skip [where r = "DHCP_OPTION_END # r"]) simp_all
  also have "\<dots> = Some None" using e assms(3) by (subst option_loop.simps) simp
  finally show ?thesis by (simp add: dhcp_option_get_def)
qed

lemma map_of_split: "map_of xs k = Some v \<Longrightarrow> \<exists>ys zs. xs = ys @ (k, v) # zs \<and> k \<notin> fst ` set ys"
proof (induction xs)
  case (Cons x xs)
  show ?case
  proof (cases "fst x = k")
    case True
    with Cons.prems show ?thesis by (intro exI [of _ "[]"] exI [of _ xs]) (cases x, simp)
  next
    case False
    with Cons obtain ys zs where "xs = ys @ (k, v) # zs" "k \<notin> fst ` set ys" by (cases x) auto
    with False show ?thesis by (intro exI [of _ "x # ys"] exI [of _ zs]) auto
  qed
qed simp

lemma dhcp_option_get_map_of:
  assumes d: "drop (packet + 240) frame = options_bytes os @ DHCP_OPTION_END # r"
    and ok: "\<forall>o' \<in> set os. option_ok o'" and len: "length (options_bytes os) < 308"
  shows "case map_of os type of
      Some data \<Rightarrow> (\<exists>p. dhcp_option_get frame packet type = Some (Some p) \<and> rd8 frame (p + 1) = Some (of_nat (length data)) \<and>
        rd_bytes frame (p + 2) (length data) = Some data)
    | None \<Rightarrow> dhcp_option_get frame packet type = Some None"
proof (cases "map_of os type")
  case None
  then have "\<forall>o' \<in> set os. option_ok o' \<and> fst o' \<noteq> type" using ok by (auto simp: map_of_eq_None_iff image_iff)
  from dhcp_option_get_absent [OF d this] len None show ?thesis by (simp add: DHCP_OPTIONS_SIZE_def)
next
  case (Some data)
  from map_of_split [OF this] obtain ys zs where os: "os = ys @ (type, data) # zs" "type \<notin> fst ` set ys" by blast
  then have "\<forall>o' \<in> set ys. option_ok o' \<and> fst o' \<noteq> type" "option_ok (type, data)" using ok by auto
  from dhcp_option_get_found [OF d [unfolded os(1)] this] len os(1) Some show ?thesis by (simp add: DHCP_OPTIONS_SIZE_def)
qed

text \<open>
  Options survive the wire: writing options that fit ends in bounds, and in the packet whose options
  field was written like that the search finds each code's first option with exactly its data,
  and nothing for a code that was not written.
\<close>

theorem dhcp_options_roundtrip:
  assumes "\<forall>o' \<in> set os. option_ok o'" and "length (options_bytes os) < 308" and "length buf = 308"
  shows "\<exists>b. write_options os buf = Some b \<and> (\<forall>pre post type. length pre = 240 \<longrightarrow>
    (case map_of os type of
       Some data \<Rightarrow> (\<exists>p. dhcp_option_get (pre @ b @ post) 0 type = Some (Some p) \<and>
          rd8 (pre @ b @ post) (p + 1) = Some (of_nat (length data)) \<and>
          rd_bytes (pre @ b @ post) (p + 2) (length data) = Some data)
     | None \<Rightarrow> dhcp_option_get (pre @ b @ post) 0 type = Some None))"
proof -
  let ?n = "length (options_bytes os) + 1"
  from write_options_bytes [of os buf] assms obtain b where b: "write_options os buf = Some b"
    "take ?n b = options_bytes os @ [DHCP_OPTION_END]" by auto
  have split: "b = options_bytes os @ DHCP_OPTION_END # drop ?n b"
    using append_take_drop_id [of ?n b] unfolding b(2) by simp
  have d: "drop (0 + 240) (pre @ b @ post) = options_bytes os @ DHCP_OPTION_END # (drop ?n b @ post)"
    if "length pre = 240" for pre post
    using that by (subst split) simp
  show ?thesis using b(1) dhcp_option_get_map_of [OF d assms(1,2)] by blast
qed

theorem dhcp_options_roundtrip_witness:
  "\<exists>b. write_options [(53, [1]), (12, [7])] (replicate 308 0) = Some b \<and>
    (\<exists>p. dhcp_option_get (replicate 240 0 @ b @ []) 0 12 = Some (Some p) \<and>
      rd_bytes (replicate 240 0 @ b @ []) (p + 2) 1 = Some [7])"
proof -
  have "\<exists>b. write_options [(53, [1]), (12, [7])] (replicate 308 0) = Some b \<and> (\<forall>pre post type. length pre = 240 \<longrightarrow>
    (case map_of [(53, [1]), (12, [7])] type of
       Some data \<Rightarrow> (\<exists>p. dhcp_option_get (pre @ b @ post) 0 type = Some (Some p) \<and>
          rd8 (pre @ b @ post) (p + 1) = Some (of_nat (length data)) \<and>
          rd_bytes (pre @ b @ post) (p + 2) (length data) = Some data)
     | None \<Rightarrow> dhcp_option_get (pre @ b @ post) 0 type = Some None))"
    by (rule dhcp_options_roundtrip) (simp_all add: option_ok_def dhcp_consts option_bytes_def)
  then obtain b where "write_options [(53, [1]), (12, [7])] (replicate 308 0) = Some b"
    and a: "\<And>pre post type. length pre = 240 \<Longrightarrow>
    (case map_of [(53, [1]), (12, [7])] type of
       Some data \<Rightarrow> (\<exists>p. dhcp_option_get (pre @ b @ post) 0 type = Some (Some p) \<and>
          rd8 (pre @ b @ post) (p + 1) = Some (of_nat (length data)) \<and>
          rd_bytes (pre @ b @ post) (p + 2) (length data) = Some data)
     | None \<Rightarrow> dhcp_option_get (pre @ b @ post) 0 type = Some None)" by blast
  with a [of "replicate 240 0" "[]" 12] show ?thesis by auto
qed

end
