(* ===== verification/Network_Manager.thy ===== *)
theory Network_Manager
  imports Transport Dns Dhcp
begin

text \<open>
  The network manager: it gives an interface its address by DHCP and resolves names by DNS
  (\<open>src/kernel/src/network/network_manager.cpp\<close>).

  The global manager pointer is an option; a socket is its index, a client its value, \<open>None\<close> their null
  pointers.  A result \<open>None\<close> is an access through a null pointer or past a buffer.  Locking and printing
  are left out.
\<close>

section \<open>State\<close>

record network_manager =
  nm_dhcp_socket :: "nat option"
  nm_dhcp_client :: "dhcp_session option"
  nm_dns_socket :: "nat option"
  nm_dns_client :: "dns_cache option"

type_synonym nm_state = "network_manager option \<times> net"

text \<open>\<open>VirtualReflections-Machine\<close>, \<open>1.1.1.1\<close>.\<close>

definition DEVICE_HOST_NAME :: "u8 list" where
  "DEVICE_HOST_NAME = map of_char ''VirtualReflections-Machine''"

definition DNS_MAX_WAIT :: u64 where "DNS_MAX_WAIT = 1000"
definition DEFAULT_DNS_SERVER :: u32 where "DEFAULT_DNS_SERVER = TO_IP 1 1 1 1"
definition DNS_PORT_SERVER :: u16 where "DNS_PORT_SERVER = 53"

definition network_manager_init :: "network_manager option \<Rightarrow> bool \<times> network_manager option" where
  "network_manager_init nm =
     (case nm of None \<Rightarrow> (False, None)
      | Some _ \<Rightarrow> (True, Some \<lparr>nm_dhcp_socket = None, nm_dhcp_client = None, nm_dns_socket = None, nm_dns_client = None\<rparr>))"

section \<open>DHCP\<close>

text \<open>\<open>TO_IP\<close> of the four bytes of an option's value.\<close>

definition option_ip :: "u8 list \<Rightarrow> nat \<Rightarrow> u32 option" where
  "option_ip frame p = do {
     a \<leftarrow> rd8 frame (p + 2);
     b \<leftarrow> rd8 frame (p + 3);
     c \<leftarrow> rd8 frame (p + 4);
     d \<leftarrow> rd8 frame (p + 5);
     Some (TO_IP a b c d) }"

text \<open>The two branches of the callback; \<open>off\<close> is the position of the packet, the others those of its options.\<close>

definition dhcp_on_offer ::
  "u8 list \<Rightarrow> nat \<Rightarrow> nat option \<Rightarrow> nat option \<Rightarrow> network_manager \<Rightarrow> dhcp_session \<Rightarrow> net \<Rightarrow> nm_state option" where
  "dhcp_on_offer frame off server_id lease_time nm session n =
     (case (server_id, lease_time) of
        (Some sid, Some lt) \<Rightarrow> do {
          your_ip_addr \<leftarrow> rd32 frame (off + 16);
          dhcp_ip \<leftarrow> option_ip frame sid;
          lease \<leftarrow> dhcp_field_to_number frame (lt + 2) 4;
          let session = session\<lparr>ds_ip := bswap32 your_ip_addr, ds_dhcp_ip := dhcp_ip, ds_lease_time := lease\<rparr>;
          p \<leftarrow> dhcp_create_request_packet DEVICE_HOST_NAME (Some session) (ds_ip session) n;
          (_, n) \<leftarrow> socket_send (nm_dhcp_socket nm) (Some (dhcp_bytes p)) n;
          Some (Some (nm\<lparr>nm_dhcp_client := Some session\<rparr>), n) }
      | _ \<Rightarrow> Some (Some nm, n))"

definition dhcp_on_ack ::
  "u8 list \<Rightarrow> nat \<Rightarrow> nat option \<Rightarrow> nat option \<Rightarrow> network_manager \<Rightarrow> dhcp_session \<Rightarrow> net \<Rightarrow> nm_state option" where
  "dhcp_on_ack frame off subnet_mask router nm session n =
     (case (subnet_mask, router) of
        (Some sm, Some rt) \<Rightarrow> do {
          your_ip_addr \<leftarrow> rd32 frame (off + 16);
          if bswap32 your_ip_addr \<noteq> ds_ip session then Some (Some nm, n)
          else do {
            mask \<leftarrow> option_ip frame sm;
            gateway \<leftarrow> option_ip frame rt;
            i \<leftarrow> ds_interface session;
            s \<leftarrow> nm_dhcp_socket nm;
            Some (Some nm, n\<lparr>
              net_ifaces := (net_ifaces n)[i := (net_ifaces n ! i)\<lparr>if_subnet_mask := mask, if_gateway := gateway,
                  if_ip := ds_ip session, if_is_active := True\<rparr>],
              net_socks := (net_socks n)[s := (net_socks n ! s)\<lparr>so_remote_ip := ds_dhcp_ip session\<rparr>]\<rparr>) } }
      | _ \<Rightarrow> Some (Some nm, n))"

definition network_manager_dhcp_callback :: "u8 list \<Rightarrow> nat \<Rightarrow> u64 \<Rightarrow> nm_state \<Rightarrow> nm_state option" where
  "network_manager_dhcp_callback frame off sz st =
     (if sz > 548 then Some st
      else case st of (None, n) \<Rightarrow> Some st
      | (Some nm, n) \<Rightarrow> do {
          magic \<leftarrow> rd32 frame (off + 236);
          if magic \<noteq> bswap32 DHCP_MAGIC then Some st
          else do {
            opcode \<leftarrow> rd8 frame off;
            if opcode \<noteq> DHCP_OP_BOOTREPLY then Some st
            else do {
              session \<leftarrow> nm_dhcp_client nm;
              xid \<leftarrow> rd32 frame (off + 4);
              if xid \<noteq> ds_xid session then Some st
              else do {
                message_type \<leftarrow> dhcp_option_get frame off DHCP_OPTION_DHCP_MESSAGE_TYPE;
                case message_type of None \<Rightarrow> Some st
                | Some mt \<Rightarrow> do {
                    server_id \<leftarrow> dhcp_option_get frame off DHCP_OPTION_DHCP_SERVER_ID;
                    router \<leftarrow> dhcp_option_get frame off DHCP_OPTION_ROUTER;
                    lease_time \<leftarrow> dhcp_option_get frame off DHCP_OPTION_IP_LEASE_TIME;
                    subnet_mask \<leftarrow> dhcp_option_get frame off DHCP_OPTION_SUBNET_MASK;
                    t \<leftarrow> rd8 frame (mt + 2);
                    if t = DHCP_MESSAGE_TYPE_DHCPOFFER then dhcp_on_offer frame off server_id lease_time nm session n
                    else if t = DHCP_MESSAGE_TYPE_DHCPACK then dhcp_on_ack frame off subnet_mask router nm session n
                    else Some st } } } } })"

definition network_manager_dhcp_send_discover :: "nm_state \<Rightarrow> (bool option \<times> nm_state) option" where
  "network_manager_dhcp_send_discover st =
     (case st of (None, n) \<Rightarrow> Some (Some False, st)
      | (Some nm, n) \<Rightarrow> do {
          session \<leftarrow> nm_dhcp_client nm;
          packet \<leftarrow> dhcp_create_discover_packet DEVICE_HOST_NAME (Some session) n;
          (r, n) \<leftarrow> socket_send (nm_dhcp_socket nm) (Some (dhcp_bytes packet)) n;
          Some (r, Some nm, n) })"

definition network_manager_configre_interface :: "nat option \<Rightarrow> nm_state \<Rightarrow> (bool option \<times> nm_state) option" where
  "network_manager_configre_interface iface st =
     (case (st, iface) of
        ((Some nm, n), Some i) \<Rightarrow> do {
          session \<leftarrow> nm_dhcp_client nm;
          if ds_interface session \<noteq> None then Some (Some False, st)
          else do {
            (session, n) \<leftarrow> dhcp_client_create_session i n;
            network_manager_dhcp_send_discover (Some (nm\<lparr>nm_dhcp_client := Some session\<rparr>), n) } }
      | _ \<Rightarrow> Some (Some False, st))"

section \<open>DNS\<close>

definition network_manager_dns_send_query :: "u8 list \<Rightarrow> nm_state \<Rightarrow> (bool option \<times> nm_state) option" where
  "network_manager_dns_send_query hostname st =
     (case st of (None, n) \<Rightarrow> Some (Some False, st)
      | (Some nm, n) \<Rightarrow> do {
          (q, seed) \<leftarrow> dns_create_query_packet (net_mem_ok n) (net_mem_ok n) (replicate 256 (net_junk n)) (net_clock n) hostname 1;
          let n = n\<lparr>net_seed := seed\<rparr>;
          case q of None \<Rightarrow> Some (Some False, Some nm, n)
          | Some query \<Rightarrow> do {
              (r, n) \<leftarrow> socket_send (nm_dns_socket nm) (Some query) n;
              Some (r, Some nm, n) } })"

text \<open>The wait of \<open>network_manager_dns_query\<close>: what each round sees, the clock and then the cache.  The answer
  \<open>None\<close> is a wait that has not ended with the last round.\<close>

fun dns_wait :: "u64 \<Rightarrow> u8 list \<Rightarrow> (u64 \<times> dns_cache option) list \<Rightarrow> u32 option" where
  "dns_wait timeout_time hostname [] = None"
| "dns_wait timeout_time hostname ((clock, client) # rounds) =
     (if clock < timeout_time
      then case dns_client_get_record client (Some hostname) of
             Some r \<Rightarrow> Some (dr_ip r)
           | None \<Rightarrow> dns_wait timeout_time hostname rounds
      else Some 0)"

text \<open>The second component of the answer is \<open>None\<close> while the call waits.\<close>

definition network_manager_dns_query ::
  "u8 list option \<Rightarrow> u64 \<Rightarrow> (u64 \<times> dns_cache option) list \<Rightarrow> nm_state \<Rightarrow> (u32 option \<times> nm_state) option" where
  "network_manager_dns_query hostname clock rounds st =
     (case (st, hostname) of
        ((Some nm, n), Some h) \<Rightarrow>
          (case dns_client_get_record (nm_dns_client nm) hostname of
             Some r \<Rightarrow> Some (Some (dr_ip r), st)
           | None \<Rightarrow> do {
               (r, st) \<leftarrow> network_manager_dns_send_query h st;
               if r = Some True then Some (dns_wait (clock + DNS_MAX_WAIT) h rounds, st) else Some (Some 0, st) })
      | _ \<Rightarrow> Some (Some 0, st))"

text \<open>The two loops of the DNS callback.  \<open>packet\<close> holds the \<open>size\<close> bytes the listener is given, and every
  read is checked against \<open>size\<close>.  The answer \<open>None\<close> of the first loop is the return of the callback.\<close>

fun skip_questions :: "nat \<Rightarrow> u8 list \<Rightarrow> nat \<Rightarrow> nat option option" where
  "skip_questions 0 packet offset = Some (Some offset)"
| "skip_questions (Suc q) packet offset =
     (if offset < length packet then do {
        name_len \<leftarrow> dns_packet_hostname_encoded_length (drop offset packet);
        if name_len = 0 then Some None
        else if offset + name_len + 4 > length packet then Some None
        else skip_questions q packet (offset + name_len + 4) }
      else Some (Some offset))"

fun read_answers :: "nat \<Rightarrow> bool \<Rightarrow> u8 list \<Rightarrow> u8 list \<Rightarrow> nat \<Rightarrow> dns_cache option \<Rightarrow> dns_cache option option" where
  "read_answers 0 alloc raw packet offset client = Some client"
| "read_answers (Suc a) alloc raw packet offset client =
     (if offset < length packet then do {
        (hostname, offset) \<leftarrow> dns_packet_decode_hostname alloc raw packet offset;
        if offset + 10 > length packet then Some client
        else do {
          t \<leftarrow> rd16 packet offset;
          let qtype = bswap16 t;
          rl \<leftarrow> rd16 packet (offset + 8);
          let rdlength = unat (bswap16 rl);
          let offset = offset + 10;
          if offset + rdlength > length packet then Some client
          else do {
            client \<leftarrow> (if qtype = 1 \<and> rdlength = 4 then do {
                         ip \<leftarrow> rd32 packet offset;
                         Some (snd (dns_client_add_record client hostname (bswap32 ip))) }
                       else Some client);
            read_answers a alloc raw packet (offset + rdlength) client } } }
      else Some client)"

definition network_manager_dns_callback :: "u8 list \<Rightarrow> nm_state \<Rightarrow> nm_state option" where
  "network_manager_dns_callback packet st =
     (if length packet < 12 then Some st
      else case st of (None, n) \<Rightarrow> Some st
      | (Some nm, n) \<Rightarrow> do {
          an \<leftarrow> rd16 packet 6;
          qd \<leftarrow> rd16 packet 4;
          r \<leftarrow> skip_questions (unat (bswap16 qd)) packet 12;
          case r of None \<Rightarrow> Some st
          | Some offset \<Rightarrow> do {
              client \<leftarrow> read_answers (unat (bswap16 an)) (net_mem_ok n) (replicate 256 (net_junk n)) packet offset (nm_dns_client nm);
              Some (Some (nm\<lparr>nm_dns_client := client\<rparr>), n) } })"

section \<open>Configuration\<close>

text \<open>\<open>new (malloc(sizeof(socket_t))) socket_t()\<close> and \<open>new dhcp_client_t {}\<close> write to what they get without looking.\<close>

definition zero_socket :: socket where
  "zero_socket = \<lparr>so_protocol = SP_UNKNOWN, so_local_ip = 0, so_local_port = 0, so_remote_ip = 0, so_remote_port = 0,
     so_socket_data = None\<rparr>"

definition network_manager_configure :: "nm_state \<Rightarrow> (bool \<times> nm_state) option" where
  "network_manager_configure st =
     (case st of (None, n) \<Rightarrow> None
      | (Some nm, n) \<Rightarrow>
          if \<not> net_mem_ok n then None
          else do {
            let nm = nm\<lparr>nm_dhcp_client := Some \<lparr>ds_xid = 0, ds_ip = 0, ds_dhcp_ip = 0, ds_lease_time = 0, ds_interface = None\<rparr>,
                nm_dhcp_socket := Some (length (net_socks n))\<rparr>;
            let n = n\<lparr>net_socks := net_socks n @ [zero_socket\<lparr>so_local_ip := TO_IP 0 0 0 0, so_local_port := DHCP_PORT_CLIENT,
                so_remote_ip := BROADCAST_IPV4, so_remote_port := DHCP_PORT_SERVER, so_protocol := UDP\<rparr>]\<rparr>;
            let (ok, n) = socket_bind (length (net_socks n) - 1) n;
            if \<not> ok then Some (False, Some nm, n)
            else do {
              (port, seed) \<leftarrow> random_number_range 49152 65535 (net_seed n);
              let nm = nm\<lparr>nm_dns_client := Some [], nm_dns_socket := Some (length (net_socks n))\<rparr>;
              let n = n\<lparr>net_seed := seed, net_socks := net_socks n @ [zero_socket\<lparr>so_local_ip := TO_IP 0 0 0 0,
                  so_local_port := ucast port, so_remote_ip := DEFAULT_DNS_SERVER, so_remote_port := DNS_PORT_SERVER,
                  so_protocol := UDP\<rparr>]\<rparr>;
              let (ok, n) = socket_bind (length (net_socks n) - 1) n;
              Some (ok, Some nm, n) } })"

text \<open>The listeners of the two sockets, called for what arrived since the state \<open>st\<close>: the function pointers
  of the sockets are resolved by the socket's index.\<close>

definition manager_listener :: "upcall \<Rightarrow> nm_state \<Rightarrow> nm_state option" where
  "manager_listener u st =
     (case fst st of None \<Rightarrow> Some st
      | Some nm \<Rightarrow>
          if nm_dhcp_socket nm = Some (up_socket u)
          then network_manager_dhcp_callback (up_mem u) (up_off u) (up_size u) st
          else if nm_dns_socket nm = Some (up_socket u)
          then do { packet \<leftarrow> up_data u; network_manager_dns_callback packet st }
          else Some st)"

section \<open>DNS answers reach the cache\<close>

record dns_answer =
  an_labels :: "u8 list list"
  an_class :: u16
  an_ttl :: u32
  an_ip :: u32

definition an_name :: "dns_answer \<Rightarrow> u8 list" where
  "an_name a = join_dots (an_labels a)"

definition answer_bytes :: "dns_answer \<Rightarrow> u8 list" where
  "answer_bytes a = wire_name (an_labels a) @ le16 (bswap16 1) @ le16 (bswap16 (an_class a)) @ le32 (bswap32 (an_ttl a))
     @ le16 (bswap16 4) @ le32 (bswap32 (an_ip a))"

definition name_ok :: "u8 list list \<Rightarrow> bool" where
  "name_ok ls \<longleftrightarrow> ls \<noteq> [] \<and> (\<forall>l \<in> set ls. label_ok l) \<and> length (join_dots ls) \<le> 253"

lemma read_answers_bytes:
  assumes "drop offset packet = concat (map answer_bytes as) @ r" and "\<forall>a \<in> set as. name_ok (an_labels a)"
    and "length raw = 256"
  shows "read_answers (length as) True raw packet offset client =
    Some (fold (\<lambda>a c. snd (dns_client_add_record c (Some (an_name a)) (an_ip a))) as client)"
  using assms
proof (induction as arbitrary: offset client)
  case (Cons a as)
  let ?o = "offset + length (wire_name (an_labels a))"
  let ?rest = "concat (map answer_bytes as) @ r"
  have d: "drop offset packet = wire_name (an_labels a) @ le16 (bswap16 1) @ le16 (bswap16 (an_class a))
      @ le32 (bswap32 (an_ttl a)) @ le16 (bswap16 4) @ le32 (bswap32 (an_ip a)) @ ?rest"
    using Cons.prems(1) by (simp add: answer_bytes_def [of a])
  note d1 = drop_step [OF d refl]
  note d2 = drop_step [OF d1 refl]
  note d3 = drop_step [OF d2 refl]
  note d4 = drop_step [OF d3 refl]
  note d5 = drop_step [OF d4 refl]
  note d6 = drop_step [OF d5 refl]
  have dec: "dns_packet_decode_hostname True raw packet offset = Some (Some (an_name a), ?o)"
    unfolding an_name_def using Cons.prems(2,3) by (intro decode_wire_name [OF d]) (simp_all add: name_ok_def)
  have len: "?o + 14 \<le> length packet" "offset < length packet"
    using arg_cong [OF d, of length] by (simp_all add: wire_name_def)
  have "rd16 packet ?o = Some (bswap16 1)" "rd16 packet (?o + 8) = Some (bswap16 4)" "rd32 packet (?o + 10) = Some (bswap32 (an_ip a))"
    using rd16_le16 [OF d1] rd16_le16 [OF d4] rd32_le32 [OF d5] by (simp_all add: ac_simps)
  moreover have "drop (?o + 14) packet = ?rest" using d6 by (simp add: ac_simps)
  ultimately show ?case using Cons.IH [of "?o + 14"] Cons.prems(2,3) dec len
    by (simp add: add.assoc)
qed simp

lemma add_new_answers:
  assumes "distinct (map (\<lambda>a. hostname_hash (an_name a)) as)" and "\<forall>a \<in> set as. an_ip a \<noteq> 0"
    and "\<forall>a \<in> set as. hostname_hash (an_name a) \<notin> fst ` set c"
  shows "fold (\<lambda>a c. snd (dns_client_add_record c (Some (an_name a)) (an_ip a))) as (Some c) =
    Some (c @ map (\<lambda>a. (hostname_hash (an_name a), \<lparr>dr_ip = an_ip a, dr_hostname = an_name a\<rparr>)) as)"
  using assms
proof (induction as arbitrary: c)
  case (Cons a as)
  then have "snd (dns_client_add_record (Some c) (Some (an_name a)) (an_ip a)) =
      Some (c @ [(hostname_hash (an_name a), \<lparr>dr_ip = an_ip a, dr_hostname = an_name a\<rparr>)])"
    by (simp add: dns_client_add_record_def lm_insert_def lm_contains_def lm_get_None)
  moreover have "\<forall>b \<in> set as. hostname_hash (an_name b) \<notin> fst ` set (c @ [(hostname_hash (an_name a), \<lparr>dr_ip = an_ip a, dr_hostname = an_name a\<rparr>)])"
    using Cons.prems(1,3) by (auto simp: image_iff)
  ultimately show ?case using Cons.IH Cons.prems(1,2) by simp
qed simp

lemma get_record_map_of:
  "dns_client_get_record (Some c) (Some h) = map_of c (hostname_hash h)"
  using fun_cong [OF lm_lookup_map_of [of c], of "hostname_hash h"]
  by (auto simp: dns_client_get_record_def lm_lookup_def split: option.splits)

definition dns_response :: "u16 \<Rightarrow> u16 \<Rightarrow> u8 list list \<Rightarrow> u32 \<Rightarrow> dns_answer list \<Rightarrow> u8 list" where
  "dns_response ident flags q qtail as =
     dns_header ident flags (bswap16 1) (bswap16 (of_nat (length as))) 0 0 @ wire_name q @ le32 qtail @ concat (map answer_bytes as)"

lemma callback_response:
  assumes "name_ok q" and "\<forall>a \<in> set as. name_ok (an_labels a)" and "length as < 65536" and "net_mem_ok n"
  shows "network_manager_dns_callback (dns_response ident flags q qtail as) (Some nm, n) =
    Some (Some (nm\<lparr>nm_dns_client :=
      fold (\<lambda>a c. snd (dns_client_add_record c (Some (an_name a)) (an_ip a))) as (nm_dns_client nm)\<rparr>), n)"
proof -
  let ?p = "dns_response ident flags q qtail as"
  have d: "drop 0 ?p = le16 ident @ le16 flags @ le16 (bswap16 1) @ le16 (bswap16 (of_nat (length as))) @ le16 0 @ le16 0
      @ wire_name q @ le32 qtail @ concat (map answer_bytes as)"
    by (simp add: dns_response_def dns_header_def)
  note d1 = drop_step [OF d refl]
  note d2 = drop_step [OF d1 refl]
  note d3 = drop_step [OF d2 refl]
  note d4 = drop_step [OF d3 refl]
  note d5 = drop_step [OF d4 refl]
  note d6 = drop_step [OF d5 refl]
  note d7 = drop_step [OF d6 refl]
  note d8 = drop_step [OF d7 refl]
  have rd: "rd16 ?p 4 = Some (bswap16 1)" "rd16 ?p 6 = Some (bswap16 (of_nat (length as)))"
    using rd16_le16 [OF d2] rd16_le16 [OF d3] by (simp_all del: add_2_eq_Suc')
  have "drop 12 ?p = wire_name q @ le32 qtail @ concat (map answer_bytes as)" using d6 by (simp del: add_2_eq_Suc')
  then have scan: "dns_packet_hostname_encoded_length (drop 12 ?p) = Some (length (wire_name q))"
    using assms(1) by (simp add: scan_wire_name name_ok_def)
  have len: "12 + length (wire_name q) + 4 \<le> length ?p" using arg_cong [OF d, of length] by simp
  have skip: "skip_questions 1 ?p 12 = Some (Some (12 + length (wire_name q) + 4))"
    unfolding One_nat_def skip_questions.simps using scan len by (simp add: wire_name_def)
  have "drop (12 + length (wire_name q) + 4) ?p = concat (map answer_bytes as) @ []"
    using d8 by (simp add: add.assoc del: add_2_eq_Suc')
  from read_answers_bytes [OF this assms(2)] have ans:
    "read_answers (length as) True (replicate 256 (net_junk n)) ?p (12 + length (wire_name q) + 4) (nm_dns_client nm) =
      Some (fold (\<lambda>a c. snd (dns_client_add_record c (Some (an_name a)) (an_ip a))) as (nm_dns_client nm))" by simp
  have u: "unat (of_nat (length as) :: u16) = length as" using assms(3) by (simp add: unsigned_of_nat take_bit_nat_eq_self)
  have "\<not> length ?p < 12" using len by simp
  then show ?thesis using rd skip ans u assms(4) by (simp add: network_manager_dns_callback_def)
qed



section \<open>DHCP configures the interface\<close>

text \<open>The packet of a server at \<open>off\<close>: a reply with the transaction \<open>xid\<close> that offers or grants \<open>ip\<close>, whose
  options are \<open>os\<close>.\<close>

definition reply_at :: "u8 list \<Rightarrow> nat \<Rightarrow> u32 \<Rightarrow> u32 \<Rightarrow> (u8 \<times> u8 list) list \<Rightarrow> bool" where
  "reply_at frame off xid ip os \<longleftrightarrow> (\<exists>p r r'. drop off frame = dhcp_bytes p @ r \<and> dp_op p = DHCP_OP_BOOTREPLY \<and>
     dp_xid p = xid \<and> dp_your_ip_addr p = bswap32 ip \<and> dp_magic p = bswap32 DHCP_MAGIC \<and>
     length (dp_client_hw_addr p) = 16 \<and> length (dp_server_name p) = 64 \<and> length (dp_file p) = 128 \<and>
     dp_options p = options_bytes os @ DHCP_OPTION_END # r' \<and> (\<forall>q \<in> set os. option_ok q) \<and> length (options_bytes os) < 308)"

lemma reply_fields:
  assumes "reply_at frame off xid ip os"
  shows "rd8 frame off = Some DHCP_OP_BOOTREPLY" "rd32 frame (off + 4) = Some xid" "rd32 frame (off + 16) = Some (bswap32 ip)"
    "rd32 frame (off + 236) = Some (bswap32 DHCP_MAGIC)"
    "\<exists>r. drop (off + 240) frame = options_bytes os @ DHCP_OPTION_END # r"
proof -
  from assms obtain p r r' where d: "drop off frame = dhcp_bytes p @ r" and p: "dp_op p = DHCP_OP_BOOTREPLY" "dp_xid p = xid"
      "dp_your_ip_addr p = bswap32 ip" "dp_magic p = bswap32 DHCP_MAGIC"
      "length (dp_client_hw_addr p) = 16" "length (dp_server_name p) = 64" "length (dp_file p) = 128"
      "dp_options p = options_bytes os @ DHCP_OPTION_END # r'"
    unfolding reply_at_def by blast
  have e: "drop (off + k) frame = drop k (dhcp_bytes p @ r)" for k
    using arg_cong [OF d, of "drop k"] by (simp add: add.commute)
  show "rd8 frame off = Some DHCP_OP_BOOTREPLY"
    by (rule rd8_at) (use d p(1) in \<open>simp add: dhcp_bytes_def\<close>)
  show "rd32 frame (off + 4) = Some xid" "rd32 frame (off + 16) = Some (bswap32 ip)"
    by (rule rd32_le32, subst e, simp add: dhcp_bytes_def p)+
  show "rd32 frame (off + 236) = Some (bswap32 DHCP_MAGIC)"
    by (rule rd32_le32, subst e) (simp add: dhcp_bytes_def p)
  show "\<exists>r. drop (off + 240) frame = options_bytes os @ DHCP_OPTION_END # r"
    by (subst e) (simp add: dhcp_bytes_def p)
qed

lemma reply_option:
  assumes "reply_at frame off xid ip os"
  shows "case map_of os type of
      Some data \<Rightarrow> (\<exists>p. dhcp_option_get frame off type = Some (Some p) \<and> rd8 frame (p + 1) = Some (of_nat (length data)) \<and>
        rd_bytes frame (p + 2) (length data) = Some data)
    | None \<Rightarrow> dhcp_option_get frame off type = Some None"
proof -
  obtain r where "drop (off + 240) frame = options_bytes os @ DHCP_OPTION_END # r" using reply_fields(5) [OF assms] by blast
  then show ?thesis using assms by (intro dhcp_option_get_map_of) (auto simp: reply_at_def)
qed

lemma reply_option_Some:
  assumes "reply_at frame off xid ip os" and "map_of os type = Some data"
  obtains p where "dhcp_option_get frame off type = Some (Some p)" "rd_bytes frame (p + 2) (length data) = Some data"
  using reply_option [OF assms(1), of type] assms(2) by auto

lemma reply_option_defined:
  assumes "reply_at frame off xid ip os"
  obtains r where "dhcp_option_get frame off type = Some r"
  using reply_option [OF assms, of type] by (cases "map_of os type") auto

lemma rd_bytes_at:
  assumes "rd_bytes frame i n = Some xs" and "k < n"
  shows "rd8 frame (i + k) = Some (xs ! k)"
  using assms by (auto simp: rd_bytes_def rd8_def split: if_splits)

lemma option_ip_bytes:
  assumes "rd_bytes frame (p + 2) (length [a, b, c, d]) = Some [a, b, c, d]"
  shows "option_ip frame p = Some (TO_IP a b c d)"
  using rd_bytes_at [OF assms, of 0] rd_bytes_at [OF assms, of 1] rd_bytes_at [OF assms, of 2] rd_bytes_at [OF assms, of 3]
  by (simp add: option_ip_def eval_nat_numeral)

lemma udp_socket_send:
  assumes "so_protocol (net_socks n ! k) = UDP"
  obtains r n' where "socket_send (Some k) (Some d) n = Some (Some r, n')" "net_ifaces n' = net_ifaces n" "net_socks n' = net_socks n"
proof -
  obtain r n' where u: "udp_send (so_remote_ip (net_socks n ! k)) (so_local_port (net_socks n ! k)) (so_remote_port (net_socks n ! k)) d n = (r, n')"
    by (cases "udp_send (so_remote_ip (net_socks n ! k)) (so_local_port (net_socks n ! k)) (so_remote_port (net_socks n ! k)) d n") auto
  then have "net_ifaces n' = net_ifaces n \<and> net_socks n' = net_socks n"
    by (auto simp: udp_send_def ip_send_def ethernet_send_def arp_discover_request_ipv4_def nic_dispatch_packet_def Let_def
        split: if_splits option.splits prod.splits)
  with u assms that show ?thesis by (simp add: socket_send_def)
qed

lemma request_packet_exists:
  assumes "ds_interface s = Some i" and "length (if_mac (net_ifaces n ! i)) = 6"
  obtains p where "dhcp_create_request_packet DEVICE_HOST_NAME (Some s) ip n = Some p"
proof -
  let ?os = "[(DHCP_OPTION_DHCP_MESSAGE_TYPE, [DHCP_MESSAGE_TYPE_DHCPREQUEST]),
             (DHCP_OPTION_CLIENT_ID, DHCP_HTYPE_ETHERNET # if_mac (net_ifaces n ! i)),
             (DHCP_OPTION_REQUESTED_IP_ADDR, le32 (bswap32 ip)),
             (DHCP_OPTION_DHCP_SERVER_ID, le32 (bswap32 (ds_dhcp_ip s))),
             (DHCP_OPTION_HOSTNAME, DEVICE_HOST_NAME),
             (DHCP_OPTION_PARAMETER_REQUEST_LIST, [DHCP_OPTION_SUBNET_MASK, DHCP_OPTION_ROUTER, DHCP_OPTION_DNS])]"
  have "length (options_bytes ?os) < length (dp_options dhcp_zero)"
    using assms(2) by (simp add: dhcp_zero_def DHCP_OPTIONS_SIZE_def DEVICE_HOST_NAME_def)
  from write_options_bytes [OF this] obtain b where "write_options ?os (dp_options dhcp_zero) = Some b" by blast
  moreover have "rd_bytes (if_mac (net_ifaces n ! i)) 0 6 = Some (if_mac (net_ifaces n ! i))" using assms(2) by (simp add: rd_bytes_def)
  ultimately show ?thesis using that assms(1) by (simp add: dhcp_create_request_packet_def)
qed

lemma dhcp_offer:
  assumes "nm_dhcp_client nm = Some s" "ds_interface s = Some i" "length (if_mac (net_ifaces n ! i)) = 6"
    and "nm_dhcp_socket nm = Some k" "so_protocol (net_socks n ! k) = UDP"
    and "reply_at frame off (ds_xid s) ip os" "sz \<le> 548" "map_of os DHCP_OPTION_DHCP_MESSAGE_TYPE = Some [DHCP_MESSAGE_TYPE_DHCPOFFER]"
    and "map_of os DHCP_OPTION_DHCP_SERVER_ID = Some [a, b, c, d]" "map_of os DHCP_OPTION_IP_LEASE_TIME = Some [l0, l1, l2, l3]"
  shows "\<exists>n' s' p r. network_manager_dhcp_callback frame off sz (Some nm, n) = Some (Some (nm\<lparr>nm_dhcp_client := Some s'\<rparr>), n') \<and>
    ds_xid s' = ds_xid s \<and> ds_interface s' = Some i \<and> ds_ip s' = ip \<and> ds_dhcp_ip s' = TO_IP a b c d \<and>
    dhcp_create_request_packet DEVICE_HOST_NAME (Some s') ip n = Some p \<and>
    socket_send (Some k) (Some (dhcp_bytes p)) n = Some (Some r, n') \<and>
    net_ifaces n' = net_ifaces n \<and> net_socks n' = net_socks n"
proof -
  note r = assms(6)
  obtain mt where mt: "dhcp_option_get frame off DHCP_OPTION_DHCP_MESSAGE_TYPE = Some (Some mt)"
    "rd_bytes frame (mt + 2) (length [DHCP_MESSAGE_TYPE_DHCPOFFER]) = Some [DHCP_MESSAGE_TYPE_DHCPOFFER]"
    using reply_option_Some [OF r assms(8)] by blast
  obtain sid where sid: "dhcp_option_get frame off DHCP_OPTION_DHCP_SERVER_ID = Some (Some sid)"
    "rd_bytes frame (sid + 2) (length [a, b, c, d]) = Some [a, b, c, d]"
    using reply_option_Some [OF r assms(9)] by blast
  obtain lt where lt: "dhcp_option_get frame off DHCP_OPTION_IP_LEASE_TIME = Some (Some lt)"
    "rd_bytes frame (lt + 2) (length [l0, l1, l2, l3]) = Some [l0, l1, l2, l3]"
    using reply_option_Some [OF r assms(10)] by blast
  obtain rt where rt: "dhcp_option_get frame off DHCP_OPTION_ROUTER = Some rt" using reply_option_defined [OF r] by blast
  obtain sm where sm: "dhcp_option_get frame off DHCP_OPTION_SUBNET_MASK = Some sm" using reply_option_defined [OF r] by blast
  have t: "rd8 frame (mt + 2) = Some DHCP_MESSAGE_TYPE_DHCPOFFER" using rd_bytes_at [OF mt(2), of 0] by simp
  have lease: "dhcp_field_to_number frame (lt + 2) 4 = Some (field_loop 0 [l0, l1, l2, l3])"
    using lt(2) by (simp add: dhcp_field_to_number_def eval_nat_numeral)
  define s' where "s' = s\<lparr>ds_ip := ip, ds_dhcp_ip := TO_IP a b c d, ds_lease_time := field_loop 0 [l0, l1, l2, l3]\<rparr>"
  have s': "ds_interface s' = Some i" "ds_ip s' = ip" "ds_xid s' = ds_xid s" "ds_dhcp_ip s' = TO_IP a b c d"
    using assms(2) by (simp_all add: s'_def)
  obtain p where p: "dhcp_create_request_packet DEVICE_HOST_NAME (Some s') ip n = Some p"
    using request_packet_exists [OF s'(1) assms(3)] by blast
  obtain v n' where n': "socket_send (Some k) (Some (dhcp_bytes p)) n = Some (Some v, n')" "net_ifaces n' = net_ifaces n" "net_socks n' = net_socks n"
    using udp_socket_send [OF assms(5)] by blast
  have "dhcp_on_offer frame off (Some sid) (Some lt) nm s n = Some (Some (nm\<lparr>nm_dhcp_client := Some s'\<rparr>), n')"
    using reply_fields(3) [OF r] option_ip_bytes [OF sid(2)] lease p n'(1) assms(4)
    by (simp add: dhcp_on_offer_def s'_def Let_def)
  then have "network_manager_dhcp_callback frame off sz (Some nm, n) = Some (Some (nm\<lparr>nm_dhcp_client := Some s'\<rparr>), n')"
    using reply_fields(1,2,4) [OF r] assms(1,7) mt(1) sid(1) lt(1) rt sm t
    by (simp add: network_manager_dhcp_callback_def not_less)
  with s' p n' show ?thesis by blast
qed

lemma dhcp_ack:
  assumes "nm_dhcp_client nm = Some s" "ds_interface s = Some i" "nm_dhcp_socket nm = Some k"
    and "reply_at frame off (ds_xid s) (ds_ip s) os" "sz \<le> 548" "map_of os DHCP_OPTION_DHCP_MESSAGE_TYPE = Some [DHCP_MESSAGE_TYPE_DHCPACK]"
    and "map_of os DHCP_OPTION_SUBNET_MASK = Some [m0, m1, m2, m3]" "map_of os DHCP_OPTION_ROUTER = Some [g0, g1, g2, g3]"
  shows "network_manager_dhcp_callback frame off sz (Some nm, n) = Some (Some nm, n\<lparr>
      net_ifaces := (net_ifaces n)[i := (net_ifaces n ! i)\<lparr>if_subnet_mask := TO_IP m0 m1 m2 m3,
        if_gateway := TO_IP g0 g1 g2 g3, if_ip := ds_ip s, if_is_active := True\<rparr>],
      net_socks := (net_socks n)[k := (net_socks n ! k)\<lparr>so_remote_ip := ds_dhcp_ip s\<rparr>]\<rparr>)"
proof -
  note r = assms(4)
  obtain mt where mt: "dhcp_option_get frame off DHCP_OPTION_DHCP_MESSAGE_TYPE = Some (Some mt)"
    "rd_bytes frame (mt + 2) (length [DHCP_MESSAGE_TYPE_DHCPACK]) = Some [DHCP_MESSAGE_TYPE_DHCPACK]"
    using reply_option_Some [OF r assms(6)] by blast
  obtain sm where sm: "dhcp_option_get frame off DHCP_OPTION_SUBNET_MASK = Some (Some sm)"
    "rd_bytes frame (sm + 2) (length [m0, m1, m2, m3]) = Some [m0, m1, m2, m3]"
    using reply_option_Some [OF r assms(7)] by blast
  obtain rt where rt: "dhcp_option_get frame off DHCP_OPTION_ROUTER = Some (Some rt)"
    "rd_bytes frame (rt + 2) (length [g0, g1, g2, g3]) = Some [g0, g1, g2, g3]"
    using reply_option_Some [OF r assms(8)] by blast
  obtain sid where sid: "dhcp_option_get frame off DHCP_OPTION_DHCP_SERVER_ID = Some sid" using reply_option_defined [OF r] by blast
  obtain lt where lt: "dhcp_option_get frame off DHCP_OPTION_IP_LEASE_TIME = Some lt" using reply_option_defined [OF r] by blast
  have t: "rd8 frame (mt + 2) = Some DHCP_MESSAGE_TYPE_DHCPACK" using rd_bytes_at [OF mt(2), of 0] by simp
  have ne: "DHCP_MESSAGE_TYPE_DHCPACK \<noteq> DHCP_MESSAGE_TYPE_DHCPOFFER" by (simp add: dhcp_consts)
  show ?thesis using reply_fields(1-4) [OF r] option_ip_bytes [OF sm(2)] option_ip_bytes [OF rt(2)] assms(1-3,5)
      mt(1) sid lt sm(1) rt(1) t ne
    by (simp add: network_manager_dhcp_callback_def dhcp_on_ack_def not_less)
qed


text \<open>A server's packet for the witness.\<close>

definition demo_reply :: "u32 \<Rightarrow> u32 \<Rightarrow> (u8 \<times> u8 list) list \<Rightarrow> u8 list" where
  "demo_reply xid ip os = dhcp_bytes (dhcp_zero\<lparr>dp_op := DHCP_OP_BOOTREPLY, dp_xid := xid, dp_your_ip_addr := bswap32 ip,
     dp_magic := bswap32 DHCP_MAGIC, dp_options := options_bytes os @ DHCP_OPTION_END # []\<rparr>)"

lemma demo_reply_at:
  "\<forall>q \<in> set os. option_ok q \<Longrightarrow> length (options_bytes os) < 308 \<Longrightarrow> reply_at (demo_reply xid ip os) 0 xid ip os"
  unfolding reply_at_def demo_reply_def
  by (intro exI [of _ "dhcp_zero\<lparr>dp_op := DHCP_OP_BOOTREPLY, dp_xid := xid, dp_your_ip_addr := bswap32 ip,
     dp_magic := bswap32 DHCP_MAGIC, dp_options := options_bytes os @ DHCP_OPTION_END # []\<rparr>"] exI [of _ "[]"])
    (simp add: dhcp_zero_def)


end
