(* ===== verification/Sched.thy ===== *)
theory Sched
  imports Containers Heap
begin

text \<open>
  The scheduler: \<open>src/kernel/src/virtual_thread.cpp\<close> and \<open>src/kernel/src/arch/amd64/vthread.cpp\<close>, with the part of
  a process that it looks at (\<open>process.cpp\<close>).

  The table of threads owns them; a pointer to a thread is its handle, the key of the table.  The state
  also holds what a switch changes of the processor, the current process and the words of
  memory the code writes.  The clock only advances in the timer interrupt, so it stands still while the
  scheduler runs.  The spinlock around the table is left out: interrupts are off.  An answer \<open>None\<close> of the
  scheduler is a loop that does not end.
\<close>

section \<open>Threads\<close>

definition VTHREAD_STACK_SIZE :: u64 where "VTHREAD_STACK_SIZE = 2000000"
definition VTHREAD_STACK_DEADZONE :: u64 where "VTHREAD_STACK_DEADZONE = 64000"
definition VTHREAD_MAIN_THREAD_HANDLE :: u64 where "VTHREAD_MAIN_THREAD_HANDLE = 0"
definition VTHREAD_MAX_NAME_SIZE :: nat where "VTHREAD_MAX_NAME_SIZE = 63"
definition VTHREAD_HANDLE_INVALID :: u64 where "VTHREAD_HANDLE_INVALID = -1"
definition KERNEL_FATAL_CRITICAL_THREAD_DIED :: u64 where "KERNEL_FATAL_CRITICAL_THREAD_DIED = 0xF0000004"
definition RFLAGS_RES :: u64 where "RFLAGS_RES = 2"
definition RFLAGS_IF :: u64 where "RFLAGS_IF = 0x200"

datatype vthread_state = VT_UNKNOWN | VT_STARTING | VT_RUNNING | VT_SLEEPING | VT_STOPPING

record vthread =
  vt_handle :: u64
  vt_parent :: "nat option"
  vt_state :: vthread_state
  vt_tls_handle :: u64
  vt_stack_top :: u64
  vt_stack_bottom :: u64
  vt_stack_bottom_kernel :: u64
  vt_kstack :: u64
  vt_sleep_until_ms :: u64
  vt_exit_code :: int
  vt_is_critical :: bool
  vt_name :: "u8 list"
  vt_page_table :: u64
  vt_fpu_state :: u64
  vt_fpu :: "u8 list"

text \<open>\<open>std::make_unique<vthread_t>()\<close>: every member zero.  \<open>vt_fpu\<close> is the content of the area \<open>vt_fpu_state\<close> points to.\<close>

definition vthread_zero :: vthread where
  "vthread_zero = \<lparr>vt_handle = 0, vt_parent = None, vt_state = VT_UNKNOWN, vt_tls_handle = 0, vt_stack_top = 0,
     vt_stack_bottom = 0, vt_stack_bottom_kernel = 0, vt_kstack = 0, vt_sleep_until_ms = 0, vt_exit_code = 0,
     vt_is_critical = False, vt_name = replicate 64 0, vt_page_table = 0, vt_fpu_state = 0, vt_fpu = []\<rparr>"

text \<open>\<open>pr_image\<close> is the content of the memory \<open>pr_program_data_v\<close> points to.\<close>

record process =
  pr_pid :: u64
  pr_heap :: heap
  pr_main_thread :: u64
  pr_page_table :: u64
  pr_data :: u64
  pr_data_size :: u64
  pr_program_data_v :: u64
  pr_image :: "u8 list"
  pr_is_kernel_process :: bool

text \<open>A process whose memory is all zero, as its creator hands it over.\<close>

definition process_zero :: process where
  "process_zero = \<lparr>pr_pid = 0, pr_heap = \<lparr>heap_block_array = 0, hp_blocks = [], heap_block_count = 0, start_virtual_addr = 0, hp_size = 0\<rparr>,
     pr_main_thread = 0, pr_page_table = 0, pr_data = 0, pr_data_size = 0, pr_program_data_v = 0, pr_image = [],
     pr_is_kernel_process = False\<rparr>"

record cpu =
  cpu_page_table :: u64
  cpu_fpu :: "u8 list"
  cpu_rsp0 :: u64
  cpu_kernel_rsp :: u64

record sched =
  g_threads :: "(u64, vthread) linear_map"
  global_vthread_handle_counter :: u64
  global_current_thread :: "u64 option"
  g_process :: "nat option"
  sc_procs :: "process list"
  sc_cpu :: cpu
  sc_now :: u64
  sc_mem :: "u64 \<Rightarrow> u64"
  sc_freed :: "u64 list"

definition upd_thread :: "nat \<Rightarrow> (vthread \<Rightarrow> vthread) \<Rightarrow> sched \<Rightarrow> sched" where
  "upd_thread i f s = s\<lparr>g_threads := (g_threads s)[i := (fst (g_threads s ! i), f (snd (g_threads s ! i)))]\<rparr>"

section \<open>Creating and cleaning up\<close>

definition free_if :: "u64 \<Rightarrow> sched \<Rightarrow> sched" where
  "free_if p s = (if p \<noteq> 0 then s\<lparr>sc_freed := sc_freed s @ [p]\<rparr> else s)"

definition delete_process :: "nat \<Rightarrow> sched \<Rightarrow> sched" where
  "delete_process p s =
     (let pr = sc_procs s ! p;
          s1 = free_if (pr_data pr) s;
          pr1 = (if pr_data pr \<noteq> 0 then pr\<lparr>pr_data := 0, pr_data_size := 0\<rparr> else pr);
          s2 = free_if (pr_program_data_v pr) s1;
          pr2 = pr1\<lparr>pr_program_data_v := 0\<rparr>
      in s2\<lparr>sc_procs := (sc_procs s2)[p := pr2]\<rparr>)"

definition vthread_cleanup :: "vthread \<Rightarrow> sched \<Rightarrow> sched" where
  "vthread_cleanup t s =
     (let s1 = free_if (vt_fpu_state t) s;
          s2 = (if vt_stack_bottom_kernel t \<noteq> 0 then free_if (vt_stack_bottom_kernel t) s1 else free_if (vt_stack_bottom t) s1);
          s3 = free_if (vt_kstack t) s2
      in case vt_parent t of None \<Rightarrow> s3 | Some p \<Rightarrow> delete_process p s3)"

definition vhtread_next_handle :: "sched \<Rightarrow> u64 \<times> sched" where
  "vhtread_next_handle s =
     (global_vthread_handle_counter s, s\<lparr>global_vthread_handle_counter := global_vthread_handle_counter s + 1\<rparr>)"

definition amd64_get_selector_for :: "nat \<Rightarrow> u64" where
  "amd64_get_selector_for index = (if index \<ge> 6 then 0 else of_nat (index * 8))"

text \<open>The stack of a new thread, as it is pushed: the frame the interrupt return takes, the registers, the argument.\<close>

definition push_word :: "u64 \<Rightarrow> u64 \<times> (u64 \<Rightarrow> u64) \<Rightarrow> u64 \<times> (u64 \<Rightarrow> u64)" where
  "push_word v = (\<lambda>(sp, mem). (sp - 8, mem(sp - 8 := v)))"

definition init_frame :: "u64 \<Rightarrow> u64 \<Rightarrow> u64 \<Rightarrow> u64 list" where
  "init_frame entry_point thread_entry initial_rsp =
     [amd64_get_selector_for 2, initial_rsp, RFLAGS_IF OR RFLAGS_RES, amd64_get_selector_for 1, entry_point, 0]
     @ replicate 13 0 @ [thread_entry, 0]"

text \<open>\<open>stack\<close> and \<open>fpu\<close> are the answers of \<open>malloc_aligned\<close>; \<open>entry_point\<close> is the address of \<open>vthread_entry_point\<close>.\<close>

definition amd64_vthread_init ::
  "u64 \<Rightarrow> u64 \<Rightarrow> u64 option \<Rightarrow> u64 option \<Rightarrow> vthread \<Rightarrow> sched \<Rightarrow> bool \<times> vthread \<times> sched" where
  "amd64_vthread_init entry_point thread_entry stack fpu t s =
     (if thread_entry = 0 then (False, t, s)
      else case stack of None \<Rightarrow> (False, t, s)
      | Some stk \<Rightarrow>
          (case fpu of None \<Rightarrow> (False, t\<lparr>vt_fpu_state := 0\<rparr>, s)
           | Some f \<Rightarrow>
               let top = (stk + VTHREAD_STACK_SIZE) AND NOT 0xF;
                   (sp, mem) = fold push_word (init_frame entry_point thread_entry (top - 8)) (top, sc_mem s)
               in (True, t\<lparr>vt_fpu_state := f, vt_fpu := replicate 512 0, vt_stack_bottom := stk, vt_stack_top := sp,
                     vt_page_table := cpu_page_table (sc_cpu s)\<rparr>, s\<lparr>sc_mem := mem\<rparr>)))"

definition amd64_vthread_init_main_thread :: "u64 option \<Rightarrow> vthread \<Rightarrow> sched \<Rightarrow> bool \<times> vthread" where
  "amd64_vthread_init_main_thread fpu t s =
     (case fpu of None \<Rightarrow> (False, t\<lparr>vt_page_table := cpu_page_table (sc_cpu s), vt_fpu_state := 0\<rparr>)
      | Some f \<Rightarrow> (True, t\<lparr>vt_page_table := cpu_page_table (sc_cpu s), vt_fpu_state := f, vt_fpu := replicate 512 0\<rparr>))"

definition vthread_init ::
  "u64 \<Rightarrow> u64 \<Rightarrow> u64 option \<Rightarrow> u64 option \<Rightarrow> vthread \<Rightarrow> sched \<Rightarrow> bool \<times> vthread \<times> sched" where
  "vthread_init entry_point thread_entry stack fpu t s =
     (let (new_handle, s) = vhtread_next_handle s
      in amd64_vthread_init entry_point thread_entry stack fpu
           (t\<lparr>vt_handle := new_handle, vt_tls_handle := new_handle, vt_state := VT_RUNNING, vt_parent := g_process s\<rparr>) s)"

text \<open>\<open>_ZN7kthread4mainEPv\<close>, with its terminator, copied over the zeroed name.\<close>

definition main_thread_name :: "u8 list" where
  "main_thread_name = map of_char ''_ZN7kthread4mainEPv'' @ replicate 45 0"

definition vthread_init_main_thread :: "u64 option \<Rightarrow> vthread \<Rightarrow> sched \<Rightarrow> bool \<times> vthread" where
  "vthread_init_main_thread fpu t s =
     amd64_vthread_init_main_thread fpu (t\<lparr>vt_handle := VTHREAD_MAIN_THREAD_HANDLE, vt_tls_handle := VTHREAD_MAIN_THREAD_HANDLE,
       vt_is_critical := True, vt_parent := g_process s, vt_name := main_thread_name\<rparr>) s"

definition vthread_add :: "vthread \<Rightarrow> sched \<Rightarrow> bool \<times> sched" where
  "vthread_add t s =
     (case lm_insert (vt_handle t) (t\<lparr>vt_state := VT_RUNNING\<rparr>) (g_threads s) of (ok, m) \<Rightarrow> (ok, s\<lparr>g_threads := m\<rparr>))"

definition vthread_start_and_setup_main :: "u64 option \<Rightarrow> sched \<Rightarrow> u64 \<times> sched" where
  "vthread_start_and_setup_main fpu s =
     (if global_current_thread s \<noteq> None then (0, s)
      else let (_, t) = vthread_init_main_thread fpu vthread_zero s;
               (ok, s) = vthread_add t (s\<lparr>global_current_thread := Some (vt_handle t)\<rparr>)
           in (if ok then VTHREAD_MAIN_THREAD_HANDLE else VTHREAD_HANDLE_INVALID, s))"

definition vthread_create ::
  "u64 \<Rightarrow> u64 \<Rightarrow> u8 list option \<Rightarrow> u64 option \<Rightarrow> u64 option \<Rightarrow> sched \<Rightarrow> u64 \<times> sched" where
  "vthread_create entry_point thread_entry name stack fpu s =
     (let (ok, t, s) = vthread_init entry_point thread_entry stack fpu vthread_zero s
      in if \<not> ok then (VTHREAD_HANDLE_INVALID, vthread_cleanup t s)
         else let t = (case name of None \<Rightarrow> t
                       | Some n \<Rightarrow> t\<lparr>vt_name := (let k = min (length n) VTHREAD_MAX_NAME_SIZE
                                               in take k n @ replicate (VTHREAD_MAX_NAME_SIZE + 1 - k) 0)\<rparr>);
                  (ok, s) = vthread_add t s
              in if ok then (vt_handle t, s) else (VTHREAD_HANDLE_INVALID, vthread_cleanup t s))"

section \<open>Scheduling\<close>

text \<open>\<open>vthread_get_next_thead\<close>: an index into the table; \<open>None\<close> is the value of \<open>begin()\<close> of an empty table.\<close>

definition vthread_get_next_thead :: "u64 \<Rightarrow> (u64, vthread) linear_map \<Rightarrow> nat option" where
  "vthread_get_next_thead handle m =
     (case lm_get handle m of
        None \<Rightarrow> if m = [] then None else Some 0
      | Some i \<Rightarrow> if Suc i = length m then Some 0 else Some (Suc i))"

definition vthread_store_context :: "u64 \<Rightarrow> u64 \<Rightarrow> sched \<Rightarrow> sched option" where
  "vthread_store_context h stack s = do {
     i \<leftarrow> lm_get h (g_threads s);
     if vt_fpu_state (snd (g_threads s ! i)) = 0 then None
     else Some (upd_thread i (\<lambda>t. t\<lparr>vt_stack_top := stack, vt_fpu := cpu_fpu (sc_cpu s)\<rparr>) s) }"

definition vthread_load_context :: "vthread \<Rightarrow> sched \<Rightarrow> sched option" where
  "vthread_load_context t s =
     (if vt_fpu_state t = 0 then None
      else do {
        p \<leftarrow> vt_parent t;
        let c = (sc_cpu s)\<lparr>cpu_page_table := vt_page_table t, cpu_fpu := vt_fpu t\<rparr>;
        let top = vt_kstack t + VTHREAD_STACK_SIZE;
        Some (s\<lparr>sc_cpu := if pr_is_kernel_process (sc_procs s ! p) then c
                          else c\<lparr>cpu_rsp0 := top, cpu_kernel_rsp := (if top = 0 then cpu_kernel_rsp c else top)\<rparr>\<rparr>) })"

definition vthread_handle_sleeping :: "nat \<Rightarrow> sched \<Rightarrow> bool \<times> sched" where
  "vthread_handle_sleeping i s =
     (if vt_sleep_until_ms (snd (g_threads s ! i)) \<le> sc_now s
      then (True, upd_thread i (\<lambda>t. t\<lparr>vt_state := VT_RUNNING\<rparr>) s) else (False, s))"

definition vthread_handle_starting :: "nat \<Rightarrow> sched \<Rightarrow> sched" where
  "vthread_handle_starting i = upd_thread i (\<lambda>t. t\<lparr>vt_state := VT_RUNNING\<rparr>)"

text \<open>\<open>None\<close> is the call of \<open>kernel_fatal\<close>, which does not return.\<close>

definition vthread_handle_stopping :: "nat \<Rightarrow> sched \<Rightarrow> sched option" where
  "vthread_handle_stopping i s =
     (let t = snd (g_threads s ! i)
      in if vt_is_critical t then None
         else let s1 = vthread_cleanup t s
              in Some (s1\<lparr>g_threads := snd (lm_remove (vt_handle t) (g_threads s1))\<rparr>))"

definition vthread_check_stack :: "vthread \<Rightarrow> bool" where
  "vthread_check_stack t \<longleftrightarrow>
     \<not> vt_stack_top t < vt_stack_bottom t \<and> \<not> vt_stack_top t - vt_stack_bottom t < VTHREAD_STACK_DEADZONE"

text \<open>One round of the loop of \<open>vthread_schedule\<close> on the thread at \<open>i\<close>: it leaves the loop, or goes on with
  the successor of a handle.\<close>

datatype loop_out = LoopPicked nat sched | LoopFatal u64 | LoopFault

datatype round_out = RoundDone loop_out | RoundNext u64 sched

definition sched_round :: "nat \<Rightarrow> sched \<Rightarrow> round_out" where
  "sched_round i s =
     (let t = snd (g_threads s ! i)
      in case vt_state t of
           VT_RUNNING \<Rightarrow> RoundDone (LoopPicked i s)
         | VT_STARTING \<Rightarrow> RoundNext (vt_handle t) (vthread_handle_starting i s)
         | VT_SLEEPING \<Rightarrow>
             (case vthread_handle_sleeping i s of (due, s) \<Rightarrow>
                if due then RoundDone (LoopPicked i s) else RoundNext (vt_handle t) s)
         | VT_STOPPING \<Rightarrow>
             (case vthread_handle_stopping i s of
                None \<Rightarrow> RoundDone (LoopFatal KERNEL_FATAL_CRITICAL_THREAD_DIED)
              | Some s \<Rightarrow> RoundNext VTHREAD_HANDLE_INVALID s)
         | VT_UNKNOWN \<Rightarrow> RoundNext (vt_handle t) s)"

partial_function (option) sched_loop :: "nat \<Rightarrow> sched \<Rightarrow> loop_out option" where
  "sched_loop i s =
     (case sched_round i s of
        RoundDone r \<Rightarrow> Some r
      | RoundNext h s \<Rightarrow>
          (case vthread_get_next_thead h (g_threads s) of
             None \<Rightarrow> Some LoopFault
           | Some j \<Rightarrow> sched_loop j s))"

datatype sched_out = SchedNext u64 sched | SchedFatal u64 | SchedFault

definition sched_switch :: "nat \<Rightarrow> sched \<Rightarrow> sched_out" where
  "sched_switch i s =
     (let t = snd (g_threads s ! i)
      in case vthread_load_context t (s\<lparr>g_process := vt_parent t\<rparr>) of
           None \<Rightarrow> SchedFault
         | Some s \<Rightarrow> SchedNext (vt_stack_top t) (s\<lparr>global_current_thread := Some (vt_handle t)\<rparr>))"

definition vthread_schedule :: "u64 \<Rightarrow> sched \<Rightarrow> sched_out option" where
  "vthread_schedule stack s =
     (case global_current_thread s of
        None \<Rightarrow> Some (SchedNext stack s)
      | Some cur \<Rightarrow>
          if lm_size (g_threads s) \<le> 1 then Some (SchedNext stack s)
          else case vthread_store_context cur stack s of
                 None \<Rightarrow> Some SchedFault
               | Some s \<Rightarrow>
                   (case vthread_get_next_thead cur (g_threads s) of
                      None \<Rightarrow> Some SchedFault
                    | Some i \<Rightarrow> do {
                        r \<leftarrow> sched_loop i s;
                        case r of
                          LoopPicked j s \<Rightarrow> Some (sched_switch j s)
                        | LoopFatal c \<Rightarrow> Some (SchedFatal c)
                        | LoopFault \<Rightarrow> Some SchedFault }))"

text \<open>The timer interrupt counts a tick and schedules; a yield only schedules.\<close>

definition vthread_handle_interrupt :: "u64 \<Rightarrow> sched \<Rightarrow> sched_out option" where
  "vthread_handle_interrupt stack s = vthread_schedule stack s"

definition pit_handle_interrupt :: "u64 \<Rightarrow> sched \<Rightarrow> sched_out option" where
  "pit_handle_interrupt stack s = vthread_handle_interrupt stack (s\<lparr>sc_now := sc_now s + 1\<rparr>)"

section \<open>What threads do\<close>

definition upd_current :: "(vthread \<Rightarrow> vthread) \<Rightarrow> sched \<Rightarrow> sched option" where
  "upd_current f s = do {
     h \<leftarrow> global_current_thread s;
     i \<leftarrow> lm_get h (g_threads s);
     Some (upd_thread i f s) }"

text \<open>\<open>vthread_entry_point\<close> up to its first yield, and after the thread's function has returned.\<close>

definition vthread_entry_begin :: "sched \<Rightarrow> sched option" where
  "vthread_entry_begin = upd_current (\<lambda>t. t\<lparr>vt_state := VT_STARTING\<rparr>)"

definition vthread_entry_exit :: "int \<Rightarrow> sched \<Rightarrow> sched option" where
  "vthread_entry_exit code = upd_current (\<lambda>t. t\<lparr>vt_exit_code := code, vt_state := VT_STOPPING\<rparr>)"

text \<open>\<open>vthread_sleep\<close> up to its yield.  The main thread does not sleep but yields until the time returned.\<close>

definition vthread_sleep :: "u64 \<Rightarrow> sched \<Rightarrow> (u64 option \<times> sched) option" where
  "vthread_sleep time_ms s = do {
     h \<leftarrow> global_current_thread s;
     if h = VTHREAD_MAIN_THREAD_HANDLE then Some (Some (sc_now s + time_ms), s)
     else map_option (Pair None) (upd_current (\<lambda>t. t\<lparr>vt_sleep_until_ms := sc_now s + time_ms, vt_state := VT_SLEEPING\<rparr>) s) }"

definition vthread_terminate :: "u64 \<Rightarrow> sched \<Rightarrow> sched" where
  "vthread_terminate h s =
     (case lm_get h (g_threads s) of None \<Rightarrow> s | Some i \<Rightarrow> upd_thread i (\<lambda>t. t\<lparr>vt_state := VT_STOPPING\<rparr>) s)"

definition vthread_terminate_current :: "sched \<Rightarrow> sched option" where
  "vthread_terminate_current = upd_current (\<lambda>t. t\<lparr>vt_state := VT_STOPPING\<rparr>)"

definition vthread_is_closed :: "u64 \<Rightarrow> sched \<Rightarrow> bool" where
  "vthread_is_closed h s =
     (case lm_get h (g_threads s) of None \<Rightarrow> True | Some i \<Rightarrow> vt_state (snd (g_threads s ! i)) = VT_STOPPING)"

definition vthread_get :: "u64 \<Rightarrow> sched \<Rightarrow> vthread option" where
  "vthread_get h s = (case lm_get h (g_threads s) of None \<Rightarrow> None | Some i \<Rightarrow> Some (snd (g_threads s ! i)))"

definition vthread_set_critical :: "u64 \<Rightarrow> bool \<Rightarrow> sched \<Rightarrow> bool \<times> sched" where
  "vthread_set_critical h state s =
     (case lm_get h (g_threads s) of None \<Rightarrow> (False, s) | Some i \<Rightarrow> (True, upd_thread i (\<lambda>t. t\<lparr>vt_is_critical := state\<rparr>) s))"

definition vthread_get_state :: "sched \<Rightarrow> vthread_state option" where
  "vthread_get_state s =
     (case global_current_thread s of None \<Rightarrow> Some VT_UNKNOWN | Some h \<Rightarrow> map_option vt_state (vthread_get h s))"

definition vthread_get_count :: "sched \<Rightarrow> nat" where
  "vthread_get_count s = lm_size (g_threads s)"

text \<open>The test of the loop of \<open>vthread_wait_for_close\<close>.\<close>

definition vthread_wait_over :: "u64 \<Rightarrow> sched \<Rightarrow> bool" where
  "vthread_wait_over h s \<longleftrightarrow> \<not> lm_contains h (g_threads s)"

definition vthread_get_tls :: "sched \<Rightarrow> u64 option" where
  "vthread_get_tls s = do { h \<leftarrow> global_current_thread s; map_option vt_tls_handle (vthread_get h s) }"

section \<open>The invariant\<close>

definition thread_ok :: "sched \<Rightarrow> u64 \<Rightarrow> vthread \<Rightarrow> bool" where
  "thread_ok s h t \<longleftrightarrow> vt_handle t = h \<and> h < global_vthread_handle_counter s \<and> vt_fpu_state t \<noteq> 0 \<and>
     (\<exists>p. vt_parent t = Some p \<and> p < length (sc_procs s))"

definition table_inv :: "sched \<Rightarrow> bool" where
  "table_inv s \<longleftrightarrow> lm_inv (g_threads s) \<and> (\<forall>(h, t) \<in> set (g_threads s). thread_ok s h t) \<and>
     (\<exists>t. (VTHREAD_MAIN_THREAD_HANDLE, t) \<in> set (g_threads s) \<and> vt_state t = VT_RUNNING) \<and>
     (\<exists>p < length (sc_procs s). g_process s = Some p)"

definition sched_inv :: "sched \<Rightarrow> bool" where
  "sched_inv s \<longleftrightarrow> table_inv s \<and> (\<exists>c \<in> fst ` set (g_threads s). global_current_thread s = Some c)"

text \<open>What a switch must give back: where the thread was, its address space and its processor state.\<close>

definition ctx :: "vthread \<Rightarrow> u64 \<times> u64 \<times> u8 list" where
  "ctx t = (vt_stack_top t, vt_page_table t, vt_fpu t)"

lemma vthread_get_map_of: "vthread_get h s = map_of (g_threads s) h"
proof -
  have "vthread_get h s = lm_lookup (g_threads s) h"
    by (simp add: vthread_get_def lm_lookup_def split: option.splits)
  then show ?thesis by (simp add: lm_lookup_map_of)
qed

lemma lm_get_nth: "lm_inv m \<Longrightarrow> i < length m \<Longrightarrow> lm_get (fst (m ! i)) m = Some i"
proof (induction m arbitrary: i)
  case (Cons kv m)
  show ?case
  proof (cases i)
    case (Suc j)
    then have "fst (m ! j) \<in> fst ` set m" using Cons.prems by simp
    moreover have "fst kv \<notin> fst ` set m" using Cons.prems(1) by (simp add: lm_inv_def)
    ultimately have "fst kv \<noteq> fst (m ! j)" by metis
    then show ?thesis using Cons Suc by (simp add: lm_inv_def)
  qed simp
qed simp

lemma lm_get_Some_iff: "lm_inv m \<Longrightarrow> lm_get k m = Some i \<longleftrightarrow> i < length m \<and> fst (m ! i) = k"
  using lm_get_Some [of k m i] lm_get_nth [of m i] by auto

text \<open>An update that keeps what the invariant looks at.\<close>

definition harmless :: "(vthread \<Rightarrow> vthread) \<Rightarrow> bool" where
  "harmless f \<longleftrightarrow> (\<forall>t. vt_handle (f t) = vt_handle t \<and> vt_fpu_state (f t) = vt_fpu_state t \<and> vt_parent (f t) = vt_parent t)"

lemma upd_thread_sel [simp]:
  "global_current_thread (upd_thread i f s) = global_current_thread s" "g_process (upd_thread i f s) = g_process s"
  "sc_procs (upd_thread i f s) = sc_procs s" "sc_cpu (upd_thread i f s) = sc_cpu s" "sc_now (upd_thread i f s) = sc_now s"
  "sc_mem (upd_thread i f s) = sc_mem s"
  "global_vthread_handle_counter (upd_thread i f s) = global_vthread_handle_counter s"
  "length (g_threads (upd_thread i f s)) = length (g_threads s)"
  by (simp_all add: upd_thread_def)

lemma upd_thread_nth:
  "i < length (g_threads s) \<Longrightarrow> j < length (g_threads s) \<Longrightarrow> g_threads (upd_thread i f s) ! j =
     (fst (g_threads s ! j), if j = i then f (snd (g_threads s ! j)) else snd (g_threads s ! j))"
  by (auto simp: upd_thread_def nth_list_update)

lemma upd_thread_keys: "map fst (g_threads (upd_thread i f s)) = map fst (g_threads s)"
proof (cases "i < length (g_threads s)")
  case True
  then show ?thesis by (intro nth_equalityI) (simp_all add: upd_thread_nth)
qed (simp add: upd_thread_def list_update_beyond)

lemma lm_get_keys: "map fst m = map fst m' \<Longrightarrow> lm_get k m = lm_get k m'"
proof (induction m arbitrary: m')
  case (Cons kv m)
  then obtain kv' m'' where "m' = kv' # m''" "fst kv' = fst kv" "map fst m = map fst m''" by (cases m') auto
  with Cons.IH [of m''] show ?case by simp
qed simp

lemma next_keys: "map fst m = map fst m' \<Longrightarrow> vthread_get_next_thead h m = vthread_get_next_thead h m'"
  using lm_get_keys [of m m' h] by (auto simp: vthread_get_next_thead_def dest: map_eq_imp_length_eq split: option.splits)

lemma vthread_get_upd:
  assumes "lm_inv (g_threads s)" "i < length (g_threads s)"
  shows "vthread_get h (upd_thread i f s) = (if h = fst (g_threads s ! i) then Some (f (snd (g_threads s ! i))) else vthread_get h s)"
proof -
  have g: "lm_get h (g_threads (upd_thread i f s)) = lm_get h (g_threads s)" by (rule lm_get_keys) (rule upd_thread_keys)
  show ?thesis
  proof (cases "h = fst (g_threads s ! i)")
    case True
    with g upd_thread_nth [OF assms(2) assms(2)] lm_get_nth [OF assms] show ?thesis by (simp add: vthread_get_def)
  next
    case False
    show ?thesis
    proof (cases "lm_get h (g_threads s)")
      case None
      with g False show ?thesis by (simp add: vthread_get_def)
    next
      case (Some j)
      then have "j < length (g_threads s)" "j \<noteq> i" using lm_get_Some [OF Some] False by auto
      with g Some False upd_thread_nth [OF assms(2)] show ?thesis by (simp add: vthread_get_def)
    qed
  qed
qed

lemma table_inv_nth:
  assumes "table_inv s" "i < length (g_threads s)"
  shows "thread_ok s (fst (g_threads s ! i)) (snd (g_threads s ! i))"
proof -
  have "g_threads s ! i \<in> set (g_threads s)" using assms(2) by simp
  with assms(1) show ?thesis by (auto simp: table_inv_def)
qed

lemma main_index:
  assumes "table_inv s"
  obtains m where "m < length (g_threads s)" "fst (g_threads s ! m) = 0" "vt_state (snd (g_threads s ! m)) = VT_RUNNING"
proof -
  from assms obtain t where "(0, t) \<in> set (g_threads s)" "vt_state t = VT_RUNNING"
    by (auto simp: table_inv_def VTHREAD_MAIN_THREAD_HANDLE_def)
  then show ?thesis using that by (metis fst_conv in_set_conv_nth snd_conv)
qed

lemma table_inv_iff:
  "table_inv s \<longleftrightarrow> lm_inv (g_threads s) \<and> (\<forall>i < length (g_threads s). thread_ok s (fst (g_threads s ! i)) (snd (g_threads s ! i))) \<and>
     (\<exists>m < length (g_threads s). fst (g_threads s ! m) = 0 \<and> vt_state (snd (g_threads s ! m)) = VT_RUNNING) \<and>
     (\<exists>p < length (sc_procs s). g_process s = Some p)"
proof -
  have "(\<forall>(h, t) \<in> set (g_threads s). thread_ok s h t) \<longleftrightarrow>
      (\<forall>i < length (g_threads s). thread_ok s (fst (g_threads s ! i)) (snd (g_threads s ! i)))"
    by (metis (no_types, lifting) case_prod_unfold in_set_conv_nth)
  moreover have "(\<exists>t. (VTHREAD_MAIN_THREAD_HANDLE, t) \<in> set (g_threads s) \<and> vt_state t = VT_RUNNING) \<longleftrightarrow>
      (\<exists>m < length (g_threads s). fst (g_threads s ! m) = 0 \<and> vt_state (snd (g_threads s ! m)) = VT_RUNNING)"
    unfolding VTHREAD_MAIN_THREAD_HANDLE_def by (metis fst_conv in_set_conv_nth prod.collapse snd_conv)
  ultimately show ?thesis by (simp add: table_inv_def)
qed

lemma upd_thread_table:
  assumes "table_inv s" "i < length (g_threads s)" "harmless f"
    and "fst (g_threads s ! i) \<noteq> 0 \<or> vt_state (f (snd (g_threads s ! i))) = VT_RUNNING"
  shows "table_inv (upd_thread i f s)"
proof -
  have k: "map fst (g_threads (upd_thread i f s)) = map fst (g_threads s)" by (rule upd_thread_keys)
  then have ks: "fst ` set (g_threads (upd_thread i f s)) = fst ` set (g_threads s)" by (metis set_map)
  have "\<exists>m < length (g_threads s). fst (g_threads (upd_thread i f s) ! m) = 0 \<and> vt_state (snd (g_threads (upd_thread i f s) ! m)) = VT_RUNNING"
  proof -
    obtain m where m: "m < length (g_threads s)" "fst (g_threads s ! m) = 0" "vt_state (snd (g_threads s ! m)) = VT_RUNNING"
      using main_index [OF assms(1)] by blast
    with assms(4) show ?thesis by (intro exI [of _ m]) (auto simp: upd_thread_nth [OF assms(2)])
  qed
  moreover have "thread_ok (upd_thread i f s) (fst (g_threads (upd_thread i f s) ! j)) (snd (g_threads (upd_thread i f s) ! j))"
    if "j < length (g_threads s)" for j
    using table_inv_nth [OF assms(1) that] assms(3) upd_thread_nth [OF assms(2) that, of f]
    by (auto simp: thread_ok_def harmless_def)
  ultimately show ?thesis using assms(1) k ks by (auto simp: table_inv_iff lm_inv_def)
qed


lemma key_in_upd [simp]: "fst ` set (g_threads (upd_thread i f s)) = fst ` set (g_threads s)"
  using upd_thread_keys [of i f s] by (metis set_map)

section \<open>The loop ends at a runnable thread\<close>

text \<open>How the loop changes the state: what a thread gets back stays, and only stopping threads go.\<close>

definition kept :: "sched \<Rightarrow> sched \<Rightarrow> bool" where
  "kept s s' \<longleftrightarrow> global_current_thread s' = global_current_thread s \<and> sc_cpu s' = sc_cpu s \<and> sc_now s' = sc_now s \<and>
     global_vthread_handle_counter s' = global_vthread_handle_counter s \<and> g_process s' = g_process s \<and> sc_mem s' = sc_mem s \<and>
     (\<forall>h. case vthread_get h s' of
        Some t' \<Rightarrow> (\<exists>t. vthread_get h s = Some t \<and> ctx t' = ctx t \<and> vt_is_critical t' = vt_is_critical t \<and>
           (vt_state t' \<noteq> vt_state t \<longrightarrow> vt_state t' = VT_RUNNING))
      | None \<Rightarrow> (\<forall>t. vthread_get h s = Some t \<longrightarrow> vt_state t = VT_STOPPING))"

lemma kept_refl: "kept s s"
  by (simp add: kept_def split: option.splits)

lemma kept_trans:
  assumes "kept s1 s2" "kept s2 s3"
  shows "kept s1 s3"
proof -
  have "case vthread_get h s3 of
        Some t' \<Rightarrow> (\<exists>t. vthread_get h s1 = Some t \<and> ctx t' = ctx t \<and> vt_is_critical t' = vt_is_critical t \<and>
           (vt_state t' \<noteq> vt_state t \<longrightarrow> vt_state t' = VT_RUNNING))
      | None \<Rightarrow> (\<forall>t. vthread_get h s1 = Some t \<longrightarrow> vt_state t = VT_STOPPING)" for h
  proof -
    have a: "case vthread_get h s2 of
        Some t' \<Rightarrow> (\<exists>t. vthread_get h s1 = Some t \<and> ctx t' = ctx t \<and> vt_is_critical t' = vt_is_critical t \<and>
           (vt_state t' \<noteq> vt_state t \<longrightarrow> vt_state t' = VT_RUNNING))
      | None \<Rightarrow> (\<forall>t. vthread_get h s1 = Some t \<longrightarrow> vt_state t = VT_STOPPING)"
      and b: "case vthread_get h s3 of
        Some t' \<Rightarrow> (\<exists>t. vthread_get h s2 = Some t \<and> ctx t' = ctx t \<and> vt_is_critical t' = vt_is_critical t \<and>
           (vt_state t' \<noteq> vt_state t \<longrightarrow> vt_state t' = VT_RUNNING))
      | None \<Rightarrow> (\<forall>t. vthread_get h s2 = Some t \<longrightarrow> vt_state t = VT_STOPPING)"
      using assms by (simp_all add: kept_def)
    show ?thesis
    proof (cases "vthread_get h s3")
      case None
      show ?thesis
      proof (cases "vthread_get h s2")
        case None
        with a \<open>vthread_get h s3 = None\<close> show ?thesis by simp
      next
        case (Some t2)
        with b \<open>vthread_get h s3 = None\<close> have "vt_state t2 = VT_STOPPING" by simp
        with a Some \<open>vthread_get h s3 = None\<close> show ?thesis by auto
      qed
    next
      case (Some t3)
      with b obtain t2 where "vthread_get h s2 = Some t2" "ctx t3 = ctx t2" "vt_is_critical t3 = vt_is_critical t2"
        "vt_state t3 \<noteq> vt_state t2 \<longrightarrow> vt_state t3 = VT_RUNNING" by auto
      with a Some show ?thesis by auto
    qed
  qed
  with assms show ?thesis by (simp add: kept_def)
qed

lemma run_state_kept:
  assumes "lm_inv (g_threads s)" "i < length (g_threads s)"
  shows "kept s (upd_thread i (\<lambda>t. t\<lparr>vt_state := VT_RUNNING\<rparr>) s)"
proof -
  have "vthread_get (fst (g_threads s ! i)) s = Some (snd (g_threads s ! i))"
    using lm_get_nth [OF assms] by (simp add: vthread_get_def)
  then show ?thesis
    by (auto simp: kept_def vthread_get_upd [OF assms] ctx_def split: option.splits)
qed

lemma free_if_sel [simp]:
  "g_threads (free_if p s) = g_threads s" "global_current_thread (free_if p s) = global_current_thread s"
  "g_process (free_if p s) = g_process s" "sc_cpu (free_if p s) = sc_cpu s" "sc_now (free_if p s) = sc_now s"
  "sc_mem (free_if p s) = sc_mem s" "sc_procs (free_if p s) = sc_procs s"
  "global_vthread_handle_counter (free_if p s) = global_vthread_handle_counter s"
  by (simp_all add: free_if_def)

lemma cleanup_sel [simp]:
  "g_threads (vthread_cleanup t s) = g_threads s" "global_current_thread (vthread_cleanup t s) = global_current_thread s"
  "g_process (vthread_cleanup t s) = g_process s" "sc_cpu (vthread_cleanup t s) = sc_cpu s" "sc_now (vthread_cleanup t s) = sc_now s"
  "sc_mem (vthread_cleanup t s) = sc_mem s" "length (sc_procs (vthread_cleanup t s)) = length (sc_procs s)"
  "global_vthread_handle_counter (vthread_cleanup t s) = global_vthread_handle_counter s"
  by (simp_all add: vthread_cleanup_def delete_process_def Let_def split: option.splits)

lemma map_of_filter_handle: "map_of (filter (\<lambda>kv. fst kv \<noteq> k) m) h = (if h = k then None else map_of m h)"
  by (induction m) auto

lemma stopping_kept:
  assumes "table_inv s" "i < length (g_threads s)" "vt_state (snd (g_threads s ! i)) = VT_STOPPING"
    and "vthread_handle_stopping i s = Some s'"
  shows "table_inv s' \<and> kept s s' \<and> length (g_threads s') < length (g_threads s)"
proof -
  let ?k = "fst (g_threads s ! i)"
  have inv: "lm_inv (g_threads s)" using assms(1) by (simp add: table_inv_def)
  have k: "vt_handle (snd (g_threads s ! i)) = ?k" using table_inv_nth [OF assms(1,2)] by (simp add: thread_ok_def)
  have s': "g_threads s' = filter (\<lambda>kv. fst kv \<noteq> ?k) (g_threads s)"
    "global_current_thread s' = global_current_thread s" "g_process s' = g_process s" "sc_cpu s' = sc_cpu s" "sc_now s' = sc_now s"
    "sc_mem s' = sc_mem s" "length (sc_procs s') = length (sc_procs s)" "global_vthread_handle_counter s' = global_vthread_handle_counter s"
    using assms(4) k lm_remove_filter [OF inv] by (auto simp: vthread_handle_stopping_def Let_def split: if_splits)
  have g: "vthread_get h s' = (if h = ?k then None else vthread_get h s)" for h
    by (simp add: vthread_get_map_of s' map_of_filter_handle)
  have gk: "vthread_get ?k s = Some (snd (g_threads s ! i))" using lm_get_nth [OF inv assms(2)] by (simp add: vthread_get_def)
  have "kept s s'" using gk assms(3) by (auto simp: kept_def g s' split: option.splits)
  moreover have "length (g_threads s') < length (g_threads s)"
    unfolding s' by (rule length_filter_less [of "g_threads s ! i"]) (use assms(2) in simp_all)
  moreover have "lm_inv (g_threads s')" using inv by (simp add: s' lm_inv_def distinct_map_filter)
  moreover have "?k \<noteq> 0"
  proof
    assume "?k = 0"
    obtain m where "m < length (g_threads s)" "fst (g_threads s ! m) = 0" "vt_state (snd (g_threads s ! m)) = VT_RUNNING"
      using main_index [OF assms(1)] by blast
    then have "m = i" using lm_get_nth [OF inv, of m] lm_get_nth [OF inv assms(2)] \<open>?k = 0\<close> by simp
    with \<open>vt_state (snd (g_threads s ! m)) = VT_RUNNING\<close> assms(3) show False by simp
  qed
  then have "\<exists>t. (VTHREAD_MAIN_THREAD_HANDLE, t) \<in> set (g_threads s') \<and> vt_state t = VT_RUNNING"
    using assms(1) by (auto simp: table_inv_def s' VTHREAD_MAIN_THREAD_HANDLE_def)
  ultimately show ?thesis using assms(1) by (auto simp: table_inv_def s' thread_ok_def)
qed

lemma round_ok:
  assumes "table_inv s" "i < length (g_threads s)"
  shows "case sched_round i s of
      RoundDone (LoopPicked j s') \<Rightarrow> j = i \<and> table_inv s' \<and> kept s s' \<and> map fst (g_threads s') = map fst (g_threads s) \<and>
        vt_state (snd (g_threads s' ! i)) = VT_RUNNING
    | RoundDone (LoopFatal c) \<Rightarrow> c = KERNEL_FATAL_CRITICAL_THREAD_DIED \<and>
        (\<exists>h t. vthread_get h s = Some t \<and> vt_state t = VT_STOPPING \<and> vt_is_critical t)
    | RoundDone LoopFault \<Rightarrow> False
    | RoundNext h s' \<Rightarrow> table_inv s' \<and> kept s s' \<and>
        (map fst (g_threads s') = map fst (g_threads s) \<and> h = fst (g_threads s ! i) \<and> fst (g_threads s ! i) \<noteq> 0 \<or>
         length (g_threads s') < length (g_threads s) \<and> h = VTHREAD_HANDLE_INVALID)"
proof -
  let ?t = "snd (g_threads s ! i)"
  have inv: "lm_inv (g_threads s)" using assms(1) by (simp add: table_inv_def)
  have h: "vt_handle ?t = fst (g_threads s ! i)" using table_inv_nth [OF assms] by (simp add: thread_ok_def)
  have gk: "vthread_get (fst (g_threads s ! i)) s = Some ?t" using lm_get_nth [OF inv assms(2)] by (simp add: vthread_get_def)
  have nz: "fst (g_threads s ! i) \<noteq> 0" if "vt_state ?t \<noteq> VT_RUNNING"
  proof
    assume z: "fst (g_threads s ! i) = 0"
    obtain m where "m < length (g_threads s)" "fst (g_threads s ! m) = 0" "vt_state (snd (g_threads s ! m)) = VT_RUNNING"
      using main_index [OF assms(1)] by blast
    then have "m = i" using lm_get_nth [OF inv, of m] lm_get_nth [OF inv assms(2)] z by simp
    with \<open>vt_state (snd (g_threads s ! m)) = VT_RUNNING\<close> that show False by simp
  qed
  let ?u = "upd_thread i (\<lambda>t. t\<lparr>vt_state := VT_RUNNING\<rparr>) s"
  have u: "table_inv ?u" "kept s ?u" "map fst (g_threads ?u) = map fst (g_threads s)"
    "vt_state (snd (g_threads ?u ! i)) = VT_RUNNING"
    using upd_thread_table [OF assms, of "\<lambda>t. t\<lparr>vt_state := VT_RUNNING\<rparr>"] run_state_kept [OF inv assms(2)]
      upd_thread_keys [of i _ s] upd_thread_nth [OF assms(2) assms(2)]
    by (simp_all add: harmless_def)
  show ?thesis
  proof (cases "vt_state ?t")
    case VT_STOPPING
    show ?thesis
    proof (cases "vthread_handle_stopping i s")
      case None
      then have "vt_is_critical ?t" by (simp add: vthread_handle_stopping_def Let_def split: if_splits)
      with VT_STOPPING gk have "\<exists>h t. vthread_get h s = Some t \<and> vt_state t = VT_STOPPING \<and> vt_is_critical t" by blast
      with None VT_STOPPING show ?thesis by (simp add: sched_round_def)
    next
      case (Some s')
      with stopping_kept [OF assms VT_STOPPING Some] VT_STOPPING show ?thesis by (simp add: sched_round_def)
    qed
  next
    case VT_UNKNOWN
    with assms h nz show ?thesis by (simp add: sched_round_def kept_refl)
  next
    case VT_STARTING
    with u h nz show ?thesis by (simp add: sched_round_def vthread_handle_starting_def)
  next
    case VT_RUNNING
    with assms show ?thesis by (simp add: sched_round_def kept_refl)
  next
    case VT_SLEEPING
    with u h nz assms show ?thesis
      by (cases "vt_sleep_until_ms ?t \<le> sc_now s") (simp_all add: sched_round_def vthread_handle_sleeping_def kept_refl)
  qed
qed


text \<open>How far the loop is from the main thread, which always runs.\<close>

definition loop_good :: "sched \<Rightarrow> loop_out \<Rightarrow> bool" where
  "loop_good s r \<longleftrightarrow> (case r of
      LoopPicked j s' \<Rightarrow> table_inv s' \<and> kept s s' \<and> j < length (g_threads s') \<and> vt_state (snd (g_threads s' ! j)) = VT_RUNNING
    | LoopFatal c \<Rightarrow> c = KERNEL_FATAL_CRITICAL_THREAD_DIED \<and>
        (\<exists>h t. vthread_get h s = Some t \<and> vt_state t = VT_STOPPING \<and> vt_is_critical t)
    | LoopFault \<Rightarrow> False)"

lemma kept_get:
  assumes "kept s s'" "vthread_get h s' = Some t'"
  obtains t where "vthread_get h s = Some t" "ctx t' = ctx t" "vt_is_critical t' = vt_is_critical t"
    "vt_state t' \<noteq> vt_state t \<longrightarrow> vt_state t' = VT_RUNNING"
proof -
  have "case vthread_get h s' of
        Some t' \<Rightarrow> (\<exists>t. vthread_get h s = Some t \<and> ctx t' = ctx t \<and> vt_is_critical t' = vt_is_critical t \<and>
           (vt_state t' \<noteq> vt_state t \<longrightarrow> vt_state t' = VT_RUNNING))
      | None \<Rightarrow> (\<forall>t. vthread_get h s = Some t \<longrightarrow> vt_state t = VT_STOPPING)"
    using assms(1) unfolding kept_def by blast
  with assms(2) that show thesis by auto
qed

lemma loop_good_kept:
  assumes "kept s s'" "loop_good s' r"
  shows "loop_good s r"
proof (cases r)
  case (LoopPicked j s2)
  with assms kept_trans [OF assms(1), of s2] show ?thesis by (simp add: loop_good_def)
next
  case (LoopFatal c)
  with assms(2) obtain h t' where t': "c = KERNEL_FATAL_CRITICAL_THREAD_DIED" "vthread_get h s' = Some t'"
    "vt_state t' = VT_STOPPING" "vt_is_critical t'" by (auto simp: loop_good_def)
  obtain t where "vthread_get h s = Some t" "vt_is_critical t' = vt_is_critical t" "vt_state t' \<noteq> vt_state t \<longrightarrow> vt_state t' = VT_RUNNING"
    using kept_get [OF assms(1) t'(2)] by blast
  moreover from this t'(3) have "vt_state t = VT_STOPPING" by (cases "vt_state t") simp_all
  ultimately have "\<exists>h t. vthread_get h s = Some t \<and> vt_state t = VT_STOPPING \<and> vt_is_critical t" using t'(4) by blast
  with t'(1) LoopFatal show ?thesis by (simp add: loop_good_def)
next
  case LoopFault
  with assms(2) show ?thesis by (simp add: loop_good_def)
qed

lemma next_nth:
  assumes "lm_inv m" "i < length m"
  shows "vthread_get_next_thead (fst (m ! i)) m = Some (if Suc i = length m then 0 else Suc i)"
  using lm_get_nth [OF assms] by (simp add: vthread_get_next_thead_def)

lemma next_defined:
  assumes "m \<noteq> []"
  shows "\<exists>j. vthread_get_next_thead h m = Some j \<and> j < length m"
proof (cases "lm_get h m")
  case None
  with assms show ?thesis by (simp add: vthread_get_next_thead_def)
next
  case (Some i)
  with lm_get_Some [OF Some] show ?thesis by (auto simp: vthread_get_next_thead_def)
qed

lemma threads_nonempty: "table_inv s \<Longrightarrow> g_threads s \<noteq> []"
  by (auto simp: table_inv_def)

lemma sched_loop_dist:
  assumes shorter: "\<And>s i. table_inv s \<Longrightarrow> length (g_threads s) < n \<Longrightarrow> i < length (g_threads s) \<Longrightarrow>
      \<exists>r. sched_loop i s = Some r \<and> loop_good s r"
    and "table_inv s" "length (g_threads s) = n" "i < n" "m < n" "fst (g_threads s ! m) = 0"
    and "d = (if i \<le> m then m - i else n - i + m)"
  shows "\<exists>r. sched_loop i s = Some r \<and> loop_good s r"
  using assms(2-)
proof (induction d arbitrary: i s rule: less_induct)
  case (less d)
  have i: "i < length (g_threads s)" using less.prems by simp
  note r = round_ok [OF less.prems(1) i]
  show ?case
  proof (cases "sched_round i s")
    case (RoundDone x)
    then have "loop_good s x" using r i by (cases x) (auto simp: loop_good_def dest: map_eq_imp_length_eq)
    with RoundDone show ?thesis by (subst sched_loop.simps) simp
  next
    case (RoundNext h s')
    with r have s': "table_inv s'" "kept s s'" by simp_all
    have inv': "lm_inv (g_threads s')" using s'(1) by (simp add: table_inv_def)
    have "\<exists>j x. vthread_get_next_thead h (g_threads s') = Some j \<and> sched_loop j s' = Some x \<and> loop_good s' x"
    proof (cases "length (g_threads s') < n")
      case True
      have ne: "g_threads s' \<noteq> []" by (rule threads_nonempty) (rule s'(1))
      obtain j where j: "vthread_get_next_thead h (g_threads s') = Some j" "j < length (g_threads s')"
        using next_defined [OF ne, of h] by blast
      with shorter [OF s'(1) True j(2)] show ?thesis by blast
    next
      case False
      with r RoundNext less.prems(2) have k: "map fst (g_threads s') = map fst (g_threads s)" "h = fst (g_threads s ! i)" "fst (g_threads s ! i) \<noteq> 0"
        by auto
      have len: "length (g_threads s') = n" using k(1) less.prems(2) by (metis length_map)
      have nth: "fst (g_threads s' ! q) = fst (g_threads s ! q)" if "q < n" for q
        using arg_cong [OF k(1), of "\<lambda>l. l ! q"] that len less.prems(2) by simp
      let ?j = "if Suc i = n then 0 else Suc i"
      have j: "vthread_get_next_thead h (g_threads s') = Some ?j"
        using next_nth [OF inv', of i] nth [OF less.prems(3)] k(2) len less.prems(3) by simp
      have "i \<noteq> m" using k(3) less.prems(5) by auto
      then have "(if ?j \<le> m then m - ?j else n - ?j + m) < d" using less.prems(3,4,6) by auto
      from less.IH [OF this s'(1) len _ less.prems(4) _ refl] nth [OF less.prems(4)] less.prems(3,5) j
      show ?thesis by auto
    qed
    then obtain j x where "vthread_get_next_thead h (g_threads s') = Some j" "sched_loop j s' = Some x" "loop_good s' x" by blast
    with RoundNext loop_good_kept [OF s'(2)] show ?thesis by (subst sched_loop.simps) auto
  qed
qed

lemma sched_loop_returns:
  assumes "table_inv s" "i < length (g_threads s)"
  shows "\<exists>r. sched_loop i s = Some r \<and> loop_good s r"
  using assms
proof (induction "length (g_threads s)" arbitrary: s i rule: less_induct)
  case less
  obtain m where m: "m < length (g_threads s)" "fst (g_threads s ! m) = 0" using main_index [OF less.prems(1)] by blast
  show ?case using less m by (intro sched_loop_dist [where m = m and n = "length (g_threads s)", OF _ less.prems(1) refl _ m refl]) auto
qed

end
