(* ===== verification/Sched_Runs.thy ===== *)
theory Sched_Runs
  imports Sched
begin

text \<open>
  What the scheduler guarantees over time: it always finds a ready thread, an interrupted thread gets its
  context back, ready threads run in turn, and the invariant survives every operation.
\<close>

section \<open>The scheduler picks a runnable thread and restores it\<close>

lemma store_context_ok:
  assumes "sched_inv s" "global_current_thread s = Some cur"
  obtains s1 t where "vthread_store_context cur stack s = Some s1" "table_inv s1" "length (g_threads s1) = length (g_threads s)"
    "global_vthread_handle_counter s1 = global_vthread_handle_counter s"
    "vthread_get cur s = Some t" "\<And>h. vthread_get h s1 = (if h = cur then Some (t\<lparr>vt_stack_top := stack, vt_fpu := cpu_fpu (sc_cpu s)\<rparr>) else vthread_get h s)"
proof -
  have inv: "table_inv s" "lm_inv (g_threads s)" using assms(1) by (auto simp: sched_inv_def table_inv_def)
  have "cur \<in> fst ` set (g_threads s)" using assms by (auto simp: sched_inv_def)
  then obtain i where i: "lm_get cur (g_threads s) = Some i" using lm_get_None [of cur "g_threads s"] by (cases "lm_get cur (g_threads s)") auto
  have il: "i < length (g_threads s)" "fst (g_threads s ! i) = cur" using lm_get_Some [OF i] by auto
  let ?f = "\<lambda>t. t\<lparr>vt_stack_top := stack, vt_fpu := cpu_fpu (sc_cpu s)\<rparr>"
  have "vt_fpu_state (snd (g_threads s ! i)) \<noteq> 0" using table_inv_nth [OF inv(1) il(1)] by (simp add: thread_ok_def)
  then have st: "vthread_store_context cur stack s = Some (upd_thread i ?f s)" using i by (simp add: vthread_store_context_def)
  have "fst (g_threads s ! i) \<noteq> 0 \<or> vt_state (?f (snd (g_threads s ! i))) = VT_RUNNING"
  proof (cases "fst (g_threads s ! i) = 0")
    case True
    obtain m where m: "m < length (g_threads s)" "fst (g_threads s ! m) = 0" "vt_state (snd (g_threads s ! m)) = VT_RUNNING"
      using main_index [OF inv(1)] by blast
    then have "m = i" using lm_get_nth [OF inv(2) m(1)] i True il by simp
    with m show ?thesis by simp
  qed simp
  with upd_thread_table [OF inv(1) il(1), of ?f] have "table_inv (upd_thread i ?f s)" by (simp add: harmless_def)
  moreover have "vthread_get cur s = Some (snd (g_threads s ! i))" using i by (simp add: vthread_get_def)
  ultimately show thesis using that st vthread_get_upd [OF inv(2) il(1), of _ ?f] il(2) by simp
qed

lemma sched_switch_ok:
  assumes "table_inv s" "j < length (g_threads s)"
  obtains s' where "sched_switch j s = SchedNext (vt_stack_top (snd (g_threads s ! j))) s'" "sched_inv s'" "g_threads s' = g_threads s"
    "global_current_thread s' = Some (fst (g_threads s ! j))" "vthread_get (fst (g_threads s ! j)) s' = Some (snd (g_threads s ! j))"
    "g_process s' = vt_parent (snd (g_threads s ! j))" "cpu_page_table (sc_cpu s') = vt_page_table (snd (g_threads s ! j))"
    "cpu_fpu (sc_cpu s') = vt_fpu (snd (g_threads s ! j))" "global_vthread_handle_counter s' = global_vthread_handle_counter s"
proof -
  let ?t = "snd (g_threads s ! j)"
  have t: "thread_ok s (fst (g_threads s ! j)) ?t" by (rule table_inv_nth [OF assms])
  then obtain p where p: "vt_parent ?t = Some p" "p < length (sc_procs s)" by (auto simp: thread_ok_def)
  have h: "vt_handle ?t = fst (g_threads s ! j)" "vt_fpu_state ?t \<noteq> 0" using t by (auto simp: thread_ok_def)
  obtain s1 where l: "vthread_load_context ?t (s\<lparr>g_process := vt_parent ?t\<rparr>) = Some s1" "g_threads s1 = g_threads s"
    "sc_procs s1 = sc_procs s" "g_process s1 = vt_parent ?t" "global_vthread_handle_counter s1 = global_vthread_handle_counter s"
    "cpu_page_table (sc_cpu s1) = vt_page_table ?t" "cpu_fpu (sc_cpu s1) = vt_fpu ?t"
    using h(2) p by (simp add: vthread_load_context_def Let_def)
  define s' where "s' = s1\<lparr>global_current_thread := Some (fst (g_threads s ! j))\<rparr>"
  have inv: "lm_inv (g_threads s)" using assms(1) by (simp add: table_inv_def)
  have "fst (g_threads s ! j) \<in> fst ` set (g_threads s)" using assms(2) by simp
  moreover have "table_inv s'" using assms(1) l p by (auto simp: table_inv_def s'_def thread_ok_def)
  ultimately have "sched_inv s'" using l by (auto simp: sched_inv_def s'_def)
  moreover have "sched_switch j s = SchedNext (vt_stack_top ?t) s'" using l h by (simp add: sched_switch_def s'_def)
  moreover have "vthread_get (fst (g_threads s ! j)) s' = Some ?t"
    using lm_get_nth [OF inv assms(2)] l by (simp add: vthread_get_def s'_def)
  ultimately show thesis using that [of s'] l by (simp add: s'_def)
qed

lemma schedule_ok:
  assumes inv: "sched_inv s" and cur: "global_current_thread s = Some cur" and two: "2 \<le> vthread_get_count s"
  shows "(\<exists>r s' h t. vthread_schedule stack s = Some (SchedNext r s') \<and> sched_inv s' \<and> global_current_thread s' = Some h \<and>
      vthread_get h s' = Some t \<and> vt_state t = VT_RUNNING \<and> (r, cpu_page_table (sc_cpu s'), cpu_fpu (sc_cpu s')) = ctx t \<and>
      g_process s' = vt_parent t \<and> global_vthread_handle_counter s' = global_vthread_handle_counter s \<and>
      (\<forall>k t'. vthread_get k s' = Some t' \<longrightarrow> (\<exists>t. vthread_get k s = Some t \<and>
         ctx t' = (if k = cur then (stack, vt_page_table t, cpu_fpu (sc_cpu s)) else ctx t)))) \<or>
    vthread_schedule stack s = Some (SchedFatal KERNEL_FATAL_CRITICAL_THREAD_DIED) \<and>
      (\<exists>h t. vthread_get h s = Some t \<and> vt_state t = VT_STOPPING \<and> vt_is_critical t)"
proof -
  obtain s1 t0 where s1: "vthread_store_context cur stack s = Some s1" "table_inv s1" "length (g_threads s1) = length (g_threads s)"
    "global_vthread_handle_counter s1 = global_vthread_handle_counter s" "vthread_get cur s = Some t0"
    "\<And>h. vthread_get h s1 = (if h = cur then Some (t0\<lparr>vt_stack_top := stack, vt_fpu := cpu_fpu (sc_cpu s)\<rparr>) else vthread_get h s)"
    using store_context_ok [OF inv cur] by blast
  obtain i where i: "vthread_get_next_thead cur (g_threads s1) = Some i" "i < length (g_threads s1)"
    using next_defined [OF threads_nonempty [OF s1(2)]] by blast
  obtain x where x: "sched_loop i s1 = Some x" "loop_good s1 x" using sched_loop_returns [OF s1(2) i(2)] by blast
  have n2: "\<not> lm_size (g_threads s) \<le> 1" using two by (simp add: vthread_get_count_def)
  have sch: "vthread_schedule stack s = Some (case x of LoopPicked j s \<Rightarrow> sched_switch j s | LoopFatal c \<Rightarrow> SchedFatal c | LoopFault \<Rightarrow> SchedFault)"
    using cur n2 s1(1) i(1) x(1) by (cases x) (simp_all add: vthread_schedule_def)
  show ?thesis
  proof (cases x)
    case (LoopPicked j s2)
    with x(2) have p: "table_inv s2" "kept s1 s2" "j < length (g_threads s2)" "vt_state (snd (g_threads s2 ! j)) = VT_RUNNING"
      by (simp_all add: loop_good_def)
    let ?h = "fst (g_threads s2 ! j)" and ?t = "snd (g_threads s2 ! j)"
    obtain s' where s': "sched_switch j s2 = SchedNext (vt_stack_top ?t) s'" "sched_inv s'" "g_threads s' = g_threads s2"
      "global_current_thread s' = Some ?h" "vthread_get ?h s' = Some ?t"
      "g_process s' = vt_parent ?t" "cpu_page_table (sc_cpu s') = vt_page_table ?t" "cpu_fpu (sc_cpu s') = vt_fpu ?t"
      "global_vthread_handle_counter s' = global_vthread_handle_counter s2" using sched_switch_ok [OF p(1,3)] by blast
    have "\<exists>t. vthread_get k s = Some t \<and> ctx t' = (if k = cur then (stack, vt_page_table t, cpu_fpu (sc_cpu s)) else ctx t)"
      if "vthread_get k s' = Some t'" for k t'
    proof -
      from that s'(3) have "vthread_get k s2 = Some t'" by (simp add: vthread_get_map_of)
      then obtain t1 where "vthread_get k s1 = Some t1" "ctx t' = ctx t1" using kept_get [OF p(2)] by blast
      with s1(5,6) show ?thesis by (auto simp: ctx_def split: if_splits)
    qed
    moreover have "global_vthread_handle_counter s2 = global_vthread_handle_counter s1" using p(2) by (simp add: kept_def)
    ultimately show ?thesis using sch LoopPicked s' p(4) s1(4)
      by (intro disjI1 exI [of _ "vt_stack_top ?t"] exI [of _ s'] exI [of _ ?h] exI [of _ ?t]) (simp add: ctx_def)
  next
    case (LoopFatal c)
    with x(2) obtain h t where c: "c = KERNEL_FATAL_CRITICAL_THREAD_DIED" "vthread_get h s1 = Some t" "vt_state t = VT_STOPPING" "vt_is_critical t"
      by (auto simp: loop_good_def)
    then have "\<exists>t. vthread_get h s = Some t \<and> vt_state t = VT_STOPPING \<and> vt_is_critical t"
      using s1(5,6) by (auto split: if_splits)
    with c(1) sch LoopFatal show ?thesis by auto
  next
    case LoopFault
    with x(2) show ?thesis by (simp add: loop_good_def)
  qed
qed


text \<open>
  C7. The scheduler always finds a thread: with the main thread in the table and running, a switch ends, leaves a
  good table and runs a thread that is ready, with exactly the stack, address space, processor state and process
  that thread has; the one exception is that a stopping thread is critical, which is the fatal error.
\<close>

theorem schedule_picks_runnable:
  assumes "sched_inv s" and "2 \<le> vthread_get_count s"
  shows "(\<exists>r s' h t. vthread_schedule stack s = Some (SchedNext r s') \<and> sched_inv s' \<and> global_current_thread s' = Some h \<and>
      vthread_get h s' = Some t \<and> vt_state t = VT_RUNNING \<and> r = vt_stack_top t \<and>
      cpu_page_table (sc_cpu s') = vt_page_table t \<and> cpu_fpu (sc_cpu s') = vt_fpu t \<and> g_process s' = vt_parent t) \<or>
    vthread_schedule stack s = Some (SchedFatal KERNEL_FATAL_CRITICAL_THREAD_DIED) \<and>
      (\<exists>h t. vthread_get h s = Some t \<and> vt_state t = VT_STOPPING \<and> vt_is_critical t)"
proof -
  from assms(1) obtain cur where "global_current_thread s = Some cur" by (auto simp: sched_inv_def)
  from schedule_ok [OF assms(1) this assms(2), of stack] show ?thesis by (auto simp: ctx_def)
qed

section \<open>Runs\<close>

text \<open>An interrupt of the running thread, whose registers are \<open>fpu\<close>; what the label records is the thread it
  resumes, with the stack and the registers that thread gets.\<close>

type_synonym pick = "u64 \<times> u64 \<times> u8 list"

definition with_fpu :: "u8 list \<Rightarrow> sched \<Rightarrow> sched" where
  "with_fpu fpu s = s\<lparr>sc_cpu := (sc_cpu s)\<lparr>cpu_fpu := fpu\<rparr>\<rparr>"

inductive sched_step :: "sched \<Rightarrow> pick option \<Rightarrow> sched \<Rightarrow> bool" where
  yield: "vthread_schedule stack (with_fpu fpu s) = Some (SchedNext r s') \<Longrightarrow> global_current_thread s' = Some h \<Longrightarrow>
     sched_step s (Some (h, r, cpu_fpu (sc_cpu s'))) s'"
| tick: "pit_handle_interrupt stack (with_fpu fpu s) = Some (SchedNext r s') \<Longrightarrow> global_current_thread s' = Some h \<Longrightarrow>
     sched_step s (Some (h, r, cpu_fpu (sc_cpu s'))) s'"
| sleep: "vthread_sleep ms s = Some (u, s') \<Longrightarrow> sched_step s None s'"
| enter: "vthread_entry_begin s = Some s' \<Longrightarrow> global_current_thread s \<noteq> Some 0 \<Longrightarrow> sched_step s None s'"
| exit: "vthread_entry_exit code s = Some s' \<Longrightarrow> global_current_thread s \<noteq> Some 0 \<Longrightarrow> sched_step s None s'"
| kill: "h \<noteq> 0 \<Longrightarrow> sched_step s None (vthread_terminate h s)"
| critical: "sched_step s None (snd (vthread_set_critical h b s))"
| create: "fpu \<noteq> Some 0 \<Longrightarrow> global_vthread_handle_counter s \<noteq> -1 \<Longrightarrow>
     sched_step s None (snd (vthread_create entry_point thread_entry name stack fpu s))"

inductive sched_run :: "sched \<Rightarrow> pick list \<Rightarrow> sched \<Rightarrow> bool" where
  start: "sched_run s [] s"
| quiet: "sched_run s ps s1 \<Longrightarrow> sched_step s1 None s2 \<Longrightarrow> sched_run s ps s2"
| pick: "sched_run s ps s1 \<Longrightarrow> sched_step s1 (Some p) s2 \<Longrightarrow> sched_run s (ps @ [p]) s2"

lemma with_fpu_sel [simp]:
  "g_threads (with_fpu f s) = g_threads s" "global_current_thread (with_fpu f s) = global_current_thread s"
  "global_vthread_handle_counter (with_fpu f s) = global_vthread_handle_counter s" "cpu_fpu (sc_cpu (with_fpu f s)) = f"
  "vthread_get h (with_fpu f s) = vthread_get h s" "vthread_get_count (with_fpu f s) = vthread_get_count s"
  "sched_inv (with_fpu f s) = sched_inv s"
  by (simp_all add: with_fpu_def vthread_get_map_of vthread_get_count_def sched_inv_def table_inv_def thread_ok_def)

lemma later_sel [simp]:
  "g_threads (sc_now_update f s) = g_threads s" "vthread_get h (sc_now_update f s) = vthread_get h s"
  "vthread_get_count (sc_now_update f s) = vthread_get_count s" "sched_inv (sc_now_update f s) = sched_inv s"
  by (simp_all add: vthread_get_map_of vthread_get_count_def sched_inv_def table_inv_def thread_ok_def)

text \<open>What holds of a thread that waits: it is not current, and if it is still there its context is untouched.\<close>

definition waits :: "u64 \<Rightarrow> u64 \<times> u8 list \<Rightarrow> sched \<Rightarrow> bool" where
  "waits h c s \<longleftrightarrow> global_current_thread s \<noteq> Some h \<and> h < global_vthread_handle_counter s \<and>
     (\<forall>t. vthread_get h s = Some t \<longrightarrow> (vt_stack_top t, vt_fpu t) = c)"

lemma schedule_step:
  assumes "sched_inv s" "vthread_schedule stack s = Some (SchedNext r s')" "global_current_thread s' = Some h"
  shows "sched_inv s' \<and> global_vthread_handle_counter s' = global_vthread_handle_counter s \<and>
    (\<forall>k c. waits k c s \<longrightarrow> (if k = h then (r, cpu_fpu (sc_cpu s')) = c else waits k c s')) \<and>
    (\<forall>cur. global_current_thread s = Some cur \<longrightarrow>
       (if cur = h then (r, cpu_fpu (sc_cpu s')) = (stack, cpu_fpu (sc_cpu s)) else waits cur (stack, cpu_fpu (sc_cpu s)) s'))"
proof (cases "2 \<le> vthread_get_count s")
  case False
  obtain c0 where c0: "global_current_thread s = Some c0" using assms(1) by (auto simp: sched_inv_def)
  have "lm_size (g_threads s) \<le> 1" using False by (simp add: vthread_get_count_def)
  with assms(2) c0 have "r = stack" "s' = s" by (auto simp: vthread_schedule_def)
  with assms(1,3) show ?thesis by (auto simp: waits_def)
next
  case True
  obtain c0 where c0: "global_current_thread s = Some c0" using assms(1) by (auto simp: sched_inv_def)
  from schedule_ok [OF assms(1) c0 True, of stack] assms(2,3) obtain t where
    t: "sched_inv s'" "vthread_get h s' = Some t" "(r, cpu_page_table (sc_cpu s'), cpu_fpu (sc_cpu s')) = ctx t"
      "global_vthread_handle_counter s' = global_vthread_handle_counter s"
    and keep: "\<And>k t'. vthread_get k s' = Some t' \<Longrightarrow> \<exists>t. vthread_get k s = Some t \<and>
         ctx t' = (if k = c0 then (stack, vt_page_table t, cpu_fpu (sc_cpu s)) else ctx t)"
    by auto
  have c0h: "c0 < global_vthread_handle_counter s" using assms(1) c0 by (auto simp: sched_inv_def table_inv_def thread_ok_def)
  have w: "if k = h then (r, cpu_fpu (sc_cpu s')) = c else waits k c s'" if "waits k c s" for k c
    using that keep [of k] t(2-4) assms(3) c0 by (auto simp: waits_def ctx_def)
  have "if c0 = h then (r, cpu_fpu (sc_cpu s')) = (stack, cpu_fpu (sc_cpu s)) else waits c0 (stack, cpu_fpu (sc_cpu s)) s'"
    using keep [of c0] t(2-4) assms(3) c0h by (auto simp: waits_def ctx_def)
  with t(1,4) w c0 show ?thesis by simp
qed

text \<open>Threads are only added by \<open>vthread_add\<close>.\<close>

lemma vthread_add_inv:
  assumes "sched_inv s" "thread_ok s (vt_handle t) t"
  shows "sched_inv (snd (vthread_add t s))"
    and "waits h c s \<Longrightarrow> h \<noteq> vt_handle t \<Longrightarrow> waits h c (snd (vthread_add t s))"
proof -
  have "sched_inv (snd (vthread_add t s)) \<and> (waits h c s \<and> h \<noteq> vt_handle t \<longrightarrow> waits h c (snd (vthread_add t s)))"
  proof (cases "lm_contains (vt_handle t) (g_threads s)")
    case True
    then show ?thesis using assms(1) by (simp add: vthread_add_def lm_insert_def)
  next
    case False
    then show ?thesis using assms
      by (auto simp: vthread_add_def lm_insert_def lm_contains_def lm_get_None sched_inv_def table_inv_def thread_ok_def
          lm_inv_def waits_def vthread_get_map_of map_add_def split: option.splits)
  qed
  then show "sched_inv (snd (vthread_add t s))"
    and "waits h c s \<Longrightarrow> h \<noteq> vt_handle t \<Longrightarrow> waits h c (snd (vthread_add t s))" by blast+
qed

lemma cleanup_inv [simp]: "sched_inv (vthread_cleanup t s) = sched_inv s" "waits h c (vthread_cleanup t s) = waits h c s"
  by (simp_all add: sched_inv_def table_inv_def thread_ok_def waits_def vthread_get_map_of)

lemma upd_current_step:
  assumes "sched_inv s" "upd_current f s = Some s'" "harmless f" "global_current_thread s \<noteq> Some 0" 
  shows "sched_inv s'" "waits h c s \<Longrightarrow> waits h c s'"
proof -
  obtain k i where k: "global_current_thread s = Some k" "lm_get k (g_threads s) = Some i" "s' = upd_thread i f s"
    using assms(2) by (auto simp: upd_current_def bind_Some_iff)
  have inv: "table_inv s" "lm_inv (g_threads s)" using assms(1) by (auto simp: sched_inv_def table_inv_def)
  have il: "i < length (g_threads s)" "fst (g_threads s ! i) = k" using lm_get_Some [OF k(2)] by auto
  have "table_inv s'" unfolding k(3) using assms(3,4) k(1) il by (intro upd_thread_table [OF inv(1)]) auto
  with assms(1) k(3) show "sched_inv s'" by (simp add: sched_inv_def)
  show "waits h c s \<Longrightarrow> waits h c s'" using k il vthread_get_upd [OF inv(2) il(1)] by (auto simp: waits_def)
qed


lemma counter_step:
  assumes "sched_inv s" "global_vthread_handle_counter s \<noteq> -1"
  shows "sched_inv (snd (vhtread_next_handle s))" "waits h c s \<Longrightarrow> waits h c (snd (vhtread_next_handle s))"
    "global_vthread_handle_counter s < global_vthread_handle_counter (snd (vhtread_next_handle s))"
proof -
  let ?n = "global_vthread_handle_counter s"
  have "unat ?n \<noteq> 2 ^ 64 - 1"
    using assms(2) by (simp add: word_unat_eq_iff unsigned_minus_1_eq_mask mask_eq_exp_minus_1)
  then have "unat ?n + unat (1 :: u64) < 2 ^ LENGTH(64)" using unat_u64_less [of ?n] by simp
  then have lt: "?n < ?n + 1" using unat_plus_no_wrap [of ?n 1] by (simp add: word_less_nat_alt)
  then show "?n < global_vthread_handle_counter (snd (vhtread_next_handle s))" by (simp add: vhtread_next_handle_def)
  have "h < ?n + 1" if "h < ?n" for h using that lt by (rule less_trans)
  then show "sched_inv (snd (vhtread_next_handle s))" "waits h c s \<Longrightarrow> waits h c (snd (vhtread_next_handle s))"
    using assms(1) by (auto simp: vhtread_next_handle_def sched_inv_def table_inv_def thread_ok_def waits_def vthread_get_map_of)
qed

lemma init_result:
  assumes "sched_inv s" "global_vthread_handle_counter s \<noteq> -1" "fpu \<noteq> Some 0"
    and "vthread_init entry_point thread_entry stack fpu vthread_zero s = (ok, t, s')"
  shows "sched_inv s'" "waits h c s \<Longrightarrow> waits h c s'" "vt_handle t = global_vthread_handle_counter s" "ok \<Longrightarrow> thread_ok s' (vt_handle t) t"
    "global_vthread_handle_counter s' = global_vthread_handle_counter s + 1"
proof -
  let ?s = "snd (vhtread_next_handle s)"
  have "(\<exists>mem. s' = ?s \<or> s' = ?s\<lparr>sc_mem := mem\<rparr>) \<and> vt_handle t = global_vthread_handle_counter s \<and>
      vt_parent t = g_process s \<and> (ok \<longrightarrow> vt_fpu_state t \<noteq> 0)"
  proof (cases stack)
    case None
    with assms(4) show ?thesis by (auto simp: vthread_init_def vhtread_next_handle_def amd64_vthread_init_def split: if_splits)
  next
    case stk: (Some stk)
    show ?thesis
    proof (cases fpu)
      case None
      with stk assms(4) show ?thesis by (auto simp: vthread_init_def vhtread_next_handle_def amd64_vthread_init_def split: if_splits)
    next
      case (Some f)
      define top where "top = (stk + VTHREAD_STACK_SIZE) AND - 16"
      obtain sp mem where "fold push_word (init_frame entry_point thread_entry (top - 8)) (top, sc_mem s) = (sp, mem)" by (cases "fold push_word (init_frame entry_point thread_entry (top - 8)) (top, sc_mem s)")
      with Some stk assms(3,4) show ?thesis
        by (auto simp: vthread_init_def vhtread_next_handle_def amd64_vthread_init_def Let_def top_def [symmetric] split: if_splits)
    qed
  qed
  then obtain mem where mem: "s' = ?s \<or> s' = ?s\<lparr>sc_mem := mem\<rparr>" and t: "vt_handle t = global_vthread_handle_counter s"
      "vt_parent t = g_process s" "ok \<longrightarrow> vt_fpu_state t \<noteq> 0" by blast
  have s': "sched_inv s' = sched_inv ?s" "waits h c s' = waits h c ?s" "global_vthread_handle_counter s' = global_vthread_handle_counter ?s"
      "sc_procs s' = sc_procs s" for h c
    using mem by (elim disjE; simp add: sched_inv_def table_inv_def thread_ok_def waits_def vthread_get_map_of vhtread_next_handle_def)+
  note n = counter_step [OF assms(1,2)]
  show "sched_inv s'" "waits h c s \<Longrightarrow> waits h c s'" "vt_handle t = global_vthread_handle_counter s"
    using n s' t by auto
  show "global_vthread_handle_counter s' = global_vthread_handle_counter s + 1" using s'(3) by (simp add: vhtread_next_handle_def)
  show "thread_ok s' (vt_handle t) t" if ok
    using that n(3) s' t assms(1) by (auto simp: thread_ok_def sched_inv_def table_inv_def)
qed

lemma create_step:
  assumes "sched_inv s" "global_vthread_handle_counter s \<noteq> -1" "fpu \<noteq> Some 0"
  shows "sched_inv (snd (vthread_create entry_point thread_entry name stack fpu s))"
    "waits h c s \<Longrightarrow> waits h c (snd (vthread_create entry_point thread_entry name stack fpu s))"
proof -
  obtain ok t s1 where i: "vthread_init entry_point thread_entry stack fpu vthread_zero s = (ok, t, s1)"
    by (cases "vthread_init entry_point thread_entry stack fpu vthread_zero s") auto
  note r = init_result [OF assms i]
  define t' where "t' = (case name of None \<Rightarrow> t
                       | Some n \<Rightarrow> t\<lparr>vt_name := (let k = min (length n) VTHREAD_MAX_NAME_SIZE
                                               in take k n @ replicate (VTHREAD_MAX_NAME_SIZE + 1 - k) 0)\<rparr>)"
  have t': "vt_handle t' = vt_handle t" "thread_ok s1 h' t' = thread_ok s1 h' t" for h'
    by (simp_all add: t'_def thread_ok_def split: option.splits)
  obtain b s2 where a: "vthread_add t' s1 = (b, s2)" by (cases "vthread_add t' s1") auto
  have e: "vthread_create entry_point thread_entry name stack fpu s =
      (if \<not> ok then (VTHREAD_HANDLE_INVALID, vthread_cleanup t s1)
       else if b then (vt_handle t', s2) else (VTHREAD_HANDLE_INVALID, vthread_cleanup t' s2))"
    using a by (simp add: vthread_create_def i t'_def Let_def)
  have wn: "h \<noteq> vt_handle t" if "waits h c s" using that r(3) by (auto simp: waits_def)
  show "sched_inv (snd (vthread_create entry_point thread_entry name stack fpu s))"
    "waits h c s \<Longrightarrow> waits h c (snd (vthread_create entry_point thread_entry name stack fpu s))"
    using r vthread_add_inv [OF r(1), of t'] t' a wn unfolding e by auto
qed

lemma step_ok:
  assumes "sched_step s p s'" "sched_inv s"
  shows "sched_inv s' \<and> (\<forall>k c. waits k c s \<longrightarrow> (case p of None \<Rightarrow> waits k c s' | Some (h, r, f) \<Rightarrow> if k = h then (r, f) = c else waits k c s'))"
  using assms
proof cases
  case (yield stack fpu r h)
  have w: "waits k c (with_fpu fpu s) = waits k c s" for k c by (simp add: waits_def)
  from schedule_step [OF _ yield(2,3)] assms(2) w yield(1) show ?thesis by simp
next
  case (tick stack fpu r h)
  have w: "waits k c (with_fpu fpu s\<lparr>sc_now := sc_now (with_fpu fpu s) + 1\<rparr>) = waits k c s" for k c by (simp add: waits_def)
  have "vthread_schedule stack (with_fpu fpu s\<lparr>sc_now := sc_now (with_fpu fpu s) + 1\<rparr>) = Some (SchedNext r s')"
    using tick(2) by (simp add: pit_handle_interrupt_def vthread_handle_interrupt_def)
  from schedule_step [OF _ this tick(3)] assms(2) w tick(1) show ?thesis by simp
next
  case (sleep ms u)
  show ?thesis
  proof (cases "global_current_thread s = Some 0")
    case True
    with sleep assms(2) show ?thesis by (simp add: vthread_sleep_def VTHREAD_MAIN_THREAD_HANDLE_def)
  next
    case False
    with sleep(2) have "upd_current (\<lambda>t. t\<lparr>vt_sleep_until_ms := sc_now s + ms, vt_state := VT_SLEEPING\<rparr>) s = Some s'"
      by (auto simp: vthread_sleep_def VTHREAD_MAIN_THREAD_HANDLE_def bind_Some_iff split: if_splits)
    from upd_current_step [OF assms(2) this _ False] sleep(1) show ?thesis by (simp add: harmless_def)
  qed
next
  case enter
  from upd_current_step [OF assms(2) enter(2) [unfolded vthread_entry_begin_def] _ enter(3)] enter(1) show ?thesis by (simp add: harmless_def)
next
  case (exit code)
  from upd_current_step [OF assms(2) exit(2) [unfolded vthread_entry_exit_def] _ exit(3)] exit(1) show ?thesis by (simp add: harmless_def)
next
  case (kill h)
  show ?thesis
  proof (cases "lm_get h (g_threads s)")
    case None
    with kill assms(2) show ?thesis by (simp add: vthread_terminate_def)
  next
    case (Some i)
    have inv: "table_inv s" "lm_inv (g_threads s)" using assms(2) by (auto simp: sched_inv_def table_inv_def)
    have il: "i < length (g_threads s)" "fst (g_threads s ! i) = h" using lm_get_Some [OF Some] by auto
    have "table_inv (upd_thread i (\<lambda>t. t\<lparr>vt_state := VT_STOPPING\<rparr>) s)"
      using kill(3) il by (intro upd_thread_table [OF inv(1)]) (auto simp: harmless_def)
    then show ?thesis using kill Some assms(2) il vthread_get_upd [OF inv(2) il(1)] lm_get_nth [OF inv(2) il(1)]
      by (auto simp: vthread_terminate_def sched_inv_def waits_def vthread_get_def [of h])
  qed
next
  case (critical h b)
  show ?thesis
  proof (cases "lm_get h (g_threads s)")
    case None
    with critical assms(2) show ?thesis by (simp add: vthread_set_critical_def)
  next
    case (Some i)
    have inv: "table_inv s" "lm_inv (g_threads s)" using assms(2) by (auto simp: sched_inv_def table_inv_def)
    have il: "i < length (g_threads s)" "fst (g_threads s ! i) = h" using lm_get_Some [OF Some] by auto
    have "fst (g_threads s ! i) \<noteq> 0 \<or> vt_state (snd (g_threads s ! i)) = VT_RUNNING"
    proof -
      obtain m where m: "m < length (g_threads s)" "fst (g_threads s ! m) = 0" "vt_state (snd (g_threads s ! m)) = VT_RUNNING"
        using main_index [OF inv(1)] by blast
      then show ?thesis using lm_get_nth [OF inv(2) m(1)] lm_get_nth [OF inv(2) il(1)] by (cases "fst (g_threads s ! i) = 0") auto
    qed
    then have "table_inv (upd_thread i (\<lambda>t. t\<lparr>vt_is_critical := b\<rparr>) s)"
      using il by (intro upd_thread_table [OF inv(1)]) (auto simp: harmless_def)
    then show ?thesis using critical Some assms(2) il vthread_get_upd [OF inv(2) il(1)] lm_get_nth [OF inv(2) il(1)]
      by (auto simp: vthread_set_critical_def sched_inv_def waits_def vthread_get_def [of h])
  qed
next
  case (create fpu entry_point thread_entry name stack)
  with create_step [OF assms(2) create(4,3)] show ?thesis by simp
qed


lemma run_ok:
  assumes "sched_run s ps s'" "sched_inv s"
  shows "sched_inv s' \<and> (\<forall>k c. waits k c s \<longrightarrow> k \<notin> fst ` set ps \<longrightarrow> waits k c s')"
  using assms
proof (induction rule: sched_run.induct)
  case (start s)
  then show ?case by simp
next
  case (quiet s ps s1 s2)
  with step_ok [OF quiet.hyps(2)] show ?case by simp
next
  case (pick s ps s1 p s2)
  obtain h r f where p: "p = (h, r, f)" by (cases p) auto
  from step_ok [OF pick.hyps(2)] pick.IH [OF pick.prems] show ?case unfolding p by auto
qed

text \<open>
  C9. The scheduler never gets stuck: from a good state, whatever threads do in whatever order (sleep, stop, kill
  or create threads, or are interrupted), the state stays good, and the next switch ends and never goes
  through a dangling pointer.
\<close>

theorem sched_run_safe:
  assumes "sched_inv s" and "sched_run s ps s'"
  shows "sched_inv s' \<and> (\<exists>r. vthread_schedule stack s' = Some r \<and> r \<noteq> SchedFault)"
proof -
  have inv: "sched_inv s'" using run_ok [OF assms(2,1)] by blast
  then obtain c where c: "global_current_thread s' = Some c" by (auto simp: sched_inv_def)
  show ?thesis
  proof (cases "2 \<le> vthread_get_count s'")
    case True
    from schedule_ok [OF inv c True, of stack] inv show ?thesis by auto
  next
    case False
    then have "lm_size (g_threads s') \<le> 1" by (simp add: vthread_get_count_def)
    with inv c show ?thesis by (simp add: vthread_schedule_def)
  qed
qed

lemma schedule_current:
  assumes "sched_inv s" "vthread_schedule stack s = Some (SchedNext r s')"
  obtains h where "global_current_thread s' = Some h"
proof (cases "2 \<le> vthread_get_count s")
  case True
  obtain c where c: "global_current_thread s = Some c" using assms(1) by (auto simp: sched_inv_def)
  from schedule_ok [OF assms(1) c True, of stack] assms(2) that show thesis by auto
next
  case False
  then have "lm_size (g_threads s) \<le> 1" by (simp add: vthread_get_count_def)
  with assms that show thesis by (auto simp: vthread_schedule_def sched_inv_def)
qed

text \<open>
  C8. A thread that is interrupted resumes where it was: whatever happens while it waits, when the scheduler
  picks it the next time it gets back exactly the stack and the processor registers it had when it was interrupted.
\<close>

theorem preempted_thread_resumes:
  assumes "sched_inv s" and "global_current_thread s = Some h"
    and "vthread_schedule stack (with_fpu fpu s) = Some (SchedNext r1 s1)" and "global_current_thread s1 \<noteq> Some h"
    and "sched_run s1 ps s2" and "h \<notin> fst ` set ps" and "sched_step s2 (Some (h, r, f)) s3"
  shows "r = stack \<and> f = fpu"
proof -
  have inv: "sched_inv (with_fpu fpu s)" using assms(1) by simp
  obtain h1 where h1: "global_current_thread s1 = Some h1" using schedule_current [OF inv assms(3)] by blast
  from schedule_step [OF inv assms(3) h1] assms(2,4) h1 have s1: "sched_inv s1" "waits h (stack, fpu) s1" by auto
  from run_ok [OF assms(5) s1(1)] s1(2) assms(6) have s2: "sched_inv s2" "waits h (stack, fpu) s2" by blast+
  have "if k = h then (r, f) = c else waits k c s3" if "waits k c s2" for k c
    using step_ok [OF assms(7) s2(1)] that by (simp del: split_paired_All)
  from this [OF s2(2)] show ?thesis by simp
qed

section \<open>Round robin\<close>

text \<open>A sequence of interrupts.\<close>

fun turns :: "(u64 \<times> u8 list) list \<Rightarrow> sched \<Rightarrow> sched option" where
  "turns [] s = Some s"
| "turns ((stack, fpu) # es) s =
     (case vthread_schedule stack (with_fpu fpu s) of Some (SchedNext _ s') \<Rightarrow> turns es s' | _ \<Rightarrow> None)"

definition all_running :: "sched \<Rightarrow> bool" where
  "all_running s \<longleftrightarrow> (\<forall>i < length (g_threads s). vt_state (snd (g_threads s ! i)) = VT_RUNNING)"

lemma schedule_next:
  assumes "sched_inv s" "all_running s" "2 \<le> length (g_threads s)" "i < length (g_threads s)" "global_current_thread s = Some (fst (g_threads s ! i))"
  shows "\<exists>r s'. vthread_schedule stack s = Some (SchedNext r s') \<and> sched_inv s' \<and> all_running s' \<and>
    map fst (g_threads s') = map fst (g_threads s) \<and> global_current_thread s' = Some (fst (g_threads s ! (Suc i mod length (g_threads s))))"
proof -
  let ?f = "\<lambda>t. t\<lparr>vt_stack_top := stack, vt_fpu := cpu_fpu (sc_cpu s)\<rparr>" and ?n = "length (g_threads s)"
  have inv: "table_inv s" "lm_inv (g_threads s)" using assms(1) by (auto simp: sched_inv_def table_inv_def)
  have "vt_fpu_state (snd (g_threads s ! i)) \<noteq> 0" using table_inv_nth [OF inv(1) assms(4)] by (simp add: thread_ok_def)
  then have st: "vthread_store_context (fst (g_threads s ! i)) stack s = Some (upd_thread i ?f s)"
    using lm_get_nth [OF inv(2) assms(4)] by (simp add: vthread_store_context_def)
  let ?s = "upd_thread i ?f s" and ?j = "Suc i mod ?n"
  have nth: "fst (g_threads ?s ! k) = fst (g_threads s ! k)" "vt_state (snd (g_threads ?s ! k)) = VT_RUNNING" if "k < ?n" for k
    using that assms(2) upd_thread_nth [OF assms(4) that] by (simp_all add: all_running_def)
  have j: "?j < ?n" using assms(3) by (intro mod_less_divisor) linarith
  have t: "table_inv ?s" using assms(2,4) by (intro upd_thread_table [OF inv(1)]) (auto simp: harmless_def all_running_def)
  then have inv': "lm_inv (g_threads ?s)" by (simp add: table_inv_def)
  have "?j = (if Suc i = ?n then 0 else Suc i)" using assms(4) by (rule Suc_mod_once [THEN trans]) (use assms(4) in auto)
  then have nx: "vthread_get_next_thead (fst (g_threads s ! i)) (g_threads ?s) = Some ?j"
    using next_nth [OF inv', of i] nth(1) [OF assms(4)] assms(4) by simp
  have lp: "sched_loop ?j ?s = Some (LoopPicked ?j ?s)"
    using nth(2) [OF j] by (subst sched_loop.simps) (simp add: sched_round_def)
  obtain s' where s': "sched_switch ?j ?s = SchedNext (vt_stack_top (snd (g_threads ?s ! ?j))) s'" "sched_inv s'" "g_threads s' = g_threads ?s"
      "global_current_thread s' = Some (fst (g_threads ?s ! ?j))"
    using sched_switch_ok [OF t, of ?j] j by (metis upd_thread_sel(8))
  have "vthread_schedule stack s = Some (sched_switch ?j ?s)"
    using assms(3,5) st nx lp by (simp add: vthread_schedule_def lm_size_def)
  moreover have "all_running s'" using nth(2) s'(3) by (simp add: all_running_def)
  ultimately show ?thesis using s' nth(1) [OF j] upd_thread_keys [of i ?f s] by simp
qed

text \<open>
  The scheduler is fair: while all threads are ready, the threads run in turn, in the order of the table, each
  exactly once in as many switches as there are threads.
\<close>

theorem round_robin:
  assumes "sched_inv s" and "all_running s" and "2 \<le> length (g_threads s)"
    and "i < length (g_threads s)" and "global_current_thread s = Some (fst (g_threads s ! i))"
  shows "\<exists>s'. turns es s = Some s' \<and> map fst (g_threads s') = map fst (g_threads s) \<and> all_running s' \<and>
    global_current_thread s' = Some (fst (g_threads s ! ((i + length es) mod length (g_threads s))))"
  using assms
proof (induction es arbitrary: s i)
  case Nil
  then show ?case by simp
next
  case (Cons e es)
  obtain stack fpu where e: "e = (stack, fpu)" by (cases e)
  have "sched_inv (with_fpu fpu s)" "all_running (with_fpu fpu s)" using Cons.prems(1,2) by (simp_all add: all_running_def)
  from schedule_next [OF this] Cons.prems(3-5) obtain r s1 where s1: "vthread_schedule stack (with_fpu fpu s) = Some (SchedNext r s1)"
    "sched_inv s1" "all_running s1" "map fst (g_threads s1) = map fst (g_threads s)"
    "global_current_thread s1 = Some (fst (g_threads s ! (Suc i mod length (g_threads s))))" by fastforce
  have len: "length (g_threads s1) = length (g_threads s)" using s1(4) by (metis length_map)
  have nth: "fst (g_threads s1 ! k) = fst (g_threads s ! k)" if "k < length (g_threads s)" for k
    using arg_cong [OF s1(4), of "\<lambda>l. l ! k"] that len by simp
  let ?i = "Suc i mod length (g_threads s)"
  have "?i < length (g_threads s)" using Cons.prems(3) by (intro mod_less_divisor) linarith
  from Cons.IH [OF s1(2,3), of ?i] this s1(5) nth [OF this] len Cons.prems(3) obtain s' where
    s': "turns es s1 = Some s'" "map fst (g_threads s') = map fst (g_threads s1)" "all_running s'"
      "global_current_thread s' = Some (fst (g_threads s1 ! ((?i + length es) mod length (g_threads s))))" by auto
  have "(?i + length es) mod length (g_threads s) = (i + length (e # es)) mod length (g_threads s)"
    by (simp add: mod_add_left_eq)
  moreover have "(i + length (e # es)) mod length (g_threads s) < length (g_threads s)"
    using Cons.prems(3) by (intro mod_less_divisor) linarith
  ultimately show ?case using s' s1 e nth [of "(i + length (e # es)) mod length (g_threads s)"] by simp
qed


section \<open>Starting up and creating threads\<close>

lemma word_nat_nonzero: "0 < n \<Longrightarrow> n < 2 ^ 64 \<Longrightarrow> (of_nat n :: u64) \<noteq> 0"
  by (auto simp: word_of_nat_eq_0_iff dest!: dvd_imp_le)

lemma fold_push:
  assumes "8 * length xs < 2 ^ 64"
  shows "\<exists>mem'. fold push_word xs (sp, mem) = (sp - of_nat (8 * length xs), mem') \<and>
    (\<forall>k < length xs. mem' (sp - of_nat (8 * length xs) + of_nat (8 * k)) = rev xs ! k)"
  using assms
proof (induction xs rule: rev_induct)
  case (snoc x xs)
  let ?n = "length xs"
  obtain mem' where m: "fold push_word xs (sp, mem) = (sp - of_nat (8 * ?n), mem')"
    "\<forall>k < ?n. mem' (sp - of_nat (8 * ?n) + of_nat (8 * k)) = rev xs ! k" using snoc by auto
  let ?sp = "sp - of_nat (8 * ?n) - 8"
  have sp: "?sp = sp - of_nat (8 * length (xs @ [x]))" by simp
  have rd: "(mem'(?sp := x)) (?sp + of_nat (8 * k)) = rev (xs @ [x]) ! k" if "k < length (xs @ [x])" for k
  proof (cases k)
    case (Suc j)
    have "(of_nat (8 * k) :: u64) \<noteq> 0"
      using Suc that snoc.prems by (intro word_nat_nonzero) simp_all
    then have ne: "?sp + of_nat (8 * k) \<noteq> ?sp" by (metis add_cancel_right_right)
    have a: "?sp + of_nat (8 * k) = sp - of_nat (8 * ?n) + of_nat (8 * j)" by (simp add: Suc)
    have "j < ?n" using that Suc by simp
    with m(2) show ?thesis unfolding fun_upd_other [OF ne] unfolding a by (simp add: Suc del: of_nat_mult)
  qed simp
  have "fold push_word (xs @ [x]) (sp, mem) = (?sp, mem'(?sp := x))" using m(1) by (simp add: push_word_def)
  then show ?case using rd unfolding sp by blast
qed simp

text \<open>
  A new thread starts right: in a good state, with memory for its stack and registers, creating a thread
  gives it a fresh handle and puts it, ready, at the end of the table, the state stays good, and its stack holds, from its
  top on, the registers (with the thread's function as the argument) and the frame from which the interrupt return
  enters \<open>vthread_entry_point\<close> in the kernel's segments with interrupts on.
\<close>

theorem vthread_create_ready:
  assumes "sched_inv s" and "global_vthread_handle_counter s \<noteq> -1" and "thread_entry \<noteq> 0" and "f \<noteq> 0"
  shows "\<exists>h s' t. vthread_create entry_point thread_entry name (Some stk) (Some f) s = (h, s') \<and> sched_inv s' \<and>
    h \<noteq> VTHREAD_HANDLE_INVALID \<and> vthread_get h s = None \<and> g_threads s' = g_threads s @ [(h, t)] \<and> vt_state t = VT_RUNNING \<and>
    vt_parent t = g_process s \<and> vt_page_table t = cpu_page_table (sc_cpu s) \<and>
    (let top = (stk + VTHREAD_STACK_SIZE) AND NOT 0xF in vt_stack_top t = top - 168 \<and>
      map (\<lambda>k. sc_mem s' (vt_stack_top t + of_nat (8 * k))) [0..<21] =
        [0, thread_entry] @ replicate 13 0 @ [0, entry_point, 0x08, 0x202, top - 8, 0x10])"
proof -
  define top where "top = (stk + VTHREAD_STACK_SIZE) AND - 16"
  let ?xs = "init_frame entry_point thread_entry (top - 8)"
  have len: "length ?xs = 21" by (simp add: init_frame_def)
  obtain mem where mem: "fold push_word ?xs (top, sc_mem s) = (top - 168, mem)"
    "\<forall>k < 21. mem (top - 168 + of_nat (8 * k)) = rev ?xs ! k"
    using fold_push [of ?xs top "sc_mem s"] len by auto
  let ?h = "global_vthread_handle_counter s"
  define t0 where "t0 = vthread_zero\<lparr>vt_handle := ?h, vt_tls_handle := ?h, vt_state := VT_RUNNING, vt_parent := g_process s,
     vt_fpu_state := f, vt_fpu := replicate 512 0, vt_stack_bottom := stk, vt_stack_top := top - 168, vt_page_table := cpu_page_table (sc_cpu s)\<rparr>"
  define s1 where "s1 = s\<lparr>global_vthread_handle_counter := ?h + 1, sc_mem := mem\<rparr>"
  have i: "vthread_init entry_point thread_entry (Some stk) (Some f) vthread_zero s = (True, t0, s1)"
    using mem(1) assms(3) by (simp add: vthread_init_def vhtread_next_handle_def amd64_vthread_init_def Let_def top_def [symmetric] t0_def s1_def)
  define t where "t = (case name of None \<Rightarrow> t0
                       | Some n \<Rightarrow> t0\<lparr>vt_name := (let k = min (length n) VTHREAD_MAX_NAME_SIZE
                                               in take k n @ replicate (VTHREAD_MAX_NAME_SIZE + 1 - k) 0)\<rparr>)"
  have t: "vt_handle t = ?h" "vt_state t = VT_RUNNING" "t\<lparr>vt_state := VT_RUNNING\<rparr> = t" "vt_parent t = g_process s" "vt_stack_top t = top - 168"
    "vt_page_table t = cpu_page_table (sc_cpu s)"
    by (simp_all add: t_def t0_def split: option.splits)
  have fresh: "lm_get ?h (g_threads s) = None"
    using assms(1) by (auto simp: lm_get_None sched_inv_def table_inv_def thread_ok_def)
  have a: "vthread_add t s1 = (True, s1\<lparr>g_threads := g_threads s @ [(?h, t)]\<rparr>)"
    using fresh t(1,3) by (simp add: vthread_add_def lm_insert_def lm_contains_def s1_def)
  have c: "vthread_create entry_point thread_entry name (Some stk) (Some f) s = (?h, s1\<lparr>g_threads := g_threads s @ [(?h, t)]\<rparr>)"
    using i a t(1) by (simp add: vthread_create_def t_def [symmetric])
  have "sched_inv (s1\<lparr>g_threads := g_threads s @ [(?h, t)]\<rparr>)"
    using create_step(1) [OF assms(1,2), of "Some f" entry_point thread_entry name "Some stk"] assms(4) c by simp
  moreover have "map (\<lambda>k. mem (top - 168 + of_nat (8 * k))) [0..<21] = rev ?xs"
    by (rule nth_equalityI) (use mem(2) len in simp_all)
  moreover have "rev ?xs = [0, thread_entry] @ replicate 13 0 @ [0, entry_point, 0x08, 0x202, top - 8, 0x10]"
    by (simp add: init_frame_def amd64_get_selector_for_def RFLAGS_IF_def RFLAGS_RES_def eval_nat_numeral)
  ultimately show ?thesis using c t assms(2) fresh
    by (intro exI [of _ ?h] exI [of _ "s1\<lparr>g_threads := g_threads s @ [(?h, t)]\<rparr>"] exI [of _ t])
      (simp add: VTHREAD_HANDLE_INVALID_def vthread_get_def s1_def top_def [symmetric])
qed

text \<open>
  Starting the main thread establishes the scheduler's invariant: on an empty table, with a current process
  and memory for the registers, the main thread becomes the current, critical, running thread.
\<close>

theorem vthread_start_establishes:
  assumes "global_current_thread s = None" and "g_threads s = []" and "0 < global_vthread_handle_counter s"
    and "g_process s = Some p" and "p < length (sc_procs s)" and "f \<noteq> 0"
  shows "\<exists>s'. vthread_start_and_setup_main (Some f) s = (VTHREAD_MAIN_THREAD_HANDLE, s') \<and> sched_inv s' \<and>
    global_current_thread s' = Some VTHREAD_MAIN_THREAD_HANDLE \<and> vthread_get_count s' = 1"
  using assms
  by (auto simp: vthread_start_and_setup_main_def vthread_init_main_thread_def amd64_vthread_init_main_thread_def Let_def
      vthread_add_def lm_insert_def lm_contains_def sched_inv_def table_inv_def thread_ok_def lm_inv_def
      VTHREAD_MAIN_THREAD_HANDLE_def vthread_get_count_def lm_size_def)


text \<open>A small machine for the witnesses: the main thread and a second thread, in the kernel's process.\<close>

definition demo_thread :: "u64 \<Rightarrow> vthread_state \<Rightarrow> vthread" where
  "demo_thread h st = vthread_zero\<lparr>vt_handle := h, vt_tls_handle := h, vt_state := st, vt_parent := Some 0, vt_stack_top := 0x5000 + h,
     vt_page_table := 0x1000, vt_fpu_state := 0x9000, vt_fpu := [ucast h]\<rparr>"

definition demo_sched :: sched where
  "demo_sched = \<lparr>g_threads = [(0, demo_thread 0 VT_RUNNING), (1, demo_thread 1 VT_RUNNING)], global_vthread_handle_counter = 2,
     global_current_thread = Some 0, g_process = Some 0,
     sc_procs = [process_zero\<lparr>pr_is_kernel_process := True\<rparr>],
     sc_cpu = \<lparr>cpu_page_table = 0x1000, cpu_fpu = [], cpu_rsp0 = 0, cpu_kernel_rsp = 0\<rparr>, sc_now = 0, sc_mem = (\<lambda>_. 0), sc_freed = []\<rparr>"

lemma demo_sched_inv: "sched_inv demo_sched"
  by (auto simp: sched_inv_def table_inv_def thread_ok_def lm_inv_def demo_sched_def demo_thread_def vthread_zero_def VTHREAD_MAIN_THREAD_HANDLE_def)

lemma demo_facts: "2 \<le> vthread_get_count demo_sched" "2 \<le> length (g_threads demo_sched)" "all_running demo_sched"
    "global_current_thread demo_sched = Some (fst (g_threads demo_sched ! 0))" "global_vthread_handle_counter demo_sched \<noteq> -1"
    "vthread_get h demo_sched = Some t \<Longrightarrow> vt_state t = VT_RUNNING" "g_threads demo_sched \<noteq> []"
  by (auto simp: vthread_get_count_def lm_size_def all_running_def demo_sched_def demo_thread_def less_Suc_eq vthread_get_map_of
      split: if_splits)

theorem schedule_picks_runnable_witness:
  "\<exists>r s'. vthread_schedule 0x7000 demo_sched = Some (SchedNext r s') \<and> sched_inv s'"
  using schedule_picks_runnable [OF demo_sched_inv demo_facts(1), of "0x7000"] demo_facts(6) by auto

theorem sched_run_safe_witness:
  "\<exists>r. vthread_schedule 5 (vthread_terminate 1 demo_sched) = Some r \<and> r \<noteq> SchedFault"
  using sched_run_safe [OF demo_sched_inv quiet [OF start kill, of 1], of 5] by simp

theorem vthread_create_ready_witness:
  "\<exists>h s' t. vthread_create 0x100 0x200 None (Some 0x300000) (Some 0xA000) demo_sched = (h, s') \<and> g_threads s' = g_threads demo_sched @ [(h, t)]"
  using vthread_create_ready [OF demo_sched_inv demo_facts(5), of "0x200" "0xA000" "0x100" None "0x300000"] by auto

theorem round_robin_witness:
  "\<exists>s'. turns [(5, []), (6, []), (7, [])] demo_sched = Some s' \<and> global_current_thread s' = Some 1"
proof -
  have "0 < length (g_threads demo_sched)" using demo_facts(2) by linarith
  from round_robin [OF demo_sched_inv demo_facts(3,2) this demo_facts(4), of "[(5, []), (6, []), (7, [])]"]
  obtain s' where "turns [(5, []), (6, []), (7, [])] demo_sched = Some s'"
    "global_current_thread s' = Some (fst (g_threads demo_sched ! (3 mod 2)))"
    by (auto simp: demo_sched_def numeral_3_eq_3 numeral_2_eq_2)
  then show ?thesis by (auto simp: demo_sched_def)
qed

theorem preempted_thread_resumes_witness:
  "\<exists>s1 s3 f r. vthread_schedule 0x7000 (with_fpu [42] demo_sched) = Some (SchedNext r s1) \<and> global_current_thread s1 = Some 1 \<and>
    vthread_schedule 0x8000 (with_fpu [] s1) = Some (SchedNext 0x7000 s3) \<and> cpu_fpu (sc_cpu s3) = [42]"
proof -
  have inv: "sched_inv (with_fpu [42] demo_sched)" "all_running (with_fpu [42] demo_sched)" "2 \<le> length (g_threads (with_fpu [42] demo_sched))"
    "0 < length (g_threads (with_fpu [42] demo_sched))"
    "global_current_thread (with_fpu [42] demo_sched) = Some (fst (g_threads (with_fpu [42] demo_sched) ! 0))"
    using demo_sched_inv demo_facts by (simp_all add: all_running_def)
  from schedule_next [OF inv, of "0x7000"] obtain r1 s1 where s1: "vthread_schedule 0x7000 (with_fpu [42] demo_sched) = Some (SchedNext r1 s1)"
    "sched_inv s1" "all_running s1" "map fst (g_threads s1) = [0, 1]" "global_current_thread s1 = Some 1"
    by (auto simp: demo_sched_def)
  have len: "length (g_threads s1) = 2" using arg_cong [OF s1(4), of length] by simp
  have "fst (g_threads s1 ! 1) = 1" "fst (g_threads s1 ! 0) = 0" using arg_cong [OF s1(4), of "\<lambda>l. l ! 1"] arg_cong [OF s1(4), of "\<lambda>l. l ! 0"] len by simp_all
  then have inv1: "sched_inv (with_fpu [] s1)" "all_running (with_fpu [] s1)" "2 \<le> length (g_threads (with_fpu [] s1))" "1 < length (g_threads (with_fpu [] s1))"
    "global_current_thread (with_fpu [] s1) = Some (fst (g_threads (with_fpu [] s1) ! 1))" "fst (g_threads s1 ! 0) = 0"
    using s1 len by (simp_all add: all_running_def)
  from schedule_next [OF inv1(1-5), of "0x8000"] obtain r3 s3 where s3: "vthread_schedule 0x8000 (with_fpu [] s1) = Some (SchedNext r3 s3)"
    "global_current_thread s3 = Some 0" using len inv1(6) by auto
  have "r3 = 0x7000 \<and> cpu_fpu (sc_cpu s3) = [42]"
    using preempted_thread_resumes [OF demo_sched_inv _ s1(1) _ start _ yield [OF s3]] s1(5) by (simp add: demo_sched_def)
  with s1 s3 show ?thesis by auto
qed

theorem vthread_start_establishes_witness:
  "\<exists>s s'. g_threads s = [] \<and> vthread_start_and_setup_main (Some 0x9000) s = (VTHREAD_MAIN_THREAD_HANDLE, s') \<and> sched_inv s'"
proof -
  let ?s = "demo_sched\<lparr>g_threads := [], global_current_thread := None\<rparr>"
  have "g_threads ?s = []" by simp
  moreover from vthread_start_establishes [of ?s 0 "0x9000"]
  have "\<exists>s'. vthread_start_and_setup_main (Some 0x9000) ?s = (VTHREAD_MAIN_THREAD_HANDLE, s') \<and> sched_inv s'"
    by (auto simp: demo_sched_def)
  ultimately show ?thesis by blast
qed

text \<open>A failed creation frees the current process: the image of the process that asked for a thread is gone.\<close>

lemma failed_create_frees_process:
  assumes "g_process s = Some p" "p < length (sc_procs s)" "pr_data (sc_procs s ! p) \<noteq> 0"
  shows "pr_data (sc_procs (snd (vthread_create entry_point 0 name stack fpu s)) ! p) = 0"
  using assms by (simp add: vthread_create_def vthread_init_def vhtread_next_handle_def amd64_vthread_init_def vthread_cleanup_def
      vthread_zero_def delete_process_def free_if_def Let_def)

text \<open>A stopping thread takes the image of its process with it, whatever other threads the process has.\<close>

lemma stop_frees_process:
  assumes "vt_parent (snd (g_threads s ! i)) = Some p" "p < length (sc_procs s)" "\<not> vt_is_critical (snd (g_threads s ! i))"
  shows "\<exists>s'. vthread_handle_stopping i s = Some s' \<and> pr_data (sc_procs s' ! p) = 0 \<and> pr_program_data_v (sc_procs s' ! p) = 0"
  using assms by (simp add: vthread_handle_stopping_def vthread_cleanup_def delete_process_def free_if_def Let_def)

end
