(* ===== verification/Mutex.thy ===== *)
theory Mutex
  imports Prelude
begin

text \<open>
  Mutexes and spinlocks: \<open>src/kernel/src/utils/mutex.cpp\<close>.

  A mutex is its index; a thread its handle, by which its local storage and its flags register are found (a
  switch saves and restores the flags with the thread).  There is one processor, so a stretch of code that
  runs with interrupts off is one step; the operations are cut where interrupts are on or the code yields.
  An answer \<open>None\<close> is a call of \<open>debug_trap\<close>, which halts.
\<close>

section \<open>State\<close>

definition MUTEX_ARRAY_SIZE :: nat where "MUTEX_ARRAY_SIZE = 128"
definition VTHREAD_HANDLE_NONE :: u64 where "VTHREAD_HANDLE_NONE = -1"

record mutex =
  mx_locked :: u32
  mx_saved_flags :: u64
  mx_handle :: u64

record tls =
  tls_saved_irq_flags :: u64
  tls_irq_disable_depth :: int

record locks =
  lk_mutexes :: "nat \<Rightarrow> mutex"
  global_mutex_array :: "nat option list"
  lk_tls :: "u64 \<Rightarrow> tls"
  lk_flags :: "u64 \<Rightarrow> u64"
  lk_in_interrupt :: bool

definition FLAG_IF :: u64 where "FLAG_IF = 0x200"

text \<open>\<open>amd64_save_flags_and_cli\<close>: the flags before, and the flags with the interrupt flag cleared.\<close>

definition save_flags_and_cli :: "u64 \<Rightarrow> u64 \<times> u64" where
  "save_flags_and_cli flags = (flags, flags AND NOT FLAG_IF)"

text \<open>\<open>lock xchg\<close>.\<close>

definition atomic_exchange :: "nat \<Rightarrow> u32 \<Rightarrow> locks \<Rightarrow> u32 \<times> locks" where
  "atomic_exchange m v s =
     (mx_locked (lk_mutexes s m), s\<lparr>lk_mutexes := (lk_mutexes s)(m := (lk_mutexes s m)\<lparr>mx_locked := v\<rparr>)\<rparr>)"

section \<open>The operations\<close>

fun append_to_mutex_array :: "nat option list \<Rightarrow> nat \<Rightarrow> bool \<times> nat option list" where
  "append_to_mutex_array [] m = (False, [])"
| "append_to_mutex_array (x # xs) m =
     (if x = None then (True, Some m # xs)
      else case append_to_mutex_array xs m of (b, ys) \<Rightarrow> (b, x # ys))"

fun remove_from_mutex_array :: "nat option list \<Rightarrow> nat \<Rightarrow> bool \<times> nat option list" where
  "remove_from_mutex_array [] m = (False, [])"
| "remove_from_mutex_array (x # xs) m =
     (if x = Some m then (True, None # xs)
      else case remove_from_mutex_array xs m of (b, ys) \<Rightarrow> (b, x # ys))"

definition mutex_init :: "nat \<Rightarrow> locks \<Rightarrow> locks" where
  "mutex_init m s = s\<lparr>lk_mutexes := (lk_mutexes s)(m := (lk_mutexes s m)\<lparr>mx_locked := 0, mx_saved_flags := 0\<rparr>)\<rparr>"

text \<open>\<open>mutex_lock\<close> by the thread \<open>t\<close>: up to its loop, one test of the loop, and the rest.\<close>

definition mutex_lock_enter :: "u64 \<Rightarrow> locks \<Rightarrow> locks option" where
  "mutex_lock_enter t s =
     (if lk_in_interrupt s then None
      else let tls = lk_tls s t;
               (saved, off) = save_flags_and_cli (lk_flags s t);
               outer = (tls_irq_disable_depth tls = 0)
           in Some (s\<lparr>lk_flags := (if outer then (lk_flags s)(t := off) else lk_flags s),
                     lk_tls := (lk_tls s)(t := \<lparr>tls_saved_irq_flags = (if outer then saved else tls_saved_irq_flags tls),
                        tls_irq_disable_depth = tls_irq_disable_depth tls + 1\<rparr>)\<rparr>))"

definition mutex_lock_try :: "nat \<Rightarrow> locks \<Rightarrow> bool \<times> locks" where
  "mutex_lock_try m s = (case atomic_exchange m 1 s of (old, s) \<Rightarrow> (old = 0, s))"

definition mutex_lock_finish :: "u64 \<Rightarrow> nat \<Rightarrow> locks \<Rightarrow> locks" where
  "mutex_lock_finish t m s =
     s\<lparr>lk_mutexes := (lk_mutexes s)(m := (lk_mutexes s m)\<lparr>mx_handle := t\<rparr>),
       global_mutex_array := snd (append_to_mutex_array (global_mutex_array s) m)\<rparr>"

text \<open>\<open>mutex_lock\<close> without contention; \<open>Some None\<close> is the first yield.\<close>

definition mutex_lock :: "u64 \<Rightarrow> nat \<Rightarrow> locks \<Rightarrow> locks option option" where
  "mutex_lock t m s = do {
     s \<leftarrow> mutex_lock_enter t s;
     case mutex_lock_try m s of (ok, s) \<Rightarrow>
       Some (if ok then Some (mutex_lock_finish t m s) else None) }"

text \<open>\<open>mutex_unlock\<close>: until it has restored the flags, and the rest.\<close>

definition mutex_unlock_begin :: "u64 \<Rightarrow> nat \<Rightarrow> locks \<Rightarrow> locks option" where
  "mutex_unlock_begin t m s =
     (if mx_handle (lk_mutexes s m) \<noteq> t then None
      else let depth = tls_irq_disable_depth (lk_tls s t) - 1
           in Some (s\<lparr>lk_mutexes := (lk_mutexes s)(m := (lk_mutexes s m)\<lparr>mx_handle := VTHREAD_HANDLE_NONE\<rparr>),
                     lk_tls := (lk_tls s)(t := (lk_tls s t)\<lparr>tls_irq_disable_depth := depth\<rparr>),
                     lk_flags := (if depth = 0 then (lk_flags s)(t := tls_saved_irq_flags (lk_tls s t)) else lk_flags s)\<rparr>))"

definition mutex_unlock_end :: "nat \<Rightarrow> locks \<Rightarrow> locks" where
  "mutex_unlock_end m s =
     snd (atomic_exchange m 0 (s\<lparr>global_mutex_array := snd (remove_from_mutex_array (global_mutex_array s) m)\<rparr>))"

definition mutex_unlock :: "u64 \<Rightarrow> nat \<Rightarrow> locks \<Rightarrow> locks option" where
  "mutex_unlock t m s = map_option (mutex_unlock_end m) (mutex_unlock_begin t m s)"

fun clear_loop :: "u64 \<Rightarrow> u64 \<Rightarrow> nat list \<Rightarrow> locks \<Rightarrow> locks option" where
  "clear_loop t handle [] s = Some s"
| "clear_loop t handle (i # is) s =
     (case global_mutex_array s ! i of
        Some m \<Rightarrow>
          if mx_handle (lk_mutexes s m) = handle
          then do { s \<leftarrow> mutex_unlock t m s; clear_loop t handle is s }
          else clear_loop t handle is s
      | None \<Rightarrow> clear_loop t handle is s)"

definition mutex_clear_all_thread_references_and_release :: "u64 \<Rightarrow> u64 \<Rightarrow> locks \<Rightarrow> locks option" where
  "mutex_clear_all_thread_references_and_release t handle s = clear_loop t handle [0..<MUTEX_ARRAY_SIZE] s"

text \<open>A spinlock, with the flags of the processor; \<open>None\<close> is a loop that cannot end, as interrupts are off.\<close>

record spinlock =
  sp_locked :: u32
  sp_prev_interrupt_state :: u64

definition spinlock_lock :: "spinlock \<Rightarrow> u64 \<Rightarrow> (spinlock \<times> u64) option" where
  "spinlock_lock l flags =
     (case save_flags_and_cli flags of (prev, off) \<Rightarrow>
        if sp_locked l \<noteq> 0 then None else Some (l\<lparr>sp_prev_interrupt_state := prev, sp_locked := 1\<rparr>, off))"

definition spinlock_unlock :: "spinlock \<Rightarrow> u64 \<Rightarrow> spinlock \<times> u64" where
  "spinlock_unlock l flags = (l\<lparr>sp_locked := 0\<rparr>, sp_prev_interrupt_state l)"

text \<open>\<open>mutex_lock_guard\<close>: a null mutex is not locked.\<close>

definition guard_enter :: "u64 \<Rightarrow> nat option \<Rightarrow> locks \<Rightarrow> locks option option" where
  "guard_enter t m s = (case m of None \<Rightarrow> Some (Some s) | Some m \<Rightarrow> mutex_lock t m s)"

definition guard_leave :: "u64 \<Rightarrow> nat option \<Rightarrow> locks \<Rightarrow> locks option" where
  "guard_leave t m s = (case m of None \<Rightarrow> Some s | Some m \<Rightarrow> mutex_unlock t m s)"

section \<open>Threads that lock and unlock\<close>

text \<open>Where a thread is: in its own code, in the loop of \<open>mutex_lock\<close>, or behind the restored flags in \<open>mutex_unlock\<close>;
  and the mutexes it has locked and not begun to unlock.\<close>

datatype phase = Idle | Waiting nat | Releasing nat

record world =
  w_locks :: locks
  w_phase :: "u64 \<Rightarrow> phase"
  w_own :: "u64 \<Rightarrow> nat set"

text \<open>Any thread may take the next step; a thread unlocks only what it owns.\<close>

inductive mutex_step :: "world \<Rightarrow> world \<Rightarrow> bool" where
  enter: "w_phase w t = Idle \<Longrightarrow> mutex_lock_enter t (w_locks w) = Some s \<Longrightarrow>
     mutex_step w (w\<lparr>w_locks := s, w_phase := (w_phase w)(t := Waiting m)\<rparr>)"
| fail: "w_phase w t = Waiting m \<Longrightarrow> mutex_lock_try m (w_locks w) = (False, s) \<Longrightarrow>
     mutex_step w (w\<lparr>w_locks := s\<rparr>)"
| acquire: "w_phase w t = Waiting m \<Longrightarrow> mutex_lock_try m (w_locks w) = (True, s) \<Longrightarrow>
     mutex_step w (w\<lparr>w_locks := mutex_lock_finish t m s, w_phase := (w_phase w)(t := Idle),
       w_own := (w_own w)(t := insert m (w_own w t))\<rparr>)"
| release: "w_phase w t = Idle \<Longrightarrow> m \<in> w_own w t \<Longrightarrow> mutex_unlock_begin t m (w_locks w) = Some s \<Longrightarrow>
     mutex_step w (w\<lparr>w_locks := s, w_phase := (w_phase w)(t := Releasing m), w_own := (w_own w)(t := w_own w t - {m})\<rparr>)"
| finish: "w_phase w t = Releasing m \<Longrightarrow>
     mutex_step w (w\<lparr>w_locks := mutex_unlock_end m (w_locks w), w_phase := (w_phase w)(t := Idle)\<rparr>)"

inductive mutex_run :: "world \<Rightarrow> world \<Rightarrow> bool" where
  start: "mutex_run w w"
| step: "mutex_run w w1 \<Longrightarrow> mutex_step w1 w2 \<Longrightarrow> mutex_run w w2"

inductive_cases mutex_stepE: "mutex_step w w'"

text \<open>No thread holds or waits for a lock.\<close>

definition quiet_world :: "world \<Rightarrow> bool" where
  "quiet_world w \<longleftrightarrow> (\<forall>t. w_phase w t = Idle \<and> w_own w t = {} \<and> tls_irq_disable_depth (lk_tls (w_locks w) t) = 0) \<and>
     (\<forall>m. mx_locked (lk_mutexes (w_locks w) m) = 0) \<and> \<not> lk_in_interrupt (w_locks w)"

section \<open>The invariant\<close>

definition waiting :: "phase \<Rightarrow> nat" where
  "waiting p = (case p of Waiting m \<Rightarrow> 1 | _ \<Rightarrow> 0)"

definition held :: "(u64 \<Rightarrow> phase) \<Rightarrow> (u64 \<Rightarrow> nat set) \<Rightarrow> nat \<Rightarrow> bool" where
  "held ph own m \<longleftrightarrow> (\<exists>t. m \<in> own t \<or> ph t = Releasing m)"

definition owner_inv :: "world \<Rightarrow> bool" where
  "owner_inv w \<longleftrightarrow>
     (\<forall>t m. m \<in> w_own w t \<longrightarrow> mx_locked (lk_mutexes (w_locks w) m) = 1 \<and> mx_handle (lk_mutexes (w_locks w) m) = t) \<and>
     (\<forall>t m. w_phase w t = Releasing m \<longrightarrow> mx_locked (lk_mutexes (w_locks w) m) = 1 \<and> (\<forall>u. m \<notin> w_own w u)) \<and>
     (\<forall>t u m. w_phase w t = Releasing m \<longrightarrow> w_phase w u = Releasing m \<longrightarrow> t = u) \<and>
     (\<forall>m. mx_locked (lk_mutexes (w_locks w) m) \<noteq> 0 \<longrightarrow>
        mx_locked (lk_mutexes (w_locks w) m) = 1 \<and> held (w_phase w) (w_own w) m)"

definition irq_at :: "u64 \<Rightarrow> tls \<Rightarrow> u64 \<Rightarrow> phase \<Rightarrow> nat set \<Rightarrow> bool" where
  "irq_at f0 tls flags p own \<longleftrightarrow> finite own \<and> tls_irq_disable_depth tls = int (card own + waiting p) \<and>
     (if card own + waiting p = 0 then flags = f0
      else tls_saved_irq_flags tls = f0 \<and> flags = f0 AND NOT FLAG_IF)"

definition irq_inv :: "(u64 \<Rightarrow> u64) \<Rightarrow> world \<Rightarrow> bool" where
  "irq_inv f0 w \<longleftrightarrow> \<not> lk_in_interrupt (w_locks w) \<and>
     (\<forall>t. irq_at (f0 t) (lk_tls (w_locks w) t) (lk_flags (w_locks w) t) (w_phase w t) (w_own w t))"

lemma try_result:
  "mutex_lock_try m s = (mx_locked (lk_mutexes s m) = 0, s\<lparr>lk_mutexes := (lk_mutexes s)(m := (lk_mutexes s m)\<lparr>mx_locked := 1\<rparr>)\<rparr>)"
  by (simp add: mutex_lock_try_def atomic_exchange_def)

lemma unlock_end_result:
  "mutex_unlock_end m s = s\<lparr>global_mutex_array := snd (remove_from_mutex_array (global_mutex_array s) m),
     lk_mutexes := (lk_mutexes s)(m := (lk_mutexes s m)\<lparr>mx_locked := 0\<rparr>)\<rparr>"
  by (simp add: mutex_unlock_end_def atomic_exchange_def)

lemma same_locked: "mx_locked x = v \<Longrightarrow> x\<lparr>mx_locked := v\<rparr> = x"
  by simp

lemma held_upd:
  assumes "held ph own k" and "k \<in> own t \<Longrightarrow> k \<in> own'" and "ph t = Releasing k \<Longrightarrow> p' = Releasing k"
  shows "held (ph(t := p')) (own(t := own')) k"
proof -
  from assms(1) obtain u where "k \<in> own u \<or> ph u = Releasing k" by (auto simp: held_def)
  with assms(2,3) show ?thesis unfolding held_def by (cases "u = t") (auto intro!: exI [of _ u])
qed

lemma held_at: "m \<in> own' \<or> p' = Releasing m \<Longrightarrow> held (ph(t := p')) (own(t := own')) m"
  unfolding held_def by (rule exI [of _ t]) simp

lemma owner_step:
  assumes "mutex_step w w'" "owner_inv w"
  shows "owner_inv w'"
proof -
  have inv: "mx_locked (lk_mutexes (w_locks w) m) = 1 \<and> mx_handle (lk_mutexes (w_locks w) m) = t" if "m \<in> w_own w t" for t m
    using assms(2) that unfolding owner_inv_def by blast
  have rel: "mx_locked (lk_mutexes (w_locks w) m) = 1 \<and> (\<forall>u. m \<notin> w_own w u)" if "w_phase w t = Releasing m" for t m
    using assms(2) that unfolding owner_inv_def by blast
  have one: "t = u" if "w_phase w t = Releasing m" "w_phase w u = Releasing m" for t u m
    using assms(2) that unfolding owner_inv_def by blast
  have lck: "mx_locked (lk_mutexes (w_locks w) m) = 1 \<and> held (w_phase w) (w_own w) m" if "mx_locked (lk_mutexes (w_locks w) m) \<noteq> 0" for m
    using assms(2) that unfolding owner_inv_def by blast
  show ?thesis using assms(1)
  proof cases
    case (enter t s m)
    then have lk: "lk_mutexes s = lk_mutexes (w_locks w)"
      by (auto simp: mutex_lock_enter_def Let_def save_flags_and_cli_def split: if_splits)
    have "held ((w_phase w)(t := Waiting m)) ((w_own w)(t := w_own w t)) k" if "held (w_phase w) (w_own w) k" for k
      using that enter(2) by (intro held_upd) simp_all
    then show ?thesis unfolding enter(1) owner_inv_def using inv rel one lck by (auto simp: lk)
  next
    case (fail t m s)
    then have "mx_locked (lk_mutexes (w_locks w) m) \<noteq> 0" by (simp add: try_result)
    then have "mx_locked (lk_mutexes (w_locks w) m) = 1" using lck by blast
    then have "lk_mutexes s = lk_mutexes (w_locks w)" using fail(3) by (auto simp: try_result)
    with fail(1) assms(2) show ?thesis by (simp add: owner_inv_def)
  next
    case (acquire t m s)
    then have free: "mx_locked (lk_mutexes (w_locks w) m) = 0" by (simp add: try_result)
    have no: "m \<notin> w_own w u" "w_phase w u \<noteq> Releasing m" for u using inv [of m u] rel [of u m] free by auto
    have lk: "lk_mutexes (mutex_lock_finish t m s) = (lk_mutexes (w_locks w))(m := (lk_mutexes (w_locks w) m)\<lparr>mx_locked := 1, mx_handle := t\<rparr>)"
      using acquire(3) by (auto simp: try_result mutex_lock_finish_def)
    have "held ((w_phase w)(t := Idle)) ((w_own w)(t := insert m (w_own w t))) k" if "held (w_phase w) (w_own w) k" for k
      using that acquire(2) by (intro held_upd) simp_all
    moreover have "held ((w_phase w)(t := Idle)) ((w_own w)(t := insert m (w_own w t))) m" by (rule held_at) simp
    ultimately show ?thesis unfolding acquire(1) owner_inv_def using inv rel one lck no by (auto simp: lk)
  next
    case (release t m s)
    have lk: "lk_mutexes s = (lk_mutexes (w_locks w))(m := (lk_mutexes (w_locks w) m)\<lparr>mx_handle := VTHREAD_HANDLE_NONE\<rparr>)"
      using release(4) by (auto simp: mutex_unlock_begin_def Let_def split: if_splits)
    note t = inv [OF release(3)]
    have no: "m \<notin> w_own w u" if "u \<noteq> t" for u using inv [of m u] t that by auto
    have nr: "w_phase w u \<noteq> Releasing m" for u using rel [of u m] release(3) by auto
    have "held ((w_phase w)(t := Releasing m)) ((w_own w)(t := w_own w t - {m})) k" if "held (w_phase w) (w_own w) k" for k
    proof (cases "k = m")
      case True
      then show ?thesis by (auto intro: held_at)
    next
      case False
      with that release(2) show ?thesis by (intro held_upd) simp_all
    qed
    note h = this
    have own: "u = t \<and> k \<noteq> m \<and> k \<in> w_own w t \<or> u \<noteq> t \<and> k \<noteq> m \<and> k \<in> w_own w u"
      if "k \<in> ((w_own w)(t := w_own w t - {m})) u" for k u
      using that no [of u] by (auto split: if_splits)
    have lkd: "mx_locked (lk_mutexes s k) = mx_locked (lk_mutexes (w_locks w) k)" for k by (simp add: lk)
    show ?thesis unfolding release(1) owner_inv_def
    proof (intro conjI allI impI, goal_cases)
      case (1 u k)
      then show ?case using own [of k u] inv [of k u] lkd by auto
    next
      case (2 u k)
      then show ?case using own [of k u] inv [of k u] by (auto simp: lk)
    next
      case (3 u k)
      then show ?case using rel [of u k] t lkd by (auto split: if_splits)
    next
      case (4 u k v)
      then show ?case using rel [of u k] no [of v] by (auto split: if_splits)
    next
      case (5 u v k)
      then show ?case using one [of u k v] nr by (auto split: if_splits)
    next
      case (6 k)
      then show ?case using lck [of k] lkd by simp
    next
      case (7 k)
      then show ?case using lck [of k] lkd h by simp
    qed
  next
    case (finish t m)
    have no: "m \<notin> w_own w u" for u using rel [OF finish(2)] by blast
    have nr: "w_phase w u = Releasing m \<Longrightarrow> u = t" for u using one finish(2) by blast
    have "held ((w_phase w)(t := Idle)) ((w_own w)(t := w_own w t)) k" if "held (w_phase w) (w_own w) k" "k \<noteq> m" for k
      using that finish(2) by (intro held_upd) simp_all
    then show ?thesis unfolding finish(1) owner_inv_def unlock_end_result using inv rel one lck no nr by auto
  qed
qed

text \<open>A step of one thread leaves the others alone.\<close>

lemma irq_inv_one:
  assumes "irq_inv f0 w" "\<not> lk_in_interrupt (w_locks w')"
    and "\<And>u. u \<noteq> t \<Longrightarrow> lk_tls (w_locks w') u = lk_tls (w_locks w) u \<and> lk_flags (w_locks w') u = lk_flags (w_locks w) u \<and>
        w_phase w' u = w_phase w u \<and> w_own w' u = w_own w u"
    and "irq_at (f0 t) (lk_tls (w_locks w') t) (lk_flags (w_locks w') t) (w_phase w' t) (w_own w' t)"
  shows "irq_inv f0 w'"
  unfolding irq_inv_def
proof (intro conjI allI)
  fix u
  show "irq_at (f0 u) (lk_tls (w_locks w') u) (lk_flags (w_locks w') u) (w_phase w' u) (w_own w' u)"
    using assms by (cases "u = t") (simp_all add: irq_inv_def)
qed (rule assms(2))

lemma irq_step:
  assumes "mutex_step w w'" "owner_inv w" "irq_inv f0 w"
  shows "irq_inv f0 w'"
proof -
  have i: "irq_at (f0 t) (lk_tls (w_locks w) t) (lk_flags (w_locks w) t) (w_phase w t) (w_own w t)" for t
    using assms(3) by (simp add: irq_inv_def)
  have int: "\<not> lk_in_interrupt (w_locks w)" using assms(3) by (simp add: irq_inv_def)
  show ?thesis using assms(1)
  proof cases
    case (enter t s m)
    show ?thesis
      by (rule irq_inv_one [OF assms(3), where t = t])
        (use i [of t] int enter in \<open>auto simp: irq_at_def mutex_lock_enter_def Let_def save_flags_and_cli_def waiting_def
            split: if_splits\<close>)
  next
    case (fail t m s)
    then have "lk_tls s = lk_tls (w_locks w)" "lk_flags s = lk_flags (w_locks w)" "lk_in_interrupt s = lk_in_interrupt (w_locks w)"
      by (auto simp: try_result)
    with fail(1) assms(3) show ?thesis by (simp add: irq_inv_def)
  next
    case (acquire t m s)
    then have s: "lk_tls s = lk_tls (w_locks w)" "lk_flags s = lk_flags (w_locks w)" "lk_in_interrupt s = lk_in_interrupt (w_locks w)"
      and free: "mx_locked (lk_mutexes (w_locks w) m) = 0" by (auto simp: try_result)
    have "m \<notin> w_own w t" using assms(2) free by (auto simp: owner_inv_def)
    moreover have "finite (w_own w t)" using i [of t] by (simp add: irq_at_def)
    ultimately have "card (insert m (w_own w t)) = Suc (card (w_own w t))" by simp
    then show ?thesis
      by (intro irq_inv_one [OF assms(3), where t = t])
        (use i [of t] int acquire(1,2) s in \<open>simp_all add: irq_at_def mutex_lock_finish_def waiting_def\<close>)
  next
    case (release t m s)
    have fin: "finite (w_own w t)" using i [of t] by (simp add: irq_at_def)
    have c: "card (w_own w t) = Suc (card (w_own w t - {m}))" by (rule card.remove [OF fin release(3)])
    have "s = (w_locks w)\<lparr>lk_mutexes := (lk_mutexes (w_locks w))(m := (lk_mutexes (w_locks w) m)\<lparr>mx_handle := VTHREAD_HANDLE_NONE\<rparr>),
        lk_tls := (lk_tls (w_locks w))(t := (lk_tls (w_locks w) t)\<lparr>tls_irq_disable_depth := int (card (w_own w t - {m}))\<rparr>),
        lk_flags := (if card (w_own w t - {m}) = 0 then (lk_flags (w_locks w))(t := tls_saved_irq_flags (lk_tls (w_locks w) t)) else lk_flags (w_locks w))\<rparr>"
      using release(2,4) i [of t] c by (auto simp: mutex_unlock_begin_def Let_def irq_at_def waiting_def split: if_splits)
    then show ?thesis
      by (intro irq_inv_one [OF assms(3), where t = t])
        (use i [of t] int release(1,2) c fin in \<open>auto simp: irq_at_def waiting_def\<close>)
  next
    case (finish t m)
    then show ?thesis
      by (intro irq_inv_one [OF assms(3), where t = t]) (use i [of t] int in \<open>simp_all add: irq_at_def unlock_end_result waiting_def\<close>)
  qed
qed

lemma owned:
  "owner_inv w \<Longrightarrow> m \<in> w_own w t \<Longrightarrow> mx_locked (lk_mutexes (w_locks w) m) = 1 \<and> mx_handle (lk_mutexes (w_locks w) m) = t"
  unfolding owner_inv_def by blast

lemma run_inv:
  assumes "mutex_run w w'" "quiet_world w"
  shows "owner_inv w' \<and> irq_inv (lk_flags (w_locks w)) w'"
  using assms
proof (induction rule: mutex_run.induct)
  case (start w)
  then show ?case by (auto simp: quiet_world_def owner_inv_def held_def irq_inv_def irq_at_def waiting_def)
next
  case (step w w1 w2)
  then show ?case using owner_step irq_step by blast
qed

text \<open>
  C10. Mutual exclusion: in every interleaving of threads that lock and unlock mutexes, a mutex is owned by at most
  one thread, which is the one recorded in it, and its lock is taken as long as it is owned; its owner's unlock never traps.
\<close>

theorem mutex_exclusion:
  assumes "quiet_world w" and "mutex_run w w'" and "m \<in> w_own w' t"
  shows "(\<forall>u. m \<in> w_own w' u \<longrightarrow> u = t) \<and> mx_locked (lk_mutexes (w_locks w') m) = 1 \<and>
    mx_handle (lk_mutexes (w_locks w') m) = t \<and> mutex_unlock t m (w_locks w') \<noteq> None"
proof -
  have inv: "owner_inv w'" using run_inv [OF assms(2,1)] by blast
  note t = owned [OF inv assms(3)]
  have "u = t" if "m \<in> w_own w' u" for u using owned [OF inv that] t by simp
  with t show ?thesis by (simp add: mutex_unlock_def mutex_unlock_begin_def Let_def)
qed

text \<open>
  Interrupts come back: in every interleaving, a thread has interrupts off exactly while it owns a mutex or
  waits for one, and outside of that it has exactly the flags it had at the start.
\<close>

theorem mutex_irq_restored:
  assumes "quiet_world w" and "mutex_run w w'"
  shows "lk_flags (w_locks w') t =
    (if w_own w' t = {} \<and> (\<forall>m. w_phase w' t \<noteq> Waiting m) then lk_flags (w_locks w) t
     else lk_flags (w_locks w) t AND NOT FLAG_IF)"
proof -
  have i: "finite (w_own w' t)" "if card (w_own w' t) + waiting (w_phase w' t) = 0 then lk_flags (w_locks w') t = lk_flags (w_locks w) t
       else tls_saved_irq_flags (lk_tls (w_locks w') t) = lk_flags (w_locks w) t \<and> lk_flags (w_locks w') t = lk_flags (w_locks w) t AND NOT FLAG_IF"
    using run_inv [OF assms(2,1)] by (auto simp: irq_inv_def irq_at_def)
  have "card (w_own w' t) + waiting (w_phase w' t) = 0 \<longleftrightarrow> w_own w' t = {} \<and> (\<forall>m. w_phase w' t \<noteq> Waiting m)"
    using i(1) by (auto simp: waiting_def split: phase.splits)
  with i(2) show ?thesis by (simp split: if_splits)
qed

text \<open>
  A released mutex can be taken: in every interleaving, when a thread has unlocked a mutex it owned, the
  next thread that tries it gets it; and locking a mutex nobody owns or is releasing does not wait.
\<close>

theorem mutex_released_is_free:
  assumes "quiet_world w" and "mutex_run w w'"
  shows "(m \<in> w_own w' t \<longrightarrow> (\<exists>s. mutex_unlock t m (w_locks w') = Some s \<and> fst (mutex_lock_try m s))) \<and>
    ((\<forall>u. m \<notin> w_own w' u \<and> w_phase w' u \<noteq> Releasing m) \<longrightarrow> (\<exists>s. mutex_lock t m (w_locks w') = Some (Some s) \<and> mx_handle (lk_mutexes s m) = t))"
proof -
  have i: "owner_inv w'" "\<not> lk_in_interrupt (w_locks w')" using run_inv [OF assms(2,1)] by (auto simp: irq_inv_def)
  have "\<exists>s. mutex_unlock t m (w_locks w') = Some s \<and> fst (mutex_lock_try m s)" if "m \<in> w_own w' t"
    using i(1) that by (auto simp: owner_inv_def mutex_unlock_def mutex_unlock_begin_def Let_def unlock_end_result try_result)
  moreover have "\<exists>s. mutex_lock t m (w_locks w') = Some (Some s) \<and> mx_handle (lk_mutexes s m) = t"
    if "\<forall>u. m \<notin> w_own w' u \<and> w_phase w' u \<noteq> Releasing m"
  proof -
    have "mx_locked (lk_mutexes (w_locks w') m) = 0" using i(1) that unfolding owner_inv_def held_def by blast
    then show ?thesis using i(2)
      by (auto simp: mutex_lock_def mutex_lock_enter_def Let_def save_flags_and_cli_def try_result mutex_lock_finish_def)
  qed
  ultimately show ?thesis by blast
qed

text \<open>Two threads and one mutex, for the witnesses.\<close>

definition demo_world :: world where
  "demo_world = \<lparr>w_locks = \<lparr>lk_mutexes = (\<lambda>_. \<lparr>mx_locked = 0, mx_saved_flags = 0, mx_handle = 0\<rparr>),
      global_mutex_array = replicate MUTEX_ARRAY_SIZE None, lk_tls = (\<lambda>_. \<lparr>tls_saved_irq_flags = 0, tls_irq_disable_depth = 0\<rparr>),
      lk_flags = (\<lambda>_. 0x202), lk_in_interrupt = False\<rparr>, w_phase = (\<lambda>_. Idle), w_own = (\<lambda>_. {})\<rparr>"

lemma demo_quiet: "quiet_world demo_world"
  by (simp add: quiet_world_def demo_world_def)

lemma demo_lock:
  obtains w where "mutex_run demo_world w" "0 \<in> w_own w 7"
proof -
  obtain s where s: "mutex_lock_enter 7 (w_locks demo_world) = Some s" "lk_mutexes s = lk_mutexes (w_locks demo_world)"
    by (simp add: mutex_lock_enter_def demo_world_def Let_def save_flags_and_cli_def)
  let ?w1 = "demo_world\<lparr>w_locks := s, w_phase := (w_phase demo_world)(7 := Waiting 0)\<rparr>"
  have 1: "mutex_step demo_world ?w1" by (rule enter) (use s in \<open>simp_all add: demo_world_def\<close>)
  obtain s2 where "mutex_lock_try 0 (w_locks ?w1) = (True, s2)" using s(2) by (simp add: try_result demo_world_def)
  then have 2: "mutex_step ?w1 (?w1\<lparr>w_locks := mutex_lock_finish 7 0 s2, w_phase := (w_phase ?w1)(7 := Idle), w_own := (w_own ?w1)(7 := insert 0 (w_own ?w1 7))\<rparr>)"
    by (intro acquire) simp_all
  show thesis by (rule that [OF mutex_run.step [OF mutex_run.step [OF mutex_run.start 1] 2]]) simp
qed

theorem mutex_exclusion_witness:
  "\<exists>w. mutex_run demo_world w \<and> 0 \<in> w_own w 7 \<and> 0 \<notin> w_own w 8"
proof -
  obtain w where w: "mutex_run demo_world w" "0 \<in> w_own w 7" by (rule demo_lock)
  have "\<forall>u. 0 \<in> w_own w u \<longrightarrow> u = 7" using mutex_exclusion [OF demo_quiet w] by blast
  then have "0 \<notin> w_own w 8" by force
  with w show ?thesis by blast
qed

theorem mutex_irq_restored_witness:
  "\<exists>w. mutex_run demo_world w \<and> lk_flags (w_locks w) 7 = 0x2"
proof -
  obtain w where w: "mutex_run demo_world w" "0 \<in> w_own w 7" by (rule demo_lock)
  have "w_own w 7 \<noteq> {}" using w(2) by blast
  with mutex_irq_restored [OF demo_quiet w(1), of 7] have "lk_flags (w_locks w) 7 = 0x202 AND NOT FLAG_IF"
    by (simp add: demo_world_def)
  moreover have "(0x202 :: u64) AND NOT FLAG_IF = 0x2" by (simp add: FLAG_IF_def)
  ultimately have "lk_flags (w_locks w) 7 = 0x2" by simp
  with w(1) show ?thesis by blast
qed

theorem mutex_released_is_free_witness:
  "\<exists>w s. mutex_run demo_world w \<and> mutex_unlock 7 0 (w_locks w) = Some s \<and> fst (mutex_lock_try 0 s)"
proof -
  obtain w where w: "mutex_run demo_world w" "0 \<in> w_own w 7" by (rule demo_lock)
  from mutex_released_is_free [OF demo_quiet w(1), of 0 7] w show ?thesis by auto
qed

text \<open>A thread that locks a mutex it already owns waits for ever: every try fails.\<close>

lemma self_deadlock: "mx_locked (lk_mutexes s m) = 1 \<Longrightarrow> mutex_lock_try m s = (False, s)"
proof -
  assume l: "mx_locked (lk_mutexes s m) = 1"
  then have "(lk_mutexes s)(m := (lk_mutexes s m)\<lparr>mx_locked := 1\<rparr>) = lk_mutexes s" by (auto simp: fun_eq_iff)
  with l show ?thesis by (simp add: try_result)
qed

end
