(* ===== verification/Block_Device.thy ===== *)
theory Block_Device
  imports Prelude
begin

text \<open>
  Block devices and the list of disks: \<open>src/kernel/src/drivers/storage/block_device.cpp\<close> and
  \<open>src/kernel/src/storage/disk_manager.cpp\<close>.
  A driver's \<open>read\<close> is a function of the block address and the number of bytes; \<open>None\<close> is its answer
  \<open>false\<close>.  So a disk does not change and answers alike every time, and what a failed read left in the
  buffer is not known; no caller looks at it.
\<close>

section \<open>The device\<close>

record block_device =
  bd_read :: "u64 \<Rightarrow> u64 \<Rightarrow> u8 list option"
  bd_start_lba :: u64
  bd_end_lba :: u64
  bd_block_size :: u64

definition block_device_read :: "block_device \<Rightarrow> u64 \<Rightarrow> u64 \<Rightarrow> u8 list option" where
  "block_device_read block_device lba sz = bd_read block_device (bd_start_lba block_device + lba) sz"

text \<open>The loop over the blocks \<open>i\<close>, \<open>i + 1\<close>, ... of the two functions that read several blocks; \<open>n\<close> are left.\<close>

fun read_blocks :: "block_device \<Rightarrow> u64 \<Rightarrow> u64 \<Rightarrow> nat \<Rightarrow> u8 list \<Rightarrow> (bool \<times> u8 list) option" where
  "read_blocks device lba i 0 buffer = Some (True, buffer)"
| "read_blocks device lba i (Suc n) buffer =
     (case block_device_read device (lba + i) (bd_block_size device) of
        None \<Rightarrow> Some (False, buffer)
      | Some d \<Rightarrow> do { b \<leftarrow> wr_bytes buffer (unat (i * bd_block_size device)) d;
                       read_blocks device lba (i + 1) n b })"

text \<open>The pointers are not null.  A block size of 0 is a division by zero.\<close>

definition block_device_read_sized :: "block_device \<Rightarrow> u64 \<Rightarrow> u8 list \<Rightarrow> u64 \<Rightarrow> (bool \<times> u8 list) option" where
  "block_device_read_sized device lba buffer sz =
     (if bd_block_size device = 0 then None
      else if sz mod bd_block_size device \<noteq> 0 then Some (False, buffer)
      else let lba_count = (sz + bd_block_size device - 1) div bd_block_size device
           in read_blocks device lba 0 (unat lba_count) buffer)"

section \<open>The list of disks\<close>

text \<open>The interface of a driver, applied to the data of one disk.\<close>

record disk_interface =
  di_read :: "u64 \<Rightarrow> u64 \<Rightarrow> u8 list option"
  di_get_sector_size :: u64
  di_get_capacity :: u64

record disk =
  disk_name :: "u8 list"
  disk_io :: disk_interface

definition disk_manager_register :: "u8 list option \<Rightarrow> disk_interface option \<Rightarrow> disk list \<Rightarrow> bool \<times> disk list" where
  "disk_manager_register name interface disks =
     (case (name, interface) of
        (Some name, Some interface) \<Rightarrow>
          let namelen = min (length name) 31
          in (True, disks @ [\<lparr>disk_name = take namelen name, disk_io = interface\<rparr>])
      | _ \<Rightarrow> (False, disks))"

section \<open>Extents\<close>

text \<open>The reference: the bytes of \<open>n\<close> consecutive blocks.\<close>

fun blocks_at :: "block_device \<Rightarrow> u64 \<Rightarrow> nat \<Rightarrow> u8 list option" where
  "blocks_at device lba 0 = Some []"
| "blocks_at device lba (Suc n) =
     do { b \<leftarrow> block_device_read device lba (bd_block_size device);
          r \<leftarrow> blocks_at device (lba + 1) n; Some (b @ r) }"

definition disk_ok :: "block_device \<Rightarrow> bool" where
  "disk_ok device \<longleftrightarrow> 0 < bd_block_size device \<and> bd_block_size device < 2 ^ 32 \<and>
     (\<forall>lba sz d. bd_read device lba sz = Some d \<longrightarrow> length d = unat sz)"

lemma disk_ok_length:
  "disk_ok device \<Longrightarrow> block_device_read device lba sz = Some d \<Longrightarrow> length d = unat sz"
  by (simp add: disk_ok_def block_device_read_def)

lemma disk_ok_size: "disk_ok device \<Longrightarrow> 0 < unat (bd_block_size device) \<and> unat (bd_block_size device) < 2 ^ 32"
  by (simp add: disk_ok_def word_less_nat_alt unat_gt_0)

lemma blocks_at_length:
  "disk_ok device \<Longrightarrow> blocks_at device lba n = Some d \<Longrightarrow> length d = n * unat (bd_block_size device)"
  by (induction n arbitrary: lba d) (auto simp: bind_Some_iff disk_ok_length)

lemma read_blocks_extent:
  assumes ok: "disk_ok device" and bs: "bs = unat (bd_block_size device)"
    and room: "(unat i + n) * bs < 2 ^ 64" "length buffer = (unat i + n) * bs"
  shows "case blocks_at device (lba + i) n of
      None \<Rightarrow> \<exists>b. read_blocks device lba i n buffer = Some (False, b)
    | Some d \<Rightarrow> read_blocks device lba i n buffer = Some (True, take (unat i * bs) buffer @ d)"
  using room
proof (induction n arbitrary: i buffer)
  case 0
  then show ?case by simp
next
  case (Suc n)
  have pos: "0 < bs" using disk_ok_size [OF ok] bs by simp
  show ?case
  proof (cases "block_device_read device (lba + i) (bd_block_size device)")
    case None
    then show ?thesis by simp
  next
    case (Some d)
    have d: "length d = bs" using disk_ok_length [OF ok Some] bs by simp
    have "unat i * bs \<le> (unat i + Suc n) * bs" by (rule mult_le_mono1) simp
    from le_less_trans [OF this Suc.prems(1)] have "unat i * unat (bd_block_size device) < 2 ^ 64" by (simp add: bs)
    then have ib: "unat (i * bd_block_size device) = unat i * bs"
      using bs by (simp add: unat_mult_lem [THEN iffD1])
    have "(unat i + Suc n) * 1 \<le> (unat i + Suc n) * bs" using pos by (intro mult_le_mono2) simp
    from le_less_trans [OF this Suc.prems(1)] have "unat i + 1 < 2 ^ 64" by simp
    then have i1: "unat (i + 1) = Suc (unat i)" by (subst unat_plus_no_wrap) simp_all
    let ?b = "take (unat i * bs) buffer @ d @ drop (unat i * bs + bs) buffer"
    have room: "unat i * bs + bs \<le> length buffer" using Suc.prems(2) by (simp add: algebra_simps)
    have w: "wr_bytes buffer (unat (i * bd_block_size device)) d = Some ?b"
      using room d by (simp add: ib buf_simps)
    have lb: "length ?b = (unat (i + 1) + n) * bs" using room d Suc.prems(2) unfolding i1 by (simp add: algebra_simps)
    have "(unat (i + 1) + n) * bs < 2 ^ 64" using Suc.prems(1) by (simp add: i1)
    from Suc.IH [OF this lb] have IH: "case blocks_at device (lba + i + 1) n of
        None \<Rightarrow> \<exists>b. read_blocks device lba (i + 1) n ?b = Some (False, b)
      | Some r \<Rightarrow> read_blocks device lba (i + 1) n ?b = Some (True, take (unat (i + 1) * bs) ?b @ r)"
      by (simp only: add.assoc)
    have t: "take (unat (i + 1) * bs) ?b = take (unat i * bs) buffer @ d"
      using room d unfolding i1 by (simp add: algebra_simps)
    show ?thesis using IH Some w unfolding t by (auto split: option.splits)
  qed
qed

lemma read_blocks_from_0:
  assumes "disk_ok device" "n * unat (bd_block_size device) < 2 ^ 64" "length buffer = n * unat (bd_block_size device)"
  shows "case blocks_at device lba n of
      None \<Rightarrow> \<exists>b. read_blocks device lba 0 n buffer = Some (False, b)
    | Some d \<Rightarrow> read_blocks device lba 0 n buffer = Some (True, d)"
  using read_blocks_extent [OF assms(1) refl, of 0 n buffer lba] assms
  by (cases "blocks_at device lba n") simp_all

text \<open>How many blocks \<open>(size + block_size - 1) / block_size\<close> counts.\<close>

definition block_count :: "nat \<Rightarrow> nat \<Rightarrow> nat" where
  "block_count sz bs = (sz + bs - 1) div bs"

lemma block_count_word:
  assumes "disk_ok device" "unat sz < 2 ^ 63"
  shows "unat ((sz + bd_block_size device - 1) div bd_block_size device) = block_count (unat sz) (unat (bd_block_size device))"
proof -
  have b: "0 < unat (bd_block_size device)" "unat (bd_block_size device) < 2 ^ 32" using disk_ok_size [OF assms(1)] by auto
  have "unat (sz + bd_block_size device) = unat sz + unat (bd_block_size device)"
    using assms(2) b by (subst unat_plus_no_wrap) simp_all
  moreover have "1 \<le> sz + bd_block_size device" using calculation b by (simp add: word_le_nat_alt)
  ultimately have "unat (sz + bd_block_size device - 1) = unat sz + unat (bd_block_size device) - 1"
    by (subst unat_minus_no_wrap) simp_all
  then show ?thesis by (simp add: block_count_def unat_div)
qed

lemma block_count_bounds:
  "0 < bs \<Longrightarrow> sz \<le> block_count sz bs * bs \<and> block_count sz bs * bs < sz + bs"
proof -
  assume bs: "0 < bs"
  let ?q = "(sz + bs - 1) div bs"
  have "?q * bs + (sz + bs - 1) mod bs = sz + bs - 1" by simp
  moreover have "(sz + bs - 1) mod bs < bs" using bs by simp
  ultimately show ?thesis unfolding block_count_def using bs by linarith
qed

end
