(* ===== verification/File_Path.thy ===== *)
theory File_Path
  imports Std_String
begin

text \<open>
  What the two file systems share: taking a path apart at the slashes and putting the rest of it together
  again for the recursive call (the head of \<open>iso9660_find_node\<close> and \<open>fat32_find_node\<close> in
  \<open>src/kernel/src/filesystems/\<close>).  A path is a C string, \<open>None\<close> for \<open>nullptr\<close>.
\<close>

section \<open>Operations\<close>

definition is_root_path :: "u8 list option \<Rightarrow> bool" where
  "is_root_path path \<longleftrightarrow> path = None \<or> length (the path) = 0 \<or> streq (the path) [0x2F]"

definition split_path :: "u8 list option \<Rightarrow> std_string list option" where
  "split_path path = do { s \<leftarrow> assign_cstr path; str_split s 0x2F }"

fun remaining_loop :: "std_string \<Rightarrow> std_string list \<Rightarrow> std_string option" where
  "remaining_loop s [] = Some s"
| "remaining_loop s (p # ps) =
     do { s \<leftarrow> append_cstr s (Some [0x2F]); s \<leftarrow> append_string s p; remaining_loop s ps }"

definition remaining_path :: "std_string list \<Rightarrow> u8 list option option" where
  "remaining_path parts = do { s \<leftarrow> assign_cstr (Some []); s \<leftarrow> remaining_loop s (tl parts); c_str s }"

section \<open>Paths and their parts\<close>

definition path_ok :: "u8 list option \<Rightarrow> bool" where
  "path_ok path \<longleftrightarrow> 0 \<notin> set (cstr_bytes path) \<and> length (cstr_bytes path) < 2 ^ 63"

abbreviation path_parts :: "u8 list option \<Rightarrow> u8 list list" where
  "path_parts path \<equiv> parts_of 0x2F (cstr_bytes path)"

definition join_path :: "u8 list list \<Rightarrow> u8 list" where
  "join_path ps = concat (map (\<lambda>p. 0x2F # p) ps)"

lemma join_path_simps [simp]: "join_path [] = []" "join_path (p # ps) = 0x2F # p @ join_path ps"
  by (simp_all add: join_path_def)

lemma parts_of_props:
  "(\<forall>p \<in> set (parts_of ch xs). p \<noteq> [] \<and> ch \<notin> set p \<and> set p \<subseteq> set xs) \<and>
   sum_list (map (\<lambda>p. Suc (length p)) (parts_of ch xs)) \<le> Suc (length xs)"
proof (induction "length xs" arbitrary: xs rule: less_induct)
  case less
  show ?case
  proof (cases xs)
    case (Cons x r)
    show ?thesis
    proof (cases "x = ch")
      case True
      then show ?thesis using less [of r] Cons by auto
    next
      case False
      let ?t = "takeWhile (\<lambda>x. x \<noteq> ch) xs" and ?d = "dropWhile (\<lambda>x. x \<noteq> ch) xs"
      have e: "parts_of ch xs = ?t # parts_of ch ?d" using Cons False by (intro parts_of_part) simp_all
      have t: "?t \<noteq> []" "ch \<notin> set ?t" "set ?t \<subseteq> set xs" "set ?d \<subseteq> set xs"
        using Cons False by (auto dest: set_takeWhileD set_dropWhileD)
      have l: "length ?t + length ?d = length xs" by (metis length_append takeWhile_dropWhile_id)
      show ?thesis
      proof (cases ?d)
        case Nil
        then show ?thesis unfolding e Nil using t l by simp
      next
        case (Cons y r')
        then have y: "y = ch" by (metis (mono_tags) hd_dropWhile list.discI list.sel(1))
        have "length r' < length xs" using l Cons by simp
        from less [OF this] have r': "(\<forall>p \<in> set (parts_of ch r'). p \<noteq> [] \<and> ch \<notin> set p \<and> set p \<subseteq> set r')"
          "sum_list (map (\<lambda>p. Suc (length p)) (parts_of ch r')) \<le> Suc (length r')" by auto
        have d: "parts_of ch ?d = parts_of ch r'" using Cons y by simp
        have "set r' \<subseteq> set xs" using t(4) Cons by auto
        with r' t l Cons show ?thesis unfolding e d by auto
      qed
    qed
  qed simp
qed

lemma parts_of_join:
  "\<forall>p \<in> set ps. p \<noteq> [] \<and> ch \<notin> set p \<Longrightarrow> parts_of ch (concat (map (\<lambda>p. ch # p) ps)) = ps"
proof (induction ps)
  case (Cons p ps)
  let ?r = "concat (map (\<lambda>p. ch # p) ps)"
  have p: "p \<noteq> []" "ch \<notin> set p" using Cons.prems by auto
  have hd: "hd (p @ ?r) \<noteq> ch" using p by (cases p) auto
  have "takeWhile (\<lambda>x. x \<noteq> ch) (p @ ?r) = p @ takeWhile (\<lambda>x. x \<noteq> ch) ?r"
    "dropWhile (\<lambda>x. x \<noteq> ch) (p @ ?r) = dropWhile (\<lambda>x. x \<noteq> ch) ?r"
    using p by (metis (mono_tags, lifting) takeWhile_append2, metis (mono_tags, lifting) dropWhile_append2)
  moreover have "takeWhile (\<lambda>x. x \<noteq> ch) ?r = []" "dropWhile (\<lambda>x. x \<noteq> ch) ?r = ?r" by (cases ps; simp)+
  ultimately show ?case using parts_of_part [of "p @ ?r" ch] p hd Cons by simp
qed simp

lemma parts_of_join_path:
  "\<forall>p \<in> set ps. p \<noteq> [] \<and> 0x2F \<notin> set p \<Longrightarrow> parts_of 0x2F (join_path ps) = ps"
  unfolding join_path_def by (rule parts_of_join)

lemma split_path_parts:
  assumes "path_ok path"
  obtains ps where "split_path path = Some ps" "list_all2 is_str ps (path_parts path)"
proof -
  obtain s where s: "assign_cstr path = Some s" "is_str s (cstr_bytes path)"
    using assms assign_cstr_str [of path] by (auto simp: path_ok_def)
  have "ss_str s = Some (cstr_bytes path @ [0])"
    using s(1) by (auto simp: assign_cstr_def wr_bytes_def drop_zeros Let_def)
  with split_loop_parts [OF s(2) this, of 0 "0x2F" "[]"] s that show thesis
    by (auto simp: split_path_def str_split_def)
qed

lemma is_str_Some: "is_str s cs \<Longrightarrow> cs \<noteq> [] \<Longrightarrow> ss_str s = Some (cs @ [0])"
  by (auto simp: is_str_def)

lemma remaining_loop_join:
  "is_str s a \<Longrightarrow> list_all2 is_str ps qs \<Longrightarrow> length a + length (join_path qs) < 2 ^ 63 \<Longrightarrow>
   \<exists>r. remaining_loop s ps = Some r \<and> is_str r (a @ join_path qs)"
proof (induction ps arbitrary: qs s a)
  case (Cons p ps)
  then obtain q qs' where qs: "qs = q # qs'" "is_str p q" "list_all2 is_str ps qs'" by (auto simp: list_all2_Cons1)
  obtain s1 where s1: "append_cstr s (Some [0x2F]) = Some s1" "is_str s1 (a @ [0x2F])"
    using append_cstr_str [OF Cons.prems(1), of "Some [0x2F]"] Cons.prems(3) qs by (auto simp: cstr_bytes_def)
  obtain s2 where s2: "append_string s1 p = Some s2" "is_str s2 ((a @ [0x2F]) @ q)"
    using append_string_str [OF s1(2) qs(2)] Cons.prems(3) qs by auto
  from Cons.IH [OF s2(2) qs(3)] Cons.prems(3) qs s1 s2 show ?case by simp
qed auto

lemma length_join_path: "length (join_path ps) = sum_list (map (\<lambda>p. Suc (length p)) ps)"
  by (induction ps) auto

text \<open>The rest of a path is a shorter path whose parts are the remaining ones.\<close>

lemma remaining_path_parts:
  assumes "path_ok path" "list_all2 is_str ps (path_parts path)" "ps \<noteq> []"
  obtains rest where "remaining_path ps = Some rest" "path_ok rest" "path_parts rest = tl (path_parts path)"
    "cstr_bytes rest = join_path (tl (path_parts path))" "length (cstr_bytes rest) < length (cstr_bytes path)"
proof -
  let ?qs = "path_parts path"
  have props: "\<forall>p \<in> set ?qs. p \<noteq> [] \<and> 0x2F \<notin> set p \<and> set p \<subseteq> set (cstr_bytes path)"
    and len: "sum_list (map (\<lambda>p. Suc (length p)) ?qs) \<le> Suc (length (cstr_bytes path))"
    using parts_of_props [of "0x2F" "cstr_bytes path"] by auto
  obtain q qs' where qs: "?qs = q # qs'" using assms(2,3) by (cases ps) (auto simp: list_all2_Cons1)
  have tl: "list_all2 is_str (tl ps) qs'" using assms(2,3) qs by (cases ps) auto
  have shorter: "length (join_path qs') < length (cstr_bytes path)"
    using len props unfolding qs length_join_path by (cases q) auto
  obtain s where s: "assign_cstr (Some []) = Some s" "is_str s []"
    using assign_cstr_str [of "Some []"] by (auto simp: cstr_bytes_def)
  obtain r where r: "remaining_loop s (tl ps) = Some r" "is_str r (join_path qs')"
    using remaining_loop_join [OF s(2) tl] shorter assms(1) by (auto simp: path_ok_def)
  obtain p where p: "c_str r = Some p" "cstr_bytes p = join_path qs'" using is_str_c_str [OF r(2)] by auto
  have "parts_of 0x2F (join_path qs') = qs'" using props qs by (intro parts_of_join_path) auto
  then show thesis using that [of p] s r p shorter assms(1) r(2)
    by (auto simp: remaining_path_def qs path_ok_def is_str_def)
qed

lemma is_root_path_iff: "path_ok path \<Longrightarrow> is_root_path path \<longleftrightarrow> cstr_bytes path \<in> {[], [0x2F]}"
  using streq_eq [of "cstr_bytes path" "[0x2F]"]
  by (cases path) (auto simp: is_root_path_def path_ok_def cstr_bytes_def)

lemma is_root_path_parts: "path_ok path \<Longrightarrow> is_root_path path \<Longrightarrow> path_parts path = []"
  by (auto simp: is_root_path_iff)

end
