(* ===== verification/Iso9660.thy ===== *)
theory Iso9660
  imports File_Path Block_Device Common
begin

text \<open>
  The ISO 9660 file system: \<open>src/kernel/src/filesystems/iso9660.cpp\<close>.
  Directory data is the list of bytes read from the disk, a record is its offset there, and a read past
  the data is \<open>None\<close>.  The answers of the checked allocations are arguments; the buffer of
  \<open>iso9660_read_from_disk\<close> is used unchecked and taken to exist.
  The recursion of \<open>iso9660_find_node\<close> is bounded by fuel: the remaining path is shorter, so one unit
  per byte of the path and one for the root is enough (\<open>find_node_resolves\<close>).
\<close>

section \<open>Names\<close>

text \<open>The loop of \<open>fmt_name\<close>; \<open>n\<close> bytes of the identifier at \<open>p\<close> are left.\<close>

fun fmt_name_loop :: "u8 list \<Rightarrow> nat \<Rightarrow> nat \<Rightarrow> nat \<Rightarrow> u8 list \<Rightarrow> u8 list option" where
  "fmt_name_loop data p i 0 buffer = Some buffer"
| "fmt_name_loop data p i (Suc n) buffer =
     do { c \<leftarrow> rd8 data (p + i);
          if c = 0x3B then Some buffer
          else do { b \<leftarrow> wr8 buffer i c; fmt_name_loop data p (Suc i) n b } }"

definition fmt_name :: "u8 list \<Rightarrow> nat \<Rightarrow> u8 \<Rightarrow> u8 list \<Rightarrow> u8 list option" where
  "fmt_name data p len buffer =
     (if len = 1
      then do { c \<leftarrow> rd8 data p;
                if c = 0 then wr8 buffer 0 0x2E
                else if c = 1 then do { b \<leftarrow> wr8 buffer 0 0x2E; wr8 b 1 0x2E }
                else fmt_name_loop data p 0 (unat len) buffer }
      else fmt_name_loop data p 0 (unat len) buffer)"

text \<open>The loop over the system use entries of a record; the inner \<open>None\<close> is a loop that ends without a name.\<close>

definition nm_entry :: "u8 list \<Rightarrow> nat \<Rightarrow> nat \<Rightarrow> u8 list \<Rightarrow> nat \<Rightarrow> u8 list option" where
  "nm_entry data ptr len out out_size = do {
     let data_len = len - 4;
     (name_ptr, data_len) \<leftarrow>
       (if data_len > 0 then do { flags \<leftarrow> rd8 data (ptr + 4); Some (ptr + 5, data_len - 1) }
        else Some (ptr + 4, data_len));
     let data_len = (if data_len \<ge> out_size then out_size - 1 else data_len);
     bs \<leftarrow> rd_bytes data name_ptr data_len;
     out \<leftarrow> wr_bytes out 0 bs;
     wr8 out data_len 0 }"

function susp_loop :: "u8 list \<Rightarrow> nat \<Rightarrow> u8 list \<Rightarrow> nat \<Rightarrow> nat \<Rightarrow> u8 list option option" where
  "susp_loop data end out out_size ptr =
     (if ptr + 4 \<le> end
      then do {
        len \<leftarrow> rd8 data (ptr + 2);
        if len < 4 \<or> ptr + unat len > end then Some None
        else do {
          sig \<leftarrow> rd_bytes data ptr 2;
          nm \<leftarrow> memeq sig (b8 ''NM'') 2;
          if nm then do { b \<leftarrow> nm_entry data ptr (unat len) out out_size; Some (Some b) }
          else susp_loop data end out out_size (ptr + unat len) } }
      else Some None)"
  by pat_completeness auto
termination
  by (relation "measure (\<lambda>(data, end, out, out_size, ptr). end - ptr)") (auto simp: word_less_nat_alt)

declare susp_loop.simps [simp del]

text \<open>\<open>system_use_len\<close> is unsigned and may wrap, but the pointer \<open>end\<close> computed from it is the end of the record.\<close>

definition get_name :: "u8 list \<Rightarrow> nat \<Rightarrow> u8 list \<Rightarrow> nat \<Rightarrow> u8 list option" where
  "get_name data record out out_size = do {
     name_len \<leftarrow> rd8 data (record + 32);
     let system_use = record + 33 + unat name_len + (if unat name_len mod 2 = 0 then 1 else 0);
     len \<leftarrow> rd8 data record;
     r \<leftarrow> susp_loop data (record + unat len) out out_size system_use;
     (case r of Some b \<Rightarrow> Some b | None \<Rightarrow> fmt_name data (record + 33) name_len out) }"

section \<open>Mounting\<close>

record iso9660_node =
  in_lba :: u64
  in_size :: u64
  in_is_directory :: bool
  in_name :: "u8 list"

definition iso9660_node_zero :: iso9660_node where
  "iso9660_node_zero = \<lparr>in_lba = 0, in_size = 0, in_is_directory = False, in_name = replicate 256 0\<rparr>"

record iso9660_fsdata =
  iso_device :: block_device
  iso_volume_size :: u64
  iso_root_node :: iso9660_node
  iso_pvd :: "u8 list"

definition iso9660_validate :: "u8 list \<Rightarrow> u64 \<Rightarrow> bool option" where
  "iso9660_validate buffer sz =
     (if sz < 2048 then Some False
      else do { typ \<leftarrow> rd8 buffer 0;
                if typ \<noteq> 1 then Some False else memeq (drop 1 buffer) (b8 ''CD001'') 5 })"

definition iso9660_init :: "bool \<Rightarrow> block_device \<Rightarrow> iso9660_fsdata \<Rightarrow> (bool \<times> iso9660_fsdata) option" where
  "iso9660_init mem device fs_data =
     (if \<not> mem then Some (False, fs_data)
      else case block_device_read device 16 (bd_block_size device) of
        None \<Rightarrow> Some (False, fs_data)
      | Some d \<Rightarrow> do {
          buffer \<leftarrow> wr_bytes (replicate (unat (bd_block_size device)) 0) 0 d;
          valid \<leftarrow> iso9660_validate buffer (bd_block_size device);
          if \<not> valid then Some (False, fs_data)
          else do {
            pvd \<leftarrow> rd_bytes buffer 0 2048;
            volume_space_size \<leftarrow> rd32 buffer 80;
            extent_lba \<leftarrow> rd32 buffer (156 + 2);
            data_length \<leftarrow> rd32 buffer (156 + 10);
            Some (True, fs_data\<lparr>iso_pvd := pvd, iso_device := device,
              iso_volume_size := ucast volume_space_size * bd_block_size device,
              iso_root_node := (iso_root_node fs_data)\<lparr>in_is_directory := True,
                in_lba := ucast extent_lba, in_size := ucast data_length\<rparr>\<rparr>) } })"

section \<open>Finding a node\<close>

text \<open>The answer is the error flag with the data; what is in the buffer before the reads does not matter.\<close>

definition iso9660_read_from_disk :: "block_device \<Rightarrow> u64 \<Rightarrow> u64 \<Rightarrow> (bool \<times> u8 list) option" where
  "iso9660_read_from_disk device sz lba =
     (if bd_block_size device = 0 then None
      else let lba_count = (sz + bd_block_size device - 1) div bd_block_size device
           in do { (ok, d) \<leftarrow> read_blocks device lba 0 (unat lba_count)
                      (replicate (unat (lba_count * bd_block_size device)) 0);
                   Some (\<not> ok, d) })"

text \<open>\<open>record->name_len == 1 && (record->name[0] == 0 || record->name[0] == 1)\<close>\<close>

definition is_dot_record :: "u8 list \<Rightarrow> nat \<Rightarrow> bool option" where
  "is_dot_record data record = do {
     name_len \<leftarrow> rd8 data (record + 32);
     if name_len = 1 then do { c \<leftarrow> rd8 data (record + 33); Some (c = 0 \<or> c = 1) } else Some False }"

text \<open>
  The loop over the records of a directory, up to the record with the target's name (its offset and name)
  or to the end (the inner \<open>None\<close>).  Sizes come from 32-bit fields, so offsets do not wrap.  The block size is
  not 0 here: the division before the loop would have failed.
\<close>

lemma record_step: "(len :: u8) \<noteq> 0 \<Longrightarrow> offset < sz \<Longrightarrow> sz - (offset + unat len) < sz - offset"
  by (metis add_diff_cancel_left' diff_diff_left diff_less unat_gt_0 zero_less_diff)

lemma padding_step: "0 < bs \<Longrightarrow> (offset::nat) < (offset div bs + 1) * bs"
  by (metis Suc_eq_plus1 dividend_less_times_div mult.commute mult_Suc_right add.commute)

function iso_scan :: "u8 list \<Rightarrow> nat \<Rightarrow> nat \<Rightarrow> u8 list \<Rightarrow> nat \<Rightarrow> (nat \<times> u8 list) option option" where
  "iso_scan data sz block_size target offset =
     (if offset < sz \<and> block_size > 0
      then do {
        len \<leftarrow> rd8 data offset;
        if len = 0 then iso_scan data sz block_size target ((offset div block_size + 1) * block_size)
        else if unat len + offset > sz then Some None
        else do {
          name \<leftarrow> get_name data offset (replicate 256 0) 256;
          dot \<leftarrow> is_dot_record data offset;
          if dot then iso_scan data sz block_size target (offset + unat len)
          else if streq target name then Some (Some (offset, name))
          else iso_scan data sz block_size target (offset + unat len) } }
      else Some None)"
  by pat_completeness auto
termination
proof (relation "measure (\<lambda>(data, sz, block_size, target, offset). sz - offset)", goal_cases)
  case (2 data sz block_size target offset len)
  then show ?case using padding_step [of block_size offset] by auto
qed (auto intro: record_step)

declare iso_scan.simps [simp del]

fun iso9660_find_node :: "nat \<Rightarrow> iso9660_fsdata \<Rightarrow> u8 list option \<Rightarrow> u64 \<Rightarrow> u64 \<Rightarrow> iso9660_node \<Rightarrow>
    (bool \<times> iso9660_node) option" where
  "iso9660_find_node 0 fs_data path sz lba out_node = None"
| "iso9660_find_node (Suc fuel) fs_data path sz lba out_node =
     (if is_root_path path
      then Some (True, out_node\<lparr>in_lba := lba, in_size := sz, in_is_directory := True,
             in_name := (in_name out_node)[0 := 0x2F, 1 := 0]\<rparr>)
      else do {
        path_parts \<leftarrow> split_path path;
        if path_parts = [] then Some (False, out_node)
        else do {
          target \<leftarrow> c_str (hd path_parts);
          (error, data) \<leftarrow> iso9660_read_from_disk (iso_device fs_data) sz lba;
          if error then Some (False, out_node)
          else do {
            hit \<leftarrow> iso_scan data (unat sz) (unat (bd_block_size (iso_device fs_data))) (cstr_bytes target) 0;
            (case hit of
               None \<Rightarrow> Some (False, out_node)
             | Some (record, name) \<Rightarrow> do {
                 file_flags \<leftarrow> rd8 data (record + 25);
                 let is_directory = (file_flags AND 2 \<noteq> 0);
                 if \<not> is_directory \<and> length path_parts = 1
                 then do {
                   extent_lba \<leftarrow> rd32 data (record + 2);
                   data_length \<leftarrow> rd32 data (record + 10);
                   Some (True, out_node\<lparr>in_lba := ucast extent_lba, in_size := ucast data_length,
                     in_is_directory := False, in_name := name\<rparr>) }
                 else if is_directory
                 then do {
                   remaining \<leftarrow> remaining_path path_parts;
                   data_length \<leftarrow> rd32 data (record + 10);
                   extent_lba \<leftarrow> rd32 data (record + 2);
                   iso9660_find_node fuel fs_data remaining (ucast data_length) (ucast extent_lba) out_node }
                 else Some (False, out_node) }) } } })"

definition find_fuel :: "u8 list option \<Rightarrow> nat" where
  "find_fuel path = Suc (length (cstr_bytes path))"

definition iso9660_find_root :: "iso9660_fsdata \<Rightarrow> u8 list option \<Rightarrow> (bool \<times> iso9660_node) option" where
  "iso9660_find_root fs_data path =
     iso9660_find_node (find_fuel path) fs_data path
       (in_size (iso_root_node fs_data)) (in_lba (iso_root_node fs_data)) iso9660_node_zero"

section \<open>Operations\<close>

definition iso9660_directory_exists :: "iso9660_fsdata \<Rightarrow> u8 list option \<Rightarrow> bool option" where
  "iso9660_directory_exists fs_data path =
     do { (found, node) \<leftarrow> iso9660_find_root fs_data path; Some (found \<and> in_is_directory node) }"

definition iso9660_file_exists :: "iso9660_fsdata \<Rightarrow> u8 list option \<Rightarrow> bool option" where
  "iso9660_file_exists fs_data path =
     do { (found, node) \<leftarrow> iso9660_find_root fs_data path; Some (found \<and> \<not> in_is_directory node) }"

text \<open>
  \<open>iso9660_read\<close>: the answer with \<open>*out_data\<close> and \<open>*out_size\<close>.  \<open>mem1\<close> and \<open>mem2\<close> are the answers of the two
  allocations.
\<close>

definition iso9660_read :: "bool \<Rightarrow> bool \<Rightarrow> iso9660_fsdata \<Rightarrow> u8 list option \<Rightarrow> u8 list option \<times> u64 \<Rightarrow>
    (bool \<times> u8 list option \<times> u64) option" where
  "iso9660_read mem1 mem2 fs_data path out = do {
     (found, node) \<leftarrow> iso9660_find_root fs_data path;
     if \<not> found then Some (False, out)
     else if in_is_directory node then Some (False, out)
     else do {
       let aligned_size = align_up (in_size node) (bd_block_size (iso_device fs_data));
       if \<not> mem1 then Some (False, out)
       else do {
         (ok, file_buffer) \<leftarrow> block_device_read_sized (iso_device fs_data) (in_lba node)
            (replicate (unat aligned_size) 0) aligned_size;
         if \<not> ok then Some (False, out)
         else if \<not> mem2 then Some (False, None, 0)
         else do { d \<leftarrow> rd_bytes file_buffer 0 (unat (in_size node)); Some (True, Some d, in_size node) } } } }"

function iso_list_loop :: "u8 list \<Rightarrow> nat \<Rightarrow> nat \<Rightarrow> nat \<Rightarrow> iso9660_node list \<Rightarrow> iso9660_node list option" where
  "iso_list_loop data sz block_size offset out_nodes =
     (if offset < sz \<and> block_size > 0
      then do {
        len \<leftarrow> rd8 data offset;
        if len = 0 then iso_list_loop data sz block_size ((offset div block_size + 1) * block_size) out_nodes
        else if unat len + offset > sz then Some out_nodes
        else do {
          name \<leftarrow> get_name data offset (replicate 256 0) 256;
          dot \<leftarrow> is_dot_record data offset;
          if dot then iso_list_loop data sz block_size (offset + unat len) out_nodes
          else do {
            extent_lba \<leftarrow> rd32 data (offset + 2);
            data_length \<leftarrow> rd32 data (offset + 10);
            file_flags \<leftarrow> rd8 data (offset + 25);
            iso_list_loop data sz block_size (offset + unat len) (out_nodes @
              [\<lparr>in_lba = ucast extent_lba, in_size = ucast data_length, in_is_directory = (file_flags AND 2 \<noteq> 0),
                in_name = take 255 name @ [0]\<rparr>]) } } }
      else Some out_nodes)"
  by pat_completeness auto
termination
proof (relation "measure (\<lambda>(data, sz, block_size, offset, out_nodes). sz - offset)", goal_cases)
  case (2 data sz block_size offset out_nodes len)
  then show ?case using padding_step [of block_size offset] by auto
qed (auto intro: record_step)

declare iso_list_loop.simps [simp del]

definition iso9660_list_directory :: "iso9660_fsdata \<Rightarrow> u8 list option \<Rightarrow> iso9660_node list \<Rightarrow>
    (bool \<times> iso9660_node list) option" where
  "iso9660_list_directory fs_data path out_nodes =
     (if path = None then Some (False, out_nodes)
      else do {
        (found, node) \<leftarrow> iso9660_find_root fs_data path;
        if \<not> found then Some (False, out_nodes)
        else if \<not> in_is_directory node then Some (False, out_nodes)
        else do {
          (error, data) \<leftarrow> iso9660_read_from_disk (iso_device fs_data) (in_size node) (in_lba node);
          if error then Some (False, out_nodes)
          else do {
            nodes \<leftarrow> iso_list_loop data (unat (in_size node)) (unat (bd_block_size (iso_device fs_data))) 0 out_nodes;
            Some (True, nodes) } } })"

end
