(* ===== verification/Iso9660_Tree.thy ===== *)
theory Iso9660_Tree
  imports Iso9660
begin

text \<open>
  The ISO 9660 driver against the disk format: an image that holds a directory tree, written as the standard
  lays it out (records with an identifier and system use entries, padded so that none crosses a block), and
  the proof that the driver finds exactly the files and directories of that tree.
\<close>

section \<open>Directory records on the disk\<close>

record iso_record =
  ir_flags :: u8
  ir_lba :: u32
  ir_size :: u32
  ir_ident :: "u8 list"
  ir_susp :: "(u8 list \<times> u8 list) list"

definition susp_bytes :: "u8 list \<times> u8 list \<Rightarrow> u8 list" where
  "susp_bytes e = fst e @ [of_nat (4 + length (snd e)), 1] @ snd e"

definition susp_area :: "(u8 list \<times> u8 list) list \<Rightarrow> u8 list" where
  "susp_area sus = concat (map susp_bytes sus)"

definition ident_pad :: "u8 list \<Rightarrow> u8 list" where
  "ident_pad ident = (if length ident mod 2 = 0 then [0] else [])"

definition record_tail :: "iso_record \<Rightarrow> u8 list" where
  "record_tail r = ir_ident r @ ident_pad (ir_ident r) @ susp_area (ir_susp r)"

definition record_bytes :: "iso_record \<Rightarrow> u8 list" where
  "record_bytes r =
     [of_nat (33 + length (record_tail r)), 0] @ le32 (ir_lba r) @ rev (le32 (ir_lba r)) @
     le32 (ir_size r) @ rev (le32 (ir_size r)) @ replicate 7 0 @ [ir_flags r, 0, 0, 1, 0, 0, 1] @
     [of_nat (length (ir_ident r))] @ record_tail r"

text \<open>The name: the text of the first \<open>NM\<close> entry after its flags, or the identifier before its version.\<close>

fun nm_name :: "(u8 list \<times> u8 list) list \<Rightarrow> u8 list option" where
  "nm_name [] = None"
| "nm_name (e # sus) = (if fst e = b8 ''NM'' then Some (tl (snd e)) else nm_name sus)"

definition record_name :: "iso_record \<Rightarrow> u8 list" where
  "record_name r = (case nm_name (ir_susp r) of Some n \<Rightarrow> n | None \<Rightarrow> takeWhile (\<lambda>c. c \<noteq> 0x3B) (ir_ident r))"

definition record_fits :: "iso_record \<Rightarrow> bool" where
  "record_fits r \<longleftrightarrow> 33 + length (record_tail r) \<le> 255 \<and> (\<forall>e \<in> set (ir_susp r). length (fst e) = 2)"

definition record_ok :: "iso_record \<Rightarrow> bool" where
  "record_ok r \<longleftrightarrow> record_fits r \<and> ir_ident r \<notin> {[0], [1]} \<and>
     record_name r \<noteq> [] \<and> 0 \<notin> set (record_name r)"

definition dot_record :: "u8 \<Rightarrow> iso_record \<Rightarrow> iso_record" where
  "dot_record b r = \<lparr>ir_flags = 2, ir_lba = ir_lba r, ir_size = ir_size r, ir_ident = [b], ir_susp = []\<rparr>"

definition name_buffer :: "u8 list \<Rightarrow> u8 list" where
  "name_buffer n = n @ replicate (256 - length n) 0"

lemma unat_u8_small: "n < 256 \<Longrightarrow> unat (of_nat n :: u8) = n"
  by (simp add: unsigned_of_nat take_bit_nat_eq_self)

lemma length_record_bytes: "length (record_bytes r) = 33 + length (record_tail r)"
  by (simp add: record_bytes_def)

lemma rd32_le32_at: "rd32 (pre @ le32 x @ post) (length pre) = Some x"
  by (rule rd32_le32 [of _ _ _ post]) simp

lemma record_fields:
  assumes "holds data off (record_bytes r)" "record_fits r"
  shows "rd8 data off = Some (of_nat (length (record_bytes r)))"
    "rd8 data (off + 32) = Some (of_nat (length (ir_ident r)))"
    "rd8 data (off + 25) = Some (ir_flags r)"
    "rd32 data (off + 2) = Some (ir_lba r)" "rd32 data (off + 10) = Some (ir_size r)"
    "holds data (off + 33) (record_tail r)"
    "unat (of_nat (length (record_bytes r)) :: u8) = length (record_bytes r)"
    "unat (of_nat (length (ir_ident r)) :: u8) = length (ir_ident r)"
proof -
  let ?b = "record_bytes r"
  have l: "length ?b = 33 + length (record_tail r)" by (rule length_record_bytes)
  show "rd8 data off = Some (of_nat (length ?b))" using holds_rd8 [OF assms(1), of 0] l
    by (simp add: record_bytes_def)
  show "rd8 data (off + 32) = Some (of_nat (length (ir_ident r)))" using holds_rd8 [OF assms(1), of 32] l
    by (simp add: record_bytes_def le32_def numeral_eq_Suc)
  show "rd8 data (off + 25) = Some (ir_flags r)" using holds_rd8 [OF assms(1), of 25] l
    by (simp add: record_bytes_def le32_def numeral_eq_Suc)
  show "rd32 data (off + 2) = Some (ir_lba r)"
    using holds_rd32 [OF assms(1), of 2] l rd32_le32_at [of "[of_nat (33 + length (record_tail r)), 0]"]
    by (simp add: record_bytes_def numeral_2_eq_2)
  show "rd32 data (off + 10) = Some (ir_size r)"
    using holds_rd32 [OF assms(1), of 10] l
      rd32_le32_at [of "[of_nat (33 + length (record_tail r)), 0] @ le32 (ir_lba r) @ rev (le32 (ir_lba r))"]
    by (simp add: record_bytes_def)
  have "?b = take 33 ?b @ record_tail r" by (simp add: record_bytes_def le32_def numeral_eq_Suc)
  with assms(1) show "holds data (off + 33) (record_tail r)"
    using l by (metis add_diff_cancel_right' holds_append length_append)
  have "length ?b < 256" "length (ir_ident r) < 256"
    using assms(2) unfolding l by (simp_all add: record_fits_def record_tail_def)
  then show "unat (of_nat (length ?b) :: u8) = length ?b" "unat (of_nat (length (ir_ident r)) :: u8) = length (ir_ident r)"
    by (simp_all only: unat_u8_small)
qed

section \<open>The name of a record\<close>

lemma name_buffer_write:
  "length n < 256 \<Longrightarrow> wr_bytes (replicate 256 0) 0 n = Some (name_buffer n)"
  "length n < 256 \<Longrightarrow> wr8 (name_buffer n) (length n) 0 = Some (name_buffer n)"
proof -
  assume l: "length n < 256"
  then show "wr_bytes (replicate 256 0) 0 n = Some (name_buffer n)" by (simp add: wr_bytes_def name_buffer_def)
  have "256 - length n = Suc (255 - length n)" using l by simp
  then show "wr8 (name_buffer n) (length n) 0 = Some (name_buffer n)" using l
    by (simp add: wr8_def name_buffer_def list_update_append)
qed

lemma nm_entry_ok:
  assumes h: "holds data ptr (susp_bytes e)" and e: "length (fst e) = 2" "length (snd e) < 252"
  shows "nm_entry data ptr (4 + length (snd e)) (replicate 256 0) 256 = Some (name_buffer (tl (snd e)))"
proof -
  have "susp_bytes e = (fst e @ [of_nat (4 + length (snd e)), 1]) @ snd e" by (simp add: susp_bytes_def)
  with h have "holds data (ptr + length (fst e @ [of_nat (4 + length (snd e)) :: u8, 1])) (snd e)"
    by (simp only: holds_append)
  then have hb: "holds data (ptr + 4) (snd e)" using e(1) by simp
  have r: "rd_bytes data (ptr + 4 + length (take 1 (snd e))) (length (tl (snd e))) = Some (tl (snd e))"
    using holds_rd_bytes [OF hb, of "length (take 1 (snd e))" "length (tl (snd e))"]
    by (cases "snd e") (auto simp: drop_Suc)
  have w: "length (tl (snd e)) < 256" using e by simp
  show ?thesis
  proof (cases "snd e")
    case Nil
    then show ?thesis using r name_buffer_write [OF w] by (simp add: nm_entry_def)
  next
    case (Cons f n)
    have "rd8 data (ptr + 4) = Some f" using holds_rd8 [OF hb, of 0] Cons by simp
    moreover have "rd_bytes data (ptr + 5) (length n) = Some n" using r Cons by (simp add: add.commute)
    moreover have "length n < 251" using e Cons by simp
    ultimately show ?thesis using name_buffer_write [of n] Cons by (simp add: nm_entry_def)
  qed
qed

lemma susp_loop_area:
  assumes "holds data ptr (susp_area sus)" "\<forall>e \<in> set sus. length (fst e) = 2" "length (susp_area sus) < 256"
  shows "susp_loop data (ptr + length (susp_area sus)) (replicate 256 0) 256 ptr = Some (map_option name_buffer (nm_name sus))"
  using assms
proof (induction sus arbitrary: ptr)
  case Nil
  then show ?case by (subst susp_loop.simps) (simp add: susp_area_def)
next
  case (Cons e sus)
  let ?l = "4 + length (snd e)"
  have a: "susp_area (e # sus) = susp_bytes e @ susp_area sus" by (simp add: susp_area_def)
  have e: "length (fst e) = 2" "length (susp_bytes e) = ?l" "?l < 256"
    using Cons.prems by (simp_all add: susp_bytes_def a)
  have h: "holds data ptr (susp_bytes e)" "holds data (ptr + ?l) (susp_area sus)"
    using Cons.prems(1) e by (simp_all add: a holds_append)
  have u: "unat (of_nat ?l :: u8) = ?l" using e(3) by (rule unat_u8_small)
  have "susp_bytes e ! 2 = of_nat ?l" using e(1) by (simp add: susp_bytes_def nth_append)
  then have len: "rd8 data (ptr + 2) = Some (of_nat ?l)" using holds_rd8 [OF h(1), of 2] e by simp
  have nlt: "\<not> (of_nat ?l :: u8) < 4" unfolding word_less_nat_alt u by simp
  have sig: "rd_bytes data ptr 2 = Some (fst e)"
    using holds_rd_bytes [OF h(1), of 0 2] e(1,2) by (simp add: susp_bytes_def)
  obtain x y where xy: "fst e = [x, y]" using e(1) by (cases "fst e"; cases "tl (fst e)") (auto simp: numeral_eq_Suc)
  have nm: "memeq (fst e) (b8 ''NM'') 2 = Some (fst e = b8 ''NM'')" unfolding xy by (simp add: b8_def numeral_eq_Suc)
  have tot: "ptr + length (susp_area (e # sus)) = ptr + ?l + length (susp_area sus)" using e(2) by (simp add: a)
  show ?case
  proof (cases "fst e = b8 ''NM''")
    case True
    have "nm_entry data ptr (unat (of_nat ?l :: u8)) (replicate 256 0) 256 = Some (name_buffer (tl (snd e)))"
      unfolding u using nm_entry_ok [OF h(1) e(1)] e(3) by simp
    then show ?thesis using True len nlt sig nm u unfolding tot by (subst susp_loop.simps) simp
  next
    case False
    have IH: "susp_loop data (ptr + ?l + length (susp_area sus)) (replicate 256 0) 256 (ptr + ?l) =
        Some (map_option name_buffer (nm_name sus))"
      using Cons.IH [OF h(2)] Cons.prems by (simp add: a)
    have "susp_loop data (ptr + ?l + length (susp_area sus)) (replicate 256 0) 256 ptr =
        susp_loop data (ptr + ?l + length (susp_area sus)) (replicate 256 0) 256 (ptr + unat (of_nat ?l :: u8))"
      using False len nlt sig nm u by (subst susp_loop.simps) simp
    then show ?thesis using False IH unfolding tot u by simp
  qed
qed

lemma fmt_name_loop_ok:
  assumes "holds data (p + i) rest" "length acc = i" "i + length rest < 256"
  shows "fmt_name_loop data p i (length rest) (name_buffer acc) = Some (name_buffer (acc @ takeWhile (\<lambda>c. c \<noteq> 0x3B) rest))"
  using assms
proof (induction rest arbitrary: i acc)
  case (Cons c rest)
  have c: "rd8 data (p + i) = Some c" using holds_rd8 [OF Cons.prems(1), of 0] by simp
  have h: "holds data (p + Suc i) rest" using Cons.prems(1) holds_append [of data "p + i" "[c]" rest] by simp
  have "256 - length acc = Suc (255 - length acc)" using Cons.prems by simp
  then have w: "wr8 (name_buffer acc) i c = Some (name_buffer (acc @ [c]))"
    using Cons.prems by (simp add: wr8_def name_buffer_def list_update_append)
  show ?case using c w Cons.IH [OF h, of "acc @ [c]"] Cons.prems by simp
qed simp

lemma get_name_record:
  assumes h: "holds data off (record_bytes r)" and r: "record_fits r" "ir_ident r \<notin> {[0], [1]}"
  shows "get_name data off (replicate 256 0) 256 = Some (name_buffer (record_name r))"
proof -
  note f = record_fields [OF h r(1)]
  let ?i = "ir_ident r"
  have tail: "holds data (off + 33) ?i" "holds data (off + 33 + length ?i + length (ident_pad ?i)) (susp_area (ir_susp r))"
    using f(6) by (simp_all add: record_tail_def holds_append add.assoc)
  have l: "length (record_bytes r) = 33 + length ?i + length (ident_pad ?i) + length (susp_area (ir_susp r))"
    by (simp add: length_record_bytes record_tail_def)
  have small: "length ?i < 256" "length (susp_area (ir_susp r)) < 256" "\<forall>e \<in> set (ir_susp r). length (fst e) = 2"
    using r(1) by (simp_all add: record_fits_def record_tail_def)
  have s: "susp_loop data (off + length (record_bytes r)) (replicate 256 0) 256
      (off + 33 + length ?i + length (ident_pad ?i)) = Some (map_option name_buffer (nm_name (ir_susp r)))"
    using susp_loop_area [OF tail(2) small(3,2)] by (simp add: l add.assoc)
  have p: "(if length ?i mod 2 = 0 then 1 else 0) = length (ident_pad ?i)" by (simp add: ident_pad_def)
  have loop: "fmt_name_loop data (off + 33) 0 (length ?i) (replicate 256 0) = Some (name_buffer (takeWhile (\<lambda>c. c \<noteq> 0x3B) ?i))"
    using fmt_name_loop_ok [of data "off + 33" 0 ?i "[]"] tail(1) small by (simp add: name_buffer_def)
  have "fmt_name data (off + 33) (of_nat (length ?i)) (replicate 256 0) = Some (name_buffer (takeWhile (\<lambda>c. c \<noteq> 0x3B) ?i))"
  proof (cases "(of_nat (length ?i) :: u8) = 1")
    case True
    then have "length ?i = 1" using f(8) by simp
    then obtain c where c: "?i = [c]" by (cases ?i) auto
    then have "rd8 data (off + 33) = Some c" using holds_rd8 [OF tail(1), of 0] by simp
    then show ?thesis using True loop r(2) c f(8) by (simp add: fmt_name_def)
  next
    case False
    then show ?thesis using loop f(8) by (simp add: fmt_name_def)
  qed
  then show ?thesis using f s p by (simp add: get_name_def record_name_def Let_def split: option.splits)
qed

section \<open>A directory extent\<close>

text \<open>Records in order, padded with zeros so that none crosses the end of a block; \<open>off\<close> bytes precede them.\<close>

fun layout :: "nat \<Rightarrow> nat \<Rightarrow> u8 list list \<Rightarrow> u8 list" where
  "layout bs off [] = replicate ((bs - off mod bs) mod bs) 0"
| "layout bs off (r # rs) =
     (if off mod bs + length r \<le> bs then r @ layout bs (off + length r) rs
      else replicate (bs - off mod bs) 0 @ r @ layout bs (off + (bs - off mod bs) + length r) rs)"

definition dir_bytes :: "nat \<Rightarrow> iso_record list \<Rightarrow> u8 list" where
  "dir_bytes bs rs = layout bs 0 (map record_bytes rs)"

lemma next_block: "0 < bs \<Longrightarrow> ((off :: nat) div bs + 1) * bs = off + (bs - off mod bs)"
  using div_mult_mod_eq [of off bs] mod_less_divisor [of bs off] unfolding add_mult_distrib mult_1 by linarith

lemma layout_length: "0 < bs \<Longrightarrow> (off + length (layout bs off rs)) mod bs = 0"
proof (induction bs off rs rule: layout.induct)
  case (1 bs off)
  show ?case
  proof (cases "off mod bs = 0")
    case False
    then have "(bs - off mod bs) mod bs = bs - off mod bs" using 1 by (simp add: mod_less)
    moreover have "(off + (bs - off mod bs)) mod bs = 0" using next_block [OF 1, of off] by (metis mod_mult_self2_is_0)
    ultimately show ?thesis by simp
  qed (use 1 in simp)
next
  case (2 bs off r rs)
  then show ?case
    by (cases "off mod bs + length r \<le> bs") (simp_all only: layout.simps if_True if_False length_append length_replicate add.assoc simp_thms)
qed

lemma holds_zero: "holds data off (replicate n 0 @ xs) \<Longrightarrow> 0 < n \<Longrightarrow> rd8 data off = Some 0"
  using holds_rd8 [of data off "replicate n 0 @ xs" 0] by (simp add: nth_append)

lemma streq_padded: "0 \<notin> set cs \<Longrightarrow> 0 \<notin> set n \<Longrightarrow> streq cs (n @ replicate (Suc k) 0) \<longleftrightarrow> cs = n"
proof (induction cs arbitrary: n)
  case Nil
  then show ?case by (cases n) auto
next
  case (Cons c cs)
  then show ?case by (cases n) auto
qed

lemma streq_name_buffer:
  "0 \<notin> set cs \<Longrightarrow> 0 \<notin> set n \<Longrightarrow> length n < 256 \<Longrightarrow> streq cs (name_buffer n) \<longleftrightarrow> cs = n"
proof -
  assume a: "0 \<notin> set cs" "0 \<notin> set n" "length n < 256"
  then have "256 - length n = Suc (255 - length n)" by simp
  then show ?thesis using streq_padded [OF a(1,2)] by (simp only: name_buffer_def)
qed

lemma record_name_length: "record_fits r \<Longrightarrow> length (record_name r) < 256"
proof -
  assume r: "record_fits r"
  have "nm_name sus = Some n \<Longrightarrow> length n \<le> length (susp_area sus)" for sus n
    by (induction sus) (auto simp: susp_area_def susp_bytes_def split: if_splits)
  from this [of "ir_susp r"] r length_takeWhile_le [of "\<lambda>c. c \<noteq> 0x3B" "ir_ident r"] show ?thesis
    by (fastforce simp: record_name_def record_fits_def record_tail_def split: option.splits)
qed

lemma is_dot_record_eq:
  assumes h: "holds data off (record_bytes r)" and r: "record_fits r"
  shows "is_dot_record data off = Some (ir_ident r \<in> {[0], [1]})"
proof -
  note f = record_fields [OF h r]
  have t: "holds data (off + 33) (ir_ident r)" using f(6) by (simp add: record_tail_def holds_append)
  show ?thesis
  proof (cases "(of_nat (length (ir_ident r)) :: u8) = 1")
    case True
    then have "length (ir_ident r) = 1" using f(8) by simp
    then obtain c where c: "ir_ident r = [c]" by (cases "ir_ident r") auto
    then have "rd8 data (off + 33) = Some c" using holds_rd8 [OF t, of 0] by simp
    then show ?thesis using f(2) c by (simp add: is_dot_record_def)
  next
    case False
    then have "length (ir_ident r) \<noteq> 1" by auto
    then show ?thesis using f(2) False by (auto simp: is_dot_record_def)
  qed
qed

text \<open>The records that the loops skip, and the others they can name.\<close>

definition entry_ok :: "iso_record \<Rightarrow> bool" where
  "entry_ok r \<longleftrightarrow> record_fits r \<and> (ir_ident r \<in> {[0], [1]} \<and> ir_susp r = [] \<or> record_ok r)"

lemma get_name_entry:
  assumes h: "holds data off (record_bytes r)" and r: "entry_ok r"
  shows "\<exists>n. get_name data off (replicate 256 0) 256 = Some n \<and>
    (ir_ident r \<notin> {[0], [1]} \<longrightarrow> n = name_buffer (record_name r))"
proof (cases "ir_ident r \<in> {[0], [1]}")
  case False
  then show ?thesis using get_name_record [OF h] r by (auto simp: entry_ok_def record_ok_def)
next
  case True
  then have su: "ir_susp r = []" and fits: "record_fits r" using r by (auto simp: entry_ok_def record_ok_def)
  note f = record_fields [OF h fits]
  have l: "length (ir_ident r) = 1" "length (record_bytes r) = 34"
    using True su by (auto simp: length_record_bytes record_tail_def ident_pad_def susp_area_def)
  have "holds data (off + 33) (ir_ident r)" using f(6) by (simp add: record_tail_def holds_append)
  then have "rd8 data (off + 33) = Some (hd (ir_ident r))" using holds_rd8 [of data "off + 33" "ir_ident r" 0] True by auto
  then obtain n where n: "get_name data off (replicate 256 0) 256 = Some n"
    using f l True by (auto simp: get_name_def fmt_name_def susp_loop.simps wr8_def)
  with True show ?thesis by blast
qed

lemma scan_record:
  assumes h: "holds data off (record_bytes r)" and r: "entry_ok r"
    and sz: "off + length (record_bytes r) \<le> sz" "0 < bs"
  shows "iso_scan data sz bs cs off =
    (if ir_ident r \<in> {[0], [1]} \<or> \<not> streq cs (name_buffer (record_name r))
     then iso_scan data sz bs cs (off + length (record_bytes r))
     else Some (Some (off, name_buffer (record_name r))))"
proof -
  have fits: "record_fits r" using r by (simp add: entry_ok_def)
  note f = record_fields [OF h fits]
  obtain n where n: "get_name data off (replicate 256 0) 256 = Some n"
    "ir_ident r \<notin> {[0], [1]} \<longrightarrow> n = name_buffer (record_name r)" using get_name_entry [OF h r] by blast
  have "off < sz" "(of_nat (length (record_bytes r)) :: u8) \<noteq> 0" "\<not> sz < length (record_bytes r) + off"
    using sz(1) f(7) length_record_bytes [of r] by auto
  then show ?thesis using f n sz is_dot_record_eq [OF h fits] by (subst iso_scan.simps) auto
qed

lemma scan_padding:
  "rd8 data off = Some 0 \<Longrightarrow> off < sz \<Longrightarrow> 0 < bs \<Longrightarrow> iso_scan data sz bs cs off = iso_scan data sz bs cs (off + (bs - off mod bs))"
  by (subst iso_scan.simps) (simp only: next_block, simp)

definition named :: "iso_record \<Rightarrow> bool" where
  "named r \<longleftrightarrow> ir_ident r \<notin> {[0], [1]}"

lemma record_bytes_fit: "entry_ok r \<Longrightarrow> length (record_bytes r) \<le> 255"
  by (simp add: entry_ok_def record_fits_def length_record_bytes)

text \<open>At the end of a layout a loop is at the end of the data or in its last padding; at a record it is there or
  in the padding before it.\<close>

lemma layout_end:
  assumes "holds data off (layout bs off [])" "off + length (layout bs off []) = sz" "0 < bs"
  shows "off = sz \<or> rd8 data off = Some 0 \<and> off < sz \<and> off + (bs - off mod bs) = sz"
proof (cases "off mod bs = 0")
  case True
  then show ?thesis using assms(2) by simp
next
  case False
  then have p: "(bs - off mod bs) mod bs = bs - off mod bs" "0 < bs - off mod bs" using assms(3) by (simp_all add: mod_less)
  moreover have "rd8 data off = Some 0" using assms(1) p holds_zero [of data off "bs - off mod bs" "[]"] by simp
  moreover have "off < sz" using assms(2) p by simp
  ultimately show ?thesis using assms(2) by simp
qed

lemma layout_record:
  assumes "holds data off (layout bs off (x # xs))" "off + length (layout bs off (x # xs)) = sz" "0 < bs"
  obtains p where "p = off \<or> rd8 data off = Some 0 \<and> off < sz \<and> p = off + (bs - off mod bs)"
    "holds data p x" "p + length x \<le> sz"
    "holds data (p + length x) (layout bs (p + length x) xs)" "p + length x + length (layout bs (p + length x) xs) = sz"
proof (cases "off mod bs + length x \<le> bs")
  case True
  then show thesis using that [of off] assms by (simp add: holds_append add.assoc)
next
  case False
  let ?p = "off + (bs - off mod bs)"
  have p: "0 < bs - off mod bs" using assms(3) by simp
  have lay: "layout bs off (x # xs) = replicate (bs - off mod bs) 0 @ x @ layout bs (?p + length x) xs" using False by simp
  have h: "holds data ?p x" "holds data (?p + length x) (layout bs (?p + length x) xs)"
    using assms(1) unfolding lay holds_append by simp_all
  have z: "rd8 data off = Some 0" using assms(1) holds_zero [OF _ p] unfolding lay by blast
  have sz: "off < sz" "?p + length x \<le> sz" "?p + length x + length (layout bs (?p + length x) xs) = sz"
    using assms(2) p unfolding lay by simp_all
  show thesis by (rule that [OF _ h(1) sz(2) h(2) sz(3)]) (use z sz(1) in blast)
qed

lemma scan_layout:
  assumes "holds data off (layout bs off (map record_bytes rs))"
    and "off + length (layout bs off (map record_bytes rs)) = sz"
    and "0 < bs" "\<forall>r \<in> set rs. entry_ok r" "0 \<notin> set cs"
  shows "case find (\<lambda>r. named r \<and> record_name r = cs) rs of
      None \<Rightarrow> iso_scan data sz bs cs off = Some None
    | Some r \<Rightarrow> \<exists>q. iso_scan data sz bs cs off = Some (Some (q, name_buffer cs)) \<and> holds data q (record_bytes r)"
  using assms(1,2,4)
proof (induction rs arbitrary: off)
  case Nil
  have "iso_scan data sz bs cs sz = Some None" by (subst iso_scan.simps) simp
  then show ?case using layout_end [of data off bs sz] Nil scan_padding [of data off sz bs cs] assms(3) by auto
next
  case (Cons r rs)
  have r: "entry_ok r" and rs: "\<forall>r \<in> set rs. entry_ok r" using Cons.prems(3) by auto
  obtain p where p: "p = off \<or> rd8 data off = Some 0 \<and> off < sz \<and> p = off + (bs - off mod bs)"
    "holds data p (record_bytes r)" "p + length (record_bytes r) \<le> sz"
    "holds data (p + length (record_bytes r)) (layout bs (p + length (record_bytes r)) (map record_bytes rs))"
    "p + length (record_bytes r) + length (layout bs (p + length (record_bytes r)) (map record_bytes rs)) = sz"
    using layout_record [OF Cons.prems(1,2) [simplified list.map] assms(3)] by blast
  have eq: "iso_scan data sz bs cs off = iso_scan data sz bs cs p"
    using p(1) scan_padding [of data off sz bs cs] assms(3) by auto
  note IH = Cons.IH [OF p(4,5) rs] and st = scan_record [OF p(2) r p(3) assms(3), of cs]
  have "named r \<Longrightarrow> streq cs (name_buffer (record_name r)) \<longleftrightarrow> cs = record_name r"
    using streq_name_buffer [OF assms(5)] r record_name_length by (auto simp: entry_ok_def record_ok_def named_def)
  then have go: "ir_ident r \<in> {[0], [1]} \<or> \<not> streq cs (name_buffer (record_name r)) \<longleftrightarrow> \<not> (named r \<and> record_name r = cs)"
    by (auto simp: named_def)
  show ?case
  proof (cases "named r \<and> record_name r = cs")
    case True
    then show ?thesis using p(2) unfolding eq st go by auto
  next
    case False
    then have "find (\<lambda>r. named r \<and> record_name r = cs) (r # rs) = find (\<lambda>r. named r \<and> record_name r = cs) rs" by auto
    then show ?thesis using IH False unfolding eq st go by (simp only: if_True simp_thms)
  qed
qed

text \<open>The listing of a directory.\<close>

definition record_node :: "iso_record \<Rightarrow> iso9660_node" where
  "record_node r = \<lparr>in_lba = ucast (ir_lba r), in_size = ucast (ir_size r), in_is_directory = (ir_flags r AND 2 \<noteq> 0),
     in_name = name_buffer (record_name r)\<rparr>"

lemma take_name_buffer: "length n < 256 \<Longrightarrow> take 255 (name_buffer n) @ [0] = name_buffer n"
proof -
  assume l: "length n < 256"
  then have "256 - length n = Suc (255 - length n)" by simp
  then have "replicate (256 - length n) 0 = replicate (255 - length n) (0 :: u8) @ [0]"
    by (simp only: replicate_Suc replicate_append_same)
  then have "name_buffer n = (n @ replicate (255 - length n) 0) @ [0]" by (simp add: name_buffer_def)
  moreover have "length (n @ replicate (255 - length n) (0 :: u8)) = 255" using l by simp
  ultimately show ?thesis by (metis append_eq_conv_conj)
qed

lemma list_record:
  assumes h: "holds data off (record_bytes r)" and r: "entry_ok r"
    and sz: "off + length (record_bytes r) \<le> sz" "0 < bs"
  shows "iso_list_loop data sz bs off acc =
    iso_list_loop data sz bs (off + length (record_bytes r)) (acc @ (if named r then [record_node r] else []))"
proof -
  have fits: "record_fits r" using r by (simp add: entry_ok_def)
  note f = record_fields [OF h fits]
  obtain n where n: "get_name data off (replicate 256 0) 256 = Some n"
    "named r \<longrightarrow> n = name_buffer (record_name r)" using get_name_entry [OF h r] by (auto simp: named_def)
  have l: "off < sz" "(of_nat (length (record_bytes r)) :: u8) \<noteq> 0" "\<not> sz < length (record_bytes r) + off"
    using sz(1) f(7) length_record_bytes [of r] by auto
  have t: "take 255 (name_buffer (record_name r)) @ [0] = name_buffer (record_name r)"
    using record_name_length [OF fits] by (rule take_name_buffer)
  show ?thesis
  proof (cases "named r")
    case True
    then have d: "is_dot_record data off = Some False" using is_dot_record_eq [OF h fits] by (simp add: named_def)
    show ?thesis using l f(1,7) n d sz(2) True t
      by (subst iso_list_loop.simps) (simp add: f(3,4,5) record_node_def del: add_2_eq_Suc')
  next
    case False
    then have d: "is_dot_record data off = Some True" using is_dot_record_eq [OF h fits] by (simp add: named_def)
    show ?thesis using l f(1,7) n d sz(2) False by (subst iso_list_loop.simps) simp
  qed
qed

lemma list_padding:
  "rd8 data off = Some 0 \<Longrightarrow> off < sz \<Longrightarrow> 0 < bs \<Longrightarrow>
   iso_list_loop data sz bs off acc = iso_list_loop data sz bs (off + (bs - off mod bs)) acc"
  by (subst iso_list_loop.simps) (simp only: next_block, simp)

lemma list_layout:
  assumes "holds data off (layout bs off (map record_bytes rs))"
    and "off + length (layout bs off (map record_bytes rs)) = sz" and "0 < bs" "\<forall>r \<in> set rs. entry_ok r"
  shows "iso_list_loop data sz bs off acc = Some (acc @ map record_node (filter named rs))"
  using assms(1,2,4)
proof (induction rs arbitrary: off acc)
  case Nil
  have "iso_list_loop data sz bs sz acc = Some acc" by (subst iso_list_loop.simps) simp
  then show ?case using layout_end [of data off bs sz] Nil list_padding [of data off sz bs acc] assms(3) by auto
next
  case (Cons r rs)
  have r: "entry_ok r" and rs: "\<forall>r \<in> set rs. entry_ok r" using Cons.prems(3) by auto
  obtain p where p: "p = off \<or> rd8 data off = Some 0 \<and> off < sz \<and> p = off + (bs - off mod bs)"
    "holds data p (record_bytes r)" "p + length (record_bytes r) \<le> sz"
    "holds data (p + length (record_bytes r)) (layout bs (p + length (record_bytes r)) (map record_bytes rs))"
    "p + length (record_bytes r) + length (layout bs (p + length (record_bytes r)) (map record_bytes rs)) = sz"
    using layout_record [OF Cons.prems(1,2) [simplified list.map] assms(3)] by blast
  have eq: "iso_list_loop data sz bs off acc = iso_list_loop data sz bs p acc"
    using p(1) list_padding [of data off sz bs acc] assms(3) by auto
  show ?case unfolding eq list_record [OF p(2) r p(3) assms(3)] Cons.IH [OF p(4,5) rs] by simp
qed

section \<open>Trees on the disk\<close>

datatype iso_item = Iso_File iso_record | Iso_Dir iso_record "iso_item list"

primrec item_record :: "iso_item \<Rightarrow> iso_record" where
  "item_record (Iso_File r) = r"
| "item_record (Iso_Dir r items) = r"

text \<open>A directory's extent holds the records of itself and its parent, then those of its items.\<close>

definition dir_records :: "iso_record \<Rightarrow> iso_record \<Rightarrow> iso_item list \<Rightarrow> iso_record list" where
  "dir_records parent r items = dot_record 0 r # dot_record 1 parent # map item_record items"

fun on_disk :: "block_device \<Rightarrow> iso_record \<Rightarrow> iso_item \<Rightarrow> bool" where
  "on_disk device parent (Iso_File r) \<longleftrightarrow> ir_flags r AND 2 = 0"
| "on_disk device parent (Iso_Dir r items) \<longleftrightarrow>
     ir_flags r AND 2 \<noteq> 0 \<and>
     (let bs = unat (bd_block_size device); d = dir_bytes bs (dir_records parent r items)
      in unat (ir_size r) = length d \<and> blocks_at device (ucast (ir_lba r)) (length d div bs) = Some d) \<and>
     (\<forall>i \<in> set items. record_ok (item_record i) \<and> on_disk device r i)"

text \<open>The reference: walking the tree along the parts of a path.\<close>

fun iso_resolve :: "iso_item \<Rightarrow> u8 list list \<Rightarrow> iso_item option" where
  "iso_resolve i [] = Some i"
| "iso_resolve (Iso_File r) (p # ps) = None"
| "iso_resolve (Iso_Dir r items) (p # ps) =
     (case find (\<lambda>i. record_name (item_record i) = p) items of None \<Rightarrow> None | Some i \<Rightarrow> iso_resolve i ps)"

primrec found_node :: "iso_item \<Rightarrow> iso9660_node \<Rightarrow> iso9660_node" where
  "found_node (Iso_File r) out = out\<lparr>in_lba := ucast (ir_lba r), in_size := ucast (ir_size r),
     in_is_directory := False, in_name := name_buffer (record_name r)\<rparr>"
| "found_node (Iso_Dir r items) out = out\<lparr>in_lba := ucast (ir_lba r), in_size := ucast (ir_size r),
     in_is_directory := True, in_name := (in_name out)[0 := 0x2F, 1 := 0]\<rparr>"

lemma block_count_exact: "0 < bs \<Longrightarrow> block_count (k * bs) bs = k"
  unfolding block_count_def by (rule div_nat_eqI) (auto simp: algebra_simps)

lemma read_from_disk_extent:
  assumes "disk_ok device" "unat sz < 2 ^ 32" "unat sz mod unat (bd_block_size device) = 0"
    and "blocks_at device lba (unat sz div unat (bd_block_size device)) = Some d"
  shows "iso9660_read_from_disk device sz lba = Some (False, d)"
proof -
  let ?bs = "unat (bd_block_size device)"
  have bs: "0 < ?bs" "?bs < 2 ^ 32" using disk_ok_size [OF assms(1)] by auto
  have sz: "unat sz = unat sz div ?bs * ?bs" using assms(3) div_mult_mod_eq [of "unat sz" ?bs] by simp
  let ?c = "(sz + bd_block_size device - 1) div bd_block_size device"
  have c: "unat ?c = unat sz div ?bs"
    using block_count_word [OF assms(1), of sz] assms(2) block_count_exact [OF bs(1), of "unat sz div ?bs"] sz by simp
  have t: "unat sz div ?bs * ?bs < 2 ^ 64" unfolding sz [symmetric] using assms(2) by simp
  have "unat (?c * bd_block_size device) = unat sz div ?bs * ?bs"
    using unat_mult_lem [of ?c "bd_block_size device"] t by (simp add: c)
  then show ?thesis using read_blocks_from_0 [OF assms(1) t, of "replicate (unat sz div ?bs * ?bs) 0" lba] assms(4) c bs
    by (simp add: iso9660_read_from_disk_def Let_def unat_gt_0)
qed

lemma dot_record_ok: "b \<in> {0, 1} \<Longrightarrow> entry_ok (dot_record b r) \<and> \<not> named (dot_record b r)"
  by (auto simp: entry_ok_def record_fits_def dot_record_def record_tail_def ident_pad_def susp_area_def named_def)

lemma dir_records_ok:
  "\<forall>i \<in> set items. record_ok (item_record i) \<Longrightarrow>
   (\<forall>r \<in> set (dir_records parent r items). entry_ok r) \<and> filter named (dir_records parent r items) = map item_record items"
proof -
  assume a: "\<forall>i \<in> set items. record_ok (item_record i)"
  then have "\<forall>i \<in> set items. entry_ok (item_record i) \<and> named (item_record i)"
    by (auto simp: entry_ok_def record_ok_def named_def)
  then show ?thesis using dot_record_ok by (auto simp: dir_records_def filter_map o_def intro: filter_True)
qed

text \<open>What the driver sees of a directory of the tree.\<close>

lemma dir_extent:
  assumes "disk_ok device" "on_disk device parent (Iso_Dir r items)"
  obtains d where "iso9660_read_from_disk device (ucast (ir_size r)) (ucast (ir_lba r)) = Some (False, d)"
    "holds d 0 (layout (unat (bd_block_size device)) 0 (map record_bytes (dir_records parent r items)))"
    "0 + length (layout (unat (bd_block_size device)) 0 (map record_bytes (dir_records parent r items))) = unat (ucast (ir_size r) :: u64)"
proof -
  let ?bs = "unat (bd_block_size device)"
  let ?d = "dir_bytes ?bs (dir_records parent r items)"
  have d: "unat (ir_size r) = length ?d" "blocks_at device (ucast (ir_lba r)) (length ?d div ?bs) = Some ?d"
    using assms(2) by (simp_all add: Let_def)
  have u: "unat (ucast (ir_size r) :: u64) = length ?d" using d(1) by (simp add: unat_ucast_up)
  have "length ?d mod ?bs = 0" using layout_length [of ?bs 0] disk_ok_size [OF assms(1)] by (simp add: dir_bytes_def)
  moreover have "length ?d < 2 ^ 32" using d(1) unat_u32_less [of "ir_size r"] by simp
  ultimately show thesis using that [of ?d] read_from_disk_extent [OF assms(1), of "ucast (ir_size r)"] d(2) u
    by (simp add: dir_bytes_def holds_all)
qed

section \<open>The driver finds the tree\<close>

lemma find_records:
  "\<forall>i \<in> set items. record_ok (item_record i) \<Longrightarrow>
   find (\<lambda>r. named r \<and> record_name r = cs) (dir_records parent r items) =
     map_option item_record (find (\<lambda>i. record_name (item_record i) = cs) items)"
proof -
  assume a: "\<forall>i \<in> set items. record_ok (item_record i)"
  have "\<not> named (dot_record 0 r)" "\<not> named (dot_record 1 parent)" using dot_record_ok by simp_all
  moreover have "find (\<lambda>r. named r \<and> record_name r = cs) (map item_record items) =
      map_option item_record (find (\<lambda>i. record_name (item_record i) = cs) items)"
    using a by (induction items) (auto simp: named_def record_ok_def)
  ultimately show ?thesis by (simp add: dir_records_def)
qed

lemma find_in_dir:
  assumes "disk_ok device" "on_disk device parent (Iso_Dir r items)" "0 \<notin> set cs"
  obtains d where "iso9660_read_from_disk device (ucast (ir_size r)) (ucast (ir_lba r)) = Some (False, d)"
    "case find (\<lambda>i. record_name (item_record i) = cs) items of
      None \<Rightarrow> iso_scan d (unat (ucast (ir_size r) :: u64)) (unat (bd_block_size device)) cs 0 = Some None
    | Some i \<Rightarrow> \<exists>q. iso_scan d (unat (ucast (ir_size r) :: u64)) (unat (bd_block_size device)) cs 0 = Some (Some (q, name_buffer cs)) \<and>
        holds d q (record_bytes (item_record i)) \<and> record_fits (item_record i) \<and> record_name (item_record i) = cs \<and> on_disk device r i"
proof -
  let ?bs = "unat (bd_block_size device)"
  obtain d where d: "iso9660_read_from_disk device (ucast (ir_size r)) (ucast (ir_lba r)) = Some (False, d)"
    "holds d 0 (layout ?bs 0 (map record_bytes (dir_records parent r items)))"
    "0 + length (layout ?bs 0 (map record_bytes (dir_records parent r items))) = unat (ucast (ir_size r) :: u64)"
    by (rule dir_extent [OF assms(1,2)])
  have ok: "\<forall>i \<in> set items. record_ok (item_record i) \<and> on_disk device r i" using assms(2) by (simp add: Let_def)
  have bs: "0 < ?bs" using disk_ok_size [OF assms(1)] by simp
  have "\<forall>r \<in> set (dir_records parent r items). entry_ok r" using dir_records_ok ok by blast
  note sc = scan_layout [OF d(2,3) bs this assms(3)]
  show thesis
  proof (cases "find (\<lambda>i. record_name (item_record i) = cs) items")
    case None
    then show ?thesis using that [OF d(1)] sc find_records [of items cs parent r] ok by simp
  next
    case (Some i)
    then have "i \<in> set items" "record_name (item_record i) = cs" by (auto simp: find_Some_iff)
    moreover from this have "record_fits (item_record i)" "on_disk device r i" using ok by (auto simp: record_ok_def)
    ultimately show ?thesis using that [OF d(1)] sc find_records [of items cs parent r] ok Some by simp
  qed
qed

lemma find_node_resolves:
  assumes "disk_ok (iso_device fs)"
  shows "on_disk (iso_device fs) parent (Iso_Dir r items) \<Longrightarrow> path_ok path \<Longrightarrow>
    path_parts path \<noteq> [] \<or> is_root_path path \<Longrightarrow> length (cstr_bytes path) < fuel \<Longrightarrow>
    iso9660_find_node fuel fs path (ucast (ir_size r)) (ucast (ir_lba r)) out =
      Some (case iso_resolve (Iso_Dir r items) (path_parts path) of
              None \<Rightarrow> (False, out) | Some i \<Rightarrow> (True, found_node i out))"
proof (induction fuel arbitrary: parent r items path)
  case (Suc fuel)
  show ?case
  proof (cases "is_root_path path")
    case True
    then show ?thesis using is_root_path_parts [OF Suc.prems(2)] by simp
  next
    case False
    obtain ps where ps: "split_path path = Some ps" "list_all2 is_str ps (path_parts path)"
      by (rule split_path_parts [OF Suc.prems(2)])
    obtain c cs where parts: "path_parts path = c # cs" using False Suc.prems(3) by (cases "path_parts path") auto
    obtain p ps' where p: "ps = p # ps'" "is_str p c" "list_all2 is_str ps' cs"
      using ps(2) by (auto simp: parts list_all2_Cons2)
    obtain t where t: "c_str p = Some t" "cstr_bytes t = c" using is_str_c_str [OF p(2)] by auto
    have z: "0 \<notin> set c" using p(2) by (simp add: is_str_def)
    have len: "length ps = Suc (length cs)" using p by (simp add: list_all2_lengthD)
    obtain rest where rest: "remaining_path ps = Some rest" "path_ok rest" "path_parts rest = cs"
      "cstr_bytes rest = join_path cs" "length (cstr_bytes rest) < length (cstr_bytes path)"
      using remaining_path_parts [OF Suc.prems(2) ps(2)] p(1) parts by auto
    obtain d where d: "iso9660_read_from_disk (iso_device fs) (ucast (ir_size r)) (ucast (ir_lba r)) = Some (False, d)"
      "case find (\<lambda>i. record_name (item_record i) = c) items of
        None \<Rightarrow> iso_scan d (unat (ucast (ir_size r) :: u64)) (unat (bd_block_size (iso_device fs))) c 0 = Some None
      | Some i \<Rightarrow> \<exists>q. iso_scan d (unat (ucast (ir_size r) :: u64)) (unat (bd_block_size (iso_device fs))) c 0 = Some (Some (q, name_buffer c)) \<and>
          holds d q (record_bytes (item_record i)) \<and> record_fits (item_record i) \<and> record_name (item_record i) = c \<and> on_disk (iso_device fs) r i"
      by (rule find_in_dir [OF assms Suc.prems(1) z])
    show ?thesis
    proof (cases "find (\<lambda>i. record_name (item_record i) = c) items")
      case None
      then show ?thesis using False ps(1) p(1) t d parts by simp
    next
      case (Some i)
      then obtain q where q: "iso_scan d (unat (ucast (ir_size r) :: u64)) (unat (bd_block_size (iso_device fs))) c 0 = Some (Some (q, name_buffer c))"
        "holds d q (record_bytes (item_record i))" "record_fits (item_record i)" "record_name (item_record i) = c" "on_disk (iso_device fs) r i"
        using d(2) by auto
      note f = record_fields [OF q(2,3)]
      show ?thesis
      proof (cases i)
        case (Iso_File r')
        then have "ir_flags r' AND 2 = 0" using q(5) by simp
        then show ?thesis using False ps(1) p(1) t d(1) q(1,4) f(3,4,5) Iso_File Some parts len
          by (cases cs) (simp_all del: add_2_eq_Suc')
      next
        case (Iso_Dir r' items')
        then have fl: "ir_flags r' AND 2 \<noteq> 0" using q(5) by simp
        have "path_parts rest \<noteq> [] \<or> is_root_path rest"
          using rest(2,3,4) is_root_path_iff [of rest] by (cases cs) simp_all
        moreover have "on_disk (iso_device fs) r (Iso_Dir r' items')" using q(5) Iso_Dir by simp
        ultimately have "iso9660_find_node fuel fs rest (ucast (ir_size r')) (ucast (ir_lba r')) out =
            Some (case iso_resolve (Iso_Dir r' items') cs of None \<Rightarrow> (False, out) | Some i \<Rightarrow> (True, found_node i out))"
          using Suc.IH [of r r' items' rest] rest Suc.prems(4) by simp
        then show ?thesis using False ps(1) p(1) t d(1) q(1) f(3,4,5) Iso_Dir Some parts fl rest(1)
          by (simp del: add_2_eq_Suc' on_disk.simps)
      qed
    qed
  qed
qed simp

definition mounted :: "iso9660_fsdata \<Rightarrow> iso_record \<Rightarrow> iso_item list \<Rightarrow> bool" where
  "mounted fs root items \<longleftrightarrow> disk_ok (iso_device fs) \<and> on_disk (iso_device fs) root (Iso_Dir root items) \<and>
     in_lba (iso_root_node fs) = ucast (ir_lba root) \<and> in_size (iso_root_node fs) = ucast (ir_size root)"

lemma find_root_resolves:
  assumes "mounted fs root items" "path_ok path" "path_parts path \<noteq> [] \<or> is_root_path path"
  shows "iso9660_find_root fs path = Some (case iso_resolve (Iso_Dir root items) (path_parts path) of
    None \<Rightarrow> (False, iso9660_node_zero) | Some i \<Rightarrow> (True, found_node i iso9660_node_zero))"
  using find_node_resolves [of fs root root items path "find_fuel path" iso9660_node_zero] assms
  by (simp add: iso9660_find_root_def mounted_def find_fuel_def del: on_disk.simps)

lemma found_directory: "in_is_directory (found_node i out) \<longleftrightarrow> (\<exists>r items. i = Iso_Dir r items)"
  by (cases i) simp_all

lemma resolve_on_disk: "on_disk device parent i \<Longrightarrow> iso_resolve i ps = Some j \<Longrightarrow> \<exists>p. on_disk device p j"
proof (induction i ps arbitrary: parent rule: iso_resolve.induct)
  case (3 r items p ps)
  then obtain i where i: "find (\<lambda>i. record_name (item_record i) = p) items = Some i" "iso_resolve i ps = Some j"
    by (auto split: option.splits)
  then have "i \<in> set items" by (auto simp: find_Some_iff)
  with 3 i show ?case by auto
qed auto

lemma list_directory_ok:
  assumes "mounted fs root items" "path_ok path" "path_parts path \<noteq> [] \<or> is_root_path path" "path \<noteq> None"
  shows "iso9660_list_directory fs path acc = Some (case iso_resolve (Iso_Dir root items) (path_parts path) of
    Some (Iso_Dir r its) \<Rightarrow> (True, acc @ map (\<lambda>i. record_node (item_record i)) its) | _ \<Rightarrow> (False, acc))"
proof -
  note r = find_root_resolves [OF assms(1,2,3)]
  have ok: "disk_ok (iso_device fs)" "on_disk (iso_device fs) root (Iso_Dir root items)" using assms(1) by (simp_all add: mounted_def)
  show ?thesis
  proof (cases "iso_resolve (Iso_Dir root items) (path_parts path)")
    case None
    then show ?thesis using r assms(4) by (simp add: iso9660_list_directory_def)
  next
    case (Some i)
    show ?thesis
    proof (cases i)
      case (Iso_File r')
      then show ?thesis using r assms(4) Some by (simp add: iso9660_list_directory_def)
    next
      case (Iso_Dir r' its)
      then obtain parent where od: "on_disk (iso_device fs) parent (Iso_Dir r' its)"
        using resolve_on_disk [OF ok(2) Some] by blast
      obtain d where d: "iso9660_read_from_disk (iso_device fs) (ucast (ir_size r')) (ucast (ir_lba r')) = Some (False, d)"
        "holds d 0 (layout (unat (bd_block_size (iso_device fs))) 0 (map record_bytes (dir_records parent r' its)))"
        "0 + length (layout (unat (bd_block_size (iso_device fs))) 0 (map record_bytes (dir_records parent r' its))) = unat (ucast (ir_size r') :: u64)"
        by (rule dir_extent [OF ok(1) od])
      have oks: "\<forall>i \<in> set its. record_ok (item_record i)" using od by (simp add: Let_def)
      have bs: "0 < unat (bd_block_size (iso_device fs))" using disk_ok_size [OF ok(1)] by simp
      have e: "\<forall>r \<in> set (dir_records parent r' its). entry_ok r"
        "filter named (dir_records parent r' its) = map item_record its" using dir_records_ok [OF oks] by auto
      show ?thesis using r assms(4) Some Iso_Dir d(1) list_layout [OF d(2,3) bs e(1), of acc]
        by (simp add: iso9660_list_directory_def e(2) o_def)
    qed
  qed
qed

text \<open>Reading whole blocks, and a file.\<close>

lemma read_sized_extent:
  assumes "disk_ok device" "unat sz < 2 ^ 33" "sz mod bd_block_size device = 0" "length buffer = unat sz"
    and "blocks_at device lba (unat sz div unat (bd_block_size device)) = Some d"
  shows "block_device_read_sized device lba buffer sz = Some (True, d)"
proof -
  let ?bs = "unat (bd_block_size device)"
  have bs: "0 < ?bs" using disk_ok_size [OF assms(1)] by simp
  have "unat sz mod ?bs = 0" using assms(3) by (metis unat_0 unat_mod_distrib)
  then have sz: "unat sz = unat sz div ?bs * ?bs" using div_mult_mod_eq [of "unat sz" ?bs] by simp
  have c: "unat ((sz + bd_block_size device - 1) div bd_block_size device) = unat sz div ?bs"
    using block_count_word [OF assms(1), of sz] assms(2) block_count_exact [OF bs, of "unat sz div ?bs"] sz by simp
  have t: "unat sz div ?bs * ?bs < 2 ^ 64" unfolding sz [symmetric] using assms(2) by simp
  have l: "length buffer = unat sz div ?bs * ?bs" unfolding sz [symmetric] by (rule assms(4))
  show ?thesis using read_blocks_from_0 [OF assms(1) t l, of lba] assms(3,5) c bs
    by (simp add: block_device_read_sized_def Let_def unat_gt_0)
qed

lemma align_up_blocks:
  assumes "k < 32" "unat a < 2 ^ 32"
  shows "unat (align_up a (2 ^ k)) = block_count (unat a) (2 ^ k) * 2 ^ k"
proof -
  have "unat a + 2 ^ k \<le> 2 ^ 64"
  proof -
    have "(2::nat) ^ k \<le> 2 ^ 32" using assms(1) by (intro power_increasing) simp_all
    then show ?thesis using assms(2) by simp
  qed
  note p = align_up_props [OF _ this]
  obtain q where q: "unat (align_up a (2 ^ k)) = q * 2 ^ k" using p(3) assms(1) by (auto simp: dvd_def mult.commute)
  have b: "unat a \<le> block_count (unat a) (2 ^ k) * 2 ^ k" "block_count (unat a) (2 ^ k) * 2 ^ k < unat a + 2 ^ k"
    using block_count_bounds [of "2 ^ k" "unat a"] by simp_all
  have "unat a \<le> q * 2 ^ k" "q * 2 ^ k < unat a + 2 ^ k" using p(1,2) assms(1) q by simp_all
  with b have "q * 2 ^ k < Suc (block_count (unat a) (2 ^ k)) * 2 ^ k" "block_count (unat a) (2 ^ k) * 2 ^ k < Suc q * 2 ^ k"
    by simp_all
  then have "q = block_count (unat a) (2 ^ k)" by (simp only: mult_less_cancel2) linarith
  with q show ?thesis by simp
qed

lemma iso_read_ok:
  assumes "mounted fs root items" "path_ok path" "path_parts path \<noteq> [] \<or> is_root_path path"
    and "iso_resolve (Iso_Dir root items) (path_parts path) = Some (Iso_File r)"
    and "bd_block_size (iso_device fs) = 2 ^ k" "k < 32"
    and "blocks_at (iso_device fs) (ucast (ir_lba r)) (block_count (unat (ir_size r)) (2 ^ k)) = Some d"
  shows "iso9660_read True True fs path out = Some (True, Some (take (unat (ir_size r)) d), ucast (ir_size r))"
proof -
  let ?a = "align_up (ucast (ir_size r)) (2 ^ k)" and ?n = "block_count (unat (ir_size r)) (2 ^ k)"
  have ok: "disk_ok (iso_device fs)" using assms(1) by (simp add: mounted_def)
  have u: "unat (ucast (ir_size r) :: u64) = unat (ir_size r)" by (rule unat_ucast_up) simp
  have p2: "unat (2 ^ k :: u64) = 2 ^ k" using assms(6) by (intro unat_pow2) simp
  have a: "unat ?a = ?n * 2 ^ k" using align_up_blocks [OF assms(6), of "ucast (ir_size r)"] unat_u32_less [of "ir_size r"] u by simp
  have "(2::nat) ^ k \<le> 2 ^ 32" using assms(6) by (intro power_increasing) simp_all
  then have small: "unat ?a < 2 ^ 33" using a block_count_bounds [of "2 ^ k" "unat (ir_size r)"] unat_u32_less [of "ir_size r"] by simp
  have m: "?a mod bd_block_size (iso_device fs) = 0" unfolding assms(5)
    by (simp add: word_unat_eq_iff unat_mod_distrib p2 a)
  have "blocks_at (iso_device fs) (ucast (ir_lba r)) (unat ?a div unat (bd_block_size (iso_device fs))) = Some d"
    using assms(5,7) p2 by (simp add: a)
  from read_sized_extent [OF ok small m _ this, of "replicate (unat ?a) 0"]
  have rd: "block_device_read_sized (iso_device fs) (ucast (ir_lba r)) (replicate (unat ?a) 0) ?a = Some (True, d)" by simp
  have "length d = ?n * 2 ^ k" using blocks_at_length [OF ok assms(7)] assms(5) p2 by simp
  then have "unat (ir_size r) \<le> length d" using block_count_bounds [of "2 ^ k" "unat (ir_size r)"] by simp
  then show ?thesis using find_root_resolves [OF assms(1,2,3)] assms(4,5) rd u
    by (simp add: iso9660_read_def rd_bytes_def)
qed

section \<open>Properties\<close>

text \<open>A disk with blocks of 256 bytes: a root directory with one file and one subdirectory that holds another.\<close>

definition demo_a :: iso_record where
  "demo_a = \<lparr>ir_flags = 0, ir_lba = 22, ir_size = 3, ir_ident = b8 ''A.TXT;1'', ir_susp = []\<rparr>"

definition demo_b :: iso_record where
  "demo_b = \<lparr>ir_flags = 0, ir_lba = 23, ir_size = 300, ir_ident = b8 ''B.;1'',
     ir_susp = [(b8 ''RR'', [1]), (b8 ''NM'', 0 # b8 ''bin'')]\<rparr>"

definition demo_sub :: iso_record where
  "demo_sub = \<lparr>ir_flags = 2, ir_lba = 21, ir_size = 256, ir_ident = b8 ''SUB'', ir_susp = []\<rparr>"

definition demo_top :: iso_record where
  "demo_top = \<lparr>ir_flags = 2, ir_lba = 20, ir_size = 256, ir_ident = [0], ir_susp = []\<rparr>"

definition demo_items :: "iso_item list" where
  "demo_items = [Iso_File demo_a, Iso_Dir demo_sub [Iso_File demo_b]]"

definition demo_disk :: "u64 \<Rightarrow> u8 list option" where
  "demo_disk lba =
     (if lba = 20 then Some (dir_bytes 256 (dir_records demo_top demo_top demo_items))
      else if lba = 21 then Some (dir_bytes 256 (dir_records demo_top demo_sub [Iso_File demo_b]))
      else if lba = 22 then Some (replicate 256 1)
      else if lba = 23 then Some (replicate 256 2) else if lba = 24 then Some (replicate 256 3) else None)"

definition demo_iso :: iso9660_fsdata where
  "demo_iso = \<lparr>iso_device = \<lparr>bd_read = (\<lambda>lba sz. if sz = 256 then demo_disk lba else None),
       bd_start_lba = 0, bd_end_lba = 25, bd_block_size = 256\<rparr>,
     iso_volume_size = 0, iso_root_node = iso9660_node_zero\<lparr>in_lba := 20, in_size := 256, in_is_directory := True\<rparr>,
     iso_pvd = []\<rparr>"

lemma demo_iso_mounted: "mounted demo_iso demo_top demo_items"
proof -
  have "length (dir_bytes 256 (dir_records demo_top demo_top demo_items)) = 256"
    "length (dir_bytes 256 (dir_records demo_top demo_sub [Iso_File demo_b])) = 256" by code_simp+
  then have "disk_ok (iso_device demo_iso)" by (auto simp: disk_ok_def demo_iso_def demo_disk_def)
  moreover have "on_disk (iso_device demo_iso) demo_top (Iso_Dir demo_top demo_items)" by code_simp
  ultimately show ?thesis by (simp add: mounted_def demo_iso_def demo_top_def del: on_disk.simps)
qed

text \<open>
  C17. On a disk that holds a directory tree in the standard's layout, the ISO 9660 driver finds exactly
  the files and directories of the tree, by their Rock Ridge names where they have one: a path names a node if
  and only if following its parts through the tree does, and listing a directory yields its items, in order.
\<close>

theorem iso9660_driver_refines_tree:
  assumes "mounted fs root items" "path_ok path" "path_parts path \<noteq> [] \<or> is_root_path path" "path \<noteq> None"
  shows "iso9660_file_exists fs path = Some (\<exists>r. iso_resolve (Iso_Dir root items) (path_parts path) = Some (Iso_File r)) \<and>
    iso9660_directory_exists fs path = Some (\<exists>r its. iso_resolve (Iso_Dir root items) (path_parts path) = Some (Iso_Dir r its)) \<and>
    iso9660_list_directory fs path acc = Some (case iso_resolve (Iso_Dir root items) (path_parts path) of
      Some (Iso_Dir r its) \<Rightarrow> (True, acc @ map (\<lambda>i. record_node (item_record i)) its) | _ \<Rightarrow> (False, acc))"
proof (intro conjI)
  note r = find_root_resolves [OF assms(1-3)]
  let ?r = "iso_resolve (Iso_Dir root items) (path_parts path)"
  have f: "(\<nexists>r its. i = Iso_Dir r its) \<longleftrightarrow> (\<exists>r. i = Iso_File r)" for i by (cases i) auto
  then show "iso9660_file_exists fs path = Some (\<exists>r. ?r = Some (Iso_File r))"
    using r by (cases ?r) (auto simp: iso9660_file_exists_def found_directory)
  show "iso9660_directory_exists fs path = Some (\<exists>r its. ?r = Some (Iso_Dir r its))"
    using r by (cases ?r) (auto simp: iso9660_directory_exists_def found_directory)
qed (rule list_directory_ok [OF assms])

theorem iso9660_driver_refines_tree_witness:
  "iso9660_file_exists demo_iso (Some (b8 ''/SUB/bin'')) = Some True"
proof -
  have "path_ok (Some (b8 ''/SUB/bin''))" "path_parts (Some (b8 ''/SUB/bin'')) = [b8 ''SUB'', b8 ''bin'']"
    by (simp add: path_ok_def cstr_bytes_def b8_def) code_simp
  moreover have "iso_resolve (Iso_Dir demo_top demo_items) [b8 ''SUB'', b8 ''bin''] = Some (Iso_File demo_b)" by code_simp
  ultimately show ?thesis using iso9660_driver_refines_tree [OF demo_iso_mounted, of "Some (b8 ''/SUB/bin'')"] by auto
qed

end
