(* ===== verification/Fat32.thy ===== *)
theory Fat32
  imports File_Path Block_Device
begin

text \<open>
  The FAT32 file system: \<open>src/kernel/src/filesystems/fat32.cpp\<close>.
  Directory data is the list of bytes of a cluster, an entry is its offset there.  The loops over the clusters of
  a chain end only if the chain does; they are partial functions, and \<open>None\<close> is a loop that does not
  end or an access outside a buffer.  The buffers of the sector and cluster reads are used unchecked and
  taken to exist.  \<open>char\<close> is signed.
\<close>

section \<open>Strings\<close>

fun utf16_loop :: "u8 list \<Rightarrow> nat \<Rightarrow> u16 list \<Rightarrow> nat \<Rightarrow> u8 list option" where
  "utf16_loop destination i source 0 = wr8 destination i 0"
| "utf16_loop destination i source (Suc count) =
     (case source of
        [] \<Rightarrow> None
      | s # ss \<Rightarrow>
          if s \<noteq> 0 \<and> s \<noteq> 0xFFFF
          then do { d \<leftarrow> wr8 destination i (ucast (s AND 0xFF)); utf16_loop d (Suc i) ss count }
          else wr8 destination i 0)"

definition convert_utf16_to_ascii :: "u8 list \<Rightarrow> u16 list \<Rightarrow> nat \<Rightarrow> u8 list option" where
  "convert_utf16_to_ascii destination source count = utf16_loop destination 0 source count"

definition to_uppercase :: "u8 \<Rightarrow> u8" where
  "to_uppercase c = (if 0x61 \<le> c \<and> c \<le> 0x7A then c - 0x20 else c)"

fun compare_ascii_case_insensitive :: "u8 list \<Rightarrow> u8 list \<Rightarrow> int" where
  "compare_ascii_case_insensitive (a # as) (b # bs) =
     (if to_uppercase a \<noteq> to_uppercase b then sint (to_uppercase a) - sint (to_uppercase b)
      else compare_ascii_case_insensitive as bs)"
| "compare_ascii_case_insensitive [] [] = 0"
| "compare_ascii_case_insensitive (a # as) [] = sint a"
| "compare_ascii_case_insensitive [] (b # bs) = - sint b"

section \<open>Layout of the volume\<close>

definition FAT32_DIRATTR_DIRECTORY :: u8 where "FAT32_DIRATTR_DIRECTORY = 0x10"
definition FAT32_DIRATTR_LFN :: u8 where "FAT32_DIRATTR_LFN = 0x0F"
definition FAT32_EOC32 :: u32 where "FAT32_EOC32 = 0x0FFFFFF8"

record fat32_node =
  fn_first_cluster :: u32
  fn_size :: u64
  fn_is_directory :: bool
  fn_name :: "u8 list"

definition fat32_node_zero :: fat32_node where
  "fat32_node_zero = \<lparr>fn_first_cluster = 0, fn_size = 0, fn_is_directory = False, fn_name = replicate 256 0\<rparr>"

record fat32_fsdata =
  fat_device :: block_device
  bytes_per_sector :: u16
  sectors_per_cluster :: u8
  sectors_per_fat :: u32
  first_fat_sector :: u32
  first_data_sector :: u32
  root_cluster :: u32

definition cluster_bytes :: "fat32_fsdata \<Rightarrow> nat" where
  "cluster_bytes fs_data = unat (bytes_per_sector fs_data) * unat (sectors_per_cluster fs_data)"

definition cluster_to_lba :: "fat32_fsdata \<Rightarrow> u32 \<Rightarrow> u32" where
  "cluster_to_lba fs_data cluster = first_data_sector fs_data + (cluster - 2) * ucast (sectors_per_cluster fs_data)"

definition get_next_cluster :: "fat32_fsdata \<Rightarrow> u32 \<Rightarrow> u32 option" where
  "get_next_cluster fs_data cluster =
     (if bytes_per_sector fs_data = 0 then None
      else let offset = cluster * 4;
               fat_sector = first_fat_sector fs_data + offset div ucast (bytes_per_sector fs_data);
               entry_offset = offset mod ucast (bytes_per_sector fs_data)
           in case block_device_read (fat_device fs_data) (ucast fat_sector) (bd_block_size (fat_device fs_data)) of
                None \<Rightarrow> Some FAT32_EOC32
              | Some d \<Rightarrow> do {
                  sector_data \<leftarrow> wr_bytes (replicate (unat (bd_block_size (fat_device fs_data))) 0) 0 d;
                  v \<leftarrow> rd32 sector_data (unat entry_offset);
                  Some (v AND 0x0FFFFFFF) })"

text \<open>The loop over the sectors of a cluster; \<open>n\<close> are left.\<close>

fun read_sectors :: "fat32_fsdata \<Rightarrow> u32 \<Rightarrow> nat \<Rightarrow> nat \<Rightarrow> u8 list \<Rightarrow> (bool \<times> u8 list) option" where
  "read_sectors fs_data cluster sector 0 data = Some (False, data)"
| "read_sectors fs_data cluster sector (Suc n) data =
     (case block_device_read (fat_device fs_data) (ucast (cluster_to_lba fs_data cluster + of_nat sector))
             (ucast (bytes_per_sector fs_data)) of
        None \<Rightarrow> Some (True, data)
      | Some d \<Rightarrow> do { b \<leftarrow> wr_bytes data (sector * unat (bytes_per_sector fs_data)) d;
                       read_sectors fs_data cluster (Suc sector) n b })"

text \<open>The answer is the error flag with the data.\<close>

definition fat32_read_from_disk :: "fat32_fsdata \<Rightarrow> u32 \<Rightarrow> (bool \<times> u8 list) option" where
  "fat32_read_from_disk fs_data cluster =
     read_sectors fs_data cluster 0 (unat (sectors_per_cluster fs_data)) (replicate (cluster_bytes fs_data) 0)"

definition fat32_validate :: "u8 list \<Rightarrow> u64 \<Rightarrow> bool option" where
  "fat32_validate buffer sz =
     (if sz > 514 then Some False
      else do {
        signature \<leftarrow> rd16 buffer 510;
        if signature \<noteq> 0xAA55 then Some False
        else do {
          bps \<leftarrow> rd16 buffer 11;
          if bps \<noteq> 512 \<and> bps \<noteq> 1024 \<and> bps \<noteq> 2048 \<and> bps \<noteq> 4096 then Some False
          else do {
            spc \<leftarrow> rd8 buffer 13;
            if spc = 0 \<or> spc AND (spc - 1) \<noteq> 0 then Some False
            else do {
              reserved \<leftarrow> rd16 buffer 14;
              fat_count \<leftarrow> rd8 buffer 16;
              root_entry_count \<leftarrow> rd16 buffer 17;
              fat_size_16 \<leftarrow> rd16 buffer 22;
              fat_size_32 \<leftarrow> rd32 buffer 36;
              Some (reserved \<noteq> 0 \<and> fat_count \<noteq> 0 \<and> root_entry_count = 0 \<and> fat_size_16 = 0 \<and> fat_size_32 \<noteq> 0) } } } })"

definition fat32_init :: "block_device \<Rightarrow> fat32_fsdata \<Rightarrow> (bool \<times> fat32_fsdata) option" where
  "fat32_init device fs_data =
     (case block_device_read device 0 (bd_block_size device) of
        None \<Rightarrow> Some (False, fs_data)
      | Some d \<Rightarrow> do {
          buffer \<leftarrow> wr_bytes (replicate (unat (bd_block_size device)) 0) 0 d;
          bps \<leftarrow> rd16 buffer 11;
          spc \<leftarrow> rd8 buffer 13;
          reserved \<leftarrow> rd16 buffer 14;
          fat_count \<leftarrow> rd8 buffer 16;
          fat_size_32 \<leftarrow> rd32 buffer 36;
          root \<leftarrow> rd32 buffer 44;
          Some (True, fs_data\<lparr>fat_device := device, bytes_per_sector := bps, sectors_per_cluster := spc,
            first_fat_sector := ucast reserved, sectors_per_fat := fat_size_32,
            first_data_sector := ucast reserved + ucast fat_count * fat_size_32, root_cluster := root\<rparr>) })"

section \<open>Directory entries\<close>

text \<open>\<open>memcpy\<close> to \<open>utf16_name\<close>: the words of the bytes.\<close>

fun words_of :: "u8 list \<Rightarrow> u16 list" where
  "words_of (a # b # r) = (push_bit 8 (ucast b) OR ucast a) # words_of r"
| "words_of _ = []"

text \<open>A part of a long name goes to its place in the buffer, without a terminator.\<close>

definition lfn_part :: "u8 list \<Rightarrow> nat \<Rightarrow> u8 list \<Rightarrow> u8 list option" where
  "lfn_part data offset long_filename = do {
     order \<leftarrow> rd8 data offset;
     let index = (int (unat (order AND 0x1F)) - 1) * 13;
     name1 \<leftarrow> rd_bytes data (offset + 1) 10;
     name2 \<leftarrow> rd_bytes data (offset + 14) 12;
     name3 \<leftarrow> rd_bytes data (offset + 28) 4;
     ascii_part \<leftarrow> convert_utf16_to_ascii (replicate 14 0) (words_of (name1 @ name2 @ name3)) 13;
     len \<leftarrow> strlen ascii_part;
     if len = 0 then Some long_filename
     else if index < 0 then None
     else wr_bytes long_filename (nat index) (take len ascii_part) }"

fun strip_spaces :: "u8 list \<Rightarrow> nat \<Rightarrow> u8 list" where
  "strip_spaces short_filename 0 = short_filename"
| "strip_spaces short_filename (Suc i) =
     (if short_filename ! i = 0x20 then strip_spaces (short_filename[i := 0]) i else short_filename)"

text \<open>The extension loop; \<open>n\<close> characters are left.\<close>

fun ext_loop :: "u8 list \<Rightarrow> nat \<Rightarrow> nat \<Rightarrow> nat \<Rightarrow> u8 list \<Rightarrow> nat \<Rightarrow> (u8 list \<times> nat) option" where
  "ext_loop data offset j 0 short_filename name_len = Some (short_filename, name_len)"
| "ext_loop data offset j (Suc n) short_filename name_len =
     do { c \<leftarrow> rd8 data (offset + 8 + j);
          if c = 0x20 then Some (short_filename, name_len)
          else do { b \<leftarrow> wr8 short_filename name_len c; ext_loop data offset (Suc j) n b (Suc name_len) } }"

definition short_name :: "u8 list \<Rightarrow> nat \<Rightarrow> u8 list option" where
  "short_name data offset = do {
     name \<leftarrow> rd_bytes data offset 8;
     let short_filename = strip_spaces (name @ replicate 5 0) 8;
     e \<leftarrow> rd8 data (offset + 8);
     if e = 0x20 then Some short_filename
     else do {
       name_len \<leftarrow> strlen short_filename;
       short_filename \<leftarrow> wr8 short_filename name_len 0x2E;
       (short_filename, name_len) \<leftarrow> ext_loop data offset 0 3 short_filename (Suc name_len);
       wr8 short_filename name_len 0 } }"

text \<open>
  The body of the loop over the entries up to the use of the name, which \<open>fat32_find_node\<close> and
  \<open>fat32_list_directory\<close> share: the end mark, an entry without a name of its own (with the new
  \<open>long_filename\<close>), or a name.
\<close>

datatype entry_step = Entry_End | Entry_Skip "u8 list" | Entry_Name "u8 list"

definition fat_entry :: "u8 list \<Rightarrow> nat \<Rightarrow> u8 list \<Rightarrow> entry_step option" where
  "fat_entry data offset long_filename = do {
     c \<leftarrow> rd8 data offset;
     if c = 0 then Some Entry_End
     else if sint c = 0xE5 then Some (Entry_Skip (long_filename[0 := 0]))
     else do {
       attributes \<leftarrow> rd8 data (offset + 11);
       if attributes = FAT32_DIRATTR_LFN
       then do { long_filename \<leftarrow> lfn_part data offset long_filename; Some (Entry_Skip long_filename) }
       else do {
         short_filename \<leftarrow> short_name data offset;
         let current = (if long_filename ! 0 \<noteq> 0 then long_filename else short_filename);
         len \<leftarrow> strlen current;
         if streq (take len current) [0x2E] \<or> streq (take len current) [0x2E, 0x2E]
         then Some (Entry_Skip (long_filename[0 := 0]))
         else Some (Entry_Name (take len current)) } } }"

text \<open>The loop of \<open>fat32_find_node\<close> over the entries of a cluster of \<open>n\<close> bytes.\<close>

datatype scan_result = Scan_End | Scan_More | Scan_Hit nat "u8 list"

function fat_scan :: "u8 list \<Rightarrow> nat \<Rightarrow> u8 list \<Rightarrow> u8 list \<Rightarrow> nat \<Rightarrow> scan_result option" where
  "fat_scan data n target long_filename offset =
     (if offset < n
      then (case fat_entry data offset long_filename of
              None \<Rightarrow> None
            | Some Entry_End \<Rightarrow> Some Scan_End
            | Some (Entry_Skip long_filename) \<Rightarrow> fat_scan data n target long_filename (offset + 32)
            | Some (Entry_Name current_name) \<Rightarrow>
                if compare_ascii_case_insensitive current_name target = 0 then Some (Scan_Hit offset current_name)
                else fat_scan data n target (long_filename[0 := 0]) (offset + 32))
      else Some Scan_More)"
  by pat_completeness auto
termination by (relation "measure (\<lambda>(data, n, target, long_filename, offset). n - offset)") auto

declare fat_scan.simps [simp del]

section \<open>Finding a node\<close>

text \<open>The loop over the clusters of a directory.\<close>

datatype search_result = Search_Error | Search_None | Search_Hit "u8 list" nat "u8 list"

partial_function (option) fat_search :: "fat32_fsdata \<Rightarrow> u8 list \<Rightarrow> u32 \<Rightarrow> search_result option" where
  "fat_search fs_data target cluster =
     (if cluster < FAT32_EOC32
      then (case fat32_read_from_disk fs_data cluster of
              None \<Rightarrow> None
            | Some (error, dir_data) \<Rightarrow>
                if error then Some Search_Error
                else (case fat_scan dir_data (cluster_bytes fs_data) target (replicate 260 0) 0 of
                        None \<Rightarrow> None
                      | Some Scan_End \<Rightarrow> Some Search_None
                      | Some (Scan_Hit offset name) \<Rightarrow> Some (Search_Hit dir_data offset name)
                      | Some Scan_More \<Rightarrow>
                          (case get_next_cluster fs_data cluster of
                             None \<Rightarrow> None
                           | Some cluster \<Rightarrow> fat_search fs_data target cluster)))
      else Some Search_None)"

definition entry_first_cluster :: "u8 list \<Rightarrow> nat \<Rightarrow> u32 option" where
  "entry_first_cluster data offset = do {
     high \<leftarrow> rd16 data (offset + 20);
     low \<leftarrow> rd16 data (offset + 26);
     Some (push_bit 16 (ucast high) OR ucast low) }"

fun fat32_find_node :: "nat \<Rightarrow> fat32_fsdata \<Rightarrow> u8 list option \<Rightarrow> u64 \<Rightarrow> u32 \<Rightarrow> fat32_node \<Rightarrow>
    (bool \<times> fat32_node) option" where
  "fat32_find_node 0 fs_data path sz cluster out_node = None"
| "fat32_find_node (Suc fuel) fs_data path sz cluster out_node =
     (if is_root_path path
      then Some (True, out_node\<lparr>fn_first_cluster := cluster, fn_size := sz, fn_is_directory := True,
             fn_name := (fn_name out_node)[0 := 0x2F, 1 := 0]\<rparr>)
      else do {
        path_parts \<leftarrow> split_path path;
        if path_parts = [] then Some (False, out_node)
        else do {
          target \<leftarrow> c_str (hd path_parts);
          r \<leftarrow> fat_search fs_data (cstr_bytes target) cluster;
          (case r of
             Search_Hit data offset current_name \<Rightarrow> do {
               first_cluster \<leftarrow> entry_first_cluster data offset;
               attributes \<leftarrow> rd8 data (offset + 11);
               let is_directory = (attributes AND FAT32_DIRATTR_DIRECTORY \<noteq> 0);
               if \<not> is_directory \<and> length path_parts = 1
               then do {
                 file_size \<leftarrow> rd32 data (offset + 28);
                 name \<leftarrow> wr_bytes (fn_name out_node) 0 current_name;
                 Some (True, out_node\<lparr>fn_first_cluster := first_cluster, fn_size := ucast file_size,
                   fn_is_directory := False, fn_name := name\<rparr>) }
               else if is_directory
               then do {
                 remaining \<leftarrow> remaining_path path_parts;
                 file_size \<leftarrow> rd32 data (offset + 28);
                 fat32_find_node fuel fs_data remaining (ucast file_size) first_cluster out_node }
               else Some (False, out_node) }
           | _ \<Rightarrow> Some (False, out_node)) } })"

definition fat32_find_root :: "fat32_fsdata \<Rightarrow> u8 list option \<Rightarrow> (bool \<times> fat32_node) option" where
  "fat32_find_root fs_data path =
     fat32_find_node (Suc (length (cstr_bytes path))) fs_data path (of_nat (cluster_bytes fs_data))
       (root_cluster fs_data) fat32_node_zero"

section \<open>Operations\<close>

definition fat32_directory_exists :: "fat32_fsdata \<Rightarrow> u8 list option \<Rightarrow> bool option" where
  "fat32_directory_exists fs_data path =
     do { (found, node) \<leftarrow> fat32_find_root fs_data path; Some (found \<and> fn_is_directory node) }"

definition fat32_file_exists :: "fat32_fsdata \<Rightarrow> u8 list option \<Rightarrow> bool option" where
  "fat32_file_exists fs_data path =
     do { (found, node) \<leftarrow> fat32_find_root fs_data path; Some (found \<and> \<not> fn_is_directory node) }"

text \<open>The loop of \<open>fat32_read\<close>: the answer \<open>None\<close> inside is a failed read, else the number of bytes read with the buffer.\<close>

partial_function (option) fat_read_loop :: "fat32_fsdata \<Rightarrow> nat \<Rightarrow> u32 \<Rightarrow> nat \<Rightarrow> u8 list \<Rightarrow> (nat \<times> u8 list) option option" where
  "fat_read_loop fs_data out_size cluster bytes_read out_data =
     (if cluster < FAT32_EOC32 \<and> bytes_read < out_size
      then (case fat32_read_from_disk fs_data cluster of
              None \<Rightarrow> None
            | Some (error, cluster_data) \<Rightarrow>
                if error then Some None
                else (case rd_bytes cluster_data 0 (min (cluster_bytes fs_data) (out_size - bytes_read)) of
                        None \<Rightarrow> None
                      | Some bs \<Rightarrow>
                          (case wr_bytes out_data bytes_read bs of
                             None \<Rightarrow> None
                           | Some out_data \<Rightarrow>
                               (case get_next_cluster fs_data cluster of
                                  None \<Rightarrow> None
                                | Some cluster \<Rightarrow>
                                    fat_read_loop fs_data out_size cluster (bytes_read + length bs) out_data))))
      else Some (Some (bytes_read, out_data)))"

text \<open>\<open>raw n\<close> are the bytes of the fresh block for the file, \<open>mem\<close> says whether there is one.\<close>

definition fat32_read :: "bool \<Rightarrow> (nat \<Rightarrow> u8 list) \<Rightarrow> fat32_fsdata \<Rightarrow> u8 list option \<Rightarrow> u8 list option \<times> u64 \<Rightarrow>
    (bool \<times> u8 list option \<times> u64) option" where
  "fat32_read mem raw fs_data path out = do {
     (found, node) \<leftarrow> fat32_find_root fs_data path;
     if \<not> found then Some (False, out)
     else if fn_is_directory node then Some (False, out)
     else if \<not> mem then Some (False, None, fn_size node)
     else do {
       r \<leftarrow> fat_read_loop fs_data (unat (fn_size node)) (fn_first_cluster node) 0 (raw (unat (fn_size node)));
       (case r of
          None \<Rightarrow> Some (False, None, 0)
        | Some (bytes_read, data) \<Rightarrow> Some (True, Some data, if bytes_read < unat (fn_size node) then of_nat bytes_read else fn_size node)) } }"

text \<open>The loops of \<open>fat32_list_directory\<close>; the flag is false at the end mark.\<close>

function fat_list_scan :: "u8 list \<Rightarrow> nat \<Rightarrow> u8 list \<Rightarrow> nat \<Rightarrow> fat32_node list \<Rightarrow> (bool \<times> fat32_node list) option" where
  "fat_list_scan data n long_filename offset out_nodes =
     (if offset < n
      then (case fat_entry data offset long_filename of
              None \<Rightarrow> None
            | Some Entry_End \<Rightarrow> Some (False, out_nodes)
            | Some (Entry_Skip long_filename) \<Rightarrow> fat_list_scan data n long_filename (offset + 32) out_nodes
            | Some (Entry_Name current_name) \<Rightarrow> do {
                first_cluster \<leftarrow> entry_first_cluster data offset;
                file_size \<leftarrow> rd32 data (offset + 28);
                attributes \<leftarrow> rd8 data (offset + 11);
                let name = take 255 current_name;
                fat_list_scan data n (long_filename[0 := 0]) (offset + 32) (out_nodes @
                  [\<lparr>fn_first_cluster = first_cluster, fn_size = ucast file_size,
                    fn_is_directory = (attributes AND FAT32_DIRATTR_DIRECTORY \<noteq> 0),
                    fn_name = name @ replicate (256 - length name) 0\<rparr>]) })
      else Some (True, out_nodes))"
  by pat_completeness auto
termination by (relation "measure (\<lambda>(data, n, long_filename, offset, out_nodes). n - offset)") auto

declare fat_list_scan.simps [simp del]

partial_function (option) fat_list_loop :: "fat32_fsdata \<Rightarrow> u32 \<Rightarrow> fat32_node list \<Rightarrow> (bool \<times> fat32_node list) option" where
  "fat_list_loop fs_data cluster out_nodes =
     (if cluster < FAT32_EOC32
      then (case fat32_read_from_disk fs_data cluster of
              None \<Rightarrow> None
            | Some (error, dir_data) \<Rightarrow>
                if error then Some (False, out_nodes)
                else (case fat_list_scan dir_data (cluster_bytes fs_data) (replicate 260 0) 0 out_nodes of
                        None \<Rightarrow> None
                      | Some (go_on, out_nodes) \<Rightarrow>
                          if \<not> go_on then Some (True, out_nodes)
                          else (case get_next_cluster fs_data cluster of
                                  None \<Rightarrow> None
                                | Some cluster \<Rightarrow> fat_list_loop fs_data cluster out_nodes)))
      else Some (True, out_nodes))"

definition fat32_list_directory :: "fat32_fsdata \<Rightarrow> u8 list option \<Rightarrow> fat32_node list \<Rightarrow> (bool \<times> fat32_node list) option" where
  "fat32_list_directory fs_data path out_nodes =
     (if path = None then Some (False, out_nodes)
      else do {
        (found, node) \<leftarrow> fat32_find_root fs_data path;
        if \<not> found then Some (False, out_nodes)
        else if \<not> fn_is_directory node then Some (False, out_nodes)
        else fat_list_loop fs_data (fn_first_cluster node) out_nodes })"

end
