(* ===== verification/Fat32_Tree.thy ===== *)
theory Fat32_Tree
  imports Fat32
begin

text \<open>
  The FAT32 driver against the disk format: reading a file along its cluster chain, which ends whatever the
  allocation table says, and finding the files and directories of a tree of 8.3 names.  The last section
  shows what the driver does with deleted entries, long names and chains that run in a circle.
\<close>

section \<open>Clusters\<close>

definition fat_ok :: "fat32_fsdata \<Rightarrow> bool" where
  "fat_ok fs \<longleftrightarrow> disk_ok (fat_device fs) \<and> 0 < unat (bytes_per_sector fs) \<and> 32 dvd unat (bytes_per_sector fs) \<and>
     unat (bytes_per_sector fs) \<le> unat (bd_block_size (fat_device fs)) \<and> 0 < unat (sectors_per_cluster fs)"

lemma cluster_bytes_pos: "fat_ok fs \<Longrightarrow> 0 < cluster_bytes fs \<and> 32 dvd cluster_bytes fs"
  by (simp add: fat_ok_def cluster_bytes_def)

lemma read_sectors_length: "read_sectors fs c s n data = Some (e, d) \<Longrightarrow> length d = length data"
  by (induction fs c s n data rule: read_sectors.induct)
    (auto simp: bind_Some_iff split: option.splits dest: wr_bytes_length)

lemma read_cluster_length: "fat32_read_from_disk fs c = Some (e, d) \<Longrightarrow> length d = cluster_bytes fs"
  using read_sectors_length by (fastforce simp: fat32_read_from_disk_def)

lemma read_sectors_returns:
  "disk_ok (fat_device fs) \<Longrightarrow> length data = (s + n) * unat (bytes_per_sector fs) \<Longrightarrow> read_sectors fs c s n data \<noteq> None"
proof (induction n arbitrary: s data)
  case (Suc n)
  show ?case
  proof (cases "block_device_read (fat_device fs) (ucast (cluster_to_lba fs c + of_nat s)) (ucast (bytes_per_sector fs))")
    case (Some d)
    have l: "length d = unat (bytes_per_sector fs)" using disk_ok_length [OF Suc.prems(1) Some] by (simp add: unat_ucast_up)
    have room: "s * unat (bytes_per_sector fs) + length d \<le> length data" using Suc.prems(2) by (simp add: l algebra_simps)
    let ?b = "take (s * unat (bytes_per_sector fs)) data @ d @ drop (s * unat (bytes_per_sector fs) + length d) data"
    have w: "wr_bytes data (s * unat (bytes_per_sector fs)) d = Some ?b" using room by (rule wr_bytes_Some)
    have "length ?b = (Suc s + n) * unat (bytes_per_sector fs)" using wr_bytes_length [OF w] Suc.prems(2) by simp
    from Suc.IH [OF Suc.prems(1) this] show ?thesis using Some w by simp
  qed simp
qed simp

lemma read_cluster_returns:
  assumes "fat_ok fs"
  obtains e d where "fat32_read_from_disk fs c = Some (e, d)"
  using read_sectors_returns [of fs "replicate (cluster_bytes fs) 0" 0 "unat (sectors_per_cluster fs)" c] assms that
  by (auto simp: fat32_read_from_disk_def fat_ok_def cluster_bytes_def mult.commute)

lemma get_next_cluster_returns:
  assumes "fat_ok fs"
  obtains n where "get_next_cluster fs c = Some n"
proof -
  let ?bps = "unat (bytes_per_sector fs)"
  let ?eo = "(c * 4) mod ucast (bytes_per_sector fs) :: u32"
  have ok: "0 < ?bps" "4 dvd ?bps" "?bps \<le> unat (bd_block_size (fat_device fs))" "disk_ok (fat_device fs)"
    using assms dvd_trans [of 4 32 ?bps] by (simp_all add: fat_ok_def)
  have eo: "unat ?eo = unat (c * 4) mod ?bps" by (simp add: unat_mod_distrib unat_ucast_up)
  have "4 dvd unat (c * 4)" by (simp add: unat_word_ariths mod_mod_cancel dvd_mod)
  then have "4 dvd unat ?eo" using ok(2) by (simp add: eo dvd_mod)
  moreover have "unat ?eo < ?bps" using ok(1) by (simp add: eo)
  ultimately have small: "unat ?eo + 3 < ?bps" using ok(2) by (auto simp: dvd_def)
  show thesis
  proof (cases "block_device_read (fat_device fs)
      (ucast (first_fat_sector fs + (c * 4) div ucast (bytes_per_sector fs))) (bd_block_size (fat_device fs))")
    case None
    then show ?thesis using that ok by (auto simp: get_next_cluster_def Let_def unat_gt_0)
  next
    case (Some d)
    have l: "length d = unat (bd_block_size (fat_device fs))" using disk_ok_length [OF ok(4) Some] by simp
    then obtain v where "rd32 d (unat ?eo) = Some v" using rd32_defined [of "unat ?eo" d] small ok(3) by auto
    then show ?thesis using that Some l ok(1) by (auto simp: get_next_cluster_def Let_def unat_gt_0 wr_bytes_def)
  qed
qed

section \<open>Reading a file\<close>

definition splice :: "'a list \<Rightarrow> nat \<Rightarrow> 'a list \<Rightarrow> 'a list" where
  "splice buf t xs = take t buf @ xs @ drop (t + length xs) buf"

lemma splice_facts:
  assumes "t + length xs \<le> length buf"
  shows "wr_bytes buf t xs = Some (splice buf t xs)" "length (splice buf t xs) = length buf"
    "take (t + length xs) (splice buf t xs) = take t buf @ xs"
  using assms by (simp_all add: splice_def wr_bytes_def)

lemma read_step:
  assumes "c < FAT32_EOC32" "t < n" "fat32_read_from_disk fs c = Some (False, d)" "get_next_cluster fs c = Some c'"
    and "length buf = n"
  shows "fat_read_loop fs n c t buf =
    fat_read_loop fs n c' (t + length (take (n - t) d)) (splice buf t (take (n - t) d))"
proof -
  have l: "length d = cluster_bytes fs" by (rule read_cluster_length [OF assms(3)])
  have r: "rd_bytes d 0 (min (cluster_bytes fs) (n - t)) = Some (take (n - t) d)"
    by (simp add: rd_bytes_def l min_def)
  have "t + length (take (n - t) d) \<le> length buf" using assms(2,5) by simp
  note w = splice_facts(1) [OF this]
  show ?thesis using assms(1-4) r w by (subst fat_read_loop.simps) (simp del: length_take)
qed

text \<open>The loop ends for every allocation table: it never reads more than the file's size.\<close>

lemma fat_read_loop_returns:
  assumes "fat_ok fs" "length buf = n" "t \<le> n"
  shows "\<exists>r. fat_read_loop fs n c t buf = Some r"
  using assms(2,3)
proof (induction "n - t" arbitrary: t c buf rule: less_induct)
  case less
  show ?case
  proof (cases "c < FAT32_EOC32 \<and> t < n")
    case False
    then show ?thesis by (subst fat_read_loop.simps) auto
  next
    case True
    obtain e d where d: "fat32_read_from_disk fs c = Some (e, d)" by (rule read_cluster_returns [OF assms(1)])
    obtain c' where c': "get_next_cluster fs c = Some c'" by (rule get_next_cluster_returns [OF assms(1)])
    show ?thesis
    proof (cases e)
      case True
      then show ?thesis using d \<open>c < FAT32_EOC32 \<and> t < n\<close> by (subst fat_read_loop.simps) auto
    next
      case False
      let ?t = "t + length (take (n - t) d)" and ?b = "splice buf t (take (n - t) d)"
      have le: "?t \<le> length buf" using less.prems by simp
      have "length ?b = n" using splice_facts(2) [OF le] less.prems by simp
      moreover have "n - ?t < n - t" "?t \<le> n"
        using True cluster_bytes_pos [OF assms(1)] read_cluster_length [OF d] by auto
      ultimately show ?thesis using less.hyps [of ?t ?b c'] read_step [of c t n fs d c' buf] True False d c' less.prems by simp
    qed
  qed
qed

text \<open>A chain of clusters in the allocation table, and what it holds.\<close>

fun is_chain :: "fat32_fsdata \<Rightarrow> u32 \<Rightarrow> u32 list \<Rightarrow> bool" where
  "is_chain fs c [] \<longleftrightarrow> \<not> c < FAT32_EOC32"
| "is_chain fs c (x # xs) \<longleftrightarrow> c = x \<and> c < FAT32_EOC32 \<and>
     (case get_next_cluster fs c of None \<Rightarrow> False | Some n \<Rightarrow> is_chain fs n xs)"

fun chain_data :: "fat32_fsdata \<Rightarrow> u32 list \<Rightarrow> u8 list option" where
  "chain_data fs [] = Some []"
| "chain_data fs (c # cs) =
     (case fat32_read_from_disk fs c of
        Some (False, d) \<Rightarrow> map_option (\<lambda>r. d @ r) (chain_data fs cs) | _ \<Rightarrow> None)"

lemma chain_data_Cons:
  assumes "chain_data fs (c # cs) = Some d"
  obtains d1 d2 where "fat32_read_from_disk fs c = Some (False, d1)" "chain_data fs cs = Some d2" "d = d1 @ d2"
  using assms that by (auto split: option.splits prod.splits bool.splits)

lemma fat_read_loop_chain:
  assumes "fat_ok fs"
  shows "is_chain fs c cs \<Longrightarrow> chain_data fs cs = Some d \<Longrightarrow> length buf = n \<Longrightarrow> t \<le> n \<Longrightarrow>
    \<exists>buf'. fat_read_loop fs n c t buf = Some (Some (t + min (length d) (n - t), buf')) \<and> length buf' = n \<and>
      take (t + min (length d) (n - t)) buf' = take t buf @ take (n - t) d"
proof (induction cs arbitrary: c d t buf)
  case Nil
  then show ?case by (subst fat_read_loop.simps) simp
next
  case (Cons x cs)
  obtain d1 d2 where d: "fat32_read_from_disk fs x = Some (False, d1)" "chain_data fs cs = Some d2" "d = d1 @ d2"
    by (rule chain_data_Cons [OF Cons.prems(2)])
  obtain c' where c': "c = x" "c < FAT32_EOC32" "get_next_cluster fs c = Some c'" "is_chain fs c' cs"
    using Cons.prems(1) by (auto split: option.splits)
  have l: "length d1 = cluster_bytes fs" by (rule read_cluster_length [OF d(1)])
  show ?case
  proof (cases "t < n")
    case False
    then show ?thesis using Cons.prems by (subst fat_read_loop.simps) simp
  next
    case True
    let ?x = "take (n - t) d1"
    let ?t = "t + length ?x" and ?b = "splice buf t ?x"
    have le: "?t \<le> length buf" using Cons.prems by simp
    have b: "length ?b = n" "?t \<le> n" using splice_facts(2) [OF le] le Cons.prems by simp_all
    have st: "fat_read_loop fs n c t buf = fat_read_loop fs n c' ?t ?b"
      using read_step [of c t n fs d1 c' buf] c' d(1) True Cons.prems by simp
    obtain buf' where IH: "fat_read_loop fs n c' ?t ?b = Some (Some (?t + min (length d2) (n - ?t), buf'))" "length buf' = n"
      "take (?t + min (length d2) (n - ?t)) buf' = take ?t ?b @ take (n - ?t) d2"
      using Cons.IH [OF c'(4) d(2) b] by blast
    have e: "?t + min (length d2) (n - ?t) = t + min (length d) (n - t)" "?x @ take (n - ?t) d2 = take (n - t) d"
      using d(3) by (auto simp: min_def)
    have "take (?t + min (length d2) (n - ?t)) buf' = take t buf @ take (n - t) d"
      unfolding IH(3) splice_facts(3) [OF le] append.assoc e(2) ..
    with IH(1,2) show ?thesis unfolding st e(1) by blast
  qed
qed

section \<open>Directory entries with 8.3 names\<close>

record fat_dirent =
  fd_base :: "u8 list"
  fd_ext :: "u8 list"
  fd_attr :: u8
  fd_cluster :: u32
  fd_file_size :: u32

definition dirent_bytes :: "fat_dirent \<Rightarrow> u8 list" where
  "dirent_bytes e =
     (fd_base e @ replicate (8 - length (fd_base e)) 0x20) @ (fd_ext e @ replicate (3 - length (fd_ext e)) 0x20) @
     [fd_attr e] @ replicate 8 0 @ le16 (ucast (drop_bit 16 (fd_cluster e))) @ replicate 4 0 @
     le16 (ucast (fd_cluster e)) @ le32 (fd_file_size e)"

definition dirent_name :: "fat_dirent \<Rightarrow> u8 list" where
  "dirent_name e = fd_base e @ (if fd_ext e = [] then [] else 0x2E # fd_ext e)"

definition dirent_ok :: "fat_dirent \<Rightarrow> bool" where
  "dirent_ok e \<longleftrightarrow> 1 \<le> length (fd_base e) \<and> length (fd_base e) \<le> 8 \<and> length (fd_ext e) \<le> 3 \<and>
     0 \<notin> set (fd_base e @ fd_ext e) \<and> 0x20 \<notin> set (fd_base e @ fd_ext e) \<and> fd_attr e \<noteq> FAT32_DIRATTR_LFN"

definition dirent_named :: "fat_dirent \<Rightarrow> bool" where
  "dirent_named e \<longleftrightarrow> dirent_name e \<notin> {[0x2E], [0x2E, 0x2E]}"

lemma length_dirent: "dirent_ok e \<Longrightarrow> length (dirent_bytes e) = 32"
  by (simp add: dirent_bytes_def dirent_ok_def)

lemma strip_spaces_pad:
  "b = [] \<or> last b \<noteq> 0x20 \<Longrightarrow>
   strip_spaces (b @ replicate k 0x20 @ replicate m 0) (length b + k) = b @ replicate (k + m) 0"
proof (induction k arbitrary: m)
  case 0
  then show ?case by (cases b rule: rev_cases) (simp_all add: nth_append)
next
  case (Suc k)
  have "(b @ replicate (Suc k) 0x20 @ replicate m 0)[length b + k := 0] = b @ replicate k 0x20 @ replicate (Suc m) (0 :: u8)"
    by (simp add: list_update_append flip: replicate_append_same)
  moreover have "(b @ replicate (Suc k) 0x20 @ replicate m (0 :: u8)) ! (length b + k) = 0x20"
    by (simp add: nth_append flip: replicate_append_same)
  ultimately show ?case using Suc.IH [OF Suc.prems, of "Suc m"] by simp
qed

lemma sint_u8_bound: "sint (c :: u8) < 128"
  using sint_lt [of c] by simp

lemma holds_tail: "holds data off (c # xs) \<Longrightarrow> holds data (Suc off) xs"
  using holds_append [of data off "[c]" xs] by (metis append_Cons append_Nil length_Cons list.size(3) add_Suc_right add.right_neutral)

lemma ext_loop_ok:
  assumes "holds data (off + 8 + j) (x @ replicate (n - length x) 0x20)" "length x \<le> n" "0x20 \<notin> set x"
    and "length x + length pre \<le> 12"
  shows "ext_loop data off j n (pre @ replicate (13 - length pre) 0) (length pre) =
    Some (pre @ x @ replicate (13 - length (pre @ x)) 0, length (pre @ x))"
  using assms
proof (induction x arbitrary: j n pre)
  case Nil
  show ?case
  proof (cases n)
    case (Suc m)
    then have "rd8 data (off + 8 + j) = Some 0x20" using Nil(1) holds_rd8 [of data "off + 8 + j" _ 0] by fastforce
    then show ?thesis using Suc by simp
  qed simp
next
  case (Cons c x)
  then obtain m where n: "n = Suc m" by (cases n) auto
  have c: "rd8 data (off + 8 + j) = Some c" "c \<noteq> 0x20"
    using holds_rd8 [OF Cons.prems(1), of 0] Cons.prems(3) by auto
  have h: "holds data (off + 8 + Suc j) (x @ replicate (m - length x) 0x20)"
    using holds_tail [of data "off + 8 + j" c] Cons.prems(1) n by simp
  have "13 - length pre = Suc (12 - length pre)" using Cons.prems(4) by simp
  then have w: "wr8 (pre @ replicate (13 - length pre) 0) (length pre) c = Some ((pre @ [c]) @ replicate (13 - length (pre @ [c])) 0)"
    by (simp add: wr8_def list_update_append)
  have "ext_loop data off (Suc j) m ((pre @ [c]) @ replicate (13 - length (pre @ [c])) 0) (length (pre @ [c])) =
      Some ((pre @ [c]) @ x @ replicate (13 - length ((pre @ [c]) @ x)) 0, length ((pre @ [c]) @ x))"
    by (rule Cons.IH [OF h]) (use Cons.prems n in auto)
  then show ?case using c w n by simp
qed

lemma short_name_ok:
  assumes h: "holds data off (dirent_bytes e)" and e: "dirent_ok e"
  shows "short_name data off = Some (dirent_name e @ replicate (13 - length (dirent_name e)) 0)"
proof -
  let ?b = "fd_base e" and ?x = "fd_ext e"
  have ok: "1 \<le> length ?b" "length ?b \<le> 8" "length ?x \<le> 3" "0 \<notin> set ?b" "0x20 \<notin> set ?b" "0x20 \<notin> set ?x"
    using e by (auto simp: dirent_ok_def)
  have hb: "holds data off (?b @ replicate (8 - length ?b) 0x20)"
    "holds data (off + 8) (?x @ replicate (3 - length ?x) 0x20)"
    using h ok unfolding dirent_bytes_def holds_append by simp_all
  have n: "rd_bytes data off 8 = Some (?b @ replicate (8 - length ?b) 0x20)"
    using holds_rd_bytes [OF hb(1), of 0 8] ok by simp
  have "last ?b \<noteq> 0x20" using ok by (metis last_in_set length_0_conv not_one_le_zero)
  then have st: "strip_spaces ((?b @ replicate (8 - length ?b) 0x20) @ replicate 5 0) 8 = ?b @ replicate (13 - length ?b) 0"
    using strip_spaces_pad [of ?b "8 - length ?b" 5] ok by simp
  have z: "replicate (13 - length ?b) (0 :: u8) = 0 # replicate (12 - length ?b) 0" using ok by (simp add: Suc_diff_le flip: replicate_Suc)
  have sl: "strlen (?b @ replicate (13 - length ?b) 0) = Some (length ?b)" unfolding z using ok(4) by (rule strlen_append)
  show ?thesis
  proof (cases "?x = []")
    case True
    have "rd8 data (off + 8) = Some 0x20" using holds_rd8 [OF hb(2), of 0] True by (simp add: numeral_3_eq_3)
    then show ?thesis using n st True by (simp add: short_name_def dirent_name_def)
  next
    case False
    then obtain c r where x: "?x = c # r" by (cases ?x) auto
    have "rd8 data (off + 8) = Some c" "c \<noteq> 0x20" using holds_rd8 [OF hb(2), of 0] x ok(6) by auto
    moreover have "wr8 (?b @ replicate (13 - length ?b) 0) (length ?b) 0x2E =
        Some ((?b @ [0x2E]) @ replicate (13 - length (?b @ [0x2E])) 0)"
      using ok unfolding z by (simp add: wr8_def list_update_append)
    moreover have "ext_loop data off 0 3 ((?b @ [0x2E]) @ replicate (13 - length (?b @ [0x2E])) 0) (length (?b @ [0x2E])) =
        Some ((?b @ [0x2E]) @ ?x @ replicate (13 - length ((?b @ [0x2E]) @ ?x)) 0, length ((?b @ [0x2E]) @ ?x))"
      by (rule ext_loop_ok) (use hb(2) ok in simp_all)
    moreover have "wr8 (((?b @ [0x2E]) @ ?x) @ replicate (13 - length ((?b @ [0x2E]) @ ?x)) 0) (length ((?b @ [0x2E]) @ ?x)) 0 =
        Some (((?b @ [0x2E]) @ ?x) @ replicate (13 - length ((?b @ [0x2E]) @ ?x)) 0)"
    proof -
      have "13 - length ((?b @ [0x2E]) @ ?x) = Suc (11 - length ?b - length ?x)" using ok by simp
      then show ?thesis by (simp add: wr8_def list_update_append)
    qed
    ultimately show ?thesis using n st sl False by (simp add: short_name_def dirent_name_def)
  qed
qed

lemma dirent_fields:
  assumes h: "holds data off (dirent_bytes e)" and e: "dirent_ok e"
  shows "rd8 data off = Some (hd (fd_base e))" "rd8 data (off + 11) = Some (fd_attr e)"
    "entry_first_cluster data off = Some (fd_cluster e)" "rd32 data (off + 28) = Some (fd_file_size e)"
proof -
  have ok: "1 \<le> length (fd_base e)" "length (fd_base e) \<le> 8" "length (fd_ext e) \<le> 3" using e by (auto simp: dirent_ok_def)
  have p: "holds data off (fd_base e)" "holds data (off + 11) [fd_attr e]"
    "holds data (off + 20) (le16 (ucast (drop_bit 16 (fd_cluster e))))" "holds data (off + 26) (le16 (ucast (fd_cluster e)))"
    "holds data (off + 28) (le32 (fd_file_size e))"
    using h ok unfolding dirent_bytes_def holds_append by (simp_all add: ac_simps)
  show "rd8 data off = Some (hd (fd_base e))" using holds_rd8 [OF p(1), of 0] ok by (cases "fd_base e") auto
  show "rd8 data (off + 11) = Some (fd_attr e)" using holds_rd8 [OF p(2), of 0] by simp
  show "rd32 data (off + 28) = Some (fd_file_size e)" using holds_rd32 [OF p(5), of 0] rd32_le32 [of 0 "le32 (fd_file_size e)" _ "[]"] by simp
  have "rd16 data (off + 20) = Some (ucast (drop_bit 16 (fd_cluster e)))" "rd16 data (off + 26) = Some (ucast (fd_cluster e))"
    using p(3,4) rd16_le16 unfolding holds_def by (metis append_take_drop_id)+
  moreover have "push_bit 16 (ucast (ucast (drop_bit 16 (fd_cluster e)) :: u16)) OR ucast (ucast (fd_cluster e) :: u16) = fd_cluster e"
    by (rule bit_word_eqI) (auto simp: bit_simps)
  ultimately show "entry_first_cluster data off = Some (fd_cluster e)" by (simp add: entry_first_cluster_def)
qed

lemma dirent_name_facts:
  assumes "dirent_ok e"
  shows "0 \<notin> set (dirent_name e)" "length (dirent_name e) \<le> 12"
  using assms by (auto simp: dirent_ok_def dirent_name_def)

lemma fat_entry_ok:
  assumes h: "holds data off (dirent_bytes e)" and e: "dirent_ok e"
  shows "fat_entry data off (replicate 260 0) =
    Some (if dirent_named e then Entry_Name (dirent_name e) else Entry_Skip (replicate 260 0))"
proof -
  let ?n = "dirent_name e"
  have b: "hd (fd_base e) \<noteq> 0" using e by (cases "fd_base e") (auto simp: dirent_ok_def)
  have s: "sint (hd (fd_base e)) \<noteq> 0xE5" using sint_u8_bound [of "hd (fd_base e)"] by simp
  have "replicate (13 - length ?n) (0 :: u8) = 0 # replicate (12 - length ?n) 0"
    using dirent_name_facts(2) [OF e] by (simp add: Suc_diff_le flip: replicate_Suc)
  then have l: "strlen (?n @ replicate (13 - length ?n) 0) = Some (length ?n)"
    using strlen_append [OF dirent_name_facts(1) [OF e]] by simp
  have u: "(replicate 260 0)[0 := 0] = replicate 260 (0 :: u8)" by (rule list_update_same_conv [THEN iffD2]) simp_all
  have q: "streq ?n [0x2E] \<longleftrightarrow> ?n = [0x2E]" "streq ?n [0x2E, 0x2E] \<longleftrightarrow> ?n = [0x2E, 0x2E]"
    using streq_eq [OF dirent_name_facts(1) [OF e]] by auto
  have a: "fd_attr e \<noteq> FAT32_DIRATTR_LFN" using e by (simp add: dirent_ok_def)
  show ?thesis using dirent_fields(1,2) [OF h e] short_name_ok [OF h e] b s l u q a
    by (simp add: fat_entry_def dirent_named_def Let_def)
qed

section \<open>Searching a directory\<close>

definition ents :: "fat_dirent list \<Rightarrow> u8 list" where
  "ents es = concat (map dirent_bytes es)"

definition same_name :: "u8 list \<Rightarrow> u8 list \<Rightarrow> bool" where
  "same_name a b \<longleftrightarrow> map to_uppercase a = map to_uppercase b"

definition matches :: "u8 list \<Rightarrow> fat_dirent \<Rightarrow> bool" where
  "matches cs e \<longleftrightarrow> dirent_named e \<and> same_name (dirent_name e) cs"

lemma ents_simps [simp]: "ents [] = []" "ents (e # es) = dirent_bytes e @ ents es"
  by (simp_all add: ents_def)

lemma length_ents: "\<forall>e \<in> set es. dirent_ok e \<Longrightarrow> length (ents es) = 32 * length es"
  by (induction es) (simp_all add: length_dirent)

lemma ents_take_drop: "ents es = ents (take m es) @ ents (drop m es)"
  by (metis append_take_drop_id concat_append ents_def map_append)

lemma compare_zero: "0 \<notin> set a \<Longrightarrow> 0 \<notin> set b \<Longrightarrow> compare_ascii_case_insensitive a b = 0 \<longleftrightarrow> same_name a b"
proof (induction a b rule: compare_ascii_case_insensitive.induct)
  case (1 a as b bs)
  have "sint (to_uppercase a) - sint (to_uppercase b) = 0 \<longleftrightarrow> to_uppercase a = to_uppercase b"
    by (auto intro: signed_word_eqI)
  then show ?case using 1 by (auto simp: same_name_def)
qed (auto simp: same_name_def signed_eq_0_iff)

lemma scan_entry:
  assumes h: "holds data off (dirent_bytes e)" and e: "dirent_ok e" and cs: "0 \<notin> set cs" "off < n"
  shows "fat_scan data n cs (replicate 260 0) off =
    (if matches cs e then Some (Scan_Hit off (dirent_name e)) else fat_scan data n cs (replicate 260 0) (off + 32))"
proof -
  have u: "(replicate 260 0)[0 := 0] = replicate 260 (0 :: u8)" by (rule list_update_same_conv [THEN iffD2]) simp_all
  show ?thesis using fat_entry_ok [OF h e] compare_zero [OF dirent_name_facts(1) [OF e] cs(1)] cs(2) u
    by (subst fat_scan.simps) (simp add: matches_def)
qed

lemma scan_entries:
  assumes "holds data off (ents es)" "\<forall>e \<in> set es. dirent_ok e" "0 \<notin> set cs" "off + 32 * length es \<le> n"
  shows "case find (matches cs) es of
      None \<Rightarrow> fat_scan data n cs (replicate 260 0) off = fat_scan data n cs (replicate 260 0) (off + 32 * length es)
    | Some e \<Rightarrow> \<exists>q. fat_scan data n cs (replicate 260 0) off = Some (Scan_Hit q (dirent_name e)) \<and> holds data q (dirent_bytes e)"
  using assms(1,2,4)
proof (induction es arbitrary: off)
  case (Cons e es)
  have e: "dirent_ok e" "holds data off (dirent_bytes e)" "holds data (off + 32) (ents es)"
    using Cons.prems by (auto simp: holds_append length_dirent)
  have off: "off < n" "off + 32 + 32 * length es \<le> n" using Cons.prems(3) by simp_all
  note st = scan_entry [OF e(2,1) assms(3) off(1)]
  show ?case
  proof (cases "matches cs e")
    case True
    then show ?thesis using st e(2) by auto
  next
    case False
    then have "find (matches cs) (e # es) = find (matches cs) es" by simp
    then show ?thesis using False st Cons.IH [OF e(3) _ off(2)] Cons.prems(2)
      by (cases "find (matches cs) es") (simp_all add: add.assoc)
  qed
qed simp

lemma find_append: "find P (xs @ ys) = (case find P xs of None \<Rightarrow> find P ys | Some x \<Rightarrow> Some x)"
  by (induction xs) auto

lemma search_chain:
  assumes fs: "fat_ok fs" and cs: "0 \<notin> set cs" and tail: "tail = [] \<or> hd tail = 0"
  shows "is_chain fs c chain \<Longrightarrow> chain_data fs chain = Some (ents es @ tail) \<Longrightarrow> \<forall>e \<in> set es. dirent_ok e \<Longrightarrow>
    case find (matches cs) es of
      None \<Rightarrow> fat_search fs cs c = Some Search_None
    | Some e \<Rightarrow> \<exists>data q. fat_search fs cs c = Some (Search_Hit data q (dirent_name e)) \<and> holds data q (dirent_bytes e)"
proof (induction chain arbitrary: c es)
  case Nil
  then have "es = []" by (cases es) (use length_dirent in fastforce)+
  moreover have "\<not> c < FAT32_EOC32" using Nil by simp
  ultimately show ?case by (subst fat_search.simps) simp
next
  case (Cons x chain)
  obtain d1 d2 where d: "fat32_read_from_disk fs x = Some (False, d1)" "chain_data fs chain = Some d2" "ents es @ tail = d1 @ d2"
    by (rule chain_data_Cons [OF Cons.prems(2)])
  obtain c' where c': "c = x" "c < FAT32_EOC32" "get_next_cluster fs c = Some c'" "is_chain fs c' chain"
    using Cons.prems(1) by (auto split: option.splits)
  obtain m where m: "length d1 = 32 * m" "cluster_bytes fs = 32 * m" "0 < m"
    using read_cluster_length [OF d(1)] cluster_bytes_pos [OF fs] by (auto simp: dvd_def)
  let ?L = "replicate 260 (0 :: u8)"
  have ok: "\<forall>e \<in> set (take m es). dirent_ok e" "\<forall>e \<in> set (drop m es). dirent_ok e"
    using Cons.prems(3) by (auto dest: in_set_takeD in_set_dropD)
  have step: "fat_search fs cs c = (case fat_scan d1 (32 * m) cs ?L 0 of
      None \<Rightarrow> None | Some Scan_End \<Rightarrow> Some Search_None
    | Some (Scan_Hit offset name) \<Rightarrow> Some (Search_Hit d1 offset name)
    | Some Scan_More \<Rightarrow> fat_search fs cs c')"
    using c' d(1) m(2) by (subst fat_search.simps) (simp split: option.splits scan_result.splits)
  show ?case
  proof (cases "m \<le> length es")
    case True
    have l: "length (ents (take m es)) = length d1" using length_ents [OF ok(1)] True m(1) by simp
    have eq: "ents (take m es) @ (ents (drop m es) @ tail) = d1 @ d2" using d(3) ents_take_drop [of es m] by simp
    have d12: "d1 = ents (take m es)" "d2 = ents (drop m es) @ tail" using eq l by simp_all
    have len: "length (take m es) = m" using True by simp
    have sc: "case find (matches cs) (take m es) of
        None \<Rightarrow> fat_scan d1 (32 * m) cs ?L 0 = fat_scan d1 (32 * m) cs ?L (0 + 32 * m)
      | Some e \<Rightarrow> \<exists>q. fat_scan d1 (32 * m) cs ?L 0 = Some (Scan_Hit q (dirent_name e)) \<and> holds d1 q (dirent_bytes e)"
      using scan_entries [of d1 0 "take m es" cs "32 * m", OF _ ok(1) cs] holds_all [of d1] unfolding len
      by (simp add: d12(1))
    have "fat_scan d1 (32 * m) cs ?L (0 + 32 * m) = Some Scan_More" by (subst fat_scan.simps) simp
    with sc step Cons.IH [OF c'(4) _ ok(2)] d(2) d12(2) find_append [of "matches cs" "take m es" "drop m es"] show ?thesis
      by (auto split: option.splits)
  next
    case False
    have l: "length (ents es) = 32 * length es" by (rule length_ents [OF Cons.prems(3)])
    then have lt: "length (ents es) < length d1" using False m by simp
    have "d1 = take (length d1) (ents es @ tail)" using d(3) by simp
    also have "\<dots> = ents es @ take (length d1 - length (ents es)) tail" using lt by simp
    finally have d1: "d1 = ents es @ take (length d1 - length (ents es)) tail" .
    have "tail \<noteq> []" using d1 lt by (metis append.right_neutral nat_neq_iff take_Nil)
    then have z: "hd (take (length d1 - length (ents es)) tail) = 0" "take (length d1 - length (ents es)) tail \<noteq> []"
      using tail lt by (auto simp: hd_take)
    have "holds d1 0 (ents es @ take (length d1 - length (ents es)) tail)" using holds_all [of d1] unfolding d1 [symmetric] .
    then have h: "holds d1 0 (ents es)" "holds d1 (32 * length es) (take (length d1 - length (ents es)) tail)"
      unfolding holds_append l by simp_all
    have "rd8 d1 (32 * length es) = Some 0" using holds_rd8 [OF h(2), of 0] z by (auto simp: hd_conv_nth)
    then have "fat_entry d1 (32 * length es) ?L = Some Entry_End" by (simp add: fat_entry_def)
    moreover have le: "32 * length es < 32 * m" "0 + 32 * length es \<le> 32 * m" using False by simp_all
    ultimately have "fat_scan d1 (32 * m) cs ?L (32 * length es) = Some Scan_End" by (subst fat_scan.simps) simp
    with scan_entries [OF h(1) Cons.prems(3) cs le(2)] step show ?thesis by (auto split: option.splits)
  qed
qed

section \<open>Trees on the disk\<close>

text \<open>A directory has the entries it is skipped by (\<open>.\<close> and \<open>..\<close>), its cluster chain, what follows the entries, and its items.\<close>

datatype fat_item = Fat_File fat_dirent | Fat_Dir fat_dirent "fat_dirent list" "u32 list" "u8 list" "fat_item list"

primrec item_entry :: "fat_item \<Rightarrow> fat_dirent" where
  "item_entry (Fat_File e) = e"
| "item_entry (Fat_Dir e dots chain tail items) = e"

fun fat_on_disk :: "fat32_fsdata \<Rightarrow> fat_item \<Rightarrow> bool" where
  "fat_on_disk fs (Fat_File e) \<longleftrightarrow> fd_attr e AND FAT32_DIRATTR_DIRECTORY = 0"
| "fat_on_disk fs (Fat_Dir e dots chain tail items) \<longleftrightarrow>
     fd_attr e AND FAT32_DIRATTR_DIRECTORY \<noteq> 0 \<and>
     is_chain fs (fd_cluster e) chain \<and>
     chain_data fs chain = Some (ents (dots @ map item_entry items) @ tail) \<and> (tail = [] \<or> hd tail = 0) \<and>
     (\<forall>d \<in> set dots. dirent_ok d \<and> \<not> dirent_named d) \<and>
     (\<forall>i \<in> set items. dirent_ok (item_entry i) \<and> dirent_named (item_entry i) \<and> fat_on_disk fs i)"

fun fat_resolve :: "fat_item \<Rightarrow> u8 list list \<Rightarrow> fat_item option" where
  "fat_resolve i [] = Some i"
| "fat_resolve (Fat_File e) (p # ps) = None"
| "fat_resolve (Fat_Dir e dots chain tail items) (p # ps) =
     (case find (\<lambda>i. same_name (dirent_name (item_entry i)) p) items of None \<Rightarrow> None | Some i \<Rightarrow> fat_resolve i ps)"

primrec fat_found :: "fat_item \<Rightarrow> u64 \<Rightarrow> fat32_node" where
  "fat_found (Fat_File e) sz = \<lparr>fn_first_cluster = fd_cluster e, fn_size = ucast (fd_file_size e), fn_is_directory = False,
     fn_name = dirent_name e @ replicate (256 - length (dirent_name e)) 0\<rparr>"
| "fat_found (Fat_Dir e dots chain tail items) sz = \<lparr>fn_first_cluster = fd_cluster e, fn_size = sz, fn_is_directory = True,
     fn_name = [0x2F, 0] @ replicate 254 0\<rparr>"

text \<open>The size a found directory gets: the caller's for the start, else the one of its entry.\<close>

definition found_size :: "u64 \<Rightarrow> u8 list list \<Rightarrow> fat_item \<Rightarrow> u64" where
  "found_size sz ps i = (if ps = [] then sz else ucast (fd_file_size (item_entry i)))"

lemma search_items:
  assumes "fat_ok fs" "fat_on_disk fs (Fat_Dir e dots chain tail items)" "0 \<notin> set cs"
  shows "case find (\<lambda>i. same_name (dirent_name (item_entry i)) cs) items of
      None \<Rightarrow> fat_search fs cs (fd_cluster e) = Some Search_None
    | Some i \<Rightarrow> \<exists>data q. fat_search fs cs (fd_cluster e) = Some (Search_Hit data q (dirent_name (item_entry i))) \<and>
        holds data q (dirent_bytes (item_entry i)) \<and> dirent_ok (item_entry i) \<and> fat_on_disk fs i"
proof -
  let ?es = "dots @ map item_entry items"
  have d: "is_chain fs (fd_cluster e) chain" "chain_data fs chain = Some (ents ?es @ tail)" "tail = [] \<or> hd tail = 0"
    "\<forall>d \<in> set dots. dirent_ok d \<and> \<not> dirent_named d"
    "\<forall>i \<in> set items. dirent_ok (item_entry i) \<and> dirent_named (item_entry i) \<and> fat_on_disk fs i"
    using assms(2) by auto
  have "\<forall>e \<in> set ?es. dirent_ok e" using d(4,5) by auto
  note s = search_chain [OF assms(1,3) d(3,1,2) this]
  have dots: "find (matches cs) dots = None" using d(4) by (auto simp: find_None_iff matches_def)
  have items: "find (matches cs) (map item_entry its) = map_option item_entry (find (\<lambda>i. same_name (dirent_name (item_entry i)) cs) its)"
    if "set its \<subseteq> set items" for its
    using that d(5) by (induction its) (auto simp: matches_def)
  have f: "find (matches cs) ?es = map_option item_entry (find (\<lambda>i. same_name (dirent_name (item_entry i)) cs) items)"
    using items [of items] by (simp add: find_append dots)
  show ?thesis
  proof (cases "find (\<lambda>i. same_name (dirent_name (item_entry i)) cs) items")
    case None
    then show ?thesis using s f by simp
  next
    case (Some i)
    then have "i \<in> set items" by (auto simp: find_Some_iff)
    then show ?thesis using s f Some d(5) by auto
  qed
qed

lemma fat_find_resolves:
  assumes fs: "fat_ok fs"
  shows "fat_on_disk fs (Fat_Dir e dots chain tail items) \<Longrightarrow> path_ok path \<Longrightarrow>
    path_parts path \<noteq> [] \<or> is_root_path path \<Longrightarrow> length (cstr_bytes path) < fuel \<Longrightarrow>
    fat32_find_node fuel fs path sz (fd_cluster e) fat32_node_zero =
      Some (case fat_resolve (Fat_Dir e dots chain tail items) (path_parts path) of
              None \<Rightarrow> (False, fat32_node_zero) | Some i \<Rightarrow> (True, fat_found i (found_size sz (path_parts path) i)))"
proof (induction fuel arbitrary: e dots chain tail items path sz)
  case (Suc fuel)
  show ?case
  proof (cases "is_root_path path")
    case True
    have "(replicate 256 (0 :: u8))[0 := 0x2F, 1 := 0] = [0x2F, 0] @ replicate 254 0" by (simp add: numeral_eq_Suc)
    then show ?thesis using is_root_path_parts [OF Suc.prems(2) True] True
      by (simp add: fat32_node_zero_def found_size_def)
  next
    case False
    obtain ps where ps: "split_path path = Some ps" "list_all2 is_str ps (path_parts path)"
      by (rule split_path_parts [OF Suc.prems(2)])
    obtain c cs where parts: "path_parts path = c # cs" using False Suc.prems(3) by (cases "path_parts path") auto
    obtain p ps' where p: "ps = p # ps'" "is_str p c" "list_all2 is_str ps' cs"
      using ps(2) by (auto simp: parts list_all2_Cons2)
    obtain t where t: "c_str p = Some t" "cstr_bytes t = c" using is_str_c_str [OF p(2)] by auto
    have z: "0 \<notin> set c" using p(2) by (simp add: is_str_def)
    have len: "length ps = Suc (length cs)" using p by (simp add: list_all2_lengthD)
    obtain rest where rest: "remaining_path ps = Some rest" "path_ok rest" "path_parts rest = cs"
      "cstr_bytes rest = join_path cs" "length (cstr_bytes rest) < length (cstr_bytes path)"
      using remaining_path_parts [OF Suc.prems(2) ps(2)] p(1) parts by auto
    note s = search_items [OF fs Suc.prems(1) z]
    show ?thesis
    proof (cases "find (\<lambda>i. same_name (dirent_name (item_entry i)) c) items")
      case None
      then show ?thesis using False ps(1) p(1) t s parts by simp
    next
      case (Some i)
      then obtain d q where q: "fat_search fs c (fd_cluster e) = Some (Search_Hit d q (dirent_name (item_entry i)))"
        "holds d q (dirent_bytes (item_entry i))" "dirent_ok (item_entry i)" "fat_on_disk fs i" using s by auto
      note f = dirent_fields [OF q(2,3)]
      show ?thesis
      proof (cases i)
        case (Fat_File e')
        then have "fd_attr e' AND FAT32_DIRATTR_DIRECTORY = 0" using q(4) by simp
        moreover have "wr_bytes (replicate 256 0) 0 (dirent_name e') = Some (dirent_name e' @ replicate (256 - length (dirent_name e')) 0)"
          using dirent_name_facts(2) [OF q(3)] Fat_File by (simp add: wr_bytes_def)
        ultimately show ?thesis using False ps(1) p(1) t q(1) f(2,3,4) Fat_File Some parts len
          by (cases cs) (simp_all add: fat32_node_zero_def)
      next
        case (Fat_Dir e' dots' chain' tail' items')
        then have fl: "fd_attr e' AND FAT32_DIRATTR_DIRECTORY \<noteq> 0" using q(4) by simp
        have r: "path_parts rest \<noteq> [] \<or> is_root_path rest"
          using rest(2,3,4) is_root_path_iff [of rest] by (cases cs) simp_all
        have "fat_on_disk fs (Fat_Dir e' dots' chain' tail' items')" using q(4) Fat_Dir by simp
        from Suc.IH [OF this rest(2) r, unfolded rest(3)] rest(5) Suc.prems(4)
        have IH: "fat32_find_node fuel fs rest (ucast (fd_file_size e')) (fd_cluster e') fat32_node_zero =
            Some (case fat_resolve (Fat_Dir e' dots' chain' tail' items') cs of None \<Rightarrow> (False, fat32_node_zero)
              | Some i \<Rightarrow> (True, fat_found i (found_size (ucast (fd_file_size e')) cs i)))" by simp
        have sz: "found_size (ucast (fd_file_size e')) cs j = found_size sz (path_parts path) j"
          if "fat_resolve (Fat_Dir e' dots' chain' tail' items') cs = Some j" for j
          using that by (cases cs) (auto simp: found_size_def parts)
        show ?thesis using False ps(1) p(1) t q(1) f(2,3,4) Fat_Dir Some parts fl rest(1) IH sz
          by (auto split: option.splits simp del: fat_on_disk.simps)
      qed
    qed
  qed
qed simp

section \<open>What the format allows and the code does not handle\<close>

text \<open>A deleted entry begins with \<open>0xE5\<close>; compared with a signed \<open>char\<close> that never holds, so its file is still found.\<close>

lemma deleted_entry_named:
  assumes "holds data off (dirent_bytes e)" "dirent_ok e" "dirent_named e" "hd (fd_base e) = 0xE5"
  shows "fat_entry data off (replicate 260 0) = Some (Entry_Name (dirent_name e))"
  using fat_entry_ok [OF assms(1,2)] assms(3) by simp

text \<open>A part of a long name is copied without its end, so what an earlier, longer name left stays behind it.\<close>

definition lfn_demo :: "u8 list" where
  "lfn_demo = [0x41] @ concat (map (\<lambda>c. [c, 0]) (b8 ''a.txt'')) @ [0x0F, 0, 0] @ [0, 0] @ replicate 10 0xFF @ [0, 0] @ replicate 4 0xFF"

lemma stale_long_name:
  "lfn_part lfn_demo 0 (0 # b8 ''eadme.markdown'' @ replicate 245 0) = Some (b8 ''a.txte.markdown'' @ replicate 245 0)"
  by code_simp

text \<open>A cluster that is its own successor in the allocation table: the search for a name that is not in it does not end.\<close>

lemma search_cycle_diverges:
  assumes "c < FAT32_EOC32" "fat32_read_from_disk fs c = Some (False, d)" "get_next_cluster fs c = Some c"
    and "fat_scan d (cluster_bytes fs) cs (replicate 260 0) 0 = Some Scan_More"
  shows "fat_search fs cs c = None"
proof (rule ccontr)
  assume "fat_search fs cs c \<noteq> None"
  then obtain r where "fat_search fs cs c = Some r" by auto
  moreover have "\<not> (f = fs \<and> t = cs \<and> x = c)" if "fat_search f t x = Some y" for f t x y
    using that
  proof (rule fat_search.raw_induct [where P = "\<lambda>f t x y. \<not> (f = fs \<and> t = cs \<and> x = c)", rotated], goal_cases)
    case (1 search f t x y)
    show ?case
    proof
      assume "f = fs \<and> t = cs \<and> x = c"
      with 1(2) have "search fs cs c = Some y" using assms by simp
      with 1(1) show False by blast
    qed
  qed
  ultimately show False by blast
qed

text \<open>Block devices with sectors of more than 514 bytes are never taken for FAT32.\<close>

lemma validate_large_sector: "514 < sz \<Longrightarrow> fat32_validate buffer sz = Some False"
  by (simp add: fat32_validate_def)

section \<open>Properties\<close>

definition fat_mounted :: "fat32_fsdata \<Rightarrow> fat_dirent \<Rightarrow> u32 list \<Rightarrow> u8 list \<Rightarrow> fat_item list \<Rightarrow> bool" where
  "fat_mounted fs root chain tail items \<longleftrightarrow> fat_ok fs \<and> fd_cluster root = root_cluster fs \<and>
     fat_on_disk fs (Fat_Dir root [] chain tail items)"

lemma fat_find_root:
  assumes "fat_mounted fs root chain tail items" "path_ok path" "path_parts path \<noteq> [] \<or> is_root_path path"
  shows "fat32_find_root fs path = Some (case fat_resolve (Fat_Dir root [] chain tail items) (path_parts path) of
    None \<Rightarrow> (False, fat32_node_zero)
  | Some i \<Rightarrow> (True, fat_found i (found_size (of_nat (cluster_bytes fs)) (path_parts path) i)))"
proof -
  have m: "fat_ok fs" "fat_on_disk fs (Fat_Dir root [] chain tail items)" "fd_cluster root = root_cluster fs"
    using assms(1) by (simp_all add: fat_mounted_def del: fat_on_disk.simps)
  show ?thesis using fat_find_resolves [OF m(1,2) assms(2,3), of "Suc (length (cstr_bytes path))" "of_nat (cluster_bytes fs)"] m(3)
    by (simp add: fat32_find_root_def)
qed

lemma fat_found_directory: "fn_is_directory (fat_found i sz) \<longleftrightarrow> (\<forall>e. i \<noteq> Fat_File e)"
  by (cases i) simp_all

text \<open>A volume with sectors of 32 bytes: the table, a root directory with one file, and the file's two clusters.\<close>

definition demo_file :: fat_dirent where
  "demo_file = \<lparr>fd_base = b8 ''A'', fd_ext = b8 ''TXT'', fd_attr = 0x20, fd_cluster = 3, fd_file_size = 40\<rparr>"

definition demo_root :: fat_dirent where
  "demo_root = \<lparr>fd_base = [], fd_ext = [], fd_attr = FAT32_DIRATTR_DIRECTORY, fd_cluster = 2, fd_file_size = 0\<rparr>"

definition demo_volume :: "u64 \<Rightarrow> u8 list option" where
  "demo_volume lba =
     (if lba = 1 then Some (concat (map le32 [0, 0, FAT32_EOC32, 4, FAT32_EOC32, 0, 0, 0]))
      else if lba = 2 then Some (dirent_bytes demo_file)
      else if lba = 3 then Some (replicate 32 7) else if lba = 4 then Some (replicate 32 9) else None)"

definition demo_fat :: fat32_fsdata where
  "demo_fat = \<lparr>fat_device = \<lparr>bd_read = (\<lambda>lba sz. if sz = 32 then demo_volume lba else None),
       bd_start_lba = 0, bd_end_lba = 5, bd_block_size = 32\<rparr>,
     bytes_per_sector = 32, sectors_per_cluster = 1, sectors_per_fat = 1, first_fat_sector = 1,
     first_data_sector = 2, root_cluster = 2\<rparr>"

lemma demo_fat_mounted: "fat_mounted demo_fat demo_root [2] [] [Fat_File demo_file]"
proof -
  have "length (dirent_bytes demo_file) = 32" by code_simp
  then have "disk_ok (fat_device demo_fat)" by (auto simp: disk_ok_def demo_fat_def demo_volume_def)
  then have "fat_ok demo_fat" by (simp add: fat_ok_def) (simp add: demo_fat_def)
  moreover have "fat_on_disk demo_fat (Fat_Dir demo_root [] [2] [] [Fat_File demo_file])" by code_simp
  ultimately show ?thesis by (simp add: fat_mounted_def demo_fat_def demo_root_def)
qed

text \<open>
  C18. On a volume that holds a directory tree of 8.3 names, the FAT32 driver finds exactly the files and
  directories of the tree: a path names a node if and only if following its parts through the tree does, with
  letters compared without case; a file comes with its first cluster and its size.
\<close>

theorem fat32_driver_refines_tree:
  assumes "fat_mounted fs root chain tail items" "path_ok path" "path_parts path \<noteq> [] \<or> is_root_path path"
  shows "fat32_file_exists fs path = Some (\<exists>e. fat_resolve (Fat_Dir root [] chain tail items) (path_parts path) = Some (Fat_File e)) \<and>
    fat32_directory_exists fs path =
      Some (\<exists>e d c t its. fat_resolve (Fat_Dir root [] chain tail items) (path_parts path) = Some (Fat_Dir e d c t its)) \<and>
    (\<forall>e. fat_resolve (Fat_Dir root [] chain tail items) (path_parts path) = Some (Fat_File e) \<longrightarrow>
      (\<exists>node. fat32_find_root fs path = Some (True, node) \<and> fn_first_cluster node = fd_cluster e \<and>
        fn_size node = ucast (fd_file_size e) \<and> \<not> fn_is_directory node))"
proof (intro conjI allI impI)
  note r = fat_find_root [OF assms]
  let ?r = "fat_resolve (Fat_Dir root [] chain tail items) (path_parts path)"
  show "fat32_file_exists fs path = Some (\<exists>e. ?r = Some (Fat_File e))"
    using r by (cases ?r) (auto simp: fat32_file_exists_def fat_found_directory)
  have "(\<forall>e. i \<noteq> Fat_File e) \<longleftrightarrow> (\<exists>e d c t its. i = Fat_Dir e d c t its)" for i by (cases i) auto
  then show "fat32_directory_exists fs path = Some (\<exists>e d c t its. ?r = Some (Fat_Dir e d c t its))"
    using r by (cases ?r) (auto simp: fat32_directory_exists_def fat_found_directory)
  show "\<exists>node. fat32_find_root fs path = Some (True, node) \<and> fn_first_cluster node = fd_cluster e \<and>
        fn_size node = ucast (fd_file_size e) \<and> \<not> fn_is_directory node" if "?r = Some (Fat_File e)" for e
    using r that by simp
qed

text \<open>
  C19. Reading a file ends whatever the allocation table says, even if the file's chain runs in a circle.  If the
  clusters from the file's first one on form a chain, the answer is what they hold up to the file's size, and the size
  is cut to what the chain holds.
\<close>

theorem fat32_read_file:
  assumes "fat_ok fs" "fat32_find_root fs path = Some (True, node)" "\<not> fn_is_directory node" "\<And>n. length (raw n) = n"
  shows "fat32_read True raw fs path out \<noteq> None \<and>
    (is_chain fs (fn_first_cluster node) chain \<and> chain_data fs chain = Some d \<longrightarrow>
      (\<exists>buf. fat32_read True raw fs path out = Some (True, Some buf, of_nat (min (length d) (unat (fn_size node)))) \<and>
        take (min (length d) (unat (fn_size node))) buf = take (unat (fn_size node)) d))"
proof (intro conjI impI)
  let ?n = "unat (fn_size node)"
  have l: "length (raw ?n) = ?n" by (rule assms(4))
  obtain r where r: "fat_read_loop fs ?n (fn_first_cluster node) 0 (raw ?n) = Some r"
    using fat_read_loop_returns [OF assms(1) l] by blast
  then show "fat32_read True raw fs path out \<noteq> None" using assms(2,3) by (auto simp: fat32_read_def split: option.splits)
  assume "is_chain fs (fn_first_cluster node) chain \<and> chain_data fs chain = Some d"
  then have c: "is_chain fs (fn_first_cluster node) chain" "chain_data fs chain = Some d" by simp_all
  from fat_read_loop_chain [OF assms(1) c l, of 0] obtain buf where
    "fat_read_loop fs ?n (fn_first_cluster node) 0 (raw ?n) = Some (Some (min (length d) ?n, buf))"
    "take (min (length d) ?n) buf = take ?n d" by auto
  then show "\<exists>buf. fat32_read True raw fs path out = Some (True, Some buf, of_nat (min (length d) ?n)) \<and>
      take (min (length d) ?n) buf = take ?n d"
    using assms(2,3) by (auto simp: fat32_read_def min_def)
qed

theorem fat32_driver_refines_tree_witness:
  "fat32_file_exists demo_fat (Some (b8 ''/a.txt'')) = Some True"
proof -
  have "path_ok (Some (b8 ''/a.txt''))" "path_parts (Some (b8 ''/a.txt'')) = [b8 ''a.txt'']"
    by (simp add: path_ok_def cstr_bytes_def b8_def) code_simp
  moreover have "fat_resolve (Fat_Dir demo_root [] [2] [] [Fat_File demo_file]) [b8 ''a.txt''] = Some (Fat_File demo_file)" by code_simp
  ultimately show ?thesis using fat32_driver_refines_tree [OF demo_fat_mounted, of "Some (b8 ''/a.txt'')"] by auto
qed

theorem fat32_read_file_witness:
  "\<exists>buf. fat32_read True (\<lambda>n. replicate n 0) demo_fat (Some (b8 ''/a.txt'')) (None, 0) = Some (True, Some buf, 40) \<and>
     take 40 buf = replicate 32 7 @ replicate 8 9"
proof -
  have p: "path_ok (Some (b8 ''/a.txt''))" "path_parts (Some (b8 ''/a.txt'')) = [b8 ''a.txt'']"
    by (simp add: path_ok_def cstr_bytes_def b8_def) code_simp
  have "fat_resolve (Fat_Dir demo_root [] [2] [] [Fat_File demo_file]) [b8 ''a.txt''] = Some (Fat_File demo_file)" by code_simp
  then obtain node where n: "fat32_find_root demo_fat (Some (b8 ''/a.txt'')) = Some (True, node)"
    "fn_first_cluster node = 3" "fn_size node = 40" "\<not> fn_is_directory node"
    using fat_find_root [OF demo_fat_mounted p(1)] p(2) by (auto simp: demo_file_def)
  have c: "is_chain demo_fat 3 [3, 4]" "chain_data demo_fat [3, 4] = Some (replicate 32 7 @ replicate 32 9)" by code_simp+
  have "fat_ok demo_fat" using demo_fat_mounted by (simp add: fat_mounted_def)
  from fat32_read_file [OF this n(1,4), of "\<lambda>n. replicate n 0" "(None, 0)" "[3, 4]" "replicate 32 7 @ replicate 32 9"] n c
  show ?thesis by simp
qed

end
