(* ===== verification/Vfs.thy ===== *)
theory Vfs
  imports Iso9660_Tree Fat32 Containers
begin

text \<open>
  The virtual file system: \<open>src/kernel/src/filesystems/vfs.cpp\<close>.
  A mount point's interface and data are one value whose constructor says which file system it is; calling
  through the interface is the case distinction on it.  Names and paths in the maps are texts, which is what
  comparing \<open>std::string\<close> keys compares (\<open>Std_String\<close>).  The pointers \<open>vfs\<close> and \<open>path\<close> are not null.
  \<open>get_filesystem\<close> uses its buffer unchecked, so it is taken to exist.
\<close>

section \<open>State\<close>

definition FILE_DESCRIPTOR_INVALID :: u64 where "FILE_DESCRIPTOR_INVALID = -1"
definition MOUNT_POINT_MAX_NAME_LEN :: nat where "MOUNT_POINT_MAX_NAME_LEN = 256"
definition MOUNT_POINT_MAX_LOGICAL_NAME_LEN :: nat where "MOUNT_POINT_MAX_LOGICAL_NAME_LEN = 256"

datatype fs_type = FS_UNKNOWN | FS_ISO9660 | FS_FAT32

datatype filesystem = Fs_Fat32 fat32_fsdata | Fs_Iso9660 iso9660_fsdata

record vfs_node =
  vn_name :: "u8 list"
  vn_size :: u64
  vn_is_directory :: bool

record vfs_mount_point =
  mp_name :: "u8 list"
  mp_logical_name :: "u8 list"
  mp_filesystem :: filesystem

record vfs =
  mount_points :: "(u8 list, vfs_mount_point) linear_map"
  logical_to_mount_map :: "(u64, u8 list) linear_map"
  file_handles :: "(u64, u8 list) linear_map"
  last_fd :: u64

definition vfs_init :: vfs where
  "vfs_init = \<lparr>mount_points = [], logical_to_mount_map = [], file_handles = [], last_fd = 0\<rparr>"

section \<open>The interface of a file system\<close>

text \<open>\<open>raw\<close> are the contents of fresh blocks, \<open>mem1\<close> and \<open>mem2\<close> the answers of the allocations.\<close>

definition interface_file_exists :: "filesystem \<Rightarrow> u8 list option \<Rightarrow> bool option" where
  "interface_file_exists fs path =
     (case fs of Fs_Fat32 d \<Rightarrow> fat32_file_exists d path | Fs_Iso9660 d \<Rightarrow> iso9660_file_exists d path)"

definition interface_read :: "bool \<Rightarrow> bool \<Rightarrow> (nat \<Rightarrow> u8 list) \<Rightarrow> filesystem \<Rightarrow> u8 list option \<Rightarrow> u8 list option \<times> u64 \<Rightarrow>
    (bool \<times> u8 list option \<times> u64) option" where
  "interface_read mem1 mem2 raw fs path out =
     (case fs of Fs_Fat32 d \<Rightarrow> fat32_read mem1 raw d path out | Fs_Iso9660 d \<Rightarrow> iso9660_read mem1 mem2 d path out)"

definition cstr_text :: "u8 list \<Rightarrow> u8 list option" where
  "cstr_text b = map_option (\<lambda>n. take n b) (strlen b)"

fun fat_vfs_nodes :: "fat32_node list \<Rightarrow> vfs_node list \<Rightarrow> vfs_node list option" where
  "fat_vfs_nodes [] out = Some out"
| "fat_vfs_nodes (n # ns) out =
     do { name \<leftarrow> cstr_text (fn_name n);
          fat_vfs_nodes ns (out @ [\<lparr>vn_name = name, vn_size = fn_size n, vn_is_directory = fn_is_directory n\<rparr>]) }"

fun iso_vfs_nodes :: "iso9660_node list \<Rightarrow> vfs_node list \<Rightarrow> vfs_node list option" where
  "iso_vfs_nodes [] out = Some out"
| "iso_vfs_nodes (n # ns) out =
     do { name \<leftarrow> cstr_text (in_name n);
          iso_vfs_nodes ns (out @ [\<lparr>vn_name = name, vn_size = in_size n, vn_is_directory = in_is_directory n\<rparr>]) }"

definition interface_enumerate_directory :: "filesystem \<Rightarrow> u8 list option \<Rightarrow> vfs_node list \<Rightarrow> (bool \<times> vfs_node list) option" where
  "interface_enumerate_directory fs path out =
     (case fs of
        Fs_Fat32 d \<Rightarrow> do { (ok, nodes) \<leftarrow> fat32_list_directory d path [];
                            if \<not> ok then Some (False, out) else map_option (Pair True) (fat_vfs_nodes nodes out) }
      | Fs_Iso9660 d \<Rightarrow> do { (ok, nodes) \<leftarrow> iso9660_list_directory d path [];
                            if \<not> ok then Some (False, out) else map_option (Pair True) (iso_vfs_nodes nodes out) })"

section \<open>Mounting\<close>

definition get_filesystem :: "block_device \<Rightarrow> fs_type option" where
  "get_filesystem device =
     (case block_device_read device 16 (bd_block_size device) of
        None \<Rightarrow> Some FS_UNKNOWN
      | Some d \<Rightarrow> do {
          buffer \<leftarrow> wr_bytes (replicate (unat (bd_block_size device)) 0) 0 d;
          is_iso \<leftarrow> memeq (drop 1 buffer) (b8 ''CD001'') 5;
          if is_iso then Some FS_ISO9660
          else (case block_device_read device 0 (bd_block_size device) of
                  None \<Rightarrow> Some FS_UNKNOWN
                | Some d \<Rightarrow> do {
                    buffer \<leftarrow> wr_bytes (replicate (unat (bd_block_size device)) 0) 0 d;
                    is_fat \<leftarrow> fat32_validate buffer (bd_block_size device);
                    Some (if is_fat then FS_FAT32 else FS_UNKNOWN) }) })"

text \<open>\<open>fat32_fsdata_t()\<close> and \<open>iso9660_fsdata_t()\<close>; the initialisation overwrites the device pointer, null before.\<close>

definition fat32_fsdata_zero :: "block_device \<Rightarrow> fat32_fsdata" where
  "fat32_fsdata_zero device = \<lparr>fat_device = device, bytes_per_sector = 0, sectors_per_cluster = 0, sectors_per_fat = 0,
     first_fat_sector = 0, first_data_sector = 0, root_cluster = 0\<rparr>"

definition iso9660_fsdata_zero :: "block_device \<Rightarrow> iso9660_fsdata" where
  "iso9660_fsdata_zero device = \<lparr>iso_device = device, iso_volume_size = 0, iso_root_node = iso9660_node_zero,
     iso_pvd = replicate 2048 0\<rparr>"

text \<open>The mount point that both branches build and put in the map; its name is cut to the array.\<close>

definition add_mount_point :: "filesystem \<Rightarrow> u8 list \<Rightarrow> vfs \<Rightarrow> vfs" where
  "add_mount_point fs name v =
     (let mp = \<lparr>mp_name = take (min (length name) (MOUNT_POINT_MAX_NAME_LEN - 1)) name, mp_logical_name = [], mp_filesystem = fs\<rparr>
      in v\<lparr>mount_points := lm_put name mp mp (mount_points v)\<rparr>)"

definition vfs_mount_block_device :: "bool \<Rightarrow> bool \<Rightarrow> vfs \<Rightarrow> block_device option \<Rightarrow> u8 list option \<Rightarrow> (bool \<times> vfs) option" where
  "vfs_mount_block_device mem1 mem2 v device name =
     (case (name, device) of
        (Some name, Some device) \<Rightarrow>
          if lm_contains name (mount_points v) then Some (False, v)
          else do {
            fs \<leftarrow> get_filesystem device;
            (case fs of
               FS_FAT32 \<Rightarrow>
                 if \<not> mem1 then Some (False, v)
                 else do { (ok, d) \<leftarrow> fat32_init device (fat32_fsdata_zero device);
                           Some (if ok then (True, add_mount_point (Fs_Fat32 d) name v) else (False, v)) }
             | FS_ISO9660 \<Rightarrow>
                 if \<not> mem1 then Some (False, v)
                 else do { (ok, d) \<leftarrow> iso9660_init mem2 device (iso9660_fsdata_zero device);
                           Some (if ok then (True, add_mount_point (Fs_Iso9660 d) name v) else (False, v)) }
             | FS_UNKNOWN \<Rightarrow> Some (False, v)) }
      | _ \<Rightarrow> Some (False, v))"

section \<open>Paths\<close>

definition logical_prefix :: "u8 list" where
  "logical_prefix = b8 ''//./''"

definition hash_name :: "u8 list \<Rightarrow> u64" where
  "hash_name name = fnv1a_64 (map (\<lambda>c. char_of (unat c)) name)"

text \<open>The inner \<open>None\<close> is \<open>nullptr\<close>.\<close>

definition vfs_get_mount_point_from_path :: "vfs \<Rightarrow> u8 list \<Rightarrow> vfs_mount_point option option" where
  "vfs_get_mount_point_from_path v path = do {
     let is_logical_device = str_starts_with path logical_prefix;
     path_parts \<leftarrow> split_path (Some (if is_logical_device then drop 4 path else path));
     if path_parts = [] then Some None
     else do {
       name \<leftarrow> c_str (hd path_parts);
       let mount_name = cstr_bytes name;
       let mount_name = (if is_logical_device then lm_lookup (logical_to_mount_map v) (hash_name mount_name)
                         else Some mount_name);
       Some (case mount_name of None \<Rightarrow> None | Some n \<Rightarrow> lm_lookup (mount_points v) n) } }"

definition get_mount_point_relative_path :: "vfs_mount_point option \<Rightarrow> std_string \<Rightarrow> std_string option" where
  "get_mount_point_relative_path mount_point path =
     (case mount_point of
        None \<Rightarrow> Some path
      | Some mp \<Rightarrow> do {
          p \<leftarrow> c_str path;
          let is_logical_device = str_starts_with (cstr_bytes p) logical_prefix;
          path \<leftarrow> (if is_logical_device then substr path 4 npos else Some path);
          p \<leftarrow> c_str path;
          let str_offset = (if str_starts_with (cstr_bytes p) [0x2F] then 1 else 0);
          let sz = of_nat (length (if is_logical_device then mp_logical_name mp else mp_name mp)) + str_offset;
          if sz \<ge> ss_len path then assign_cstr (Some []) else substr path sz npos })"

text \<open>The path a mount point's file system is asked for.\<close>

definition relative_cstr :: "vfs_mount_point \<Rightarrow> u8 list \<Rightarrow> u8 list option option" where
  "relative_cstr mp path = do {
     s \<leftarrow> assign_cstr (Some path);
     r \<leftarrow> get_mount_point_relative_path (Some mp) s;
     c_str r }"

section \<open>Operations\<close>

definition vfs_open_file :: "vfs \<Rightarrow> u8 list \<Rightarrow> (u64 \<times> vfs) option" where
  "vfs_open_file v path = do {
     mount_point \<leftarrow> vfs_get_mount_point_from_path v path;
     (case mount_point of
        None \<Rightarrow> Some (FILE_DESCRIPTOR_INVALID, v)
      | Some mp \<Rightarrow> do {
          rel \<leftarrow> relative_cstr mp path;
          file_exists \<leftarrow> interface_file_exists (mp_filesystem mp) rel;
          if \<not> file_exists then Some (FILE_DESCRIPTOR_INVALID, v)
          else do {
            let file_descriptor = last_fd v;
            let v = v\<lparr>last_fd := file_descriptor + 1\<rparr>;
            if file_descriptor = FILE_DESCRIPTOR_INVALID then Some (FILE_DESCRIPTOR_INVALID, v)
            else Some (file_descriptor, v\<lparr>file_handles := lm_put file_descriptor [] path (file_handles v)\<rparr>) } }) }"

definition vfs_close_file :: "vfs \<Rightarrow> u64 \<Rightarrow> bool \<times> vfs" where
  "vfs_close_file v fd =
     (if fd = FILE_DESCRIPTOR_INVALID then (False, v)
      else if \<not> lm_contains fd (file_handles v) then (False, v)
      else case lm_remove fd (file_handles v) of (b, m) \<Rightarrow> (b, v\<lparr>file_handles := m\<rparr>))"

definition vfs_read_file :: "bool \<Rightarrow> bool \<Rightarrow> (nat \<Rightarrow> u8 list) \<Rightarrow> vfs \<Rightarrow> u64 \<Rightarrow> u8 list option \<times> u64 \<Rightarrow>
    (bool \<times> u8 list option \<times> u64) option" where
  "vfs_read_file mem1 mem2 raw v fd out =
     (case lm_lookup (file_handles v) fd of
        None \<Rightarrow> Some (False, out)
      | Some path \<Rightarrow> do {
          mount_point \<leftarrow> vfs_get_mount_point_from_path v path;
          (case mount_point of
             None \<Rightarrow> Some (False, out)
           | Some mp \<Rightarrow> do {
               rel \<leftarrow> relative_cstr mp path;
               interface_read mem1 mem2 raw (mp_filesystem mp) rel (None, 0) }) })"

definition vfs_list_directory :: "vfs \<Rightarrow> u8 list option \<Rightarrow> vfs_node list \<Rightarrow> (bool \<times> vfs_node list) option" where
  "vfs_list_directory v path out =
     (case path of
        None \<Rightarrow> Some (False, out)
      | Some path \<Rightarrow> do {
          mount_point \<leftarrow> vfs_get_mount_point_from_path v path;
          (case mount_point of
             None \<Rightarrow> Some (False, out)
           | Some mp \<Rightarrow> do {
               rel \<leftarrow> relative_cstr mp path;
               interface_enumerate_directory (mp_filesystem mp) rel out }) })"

text \<open>The mount point is the one with the index \<open>i\<close> in the map.\<close>

definition mount_point_set_logical_name :: "vfs \<Rightarrow> nat option \<Rightarrow> u8 list option \<Rightarrow> bool \<times> vfs" where
  "mount_point_set_logical_name v mount_point name =
     (case (mount_point, name) of
        (Some i, Some name) \<Rightarrow>
          if lm_contains (hash_name name) (logical_to_mount_map v) then (False, v)
          else let namelen = (if length name \<ge> MOUNT_POINT_MAX_LOGICAL_NAME_LEN
                              then MOUNT_POINT_MAX_LOGICAL_NAME_LEN - 1 else length name);
                   (key, mp) = mount_points v ! i;
                   v = v\<lparr>mount_points := (mount_points v)[i := (key, mp\<lparr>mp_logical_name := take namelen name\<rparr>)]\<rparr>
               in (True, v\<lparr>logical_to_mount_map := lm_put (hash_name name) [] (mp_name mp) (logical_to_mount_map v)\<rparr>)
      | _ \<Rightarrow> (False, v))"

section \<open>Paths to a mount point\<close>

definition name_ok :: "u8 list \<Rightarrow> bool" where
  "name_ok n \<longleftrightarrow> n \<noteq> [] \<and> length n < 256 \<and> 0 \<notin> set n \<and> 0x2F \<notin> set n"

text \<open>The path \<open>/name/p1/p2\<close>...\<close>

definition vfs_path :: "u8 list \<Rightarrow> u8 list list \<Rightarrow> u8 list" where
  "vfs_path n ps = 0x2F # n @ join_path ps"

lemma not_logical: "name_ok n \<Longrightarrow> \<not> str_starts_with (vfs_path n ps) logical_prefix"
  by (cases n) (auto simp: name_ok_def vfs_path_def logical_prefix_def b8_def)

lemma vfs_path_join: "vfs_path n ps = join_path (n # ps)"
  by (simp add: vfs_path_def)

lemma join_path_ok:
  "\<forall>p \<in> set ps. 0 \<notin> set p \<Longrightarrow> length (join_path ps) < 2 ^ 63 \<Longrightarrow> path_ok (Some (join_path ps))"
proof -
  assume a: "\<forall>p \<in> set ps. 0 \<notin> set p" and l: "length (join_path ps) < 2 ^ 63"
  from a have "0 \<notin> set (join_path ps)" by (induction ps) auto
  with l show ?thesis by (simp add: path_ok_def cstr_bytes_def)
qed

lemma mount_point_from_path:
  assumes n: "name_ok n" and ps: "\<forall>p \<in> set ps. name_ok p" and len: "length (vfs_path n ps) < 2 ^ 63"
  shows "vfs_get_mount_point_from_path v (vfs_path n ps) = Some (lm_lookup (mount_points v) n)"
proof -
  have ok: "path_ok (Some (vfs_path n ps))" unfolding vfs_path_join
    by (rule join_path_ok) (use n ps len in \<open>auto simp: name_ok_def vfs_path_def\<close>)
  have parts: "path_parts (Some (vfs_path n ps)) = n # ps" unfolding vfs_path_join cstr_bytes_def
    using parts_of_join_path [of "n # ps"] n ps by (simp add: name_ok_def)
  obtain ss where "split_path (Some (vfs_path n ps)) = Some ss" "list_all2 is_str ss (n # ps)"
    using split_path_parts [OF ok] parts by metis
  moreover from this obtain s ss' where s: "ss = s # ss'" "is_str s n" by (auto simp: list_all2_Cons2)
  moreover obtain q where "c_str s = Some q" "cstr_bytes q = n" using is_str_c_str [OF s(2)] by auto
  ultimately show ?thesis using not_logical [OF n] by (simp add: vfs_get_mount_point_from_path_def)
qed

lemma relative_path:
  assumes n: "name_ok n" and mp: "mp_name mp = n" and ps: "\<forall>p \<in> set ps. name_ok p" and len: "length (vfs_path n ps) < 2 ^ 63"
  obtains rel where "relative_cstr mp (vfs_path n ps) = Some rel" "cstr_bytes rel = join_path ps" "rel \<noteq> None"
proof -
  let ?path = "vfs_path n ps"
  have ok: "path_ok (Some ?path)" unfolding vfs_path_join
    by (rule join_path_ok) (use n ps len in \<open>auto simp: name_ok_def vfs_path_def\<close>)
  obtain s where s: "assign_cstr (Some ?path) = Some s" "is_str s ?path"
    using ok assign_cstr_str [of "Some ?path"] by (auto simp: path_ok_def cstr_bytes_def)
  have ss: "ss_str s = Some (?path @ [0])" using is_str_Some [OF s(2)] by (simp add: vfs_path_def)
  have c: "c_str s = Some (Some ?path)" using s(2) ss strlen_append [of ?path "[]"] by (simp add: is_str_def c_str_def)
  have sl: "str_starts_with ?path [0x2F]" by (simp add: vfs_path_def)
  let ?sz = "of_nat (length n) + 1 :: u64"
  have un: "unat (of_nat (length n) :: u64) = length n" using n by (intro unat_small) (simp add: name_ok_def)
  have sz: "unat ?sz = Suc (length n)" using n un by (subst unat_plus_no_wrap) (simp_all add: name_ok_def)
  have le: "?sz \<ge> ss_len s \<longleftrightarrow> join_path ps = []"
    using s(2) sz by (auto simp: word_le_nat_alt is_str_def vfs_path_def)
  show thesis
  proof (cases "join_path ps = []")
    case True
    obtain r where r: "assign_cstr (Some []) = Some r" "is_str r []" using assign_cstr_str [of "Some []"] by (auto simp: cstr_bytes_def)
    then have "c_str r = Some (Some [])" by (auto simp: assign_cstr_def c_str_def wr_bytes_def cstr_bytes_def)
    then have "relative_cstr mp ?path = Some (Some [])"
      using s(1) c sl not_logical [OF n] le True mp r(1)
      by (simp add: relative_cstr_def get_mount_point_relative_path_def cstr_bytes_def)
    then show ?thesis using that True by (simp add: cstr_bytes_def)
  next
    case False
    have t: "take (unat npos) (drop (unat ?sz) ?path) = join_path ps"
      using len unfolding sz by (simp add: vfs_path_def npos_def unsigned_minus_1_eq_mask mask_eq_exp_minus_1)
    obtain r where r: "substr s ?sz npos = Some r" "is_str r (join_path ps)"
      using substr_str [OF s(2), of npos ?sz] unfolding t by auto
    then have "c_str r = Some (Some (join_path ps))"
      using is_str_Some [OF r(2) False] r(2) strlen_append [of "join_path ps" "[]"] by (simp add: is_str_def c_str_def)
    then have "relative_cstr mp ?path = Some (Some (join_path ps))"
      using s(1) c sl not_logical [OF n] le False mp r(1)
      by (simp add: relative_cstr_def get_mount_point_relative_path_def cstr_bytes_def)
    then show ?thesis using that by (simp add: cstr_bytes_def)
  qed
qed

section \<open>The invariant of the tables\<close>

definition vfs_inv :: "vfs \<Rightarrow> bool" where
  "vfs_inv v \<longleftrightarrow> lm_inv (mount_points v) \<and> lm_inv (logical_to_mount_map v) \<and> lm_inv (file_handles v) \<and>
     (\<forall>fd \<in> dom (lm_lookup (file_handles v)). fd < last_fd v)"

lemma lm_contains_lookup: "lm_contains k m \<longleftrightarrow> lm_lookup m k \<noteq> None"
  by (simp add: lm_contains_def lm_lookup_def)

lemma vfs_init_inv [inv_intros]: "vfs_inv vfs_init"
  by (auto simp: vfs_inv_def vfs_init_def lm_inv_def lm_lookup_map_of)

lemma add_mount_point_inv [inv_intros]: "vfs_inv v \<Longrightarrow> vfs_inv (add_mount_point fs n v)"
  by (simp add: vfs_inv_def add_mount_point_def Let_def lm.put_inv)

lemma mount_inv [inv_intros]:
  "vfs_inv v \<Longrightarrow> vfs_mount_block_device mem1 mem2 v device name = Some (b, v') \<Longrightarrow> vfs_inv v'"
  by (auto simp: vfs_mount_block_device_def bind_Some_iff add_mount_point_inv
      split: option.splits fs_type.splits if_splits) (metis fs_type.exhaust)+

lemma lookup_last_fd: "vfs_inv v \<Longrightarrow> lm_lookup (file_handles v) (last_fd v) = None"
  by (auto simp: vfs_inv_def dom_def)

lemma fd_step: "fd \<noteq> -1 \<Longrightarrow> x < fd \<or> x = fd \<Longrightarrow> (x :: u64) < fd + 1"
proof -
  assume a: "fd \<noteq> -1" "x < fd \<or> x = fd"
  have "unat fd + 1 \<noteq> 2 ^ 64"
  proof
    assume "unat fd + 1 = 2 ^ 64"
    then have "of_nat (unat fd + 1) = (of_nat (2 ^ 64) :: u64)" by (rule arg_cong)
    then have "fd + 1 = 0" by simp
    with a(1) show False by (simp add: eq_neg_iff_add_eq_0)
  qed
  then have "unat (fd + 1) = unat fd + 1" using unat_u64_less [of fd] by (subst unat_plus_no_wrap) simp_all
  then show ?thesis using a(2) by (auto simp: word_less_nat_alt)
qed

text \<open>Opening keeps the invariant as long as the counter of descriptors has not run out.\<close>

lemma open_inv [inv_intros]:
  assumes "vfs_inv v" "last_fd v \<noteq> FILE_DESCRIPTOR_INVALID" "vfs_open_file v path = Some (fd, v')"
  shows "vfs_inv v' \<and> (fd \<noteq> FILE_DESCRIPTOR_INVALID \<longrightarrow> fd = last_fd v \<and> lm_lookup (file_handles v) fd = None \<and>
    lm_lookup (file_handles v') = (lm_lookup (file_handles v))(fd \<mapsto> path))"
proof -
  let ?o = "v\<lparr>last_fd := last_fd v + 1, file_handles := lm_put (last_fd v) [] path (file_handles v)\<rparr>"
  have i: "lm_inv (file_handles v)" using assms(1) by (simp add: vfs_inv_def)
  have "fd = FILE_DESCRIPTOR_INVALID \<and> v' = v \<or> fd = last_fd v \<and> v' = ?o"
    using assms(2,3) by (auto simp: vfs_open_file_def bind_Some_iff Let_def split: option.splits if_splits)
  moreover have "vfs_inv ?o"
    using assms(1,2) lm.lookup_put [OF i] fd_step [of "last_fd v"]
    by (auto simp: vfs_inv_def lm.put_inv dom_def FILE_DESCRIPTOR_INVALID_def split: if_splits)
  ultimately show ?thesis using assms(1) lookup_last_fd [OF assms(1)] lm.put_law [OF i] by auto
qed

lemma close_inv [inv_intros]: "vfs_inv v \<Longrightarrow> vfs_inv (snd (vfs_close_file v fd))"
proof -
  assume inv: "vfs_inv v"
  then have i: "lm_inv (file_handles v)" by (simp add: vfs_inv_def)
  show ?thesis using inv lm.rem_inv [OF i, of fd] lm.lookup_rem [OF i, of fd]
    by (auto simp: vfs_close_file_def vfs_inv_def dom_def split: prod.splits if_splits)
qed

section \<open>Properties\<close>

text \<open>The volume descriptor of a disk whose root directory is the one of a record.\<close>

definition iso_volume :: "block_device \<Rightarrow> iso_record \<Rightarrow> bool" where
  "iso_volume device root \<longleftrightarrow> 2048 \<le> unat (bd_block_size device) \<and>
     (case block_device_read device 16 (bd_block_size device) of
        None \<Rightarrow> False
      | Some b \<Rightarrow> take 6 b = 1 # b8 ''CD001'' \<and> rd32 b 158 = Some (ir_lba root) \<and> rd32 b 166 = Some (ir_size root))"

lemma mount_iso:
  assumes "disk_ok device" "iso_volume device root" "on_disk device root (Iso_Dir root items)"
    and "lm_lookup (mount_points v) n = None"
  obtains fs where "vfs_mount_block_device True True v (Some device) (Some n) = Some (True, add_mount_point (Fs_Iso9660 fs) n v)"
    "mounted fs root items" "iso_device fs = device"
proof -
  let ?bs = "unat (bd_block_size device)"
  obtain b where b: "block_device_read device 16 (bd_block_size device) = Some b" "take 6 b = 1 # b8 ''CD001''"
    "rd32 b 158 = Some (ir_lba root)" "rd32 b 166 = Some (ir_size root)" and bs: "2048 \<le> ?bs"
    using assms(2) by (auto simp: iso_volume_def split: option.splits)
  have l: "length b = ?bs" using disk_ok_length [OF assms(1) b(1)] .
  have w: "wr_bytes (replicate ?bs 0) 0 b = Some b" by (simp add: wr_bytes_def l)
  obtain c r where cr: "b = c # r" using l bs by (cases b) auto
  have c: "c = 1" "take 5 r = b8 ''CD001''" using b(2) cr by (simp_all add: numeral_eq_Suc)
  have m: "memeq (drop 1 b) (b8 ''CD001'') 5 = Some True"
    using c l bs cr by (subst memeq_take) (simp_all add: b8_def)
  have d: "rd8 b 0 = Some 1" using cr c by (simp add: rd8_def)
  obtain vs where "rd32 b 80 = Some vs" using rd32_defined [of 80 b] l bs by auto
  moreover have "\<not> bd_block_size device < 2048" using bs by (simp add: word_less_nat_alt)
  moreover have "rd_bytes b 0 2048 = Some (take 2048 b)" using l bs by (simp add: rd_bytes_def)
  ultimately have "iso9660_init True device (iso9660_fsdata_zero device) = Some (True, (iso9660_fsdata_zero device)\<lparr>
      iso_pvd := take 2048 b, iso_device := device, iso_volume_size := ucast vs * bd_block_size device,
      iso_root_node := (iso_root_node (iso9660_fsdata_zero device))\<lparr>in_is_directory := True,
        in_lba := ucast (ir_lba root), in_size := ucast (ir_size root)\<rparr>\<rparr>)" (is "_ = Some (True, ?fs)")
    using b w m d by (simp add: iso9660_init_def iso9660_validate_def)
  moreover have "get_filesystem device = Some FS_ISO9660" using b w m by (simp add: get_filesystem_def)
  moreover have "mounted ?fs root items" using assms(1,3) by (simp add: mounted_def del: on_disk.simps)
  ultimately show thesis using that [of ?fs] assms(4) by (simp add: vfs_mount_block_device_def lm_contains_lookup)
qed

text \<open>
  C13. From the disk to the reader: mounting a device that holds an ISO 9660 tree succeeds; opening the path
  of a file of the tree under the mount's name then gives a fresh descriptor, and reading it gives exactly the
  bytes of the file, whatever else is mounted or open; other descriptors keep their files, and closing succeeds.
\<close>

theorem vfs_reads_iso_file:
  assumes "vfs_inv v" "last_fd v \<noteq> FILE_DESCRIPTOR_INVALID"
    and "disk_ok device" "bd_block_size device = 2 ^ k" "k < 32" "iso_volume device root"
    and "on_disk device root (Iso_Dir root items)"
    and "name_ok n" "lm_lookup (mount_points v) n = None" "ps \<noteq> []" "\<forall>p \<in> set ps. name_ok p" "length (vfs_path n ps) < 2 ^ 63"
    and "iso_resolve (Iso_Dir root items) ps = Some (Iso_File r)"
    and "blocks_at device (ucast (ir_lba r)) (block_count (unat (ir_size r)) (2 ^ k)) = Some d"
  shows "\<exists>v1 v2. vfs_mount_block_device True True v (Some device) (Some n) = Some (True, v1) \<and>
    vfs_open_file v1 (vfs_path n ps) = Some (last_fd v, v2) \<and> lm_lookup (file_handles v) (last_fd v) = None \<and>
    vfs_read_file True True raw v2 (last_fd v) out = Some (True, Some (take (unat (ir_size r)) d), ucast (ir_size r)) \<and>
    (\<forall>fd. fd \<noteq> last_fd v \<longrightarrow> lm_lookup (file_handles v2) fd = lm_lookup (file_handles v) fd) \<and>
    fst (vfs_close_file v2 (last_fd v))"
proof -
  let ?path = "vfs_path n ps"
  obtain fs where fs: "vfs_mount_block_device True True v (Some device) (Some n) = Some (True, add_mount_point (Fs_Iso9660 fs) n v)"
    "mounted fs root items" "iso_device fs = device" by (rule mount_iso [OF assms(3,6,7,9)])
  let ?v1 = "add_mount_point (Fs_Iso9660 fs) n v"
  have inv: "lm_inv (mount_points v)" "lm_inv (file_handles v)" using assms(1) by (simp_all add: vfs_inv_def)
  obtain mp where mp: "lm_lookup (mount_points ?v1) n = Some mp" "mp_name mp = n" "mp_filesystem mp = Fs_Iso9660 fs"
    using lm.put_law [OF inv(1)] assms(8) by (simp add: add_mount_point_def Let_def name_ok_def MOUNT_POINT_MAX_NAME_LEN_def)
  obtain rel where rel: "relative_cstr mp ?path = Some rel" "cstr_bytes rel = join_path ps" "rel \<noteq> None"
    by (rule relative_path [OF assms(8) mp(2) assms(11,12)])
  have parts: "path_parts rel = ps" unfolding rel(2) using assms(11) by (intro parts_of_join_path) (auto simp: name_ok_def)
  have ok: "path_ok rel" using join_path_ok [of ps] assms(11,12) rel(2)
    by (auto simp: name_ok_def vfs_path_def path_ok_def cstr_bytes_def)
  have ne: "path_parts rel \<noteq> [] \<or> is_root_path rel" using parts assms(10) by simp
  have ex: "iso9660_file_exists fs rel = Some True"
    using find_root_resolves [OF fs(2) ok ne] assms(13) parts by (simp add: iso9660_file_exists_def)
  have rd: "iso9660_read True True fs rel (None, 0) = Some (True, Some (take (unat (ir_size r)) d), ucast (ir_size r))"
    using iso_read_ok [OF fs(2) ok ne, of r k d] assms(4,5,13,14) fs(3) parts by simp
  have path: "vfs_get_mount_point_from_path w ?path = Some (lm_lookup (mount_points w) n)" for w
    by (rule mount_point_from_path [OF assms(8,11,12)])
  let ?v2 = "?v1\<lparr>last_fd := last_fd v + 1, file_handles := lm_put (last_fd v) [] ?path (file_handles v)\<rparr>"
  have fields: "last_fd ?v1 = last_fd v" "file_handles ?v1 = file_handles v" by (simp_all add: add_mount_point_def Let_def)
  have op: "vfs_open_file ?v1 ?path = Some (last_fd v, ?v2)"
    using path mp rel(1) ex assms(2) fields by (simp add: vfs_open_file_def interface_file_exists_def Let_def)
  have look: "lm_lookup (file_handles ?v2) = (lm_lookup (file_handles v))(last_fd v \<mapsto> ?path)" using lm.put_law [OF inv(2)] by simp
  have "vfs_read_file True True raw ?v2 (last_fd v) out = Some (True, Some (take (unat (ir_size r)) d), ucast (ir_size r))"
    using look path mp rel(1) rd by (simp add: vfs_read_file_def interface_read_def)
  moreover have "fst (vfs_close_file ?v2 (last_fd v))"
    using look assms(2) lm.rem_law [OF lm.put_inv [OF inv(2)], of "last_fd v" "last_fd v" "[]" ?path]
    by (auto simp: vfs_close_file_def lm_contains_lookup map_rem_def split: prod.splits)
  ultimately show ?thesis using fs(1) op look lookup_last_fd [OF assms(1)] by (intro exI [of _ ?v1] exI [of _ ?v2]) simp
qed

text \<open>A disk with blocks of 2048 bytes, a root directory and one file.\<close>

definition cd_file :: iso_record where
  "cd_file = \<lparr>ir_flags = 0, ir_lba = 21, ir_size = 3, ir_ident = b8 ''A.TXT;1'', ir_susp = []\<rparr>"

definition cd_root :: iso_record where
  "cd_root = \<lparr>ir_flags = 2, ir_lba = 20, ir_size = 2048, ir_ident = [0], ir_susp = []\<rparr>"

definition cd_descriptor :: "u8 list" where
  "cd_descriptor = (1 # b8 ''CD001'' @ replicate 152 0) @ le32 20 @ replicate 4 0 @ le32 2048 @ replicate 1878 0"

definition cd_blocks :: "u64 \<Rightarrow> u8 list option" where
  "cd_blocks lba =
     (if lba = 16 then Some cd_descriptor
      else if lba = 20 then Some (dir_bytes 2048 (dir_records cd_root cd_root [Iso_File cd_file]))
      else if lba = 21 then Some ([0x61, 0x62, 0x63] @ replicate 2045 0) else None)"

definition cd_device :: block_device where
  "cd_device = \<lparr>bd_read = (\<lambda>lba sz. if sz = 2048 then cd_blocks lba else None),
     bd_start_lba = 0, bd_end_lba = 22, bd_block_size = 2048\<rparr>"

lemma cd_dir_length: "length (dir_bytes 2048 (dir_records cd_root cd_root [Iso_File cd_file])) = 2048"
  by (simp add: dir_bytes_def dir_records_def length_record_bytes record_tail_def ident_pad_def susp_area_def dot_record_def
      cd_root_def cd_file_def b8_def)

lemma cd_disk_ok: "disk_ok cd_device"
  using cd_dir_length by (auto simp: disk_ok_def cd_device_def cd_blocks_def cd_descriptor_def b8_def)

lemma cd_volume: "iso_volume cd_device cd_root"
proof -
  have "rd32 cd_descriptor 158 = Some 20"
    using rd32_le32_at [of "1 # b8 ''CD001'' @ replicate 152 0" 20] by (simp add: cd_descriptor_def b8_def)
  moreover have "rd32 cd_descriptor 166 = Some 2048"
    using rd32_le32_at [of "(1 # b8 ''CD001'' @ replicate 152 0) @ le32 20 @ replicate 4 0" 2048] by (simp add: cd_descriptor_def b8_def)
  moreover have "take 6 cd_descriptor = 1 # b8 ''CD001''" by (simp add: cd_descriptor_def b8_def)
  moreover have "block_device_read cd_device 16 (bd_block_size cd_device) = Some cd_descriptor"
    by (simp add: block_device_read_def cd_device_def cd_blocks_def)
  ultimately show ?thesis by (simp add: iso_volume_def cd_root_def) (simp add: cd_device_def)
qed

lemma cd_blocks_at: "blocks_at cd_device 20 1 = Some (dir_bytes 2048 (dir_records cd_root cd_root [Iso_File cd_file]))"
    "blocks_at cd_device 21 1 = Some ([0x61, 0x62, 0x63] @ replicate 2045 0)"
  by (simp_all add: block_device_read_def cd_device_def cd_blocks_def)

lemma cd_on_disk: "on_disk cd_device cd_root (Iso_Dir cd_root [Iso_File cd_file])"
proof -
  have "unat (bd_block_size cd_device) = 2048" by (simp add: cd_device_def)
  moreover have "record_ok cd_file \<and> ir_flags cd_file AND 2 = 0 \<and> ir_flags cd_root AND 2 \<noteq> 0" by code_simp
  ultimately show ?thesis using cd_dir_length cd_blocks_at(1) by (simp add: Let_def) (simp add: cd_root_def)
qed

theorem vfs_reads_iso_file_witness:
  "\<exists>v1 v2. vfs_mount_block_device True True vfs_init (Some cd_device) (Some (b8 ''disk0'')) = Some (True, v1) \<and>
     vfs_open_file v1 (b8 ''/disk0/A.TXT'') = Some (0, v2) \<and>
     vfs_read_file True True (\<lambda>n. replicate n 0) v2 0 (None, 0) = Some (True, Some [0x61, 0x62, 0x63], 3)"
proof -
  have n: "name_ok (b8 ''disk0'')" "\<forall>p \<in> set [b8 ''A.TXT'']. name_ok p" by (simp_all add: name_ok_def b8_def)
  have path: "vfs_path (b8 ''disk0'') [b8 ''A.TXT''] = b8 ''/disk0/A.TXT''" by (simp add: vfs_path_def b8_def)
  have r: "iso_resolve (Iso_Dir cd_root [Iso_File cd_file]) [b8 ''A.TXT''] = Some (Iso_File cd_file)" by code_simp
  have bs: "bd_block_size cd_device = 2 ^ 11" by (simp add: cd_device_def)
  have bc: "block_count (unat (ir_size cd_file)) (2 ^ 11) = 1" "unat (ir_size cd_file) = 3" by (simp_all add: block_count_def cd_file_def)
  have lba: "(ucast (ir_lba cd_file) :: u64) = 21" by (simp add: cd_file_def)
  have b: "blocks_at cd_device (ucast (ir_lba cd_file)) (block_count (unat (ir_size cd_file)) (2 ^ 11)) = Some ([0x61, 0x62, 0x63] @ replicate 2045 0)"
    unfolding bc(1) lba by (rule cd_blocks_at(2))
  have i: "last_fd vfs_init \<noteq> FILE_DESCRIPTOR_INVALID" "lm_lookup (mount_points vfs_init) (b8 ''disk0'') = None"
    by (simp_all add: vfs_init_def FILE_DESCRIPTOR_INVALID_def lm_lookup_def)
  from vfs_reads_iso_file [OF vfs_init_inv i(1) cd_disk_ok bs _ cd_volume cd_on_disk n(1) i(2) _ n(2) _ r b,
      of "\<lambda>n. replicate n 0" "(None, 0)"]
  show ?thesis unfolding path by (auto simp: b8_def vfs_init_def cd_file_def)
qed

end
