(* ===== verification/System_Info.thy ===== *)
theory System_Info
  imports Multiboot Std_String
begin

text \<open>
  What the system knows about itself: \<open>src/kernel/src/system_info.cpp\<close>, the tables of the firmware in
  \<open>src/kernel/src/smbios.cpp\<close> and \<open>cpu_get_name\<close> of \<open>src/kernel/src/cpu.cpp\<close>.

  Memory is a buffer and a pointer into it an offset. The BIOS area and the memory behind the address of a
  table are arguments, and so is the \<open>cpuid\<close> instruction.
\<close>

section \<open>SMBIOS\<close>

definition SMBIOS_SIGNATUE :: "u8 list" where "SMBIOS_SIGNATUE = b8 ''_SM_''"
definition SMBIOS64_SIGNATUE :: "u8 list" where "SMBIOS64_SIGNATUE = b8 ''_SM3_''"
definition SYSTEM_INFORMATION :: u8 where "SYSTEM_INFORMATION = 1"
definition END_OF_TABLE :: u8 where "END_OF_TABLE = 127"

text \<open>The loop over the strings of an entry: the number of bytes before the two zeros that end them.\<close>

function strings_size :: "u8 list \<Rightarrow> nat \<Rightarrow> nat \<Rightarrow> nat option" where
  "strings_size mem table sz = do {
     a \<leftarrow> rd8 mem (table + sz);
     if a \<noteq> 0 then strings_size mem table (sz + 1)
     else do {
       b \<leftarrow> rd8 mem (table + sz + 1);
       if b \<noteq> 0 then strings_size mem table (sz + 1) else Some sz } }"
  by pat_completeness auto

termination
  by (relation "measure (\<lambda>(mem, table, sz). length mem - (table + sz))") (auto simp: rd8_Some_iff)

definition smbios_entry_length :: "u8 list \<Rightarrow> nat \<Rightarrow> nat option" where
  "smbios_entry_length mem entry = do {
     len \<leftarrow> rd8 mem (entry + 1);
     sz \<leftarrow> strings_size mem (entry + unat len) 0;
     Some (unat len + (sz + 2)) }"

text \<open>\<open>area\<close> are the bytes from \<open>0xF0000\<close> on; every 16th place before \<open>0xFFFFF\<close> is looked at.\<close>

function find_from :: "u8 list \<Rightarrow> u8 list \<Rightarrow> nat \<Rightarrow> nat option option" where
  "find_from area signature i =
     (if i < 0xFFFF then do {
        found \<leftarrow> memeq (drop i area) signature (length signature);
        if found then Some (Some i) else find_from area signature (i + 16) }
      else Some None)"
  by pat_completeness auto

termination
  by (relation "measure (\<lambda>(area, signature, i). 0xFFFF - i)") auto

definition smbios_find_struct_entry :: "u8 list \<Rightarrow> u8 list \<Rightarrow> nat option option" where
  "smbios_find_struct_entry area signature = find_from area signature 0"

text \<open>The callback gets the entry and the state, and says whether to go on.\<close>

lemma smbios_entry_length_bound: "smbios_entry_length mem e = Some n \<Longrightarrow> 2 \<le> n \<and> e + 1 < length mem"
  by (auto simp: smbios_entry_length_def bind_Some_iff rd8_Some_iff)

function smbios_iterate :: "u8 list \<Rightarrow> (nat \<Rightarrow> 's \<Rightarrow> (bool \<times> 's) option) \<Rightarrow> nat \<Rightarrow> 's \<Rightarrow> 's option" where
  "smbios_iterate mem callback current s = do {
     ty \<leftarrow> rd8 mem current;
     if ty = END_OF_TABLE then Some s
     else do {
       (go_on, s) \<leftarrow> callback current s;
       if \<not> go_on then Some s
       else do {
         entry_size \<leftarrow> smbios_entry_length mem current;
         smbios_iterate mem callback (current + entry_size) s } } }"
  by pat_completeness auto

termination
  by (relation "measure (\<lambda>(mem, callback, current, s). length mem - current)")
    (auto dest!: smbios_entry_length_bound)

declare strings_size.simps [simp del] find_from.simps [simp del] smbios_iterate.simps [simp del]

text \<open>The string with the number \<open>i\<close> in the memory from \<open>strings\<close> on; the loop counts from \<open>current\<close>.\<close>

function string_from :: "u8 list \<Rightarrow> nat \<Rightarrow> nat \<Rightarrow> nat \<Rightarrow> u8 list option option" where
  "string_from mem i current strings = do {
     ch \<leftarrow> rd8 mem strings;
     if ch = 0 then Some None
     else do {
       n \<leftarrow> strlen (drop strings mem);
       if current = i then Some (Some (take n (drop strings mem)))
       else string_from mem i (current + 1) (strings + n + 1) } }"
  by pat_completeness auto

termination
  by (relation "measure (\<lambda>(mem, i, current, strings). length mem - strings)") (auto simp: rd8_Some_iff)

declare string_from.simps [simp del]

definition smbios_get_string_at_index :: "u8 list \<Rightarrow> nat \<Rightarrow> u8 \<Rightarrow> u8 list option option" where
  "smbios_get_string_at_index mem entry i =
     (if i = 0 then Some None
      else do { len \<leftarrow> rd8 mem (entry + 1); string_from mem (unat i) 1 (entry + unat len) })"

section \<open>The system information\<close>

record system_info_manager =
  si_memory_size :: u64
  si_manufacturer :: std_string
  si_product_name :: std_string
  si_version :: std_string
  si_serial_number :: std_string
  si_cpu_name :: std_string
  si_boot_uuid :: std_string

definition system_info_parse_memory_size :: "u64 \<Rightarrow> system_info_manager \<Rightarrow> system_info_manager" where
  "system_info_parse_memory_size memory_size sim = sim\<lparr>si_memory_size := memory_size\<rparr>"

definition string_at :: "u8 list \<Rightarrow> nat \<Rightarrow> nat \<Rightarrow> std_string option" where
  "string_at mem entry field = do {
     i \<leftarrow> rd8 mem (entry + field);
     p \<leftarrow> smbios_get_string_at_index mem entry i;
     assign_cstr p }"

definition system_info_dump :: "u8 list \<Rightarrow> nat \<Rightarrow> system_info_manager \<Rightarrow> (bool \<times> system_info_manager) option" where
  "system_info_dump mem entry sim = do {
     ty \<leftarrow> rd8 mem entry;
     if ty = SYSTEM_INFORMATION then do {
       manufacturer \<leftarrow> string_at mem entry 4;
       product_name \<leftarrow> string_at mem entry 5;
       version \<leftarrow> string_at mem entry 6;
       serial_number \<leftarrow> string_at mem entry 7;
       Some (False, sim\<lparr>si_manufacturer := manufacturer, si_product_name := product_name, si_version := version,
                        si_serial_number := serial_number\<rparr>) }
     else Some (True, sim) }"

text \<open>\<open>table_at\<close> gives the memory from a physical address on.\<close>

definition system_info_parse_system_information ::
  "u8 list \<Rightarrow> (u64 \<Rightarrow> u8 list) \<Rightarrow> system_info_manager \<Rightarrow> system_info_manager option" where
  "system_info_parse_system_information area table_at sim = do {
     r \<leftarrow> smbios_find_struct_entry area SMBIOS_SIGNATUE;
     case r of
       Some struct_pointer \<Rightarrow> do {
         table_address \<leftarrow> rd32 area (struct_pointer + 24);
         let mem = table_at (ucast table_address);
         smbios_iterate mem (system_info_dump mem) 0 sim }
     | None \<Rightarrow> do {
         r \<leftarrow> smbios_find_struct_entry area SMBIOS64_SIGNATUE;
         case r of
           Some struct_pointer \<Rightarrow> do {
             table_address \<leftarrow> rd64 area (struct_pointer + 16);
             let mem = table_at table_address;
             smbios_iterate mem (system_info_dump mem) 0 sim }
         | None \<Rightarrow> Some sim } }"

text \<open>The brand string: 16 bytes from each of three leaves.\<close>

definition cpu_get_name :: "(u32 \<Rightarrow> u32 \<times> u32 \<times> u32 \<times> u32) \<Rightarrow> u8 list \<Rightarrow> (bool \<times> u8 list) option" where
  "cpu_get_name cpuid buffer =
     (if length buffer < 48 then Some (False, buffer)
      else map_option (Pair True) (each (\<lambda>i buffer. case cpuid (0x80000002 + of_nat i) of (a, b, c, d) \<Rightarrow>
             wr_bytes buffer (16 * i) (le32 a @ le32 b @ le32 c @ le32 d)) [0..<3] buffer))"

definition system_info_get_cpu_name :: "(u32 \<Rightarrow> u32 \<times> u32 \<times> u32 \<times> u32) \<Rightarrow> system_info_manager \<Rightarrow> system_info_manager option" where
  "system_info_get_cpu_name cpuid sim = do {
     (ok, buffer) \<leftarrow> cpu_get_name cpuid (replicate 49 0);
     if \<not> ok then Some sim
     else do {
       n \<leftarrow> strlen buffer;
       name \<leftarrow> assign_cstr (Some (take n buffer));
       Some (sim\<lparr>si_cpu_name := name\<rparr>) } }"

section \<open>The identification of the boot medium\<close>

definition UUID_LEN :: nat where "UUID_LEN = 32"
definition MB_TAG_CMDLINE :: u32 where "MB_TAG_CMDLINE = 1"
definition root_text :: "u8 list" where "root_text = b8 ''root=''"

text \<open>The loop over the tags: place and length of the last command line.\<close>

partial_function (option) find_cmdline :: "u8 list \<Rightarrow> nat \<Rightarrow> (nat \<times> u64) option \<Rightarrow> (nat \<times> u64) option option" where
  "find_cmdline mbi tag cmdline = do {
     ty \<leftarrow> rd32 mbi tag;
     if ty = 0 then Some cmdline else do {
       sz \<leftarrow> rd32 mbi (tag + 4);
       if sz = 8 then Some cmdline
       else find_cmdline mbi (mb2_tag_advance tag sz)
         (if ty \<noteq> MB_TAG_CMDLINE then cmdline else Some (tag + 8, ucast sz - 8 - 1)) } }"

text \<open>\<open>str_starts_with\<close> of a pointer into the buffer.\<close>

fun starts_at :: "u8 list \<Rightarrow> nat \<Rightarrow> u8 list \<Rightarrow> bool option" where
  "starts_at mem p [] = Some True"
| "starts_at mem p (t # ts) = do { c \<leftarrow> rd8 mem p; if c \<noteq> t then Some False else starts_at mem (p + 1) ts }"

definition uuid_step :: "u8 list \<Rightarrow> nat \<Rightarrow> u64 \<Rightarrow> nat \<Rightarrow> u8 list \<Rightarrow> u8 list option" where
  "uuid_step mbi cmdline cmdline_len i uuid = do {
     found \<leftarrow> starts_at mbi (cmdline + i) root_text;
     if found \<and> cmdline_len - of_nat (length root_text) - of_nat i \<ge> of_nat UUID_LEN then do {
       bytes \<leftarrow> rd_bytes mbi (cmdline + i + length root_text) UUID_LEN;
       wr_bytes uuid 0 bytes }
     else Some uuid }"

definition system_info_get_boot_uuid :: "u8 list \<Rightarrow> system_info_manager \<Rightarrow> system_info_manager option" where
  "system_info_get_boot_uuid mbi sim = do {
     r \<leftarrow> find_cmdline mbi mb2_tags None;
     case r of None \<Rightarrow> Some sim
     | Some (cmdline, cmdline_len) \<Rightarrow>
         if cmdline_len < of_nat (UUID_LEN + length root_text) then Some sim
         else do {
           uuid \<leftarrow> each (uuid_step mbi cmdline cmdline_len) [0..<unat cmdline_len] (replicate (UUID_LEN + 1) 0);
           n \<leftarrow> strlen uuid;
           s \<leftarrow> assign_cstr (Some (take n uuid));
           Some (sim\<lparr>si_boot_uuid := s\<rparr>) } }"


section \<open>A table of the firmware\<close>

text \<open>An entry: its type, its handle, the rest of its formatted area and its strings.\<close>

record smb_entry =
  se_type :: u8
  se_handle :: "u8 \<times> u8"
  se_body :: "u8 list"
  se_strings :: "u8 list list"

definition strings_bytes :: "u8 list list \<Rightarrow> u8 list" where
  "strings_bytes ss = (if ss = [] then [0] else concat (map (\<lambda>s. s @ [0]) ss)) @ [0]"

definition entry_head :: "smb_entry \<Rightarrow> u8 list" where
  "entry_head e = [se_type e, of_nat (4 + length (se_body e)), fst (se_handle e), snd (se_handle e)] @ se_body e"

definition smb_bytes :: "smb_entry \<Rightarrow> u8 list" where
  "smb_bytes e = entry_head e @ strings_bytes (se_strings e)"

definition smb_ok :: "smb_entry \<Rightarrow> bool" where
  "smb_ok e \<longleftrightarrow> length (se_body e) < 252 \<and> (\<forall>s \<in> set (se_strings e). s \<noteq> [] \<and> 0 \<notin> set s \<and> length s < 2 ^ 63)"

text \<open>The string an index names; 0 and an index without a string name the empty text.\<close>

definition smb_string :: "smb_entry \<Rightarrow> u8 \<Rightarrow> u8 list" where
  "smb_string e i = (if 0 < unat i \<and> unat i \<le> length (se_strings e) then se_strings e ! (unat i - 1) else [])"

lemma rd8_append: "rd8 (pre @ x # r) (length pre) = Some x"
  by (simp add: rd8_def)

lemma strings_size_text:
  assumes "0 \<notin> set s" "length pre = table + sz"
  shows "strings_size (pre @ s @ r) table sz = strings_size (pre @ s @ r) table (sz + length s)"
  using assms
proof (induction s arbitrary: pre sz)
  case (Cons c s)
  have "rd8 (pre @ (c # s) @ r) (table + sz) = Some c" using rd8_append [of pre c "s @ r"] Cons.prems(2) by simp
  then have "strings_size (pre @ (c # s) @ r) table sz = strings_size (pre @ (c # s) @ r) table (sz + 1)"
    using Cons.prems(1) by (subst strings_size.simps) auto
  also have "\<dots> = strings_size (pre @ (c # s) @ r) table (sz + 1 + length s)"
    using Cons.IH [of "pre @ [c]" "sz + 1"] Cons.prems by simp
  finally show ?case by simp
qed simp

lemma strings_size_zero:
  assumes "length pre = table + sz"
  shows "strings_size (pre @ 0 # c # r) table sz = (if c \<noteq> 0 then strings_size (pre @ 0 # c # r) table (sz + 1) else Some sz)"
proof -
  have "rd8 (pre @ 0 # c # r) (table + sz) = Some 0" "rd8 (pre @ 0 # c # r) (table + sz + 1) = Some c"
    using rd8_append [of pre 0 "c # r"] rd8_append [of "pre @ [0]" c r] assms by simp_all
  then show ?thesis by (subst strings_size.simps) simp
qed

lemma strings_size_list:
  assumes "\<forall>s \<in> set ss. s \<noteq> [] \<and> 0 \<notin> set s" "ss \<noteq> []" "length pre = table + sz"
  shows "strings_size (pre @ concat (map (\<lambda>s. s @ [0]) ss) @ 0 # r) table sz =
    Some (sz + length (concat (map (\<lambda>s. s @ [0]) ss)) - 1)"
  using assms
proof (induction ss arbitrary: pre sz)
  case (Cons s ss)
  let ?rest = "concat (map (\<lambda>s. s @ [0]) ss) @ 0 # r"
  have s: "0 \<notin> set s" using Cons.prems(1) by simp
  have t: "strings_size (pre @ s @ 0 # ?rest) table sz = strings_size (pre @ s @ 0 # ?rest) table (sz + length s)"
    by (rule strings_size_text [OF s Cons.prems(3)])
  show ?case
  proof (cases "ss = []")
    case True
    then show ?thesis using t strings_size_zero [of "pre @ s" table "sz + length s" 0 r] Cons.prems(3) by simp
  next
    case False
    then obtain c where c: "?rest = c # tl ?rest" "c \<noteq> 0" using Cons.prems(1)
      by (cases ss) (auto simp: neq_Nil_conv)
    have "strings_size (pre @ s @ 0 # ?rest) table (sz + length s) = strings_size (pre @ s @ 0 # ?rest) table (sz + length s + 1)"
      using strings_size_zero [of "pre @ s" table "sz + length s" c "tl ?rest"] c Cons.prems(3) by simp
    also have "\<dots> = Some (sz + length s + 1 + length (concat (map (\<lambda>s. s @ [0]) ss)) - 1)"
      using Cons.IH [of "pre @ s @ [0]" "sz + length s + 1"] Cons.prems False by simp
    finally show ?thesis using t by simp
  qed
qed simp

lemma head_length: "smb_ok e \<Longrightarrow> unat (of_nat (4 + length (se_body e)) :: u8) = length (entry_head e)"
proof -
  assume "smb_ok e"
  then have "4 + length (se_body e) < 2 ^ LENGTH(8)" by (simp add: smb_ok_def)
  then have "unat (of_nat (4 + length (se_body e)) :: u8) = 4 + length (se_body e)"
    unfolding unsigned_of_nat by (simp only: take_bit_nat_eq_self of_nat_id)
  then show ?thesis by (simp only: entry_head_def) simp
qed

lemma entry_length:
  assumes "smb_ok e"
  shows "smbios_entry_length (pre @ smb_bytes e @ r) (length pre) = Some (length (smb_bytes e))"
proof -
  let ?m = "pre @ smb_bytes e @ r" and ?h = "entry_head e"
  have l: "rd8 ?m (length pre + 1) = Some (of_nat (4 + length (se_body e)))"
    by (simp add: smb_bytes_def entry_head_def rd8_def nth_append)
  have ss: "\<forall>s \<in> set (se_strings e). s \<noteq> [] \<and> 0 \<notin> set s" using assms by (simp add: smb_ok_def)
  have sz: "strings_size ?m (length pre + length ?h) 0 = Some (length (strings_bytes (se_strings e)) - 2)"
  proof (cases "se_strings e = []")
    case True
    then show ?thesis using strings_size_zero [of "pre @ ?h" "length pre + length ?h" 0 0 r]
      by (simp add: smb_bytes_def strings_bytes_def)
  next
    case False
    then show ?thesis using strings_size_list [OF ss False, of "pre @ ?h" "length pre + length ?h" 0 r]
      by (simp add: smb_bytes_def strings_bytes_def)
  qed
  have "2 \<le> length (strings_bytes (se_strings e))"
    by (cases "se_strings e") (simp_all add: strings_bytes_def)
  then show ?thesis using sz unfolding smbios_entry_length_def l bind.bind_lunit head_length [OF assms] sz
    by (simp add: smb_bytes_def)
qed

lemma string_from_list:
  assumes "\<forall>s \<in> set ss. s \<noteq> [] \<and> 0 \<notin> set s" "length pre = p" "current \<le> i"
  shows "string_from (pre @ concat (map (\<lambda>s. s @ [0]) ss) @ 0 # r) i current p =
    Some (if i - current < length ss then Some (ss ! (i - current)) else None)"
  using assms
proof (induction ss arbitrary: pre p current)
  case Nil
  then show ?case using rd8_append [of pre 0 r] by (subst string_from.simps) simp
next
  case (Cons s ss)
  let ?rest = "concat (map (\<lambda>s. s @ [0]) ss) @ 0 # r"
  let ?m = "pre @ s @ 0 # ?rest"
  obtain c s' where s: "s = c # s'" "c \<noteq> 0" "0 \<notin> set s" using Cons.prems(1) by (cases s) auto
  have rd: "rd8 ?m p = Some c" using rd8_append [of pre c "s' @ 0 # ?rest"] s(1) Cons.prems(2) by simp
  have "strlen (s @ 0 # ?rest) = Some (length s)" by (rule strlen_append [OF s(3)])
  then have sl: "strlen (drop p ?m) = Some (length s)" using Cons.prems(2) by simp
  show ?case
  proof (cases "current = i")
    case True
    then show ?thesis using rd sl s Cons.prems(2) by (subst string_from.simps) simp
  next
    case False
    have "string_from ?m i current p = string_from ?m i (current + 1) (p + length s + 1)"
      using rd sl s(2) False by (subst string_from.simps) simp
    also have "\<dots> = Some (if i - (current + 1) < length ss then Some (ss ! (i - (current + 1))) else None)"
      using Cons.IH [of "pre @ s @ [0]" "p + length s + 1" "current + 1"] Cons.prems False by simp
    finally show ?thesis using False Cons.prems(3) by (auto simp: nth_Cons' less_diff_conv)
  qed
qed

text \<open>What the fields of an entry with at least four bytes after its header name.\<close>

lemma string_at_entry:
  assumes "smb_ok e" "k < length (se_body e)"
  shows "\<exists>x. string_at (pre @ smb_bytes e @ r) (length pre) (4 + k) = Some x \<and> is_str x (smb_string e (se_body e ! k))"
proof -
  let ?m = "pre @ smb_bytes e @ r" and ?i = "se_body e ! k"
  have i: "rd8 ?m (length pre + (4 + k)) = Some ?i"
    using assms(2) by (simp add: smb_bytes_def entry_head_def rd8_def nth_append)
  have l: "rd8 ?m (length pre + 1) = Some (of_nat (4 + length (se_body e)))"
    by (simp add: smb_bytes_def entry_head_def rd8_def nth_append)
  have ss: "\<forall>s \<in> set (se_strings e). s \<noteq> [] \<and> 0 \<notin> set s" using assms(1) by (simp add: smb_ok_def)
  have "string_from ?m n 1 (length pre + length (entry_head e)) =
      Some (if n - 1 < length (se_strings e) then Some (se_strings e ! (n - 1)) else None)" if "1 \<le> n" for n
  proof (cases "se_strings e = []")
    case True
    then show ?thesis using rd8_append [of "pre @ entry_head e" 0 "0 # r"]
      by (subst string_from.simps) (simp add: smb_bytes_def strings_bytes_def)
  next
    case False
    then show ?thesis using string_from_list [OF ss, of "pre @ entry_head e" "length pre + length (entry_head e)" 1 n r] that
      by (simp add: smb_bytes_def strings_bytes_def)
  qed
  note sf = this
  have "\<exists>q. smbios_get_string_at_index ?m (length pre) ?i = Some q \<and> cstr_bytes q = smb_string e ?i"
  proof (cases "?i = 0")
    case True
    then show ?thesis by (simp add: smbios_get_string_at_index_def smb_string_def cstr_bytes_def)
  next
    case False
    then have "1 \<le> unat ?i" using unat_gt_0 [of ?i] by linarith
    then show ?thesis using False sf [of "unat ?i"]
      unfolding smbios_get_string_at_index_def l bind.bind_lunit head_length [OF assms(1)]
      by (auto simp: smb_string_def cstr_bytes_def)
  qed
  then obtain q where q: "smbios_get_string_at_index ?m (length pre) ?i = Some q" "cstr_bytes q = smb_string e ?i" by blast
  have ok: "0 \<notin> set (smb_string e ?i) \<and> length (smb_string e ?i) < 2 ^ 63"
    using assms(1) nth_mem [of "unat ?i - 1" "se_strings e"] by (auto simp: smb_string_def smb_ok_def)
  then obtain x where "assign_cstr q = Some x" "is_str x (smb_string e ?i)" using assign_cstr_str [of q] q(2) by auto
  then show ?thesis using i q(1) by (simp add: string_at_def)
qed

lemma iterate_skips:
  assumes "\<forall>e \<in> set es. smb_ok e \<and> se_type e \<notin> {SYSTEM_INFORMATION, END_OF_TABLE}"
  shows "smbios_iterate (pre @ concat (map smb_bytes es) @ r) (system_info_dump (pre @ concat (map smb_bytes es) @ r)) (length pre) s =
    smbios_iterate (pre @ concat (map smb_bytes es) @ r) (system_info_dump (pre @ concat (map smb_bytes es) @ r))
      (length (pre @ concat (map smb_bytes es))) s"
  using assms
proof (induction es arbitrary: pre)
  case (Cons e es)
  let ?rest = "concat (map smb_bytes es) @ r"
  let ?m = "pre @ smb_bytes e @ ?rest"
  have e: "smb_ok e" "se_type e \<noteq> SYSTEM_INFORMATION" "se_type e \<noteq> END_OF_TABLE" using Cons.prems by simp_all
  have ty: "rd8 ?m (length pre) = Some (se_type e)" by (simp add: smb_bytes_def entry_head_def rd8_def)
  have "smbios_iterate ?m (system_info_dump ?m) (length pre) s =
      smbios_iterate ?m (system_info_dump ?m) (length (pre @ smb_bytes e)) s"
    using ty e entry_length [OF e(1), of pre ?rest] by (subst smbios_iterate.simps) (simp add: system_info_dump_def)
  also have "\<dots> = smbios_iterate ?m (system_info_dump ?m) (length ((pre @ smb_bytes e) @ concat (map smb_bytes es))) s"
    using Cons.IH [of "pre @ smb_bytes e"] Cons.prems by simp
  finally show ?case by simp
qed simp

text \<open>
  C16. The system's names are read from the firmware's table: whatever entries come before the system information,
  with whatever strings, the search stays inside the table, ends, and yields the four strings that the entry's
  bytes name; an index 0 or without a string yields the empty text.
\<close>

theorem smbios_system_information:
  assumes "\<forall>e \<in> set es. smb_ok e \<and> se_type e \<notin> {SYSTEM_INFORMATION, END_OF_TABLE}"
    and "smb_ok e" "se_type e = SYSTEM_INFORMATION" "4 \<le> length (se_body e)"
    and "mem = concat (map smb_bytes es) @ smb_bytes e @ rest"
  shows "\<exists>a b c d. smbios_iterate mem (system_info_dump mem) 0 sim = Some (sim\<lparr>si_manufacturer := a, si_product_name := b,
      si_version := c, si_serial_number := d\<rparr>) \<and>
    is_str a (smb_string e (se_body e ! 0)) \<and> is_str b (smb_string e (se_body e ! 1)) \<and>
    is_str c (smb_string e (se_body e ! 2)) \<and> is_str d (smb_string e (se_body e ! 3))"
proof -
  let ?p = "concat (map smb_bytes es)"
  have skip: "smbios_iterate mem (system_info_dump mem) 0 sim = smbios_iterate mem (system_info_dump mem) (length ?p) sim"
    using iterate_skips [OF assms(1), of "[]" "smb_bytes e @ rest" sim] by (simp add: assms(5))
  have ty: "rd8 mem (length ?p) = Some SYSTEM_INFORMATION"
    using assms(3) by (simp add: assms(5) smb_bytes_def entry_head_def rd8_def)
  have ne: "se_body e \<noteq> []" using assms(4) by auto
  obtain a b c d where "string_at mem (length ?p) 4 = Some a" "is_str a (smb_string e (se_body e ! 0))"
    "string_at mem (length ?p) 5 = Some b" "is_str b (smb_string e (se_body e ! 1))"
    "string_at mem (length ?p) 6 = Some c" "is_str c (smb_string e (se_body e ! 2))"
    "string_at mem (length ?p) 7 = Some d" "is_str d (smb_string e (se_body e ! 3))"
    using string_at_entry [OF assms(2), of 0 ?p rest] string_at_entry [OF assms(2), of 1 ?p rest]
      string_at_entry [OF assms(2), of 2 ?p rest] string_at_entry [OF assms(2), of 3 ?p rest] assms(4) ne
    by (auto simp: assms(5))
  note f = this
  have "smbios_iterate mem (system_info_dump mem) (length ?p) sim = Some (sim\<lparr>si_manufacturer := a, si_product_name := b,
      si_version := c, si_serial_number := d\<rparr>)"
    using f ty by (subst smbios_iterate.simps) (simp add: system_info_dump_def SYSTEM_INFORMATION_def END_OF_TABLE_def)
  then show ?thesis unfolding skip using f by blast
qed

definition demo_sim :: system_info_manager where
  "demo_sim = \<lparr>si_memory_size = 0, si_manufacturer = string_new, si_product_name = string_new, si_version = string_new,
     si_serial_number = string_new, si_cpu_name = string_new, si_boot_uuid = string_new\<rparr>"

theorem smbios_system_information_witness:
  "\<exists>a b c d. smbios_iterate ([0, 4, 0, 0, 0x41, 0, 0] @ [1, 8, 1, 0, 2, 1, 0, 5, 0x42, 0, 0x43, 0x44, 0, 0])
      (system_info_dump ([0, 4, 0, 0, 0x41, 0, 0] @ [1, 8, 1, 0, 2, 1, 0, 5, 0x42, 0, 0x43, 0x44, 0, 0])) 0
      demo_sim = Some (demo_sim\<lparr>si_manufacturer := a, si_product_name := b, si_version := c, si_serial_number := d\<rparr>) \<and>
    is_str a [0x43, 0x44] \<and> is_str b [0x42] \<and> is_str c [] \<and> is_str d []"
proof -
  let ?e = "\<lparr>se_type = 1, se_handle = (1, 0), se_body = [2, 1, 0, 5], se_strings = [[0x42], [0x43, 0x44]]\<rparr>"
  let ?f = "\<lparr>se_type = 0, se_handle = (0, 0), se_body = [], se_strings = [[0x41]]\<rparr>"
  have ok: "\<forall>e \<in> set [?f]. smb_ok e \<and> se_type e \<notin> {SYSTEM_INFORMATION, END_OF_TABLE}" "smb_ok ?e"
    "se_type ?e = SYSTEM_INFORMATION" "4 \<le> length (se_body ?e)"
    by (simp_all add: smb_ok_def SYSTEM_INFORMATION_def END_OF_TABLE_def)
  have m: "[0, 4, 0, 0, 0x41, 0, 0] @ [1, 8, 1, 0, 2, 1, 0, 5, 0x42, 0, 0x43, 0x44, 0, 0] =
      concat (map smb_bytes [?f]) @ smb_bytes ?e @ []"
    by (simp add: smb_bytes_def entry_head_def strings_bytes_def)
  show ?thesis
    using smbios_system_information [OF ok m, of demo_sim]
    by (simp add: smb_string_def)
qed

section \<open>The boot medium\<close>

lemma starts_at_text: "drop q mem = t @ 0 # r \<Longrightarrow> 0 \<notin> set ts \<Longrightarrow> starts_at mem q ts = Some (prefix ts t)"
proof (induction ts arbitrary: q t)
  case (Cons x ts)
  show ?case
  proof (cases t)
    case Nil
    then show ?thesis using Cons.prems rd8_at [of q mem 0 r] by auto
  next
    case (Cons c t')
    then have "drop (q + 1) mem = t' @ 0 # r" using Cons.prems(1) by (metis add.commute append_Cons drop_drop drop_Suc_Cons drop_0 One_nat_def)
    then show ?thesis using Cons Cons.prems(1,2) rd8_at [of q mem c "t' @ 0 # r"] Cons.IH [of "q + 1" t'] by auto
  qed
qed simp

text \<open>A command line \<open>c\<close> with its terminator in the boot information.\<close>

definition cmdline_at :: "u8 list \<Rightarrow> nat \<Rightarrow> u8 list \<Rightarrow> bool" where
  "cmdline_at mbi p c \<longleftrightarrow> find_cmdline mbi mb2_tags None = Some (Some (p, of_nat (length c))) \<and>
     0 \<notin> set c \<and> length c < 2 ^ 32 \<and> (\<exists>r. drop p mbi = c @ 0 # r)"

definition root_at :: "u8 list \<Rightarrow> nat \<Rightarrow> bool" where
  "root_at c i \<longleftrightarrow> prefix root_text (drop i c) \<and> i + 37 \<le> length c"

lemma root_text_simps: "length root_text = 5" "0 \<notin> set root_text"
  by (simp_all add: root_text_def b8_def of_char_def)

lemma uuid_step_at:
  assumes "cmdline_at mbi p c" "i < length c" "length uuid = 33" "drop 32 uuid = [0]"
  shows "uuid_step mbi p (of_nat (length c)) i uuid = Some (if root_at c i then take 32 (drop (i + 5) c) @ [0] else uuid)"
proof -
  obtain r where r: "drop p mbi = c @ 0 # r" and c: "0 \<notin> set c" "length c < 2 ^ 32" using assms(1) by (auto simp: cmdline_at_def)
  have d: "drop (p + i) mbi = drop i c @ 0 # r" using arg_cong [OF r, of "drop i"] assms(2) by (simp add: add.commute)
  have st: "starts_at mbi (p + i) root_text = Some (prefix root_text (drop i c))"
    by (rule starts_at_text [OF d root_text_simps(2)])
  show ?thesis
  proof (cases "prefix root_text (drop i c)")
    case True
    then have le: "i + 5 \<le> length c" using prefix_length_le [OF True] assms(2) by (simp add: root_text_simps)
    have "of_nat (length c) - of_nat 5 - of_nat i = (of_nat (length c - 5 - i) :: u64)" using le by (simp add: of_nat_diff)
    then have un: "unat (of_nat (length c) - of_nat 5 - of_nat i :: u64) = length c - 5 - i"
      by (simp only:) (rule unat_small, use c(2) in simp)
    have ge: "(of_nat (length c) - of_nat 5 - of_nat i \<ge> (of_nat 32 :: u64)) \<longleftrightarrow> i + 37 \<le> length c"
      unfolding word_le_nat_alt un using le by (simp add: le_diff_conv2) linarith
    have len: "p + length c < length mbi" using arg_cong [OF r, of length] by simp
    have b: "take 32 (drop (p + i + 5) mbi) = take 32 (drop (i + 5) c)" if "i + 37 \<le> length c"
      using arg_cong [OF d, of "\<lambda>x. take 32 (drop 5 x)"] that by (simp add: add.commute add.left_commute)
    show ?thesis using st True ge b len assms(3,4)
      by (auto simp: uuid_step_def root_text_simps UUID_LEN_def root_at_def rd_bytes_def wr_bytes_def)
  next
    case False
    then show ?thesis using st by (simp add: uuid_step_def root_at_def)
  qed
qed

lemma uuid_steps:
  assumes "cmdline_at mbi p c" "\<forall>i \<in> set is. i < length c" "length uuid = 33" "drop 32 uuid = [0]"
  shows "\<exists>uuid'. each (uuid_step mbi p (of_nat (length c))) is uuid = Some uuid' \<and> length uuid' = 33 \<and> drop 32 uuid' = [0] \<and>
    ((\<forall>i \<in> set is. \<not> root_at c i) \<longrightarrow> uuid' = uuid)"
  using assms(2-4)
proof (induction "is" arbitrary: uuid)
  case (Cons i "is")
  let ?u = "if root_at c i then take 32 (drop (i + 5) c) @ [0] else uuid"
  have u: "length ?u = 33" "drop 32 ?u = [0]" using Cons.prems by (auto simp: root_at_def)
  have "uuid_step mbi p (of_nat (length c)) i uuid = Some ?u" using uuid_step_at [OF assms(1)] Cons.prems by simp
  moreover obtain u' where "each (uuid_step mbi p (of_nat (length c))) is ?u = Some u'" "length u' = 33" "drop 32 u' = [0]"
      "(\<forall>i \<in> set is. \<not> root_at c i) \<longrightarrow> u' = ?u"
    using Cons.IH [OF _ u] Cons.prems(1) by auto
  ultimately show ?case by auto
qed simp

text \<open>
  The identification of the boot medium is what follows the last \<open>root=\<close> of the boot loader's command line that has 32
  characters behind it, wherever in the line it stands; the search stays inside the line.
\<close>

theorem boot_uuid_found:
  assumes "cmdline_at mbi p c" "c = a @ root_text @ uuid @ b" "length uuid = 32"
    and "\<forall>i > length a. \<not> root_at c i"
  shows "\<exists>s. system_info_get_boot_uuid mbi sim = Some (sim\<lparr>si_boot_uuid := s\<rparr>) \<and> is_str s uuid"
proof -
  have c: "0 \<notin> set c" "length c < 2 ^ 32" "find_cmdline mbi mb2_tags None = Some (Some (p, of_nat (length c)))"
    using assms(1) by (auto simp: cmdline_at_def)
  let ?k = "length a" and ?f = "uuid_step mbi p (of_nat (length c))"
  have k: "root_at c ?k" "?k < length c" "take 32 (drop (?k + 5) c) = uuid"
    using assms(2,3) by (simp_all add: root_at_def root_text_simps)
  have len: "unat (of_nat (length c) :: u64) = length c" using c(2) by (intro unat_small) simp
  have "[0..<length c] = [0..<?k] @ [?k..<length c]" using k(2) upt_add_eq_append [of 0 ?k "length c - ?k"] by simp
  also have "[?k..<length c] = ?k # [Suc ?k..<length c]" using k(2) by (rule upt_conv_Cons)
  finally have idx: "[0..<length c] = [0..<?k] @ ?k # [Suc ?k..<length c]" .
  have app: "each f (xs @ ys) s = each f xs s \<bind> each f ys" for f and xs ys :: "nat list" and s :: "u8 list"
    by (induction xs arbitrary: s) (auto split: Option.bind_splits)
  obtain u1 where u1: "each ?f [0..<?k] (replicate 33 0) = Some u1" "length u1 = 33" "drop 32 u1 = [0]"
    using uuid_steps [OF assms(1), of "[0..<?k]" "replicate 33 0"] k(2) by auto
  have u2: "?f ?k u1 = Some (uuid @ [0])" using uuid_step_at [OF assms(1) k(2) u1(2,3)] k(1,3) by simp
  have "each ?f [Suc ?k..<length c] (uuid @ [0]) = Some (uuid @ [0])"
    using uuid_steps [OF assms(1), of "[Suc ?k..<length c]" "uuid @ [0]"] assms(3,4) by auto
  then have e: "each ?f [0..<length c] (replicate 33 0) = Some (uuid @ [0])" using u1(1) u2 by (simp add: idx app)
  have z: "0 \<notin> set uuid" using c(1) assms(2) by simp
  have "strlen (uuid @ [0]) = Some (length uuid)" using strlen_append [OF z, of "[]"] by simp
  moreover obtain s where s: "assign_cstr (Some uuid) = Some s" "is_str s uuid"
    using assign_cstr_str [of "Some uuid"] z assms(3) by (auto simp: cstr_bytes_def)
  moreover have "\<not> (of_nat (length c) :: u64) < of_nat (UUID_LEN + length root_text)"
    using len assms(2,3) by (simp add: word_less_nat_alt UUID_LEN_def root_text_simps)
  ultimately have "system_info_get_boot_uuid mbi sim = Some (sim\<lparr>si_boot_uuid := s\<rparr>)"
    using c(3) e len assms(3) by (simp add: system_info_get_boot_uuid_def UUID_LEN_def)
  then show ?thesis using s(2) by blast
qed

definition demo_uuid :: "u8 list" where
  "demo_uuid = b8 ''0123456789abcdef0123456789ABCDEF''"

definition demo_mbi :: "u8 list" where
  "demo_mbi = replicate 8 0 @ le32 1 @ le32 49 @ (b8 ''ro '' @ root_text @ demo_uuid) @ [0] @ replicate 7 0 @ le32 0 @ le32 8"

theorem boot_uuid_found_witness:
  "\<exists>s. system_info_get_boot_uuid demo_mbi demo_sim = Some (demo_sim\<lparr>si_boot_uuid := s\<rparr>) \<and> is_str s demo_uuid"
proof -
  let ?c = "b8 ''ro '' @ root_text @ demo_uuid"
  have bytes: "?c = b8 ''ro root=0123456789abcdef0123456789ABCDEF''" by (simp add: root_text_def demo_uuid_def b8_def)
  have len: "length ?c = 40" by (simp add: root_text_def demo_uuid_def b8_def)
  have "rd32 demo_mbi 8 = Some 1" "rd32 demo_mbi 12 = Some 49" "rd32 demo_mbi 64 = Some 0"
    by code_simp+
  moreover have "mb2_tag_advance 8 49 = 64" by code_simp
  ultimately have "find_cmdline demo_mbi mb2_tags None = Some (Some (16, 40))"
    by (subst find_cmdline.simps, subst find_cmdline.simps) (simp add: mb2_tags_def MB_TAG_CMDLINE_def)
  moreover have "drop 16 demo_mbi = ?c @ 0 # replicate 7 0 @ le32 0 @ le32 8" by (simp add: demo_mbi_def le32_def)
  moreover have "0 \<notin> set ?c" unfolding bytes by code_simp
  ultimately have c: "cmdline_at demo_mbi 16 ?c" using len by (auto simp: cmdline_at_def)
  have "\<forall>i > length (b8 ''ro ''). \<not> root_at ?c i" using len by (auto simp: root_at_def b8_def)
  from boot_uuid_found [OF c _ _ this, of demo_uuid "[]"] show ?thesis by (simp add: demo_uuid_def b8_def)
qed

end
