(* ===== verification/Mount.thy ===== *)
theory Mount
  imports Vfs System_Info
begin

text \<open>
  From the disks to the boot medium: \<open>src/kernel/src/drivers/storage/mbr.cpp\<close>, \<open>mount_disks\<close> and the search for the
  boot medium of \<open>src/kernel/src/main.cpp\<close>.

  The drivers of the disks are arguments: for each disk found its read function, sector size and capacity.
  Memory is taken to be available. Printing is left out.
\<close>

section \<open>The partition table\<close>

definition MBR_PARTITIONS :: nat where "MBR_PARTITIONS = 4"

record mbr_entry =
  me_attributes :: u8
  me_partition_type :: u8
  me_lba_start :: u32
  me_sector_count :: u32

definition mbr_partition :: "u8 list \<Rightarrow> nat \<Rightarrow> mbr_entry option" where
  "mbr_partition mbr i = do {
     attributes \<leftarrow> rd8 mbr (446 + 16 * i);
     partition_type \<leftarrow> rd8 mbr (446 + 16 * i + 4);
     lba_start \<leftarrow> rd32 mbr (446 + 16 * i + 8);
     sector_count \<leftarrow> rd32 mbr (446 + 16 * i + 12);
     Some \<lparr>me_attributes = attributes, me_partition_type = partition_type, me_lba_start = lba_start, me_sector_count = sector_count\<rparr> }"

definition mbr_is_entry_valid :: "mbr_entry \<Rightarrow> bool" where
  "mbr_is_entry_valid entry \<longleftrightarrow>
     (if me_attributes entry \<noteq> 0x00 \<and> me_attributes entry \<noteq> 0x80 then False
      else if me_partition_type entry = 0 then False
      else if me_sector_count entry = 0 then False
      else if me_lba_start entry = 0 then False
      else True)"

definition is_mbr :: "u8 list option \<Rightarrow> u64 \<Rightarrow> bool option" where
  "is_mbr data sz =
     (case data of None \<Rightarrow> Some False
      | Some d \<Rightarrow> if sz < 512 then Some False else map_option (\<lambda>m. m = 0xAA55) (rd16 d 510))"

section \<open>Mounting the disks\<close>

text \<open>A block device with its name.\<close>

type_synonym named_device = "u8 list \<times> block_device"

text \<open>A text printed into a buffer of 32 characters.\<close>

definition name_of :: "u8 list \<Rightarrow> fmt_arg list \<Rightarrow> u8 list option" where
  "name_of fmt args = do { (_, buffer) \<leftarrow> sprintf_fmt (replicate 32 0) 32 fmt args; cstr_text buffer }"

text \<open>The loop over the devices of one driver; the number of the next disk goes on.\<close>

definition register_disk :: "disk_interface \<Rightarrow> u64 \<times> disk list \<Rightarrow> (u64 \<times> disk list) option" where
  "register_disk io = (\<lambda>(disknr, disks). do {
     name \<leftarrow> name_of (b8 ''disk%i'') [AI32 (ucast disknr)];
     Some (disknr + 1, snd (disk_manager_register (Some name) (Some io) disks)) })"

definition whole_disk :: "disk \<Rightarrow> named_device option" where
  "whole_disk disk = do {
     name \<leftarrow> name_of (b8 ''%s'') [AStr (Some (disk_name disk))];
     if di_get_sector_size (disk_io disk) = 0 then None
     else Some (name, \<lparr>bd_read = di_read (disk_io disk), bd_start_lba = 0,
       bd_end_lba = di_get_capacity (disk_io disk) div di_get_sector_size (disk_io disk),
       bd_block_size = di_get_sector_size (disk_io disk)\<rparr>) }"

text \<open>The end of a partition is computed in 32 bits.\<close>

definition add_partition :: "disk \<Rightarrow> u8 list \<Rightarrow> nat \<Rightarrow> named_device list \<Rightarrow> named_device list option" where
  "add_partition disk mbr i devices = do {
     entry \<leftarrow> mbr_partition mbr i;
     if \<not> mbr_is_entry_valid entry then Some devices
     else do {
       name \<leftarrow> name_of (b8 ''%sp%i'') [AStr (Some (disk_name disk)), AI32 (of_nat i)];
       Some (devices @ [(name, \<lparr>bd_read = di_read (disk_io disk), bd_start_lba = ucast (me_lba_start entry),
         bd_end_lba = ucast (me_lba_start entry + me_sector_count entry),
         bd_block_size = di_get_sector_size (disk_io disk)\<rparr>)]) } }"

definition disk_devices :: "disk \<Rightarrow> named_device list \<Rightarrow> named_device list option" where
  "disk_devices disk devices = do {
     let io = disk_io disk;
     let sector_size = di_get_sector_size io;
     is_iso \<leftarrow> (case di_read io 16 2048 of None \<Rightarrow> Some False
       | Some d \<Rightarrow> do { iso_buffer \<leftarrow> wr_bytes (replicate 2048 0) 0 d; iso9660_validate iso_buffer 2048 });
     if is_iso then map_option (\<lambda>w. devices @ [w]) (whole_disk disk)
     else case di_read io 0 sector_size of
       None \<Rightarrow> Some devices
     | Some d \<Rightarrow> do {
         buffer \<leftarrow> wr_bytes (replicate (unat sector_size) 0) 0 d;
         mbr \<leftarrow> is_mbr (Some buffer) sector_size;
         if \<not> mbr then map_option (\<lambda>w. devices @ [w]) (whole_disk disk)
         else each (add_partition disk buffer) [0..<MBR_PARTITIONS] devices } }"

definition mount_device :: "named_device \<Rightarrow> vfs \<Rightarrow> vfs option" where
  "mount_device = (\<lambda>(name, device) v. map_option snd (vfs_mount_block_device True True v (Some device) (Some name)))"

definition mount_disks :: "disk_interface list \<Rightarrow> disk_interface list \<Rightarrow> disk_interface list \<Rightarrow> disk list \<Rightarrow> vfs \<Rightarrow>
    (disk list \<times> vfs) option" where
  "mount_disks ahci ide nvme disks v = do {
     s \<leftarrow> each register_disk ahci (0, disks);
     s \<leftarrow> each register_disk ide s;
     (disknr, disks) \<leftarrow> each register_disk nvme s;
     block_devices \<leftarrow> each disk_devices disks [];
     v \<leftarrow> each mount_device block_devices v;
     Some (disks, v) }"

section \<open>The boot medium\<close>

text \<open>One mount point of the loop, the one with the index \<open>i\<close>; \<open>raw\<close> are the contents of fresh blocks.\<close>

definition try_boot :: "(nat \<Rightarrow> u8 list) \<Rightarrow> std_string \<Rightarrow> nat \<Rightarrow> vfs \<times> u8 list \<Rightarrow> (vfs \<times> u8 list) option" where
  "try_boot raw boot_uuid i = (\<lambda>(v, boot_mount_point). do {
     let key = fst (mount_points v ! i);
     (fd, v) \<leftarrow> vfs_open_file v (key @ b8 ''/boot/LIVEMEDIA'');
     if fd = FILE_DESCRIPTOR_INVALID then Some (v, boot_mount_point)
     else do {
       (ok, data, sz) \<leftarrow> vfs_read_file True True raw v fd (None, 0);
       if \<not> ok then Some (v, boot_mount_point)
       else if sz \<noteq> of_nat UUID_LEN then Some (v, boot_mount_point)
       else do {
         p \<leftarrow> c_str boot_uuid;
         uuid \<leftarrow> p;
         bytes \<leftarrow> data;
         eq \<leftarrow> memeq (uuid @ [0]) bytes UUID_LEN;
         if \<not> eq then Some (v, boot_mount_point)
         else Some (snd (mount_point_set_logical_name v (Some i) (Some (b8 ''boot''))), key) } } })"

definition find_boot :: "(nat \<Rightarrow> u8 list) \<Rightarrow> std_string \<Rightarrow> vfs \<Rightarrow> (vfs \<times> u8 list) option" where
  "find_boot raw boot_uuid v = each (try_boot raw boot_uuid) [0..<length (mount_points v)] (v, [])"

end
