(* ===== verification/Boot_Medium.thy ===== *)
theory Boot_Medium
  imports Mount
begin

text \<open>
  From the disks to the files of the boot medium: the names of the disks, mounting disks that hold ISO 9660 trees,
  finding the one the boot loader named, and reading its files under the logical name \<open>boot\<close>.
\<close>

section \<open>Names\<close>

definition disk_text :: "nat \<Rightarrow> u8 list" where
  "disk_text k = b8 ''disk'' @ num_text False 10 k"

lemma name_of_render:
  assumes "render fmt args = Some out" "0 \<notin> set out" "length out < 32"
  shows "name_of fmt args = Some out"
proof -
  obtain n buf where n: "sprintf_fmt (replicate 32 0) 32 fmt args = Some (n, buf)" "length buf = 32"
    "buf ! unat (n - 1) = 0" "take (unat (n - 1)) buf = out" "unat n = length out + 1" "0 < n"
    using sprintf_fmt_writes [OF assms(1), of 32 "replicate 32 0"] assms(3) by auto
  have "1 \<le> n" using n(6) by (simp add: word_le_nat_alt word_less_nat_alt)
  then have u: "unat (n - 1) = length out" using n(5) by (simp add: unat_sub)
  have "buf = out @ 0 # drop (Suc (length out)) buf"
    using id_take_nth_drop [of "length out" buf] n(2-4) assms(3) u by simp
  then have "strlen buf = Some (length out)" using strlen_append [OF assms(2)] by metis
  then show ?thesis using n(1,4) u by (simp add: name_of_def cstr_text_def)
qed

lemma digit_code: "c \<in> set (num_text False 10 k) \<Longrightarrow> 0x30 \<le> c \<and> c \<le> 0x39"
  using atoll_digits [of k] by (auto simp: num_text_def char_is_num_def split: if_splits)

lemma num_text_inj: "k < 2 ^ 64 \<Longrightarrow> j < 2 ^ 64 \<Longrightarrow> num_text False 10 k = num_text False 10 j \<Longrightarrow> k = j"
proof -
  assume a: "k < 2 ^ 64" "j < 2 ^ 64" "num_text False 10 k = num_text False 10 j"
  have "atoll_loop 0 (num_text False 10 n) = of_nat n" for n
    using atoll_digits [of n] by (simp add: num_text_def)
  from this [of k] this [of j] a(3) have "(of_nat k :: u64) = of_nat j" by simp
  then show "k = j" using a(1,2) by (simp add: word_of_nat_eq_iff take_bit_nat_eq_self)
qed

lemma i32_text:
  assumes "k < 2 ^ 31"
  shows "tmp_text (sprintf_i32 (Some (replicate 12 0)) 12 (of_nat k) 10) = Some (num_text False 10 k) \<and> length (num_text False 10 k) < 12"
proof -
  have u: "unat (of_nat k :: u32) = k" using assms by (simp add: unsigned_of_nat take_bit_nat_eq_self)
  have "sint (of_nat k :: u32) = int k" using assms by (simp add: signed_of_nat signed_take_bit_int_eq_self)
  then have s: "\<not> sint (of_nat k :: u32) < 0" by simp
  obtain buf where "sprintf_num 12 False (Some (replicate 12 0)) 12 (of_nat k :: u32) 10 = Some (length (num_text False 10 k) + 1, Some buf)"
    "take (length (num_text False 10 k)) buf = num_text False 10 k" "length (num_text False 10 k) < 12"
    using sprintf_num_text [of 10 "of_nat k :: u32" 12 False 12 "replicate 12 0"] assms u by auto
  then show ?thesis using s by (simp add: sprintf_i32_def tmp_text_def)
qed

lemma disk_text_ok: "k < 2 ^ 31 \<Longrightarrow> name_ok (disk_text k) \<and> length (disk_text k) < 16"
  using i32_text [of k] digit_code [of "0" k] digit_code [of "0x2F" k] by (auto simp: disk_text_def name_ok_def b8_def of_char_def)

lemma disk_text_inj: "k < 2 ^ 31 \<Longrightarrow> j < 2 ^ 31 \<Longrightarrow> disk_text k = disk_text j \<longleftrightarrow> k = j"
  using num_text_inj [of k j] by (auto simp: disk_text_def)

lemma disk_name: "k < 2 ^ 31 \<Longrightarrow> name_of (b8 ''disk%i'') [AI32 (of_nat k)] = Some (disk_text k)"
proof (rule name_of_render)
  assume k: "k < 2 ^ 31"
  show "render (b8 ''disk%i'') [AI32 (of_nat k)] = Some (disk_text k)"
    using i32_text [OF k] by (simp add: b8_def of_char_def parse_conv_def disk_text_def)
  show "0 \<notin> set (disk_text k)" "length (disk_text k) < 32" using disk_text_ok [OF k] by (simp_all add: name_ok_def)
qed

lemma copied_name: "name_ok n \<Longrightarrow> length n < 32 \<Longrightarrow> name_of (b8 ''%s'') [AStr (Some n)] = Some n"
  by (rule name_of_render) (simp_all add: b8_def of_char_def parse_conv_def name_ok_def)

section \<open>Media\<close>

text \<open>A disk that holds a tree: its driver, the record of the root directory and the items in it.\<close>

record medium =
  md_io :: disk_interface
  md_root :: iso_record
  md_items :: "iso_item list"

definition medium_device :: "medium \<Rightarrow> block_device" where
  "medium_device m = \<lparr>bd_read = di_read (md_io m), bd_start_lba = 0,
     bd_end_lba = di_get_capacity (md_io m) div di_get_sector_size (md_io m), bd_block_size = di_get_sector_size (md_io m)\<rparr>"

definition medium_tree :: "medium \<Rightarrow> iso_item" where
  "medium_tree m = Iso_Dir (md_root m) (md_items m)"

definition medium_ok :: "medium \<Rightarrow> bool" where
  "medium_ok m \<longleftrightarrow> di_get_sector_size (md_io m) = 2048 \<and> disk_ok (medium_device m) \<and> iso_volume (medium_device m) (md_root m) \<and>
     on_disk (medium_device m) (md_root m) (medium_tree m)"

text \<open>The file at \<open>ps\<close> holds the bytes \<open>bs\<close>; there is no file at \<open>ps\<close>.\<close>

definition holds :: "medium \<Rightarrow> u8 list list \<Rightarrow> u8 list \<Rightarrow> bool" where
  "holds m ps bs \<longleftrightarrow> (\<exists>r d. iso_resolve (medium_tree m) ps = Some (Iso_File r) \<and>
     blocks_at (medium_device m) (ucast (ir_lba r)) (block_count (unat (ir_size r)) 2048) = Some d \<and> bs = take (unat (ir_size r)) d)"

definition no_file :: "medium \<Rightarrow> u8 list list \<Rightarrow> bool" where
  "no_file m ps \<longleftrightarrow> (\<forall>r. iso_resolve (medium_tree m) ps \<noteq> Some (Iso_File r))"

section \<open>Mounting\<close>

lemma register_media:
  assumes "j + length ios < 2 ^ 31"
  shows "each register_disk ios (of_nat j, disks) = Some (of_nat (j + length ios),
    disks @ map (\<lambda>(k, io). \<lparr>disk_name = disk_text k, disk_io = io\<rparr>) (zip [j..<j + length ios] ios))"
  using assms
proof (induction ios arbitrary: j disks)
  case (Cons io ios)
  have j: "j < 2 ^ 31" using Cons.prems by simp
  have u: "(ucast (of_nat j :: u64) :: u32) = of_nat j" using j by (intro bit_word_eqI) (simp add: bit_simps)
  have t: "take (min (length (disk_text j)) 31) (disk_text j) = disk_text j" using disk_text_ok [OF j] by simp
  have "register_disk io (of_nat j, disks) = Some (of_nat (Suc j), disks @ [\<lparr>disk_name = disk_text j, disk_io = io\<rparr>])"
    using disk_name [OF j] t by (simp add: register_disk_def u disk_manager_register_def add.commute)
  moreover have "[j..<j + length (io # ios)] = j # [Suc j..<Suc j + length ios]" by (simp add: upt_conv_Cons del: upt_Suc)
  ultimately show ?case using Cons.IH [of "Suc j" "disks @ [\<lparr>disk_name = disk_text j, disk_io = io\<rparr>]"] Cons.prems
    by (simp add: add.commute add.left_commute)
qed simp

lemma medium_validates:
  assumes "medium_ok m"
  shows "\<exists>d. di_read (md_io m) 16 2048 = Some d \<and> wr_bytes (replicate 2048 0) 0 d = Some d \<and> iso9660_validate d 2048 = Some True"
proof -
  have bs: "bd_block_size (medium_device m) = 2048" "bd_start_lba (medium_device m) = 0" using assms by (simp_all add: medium_ok_def medium_device_def)
  obtain b where b: "block_device_read (medium_device m) 16 2048 = Some b" "take 6 b = 1 # b8 ''CD001''"
    using assms bs by (auto simp: medium_ok_def iso_volume_def split: option.splits)
  have l: "length b = 2048" using disk_ok_length [OF _ b(1)] assms by (simp add: medium_ok_def)
  obtain c r where cr: "b = c # r" using l by (cases b) auto
  have c: "c = 1" "take 5 r = b8 ''CD001''" using b(2) cr by (simp_all add: numeral_eq_Suc)
  have "memeq (drop 1 b) (b8 ''CD001'') 5 = Some True" using c l cr by (subst memeq_take) (simp_all add: b8_def)
  then have "iso9660_validate b 2048 = Some True" using cr c by (simp add: iso9660_validate_def rd8_def)
  moreover have "di_read (md_io m) 16 2048 = Some b" using b(1) bs by (simp add: block_device_read_def) (simp add: medium_device_def)
  ultimately show ?thesis using l by (simp add: wr_bytes_def)
qed

lemma medium_devices:
  assumes "medium_ok m" "k < 2 ^ 31"
  shows "disk_devices \<lparr>disk_name = disk_text k, disk_io = md_io m\<rparr> devices = Some (devices @ [(disk_text k, medium_device m)])"
proof -
  have "di_get_sector_size (md_io m) = 2048" using assms(1) by (simp add: medium_ok_def)
  moreover have "name_of (b8 ''%s'') [AStr (Some (disk_text k))] = Some (disk_text k)"
    using disk_text_ok [OF assms(2)] by (intro copied_name) simp_all
  ultimately show ?thesis using medium_validates [OF assms(1)]
    by (auto simp: disk_devices_def whole_disk_def medium_device_def Let_def)
qed

text \<open>A mount point of the medium \<open>m\<close> with the number \<open>k\<close>; \<open>logical\<close> is its logical name.\<close>

definition mount_of :: "medium \<Rightarrow> nat \<Rightarrow> u8 list \<Rightarrow> u8 list \<times> vfs_mount_point \<Rightarrow> bool" where
  "mount_of m k logical p \<longleftrightarrow> (\<exists>fs. p = (disk_text k, \<lparr>mp_name = disk_text k, mp_logical_name = logical, mp_filesystem = Fs_Iso9660 fs\<rparr>) \<and>
     mounted fs (md_root m) (md_items m) \<and> iso_device fs = medium_device m)"

definition media_mounted :: "medium list \<Rightarrow> (nat \<Rightarrow> u8 list) \<Rightarrow> vfs \<Rightarrow> bool" where
  "media_mounted ms logical v \<longleftrightarrow> length (mount_points v) = length ms \<and> (\<forall>k < length ms. mount_of (ms ! k) k (logical k) (mount_points v ! k))"

lemma media_keys: "media_mounted ms logical v \<Longrightarrow> k < length ms \<Longrightarrow> fst (mount_points v ! k) = disk_text k"
  by (auto simp: media_mounted_def mount_of_def)

lemma media_map_fst: "media_mounted ms logical v \<Longrightarrow> map fst (mount_points v) = map disk_text [0..<length ms]"
  by (rule nth_equalityI) (auto simp: media_keys media_mounted_def)

lemma media_inv: "media_mounted ms logical v \<Longrightarrow> length ms < 2 ^ 31 \<Longrightarrow> lm_inv (mount_points v)"
  unfolding lm_inv_def by (drule media_map_fst) (auto simp: distinct_map inj_on_def disk_text_inj)

lemma media_lookup:
  assumes "media_mounted ms logical v" "length ms < 2 ^ 31" "k < length ms"
  shows "lm_lookup (mount_points v) (disk_text k) = Some (snd (mount_points v ! k))"
proof -
  have d: "distinct (map fst (mount_points v))" using media_inv [OF assms(1,2)] by (simp add: lm_inv_def)
  have "mount_points v ! k \<in> set (mount_points v)" using assms by (simp add: media_mounted_def)
  then have "map_of (mount_points v) (fst (mount_points v ! k)) = Some (snd (mount_points v ! k))"
    using d by (simp add: map_of_is_SomeI)
  then show ?thesis using media_keys [OF assms(1,3)] by (simp add: lm_lookup_map_of)
qed

lemma mount_next:
  assumes "media_mounted ms (\<lambda>_. []) v" "medium_ok m" "length ms < 2 ^ 31"
  shows "\<exists>v'. mount_device (disk_text (length ms), medium_device m) v = Some v' \<and> media_mounted (ms @ [m]) (\<lambda>_. []) v' \<and>
    logical_to_mount_map v' = logical_to_mount_map v \<and> file_handles v' = file_handles v \<and> last_fd v' = last_fd v"
proof -
  let ?n = "disk_text (length ms)"
  have "?n \<notin> set (map fst (mount_points v))"
    using media_map_fst [OF assms(1)] assms(3) by (auto simp: disk_text_inj)
  then have none: "lm_lookup (mount_points v) ?n = None" by (simp add: lm_lookup_map_of map_of_eq_None_iff)
  then have get: "lm_get ?n (mount_points v) = None" by (simp add: lm_lookup_def split: option.splits)
  obtain fs where fs: "vfs_mount_block_device True True v (Some (medium_device m)) (Some ?n) = Some (True, add_mount_point (Fs_Iso9660 fs) ?n v)"
    "mounted fs (md_root m) (md_items m)" "iso_device fs = medium_device m"
    using mount_iso [OF _ _ _ none, of "medium_device m" "md_root m" "md_items m"] assms(2) by (auto simp: medium_ok_def medium_tree_def)
  have len: "take (min (length ?n) 255) ?n = ?n" using disk_text_ok [OF assms(3)] by simp
  let ?p = "(?n, \<lparr>mp_name = ?n, mp_logical_name = [], mp_filesystem = Fs_Iso9660 fs\<rparr>)"
  have add: "add_mount_point (Fs_Iso9660 fs) ?n v = v\<lparr>mount_points := mount_points v @ [?p]\<rparr>"
    using len by (simp add: add_mount_point_def lm_put_new [OF get] MOUNT_POINT_MAX_NAME_LEN_def)
  have "mount_of m (length ms) [] ?p" using fs(2,3) by (auto simp: mount_of_def)
  then have "media_mounted (ms @ [m]) (\<lambda>_. []) (v\<lparr>mount_points := mount_points v @ [?p]\<rparr>)"
    using assms(1) by (auto simp: media_mounted_def nth_append less_Suc_eq)
  then show ?thesis using fs(1) add by (simp add: mount_device_def)
qed

lemma mount_media:
  assumes "media_mounted ms1 (\<lambda>_. []) v" "\<forall>m \<in> set ms2. medium_ok m" "length (ms1 @ ms2) < 2 ^ 31"
  shows "\<exists>v'. each mount_device (map (\<lambda>(k, m). (disk_text k, medium_device m)) (zip [length ms1..<length (ms1 @ ms2)] ms2)) v = Some v' \<and>
    media_mounted (ms1 @ ms2) (\<lambda>_. []) v' \<and>
    logical_to_mount_map v' = logical_to_mount_map v \<and> file_handles v' = file_handles v \<and> last_fd v' = last_fd v"
  using assms
proof (induction ms2 arbitrary: ms1 v)
  case (Cons m ms2)
  obtain v1 where v1: "mount_device (disk_text (length ms1), medium_device m) v = Some v1" "media_mounted (ms1 @ [m]) (\<lambda>_. []) v1"
    "logical_to_mount_map v1 = logical_to_mount_map v" "file_handles v1 = file_handles v" "last_fd v1 = last_fd v"
    using mount_next [OF Cons.prems(1), of m] Cons.prems(2,3) by auto
  obtain v2 where "each mount_device (map (\<lambda>(k, m). (disk_text k, medium_device m)) (zip [length (ms1 @ [m])..<length ((ms1 @ [m]) @ ms2)] ms2)) v1 = Some v2"
    "media_mounted ((ms1 @ [m]) @ ms2) (\<lambda>_. []) v2"
    "logical_to_mount_map v2 = logical_to_mount_map v1" "file_handles v2 = file_handles v1" "last_fd v2 = last_fd v1"
    using Cons.IH [OF v1(2)] Cons.prems(2,3) by auto
  moreover have "[length ms1..<length (ms1 @ m # ms2)] = length ms1 # [length (ms1 @ [m])..<length ((ms1 @ [m]) @ ms2)]"
    by (simp add: upt_conv_Cons del: upt_Suc)
  ultimately show ?case using v1 by (simp del: upt_Suc)
qed auto

lemma devices_of_media:
  assumes "\<forall>m \<in> set ms. medium_ok m" "j + length ms < 2 ^ 31"
  shows "each disk_devices (map (\<lambda>(k, io). \<lparr>disk_name = disk_text k, disk_io = io\<rparr>) (zip [j..<j + length ms] (map md_io ms))) devices =
    Some (devices @ map (\<lambda>(k, m). (disk_text k, medium_device m)) (zip [j..<j + length ms] ms))"
  using assms
proof (induction ms arbitrary: j devices)
  case (Cons m ms)
  have "[j..<j + length (m # ms)] = j # [Suc j..<Suc j + length ms]" by (simp add: upt_conv_Cons del: upt_Suc)
  then show ?case using medium_devices [of m j devices] Cons.IH [of "Suc j" "devices @ [(disk_text j, medium_device m)]"] Cons.prems
    by (simp del: upt_Suc)
qed simp

lemma mount_disks_media:
  assumes "ahci @ ide @ nvme = map md_io ms" "\<forall>m \<in> set ms. medium_ok m" "length ms < 2 ^ 31"
  shows "\<exists>disks v. mount_disks ahci ide nvme [] vfs_init = Some (disks, v) \<and> media_mounted ms (\<lambda>_. []) v \<and>
    logical_to_mount_map v = [] \<and> file_handles v = [] \<and> last_fd v = 0 \<and> map disk_name disks = map disk_text [0..<length ms]"
proof -
  have len: "length ahci + (length ide + length nvme) = length ms" using arg_cong [OF assms(1), of length] by simp
  let ?disks = "map (\<lambda>(k, io). \<lparr>disk_name = disk_text k, disk_io = io\<rparr>) (zip [0..<length ms] (map md_io ms))"
  have "each register_disk (ahci @ ide @ nvme) (of_nat 0, []) = Some (of_nat (length ms), ?disks)"
    using register_media [of 0 "map md_io ms" "[]"] assms(1,3) by simp
  then obtain s1 s2 where reg: "each register_disk ahci (0, []) = Some s1" "each register_disk ide s1 = Some s2"
    "each register_disk nvme s2 = Some (of_nat (length ms), ?disks)"
    by (auto simp: each_append bind_Some_iff)
  have dev: "each disk_devices ?disks [] = Some (map (\<lambda>(k, m). (disk_text k, medium_device m)) (zip [0..<length ms] ms))"
    using devices_of_media [OF assms(2), of 0 "[]"] assms(3) by simp
  have "map disk_name ?disks = map disk_text [0..<length ms]" by (rule nth_equalityI) simp_all
  moreover have "media_mounted [] (\<lambda>_. []) vfs_init" by (simp add: media_mounted_def vfs_init_def)
  ultimately show ?thesis using mount_media [of "[]" vfs_init ms] assms(2,3) reg dev by (auto simp: mount_disks_def vfs_init_def)
qed

section \<open>Paths\<close>

text \<open>A path that starts with the name of a mount point, without a slash before it.\<close>

lemma parts_plain: "n \<noteq> [] \<Longrightarrow> 0x2F \<notin> set n \<Longrightarrow> \<forall>p \<in> set ps. p \<noteq> [] \<and> 0x2F \<notin> set p \<Longrightarrow> parts_of 0x2F (n @ join_path ps) = n # ps"
  using parts_of_join_path [of "n # ps"] by simp

lemma split_plain:
  assumes "name_ok n" "\<forall>p \<in> set ps. name_ok p" "length (n @ join_path ps) < 2 ^ 63"
  shows "\<exists>s ss q. split_path (Some (n @ join_path ps)) = Some (s # ss) \<and> c_str s = Some q \<and> cstr_bytes q = n"
proof -
  have "0 \<notin> set (join_path ps)" using assms(2) by (induction ps) (auto simp: name_ok_def join_path_def)
  then have ok: "path_ok (Some (n @ join_path ps))" using assms(1,3) by (simp add: path_ok_def cstr_bytes_def name_ok_def)
  have "path_parts (Some (n @ join_path ps)) = n # ps" unfolding cstr_bytes_def option.case
    using assms(1,2) by (intro parts_plain) (auto simp: name_ok_def)
  then obtain ss where "split_path (Some (n @ join_path ps)) = Some ss" "list_all2 is_str ss (n # ps)"
    using split_path_parts [OF ok] by metis
  moreover from this obtain s ss' where "ss = s # ss'" "is_str s n" by (auto simp: list_all2_Cons2)
  ultimately show ?thesis using is_str_c_str by blast
qed

lemma plain_mount_point:
  assumes "name_ok n" "\<forall>p \<in> set ps. name_ok p" "length (n @ join_path ps) < 2 ^ 63"
  shows "vfs_get_mount_point_from_path v (n @ join_path ps) = Some (lm_lookup (mount_points v) n)"
proof -
  have "\<not> str_starts_with (n @ join_path ps) logical_prefix" using assms(1)
    by (cases n) (auto simp: name_ok_def logical_prefix_def b8_def)
  then show ?thesis using split_plain [OF assms] by (auto simp: vfs_get_mount_point_from_path_def)
qed

lemma logical_mount_point:
  assumes "name_ok n" "\<forall>p \<in> set ps. name_ok p" "length (n @ join_path ps) < 2 ^ 63"
  shows "vfs_get_mount_point_from_path v (logical_prefix @ n @ join_path ps) =
    Some (case lm_lookup (logical_to_mount_map v) (hash_name n) of None \<Rightarrow> None | Some k \<Rightarrow> lm_lookup (mount_points v) k)"
proof -
  have "str_starts_with (logical_prefix @ n @ join_path ps) logical_prefix" "drop 4 (logical_prefix @ n @ join_path ps) = n @ join_path ps"
    by (simp_all add: logical_prefix_def b8_def)
  then show ?thesis using split_plain [OF assms] by (auto simp: vfs_get_mount_point_from_path_def)
qed

text \<open>What is left of a path that begins with the mount point's name.\<close>

lemma cut_name:
  assumes "is_str s (n @ join_path ps)" "name_ok n" "ps \<noteq> []" "length (n @ join_path ps) < 2 ^ 63"
  shows "\<exists>r. substr s (of_nat (length n)) npos = Some r \<and> is_str r (join_path ps) \<and> \<not> of_nat (length n) \<ge> ss_len s \<and>
    c_str r = Some (Some (join_path ps))"
proof -
  have u: "unat (of_nat (length n) :: u64) = length n" using assms(2) by (intro unat_small) (simp add: name_ok_def)
  have t: "take (unat npos) (drop (unat (of_nat (length n) :: u64)) (n @ join_path ps)) = join_path ps"
    using assms(4) unfolding u by (simp add: npos_def unsigned_minus_1_eq_mask mask_eq_exp_minus_1)
  have ne: "join_path ps \<noteq> []" using assms(3) by (cases ps) (simp_all add: join_path_def)
  obtain r where r: "substr s (of_nat (length n)) npos = Some r" "is_str r (join_path ps)"
    using substr_str [OF assms(1), of npos "of_nat (length n)"] unfolding t by auto
  have "\<not> of_nat (length n) \<ge> ss_len s" using assms(1) u ne by (auto simp: is_str_def word_le_nat_alt)
  moreover have "c_str r = Some (Some (join_path ps))"
    using is_str_Some [OF r(2) ne] r(2) strlen_append [of "join_path ps" "[]"] by (simp add: is_str_def c_str_def)
  ultimately show ?thesis using r by blast
qed

lemma plain_relative:
  assumes "name_ok n" "\<forall>p \<in> set ps. name_ok p" "length (n @ join_path ps) < 2 ^ 63" "ps \<noteq> []" "mp_name mp = n"
  shows "relative_cstr mp (n @ join_path ps) = Some (Some (join_path ps))"
proof -
  let ?path = "n @ join_path ps"
  have z: "0 \<notin> set ?path" using assms(1,2) by (induction ps) (auto simp: name_ok_def join_path_def)
  obtain s where s: "assign_cstr (Some ?path) = Some s" "is_str s ?path"
    using assign_cstr_str [of "Some ?path"] z assms(3) by (auto simp: cstr_bytes_def)
  have ne: "?path \<noteq> []" using assms(1) by (simp add: name_ok_def)
  have c: "c_str s = Some (Some ?path)" using is_str_Some [OF s(2) ne] s(2) strlen_append [OF z, of "[]"] by (simp add: is_str_def c_str_def)
  have "\<not> str_starts_with ?path logical_prefix" "\<not> str_starts_with ?path [0x2F]" using assms(1)
    by (cases n; auto simp: name_ok_def logical_prefix_def b8_def)+
  then show ?thesis using s(1) c cut_name [OF s(2) assms(1,4,3)] assms(5)
    by (auto simp: relative_cstr_def get_mount_point_relative_path_def cstr_bytes_def)
qed

lemma logical_relative:
  assumes "name_ok n" "\<forall>p \<in> set ps. name_ok p" "length (n @ join_path ps) < 2 ^ 62" "ps \<noteq> []" "mp_logical_name mp = n"
  shows "relative_cstr mp (logical_prefix @ n @ join_path ps) = Some (Some (join_path ps))"
proof -
  let ?rest = "n @ join_path ps" and ?path = "logical_prefix @ n @ join_path ps"
  have z: "0 \<notin> set ?rest" using assms(1,2) by (induction ps) (auto simp: name_ok_def join_path_def)
  have lp: "length logical_prefix = 4" "0 \<notin> set logical_prefix" by (simp_all add: logical_prefix_def b8_def of_char_def)
  have zp: "0 \<notin> set ?path" using z lp(2) by simp
  obtain s where s: "assign_cstr (Some ?path) = Some s" "is_str s ?path"
    using assign_cstr_str [of "Some ?path"] zp assms(3) lp(1) by (auto simp: cstr_bytes_def)
  have c: "c_str s = Some (Some ?path)" using is_str_Some [OF s(2)] s(2) strlen_append [OF zp, of "[]"] lp(1) by (auto simp: is_str_def c_str_def)
  have t: "take (unat npos) (drop (unat (4 :: u64)) ?path) = ?rest"
    using assms(3) lp(1) by (simp add: npos_def unsigned_minus_1_eq_mask mask_eq_exp_minus_1)
  obtain s' where s': "substr s 4 npos = Some s'" "is_str s' ?rest"
    using substr_str [OF s(2), of npos 4] unfolding t by auto
  have ne: "?rest \<noteq> []" using assms(1) by (simp add: name_ok_def)
  have c': "c_str s' = Some (Some ?rest)" using is_str_Some [OF s'(2) ne] s'(2) strlen_append [OF z, of "[]"] by (simp add: is_str_def c_str_def)
  have "str_starts_with ?path logical_prefix" by (simp add: logical_prefix_def b8_def)
  moreover have "\<not> str_starts_with ?rest [0x2F]" using assms(1) by (cases n) (auto simp: name_ok_def)
  moreover have "length ?rest < 2 ^ 63" using assms(3) by simp
  ultimately show ?thesis using s(1) c s'(1) c' cut_name [OF s'(2) assms(1,4)] assms(5)
    by (auto simp: relative_cstr_def get_mount_point_relative_path_def cstr_bytes_def)
qed

section \<open>Opening files\<close>

text \<open>A path that leads to the file system of the medium \<open>m\<close>, whatever files are open.\<close>

definition leads_to :: "vfs \<Rightarrow> u8 list \<Rightarrow> medium \<Rightarrow> u8 list list \<Rightarrow> bool" where
  "leads_to v path m ps \<longleftrightarrow> medium_ok m \<and> ps \<noteq> [] \<and> (\<forall>p \<in> set ps. name_ok p) \<and> length (join_path ps) < 2 ^ 63 \<and>
     (\<exists>mp fs. (\<forall>w. mount_points w = mount_points v \<longrightarrow> logical_to_mount_map w = logical_to_mount_map v \<longrightarrow>
         vfs_get_mount_point_from_path w path = Some (Some mp)) \<and>
       relative_cstr mp path = Some (Some (join_path ps)) \<and> mp_filesystem mp = Fs_Iso9660 fs \<and>
       mounted fs (md_root m) (md_items m) \<and> iso_device fs = medium_device m)"

definition same_mounts :: "vfs \<Rightarrow> vfs \<Rightarrow> bool" where
  "same_mounts v w \<longleftrightarrow> mount_points w = mount_points v \<and> logical_to_mount_map w = logical_to_mount_map v"

lemma leads_to_cong: "same_mounts v w \<Longrightarrow> leads_to w path m ps = leads_to v path m ps"
  by (simp add: leads_to_def same_mounts_def)

lemma held_file_length: "medium_ok m \<Longrightarrow> iso_resolve (medium_tree m) ps = Some (Iso_File r) \<Longrightarrow>
  blocks_at (medium_device m) (ucast (ir_lba r)) (block_count (unat (ir_size r)) 2048) = Some d \<Longrightarrow> length (take (unat (ir_size r)) d) = unat (ir_size r)"
proof -
  assume a: "medium_ok m" "blocks_at (medium_device m) (ucast (ir_lba r)) (block_count (unat (ir_size r)) 2048) = Some d"
  have "length d = block_count (unat (ir_size r)) 2048 * 2048"
    using blocks_at_length [OF _ a(2)] a(1) by (simp add: medium_ok_def) (simp add: medium_device_def)
  then show ?thesis using block_count_bounds [of 2048 "unat (ir_size r)"] by simp
qed

lemma open_none:
  assumes "leads_to v path m ps" "no_file m ps"
  shows "vfs_open_file v path = Some (FILE_DESCRIPTOR_INVALID, v)"
proof -
  obtain mp fs where mp: "vfs_get_mount_point_from_path v path = Some (Some mp)" "relative_cstr mp path = Some (Some (join_path ps))"
    "mp_filesystem mp = Fs_Iso9660 fs" "mounted fs (md_root m) (md_items m)" using assms(1) by (auto simp: leads_to_def)
  have ps: "ps \<noteq> []" "\<forall>p \<in> set ps. name_ok p" "length (join_path ps) < 2 ^ 63" using assms(1) by (simp_all add: leads_to_def)
  have parts: "path_parts (Some (join_path ps)) = ps" unfolding cstr_bytes_def option.case
    using ps(2) by (intro parts_of_join_path) (auto simp: name_ok_def)
  have ok: "path_ok (Some (join_path ps))" using ps by (intro join_path_ok) (auto simp: name_ok_def)
  have ne: "path_parts (Some (join_path ps)) \<noteq> [] \<or> is_root_path (Some (join_path ps))" using parts ps(1) by simp
  have "iso9660_file_exists fs (Some (join_path ps)) = Some False"
    using find_root_resolves [OF mp(4) ok ne] assms(2) parts
    by (auto simp: iso9660_file_exists_def no_file_def medium_tree_def found_directory split: option.splits) (metis iso_item.exhaust)
  then show ?thesis using mp by (simp add: vfs_open_file_def interface_file_exists_def)
qed

lemma open_holds:
  assumes "leads_to v path m ps" "holds m ps bs" "last_fd v \<noteq> FILE_DESCRIPTOR_INVALID" "lm_inv (file_handles v)"
  shows "\<exists>w. vfs_open_file v path = Some (last_fd v, w) \<and> same_mounts v w \<and> last_fd w = last_fd v + 1 \<and> lm_inv (file_handles w) \<and>
    vfs_read_file True True raw w (last_fd v) out = Some (True, Some bs, of_nat (length bs))"
proof -
  obtain mp fs where mp: "\<And>w. mount_points w = mount_points v \<Longrightarrow> logical_to_mount_map w = logical_to_mount_map v \<Longrightarrow>
      vfs_get_mount_point_from_path w path = Some (Some mp)" "relative_cstr mp path = Some (Some (join_path ps))"
    "mp_filesystem mp = Fs_Iso9660 fs" "mounted fs (md_root m) (md_items m)" "iso_device fs = medium_device m"
    using assms(1) by (auto simp: leads_to_def)
  have ps: "ps \<noteq> []" "\<forall>p \<in> set ps. name_ok p" "length (join_path ps) < 2 ^ 63" and m: "medium_ok m"
    using assms(1) by (simp_all add: leads_to_def)
  have parts: "path_parts (Some (join_path ps)) = ps" unfolding cstr_bytes_def option.case
    using ps(2) by (intro parts_of_join_path) (auto simp: name_ok_def)
  have ok: "path_ok (Some (join_path ps))" using ps by (intro join_path_ok) (auto simp: name_ok_def)
  have ne: "path_parts (Some (join_path ps)) \<noteq> [] \<or> is_root_path (Some (join_path ps))" using parts ps(1) by simp
  obtain r d where r: "iso_resolve (Iso_Dir (md_root m) (md_items m)) ps = Some (Iso_File r)"
    "blocks_at (medium_device m) (ucast (ir_lba r)) (block_count (unat (ir_size r)) (2 ^ 11)) = Some d" "bs = take (unat (ir_size r)) d"
    using assms(2) by (auto simp: holds_def medium_tree_def)
  have len: "(of_nat (length bs) :: u64) = ucast (ir_size r)"
    using held_file_length [OF m, of ps r d] r by (simp add: medium_tree_def)
  have "bd_block_size (iso_device fs) = 2 ^ 11" using m mp(5) by (simp add: medium_ok_def medium_device_def)
  then have rd: "iso9660_read True True fs (Some (join_path ps)) (None, 0) = Some (True, Some bs, of_nat (length bs))"
    using iso_read_ok [OF mp(4) ok ne, of r 11 d] r mp(5) parts len by simp
  have ex: "iso9660_file_exists fs (Some (join_path ps)) = Some True"
    using find_root_resolves [OF mp(4) ok ne] r(1) parts by (simp add: iso9660_file_exists_def)
  let ?w = "v\<lparr>last_fd := last_fd v + 1, file_handles := lm_put (last_fd v) [] path (file_handles v)\<rparr>"
  have "vfs_open_file v path = Some (last_fd v, ?w)"
    using mp(1) [of v] mp(2,3) ex assms(3) by (simp add: vfs_open_file_def interface_file_exists_def Let_def)
  moreover have "lm_lookup (file_handles ?w) (last_fd v) = Some path" using lm.put_law [OF assms(4)] by simp
  then have "vfs_read_file True True raw ?w (last_fd v) out = Some (True, Some bs, of_nat (length bs))"
    using mp(1) [of ?w] mp(2,3) rd by (simp add: vfs_read_file_def interface_read_def)
  ultimately show ?thesis using lm.put_inv [OF assms(4)] by (intro exI [of _ ?w]) (simp add: same_mounts_def)
qed

lemma plain_leads:
  assumes "media_mounted ms logical v" "length ms < 2 ^ 31" "k < length ms" "medium_ok (ms ! k)"
    and "\<forall>p \<in> set ps. name_ok p" "ps \<noteq> []" "length (join_path ps) < 2 ^ 62"
  shows "leads_to v (disk_text k @ join_path ps) (ms ! k) ps"
proof -
  let ?mp = "snd (mount_points v ! k)"
  have "k < 2 ^ 31" using assms(2,3) by simp
  then have n: "name_ok (disk_text k)" "length (disk_text k) < 16" using disk_text_ok by simp_all
  obtain fs where fs: "?mp = \<lparr>mp_name = disk_text k, mp_logical_name = logical k, mp_filesystem = Fs_Iso9660 fs\<rparr>"
    "mounted fs (md_root (ms ! k)) (md_items (ms ! k))" "iso_device fs = medium_device (ms ! k)"
    using assms(1,3) by (fastforce simp: media_mounted_def mount_of_def)
  have len: "length (disk_text k @ join_path ps) < 2 ^ 63" using n(2) assms(7) by simp
  have "vfs_get_mount_point_from_path w (disk_text k @ join_path ps) = Some (Some ?mp)" if "mount_points w = mount_points v" for w
    using plain_mount_point [OF n(1) assms(5) len, of w] media_lookup [OF assms(1-3)] that by simp
  moreover have "relative_cstr ?mp (disk_text k @ join_path ps) = Some (Some (join_path ps))"
    by (rule plain_relative [OF n(1) assms(5) len assms(6)]) (simp add: fs(1))
  moreover have "length (join_path ps) < 2 ^ 63" using assms(7) by simp
  ultimately show ?thesis using assms(4,5,6) fs unfolding leads_to_def by (intro conjI exI [of _ ?mp] exI [of _ fs]) simp_all
qed

lemma logical_leads:
  assumes "media_mounted ms logical v" "length ms < 2 ^ 31" "k < length ms" "medium_ok (ms ! k)"
    and "\<forall>p \<in> set ps. name_ok p" "ps \<noteq> []" "length (join_path ps) < 2 ^ 61"
    and "name_ok n" "logical k = n" "lm_lookup (logical_to_mount_map v) (hash_name n) = Some (disk_text k)"
  shows "leads_to v (logical_prefix @ n @ join_path ps) (ms ! k) ps"
proof -
  let ?mp = "snd (mount_points v ! k)" and ?path = "logical_prefix @ n @ join_path ps"
  obtain fs where fs: "?mp = \<lparr>mp_name = disk_text k, mp_logical_name = n, mp_filesystem = Fs_Iso9660 fs\<rparr>"
    "mounted fs (md_root (ms ! k)) (md_items (ms ! k))" "iso_device fs = medium_device (ms ! k)"
    using assms(1,3,9) by (fastforce simp: media_mounted_def mount_of_def)
  have len: "length (n @ join_path ps) < 2 ^ 62" using assms(7,8) by (simp add: name_ok_def)
  then have "length (n @ join_path ps) < 2 ^ 63" by simp
  then have "vfs_get_mount_point_from_path w ?path = Some (Some ?mp)"
    if "mount_points w = mount_points v" "logical_to_mount_map w = logical_to_mount_map v" for w
    using logical_mount_point [OF assms(8,5), of w] media_lookup [OF assms(1-3)] assms(10) that by simp
  moreover have "relative_cstr ?mp ?path = Some (Some (join_path ps))"
    by (rule logical_relative [OF assms(8,5) len assms(6)]) (simp add: fs(1))
  moreover have "length (join_path ps) < 2 ^ 63" using assms(7) by simp
  ultimately show ?thesis using assms(4,5,6) fs unfolding leads_to_def by (intro conjI exI [of _ ?mp] exI [of _ fs]) simp_all
qed

section \<open>The boot medium\<close>

definition live_path :: "u8 list list" where
  "live_path = [b8 ''boot'', b8 ''LIVEMEDIA'']"

definition other_medium :: "u8 list \<Rightarrow> medium \<Rightarrow> bool" where
  "other_medium u m \<longleftrightarrow> no_file m live_path \<or> (\<exists>bs. holds m live_path bs \<and> bs \<noteq> u)"

definition handles_ok :: "nat \<Rightarrow> vfs \<Rightarrow> bool" where
  "handles_ok n v \<longleftrightarrow> lm_inv (file_handles v) \<and> unat (last_fd v) \<le> n"

lemma live_path_ok: "\<forall>p \<in> set live_path. name_ok p" "live_path \<noteq> []" "join_path live_path = b8 ''/boot/LIVEMEDIA''" "length (join_path live_path) < 2 ^ 61"
  by (simp_all add: live_path_def name_ok_def b8_def of_char_def)

lemma handles_fd: "handles_ok n v \<Longrightarrow> n < 2 ^ 31 \<Longrightarrow> last_fd v \<noteq> FILE_DESCRIPTOR_INVALID"
proof
  assume a: "handles_ok n v" "n < 2 ^ 31" and "last_fd v = FILE_DESCRIPTOR_INVALID"
  then have "last_fd v = - 1" by (simp only: FILE_DESCRIPTOR_INVALID_def)
  then have "unat (last_fd v) = 2 ^ 64 - 1" by (simp add: unsigned_minus_1_eq_mask mask_eq_exp_minus_1)
  then show False using a by (simp add: handles_ok_def)
qed

lemma handles_step: "handles_ok n v \<Longrightarrow> n < 2 ^ 31 \<Longrightarrow> lm_inv (file_handles w) \<Longrightarrow> last_fd w = last_fd v + 1 \<Longrightarrow> handles_ok (Suc n) w"
proof -
  assume a: "handles_ok n v" "n < 2 ^ 31" "lm_inv (file_handles w)" "last_fd w = last_fd v + 1"
  then have "unat (last_fd v) + unat (1 :: u64) < 2 ^ LENGTH(64)" by (simp add: handles_ok_def)
  then have "unat (last_fd v + 1) = unat (last_fd v) + 1" by (subst unat_plus_no_wrap) simp_all
  then show ?thesis using a by (simp add: handles_ok_def)
qed

lemma str_c_str: "is_str s u \<Longrightarrow> u \<noteq> [] \<Longrightarrow> c_str s = Some (Some u)"
proof -
  assume a: "is_str s u" "u \<noteq> []"
  show ?thesis using is_str_Some [OF a] a(1) strlen_append [of u "[]"] by (simp add: is_str_def c_str_def)
qed

lemma try_live:
  assumes "media_mounted ms logical v" "length ms < 2 ^ 31" "k < length ms" "medium_ok (ms ! k)" "handles_ok n v" "n < 2 ^ 31"
    and "is_str uuid u" "length u = 32" "holds (ms ! k) live_path bs"
  shows "\<exists>w. same_mounts v w \<and> handles_ok (Suc n) w \<and> try_boot raw uuid k (v, b) =
    (if bs = u then Some (snd (mount_point_set_logical_name w (Some k) (Some (b8 ''boot''))), disk_text k) else Some (w, b))"
proof -
  have l: "leads_to v (disk_text k @ join_path live_path) (ms ! k) live_path"
    by (rule plain_leads [OF assms(1-4) live_path_ok(1,2)]) (simp add: live_path_ok(3) b8_def)
  obtain w where w: "vfs_open_file v (disk_text k @ b8 ''/boot/LIVEMEDIA'') = Some (last_fd v, w)" "same_mounts v w"
    "last_fd w = last_fd v + 1" "lm_inv (file_handles w)"
    "vfs_read_file True True raw w (last_fd v) (None, 0) = Some (True, Some bs, of_nat (length bs))"
    using open_holds [OF l assms(9) handles_fd [OF assms(5,6)]] assms(5) unfolding live_path_ok(3) handles_ok_def by blast
  have "u \<noteq> []" using assms(8) by (cases u) simp_all
  then have c: "c_str uuid = Some (Some u)" by (rule str_c_str [OF assms(7)])
  have len: "length bs < 2 ^ 32" using assms(4,9) held_file_length unat_u32_less by (fastforce simp: holds_def)
  then have sz: "(of_nat (length bs) :: u64) = 32 \<longleftrightarrow> length bs = 32"
    using unat_small [of "length bs"] by (simp add: word_unat_eq_iff)
  have m: "memeq (u @ [0]) bs 32 = Some (u = bs)" if "length bs = 32"
    using memeq_take [of 32 "u @ [0]" bs] that assms(8) by simp
  have key: "fst (mount_points v ! k) = disk_text k" by (rule media_keys [OF assms(1,3)])
  have fd: "last_fd v \<noteq> FILE_DESCRIPTOR_INVALID" by (rule handles_fd [OF assms(5,6)])
  have "try_boot raw uuid k (v, b) =
    (if bs = u then Some (snd (mount_point_set_logical_name w (Some k) (Some (b8 ''boot''))), disk_text k) else Some (w, b))"
    using w(1,5) key fd c sz m assms(8) by (auto simp: try_boot_def UUID_LEN_def)
  then show ?thesis using w(2) handles_step [OF assms(5,6) w(4,3)] by blast
qed

lemma try_other:
  assumes "media_mounted ms logical v" "length ms < 2 ^ 31" "k < length ms" "medium_ok (ms ! k)" "handles_ok n v" "n < 2 ^ 31"
    and "is_str uuid u" "length u = 32" "other_medium u (ms ! k)"
  shows "\<exists>w. try_boot raw uuid k (v, b) = Some (w, b) \<and> same_mounts v w \<and> handles_ok (Suc n) w"
proof (cases "no_file (ms ! k) live_path")
  case True
  have l: "leads_to v (disk_text k @ join_path live_path) (ms ! k) live_path"
    by (rule plain_leads [OF assms(1-4) live_path_ok(1,2)]) (simp add: live_path_ok(3) b8_def)
  have "vfs_open_file v (disk_text k @ b8 ''/boot/LIVEMEDIA'') = Some (FILE_DESCRIPTOR_INVALID, v)"
    using open_none [OF l True] unfolding live_path_ok(3) .
  then have "try_boot raw uuid k (v, b) = Some (v, b)" using media_keys [OF assms(1,3)] by (simp add: try_boot_def)
  moreover have "handles_ok (Suc n) v" using assms(5) by (simp add: handles_ok_def)
  ultimately show ?thesis by (auto simp: same_mounts_def)
next
  case False
  then obtain bs where "holds (ms ! k) live_path bs" "bs \<noteq> u" using assms(9) by (auto simp: other_medium_def)
  then show ?thesis using try_live [OF assms(1-8), of bs raw b] by auto
qed

lemma mounted_cong: "same_mounts v w \<Longrightarrow> media_mounted ms logical w = media_mounted ms logical v"
  by (simp add: media_mounted_def same_mounts_def)

lemma try_others:
  assumes "media_mounted ms logical v" "length ms < 2 ^ 31" "\<forall>m \<in> set ms. medium_ok m" "handles_ok n v" "n + length ks < 2 ^ 31"
    and "is_str uuid u" "length u = 32" "\<forall>k \<in> set ks. k < length ms \<and> other_medium u (ms ! k)"
  shows "\<exists>w. each (try_boot raw uuid) ks (v, b) = Some (w, b) \<and> same_mounts v w \<and> handles_ok (n + length ks) w"
  using assms(1,4,5,8)
proof (induction ks arbitrary: v n)
  case (Cons k ks)
  obtain v1 where v1: "try_boot raw uuid k (v, b) = Some (v1, b)" "same_mounts v v1" "handles_ok (Suc n) v1"
    using try_other [OF Cons.prems(1) assms(2) _ _ Cons.prems(2) _ assms(6,7), of k raw b] Cons.prems(3,4) assms(3) by auto
  have "media_mounted ms logical v1" using Cons.prems(1) mounted_cong [OF v1(2)] by simp
  from Cons.IH [OF this v1(3)] Cons.prems(3,4) obtain w where
    "each (try_boot raw uuid) ks (v1, b) = Some (w, b)" "same_mounts v1 w" "handles_ok (Suc n + length ks) w" by auto
  then show ?case using v1 by (auto simp: same_mounts_def)
qed (simp add: same_mounts_def)

lemma name_the_medium:
  assumes "media_mounted ms (\<lambda>_. []) v" "k < length ms" "logical_to_mount_map v = []"
  defines "w \<equiv> snd (mount_point_set_logical_name v (Some k) (Some (b8 ''boot'')))"
  shows "media_mounted ms ((\<lambda>_. [])(k := b8 ''boot'')) w \<and> logical_to_mount_map w = [(hash_name (b8 ''boot''), disk_text k)] \<and>
    file_handles w = file_handles v \<and> last_fd w = last_fd v"
proof -
  obtain fs where fs: "mount_points v ! k = (disk_text k, \<lparr>mp_name = disk_text k, mp_logical_name = [], mp_filesystem = Fs_Iso9660 fs\<rparr>)"
    "mounted fs (md_root (ms ! k)) (md_items (ms ! k))" "iso_device fs = medium_device (ms ! k)"
    using assms(1,2) by (auto simp: media_mounted_def mount_of_def)
  have get: "lm_get (hash_name (b8 ''boot'')) ([] :: (u64 \<times> u8 list) list) = None" by (simp add: lm_get_None)
  have w: "w = v\<lparr>mount_points := (mount_points v)[k := (disk_text k, \<lparr>mp_name = disk_text k, mp_logical_name = b8 ''boot'', mp_filesystem = Fs_Iso9660 fs\<rparr>)],
      logical_to_mount_map := [(hash_name (b8 ''boot''), disk_text k)]\<rparr>"
    using fs(1) assms(3) get by (simp add: w_def mount_point_set_logical_name_def lm_contains_def lm_put_new
        MOUNT_POINT_MAX_LOGICAL_NAME_LEN_def b8_def Let_def)
  show ?thesis using assms(1,2) fs unfolding w
    by (auto simp: media_mounted_def nth_list_update) (auto simp: mount_of_def)
qed

text \<open>
  C14. Booting from the right medium. On a machine whose disks, on whatever controllers, hold ISO 9660 trees, the disks are
  registered and mounted as \<open>disk0\<close>, \<open>disk1\<close>, ... in order, and of these the one whose file \<open>/boot/LIVEMEDIA\<close> holds the
  identification given by the boot loader is found. From then on a path \<open>//./boot/...\<close> opens exactly the files of that
  medium's tree, and reading gives their bytes; a path at which it has no file is refused.
\<close>

theorem boot_medium_files:
  assumes "ahci @ ide @ nvme = map md_io ms" "\<forall>m \<in> set ms. medium_ok m" "length ms < 2 ^ 30"
    and "k < length ms" "holds (ms ! k) live_path u" "\<forall>j < length ms. j \<noteq> k \<longrightarrow> other_medium u (ms ! j)"
    and "is_str uuid u" "length u = 32"
  shows "\<exists>disks v w. mount_disks ahci ide nvme [] vfs_init = Some (disks, v) \<and> map disk_name disks = map disk_text [0..<length ms] \<and>
    find_boot raw uuid v = Some (w, disk_text k) \<and>
    (\<forall>ps. ps \<noteq> [] \<and> (\<forall>p \<in> set ps. name_ok p) \<and> length (join_path ps) < 2 ^ 61 \<longrightarrow>
      (no_file (ms ! k) ps \<longrightarrow> vfs_open_file w (b8 ''//./boot'' @ join_path ps) = Some (FILE_DESCRIPTOR_INVALID, w)) \<and>
      (\<forall>bs. holds (ms ! k) ps bs \<longrightarrow> (\<exists>x. vfs_open_file w (b8 ''//./boot'' @ join_path ps) = Some (last_fd w, x) \<and>
        vfs_read_file True True raw x (last_fd w) out = Some (True, Some bs, of_nat (length bs)))))"
proof -
  have small: "length ms < 2 ^ 31" using assms(3) by simp
  obtain disks v where v: "mount_disks ahci ide nvme [] vfs_init = Some (disks, v)" "media_mounted ms (\<lambda>_. []) v"
    "logical_to_mount_map v = []" "file_handles v = []" "last_fd v = 0" "map disk_name disks = map disk_text [0..<length ms]"
    using mount_disks_media [OF assms(1,2) small] by blast
  have h: "handles_ok 0 v" using v(4,5) by (simp add: handles_ok_def lm_inv_def)
  obtain v1 where v1: "each (try_boot raw uuid) [0..<k] (v, []) = Some (v1, [])" "same_mounts v v1" "handles_ok (0 + length [0..<k]) v1"
    using try_others [OF v(2) small assms(2) h _ assms(7,8), of "[0..<k]" raw "[]"] assms(4,6) small by auto
  have m1: "media_mounted ms (\<lambda>_. []) v1" "logical_to_mount_map v1 = []" using mounted_cong [OF v1(2)] v(2,3) v1(2) by (simp_all add: same_mounts_def)
  have mk: "medium_ok (ms ! k)" "k < 2 ^ 31" using assms(2,4) small by simp_all
  obtain v2 where v2: "same_mounts v1 v2" "handles_ok (Suc k) v2"
    "try_boot raw uuid k (v1, []) = Some (snd (mount_point_set_logical_name v2 (Some k) (Some (b8 ''boot''))), disk_text k)"
    using try_live [OF m1(1) small assms(4) mk(1) _ mk(2) assms(7,8,5), of raw "[]"] v1(3) by auto
  let ?v3 = "snd (mount_point_set_logical_name v2 (Some k) (Some (b8 ''boot'')))" and ?logical = "(\<lambda>_. [])(k := b8 ''boot'')"
  have m2: "media_mounted ms (\<lambda>_. []) v2" "logical_to_mount_map v2 = []" using mounted_cong [OF v2(1)] m1 v2(1) by (simp_all add: same_mounts_def)
  have v3: "media_mounted ms ?logical ?v3" "logical_to_mount_map ?v3 = [(hash_name (b8 ''boot''), disk_text k)]" "handles_ok (Suc k) ?v3"
    using name_the_medium [OF m2(1) assms(4) m2(2)] v2(2) by (simp_all add: handles_ok_def)
  have k': "Suc k + length [Suc k..<length ms] < 2 ^ 31" using assms(4) small by (simp del: upt_Suc)
  have others: "\<forall>j \<in> set [Suc k..<length ms]. j < length ms \<and> other_medium u (ms ! j)" using assms(6) by auto
  obtain w where w: "each (try_boot raw uuid) [Suc k..<length ms] (?v3, disk_text k) = Some (w, disk_text k)" "same_mounts ?v3 w"
    "handles_ok (Suc k + length [Suc k..<length ms]) w"
    using try_others [OF v3(1) small assms(2) v3(3) k' assms(7,8) others, of raw "disk_text k"] by blast
  have "[0..<length ms] = [0..<k] @ k # [Suc k..<length ms]"
    using assms(4) upt_add_eq_append [of 0 k "length ms - k"] by (simp add: upt_conv_Cons del: upt_Suc)
  then have boot: "find_boot raw uuid v = Some (w, disk_text k)"
    using v1(1) v2(3) w(1) v(2) by (simp add: find_boot_def media_mounted_def each_append)
  have mw: "media_mounted ms ?logical w" using mounted_cong [OF w(2)] v3(1) by simp
  have lw: "lm_lookup (logical_to_mount_map w) (hash_name (b8 ''boot'')) = Some (disk_text k)"
    using w(2) v3(2) by (simp add: same_mounts_def lm_lookup_map_of)
  have n: "name_ok (b8 ''boot'')" by (simp add: name_ok_def b8_def of_char_def)
  have hw: "last_fd w \<noteq> FILE_DESCRIPTOR_INVALID" "lm_inv (file_handles w)"
    using handles_fd [OF w(3)] w(3) small assms(4) by (simp_all add: handles_ok_def)
  have path: "b8 ''//./boot'' = logical_prefix @ b8 ''boot''" by (simp add: logical_prefix_def b8_def)
  have leads: "leads_to w (b8 ''//./boot'' @ join_path ps) (ms ! k) ps"
    if "ps \<noteq> []" "\<forall>p \<in> set ps. name_ok p" "length (join_path ps) < 2 ^ 61" for ps
    using logical_leads [OF mw small assms(4) mk(1) that(2,1,3) n _ lw] unfolding path by simp
  have none: "vfs_open_file w (b8 ''//./boot'' @ join_path ps) = Some (FILE_DESCRIPTOR_INVALID, w)"
    if "ps \<noteq> [] \<and> (\<forall>p \<in> set ps. name_ok p) \<and> length (join_path ps) < 2 ^ 61" "no_file (ms ! k) ps" for ps
    using that by (intro open_none [OF leads]) simp_all
  have some: "\<exists>x. vfs_open_file w (b8 ''//./boot'' @ join_path ps) = Some (last_fd w, x) \<and>
      vfs_read_file True True raw x (last_fd w) out = Some (True, Some bs, of_nat (length bs))"
    if "ps \<noteq> [] \<and> (\<forall>p \<in> set ps. name_ok p) \<and> length (join_path ps) < 2 ^ 61" "holds (ms ! k) ps bs" for ps bs
    using open_holds [OF leads that(2) hw, of raw out] that(1) by blast
  show ?thesis
    by (rule exI [of _ disks], rule exI [of _ v], rule exI [of _ w], intro conjI allI impI) (fact v(1), fact v(6), fact boot, fact none, fact some)
qed

definition live_file :: iso_record where
  "live_file = \<lparr>ir_flags = 0, ir_lba = 22, ir_size = 32, ir_ident = b8 ''LIVEMEDIA;1'', ir_susp = []\<rparr>"

definition live_dir :: iso_record where
  "live_dir = \<lparr>ir_flags = 2, ir_lba = 21, ir_size = 2048, ir_ident = b8 ''boot'', ir_susp = []\<rparr>"

definition live_items :: "iso_item list" where
  "live_items = [Iso_Dir live_dir [Iso_File live_file]]"

definition live_blocks :: "u64 \<Rightarrow> u8 list option" where
  "live_blocks lba =
     (if lba = 16 then Some cd_descriptor
      else if lba = 20 then Some (dir_bytes 2048 (dir_records cd_root cd_root live_items))
      else if lba = 21 then Some (dir_bytes 2048 (dir_records cd_root live_dir [Iso_File live_file]))
      else if lba = 22 then Some (demo_uuid @ replicate 2016 0) else None)"

definition live_medium :: medium where
  "live_medium = \<lparr>md_io = \<lparr>di_read = (\<lambda>lba sz. if sz = 2048 then live_blocks lba else None), di_get_sector_size = 2048, di_get_capacity = 47104\<rparr>,
     md_root = cd_root, md_items = live_items\<rparr>"

lemma live_lengths:
  "length (dir_bytes 2048 (dir_records cd_root cd_root live_items)) = 2048"
  "length (dir_bytes 2048 (dir_records cd_root live_dir [Iso_File live_file])) = 2048" "length demo_uuid = 32"
  by (simp_all add: dir_bytes_def dir_records_def length_record_bytes record_tail_def ident_pad_def susp_area_def dot_record_def
      cd_root_def live_file_def live_dir_def live_items_def b8_def demo_uuid_def)

lemma live_medium_ok: "medium_ok live_medium"
proof -
  let ?d = "medium_device live_medium"
  have bs: "bd_block_size ?d = 2048" by (simp add: medium_device_def live_medium_def)
  have rd: "block_device_read ?d lba 2048 = live_blocks lba" for lba
    by (simp add: block_device_read_def medium_device_def live_medium_def)
  have "disk_ok ?d" using live_lengths
    by (auto simp: disk_ok_def medium_device_def live_medium_def live_blocks_def cd_descriptor_def b8_def)
  moreover have "iso_volume ?d cd_root"
  proof -
    have "rd32 cd_descriptor 158 = Some 20" using rd32_le32_at [of "1 # b8 ''CD001'' @ replicate 152 0" 20] by (simp add: cd_descriptor_def b8_def)
    moreover have "rd32 cd_descriptor 166 = Some 2048"
      using rd32_le32_at [of "(1 # b8 ''CD001'' @ replicate 152 0) @ le32 20 @ replicate 4 0" 2048] by (simp add: cd_descriptor_def b8_def)
    moreover have "take 6 cd_descriptor = 1 # b8 ''CD001''" by (simp add: cd_descriptor_def b8_def)
    ultimately show ?thesis using bs rd by (simp add: iso_volume_def live_blocks_def cd_root_def)
  qed
  moreover have "record_ok live_file \<and> record_ok live_dir \<and> ir_flags live_file AND 2 = 0 \<and> ir_flags live_dir AND 2 \<noteq> 0 \<and> ir_flags cd_root AND 2 \<noteq> 0"
    by code_simp
  moreover have "blocks_at ?d 20 1 = Some (dir_bytes 2048 (dir_records cd_root cd_root live_items))"
    "blocks_at ?d 21 1 = Some (dir_bytes 2048 (dir_records cd_root live_dir [Iso_File live_file]))"
    using bs rd by (simp_all add: live_blocks_def)
  moreover have "md_root live_medium = cd_root" "medium_tree live_medium = Iso_Dir cd_root live_items"
    "di_get_sector_size (md_io live_medium) = 2048" by (simp_all add: live_medium_def medium_tree_def)
  ultimately show ?thesis using live_lengths bs
    by (simp add: medium_ok_def Let_def live_items_def) (simp add: cd_root_def live_dir_def)
qed

lemma live_holds: "holds live_medium live_path demo_uuid"
proof -
  have r: "iso_resolve (medium_tree live_medium) live_path = Some (Iso_File live_file)"
    by (simp add: medium_tree_def live_medium_def live_items_def live_path_def record_name_def live_dir_def live_file_def b8_def of_char_def)
  have bc: "block_count 32 2048 = 1" "unat (ir_size live_file) = 32" "(ucast (ir_lba live_file) :: u64) = 22"
    by (simp_all add: block_count_def live_file_def)
  have b: "blocks_at (medium_device live_medium) 22 1 = Some (demo_uuid @ replicate 2016 0)"
    by (simp add: block_device_read_def medium_device_def live_medium_def live_blocks_def)
  show ?thesis unfolding holds_def using r b live_lengths(3)
    by (intro exI [of _ live_file] exI [of _ "demo_uuid @ replicate 2016 0"]) (simp only: bc, simp)
qed

theorem boot_medium_files_witness:
  "\<exists>uuid disks v w x. assign_cstr (Some demo_uuid) = Some uuid \<and> mount_disks [md_io live_medium] [] [] [] vfs_init = Some (disks, v) \<and>
     find_boot (\<lambda>n. replicate n 0) uuid v = Some (w, disk_text 0) \<and>
     vfs_open_file w (b8 ''//./boot'' @ join_path live_path) = Some (last_fd w, x) \<and>
     vfs_read_file True True (\<lambda>n. replicate n 0) x (last_fd w) (None, 0) = Some (True, Some demo_uuid, 32)"
proof -
  have "0 \<notin> set demo_uuid" by (simp add: demo_uuid_def b8_def of_char_def)
  then obtain uuid where u: "assign_cstr (Some demo_uuid) = Some uuid" "is_str uuid demo_uuid"
    using assign_cstr_str [of "Some demo_uuid"] live_lengths(3) by (auto simp: cstr_bytes_def)
  have h: "holds ([live_medium] ! 0) live_path demo_uuid" using live_holds by simp
  have ms: "[md_io live_medium] @ [] @ [] = map md_io [live_medium]" "\<forall>m \<in> set [live_medium]. medium_ok m"
    "length [live_medium] < 2 ^ 30" "0 < length [live_medium]"
    "\<forall>j < length [live_medium]. j \<noteq> 0 \<longrightarrow> other_medium demo_uuid ([live_medium] ! j)"
    using live_medium_ok by simp_all
  have l: "length (join_path live_path) < 2 ^ 61" by (simp add: live_path_ok(3) b8_def)
  show ?thesis
    using boot_medium_files [OF ms(1-4) h ms(5) u(2) live_lengths(3), of "\<lambda>n. replicate n 0" "(None, 0)"] u(1) live_path_ok(1,2) l h live_lengths(3)
    by (metis of_nat_numeral)
qed

end
