(* ===== verification/Partitions.thy ===== *)
theory Partitions
  imports Boot_Medium
begin

text \<open>
  The partition table of a disk: what \<open>mount_disks\<close> makes of a first sector with a table.
\<close>

text \<open>A table as it lies on the disk: boot code, four entries with their (unused) cylinder fields, the signature.\<close>

record table_entry =
  te_entry :: mbr_entry
  te_chs :: "(u8 \<times> u8 \<times> u8) \<times> (u8 \<times> u8 \<times> u8)"

definition entry_bytes :: "table_entry \<Rightarrow> u8 list" where
  "entry_bytes t = (case te_chs t of ((a, b, c), (d, e, f)) \<Rightarrow>
     [me_attributes (te_entry t), a, b, c, me_partition_type (te_entry t), d, e, f] @
     le32 (me_lba_start (te_entry t)) @ le32 (me_sector_count (te_entry t)))"

definition mbr_sector :: "u8 list \<Rightarrow> table_entry list \<Rightarrow> u8 list \<Rightarrow> u8 list" where
  "mbr_sector code ts rest = code @ concat (map entry_bytes ts) @ [0x55, 0xAA] @ rest"

lemma entry_bytes_length: "length (entry_bytes t) = 16"
  by (simp add: entry_bytes_def le32_def split: prod.splits)

lemma entries_split:
  "i < length ts \<Longrightarrow> drop (16 * i) (concat (map entry_bytes ts) @ r) = entry_bytes (ts ! i) @ drop (16 * Suc i) (concat (map entry_bytes ts) @ r)"
proof (induction ts arbitrary: i)
  case (Cons t ts)
  show ?case
  proof (cases i)
    case 0
    then show ?thesis by (simp add: entry_bytes_length)
  next
    case (Suc j)
    then show ?thesis using Cons.IH [of j] Cons.prems by (simp add: entry_bytes_length)
  qed
qed simp

lemma partition_read:
  assumes "length code = 446" "length ts = 4" "i < 4"
  shows "mbr_partition (mbr_sector code ts rest) i = Some (te_entry (ts ! i))"
proof -
  let ?m = "mbr_sector code ts rest" and ?e = "te_entry (ts ! i)"
  obtain a b c d e f where chs: "te_chs (ts ! i) = ((a, b, c), (d, e, f))" by (metis prod.exhaust)
  obtain r where r: "drop (446 + 16 * i) ?m = entry_bytes (ts ! i) @ r"
    using entries_split [of i ts "[0x55, 0xAA] @ rest"] assms by (auto simp: mbr_sector_def)
  then have d: "drop (446 + 16 * i) ?m = me_attributes ?e # a # b # c # me_partition_type ?e # d # e # f #
      le32 (me_lba_start ?e) @ le32 (me_sector_count ?e) @ r" by (simp add: entry_bytes_def chs)
  have "drop (446 + 16 * i + 4) ?m = me_partition_type ?e # d # e # f # le32 (me_lba_start ?e) @ le32 (me_sector_count ?e) @ r"
    "drop (446 + 16 * i + 8) ?m = le32 (me_lba_start ?e) @ le32 (me_sector_count ?e) @ r"
    "drop (446 + 16 * i + 12) ?m = le32 (me_sector_count ?e) @ r"
    using arg_cong [OF d, of "drop 4"] arg_cong [OF d, of "drop 8"] arg_cong [OF d, of "drop 12"]
    by (simp_all add: add.commute add.left_commute le32_def)
  then have "rd8 ?m (446 + 16 * i) = Some (me_attributes ?e)" "rd8 ?m (446 + 16 * i + 4) = Some (me_partition_type ?e)"
    "rd32 ?m (446 + 16 * i + 8) = Some (me_lba_start ?e)" "rd32 ?m (446 + 16 * i + 12) = Some (me_sector_count ?e)"
    using d rd8_at rd32_le32 by metis+
  then show ?thesis by (simp add: mbr_partition_def)
qed

definition partition_text :: "u8 list \<Rightarrow> nat \<Rightarrow> u8 list" where
  "partition_text n i = n @ 0x70 # num_text False 10 i"

lemma partition_name:
  assumes "name_ok n" "length n < 20" "i < 4"
  shows "name_of (b8 ''%sp%i'') [AStr (Some n), AI32 (of_nat i)] = Some (partition_text n i)"
proof (rule name_of_render)
  have i: "i < 2 ^ 31" using assms(3) by simp
  show "render (b8 ''%sp%i'') [AStr (Some n), AI32 (of_nat i)] = Some (partition_text n i)"
    using i32_text [OF i] by (simp add: b8_def of_char_def parse_conv_def partition_text_def)
  show "0 \<notin> set (partition_text n i)" "length (partition_text n i) < 32"
    using assms(1,2) i32_text [OF i] digit_code [of "0" i] by (auto simp: partition_text_def name_ok_def)
qed

text \<open>The device an entry stands for.\<close>

definition partition_device :: "disk_interface \<Rightarrow> mbr_entry \<Rightarrow> block_device" where
  "partition_device io e = \<lparr>bd_read = di_read io, bd_start_lba = ucast (me_lba_start e),
     bd_end_lba = ucast (me_lba_start e + me_sector_count e), bd_block_size = di_get_sector_size io\<rparr>"

definition partitions_of :: "disk \<Rightarrow> table_entry list \<Rightarrow> nat list \<Rightarrow> named_device list" where
  "partitions_of disk ts is = map (\<lambda>i. (partition_text (disk_name disk) i, partition_device (disk_io disk) (te_entry (ts ! i))))
     (filter (\<lambda>i. mbr_is_entry_valid (te_entry (ts ! i))) is)"

lemma add_partitions:
  assumes "length code = 446" "length ts = 4" "name_ok (disk_name disk)" "length (disk_name disk) < 20" "\<forall>i \<in> set is. i < 4"
  shows "each (add_partition disk (mbr_sector code ts rest)) is devices = Some (devices @ partitions_of disk ts is)"
  using assms(5)
proof (induction "is" arbitrary: devices)
  case (Cons i "is")
  then show ?case using partition_read [OF assms(1,2), of i rest] partition_name [OF assms(3,4), of i]
    by (auto simp: add_partition_def partitions_of_def partition_device_def)
qed (simp add: partitions_of_def)

lemma mbr_signature:
  assumes "length code = 446" "length ts = 4" "length (mbr_sector code ts rest) = unat sz"
  shows "is_mbr (Some (mbr_sector code ts rest)) sz = Some True"
proof -
  have c: "length (concat (map entry_bytes ts)) = 64" using assms(2) entry_bytes_length by (simp add: length_concat comp_def sum_list_triv)
  then have l: "512 \<le> unat sz" using assms(1,3) by (simp add: mbr_sector_def)
  have "drop 510 (mbr_sector code ts rest) = [0x55, 0xAA] @ rest" using assms(1) c by (simp add: mbr_sector_def)
  then have "rd16 (mbr_sector code ts rest) 510 = Some 0xAA55"
    by (intro rd16_le16 [where r = rest]) (simp add: le16_def)
  then show ?thesis using l by (simp add: is_mbr_def word_less_nat_alt)
qed


definition demo_table :: "table_entry list" where
  "demo_table = map (\<lambda>(a, t, s, n). \<lparr>te_entry = \<lparr>me_attributes = a, me_partition_type = t, me_lba_start = s, me_sector_count = n\<rparr>,
     te_chs = ((0, 0, 0), (0, 0, 0))\<rparr>) [(0x80, 0x0C, 2048, 4096), (0, 0, 0, 0), (0x17, 0x0C, 9, 9), (0, 0x83, 6144, 100)]"

definition demo_disk :: disk where
  "demo_disk = \<lparr>disk_name = b8 ''disk0'', disk_io = \<lparr>di_read = (\<lambda>lba sz. if lba = 0 then Some (mbr_sector (replicate 446 0) demo_table []) else None),
     di_get_sector_size = 512, di_get_capacity = 0x400000\<rparr>\<rparr>"


text \<open>A file system without a partition table ends its first sector with the same signature: its boot code is read as a table.\<close>

lemma unpartitioned_volume_lost:
  assumes "di_read (disk_io disk) 16 2048 = None" "di_read (disk_io disk) 0 (di_get_sector_size (disk_io disk)) = Some (mbr_sector code ts rest)"
    and "length code = 446" "length ts = 4" "length (mbr_sector code ts rest) = unat (di_get_sector_size (disk_io disk))"
    and "name_ok (disk_name disk)" "length (disk_name disk) < 20" "\<forall>t \<in> set ts. me_partition_type (te_entry t) = 0"
  shows "disk_devices disk devices = Some devices"
proof -
  have "filter (\<lambda>i. mbr_is_entry_valid (te_entry (ts ! i))) [0..<4] = []"
    using assms(4,8) by (simp add: mbr_is_entry_valid_def filter_empty_conv)
  then have "partitions_of disk ts [0..<4] = []" by (simp add: partitions_of_def del: upt_Suc)
  moreover have "wr_bytes (replicate (unat (di_get_sector_size (disk_io disk))) 0) 0 (mbr_sector code ts rest) = Some (mbr_sector code ts rest)"
    using assms(5) by (simp add: wr_bytes_def)
  ultimately show ?thesis using assms(1,2) mbr_signature [OF assms(3-5)] add_partitions [OF assms(3,4,6,7), of "[0..<4]" rest devices]
    by (simp add: disk_devices_def MBR_PARTITIONS_def Let_def del: upt_Suc)
qed

end
