(* ===== verification/Elf.thy ===== *)
theory Elf
  imports Common Containers Std_String
begin

text \<open>
  The ELF loader: \<open>src/kernel/src/elf.cpp\<close> and \<open>src/kernel/include/elf.hpp\<close>.

  The file is a byte list and a pointer into it an offset; the memory that an image is loaded into
  is a second byte list, whose address is \<open>base\<close>. Headers are read field by field at the offsets of
  the structures. The code checks no offset and no count of the file: every access outside the file
  or the image is \<open>None\<close>, so is the division by an entry size of 0.
\<close>

definition le64 :: "u64 \<Rightarrow> u8 list" where
  "le64 x = le32 (ucast x) @ le32 (ucast (drop_bit 32 x))"

section \<open>Headers\<close>

datatype elf_type = ELF_NONE | ELF_RELOCATABLE | ELF_EXECUTABLE | ELF_DYNAMIC

fun elf_type_value :: "elf_type \<Rightarrow> u16" where
  "elf_type_value ELF_NONE = 0"
| "elf_type_value ELF_RELOCATABLE = 1"
| "elf_type_value ELF_EXECUTABLE = 2"
| "elf_type_value ELF_DYNAMIC = 3"

definition ELF_PROGRAM_TYPE_LOAD :: u32 where "ELF_PROGRAM_TYPE_LOAD = 1"

definition eh_type :: "u8 list \<Rightarrow> u16 option" where "eh_type data = rd16 data 16"
definition eh_entry_point :: "u8 list \<Rightarrow> u64 option" where "eh_entry_point data = rd64 data 24"
definition eh_program_header_offset :: "u8 list \<Rightarrow> u64 option" where
  "eh_program_header_offset data = rd64 data 32"
definition eh_section_header_offset :: "u8 list \<Rightarrow> u64 option" where
  "eh_section_header_offset data = rd64 data 40"
definition eh_program_header_count :: "u8 list \<Rightarrow> u16 option" where
  "eh_program_header_count data = rd16 data 56"
definition eh_section_header_count :: "u8 list \<Rightarrow> u16 option" where
  "eh_section_header_count data = rd16 data 60"
definition eh_string_table_index :: "u8 list \<Rightarrow> u16 option" where
  "eh_string_table_index data = rd16 data 62"

text \<open>Fields of the section header, the symbol, the program header and the relocation entry at \<open>p\<close>.\<close>

definition sh_name_offset :: "u8 list \<Rightarrow> nat \<Rightarrow> u32 option" where "sh_name_offset data p = rd32 data p"
definition sh_file_offset :: "u8 list \<Rightarrow> nat \<Rightarrow> u64 option" where "sh_file_offset data p = rd64 data (p + 24)"
definition sh_size :: "u8 list \<Rightarrow> nat \<Rightarrow> u64 option" where "sh_size data p = rd64 data (p + 32)"
definition sh_entry_size :: "u8 list \<Rightarrow> nat \<Rightarrow> u64 option" where "sh_entry_size data p = rd64 data (p + 56)"

definition sym_name_offset :: "u8 list \<Rightarrow> nat \<Rightarrow> u32 option" where "sym_name_offset data p = rd32 data p"
definition sym_section_index :: "u8 list \<Rightarrow> nat \<Rightarrow> u16 option" where "sym_section_index data p = rd16 data (p + 6)"
definition sym_value :: "u8 list \<Rightarrow> nat \<Rightarrow> u64 option" where "sym_value data p = rd64 data (p + 8)"

definition ph_type :: "u8 list \<Rightarrow> nat \<Rightarrow> u32 option" where "ph_type data p = rd32 data p"
definition ph_file_offset :: "u8 list \<Rightarrow> nat \<Rightarrow> u64 option" where "ph_file_offset data p = rd64 data (p + 8)"
definition ph_virtual_address :: "u8 list \<Rightarrow> nat \<Rightarrow> u64 option" where "ph_virtual_address data p = rd64 data (p + 16)"
definition ph_file_size :: "u8 list \<Rightarrow> nat \<Rightarrow> u64 option" where "ph_file_size data p = rd64 data (p + 32)"
definition ph_memory_size :: "u8 list \<Rightarrow> nat \<Rightarrow> u64 option" where "ph_memory_size data p = rd64 data (p + 40)"

definition rel_offset :: "u8 list \<Rightarrow> nat \<Rightarrow> u64 option" where "rel_offset data p = rd64 data p"
definition rel_info :: "u8 list \<Rightarrow> nat \<Rightarrow> u64 option" where "rel_info data p = rd64 data (p + 8)"
definition rel_addend :: "u8 list \<Rightarrow> nat \<Rightarrow> u64 option" where "rel_addend data p = rd64 data (p + 16)"

definition ELF_RELOCATE_SYMBOL :: "u64 \<Rightarrow> u32" where "ELF_RELOCATE_SYMBOL s = ucast (drop_bit 32 s)"
definition ELF_RELOCATE_TYPE :: "u64 \<Rightarrow> u32" where "ELF_RELOCATE_TYPE t = ucast (t AND 0xFFFFFFFF)"

section \<open>Strings in the file\<close>

text \<open>\<open>streq\<close> of the C string at an offset with a name, and the C string at an offset.\<close>

fun streq_at :: "u8 list \<Rightarrow> nat \<Rightarrow> u8 list \<Rightarrow> bool option" where
  "streq_at data p [] = do { c \<leftarrow> rd8 data p; Some (c = 0) }"
| "streq_at data p (b # bs) = do {
     c \<leftarrow> rd8 data p;
     if c \<noteq> 0 \<and> b \<noteq> 0 \<and> c = b then streq_at data (Suc p) bs else Some (c = b) }"

definition cstr_at :: "u8 list \<Rightarrow> nat \<Rightarrow> u8 list option" where
  "cstr_at data p = do { n \<leftarrow> strlen (drop p data); Some (take n (drop p data)) }"

section \<open>Checking a file\<close>

definition s_elf_header :: "u8 list" where
  "s_elf_header = [0x7F, 0x45, 0x4C, 0x46, 2, 1, 1]"

text \<open>\<open>memeq\<close> stops at the first difference and then reads nothing more.\<close>

definition elf_check_file :: "u8 list \<Rightarrow> elf_type \<Rightarrow> int option" where
  "elf_check_file data elf_bin_type = do {
     eq \<leftarrow> memeq data s_elf_header (length s_elf_header);
     if \<not> eq then Some 1
     else do {
       ty \<leftarrow> eh_type data;
       if ty \<noteq> elf_type_value elf_bin_type then Some 2 else Some 0 } }"

section \<open>Sections and symbols\<close>

fun elf_section_loop :: "u8 list \<Rightarrow> u8 list \<Rightarrow> nat \<Rightarrow> nat \<Rightarrow> nat \<Rightarrow> nat \<Rightarrow> nat option option" where
  "elf_section_loop data name sections string_data i 0 = Some None"
| "elf_section_loop data name sections string_data i (Suc n) = do {
     name_offset \<leftarrow> sh_name_offset data (sections + 64 * i);
     eq \<leftarrow> streq_at data (string_data + unat name_offset) name;
     if eq then Some (Some (sections + 64 * i))
     else elf_section_loop data name sections string_data (Suc i) n }"

definition elf_find_section_by_name :: "u8 list \<Rightarrow> u8 list \<Rightarrow> nat option option" where
  "elf_find_section_by_name data name = do {
     idx \<leftarrow> eh_string_table_index data;
     if idx = 0 then Some None
     else do {
       shoff \<leftarrow> eh_section_header_offset data;
       string_data \<leftarrow> sh_file_offset data (unat shoff + 64 * unat idx);
       count \<leftarrow> eh_section_header_count data;
       elf_section_loop data name (unat shoff) (unat string_data) 0 (unat count) } }"

text \<open>The count is converted to \<open>int\<close> and back to \<open>size_t\<close> by the comparison of the loop.\<close>

definition elf_entry_count :: "u8 list \<Rightarrow> nat \<Rightarrow> nat option" where
  "elf_entry_count data section = do {
     sz \<leftarrow> sh_size data section;
     es \<leftarrow> sh_entry_size data section;
     if es = 0 then None else Some (unat (scast (ucast (sz div es) :: u32) :: u64)) }"

fun elf_symbol_loop :: "u8 list \<Rightarrow> u8 list \<Rightarrow> nat \<Rightarrow> nat \<Rightarrow> nat \<Rightarrow> nat \<Rightarrow> u64 option option" where
  "elf_symbol_loop data name symbol_table string_table i 0 = Some None"
| "elf_symbol_loop data name symbol_table string_table i (Suc n) = do {
     name_offset \<leftarrow> sym_name_offset data (symbol_table + 24 * i);
     eq \<leftarrow> streq_at data (string_table + unat name_offset) name;
     if eq then do { v \<leftarrow> sym_value data (symbol_table + 24 * i); Some (Some v) }
     else elf_symbol_loop data name symbol_table string_table (Suc i) n }"

definition elf_find_symbol_address :: "u8 list \<Rightarrow> nat \<Rightarrow> nat \<Rightarrow> u8 list \<Rightarrow> u64 option option" where
  "elf_find_symbol_address data p_symbol_table p_string_table name = do {
     symbol_count \<leftarrow> elf_entry_count data p_symbol_table;
     symbol_table \<leftarrow> sh_file_offset data p_symbol_table;
     string_table \<leftarrow> sh_file_offset data p_string_table;
     elf_symbol_loop data name (unat symbol_table) (unat string_table) 0 symbol_count }"

record elf_tables =
  tb_symbol_table :: "nat option"
  tb_string_table :: "nat option"

definition elf_get_tables :: "u8 list \<Rightarrow> elf_tables option" where
  "elf_get_tables data = do {
     dynamic_symbols \<leftarrow> elf_find_section_by_name data (b8 ''.dynsym'');
     symbol_table \<leftarrow> elf_find_section_by_name data (b8 ''.symtab'');
     dynamic_strings \<leftarrow> elf_find_section_by_name data (b8 ''.dynstr'');
     string_table \<leftarrow> elf_find_section_by_name data (b8 ''.strtab'');
     Some \<lparr>tb_symbol_table = (if dynamic_symbols \<noteq> None then dynamic_symbols else symbol_table),
           tb_string_table = (if dynamic_strings \<noteq> None then dynamic_strings else string_table)\<rparr> }"

section \<open>Loading segments\<close>

record elf_program_section_info =
  psi_size :: u64
  psi_min_address :: u64
  psi_max_address :: u64

fun elf_parse_loop :: "u8 list \<Rightarrow> nat \<Rightarrow> nat \<Rightarrow> nat \<Rightarrow> elf_program_section_info \<Rightarrow> elf_program_section_info option" where
  "elf_parse_loop data headers i 0 psi = Some psi"
| "elf_parse_loop data headers i (Suc n) psi = do {
     ty \<leftarrow> ph_type data (headers + 56 * i);
     if ty \<noteq> ELF_PROGRAM_TYPE_LOAD then elf_parse_loop data headers (Suc i) n psi
     else do {
       va \<leftarrow> ph_virtual_address data (headers + 56 * i);
       ms \<leftarrow> ph_memory_size data (headers + 56 * i);
       let psi = (if va < psi_min_address psi then psi\<lparr>psi_min_address := va\<rparr> else psi);
       let psi = (if va + ms > psi_max_address psi then psi\<lparr>psi_max_address := va + ms\<rparr> else psi);
       elf_parse_loop data headers (Suc i) n psi } }"

definition elf_parse_program_sections :: "u8 list \<Rightarrow> elf_program_section_info option" where
  "elf_parse_program_sections data = do {
     headers \<leftarrow> eh_program_header_offset data;
     count \<leftarrow> eh_program_header_count data;
     psi \<leftarrow> elf_parse_loop data (unat headers) 0 (unat count)
              \<lparr>psi_size = 0, psi_min_address = -1, psi_max_address = 0\<rparr>;
     Some (psi\<lparr>psi_size := psi_max_address psi - psi_min_address psi\<rparr>) }"

text \<open>Copies of no bytes touch nothing.\<close>

definition copy_from :: "u8 list \<Rightarrow> nat \<Rightarrow> nat \<Rightarrow> u8 list option" where
  "copy_from data p n = (if n = 0 then Some [] else rd_bytes data p n)"

definition copy_to :: "u8 list \<Rightarrow> nat \<Rightarrow> u8 list \<Rightarrow> u8 list option" where
  "copy_to img p bs = (if bs = [] then Some img else wr_bytes img p bs)"

fun elf_load_loop :: "u8 list \<Rightarrow> nat \<Rightarrow> u64 \<Rightarrow> nat \<Rightarrow> nat \<Rightarrow> u8 list \<Rightarrow> u8 list option" where
  "elf_load_loop data headers min_address i 0 img = Some img"
| "elf_load_loop data headers min_address i (Suc n) img = do {
     ty \<leftarrow> ph_type data (headers + 56 * i);
     if ty \<noteq> ELF_PROGRAM_TYPE_LOAD then elf_load_loop data headers min_address (Suc i) n img
     else do {
       va \<leftarrow> ph_virtual_address data (headers + 56 * i);
       fo \<leftarrow> ph_file_offset data (headers + 56 * i);
       fs \<leftarrow> ph_file_size data (headers + 56 * i);
       let segment = unat (va - min_address);
       bs \<leftarrow> copy_from data (unat fo) (unat fs);
       img \<leftarrow> copy_to img segment bs;
       ms \<leftarrow> ph_memory_size data (headers + 56 * i);
       img \<leftarrow> (if ms > fs then copy_to img (segment + unat fs) (replicate (unat (ms - fs)) 0)
                 else Some img);
       elf_load_loop data headers min_address (Suc i) n img } }"

definition elf_load_program_sections :: "u8 list \<Rightarrow> u8 list \<Rightarrow> elf_program_section_info \<Rightarrow> u8 list option" where
  "elf_load_program_sections data img psi = do {
     headers \<leftarrow> eh_program_header_offset data;
     count \<leftarrow> eh_program_header_count data;
     elf_load_loop data (unat headers) (psi_min_address psi) 0 (unat count) img }"

section \<open>Relocation\<close>

text \<open>
  \<open>elf_relocate\<close> returns 1 for an unknown symbol and 2 for an unknown type, leaving the entries before
  it applied. The address of an entry is \<open>base + offset\<close>, so the place in the image is the offset.
\<close>

definition elf_symbol_value ::
  "u8 list \<Rightarrow> u64 \<Rightarrow> nat \<Rightarrow> nat \<Rightarrow> (u8 list, u64) linear_map \<Rightarrow> u32 \<Rightarrow> u64 option option" where
  "elf_symbol_value data base symbol_table string_table symbol_map symbol_index =
     (if symbol_index \<noteq> 0 then do {
        let sym = symbol_table + 24 * unat symbol_index;
        name_offset \<leftarrow> sym_name_offset data sym;
        v \<leftarrow> sym_value data sym;
        idx \<leftarrow> (if v \<noteq> 0 then Some 0 else sym_section_index data sym);
        if v \<noteq> 0 \<or> idx \<noteq> 0 then Some (Some (base + v))
        else do {
          symbol_name \<leftarrow> cstr_at data (string_table + unat name_offset);
          Some (lm_lookup symbol_map symbol_name) } }
      else Some (Some 0))"

text \<open>The bytes that a relocation of type \<open>ty\<close> at place \<open>offset\<close> writes; \<open>None\<close> is \<open>return 2\<close>.\<close>

definition elf_relocation_bytes :: "u64 \<Rightarrow> u64 \<Rightarrow> u64 \<Rightarrow> u64 \<Rightarrow> u32 \<Rightarrow> u8 list option" where
  "elf_relocation_bytes base offset symbol_value addend ty =
     (if ty = 0 then Some []
      else if ty = 1 then Some (le64 (symbol_value + addend))
      else if ty = 2 then Some (le32 (ucast (symbol_value + addend - (base + offset))))
      else if ty = 6 \<or> ty = 7 then Some (le64 symbol_value)
      else if ty = 8 then Some (le64 (base + addend))
      else None)"

fun elf_relocate_loop ::
  "u8 list \<Rightarrow> u64 \<Rightarrow> nat \<Rightarrow> nat \<Rightarrow> nat \<Rightarrow> (u8 list, u64) linear_map \<Rightarrow> nat \<Rightarrow> nat \<Rightarrow> u8 list \<Rightarrow> (int \<times> u8 list) option" where
  "elf_relocate_loop data base relocations symbol_table string_table symbol_map i 0 img = Some (0, img)"
| "elf_relocate_loop data base relocations symbol_table string_table symbol_map i (Suc n) img = do {
     info \<leftarrow> rel_info data (relocations + 24 * i);
     off \<leftarrow> rel_offset data (relocations + 24 * i);
     symbol_value \<leftarrow> elf_symbol_value data base symbol_table string_table symbol_map (ELF_RELOCATE_SYMBOL info);
     case symbol_value of None \<Rightarrow> Some (1, img)
     | Some v \<Rightarrow> do {
         addend \<leftarrow> rel_addend data (relocations + 24 * i);
         case elf_relocation_bytes base off v addend (ELF_RELOCATE_TYPE info) of None \<Rightarrow> Some (2, img)
         | Some bs \<Rightarrow> do {
             img \<leftarrow> copy_to img (unat off) bs;
             elf_relocate_loop data base relocations symbol_table string_table symbol_map (Suc i) n img } } }"

definition elf_relocate ::
  "u8 list \<Rightarrow> u64 \<Rightarrow> nat \<Rightarrow> nat \<Rightarrow> nat \<Rightarrow> (u8 list, u64) linear_map \<Rightarrow> u8 list \<Rightarrow> (int \<times> u8 list) option" where
  "elf_relocate data base p_target_section p_symbol_table p_string_table symbol_map img = do {
     count \<leftarrow> elf_entry_count data p_target_section;
     relocations \<leftarrow> sh_file_offset data p_target_section;
     symbol_table \<leftarrow> sh_file_offset data p_symbol_table;
     string_table \<leftarrow> sh_file_offset data p_string_table;
     elf_relocate_loop data base (unat relocations) (unat symbol_table) (unat string_table) symbol_map 0 count img }"

definition elf_relocate_section ::
  "u8 list \<Rightarrow> u64 \<Rightarrow> elf_tables \<Rightarrow> (u8 list, u64) linear_map \<Rightarrow> u8 list \<Rightarrow> u8 list \<Rightarrow> (int \<times> u8 list) option" where
  "elf_relocate_section data base tables symbol_map name img = do {
     section \<leftarrow> elf_find_section_by_name data name;
     case section of None \<Rightarrow> Some (0, img)
     | Some rela \<Rightarrow> do {
         symbols \<leftarrow> tb_symbol_table tables;
         strings \<leftarrow> tb_string_table tables;
         elf_relocate data base rela symbols strings symbol_map img } }"

definition elf_relocate_rel_sections ::
  "u8 list \<Rightarrow> u64 \<Rightarrow> elf_tables \<Rightarrow> (u8 list, u64) linear_map \<Rightarrow> u8 list \<Rightarrow> (int \<times> u8 list) option" where
  "elf_relocate_rel_sections data base tables symbol_map img = do {
     (r, img) \<leftarrow> elf_relocate_section data base tables symbol_map (b8 ''.rela.dyn'') img;
     if r \<noteq> 0 then Some (1, img)
     else do {
       (r, img) \<leftarrow> elf_relocate_section data base tables symbol_map (b8 ''.rela.plt'') img;
       if r \<noteq> 0 then Some (2, img) else Some (0, img) } }"

text \<open>\<open>elf_get_function\<close>: the address of a symbol in the loaded image, or \<open>nullptr\<close>.\<close>

definition elf_get_function ::
  "u8 list \<Rightarrow> u64 \<Rightarrow> elf_tables \<Rightarrow> elf_program_section_info \<Rightarrow> u8 list \<Rightarrow> u64 option option" where
  "elf_get_function data base tables psi name = do {
     symbols \<leftarrow> tb_symbol_table tables;
     strings \<leftarrow> tb_string_table tables;
     r \<leftarrow> elf_find_symbol_address data symbols strings name;
     Some (map_option (\<lambda>v. base + (v - psi_min_address psi)) r) }"

section \<open>Disjoint writes\<close>

text \<open>Loading and relocating are both sequences of writes at disjoint places of an image.\<close>

fun apply_patches :: "(nat \<times> u8 list) list \<Rightarrow> u8 list \<Rightarrow> u8 list option" where
  "apply_patches [] img = Some img"
| "apply_patches (pt # pts) img = do { img \<leftarrow> copy_to img (fst pt) (snd pt); apply_patches pts img }"

definition patch_in :: "nat \<Rightarrow> nat \<times> u8 list \<Rightarrow> bool" where
  "patch_in n pt \<longleftrightarrow> fst pt + length (snd pt) \<le> n"

definition patch_disj :: "nat \<times> u8 list \<Rightarrow> nat \<times> u8 list \<Rightarrow> bool" where
  "patch_disj a b \<longleftrightarrow> fst a + length (snd a) \<le> fst b \<or> fst b + length (snd b) \<le> fst a"

definition patch_covers :: "nat \<times> u8 list \<Rightarrow> nat \<Rightarrow> bool" where
  "patch_covers pt k \<longleftrightarrow> fst pt \<le> k \<and> k < fst pt + length (snd pt)"

text \<open>\<open>img'\<close> is \<open>img\<close> with the patches in place.\<close>

definition patched :: "(nat \<times> u8 list) list \<Rightarrow> u8 list \<Rightarrow> u8 list \<Rightarrow> bool" where
  "patched pts img img' \<longleftrightarrow> length img' = length img \<and>
     (\<forall>pt \<in> set pts. holds img' (fst pt) (snd pt)) \<and>
     (\<forall>k < length img. (\<forall>pt \<in> set pts. \<not> patch_covers pt k) \<longrightarrow> img' ! k = img ! k)"

lemma copy_to_in:
  "p + length bs \<le> length img \<Longrightarrow>
   copy_to img p bs = Some (take p img @ bs @ drop (p + length bs) img)"
  by (simp add: copy_to_def wr_bytes_def)

lemma nth_patched:
  "p + length bs \<le> length img \<Longrightarrow> k < length img \<Longrightarrow>
   (take p img @ bs @ drop (p + length bs) img) ! k =
   (if p \<le> k \<and> k < p + length bs then bs ! (k - p) else img ! k)"
  by (auto simp: nth_append)

lemma holds_iff_nth:
  "holds data off r \<longleftrightarrow> off + length r \<le> length data \<and> (\<forall>k < length r. data ! (off + k) = r ! k)"
proof -
  have "take (length r) (drop off data) = r \<longleftrightarrow> (\<forall>k < length r. data ! (off + k) = r ! k)"
    if "off + length r \<le> length data"
    using that by (subst list_eq_iff_nth_eq) auto
  then show ?thesis by (auto simp only: holds_def)
qed

lemma patched_Cons:
  assumes "patch_in (length img) pt" "\<forall>q \<in> set pts. patch_disj pt q"
    and "patched pts (take (fst pt) img @ snd pt @ drop (fst pt + length (snd pt)) img) img'"
  shows "patched (pt # pts) img img'"
proof -
  let ?p = "fst pt" and ?bs = "snd pt"
  let ?m = "take ?p img @ ?bs @ drop (?p + length ?bs) img"
  have le: "?p + length ?bs \<le> length img" using assms(1) by (simp add: patch_in_def)
  have len: "length ?m = length img" using le by simp
  have out: "\<not> patch_covers q (?p + k)" if "q \<in> set pts" "k < length ?bs" for q k
    using assms(2) that by (fastforce simp: patch_disj_def patch_covers_def)
  have unch: "img' ! k = ?m ! k" if "k < length img" "\<forall>q \<in> set pts. \<not> patch_covers q k" for k
    using assms(3) that unfolding patched_def len by blast
  have "holds img' ?p ?bs"
    unfolding holds_iff_nth
  proof (intro conjI allI impI)
    show "?p + length ?bs \<le> length img'" using assms(3) le unfolding patched_def len by simp
    fix k assume k: "k < length ?bs"
    then have "img' ! (?p + k) = ?m ! (?p + k)" using unch [of "?p + k"] out le by auto
    then show "img' ! (?p + k) = ?bs ! k" using nth_patched [OF le, of "?p + k"] k le by simp
  qed
  moreover have "img' ! k = img ! k"
    if "k < length img" "\<not> patch_covers pt k" "\<forall>q \<in> set pts. \<not> patch_covers q k" for k
    using unch [OF that(1,3)] nth_patched [OF le that(1)] that(2) by (auto simp: patch_covers_def)
  moreover have "length img' = length img" "\<forall>q \<in> set pts. holds img' (fst q) (snd q)"
    using assms(3) unfolding patched_def len by simp_all
  ultimately show ?thesis unfolding patched_def by simp
qed

lemma apply_patches_patched:
  assumes "\<forall>pt \<in> set pts. patch_in (length img) pt" "sorted_wrt patch_disj pts"
  shows "\<exists>img'. apply_patches pts img = Some img' \<and> patched pts img img'"
  using assms
proof (induction pts arbitrary: img)
  case (Cons pt pts)
  let ?m = "take (fst pt) img @ snd pt @ drop (fst pt + length (snd pt)) img"
  have le: "fst pt + length (snd pt) \<le> length img" using Cons.prems(1) by (simp add: patch_in_def)
  then have "length ?m = length img" by simp
  then obtain img' where "apply_patches pts ?m = Some img'" "patched pts ?m img'"
    using Cons.IH [of ?m] Cons.prems by auto
  then have "apply_patches (pt # pts) img = Some img'" "patched (pt # pts) img img'"
    using Cons.prems patched_Cons [of img pt pts img'] by (simp_all add: copy_to_in [OF le])
  then show ?case by blast
qed (simp add: patched_def)

section \<open>What loading builds\<close>

text \<open>The program headers of a file.\<close>

record program_header =
  p_type :: u32
  p_offset :: u64
  p_vaddr :: u64
  p_filesz :: u64
  p_memsz :: u64

definition header_at :: "u8 list \<Rightarrow> nat \<Rightarrow> program_header \<Rightarrow> bool" where
  "header_at data p h \<longleftrightarrow> ph_type data p = Some (p_type h) \<and> ph_file_offset data p = Some (p_offset h) \<and>
     ph_virtual_address data p = Some (p_vaddr h) \<and> ph_file_size data p = Some (p_filesz h) \<and>
     ph_memory_size data p = Some (p_memsz h)"

fun headers_at :: "u8 list \<Rightarrow> nat \<Rightarrow> program_header list \<Rightarrow> bool" where
  "headers_at data p [] \<longleftrightarrow> True"
| "headers_at data p (h # hs) \<longleftrightarrow> header_at data p h \<and> headers_at data (p + 56) hs"

definition program_headers :: "u8 list \<Rightarrow> program_header list \<Rightarrow> bool" where
  "program_headers data hs \<longleftrightarrow> (case (eh_program_header_offset data, eh_program_header_count data) of
     (Some off, Some n) \<Rightarrow> unat n = length hs \<and> headers_at data (unat off) hs | _ \<Rightarrow> False)"

definition load_headers :: "program_header list \<Rightarrow> program_header list" where
  "load_headers hs = filter (\<lambda>h. p_type h = ELF_PROGRAM_TYPE_LOAD) hs"

text \<open>A segment inside the file and the address space, and its memory image.\<close>

definition segment_ok :: "u8 list \<Rightarrow> program_header \<Rightarrow> bool" where
  "segment_ok data h \<longleftrightarrow> unat (p_offset h) + unat (p_filesz h) \<le> length data \<and>
     p_filesz h \<le> p_memsz h \<and> unat (p_vaddr h) + unat (p_memsz h) < 2 ^ 64"

definition segment_image :: "u8 list \<Rightarrow> program_header \<Rightarrow> u8 list" where
  "segment_image data h = take (unat (p_filesz h)) (drop (unat (p_offset h)) data) @
     replicate (unat (p_memsz h) - unat (p_filesz h)) 0"

definition segments_disj :: "program_header \<Rightarrow> program_header \<Rightarrow> bool" where
  "segments_disj a b \<longleftrightarrow> unat (p_vaddr a) + unat (p_memsz a) \<le> unat (p_vaddr b) \<or>
     unat (p_vaddr b) + unat (p_memsz b) \<le> unat (p_vaddr a)"

lemma headers_at_Suc: "headers_at data (p + 56 * i) (h # hs) \<longleftrightarrow>
    header_at data (p + 56 * i) h \<and> headers_at data (p + 56 * Suc i) hs"
  by (simp add: add.assoc add.commute [of 56])

text \<open>Parsing folds the minimum and the maximum over the segments.\<close>

definition psi_step :: "program_header \<Rightarrow> elf_program_section_info \<Rightarrow> elf_program_section_info" where
  "psi_step h psi = psi\<lparr>psi_min_address := min (p_vaddr h) (psi_min_address psi),
     psi_max_address := max (p_vaddr h + p_memsz h) (psi_max_address psi)\<rparr>"

lemma elf_parse_loop_eq:
  "headers_at data (p + 56 * i) hs \<Longrightarrow>
   elf_parse_loop data p i (length hs) psi = Some (fold psi_step (load_headers hs) psi)"
proof (induction hs arbitrary: i psi)
  case (Cons h hs)
  then have h: "header_at data (p + 56 * i) h" "headers_at data (p + 56 * Suc i) hs"
    by (simp_all only: headers_at_Suc)
  have "(if p_vaddr h < psi_min_address psi then psi\<lparr>psi_min_address := p_vaddr h\<rparr> else psi) =
      psi\<lparr>psi_min_address := min (p_vaddr h) (psi_min_address psi)\<rparr>" by (simp add: min_def)
  then have "psi_step h psi =
     (let psi = (if p_vaddr h < psi_min_address psi then psi\<lparr>psi_min_address := p_vaddr h\<rparr> else psi)
      in if p_vaddr h + p_memsz h > psi_max_address psi then psi\<lparr>psi_max_address := p_vaddr h + p_memsz h\<rparr> else psi)"
    by (simp add: psi_step_def max_def)
  then show ?case using Cons.IH [OF h(2)] h(1)
    by (simp add: header_at_def load_headers_def Let_def)
qed (simp add: load_headers_def)

lemma copy_from_in: "p + n \<le> length data \<Longrightarrow> copy_from data p n = Some (take n (drop p data))"
  by (simp add: copy_from_def rd_bytes_def)

text \<open>Two adjacent copies are one.\<close>

lemma copy_to_adjacent:
  assumes "p + length a + length b \<le> length img"
  shows "do { img \<leftarrow> copy_to img p a; copy_to img (p + length a) b } = copy_to img p (a @ b)"
proof -
  have mn: "min (length img) p = p" using assms by simp
  have "copy_to img p a = Some (take p img @ a @ drop (p + length a) img)"
    using assms by (intro copy_to_in) simp
  moreover have "copy_to img p (a @ b) = Some (take p img @ (a @ b) @ drop (p + length (a @ b)) img)"
    using assms by (intro copy_to_in) simp
  moreover have "copy_to (take p img @ a @ drop (p + length a) img) (p + length a) b =
      Some (take p img @ (a @ b) @ drop (p + length (a @ b)) img)"
    using assms mn by (subst copy_to_in) (simp_all add: add.assoc add.left_commute add.commute)
  ultimately show ?thesis by simp
qed

definition segment_patch :: "u8 list \<Rightarrow> u64 \<Rightarrow> program_header \<Rightarrow> nat \<times> u8 list" where
  "segment_patch data mn h = (unat (p_vaddr h - mn), segment_image data h)"

lemma length_segment_image: "segment_ok data h \<Longrightarrow> length (segment_image data h) = unat (p_memsz h)"
  by (auto simp: segment_ok_def segment_image_def word_le_nat_alt min_def)

text \<open>One segment: the copy and the zero fill.\<close>

lemma elf_load_segment:
  assumes "segment_ok data h" "patch_in (length img) (segment_patch data mn h)"
  shows "do { bs \<leftarrow> copy_from data (unat (p_offset h)) (unat (p_filesz h));
      img \<leftarrow> copy_to img (unat (p_vaddr h - mn)) bs;
      (if p_memsz h > p_filesz h
       then copy_to img (unat (p_vaddr h - mn) + unat (p_filesz h)) (replicate (unat (p_memsz h - p_filesz h)) 0)
       else Some img) } = copy_to img (fst (segment_patch data mn h)) (snd (segment_patch data mn h))"
proof -
  let ?bs = "take (unat (p_filesz h)) (drop (unat (p_offset h)) data)"
  let ?z = "replicate (unat (p_memsz h) - unat (p_filesz h)) (0 :: u8)"
  have src: "unat (p_offset h) + unat (p_filesz h) \<le> length data" and le: "p_filesz h \<le> p_memsz h"
    using assms(1) by (auto simp: segment_ok_def)
  have n: "length ?bs = unat (p_filesz h)" using src by simp
  have z: "(if p_memsz h > p_filesz h
       then copy_to m (unat (p_vaddr h - mn) + unat (p_filesz h)) (replicate (unat (p_memsz h - p_filesz h)) 0)
       else Some m) = copy_to m (unat (p_vaddr h - mn) + length ?bs) ?z" for m
    using le unfolding n by (auto simp: unat_sub copy_to_def not_less)
  have "unat (p_vaddr h - mn) + length ?bs + length ?z \<le> length img"
    using assms n length_segment_image [OF assms(1)] le
    by (simp add: patch_in_def segment_patch_def word_le_nat_alt)
  from copy_to_adjacent [OF this] show ?thesis
    by (simp only: copy_from_in [OF src] bind.bind_lunit z segment_patch_def fst_conv snd_conv segment_image_def)
qed

lemma elf_load_loop_eq:
  assumes "headers_at data (p + 56 * i) hs" "\<forall>h \<in> set (load_headers hs). segment_ok data h"
    "\<forall>h \<in> set (load_headers hs). patch_in (length img) (segment_patch data mn h)"
  shows "elf_load_loop data p mn i (length hs) img = apply_patches (map (segment_patch data mn) (load_headers hs)) img"
  using assms
proof (induction hs arbitrary: i img)
  case (Cons h hs)
  then have h: "header_at data (p + 56 * i) h" "headers_at data (p + 56 * Suc i) hs"
    by (simp_all only: headers_at_Suc)
  show ?case
  proof (cases "p_type h = ELF_PROGRAM_TYPE_LOAD")
    case True
    then have ok: "segment_ok data h" "patch_in (length img) (segment_patch data mn h)"
      using Cons.prems by (simp_all add: load_headers_def)
    define m where "m = take (fst (segment_patch data mn h)) img @ snd (segment_patch data mn h) @
      drop (fst (segment_patch data mn h) + length (snd (segment_patch data mn h))) img"
    have m: "copy_to img (fst (segment_patch data mn h)) (snd (segment_patch data mn h)) = Some m"
      unfolding m_def using ok(2) by (intro copy_to_in) (simp add: patch_in_def)
    have "length m = length img" using ok(2) by (simp add: m_def patch_in_def)
    then have IH: "elf_load_loop data p mn (Suc i) (length hs) m =
        apply_patches (map (segment_patch data mn) (load_headers hs)) m"
      using Cons.IH [OF h(2)] Cons.prems True by (simp add: load_headers_def)
    have "elf_load_loop data p mn i (length (h # hs)) img =
      do { img \<leftarrow> do { bs \<leftarrow> copy_from data (unat (p_offset h)) (unat (p_filesz h));
             img \<leftarrow> copy_to img (unat (p_vaddr h - mn)) bs;
             (if p_memsz h > p_filesz h
              then copy_to img (unat (p_vaddr h - mn) + unat (p_filesz h)) (replicate (unat (p_memsz h - p_filesz h)) 0)
              else Some img) };
           elf_load_loop data p mn (Suc i) (length hs) img }"
      using h(1) True by (simp add: header_at_def Let_def bind_assoc)
    then show ?thesis
      unfolding elf_load_segment [OF ok] using m IH True by (simp add: load_headers_def)
  next
    case False
    then show ?thesis using Cons.IH [OF h(2)] Cons.prems h(1) by (simp add: header_at_def load_headers_def)
  qed
qed (simp add: load_headers_def)

text \<open>The parsed range contains every segment, and its ends are reached.\<close>

lemma fold_psi:
  "psi_min_address (fold psi_step hs psi) \<le> psi_min_address psi \<and>
   psi_max_address psi \<le> psi_max_address (fold psi_step hs psi) \<and>
   (\<forall>h \<in> set hs. psi_min_address (fold psi_step hs psi) \<le> p_vaddr h \<and>
      p_vaddr h + p_memsz h \<le> psi_max_address (fold psi_step hs psi)) \<and>
   psi_min_address (fold psi_step hs psi) \<in> insert (psi_min_address psi) (p_vaddr ` set hs) \<and>
   psi_max_address (fold psi_step hs psi) \<in> insert (psi_max_address psi) ((\<lambda>h. p_vaddr h + p_memsz h) ` set hs)"
proof (induction hs arbitrary: psi)
  case (Cons h hs)
  have s: "psi_min_address (psi_step h psi) = min (p_vaddr h) (psi_min_address psi)"
    "psi_max_address (psi_step h psi) = max (p_vaddr h + p_memsz h) (psi_max_address psi)"
    by (simp_all add: psi_step_def)
  have "fold psi_step (h # hs) psi = fold psi_step hs (psi_step h psi)" by simp
  then show ?case using Cons.IH [of "psi_step h psi", unfolded s]
    by (auto simp: min_def max_def split: if_splits)
qed simp

lemma parse_covers:
  assumes "psi_max_address psi = Max ((\<lambda>h. p_vaddr h + p_memsz h) ` set ls)" "psi_min_address psi = Min (p_vaddr ` set ls)"
    "psi_size psi = psi_max_address psi - psi_min_address psi" "\<forall>h \<in> set ls. segment_ok data h" "h \<in> set ls"
  shows "patch_in (unat (psi_size psi)) (segment_patch data (psi_min_address psi) h)"
    and "unat (p_vaddr h - psi_min_address psi) = unat (p_vaddr h) - unat (psi_min_address psi)"
    and "psi_min_address psi \<le> p_vaddr h"
proof -
  let ?mn = "psi_min_address psi" and ?mx = "psi_max_address psi"
  show mn: "?mn \<le> p_vaddr h" using assms by simp
  have mx: "p_vaddr h + p_memsz h \<le> ?mx" using assms by simp
  have ok: "segment_ok data h" using assms(4,5) by simp
  then have e: "unat (p_vaddr h + p_memsz h) = unat (p_vaddr h) + unat (p_memsz h)"
    by (intro unat_plus_no_wrap) (simp add: segment_ok_def)
  then have le: "unat (p_vaddr h) + unat (p_memsz h) \<le> unat ?mx" using mx by (simp add: word_le_nat_alt)
  show eq: "unat (p_vaddr h - ?mn) = unat (p_vaddr h) - unat ?mn" using mn by (rule unat_minus_no_wrap)
  have "?mn \<le> ?mx" using mn le by (simp add: word_le_nat_alt)
  then have "unat (psi_size psi) = unat ?mx - unat ?mn" using assms(3) by (simp add: unat_minus_no_wrap)
  then show "patch_in (unat (psi_size psi)) (segment_patch data ?mn h)"
    using le mn length_segment_image [OF ok] by (simp add: patch_in_def segment_patch_def eq word_le_nat_alt)
qed

lemma parse_result:
  assumes "program_headers data hs" "load_headers hs \<noteq> []"
  shows "\<exists>psi. elf_parse_program_sections data = Some psi \<and>
    psi_min_address psi = Min (p_vaddr ` set (load_headers hs)) \<and>
    psi_max_address psi = Max ((\<lambda>h. p_vaddr h + p_memsz h) ` set (load_headers hs)) \<and>
    psi_size psi = psi_max_address psi - psi_min_address psi"
proof -
  let ?ls = "load_headers hs" and ?init = "\<lparr>psi_size = 0, psi_min_address = -1, psi_max_address = 0\<rparr>"
  let ?psi = "fold psi_step ?ls ?init"
  obtain off n where h: "eh_program_header_offset data = Some off" "eh_program_header_count data = Some n"
    "unat n = length hs" "headers_at data (unat off) hs"
    using assms(1) by (auto simp: program_headers_def split: option.splits)
  have "elf_parse_loop data (unat off) 0 (length hs) ?init = Some ?psi"
    using elf_parse_loop_eq [of data "unat off" 0 hs] h(4) by simp
  then have parse: "elf_parse_program_sections data = Some (?psi\<lparr>psi_size := psi_max_address ?psi - psi_min_address ?psi\<rparr>)"
    using h by (simp add: elf_parse_program_sections_def)
  note f = fold_psi [of ?ls ?init]
  obtain h0 where h0: "h0 \<in> set ?ls" using assms(2) by (meson hd_in_set)
  have "psi_min_address ?psi = Min (p_vaddr ` set ?ls)"
  proof (rule Min_eqI [symmetric])
    have "psi_min_address ?psi \<in> p_vaddr ` set ?ls" if "psi_min_address ?psi = -1"
    proof -
      have "p_vaddr h0 = -1" using f h0 that by (metis word_order.extremum_unique)
      then show ?thesis using h0 that by (metis image_eqI)
    qed
    then show "psi_min_address ?psi \<in> p_vaddr ` set ?ls" using f by auto
  qed (use f in auto)
  moreover have "psi_max_address ?psi = Max ((\<lambda>h. p_vaddr h + p_memsz h) ` set ?ls)"
  proof (rule Max_eqI [symmetric])
    let ?stop = "\<lambda>h. p_vaddr h + p_memsz h"
    have "psi_max_address ?psi \<in> ?stop ` set ?ls" if "psi_max_address ?psi = 0"
    proof -
      have "?stop h0 \<le> 0" using f h0 unfolding that by auto
      then have "?stop h0 = 0" by (simp only: word_le_0_iff)
      then show ?thesis unfolding that using h0 by (intro image_eqI [of _ _ h0]) auto
    qed
    then show "psi_max_address ?psi \<in> ?stop ` set ?ls" using f by auto
  qed (use f in auto)
  ultimately show ?thesis using parse by auto
qed

text \<open>C20. Loading builds the process image: for a file whose loadable segments lie in the file and
  do not overlap, the parsed range is exactly from the lowest to the highest address of a segment,
  and loading into any block of that size stays inside it, puts every segment's bytes, followed by
  zeros up to its memory size, at its address relative to the lowest one, and changes no other byte.\<close>

theorem elf_load_builds_image:
  assumes "program_headers data hs" "load_headers hs \<noteq> []"
    and "\<forall>h \<in> set (load_headers hs). segment_ok data h" "sorted_wrt segments_disj (load_headers hs)"
  shows "\<exists>psi. elf_parse_program_sections data = Some psi \<and>
    psi_min_address psi = Min (p_vaddr ` set (load_headers hs)) \<and>
    psi_max_address psi = Max ((\<lambda>h. p_vaddr h + p_memsz h) ` set (load_headers hs)) \<and>
    psi_size psi = psi_max_address psi - psi_min_address psi \<and>
    (\<forall>img. length img = unat (psi_size psi) \<longrightarrow>
      (\<exists>img'. elf_load_program_sections data img psi = Some img' \<and>
        patched (map (\<lambda>h. (unat (p_vaddr h) - unat (psi_min_address psi), segment_image data h)) (load_headers hs)) img img'))"
proof -
  let ?ls = "load_headers hs"
  obtain psi where psi: "elf_parse_program_sections data = Some psi"
    "psi_min_address psi = Min (p_vaddr ` set ?ls)"
    "psi_max_address psi = Max ((\<lambda>h. p_vaddr h + p_memsz h) ` set ?ls)"
    "psi_size psi = psi_max_address psi - psi_min_address psi"
    using parse_result [OF assms(1,2)] by blast
  note pc = parse_covers [OF psi(3,2,4) assms(3)]
  have "\<exists>img'. elf_load_program_sections data img psi = Some img' \<and>
      patched (map (\<lambda>h. (unat (p_vaddr h) - unat (psi_min_address psi), segment_image data h)) ?ls) img img'"
    if len: "length img = unat (psi_size psi)" for img
  proof -
    let ?pts = "map (segment_patch data (psi_min_address psi)) ?ls"
    have eq: "?pts = map (\<lambda>h. (unat (p_vaddr h) - unat (psi_min_address psi), segment_image data h)) ?ls"
      using pc(2) by (simp add: segment_patch_def)
    have "sorted_wrt (\<lambda>a b. patch_disj (segment_patch data (psi_min_address psi) a) (segment_patch data (psi_min_address psi) b)) ?ls"
    proof (rule sorted_wrt_mono_rel [OF _ assms(4)])
      fix a b assume ab: "a \<in> set ?ls" "b \<in> set ?ls" "segments_disj a b"
      have "length (segment_image data a) = unat (p_memsz a)" "length (segment_image data b) = unat (p_memsz b)"
        using ab(1,2) assms(3) length_segment_image by blast+
      moreover have "unat (psi_min_address psi) \<le> unat (p_vaddr a)" "unat (psi_min_address psi) \<le> unat (p_vaddr b)"
        using pc(3) [OF ab(1)] pc(3) [OF ab(2)] by (simp_all only: word_le_nat_alt)
      ultimately show "patch_disj (segment_patch data (psi_min_address psi) a) (segment_patch data (psi_min_address psi) b)"
        using ab(3) pc(2) [OF ab(1)] pc(2) [OF ab(2)] by (auto simp: patch_disj_def segments_disj_def segment_patch_def)
    qed
    then have "sorted_wrt patch_disj ?pts" by (simp add: sorted_wrt_map)
    moreover have in_b: "\<forall>h \<in> set ?ls. patch_in (length img) (segment_patch data (psi_min_address psi) h)"
      using pc(1) len by simp
    ultimately obtain img' where r: "apply_patches ?pts img = Some img'" "patched ?pts img img'"
      using apply_patches_patched [of ?pts img] by auto
    obtain off n where h: "eh_program_header_offset data = Some off" "eh_program_header_count data = Some n"
      "unat n = length hs" "headers_at data (unat off) hs"
      using assms(1) by (auto simp: program_headers_def split: option.splits)
    have "elf_load_program_sections data img psi = Some img'"
      using elf_load_loop_eq [of data "unat off" 0 hs, OF _ assms(3) in_b] h r(1)
      by (simp add: elf_load_program_sections_def)
    then show ?thesis using r(2) eq by auto
  qed
  then show ?thesis using psi by blast
qed

definition demo_elf :: "u8 list" where
  "demo_elf = replicate 32 0 @ le64 64 @ replicate 16 0 @ le16 2 @ replicate 6 0 @
     (le32 1 @ le32 0 @ le64 176 @ le64 0x1000 @ le64 0 @ le64 3 @ le64 5 @ le64 0) @
     (le32 1 @ le32 0 @ le64 179 @ le64 0x1008 @ le64 0 @ le64 2 @ le64 2 @ le64 0) @ [1, 2, 3, 4, 5]"

definition demo_headers :: "program_header list" where
  "demo_headers = [\<lparr>p_type = 1, p_offset = 176, p_vaddr = 0x1000, p_filesz = 3, p_memsz = 5\<rparr>,
     \<lparr>p_type = 1, p_offset = 179, p_vaddr = 0x1008, p_filesz = 2, p_memsz = 2\<rparr>]"

lemma demo_elf_ok:
  "program_headers demo_elf demo_headers" "load_headers demo_headers \<noteq> []"
  "\<forall>h \<in> set (load_headers demo_headers). segment_ok demo_elf h"
  "sorted_wrt segments_disj (load_headers demo_headers)"
proof -
  show "program_headers demo_elf demo_headers" by code_simp
  show "load_headers demo_headers \<noteq> []" by code_simp
  show "sorted_wrt segments_disj (load_headers demo_headers)" by code_simp
  show "\<forall>h \<in> set (load_headers demo_headers). segment_ok demo_elf h"
    by (simp add: demo_headers_def load_headers_def ELF_PROGRAM_TYPE_LOAD_def segment_ok_def demo_elf_def le64_def)
qed

theorem elf_load_builds_image_witness:
  "\<exists>psi. elf_parse_program_sections demo_elf = Some psi \<and>
    psi_min_address psi = Min (p_vaddr ` set (load_headers demo_headers))"
  using elf_load_builds_image [OF demo_elf_ok] by blast

lemma demo_elf_loaded:
  "elf_load_program_sections demo_elf (replicate 10 0xFF) \<lparr>psi_size = 10, psi_min_address = 0x1000, psi_max_address = 0x100A\<rparr> =
   Some [1, 2, 3, 0, 0, 0xFF, 0xFF, 0xFF, 4, 5]"
  by code_simp

section \<open>Names\<close>

lemma streq_at_eq:
  assumes "holds data p (s @ [0])" "0 \<notin> set s" "0 \<notin> set t"
  shows "streq_at data p t = Some (s = t)"
  using assms
proof (induction t arbitrary: p s)
  case Nil
  then show ?case using holds_rd8 [OF Nil(1), of 0] by (cases s) auto
next
  case (Cons b bs)
  have first: "rd8 data p = Some ((s @ [0]) ! 0)" using holds_rd8 [OF Cons.prems(1), of 0] by simp
  show ?case
  proof (cases s)
    case Nil
    then show ?thesis using first Cons.prems(3) by auto
  next
    case (Cons a as)
    have "holds data (Suc p) (as @ [0])"
      using Cons.prems(1) holds_append [of data p "[a]" "as @ [0]"] unfolding Cons by simp
    then have "streq_at data (Suc p) bs = Some (as = bs)"
      using Cons.prems Cons.IH unfolding Cons by simp
    then show ?thesis using first Cons.prems Cons by auto
  qed
qed

lemma strlen_append_0: "0 \<notin> set s \<Longrightarrow> strlen (s @ 0 # r) = Some (length s)"
  by (induction s) auto

lemma cstr_at_eq:
  assumes "holds data p (s @ [0])" "0 \<notin> set s"
  shows "cstr_at data p = Some s"
proof -
  have t: "take (length s + 1) (drop p data) = s @ [0]" using assms(1) by (simp add: holds_def)
  then have "drop p data = s @ 0 # drop (length s + 1) (drop p data)"
    by (metis append.assoc append_Cons append_Nil append_take_drop_id)
  then obtain r where r: "drop p data = s @ 0 # r" by blast
  show ?thesis unfolding cstr_at_def r by (simp add: strlen_append_0 [OF assms(2)])
qed

section \<open>What relocating writes\<close>

text \<open>The symbols and the relocation entries of a file.\<close>

record symbol =
  s_name :: "u8 list"
  s_shndx :: u16
  s_value :: u64

record rela =
  r_offset :: u64
  r_info :: u64
  r_addend :: u64

definition symbol_at :: "u8 list \<Rightarrow> nat \<Rightarrow> nat \<Rightarrow> symbol \<Rightarrow> bool" where
  "symbol_at data strings p s \<longleftrightarrow> sym_section_index data p = Some (s_shndx s) \<and> sym_value data p = Some (s_value s) \<and>
     0 \<notin> set (s_name s) \<and>
     (case sym_name_offset data p of Some n \<Rightarrow> holds data (strings + unat n) (s_name s @ [0]) | None \<Rightarrow> False)"

fun symbols_at :: "u8 list \<Rightarrow> nat \<Rightarrow> nat \<Rightarrow> symbol list \<Rightarrow> bool" where
  "symbols_at data strings p [] \<longleftrightarrow> True"
| "symbols_at data strings p (s # ss) \<longleftrightarrow> symbol_at data strings p s \<and> symbols_at data strings (p + 24) ss"

definition rela_at :: "u8 list \<Rightarrow> nat \<Rightarrow> rela \<Rightarrow> bool" where
  "rela_at data p r \<longleftrightarrow> rel_offset data p = Some (r_offset r) \<and> rel_info data p = Some (r_info r) \<and>
     rel_addend data p = Some (r_addend r)"

fun relas_at :: "u8 list \<Rightarrow> nat \<Rightarrow> rela list \<Rightarrow> bool" where
  "relas_at data p [] \<longleftrightarrow> True"
| "relas_at data p (r # rs) \<longleftrightarrow> rela_at data p r \<and> relas_at data (p + 24) rs"

definition rela_section :: "u8 list \<Rightarrow> nat \<Rightarrow> rela list \<Rightarrow> bool" where
  "rela_section data section rs \<longleftrightarrow> elf_entry_count data section = Some (length rs) \<and>
     (case sh_file_offset data section of Some p \<Rightarrow> relas_at data (unat p) rs | None \<Rightarrow> False)"

definition symbol_sections :: "u8 list \<Rightarrow> nat \<Rightarrow> nat \<Rightarrow> symbol list \<Rightarrow> bool" where
  "symbol_sections data symtab strtab ss \<longleftrightarrow>
     (case (sh_file_offset data symtab, sh_file_offset data strtab) of
        (Some p, Some q) \<Rightarrow> symbols_at data (unat q) (unat p) ss | _ \<Rightarrow> False)"

text \<open>The value of a symbol: defined in the file, or exported by the kernel.\<close>

definition resolve :: "u64 \<Rightarrow> symbol list \<Rightarrow> (u8 list, u64) linear_map \<Rightarrow> u32 \<Rightarrow> u64 option" where
  "resolve base ss symbol_map idx =
     (if idx = 0 then Some 0
      else let s = ss ! unat idx in
        if s_value s \<noteq> 0 \<or> s_shndx s \<noteq> 0 then Some (base + s_value s) else map_of symbol_map (s_name s))"

text \<open>What an entry asks for: the code of the failure, or the place and the bytes.\<close>

definition rela_patch :: "u64 \<Rightarrow> symbol list \<Rightarrow> (u8 list, u64) linear_map \<Rightarrow> rela \<Rightarrow> int + (nat \<times> u8 list)" where
  "rela_patch base ss symbol_map r =
     (case resolve base ss symbol_map (ELF_RELOCATE_SYMBOL (r_info r)) of None \<Rightarrow> Inl 1
      | Some v \<Rightarrow> (case elf_relocation_bytes base (r_offset r) v (r_addend r) (ELF_RELOCATE_TYPE (r_info r)) of
          None \<Rightarrow> Inl 2 | Some bs \<Rightarrow> Inr (unat (r_offset r), bs)))"

text \<open>The entries before the first failure, and the code of that failure.\<close>

fun good_patches :: "(int + nat \<times> u8 list) list \<Rightarrow> (nat \<times> u8 list) list" where
  "good_patches (Inr pt # ps) = pt # good_patches ps"
| "good_patches _ = []"

fun first_failure :: "(int + nat \<times> u8 list) list \<Rightarrow> int" where
  "first_failure [] = 0"
| "first_failure (Inl e # ps) = e"
| "first_failure (Inr pt # ps) = first_failure ps"

lemma first_failure_0:
  "\<forall>e. Inl e \<in> set ps \<longrightarrow> e \<noteq> 0 \<Longrightarrow> first_failure ps = 0 \<longleftrightarrow> ps = map Inr (good_patches ps)"
  by (induction ps rule: first_failure.induct) auto

lemma symbols_at_nth: "symbols_at data q p ss \<Longrightarrow> i < length ss \<Longrightarrow> symbol_at data q (p + 24 * i) (ss ! i)"
proof (induction ss arbitrary: p i)
  case (Cons s ss)
  then show ?case by (cases i) (force simp: add.assoc)+
qed simp

lemma elf_symbol_value_eq:
  assumes "symbols_at data q p ss" "unat idx < length ss"
  shows "elf_symbol_value data base p q symbol_map idx = Some (resolve base ss symbol_map idx)"
proof -
  have at: "symbol_at data q (p + 24 * unat idx) (ss ! unat idx)" by (rule symbols_at_nth [OF assms])
  then obtain n where n: "sym_name_offset data (p + 24 * unat idx) = Some n"
    "holds data (q + unat n) (s_name (ss ! unat idx) @ [0])" "0 \<notin> set (s_name (ss ! unat idx))"
    by (auto simp: symbol_at_def split: option.splits)
  have c: "cstr_at data (q + unat n) = Some (s_name (ss ! unat idx))" by (rule cstr_at_eq [OF n(2,3)])
  show ?thesis using at n(1) c
    by (simp add: elf_symbol_value_def resolve_def symbol_at_def Let_def lm_lookup_map_of)
qed

text \<open>Looking a name up finds the value of the first symbol that has it.\<close>

definition symbol_table_of :: "u8 list \<Rightarrow> nat \<Rightarrow> nat \<Rightarrow> symbol list \<Rightarrow> bool" where
  "symbol_table_of data symtab strtab ss \<longleftrightarrow>
     elf_entry_count data symtab = Some (length ss) \<and> symbol_sections data symtab strtab ss"

lemma elf_symbol_loop_eq:
  assumes "symbols_at data q (p + 24 * i) ss" "0 \<notin> set name"
  shows "elf_symbol_loop data name p q i (length ss) = Some (map_option s_value (find (\<lambda>s. s_name s = name) ss))"
  using assms
proof (induction ss arbitrary: i)
  case (Cons s ss)
  have e: "p + 24 * i + 24 = p + 24 * Suc i" by simp
  then have s: "symbol_at data q (p + 24 * i) s" "symbols_at data q (p + 24 * Suc i) ss"
    using Cons.prems(1) by (simp_all only: symbols_at.simps e)
  then obtain n where n: "sym_name_offset data (p + 24 * i) = Some n" "holds data (q + unat n) (s_name s @ [0])"
    "0 \<notin> set (s_name s)" "sym_value data (p + 24 * i) = Some (s_value s)"
    by (auto simp: symbol_at_def split: option.splits)
  show ?case using streq_at_eq [OF n(2,3) Cons.prems(2)] n(1,4) Cons.IH [OF s(2) Cons.prems(2)] by simp
qed simp

lemma elf_find_symbol_address_eq:
  assumes "symbol_table_of data symtab strtab ss" "0 \<notin> set name"
  shows "elf_find_symbol_address data symtab strtab name = Some (map_option s_value (find (\<lambda>s. s_name s = name) ss))"
proof -
  obtain p q where "sh_file_offset data symtab = Some p" "sh_file_offset data strtab = Some q"
    "symbols_at data (unat q) (unat p + 24 * 0) ss" "elf_entry_count data symtab = Some (length ss)"
    using assms(1) by (auto simp: symbol_table_of_def symbol_sections_def split: option.splits)
  then show ?thesis using elf_symbol_loop_eq [OF _ assms(2)] by (simp add: elf_find_symbol_address_def)
qed

lemma elf_relocate_loop_eq:
  assumes "relas_at data (p + 24 * i) rs" "symbols_at data q sy ss"
    "\<forall>r \<in> set rs. unat (ELF_RELOCATE_SYMBOL (r_info r)) < length ss"
  shows "elf_relocate_loop data base p sy q symbol_map i (length rs) img =
    do { img \<leftarrow> apply_patches (good_patches (map (rela_patch base ss symbol_map) rs)) img;
         Some (first_failure (map (rela_patch base ss symbol_map) rs), img) }"
  using assms
proof (induction rs arbitrary: i img)
  case (Cons r rs)
  have e: "p + 24 * i + 24 = p + 24 * Suc i" by simp
  then have r: "rela_at data (p + 24 * i) r" "relas_at data (p + 24 * Suc i) rs"
    using Cons.prems(1) by (simp_all only: relas_at.simps e)
  have sv: "elf_symbol_value data base sy q symbol_map (ELF_RELOCATE_SYMBOL (r_info r)) =
      Some (resolve base ss symbol_map (ELF_RELOCATE_SYMBOL (r_info r)))"
    using Cons.prems by (intro elf_symbol_value_eq) auto
  have IH: "elf_relocate_loop data base p sy q symbol_map (Suc i) (length rs) img =
    do { img \<leftarrow> apply_patches (good_patches (map (rela_patch base ss symbol_map) rs)) img;
         Some (first_failure (map (rela_patch base ss symbol_map) rs), img) }" for img
    using Cons.IH [OF r(2)] Cons.prems by simp
  show ?case
  proof (cases "resolve base ss symbol_map (ELF_RELOCATE_SYMBOL (r_info r))")
    case None
    then show ?thesis using r(1) sv by (simp add: rela_at_def rela_patch_def)
  next
    case (Some v)
    show ?thesis
    proof (cases "elf_relocation_bytes base (r_offset r) v (r_addend r) (ELF_RELOCATE_TYPE (r_info r))")
      case None
      then show ?thesis using Some r(1) sv by (simp add: rela_at_def rela_patch_def)
    next
      case (Some bs)
      then have pt: "rela_patch base ss symbol_map r = Inr (unat (r_offset r), bs)"
        using \<open>resolve _ _ _ _ = Some v\<close> by (simp add: rela_patch_def)
      have "elf_relocate_loop data base p sy q symbol_map i (length (r # rs)) img =
          do { img \<leftarrow> copy_to img (unat (r_offset r)) bs;
               elf_relocate_loop data base p sy q symbol_map (Suc i) (length rs) img }"
        using Some \<open>resolve _ _ _ _ = Some v\<close> r(1) sv by (simp add: rela_at_def)
      then show ?thesis by (simp only: IH) (simp add: pt bind_assoc)
    qed
  qed
qed simp


text \<open>A file with one symbol section (at 48, 2 symbols at 200), its strings (at 300) and two entries:
  a relative one and one for a symbol of the kernel.\<close>

definition demo_section :: "u8 list \<Rightarrow> u8 \<Rightarrow> u8 \<Rightarrow> u8 list" where
  "demo_section off sz es = replicate 24 0 @ off @ replicate 6 0 @ [sz] @ replicate 23 0 @ [es] @ replicate 7 0"

definition demo_object :: "u8 list" where
  "demo_object = demo_section [192, 0] 48 24 @ demo_section [240, 0] 48 24 @ demo_section [0x20, 1] 0 0 @
     replicate 8 0 @ [8, 0, 0, 0, 0, 0, 0, 0, 0x30, 0, 0, 0, 0, 0, 0, 0] @
     [8, 0, 0, 0, 0, 0, 0, 0, 1, 0, 0, 0, 1, 0, 0, 0, 2, 0, 0, 0, 0, 0, 0, 0] @
     replicate 24 0 @ (1 # replicate 23 0) @ [0, 0x66, 0x72, 0x65, 0x65, 0]"

definition demo_symbols :: "symbol list" where
  "demo_symbols = [\<lparr>s_name = [], s_shndx = 0, s_value = 0\<rparr>, \<lparr>s_name = b8 ''free'', s_shndx = 0, s_value = 0\<rparr>]"

definition demo_relas :: "rela list" where
  "demo_relas = [\<lparr>r_offset = 0, r_info = 8, r_addend = 0x30\<rparr>, \<lparr>r_offset = 8, r_info = 0x100000001, r_addend = 2\<rparr>]"

definition demo_patches :: "(int + nat \<times> u8 list) list" where
  "demo_patches = map (rela_patch 0x1000 demo_symbols [(b8 ''free'', 0x7000)]) demo_relas"

lemma demo_object_ok:
  "rela_section demo_object 0 demo_relas" "symbol_sections demo_object 64 128 demo_symbols"
  "\<forall>r \<in> set demo_relas. unat (ELF_RELOCATE_SYMBOL (r_info r)) < length demo_symbols"
  "\<forall>pt \<in> set (good_patches demo_patches). patch_in (length (replicate 16 0)) pt"
  "sorted_wrt patch_disj (good_patches demo_patches)"
  by code_simp+


lemma demo_relocated:
  "elf_relocate demo_object 0x1000 0 64 128 [(b8 ''free'', 0x7000)] (replicate 16 0) =
     Some (0, le64 0x1030 @ le64 0x7002)"
  by code_simp

end
