(* ===== verification/Driver.thy ===== *)
theory Driver
  imports Elf
begin

text \<open>
  Loadable drivers: \<open>src/kernel/src/drivers/driver.cpp\<close>.

  A loaded driver is its record together with the memory its image lives in. \<open>malloc\<close> is the
  parameter \<open>alloc\<close>: the address and the bytes of a new block of the given size, or \<open>None\<close>. The
  addresses of the kernel functions that drivers may call are the parameter \<open>exported\<close>; running a
  driver's code is the parameter \<open>call\<close>, which is only reached with the address it starts at.
  Calling through a null function pointer is \<open>None\<close>. Blocks that the code never frees are not
  recorded.
\<close>

record system_driver =
  sd_name :: "u8 list"
  sd_base_address :: u64
  sd_image :: "u8 list"
  sd_file_data :: "u8 list"
  sd_driver_init :: "u64 option"
  sd_driver_exit :: "u64 option"

record driver_manager =
  dm_current_handle :: u64
  dm_loaded_drivers :: "(u64, system_driver) linear_map"

definition SYSTEM_DRIVER_HANDLE_INVALID :: u64 where "SYSTEM_DRIVER_HANDLE_INVALID = -1"

text \<open>The first loaded driver with the name.\<close>

fun driver_handle_loop :: "(u64, system_driver) linear_map \<Rightarrow> u8 list \<Rightarrow> u64" where
  "driver_handle_loop [] name = SYSTEM_DRIVER_HANDLE_INVALID"
| "driver_handle_loop (kv # m) name =
     (if streq (sd_name (snd kv)) name then fst kv else driver_handle_loop m name)"

definition driver_manager_get_driver_handle :: "driver_manager \<Rightarrow> u8 list \<Rightarrow> u64" where
  "driver_manager_get_driver_handle dm name = driver_handle_loop (dm_loaded_drivers dm) name"

definition exported_names :: "string list" where
  "exported_names = [''malloc'', ''free'', ''malloc_aligned'', ''free_aligned'', ''kprint'', ''ksleep'',
     ''ktime_since_boot'', ''knet_udp_send'', ''_Znwm'', ''_Znam'', ''_ZdlPv'', ''_ZdaPv'', ''_ZdlPvm'',
     ''_ZdaPvm'', ''_ZnwmPv'']"

text \<open>\<open>symbol_map[name] = address\<close> for every exported name.\<close>

definition driver_symbol_map :: "(u8 list \<Rightarrow> u64) \<Rightarrow> (u8 list, u64) linear_map" where
  "driver_symbol_map exported = fold (\<lambda>n. lm_put (b8 n) 0 (exported (b8 n))) exported_names []"

definition driver_empty :: system_driver where
  "driver_empty = \<lparr>sd_name = [], sd_base_address = 0, sd_image = [], sd_file_data = [],
     sd_driver_init = None, sd_driver_exit = None\<rparr>"

definition driver_load ::
  "(u64 \<Rightarrow> (u64 \<times> u8 list) option) \<Rightarrow> (u8 list \<Rightarrow> u64) \<Rightarrow> driver_manager \<Rightarrow> u8 list \<Rightarrow> u8 list \<Rightarrow>
   (u64 \<times> driver_manager) option" where
  "driver_load alloc exported dm p_name file = do {
     c \<leftarrow> elf_check_file file ELF_DYNAMIC;
     if c \<noteq> 0 then Some (SYSTEM_DRIVER_HANDLE_INVALID, dm)
     else do {
       psi \<leftarrow> elf_parse_program_sections file;
       case alloc (psi_size psi) of None \<Rightarrow> Some (SYSTEM_DRIVER_HANDLE_INVALID, dm)
       | Some (base_address, img) \<Rightarrow> do {
           img \<leftarrow> elf_load_program_sections file img psi;
           tables \<leftarrow> elf_get_tables file;
           if tb_string_table tables = None \<or> tb_symbol_table tables = None
           then Some (SYSTEM_DRIVER_HANDLE_INVALID, dm)
           else do {
             (r, img) \<leftarrow> elf_relocate_rel_sections file base_address tables (driver_symbol_map exported) img;
             if r \<noteq> 0 then Some (SYSTEM_DRIVER_HANDLE_INVALID, dm)
             else do {
               init \<leftarrow> elf_get_function file base_address tables psi (b8 ''driver_init'');
               exit \<leftarrow> elf_get_function file base_address tables psi (b8 ''driver_exit'');
               let d = \<lparr>sd_name = p_name, sd_base_address = base_address, sd_image = img,
                        sd_file_data = file, sd_driver_init = init, sd_driver_exit = exit\<rparr>;
               let h = dm_current_handle dm + 1;
               Some (h, dm\<lparr>dm_current_handle := h,
                           dm_loaded_drivers := lm_put h driver_empty d (dm_loaded_drivers dm)\<rparr>) } } } } }"

definition driver_unload :: "driver_manager \<Rightarrow> u64 \<Rightarrow> int \<times> driver_manager" where
  "driver_unload dm handle =
     (case lm_lookup (dm_loaded_drivers dm) handle of None \<Rightarrow> (1, dm)
      | Some d \<Rightarrow> (let (ok, m) = lm_remove handle (dm_loaded_drivers dm)
                   in (if ok then 0 else 2, dm\<lparr>dm_loaded_drivers := m\<rparr>)))"

definition driver_start :: "(system_driver \<Rightarrow> u64 \<Rightarrow> int) \<Rightarrow> driver_manager \<Rightarrow> u64 \<Rightarrow> int option" where
  "driver_start call dm handle =
     (case lm_lookup (dm_loaded_drivers dm) handle of None \<Rightarrow> Some 1
      | Some d \<Rightarrow> map_option (call d) (sd_driver_init d))"

definition driver_stop :: "(system_driver \<Rightarrow> u64 \<Rightarrow> int) \<Rightarrow> driver_manager \<Rightarrow> u64 \<Rightarrow> int option" where
  "driver_stop call dm handle =
     (case lm_lookup (dm_loaded_drivers dm) handle of None \<Rightarrow> Some 1
      | Some d \<Rightarrow> map_option (call d) (sd_driver_exit d))"

definition driver_get_function :: "driver_manager \<Rightarrow> u64 \<Rightarrow> u8 list \<Rightarrow> u64 option option" where
  "driver_get_function dm handle p_name =
     (case lm_lookup (dm_loaded_drivers dm) handle of None \<Rightarrow> Some None
      | Some d \<Rightarrow> do {
          psi \<leftarrow> elf_parse_program_sections (sd_file_data d);
          tables \<leftarrow> elf_get_tables (sd_file_data d);
          if tb_string_table tables = None \<or> tb_symbol_table tables = None then Some None
          else elf_get_function (sd_file_data d) (sd_base_address d) tables psi p_name })"

text \<open>The driver's own function, run with the feature's name, is \<open>call_query\<close>.\<close>

definition driver_query_capability ::
  "(system_driver \<Rightarrow> u64 \<Rightarrow> u8 list \<Rightarrow> u64) \<Rightarrow> driver_manager \<Rightarrow> u64 \<Rightarrow> u8 list \<Rightarrow> u64 option" where
  "driver_query_capability call_query dm handle feature = do {
     f \<leftarrow> driver_get_function dm handle (b8 ''query_capability'');
     case f of None \<Rightarrow> Some (-1)
     | Some a \<Rightarrow> map_option (\<lambda>d. call_query d a feature) (lm_lookup (dm_loaded_drivers dm) handle) }"

section \<open>The table of drivers\<close>

definition dm_inv :: "driver_manager \<Rightarrow> bool" where
  "dm_inv dm \<longleftrightarrow> lm_inv (dm_loaded_drivers dm) \<and>
     (\<forall>h \<in> dom (map_of (dm_loaded_drivers dm)). h \<le> dm_current_handle dm)"

abbreviation drivers :: "driver_manager \<Rightarrow> u64 \<rightharpoonup> system_driver" where
  "drivers dm \<equiv> map_of (dm_loaded_drivers dm)"

lemma driver_unload_drivers:
  assumes "dm_inv dm" "drivers dm h = Some d"
  shows "\<exists>dm'. driver_unload dm h = (0, dm') \<and> dm_inv dm' \<and> drivers dm' = (drivers dm)(h := None)"
proof -
  let ?m = "dm_loaded_drivers dm"
  obtain ok m where m: "lm_remove h ?m = (ok, m)" by (cases "lm_remove h ?m")
  have inv: "lm_inv ?m" using assms(1) by (simp add: dm_inv_def)
  have "ok" using fst_lm_remove [of h ?m] m assms(2) by (metis domI dom_map_of_conv_image_fst fst_conv)
  moreover have "lm_inv m" "map_of m = (map_of ?m)(h := None)"
    using lm.rem_inv [OF inv, of h] lm.rem_law [OF inv, of h] m
    by (simp_all add: lm_lookup_map_of map_rem_def)
  ultimately show ?thesis using assms m by (auto simp: driver_unload_def lm_lookup_map_of dm_inv_def)
qed

lemma driver_put:
  assumes "dm_inv dm" "dm_current_handle dm < -2"
    and h: "h = dm_current_handle dm + 1"
    and dm': "dm' = dm\<lparr>dm_current_handle := h, dm_loaded_drivers := lm_put h driver_empty d (dm_loaded_drivers dm)\<rparr>"
  shows "h \<noteq> SYSTEM_DRIVER_HANDLE_INVALID" "drivers dm h = None" "dm_inv dm'" "drivers dm' = (drivers dm)(h \<mapsto> d)"
proof -
  have "unat (dm_current_handle dm) < 2 ^ 64 - 2" using assms(2) by (simp add: word_less_nat_alt)
  then have u: "unat h = unat (dm_current_handle dm) + 1" "unat h < 2 ^ 64 - 1"
    unfolding h by (subst unat_plus_no_wrap; simp)+
  then have lt: "dm_current_handle dm < h" by (simp add: word_less_nat_alt)
  show "h \<noteq> SYSTEM_DRIVER_HANDLE_INVALID"
  proof
    assume "h = SYSTEM_DRIVER_HANDLE_INVALID"
    then have "h + 1 = 0" by (simp add: SYSTEM_DRIVER_HANDLE_INVALID_def)
    then have "unat (h + 1) = 0" by simp
    moreover have "unat (h + 1) = unat h + 1" using u(2) by (subst unat_plus_no_wrap) simp_all
    ultimately show False by simp
  qed
  show new: "drivers dm h = None"
    using assms(1) lt unfolding dm_inv_def by (metis domIff leD)
  have inv: "lm_inv (dm_loaded_drivers dm)" using assms(1) by (simp add: dm_inv_def)
  show m: "drivers dm' = (drivers dm)(h \<mapsto> d)"
    using lm.put_law [OF inv, of h] by (simp add: dm' lm_lookup_map_of)
  have "\<forall>k \<in> dom (drivers dm). k \<le> h"
    using assms(1) lt unfolding dm_inv_def by (meson order.strict_implies_order order.trans)
  then show "dm_inv dm'"
    unfolding dm_inv_def m using lm.put_inv [OF inv, of h] by (simp add: dm')
qed

text \<open>The address of a function of a loaded file.\<close>

definition function_address :: "u64 \<Rightarrow> elf_program_section_info \<Rightarrow> symbol list \<Rightarrow> u8 list \<Rightarrow> u64 option" where
  "function_address base psi ss name =
     map_option (\<lambda>s. base + (s_value s - psi_min_address psi)) (find (\<lambda>s. s_name s = name) ss)"

lemma elf_get_function_eq:
  assumes "tb_symbol_table tables = Some symtab" "tb_string_table tables = Some strtab"
    "symbol_table_of file symtab strtab ss" "0 \<notin> set name"
  shows "elf_get_function file base tables psi name = Some (function_address base psi ss name)"
  using assms by (simp add: elf_get_function_def elf_find_symbol_address_eq function_address_def option.map_comp o_def)

text \<open>
  C22. Loading a driver, on every branch. When \<open>driver_load\<close> fails (a file of another kind, no
  memory, no tables, an unresolved relocation) it returns the invalid handle and leaves the table of
  drivers as it was. Otherwise it returns a new handle: the table has the new driver under it and is
  unchanged elsewhere, the driver's entry points are what \<open>driver_get_function\<close> finds under the
  names, namely the addresses of the file's symbols in the loaded image, and unloading the handle
  succeeds and gives back the table as it was.
\<close>

theorem driver_load_outcome:
  assumes "dm_inv dm" "dm_current_handle dm < -2"
    and "driver_load alloc exported dm name file = Some (h, dm')"
  shows "(h = SYSTEM_DRIVER_HANDLE_INVALID \<and> dm' = dm) \<or>
    (h \<noteq> SYSTEM_DRIVER_HANDLE_INVALID \<and> drivers dm h = None \<and> dm_inv dm' \<and>
     elf_check_file file ELF_DYNAMIC = Some 0 \<and>
     (\<exists>d. drivers dm' = (drivers dm)(h \<mapsto> d) \<and> sd_name d = name \<and> sd_file_data d = file \<and>
        driver_get_function dm' h (b8 ''driver_init'') = Some (sd_driver_init d) \<and>
        driver_get_function dm' h (b8 ''driver_exit'') = Some (sd_driver_exit d) \<and>
        (\<forall>tables psi symtab strtab ss f. elf_get_tables file = Some tables \<and> elf_parse_program_sections file = Some psi \<and>
           tb_symbol_table tables = Some symtab \<and> tb_string_table tables = Some strtab \<and>
           symbol_table_of file symtab strtab ss \<and> 0 \<notin> set f \<longrightarrow>
           driver_get_function dm' h f = Some (function_address (sd_base_address d) psi ss f))) \<and>
     (\<exists>dm''. driver_unload dm' h = (0, dm'') \<and> dm_inv dm'' \<and> drivers dm'' = drivers dm))"
proof -
  obtain c where c: "elf_check_file file ELF_DYNAMIC = Some c" using assms(3) by (auto simp: driver_load_def bind_Some_iff)
  show ?thesis
  proof (cases "h = SYSTEM_DRIVER_HANDLE_INVALID \<and> dm' = dm")
    case False
    then obtain psi base img0 img1 img tables init exit where l: "c = 0" "elf_parse_program_sections file = Some psi"
      "alloc (psi_size psi) = Some (base, img0)" "elf_load_program_sections file img0 psi = Some img1"
      "elf_get_tables file = Some tables" "tb_string_table tables \<noteq> None" "tb_symbol_table tables \<noteq> None"
      "elf_get_function file base tables psi (b8 ''driver_init'') = Some init"
      "elf_get_function file base tables psi (b8 ''driver_exit'') = Some exit"
      "h = dm_current_handle dm + 1"
      "dm' = dm\<lparr>dm_current_handle := h, dm_loaded_drivers := lm_put h driver_empty
         \<lparr>sd_name = name, sd_base_address = base, sd_image = img, sd_file_data = file,
          sd_driver_init = init, sd_driver_exit = exit\<rparr> (dm_loaded_drivers dm)\<rparr>"
      using assms(3) c
      by (auto simp: driver_load_def bind_Some_iff Let_def split: if_splits option.splits prod.splits)
    let ?d = "\<lparr>sd_name = name, sd_base_address = base, sd_image = img, sd_file_data = file,
          sd_driver_init = init, sd_driver_exit = exit\<rparr>"
    note p = driver_put [OF assms(1,2) l(10) l(11)]
    have g: "driver_get_function dm' h f = elf_get_function file base tables psi f" for f
      using p(4) l(2,5-7) by (auto simp: driver_get_function_def lm_lookup_map_of)
    have u: "\<exists>dm''. driver_unload dm' h = (0, dm'') \<and> dm_inv dm'' \<and> drivers dm'' = drivers dm"
      using driver_unload_drivers [OF p(3), of h ?d] p(2,4) by (auto simp: fun_upd_idem)
    have f: "driver_get_function dm' h f = Some (function_address base psi' ss f)"
      if "elf_get_tables file = Some tables'" "elf_parse_program_sections file = Some psi'"
        "tb_symbol_table tables' = Some symtab" "tb_string_table tables' = Some strtab"
        "symbol_table_of file symtab strtab ss" "0 \<notin> set f" for tables' psi' symtab strtab ss f
      using elf_get_function_eq [OF that(3-6)] that(1,2) l(2,5) g by simp
    have "\<exists>d. drivers dm' = (drivers dm)(h \<mapsto> d) \<and> sd_name d = name \<and> sd_file_data d = file \<and>
        driver_get_function dm' h (b8 ''driver_init'') = Some (sd_driver_init d) \<and>
        driver_get_function dm' h (b8 ''driver_exit'') = Some (sd_driver_exit d) \<and>
        (\<forall>tables psi symtab strtab ss f. elf_get_tables file = Some tables \<and> elf_parse_program_sections file = Some psi \<and>
           tb_symbol_table tables = Some symtab \<and> tb_string_table tables = Some strtab \<and>
           symbol_table_of file symtab strtab ss \<and> 0 \<notin> set f \<longrightarrow>
           driver_get_function dm' h f = Some (function_address (sd_base_address d) psi ss f))"
      by (intro exI [of _ ?d]) (use p(4) l(8,9) g f in auto)
    then show ?thesis using p(1-3) u c l(1) by blast
  qed simp
qed

text \<open>A driver with one segment, a symbol table and the function \<open>driver_init\<close>.\<close>

definition demo_driver :: "u8 list" where
  "demo_driver =
     s_elf_header @ replicate 9 0 @ [3, 0] @ replicate 14 0 @ [64, 0, 0, 0, 0, 0, 0, 0, 120, 0, 0, 0, 0, 0, 0, 0] @
     replicate 8 0 @ [1, 0, 0, 0, 2, 0, 1, 0] @
     [1, 0, 0, 0] @ replicate 28 0 @ [4, 0, 0, 0, 0, 0, 0, 0, 8, 0, 0, 0, 0, 0, 0, 0] @ replicate 8 0 @
     [1, 0, 0, 0] @ replicate 20 0 @ [248, 0, 0, 0, 0, 0, 0, 0, 48, 0, 0, 0, 0, 0, 0, 0] @ replicate 16 0 @ [24, 0, 0, 0, 0, 0, 0, 0] @
     [9, 0, 0, 0] @ replicate 20 0 @ [40, 1, 0, 0, 0, 0, 0, 0, 29, 0, 0, 0, 0, 0, 0, 0] @ replicate 24 0 @
     replicate 24 0 @ [17, 0, 0, 0, 0, 0, 0, 0, 4, 0, 0, 0, 0, 0, 0, 0] @ replicate 8 0 @
     [0, 0x2E, 0x64, 0x79, 0x6E, 0x73, 0x79, 0x6D, 0, 0x2E, 0x64, 0x79, 0x6E, 0x73, 0x74, 0x72, 0,
      0x64, 0x72, 0x69, 0x76, 0x65, 0x72, 0x5F, 0x69, 0x6E, 0x69, 0x74, 0]"

definition demo_alloc :: "u64 \<Rightarrow> (u64 \<times> u8 list) option" where
  "demo_alloc n = Some (0x1000, replicate (unat n) 0xFF)"

definition demo_dm :: driver_manager where
  "demo_dm = \<lparr>dm_current_handle = 1, dm_loaded_drivers = [(1,
     \<lparr>sd_name = [0x61], sd_base_address = 0x1000, sd_image = [0x7F, 0x45, 0x4C, 0x46, 0, 0, 0, 0],
      sd_file_data = demo_driver, sd_driver_init = Some 0x1004, sd_driver_exit = None\<rparr>)]\<rparr>"

lemma demo_driver_sections:
  "elf_find_section_by_name demo_driver (b8 ''.dynsym'') = Some (Some 120)"
  "elf_find_section_by_name demo_driver (b8 ''.dynstr'') = Some (Some 184)"
  "elf_find_section_by_name demo_driver (b8 ''.symtab'') = Some None"
  "elf_find_section_by_name demo_driver (b8 ''.strtab'') = Some None"
  "elf_find_section_by_name demo_driver (b8 ''.rela.dyn'') = Some None"
  "elf_find_section_by_name demo_driver (b8 ''.rela.plt'') = Some None"
  by code_simp+

lemma demo_driver_segments:
  "elf_check_file demo_driver ELF_DYNAMIC = Some 0"
  "elf_parse_program_sections demo_driver = Some \<lparr>psi_size = 8, psi_min_address = 0, psi_max_address = 8\<rparr>"
  "elf_load_program_sections demo_driver (replicate 8 0xFF) \<lparr>psi_size = 8, psi_min_address = 0, psi_max_address = 8\<rparr> =
     Some [0x7F, 0x45, 0x4C, 0x46, 0, 0, 0, 0]"
  by code_simp+

lemma demo_driver_symbols:
  "elf_find_symbol_address demo_driver 120 184 (b8 ''driver_init'') = Some (Some 4)"
  "elf_find_symbol_address demo_driver 120 184 (b8 ''driver_exit'') = Some None"
  by code_simp+

lemma demo_driver_load:
  "driver_load demo_alloc (\<lambda>_. 0) \<lparr>dm_current_handle = 0, dm_loaded_drivers = []\<rparr> [0x61] demo_driver = Some (1, demo_dm)"
proof -
  have r: "elf_relocate_rel_sections demo_driver b t m img = Some (0, img)" for b t m img
    by (simp add: elf_relocate_rel_sections_def elf_relocate_section_def demo_driver_sections)
  have t: "elf_get_tables demo_driver = Some \<lparr>tb_symbol_table = Some 120, tb_string_table = Some 184\<rparr>"
    by (simp add: elf_get_tables_def demo_driver_sections)
  show ?thesis
    by (simp add: driver_load_def demo_driver_segments demo_driver_symbols r t demo_alloc_def elf_get_function_def
        demo_dm_def lm_put_def lm_index_def)
qed

theorem driver_load_outcome_witness:
  "\<exists>d dm''. drivers demo_dm = Map.empty(1 \<mapsto> d) \<and> driver_get_function demo_dm 1 (b8 ''driver_init'') = Some (sd_driver_init d) \<and>
     driver_unload demo_dm 1 = (0, dm'') \<and> drivers dm'' = Map.empty"
proof -
  have "dm_inv \<lparr>dm_current_handle = 0, dm_loaded_drivers = []\<rparr>" by (simp add: dm_inv_def lm_inv_def)
  moreover have "dm_current_handle \<lparr>dm_current_handle = 0, dm_loaded_drivers = []\<rparr> < -2" by code_simp
  ultimately have "\<not> (1 = SYSTEM_DRIVER_HANDLE_INVALID \<and> demo_dm = \<lparr>dm_current_handle = 0, dm_loaded_drivers = []\<rparr>) \<longrightarrow> ?thesis"
    using driver_load_outcome [OF _ _ demo_driver_load] by fastforce
  then show ?thesis by (simp add: SYSTEM_DRIVER_HANDLE_INVALID_def)
qed

end
