(* ===== verification/Input.thy ===== *)
theory Input
  imports Prelude Ring_Buffer
begin

text \<open>
  Keyboard and mouse: \<open>src/kernel/src/drivers/ps2/mouse.cpp\<close>, \<open>src/kernel/src/drivers/ps2/keyboard.cpp\<close>,
  \<open>src/kernel/src/drivers/generic_keyboard.cpp\<close> and the event lists of \<open>src/kernel/include/utils/event.hpp\<close>.

  The static variables of a driver are a record. A byte read from the data port is an argument of the
  interrupt handler. An access outside an array is \<open>None\<close>. Queues are those of the theory
  Ring_Buffer; a full queue drops what is inserted. The initialisation of the devices is a
  sequence of port accesses and not modelled.
\<close>

section \<open>The mouse\<close>

record ps2_mouse_state =
  ms_dx :: int
  ms_dy :: int
  ms_ds :: int
  ms_left :: bool
  ms_middle :: bool
  ms_right :: bool

record mouse =
  g_mouse_state :: ps2_mouse_state
  g_mouse_packet_buffer :: "u8 list"
  g_mouse_packet_index :: nat
  global_mouse_state_buffer :: "ps2_mouse_state ring_buffer"

definition PS2_MOUSE_PACKET_SIZE :: nat where "PS2_MOUSE_PACKET_SIZE = 4"
definition PS2_MOUSE_STATUS_VALID_PKT :: u8 where "PS2_MOUSE_STATUS_VALID_PKT = 0x08"

text \<open>The first later byte that may start a packet is moved to the front, with what follows it.\<close>

fun sync_loop :: "nat list \<Rightarrow> mouse \<Rightarrow> mouse option" where
  "sync_loop [] m = Some (m\<lparr>g_mouse_packet_index := 0\<rparr>)"
| "sync_loop (i # js) m = do {
     x \<leftarrow> rd8 (g_mouse_packet_buffer m) i;
     if x AND PS2_MOUSE_STATUS_VALID_PKT \<noteq> 0 then do {
       rest \<leftarrow> rd_bytes (g_mouse_packet_buffer m) i (PS2_MOUSE_PACKET_SIZE - i);
       b \<leftarrow> wr_bytes (g_mouse_packet_buffer m) 0 rest;
       Some (m\<lparr>g_mouse_packet_buffer := b, g_mouse_packet_index := PS2_MOUSE_PACKET_SIZE - i\<rparr>) }
     else sync_loop js m }"

definition ps2_mouse_sync_packets :: "mouse \<Rightarrow> mouse option" where
  "ps2_mouse_sync_packets m = sync_loop [1..<PS2_MOUSE_PACKET_SIZE] m"

definition ps2_mouse_handle_interrupt :: "u8 \<Rightarrow> mouse \<Rightarrow> mouse option" where
  "ps2_mouse_handle_interrupt byte m = do {
     b \<leftarrow> wr8 (g_mouse_packet_buffer m) (g_mouse_packet_index m) byte;
     let m = m\<lparr>g_mouse_packet_buffer := b, g_mouse_packet_index := g_mouse_packet_index m + 1\<rparr>;
     if g_mouse_packet_index m < PS2_MOUSE_PACKET_SIZE then Some m
     else do {
       status \<leftarrow> rd8 b 0; dx_raw \<leftarrow> rd8 b 1; dy_raw \<leftarrow> rd8 b 2; dz_raw \<leftarrow> rd8 b 3;
       let valid = (status AND PS2_MOUSE_STATUS_VALID_PKT \<noteq> 0 \<and>
         \<not> (status AND 0xC0 \<noteq> 0 \<and> status AND 0x07 \<noteq> 0));
       if \<not> valid then ps2_mouse_sync_packets m
       else let s = \<lparr>ms_dx = (if status AND 0x10 \<noteq> 0 then uint dx_raw - 256 else uint dx_raw),
                     ms_dy = - (if status AND 0x20 \<noteq> 0 then uint dy_raw - 256 else uint dy_raw),
                     ms_ds = sint dz_raw,
                     ms_left = (status AND 0x01 \<noteq> 0), ms_middle = (status AND 0x04 \<noteq> 0), ms_right = (status AND 0x02 \<noteq> 0)\<rparr>
            in Some (m\<lparr>g_mouse_state := s, g_mouse_packet_index := 0,
                 global_mouse_state_buffer := snd (rb_insert s (global_mouse_state_buffer m))\<rparr>) } }"

text \<open>\<open>fire_event\<close>: the subscribed handlers in order, on the state they share.\<close>

definition fire_event :: "('a \<Rightarrow> 's \<Rightarrow> 's) list \<Rightarrow> 'a \<Rightarrow> 's \<Rightarrow> 's" where
  "fire_event handlers arg s = fold (\<lambda>h. h arg) handlers s"

definition subscribe :: "('a \<Rightarrow> 's \<Rightarrow> 's) \<Rightarrow> ('a \<Rightarrow> 's \<Rightarrow> 's) list \<Rightarrow> ('a \<Rightarrow> 's \<Rightarrow> 's) list" where
  "subscribe h handlers = handlers @ [h]"

definition ps2_mouse_process_packet ::
  "(ps2_mouse_state \<Rightarrow> 's \<Rightarrow> 's) list \<Rightarrow> mouse \<Rightarrow> 's \<Rightarrow> bool \<times> mouse \<times> 's" where
  "ps2_mouse_process_packet handlers m s =
     (case rb_get (global_mouse_state_buffer m) of
        (Some packet, q) \<Rightarrow> (True, m\<lparr>global_mouse_state_buffer := q\<rparr>, fire_event handlers packet s)
      | (None, q) \<Rightarrow> (False, m, s))"

section \<open>The keyboard\<close>

record ps2_key_state =
  ks_full_code :: u32
  ks_scan_code :: u32
  ks_is_released :: bool
  ks_is_pressed :: bool
  ks_is_escaped :: bool
  ks_is_shift :: bool
  ks_is_capslock :: bool

record keyboard =
  g_last_scan_code :: u32
  g_key_state_array :: "ps2_key_state list"
  global_keyboard_state_buffer :: "ps2_key_state ring_buffer"

definition PS2_KEYBOARD_KEY_STATE_ARRAY_SIZE :: nat where "PS2_KEYBOARD_KEY_STATE_ARRAY_SIZE = 128"
definition PS2_KEYBOARD_SC_CAPS_LOCK :: u32 where "PS2_KEYBOARD_SC_CAPS_LOCK = 0x3A"
definition PS2_KEYBOARD_SC_LSHIFT :: u32 where "PS2_KEYBOARD_SC_LSHIFT = 0x2A"
definition PS2_KEYBOARD_SC_RSHIFT :: u32 where "PS2_KEYBOARD_SC_RSHIFT = 0x36"
definition PS2_KEYBOARD_FULL_CODE_ESCAPED :: u8 where "PS2_KEYBOARD_FULL_CODE_ESCAPED = 0xE0"

text \<open>\<open>first\<close> is the byte that the interrupt reads, \<open>second\<close> the one it reads when that is the escape.\<close>

definition ps2_keyboard_handle_interrupt :: "u8 \<Rightarrow> u8 \<Rightarrow> keyboard \<Rightarrow> keyboard option" where
  "ps2_keyboard_handle_interrupt first second k =
     (let is_escaped = (first = PS2_KEYBOARD_FULL_CODE_ESCAPED);
          full_code = (ucast (if is_escaped then second else first) :: u32);
          scan_code = full_code AND 0x7F;
          st = \<lparr>ks_full_code = full_code, ks_scan_code = scan_code,
                ks_is_released = (full_code AND 0x80 \<noteq> 0), ks_is_pressed = (full_code AND 0x80 = 0),
                ks_is_escaped = is_escaped,
                ks_is_shift = (scan_code = PS2_KEYBOARD_SC_LSHIFT \<or> scan_code = PS2_KEYBOARD_SC_RSHIFT),
                ks_is_capslock = (scan_code = PS2_KEYBOARD_SC_CAPS_LOCK)\<rparr>
      in if unat scan_code \<ge> PS2_KEYBOARD_KEY_STATE_ARRAY_SIZE then Some k
         else if unat scan_code \<ge> length (g_key_state_array k) then None
         else let old = g_key_state_array k ! unat scan_code;
                  st = (if \<not> ks_is_escaped st \<and> ks_is_escaped old then st\<lparr>ks_is_escaped := True\<rparr> else st)
              in Some (k\<lparr>g_key_state_array := (g_key_state_array k)[unat scan_code := st],
                         g_last_scan_code := scan_code,
                         global_keyboard_state_buffer := snd (rb_insert st (global_keyboard_state_buffer k))\<rparr>))"

definition ps2_keyboard_clear_last_scancode :: "keyboard \<Rightarrow> keyboard" where
  "ps2_keyboard_clear_last_scancode k = k\<lparr>g_last_scan_code := -1\<rparr>"

definition ps2_keyboard_get_key_state :: "u32 \<Rightarrow> keyboard \<Rightarrow> ps2_key_state option" where
  "ps2_keyboard_get_key_state scan_code k =
     (if unat scan_code \<ge> PS2_KEYBOARD_KEY_STATE_ARRAY_SIZE then None else Some (g_key_state_array k ! unat scan_code))"

definition ps2_keyboard_is_scan_code_extended :: "u32 \<Rightarrow> keyboard \<Rightarrow> bool" where
  "ps2_keyboard_is_scan_code_extended scan_code k =
     (case ps2_keyboard_get_key_state scan_code k of Some st \<Rightarrow> ks_is_escaped st | None \<Rightarrow> False)"

definition ps2_keyboard_process_packet ::
  "(ps2_key_state \<Rightarrow> 's \<Rightarrow> 's) list \<Rightarrow> keyboard \<Rightarrow> 's \<Rightarrow> bool \<times> keyboard \<times> 's" where
  "ps2_keyboard_process_packet handlers k s =
     (case rb_get (global_keyboard_state_buffer k) of
        (Some packet, q) \<Rightarrow> (True, k\<lparr>global_keyboard_state_buffer := q\<rparr>, fire_event handlers packet s)
      | (None, q) \<Rightarrow> (False, k, s))"

definition holding_shift :: "keyboard \<Rightarrow> bool option" where
  "holding_shift k = do {
     l \<leftarrow> ps2_keyboard_get_key_state PS2_KEYBOARD_SC_LSHIFT k;
     r \<leftarrow> ps2_keyboard_get_key_state PS2_KEYBOARD_SC_RSHIFT k;
     Some (ks_is_pressed l \<or> ks_is_pressed r) }"

definition holding_caps :: "keyboard \<Rightarrow> bool option" where
  "holding_caps k = map_option ks_is_pressed (ps2_keyboard_get_key_state PS2_KEYBOARD_SC_CAPS_LOCK k)"

section \<open>Virtual keys\<close>

text \<open>An enumerator of \<open>virtual_key_t\<close> is its name without the prefix; the tables are the \<open>case\<close> lists.\<close>

type_synonym virtual_key = string

definition escaped_keys :: "(u32 \<times> virtual_key) list" where
  "escaped_keys = [
    (0x48, ''UP''), (0x50, ''DOWN''), (0x4B, ''LEFT''), (0x4D, ''RIGHT''), (0x47, ''HOME''), (0x4F, ''END''),
    (0x49, ''PAGE_UP''), (0x51, ''PAGE_DOWN''), (0x52, ''INSERT''), (0x53, ''DELETE''), (0x1D, ''CTRL''),
    (0x38, ''ALT''), (0x35, ''NUMPAD_DIVIDE''), (0x1C, ''NUMPAD_ENTER'')]"

definition plain_keys :: "(u32 \<times> virtual_key) list" where
  "plain_keys = [
    (0x1E, ''A''), (0x30, ''B''), (0x2E, ''C''), (0x20, ''D''), (0x12, ''E''), (0x21, ''F''), (0x22, ''G''),
    (0x23, ''H''), (0x17, ''I''), (0x24, ''J''), (0x25, ''K''), (0x26, ''L''), (0x32, ''M''), (0x31, ''N''),
    (0x18, ''O''), (0x19, ''P''), (0x10, ''Q''), (0x13, ''R''), (0x1F, ''S''), (0x14, ''T''), (0x16, ''U''),
    (0x2F, ''V''), (0x11, ''W''), (0x2D, ''X''), (0x15, ''Y''), (0x2C, ''Z''), (0x0B, ''0''), (0x02, ''1''),
    (0x03, ''2''), (0x04, ''3''), (0x05, ''4''), (0x06, ''5''), (0x07, ''6''), (0x08, ''7''), (0x09, ''8''),
    (0x0A, ''9''), (0x39, ''SPACE''), (0x1C, ''ENTER''), (0x0F, ''TAB''), (0x0E, ''BACKSPACE''),
    (0x01, ''ESCAPE''), (0x2A, ''SHIFT''), (0x36, ''SHIFT''), (0x1D, ''CTRL''), (0x38, ''ALT''),
    (0x3A, ''CAPSLOCK''), (0x0C, ''MINUS''), (0x0D, ''EQUALS''), (0x1A, ''LEFT_BRACKET''),
    (0x1B, ''RIGHT_BRACKET''), (0x2B, ''BACKSLASH''), (0x27, ''SEMICOLON''), (0x28, ''APOSTROPHE''),
    (0x29, ''GRAVE''), (0x33, ''COMMA''), (0x34, ''PERIOD''), (0x35, ''SLASH''), (0x3B, ''F1''),
    (0x3C, ''F2''), (0x3D, ''F3''), (0x3E, ''F4''), (0x3F, ''F5''), (0x40, ''F6''), (0x41, ''F7''),
    (0x42, ''F8''), (0x43, ''F9''), (0x44, ''F10''), (0x57, ''F11''), (0x58, ''F12''), (0x52, ''NUMPAD0''),
    (0x4F, ''NUMPAD1''), (0x50, ''NUMPAD2''), (0x51, ''NUMPAD3''), (0x4B, ''NUMPAD4''), (0x4C, ''NUMPAD5''),
    (0x4D, ''NUMPAD6''), (0x47, ''NUMPAD7''), (0x48, ''NUMPAD8''), (0x49, ''NUMPAD9''),
    (0x4A, ''NUMPAD_MINUS''), (0x4E, ''NUMPAD_PLUS''), (0x37, ''NUMPAD_MULTIPLY''), (0x53, ''NUMPAD_PERIOD'')]"

definition scan_to_virtual :: "u32 \<Rightarrow> bool \<Rightarrow> virtual_key" where
  "scan_to_virtual scan_code escaped =
     (case map_of (if escaped then escaped_keys else plain_keys) scan_code of Some vk \<Rightarrow> vk | None \<Rightarrow> ''NONE'')"

text \<open>Keys with an upper and a lower case character, keys with a character for shift, and the others.\<close>

definition case_keys :: "(virtual_key \<times> u8 \<times> u8) list" where
  "case_keys = [
    (''A'', 0x41, 0x61), (''B'', 0x42, 0x62), (''C'', 0x43, 0x63), (''D'', 0x44, 0x64), (''E'', 0x45, 0x65),
    (''F'', 0x46, 0x66), (''G'', 0x47, 0x67), (''H'', 0x48, 0x68), (''I'', 0x49, 0x69), (''J'', 0x4A, 0x6A),
    (''K'', 0x4B, 0x6B), (''L'', 0x4C, 0x6C), (''M'', 0x4D, 0x6D), (''N'', 0x4E, 0x6E), (''O'', 0x4F, 0x6F),
    (''P'', 0x50, 0x70), (''Q'', 0x51, 0x71), (''R'', 0x52, 0x72), (''S'', 0x53, 0x73), (''T'', 0x54, 0x74),
    (''U'', 0x55, 0x75), (''V'', 0x56, 0x76), (''W'', 0x57, 0x77), (''X'', 0x58, 0x78), (''Y'', 0x59, 0x79),
    (''Z'', 0x5A, 0x7A)]"

definition shift_keys :: "(virtual_key \<times> u8 \<times> u8) list" where
  "shift_keys = [
    (''1'', 0x21, 0x31), (''2'', 0x40, 0x32), (''3'', 0x23, 0x33), (''4'', 0x24, 0x34), (''5'', 0x25, 0x35),
    (''6'', 0x5E, 0x36), (''7'', 0x26, 0x37), (''8'', 0x2A, 0x38), (''9'', 0x28, 0x39), (''0'', 0x29, 0x30),
    (''MINUS'', 0x5F, 0x2D), (''EQUALS'', 0x2B, 0x3D), (''LEFT_BRACKET'', 0x7B, 0x5B),
    (''RIGHT_BRACKET'', 0x7D, 0x5D), (''BACKSLASH'', 0x7C, 0x5C), (''SEMICOLON'', 0x3A, 0x3B),
    (''APOSTROPHE'', 0x22, 0x27), (''GRAVE'', 0x7E, 0x60), (''COMMA'', 0x3C, 0x2C), (''PERIOD'', 0x3E, 0x2E),
    (''SLASH'', 0x3F, 0x2F)]"

definition other_keys :: "(virtual_key \<times> u8) list" where
  "other_keys = [
    (''SPACE'', 0x20), (''ENTER'', 0x0A), (''TAB'', 0x09), (''BACKSPACE'', 0x08), (''ESCAPE'', 0x1B),
    (''NUMPAD0'', 0x30), (''NUMPAD1'', 0x31), (''NUMPAD2'', 0x32), (''NUMPAD3'', 0x33), (''NUMPAD4'', 0x34),
    (''NUMPAD5'', 0x35), (''NUMPAD6'', 0x36), (''NUMPAD7'', 0x37), (''NUMPAD8'', 0x38), (''NUMPAD9'', 0x39),
    (''NUMPAD_PLUS'', 0x2B), (''NUMPAD_MINUS'', 0x2D), (''NUMPAD_MULTIPLY'', 0x2A),
    (''NUMPAD_DIVIDE'', 0x2F), (''NUMPAD_PERIOD'', 0x2E), (''NUMPAD_ENTER'', 0x0A)]"

definition vk_to_ascii :: "virtual_key \<Rightarrow> bool \<Rightarrow> bool \<Rightarrow> u8" where
  "vk_to_ascii vk shift caps =
     (let upper = shift \<noteq> caps in
      case map_of case_keys vk of Some (u, l) \<Rightarrow> if upper then u else l
      | None \<Rightarrow> (case map_of shift_keys vk of Some (s, p) \<Rightarrow> if shift then s else p
        | None \<Rightarrow> (case map_of other_keys vk of Some c \<Rightarrow> c | None \<Rightarrow> 0)))"

definition ps2_keyboard_event_handler :: "(virtual_key \<Rightarrow> 's \<Rightarrow> 's) list \<Rightarrow> ps2_key_state \<Rightarrow> 's \<Rightarrow> 's" where
  "ps2_keyboard_event_handler handlers st s =
     (if \<not> ks_is_pressed st then s
      else fire_event handlers (scan_to_virtual (ks_scan_code st) (ks_is_escaped st)) s)"

section \<open>The packet stream of the mouse\<close>

definition mouse_ok :: "mouse \<Rightarrow> bool" where
  "mouse_ok m \<longleftrightarrow> length (g_mouse_packet_buffer m) = 4 \<and> g_mouse_packet_index m < 4 \<and>
     rb_inv (global_mouse_state_buffer m)"

fun mouse_bytes :: "u8 list \<Rightarrow> mouse \<Rightarrow> mouse option" where
  "mouse_bytes [] m = Some m"
| "mouse_bytes (x # xs) m = do { m \<leftarrow> ps2_mouse_handle_interrupt x m; mouse_bytes xs m }"

text \<open>A movement as the device reports it: nine-bit two's complement numbers with their signs in the
  status byte; the device's \<open>y\<close> axis points up.\<close>

definition packet_of :: "ps2_mouse_state \<Rightarrow> u8 list" where
  "packet_of s = [8 OR (if ms_left s then 1 else 0) OR (if ms_right s then 2 else 0) OR (if ms_middle s then 4 else 0)
      OR (if ms_dx s < 0 then 0x10 else 0) OR (if - ms_dy s < 0 then 0x20 else 0),
     word_of_int (ms_dx s), word_of_int (- ms_dy s), word_of_int (ms_ds s)]"

definition in_range :: "ps2_mouse_state \<Rightarrow> bool" where
  "in_range s \<longleftrightarrow> -256 \<le> ms_dx s \<and> ms_dx s < 256 \<and> -256 \<le> - ms_dy s \<and> - ms_dy s < 256 \<and> -128 \<le> ms_ds s \<and> ms_ds s < 128"

lemma sync_loop_ok:
  assumes "length (g_mouse_packet_buffer m) = 4" "rb_inv (global_mouse_state_buffer m)" "\<forall>i \<in> set js. 0 < i \<and> i < 4"
  shows "\<exists>m'. sync_loop js m = Some m' \<and> mouse_ok m'"
  using assms(3)
proof (induction js)
  case Nil
  then show ?case using assms by (simp add: mouse_ok_def)
next
  case (Cons i js)
  let ?b = "g_mouse_packet_buffer m"
  have i: "0 < i" "i < 4" using Cons.prems by auto
  have r: "rd8 ?b i = Some (?b ! i)" "rd_bytes ?b i (4 - i) = Some (take (4 - i) (drop i ?b))"
    using i assms(1) by (simp_all add: rd8_def rd_bytes_def)
  obtain b' where w: "wr_bytes ?b 0 (take (4 - i) (drop i ?b)) = Some b'" "length b' = 4"
    using assms(1) i wr_bytes_length by (simp add: wr_bytes_def)
  show ?case
    using Cons r w i assms by (auto simp: PS2_MOUSE_PACKET_SIZE_def mouse_ok_def)
qed

lemma mouse_interrupt_ok:
  assumes "mouse_ok m"
  shows "\<exists>m'. ps2_mouse_handle_interrupt x m = Some m' \<and> mouse_ok m'"
proof -
  let ?b = "(g_mouse_packet_buffer m)[g_mouse_packet_index m := x]"
  let ?m = "m\<lparr>g_mouse_packet_buffer := ?b, g_mouse_packet_index := g_mouse_packet_index m + 1\<rparr>"
  have w: "wr8 (g_mouse_packet_buffer m) (g_mouse_packet_index m) x = Some ?b" "length ?b = 4"
    using assms by (simp_all add: mouse_ok_def wr8_def)
  obtain m' where "ps2_mouse_sync_packets ?m = Some m'" "mouse_ok m'"
    using sync_loop_ok [of ?m "[1..<4]"] assms w(2) by (auto simp: ps2_mouse_sync_packets_def mouse_ok_def PS2_MOUSE_PACKET_SIZE_def)
  moreover have "rb_inv (snd (rb_insert y (global_mouse_state_buffer m)))" for y
    using assms by (intro rb.ins_inv) (simp add: mouse_ok_def)
  ultimately show ?thesis
    using w assms by (auto simp: ps2_mouse_handle_interrupt_def PS2_MOUSE_PACKET_SIZE_def rd8_def mouse_ok_def Let_def)
qed

lemma mouse_bytes_ok: "mouse_ok m \<Longrightarrow> \<exists>m'. mouse_bytes xs m = Some m' \<and> mouse_ok m'"
proof (induction xs arbitrary: m)
  case (Cons x xs)
  then show ?case using mouse_interrupt_ok [OF Cons.prems, of x] by auto
qed simp

text \<open>The byte arithmetic of the decoder.\<close>

lemma signed_byte:
  assumes "-256 \<le> d" "d < 256"
  shows "(if d < 0 then uint (word_of_int d :: u8) - 256 else uint (word_of_int d :: u8)) = d"
proof -
  have "d mod 256 = (if d < 0 then d + 256 else d)"
  proof (cases "d < 0")
    case True
    have "d mod 256 = (d + 256) mod 256" by simp
    also have "\<dots> = d + 256" using assms True by (intro mod_pos_pos_trivial) auto
    finally show ?thesis using True by simp
  qed (use assms in simp)
  then show ?thesis by (simp add: uint_word_of_int)
qed

lemma status_bits:
  fixes a b c d e :: bool
  defines "st \<equiv> 8 OR (if a then 1 else 0) OR (if b then 2 else 0) OR (if c then 4 else 0) OR (if d then 0x10 else 0) OR (if e then 0x20 else (0 :: u8))"
  shows "st AND 8 \<noteq> 0" "st AND 0xC0 = 0" "st AND 1 \<noteq> 0 \<longleftrightarrow> a" "st AND 2 \<noteq> 0 \<longleftrightarrow> b" "st AND 4 \<noteq> 0 \<longleftrightarrow> c"
    "st AND 0x10 \<noteq> 0 \<longleftrightarrow> d" "st AND 0x20 \<noteq> 0 \<longleftrightarrow> e"
  unfolding st_def by (cases a; cases b; cases c; cases d; cases e; simp)+

lemma mouse_packet:
  assumes "mouse_ok m" "g_mouse_packet_index m = 0" "in_range s"
  shows "\<exists>m'. mouse_bytes (packet_of s) m = Some m' \<and> g_mouse_packet_index m' = 0 \<and> mouse_ok m' \<and> g_mouse_state m' = s \<and>
    global_mouse_state_buffer m' = snd (rb_insert s (global_mouse_state_buffer m))"
proof -
  obtain b0 b1 b2 b3 where b: "g_mouse_packet_buffer m = [b0, b1, b2, b3]"
    using assms(1) by (auto simp: mouse_ok_def numeral_eq_Suc length_Suc_conv)
  obtain st dx dy dz where p: "packet_of s = [st, dx, dy, dz]" by (simp add: packet_of_def)
  note bits = status_bits [of "ms_left s" "ms_right s" "ms_middle s" "ms_dx s < 0" "- ms_dy s < 0"]
  have st: "st AND 8 \<noteq> 0" "st AND 0xC0 = 0" "st AND 1 \<noteq> 0 \<longleftrightarrow> ms_left s" "st AND 2 \<noteq> 0 \<longleftrightarrow> ms_right s"
    "st AND 4 \<noteq> 0 \<longleftrightarrow> ms_middle s" "st AND 0x10 \<noteq> 0 \<longleftrightarrow> ms_dx s < 0" "st AND 0x20 \<noteq> 0 \<longleftrightarrow> - ms_dy s < 0"
    using p bits unfolding packet_of_def by simp_all
  have b1: "dx = word_of_int (ms_dx s)" and b2: "dy = word_of_int (- ms_dy s)" using p by (simp_all add: packet_of_def)
  have dx: "(if ms_dx s < 0 then uint dx - 256 else uint dx) = ms_dx s"
    unfolding b1 using assms(3) by (intro signed_byte) (simp_all add: in_range_def)
  have dy: "(if - ms_dy s < 0 then uint dy - 256 else uint dy) = - ms_dy s"
    unfolding b2 using assms(3) by (intro signed_byte) (simp_all add: in_range_def)
  have "dz = word_of_int (ms_ds s)" using p by (simp add: packet_of_def)
  then have dz: "sint dz = ms_ds s"
    using assms(3) by (simp add: in_range_def sint_sbintrunc' signed_take_bit_int_eq_self)
  have step: "ps2_mouse_handle_interrupt x (m\<lparr>g_mouse_packet_buffer := b, g_mouse_packet_index := n\<rparr>) =
      Some (m\<lparr>g_mouse_packet_buffer := b[n := x], g_mouse_packet_index := n + 1\<rparr>)" if "n < 3" "length b = 4" for x b n
    using that by (simp add: ps2_mouse_handle_interrupt_def PS2_MOUSE_PACKET_SIZE_def wr8_def Let_def)
  have m: "m = m\<lparr>g_mouse_packet_buffer := [b0, b1, b2, b3], g_mouse_packet_index := 0\<rparr>" using b assms(2) by simp
  let ?s = "\<lparr>ms_dx = (if ms_dx s < 0 then uint dx - 256 else uint dx),
      ms_dy = - (if - ms_dy s < 0 then uint dy - 256 else uint dy), ms_ds = sint dz,
      ms_left = ms_left s, ms_middle = ms_middle s, ms_right = ms_right s\<rparr>"
  have "?s = s" by (simp only: dx dy dz) simp
  moreover have "ps2_mouse_handle_interrupt dz (m\<lparr>g_mouse_packet_buffer := [st, dx, dy, b3], g_mouse_packet_index := 3\<rparr>) =
      Some (m\<lparr>g_mouse_state := ?s, g_mouse_packet_buffer := [st, dx, dy, dz], g_mouse_packet_index := 0,
          global_mouse_state_buffer := snd (rb_insert ?s (global_mouse_state_buffer m))\<rparr>)"
    using st by (simp add: ps2_mouse_handle_interrupt_def PS2_MOUSE_PACKET_SIZE_def PS2_MOUSE_STATUS_VALID_PKT_def
        wr8_def rd8_def Let_def cong: if_cong)
  ultimately have "mouse_bytes (packet_of s) m = Some (m\<lparr>g_mouse_state := s, g_mouse_packet_buffer := [st, dx, dy, dz],
      g_mouse_packet_index := 0, global_mouse_state_buffer := snd (rb_insert s (global_mouse_state_buffer m))\<rparr>)"
    by (subst m) (simp add: p step numeral_2_eq_2 numeral_3_eq_3)
  moreover have "rb_inv (snd (rb_insert s (global_mouse_state_buffer m)))"
    using assms(1) by (intro rb.ins_inv) (simp add: mouse_ok_def)
  ultimately show ?thesis by (simp add: mouse_ok_def)
qed

lemma mouse_bytes_append: "mouse_bytes (xs @ ys) m = do { m \<leftarrow> mouse_bytes xs m; mouse_bytes ys m }"
  by (induction xs arbitrary: m) (simp_all split: Option.bind_split)

text \<open>
  C32. The mouse driver: whatever bytes arrive, the handler stays inside the packet buffer. When it is
  at the start of a packet, the bytes of any sequence of movements (nine-bit distances, a scroll
  distance and the buttons) leave it at the start of a packet, with the last movement as its
  state and exactly these movements, in order, behind those that wait in the queue, as far as
  the queue has room for them.
\<close>

theorem mouse_stream_decoded:
  assumes "mouse_ok m"
  shows "(\<exists>m'. mouse_bytes bytes m = Some m' \<and> mouse_ok m') \<and>
    (g_mouse_packet_index m = 0 \<and> (\<forall>s \<in> set moves. in_range s) \<longrightarrow>
      (\<exists>m'. mouse_bytes (concat (map packet_of moves)) m = Some m' \<and> g_mouse_packet_index m' = 0 \<and>
        (moves \<noteq> [] \<longrightarrow> g_mouse_state m' = last moves) \<and>
        rb_list (global_mouse_state_buffer m') = rb_list (global_mouse_state_buffer m) @
          take (rb_capacity (global_mouse_state_buffer m) - length (rb_list (global_mouse_state_buffer m))) moves))"
proof (intro conjI impI)
  show "\<exists>m'. mouse_bytes bytes m = Some m' \<and> mouse_ok m'" by (rule mouse_bytes_ok [OF assms])
  assume "g_mouse_packet_index m = 0 \<and> (\<forall>s \<in> set moves. in_range s)"
  then show "\<exists>m'. mouse_bytes (concat (map packet_of moves)) m = Some m' \<and> g_mouse_packet_index m' = 0 \<and>
        (moves \<noteq> [] \<longrightarrow> g_mouse_state m' = last moves) \<and>
        rb_list (global_mouse_state_buffer m') = rb_list (global_mouse_state_buffer m) @
          take (rb_capacity (global_mouse_state_buffer m) - length (rb_list (global_mouse_state_buffer m))) moves"
    using assms
  proof (induction moves arbitrary: m)
    case (Cons s moves)
    let ?q = "global_mouse_state_buffer m"
    obtain m1 where m1: "mouse_bytes (packet_of s) m = Some m1" "g_mouse_packet_index m1 = 0" "mouse_ok m1"
      "g_mouse_state m1 = s" "global_mouse_state_buffer m1 = snd (rb_insert s ?q)"
      using mouse_packet [of m s] Cons.prems by auto
    have inv: "rb_inv ?q" using Cons.prems(2) by (simp add: mouse_ok_def)
    have q: "rb_capacity (global_mouse_state_buffer m1) = rb_capacity ?q"
      "rb_list (global_mouse_state_buffer m1) = snd (list_ins (rb_capacity ?q) s (rb_list ?q))"
      unfolding m1(5) using rb.ins_cap [OF inv] rb.ins_contents [OF inv, of s] by (metis, metis snd_conv)
    obtain m' where m': "mouse_bytes (concat (map packet_of moves)) m1 = Some m'" "g_mouse_packet_index m' = 0"
      "moves \<noteq> [] \<longrightarrow> g_mouse_state m' = last moves"
      "rb_list (global_mouse_state_buffer m') = rb_list (global_mouse_state_buffer m1) @
          take (rb_capacity (global_mouse_state_buffer m1) - length (rb_list (global_mouse_state_buffer m1))) moves"
      using Cons.IH [of m1] m1(2,3) Cons.prems(1) by auto
    have "rb_list (global_mouse_state_buffer m') = rb_list ?q @ take (rb_capacity ?q - length (rb_list ?q)) (s # moves)"
      unfolding m'(4) q using rb.contents_cap [OF inv]
      by (cases "length (rb_list ?q) < rb_capacity ?q")
        (simp_all add: list_ins_def take_Cons' Suc_diff_Suc)
    moreover have "g_mouse_state m' = s" if "moves = []" using m'(1) that m1(4) by simp
    ultimately show ?case using m1(1) m'(1-3) by (simp add: mouse_bytes_append)
  qed simp
qed

definition demo_mouse :: mouse where
  "demo_mouse = \<lparr>g_mouse_state = \<lparr>ms_dx = 0, ms_dy = 0, ms_ds = 0, ms_left = False, ms_middle = False, ms_right = False\<rparr>,
     g_mouse_packet_buffer = [0, 0, 0, 0], g_mouse_packet_index = 0,
     global_mouse_state_buffer = rb_new (replicate 8 \<lparr>ms_dx = 0, ms_dy = 0, ms_ds = 0, ms_left = False, ms_middle = False, ms_right = False\<rparr>)\<rparr>"

definition demo_moves :: "ps2_mouse_state list" where
  "demo_moves = [\<lparr>ms_dx = -3, ms_dy = 200, ms_ds = 0, ms_left = True, ms_middle = False, ms_right = False\<rparr>,
     \<lparr>ms_dx = 255, ms_dy = -256 + 1, ms_ds = -1, ms_left = False, ms_middle = False, ms_right = True\<rparr>]"

theorem mouse_stream_decoded_witness:
  "\<exists>m'. mouse_bytes (concat (map packet_of demo_moves)) demo_mouse = Some m' \<and> g_mouse_state m' = last demo_moves \<and>
     rb_list (global_mouse_state_buffer m') = demo_moves"
proof -
  have "mouse_ok demo_mouse" by (simp add: mouse_ok_def demo_mouse_def rb_inv_def rb_new_def buffer_size_def)
  from mouse_stream_decoded [OF this, of "[]" demo_moves] show ?thesis
    by (auto simp: demo_mouse_def demo_moves_def in_range_def rb_new_def rb_list_def rb_size_def rb_capacity_def buffer_size_def)
qed

section \<open>Keys\<close>

definition keyboard_ok :: "keyboard \<Rightarrow> bool" where
  "keyboard_ok k \<longleftrightarrow> length (g_key_state_array k) = PS2_KEYBOARD_KEY_STATE_ARRAY_SIZE \<and> rb_inv (global_keyboard_state_buffer k)"

lemma scan_code_lt: "unat ((c :: u32) AND 0x7F) < 128"
proof -
  have "c AND 0x7F = take_bit 7 c" by (simp add: take_bit_eq_mask mask_eq_exp_minus_1)
  then have "unat (c AND 0x7F) = take_bit 7 (unat c)" by (simp only: unsigned_take_bit_eq)
  then have "unat (c AND 0x7F) = unat c mod 128" by (simp add: take_bit_eq_mod)
  then show ?thesis by simp
qed

lemma keyboard_interrupt_ok:
  assumes "keyboard_ok k"
  shows "\<exists>k'. ps2_keyboard_handle_interrupt first second k = Some k' \<and> keyboard_ok k'"
proof -
  have "rb_inv (snd (rb_insert y (global_keyboard_state_buffer k)))" for y
    using assms by (intro rb.ins_inv) (simp add: keyboard_ok_def)
  then show ?thesis using assms scan_code_lt [of "ucast (if first = PS2_KEYBOARD_FULL_CODE_ESCAPED then second else first)"]
    by (simp add: ps2_keyboard_handle_interrupt_def keyboard_ok_def PS2_KEYBOARD_KEY_STATE_ARRAY_SIZE_def Let_def not_le)
qed

text \<open>Once a key of the extended block has been seen, the plain key with the same scan code stays an
  extended one: after the up arrow, the 8 of the number pad is an up arrow as well.\<close>

lemma escape_sticks:
  assumes "keyboard_ok k" "ps2_keyboard_handle_interrupt 0xE0 c k = Some k1" "c \<noteq> 0xE0"
    "ps2_keyboard_handle_interrupt c x k1 = Some k2"
  shows "ks_is_escaped (g_key_state_array k2 ! unat ((ucast c :: u32) AND 0x7F))"
  using assms scan_code_lt [of "ucast c"]
  by (auto simp: ps2_keyboard_handle_interrupt_def keyboard_ok_def PS2_KEYBOARD_KEY_STATE_ARRAY_SIZE_def
      PS2_KEYBOARD_FULL_CODE_ESCAPED_def Let_def split: if_splits)

end
