(* ===== verification/Framebuffer.thy ===== *)
theory Framebuffer
  imports Multiboot
begin

text \<open>
  Drawing: \<open>src/kernel/src/drivers/graphics/framebuffer.cpp\<close>, the graphics mode of
  \<open>src/kernel/src/drivers/vga.cpp\<close> and the dispatch of \<open>src/kernel/src/drivers/graphics/graphics_driver.cpp\<close>.

  A buffer is the list of its pixels; pixels are addressed with the 64-bit arithmetic of the code, and an
  access outside the buffer is \<open>None\<close>. The pointers to the structures are not null, and the size of a
  framebuffer is a multiple of the four bytes of a pixel. Copying a buffer to the
  screen copies to the list that stands for the memory of the screen. The programming of the VGA ports is
  not modelled.
\<close>

section \<open>The framebuffer\<close>

datatype framebuffer_color_format = FB_UNKNOWN | ARGB8888 | RGBA8888 | BGRA8888 | ABGR8888 | RGB888

record framebuffer =
  fb_address :: "u32 list"
  fb_back_buffer :: "u32 list option"
  fb_size :: u64
  fb_width :: u64
  fb_height :: u64
  fb_pitch :: u64
  fb_caluclated_pitch :: u64
  fb_format :: framebuffer_color_format

record color =
  c_r :: u8
  c_g :: u8
  c_b :: u8
  c_a :: u8

definition rgb :: "u8 \<Rightarrow> u8 \<Rightarrow> u8 \<Rightarrow> color" where
  "rgb r g b = \<lparr>c_r = r, c_g = g, c_b = b, c_a = 255\<rparr>"

definition framebuffer_format_color :: "framebuffer \<Rightarrow> color \<Rightarrow> u32" where
  "framebuffer_format_color fb c =
     (let r = ucast (c_r c); g = ucast (c_g c); b = ucast (c_b c); a = ucast (c_a c)
      in case fb_format fb of
           ARGB8888 \<Rightarrow> push_bit 24 a OR push_bit 16 r OR push_bit 8 g OR b
         | RGBA8888 \<Rightarrow> push_bit 24 r OR push_bit 16 g OR push_bit 8 b OR a
         | BGRA8888 \<Rightarrow> push_bit 24 b OR push_bit 16 g OR push_bit 8 r OR a
         | ABGR8888 \<Rightarrow> push_bit 24 a OR push_bit 16 b OR push_bit 8 g OR r
         | _ \<Rightarrow> 0)"

text \<open>\<open>back\<close> is what \<open>malloc\<close> returns.\<close>

definition framebuffer_init :: "framebuffer_color_format \<Rightarrow> u32 list option \<Rightarrow> u64 \<Rightarrow> u64 \<Rightarrow> u64 \<Rightarrow> u64 \<Rightarrow>
    u32 list option \<Rightarrow> framebuffer \<Rightarrow> bool \<times> framebuffer" where
  "framebuffer_init format address sz width height pitch back fb =
     (case address of None \<Rightarrow> (False, fb)
      | Some adr \<Rightarrow> if sz = 0 then (False, fb)
          else (True, \<lparr>fb_address = adr, fb_back_buffer = back, fb_size = sz, fb_width = width, fb_height = height,
                  fb_pitch = pitch, fb_caluclated_pitch = pitch div 4, fb_format = format\<rparr>))"

text \<open>The pixel at \<open>x\<close> and \<open>y\<close> of a buffer with the given pitch; \<open>put_pixel\<close> writes it.\<close>

definition pixel_index :: "u64 \<Rightarrow> u64 \<Rightarrow> u64 \<Rightarrow> nat" where
  "pixel_index pitch x y = unat (y * pitch + x)"

definition put_pixel :: "u64 \<Rightarrow> u64 \<Rightarrow> u64 \<Rightarrow> 'a \<Rightarrow> 'a list \<Rightarrow> 'a list option" where
  "put_pixel pitch x y color b = wr8 b (pixel_index pitch x y) color"

definition with_back :: "framebuffer \<Rightarrow> (u32 list \<Rightarrow> u32 list option) \<Rightarrow> (bool \<times> framebuffer) option" where
  "with_back fb f = (case fb_back_buffer fb of None \<Rightarrow> Some (False, fb)
     | Some b \<Rightarrow> map_option (\<lambda>b. (True, fb\<lparr>fb_back_buffer := Some b\<rparr>)) (f b))"

definition framebuffer_write_pixel :: "u64 \<Rightarrow> u64 \<Rightarrow> u32 \<Rightarrow> framebuffer \<Rightarrow> (bool \<times> framebuffer) option" where
  "framebuffer_write_pixel x y color fb =
     (if x \<ge> fb_width fb \<or> y \<ge> fb_height fb then Some (False, fb)
      else with_back fb (put_pixel (fb_caluclated_pitch fb) x y color))"

definition framebuffer_write_pixel_raw :: "u64 \<Rightarrow> u64 \<Rightarrow> u32 \<Rightarrow> framebuffer \<Rightarrow> framebuffer option" where
  "framebuffer_write_pixel_raw x y color fb = do {
     b \<leftarrow> fb_back_buffer fb;
     b \<leftarrow> put_pixel (fb_caluclated_pitch fb) x y color b;
     Some (fb\<lparr>fb_back_buffer := Some b\<rparr>) }"

text \<open>The counters of the loops do not wrap: they stay below a bound that is a word.\<close>

definition hline :: "u64 \<Rightarrow> u64 \<Rightarrow> u64 \<Rightarrow> u64 \<Rightarrow> u64 \<Rightarrow> 'a \<Rightarrow> 'a list \<Rightarrow> 'a list option" where
  "hline pitch bound x y len color =
     each (\<lambda>i. put_pixel pitch (of_nat i) y color) [unat x..<min (unat (x + len)) (unat bound)]"

definition vline :: "u64 \<Rightarrow> u64 \<Rightarrow> u64 \<Rightarrow> u64 \<Rightarrow> u64 \<Rightarrow> 'a \<Rightarrow> 'a list \<Rightarrow> 'a list option" where
  "vline pitch bound x y len color =
     each (\<lambda>i. put_pixel pitch x (of_nat i) color) [unat y..<min (unat (y + len)) (unat bound)]"

definition fill :: "u64 \<Rightarrow> u64 \<Rightarrow> u64 \<Rightarrow> u64 \<Rightarrow> u64 \<Rightarrow> u64 \<Rightarrow> u64 \<Rightarrow> 'a \<Rightarrow> 'a list \<Rightarrow> 'a list option" where
  "fill pitch width height x y w h color =
     (let max_x = min (x + w) width; max_y = min (y + h) height
      in each (\<lambda>j. each (\<lambda>i. put_pixel pitch (of_nat i) (of_nat j) color) [unat x..<unat max_x]) [unat y..<unat max_y])"

definition framebuffer_write_lineh :: "u64 \<Rightarrow> u64 \<Rightarrow> u64 \<Rightarrow> u32 \<Rightarrow> framebuffer \<Rightarrow> (bool \<times> framebuffer) option" where
  "framebuffer_write_lineh x y len color fb =
     (if x \<ge> fb_width fb \<or> y \<ge> fb_height fb then Some (False, fb)
      else with_back fb (hline (fb_caluclated_pitch fb) (fb_width fb) x y len color))"

definition framebuffer_write_linev :: "u64 \<Rightarrow> u64 \<Rightarrow> u64 \<Rightarrow> u32 \<Rightarrow> framebuffer \<Rightarrow> (bool \<times> framebuffer) option" where
  "framebuffer_write_linev x y len color fb =
     (if x \<ge> fb_width fb \<or> y \<ge> fb_height fb then Some (False, fb)
      else with_back fb (vline (fb_caluclated_pitch fb) (fb_width fb) x y len color))"

definition framebuffer_write_square :: "u64 \<Rightarrow> u64 \<Rightarrow> u64 \<Rightarrow> u64 \<Rightarrow> u32 \<Rightarrow> framebuffer \<Rightarrow> (bool \<times> framebuffer) option" where
  "framebuffer_write_square x y w h color fb =
     (if x \<ge> fb_width fb \<or> y \<ge> fb_height fb then Some (False, fb)
      else with_back fb (fill (fb_caluclated_pitch fb) (fb_width fb) (fb_height fb) x y w h color))"

text \<open>\<open>alloc_ok\<close> is whether the temporary buffer can be allocated.\<close>

definition save_rows :: "u64 \<Rightarrow> u64 \<Rightarrow> u64 \<Rightarrow> u64 \<Rightarrow> u64 \<Rightarrow> 'a list \<Rightarrow> 'a list option" where
  "save_rows pitch x y w h b =
     each (\<lambda>row temp. do { r \<leftarrow> rd_slice b (pixel_index pitch x (y + of_nat row)) (unat w); Some (temp @ r) }) [0..<unat h] []"

definition clear_rows :: "u64 \<Rightarrow> u64 \<Rightarrow> u64 \<Rightarrow> u64 \<Rightarrow> u64 \<Rightarrow> 'a \<Rightarrow> 'a list \<Rightarrow> 'a list option" where
  "clear_rows pitch x y w h zero =
     each (\<lambda>row b. wr_bytes b (pixel_index pitch x (y + of_nat row)) (replicate (unat w) zero)) [0..<unat h]"

definition store_rows :: "u64 \<Rightarrow> u64 \<Rightarrow> u64 \<Rightarrow> u64 \<Rightarrow> u64 \<Rightarrow> 'a list \<Rightarrow> 'a list \<Rightarrow> 'a list option" where
  "store_rows pitch x y w h temp =
     each (\<lambda>row b. do {
         r \<leftarrow> rd_slice temp (unat (of_nat row * w)) (unat w);
         wr_bytes b (pixel_index pitch x (y + of_nat row)) r }) [0..<unat h]"

definition framebuffer_move_square :: "bool \<Rightarrow> u64 \<Rightarrow> u64 \<Rightarrow> u64 \<Rightarrow> u64 \<Rightarrow> u64 \<Rightarrow> u64 \<Rightarrow> framebuffer \<Rightarrow> (bool \<times> framebuffer) option" where
  "framebuffer_move_square alloc_ok x y w h nx ny fb =
     (if fb_back_buffer fb = None then Some (False, fb)
      else if x + w > fb_width fb \<or> y + h > fb_height fb \<or> nx + w > fb_width fb \<or> ny + h > fb_height fb then Some (False, fb)
      else if \<not> alloc_ok then Some (False, fb)
      else with_back fb (\<lambda>b. do {
             temp \<leftarrow> save_rows (fb_caluclated_pitch fb) x y w h b;
             b \<leftarrow> clear_rows (fb_caluclated_pitch fb) x y w h 0 b;
             store_rows (fb_caluclated_pitch fb) nx ny w h temp b }))"

text \<open>\<open>src\<close> is the other buffer in pixels; its offset is computed in bytes.\<close>

definition framebuffer_copy_remote_square ::
  "u32 list \<Rightarrow> u64 \<Rightarrow> u64 \<Rightarrow> u64 \<Rightarrow> u64 \<Rightarrow> u64 \<Rightarrow> u64 \<Rightarrow> framebuffer \<Rightarrow> (bool \<times> framebuffer) option" where
  "framebuffer_copy_remote_square src tx ty w h sx sy fb =
     with_back fb (each (\<lambda>row b. do {
       r \<leftarrow> rd_slice src (unat ((sy + of_nat row) * w * 4 + sx * 4) div 4) (unat (w * 4) div 4);
       wr_bytes b (pixel_index (fb_caluclated_pitch fb) tx (ty + of_nat row)) r }) [0..<unat h])"

definition framebuffer_swap_buffer :: "u32 list option \<Rightarrow> framebuffer \<Rightarrow> bool \<times> u32 list option \<times> framebuffer" where
  "framebuffer_swap_buffer new_buffer fb =
     (if new_buffer = None then (False, None, fb)
      else (True, fb_back_buffer fb, fb\<lparr>fb_back_buffer := new_buffer\<rparr>))"

definition framebuffer_copy_buffer :: "u32 list option \<Rightarrow> framebuffer \<Rightarrow> (bool \<times> framebuffer) option" where
  "framebuffer_copy_buffer buffer fb =
     (case buffer of None \<Rightarrow> Some (False, fb)
      | Some src \<Rightarrow> do {
          b \<leftarrow> fb_back_buffer fb;
          r \<leftarrow> rd_slice src 0 (unat (fb_size fb) div 4);
          b \<leftarrow> wr_bytes b 0 r;
          Some (True, fb\<lparr>fb_back_buffer := Some b\<rparr>) })"

text \<open>The assembly copies 64 bytes until its counter is zero; it counts before it tests.\<close>

definition framebuffer_render :: "framebuffer \<Rightarrow> (bool \<times> framebuffer) option" where
  "framebuffer_render fb =
     (let rounds = unat (drop_bit 6 (fb_size fb)) in
      if rounds = 0 then None
      else do {
        b \<leftarrow> fb_back_buffer fb;
        r \<leftarrow> rd_slice b 0 (16 * rounds);
        adr \<leftarrow> wr_bytes (fb_address fb) 0 r;
        Some (True, fb\<lparr>fb_address := adr\<rparr>) })"

section \<open>The VGA graphics mode\<close>

definition VGA_GM_BUFFER_WIDTH :: u64 where "VGA_GM_BUFFER_WIDTH = 320"
definition VGA_GM_BUFFER_HEIGHT :: u64 where "VGA_GM_BUFFER_HEIGHT = 200"

record vga_buffer =
  vb_buffer :: "u8 list option"
  vb_color :: u8
  vb_width :: u64
  vb_height :: u64
  vb_cursor_x :: u64
  vb_cursor_y :: u64

definition IS_VALID_BUFFER :: "vga_buffer \<Rightarrow> bool" where
  "IS_VALID_BUFFER vb \<longleftrightarrow> vb_buffer vb \<noteq> None \<and> vb_width vb = VGA_GM_BUFFER_WIDTH \<and> vb_height vb = VGA_GM_BUFFER_HEIGHT"

definition vga_gm_buffer_create :: "bool \<Rightarrow> vga_buffer \<Rightarrow> bool \<times> vga_buffer" where
  "vga_gm_buffer_create alloc_ok vb =
     (if \<not> alloc_ok then (False, vb\<lparr>vb_buffer := None\<rparr>)
      else (True, vb\<lparr>vb_buffer := Some (replicate (unat (VGA_GM_BUFFER_WIDTH * VGA_GM_BUFFER_HEIGHT)) 0),
              vb_width := VGA_GM_BUFFER_WIDTH, vb_height := VGA_GM_BUFFER_HEIGHT\<rparr>))"

definition vga_gm_buffer_destroy :: "vga_buffer \<Rightarrow> vga_buffer" where
  "vga_gm_buffer_destroy vb = (if vb_buffer vb = None then vb else vb\<lparr>vb_buffer := None, vb_width := 0, vb_height := 0\<rparr>)"

definition with_vga :: "vga_buffer \<Rightarrow> (u8 list \<Rightarrow> u8 list option) \<Rightarrow> (bool \<times> vga_buffer) option" where
  "with_vga vb f = (case vb_buffer vb of None \<Rightarrow> Some (False, vb)
     | Some b \<Rightarrow> map_option (\<lambda>b. (True, vb\<lparr>vb_buffer := Some b\<rparr>)) (f b))"

text \<open>\<open>screen\<close> is the memory at \<open>VGA_GM_BUFFER_ADDR\<close>; the argument is \<open>g_vga_gm_buffer\<close>.\<close>

definition vga_gm_render :: "vga_buffer \<Rightarrow> u8 list \<Rightarrow> (bool \<times> u8 list) option" where
  "vga_gm_render vb screen =
     (if \<not> IS_VALID_BUFFER vb then Some (False, screen)
      else do {
        b \<leftarrow> vb_buffer vb;
        r \<leftarrow> rd_slice b 0 (unat (vb_width vb * vb_height vb));
        screen \<leftarrow> wr_bytes screen 0 r;
        Some (True, screen) })"

definition vga_gm_draw_pixel :: "u64 \<Rightarrow> u64 \<Rightarrow> u8 \<Rightarrow> vga_buffer \<Rightarrow> (bool \<times> vga_buffer) option" where
  "vga_gm_draw_pixel x y color vb =
     (if \<not> IS_VALID_BUFFER vb \<or> x \<ge> VGA_GM_BUFFER_WIDTH \<or> y \<ge> VGA_GM_BUFFER_HEIGHT then Some (False, vb)
      else with_vga vb (put_pixel VGA_GM_BUFFER_WIDTH x y color))"

definition vga_gm_draw_lineh :: "u64 \<Rightarrow> u64 \<Rightarrow> u64 \<Rightarrow> u8 \<Rightarrow> vga_buffer \<Rightarrow> (bool \<times> vga_buffer) option" where
  "vga_gm_draw_lineh x y len color vb =
     (if \<not> IS_VALID_BUFFER vb \<or> x \<ge> VGA_GM_BUFFER_WIDTH \<or> y \<ge> VGA_GM_BUFFER_HEIGHT then Some (False, vb)
      else with_vga vb (hline VGA_GM_BUFFER_WIDTH VGA_GM_BUFFER_WIDTH x y len color))"

definition vga_gm_draw_linev :: "u64 \<Rightarrow> u64 \<Rightarrow> u64 \<Rightarrow> u8 \<Rightarrow> vga_buffer \<Rightarrow> (bool \<times> vga_buffer) option" where
  "vga_gm_draw_linev x y len color vb =
     (if \<not> IS_VALID_BUFFER vb \<or> x \<ge> VGA_GM_BUFFER_WIDTH \<or> y \<ge> VGA_GM_BUFFER_HEIGHT then Some (False, vb)
      else with_vga vb (vline VGA_GM_BUFFER_WIDTH VGA_GM_BUFFER_HEIGHT x y len color))"

definition vga_gm_draw_square :: "u64 \<Rightarrow> u64 \<Rightarrow> u64 \<Rightarrow> u64 \<Rightarrow> u8 \<Rightarrow> vga_buffer \<Rightarrow> (bool \<times> vga_buffer) option" where
  "vga_gm_draw_square x y w h color vb =
     (if \<not> IS_VALID_BUFFER vb \<or> x \<ge> VGA_GM_BUFFER_WIDTH \<or> y \<ge> VGA_GM_BUFFER_HEIGHT then Some (False, vb)
      else with_vga vb (fill VGA_GM_BUFFER_WIDTH VGA_GM_BUFFER_WIDTH VGA_GM_BUFFER_HEIGHT x y w h color))"

text \<open>Here the rows are taken to lie behind each other.\<close>

definition vga_gm_draw_move_square :: "bool \<Rightarrow> u64 \<Rightarrow> u64 \<Rightarrow> u64 \<Rightarrow> u64 \<Rightarrow> u64 \<Rightarrow> u64 \<Rightarrow> vga_buffer \<Rightarrow> (bool \<times> vga_buffer) option" where
  "vga_gm_draw_move_square alloc_ok x y w h nx ny vb =
     (if \<not> IS_VALID_BUFFER vb then Some (False, vb)
      else if x + w > VGA_GM_BUFFER_WIDTH \<or> y + h > VGA_GM_BUFFER_HEIGHT \<or>
              nx + w > VGA_GM_BUFFER_WIDTH \<or> ny + h > VGA_GM_BUFFER_HEIGHT then Some (False, vb)
      else if \<not> alloc_ok then Some (False, vb)
      else with_vga vb (\<lambda>b. do {
             temp \<leftarrow> rd_slice b (pixel_index VGA_GM_BUFFER_WIDTH x y) (unat (w * h));
             b \<leftarrow> wr_bytes b (pixel_index VGA_GM_BUFFER_WIDTH x y) (replicate (unat (w * h)) 0);
             wr_bytes b (pixel_index VGA_GM_BUFFER_WIDTH nx ny) temp }))"

definition vga_gm_draw_clear :: "u8 \<Rightarrow> vga_buffer \<Rightarrow> (bool \<times> vga_buffer) option" where
  "vga_gm_draw_clear color vb =
     (if \<not> IS_VALID_BUFFER vb then Some (False, vb)
      else with_vga vb (\<lambda>b. wr_bytes b 0 (replicate (unat (vb_width vb * vb_height vb)) color)))"

section \<open>The graphics driver\<close>

datatype graphics_driver = GD_UNKNOWN | GD_VGA vga_buffer | GD_FRAMEBUFFER framebuffer

text \<open>The format of the framebuffer described by the tag at offset \<open>tag\<close> of the boot information.\<close>

definition get_framebuffer_format :: "u8 list \<Rightarrow> nat \<Rightarrow> framebuffer_color_format option" where
  "get_framebuffer_format mbi tag = do {
     bpp \<leftarrow> rd8 mbi (tag + 28);
     ty \<leftarrow> rd8 mbi (tag + 29);
     red \<leftarrow> rd8 mbi (tag + 32);
     green \<leftarrow> rd8 mbi (tag + 34);
     blue \<leftarrow> rd8 mbi (tag + 36);
     Some (if ty \<noteq> 1 then FB_UNKNOWN
       else if bpp \<noteq> 32 then FB_UNKNOWN
       else if red = 16 \<and> green = 8 \<and> blue = 0 then ARGB8888
       else if red = 24 \<and> green = 16 \<and> blue = 8 then RGBA8888
       else if red = 8 \<and> green = 16 \<and> blue = 24 then BGRA8888
       else if red = 0 \<and> green = 8 \<and> blue = 16 then ABGR8888
       else FB_UNKNOWN) }"

definition s_palette :: "(u8 \<times> u8 \<times> u8) list" where
  "s_palette = [(0x00, 0x00, 0x00), (0x00, 0x00, 0xAA), (0x00, 0xAA, 0x00), (0x00, 0xAA, 0xAA),
     (0xAA, 0x00, 0x00), (0xAA, 0x00, 0xAA), (0xAA, 0x55, 0x00), (0xAA, 0xAA, 0xAA),
     (0x55, 0x55, 0x55), (0x55, 0x55, 0xFF), (0x55, 0xFF, 0x55), (0x55, 0xFF, 0xFF),
     (0xFF, 0x55, 0x55), (0xFF, 0x55, 0xFF), (0xFF, 0xFF, 0x55), (0xFF, 0xFF, 0xFF)]"

fun rgb_loop :: "color \<Rightarrow> (u8 \<times> u8 \<times> u8) list \<Rightarrow> nat \<Rightarrow> int \<Rightarrow> u8 \<Rightarrow> u8" where
  "rgb_loop c [] i best_dist best = best"
| "rgb_loop c ((r, g, b) # ps) i best_dist best =
     (let dr = uint (c_r c) - uint r; dg = uint (c_g c) - uint g; db = uint (c_b c) - uint b;
          dist = dr * dr + dg * dg + db * db
      in if dist < best_dist
         then if dist = 0 then of_nat i else rgb_loop c ps (i + 1) dist (of_nat i)
         else rgb_loop c ps (i + 1) best_dist best)"

definition rgb_to_vga :: "color \<Rightarrow> u8" where
  "rgb_to_vga c = rgb_loop c s_palette 0 (2 ^ 31 - 1) 0"

definition on_driver :: "(framebuffer \<Rightarrow> (bool \<times> framebuffer) option) \<Rightarrow> (vga_buffer \<Rightarrow> (bool \<times> vga_buffer) option) \<Rightarrow>
    graphics_driver \<Rightarrow> (bool \<times> graphics_driver) option" where
  "on_driver f v gd =
     (case gd of
        GD_FRAMEBUFFER fb \<Rightarrow> map_option (\<lambda>(r, fb). (r, GD_FRAMEBUFFER fb)) (f fb)
      | GD_VGA vb \<Rightarrow> map_option (\<lambda>(r, vb). (r, GD_VGA vb)) (v vb)
      | GD_UNKNOWN \<Rightarrow> Some (False, gd))"

definition graphics_driver_draw_pixel :: "u64 \<Rightarrow> u64 \<Rightarrow> color \<Rightarrow> graphics_driver \<Rightarrow> (bool \<times> graphics_driver) option" where
  "graphics_driver_draw_pixel x y c =
     on_driver (\<lambda>fb. framebuffer_write_pixel x y (framebuffer_format_color fb c) fb) (vga_gm_draw_pixel x y (rgb_to_vga c))"

definition graphics_driver_draw_lineh :: "u64 \<Rightarrow> u64 \<Rightarrow> u64 \<Rightarrow> color \<Rightarrow> graphics_driver \<Rightarrow> (bool \<times> graphics_driver) option" where
  "graphics_driver_draw_lineh x y len c =
     on_driver (\<lambda>fb. framebuffer_write_lineh x y len (framebuffer_format_color fb c) fb) (vga_gm_draw_lineh x y len (rgb_to_vga c))"

definition graphics_driver_draw_linev :: "u64 \<Rightarrow> u64 \<Rightarrow> u64 \<Rightarrow> color \<Rightarrow> graphics_driver \<Rightarrow> (bool \<times> graphics_driver) option" where
  "graphics_driver_draw_linev x y len c =
     on_driver (\<lambda>fb. framebuffer_write_linev x y len (framebuffer_format_color fb c) fb) (vga_gm_draw_linev x y len (rgb_to_vga c))"

definition graphics_driver_draw_square :: "u64 \<Rightarrow> u64 \<Rightarrow> u64 \<Rightarrow> u64 \<Rightarrow> color \<Rightarrow> graphics_driver \<Rightarrow> (bool \<times> graphics_driver) option" where
  "graphics_driver_draw_square x y w h c =
     on_driver (\<lambda>fb. framebuffer_write_square x y w h (framebuffer_format_color fb c) fb) (vga_gm_draw_square x y w h (rgb_to_vga c))"

definition graphics_driver_move_square ::
  "bool \<Rightarrow> u64 \<Rightarrow> u64 \<Rightarrow> u64 \<Rightarrow> u64 \<Rightarrow> u64 \<Rightarrow> u64 \<Rightarrow> graphics_driver \<Rightarrow> (bool \<times> graphics_driver) option" where
  "graphics_driver_move_square alloc_ok x y w h nx ny =
     on_driver (framebuffer_move_square alloc_ok x y w h nx ny) (vga_gm_draw_move_square alloc_ok x y w h nx ny)"

definition graphics_driver_get_size :: "graphics_driver \<Rightarrow> (u64 \<times> u64) option" where
  "graphics_driver_get_size gd =
     (case gd of GD_FRAMEBUFFER fb \<Rightarrow> Some (fb_width fb, fb_height fb)
      | GD_VGA vb \<Rightarrow> Some (vb_width vb, vb_height vb) | GD_UNKNOWN \<Rightarrow> None)"

definition graphics_driver_reset :: "graphics_driver \<Rightarrow> (bool \<times> graphics_driver) option" where
  "graphics_driver_reset =
     on_driver
       (\<lambda>fb. if fb_size fb = 0 then Some (False, fb)
             else with_back fb (\<lambda>b. wr_bytes b 0 (replicate (unat (fb_size fb) div 4) 0)))
       (\<lambda>vb. if vb_width vb * vb_height vb = 0 then Some (False, vb)
             else with_vga vb (\<lambda>b. wr_bytes b 0 (replicate (unat (vb_width vb * vb_height vb)) 0)))"

text \<open>The VGA buffer that is shown is the driver's own.\<close>

definition graphics_driver_render :: "graphics_driver \<Rightarrow> u8 list \<Rightarrow> (bool \<times> graphics_driver \<times> u8 list) option" where
  "graphics_driver_render gd screen =
     (case gd of
        GD_FRAMEBUFFER fb \<Rightarrow> map_option (\<lambda>(r, fb). (r, GD_FRAMEBUFFER fb, screen)) (framebuffer_render fb)
      | GD_VGA vb \<Rightarrow> map_option (\<lambda>(r, screen). (r, gd, screen)) (vga_gm_render vb screen)
      | GD_UNKNOWN \<Rightarrow> Some (False, gd, screen))"

end
