(* ===== verification/Canvas.thy ===== *)
theory Canvas
  imports Framebuffer
begin

text \<open>
  What drawing does to the picture. A picture is a function from a column and a row to a pixel; every
  operation of the theory Framebuffer changes exactly the pixels that it should and stays in the buffer.
\<close>

section \<open>Sets of places\<close>

text \<open>\<open>paint A g b\<close> has \<open>g k\<close> at the places \<open>k\<close> in \<open>A\<close>.\<close>

definition paint :: "nat set \<Rightarrow> (nat \<Rightarrow> 'a) \<Rightarrow> 'a list \<Rightarrow> 'a list" where
  "paint A g b = map (\<lambda>k. if k \<in> A then g k else b ! k) [0..<length b]"

lemma length_paint [simp]: "length (paint A g b) = length b"
  by (simp add: paint_def)

lemma nth_paint: "k < length b \<Longrightarrow> paint A g b ! k = (if k \<in> A then g k else b ! k)"
  by (simp add: paint_def)

lemma paint_empty [simp]: "paint {} g b = b"
  by (simp add: paint_def map_nth)

lemma paint_paint: "paint B g (paint A g b) = paint (A \<union> B) g b"
  by (rule nth_equalityI) (simp_all add: nth_paint)

lemma wr8_paint: "k < length b \<Longrightarrow> wr8 b k (g k) = Some (paint {k} g b)"
  by (simp add: wr8_def) (rule nth_equalityI, auto simp: nth_paint nth_list_update)

lemma wr_bytes_paint:
  assumes "i + length xs \<le> length b" "\<And>d. d < length xs \<Longrightarrow> g (i + d) = xs ! d"
  shows "wr_bytes b i xs = Some (paint {i..<i + length xs} g b)"
proof -
  have "take i b @ xs @ drop (i + length xs) b = paint {i..<i + length xs} g b"
  proof (rule nth_equalityI)
    fix k assume "k < length (take i b @ xs @ drop (i + length xs) b)"
    then have k: "k < length b" using assms(1) by simp
    show "(take i b @ xs @ drop (i + length xs) b) ! k = paint {i..<i + length xs} g b ! k"
    proof (cases "i \<le> k \<and> k < i + length xs")
      case True
      then have d: "k - i < length xs" "i + (k - i) = k" by auto
      then show ?thesis using assms(1) assms(2) [OF d(1)] k True by (simp add: nth_paint nth_append d)
    next
      case False
      then show ?thesis using assms(1) k by (auto simp: nth_paint nth_append)
    qed
  qed (use assms(1) in simp)
  then show ?thesis using assms(1) by (simp add: wr_bytes_def)
qed

text \<open>A loop whose rounds paint with the same picture.\<close>

lemma each_paint:
  assumes "\<And>i b'. i \<in> set js \<Longrightarrow> length b' = length b \<Longrightarrow> f i b' = Some (paint (A i) g b')"
  shows "each f js b = Some (paint (\<Union>i\<in>set js. A i) g b)"
proof -
  have "each f js b' = Some (paint (\<Union>i\<in>set js. A i) g b')" if "length b' = length b" for b'
    using assms that
  proof (induction js arbitrary: b')
    case (Cons j js)
    then have "each f js (paint (A j) g b') = Some (paint (\<Union>i\<in>set js. A i) g (paint (A j) g b'))" by simp
    then show ?case using Cons.prems by (simp add: paint_paint)
  qed simp
  then show ?thesis by simp
qed

section \<open>Pictures\<close>

text \<open>A buffer with \<open>h\<close> rows of at least \<open>w\<close> pixels, \<open>p\<close> from one row to the next.\<close>

definition canvas :: "u64 \<Rightarrow> u64 \<Rightarrow> u64 \<Rightarrow> 'a list \<Rightarrow> bool" where
  "canvas p w h b \<longleftrightarrow> unat w \<le> unat p \<and> unat h * unat p \<le> length b \<and> length b < 2 ^ 62"

definition px :: "u64 \<Rightarrow> 'a list \<Rightarrow> nat \<Rightarrow> nat \<Rightarrow> 'a" where
  "px p b i j = b ! (j * unat p + i)"

definition rect :: "nat \<Rightarrow> nat set \<Rightarrow> nat set \<Rightarrow> nat set" where
  "rect p X Y = (\<Union>j\<in>Y. \<Union>i\<in>X. {j * p + i})"

lemma place_less: "i < p \<Longrightarrow> j < h \<Longrightarrow> j * p + i < h * (p :: nat)"
proof -
  assume "i < p" "j < h"
  then have "j * p + i < Suc j * p" "Suc j * p \<le> h * p" by (simp, intro mult_le_mono1, simp)
  then show ?thesis by linarith
qed

lemma place_inj: "i < p \<Longrightarrow> i' < p \<Longrightarrow> j * p + i = j' * p + i' \<longleftrightarrow> i = i' \<and> j = (j' :: nat)"
proof
  assume a: "i < p" "i' < p" "j * p + i = j' * p + i'"
  have "(j * p + i) mod p = (j' * p + i') mod p" "(j * p + i) div p = (j' * p + i') div p" using a(3) by simp_all
  then show "i = i' \<and> j = j'" using a(1,2) by simp
qed simp

lemma in_rect: "i < p \<Longrightarrow> X \<subseteq> {..<p} \<Longrightarrow> j * p + i \<in> rect p X Y \<longleftrightarrow> i \<in> X \<and> j \<in> Y"
  by (auto simp: rect_def place_inj subset_iff)

lemma canvas_place:
  assumes "canvas p w h b" "i < unat w" "j < unat h"
  shows "j * unat p + i < length b" "i < unat p"
  using assms place_less [of i "unat p" j "unat h"] by (auto simp: canvas_def)

lemma px_paint:
  assumes "canvas p w h b" "i < unat w" "j < unat h"
  shows "px p (paint A g b) i j = (if j * unat p + i \<in> A then g (j * unat p + i) else px p b i j)"
  using canvas_place [OF assms] by (simp add: px_def nth_paint)

lemma canvas_length: "canvas p w h b \<Longrightarrow> length b' = length b \<Longrightarrow> canvas p w h b'"
  by (simp add: canvas_def)

lemma pixel_index_canvas:
  assumes "canvas p w h b" "unat x < unat w" "unat y < unat h"
  shows "pixel_index p x y = unat y * unat p + unat x"
proof -
  have "unat y * unat p + unat x < 2 ^ 64"
    using canvas_place(1) [OF assms] assms(1) by (simp add: canvas_def)
  then show ?thesis
    by (simp add: pixel_index_def unat_word_ariths mod_less)
qed

lemma unat_of_nat_word: "i \<le> unat (w :: u64) \<Longrightarrow> unat (of_nat i :: u64) = i"
  using unat_u64_less [of w] by (simp add: unat_of_nat)

lemma put_pixel_paint:
  assumes "canvas p w h b" "unat x < unat w" "unat y < unat h" "g (unat y * unat p + unat x) = c"
  shows "put_pixel p x y c b = Some (paint {unat y * unat p + unat x} g b)"
  using wr8_paint [of "unat y * unat p + unat x" b g] canvas_place [OF assms(1-3)] assms(4)
  unfolding put_pixel_def pixel_index_canvas [OF assms(1-3)] by simp

lemma hline_paint:
  assumes "canvas p w h b" "unat y < unat h"
  shows "hline p w x y len c b = Some (paint (rect (unat p) {unat x..<min (unat (x + len)) (unat w)} {unat y}) (\<lambda>_. c) b)"
proof -
  have "put_pixel p (of_nat i) y c b' = Some (paint {unat y * unat p + i} (\<lambda>_. c) b')"
    if "i \<in> set [unat x..<min (unat (x + len)) (unat w)]" "length b' = length b" for i b'
  proof -
    have "unat (of_nat i :: u64) = i" using that by (intro unat_of_nat_word [of _ w]) simp
    then show ?thesis
      using put_pixel_paint [OF canvas_length [OF assms(1) that(2)], of "of_nat i" y "\<lambda>_. c" c] that assms(2) by simp
  qed
  then show ?thesis unfolding hline_def rect_def by (subst each_paint) auto
qed

lemma vline_paint:
  assumes "canvas p w h b" "unat x < unat w" "min (unat (y + len)) (unat bound) \<le> unat h"
  shows "vline p bound x y len c b = Some (paint (rect (unat p) {unat x} {unat y..<min (unat (y + len)) (unat bound)}) (\<lambda>_. c) b)"
proof -
  have "put_pixel p x (of_nat j) c b' = Some (paint {j * unat p + unat x} (\<lambda>_. c) b')"
    if "j \<in> set [unat y..<min (unat (y + len)) (unat bound)]" "length b' = length b" for j b'
  proof -
    have j: "unat (of_nat j :: u64) = j" using that by (intro unat_of_nat_word [of _ bound]) simp
    moreover have "j < unat h" using that(1) assms(3) by (simp only: set_upt atLeastLessThan_iff) linarith
    ultimately show ?thesis
      using put_pixel_paint [OF canvas_length [OF assms(1) that(2)], of x "of_nat j" "\<lambda>_. c" c] that assms(2) by simp
  qed
  then show ?thesis unfolding vline_def rect_def by (subst each_paint) auto
qed

lemma unat_min: "unat (min a b :: u64) = min (unat a) (unat b)"
  by (simp add: min_def word_le_nat_alt)

lemma fill_paint:
  fixes b :: "'a list"
  assumes "canvas p w h b"
  shows "fill p w h x y fw fh c b =
    Some (paint (rect (unat p) {unat x..<min (unat (x + fw)) (unat w)} {unat y..<min (unat (y + fh)) (unat h)}) (\<lambda>_. c) b)"
proof -
  let ?X = "[unat x..<min (unat (x + fw)) (unat w)]" and ?Y = "[unat y..<min (unat (y + fh)) (unat h)]"
  have "each (\<lambda>i. put_pixel p (of_nat i) (of_nat j) c) ?X b' = Some (paint (\<Union>i\<in>set ?X. {j * unat p + i}) (\<lambda>_. c) b')"
    if "j \<in> set ?Y" "length b' = length b" for j b'
  proof (rule each_paint)
    fix i and b'' :: "'a list" assume i: "i \<in> set ?X" "length b'' = length b'"
    have "unat (of_nat i :: u64) = i" using i by (intro unat_of_nat_word [of _ w]) simp
    moreover have "unat (of_nat j :: u64) = j" using that by (intro unat_of_nat_word [of _ h]) simp
    ultimately show "put_pixel p (of_nat i) (of_nat j) c b'' = Some (paint {j * unat p + i} (\<lambda>_. c) b'')"
      using put_pixel_paint [OF canvas_length [OF assms, of b''], of "of_nat i" "of_nat j" "\<lambda>_. c" c] i that by simp
  qed
  then show ?thesis unfolding fill_def Let_def unat_min rect_def by (subst each_paint) auto
qed

section \<open>Moving and copying rows\<close>

lemma pixel_index_row:
  assumes "canvas p w h b" "unat x \<le> unat w" "unat y + r < unat h"
  shows "pixel_index p x (y + of_nat r) = (unat y + r) * unat p + unat x" "(unat y + r) * unat p + unat w \<le> length b"
proof -
  have r: "unat (of_nat r :: u64) = r" using assms(3) by (intro unat_of_nat_word [of _ h]) simp
  have y: "unat (y + of_nat r) = unat y + r"
    using assms(3) unat_u64_less [of h] by (simp add: unat_word_ariths r mod_less)
  have "Suc (unat y + r) * unat p \<le> unat h * unat p" using assms(3) by (intro mult_le_mono1) simp
  then have le: "(unat y + r) * unat p + unat p \<le> length b" "length b < 2 ^ 62"
    using assms(1) by (simp_all add: canvas_def)
  then show "(unat y + r) * unat p + unat w \<le> length b" using assms(1) by (simp add: canvas_def)
  have "(unat y + r) * unat p + unat x < 2 ^ 64" using le assms(1,2) by (simp add: canvas_def)
  moreover from this have "(unat y + r) * unat p < 2 ^ 64" by linarith
  ultimately show "pixel_index p x (y + of_nat r) = (unat y + r) * unat p + unat x"
    unfolding pixel_index_def unat_word_ariths(1) [of "(y + of_nat r) * p"] unat_word_ariths(2) [of "y + of_nat r"] y
    by (simp add: mod_less)
qed

lemma rect_row: "rect p {x..<x + n} {j} = {j * p + x..<j * p + x + n}"
proof -
  have "k \<in> rect p {x..<x + n} {j}" if "k \<in> {j * p + x..<j * p + x + n}" for k
    using that by (auto simp: rect_def intro!: bexI [of _ "k - j * p"])
  then show ?thesis by (auto simp: rect_def)
qed

lemma rect_rows: "(\<Union>r\<in>{0..<n}. rect p X {y + r}) = rect p X {y..<y + n}"
proof -
  have "j \<in> (\<lambda>r. y + r) ` {0..<n}" if "j \<in> {y..<y + n}" for j
    using that by (auto intro!: image_eqI [of _ _ "j - y"])
  then have e: "{y..<y + n} = (\<lambda>r. y + r) ` {0..<n}" by auto
  show ?thesis unfolding e rect_def by blast
qed

lemma save_rows_px:
  fixes b :: "'a list"
  assumes "canvas p w h b" "unat x + unat fw \<le> unat w" "unat y + unat fh \<le> unat h"
  shows "\<exists>temp. save_rows p x y fw fh b = Some temp \<and> length temp = unat fh * unat fw \<and>
    (\<forall>r<unat fh. \<forall>d<unat fw. temp ! (r * unat fw + d) = px p b (unat x + d) (unat y + r))"
proof -
  let ?f = "\<lambda>row temp. do { r \<leftarrow> rd_slice b (pixel_index p x (y + of_nat row)) (unat fw); Some (temp @ r) }"
  have "\<exists>temp. each ?f [0..<n] [] = Some temp \<and> length temp = n * unat fw \<and>
      (\<forall>r<n. \<forall>d<unat fw. temp ! (r * unat fw + d) = px p b (unat x + d) (unat y + r))" if "n \<le> unat fh" for n
    using that
  proof (induction n)
    case (Suc n)
    then obtain temp where t: "each ?f [0..<n] [] = Some temp" "length temp = n * unat fw"
        "\<And>r d. r < n \<Longrightarrow> d < unat fw \<Longrightarrow> temp ! (r * unat fw + d) = px p b (unat x + d) (unat y + r)" by auto
    have n: "unat x \<le> unat w" "unat y + n < unat h" using Suc.prems assms(2,3) by auto
    let ?i = "(unat y + n) * unat p + unat x"
    have i: "?i + unat fw \<le> length b" using pixel_index_row(2) [OF assms(1) n] assms(2) by simp
    then have "rd_slice b (pixel_index p x (y + of_nat n)) (unat fw) = Some (take (unat fw) (drop ?i b))"
      by (simp add: rd_slice_def pixel_index_row(1) [OF assms(1) n])
    moreover have "(temp @ take (unat fw) (drop ?i b)) ! (r * unat fw + d) = px p b (unat x + d) (unat y + r)"
      if "r < Suc n" "d < unat fw" for r d
    proof (cases "r = n")
      case True
      then show ?thesis using t(2) that i by (simp add: nth_append px_def add_ac)
    next
      case False
      then have "r * unat fw + d < n * unat fw" using that by (intro place_less) auto
      then show ?thesis using t(2,3) that False by (simp add: nth_append)
    qed
    ultimately show ?case using t(1,2) i by (simp add: each_append)
  qed simp
  then show ?thesis unfolding save_rows_def by blast
qed

lemma each_rows:
  assumes "canvas p w h b" "unat x + n \<le> unat w" "unat y + m \<le> unat h"
    and "\<And>r b'. r < m \<Longrightarrow> length b' = length b \<Longrightarrow>
      \<exists>xs. f r b' = wr_bytes b' (pixel_index p x (y + of_nat r)) xs \<and> length xs = n \<and>
        (\<forall>d<n. g ((unat y + r) * unat p + unat x + d) = xs ! d)"
  shows "each f [0..<m] b = Some (paint (rect (unat p) {unat x..<unat x + n} {unat y..<unat y + m}) g b)"
proof -
  have "f r b' = Some (paint (rect (unat p) {unat x..<unat x + n} {unat y + r}) g b')"
    if rm: "r \<in> set [0..<m]" and len: "length b' = length b" for r b'
  proof -
    have r: "r < m" "unat x \<le> unat w" "unat y + r < unat h" using rm assms(2,3) by auto
    note i = pixel_index_row [OF assms(1) r(2,3)]
    obtain xs where xs: "f r b' = wr_bytes b' (pixel_index p x (y + of_nat r)) xs" "length xs = n"
        "\<forall>d<n. g ((unat y + r) * unat p + unat x + d) = xs ! d"
      using assms(4) [OF r(1) len] by blast
    show ?thesis unfolding xs(1) i(1) rect_row
      using wr_bytes_paint [of "(unat y + r) * unat p + unat x" xs b' g] i(2) assms(2) xs(2,3) len by simp
  qed
  then have "each f [0..<m] b = Some (paint (\<Union>r\<in>set [0..<m]. rect (unat p) {unat x..<unat x + n} {unat y + r}) g b)"
    by (rule each_paint)
  then show ?thesis by (simp add: rect_rows)
qed

lemma clear_rows_paint:
  assumes "canvas p w h b" "unat x + unat fw \<le> unat w" "unat y + unat fh \<le> unat h"
  shows "clear_rows p x y fw fh z b =
    Some (paint (rect (unat p) {unat x..<unat x + unat fw} {unat y..<unat y + unat fh}) (\<lambda>_. z) b)"
  unfolding clear_rows_def by (rule each_rows [OF assms]) force

text \<open>The picture that a list of rows of length \<open>n\<close> shows with its corner at \<open>x\<close> and \<open>y\<close>.\<close>

definition block_at :: "nat \<Rightarrow> nat \<Rightarrow> nat \<Rightarrow> nat \<Rightarrow> 'a list \<Rightarrow> nat \<Rightarrow> 'a" where
  "block_at p x y n temp k = temp ! ((k div p - y) * n + (k mod p - x))"

lemma block_at_place: "x + d < p \<Longrightarrow> block_at p x y n temp ((y + r) * p + x + d) = temp ! (r * n + d)"
  by (simp add: block_at_def add.assoc)

lemma store_rows_paint:
  assumes "canvas p w h b" "unat x + unat fw \<le> unat w" "unat y + unat fh \<le> unat h"
    and "length temp = unat fh * unat fw" "unat fh * unat fw < 2 ^ 64"
  shows "store_rows p x y fw fh temp b =
    Some (paint (rect (unat p) {unat x..<unat x + unat fw} {unat y..<unat y + unat fh})
      (block_at (unat p) (unat x) (unat y) (unat fw) temp) b)"
  unfolding store_rows_def
proof (rule each_rows [OF assms(1-3)])
  fix r and b' :: "'a list" assume r: "r < unat fh"
  have le: "Suc r * unat fw \<le> unat fh * unat fw" using r by (intro mult_le_mono1) simp
  have "unat (of_nat r :: u64) = r" using r by (intro unat_of_nat_word [of _ fh]) simp
  moreover have "r * unat fw < 2 ^ 64" using le assms(5) by simp
  ultimately have i: "unat (of_nat r * fw) = r * unat fw" by (simp add: unat_word_ariths mod_less)
  have rl: "r * unat fw \<le> length temp" using r assms(4) by simp
  have "rd_slice temp (unat (of_nat r * fw)) (unat fw) = Some (take (unat fw) (drop (r * unat fw) temp))"
    unfolding i using le assms(4) by (simp add: rd_slice_def)
  moreover have "block_at (unat p) (unat x) (unat y) (unat fw) temp ((unat y + r) * unat p + unat x + d) =
      take (unat fw) (drop (r * unat fw) temp) ! d" if "d < unat fw" for d
    using that rl assms(1,2) by (subst block_at_place) (simp_all add: canvas_def nth_drop)
  ultimately show "\<exists>xs. (do { r' \<leftarrow> rd_slice temp (unat (of_nat r * fw)) (unat fw);
        wr_bytes b' (pixel_index p x (y + of_nat r)) r' }) = wr_bytes b' (pixel_index p x (y + of_nat r)) xs \<and>
      length xs = unat fw \<and> (\<forall>d<unat fw. block_at (unat p) (unat x) (unat y) (unat fw) temp ((unat y + r) * unat p + unat x + d) = xs ! d)"
    using le assms(4) by auto
qed

section \<open>The picture of a driver\<close>

definition gd_ok :: "graphics_driver \<Rightarrow> bool" where
  "gd_ok gd = (case gd of
     GD_FRAMEBUFFER fb \<Rightarrow> (case fb_back_buffer fb of None \<Rightarrow> False
       | Some b \<Rightarrow> canvas (fb_caluclated_pitch fb) (fb_width fb) (fb_height fb) b)
   | GD_VGA vb \<Rightarrow> IS_VALID_BUFFER vb \<and> (case vb_buffer vb of None \<Rightarrow> False | Some b \<Rightarrow> length b = 64000)
   | GD_UNKNOWN \<Rightarrow> False)"

definition gd_width :: "graphics_driver \<Rightarrow> nat" where
  "gd_width gd = (case graphics_driver_get_size gd of Some (w, h) \<Rightarrow> unat w | None \<Rightarrow> 0)"

definition gd_height :: "graphics_driver \<Rightarrow> nat" where
  "gd_height gd = (case graphics_driver_get_size gd of Some (w, h) \<Rightarrow> unat h | None \<Rightarrow> 0)"

definition gd_px :: "graphics_driver \<Rightarrow> nat \<Rightarrow> nat \<Rightarrow> u32" where
  "gd_px gd i j = (case gd of
     GD_FRAMEBUFFER fb \<Rightarrow> px (fb_caluclated_pitch fb) (the (fb_back_buffer fb)) i j
   | GD_VGA vb \<Rightarrow> ucast (px VGA_GM_BUFFER_WIDTH (the (vb_buffer vb)) i j)
   | GD_UNKNOWN \<Rightarrow> 0)"

text \<open>The pixel for a colour.\<close>

definition gd_color :: "graphics_driver \<Rightarrow> color \<Rightarrow> u32" where
  "gd_color gd c = (case gd of
     GD_FRAMEBUFFER fb \<Rightarrow> framebuffer_format_color fb c
   | GD_VGA vb \<Rightarrow> ucast (rgb_to_vga c) | GD_UNKNOWN \<Rightarrow> 0)"

text \<open>What copying to the screen depends on: the rounds of the copy and the sizes of both buffers.\<close>

definition gd_memory :: "graphics_driver \<Rightarrow> (nat \<times> nat \<times> nat) option" where
  "gd_memory gd = (case gd of
     GD_FRAMEBUFFER fb \<Rightarrow> Some (unat (drop_bit 6 (fb_size fb)), length (fb_address fb), length (the (fb_back_buffer fb)))
   | _ \<Rightarrow> None)"

text \<open>The same device afterwards, with the picture \<open>f\<close>.\<close>

definition painted :: "graphics_driver \<Rightarrow> (nat \<Rightarrow> nat \<Rightarrow> u32) \<Rightarrow> graphics_driver \<Rightarrow> bool" where
  "painted gd f gd' \<longleftrightarrow> gd_ok gd' \<and> graphics_driver_get_size gd' = graphics_driver_get_size gd \<and> gd_color gd' = gd_color gd \<and>
     gd_memory gd' = gd_memory gd \<and> (\<forall>i<gd_width gd. \<forall>j<gd_height gd. gd_px gd' i j = f i j)"

lemma gd_ok_cases:
  assumes "gd_ok gd"
  obtains (fb) fb b where "gd = GD_FRAMEBUFFER fb" "fb_back_buffer fb = Some b"
      "canvas (fb_caluclated_pitch fb) (fb_width fb) (fb_height fb) b"
    | (vga) vb b where "gd = GD_VGA vb" "vb_buffer vb = Some b" "IS_VALID_BUFFER vb"
      "canvas VGA_GM_BUFFER_WIDTH VGA_GM_BUFFER_WIDTH VGA_GM_BUFFER_HEIGHT b" "length b = 64000"
  using assms by (cases gd) (auto simp: gd_ok_def canvas_def VGA_GM_BUFFER_WIDTH_def VGA_GM_BUFFER_HEIGHT_def split: option.splits)

lemma painted_fb:
  assumes "fb_back_buffer fb = Some b" "canvas (fb_caluclated_pitch fb) (fb_width fb) (fb_height fb) b"
    and "length b' = length b"
    and "\<And>i j. i < unat (fb_width fb) \<Longrightarrow> j < unat (fb_height fb) \<Longrightarrow> px (fb_caluclated_pitch fb) b' i j = f i j"
  shows "painted (GD_FRAMEBUFFER fb) f (GD_FRAMEBUFFER (fb\<lparr>fb_back_buffer := Some b'\<rparr>))"
  using assms canvas_length [OF assms(2,3)]
  by (auto simp: painted_def gd_ok_def gd_width_def gd_height_def gd_color_def gd_px_def graphics_driver_get_size_def
      framebuffer_format_color_def fun_eq_iff gd_memory_def)

lemma painted_vga:
  assumes "vb_buffer vb = Some b" "IS_VALID_BUFFER vb" "length b = 64000" "length b' = length b"
    and "\<And>i j. i < 320 \<Longrightarrow> j < 200 \<Longrightarrow> ucast (px VGA_GM_BUFFER_WIDTH b' i j) = f i j"
  shows "painted (GD_VGA vb) f (GD_VGA (vb\<lparr>vb_buffer := Some b'\<rparr>))"
  using assms
  by (auto simp: painted_def gd_ok_def gd_width_def gd_height_def gd_color_def gd_px_def graphics_driver_get_size_def
      IS_VALID_BUFFER_def VGA_GM_BUFFER_WIDTH_def VGA_GM_BUFFER_HEIGHT_def fun_eq_iff gd_memory_def)

lemma painted_self: "gd_ok gd \<Longrightarrow> painted gd (gd_px gd) gd"
  by (simp add: painted_def)

lemma painted_trans:
  assumes "painted gd f gd1" "painted gd1 g gd2"
    and "\<And>i j. i < gd_width gd \<Longrightarrow> j < gd_height gd \<Longrightarrow> g i j = h i j"
  shows "painted gd h gd2"
  using assms by (simp add: painted_def gd_width_def gd_height_def)

lemma painted_cong:
  "painted gd f gd1 \<Longrightarrow> (\<And>i j. i < gd_width gd \<Longrightarrow> j < gd_height gd \<Longrightarrow> f i j = h i j) \<Longrightarrow> painted gd h gd1"
  by (simp add: painted_def)

lemma paintedD:
  assumes "painted gd f gd'"
  shows "gd_ok gd'" "gd_width gd' = gd_width gd" "gd_height gd' = gd_height gd" "gd_color gd' = gd_color gd"
    "graphics_driver_get_size gd' = graphics_driver_get_size gd" "gd_memory gd' = gd_memory gd"
    "i < gd_width gd \<Longrightarrow> j < gd_height gd \<Longrightarrow> gd_px gd' i j = f i j"
  using assms by (simp_all add: painted_def gd_width_def gd_height_def)

text \<open>An operation that fills a rectangle on either device.\<close>

lemma px_rect_fill:
  assumes "canvas p w h b" "X \<subseteq> {..<unat w}" "i < unat w" "j < unat h"
  shows "px p (paint (rect (unat p) X Y) (\<lambda>_. c) b) i j = (if i \<in> X \<and> j \<in> Y then c else px p b i j)"
proof -
  have "X \<subseteq> {..<unat p}" "i < unat p" using assms by (auto simp: canvas_def)
  then show ?thesis by (simp add: px_paint [OF assms(1,3,4)] in_rect)
qed

lemma on_driver_fill:
  assumes "gd_ok gd" "X \<subseteq> {..<gd_width gd}"
    and "\<And>fb b. gd = GD_FRAMEBUFFER fb \<Longrightarrow> fb_back_buffer fb = Some b \<Longrightarrow>
      canvas (fb_caluclated_pitch fb) (fb_width fb) (fb_height fb) b \<Longrightarrow>
      f fb = with_back fb (\<lambda>b. Some (paint (rect (unat (fb_caluclated_pitch fb)) X Y) (\<lambda>_. framebuffer_format_color fb c) b))"
    and "\<And>vb b. gd = GD_VGA vb \<Longrightarrow> vb_buffer vb = Some b \<Longrightarrow> IS_VALID_BUFFER vb \<Longrightarrow>
      canvas VGA_GM_BUFFER_WIDTH VGA_GM_BUFFER_WIDTH VGA_GM_BUFFER_HEIGHT b \<Longrightarrow>
      v vb = with_vga vb (\<lambda>b. Some (paint (rect 320 X Y) (\<lambda>_. rgb_to_vga c) b))"
  shows "\<exists>gd'. on_driver f v gd = Some (True, gd') \<and>
    painted gd (\<lambda>i j. if i \<in> X \<and> j \<in> Y then gd_color gd c else gd_px gd i j) gd'"
  using assms(1)
proof (cases rule: gd_ok_cases)
  case (fb fb b)
  then show ?thesis
    using assms(2,3) px_rect_fill [OF fb(3)]
    by (auto simp: on_driver_def with_back_def gd_width_def graphics_driver_get_size_def gd_px_def gd_color_def
        intro!: painted_fb [OF fb(2,3)])
next
  case (vga vb b)
  have w: "X \<subseteq> {..<unat VGA_GM_BUFFER_WIDTH}"
    using assms(2) vga(1,3) by (auto simp: gd_width_def graphics_driver_get_size_def IS_VALID_BUFFER_def)
  show ?thesis
    using vga assms(4) px_rect_fill [OF vga(4) w]
    by (auto simp: on_driver_def with_vga_def gd_px_def gd_color_def VGA_GM_BUFFER_WIDTH_def VGA_GM_BUFFER_HEIGHT_def
        intro!: painted_vga [OF vga(2,3,5)])
qed

lemma gd_width_eq [simp]:
  "gd_width (GD_FRAMEBUFFER fb) = unat (fb_width fb)" "gd_height (GD_FRAMEBUFFER fb) = unat (fb_height fb)"
  by (simp_all add: gd_width_def gd_height_def graphics_driver_get_size_def)

lemma gd_width_vga [simp]:
  assumes "IS_VALID_BUFFER vb"
  shows "gd_width (GD_VGA vb) = 320" "gd_height (GD_VGA vb) = 200"
  using assms by (simp_all add: gd_width_def gd_height_def graphics_driver_get_size_def IS_VALID_BUFFER_def
      VGA_GM_BUFFER_WIDTH_def VGA_GM_BUFFER_HEIGHT_def)

lemma vga_size: "unat VGA_GM_BUFFER_WIDTH = 320" "unat VGA_GM_BUFFER_HEIGHT = 200"
  by (simp_all add: VGA_GM_BUFFER_WIDTH_def VGA_GM_BUFFER_HEIGHT_def)

lemma draw_pixel_px:
  assumes "gd_ok gd"
  shows "\<exists>r gd'. graphics_driver_draw_pixel x y c gd = Some (r, gd') \<and>
    painted gd (\<lambda>i j. if i = unat x \<and> j = unat y then gd_color gd c else gd_px gd i j) gd'"
proof (cases "unat x < gd_width gd \<and> unat y < gd_height gd")
  case True
  have "\<exists>gd'. graphics_driver_draw_pixel x y c gd = Some (True, gd') \<and>
    painted gd (\<lambda>i j. if i \<in> {unat x} \<and> j \<in> {unat y} then gd_color gd c else gd_px gd i j) gd'"
    unfolding graphics_driver_draw_pixel_def
  proof (rule on_driver_fill [OF assms])
    fix fb b assume "gd = GD_FRAMEBUFFER fb" "fb_back_buffer fb = Some b"
      "canvas (fb_caluclated_pitch fb) (fb_width fb) (fb_height fb) b"
    then show "framebuffer_write_pixel x y (framebuffer_format_color fb c) fb = with_back fb
        (\<lambda>b. Some (paint (rect (unat (fb_caluclated_pitch fb)) {unat x} {unat y}) (\<lambda>_. framebuffer_format_color fb c) b))"
      using True by (simp add: framebuffer_write_pixel_def with_back_def put_pixel_paint rect_def word_le_nat_alt not_le)
  next
    fix vb b assume "gd = GD_VGA vb" "vb_buffer vb = Some b" "IS_VALID_BUFFER vb"
      "canvas VGA_GM_BUFFER_WIDTH VGA_GM_BUFFER_WIDTH VGA_GM_BUFFER_HEIGHT b"
    then show "vga_gm_draw_pixel x y (rgb_to_vga c) vb = with_vga vb (\<lambda>b. Some (paint (rect 320 {unat x} {unat y}) (\<lambda>_. rgb_to_vga c) b))"
      using True put_pixel_paint [of VGA_GM_BUFFER_WIDTH VGA_GM_BUFFER_WIDTH VGA_GM_BUFFER_HEIGHT b x y "\<lambda>_. rgb_to_vga c"]
      by (simp add: vga_gm_draw_pixel_def with_vga_def rect_def word_le_nat_alt not_le vga_size)
  qed (use True in auto)
  then show ?thesis by auto
next
  case False
  then have "graphics_driver_draw_pixel x y c gd = Some (False, gd)"
    using assms(1) by - (erule gd_ok_cases,
      auto simp: graphics_driver_draw_pixel_def on_driver_def framebuffer_write_pixel_def vga_gm_draw_pixel_def word_le_nat_alt not_less vga_size)
  moreover have "painted gd (\<lambda>i j. if i = unat x \<and> j = unat y then gd_color gd c else gd_px gd i j) gd"
    using False by (intro painted_cong [OF painted_self [OF assms]]) auto
  ultimately show ?thesis by blast
qed

lemma draw_square_px:
  assumes "gd_ok gd" "unat x < gd_width gd" "unat y < gd_height gd"
    and "unat x + unat w < 2 ^ 64" "unat y + unat h < 2 ^ 64"
  shows "\<exists>gd'. graphics_driver_draw_square x y w h c gd = Some (True, gd') \<and>
    painted gd (\<lambda>i j. if unat x \<le> i \<and> i < unat x + unat w \<and> unat y \<le> j \<and> j < unat y + unat h then gd_color gd c else gd_px gd i j) gd'"
proof -
  have xy: "unat (x + w) = unat x + unat w" "unat (y + h) = unat y + unat h"
    using assms(4,5) by (simp_all add: unat_word_ariths mod_less)
  have "\<exists>gd'. graphics_driver_draw_square x y w h c gd = Some (True, gd') \<and>
    painted gd (\<lambda>i j. if i \<in> {unat x..<min (unat x + unat w) (gd_width gd)} \<and> j \<in> {unat y..<min (unat y + unat h) (gd_height gd)}
      then gd_color gd c else gd_px gd i j) gd'"
    unfolding graphics_driver_draw_square_def
  proof (rule on_driver_fill [OF assms(1)])
    fix fb b assume "gd = GD_FRAMEBUFFER fb" "fb_back_buffer fb = Some b"
      "canvas (fb_caluclated_pitch fb) (fb_width fb) (fb_height fb) b"
    then show "framebuffer_write_square x y w h (framebuffer_format_color fb c) fb = with_back fb (\<lambda>b. Some (paint
        (rect (unat (fb_caluclated_pitch fb)) {unat x..<min (unat x + unat w) (gd_width gd)} {unat y..<min (unat y + unat h) (gd_height gd)})
        (\<lambda>_. framebuffer_format_color fb c) b))"
      using assms(2,3) by (simp add: framebuffer_write_square_def with_back_def fill_paint xy word_le_nat_alt not_le)
  next
    fix vb b assume "gd = GD_VGA vb" "vb_buffer vb = Some b" "IS_VALID_BUFFER vb"
      "canvas VGA_GM_BUFFER_WIDTH VGA_GM_BUFFER_WIDTH VGA_GM_BUFFER_HEIGHT b"
    then show "vga_gm_draw_square x y w h (rgb_to_vga c) vb = with_vga vb (\<lambda>b. Some (paint
        (rect 320 {unat x..<min (unat x + unat w) (gd_width gd)} {unat y..<min (unat y + unat h) (gd_height gd)}) (\<lambda>_. rgb_to_vga c) b))"
      using assms(2,3) by (simp add: vga_gm_draw_square_def with_vga_def fill_paint xy word_le_nat_alt not_le vga_size)
  qed auto
  then obtain gd' where gd': "graphics_driver_draw_square x y w h c gd = Some (True, gd')"
    "painted gd (\<lambda>i j. if i \<in> {unat x..<min (unat x + unat w) (gd_width gd)} \<and> j \<in> {unat y..<min (unat y + unat h) (gd_height gd)}
      then gd_color gd c else gd_px gd i j) gd'" by blast
  show ?thesis by (intro exI [of _ gd'] conjI gd'(1) painted_cong [OF gd'(2)]) auto
qed

lemma draw_square_outside:
  assumes "gd_ok gd" "unat x \<ge> gd_width gd \<or> unat y \<ge> gd_height gd"
  shows "graphics_driver_draw_square x y w h c gd = Some (False, gd)"
  using assms(1) by (cases rule: gd_ok_cases)
    (use assms(2) in \<open>auto simp: graphics_driver_draw_square_def on_driver_def framebuffer_write_square_def vga_gm_draw_square_def
      word_le_nat_alt vga_size\<close>)

lemma draw_lineh_px:
  assumes "gd_ok gd" "unat x < gd_width gd" "unat y < gd_height gd" "unat x + unat len < 2 ^ 64"
  shows "\<exists>gd'. graphics_driver_draw_lineh x y len c gd = Some (True, gd') \<and>
    painted gd (\<lambda>i j. if unat x \<le> i \<and> i < unat x + unat len \<and> j = unat y then gd_color gd c else gd_px gd i j) gd'"
proof -
  have xl: "unat (x + len) = unat x + unat len" using assms(4) by (simp add: unat_word_ariths mod_less)
  have "\<exists>gd'. graphics_driver_draw_lineh x y len c gd = Some (True, gd') \<and>
    painted gd (\<lambda>i j. if i \<in> {unat x..<min (unat x + unat len) (gd_width gd)} \<and> j \<in> {unat y} then gd_color gd c else gd_px gd i j) gd'"
    unfolding graphics_driver_draw_lineh_def
  proof (rule on_driver_fill [OF assms(1)])
    fix fb b assume "gd = GD_FRAMEBUFFER fb" "fb_back_buffer fb = Some b"
      "canvas (fb_caluclated_pitch fb) (fb_width fb) (fb_height fb) b"
    then show "framebuffer_write_lineh x y len (framebuffer_format_color fb c) fb = with_back fb (\<lambda>b. Some (paint
        (rect (unat (fb_caluclated_pitch fb)) {unat x..<min (unat x + unat len) (gd_width gd)} {unat y}) (\<lambda>_. framebuffer_format_color fb c) b))"
      using assms(2,3) by (simp add: framebuffer_write_lineh_def with_back_def hline_paint xl word_le_nat_alt not_le)
  next
    fix vb b assume "gd = GD_VGA vb" "vb_buffer vb = Some b" "IS_VALID_BUFFER vb"
      "canvas VGA_GM_BUFFER_WIDTH VGA_GM_BUFFER_WIDTH VGA_GM_BUFFER_HEIGHT b"
    then show "vga_gm_draw_lineh x y len (rgb_to_vga c) vb = with_vga vb (\<lambda>b. Some (paint
        (rect 320 {unat x..<min (unat x + unat len) (gd_width gd)} {unat y}) (\<lambda>_. rgb_to_vga c) b))"
      using assms(2,3) hline_paint [of VGA_GM_BUFFER_WIDTH VGA_GM_BUFFER_WIDTH VGA_GM_BUFFER_HEIGHT b y x len "rgb_to_vga c"]
      by (simp add: vga_gm_draw_lineh_def with_vga_def xl word_le_nat_alt not_le vga_size)
  qed auto
  then obtain gd' where gd': "graphics_driver_draw_lineh x y len c gd = Some (True, gd')"
    "painted gd (\<lambda>i j. if i \<in> {unat x..<min (unat x + unat len) (gd_width gd)} \<and> j \<in> {unat y} then gd_color gd c else gd_px gd i j) gd'" by blast
  show ?thesis by (intro exI [of _ gd'] conjI gd'(1) painted_cong [OF gd'(2)]) auto
qed

text \<open>A vertical line must end above the lower edge: the loop of the framebuffer is bounded by the width.\<close>

lemma draw_linev_px:
  assumes "gd_ok gd" "unat x < gd_width gd" "unat y < gd_height gd" "unat y + unat len \<le> gd_height gd"
    "gd_height gd \<le> gd_width gd"
  shows "\<exists>gd'. graphics_driver_draw_linev x y len c gd = Some (True, gd') \<and>
    painted gd (\<lambda>i j. if i = unat x \<and> unat y \<le> j \<and> j < unat y + unat len then gd_color gd c else gd_px gd i j) gd'"
proof -
  have h: "gd_height gd < 2 ^ 64"
    using assms(1) unat_u64_less by (auto simp: gd_height_def graphics_driver_get_size_def split: graphics_driver.split)
  then have yl: "unat (y + len) = unat y + unat len" using assms(4) by (simp add: unat_word_ariths mod_less)
  have "\<exists>gd'. graphics_driver_draw_linev x y len c gd = Some (True, gd') \<and>
    painted gd (\<lambda>i j. if i \<in> {unat x} \<and> j \<in> {unat y..<unat y + unat len} then gd_color gd c else gd_px gd i j) gd'"
    unfolding graphics_driver_draw_linev_def
  proof (rule on_driver_fill [OF assms(1)])
    fix fb b assume "gd = GD_FRAMEBUFFER fb" "fb_back_buffer fb = Some b"
      "canvas (fb_caluclated_pitch fb) (fb_width fb) (fb_height fb) b"
    then show "framebuffer_write_linev x y len (framebuffer_format_color fb c) fb = with_back fb (\<lambda>b. Some (paint
        (rect (unat (fb_caluclated_pitch fb)) {unat x} {unat y..<unat y + unat len}) (\<lambda>_. framebuffer_format_color fb c) b))"
      using assms(2-5) by (simp add: framebuffer_write_linev_def with_back_def vline_paint yl word_le_nat_alt not_le min_def)
  next
    fix vb b assume "gd = GD_VGA vb" "vb_buffer vb = Some b" "IS_VALID_BUFFER vb"
      "canvas VGA_GM_BUFFER_WIDTH VGA_GM_BUFFER_WIDTH VGA_GM_BUFFER_HEIGHT b"
    then show "vga_gm_draw_linev x y len (rgb_to_vga c) vb = with_vga vb (\<lambda>b. Some (paint
        (rect 320 {unat x} {unat y..<unat y + unat len}) (\<lambda>_. rgb_to_vga c) b))"
      using assms(2-5) vline_paint [of VGA_GM_BUFFER_WIDTH VGA_GM_BUFFER_WIDTH VGA_GM_BUFFER_HEIGHT b x y len VGA_GM_BUFFER_HEIGHT "rgb_to_vga c"]
      by (simp add: vga_gm_draw_linev_def with_vga_def yl word_le_nat_alt not_le vga_size min_def)
  qed (use assms(2) in auto)
  then obtain gd' where gd': "graphics_driver_draw_linev x y len c gd = Some (True, gd')"
    "painted gd (\<lambda>i j. if i \<in> {unat x} \<and> j \<in> {unat y..<unat y + unat len} then gd_color gd c else gd_px gd i j) gd'" by blast
  show ?thesis by (intro exI [of _ gd'] conjI gd'(1) painted_cong [OF gd'(2)]) auto
qed

text \<open>On a screen that is wider than high, a line that crosses the lower edge leaves the buffer.\<close>

definition wide_framebuffer :: framebuffer where
  "wide_framebuffer = \<lparr>fb_address = [], fb_back_buffer = Some (replicate 32 0), fb_size = 128, fb_width = 8, fb_height = 4,
     fb_pitch = 32, fb_caluclated_pitch = 8, fb_format = ARGB8888\<rparr>"

lemma linev_leaves_buffer:
  "gd_ok (GD_FRAMEBUFFER wide_framebuffer) \<and>
   graphics_driver_draw_linev 1 2 4 (rgb 0 0 0) (GD_FRAMEBUFFER wide_framebuffer) = None"
proof -
  have "[2..<6] = [2, 3, 4, 5::nat]" by code_simp
  then show ?thesis
    by (simp add: gd_ok_def canvas_def wide_framebuffer_def graphics_driver_draw_linev_def on_driver_def
      framebuffer_write_linev_def with_back_def vline_def put_pixel_def pixel_index_def wr8_def word_le_nat_alt)
qed

text \<open>A framebuffer of less than 64 bytes is copied without end.\<close>

lemma render_small:
  "fb_size fb < 64 \<Longrightarrow> framebuffer_render fb = None"
proof -
  assume "fb_size fb < 64"
  then have "unat (fb_size fb) div 64 = 0" by (simp add: word_less_nat_alt)
  then have "unat (drop_bit 6 (fb_size fb)) = 0" by (simp add: drop_bit_eq_div unat_div)
  then show ?thesis by (simp add: framebuffer_render_def)
qed

text \<open>What a moved rectangle shows: its old place is cleared, its new one holds what it showed.\<close>

definition moved :: "nat \<Rightarrow> nat \<Rightarrow> nat \<Rightarrow> nat \<Rightarrow> nat \<Rightarrow> nat \<Rightarrow> (nat \<Rightarrow> nat \<Rightarrow> u32) \<Rightarrow> nat \<Rightarrow> nat \<Rightarrow> u32" where
  "moved x y w h nx ny f i j =
     (if nx \<le> i \<and> i < nx + w \<and> ny \<le> j \<and> j < ny + h then f (i - nx + x) (j - ny + y)
      else if x \<le> i \<and> i < x + w \<and> y \<le> j \<and> j < y + h then 0 else f i j)"

lemma fb_move_px:
  fixes b :: "u32 list"
  assumes c: "canvas p sw sh b" and r: "unat x + unat w \<le> unat sw" "unat y + unat h \<le> unat sh"
    "unat nx + unat w \<le> unat sw" "unat ny + unat h \<le> unat sh"
  shows "\<exists>b'. (do { temp \<leftarrow> save_rows p x y w h b; b \<leftarrow> clear_rows p x y w h 0 b; store_rows p nx ny w h temp b }) = Some b' \<and>
    length b' = length b \<and> (\<forall>i<unat sw. \<forall>j<unat sh. px p b' i j = moved (unat x) (unat y) (unat w) (unat h) (unat nx) (unat ny) (px p b) i j)"
proof -
  obtain temp where t: "save_rows p x y w h b = Some temp" "length temp = unat h * unat w"
      "\<And>r d. r < unat h \<Longrightarrow> d < unat w \<Longrightarrow> temp ! (r * unat w + d) = px p b (unat x + d) (unat y + r)"
    using save_rows_px [OF c r(1,2)] by blast
  define b1 where "b1 = paint (rect (unat p) {unat x..<unat x + unat w} {unat y..<unat y + unat h}) (\<lambda>_. 0) b"
  define g where "g = block_at (unat p) (unat nx) (unat ny) (unat w) temp"
  define b2 where "b2 = paint (rect (unat p) {unat nx..<unat nx + unat w} {unat ny..<unat ny + unat h}) g b1"
  have c1: "canvas p sw sh b1" by (rule canvas_length [OF c]) (simp add: b1_def)
  have "unat h * unat w \<le> unat sh * unat p" using r(1,2) c by (intro mult_le_mono) (auto simp: canvas_def)
  then have "unat h * unat w < 2 ^ 64" using c by (simp add: canvas_def)
  then have "store_rows p nx ny w h temp b1 = Some b2"
    unfolding b2_def g_def by (rule store_rows_paint [OF c1 r(3,4) t(2)])
  moreover have "clear_rows p x y w h 0 b = Some b1" unfolding b1_def by (rule clear_rows_paint [OF c r(1,2)])
  moreover have "px p b2 i j = moved (unat x) (unat y) (unat w) (unat h) (unat nx) (unat ny) (px p b) i j"
    if ij: "i < unat sw" "j < unat sh" for i j
  proof -
    have ip: "i < unat p" "{unat nx..<unat nx + unat w} \<subseteq> {..<unat p}" "{unat x..<unat x + unat w} \<subseteq> {..<unat sw}"
      using ij c r by (auto simp: canvas_def)
    have gi: "g (j * unat p + i) = temp ! ((j - unat ny) * unat w + (i - unat nx))"
      using ip(1) by (simp add: g_def block_at_def)
    show ?thesis
      unfolding b2_def px_paint [OF c1 ij] in_rect [OF ip(1,2)] gi
      unfolding b1_def px_rect_fill [OF c ip(3) ij]
      using t(3) [of "j - unat ny" "i - unat nx"] by (auto simp: moved_def add.commute)
  qed
  ultimately show ?thesis using t(1) by (intro exI [of _ b2]) (simp add: b2_def b1_def)
qed

lemma move_square_fb:
  assumes "gd = GD_FRAMEBUFFER fb" "gd_ok gd" "unat x + unat w \<le> gd_width gd" "unat y + unat h \<le> gd_height gd"
    "unat nx + unat w \<le> gd_width gd" "unat ny + unat h \<le> gd_height gd"
  shows "\<exists>gd'. graphics_driver_move_square True x y w h nx ny gd = Some (True, gd') \<and>
    painted gd (moved (unat x) (unat y) (unat w) (unat h) (unat nx) (unat ny) (gd_px gd)) gd'"
proof -
  obtain b where b: "fb_back_buffer fb = Some b" "canvas (fb_caluclated_pitch fb) (fb_width fb) (fb_height fb) b"
    using assms(1,2) by (auto simp: gd_ok_def split: option.splits)
  have r: "unat x + unat w \<le> unat (fb_width fb)" "unat y + unat h \<le> unat (fb_height fb)"
    "unat nx + unat w \<le> unat (fb_width fb)" "unat ny + unat h \<le> unat (fb_height fb)" using assms by simp_all
  have nw: "unat (u + v) = unat u + unat v" if "unat u + unat v \<le> unat k" for u v k :: u64
    using that unat_u64_less [of k] by (simp add: unat_word_ariths mod_less)
  have guard: "\<not> (x + w > fb_width fb \<or> y + h > fb_height fb \<or> nx + w > fb_width fb \<or> ny + h > fb_height fb)"
    using r nw [OF r(1)] nw [OF r(2)] nw [OF r(3)] nw [OF r(4)] by (simp add: word_less_nat_alt)
  obtain b' where b': "(do { temp \<leftarrow> save_rows (fb_caluclated_pitch fb) x y w h b; b \<leftarrow> clear_rows (fb_caluclated_pitch fb) x y w h 0 b;
      store_rows (fb_caluclated_pitch fb) nx ny w h temp b }) = Some b'" "length b' = length b"
      "\<forall>i<unat (fb_width fb). \<forall>j<unat (fb_height fb). px (fb_caluclated_pitch fb) b' i j =
        moved (unat x) (unat y) (unat w) (unat h) (unat nx) (unat ny) (px (fb_caluclated_pitch fb) b) i j"
    using fb_move_px [OF b(2) r] by blast
  have "graphics_driver_move_square True x y w h nx ny gd = Some (True, GD_FRAMEBUFFER (fb\<lparr>fb_back_buffer := Some b'\<rparr>))"
    using guard b' b(1) assms(1) by (simp add: graphics_driver_move_square_def on_driver_def framebuffer_move_square_def with_back_def)
  moreover have "painted gd (moved (unat x) (unat y) (unat w) (unat h) (unat nx) (unat ny) (gd_px gd)) (GD_FRAMEBUFFER (fb\<lparr>fb_back_buffer := Some b'\<rparr>))"
    unfolding assms(1) by (rule painted_fb [OF b b'(2)])
      (use b'(3) b(1) in \<open>simp add: gd_px_def moved_def\<close>)
  ultimately show ?thesis by blast
qed

lemma rect_full: "0 < p \<Longrightarrow> rect p {0..<p} {y..<y + h} = {y * p..<y * p + h * p}"
proof -
  assume p: "0 < p"
  have "k \<in> rect p {0..<p} {y..<y + h}" if "y * p \<le> k" "k < y * p + h * p" for k
  proof -
    have "y \<le> k div p" using that(1) p by (simp add: less_eq_div_iff_mult_less_eq)
    moreover have "k div p < y + h" using that(2) by (intro less_mult_imp_div_less) (simp add: algebra_simps)
    ultimately show ?thesis unfolding rect_def by (intro UN_I [of "k div p"] UN_I [of "k mod p"]) (use p in auto)
  qed
  moreover have "y * p \<le> j * p + i \<and> j * p + i < y * p + h * p" if "i < p" "y \<le> j" "j < y + h" for i j
  proof -
    have "y * p \<le> j * p" using that(2) by (rule mult_le_mono1)
    moreover have "j * p + i < y * p + h * p" using that place_less [of i p j "y + h"] by (simp add: add_mult_distrib)
    ultimately show ?thesis by linarith
  qed
  ultimately show ?thesis by (auto simp: rect_def)
qed

text \<open>The VGA driver takes the rows to lie behind each other, which holds for rows of full width.\<close>

lemma move_square_vga:
  assumes "gd = GD_VGA vb" "gd_ok gd" "x = 0" "nx = 0" "unat w = gd_width gd"
    "unat y + unat h \<le> gd_height gd" "unat ny + unat h \<le> gd_height gd"
  shows "\<exists>gd'. graphics_driver_move_square True x y w h nx ny gd = Some (True, gd') \<and>
    painted gd (moved (unat x) (unat y) (unat w) (unat h) (unat nx) (unat ny) (gd_px gd)) gd'"
proof -
  obtain b where b: "vb_buffer vb = Some b" "IS_VALID_BUFFER vb" "length b = 64000"
    using assms(1,2) by (auto simp: gd_ok_def split: option.splits)
  have w: "unat w = 320" and h: "unat y + unat h \<le> 200" "unat ny + unat h \<le> 200" using assms(1,5-7) b(2) by simp_all
  have w': "w = 320" using w by (simp add: word_unat_eq_iff)
  have idx: "pixel_index VGA_GM_BUFFER_WIDTH 0 v = unat v * 320" if "unat v \<le> 200" for v
    using that by (simp add: pixel_index_def VGA_GM_BUFFER_WIDTH_def unat_word_ariths mod_less)
  have n: "unat (w * h) = 320 * unat h" using h(1) by (simp add: w' unat_word_ariths mod_less)
  have guard: "\<not> (x + w > VGA_GM_BUFFER_WIDTH \<or> y + h > VGA_GM_BUFFER_HEIGHT \<or> nx + w > VGA_GM_BUFFER_WIDTH \<or> ny + h > VGA_GM_BUFFER_HEIGHT)"
    using h by (simp add: assms(3,4) w' word_less_nat_alt VGA_GM_BUFFER_WIDTH_def VGA_GM_BUFFER_HEIGHT_def unat_word_ariths mod_less)
  define temp where "temp = take (320 * unat h) (drop (unat y * 320) b)"
  have lt: "length temp = 320 * unat h" using h(1) b(3) by (simp add: temp_def)
  define b1 where "b1 = paint (rect 320 {0..<320} {unat y..<unat y + unat h}) (\<lambda>_. 0) b"
  define g where "g = (\<lambda>k. temp ! (k - unat ny * 320))"
  define b2 where "b2 = paint (rect 320 {0..<320} {unat ny..<unat ny + unat h}) g b1"
  have r: "rd_slice b (unat y * 320) (320 * unat h) = Some temp" using h(1) b(3) by (simp add: rd_slice_def temp_def)
  have w1: "wr_bytes b (unat y * 320) (replicate (320 * unat h) 0) = Some b1"
    using wr_bytes_paint [of "unat y * 320" "replicate (320 * unat h) 0" b "\<lambda>_. 0"] h(1) b(3)
    by (simp add: b1_def rect_full mult.commute)
  have w2: "wr_bytes b1 (unat ny * 320) temp = Some b2"
    using wr_bytes_paint [of "unat ny * 320" temp b1 g] h(2) b(3) lt by (simp add: b2_def b1_def g_def rect_full mult.commute)
  have c: "canvas VGA_GM_BUFFER_WIDTH VGA_GM_BUFFER_WIDTH VGA_GM_BUFFER_HEIGHT b" using b(3) by (simp add: canvas_def vga_size)
  have c1: "canvas VGA_GM_BUFFER_WIDTH VGA_GM_BUFFER_WIDTH VGA_GM_BUFFER_HEIGHT b1" by (rule canvas_length [OF c]) (simp add: b1_def)
  have px2: "px VGA_GM_BUFFER_WIDTH b2 i j = (if unat ny \<le> j \<and> j < unat ny + unat h then px VGA_GM_BUFFER_WIDTH b i (j - unat ny + unat y)
      else if unat y \<le> j \<and> j < unat y + unat h then 0 else px VGA_GM_BUFFER_WIDTH b i j)" if ij: "i < 320" "j < 200" for i j
  proof -
    have ij': "i < unat VGA_GM_BUFFER_WIDTH" "j < unat VGA_GM_BUFFER_HEIGHT" using ij by (simp_all add: vga_size)
    have in1: "j * 320 + i \<in> rect 320 {0..<320} Y \<longleftrightarrow> j \<in> Y" for Y using in_rect [of i 320 "{0..<320}" j Y] ij(1) by (simp add: lessThan_atLeast0)
    have gi: "g (j * 320 + i) = px VGA_GM_BUFFER_WIDTH b i (j - unat ny + unat y)" if "unat ny \<le> j" "j < unat ny + unat h"
    proof -
      have "(j - unat ny) * 320 + i < unat h * 320" using that ij(1) by (intro place_less) auto
      then show ?thesis using that h(1) b(3)
        by (simp add: g_def temp_def px_def vga_size diff_mult_distrib add_mult_distrib algebra_simps)
    qed
    show ?thesis unfolding b2_def px_paint [OF c1 ij'] vga_size in1
      unfolding b1_def px_paint [OF c ij'] vga_size in1 using gi by auto
  qed
  have "graphics_driver_move_square True x y w h nx ny gd = Some (True, GD_VGA (vb\<lparr>vb_buffer := Some b2\<rparr>))"
    using guard b(1,2) r w1 w2 h idx [of y] idx [of ny] n
    by (simp add: assms(1,3,4) graphics_driver_move_square_def on_driver_def vga_gm_draw_move_square_def with_vga_def)
  moreover have "painted gd (moved (unat x) (unat y) (unat w) (unat h) (unat nx) (unat ny) (gd_px gd)) (GD_VGA (vb\<lparr>vb_buffer := Some b2\<rparr>))"
    unfolding assms(1) by (rule painted_vga [OF b])
      (use px2 w b(1) assms(3,4) in \<open>simp_all add: gd_px_def moved_def b2_def b1_def\<close>)
  ultimately show ?thesis by blast
qed

text \<open>Drawing in a loop: the rounds paint parts of the same picture.\<close>

lemma each_painted:
  assumes "gd_ok gd"
    and "\<And>k gd1. k \<in> set ks \<Longrightarrow> gd_ok gd1 \<Longrightarrow> gd_color gd1 = gd_color gd \<Longrightarrow>
      graphics_driver_get_size gd1 = graphics_driver_get_size gd \<Longrightarrow>
      \<exists>gd2. f k gd1 = Some gd2 \<and> painted gd1 (\<lambda>i j. if P k i j then g i j else gd_px gd1 i j) gd2"
  shows "\<exists>gd'. each f ks gd = Some gd' \<and> painted gd (\<lambda>i j. if \<exists>k\<in>set ks. P k i j then g i j else gd_px gd i j) gd'"
proof -
  have "\<exists>gd'. each f ks gd1 = Some gd' \<and> painted gd1 (\<lambda>i j. if \<exists>k\<in>set ks. P k i j then g i j else gd_px gd1 i j) gd'"
    if "gd_ok gd1" "gd_color gd1 = gd_color gd" "graphics_driver_get_size gd1 = graphics_driver_get_size gd" for gd1
    using assms(2) that
  proof (induction ks arbitrary: gd1)
    case Nil
    then show ?case using painted_self by simp
  next
    case (Cons k ks)
    then obtain gd2 where 2: "f k gd1 = Some gd2" "painted gd1 (\<lambda>i j. if P k i j then g i j else gd_px gd1 i j) gd2"
      by (meson list.set_intros(1))
    obtain gd' where 3: "each f ks gd2 = Some gd'"
        "painted gd2 (\<lambda>i j. if \<exists>k\<in>set ks. P k i j then g i j else gd_px gd2 i j) gd'"
      using Cons.IH [of gd2] Cons.prems paintedD [OF 2(2)] by auto
    have "painted gd1 (\<lambda>i j. if \<exists>k\<in>set (k # ks). P k i j then g i j else gd_px gd1 i j) gd'"
      by (rule painted_trans [OF 2(2) 3(2)]) (use paintedD(7) [OF 2(2)] in auto)
    then show ?case using 2(1) 3(1) by auto
  qed
  then show ?thesis using assms(1) by simp
qed

section \<open>Showing the picture\<close>

definition renderable :: "graphics_driver \<Rightarrow> u8 list \<Rightarrow> bool" where
  "renderable gd screen = (case gd_memory gd of
     Some (n, a, b) \<Rightarrow> 0 < n \<and> 16 * n \<le> a \<and> 16 * n \<le> b | None \<Rightarrow> 64000 \<le> length screen)"

lemma renderable_painted: "painted gd f gd' \<Longrightarrow> renderable gd screen \<Longrightarrow> renderable gd' screen"
  by (simp add: renderable_def paintedD(6))

text \<open>The screen holds the buffer afterwards, and the picture in it is the same.\<close>

lemma render_ok:
  assumes "gd_ok gd" "renderable gd screen"
  shows "\<exists>gd' screen'. graphics_driver_render gd screen = Some (True, gd', screen') \<and> painted gd (gd_px gd) gd' \<and>
    length screen' = length screen"
  using assms(1)
proof (cases rule: gd_ok_cases)
  case (fb fb b)
  let ?n = "unat (drop_bit 6 (fb_size fb))"
  define adr where "adr = take (16 * ?n) b @ drop (16 * ?n) (fb_address fb)"
  have n: "0 < ?n" "16 * ?n \<le> length (fb_address fb)" "16 * ?n \<le> length b"
    using assms(2) fb(1,2) by (simp_all add: renderable_def gd_memory_def)
  then have "framebuffer_render fb = Some (True, fb\<lparr>fb_address := adr\<rparr>)"
    using fb(2) by (simp add: framebuffer_render_def rd_slice_def wr_bytes_def adr_def Let_def)
  moreover have "length adr = length (fb_address fb)" using n by (simp add: adr_def)
  then have "painted gd (gd_px gd) (GD_FRAMEBUFFER (fb\<lparr>fb_address := adr\<rparr>))"
    using fb by (auto simp: painted_def gd_ok_def gd_px_def gd_color_def graphics_driver_get_size_def gd_memory_def
        framebuffer_format_color_def fun_eq_iff)
  ultimately show ?thesis using fb(1) by (simp add: graphics_driver_render_def)
next
  case (vga vb b)
  have "64000 \<le> length screen" using assms(2) vga(1) by (simp add: renderable_def gd_memory_def)
  moreover have "unat (vb_width vb * vb_height vb) = 64000"
    using vga(3) by (simp add: IS_VALID_BUFFER_def VGA_GM_BUFFER_WIDTH_def VGA_GM_BUFFER_HEIGHT_def)
  ultimately show ?thesis using vga painted_self [OF assms(1)]
    by (simp add: graphics_driver_render_def vga_gm_render_def rd_slice_def wr_bytes_def)
qed

end
