(* ===== verification/Kterminal.thy ===== *)
theory Kterminal
  imports Canvas Font Std_String Input
begin

text \<open>
  The kernel's terminal: \<open>src/kernel/src/kterminal.cpp\<close> and the colours of \<open>src/kernel/include/ansi.hpp\<close>.

  The terminal and the graphics driver are passed along as a pair; \<open>alloc_ok\<close> is whether the memory for a
  scroll can be had, the same for all of a call. A text to write is the list of its characters, which its callers
  measure with \<open>strlen\<close>. A command is not executed but returned; what the built-in commands print is left out.
\<close>

record kterminal =
  km_width :: u64
  km_height :: u64
  km_useable_height :: u64
  km_useable_width :: u64
  km_x_rows :: u32
  km_y_rows :: u32
  km_cursor_x :: u32
  km_cursor_y :: u32
  km_is_ready :: bool
  km_current_input :: "u8 list"
  km_keep_alive :: bool
  km_fg_color :: color

type_synonym term_state = "kterminal \<times> graphics_driver"

definition black :: color where "black = rgb 0 0 0"

definition kterm_init :: "kterminal \<Rightarrow> graphics_driver \<Rightarrow> bool \<times> kterminal" where
  "kterm_init k gd =
     (if km_is_ready k then (False, k)
      else case graphics_driver_get_size gd of
        None \<Rightarrow> (False, k)
      | Some (w, h) \<Rightarrow>
          (let uh = h - h mod CHARACTER_HEIGHT; uw = w - w mod CHARACTER_WIDTH
           in (True, k\<lparr>km_width := w, km_height := h, km_useable_height := uh, km_useable_width := uw,
                 km_y_rows := ucast (uh div CHARACTER_HEIGHT), km_x_rows := ucast (uw div CHARACTER_WIDTH),
                 km_is_ready := True, km_keep_alive := True\<rparr>)))"

text \<open>The pixel position of the cursor, computed in 32 bits.\<close>

definition cursor_px :: "kterminal \<Rightarrow> u64 \<times> u64" where
  "cursor_px k = (ucast (km_cursor_x k * 8), ucast (km_cursor_y k * 16))"

definition draw_at_cursor :: "u8 \<Rightarrow> term_state \<Rightarrow> term_state option" where
  "draw_at_cursor ch = (\<lambda>(k, gd). map_option (Pair k)
     (graphics_driver_draw_character (fst (cursor_px k)) (snd (cursor_px k)) ch (km_fg_color k) black gd))"

definition kterm_handle_newline :: "bool \<Rightarrow> term_state \<Rightarrow> term_state option" where
  "kterm_handle_newline alloc_ok = (\<lambda>(k, gd). do {
     (_, gd) \<leftarrow> graphics_driver_draw_square (fst (cursor_px k)) (snd (cursor_px k)) CHARACTER_WIDTH CHARACTER_HEIGHT black gd;
     let k = k\<lparr>km_cursor_x := 0\<rparr>;
     if km_cursor_y k + 1 < km_y_rows k then Some (k\<lparr>km_cursor_y := km_cursor_y k + 1\<rparr>, gd)
     else do {
       (_, gd) \<leftarrow> graphics_driver_move_square alloc_ok 0 CHARACTER_HEIGHT (km_useable_width k)
                    (km_useable_height k - CHARACTER_HEIGHT) 0 0 gd;
       (_, gd) \<leftarrow> graphics_driver_draw_square 0 (km_useable_height k - CHARACTER_HEIGHT) (km_useable_width k)
                    CHARACTER_HEIGHT black gd;
       Some (k, gd) } })"

text \<open>
  The cases of \<open>kterm_write_char\<close>, given the function for a tab, and the function itself: a tab writes four
  blanks, which are not tabs.
\<close>

definition kterm_put :: "bool \<Rightarrow> (term_state \<Rightarrow> term_state option) \<Rightarrow> u8 \<Rightarrow> term_state \<Rightarrow> term_state option" where
  "kterm_put alloc_ok tab ch s = do {
     s \<leftarrow> (if km_cursor_x (fst s) + 1 \<ge> km_x_rows (fst s) then kterm_handle_newline alloc_ok s else Some s);
     s \<leftarrow> (if ch = 0x0A then kterm_handle_newline alloc_ok s
           else if ch = 0x0D then Some ((fst s)\<lparr>km_cursor_x := 0\<rparr>, snd s)
           else if ch = 0x08 then do {
             s \<leftarrow> draw_at_cursor 0x20 s;
             Some (if km_cursor_x (fst s) \<ge> 1 then ((fst s)\<lparr>km_cursor_x := km_cursor_x (fst s) - 1\<rparr>, snd s) else s) }
           else if ch = 0x09 then tab s
           else do {
             s \<leftarrow> draw_at_cursor ch s;
             Some ((fst s)\<lparr>km_cursor_x := km_cursor_x (fst s) + 1\<rparr>, snd s) });
     draw_at_cursor 0x5F s }"

definition kterm_write_char :: "bool \<Rightarrow> u8 \<Rightarrow> term_state \<Rightarrow> term_state option" where
  "kterm_write_char alloc_ok =
     kterm_put alloc_ok (each (\<lambda>_. kterm_put alloc_ok (\<lambda>_. None) 0x20) [0..<4])"

definition render_term :: "u8 list \<Rightarrow> term_state \<Rightarrow> (bool \<times> term_state \<times> u8 list) option" where
  "render_term screen = (\<lambda>(k, gd). map_option (\<lambda>(r, gd, screen). (r, (k, gd), screen)) (graphics_driver_render gd screen))"

definition kterm_write_string_stream ::
  "bool \<Rightarrow> u8 list \<Rightarrow> u8 list \<Rightarrow> term_state \<Rightarrow> (bool \<times> term_state \<times> u8 list) option" where
  "kterm_write_string_stream alloc_ok buffer screen s = do {
     s \<leftarrow> each (kterm_write_char alloc_ok) buffer s;
     render_term screen s }"

section \<open>Colour sequences\<close>

text \<open>\<open>ansi_to_rgb\<close> for the numbers of \<open>ansi_color_t\<close>.\<close>

definition ansi_to_rgb :: "nat \<Rightarrow> color" where
  "ansi_to_rgb n =
     (if n = 0 then rgb 0x00 0x00 0x00 else if n = 1 then rgb 0xAA 0x00 0x00 else if n = 2 then rgb 0x00 0xAA 0x00
      else if n = 3 then rgb 0xAA 0x55 0x00 else if n = 4 then rgb 0x00 0x00 0xAA else if n = 5 then rgb 0xAA 0x00 0xAA
      else if n = 6 then rgb 0x00 0xAA 0xAA else if n = 7 then rgb 0xAA 0xAA 0xAA else if n = 8 then rgb 0x55 0x55 0x55
      else if n = 9 then rgb 0x55 0x55 0xFF else if n = 10 then rgb 0x55 0xFF 0x55 else if n = 11 then rgb 0x55 0xFF 0xFF
      else if n = 12 then rgb 0xFF 0x55 0x55 else if n = 13 then rgb 0xFF 0x55 0xFF else if n = 14 then rgb 0xFF 0xFF 0x55
      else if n = 15 then rgb 0xFF 0xFF 0xFF else rgb 0x00 0x00 0x00)"

record ansi =
  an_sequence :: bool
  an_color_sequence :: bool
  an_num_buf :: "u8 list"
  an_color_map :: color

definition ansi_code_color :: "int \<Rightarrow> color \<Rightarrow> color" where
  "ansi_code_color code color_map =
     (if code = 0 then rgb 255 255 255
      else if code \<ge> 30 \<and> code \<le> 37 then ansi_to_rgb (nat (code - 30))
      else if code \<ge> 90 \<and> code \<le> 97 then ansi_to_rgb (nat (code - 90 + 8))
      else if code \<ge> 40 \<and> code \<le> 47 then ansi_to_rgb (nat (code - 40))
      else if code \<ge> 100 \<and> code \<le> 107 then ansi_to_rgb (nat (code - 100 + 8))
      else color_map)"

text \<open>One character of the stream; \<open>an_num_buf\<close> are the first \<open>ansi_num_len\<close> characters of the buffer.\<close>

definition ansi_step :: "bool \<Rightarrow> u8 \<Rightarrow> ansi \<times> term_state \<Rightarrow> (ansi \<times> term_state) option" where
  "ansi_step alloc_ok ch = (\<lambda>(a, s).
     (if ch = 0x1B then Some (a\<lparr>an_sequence := True\<rparr>, s)
      else if ch = 0x5B \<and> an_sequence a then Some (a\<lparr>an_color_sequence := True, an_num_buf := []\<rparr>, s)
      else if an_color_sequence a \<and> char_is_num ch then
        Some (if length (an_num_buf a) < 3 then a\<lparr>an_num_buf := an_num_buf a @ [ch]\<rparr> else a, s)
      else if an_color_sequence a \<and> (ch = 0x3B \<or> ch = 0x6D) then do {
        code \<leftarrow> atoi (an_num_buf a);
        let a = a\<lparr>an_num_buf := [], an_color_map := ansi_code_color code (an_color_map a)\<rparr>;
        if ch = 0x6D
        then Some (a\<lparr>an_sequence := False, an_color_sequence := False\<rparr>, (fst s)\<lparr>km_fg_color := an_color_map a\<rparr>, snd s)
        else Some (a, s) }
      else map_option (Pair a) (kterm_write_char alloc_ok ch s)))"

definition ansi_start :: "kterminal \<Rightarrow> ansi" where
  "ansi_start k = \<lparr>an_sequence = False, an_color_sequence = False, an_num_buf = [], an_color_map = km_fg_color k\<rparr>"

definition kterm_write_ansi_stream ::
  "bool \<Rightarrow> u8 list \<Rightarrow> u8 list \<Rightarrow> term_state \<Rightarrow> (bool \<times> term_state \<times> u8 list) option" where
  "kterm_write_ansi_stream alloc_ok buffer screen s = do {
     (_, s) \<leftarrow> each (ansi_step alloc_ok) buffer (ansi_start (fst s), s);
     render_term screen s }"

definition kterm_write_stream ::
  "bool \<Rightarrow> u8 list \<Rightarrow> u8 list \<Rightarrow> term_state \<Rightarrow> (bool \<times> term_state \<times> u8 list) option" where
  "kterm_write_stream alloc_ok buffer screen s =
     (if \<not> km_is_ready (fst s) then Some (False, s, screen)
      else if strff buffer 0x1B 0 \<ge> 0 then kterm_write_ansi_stream alloc_ok buffer screen s
      else kterm_write_string_stream alloc_ok buffer screen s)"

section \<open>The command line\<close>

text \<open>What a command line asks for; the answer to it is printed, or a program is started.\<close>

datatype kterm_action = KA_NETSTAT | KA_MEMDUMP u64 | KA_DNS_RESOLVE std_string | KA_DNS_NO_NAME | KA_DNS_SERVER | KA_DNS_NONE
  | KA_DISKSTAT | KA_MEMSTAT | KA_PCISTAT | KA_SYSTEMSTAT | KA_LS std_string | KA_LS_NO_PATH | KA_HELP | KA_UNKNOWN
  | KA_EXECUTE std_string

text \<open>The \<open>switch\<close> compares hashes; \<open>''^''\<close> marks the built-in commands.\<close>

definition kterm_execute_command :: "std_string \<Rightarrow> std_string list \<Rightarrow> kterm_action option" where
  "kterm_execute_command command args = do {
     p \<leftarrow> c_str command;
     let str = cstr_bytes p;
     let hash = fnv1a_64 (map (\<lambda>c. char_of (unat c)) str);
     if \<not> str_starts_with str (b8 ''^'') then Some (KA_EXECUTE command)
     else if hash = fnv1a_64 ''^netstat'' then Some KA_NETSTAT
     else if hash = fnv1a_64 ''^memdump'' then
       (case args of [] \<Rightarrow> Some (KA_MEMDUMP 256)
        | arg0 # _ \<Rightarrow> map_option (\<lambda>p. KA_MEMDUMP (atoll (cstr_bytes p))) (c_str arg0))
     else if hash = fnv1a_64 ''^dns'' then
       (case args of [] \<Rightarrow> Some KA_DNS_NONE
        | arg0 # rest \<Rightarrow> do {
            resolve \<leftarrow> assign_cstr (Some (b8 ''resolve''));
            server \<leftarrow> assign_cstr (Some (b8 ''server''));
            is_resolve \<leftarrow> string_eq arg0 resolve;
            is_server \<leftarrow> string_eq arg0 server;
            Some (if is_resolve then (case rest of [] \<Rightarrow> KA_DNS_NO_NAME | arg1 # _ \<Rightarrow> KA_DNS_RESOLVE arg1)
                  else if is_server then KA_DNS_SERVER else KA_DNS_NONE) })
     else if hash = fnv1a_64 ''^diskstat'' then Some KA_DISKSTAT
     else if hash = fnv1a_64 ''^memstat'' then Some KA_MEMSTAT
     else if hash = fnv1a_64 ''^pcistat'' then Some KA_PCISTAT
     else if hash = fnv1a_64 ''^systemstat'' then Some KA_SYSTEMSTAT
     else if hash = fnv1a_64 ''^ls'' then (case args of [] \<Rightarrow> Some KA_LS_NO_PATH | arg0 # _ \<Rightarrow> Some (KA_LS arg0))
     else if hash = fnv1a_64 ''^help'' then Some KA_HELP
     else Some KA_UNKNOWN }"

text \<open>The input is read as a C string; without a word in it nothing is done.\<close>

definition kterm_handle_command :: "u8 list \<Rightarrow> kterm_action option option" where
  "kterm_handle_command current_input = do {
     n \<leftarrow> strlen current_input;
     line \<leftarrow> assign_cstr (Some (take n current_input));
     parts \<leftarrow> str_split line 0x20;
     case parts of [] \<Rightarrow> Some None
     | command # args \<Rightarrow> map_option Some (kterm_execute_command command args) }"

type_synonym session = "term_state \<times> u8 list"

definition kterm_write :: "bool \<Rightarrow> u8 list \<Rightarrow> session \<Rightarrow> session option" where
  "kterm_write alloc_ok str = (\<lambda>(s, screen). map_option snd (kterm_write_stream alloc_ok str screen s))"

definition upd_input :: "(u8 list \<Rightarrow> u8 list) \<Rightarrow> session \<Rightarrow> session" where
  "upd_input f = (\<lambda>((k, gd), screen). ((k\<lparr>km_current_input := f (km_current_input k)\<rparr>, gd), screen))"

definition input_of :: "session \<Rightarrow> u8 list" where
  "input_of st = km_current_input (fst (fst st))"

text \<open>
  The handler of a key. \<open>perform\<close> does what the command line asks for, which may write to the terminal;
  \<open>shift\<close> and \<open>caps\<close> are \<open>holding_shift\<close> and \<open>holding_caps\<close>. The input's storage is taken to grow.
\<close>

definition kterm_keyboard_handler :: "bool \<Rightarrow> (kterm_action \<Rightarrow> session \<Rightarrow> session option) \<Rightarrow>
    virtual_key \<Rightarrow> bool \<Rightarrow> bool \<Rightarrow> session \<Rightarrow> session option" where
  "kterm_keyboard_handler alloc_ok perform vk shift caps st =
     (if vk = ''ENTER'' then do {
        st \<leftarrow> kterm_write alloc_ok [0x0A] st;
        let st = upd_input (\<lambda>i. i @ [0]) st;
        action \<leftarrow> kterm_handle_command (input_of st);
        st \<leftarrow> (case action of None \<Rightarrow> Some st | Some a \<Rightarrow> perform a st);
        kterm_write alloc_ok [0x0A, 0x3E, 0x20] (upd_input (\<lambda>_. []) st) }
      else if vk = ''BACKSPACE'' then
        (if length (input_of st) > 0 then map_option (upd_input butlast) (kterm_write alloc_ok [0x08] st) else Some st)
      else if vk = ''TAB'' then
        map_option (upd_input (\<lambda>i. i @ [0x20, 0x20, 0x20, 0x20])) (kterm_write alloc_ok [0x20, 0x20, 0x20, 0x20] st)
      else let ch = vk_to_ascii vk shift caps in
        if ch = 0 then Some st
        else map_option (\<lambda>(_, st). upd_input (\<lambda>i. i @ [ch]) st) (kterm_write_string_stream alloc_ok [ch] (snd st) (fst st)))"

end
