(* ===== verification/Kterminal_Page.thy ===== *)
theory Kterminal_Page
  imports Kterminal
begin

text \<open>
  The terminal of the theory Kterminal shows a page of characters: a page is a grid of cells with a cursor, and
  writing to the terminal changes the pixels as writing to the page changes the cells.
\<close>

section \<open>What the terminal shows\<close>

text \<open>The colour of one pixel of a character cell.\<close>

definition cell_px :: "u8 \<times> color \<Rightarrow> nat \<Rightarrow> nat \<Rightarrow> color" where
  "cell_px c dx dy = (if glyph_of (fst c) ! dy AND drop_bit dx 128 \<noteq> 0 then snd c else black)"

lemma character_size: "unat CHARACTER_WIDTH = 8" "unat CHARACTER_HEIGHT = 16"
  by (simp_all add: CHARACTER_WIDTH_def CHARACTER_HEIGHT_def)

lemma draw_character_px:
  assumes "gd_ok gd" "unat x + 8 < 2 ^ 64" "unat y + 16 < 2 ^ 64"
  shows "\<exists>gd'. graphics_driver_draw_character x y ch c black gd = Some gd' \<and>
    painted gd (\<lambda>i j. if unat x \<le> i \<and> i < unat x + 8 \<and> unat y \<le> j \<and> j < unat y + 16
      then gd_color gd (cell_px (ch, c) (i - unat x) (j - unat y)) else gd_px gd i j) gd'"
proof -
  let ?pic = "\<lambda>i j. gd_color gd (cell_px (ch, c) (i - unat x) (j - unat y))"
  let ?dot = "\<lambda>row col gd. map_option snd (graphics_driver_draw_pixel (x + of_nat col) (y + of_nat row)
           (if glyph_of ch ! row AND drop_bit col 128 \<noteq> 0 then c else black) gd)"
  have dot: "\<exists>gd2. ?dot row col gd1 = Some gd2 \<and>
      painted gd1 (\<lambda>i j. if i = unat x + col \<and> j = unat y + row then ?pic i j else gd_px gd1 i j) gd2"
    if a: "gd_ok gd1" "gd_color gd1 = gd_color gd" "row < 16" "col < 8" for row col gd1
  proof -
    have xy: "unat (x + of_nat col) = unat x + col" "unat (y + of_nat row) = unat y + row"
      using assms(2,3) a(3,4) by (simp_all add: unat_word_ariths unat_of_nat mod_less)
    obtain r gd2 where 2: "graphics_driver_draw_pixel (x + of_nat col) (y + of_nat row)
           (if glyph_of ch ! row AND drop_bit col 128 \<noteq> 0 then c else black) gd1 = Some (r, gd2)"
        "painted gd1 (\<lambda>i j. if i = unat x + col \<and> j = unat y + row
          then gd_color gd1 (if glyph_of ch ! row AND drop_bit col 128 \<noteq> 0 then c else black) else gd_px gd1 i j) gd2"
      using draw_pixel_px [OF a(1), of "x + of_nat col" "y + of_nat row"] unfolding xy by blast
    have "painted gd1 (\<lambda>i j. if i = unat x + col \<and> j = unat y + row then ?pic i j else gd_px gd1 i j) gd2"
      by (rule painted_cong [OF 2(2)]) (simp add: cell_px_def a(2))
    then show ?thesis using 2(1) by simp
  qed
  have row: "\<exists>gd2. each (?dot row) [0..<8] gd1 = Some gd2 \<and>
      painted gd1 (\<lambda>i j. if unat x \<le> i \<and> i < unat x + 8 \<and> j = unat y + row then ?pic i j else gd_px gd1 i j) gd2"
    if a: "gd_ok gd1" "gd_color gd1 = gd_color gd" "row < 16" for row gd1
  proof -
    have "\<exists>gd2. each (?dot row) [0..<8] gd1 = Some gd2 \<and>
        painted gd1 (\<lambda>i j. if \<exists>col\<in>set [0..<8]. i = unat x + col \<and> j = unat y + row then ?pic i j else gd_px gd1 i j) gd2"
      by (rule each_painted [OF a(1), where P = "\<lambda>col i j. i = unat x + col \<and> j = unat y + row"], rule dot) (use a in auto)
    then obtain gd2 where 2: "each (?dot row) [0..<8] gd1 = Some gd2"
        "painted gd1 (\<lambda>i j. if \<exists>col\<in>set [0..<8]. i = unat x + col \<and> j = unat y + row then ?pic i j else gd_px gd1 i j) gd2" by blast
    have "(\<exists>col\<in>set [0..<8]. i = unat x + col \<and> j = unat y + row) \<longleftrightarrow> unat x \<le> i \<and> i < unat x + 8 \<and> j = unat y + row" for i j
      by (auto intro!: bexI [of _ "i - unat x"])
    then show ?thesis using 2 by auto
  qed
  have "\<exists>gd'. each (\<lambda>row. each (?dot row) [0..<8]) [0..<16] gd = Some gd' \<and>
      painted gd (\<lambda>i j. if \<exists>row\<in>set [0..<16]. unat x \<le> i \<and> i < unat x + 8 \<and> j = unat y + row then ?pic i j else gd_px gd i j) gd'"
    by (rule each_painted [OF assms(1), where P = "\<lambda>row i j. unat x \<le> i \<and> i < unat x + 8 \<and> j = unat y + row"], rule row) auto
  then obtain gd' where 3: "each (\<lambda>row. each (?dot row) [0..<8]) [0..<16] gd = Some gd'"
      "painted gd (\<lambda>i j. if \<exists>row\<in>set [0..<16]. unat x \<le> i \<and> i < unat x + 8 \<and> j = unat y + row then ?pic i j else gd_px gd i j) gd'" by blast
  have "(\<exists>row\<in>set [0..<16]. unat x \<le> i \<and> i < unat x + 8 \<and> j = unat y + row) \<longleftrightarrow>
      unat x \<le> i \<and> i < unat x + 8 \<and> unat y \<le> j \<and> j < unat y + 16" for i j
    by (auto intro!: bexI [of _ "j - unat y"])
  then show ?thesis using 3 unfolding graphics_driver_draw_character_def character_size by auto
qed

text \<open>A page of characters with the cursor's column and row. A cell that was never written is \<open>None\<close>: it may show anything.\<close>

record page =
  pg_cell :: "nat \<Rightarrow> nat \<Rightarrow> (u8 \<times> color) option"
  pg_x :: nat
  pg_y :: nat

definition blank :: "u8 \<times> color" where "blank = (0x20, black)"

definition pg_draw :: "u8 \<times> color \<Rightarrow> page \<Rightarrow> page" where
  "pg_draw c t = t\<lparr>pg_cell := \<lambda>i j. if i = pg_x t \<and> j = pg_y t then Some c else pg_cell t i j\<rparr>"

definition pg_newline :: "nat \<Rightarrow> page \<Rightarrow> page" where
  "pg_newline rows t =
     (let t = (pg_draw blank t)\<lparr>pg_x := 0\<rparr>
      in if pg_y t + 1 < rows then t\<lparr>pg_y := pg_y t + 1\<rparr>
         else t\<lparr>pg_cell := \<lambda>i j. if j + 1 < rows then pg_cell t i (j + 1) else Some blank\<rparr>)"

definition pg_put :: "nat \<Rightarrow> nat \<Rightarrow> color \<Rightarrow> (page \<Rightarrow> page) \<Rightarrow> u8 \<Rightarrow> page \<Rightarrow> page" where
  "pg_put cols rows fg tab ch t =
     (let t = (if pg_x t + 1 \<ge> cols then pg_newline rows t else t);
          t = (if ch = 0x0A then pg_newline rows t
               else if ch = 0x0D then t\<lparr>pg_x := 0\<rparr>
               else if ch = 0x08 then (pg_draw (0x20, fg) t)\<lparr>pg_x := pg_x t - 1\<rparr>
               else if ch = 0x09 then tab t
               else (pg_draw (ch, fg) t)\<lparr>pg_x := pg_x t + 1\<rparr>)
      in pg_draw (0x5F, fg) t)"

definition pg_char :: "nat \<Rightarrow> nat \<Rightarrow> color \<Rightarrow> u8 \<Rightarrow> page \<Rightarrow> page" where
  "pg_char cols rows fg = pg_put cols rows fg (((pg_put cols rows fg (\<lambda>t. t) 0x20)) ^^ 4)"

text \<open>A terminal of its size on its driver, and the page that it shows.\<close>

definition cols :: "kterminal \<Rightarrow> nat" where "cols k = unat (km_x_rows k)"
definition rows :: "kterminal \<Rightarrow> nat" where "rows k = unat (km_y_rows k)"

definition kterm_ok :: "kterminal \<Rightarrow> graphics_driver \<Rightarrow> bool" where
  "kterm_ok k gd \<longleftrightarrow> gd_ok gd \<and> gd_width gd < 2 ^ 31 \<and> gd_height gd < 2 ^ 31 \<and> 2 \<le> cols k \<and> 1 \<le> rows k \<and>
     unat (km_useable_width k) = 8 * cols k \<and> unat (km_useable_height k) = 16 * rows k \<and>
     8 * cols k \<le> gd_width gd \<and> 16 * rows k \<le> gd_height gd \<and>
     unat (km_cursor_x k) < cols k \<and> unat (km_cursor_y k) < rows k \<and>
     (case gd of GD_VGA _ \<Rightarrow> 8 * cols k = gd_width gd | _ \<Rightarrow> True)"

definition displays :: "kterminal \<Rightarrow> graphics_driver \<Rightarrow> page \<Rightarrow> bool" where
  "displays k gd t \<longleftrightarrow> kterm_ok k gd \<and> pg_x t = unat (km_cursor_x k) \<and> pg_y t = unat (km_cursor_y k) \<and>
     (\<forall>i<cols k. \<forall>j<rows k. \<forall>c. pg_cell t i j = Some c \<longrightarrow>
       (\<forall>dx<8. \<forall>dy<16. gd_px gd (8 * i + dx) (16 * j + dy) = gd_color gd (cell_px c dx dy)))"

lemma displays_cell:
  "displays k gd t \<Longrightarrow> pg_cell t i j = Some c \<Longrightarrow> i < cols k \<Longrightarrow> j < rows k \<Longrightarrow> dx < 8 \<Longrightarrow> dy < 16 \<Longrightarrow>
   gd_px gd (8 * i + dx) (16 * j + dy) = gd_color gd (cell_px c dx dy)"
  unfolding displays_def by blast

lemma cursor_px_eq:
  assumes "kterm_ok k gd"
  shows "unat (fst (cursor_px k)) = 8 * unat (km_cursor_x k)" "unat (snd (cursor_px k)) = 16 * unat (km_cursor_y k)"
proof -
  have "8 * unat (km_cursor_x k) < 2 ^ 31" "16 * unat (km_cursor_y k) < 2 ^ 31"
    using assms by (auto simp: kterm_ok_def)
  then show "unat (fst (cursor_px k)) = 8 * unat (km_cursor_x k)" "unat (snd (cursor_px k)) = 16 * unat (km_cursor_y k)"
    by (simp_all add: cursor_px_def unat_ucast_up unat_word_ariths mod_less mult.commute)
qed

lemma cell_inside:
  assumes "kterm_ok k gd" "i < cols k" "j < rows k" "dx < 8" "dy < 16"
  shows "8 * i + dx < gd_width gd" "16 * j + dy < gd_height gd"
  using assms by (auto simp: kterm_ok_def)

lemma kterm_ok_painted: "kterm_ok k gd \<Longrightarrow> painted gd f gd' \<Longrightarrow> (case gd of GD_VGA _ \<Rightarrow> True | _ \<Rightarrow> False) = (case gd' of GD_VGA _ \<Rightarrow> True | _ \<Rightarrow> False) \<Longrightarrow> kterm_ok k gd'"
  using paintedD [of gd f gd'] by (auto simp: kterm_ok_def split: graphics_driver.splits)

lemma painted_kind:
  assumes "painted gd f gd'" "gd_ok gd"
  shows "(case gd of GD_VGA _ \<Rightarrow> True | _ \<Rightarrow> False) = (case gd' of GD_VGA _ \<Rightarrow> True | _ \<Rightarrow> False)"
  using paintedD(1,6) [OF assms(1)] assms(2) by (auto simp: gd_memory_def gd_ok_def split: graphics_driver.splits)

text \<open>Drawing by whole cells.\<close>

lemma displays_painted:
  assumes "displays k gd t" "painted gd f gd'" "pg_x t' = pg_x t" "pg_y t' = pg_y t"
    and "\<And>i j c dx dy. i < cols k \<Longrightarrow> j < rows k \<Longrightarrow> pg_cell t' i j = Some c \<Longrightarrow> dx < 8 \<Longrightarrow> dy < 16 \<Longrightarrow>
      f (8 * i + dx) (16 * j + dy) = gd_color gd (cell_px c dx dy)"
  shows "displays k gd' t'"
proof -
  have ok: "kterm_ok k gd" using assms(1) by (simp add: displays_def)
  then have "gd_ok gd" by (simp add: kterm_ok_def)
  then have "kterm_ok k gd'" by (rule kterm_ok_painted [OF ok assms(2) painted_kind [OF assms(2)]])
  moreover have "gd_px gd' (8 * i + dx) (16 * j + dy) = gd_color gd' (cell_px c dx dy)"
    if "i < cols k" "j < rows k" "pg_cell t' i j = Some c" "dx < 8" "dy < 16" for i j c dx dy
    using assms(5) [OF that] paintedD(4,7) [OF assms(2)] cell_inside [OF ok that(1,2,4,5)] by simp
  ultimately show ?thesis using assms(1,3,4) unfolding displays_def by (intro conjI allI impI) simp_all
qed

lemma cell_cursor:
  fixes i x :: nat
  assumes "dx < n"
  shows "n * x \<le> n * i + dx \<and> n * i + dx < n * x + n \<longleftrightarrow> i = x"
proof
  assume a: "n * x \<le> n * i + dx \<and> n * i + dx < n * x + n"
  have "(n * i + dx) div n = i" using assms by simp
  moreover have "(n * i + dx) div n = x" using a by (intro div_nat_eqI) (auto simp: mult.commute)
  ultimately show "i = x" by simp
qed (use assms in simp)

lemma draw_at_cursor_displays:
  assumes "displays k gd t"
  shows "\<exists>gd'. draw_at_cursor ch (k, gd) = Some (k, gd') \<and> displays k gd' (pg_draw (ch, km_fg_color k) t) \<and> gd_memory gd' = gd_memory gd"
proof -
  have ok: "kterm_ok k gd" using assms by (simp add: displays_def)
  note c = cursor_px_eq [OF ok]
  have small: "8 * unat (km_cursor_x k) + 8 < 2 ^ 64" "16 * unat (km_cursor_y k) + 16 < 2 ^ 64" using ok by (auto simp: kterm_ok_def)
  obtain gd' where gd': "graphics_driver_draw_character (fst (cursor_px k)) (snd (cursor_px k)) ch (km_fg_color k) black gd = Some gd'"
     "painted gd (\<lambda>i j. if 8 * unat (km_cursor_x k) \<le> i \<and> i < 8 * unat (km_cursor_x k) + 8 \<and>
          16 * unat (km_cursor_y k) \<le> j \<and> j < 16 * unat (km_cursor_y k) + 16
      then gd_color gd (cell_px (ch, km_fg_color k) (i - 8 * unat (km_cursor_x k)) (j - 16 * unat (km_cursor_y k))) else gd_px gd i j) gd'"
    using draw_character_px [of gd "fst (cursor_px k)" "snd (cursor_px k)" ch "km_fg_color k"] ok small unfolding c
    by (auto simp: kterm_ok_def)
  have pxy: "pg_x t = unat (km_cursor_x k)" "pg_y t = unat (km_cursor_y k)" using assms by (simp_all add: displays_def)
  have "displays k gd' (pg_draw (ch, km_fg_color k) t)"
    by (rule displays_painted [OF assms gd'(2)])
      (use displays_cell [OF assms] cell_cursor [of _ 8] cell_cursor [of _ 16] pxy in \<open>auto simp: pg_draw_def split: if_splits\<close>)
  then show ?thesis using gd'(1) paintedD(6) [OF gd'(2)] by (simp add: draw_at_cursor_def)
qed


lemma displays_cursor:
  assumes "displays k gd t" "unat x < cols k" "unat y < rows k"
  shows "displays (k\<lparr>km_cursor_x := x, km_cursor_y := y\<rparr>) gd (t\<lparr>pg_x := unat x, pg_y := unat y\<rparr>)"
  using assms by (simp add: displays_def kterm_ok_def cols_def rows_def split: graphics_driver.splits)

lemma cell_px_blank: "dy < 16 \<Longrightarrow> cell_px blank dx dy = black"
proof -
  assume "dy < 16"
  moreover have "glyph_of 0x20 = replicate 16 0" by (simp add: glyph_of_def font8x16_def eval_nat_numeral)
  ultimately show ?thesis by (simp add: cell_px_def blank_def)
qed

lemma useable_less: "kterm_ok k gd \<Longrightarrow> unat (km_useable_height k - CHARACTER_HEIGHT) = 16 * rows k - 16"
proof -
  assume ok: "kterm_ok k gd"
  then have "CHARACTER_HEIGHT \<le> km_useable_height k" by (simp add: kterm_ok_def word_le_nat_alt character_size)
  then show ?thesis using ok by (simp add: unat_sub character_size kterm_ok_def)
qed

lemma scroll_px:
  assumes "kterm_ok k gd"
  shows "\<exists>gd'. graphics_driver_move_square True 0 CHARACTER_HEIGHT (km_useable_width k) (km_useable_height k - CHARACTER_HEIGHT) 0 0 gd =
      Some (True, gd') \<and> painted gd (moved 0 16 (8 * cols k) (16 * rows k - 16) 0 0 (gd_px gd)) gd'"
proof -
  have b: "gd_ok gd" "unat (km_useable_width k) = 8 * cols k" "8 * cols k \<le> gd_width gd" "16 * rows k \<le> gd_height gd" "1 \<le> rows k"
    using assms by (simp_all add: kterm_ok_def)
  note uh = useable_less [OF assms]
  show ?thesis
  proof (cases gd)
    case (GD_FRAMEBUFFER fb)
    then show ?thesis
      using move_square_fb [OF GD_FRAMEBUFFER b(1), of 0 "km_useable_width k" CHARACTER_HEIGHT "km_useable_height k - CHARACTER_HEIGHT" 0 0] b uh
      by (auto simp: character_size)
  next
    case (GD_VGA vb)
    then have "unat (km_useable_width k) = gd_width gd" using assms b(2) by (simp add: kterm_ok_def)
    then show ?thesis
      using move_square_vga [OF GD_VGA b(1), of 0 0 "km_useable_width k" CHARACTER_HEIGHT "km_useable_height k - CHARACTER_HEIGHT" 0] b uh
      by (auto simp: character_size)
  next
    case GD_UNKNOWN
    then show ?thesis using b(1) by (simp add: gd_ok_def)
  qed
qed

lemma newline_displays:
  assumes "displays k gd t"
  shows "\<exists>k' gd'. kterm_handle_newline True (k, gd) = Some (k', gd') \<and> displays k' gd' (pg_newline (rows k) t) \<and>
    cols k' = cols k \<and> rows k' = rows k \<and> km_cursor_x k' = 0 \<and> km_fg_color k' = km_fg_color k \<and>
    km_is_ready k' = km_is_ready k \<and> km_current_input k' = km_current_input k \<and> gd_memory gd' = gd_memory gd"
proof -
  have ok: "kterm_ok k gd" using assms by (simp add: displays_def)
  note c = cursor_px_eq [OF ok]
  have kx: "unat (km_cursor_x k) < cols k" "unat (km_cursor_y k) < rows k" and gd: "gd_ok gd" using ok by (simp_all add: kterm_ok_def)
  have at: "8 * unat (km_cursor_x k) < gd_width gd" "16 * unat (km_cursor_y k) < gd_height gd"
    using cell_inside [OF ok kx, of 0 0] by simp_all
  have small: "8 * unat (km_cursor_x k) + 8 < 2 ^ 64" "16 * unat (km_cursor_y k) + 16 < 2 ^ 64" using ok by (auto simp: kterm_ok_def)
  obtain gd1 where gd1: "graphics_driver_draw_square (fst (cursor_px k)) (snd (cursor_px k)) CHARACTER_WIDTH CHARACTER_HEIGHT black gd = Some (True, gd1)"
      "painted gd (\<lambda>i j. if 8 * unat (km_cursor_x k) \<le> i \<and> i < 8 * unat (km_cursor_x k) + 8 \<and>
          16 * unat (km_cursor_y k) \<le> j \<and> j < 16 * unat (km_cursor_y k) + 16 then gd_color gd black else gd_px gd i j) gd1"
    using draw_square_px [OF gd, of "fst (cursor_px k)" "snd (cursor_px k)" CHARACTER_WIDTH CHARACTER_HEIGHT black] at small
    unfolding c character_size by blast
  have pxy: "pg_x t = unat (km_cursor_x k)" "pg_y t = unat (km_cursor_y k)" using assms by (simp_all add: displays_def)
  have d1: "displays k gd1 (pg_draw blank t)"
    by (rule displays_painted [OF assms gd1(2)])
      (use displays_cell [OF assms] cell_cursor [of _ 8] cell_cursor [of _ 16] cell_px_blank pxy in \<open>auto simp: pg_draw_def split: if_splits\<close>)
  let ?k = "k\<lparr>km_cursor_x := 0\<rparr>" and ?t = "(pg_draw blank t)\<lparr>pg_x := 0\<rparr>"
  have d2: "displays ?k gd1 ?t" using displays_cursor [OF d1, of 0 "km_cursor_y k"] ok d1 by (simp add: kterm_ok_def displays_def)
  have py: "pg_y (pg_draw blank t) = unat (km_cursor_y k)" using d1 by (simp add: displays_def)
  have y1: "km_cursor_y k + 1 < km_y_rows k \<longleftrightarrow> unat (km_cursor_y k) + 1 < rows k" "unat (km_cursor_y k + 1) = unat (km_cursor_y k) + 1"
    using kx(2) ok unat_u32_less [of "km_y_rows k"] by (auto simp: rows_def word_less_nat_alt unat_word_ariths mod_less)
  show ?thesis
  proof (cases "unat (km_cursor_y k) + 1 < rows k")
    case True
    then have "displays (?k\<lparr>km_cursor_y := km_cursor_y k + 1\<rparr>) gd1 (?t\<lparr>pg_y := unat (km_cursor_y k) + 1\<rparr>)"
      using displays_cursor [OF d2, of 0 "km_cursor_y k + 1"] ok y1(2) by (simp add: rows_def cols_def kterm_ok_def)
    moreover have "pg_newline (rows k) t = ?t\<lparr>pg_y := unat (km_cursor_y k) + 1\<rparr>"
      using True py by (simp add: pg_newline_def)
    ultimately show ?thesis using gd1 True y1 paintedD(6) [OF gd1(2)]
      by (simp add: kterm_handle_newline_def cols_def rows_def)
  next
    case False
    then have last: "unat (km_cursor_y k) + 1 = rows k" using kx(2) by simp
    have ok1: "kterm_ok k gd1" using d1 by (simp add: displays_def)
    obtain gd2 where gd2: "graphics_driver_move_square True 0 CHARACTER_HEIGHT (km_useable_width k)
          (km_useable_height k - CHARACTER_HEIGHT) 0 0 gd1 = Some (True, gd2)"
        "painted gd1 (moved 0 16 (8 * cols k) (16 * rows k - 16) 0 0 (gd_px gd1)) gd2"
      using scroll_px [OF ok1] by blast
    have uh: "unat (km_useable_height k - CHARACTER_HEIGHT) = 16 * rows k - 16" using useable_less [OF ok1] by simp
    have sz: "gd_width gd2 = gd_width gd1" "gd_height gd2 = gd_height gd1" "gd_ok gd2" "gd_color gd2 = gd_color gd1" "gd_memory gd2 = gd_memory gd1"
      using paintedD [OF gd2(2)] by simp_all
    have "1 \<le> rows k" "16 * rows k \<le> gd_height gd1" using ok1 by (simp_all add: kterm_ok_def)
    then have hh: "16 * rows k - 16 < gd_height gd1" by linarith
    obtain gd3 where gd3: "graphics_driver_draw_square 0 (km_useable_height k - CHARACTER_HEIGHT) (km_useable_width k) CHARACTER_HEIGHT black gd2 = Some (True, gd3)"
        "painted gd2 (\<lambda>i j. if i < 8 * cols k \<and> 16 * rows k - 16 \<le> j \<and> j < 16 * rows k - 16 + 16 then gd_color gd1 black else gd_px gd2 i j) gd3"
      using draw_square_px [OF sz(3), of 0 "km_useable_height k - CHARACTER_HEIGHT" "km_useable_width k" CHARACTER_HEIGHT black] ok1
      hh unfolding uh sz by (auto simp: kterm_ok_def character_size)
    let ?pic = "\<lambda>i j. if i < 8 * cols k \<and> 16 * rows k - 16 \<le> j \<and> j < 16 * rows k then gd_color gd1 black
        else moved 0 16 (8 * cols k) (16 * rows k - 16) 0 0 (gd_px gd1) i j"
    have p3: "painted gd1 ?pic gd3"
      by (rule painted_trans [OF gd2(2) gd3(2)]) (use paintedD(7) [OF gd2(2)] last in auto)
    let ?t2 = "?t\<lparr>pg_cell := \<lambda>i j. if j + 1 < rows k then pg_cell ?t i (j + 1) else Some blank\<rparr>"
    have dd: "gd_px gd1 (8 * i + dx) (16 * j + dy) = gd_color gd1 (cell_px c dx dy)"
      if "i < cols k" "j < rows k" "pg_cell (pg_draw blank t) i j = Some c" "dx < 8" "dy < 16" for i j c dx dy
      by (rule displays_cell [OF d1 that(3,1,2,4,5)])
    have d3: "displays ?k gd3 ?t2"
    proof (rule displays_painted [OF d2 p3])
      fix i j c dx dy assume a: "i < cols ?k" "j < rows ?k" "pg_cell ?t2 i j = Some c" "dx < (8::nat)" "dy < (16::nat)"
      then have i: "i < cols k" "j < rows k" by (simp_all add: cols_def rows_def)
      have b: "8 * i + dx < 8 * cols k" "16 * j + dy < 16 * rows k" using a i by auto
      show "?pic (8 * i + dx) (16 * j + dy) = gd_color gd1 (cell_px c dx dy)"
      proof (cases "j + 1 < rows k")
        case True
        then have "gd_px gd1 (8 * i + dx) (16 * (j + 1) + dy) = gd_color gd1 (cell_px c dx dy)"
          using dd [OF i(1) True _ a(4,5)] a(3) by simp
        moreover have "16 * j + dy < 16 * rows k - 16" using True a(5) by linarith
        ultimately show ?thesis using True b by (simp add: moved_def algebra_simps)
      next
        case False
        then have "16 * rows k - 16 \<le> 16 * j + dy" using a(2) by simp
        then show ?thesis using False b a(3,5) cell_px_blank by auto
      qed
    qed simp_all
    have "pg_newline (rows k) t = ?t2" using last py by (simp add: pg_newline_def Let_def)
    moreover have "gd_memory gd3 = gd_memory gd" using paintedD(6) [OF gd3(2)] sz(5) paintedD(6) [OF gd1(2)] by simp
    ultimately show ?thesis using d3 gd1(1) gd2(1) gd3(1) False y1(1)
      by (simp add: kterm_handle_newline_def cols_def rows_def)
  qed
qed


text \<open>The terminal shows the page, and keeps what is not about the cursor.\<close>

definition same_term :: "kterminal \<Rightarrow> graphics_driver \<Rightarrow> kterminal \<Rightarrow> graphics_driver \<Rightarrow> bool" where
  "same_term k gd k' gd' \<longleftrightarrow> cols k' = cols k \<and> rows k' = rows k \<and> km_fg_color k' = km_fg_color k \<and>
     km_is_ready k' = km_is_ready k \<and> km_current_input k' = km_current_input k \<and> gd_memory gd' = gd_memory gd"

lemma same_term_trans: "same_term k gd k1 gd1 \<Longrightarrow> same_term k1 gd1 k2 gd2 \<Longrightarrow> same_term k gd k2 gd2"
  by (simp add: same_term_def)

lemma put_displays:
  assumes d: "displays k gd t"
    and tab: "ch = 0x09 \<Longrightarrow> (\<And>k1 gd1 t1. displays k1 gd1 t1 \<Longrightarrow> cols k1 = cols k \<Longrightarrow> rows k1 = rows k \<Longrightarrow>
      km_fg_color k1 = km_fg_color k \<Longrightarrow>
      \<exists>k' gd'. tab (k1, gd1) = Some (k', gd') \<and> displays k' gd' (ptab t1) \<and> same_term k1 gd1 k' gd')"
  shows "\<exists>k' gd'. kterm_put True tab ch (k, gd) = Some (k', gd') \<and>
    displays k' gd' (pg_put (cols k) (rows k) (km_fg_color k) ptab ch t) \<and> same_term k gd k' gd'"
proof -
  have px: "unat (km_cursor_x k) = pg_x t" "pg_x t < cols k" "2 \<le> cols k" using d by (auto simp: displays_def kterm_ok_def)
  have full: "km_x_rows k \<le> km_cursor_x k + 1 \<longleftrightarrow> cols k \<le> pg_x t + 1"
    using px unat_u32_less [of "km_x_rows k"] by (auto simp: cols_def word_le_nat_alt unat_word_ariths mod_less)
  define t1 where "t1 = (if pg_x t + 1 \<ge> cols k then pg_newline (rows k) t else t)"
  obtain k1 gd1 where 1: "(if km_cursor_x k + 1 \<ge> km_x_rows k then kterm_handle_newline True (k, gd) else Some (k, gd)) = Some (k1, gd1)"
      "displays k1 gd1 t1" "same_term k gd k1 gd1" "unat (km_cursor_x k1) + 1 < cols k"
  proof (cases "cols k \<le> pg_x t + 1")
    case True
    then show ?thesis using newline_displays [OF d] full px that by (auto simp: same_term_def t1_def)
  next
    case False
    then show ?thesis using d full px that [of k gd] by (simp add: same_term_def t1_def)
  qed
  have f1: "km_fg_color k1 = km_fg_color k" "cols k1 = cols k" "rows k1 = rows k" using 1(3) by (simp_all add: same_term_def)
  have x1: "pg_x t1 = unat (km_cursor_x k1)" using 1(2) by (simp add: displays_def)
  have y1: "unat (km_cursor_y k1) < rows k" "pg_y t1 = unat (km_cursor_y k1)" using 1(2) f1 by (simp_all add: displays_def kterm_ok_def)
  let ?body = "if ch = 0x0A then kterm_handle_newline True (k1, gd1)
           else if ch = 0x0D then Some (k1\<lparr>km_cursor_x := 0\<rparr>, gd1)
           else if ch = 0x08 then do {
             s \<leftarrow> draw_at_cursor 0x20 (k1, gd1);
             Some (if km_cursor_x (fst s) \<ge> 1 then ((fst s)\<lparr>km_cursor_x := km_cursor_x (fst s) - 1\<rparr>, snd s) else s) }
           else if ch = 0x09 then tab (k1, gd1)
           else do {
             s \<leftarrow> draw_at_cursor ch (k1, gd1);
             Some ((fst s)\<lparr>km_cursor_x := km_cursor_x (fst s) + 1\<rparr>, snd s) }"
  let ?t2 = "if ch = 0x0A then pg_newline (rows k) t1
               else if ch = 0x0D then t1\<lparr>pg_x := 0\<rparr>
               else if ch = 0x08 then (pg_draw (0x20, km_fg_color k) t1)\<lparr>pg_x := pg_x t1 - 1\<rparr>
               else if ch = 0x09 then ptab t1
               else (pg_draw (ch, km_fg_color k) t1)\<lparr>pg_x := pg_x t1 + 1\<rparr>"
  have "\<exists>k2 gd2. ?body = Some (k2, gd2) \<and> displays k2 gd2 ?t2 \<and> same_term k1 gd1 k2 gd2"
  proof -
    have move: "displays (k1\<lparr>km_cursor_x := x\<rparr>) gd2 (t2\<lparr>pg_x := unat x\<rparr>)" if "displays k1 gd2 t2" "unat x < cols k" for x gd2 t2
      using displays_cursor [OF that(1), of x "km_cursor_y k1"] that f1 by (simp add: displays_def kterm_ok_def)
    obtain gd2 where d2: "draw_at_cursor ch (k1, gd1) = Some (k1, gd2)" "displays k1 gd2 (pg_draw (ch, km_fg_color k) t1)" "gd_memory gd2 = gd_memory gd1"
      using draw_at_cursor_displays [OF 1(2)] f1(1) by auto
    obtain gd3 where d3: "draw_at_cursor 0x20 (k1, gd1) = Some (k1, gd3)" "displays k1 gd3 (pg_draw (0x20, km_fg_color k) t1)" "gd_memory gd3 = gd_memory gd1"
      using draw_at_cursor_displays [OF 1(2)] f1(1) by auto
    consider (nl) "ch = 0x0A" | (cr) "ch = 0x0D" | (bs) "ch = 0x08" | (tb) "ch = 0x09" | (other) "ch \<noteq> 0x0A" "ch \<noteq> 0x0D" "ch \<noteq> 0x08" "ch \<noteq> 0x09" by blast
    then show ?thesis
    proof cases
      case nl
      then show ?thesis using newline_displays [OF 1(2)] f1 by (auto simp: same_term_def)
    next
      case cr
      then show ?thesis using move [OF 1(2), of 0] px(3) by (simp add: same_term_def cols_def rows_def)
    next
      case bs
      have "unat (km_cursor_x k1 - 1) = unat (km_cursor_x k1) - 1" if "km_cursor_x k1 \<ge> 1"
        using that by (simp add: unat_sub word_le_nat_alt)
      moreover have "displays k1 gd3 ((pg_draw (0x20, km_fg_color k) t1)\<lparr>pg_x := pg_x t1 - 1\<rparr>)" if "\<not> km_cursor_x k1 \<ge> 1"
      proof -
        have "unat (km_cursor_x k1) = 0" using that by (simp add: word_le_nat_alt)
        moreover from this have "(pg_draw (0x20, km_fg_color k) t1)\<lparr>pg_x := 0\<rparr> = pg_draw (0x20, km_fg_color k) t1"
          using x1 by (cases t1) (simp add: pg_draw_def)
        ultimately show ?thesis using d3(2) x1 by simp
      qed
      ultimately show ?thesis using bs d3 move [OF d3(2), of "km_cursor_x k1 - 1"] 1(4) x1
        by (auto simp: same_term_def cols_def rows_def)
    next
      case tb
      then show ?thesis using tab [OF tb 1(2) f1(2,3,1)] by auto
    next
      case other
      have "unat (km_cursor_x k1 + 1) = unat (km_cursor_x k1) + 1"
        using 1(4) unat_u32_less [of "km_x_rows k"] by (simp add: cols_def unat_word_ariths mod_less)
      then show ?thesis using other d2 move [OF d2(2), of "km_cursor_x k1 + 1"] 1(4) x1
        by (simp add: same_term_def cols_def rows_def)
    qed
  qed
  then obtain k2 gd2 where 2: "?body = Some (k2, gd2)" "displays k2 gd2 ?t2" "same_term k1 gd1 k2 gd2" by blast
  obtain gd3 where 3: "draw_at_cursor 0x5F (k2, gd2) = Some (k2, gd3)" "displays k2 gd3 (pg_draw (0x5F, km_fg_color k2) ?t2)" "gd_memory gd3 = gd_memory gd2"
    using draw_at_cursor_displays [OF 2(2)] by blast
  have "kterm_put True tab ch (k, gd) = Some (k2, gd3)"
    unfolding kterm_put_def fst_conv snd_conv 1(1) bind.bind_lunit 2(1) by (rule 3(1))
  moreover have "pg_put (cols k) (rows k) (km_fg_color k) ptab ch t = pg_draw (0x5F, km_fg_color k2) ?t2"
    using 2(3) f1(1) unfolding pg_put_def Let_def t1_def by (simp only: same_term_def)
  moreover have "same_term k gd k2 gd3" using same_term_trans [OF 1(3) 2(3)] 3(3) by (simp add: same_term_def)
  ultimately show ?thesis using 3(2) by auto
qed


lemma char_displays:
  assumes "displays k gd t"
  shows "\<exists>k' gd'. kterm_write_char True ch (k, gd) = Some (k', gd') \<and>
    displays k' gd' (pg_char (cols k) (rows k) (km_fg_color k) ch t) \<and> same_term k gd k' gd'"
proof -
  let ?sp = "pg_put (cols k) (rows k) (km_fg_color k) (\<lambda>t. t) 0x20"
  have sp: "\<exists>k' gd'. kterm_put True (\<lambda>_. None) 0x20 (k1, gd1) = Some (k', gd') \<and> displays k' gd' (?sp t1) \<and> same_term k1 gd1 k' gd'"
    if "displays k1 gd1 t1" "same_term k gd k1 gd1" for k1 gd1 t1
    using put_displays [OF that(1), where ch = "0x20" and tab = "\<lambda>_. None" and ptab = "\<lambda>t. t"] that(2) by (simp add: same_term_def)
  have tab: "\<exists>k' gd'. each (\<lambda>_. kterm_put True (\<lambda>_. None) 0x20) [0..<n] (k1, gd1) = Some (k', gd') \<and>
      displays k' gd' ((?sp ^^ n) t1) \<and> same_term k1 gd1 k' gd'"
    if a: "displays k1 gd1 t1" "cols k1 = cols k" "rows k1 = rows k" "km_fg_color k1 = km_fg_color k" for n k1 gd1 t1
  proof (induction n)
    case 0
    then show ?case using a(1) by (simp add: same_term_def)
  next
    case (Suc n)
    then obtain k2 gd2 where 2: "each (\<lambda>_. kterm_put True (\<lambda>_. None) 0x20) [0..<n] (k1, gd1) = Some (k2, gd2)"
        "displays k2 gd2 ((?sp ^^ n) t1)" "same_term k1 gd1 k2 gd2" by blast
    obtain k3 gd3 where 3: "kterm_put True (\<lambda>_. None) 0x20 (k2, gd2) = Some (k3, gd3)"
        "displays k3 gd3 (?sp ((?sp ^^ n) t1))" "same_term k2 gd2 k3 gd3"
      using put_displays [OF 2(2), where ch = "0x20" and tab = "\<lambda>_. None" and ptab = "\<lambda>t. t"] 2(3) a(2-4) by (auto simp: same_term_def)
    then show ?case using 2(1) same_term_trans [OF 2(3) 3(3)] by (simp add: each_append)
  qed
  show ?thesis unfolding kterm_write_char_def pg_char_def
    by (rule put_displays [OF assms], rule tab)
qed

lemma string_displays:
  assumes "displays k gd t"
  shows "\<exists>k' gd'. each (kterm_write_char True) str (k, gd) = Some (k', gd') \<and>
    displays k' gd' (fold (pg_char (cols k) (rows k) (km_fg_color k)) str t) \<and> same_term k gd k' gd'"
  using assms
proof (induction str arbitrary: k gd t)
  case (Cons ch str)
  obtain k1 gd1 where 1: "kterm_write_char True ch (k, gd) = Some (k1, gd1)"
      "displays k1 gd1 (pg_char (cols k) (rows k) (km_fg_color k) ch t)" "same_term k gd k1 gd1"
    using char_displays [OF Cons.prems] by blast
  obtain k2 gd2 where 2: "each (kterm_write_char True) str (k1, gd1) = Some (k2, gd2)"
      "displays k2 gd2 (fold (pg_char (cols k1) (rows k1) (km_fg_color k1)) str (pg_char (cols k) (rows k) (km_fg_color k) ch t))"
      "same_term k1 gd1 k2 gd2"
    using Cons.IH [OF 1(2)] by blast
  show ?case using 1(1,3) 2 same_term_trans [OF 1(3) 2(3)] by (auto simp: same_term_def)
qed (simp add: same_term_def)

lemma render_displays:
  assumes "displays k gd t" "renderable gd screen"
  shows "\<exists>gd' screen'. render_term screen (k, gd) = Some (True, (k, gd'), screen') \<and> displays k gd' t \<and> same_term k gd k gd' \<and>
    renderable gd' screen'"
proof -
  have ok: "gd_ok gd" using assms(1) by (simp add: displays_def kterm_ok_def)
  obtain gd' screen' where r: "graphics_driver_render gd screen = Some (True, gd', screen')" "painted gd (gd_px gd) gd'"
      "length screen' = length screen"
    using render_ok [OF ok assms(2)] by blast
  have "displays k gd' t" by (rule displays_painted [OF assms(1) r(2)]) (use displays_cell [OF assms(1)] in simp_all)
  moreover have "renderable gd' screen'" using assms(2) paintedD(6) [OF r(2)] r(3) by (auto simp: renderable_def split: option.splits)
  ultimately show ?thesis using r(1) paintedD(6) [OF r(2)] by (simp add: render_term_def same_term_def)
qed


section \<open>Coloured text\<close>

text \<open>A colour sequence with the digits of its number, followed by text.\<close>

type_synonym segment = "u8 list \<times> u8 list"

definition encode :: "segment \<Rightarrow> u8 list" where
  "encode = (\<lambda>(ds, str). [0x1B, 0x5B] @ ds @ [0x6D] @ str)"

definition segment_ok :: "segment \<Rightarrow> bool" where
  "segment_ok = (\<lambda>(ds, str). list_all char_is_num ds \<and> length ds \<le> 3 \<and> 0x1B \<notin> set str)"

definition show_segment :: "nat \<Rightarrow> nat \<Rightarrow> segment \<Rightarrow> color \<times> page \<Rightarrow> color \<times> page" where
  "show_segment w h = (\<lambda>(ds, str) (fg, t).
     let fg = ansi_code_color (the (atoi ds)) fg in (fg, fold (pg_char w h fg) str t))"

definition idle :: "kterminal \<Rightarrow> ansi \<Rightarrow> bool" where
  "idle k a \<longleftrightarrow> \<not> an_sequence a \<and> \<not> an_color_sequence a \<and> an_color_map a = km_fg_color k"

lemma atoi_defined:
  assumes "length ds \<le> 3"
  shows "\<exists>n. atoi ds = Some n"
proof -
  have "\<exists>n. atoi_loop r ds = Some n" if "0 \<le> r" "(r + 1) * 10 ^ length ds \<le> 1000" for r
    using that
  proof (induction ds arbitrary: r)
    case (Cons c ds)
    show ?case
    proof (cases "0x30 \<le> c \<and> c \<le> 0x39")
      case True
      define v where "v = uint c - 0x30"
      have v: "0 \<le> v" "v \<le> 9" using True by (simp_all add: v_def word_le_def)
      have "(r * 10 + v + 1) * 10 ^ length ds \<le> (r * 10 + 10) * 10 ^ length ds" using v by (intro mult_right_mono) auto
      also have "\<dots> = (r + 1) * 10 ^ length (c # ds)" by (simp add: algebra_simps)
      finally have le: "(r * 10 + v + 1) * 10 ^ length ds \<le> 1000" using Cons.prems(2) by linarith
      have "r * 10 + v + 1 \<le> (r * 10 + v + 1) * 10 ^ length ds" using Cons.prems(1) v by (simp add: mult_le_cancel_left1)
      then have "r * 10 + v < 2 ^ 31" using le by simp
      moreover have "\<exists>n. atoi_loop (r * 10 + v) ds = Some n" using Cons.IH le Cons.prems(1) v by simp
      ultimately show ?thesis using True by (simp add: v_def)
    qed auto
  qed simp
  moreover have "(0 + 1 :: int) * 10 ^ length ds \<le> 1000"
    using power_increasing [OF assms, of "10 :: int"] by simp
  ultimately show ?thesis unfolding atoi_def by blast
qed

lemma ansi_plain:
  assumes "displays k gd t" "idle k a" "0x1B \<notin> set str"
  shows "\<exists>k' gd'. each (ansi_step True) str (a, k, gd) = Some (a, k', gd') \<and> idle k' a \<and>
    displays k' gd' (fold (pg_char (cols k) (rows k) (km_fg_color k)) str t) \<and> same_term k gd k' gd'"
proof -
  have "each (ansi_step True) str (a, s) = map_option (Pair a) (each (kterm_write_char True) str s)" for s
    using assms(3)
  proof (induction str arbitrary: s)
    case (Cons ch str)
    then show ?case using assms(2)
      by (cases "kterm_write_char True ch s") (simp_all add: ansi_step_def idle_def)
  qed simp
  then show ?thesis using string_displays [OF assms(1), of str] assms(2) by (auto simp: same_term_def idle_def)
qed

lemma ansi_segment:
  assumes d: "displays k gd t" and i: "idle k a" and ok: "segment_ok seg"
  shows "\<exists>a' k' gd'. each (ansi_step True) (encode seg) (a, k, gd) = Some (a', k', gd') \<and> idle k' a' \<and>
    displays k' gd' (snd (show_segment (cols k) (rows k) seg (km_fg_color k, t))) \<and>
    km_fg_color k' = fst (show_segment (cols k) (rows k) seg (km_fg_color k, t)) \<and>
    cols k' = cols k \<and> rows k' = rows k \<and> km_is_ready k' = km_is_ready k \<and> gd_memory gd' = gd_memory gd"
proof -
  obtain ds str where seg: "seg = (ds, str)" by (cases seg)
  have ds: "list_all char_is_num ds" "length ds \<le> 3" and str: "0x1B \<notin> set str" using ok by (simp_all add: segment_ok_def seg)
  obtain n where n: "atoi ds = Some n" using atoi_defined [OF ds(2)] by blast
  have num: "c \<noteq> 0x1B" "c \<noteq> 0x5B" if "char_is_num c" for c using that by (auto simp: char_is_num_def word_le_nat_alt)
  have digits: "each (ansi_step True) ds (a1, s) = Some (a1\<lparr>an_num_buf := an_num_buf a1 @ ds\<rparr>, s)"
    if "an_color_sequence a1" "length (an_num_buf a1) + length ds \<le> 3" "list_all char_is_num ds" for a1 ds and s :: term_state
    using that
  proof (induction ds arbitrary: a1)
    case (Cons c ds)
    then have "ansi_step True c (a1, s) = Some (a1\<lparr>an_num_buf := an_num_buf a1 @ [c]\<rparr>, s)"
      using num [of c] by (simp add: ansi_step_def)
    then show ?case using Cons.IH [of "a1\<lparr>an_num_buf := an_num_buf a1 @ [c]\<rparr>"] Cons.prems by simp
  qed simp
  define fg where "fg = ansi_code_color n (km_fg_color k)"
  define a1 where "a1 = a\<lparr>an_sequence := True, an_color_sequence := True, an_num_buf := []\<rparr>"
  define a2 where "a2 = a\<lparr>an_sequence := False, an_color_sequence := False, an_num_buf := [], an_color_map := fg\<rparr>"
  let ?k = "k\<lparr>km_fg_color := fg\<rparr>"
  have "each (ansi_step True) [0x1B, 0x5B] (a, k, gd) = Some (a1, k, gd)"
    using i by (simp add: ansi_step_def a1_def idle_def)
  moreover have "each (ansi_step True) ds (a1, k, gd) = Some (a1\<lparr>an_num_buf := ds\<rparr>, k, gd)"
    using digits [of a1 ds "(k, gd)"] ds by (simp add: a1_def)
  moreover have "ansi_step True 0x6D (a1\<lparr>an_num_buf := ds\<rparr>, k, gd) = Some (a2, ?k, gd)"
    using n i by (simp add: ansi_step_def a1_def a2_def char_is_num_def word_le_nat_alt fg_def idle_def)
  ultimately have head: "each (ansi_step True) (encode seg) (a, k, gd) = each (ansi_step True) str (a2, ?k, gd)"
    unfolding encode_def seg by (simp add: each_append del: append_Cons append_Nil)
  have "displays ?k gd t" using d by (simp add: displays_def kterm_ok_def cols_def rows_def cong: graphics_driver.case_cong)
  moreover have "idle ?k a2" by (simp add: idle_def a2_def)
  ultimately obtain k' gd' where "each (ansi_step True) str (a2, ?k, gd) = Some (a2, k', gd')" "idle k' a2"
      "displays k' gd' (fold (pg_char (cols ?k) (rows ?k) fg) str t)" "same_term ?k gd k' gd'"
    using ansi_plain [of ?k gd t a2 str] str by auto
  then show ?thesis unfolding head by (auto simp: show_segment_def seg n fg_def same_term_def cols_def rows_def Let_def)
qed


lemma ansi_segments:
  assumes "displays k gd t" "idle k a" "list_all segment_ok segs"
  shows "\<exists>a' k' gd'. each (ansi_step True) (concat (map encode segs)) (a, k, gd) = Some (a', k', gd') \<and>
    displays k' gd' (snd (fold (show_segment (cols k) (rows k)) segs (km_fg_color k, t))) \<and>
    km_fg_color k' = fst (fold (show_segment (cols k) (rows k)) segs (km_fg_color k, t)) \<and>
    cols k' = cols k \<and> rows k' = rows k \<and> km_is_ready k' = km_is_ready k \<and> gd_memory gd' = gd_memory gd"
  using assms
proof (induction segs arbitrary: a k gd t)
  case (Cons seg segs)
  obtain a1 k1 gd1 where 1: "each (ansi_step True) (encode seg) (a, k, gd) = Some (a1, k1, gd1)" "idle k1 a1"
      "displays k1 gd1 (snd (show_segment (cols k) (rows k) seg (km_fg_color k, t)))"
      "km_fg_color k1 = fst (show_segment (cols k) (rows k) seg (km_fg_color k, t))"
      "cols k1 = cols k" "rows k1 = rows k" "km_is_ready k1 = km_is_ready k" "gd_memory gd1 = gd_memory gd"
    using ansi_segment [OF Cons.prems(1,2), of seg] Cons.prems(3) by auto
  show ?case using Cons.IH [OF 1(3,2)] Cons.prems(3) 1 by (auto simp: each_append)
qed auto

lemma strff_found: "0 \<notin> set s \<Longrightarrow> strff s ch i \<ge> 0 \<longleftrightarrow> ch \<in> set s"
  by (induction s ch i rule: strff.induct) auto

lemma stream_displays:
  assumes d: "displays k gd t" and r: "renderable gd screen" "km_is_ready k"
    and s: "0 \<notin> set (str @ concat (map encode segs))" "0x1B \<notin> set str" "list_all segment_ok segs"
  shows "\<exists>k' gd' screen'. kterm_write_stream True (str @ concat (map encode segs)) screen (k, gd) = Some (True, (k', gd'), screen') \<and>
    displays k' gd' (snd (fold (show_segment (cols k) (rows k)) segs
      (km_fg_color k, fold (pg_char (cols k) (rows k) (km_fg_color k)) str t))) \<and>
    km_fg_color k' = fst (fold (show_segment (cols k) (rows k)) segs
      (km_fg_color k, fold (pg_char (cols k) (rows k) (km_fg_color k)) str t)) \<and>
    cols k' = cols k \<and> rows k' = rows k \<and> km_is_ready k' \<and> renderable gd' screen'"
proof (cases segs)
  case Nil
  obtain k1 gd1 where 1: "each (kterm_write_char True) str (k, gd) = Some (k1, gd1)"
      "displays k1 gd1 (fold (pg_char (cols k) (rows k) (km_fg_color k)) str t)" "same_term k gd k1 gd1"
    using string_displays [OF d] by blast
  have "renderable gd1 screen" using r(1) 1(3) by (simp add: renderable_def same_term_def)
  then obtain gd2 screen' where 2: "render_term screen (k1, gd1) = Some (True, (k1, gd2), screen')"
      "displays k1 gd2 (fold (pg_char (cols k) (rows k) (km_fg_color k)) str t)" "renderable gd2 screen'"
    using render_displays [OF 1(2)] by blast
  have "\<not> strff str 0x1B 0 \<ge> 0" using strff_found [of str "0x1B" 0] s Nil by simp
  then show ?thesis using 1 2 r(2) Nil
    by (auto simp: kterm_write_stream_def kterm_write_string_stream_def same_term_def)
next
  case (Cons seg segs')
  let ?buf = "str @ concat (map encode segs)"
  have "0x1B \<in> set ?buf" by (auto simp: Cons encode_def split_beta)
  then have esc: "strff ?buf 0x1B 0 \<ge> 0" using strff_found s(1) by blast
  have i: "idle k (ansi_start k)" by (simp add: idle_def ansi_start_def)
  obtain k1 gd1 where 1: "each (ansi_step True) str (ansi_start k, k, gd) = Some (ansi_start k, k1, gd1)" "idle k1 (ansi_start k)"
      "displays k1 gd1 (fold (pg_char (cols k) (rows k) (km_fg_color k)) str t)" "same_term k gd k1 gd1"
    using ansi_plain [OF d i s(2)] by blast
  have f1: "cols k1 = cols k" "rows k1 = rows k" "km_fg_color k1 = km_fg_color k" "km_is_ready k1" "gd_memory gd1 = gd_memory gd"
    using 1(4) r(2) by (simp_all add: same_term_def)
  obtain a2 k2 gd2 where 2: "each (ansi_step True) (concat (map encode segs)) (ansi_start k, k1, gd1) = Some (a2, k2, gd2)"
      "displays k2 gd2 (snd (fold (show_segment (cols k) (rows k)) segs (km_fg_color k, fold (pg_char (cols k) (rows k) (km_fg_color k)) str t)))"
      "km_fg_color k2 = fst (fold (show_segment (cols k) (rows k)) segs (km_fg_color k, fold (pg_char (cols k) (rows k) (km_fg_color k)) str t))"
      "cols k2 = cols k" "rows k2 = rows k" "km_is_ready k2" "gd_memory gd2 = gd_memory gd"
    using ansi_segments [OF 1(3,2) s(3)] f1 by auto
  have "renderable gd2 screen" using r(1) 2(7) by (simp add: renderable_def)
  then obtain gd3 screen' where 3: "render_term screen (k2, gd2) = Some (True, (k2, gd3), screen')"
      "displays k2 gd3 (snd (fold (show_segment (cols k) (rows k)) segs (km_fg_color k, fold (pg_char (cols k) (rows k) (km_fg_color k)) str t)))"
      "renderable gd3 screen'"
    using render_displays [OF 2(2)] by blast
  have "kterm_write_stream True ?buf screen (k, gd) = Some (True, (k2, gd3), screen')"
    using esc r(2) 1(1) 2(1) 3(1) by (simp add: kterm_write_stream_def kterm_write_ansi_stream_def each_append)
  then show ?thesis using 2(3-6) 3(2,3) by blast
qed

text \<open>A page on which nothing was written.\<close>

definition empty_page :: page where
  "empty_page = \<lparr>pg_cell = \<lambda>_ _. None, pg_x = 0, pg_y = 0\<rparr>"

lemma gd_vga_width: "gd_ok (GD_VGA vb) \<Longrightarrow> gd_width (GD_VGA vb) = 320 \<and> gd_height (GD_VGA vb) = 200"
  by (simp add: gd_ok_def)

lemma init_displays:
  assumes "gd_ok gd" "16 \<le> gd_width gd" "gd_width gd < 2 ^ 31" "16 \<le> gd_height gd" "gd_height gd < 2 ^ 31"
    and "\<not> km_is_ready k" "km_cursor_x k = 0" "km_cursor_y k = 0"
  shows "\<exists>k'. kterm_init k gd = (True, k') \<and> displays k' gd empty_page \<and> km_is_ready k' \<and> km_fg_color k' = km_fg_color k \<and>
    cols k' = gd_width gd div 8 \<and> rows k' = gd_height gd div 16"
proof -
  obtain w h where wh: "graphics_driver_get_size gd = Some (w, h)" "unat w = gd_width gd" "unat h = gd_height gd"
    using assms(1) by (cases gd) (auto simp: graphics_driver_get_size_def gd_width_def gd_height_def gd_ok_def)
  obtain k' where k': "kterm_init k gd = (True, k')" "k' = snd (kterm_init k gd)"
    using assms(6) wh(1) by (simp add: kterm_init_def Let_def)
  have sub: "unat (u - u mod v) = unat u - unat u mod unat v" for u v :: u64
    by (subst unat_sub) (simp_all add: word_le_nat_alt unat_mod)
  have u: "unat (w - w mod CHARACTER_WIDTH) = 8 * (gd_width gd div 8)" "unat (h - h mod CHARACTER_HEIGHT) = 16 * (gd_height gd div 16)"
    unfolding sub wh character_size by (simp_all add: minus_mod_eq_mult_div)
  have d: "unat ((w - w mod CHARACTER_WIDTH) div CHARACTER_WIDTH) = gd_width gd div 8"
      "unat ((h - h mod CHARACTER_HEIGHT) div CHARACTER_HEIGHT) = gd_height gd div 16"
    unfolding unat_div u character_size by simp_all
  have f: "cols k' = gd_width gd div 8" "rows k' = gd_height gd div 16" "km_is_ready k'" "km_cursor_x k' = 0" "km_cursor_y k' = 0"
      "unat (km_useable_width k') = 8 * (gd_width gd div 8)" "unat (km_useable_height k') = 16 * (gd_height gd div 16)"
      "km_fg_color k' = km_fg_color k"
    using assms(3,5-8) wh(1) d u k'(2)
    by (simp_all add: kterm_init_def Let_def cols_def rows_def unsigned_ucast_eq take_bit_nat_eq_self)
  have "kterm_ok k' gd"
    using f assms(1-5) gd_vga_width by (auto simp: kterm_ok_def split: graphics_driver.splits)
  then show ?thesis using k'(1) f by (simp add: displays_def empty_page_def)
qed


section \<open>The command line\<close>

lemma is_str_text: "is_str s cs \<Longrightarrow> cs \<noteq> [] \<Longrightarrow> c_str s = Some (Some cs)"
  using strlen_append [of cs "[]"] by (auto simp: is_str_def c_str_def)

lemma b8_str: "\<exists>r. assign_cstr (Some (b8 ''resolve'')) = Some r \<and> is_str r (b8 ''resolve'')"
  "\<exists>r. assign_cstr (Some (b8 ''server'')) = Some r \<and> is_str r (b8 ''server'')"
  using assign_cstr_str [of "Some (b8 ''resolve'')"] assign_cstr_str [of "Some (b8 ''server'')"]
  by (simp_all add: cstr_bytes_def b8_def of_char_def)

lemma execute_command_defined:
  assumes "is_str p w" "w \<noteq> []" "list_all2 is_str args ws" "[] \<notin> set ws"
  shows "\<exists>a. kterm_execute_command p args = Some a"
proof -
  have p: "c_str p = Some (Some w)" by (rule is_str_text [OF assms(1,2)])
  have arg: "\<exists>w0. is_str arg0 w0 \<and> c_str arg0 = Some (Some w0)" if "args = arg0 # rest" for arg0 rest
    using assms(3,4) that is_str_text by (auto simp: list_all2_Cons1)
  obtain r s where rs: "assign_cstr (Some (b8 ''resolve'')) = Some r" "is_str r (b8 ''resolve'')"
      "assign_cstr (Some (b8 ''server'')) = Some s" "is_str s (b8 ''server'')" using b8_str by blast
  then have "c_str r = Some (Some (b8 ''resolve''))" "c_str s = Some (Some (b8 ''server''))"
    by (auto intro!: is_str_text simp: b8_def)
  then have eq: "\<exists>x y. string_eq arg0 r = Some x \<and> string_eq arg0 s = Some y" if "args = arg0 # rest" for arg0 rest
    using arg [OF that] by (auto simp: string_eq_def)
  show ?thesis
  proof (cases args)
    case Nil
    then show ?thesis unfolding kterm_execute_command_def p Let_def by simp
  next
    case (Cons arg0 rest)
    then obtain w0 x y where "c_str arg0 = Some (Some w0)" "string_eq arg0 r = Some x" "string_eq arg0 s = Some y"
      using arg eq by blast
    then show ?thesis using rs(1,3) Cons unfolding kterm_execute_command_def p Let_def by simp
  qed
qed

lemma handle_command_words:
  assumes "0 \<notin> set line" "length line < 2 ^ 63"
  shows "\<exists>ps. list_all2 is_str ps (filter (\<lambda>w. w \<noteq> []) (Std_String.fields 0x20 line)) \<and>
    kterm_handle_command (line @ [0]) = (case ps of [] \<Rightarrow> Some None | p # args \<Rightarrow> map_option Some (kterm_execute_command p args)) \<and>
    kterm_handle_command (line @ [0]) \<noteq> None"
proof -
  obtain s where s: "assign_cstr (Some line) = Some s" "is_str s line"
    using assign_cstr_str [of "Some line"] assms by (auto simp: cstr_bytes_def)
  obtain ps where ps: "str_split s 0x20 = Some ps" "list_all2 is_str ps (filter (\<lambda>w. w \<noteq> []) (Std_String.fields 0x20 line))"
    using str_split_fields [OF s(2)] by blast
  have eq: "kterm_handle_command (line @ [0]) = (case ps of [] \<Rightarrow> Some None | p # args \<Rightarrow> map_option Some (kterm_execute_command p args))"
    using strlen_append [OF assms(1), of "[]"] s(1) ps(1) by (simp add: kterm_handle_command_def)
  have "kterm_handle_command (line @ [0]) \<noteq> None"
  proof (cases ps)
    case (Cons p args)
    then obtain w ws where w: "filter (\<lambda>w. w \<noteq> []) (Std_String.fields 0x20 line) = w # ws" "is_str p w" "list_all2 is_str args ws"
      using ps(2) by (auto simp: list_all2_Cons1)
    have "set (w # ws) = {x \<in> set (Std_String.fields 0x20 line). x \<noteq> []}" unfolding w(1) [symmetric] by (rule set_filter)
    then have "w \<noteq> []" "[] \<notin> set ws" by auto
    then show ?thesis using execute_command_defined [OF w(2) _ w(3)] Cons eq by auto
  qed (simp add: eq)
  then show ?thesis using ps(2) eq by blast
qed

text \<open>A session: the terminal shows the page, can draw, and has the input.\<close>

definition session_ok :: "session \<Rightarrow> page \<Rightarrow> bool" where
  "session_ok = (\<lambda>((k, gd), screen) t. displays k gd t \<and> renderable gd screen \<and> km_is_ready k)"

definition session_page :: "session \<Rightarrow> u8 list \<Rightarrow> page \<Rightarrow> page" where
  "session_page st str t = fold (pg_char (cols (fst (fst st))) (rows (fst (fst st))) (km_fg_color (fst (fst st)))) str t"

definition same_session :: "session \<Rightarrow> session \<Rightarrow> bool" where
  "same_session st st' \<longleftrightarrow> cols (fst (fst st')) = cols (fst (fst st)) \<and> rows (fst (fst st')) = rows (fst (fst st)) \<and>
     km_fg_color (fst (fst st')) = km_fg_color (fst (fst st))"

lemma string_stream_session:
  assumes "session_ok st t"
  shows "\<exists>st'. kterm_write_string_stream True str (snd st) (fst st) = Some (True, st') \<and> session_ok st' (session_page st str t) \<and>
    same_session st st' \<and> input_of st' = input_of st"
proof -
  obtain k gd screen where st: "st = ((k, gd), screen)" by (metis prod.exhaust)
  have d: "displays k gd t" "renderable gd screen" "km_is_ready k" using assms by (simp_all add: session_ok_def st)
  obtain k1 gd1 where 1: "each (kterm_write_char True) str (k, gd) = Some (k1, gd1)"
      "displays k1 gd1 (fold (pg_char (cols k) (rows k) (km_fg_color k)) str t)" "same_term k gd k1 gd1"
    using string_displays [OF d(1)] by blast
  have "renderable gd1 screen" using d(2) 1(3) by (simp add: renderable_def same_term_def)
  then obtain gd2 screen' where 2: "render_term screen (k1, gd1) = Some (True, (k1, gd2), screen')"
      "displays k1 gd2 (fold (pg_char (cols k) (rows k) (km_fg_color k)) str t)" "renderable gd2 screen'"
    using render_displays [OF 1(2)] by blast
  show ?thesis using 1(1,3) 2 d(3)
    by (auto simp: st kterm_write_string_stream_def session_ok_def session_page_def same_session_def same_term_def input_of_def)
qed

lemma write_session:
  assumes "session_ok st t" "0x1B \<notin> set str" "0 \<notin> set str"
  shows "\<exists>st'. kterm_write True str st = Some st' \<and> session_ok st' (session_page st str t) \<and> same_session st st' \<and> input_of st' = input_of st"
proof -
  have "km_is_ready (fst (fst st))" using assms(1) by (auto simp: session_ok_def)
  then have "kterm_write_stream True str (snd st) (fst st) = kterm_write_string_stream True str (snd st) (fst st)"
    using strff_found [of str "0x1B" 0] assms(2,3) by (simp add: kterm_write_stream_def)
  then show ?thesis using string_stream_session [OF assms(1), of str] by (auto simp: kterm_write_def split_beta)
qed

lemma upd_input_session:
  "session_ok (upd_input f st) t = session_ok st t" "input_of (upd_input f st) = f (input_of st)"
  "same_session st (upd_input f st)"
  by (auto simp: session_ok_def upd_input_def input_of_def same_session_def displays_def kterm_ok_def cols_def rows_def
      split: prod.splits graphics_driver.splits)

text \<open>Keys that put a character into the input, and the characters.\<close>

definition typed :: "virtual_key \<times> bool \<times> bool \<Rightarrow> u8" where
  "typed = (\<lambda>(vk, shift, caps). vk_to_ascii vk shift caps)"

definition types_character :: "virtual_key \<times> bool \<times> bool \<Rightarrow> bool" where
  "types_character key \<longleftrightarrow> fst key \<notin> {''ENTER'', ''BACKSPACE'', ''TAB''} \<and> typed key \<noteq> 0"

definition press :: "(kterm_action \<Rightarrow> session \<Rightarrow> session option) \<Rightarrow> virtual_key \<times> bool \<times> bool \<Rightarrow> session \<Rightarrow> session option" where
  "press perform = (\<lambda>(vk, shift, caps). kterm_keyboard_handler True perform vk shift caps)"

lemma type_line:
  assumes "session_ok st t" "list_all types_character keys"
  shows "\<exists>st'. each (press perform) keys st = Some st' \<and> session_ok st' (session_page st (map typed keys) t) \<and> same_session st st' \<and>
    input_of st' = input_of st @ map typed keys"
  using assms
proof (induction keys arbitrary: st t)
  case Nil
  then show ?case by (simp add: session_page_def same_session_def)
next
  case (Cons key keys)
  obtain vk shift caps where key: "key = (vk, shift, caps)" by (metis prod.exhaust)
  obtain st1 where 1: "kterm_write_string_stream True [typed key] (snd st) (fst st) = Some (True, st1)"
      "session_ok st1 (session_page st [typed key] t)" "same_session st st1" "input_of st1 = input_of st"
    using string_stream_session [OF Cons.prems(1)] by blast
  let ?st2 = "upd_input (\<lambda>i. i @ [typed key]) st1"
  have "press perform key st = Some ?st2"
    using 1(1) Cons.prems(2) by (simp add: press_def key kterm_keyboard_handler_def types_character_def typed_def Let_def)
  moreover have "session_ok ?st2 (session_page st [typed key] t)" "same_session st ?st2" "input_of ?st2 = input_of st @ [typed key]"
    using 1 upd_input_session [where f = "\<lambda>i. i @ [typed key]" and st = st1] by (simp_all add: same_session_def)
  ultimately show ?case
    using Cons.IH [of ?st2 "session_page st [typed key] t"] Cons.prems(2) by (auto simp: session_page_def same_session_def)
qed


text \<open>What Enter does after the command line has been read.\<close>

definition answer :: "(kterm_action \<Rightarrow> session \<Rightarrow> session option) \<Rightarrow> kterm_action option \<Rightarrow> session \<Rightarrow> session option" where
  "answer perform action st = do {
     st \<leftarrow> (case action of None \<Rightarrow> Some st | Some a \<Rightarrow> perform a st);
     kterm_write True [0x0A, 0x3E, 0x20] (upd_input (\<lambda>_. []) st) }"

lemma each_press_append: "each f (xs @ [x]) s = Option.bind (each f xs s) (f x)"
proof -
  have "each f [x] = f x" by (rule ext) (simp split: Option.bind_splits)
  then show ?thesis by (simp only: each_append)
qed

lemma enter_line:
  assumes "session_ok st t" "input_of st = []" "list_all types_character keys" "length keys < 2 ^ 63"
  shows "\<exists>st' ps action. list_all2 is_str ps (filter (\<lambda>w. w \<noteq> []) (Std_String.fields 0x20 (map typed keys))) \<and>
    Some action = (case ps of [] \<Rightarrow> Some None | p # args \<Rightarrow> map_option Some (kterm_execute_command p args)) \<and>
    each (press perform) (keys @ [(''ENTER'', shift, caps)]) st = answer perform action st' \<and>
    session_ok st' (session_page st (map typed keys @ [0x0A]) t)"
proof -
  let ?line = "map typed keys"
  obtain st1 where 1: "each (press perform) keys st = Some st1" "session_ok st1 (session_page st ?line t)" "same_session st st1"
      "input_of st1 = ?line"
    using type_line [OF assms(1,3), of perform] unfolding assms(2) append_Nil by blast
  obtain st2 where 2: "kterm_write True [0x0A] st1 = Some st2" "session_ok st2 (session_page st1 [0x0A] (session_page st ?line t))"
      "input_of st2 = ?line"
    using write_session [OF 1(2), of "[0x0A]"] 1(4) by auto
  let ?st3 = "upd_input (\<lambda>i. i @ [0]) st2"
  have ok: "session_ok ?st3 (session_page st (?line @ [0x0A]) t)"
    using 2(2) 1(3) by (simp add: upd_input_session session_page_def same_session_def)
  have i3: "input_of ?st3 = ?line @ [0]" using 2(3) by (simp add: upd_input_session)
  have "0 \<notin> set ?line" using assms(3) by (auto simp: list_all_iff types_character_def)
  then obtain ps where ps: "list_all2 is_str ps (filter (\<lambda>w. w \<noteq> []) (Std_String.fields 0x20 ?line))"
      "kterm_handle_command (?line @ [0]) = (case ps of [] \<Rightarrow> Some None | p # args \<Rightarrow> map_option Some (kterm_execute_command p args))"
      "kterm_handle_command (?line @ [0]) \<noteq> None"
    using handle_command_words [of ?line] assms(4) unfolding length_map by blast
  then obtain action where action: "kterm_handle_command (?line @ [0]) = Some action" by blast
  have "each (press perform) (keys @ [(''ENTER'', shift, caps)]) st = answer perform action ?st3"
    unfolding each_press_append 1(1)
    using 2(1) action i3 by (simp add: press_def kterm_keyboard_handler_def answer_def Let_def)
  then show ?thesis using ps(1,2) action ok by metis
qed


section \<open>The claims\<close>


definition demo_driver :: graphics_driver where
  "demo_driver = GD_FRAMEBUFFER \<lparr>fb_address = replicate 1024 0, fb_back_buffer = Some (replicate 1024 0), fb_size = 4096,
     fb_width = 32, fb_height = 32, fb_pitch = 128, fb_caluclated_pitch = 32, fb_format = ARGB8888\<rparr>"

definition demo_kterm :: kterminal where
  "demo_kterm = snd (kterm_init \<lparr>km_width = 0, km_height = 0, km_useable_height = 0, km_useable_width = 0, km_x_rows = 0, km_y_rows = 0,
     km_cursor_x = 0, km_cursor_y = 0, km_is_ready = False, km_current_input = [], km_keep_alive = False,
     km_fg_color = rgb 255 255 255\<rparr> demo_driver)"

lemma demo_displays:
  "displays demo_kterm demo_driver empty_page" "renderable demo_driver screen" "km_is_ready demo_kterm"
  "cols demo_kterm = 4" "rows demo_kterm = 2" "km_fg_color demo_kterm = rgb 255 255 255" "km_current_input demo_kterm = []"
proof -
  have ok: "gd_ok demo_driver" by (simp add: demo_driver_def gd_ok_def canvas_def)
  have sz: "gd_width demo_driver = 32" "gd_height demo_driver = 32" by (simp_all add: demo_driver_def)
  let ?k = "\<lparr>km_width = 0, km_height = 0, km_useable_height = 0, km_useable_width = 0, km_x_rows = 0, km_y_rows = 0,
     km_cursor_x = 0, km_cursor_y = 0, km_is_ready = False, km_current_input = [], km_keep_alive = False,
     km_fg_color = rgb 255 255 255\<rparr>"
  obtain k' where "kterm_init ?k demo_driver = (True, k')" "displays k' demo_driver empty_page" "km_is_ready k'"
      "km_fg_color k' = rgb 255 255 255" "cols k' = 4" "rows k' = 2"
    using init_displays [OF ok, of ?k] by (auto simp: sz)
  then show "displays demo_kterm demo_driver empty_page" "km_is_ready demo_kterm"
    "cols demo_kterm = 4" "rows demo_kterm = 2" "km_fg_color demo_kterm = rgb 255 255 255"
    by (simp_all add: demo_kterm_def)
  show "renderable demo_driver screen" by (simp add: demo_driver_def renderable_def gd_memory_def drop_bit_eq_div)
  show "km_current_input demo_kterm = []" by (simp add: demo_kterm_def kterm_init_def demo_driver_def graphics_driver_get_size_def Let_def)
qed




end
