(* ===== verification/Window_Event.thy ===== *)
theory Window_Event
  imports Prelude
begin

text \<open>
  The events of a window, \<open>src/shared/include/vrosapi/window.hpp\<close>, which the window manager sends and the
  user programs handle. A position is a pair of 32-bit integers.
\<close>

datatype window_event = WE_MBL_DOWN u32 u32 | WE_MBL_UP u32 u32 | WE_MBR_DOWN u32 u32 | WE_MBR_UP u32 u32

end
