(* ===== verification/Window_Manager.thy ===== *)
theory Window_Manager
  imports Ring_Buffer Window_Event Input Canvas
begin

text \<open>
  The window manager: \<open>src/kernel/src/gui/display_driver.cpp\<close>, \<open>src/kernel/include/gui/display_driver.hpp\<close> and
  the mouse handler of \<open>src/kernel/src/main.cpp\<close>.

  \<open>int\<close> is a 32-bit word read with its sign; in a comparison with the 64-bit cursor it is extended to 64 bits and
  compared without sign, as in the code. A window's process is a number, and the answer of its heap to a
  request for a buffer is an argument. The static variables are arguments and results.
\<close>

record window =
  wd_width :: u32
  wd_height :: u32
  wd_x :: u32
  wd_y :: u32
  wd_buffer :: "u64 option"
  wd_is_dragging :: bool
  wd_parent_process :: nat
  wd_handle :: u64
  wd_active :: bool
  wd_event_hook :: u64
  wd_event_queue :: "window_event ring_buffer"

datatype kdc_action = MMOVE | MDOWNL | MUPL | MDOWNR | MUPR

record window_manager =
  wm_should_render :: bool
  wm_windows :: "window list"
  wm_cursor_x :: u64
  wm_cursor_y :: u64

definition wm_init :: "window_manager \<Rightarrow> window_manager" where
  "wm_init wm = wm\<lparr>wm_should_render := True\<rparr>"

definition wm_create_window :: "u32 \<Rightarrow> u32 \<Rightarrow> u32 \<Rightarrow> u32 \<Rightarrow> u64 \<Rightarrow> window \<times> u64" where
  "wm_create_window w h x y last_handle =
     (\<lparr>wd_width = w, wd_height = h, wd_x = x, wd_y = y, wd_buffer = None, wd_is_dragging = False, wd_parent_process = 0,
       wd_handle = last_handle, wd_active = False, wd_event_hook = 0,
       wd_event_queue = rb_new (replicate 8 (WE_MBL_DOWN 0 0))\<rparr>, last_handle + 1)"

definition wm_allocate_window ::
  "u32 \<Rightarrow> u32 \<Rightarrow> u64 \<Rightarrow> nat \<Rightarrow> u64 option \<Rightarrow> u64 \<Rightarrow> window_manager \<Rightarrow> u64 \<times> u64 \<times> window_manager" where
  "wm_allocate_window w h hook current_process buffer last_handle wm =
     (let (win, last_handle) = wm_create_window w h 20 20 last_handle;
          win = win\<lparr>wd_parent_process := current_process, wd_buffer := buffer, wd_event_hook := hook\<rparr>
      in (wd_handle win, last_handle, wm\<lparr>wm_windows := wm_windows wm @ [win]\<rparr>))"

fun wm_window_get_buffer :: "window list \<Rightarrow> u64 \<Rightarrow> u64 option" where
  "wm_window_get_buffer [] handle = None"
| "wm_window_get_buffer (w # ws) handle = (if wd_handle w = handle then wd_buffer w else wm_window_get_buffer ws handle)"

text \<open>The event and the hook of the window, if there is one, and the windows afterwards.\<close>

fun wm_window_poll_event :: "u64 \<Rightarrow> window list \<Rightarrow> (window_event option \<times> u64 option) \<times> window list" where
  "wm_window_poll_event handle [] = ((None, None), [])"
| "wm_window_poll_event handle (w # ws) =
     (if wd_handle w = handle
      then case rb_get (wd_event_queue w) of (event, q) \<Rightarrow> ((event, Some (wd_event_hook w)), w\<lparr>wd_event_queue := q\<rparr> # ws)
      else case wm_window_poll_event handle ws of (r, ws) \<Rightarrow> (r, w # ws))"

text \<open>\<open>buffer\<close> is the answer of the heap; the old buffer is released before.\<close>

fun resize_loop :: "u64 \<Rightarrow> u32 \<Rightarrow> u32 \<Rightarrow> u64 option \<Rightarrow> window list \<Rightarrow> bool \<times> window list" where
  "resize_loop handle width height buffer [] = (False, [])"
| "resize_loop handle width height buffer (w # ws) =
     (if wd_handle w = handle
      then (if buffer = None then (False, w\<lparr>wd_buffer := None\<rparr> # ws)
            else (True, w\<lparr>wd_buffer := buffer, wd_width := width, wd_height := height\<rparr> # ws))
      else case resize_loop handle width height buffer ws of (r, ws) \<Rightarrow> (r, w # ws))"

definition wm_window_resize ::
  "graphics_driver \<Rightarrow> u64 \<Rightarrow> u32 \<Rightarrow> u32 \<Rightarrow> u64 option \<Rightarrow> window_manager \<Rightarrow> (bool \<times> window_manager) option" where
  "wm_window_resize gd handle width height buffer wm = do {
     (x, y) \<leftarrow> graphics_driver_get_size gd;
     if ucast width > x \<or> ucast height > y then Some (False, wm)
     else case resize_loop handle width height buffer (wm_windows wm) of (r, ws) \<Rightarrow> Some (r, wm\<lparr>wm_windows := ws\<rparr>) }"

section \<open>The mouse\<close>

text \<open>The tests of the four button actions; the left button also takes the 15 lines of the title.\<close>

definition over :: "u32 \<Rightarrow> window_manager \<Rightarrow> window \<Rightarrow> bool" where
  "over title wm w \<longleftrightarrow> wm_cursor_x wm > scast (wd_x w) \<and> wm_cursor_x wm < scast (wd_x w + wd_width w) \<and>
     wm_cursor_y wm > scast (wd_y w - title) \<and> wm_cursor_y wm < scast (wd_y w + wd_height w)"

definition cursor_in :: "window_manager \<Rightarrow> window \<Rightarrow> u32 \<times> u32" where
  "cursor_in wm w = (ucast (wm_cursor_x wm - scast (wd_x w)), ucast (wm_cursor_y wm - scast (wd_y w)))"

definition send :: "window_event \<Rightarrow> window \<Rightarrow> window" where
  "send e w = w\<lparr>wd_event_queue := snd (rb_insert e (wd_event_queue w))\<rparr>"

fun drag_first :: "u32 \<Rightarrow> u32 \<Rightarrow> window list \<Rightarrow> window list" where
  "drag_first x y [] = []"
| "drag_first x y (w # ws) =
     (if wd_is_dragging w then w\<lparr>wd_x := wd_x w + x, wd_y := wd_y w + y\<rparr> # ws else w # drag_first x y ws)"

fun left_down :: "window_manager \<Rightarrow> window list \<Rightarrow> window list" where
  "left_down wm [] = []"
| "left_down wm (w # ws) =
     (if over 15 wm w
      then (case cursor_in wm w of (x, y) \<Rightarrow> send (WE_MBL_DOWN x y) (w\<lparr>wd_is_dragging := True, wd_active := True\<rparr>)) # ws
      else w\<lparr>wd_active := False\<rparr> # left_down wm ws)"

fun left_up :: "window_manager \<Rightarrow> window list \<Rightarrow> window list" where
  "left_up wm [] = []"
| "left_up wm (w # ws) =
     (if over 15 wm w
      then (case cursor_in wm w of (x, y) \<Rightarrow> send (WE_MBL_UP x y) (w\<lparr>wd_is_dragging := False\<rparr>)) # ws
      else w # left_up wm ws)"

fun right_button :: "(u32 \<Rightarrow> u32 \<Rightarrow> window_event) \<Rightarrow> window_manager \<Rightarrow> window list \<Rightarrow> window list" where
  "right_button event wm [] = []"
| "right_button event wm (w # ws) =
     (if over 0 wm w then (case cursor_in wm w of (x, y) \<Rightarrow> send (event x y) w) # ws
      else w # right_button event wm ws)"

definition wm_handle_mouse_event :: "u32 \<Rightarrow> u32 \<Rightarrow> kdc_action \<Rightarrow> window_manager \<Rightarrow> window_manager" where
  "wm_handle_mouse_event x y action wm =
     (case action of
        MMOVE \<Rightarrow> if x = 0 \<and> y = 0 then wm
          else wm\<lparr>wm_windows := drag_first x y (wm_windows wm), wm_cursor_x := wm_cursor_x wm + scast x,
                   wm_cursor_y := wm_cursor_y wm + scast y, wm_should_render := True\<rparr>
      | MDOWNL \<Rightarrow> wm\<lparr>wm_windows := left_down wm (wm_windows wm)\<rparr>
      | MUPL \<Rightarrow> wm\<lparr>wm_windows := left_up wm (wm_windows wm)\<rparr>
      | MDOWNR \<Rightarrow> wm\<lparr>wm_windows := right_button WE_MBR_DOWN wm (wm_windows wm)\<rparr>
      | MUPR \<Rightarrow> wm\<lparr>wm_windows := right_button WE_MBR_UP wm (wm_windows wm)\<rparr>)"

text \<open>The handler of the mouse driver, with its two static variables.\<close>

definition kdc_mouse_handler :: "ps2_mouse_state \<Rightarrow> (bool \<times> bool) \<times> window_manager \<Rightarrow> (bool \<times> bool) \<times> window_manager" where
  "kdc_mouse_handler st = (\<lambda>((s_lmb_last, rmb_last), wm).
     let wm = (if ms_dx st \<noteq> 0 \<or> ms_dy st \<noteq> 0
               then wm_handle_mouse_event (word_of_int (ms_dx st)) (word_of_int (ms_dy st)) MMOVE wm else wm);
         wm = (if s_lmb_last \<noteq> ms_left st then wm_handle_mouse_event 0 0 (if ms_left st then MDOWNL else MUPL) wm else wm);
         wm = (if rmb_last \<noteq> ms_right st then wm_handle_mouse_event 0 0 (if ms_right st then MDOWNR else MUPR) wm else wm)
     in ((ms_left st, ms_right st), wm))"

section \<open>Composing the picture\<close>

text \<open>\<open>content w\<close> is the window's buffer, read with the page table of its process.\<close>

definition draw_window :: "(window \<Rightarrow> u32 list) \<Rightarrow> window \<Rightarrow> framebuffer \<Rightarrow> framebuffer option" where
  "draw_window content w fb = do {
     (_, fb) \<leftarrow> framebuffer_write_square (scast (wd_x w - 1)) (scast (wd_y w - 15)) (scast (wd_width w + 2))
                  (scast (wd_height w + 2 + 15)) (framebuffer_format_color fb (rgb 255 255 255)) fb;
     (_, fb) \<leftarrow> framebuffer_copy_remote_square (content w) (scast (wd_x w)) (scast (wd_y w)) (scast (wd_width w))
                  (scast (wd_height w)) 0 0 fb;
     Some fb }"

text \<open>The cursor: lines down, dots and a line across in black, then lines down in white, each with its
  offset from the cursor and its length.\<close>

definition cursor_black :: "(u64 \<times> u64) list" where
  "cursor_black = [(1, 1), (2, 2), (3, 3), (4, 4), (5, 5), (6, 6)]"

definition cursor_dots :: "(u64 \<times> u64) list" where
  "cursor_dots = [(1, 9), (2, 8), (3, 7)]"

definition cursor_white :: "(u64 \<times> u64 \<times> u64) list" where
  "cursor_white = [(1, 2, 7), (2, 3, 5), (3, 4, 3), (4, 5, 2), (5, 6, 1)]"

definition draw_cursor :: "u64 \<Rightarrow> u64 \<Rightarrow> graphics_driver \<Rightarrow> graphics_driver option" where
  "draw_cursor x y gd = do {
     (_, gd) \<leftarrow> graphics_driver_draw_linev x y 10 (rgb 0 0 0) gd;
     gd \<leftarrow> each (\<lambda>(dx, dy) gd. map_option snd (graphics_driver_draw_pixel (x + dx) (y + dy) (rgb 0 0 0) gd)) cursor_black gd;
     (_, gd) \<leftarrow> graphics_driver_draw_lineh (x + 4) (y + 7) 3 (rgb 0 0 0) gd;
     gd \<leftarrow> each (\<lambda>(dx, dy) gd. map_option snd (graphics_driver_draw_pixel (x + dx) (y + dy) (rgb 0 0 0) gd)) cursor_dots gd;
     each (\<lambda>(dx, dy, n) gd. map_option snd (graphics_driver_draw_linev (x + dx) (y + dy) n (rgb 255 255 255) gd)) cursor_white gd }"

text \<open>One round of the compositor: the back buffer is cleared, then the windows and the cursor are drawn.\<close>

definition wm_render :: "(window \<Rightarrow> u32 list) \<Rightarrow> window_manager \<Rightarrow> framebuffer \<Rightarrow> graphics_driver option" where
  "wm_render content wm fb = do {
     b \<leftarrow> fb_back_buffer fb;
     b \<leftarrow> wr_bytes b 0 (replicate (unat (fb_size fb) div 4) 0);
     fb \<leftarrow> each (draw_window content) (wm_windows wm) (fb\<lparr>fb_back_buffer := Some b\<rparr>);
     draw_cursor (wm_cursor_x wm) (wm_cursor_y wm) (GD_FRAMEBUFFER fb) }"

end
