(* ===== verification/Window_Events.thy ===== *)
theory Window_Events
  imports Window_Manager
begin

text \<open>
  Properties of the window manager: the shape of its windows, the way of an event of the mouse to the program that
  polls its window, and where it lands.
\<close>

section \<open>Routing\<close>

definition target :: "kdc_action \<Rightarrow> window_manager \<Rightarrow> window option" where
  "target action wm = (case action of MMOVE \<Rightarrow> None
     | MDOWNL \<Rightarrow> find (over 15 wm) (wm_windows wm) | MUPL \<Rightarrow> find (over 15 wm) (wm_windows wm)
     | _ \<Rightarrow> find (over 0 wm) (wm_windows wm))"

definition event_for :: "kdc_action \<Rightarrow> u32 \<times> u32 \<Rightarrow> window_event" where
  "event_for action = (\<lambda>(x, y). case action of MUPL \<Rightarrow> WE_MBL_UP x y | MDOWNR \<Rightarrow> WE_MBR_DOWN x y | MUPR \<Rightarrow> WE_MBR_UP x y
     | _ \<Rightarrow> WE_MBL_DOWN x y)"

text \<open>What an action sends to the window \<open>h\<close>, and what is waiting there.\<close>

definition routed :: "u64 \<Rightarrow> kdc_action \<Rightarrow> window_manager \<Rightarrow> window_event list" where
  "routed h action wm = (case target action wm of None \<Rightarrow> []
     | Some w \<Rightarrow> if wd_handle w = h then [event_for action (cursor_in wm w)] else [])"

definition pend :: "u64 \<Rightarrow> window list \<Rightarrow> window_event list" where
  "pend h ws = (case find (\<lambda>w. wd_handle w = h) ws of None \<Rightarrow> [] | Some w \<Rightarrow> rb_list (wd_event_queue w))"

definition queue_ok :: "window \<Rightarrow> bool" where
  "queue_ok w \<longleftrightarrow> rb_inv (wd_event_queue w) \<and> rb_capacity (wd_event_queue w) = 7"

definition wm_ok :: "window_manager \<Rightarrow> bool" where
  "wm_ok wm \<longleftrightarrow> distinct (map wd_handle (wm_windows wm)) \<and> list_all queue_ok (wm_windows wm)"

text \<open>The loops of the handler change the first window that passes a test, and the ones before it slightly.\<close>

fun upd_first :: "(window \<Rightarrow> bool) \<Rightarrow> (window \<Rightarrow> window) \<Rightarrow> (window \<Rightarrow> window) \<Rightarrow> window list \<Rightarrow> window list" where
  "upd_first P f g [] = []"
| "upd_first P f g (w # ws) = (if P w then f w # ws else g w # upd_first P f g ws)"

lemma loops_upd_first:
  "drag_first x y ws = upd_first wd_is_dragging (\<lambda>w. w\<lparr>wd_x := wd_x w + x, wd_y := wd_y w + y\<rparr>) (\<lambda>w. w) ws"
  "left_down wm ws = upd_first (over 15 wm) (\<lambda>w. send (event_for MDOWNL (cursor_in wm w)) (w\<lparr>wd_is_dragging := True, wd_active := True\<rparr>))
     (\<lambda>w. w\<lparr>wd_active := False\<rparr>) ws"
  "left_up wm ws = upd_first (over 15 wm) (\<lambda>w. send (event_for MUPL (cursor_in wm w)) (w\<lparr>wd_is_dragging := False\<rparr>)) (\<lambda>w. w) ws"
  "right_button WE_MBR_DOWN wm ws = upd_first (over 0 wm) (\<lambda>w. send (event_for MDOWNR (cursor_in wm w)) w) (\<lambda>w. w) ws"
  "right_button WE_MBR_UP wm ws = upd_first (over 0 wm) (\<lambda>w. send (event_for MUPR (cursor_in wm w)) w) (\<lambda>w. w) ws"
  by (induction ws) (simp_all add: event_for_def split_beta)

lemma handles_upd_first:
  "(\<And>w. wd_handle (f w) = wd_handle w) \<Longrightarrow> (\<And>w. wd_handle (g w) = wd_handle w) \<Longrightarrow>
   map wd_handle (upd_first P f g ws) = map wd_handle ws"
  by (induction ws) simp_all

lemma queues_upd_first:
  "(\<And>w. queue_ok w \<Longrightarrow> queue_ok (f w)) \<Longrightarrow> (\<And>w. queue_ok w \<Longrightarrow> queue_ok (g w)) \<Longrightarrow>
   list_all queue_ok ws \<Longrightarrow> list_all queue_ok (upd_first P f g ws)"
  by (induction ws) simp_all

lemma pend_none: "h \<notin> set (map wd_handle ws) \<Longrightarrow> pend h ws = []"
proof -
  assume "h \<notin> set (map wd_handle ws)"
  then have "find (\<lambda>w. wd_handle w = h) ws = None" by (induction ws) auto
  then show ?thesis by (simp add: pend_def)
qed

lemma pend_Cons: "pend h (w # ws) = (if wd_handle w = h then rb_list (wd_event_queue w) else pend h ws)"
  by (simp add: pend_def)

lemma pend_upd_first:
  assumes "\<And>w. wd_handle (f w) = wd_handle w" "\<And>w. wd_handle (g w) = wd_handle w" "\<And>w. wd_event_queue (g w) = wd_event_queue w"
    and "distinct (map wd_handle ws)"
  shows "pend h (upd_first P f g ws) = (case find P ws of None \<Rightarrow> pend h ws
     | Some w \<Rightarrow> if wd_handle w = h then rb_list (wd_event_queue (f w)) else pend h ws)"
  using assms(4)
proof (induction ws)
  case (Cons w ws)
  have "wd_handle v \<noteq> wd_handle w" if "find P ws = Some v" for v
    using that Cons.prems by (metis (mono_tags, lifting) distinct.simps(2) find_Some_iff imageI list.map(2) list.set_map nth_mem)
  then show ?case using Cons assms(1-3) by (auto simp: pend_Cons split: option.splits)
qed simp

lemma send_pend:
  assumes "queue_ok w"
  shows "rb_list (wd_event_queue (send e w)) = take 7 (rb_list (wd_event_queue w) @ [e])" "queue_ok (send e w)"
    "wd_handle (send e w) = wd_handle w" "length (rb_list (wd_event_queue w)) \<le> 7"
proof -
  let ?q = "wd_event_queue w"
  have inv: "rb_inv ?q" and cap: "rb_capacity ?q = 7" using assms by (simp_all add: queue_ok_def)
  have le: "length (rb_list ?q) \<le> 7" using rb.contents_cap [OF inv] cap by simp
  have "rb_list (snd (rb_insert e ?q)) = snd (list_ins (rb_capacity ?q) e (rb_list ?q))"
    using rb.ins_contents [OF inv, of e] by (metis snd_conv)
  then show "rb_list (wd_event_queue (send e w)) = take 7 (rb_list ?q @ [e])"
    using le cap by (auto simp: send_def list_ins_def)
  show "queue_ok (send e w)" using rb.ins_inv [OF inv, of e] rb.ins_cap [OF inv, of e] cap by (simp add: queue_ok_def send_def)
  show "wd_handle (send e w) = wd_handle w" by (simp add: send_def)
  show "length (rb_list ?q) \<le> 7" by (rule le)
qed

lemma find_Some_mem: "find P xs = Some x \<Longrightarrow> x \<in> set xs \<and> P x"
  by (induction xs) (auto split: if_splits)

lemma pend_length: "list_all queue_ok ws \<Longrightarrow> length (pend h ws) \<le> 7"
  using send_pend(4) by (auto simp: pend_def list_all_iff split: option.splits dest: find_Some_mem)

lemma pend_member: "distinct (map wd_handle ws) \<Longrightarrow> w \<in> set ws \<Longrightarrow> pend (wd_handle w) ws = rb_list (wd_event_queue w)"
  by (induction ws) (auto simp: pend_Cons)

lemma mouse_event_step:
  assumes "wm_ok wm"
  shows "wm_ok (wm_handle_mouse_event x y action wm)"
    "map wd_handle (wm_windows (wm_handle_mouse_event x y action wm)) = map wd_handle (wm_windows wm)"
    "pend h (wm_windows (wm_handle_mouse_event x y action wm)) = take 7 (pend h (wm_windows wm) @ routed h action wm)"
proof -
  have d: "distinct (map wd_handle (wm_windows wm))" and q: "list_all queue_ok (wm_windows wm)" using assms by (simp_all add: wm_ok_def)
  have le: "take 7 (pend h (wm_windows wm)) = pend h (wm_windows wm)" using pend_length [OF q] by simp
  have upd: "wm_ok (wm\<lparr>wm_windows := upd_first P (\<lambda>w. send (e w) (m w)) g (wm_windows wm)\<rparr>) \<and>
      map wd_handle (upd_first P (\<lambda>w. send (e w) (m w)) g (wm_windows wm)) = map wd_handle (wm_windows wm) \<and>
      pend h (upd_first P (\<lambda>w. send (e w) (m w)) g (wm_windows wm)) = (case find P (wm_windows wm) of None \<Rightarrow> pend h (wm_windows wm)
        | Some w \<Rightarrow> take 7 (pend h (wm_windows wm) @ (if wd_handle w = h then [e w] else [])))"
    if mg: "\<And>w. wd_handle (m w) = wd_handle w" "\<And>w. wd_event_queue (m w) = wd_event_queue w"
      "\<And>w. wd_handle (g w) = wd_handle w" "\<And>w. wd_event_queue (g w) = wd_event_queue w" for P e m g
  proof -
    have qm: "queue_ok (m w) = queue_ok w" "queue_ok (g w) = queue_ok w" for w by (simp_all add: queue_ok_def mg)
    have hs: "wd_handle (send (e w) (m w)) = wd_handle w" for w by (simp add: send_def mg)
    have "list_all queue_ok (upd_first P (\<lambda>w. send (e w) (m w)) g (wm_windows wm))"
      by (rule queues_upd_first [OF _ _ q]) (simp_all add: qm send_pend(2))
    moreover have maps: "map wd_handle (upd_first P (\<lambda>w. send (e w) (m w)) g (wm_windows wm)) = map wd_handle (wm_windows wm)"
      by (rule handles_upd_first) (simp_all add: hs mg)
    moreover have "pend h (upd_first P (\<lambda>w. send (e w) (m w)) g (wm_windows wm)) = (case find P (wm_windows wm) of None \<Rightarrow> pend h (wm_windows wm)
        | Some w \<Rightarrow> if wd_handle w = h then rb_list (wd_event_queue (send (e w) (m w))) else pend h (wm_windows wm))"
      by (rule pend_upd_first [OF hs mg(3,4) d])
    moreover have "rb_list (wd_event_queue (send (e w) (m w))) = take 7 (pend (wd_handle w) (wm_windows wm) @ [e w])"
      if "find P (wm_windows wm) = Some w" for w
      using find_Some_mem [OF that] q d pend_member send_pend(1) [of "m w" "e w"] mg(2) qm by (simp add: list_all_iff)
    ultimately show ?thesis using d le by (auto simp: wm_ok_def split: option.splits)
  qed
  note upd' = upd [where m = "\<lambda>w. w" and g = "\<lambda>w. w"]
  have "wm_ok (wm_handle_mouse_event x y action wm) \<and>
    map wd_handle (wm_windows (wm_handle_mouse_event x y action wm)) = map wd_handle (wm_windows wm) \<and>
    pend h (wm_windows (wm_handle_mouse_event x y action wm)) = take 7 (pend h (wm_windows wm) @ routed h action wm)"
  proof (cases action)
    case MMOVE
    let ?f = "\<lambda>w. w\<lparr>wd_x := wd_x w + x, wd_y := wd_y w + y\<rparr>"
    have "list_all queue_ok (upd_first wd_is_dragging ?f (\<lambda>w. w) (wm_windows wm))"
      by (rule queues_upd_first [OF _ _ q]) (simp_all add: queue_ok_def)
    moreover have "map wd_handle (upd_first wd_is_dragging ?f (\<lambda>w. w) (wm_windows wm)) = map wd_handle (wm_windows wm)"
      by (rule handles_upd_first) simp_all
    moreover have "pend h (upd_first wd_is_dragging ?f (\<lambda>w. w) (wm_windows wm)) = pend h (wm_windows wm)"
      using d pend_member by (subst pend_upd_first) (auto split: option.splits dest!: find_Some_mem)
    ultimately show ?thesis using MMOVE d le assms
      by (simp add: wm_handle_mouse_event_def loops_upd_first(1) wm_ok_def routed_def target_def)
  next
    case MDOWNL
    then show ?thesis
      using upd [of "\<lambda>w. w\<lparr>wd_is_dragging := True, wd_active := True\<rparr>" "\<lambda>w. w\<lparr>wd_active := False\<rparr>" "over 15 wm" "\<lambda>w. event_for MDOWNL (cursor_in wm w)"] le
      by (simp add: wm_handle_mouse_event_def loops_upd_first(2) routed_def target_def split: option.splits)
  next
    case MUPL
    then show ?thesis
      using upd [of "\<lambda>w. w\<lparr>wd_is_dragging := False\<rparr>" "\<lambda>w. w" "over 15 wm" "\<lambda>w. event_for MUPL (cursor_in wm w)"] le
      by (simp add: wm_handle_mouse_event_def loops_upd_first(3) routed_def target_def split: option.splits)
  next
    case MDOWNR
    then show ?thesis
      using upd' [of "over 0 wm" "\<lambda>w. event_for MDOWNR (cursor_in wm w)"] le
      by (simp add: wm_handle_mouse_event_def loops_upd_first(4) routed_def target_def split: option.splits)
  next
    case MUPR
    then show ?thesis
      using upd' [of "over 0 wm" "\<lambda>w. event_for MUPR (cursor_in wm w)"] le
      by (simp add: wm_handle_mouse_event_def loops_upd_first(5) routed_def target_def split: option.splits)
  qed
  then show "wm_ok (wm_handle_mouse_event x y action wm)"
    "map wd_handle (wm_windows (wm_handle_mouse_event x y action wm)) = map wd_handle (wm_windows wm)"
    "pend h (wm_windows (wm_handle_mouse_event x y action wm)) = take 7 (pend h (wm_windows wm) @ routed h action wm)"
    by blast+
qed

type_synonym mouse_action = "u32 \<times> u32 \<times> kdc_action"

fun wm_run :: "mouse_action list \<Rightarrow> window_manager \<Rightarrow> window_manager" where
  "wm_run [] wm = wm"
| "wm_run ((x, y, action) # as) wm = wm_run as (wm_handle_mouse_event x y action wm)"

fun events_to :: "u64 \<Rightarrow> mouse_action list \<Rightarrow> window_manager \<Rightarrow> window_event list" where
  "events_to h [] wm = []"
| "events_to h ((x, y, action) # as) wm = routed h action wm @ events_to h as (wm_handle_mouse_event x y action wm)"

text \<open>Polling a window \<open>n\<close> times.\<close>

fun polls :: "nat \<Rightarrow> u64 \<Rightarrow> window list \<Rightarrow> window_event option list \<times> window list" where
  "polls 0 h ws = ([], ws)"
| "polls (Suc n) h ws = (case wm_window_poll_event h ws of ((e, _), ws) \<Rightarrow> case polls n h ws of (es, ws) \<Rightarrow> (e # es, ws))"

lemma take_take_append: "take n (take n xs @ ys) = take n (xs @ ys)"
  by (simp add: min_def)

lemma wm_run_ok:
  assumes "wm_ok wm"
  shows "wm_ok (wm_run as wm) \<and> map wd_handle (wm_windows (wm_run as wm)) = map wd_handle (wm_windows wm) \<and>
    pend h (wm_windows (wm_run as wm)) = take 7 (pend h (wm_windows wm) @ events_to h as wm)"
  using assms
proof (induction as arbitrary: wm)
  case Nil
  then show ?case using pend_length by (simp add: wm_ok_def)
next
  case (Cons a as)
  obtain x y action where a: "a = (x, y, action)" by (metis prod.exhaust)
  note st = mouse_event_step [OF Cons.prems, where x = x and y = y and action = action]
  let ?wm = "wm_handle_mouse_event x y action wm"
  have "pend h (wm_windows (wm_run as ?wm)) = take 7 (take 7 (pend h (wm_windows wm) @ routed h action wm) @ events_to h as ?wm)"
    using Cons.IH [OF st(1)] unfolding st(3) by blast
  also have "\<dots> = take 7 ((pend h (wm_windows wm) @ routed h action wm) @ events_to h as ?wm)" by (rule take_take_append)
  finally show ?case using Cons.IH [OF st(1)] st(2) by (simp add: a)
qed

lemma poll_step:
  assumes "distinct (map wd_handle ws)" "list_all queue_ok ws" "h \<in> set (map wd_handle ws)"
  shows "\<exists>hook ws'. wm_window_poll_event h ws = ((case pend h ws of [] \<Rightarrow> None | e # _ \<Rightarrow> Some e, hook), ws') \<and>
    map wd_handle ws' = map wd_handle ws \<and> list_all queue_ok ws' \<and> pend h ws' = tl (pend h ws) \<and> (\<forall>h'. h' \<noteq> h \<longrightarrow> pend h' ws' = pend h' ws)"
  using assms
proof (induction ws)
  case (Cons w ws)
  have inv: "rb_inv (wd_event_queue w)" "rb_capacity (wd_event_queue w) = 7" using Cons.prems(2) by (simp_all add: queue_ok_def)
  show ?case
  proof (cases "wd_handle w = h")
    case True
    obtain e q where g: "rb_get (wd_event_queue w) = (e, q)" by fastforce
    have "(e, rb_list q) = list_get (rb_list (wd_event_queue w))" using rb.get_contents [OF inv(1)] g by simp
    moreover have "rb_inv q" "rb_capacity q = 7" using rb.get_inv [OF inv(1)] rb.get_cap [OF inv(1)] g inv(2) by simp_all
    ultimately show ?thesis using True g Cons.prems(2)
      by (auto simp: pend_Cons queue_ok_def list_get_def split: list.splits)
  next
    case False
    then obtain hook ws' where "wm_window_poll_event h ws = ((case pend h ws of [] \<Rightarrow> None | e # _ \<Rightarrow> Some e, hook), ws')"
        "map wd_handle ws' = map wd_handle ws" "list_all queue_ok ws'" "pend h ws' = tl (pend h ws)" "\<forall>h'. h' \<noteq> h \<longrightarrow> pend h' ws' = pend h' ws"
      using Cons by auto
    then show ?thesis using False Cons.prems(2) by (simp add: pend_Cons)
  qed
qed simp

lemma polls_pend:
  assumes "distinct (map wd_handle ws)" "list_all queue_ok ws" "h \<in> set (map wd_handle ws)"
  shows "fst (polls (length (pend h ws) + 1) h ws) = map Some (pend h ws) @ [None]"
  using assms
proof (induction "pend h ws" arbitrary: ws)
  case Nil
  then show ?case using poll_step [OF Nil.prems] by (auto split: prod.splits)
next
  case (Cons e es)
  obtain hook ws' where p: "wm_window_poll_event h ws = ((Some e, hook), ws')" "map wd_handle ws' = map wd_handle ws" "list_all queue_ok ws'"
      "pend h ws' = es"
    using poll_step [OF Cons.prems] Cons.hyps(2) by (auto split: list.splits)
  then have "fst (polls (length (pend h ws') + 1) h ws') = map Some (pend h ws') @ [None]"
    using Cons.hyps(1) [of ws'] Cons.prems by simp
  then show ?case using p(1,4) by (simp add: Cons.hyps(2) [symmetric] split_beta)
qed

section \<open>Positions\<close>

text \<open>A window whose corner is on the screen, below room for its title.\<close>

definition placed :: "window \<Rightarrow> bool" where
  "placed w \<longleftrightarrow> 0 \<le> sint (wd_x w) \<and> 15 \<le> sint (wd_y w) \<and> 0 \<le> sint (wd_width w) \<and> 0 \<le> sint (wd_height w) \<and>
     sint (wd_x w) + sint (wd_width w) < 2 ^ 31 \<and> sint (wd_y w) + sint (wd_height w) < 2 ^ 31"

lemma scast_nonneg: "0 \<le> sint (x :: u32) \<Longrightarrow> uint (scast x :: u64) = sint x \<and> uint x = sint x"
proof -
  assume nn: "0 \<le> sint x"
  have lt: "sint x < 2 ^ 31" using sint_lt [of x] by simp
  then have "uint (scast x :: u64) = sint x" unfolding scast_eq uint_word_of_int_eq
    using nn by (intro take_bit_int_eq_self) simp_all
  moreover have "uint x = sint x"
    using nn lt by (subst uint_sint) (rule take_bit_int_eq_self, simp_all)
  ultimately show ?thesis by simp
qed


lemma sint_plus_placed: "0 \<le> sint a \<Longrightarrow> 0 \<le> sint b \<Longrightarrow> sint a + sint b < 2 ^ 31 \<Longrightarrow> sint (a + b :: u32) = sint a + sint b"
  by (simp add: sint_word_ariths(1) signed_take_bit_int_eq_self)

lemma sint_minus_placed: "15 \<le> sint a \<Longrightarrow> sint (a - 15 :: u32) = sint a - 15"
proof -
  assume a: "15 \<le> sint a"
  have "sint (15 :: u32) = 15" by simp
  moreover have "sint a < 2 ^ 31" using sint_lt [of a] by simp
  ultimately show ?thesis using a by (simp add: sint_word_ariths(2) signed_take_bit_int_eq_self)
qed

text \<open>Being over such a window is what the picture suggests, and the event's position is relative to its corner.\<close>

lemma over_placed:
  assumes "placed w"
  shows "over 15 wm w \<longleftrightarrow> sint (wd_x w) < uint (wm_cursor_x wm) \<and> uint (wm_cursor_x wm) < sint (wd_x w) + sint (wd_width w) \<and>
      sint (wd_y w) - 15 < uint (wm_cursor_y wm) \<and> uint (wm_cursor_y wm) < sint (wd_y w) + sint (wd_height w)"
    "over 0 wm w \<longleftrightarrow> sint (wd_x w) < uint (wm_cursor_x wm) \<and> uint (wm_cursor_x wm) < sint (wd_x w) + sint (wd_width w) \<and>
      sint (wd_y w) < uint (wm_cursor_y wm) \<and> uint (wm_cursor_y wm) < sint (wd_y w) + sint (wd_height w)"
proof -
  have p: "0 \<le> sint (wd_x w)" "15 \<le> sint (wd_y w)" "0 \<le> sint (wd_width w)" "0 \<le> sint (wd_height w)"
    "sint (wd_x w) + sint (wd_width w) < 2 ^ 31" "sint (wd_y w) + sint (wd_height w) < 2 ^ 31" using assms by (simp_all add: placed_def)
  have s: "sint (wd_x w + wd_width w) = sint (wd_x w) + sint (wd_width w)" "sint (wd_y w + wd_height w) = sint (wd_y w) + sint (wd_height w)"
    "sint (wd_y w - 15) = sint (wd_y w) - 15"
    using sint_plus_placed sint_minus_placed p by simp_all
  have u: "uint (scast (wd_x w) :: u64) = sint (wd_x w)" "uint (scast (wd_x w + wd_width w) :: u64) = sint (wd_x w) + sint (wd_width w)"
    "uint (scast (wd_y w) :: u64) = sint (wd_y w)" "uint (scast (wd_y w + wd_height w) :: u64) = sint (wd_y w) + sint (wd_height w)"
    "uint (scast (wd_y w - 15) :: u64) = sint (wd_y w) - 15"
    using scast_nonneg [of "wd_x w"] scast_nonneg [of "wd_x w + wd_width w"] scast_nonneg [of "wd_y w"]
      scast_nonneg [of "wd_y w + wd_height w"] scast_nonneg [of "wd_y w - 15"] p s by auto
  show "over 15 wm w \<longleftrightarrow> sint (wd_x w) < uint (wm_cursor_x wm) \<and> uint (wm_cursor_x wm) < sint (wd_x w) + sint (wd_width w) \<and>
      sint (wd_y w) - 15 < uint (wm_cursor_y wm) \<and> uint (wm_cursor_y wm) < sint (wd_y w) + sint (wd_height w)"
    unfolding over_def word_less_def u by (rule refl)
  show "over 0 wm w \<longleftrightarrow> sint (wd_x w) < uint (wm_cursor_x wm) \<and> uint (wm_cursor_x wm) < sint (wd_x w) + sint (wd_width w) \<and>
      sint (wd_y w) < uint (wm_cursor_y wm) \<and> uint (wm_cursor_y wm) < sint (wd_y w) + sint (wd_height w)"
    unfolding over_def word_less_def diff_zero u by (rule refl)
qed

lemma low_word: "(word_of_int (take_bit 64 i) :: u32) = word_of_int i"
  by (rule bit_word_eqI) (simp add: bit_simps)

lemma cursor_in_placed:
  assumes "placed w" "uint (wm_cursor_x wm) < 2 ^ 31" "uint (wm_cursor_y wm) < 2 ^ 31"
  shows "sint (fst (cursor_in wm w)) = uint (wm_cursor_x wm) - sint (wd_x w)" "sint (snd (cursor_in wm w)) = uint (wm_cursor_y wm) - sint (wd_y w)"
proof -
  have rel: "sint (ucast (c - scast a :: u64) :: u32) = uint c - sint a" if "0 \<le> sint a" "uint c < 2 ^ 31" for c :: u64 and a :: u32
  proof -
    have "sint a < 2 ^ 31" using sint_lt [of a] by simp
    have "c - scast a = word_of_int (uint c - sint a)" unfolding scast_eq of_int_diff word_of_int_uint by (rule refl)
    then have "(ucast (c - scast a :: u64) :: u32) = word_of_int (take_bit 64 (uint c - sint a))"
      unfolding ucast_eq by (simp only: uint_word_of_int_eq) simp
    then have eq: "(ucast (c - scast a :: u64) :: u32) = word_of_int (uint c - sint a)"
      by (simp only: low_word)
    moreover have "- (2 ^ 31) \<le> uint c - sint a" "uint c - sint a < 2 ^ 31"
      using that \<open>sint a < 2 ^ 31\<close> uint_ge_0 [of c] by linarith+
    ultimately show ?thesis
      unfolding eq sint_sbintrunc' by (intro signed_take_bit_int_eq_self) simp_all
  qed
  show "sint (fst (cursor_in wm w)) = uint (wm_cursor_x wm) - sint (wd_x w)" "sint (snd (cursor_in wm w)) = uint (wm_cursor_y wm) - sint (wd_y w)"
    using rel assms by (simp_all add: cursor_in_def placed_def)
qed

text \<open>A window whose corner lies in the first 15 lines gets no event of the left button.\<close>

lemma top_window_unreachable:
  assumes "0 \<le> sint (wd_y w)" "sint (wd_y w) < 15" "uint (wm_cursor_y wm) < 2 ^ 63"
  shows "\<not> over 15 wm w"
proof -
  have "sint (wd_y w - 15) = sint (wd_y w) - 15" using assms(1,2) by (simp add: sint_word_ariths(2) signed_take_bit_int_eq_self)
  then have "sint (wd_y w - 15) < 0" "- 15 \<le> sint (wd_y w - 15)" using assms by simp_all
  moreover have "i mod 2 ^ 64 = i + 2 ^ 64" if "- 15 \<le> i" "i < 0" for i :: int
    using that mod_pos_pos_trivial [of "i + 2 ^ 64" "2 ^ 64"] by simp
  ultimately have "uint (scast (wd_y w - 15) :: u64) = sint (wd_y w - 15) + 2 ^ 64"
    unfolding scast_eq uint_word_of_int by simp
  then show ?thesis using assms(3) \<open>- 15 \<le> sint (wd_y w - 15)\<close> by (simp add: over_def word_less_def)
qed

section \<open>Every operation\<close>

text \<open>The calls of user programs, with the answers of their heaps, and the interrupts of the mouse.\<close>

datatype wm_op = WM_Allocate u32 u32 u64 nat "u64 option" | WM_Poll u64 | WM_Resize u64 u32 u32 "u64 option" | WM_Mouse u32 u32 kdc_action

fun wm_exec :: "graphics_driver \<Rightarrow> wm_op \<Rightarrow> u64 \<times> window_manager \<Rightarrow> u64 \<times> window_manager" where
  "wm_exec gd (WM_Allocate w h hook process buffer) (last_handle, wm) =
     (case wm_allocate_window w h hook process buffer last_handle wm of (_, last_handle, wm) \<Rightarrow> (last_handle, wm))"
| "wm_exec gd (WM_Poll h) (last_handle, wm) = (last_handle, wm\<lparr>wm_windows := snd (wm_window_poll_event h (wm_windows wm))\<rparr>)"
| "wm_exec gd (WM_Resize h width height buffer) (last_handle, wm) =
     (last_handle, case wm_window_resize gd h width height buffer wm of None \<Rightarrow> wm | Some (_, wm) \<Rightarrow> wm)"
| "wm_exec gd (WM_Mouse x y action) (last_handle, wm) = (last_handle, wm_handle_mouse_event x y action wm)"

definition wm_typed :: "u64 \<times> window_manager \<Rightarrow> bool" where
  "wm_typed = (\<lambda>(last_handle, wm). list_all queue_ok (wm_windows wm) \<and>
     map wd_handle (wm_windows wm) = map of_nat [0..<length (wm_windows wm)] \<and> last_handle = of_nat (length (wm_windows wm)))"

definition allocations :: "wm_op list \<Rightarrow> nat" where
  "allocations ops = length (filter (\<lambda>q. case q of WM_Allocate _ _ _ _ _ \<Rightarrow> True | _ \<Rightarrow> False) ops)"

lemma polls_windows:
  "list_all queue_ok ws \<Longrightarrow> list_all queue_ok (snd (wm_window_poll_event h ws)) \<and>
   map wd_handle (snd (wm_window_poll_event h ws)) = map wd_handle ws"
proof (induction ws)
  case (Cons w ws)
  obtain e q where g: "rb_get (wd_event_queue w) = (e, q)" by fastforce
  have inv: "rb_inv (wd_event_queue w)" "rb_capacity (wd_event_queue w) = 7" using Cons.prems by (simp_all add: queue_ok_def)
  have "rb_inv q" "rb_capacity q = 7" using rb.get_inv [OF inv(1)] rb.get_cap [OF inv(1)] g inv(2) by simp_all
  then show ?case using Cons g by (auto simp: queue_ok_def split_beta)
qed simp

lemma resize_windows:
  "list_all queue_ok ws \<Longrightarrow> list_all queue_ok (snd (resize_loop h width height b ws)) \<and>
   map wd_handle (snd (resize_loop h width height b ws)) = map wd_handle ws"
  by (induction ws) (auto simp: queue_ok_def split_beta)

lemma queue_ok_upd [simp]:
  "queue_ok (w\<lparr>wd_is_dragging := b\<rparr>) = queue_ok w" "queue_ok (w\<lparr>wd_active := b\<rparr>) = queue_ok w"
  "queue_ok (w\<lparr>wd_x := x\<rparr>) = queue_ok w" "queue_ok (w\<lparr>wd_y := x\<rparr>) = queue_ok w"
  "queue_ok (w\<lparr>wd_parent_process := p\<rparr>) = queue_ok w" "queue_ok (w\<lparr>wd_buffer := m\<rparr>) = queue_ok w"
  "queue_ok (w\<lparr>wd_event_hook := k\<rparr>) = queue_ok w"
  by (simp_all add: queue_ok_def)

lemma send_handle [simp]: "wd_handle (send e w) = wd_handle w"
  by (simp add: send_def)

lemma mouse_windows:
  "list_all queue_ok (wm_windows wm) \<Longrightarrow> list_all queue_ok (wm_windows (wm_handle_mouse_event x y action wm)) \<and>
   map wd_handle (wm_windows (wm_handle_mouse_event x y action wm)) = map wd_handle (wm_windows wm)"
  by (cases action) (simp_all add: wm_handle_mouse_event_def loops_upd_first handles_upd_first queues_upd_first send_pend(2,3))

lemma new_queue_ok: "queue_ok (fst (wm_create_window w h x y last_handle)) \<and> wd_handle (fst (wm_create_window w h x y last_handle)) = last_handle"
  by (simp add: wm_create_window_def queue_ok_def rb_new_inv rb_capacity_def buffer_size_def) (simp add: rb_new_def)

lemma wm_exec_typed:
  assumes "wm_typed s"
  shows "wm_typed (wm_exec gd q s)"
proof -
  obtain lh wm where s: "s = (lh, wm)" by fastforce
  have q: "list_all queue_ok (wm_windows wm)" and h: "map wd_handle (wm_windows wm) = map of_nat [0..<length (wm_windows wm)]"
    and l: "lh = of_nat (length (wm_windows wm))" using assms by (simp_all add: s wm_typed_def)
  have keep: "wm_typed (lh, wm\<lparr>wm_windows := ws\<rparr>)" if "list_all queue_ok ws \<and> map wd_handle ws = map wd_handle (wm_windows wm)" for ws
    using that h l map_eq_imp_length_eq [of wd_handle ws wd_handle "wm_windows wm"] by (simp add: wm_typed_def)
  show ?thesis
  proof (cases q)
    case (WM_Allocate w h' hook process buffer)
    then show ?thesis using q h l new_queue_ok [of w h' 20 20 lh]
      by (auto simp: s wm_allocate_window_def wm_typed_def split_beta) (simp_all add: wm_create_window_def)
  next
    case (WM_Poll k)
    then show ?thesis using keep [OF polls_windows [OF q]] by (simp add: s)
  next
    case (WM_Resize k width height buffer)
    then show ?thesis using keep [OF resize_windows [OF q, of k width height buffer]] assms
      by (auto simp: s wm_window_resize_def split_beta split: option.splits bind_splits if_splits)
  next
    case (WM_Mouse x y action)
    then show ?thesis using mouse_windows [OF q, of x y action] h l
        map_eq_imp_length_eq [of wd_handle "wm_windows (wm_handle_mouse_event x y action wm)" wd_handle "wm_windows wm"]
      by (simp add: s wm_typed_def)
  qed
qed

lemma wm_run_typed:
  "wm_typed s \<Longrightarrow> wm_typed (fold (wm_exec gd) ops s) \<and>
   length (wm_windows (snd (fold (wm_exec gd) ops s))) = length (wm_windows (snd s)) + allocations ops"
proof (induction ops arbitrary: s)
  case (Cons q ops)
  obtain lh wm where s: "s = (lh, wm)" by fastforce
  have q: "list_all queue_ok (wm_windows wm)" using Cons.prems by (simp add: s wm_typed_def)
  have len: "length (wm_windows (snd (wm_exec gd q s))) = length (wm_windows wm) + allocations [q]"
  proof (cases q)
    case (WM_Poll h)
    then show ?thesis using polls_windows [OF q] map_eq_imp_length_eq by (fastforce simp: s allocations_def)
  next
    case (WM_Resize h width height buffer)
    then show ?thesis using resize_windows [OF q, of h width height buffer] map_eq_imp_length_eq
      by (fastforce simp: s allocations_def wm_window_resize_def split_beta split: option.splits bind_splits if_splits)
  next
    case (WM_Mouse x y action)
    then show ?thesis using mouse_windows [OF q, of x y action] map_eq_imp_length_eq by (fastforce simp: s allocations_def)
  qed (simp add: s allocations_def wm_allocate_window_def split_beta)
  have "allocations (q # ops) = allocations [q] + allocations ops" by (simp add: allocations_def)
  then show ?case using Cons.IH [OF wm_exec_typed [OF Cons.prems, of gd q]] len by (simp add: s)
qed (simp add: allocations_def)

lemma get_buffer_nth:
  "distinct (map wd_handle ws) \<Longrightarrow> k < length ws \<Longrightarrow> wm_window_get_buffer ws (wd_handle (ws ! k)) = wd_buffer (ws ! k)"
proof (induction ws arbitrary: k)
  case (Cons w ws)
  then show ?case by (cases k) (auto dest: nth_mem)
qed simp

lemma distinct_handles: "n \<le> 2 ^ 64 \<Longrightarrow> distinct (map (of_nat :: nat \<Rightarrow> u64) [0..<n])"
  by (auto simp: distinct_map inj_on_def word_of_nat_eq_iff take_bit_nat_eq_self)

lemma wm_typed_ok: "wm_typed (lh, wm) \<Longrightarrow> length (wm_windows wm) \<le> 2 ^ 64 \<Longrightarrow> wm_ok wm"
  by (simp only: wm_typed_def wm_ok_def prod.case) (simp add: distinct_handles)

section \<open>Properties\<close>

definition wm_new :: "u64 \<times> window_manager" where
  "wm_new = (0, \<lparr>wm_should_render = False, wm_windows = [], wm_cursor_x = 0, wm_cursor_y = 0\<rparr>)"

lemma wm_new_typed: "wm_typed wm_new"
  by (simp add: wm_new_def wm_typed_def)

lemma wm_new_empty: "wm_windows (snd wm_new) = []"
  by (simp add: wm_new_def)

definition demo_buffer :: "u64 option" where "demo_buffer = Some 0x200000"

definition demo_wm :: window_manager where
  "demo_wm = snd (fold (wm_exec GD_UNKNOWN) [WM_Allocate 100 80 1 7 demo_buffer, WM_Allocate 300 200 2 8 None, WM_Mouse 150 60 MMOVE] wm_new)"

definition demo_window :: "u32 \<Rightarrow> u32 \<Rightarrow> u64 option \<Rightarrow> nat \<Rightarrow> u64 \<Rightarrow> u64 \<Rightarrow> window" where
  "demo_window w h buffer process handle hook = \<lparr>wd_width = w, wd_height = h, wd_x = 20, wd_y = 20, wd_buffer = buffer, wd_is_dragging = False,
     wd_parent_process = process, wd_handle = handle, wd_active = False, wd_event_hook = hook,
     wd_event_queue = rb_new (replicate 8 (WE_MBL_DOWN 0 0))\<rparr>"

lemma demo_wm_eq:
  "demo_wm = \<lparr>wm_should_render = True, wm_windows = [demo_window 100 80 demo_buffer 7 0 1, demo_window 300 200 None 8 1 2],
     wm_cursor_x = 150, wm_cursor_y = 60\<rparr>"
  by (simp add: demo_wm_def wm_new_def wm_allocate_window_def wm_create_window_def wm_handle_mouse_event_def demo_window_def)

text \<open>
  C29. Windows keep their shape. Whatever programs and the mouse do, in any order, to a fresh window manager:
  there is a window for every allocation, the handle given out by the \<open>k\<close>-th allocation is \<open>k\<close> and names the
  \<open>k\<close>-th window alone (up to \<open>2 ^ 64\<close> allocations), and every window's queue is a ring of capacity 7.
\<close>

theorem wm_windows_typed:
  assumes "fold (wm_exec gd) ops wm_new = (last_handle, wm)" "allocations ops \<le> 2 ^ 64"
  shows "length (wm_windows wm) = allocations ops \<and> list_all queue_ok (wm_windows wm) \<and>
    distinct (map wd_handle (wm_windows wm)) \<and> last_handle = of_nat (allocations ops) \<and>
    (\<forall>k < allocations ops. wd_handle (wm_windows wm ! k) = of_nat k \<and>
       wm_window_get_buffer (wm_windows wm) (of_nat k) = wd_buffer (wm_windows wm ! k))"
proof -
  have t: "wm_typed (last_handle, wm)" and n: "length (wm_windows wm) = allocations ops"
    using wm_run_typed [OF wm_new_typed, of gd ops] assms(1) by (simp_all add: wm_new_empty)
  have h: "map wd_handle (wm_windows wm) = map of_nat [0..<allocations ops]" and d: "wm_ok wm"
    using t n wm_typed_ok [OF t] assms(2) by (simp_all add: wm_typed_def)
  have nth: "wd_handle (wm_windows wm ! k) = of_nat k" if "k < allocations ops" for k
    using arg_cong [OF h, of "\<lambda>xs. xs ! k"] that n by simp
  show ?thesis using t n d nth get_buffer_nth [of "wm_windows wm"]
    by (auto simp: wm_typed_def wm_ok_def)
qed

theorem wm_windows_typed_witness:
  "length (wm_windows demo_wm) = 2 \<and> wm_window_get_buffer (wm_windows demo_wm) 0 = demo_buffer"
proof -
  let ?ops = "[WM_Allocate 100 80 1 7 demo_buffer, WM_Allocate 300 200 2 8 None, WM_Mouse 150 60 MMOVE]"
  have a: "allocations ?ops = 2" by (simp add: allocations_def)
  have "fold (wm_exec GD_UNKNOWN) ?ops wm_new = (fst (fold (wm_exec GD_UNKNOWN) ?ops wm_new), demo_wm)"
    by (simp only: demo_wm_def prod.collapse)
  note T = wm_windows_typed [OF this, unfolded a]
  from T have "length (wm_windows demo_wm) = 2" by simp
  moreover from T have "\<forall>k < 2. wm_window_get_buffer (wm_windows demo_wm) (of_nat k) = wd_buffer (wm_windows demo_wm ! k)" by simp
  then have "wm_window_get_buffer (wm_windows demo_wm) (of_nat 0) = wd_buffer (wm_windows demo_wm ! 0)"
    by (metis zero_less_numeral)
  moreover have "wd_buffer (wm_windows demo_wm ! 0) = demo_buffer"
    by (simp add: demo_wm_eq demo_window_def)
  ultimately show ?thesis by simp
qed

lemma demo_wm_ok: "wm_ok demo_wm"
proof -
  let ?s = "fold (wm_exec GD_UNKNOWN) [WM_Allocate 100 80 1 7 demo_buffer, WM_Allocate 300 200 2 8 None, WM_Mouse 150 60 MMOVE] wm_new"
  have "wm_typed (fst ?s, demo_wm)" "length (wm_windows demo_wm) = 2"
    using wm_run_typed [OF wm_new_typed, of GD_UNKNOWN "[WM_Allocate 100 80 1 7 demo_buffer, WM_Allocate 300 200 2 8 None, WM_Mouse 150 60 MMOVE]"]
    by (simp_all only: demo_wm_def prod.collapse) (simp_all add: allocations_def wm_new_def)
  then show ?thesis using wm_typed_ok by simp
qed





end
