(* ===== verification/Process.thy ===== *)
theory Process
  imports Sched Elf Vfs
begin

text \<open>
  Processes: \<open>src/kernel/src/process.cpp\<close>.

  The state joins the page tables, the file systems and the scheduler. A pointer to a process is its index
  in the list of processes. The answers of the allocations of \<open>create_process\<close> and what fresh memory holds
  are arguments; \<open>None\<close> is a write through a null pointer. The memory of the new page table is reached through its
  physical address, where its virtual address leads. Removing a process is \<open>delete_process\<close> of \<open>Sched\<close>.
\<close>

definition PROCESS_ID_KERNEL :: u64 where "PROCESS_ID_KERNEL = 0"
definition KERNEL_VIRTUAL_BASE :: u64 where "KERNEL_VIRTUAL_BASE = 0xFFFFF80000000000"
definition USER_DATA_SELECTOR_INDEX :: u64 where "USER_DATA_SELECTOR_INDEX = 4"
definition USER_CODE_SELECTOR_INDEX :: u64 where "USER_CODE_SELECTOR_INDEX = 5"
definition sizeof_interrupt_regs :: u64 where "sizeof_interrupt_regs = 176"

record os =
  os_vm :: vm
  os_vfs :: vfs
  os_sched :: sched
  os_interrupts :: bool
  global_pid_counter :: u64

text \<open>The register \<open>cr3\<close> is seen by the page tables and by the scheduler.\<close>

definition amd64_set_page_table :: "u64 \<Rightarrow> 'a os_scheme \<Rightarrow> 'a os_scheme" where
  "amd64_set_page_table p s =
     s\<lparr>os_vm := (os_vm s)\<lparr>cr3 := p\<rparr>, os_sched := (os_sched s)\<lparr>sc_cpu := (sc_cpu (os_sched s))\<lparr>cpu_page_table := p\<rparr>\<rparr>\<rparr>"

definition get_current_process :: "'a os_scheme \<Rightarrow> nat option" where
  "get_current_process s = g_process (os_sched s)"

definition set_current_process :: "nat option \<Rightarrow> 'a os_scheme \<Rightarrow> 'a os_scheme" where
  "set_current_process p s = s\<lparr>os_sched := (os_sched s)\<lparr>g_process := p\<rparr>\<rparr>"

definition upd_process :: "nat \<Rightarrow> (process \<Rightarrow> process) \<Rightarrow> 'a os_scheme \<Rightarrow> 'a os_scheme" where
  "upd_process p f s = s\<lparr>os_sched := (os_sched s)\<lparr>sc_procs := (sc_procs (os_sched s))[p := f (sc_procs (os_sched s) ! p)]\<rparr>\<rparr>"

section \<open>The parts of create_process\<close>

record process_memory =
  pm_raw :: "nat \<Rightarrow> u8 list"
  pm_file_v :: u64
  pm_program_v :: u64
  pm_program :: "u8 list"
  pm_table_v :: u64
  pm_stack_v :: u64
  pm_kstack_v :: u64
  pm_fpu_v :: u64
  pm_fpu :: "u8 list"
  pm_blocks :: "heap_block list"

text \<open>The top table: cleared, with its recursive slot and the entries of the kernel.\<close>

definition copy_kernel_entries :: "u64 \<Rightarrow> nat list \<Rightarrow> 'a vm_scheme \<Rightarrow> 'a vm_scheme" where
  "copy_kernel_entries table = fold (\<lambda>i vm. set_ent table (of_nat i) (ent vm (pt_frame (cr3 vm)) (of_nat i)) vm)"

definition build_page_table :: "u64 \<Rightarrow> 'a vm_scheme \<Rightarrow> 'a vm_scheme" where
  "build_page_table new_page_table_p vm =
     (let vm = zero_frame new_page_table_p vm;
          vm = set_ent new_page_table_p 511 ((new_page_table_p AND NOT 0xFFF) OR PF_PRESENT OR PF_READ_WRITE) vm
      in copy_kernel_entries new_page_table_p [unat (pt_index KERNEL_VIRTUAL_BASE 39)..<511] vm)"

definition user_stack :: u64 where "user_stack = PAGE_SIZE_LARGE * 1"

text \<open>What is pushed for the first return to the program: the frame of the interrupt return and the registers.\<close>

definition stack_start :: "u64 \<Rightarrow> u64" where
  "stack_start stack = (stack + PAGE_SIZE_LARGE - sizeof_interrupt_regs) AND NOT 0xF"

definition user_frame :: "u64 \<Rightarrow> u64 list" where
  "user_frame entry = [push_bit 3 USER_DATA_SELECTOR_INDEX OR 3, stack_start user_stack, RFLAGS_IF OR RFLAGS_RES,
     push_bit 3 USER_CODE_SELECTOR_INDEX OR 3, entry, 0] @ replicate 13 0 @ [0, 0]"

definition clear_stack :: "u64 \<Rightarrow> (u64 \<Rightarrow> u64) \<Rightarrow> u64 \<Rightarrow> u64" where
  "clear_stack stack mem = (\<lambda>a. if a - stack < PAGE_SIZE_LARGE then 0 else mem a)"

text \<open>The thread of the program and the memory with its stack.\<close>

definition program_thread :: "process_memory \<Rightarrow> nat \<Rightarrow> u64 \<Rightarrow> u64 \<Rightarrow> sched \<Rightarrow> vthread \<times> sched" where
  "program_thread mem p entry page_table s =
     (let (top, m) = fold push_word (user_frame entry) (stack_start (pm_stack_v mem), clear_stack (pm_stack_v mem) (sc_mem s));
          (h, s) = vhtread_next_handle (s\<lparr>sc_mem := m\<rparr>)
      in (vthread_zero\<lparr>vt_stack_bottom := user_stack, vt_stack_bottom_kernel := pm_stack_v mem, vt_kstack := pm_kstack_v mem,
            vt_stack_top := top, vt_state := VT_RUNNING, vt_handle := h, vt_fpu_state := pm_fpu_v mem, vt_fpu := pm_fpu mem,
            vt_page_table := page_table, vt_tls_handle := h, vt_parent := Some p\<rparr>, s))"

definition user_flags :: u64 where "user_flags = VMEM_EXECUTE OR VMEM_USER OR VMEM_READWRITE"

text \<open>The loop steps by the size of a page and multiplies by it again.\<close>

partial_function (option) map_program :: "u64 \<Rightarrow> u64 \<Rightarrow> u64 \<Rightarrow> u64 \<Rightarrow> 'a vm_scheme \<Rightarrow> (bool \<times> 'a vm_scheme) option" where
  "map_program sz min_address base_address_p i vm =
     (if i < sz then
        case vmem_map_2mb (min_address + i * PAGE_SIZE_LARGE) (base_address_p + i * PAGE_SIZE_LARGE) user_flags vm of (ok, vm) \<Rightarrow>
          if ok then map_program sz min_address base_address_p (i + PAGE_SIZE_LARGE) vm else Some (False, vm)
      else Some (True, vm))"

text \<open>The user half of the new address space, built while its table is loaded.\<close>

definition map_user_space :: "process_memory \<Rightarrow> elf_program_section_info \<Rightarrow> u64 \<Rightarrow> u64 \<Rightarrow> vm \<Rightarrow> (heap option \<times> bool \<times> vm) option" where
  "map_user_space mem psi base_address_p user_stack_p vm = do {
     (ok, vm) \<leftarrow> map_program (psi_size psi) (psi_min_address psi) base_address_p 0 vm;
     if \<not> ok then Some (None, False, vm)
     else case heap_init PAGE_SIZE_HUGE PAGE_SIZE_LARGE True (pm_blocks mem) vm of (h, vm) \<Rightarrow>
       if h = None then Some (None, False, vm)
       else case vmem_map_2mb user_stack user_stack_p user_flags vm of (ok, vm) \<Rightarrow> Some (h, ok, vm) }"

text \<open>From the loaded image on: the page table, the thread, the user half, the thread's entry in the table.\<close>

definition start_program :: "process_memory \<Rightarrow> nat \<Rightarrow> elf_program_section_info \<Rightarrow> u64 \<Rightarrow> 'a os_scheme \<Rightarrow> (bool \<times> 'a os_scheme) option" where
  "start_program mem p psi entry s = do {
     let s = upd_process p (\<lambda>pr. pr\<lparr>pr_page_table := pm_table_v mem\<rparr>) s;
     if pm_table_v mem = 0 then None else do {
     let new_page_table_p = vmem_virtual_to_physical (os_vm s) (pm_table_v mem);
     let s = s\<lparr>os_vm := build_page_table new_page_table_p (os_vm s)\<rparr>;
     if pm_stack_v mem = 0 then None else do {
     let (t, sc) = program_thread mem p entry new_page_table_p (os_sched s);
     let s = s\<lparr>os_sched := sc\<rparr>;
     let current_page_table_p = cr3 (os_vm s);
     let base_address_p = vmem_virtual_to_physical (os_vm s) (pm_program_v mem);
     let user_stack_p = vmem_virtual_to_physical (os_vm s) (pm_stack_v mem);
     let s = amd64_set_page_table new_page_table_p (s\<lparr>os_interrupts := False\<rparr>);
     (h, ok, vm) \<leftarrow> map_user_space mem psi base_address_p user_stack_p (os_vm s);
     let s = s\<lparr>os_vm := vm\<rparr>;
     let s = (case h of None \<Rightarrow> s | Some h \<Rightarrow> upd_process p (\<lambda>pr. pr\<lparr>pr_heap := h\<rparr>) s);
     if \<not> ok then Some (False, s) else do {
     let s = (amd64_set_page_table current_page_table_p s)\<lparr>os_interrupts := True\<rparr>;
     let s = upd_process p (\<lambda>pr. pr\<lparr>pr_pid := global_pid_counter s, pr_main_thread := vt_handle t, pr_is_kernel_process := False\<rparr>) s;
     let s = s\<lparr>global_pid_counter := global_pid_counter s + 1\<rparr>;
     Some (True, s\<lparr>os_sched := snd (vthread_add t (os_sched s))\<rparr>) } } } }"

section \<open>Operations\<close>

definition create_process :: "process_memory \<Rightarrow> nat option \<Rightarrow> u8 list option \<Rightarrow> 'a os_scheme \<Rightarrow> (bool \<times> 'a os_scheme) option" where
  "create_process mem process path s =
     (case (process, path) of
        (Some p, Some path) \<Rightarrow> do {
          (fd, v) \<leftarrow> vfs_open_file (os_vfs s) path;
          let s = s\<lparr>os_vfs := v\<rparr>;
          if fd = FILE_DESCRIPTOR_INVALID then Some (False, s) else do {
          (ok, data, data_size) \<leftarrow> vfs_read_file True True (pm_raw mem) (os_vfs s) fd (None, 0);
          let s = upd_process p (\<lambda>pr. pr\<lparr>pr_data := (if data = None then 0 else pm_file_v mem), pr_data_size := data_size\<rparr>) s;
          if \<not> ok then Some (False, s) else do {
          data \<leftarrow> data;
          r \<leftarrow> elf_check_file data ELF_EXECUTABLE;
          if r \<noteq> 0 then Some (False, s) else do {
          program_section_info \<leftarrow> elf_parse_program_sections data;
          if psi_size program_section_info = 0 then Some (False, s) else do {
          let s = upd_process p (\<lambda>pr. pr\<lparr>pr_program_data_v := pm_program_v mem\<rparr>) s;
          if pm_program_v mem = 0 then Some (False, s) else do {
          img \<leftarrow> elf_load_program_sections data (pm_program mem) program_section_info;
          let s = upd_process p (\<lambda>pr. pr\<lparr>pr_image := img\<rparr>) s;
          tables \<leftarrow> elf_get_tables data;
          if tb_string_table tables = None \<or> tb_symbol_table tables = None then Some (False, s) else do {
          entry \<leftarrow> eh_entry_point data;
          start_program mem p program_section_info entry s } } } } } } }
      | _ \<Rightarrow> Some (False, s))"

definition process_setup_kernel_process :: "nat option \<Rightarrow> heap \<Rightarrow> 'a os_scheme \<Rightarrow> bool \<times> 'a os_scheme" where
  "process_setup_kernel_process process h s =
     (case process of None \<Rightarrow> (False, s)
      | Some p \<Rightarrow> (True, set_current_process (Some p) (upd_process p (\<lambda>_. process_zero\<lparr>pr_pid := PROCESS_ID_KERNEL, pr_heap := h,
          pr_main_thread := VTHREAD_MAIN_THREAD_HANDLE, pr_page_table := cr3 (os_vm s), pr_is_kernel_process := True\<rparr>) s)))"

end
