(* ===== verification/Address_Space.thy ===== *)
theory Address_Space
  imports Process
begin

text \<open>
  The address space of a new process: what \<open>create_process\<close> makes of the page tables.
\<close>

section \<open>The heap of a process\<close>

lemma get_aligned_page_spec:
  assumes "get_aligned_page p vm = (r, vm')" "bitmap_ok vm"
  shows "phys_mem vm' = phys_mem vm \<and> cr3 vm' = cr3 vm \<and>
    (r = p \<or> (r \<noteq> 0 \<longrightarrow> \<not> page_taken vm r \<and> page_taken vm' r)) \<and> (p \<noteq> 0 \<and> r = 0 \<longrightarrow> avail vm' = {})"
  using assms
proof (induction p vm arbitrary: r vm' rule: get_aligned_page.induct)
  case (1 p vm)
  show ?case
  proof (cases "p \<noteq> 0 \<and> \<not> is_aligned p PAGE_SIZE_LARGE")
    case False
    with "1.prems" show ?thesis by (auto simp: get_aligned_page.simps [of p vm])
  next
    case True
    obtain p1 vm1 where g: "pmem_get_page vm = (p1, vm1)" by fastforce
    have gr: "pmem_grows vm vm1" using pmem_get_page_grows [of vm] g by simp
    have ok1: "bitmap_ok vm1" using gr "1.prems"(2) by (simp add: pmem_grows_def)
    have r: "get_aligned_page p1 vm1 = (r, vm')" using "1.prems"(1) True g by (simp add: get_aligned_page.simps [of p vm])
    have gr': "pmem_grows vm1 vm'" using get_aligned_page_props [OF r ok1] by simp
    note IH = "1.IH" [OF True g [symmetric] r ok1]
    note s = pmem_get_page_spec [OF "1.prems"(2) g]
    have f: "r = p \<or> (r \<noteq> 0 \<longrightarrow> \<not> page_taken vm r \<and> page_taken vm' r)"
      using IH s gr gr' by (auto simp: pmem_grows_def)
    have d: "avail vm' = {}" if "r = 0"
    proof (cases "p1 = 0")
      case True
      then have "avail vm1 = {}" using s gr by (auto simp: pmem_grows_def)
      then show ?thesis using gr' by (auto simp: pmem_grows_def)
    qed (use IH that in auto)
    show ?thesis using IH f d pmem_get_page_frame(1,2) [OF g] by auto
  qed
qed

text \<open>What a sequence of mappings does: translations change at the pages in \<open>P\<close> only.\<close>

definition maps :: "u64 set \<Rightarrow> 'a vm_scheme \<Rightarrow> 'a vm_scheme \<Rightarrow> bool" where
  "maps P vm vm' \<longleftrightarrow> pt_inv vm' \<and> pmem_grows vm vm' \<and> cr3 vm' = cr3 vm \<and> spares vm vm' \<and>
     (\<forall>va. pt_index va 39 \<noteq> 511 \<longrightarrow> (\<forall>p \<in> P. \<not> same_large_page va p) \<longrightarrow>
        amd64_vmem_virtual_to_physical vm' va = amd64_vmem_virtual_to_physical vm va)"

lemma maps_trans: "maps P vm vm1 \<Longrightarrow> maps Q vm1 vm2 \<Longrightarrow> maps (P \<union> Q) vm vm2"
  unfolding maps_def using pmem_grows_trans spares_trans by fastforce

lemma maps_bitmap:
  "pt_inv vm \<Longrightarrow> pmem_grows vm vm' \<Longrightarrow> phys_mem vm' = phys_mem vm \<Longrightarrow> cr3 vm' = cr3 vm \<Longrightarrow> maps {} vm vm'"
  using pt_inv_bitmap [of vm vm'] by (simp add: maps_def)

lemma maps_2mb:
  assumes "pt_inv vm" "is_aligned va PAGE_SIZE_LARGE" "is_aligned pa PAGE_SIZE_LARGE" "pt_index va 39 \<noteq> 511"
    "pt_frame pa = pa" "vmem_map_2mb va pa fl vm = (ok, vm')" "avail vm' \<noteq> {}"
  shows "ok" "maps {va} vm vm'"
    "same_large_page x va \<Longrightarrow> amd64_vmem_virtual_to_physical vm' x = pa + (x AND 0x1FFFFF)"
    "same_large_page x va \<Longrightarrow> mmu_walk vm' x = Some (pa + (x AND 0x1FFFFF))"
proof -
  have m: "amd64_vmem_map_2mb va pa (BIT_CHECK fl VMEM_BIT_USER_KERNEL) vm = (ok, vm')"
    using assms(6) by (simp add: vmem_map_2mb_def)
  note mc = map_2mb_correct [OF assms(1-5) m assms(7)]
  show "ok" "maps {va} vm vm'"
    "same_large_page x va \<Longrightarrow> amd64_vmem_virtual_to_physical vm' x = pa + (x AND 0x1FFFFF)"
    "same_large_page x va \<Longrightarrow> mmu_walk vm' x = Some (pa + (x AND 0x1FFFFF))"
    using mc by (simp_all add: maps_def)
qed

lemma frame_of_page: "unat r mod 4096 = 0 \<Longrightarrow> unat (r :: u64) < 4294967296 \<Longrightarrow> pt_frame r = r"
  using page_bits [of r] by (intro bit_word_eqI) fastforce

lemma block_array_maps:
  assumes inv: "pt_inv vm" and va: "is_aligned va PAGE_SIZE_LARGE" "pt_index va 39 \<noteq> 511"
    and m: "map_block_array va fl vm = (ok, vm')" and av: "avail vm' \<noteq> {}"
  shows "ok \<and> maps {va} vm vm' \<and> (\<exists>f. \<not> page_taken vm f \<and> page_taken vm' f \<and> is_aligned f PAGE_SIZE_LARGE \<and>
    (\<forall>x. same_large_page x va \<longrightarrow> amd64_vmem_virtual_to_physical vm' x = f + (x AND 0x1FFFFF)))"
proof -
  have bok: "bitmap_ok vm" using inv by (simp add: pt_inv_def)
  have gr: "pmem_grows vm vm'" by (rule map_block_array_grows [OF bok m])
  then have av0: "avail vm \<noteq> {}" using av by (auto simp: pmem_grows_def)
  obtain p0 vm1 where g: "pmem_get_page vm = (p0, vm1)" by fastforce
  note s = pmem_get_page_spec [OF bok g]
  have p0: "p0 \<noteq> 0" using s av0 by auto
  have gr1: "pmem_grows vm vm1" using pmem_get_page_grows [of vm] g by simp
  have ok1: "bitmap_ok vm1" using gr1 bok by (simp add: pmem_grows_def)
  note m1 = maps_bitmap [OF inv gr1 pmem_get_page_frame(1,2) [OF g]]
  obtain p vm2 where a: "get_aligned_page p0 vm1 = (p, vm2)" by fastforce
  note a' = get_aligned_page_props [OF a ok1] get_aligned_page_spec [OF a ok1]
  have inv1: "pt_inv vm1" using m1 by (simp add: maps_def)
  have m2: "maps {} vm1 vm2" using a' by (intro maps_bitmap [OF inv1]) auto
  obtain ok3 vm3 where r: "pmem_try_reserve_address (p + PAGE_SIZE) 511 vm2 = (ok3, vm3)" by fastforce
  have gr3: "pmem_grows vm2 vm3" using pmem_try_reserve_grows [of vm2 "p + PAGE_SIZE" 511] r by simp
  have inv2: "pt_inv vm2" using m2 by (simp add: maps_def)
  note m3 = maps_bitmap [OF inv2 gr3 reserve_frame [OF r]]
  have p: "p \<noteq> 0"
  proof
    assume "p = 0"
    then have "avail vm2 = {}" "vm' = vm2" using a' p0 m g a by (auto simp: map_block_array_def)
    then show False using av by simp
  qed
  have al: "is_aligned p PAGE_SIZE_LARGE" and lt: "unat p < 4294967296" using a' p s p0 by auto
  have pf: "pt_frame p = p" using al lt by (intro frame_of_page) (auto simp: is_aligned_2mb)
  have ok2: "bitmap_ok vm2" using inv2 by (simp add: pt_inv_def)
  have "ok3" using reserve_rest_ok(1) [OF ok2 al lt] r by simp
  then have mp: "vmem_map_2mb va p fl vm3 = (ok, vm')" using m g a p r by (simp add: map_block_array_def pages_per_large)
  have inv3: "pt_inv vm3" using m3 by (simp add: maps_def)
  note mm = maps_2mb [OF inv3 va(1) al va(2) pf mp av]
  have "maps {va} vm vm'" using maps_trans [OF maps_trans [OF maps_trans [OF m1 m2] m3] mm(2)] by simp
  moreover have "\<not> page_taken vm p" using a' s p p0 gr1 by (auto simp: pmem_grows_def)
  moreover have "page_taken vm' p"
  proof -
    have "page_taken vm2 p" using a' s p p0 m2 by (auto simp: maps_def pmem_grows_def)
    then show ?thesis using m3 mm(2) by (simp add: maps_def pmem_grows_def)
  qed
  ultimately show ?thesis using mm(1,3) al by blast
qed


lemma map_2mb_cr3 [simp]: "cr3 (snd (vmem_map_2mb va pa fl vm)) = cr3 vm"
  by (simp add: vmem_map_2mb_def amd64_vmem_map_2mb_def Let_def)

lemma smart_alloc_cr3: "smart_alloc_loop fl sz al cur vm = (r, vm') \<Longrightarrow> cr3 vm' = cr3 vm"
proof (induction fl sz al cur vm arbitrary: r vm' rule: smart_alloc_loop.induct)
  case (1 fl sz al cur vm)
  obtain t vm1 where g: "pmem_get_page vm = (t, vm1)" by fastforce
  obtain k vm2 where res: "pmem_try_reserve_address (t + PAGE_SIZE) (unat (PAGE_SIZE_LARGE div PAGE_SIZE - 1)) vm1 = (k, vm2)" by fastforce
  obtain k' vm3 where mp: "vmem_map_2mb cur t fl vm2 = (k', vm3)" by fastforce
  note c = pmem_get_page_frame(2) [OF g] reserve_frame(2) [OF res] map_2mb_cr3 [of cur t fl vm2, unfolded mp snd_conv]
  note p = "1.prems" [unfolded smart_alloc_loop.simps [of fl sz al cur vm] g prod.case res mp]
  consider "\<not> al < sz \<or> t = 0" | "al < sz" "t \<noteq> 0" "\<not> is_aligned t PAGE_SIZE_LARGE"
    | "al < sz" "t \<noteq> 0" "is_aligned t PAGE_SIZE_LARGE" "\<not> k \<or> \<not> k'" | "al < sz" "t \<noteq> 0" "is_aligned t PAGE_SIZE_LARGE" "k" "k'" by blast
  then show ?case
  proof cases
    case 2
    then show ?thesis using "1.IH"(1) [OF 2(1) g [symmetric] 2(2,3)] p c by simp
  next
    case 4
    have "smart_alloc_loop fl sz (al + PAGE_SIZE_LARGE) (cur + PAGE_SIZE_LARGE) vm3 = (r, vm')" using p 4 by simp
    then have "cr3 vm' = cr3 vm3" using "1.IH"(2) [OF 4(1) g [symmetric] 4(2) _ res [symmetric] _ mp [symmetric]] 4 by simp
    then show ?thesis using c by simp
  qed (use p c in \<open>auto split: if_splits\<close>)
qed

text \<open>The pages of a heap: its array of descriptors and its blocks.\<close>

definition heap_pages :: "u64 \<Rightarrow> nat \<Rightarrow> u64 set" where
  "heap_pages va n = insert va ((\<lambda>k. range_page (va + PAGE_SIZE_LARGE) k) ` {..<n})"

lemma heap_init_maps:
  assumes inv: "pt_inv vm" and va: "is_aligned va PAGE_SIZE_LARGE" and sz: "unat sz \<le> 1099511627776"
    and n: "n = (unat sz + 2097151) div 2097152" and ix: "\<forall>p \<in> heap_pages va n. pt_index p 39 \<noteq> 511"
    and i: "heap_init va sz is_user raw vm = (h, vm')" and av: "avail vm' \<noteq> {}"
  shows "h \<noteq> None \<and> maps (heap_pages va n) vm vm'"
proof -
  obtain r vm1 where a: "vmem_smart_alloc_pages (va + PAGE_SIZE_LARGE) sz (heap_flags is_user) vm = (r, vm1)" by fastforce
  obtain ok where m: "map_block_array va (heap_flags is_user) vm1 = (ok, vm')" and h: "h = (if ok then Some (setup_heap va r raw) else None)"
    using i a by (auto simp: heap_init_def split: prod.splits)
  have bok: "bitmap_ok vm" using inv by (simp add: pt_inv_def)
  have al: "is_aligned (va + PAGE_SIZE_LARGE) PAGE_SIZE_LARGE" by (rule is_aligned_add_large [OF va])
  note l = smart_alloc_laws [OF a bok al]
  have "pmem_grows vm1 vm'" by (rule map_block_array_grows [OF l(2) m])
  then have av1: "avail vm1 \<noteq> {}" using av by (auto simp: pmem_grows_def)
  have ixk: "\<forall>k<n. pt_index (range_page (va + PAGE_SIZE_LARGE) k) 39 \<noteq> 511" "pt_index va 39 \<noteq> 511"
    using ix by (auto simp: heap_pages_def)
  have "unat sz \<le> unat (0 :: u64) + 2097152 * n" "0 < n \<longrightarrow> unat (0 :: u64) + 2097152 * (n - 1) < unat sz" using n by auto
  then obtain fs where fs: "length fs = n" "pt_inv vm1" "backed (va + PAGE_SIZE_LARGE) fs vm vm1"
    using smart_alloc_loop_backs [of "heap_flags is_user" sz 0 "va + PAGE_SIZE_LARGE" vm r vm1 n] a inv al sz av1 ixk
    by (auto simp: vmem_smart_alloc_pages_def)
  have "maps ((\<lambda>k. range_page (va + PAGE_SIZE_LARGE) k) ` {..<n}) vm vm1"
    using fs l(1) smart_alloc_cr3 [of "heap_flags is_user" sz 0 "va + PAGE_SIZE_LARGE" vm r vm1] a
    by (auto simp: maps_def backed_def vmem_smart_alloc_pages_def)
  moreover have "ok \<and> maps {va} vm1 vm'" using block_array_maps [OF fs(2) va ixk(2) m av] by blast
  ultimately show ?thesis using h maps_trans by (fastforce simp: heap_pages_def)
qed


section \<open>The top table of a process\<close>

definition kernel_half :: nat where "kernel_half = unat (pt_index KERNEL_VIRTUAL_BASE 39)"

lemma kernel_half: "kernel_half = 496"
  by (simp add: kernel_half_def pt_index_def KERNEL_VIRTUAL_BASE_def)

lemma ent_set_frame:
  "x < 512 \<Longrightarrow> y < 512 \<Longrightarrow> ent (set_ent (pt_frame e) x v vm) (pt_frame e') y =
    (if pt_frame e' = pt_frame e \<and> y = x then v else ent vm (pt_frame e') y)"
  using entry_inj [of y x e' e] by (auto simp: ent_def set_ent_def)

lemma of_nat_less_512: "i < 512 \<Longrightarrow> (of_nat i :: u64) < 512"
  by (simp add: word_less_nat_alt unsigned_of_nat take_bit_nat_eq_self)

lemma copy_kernel_entries_frame:
  "cr3 (copy_kernel_entries t is vm) = cr3 vm \<and> global_page_bitmap (copy_kernel_entries t is vm) = global_page_bitmap vm \<and>
   memory_size (copy_kernel_entries t is vm) = memory_size vm"
  by (induction "is" arbitrary: vm) (simp_all add: copy_kernel_entries_def)

lemma copy_kernel_entries_ent:
  assumes "\<forall>i \<in> set is. i < 512" "pt_frame (cr3 vm) \<noteq> pt_frame e" "y < 512"
  shows "ent (copy_kernel_entries (pt_frame e) is vm) (pt_frame e') y =
    (if pt_frame e' = pt_frame e \<and> unat y \<in> set is then ent vm (pt_frame (cr3 vm)) y else ent vm (pt_frame e') y)"
  using assms(1,2)
proof (induction "is" arbitrary: vm)
  case (Cons i "is")
  let ?vm = "set_ent (pt_frame e) (of_nat i) (ent vm (pt_frame (cr3 vm)) (of_nat i)) vm"
  have i: "(of_nat i :: u64) < 512" "unat (of_nat i :: u64) = i"
    using Cons.prems(1) by (simp_all add: of_nat_less_512 unsigned_of_nat take_bit_nat_eq_self)
  have y: "(y = of_nat i) = (unat y = i)" unfolding word_unat_eq_iff i(2) ..
  have st: "ent ?vm (pt_frame f) y = (if pt_frame f = pt_frame e \<and> unat y = i then ent vm (pt_frame (cr3 vm)) y else ent vm (pt_frame f) y)" for f
  proof (cases "unat y = i")
    case True
    have "y = of_nat i" by (rule iffD2 [OF y True])
    then have "of_nat i = y" by (rule sym)
    then show ?thesis using ent_set_frame [OF i(1) assms(3), of e "ent vm (pt_frame (cr3 vm)) (of_nat i)" vm f] True by simp
  next
    case False
    then have "y \<noteq> of_nat i" unfolding y .
    then show ?thesis using ent_set_frame [OF i(1) assms(3), of e "ent vm (pt_frame (cr3 vm)) (of_nat i)" vm f] False by simp
  qed
  have c: "cr3 ?vm = cr3 vm" by simp
  have "ent (copy_kernel_entries (pt_frame e) (i # is) vm) (pt_frame e') y = ent (copy_kernel_entries (pt_frame e) is ?vm) (pt_frame e') y"
    by (simp add: copy_kernel_entries_def)
  also have "\<dots> = (if pt_frame e' = pt_frame e \<and> unat y \<in> set is then ent ?vm (pt_frame (cr3 vm)) y else ent ?vm (pt_frame e') y)"
    using Cons.IH [of ?vm] Cons.prems c by (simp only: c) simp
  finally show ?case unfolding st using Cons.prems(2) by auto
qed (simp add: copy_kernel_entries_def)

lemma build_page_table_frame:
  "cr3 (build_page_table t vm) = cr3 vm" "global_page_bitmap (build_page_table t vm) = global_page_bitmap vm"
  "memory_size (build_page_table t vm) = memory_size vm"
  by (simp_all add: build_page_table_def copy_kernel_entries_frame)

lemma build_page_table_ent:
  assumes "pt_frame t = t" "pt_frame (cr3 vm) \<noteq> t" "y < 512"
  shows "ent (build_page_table t vm) (pt_frame e) y =
    (if pt_frame e \<noteq> t then ent vm (pt_frame e) y
     else if y = 511 then (t AND NOT 0xFFF) OR PF_PRESENT OR PF_READ_WRITE
     else if kernel_half \<le> unat y then ent vm (pt_frame (cr3 vm)) y else 0)"
proof -
  let ?e = "(t AND NOT 0xFFF) OR PF_PRESENT OR PF_READ_WRITE"
  let ?vm = "set_ent t 511 ?e (zero_frame t vm)"
  have c: "pt_frame (cr3 ?vm) \<noteq> pt_frame t" using assms(1,2) by simp
  have l: "(511 :: u64) < 512" by simp
  have u: "unat y < 512" "y = 511 \<longleftrightarrow> unat y = 511" using assms(3) by (simp_all add: word_less_nat_alt word_unat_eq_iff)
  have s: "ent ?vm (pt_frame e') y = (if pt_frame e' = t then (if y = 511 then ?e else 0) else ent vm (pt_frame e') y)" for e'
    using ent_set_frame [OF l assms(3), of t ?e "zero_frame t vm" e'] ent_zero_frame [OF assms(3), of t vm e'] assms(1) by (auto split: if_splits)
  have k: "ent (build_page_table t vm) (pt_frame e) y =
      (if pt_frame e = t \<and> unat y \<in> set [kernel_half..<511] then ent ?vm (pt_frame (cr3 ?vm)) y else ent ?vm (pt_frame e) y)"
    using copy_kernel_entries_ent [OF _ c assms(3), of "[kernel_half..<511]" e] assms(1)
    by (simp add: build_page_table_def kernel_half_def Let_def)
  show ?thesis unfolding k s using assms(2) u by auto
qed


text \<open>The hierarchy under the new top table: the kernel's tables and nothing else.\<close>

definition fresh_table :: "u64 \<Rightarrow> 'a vm_scheme \<Rightarrow> bool" where
  "fresh_table t vm \<longleftrightarrow> unat t mod 4096 = 0 \<and> unat t < 4294967296 \<and> foreign vm t"

lemma fresh_table:
  assumes "fresh_table t vm"
  shows "pt_frame t = t" "page_taken vm t" "\<And>q. valid vm q \<Longrightarrow> tbl vm q \<noteq> t" "pt_frame (cr3 vm) \<noteq> t"
proof -
  have f: "pt_frame t = t" using assms frame_of_page by (simp add: fresh_table_def)
  have "t AND NOT 0xFFF = t" using entry_page [of 0 t] f by simp
  then show "pt_frame t = t" "page_taken vm t" and q: "\<And>q. valid vm q \<Longrightarrow> tbl vm q \<noteq> t"
    using assms f by (auto simp: fresh_table_def foreign_def)
  show "pt_frame (cr3 vm) \<noteq> t" using q [of "[]"] by simp
qed

abbreviation new_space :: "u64 \<Rightarrow> 'a vm_scheme \<Rightarrow> 'a vm_scheme" where
  "new_space t vm \<equiv> (build_page_table t vm)\<lparr>cr3 := t\<rparr>"

lemma ent_cr3 [simp]: "ent (vm\<lparr>cr3 := t\<rparr>) = ent vm"
  by (simp add: ent_def fun_eq_iff)

lemma not_present_0 [simp]: "\<not> pt_present 0"
  by (simp add: pt_present_def)

lemma new_space_paths:
  assumes f: "fresh_table t vm"
  shows "(valid (new_space t vm) q \<longleftrightarrow> q = [] \<or> valid vm q \<and> kernel_half \<le> unat (last q)) \<and>
    (q \<noteq> [] \<longrightarrow> valid vm q \<longrightarrow> kernel_half \<le> unat (last q) \<longrightarrow> tbl (new_space t vm) q = tbl vm q)"
proof (induction q)
  case (Cons x q)
  note ft = fresh_table [OF f]
  note e = build_page_table_ent [OF ft(1,4)]
  show ?case
  proof (cases q)
    case Nil
    have "ent (build_page_table t vm) t x = (if kernel_half \<le> unat x then ent vm (pt_frame (cr3 vm)) x else 0)"
      if "x < 512" "x \<noteq> 511" using e [OF that(1), of t] that(2) ft(1) by simp
    then show ?thesis using Nil ft(1) by (auto split: if_splits)
  next
    case (Cons y r)
    have "ent (build_page_table t vm) (tbl vm q) x = ent vm (tbl vm q) x" if "x < 512" "valid vm q"
      using e [OF that(1)] ft(3) [OF that(2)] by (metis tbl_frame)
    then show ?thesis using Cons.IH Cons by (auto simp del: tbl.simps(1)) 
  qed
qed simp

lemma new_space_inv:
  assumes f: "fresh_table t vm" and inv: "pt_inv vm"
  shows "pt_inv (new_space t vm)"
  unfolding pt_inv_def
proof (intro conjI allI impI)
  let ?n = "new_space t vm"
  note ft = fresh_table [OF f] and p = new_space_paths [OF f]
  note e = build_page_table_ent [OF ft(1,4)]
  have g: "pmem_grows vm ?n" by (rule pmem_grows_same) (simp_all add: build_page_table_frame)
  show "bitmap_ok ?n" using inv g by (simp add: pt_inv_def pmem_grows_def)
  have ne: "unat t mod 4096 = 0" "unat t < 4294967296" using f by (simp_all add: fresh_table_def)
  show "recursive_ok ?n"
    using e [of 511 t] frame_of_new_entry [OF ne] ft(1) by (simp add: recursive_ok_def RECURSIVE_SLOT_def)
  have tb: "tbl ?n q = (if q = [] then t else tbl vm q)" "q \<noteq> [] \<Longrightarrow> valid vm q" if "valid ?n q" for q
    using that p [of q] ft(1) by auto
  show "q = r" if "valid ?n q" "valid ?n r" "tbl ?n q = tbl ?n r" for q r
    using that tb [of q] tb [of r] ft(3) [of q] ft(3) [of r] inv unfolding pt_inv_def by (metis (no_types, lifting))
  show "page_taken ?n (tbl ?n q)" if "valid ?n q" for q
    using tb [OF that] ft(2) inv g unfolding pt_inv_def pmem_grows_def by (cases "q = []") auto
  show "\<not> bit (ent ?n (tbl ?n q) i) 7" if v: "valid ?n (i # q)" for i q
  proof -
    have i: "i < 512" and vq: "valid ?n q" and v': "valid vm (i # q)" using v p [of "i # q"] by auto
    have "\<not> bit (ent vm (tbl vm q) i) 7" using v' inv unfolding pt_inv_def by blast
    moreover have "ent ?n (tbl ?n q) i = ent vm (tbl vm q) i"
    proof (cases "q = []")
      case True
      then have "i \<noteq> 511" "kernel_half \<le> unat i" using v p [of "i # q"] by auto
      then show ?thesis using e [OF i, of t] ft(1) True by simp
    next
      case False
      then have "tbl ?n q = tbl vm q" "tbl vm q \<noteq> t" using tb [OF vq] ft(3) by auto
      then show ?thesis using e [OF i] by (metis ent_cr3 tbl_frame)
    qed
    ultimately show ?thesis by simp
  qed
qed


lemma new_space_ent:
  assumes "fresh_table t vm" "valid vm q" "x < 512"
  shows "ent (build_page_table t vm) (tbl vm q) x = ent vm (tbl vm q) x"
  using build_page_table_ent [OF fresh_table(1,4) [OF assms(1)] assms(3)] fresh_table(3) [OF assms(1,2)]
  by (metis tbl_frame)

text \<open>The kernel is mapped in it as before, the user half is empty.\<close>

lemma new_space_translates:
  assumes f: "fresh_table t vm" and i: "pt_index va 39 \<noteq> 511"
  shows "amd64_vmem_virtual_to_physical (new_space t vm) va =
    (if kernel_half \<le> unat (pt_index va 39) then amd64_vmem_virtual_to_physical vm va else 0)"
proof -
  note p = new_space_paths [OF f, of "pd_path va"]
  have "leaf (new_space t vm) (pd_path va) k = (if kernel_half \<le> unat (pt_index va 39) then leaf vm (pd_path va) k else 0)"
    if "k < 512" for k
  proof (cases "valid vm (pd_path va) \<and> kernel_half \<le> unat (pt_index va 39)")
    case True
    then have "valid (new_space t vm) (pd_path va)" "tbl (new_space t vm) (pd_path va) = tbl vm (pd_path va)" using p by auto
    then show ?thesis using True new_space_ent [OF f _ that, of "pd_path va"] by (simp only: leaf_def) simp
  next
    case False
    then have "\<not> valid (new_space t vm) (pd_path va)" using p by auto
    then show ?thesis using False by (auto simp: leaf_def simp del: valid.simps tbl.simps split: if_splits)
  qed
  from this [OF pt_index_lt] show ?thesis by (simp add: virtual_to_physical_leaf [OF i])
qed

text \<open>The walk from the entry of the top table on.\<close>

definition translate_from :: "'a vm_scheme \<Rightarrow> u64 \<Rightarrow> u64 \<Rightarrow> u64" where
  "translate_from vm pdpt va =
     (if \<not> pt_present (ent vm pdpt (pt_index va 30)) then 0
      else let pdt = pt_frame (ent vm pdpt (pt_index va 30))
        in if \<not> pt_present (ent vm pdt (pt_index va 21)) then 0
           else (ent vm pdt (pt_index va 21) AND NOT (PAGE_SIZE_LARGE - 1)) + (va AND (PAGE_SIZE_LARGE - 1)))"

lemma translate_from_cr3 [simp]: "translate_from (vm\<lparr>cr3 := c\<rparr>) = translate_from vm"
  by (intro ext) (simp add: translate_from_def Let_def)

lemma translate_top:
  "amd64_vmem_virtual_to_physical vm va =
    (let e = ent vm (tbl vm []) (pt_index va 39) in if pt_present e then translate_from vm (pt_frame e) va else 0)"
  by (simp add: amd64_vmem_virtual_to_physical_def translate_from_def Let_def)

lemma spares_ent: "spares vm vm' \<Longrightarrow> foreign vm (t + 8 * x) \<Longrightarrow> ent vm' t x = ent vm t x"
  by (simp add: spares_def ent_def)

lemma user_table_foreign:
  assumes f: "fresh_table t vm" and inv: "pt_inv vm" and q: "valid vm q" "q = [] \<or> unat (last q) < kernel_half" and x: "x < 512"
  shows "foreign (new_space t vm) (tbl vm q + 8 * x)"
  unfolding foreign_def
proof (intro conjI allI impI)
  obtain e where e: "tbl vm q = pt_frame e" using tbl_frame by blast
  have a: "(tbl vm q + 8 * x) AND NOT 0xFFF = tbl vm q" using entry_page [OF x, of e] e by simp
  have "page_taken vm (tbl vm q)" using inv q(1) by (simp add: pt_inv_def)
  then have "page_taken vm (tbl vm q + 8 * x)" using page_of [of vm "tbl vm q + 8 * x"] by (simp only: a)
  then show "page_taken (new_space t vm) (tbl vm q + 8 * x)" by (simp add: page_taken_def build_page_table_frame)
  fix r assume r: "valid (new_space t vm) r"
  show "tbl (new_space t vm) r \<noteq> (tbl vm q + 8 * x) AND NOT 0xFFF"
  proof (cases "r = []")
    case True
    then show ?thesis using fresh_table(1) [OF f] fresh_table(3) [OF f q(1)] by (simp only: a) auto
  next
    case False
    then have "valid vm r" "kernel_half \<le> unat (last r)" "tbl (new_space t vm) r = tbl vm r" using r new_space_paths [OF f, of r] by auto
    moreover have "r \<noteq> q" using False calculation(2) q(2) by auto
    ultimately show ?thesis using inv q(1) unfolding a pt_inv_def by metis
  qed
qed

lemma old_space_kept:
  assumes f: "fresh_table t vm" and inv: "pt_inv vm" and m: "maps P (new_space t vm) vm'"
    and P: "\<forall>p \<in> P. unat (pt_index p 39) < kernel_half" and i: "pt_index va 39 \<noteq> 511"
  shows "amd64_vmem_virtual_to_physical (vm'\<lparr>cr3 := cr3 vm\<rparr>) va = amd64_vmem_virtual_to_physical vm va"
proof -
  let ?n = "new_space t vm" and ?i = "pt_index va 39" and ?old = "vm'\<lparr>cr3 := cr3 vm\<rparr>"
  have sp: "spares ?n vm'" and t': "\<And>va. pt_index va 39 \<noteq> 511 \<Longrightarrow> (\<forall>p \<in> P. \<not> same_large_page va p) \<Longrightarrow>
      amd64_vmem_virtual_to_physical vm' va = amd64_vmem_virtual_to_physical ?n va"
    using m by (simp_all add: maps_def)
  have keep: "ent vm' (tbl vm q) x = ent vm (tbl vm q) x" if "valid vm q" "q = [] \<or> unat (last q) < kernel_half" "x < 512" for q x
    using spares_ent [OF sp user_table_foreign [OF f inv that]] new_space_ent [OF f that(1,3)] by simp
  have top: "ent ?old (tbl ?old []) ?i = ent vm (tbl vm []) ?i" using keep [of "[]" ?i] pt_index_lt by simp
  show ?thesis
  proof (cases "pt_present (ent vm (tbl vm []) ?i)")
    case True
    let ?pdpt = "pt_frame (ent vm (tbl vm []) ?i)"
    have v: "valid vm [?i]" using True i pt_index_lt by simp
    have "translate_from ?old ?pdpt va = translate_from vm ?pdpt va"
    proof (cases "unat ?i < kernel_half")
      case low: True
      have e1: "ent vm' ?pdpt (pt_index va 30) = ent vm ?pdpt (pt_index va 30)"
        using keep [OF v, of "pt_index va 30"] low pt_index_lt by simp
      show ?thesis
      proof (cases "pt_present (ent vm ?pdpt (pt_index va 30))")
        case pr: True
        then have v2: "valid vm (pd_path va)" using v pt_index_lt by simp
        have "ent vm' (tbl vm (pd_path va)) (pt_index va 21) = ent vm (tbl vm (pd_path va)) (pt_index va 21)"
          using low pt_index_lt by (intro keep [OF v2]) simp_all
        then show ?thesis using e1 by (simp add: translate_from_def Let_def)
      next
        case np: False
        have "\<not> pt_present (ent ?old ?pdpt (pt_index va 30))" using np by (simp only: ent_cr3 e1) simp
        then show ?thesis using np by (simp add: translate_from_def)
      qed
    next
      case high: False
      have vn: "valid ?n [?i]" "tbl ?n [?i] = ?pdpt" using new_space_paths [OF f, of "[?i]"] v high by auto
      have "valid vm' [?i] \<and> tbl vm' [?i] = tbl ?n [?i]" using sp vn(1) unfolding spares_def by blast
      then have v': "valid vm' [?i]" "tbl vm' [?i] = ?pdpt" using vn(2) by simp_all
      have "translate_from vm' ?pdpt va = amd64_vmem_virtual_to_physical vm' va"
        using v' by (simp add: translate_top)
      also have "\<dots> = amd64_vmem_virtual_to_physical ?n va"
        using high P by (intro t' [OF i]) (auto simp: same_large_page_index)
      also have "\<dots> = amd64_vmem_virtual_to_physical vm va" using new_space_translates [OF f i] high by simp
      also have "\<dots> = translate_from vm ?pdpt va" using True by (simp add: translate_top)
      finally show ?thesis by simp
    qed
    then show ?thesis using True top by (simp add: translate_top Let_def)
  next
    case False
    then show ?thesis using top by (simp add: translate_top Let_def)
  qed
qed


section \<open>How many pages a process takes\<close>

text \<open>The pages from \<open>m\<close> up to \<open>n\<close> are free. The allocator takes the lowest free page.\<close>

definition room :: "nat \<Rightarrow> nat \<Rightarrow> 'a pmem_scheme \<Rightarrow> bool" where
  "room n m p \<longleftrightarrow> {m..<n} \<subseteq> avail p"

lemma room_mono: "room n m p \<Longrightarrow> m \<le> m' \<Longrightarrow> room n m' p"
  by (auto simp: room_def)

lemma room_avail: "room n m p \<Longrightarrow> m < n \<Longrightarrow> avail p \<noteq> {}"
  by (auto simp: room_def)

lemma room_get_page:
  assumes "room n m p" "m < n" "bitmap_ok p" "pmem_get_page p = (r, p')"
  shows "room n (m + 1) p'" "unat r div 4096 \<le> m" "r \<noteq> 0"
proof -
  note s = pmem_get_page_spec [OF assms(3,4)]
  show "r \<noteq> 0" using s room_avail [OF assms(1,2)] by auto
  have m: "m \<in> avail p" using assms(1,2) by (auto simp: room_def)
  show "unat r div 4096 \<le> m"
  proof (cases p rule: pmem_get_page_cases)
    case (some i)
    have "unat r div 4096 = i"
    proof -
      have "avail p' = avail p - {i}" using some assms(4) avail_mark [OF avail_index [OF some(1)]] by simp
      moreover have "avail p' = avail p - {unat r div 4096}" using s \<open>r \<noteq> 0\<close> by simp
      ultimately show ?thesis using some(1) by blast
    qed
    then show ?thesis using some(2) m by simp
  qed (use m in simp)
  moreover have "avail p' = avail p - {unat r div 4096}" using s \<open>r \<noteq> 0\<close> by simp
  ultimately show "room n (m + 1) p'" using assms(1) unfolding room_def by force
qed

lemma room_cong: "avail q = avail p \<Longrightarrow> room n m q = room n m p"
  by (simp add: room_def)

lemma room_ensure:
  assumes "room n m vm" "m < n" "bitmap_ok vm"
  shows "room n (m + 1) (pt_ensure t x vm)"
proof (cases "pt_present (ent vm t x)")
  case False
  obtain r vm1 where g: "pmem_get_page vm = (r, vm1)" by fastforce
  have "avail (pt_ensure t x vm) = avail vm1" using False g by (auto simp: pt_ensure_def Let_def intro!: avail_cong)
  then show ?thesis using room_get_page(1) [OF assms g] room_cong by metis
qed (use assms(1) in \<open>auto simp: pt_ensure_def intro: room_mono\<close>)

lemma room_map_2mb:
  assumes "room n m vm" "m + 1 < n" "bitmap_ok vm" "vmem_map_2mb va pa fl vm = (ok, vm')"
  shows "room n (m + 2) vm'"
proof -
  define t where "t = pt_frame (cr3 vm)"
  define vm1 where "vm1 = pt_ensure t (pt_index va 39) vm"
  define vm2 where "vm2 = pt_ensure (pt_frame (ent vm1 t (pt_index va 39))) (pt_index va 30) vm1"
  have ok1: "bitmap_ok vm1" using pt_ensure_grows [of vm t "pt_index va 39"] assms(3) by (simp add: vm1_def pmem_grows_def)
  have "room n (m + 1) vm1" using room_ensure [OF assms(1) _ assms(3), of t "pt_index va 39"] assms(2) by (simp add: vm1_def)
  then have 2: "room n (m + 2) vm2" using room_ensure [of n "m + 1" vm1] ok1 assms(2) by (simp add: vm2_def)
  have "vm' = vm \<or> global_page_bitmap vm' = global_page_bitmap vm2 \<and> memory_size vm' = memory_size vm2"
    using assms(4) unfolding vmem_map_2mb_def
    by (cases "BIT_CHECK fl VMEM_BIT_USER_KERNEL") (auto simp: amd64_vmem_map_2mb_def Let_def t_def vm1_def vm2_def split: if_splits)
  then show ?thesis using 2 room_mono [OF assms(1)] room_cong [OF avail_cong [of vm' vm2]] by auto
qed

lemma room_reserve:
  assumes "room n m vm" "is_aligned t PAGE_SIZE_LARGE" "unat t < 4294967296" "unat t div 4096 + 512 \<le> m'" "m \<le> m'"
    and r: "pmem_try_reserve_address (t + PAGE_SIZE) 511 vm = (ok, vm')"
  shows "room n m' vm'"
proof -
  obtain q where q: "unat t = 2097152 * q" using assms(2) by (auto simp: is_aligned_2mb dest: mod_0_imp_dvd)
  have "reserve_set (t + PAGE_SIZE) 0 511 \<subseteq> {..<m'}"
  proof
    fix x assume "x \<in> reserve_set (t + PAGE_SIZE) 0 511"
    then obtain j where j: "j < 511" "x = unat ((t + PAGE_SIZE + of_nat j * PAGE_SIZE) div PAGE_SIZE)"
      by (auto simp: reserve_set_def)
    have "unat (t + PAGE_SIZE + of_nat j * PAGE_SIZE) = unat t + 4096 + j * 4096"
      using j(1) q assms(3) by (simp add: PAGE_SIZE_def unat_word_ariths unat_of_nat)
    then have "x = (unat t + 4096 + j * 4096) div 4096" using j by (simp add: unat_div PAGE_SIZE_def)
    then show "x \<in> {..<m'}" using q j(1) assms(4) by simp
  qed
  then show ?thesis using pmem_try_reserve_only [OF r] assms(1,5) unfolding room_def by force
qed


text \<open>Looking for a 2 MiB-aligned page stops at \<open>512 * k\<close> at the latest.\<close>

lemma room_get_aligned:
  assumes "room n m p" "m \<le> 512 * k" "512 * k < n" "bitmap_ok p" "pmem_get_page p = (r, p')"
  obtains m' where "room n m' p'" "m' \<le> 512 * k + 1" "m' = 512 * k + 1 \<longrightarrow> is_aligned r PAGE_SIZE_LARGE"
    "unat r div 4096 \<le> 512 * k" "r \<noteq> 0"
proof (cases "m = 512 * k \<and> \<not> is_aligned r PAGE_SIZE_LARGE")
  case True
  have mn: "m < n" using assms(2,3) by simp
  note rg = room_get_page [OF assms(1) mn assms(4,5)] and s = pmem_get_page_spec [OF assms(4,5)]
  have ne: "unat r div 4096 \<noteq> 512 * k"
  proof
    assume e: "unat r div 4096 = 512 * k"
    have "unat r mod 4096 = 0" using s rg(3) by simp
    then have "unat r = 4096 * (512 * k)" using e mult_div_mod_eq [of 4096 "unat r"] by simp
    then show False using True by (simp add: is_aligned_2mb)
  qed
  have a: "avail p' = avail p - {unat r div 4096}" using s rg(3) by simp
  have "unat r div 4096 < m" using ne rg(2) True by linarith
  then have "room n m p'" using assms(1) unfolding room_def a by force
  then show thesis using that [of m] True rg by simp
next
  case False
  have mn: "m < n" using assms(2,3) by simp
  note rg = room_get_page [OF assms(1) mn assms(4,5)]
  show thesis using that [of "m + 1"] rg False assms(2) by linarith
qed

lemma room_aligned:
  assumes "get_aligned_page p vm = (r, vm')" "bitmap_ok vm" "room n m vm" "512 * k < n" "m \<le> 512 * k + 1" "p \<noteq> 0"
    and "unat p div 4096 \<le> 512 * k" "m = 512 * k + 1 \<longrightarrow> is_aligned p PAGE_SIZE_LARGE"
  shows "r \<noteq> 0 \<and> unat r div 4096 \<le> 512 * k \<and> room n (512 * k + 1) vm'"
  using assms
proof (induction p vm arbitrary: r vm' m rule: get_aligned_page.induct)
  case (1 p vm)
  show ?case
  proof (cases "is_aligned p PAGE_SIZE_LARGE")
    case True
    with "1.prems" show ?thesis using room_mono by (auto simp: get_aligned_page.simps [of p vm])
  next
    case False
    then have c: "p \<noteq> 0 \<and> \<not> is_aligned p PAGE_SIZE_LARGE" using "1.prems"(6) by simp
    have m: "m \<le> 512 * k" using "1.prems"(5,8) False by auto
    obtain p1 vm1 where g: "pmem_get_page vm = (p1, vm1)" by fastforce
    obtain m' where m': "room n m' vm1" "m' \<le> 512 * k + 1" "m' = 512 * k + 1 \<longrightarrow> is_aligned p1 PAGE_SIZE_LARGE"
      "unat p1 div 4096 \<le> 512 * k" "p1 \<noteq> 0" by (rule room_get_aligned [OF "1.prems"(3) m "1.prems"(4,2) g])
    have ok1: "bitmap_ok vm1" using pmem_get_page_grows [of vm] g "1.prems"(2) by (simp add: pmem_grows_def)
    have r: "get_aligned_page p1 vm1 = (r, vm')" using "1.prems"(1) c g by (simp add: get_aligned_page.simps [of p vm])
    show ?thesis by (rule "1.IH" [OF c g [symmetric] r ok1 m'(1) "1.prems"(4) m'(2,5,4,3)])
  qed
qed

lemma room_block_array:
  assumes m: "map_block_array va fl vm = (ok, vm')" and ok: "bitmap_ok vm" and rm: "room n m vm" and k: "m \<le> 512 * k" "512 * (k + 1) + 1 < n"
  shows "room n (512 * (k + 1) + 2) vm'"
proof -
  obtain p0 vm1 where g: "pmem_get_page vm = (p0, vm1)" by fastforce
  have kn: "512 * k < n" using k by simp
  obtain m' where m': "room n m' vm1" "m' \<le> 512 * k + 1" "m' = 512 * k + 1 \<longrightarrow> is_aligned p0 PAGE_SIZE_LARGE"
    "unat p0 div 4096 \<le> 512 * k" "p0 \<noteq> 0" by (rule room_get_aligned [OF rm k(1) kn ok g])
  note s = pmem_get_page_spec [OF ok g]
  have ok1: "bitmap_ok vm1" using pmem_get_page_grows [of vm] g ok by (simp add: pmem_grows_def)
  obtain p vm2 where a: "get_aligned_page p0 vm1 = (p, vm2)" by fastforce
  note a' = get_aligned_page_props [OF a ok1]
  have ok2: "bitmap_ok vm2" using a' ok1 by (simp add: pmem_grows_def)
  have p: "p \<noteq> 0 \<and> unat p div 4096 \<le> 512 * k \<and> room n (512 * k + 1) vm2"
    by (rule room_aligned [OF a ok1 m'(1) kn m'(2,5,4,3)])
  have al: "is_aligned p PAGE_SIZE_LARGE" "unat p < 4294967296" using a' p s m'(5) by auto
  obtain ok3 vm3 where r: "pmem_try_reserve_address (p + PAGE_SIZE) 511 vm2 = (ok3, vm3)" by fastforce
  have "ok3" using reserve_rest_ok(1) [OF ok2 al] r by simp
  have "room n (512 * (k + 1)) vm3" using p by (intro room_reserve [OF _ al _ _ r, of n "512 * k + 1"]) auto
  moreover have "bitmap_ok vm3" using pmem_try_reserve_grows [of vm2 "p + PAGE_SIZE" 511] r ok2 by (simp add: pmem_grows_def)
  moreover have "vmem_map_2mb va p fl vm3 = (ok, vm')" using m g a p r \<open>ok3\<close> by (simp add: map_block_array_def pages_per_large)
  ultimately show ?thesis using room_map_2mb [of n "512 * (k + 1)" vm3] k(2) by auto
qed


lemma room_smart_alloc:
  assumes "smart_alloc_loop fl sz al cur vm = (r, vm')" "bitmap_ok vm" "room n m vm" "m \<le> 512 * k" "512 * (k + 1) + 1 < n"
    and "is_aligned cur PAGE_SIZE_LARGE" "al < sz" "sz \<le> al + PAGE_SIZE_LARGE"
  shows "room n (512 * (k + 1) + 2) vm'"
  using assms
proof (induction fl sz al cur vm arbitrary: r vm' m rule: smart_alloc_loop.induct)
  case (1 fl sz al cur vm)
  have m: "m \<le> 512 * k" "512 * k < n" using "1.prems"(4,5) by auto
  obtain t vm1 where g: "pmem_get_page vm = (t, vm1)" by fastforce
  note s = pmem_get_page_spec [OF "1.prems"(2) g]
  have ok1: "bitmap_ok vm1" using pmem_get_page_grows [of vm] g "1.prems"(2) by (simp add: pmem_grows_def)
  obtain m' where m': "room n m' vm1" "m' \<le> 512 * k + 1" "m' = 512 * k + 1 \<longrightarrow> is_aligned t PAGE_SIZE_LARGE"
    "unat t div 4096 \<le> 512 * k" "t \<noteq> 0" by (rule room_get_aligned [OF "1.prems"(3) m "1.prems"(2) g])
  note step = smart_alloc_loop.simps [of fl sz al cur vm]
  show ?case
  proof (cases "is_aligned t PAGE_SIZE_LARGE")
    case False
    with "1.prems"(1,7) m'(5) step g have r: "smart_alloc_loop fl sz al cur vm1 = (r, vm')" by simp
    have "m' \<le> 512 * k" using m'(2,3) False by linarith
    then show ?thesis by (rule "1.IH"(1) [OF "1.prems"(7) g [symmetric] m'(5) False r ok1 m'(1) _ "1.prems"(5-8)])
  next
    case al2: True
    have lt: "unat t < 4294967296" using s m'(5) by simp
    obtain ok vm2 where res: "pmem_try_reserve_address (t + PAGE_SIZE) 511 vm1 = (ok, vm2)" by fastforce
    have ok: ok using reserve_rest_ok(1) [OF ok1 al2 lt] res by simp
    have rm2: "room n (512 * (k + 1)) vm2" by (rule room_reserve [OF m'(1) al2 lt _ _ res]) (use m' in auto)
    have ok2: "bitmap_ok vm2" using pmem_try_reserve_grows [of vm1 "t + PAGE_SIZE" 511] res ok1 by (simp add: pmem_grows_def)
    obtain k' vm3 where mp: "vmem_map_2mb cur t fl vm2 = (k', vm3)" by fastforce
    have k': k' using map_2mb_grows(2) [of cur t _ vm2 k' vm3] mp "1.prems"(6) al2 by (simp add: vmem_map_2mb_def)
    have rm3: "room n (512 * (k + 1) + 2) vm3" by (rule room_map_2mb [OF rm2 _ ok2 mp]) (use "1.prems"(5) in simp)
    have "\<not> al + PAGE_SIZE_LARGE < sz" using "1.prems"(8) by simp
    then have "smart_alloc_loop fl sz (al + PAGE_SIZE_LARGE) (cur + PAGE_SIZE_LARGE) vm3 = (al + PAGE_SIZE_LARGE, vm3)"
      by (simp add: smart_alloc_loop.simps)
    then have "vm' = vm3" using "1.prems"(1,7) m'(5) al2 step g res ok mp k' by (simp add: pages_per_large)
    then show ?thesis using rm3 by simp
  qed
qed

lemma room_heap_init:
  assumes i: "heap_init va sz is_user raw vm = (h, vm')" and ok: "bitmap_ok vm" and rm: "room n m vm" and k: "m \<le> 512 * k" "512 * (k + 3) + 1 < n"
    and va: "is_aligned va PAGE_SIZE_LARGE" and sz: "0 < sz" "sz \<le> PAGE_SIZE_LARGE"
  shows "room n (512 * (k + 3) + 2) vm'"
proof -
  have al: "is_aligned (va + PAGE_SIZE_LARGE) PAGE_SIZE_LARGE" by (rule is_aligned_add_large [OF va])
  obtain r vm1 where a: "vmem_smart_alloc_pages (va + PAGE_SIZE_LARGE) sz (heap_flags is_user) vm = (r, vm1)" by fastforce
  obtain b where b: "map_block_array va (heap_flags is_user) vm1 = (b, vm')" using i a by (auto simp: heap_init_def split: prod.splits)
  have "room n (512 * (k + 1) + 2) vm1"
    by (rule room_smart_alloc [OF a [unfolded vmem_smart_alloc_pages_def] ok rm _ _ al]) (use k sz in auto)
  moreover have "bitmap_ok vm1" by (rule smart_alloc_laws(2) [OF a ok al])
  ultimately show ?thesis using room_block_array [OF b, of n "512 * (k + 1) + 2" "k + 2"] k(2) by simp
qed

section \<open>The user half\<close>

lemma user_layout:
  "is_aligned user_stack PAGE_SIZE_LARGE" "is_aligned PAGE_SIZE_HUGE PAGE_SIZE_LARGE" "pt_index user_stack 39 = 0"
  "heap_pages PAGE_SIZE_HUGE 1 = {PAGE_SIZE_HUGE, PAGE_SIZE_HUGE + PAGE_SIZE_LARGE}"
  "\<forall>p \<in> heap_pages PAGE_SIZE_HUGE 1. pt_index p 39 = 0 \<and> \<not> same_large_page user_stack p"
proof -
  show h: "heap_pages PAGE_SIZE_HUGE 1 = {PAGE_SIZE_HUGE, PAGE_SIZE_HUGE + PAGE_SIZE_LARGE}" by (auto simp: heap_pages_def)
  show "is_aligned user_stack PAGE_SIZE_LARGE" "is_aligned PAGE_SIZE_HUGE PAGE_SIZE_LARGE" "pt_index user_stack 39 = 0"
    by (simp_all add: user_stack_def PAGE_SIZE_HUGE_def PAGE_SIZE_LARGE_def is_aligned_def pt_index_def)
  show "\<forall>p \<in> heap_pages PAGE_SIZE_HUGE 1. pt_index p 39 = 0 \<and> \<not> same_large_page user_stack p"
    unfolding h by (simp add: user_stack_def PAGE_SIZE_HUGE_def PAGE_SIZE_LARGE_def pt_index_def same_large_page_index)
qed

lemma map_program_one:
  assumes "0 < sz" "sz \<le> PAGE_SIZE_LARGE" "vmem_map_2mb va pa user_flags vm = (True, vm')"
  shows "map_program sz va pa 0 vm = Some (True, vm')"
proof -
  have "\<not> 0 + PAGE_SIZE_LARGE < sz" using assms(2) by simp
  then have "map_program sz va pa (0 + PAGE_SIZE_LARGE) vm' = Some (True, vm')"
    by (subst map_program.simps) (simp only: if_False)
  then show ?thesis using assms(1,3) by (subst map_program.simps) simp
qed

definition user_pages :: "u64 \<Rightarrow> u64 set" where
  "user_pages min_address = {min_address, user_stack} \<union> heap_pages PAGE_SIZE_HUGE 1"

text \<open>The lowest address of a program does not collide with what every process has.\<close>

definition place_ok :: "u64 \<Rightarrow> bool" where
  "place_ok min_address \<longleftrightarrow> is_aligned min_address PAGE_SIZE_LARGE \<and> unat (pt_index min_address 39) < kernel_half \<and>
     (\<forall>p \<in> insert user_stack (heap_pages PAGE_SIZE_HUGE 1). \<not> same_large_page min_address p)"

definition large_frame :: "u64 \<Rightarrow> bool" where
  "large_frame f \<longleftrightarrow> is_aligned f PAGE_SIZE_LARGE \<and> pt_frame f = f"

lemma translation_kept:
  assumes "maps P vm vm'" "pt_index va 39 \<noteq> 511" "same_large_page x va" "\<forall>p \<in> P. \<not> same_large_page va p"
  shows "amd64_vmem_virtual_to_physical vm' x = amd64_vmem_virtual_to_physical vm x"
proof -
  have "pt_index x 39 \<noteq> 511" using assms(2,3) by (simp add: same_large_page_index)
  moreover have "\<forall>p \<in> P. \<not> same_large_page x p" using assms(3,4) same_large_page_trans by blast
  ultimately show ?thesis using assms(1) by (simp add: maps_def)
qed

lemma heap_inv_grows:
  assumes "heap_inv h vm" "pmem_grows vm vm'" "avail vm' \<noteq> {}"
  shows "heap_inv h vm'"
proof -
  have a: "avail vm \<noteq> {}" using assms(2,3) by (auto simp: pmem_grows_def)
  have "vm_budget vm' \<le> vm_budget vm" using grows_card [OF assms(2)] by (simp add: vm_budget_def)
  then show ?thesis using assms a by (auto simp: heap_inv_def pmem_grows_def)
qed

lemma user_space_built:
  assumes inv: "pt_inv vm" and rm: "room n (512 * k) vm" "512 * (k + 4) + 4 < n"
    and psi: "0 < psi_size psi" "psi_size psi \<le> PAGE_SIZE_LARGE" "place_ok (psi_min_address psi)"
    and f: "large_frame b" "large_frame st" and raw: "fresh_blocks (pm_blocks mem)"
  shows "\<exists>h vm'. map_user_space mem psi b st vm = Some (Some h, True, vm') \<and> maps (user_pages (psi_min_address psi)) vm vm' \<and>
    heap_inv h vm' \<and> live h = {} \<and>
    (\<forall>x. same_large_page x (psi_min_address psi) \<longrightarrow> amd64_vmem_virtual_to_physical vm' x = b + (x AND 0x1FFFFF)) \<and>
    (\<forall>x. same_large_page x user_stack \<longrightarrow> amd64_vmem_virtual_to_physical vm' x = st + (x AND 0x1FFFFF))"
proof -
  let ?va = "psi_min_address psi"
  note bok = inv [unfolded pt_inv_def, THEN conjunct1]
  have va: "is_aligned ?va PAGE_SIZE_LARGE" "pt_index ?va 39 \<noteq> 511" using psi(3) by (auto simp: place_ok_def kernel_half)
  obtain ok1 vm1 where m1: "vmem_map_2mb ?va b user_flags vm = (ok1, vm1)" by fastforce
  have rm1: "room n (512 * k + 2) vm1" by (rule room_map_2mb [OF rm(1) _ bok m1]) (use rm(2) in simp)
  have fb: "is_aligned b PAGE_SIZE_LARGE" "pt_frame b = b" and fs: "is_aligned st PAGE_SIZE_LARGE" "pt_frame st = st"
    using f by (simp_all add: large_frame_def)
  have av1: "avail vm1 \<noteq> {}" by (rule room_avail [OF rm1]) (use rm(2) in simp)
  note mm1 = maps_2mb [OF inv va(1) fb(1) va(2) fb(2) m1 av1]
  have inv1: "pt_inv vm1" using mm1(2) by (simp add: maps_def)
  note ok1' = inv1 [unfolded pt_inv_def, THEN conjunct1]
  obtain h vm2 where i: "heap_init PAGE_SIZE_HUGE PAGE_SIZE_LARGE True (pm_blocks mem) vm1 = (h, vm2)" by fastforce
  have sz: "0 < PAGE_SIZE_LARGE" by (simp add: PAGE_SIZE_LARGE_def)
  have rm2: "room n (512 * (k + 4) + 2) vm2"
    using room_heap_init [OF i ok1' rm1, of "k + 1"] rm(2) user_layout(2) sz by simp
  have av2: "avail vm2 \<noteq> {}" by (rule room_avail [OF rm2]) (use rm(2) in simp)
  have "h \<noteq> None \<and> maps (heap_pages PAGE_SIZE_HUGE 1) vm1 vm2"
    using user_layout(5) by (intro heap_init_maps [OF inv1 user_layout(2) _ _ _ i av2]) (auto simp: unat_large)
  then obtain hp where h: "h = Some hp" and mm2: "maps (heap_pages PAGE_SIZE_HUGE 1) vm1 vm2" by auto
  have inv2: "pt_inv vm2" using mm2 by (simp add: maps_def)
  note ok2 = inv2 [unfolded pt_inv_def, THEN conjunct1]
  have hu: "unat PAGE_SIZE_HUGE = 1073741824" by (simp add: PAGE_SIZE_HUGE_def)
  have hi: "heap_inv hp vm2 \<and> live hp = {}"
    using heap_init_ok [OF i [unfolded h] raw ok1' user_layout(2)] vm_budget_bound [OF ok1'] sz by (simp add: hu)
  obtain ok3 vm3 where m3: "vmem_map_2mb user_stack st user_flags vm2 = (ok3, vm3)" by fastforce
  have rm3: "room n (512 * (k + 4) + 2 + 2) vm3" by (rule room_map_2mb [OF rm2 _ ok2 m3]) (use rm(2) in simp)
  have av3: "avail vm3 \<noteq> {}" by (rule room_avail [OF rm3]) (use rm(2) in simp)
  have st: "pt_index user_stack 39 \<noteq> 511" by (simp add: user_layout(3))
  note mm3 = maps_2mb [OF inv2 user_layout(1) fs(1) st fs(2) m3 av3]
  have p1: "map_program (psi_size psi) ?va b 0 vm = Some (True, vm1)"
    using mm1(1) by (intro map_program_one [OF psi(1,2)]) (simp add: m1)
  have run: "map_user_space mem psi b st vm = Some (Some hp, True, vm3)"
    using p1 i h m3 mm3(1) by (simp add: map_user_space_def)
  have "maps (user_pages ?va) vm vm3"
    using maps_trans [OF maps_trans [OF mm1(2) mm2] mm3(2)] by (simp add: user_pages_def insert_commute Un_commute)
  moreover have "heap_inv hp vm3" using heap_inv_grows [of hp vm2 vm3] hi mm3(2) av3 by (simp add: maps_def)
  moreover have "amd64_vmem_virtual_to_physical vm3 x = b + (x AND 0x1FFFFF)" if x: "same_large_page x ?va" for x
  proof -
    have "amd64_vmem_virtual_to_physical vm3 x = amd64_vmem_virtual_to_physical vm1 x"
      using psi(3) by (intro translation_kept [OF maps_trans [OF mm2 mm3(2)] va(2) x]) (auto simp: place_ok_def)
    then show ?thesis using mm1(3) [OF x] by simp
  qed
  ultimately show ?thesis using run hi mm3(3) by blast
qed

end
