(* ===== verification/Process_Start.thy ===== *)
theory Process_Start
  imports Address_Space Sched_Runs
begin

text \<open>
  What a started program finds: its own address space, and a thread that enters it.
\<close>

section \<open>The state before and after\<close>

abbreviation v2p :: "'a vm_scheme \<Rightarrow> u64 \<Rightarrow> u64" where
  "v2p \<equiv> amd64_vmem_virtual_to_physical"

text \<open>The memory handed to \<open>start_program\<close>: 10 MiB of free pages from page \<open>512 * k\<close> on, a page for the table that
  is used for nothing else, and 2 MiB frames behind the image and the stack.\<close>

definition program_memory_ok :: "process_memory \<Rightarrow> nat \<Rightarrow> vm \<Rightarrow> bool" where
  "program_memory_ok mem k vm \<longleftrightarrow> pt_inv vm \<and> {512 * k..<512 * (k + 5)} \<subseteq> avail vm \<and>
     pm_table_v mem \<noteq> 0 \<and> fresh_table (v2p vm (pm_table_v mem)) vm \<and>
     pt_index (pm_program_v mem) 39 \<noteq> 511 \<and> large_frame (v2p vm (pm_program_v mem)) \<and>
     pm_stack_v mem \<noteq> 0 \<and> pt_index (pm_stack_v mem) 39 \<noteq> 511 \<and> large_frame (v2p vm (pm_stack_v mem)) \<and>
     fresh_blocks (pm_blocks mem)"

text \<open>The address space of the process under the table \<open>t\<close>: the image and the stack where they belong, the kernel as in \<open>vm\<close>,
  and nothing else outside the heap.\<close>

definition program_space :: "vm \<Rightarrow> process_memory \<Rightarrow> u64 \<Rightarrow> vm \<Rightarrow> bool" where
  "program_space vm mem min_address u \<longleftrightarrow> pt_inv u \<and>
     (\<forall>x. same_large_page x min_address \<longrightarrow> v2p u x = v2p vm (pm_program_v mem) + (x AND 0x1FFFFF)) \<and>
     (\<forall>x. same_large_page x user_stack \<longrightarrow> v2p u x = v2p vm (pm_stack_v mem) + (x AND 0x1FFFFF)) \<and>
     (\<forall>x. pt_index x 39 \<noteq> 511 \<longrightarrow> kernel_half \<le> unat (pt_index x 39) \<longrightarrow> v2p u x = v2p vm x) \<and>
     (\<forall>x. unat (pt_index x 39) < kernel_half \<longrightarrow> (\<forall>p \<in> user_pages min_address. \<not> same_large_page x p) \<longrightarrow> v2p u x = 0)"

lemma build_page_table_translates:
  assumes "fresh_table t vm" "pt_inv vm" "pt_index va 39 \<noteq> 511"
  shows "v2p (build_page_table t vm) va = v2p vm va"
proof -
  have "maps {} (new_space t vm) (new_space t vm)" using new_space_inv [OF assms(1,2)] by (simp add: maps_def)
  from old_space_kept [OF assms(1,2) this _ assms(3)]
  have "v2p ((new_space t vm)\<lparr>cr3 := cr3 vm\<rparr>) va = v2p vm va" by simp
  moreover have "(new_space t vm)\<lparr>cr3 := cr3 vm\<rparr> = build_page_table t vm"
    by (simp add: build_page_table_frame(1) [symmetric])
  ultimately show ?thesis by simp
qed

lemma heap_inv_cr3 [simp]: "heap_inv h (vm\<lparr>cr3 := c\<rparr>) = heap_inv h vm"
  by (simp add: heap_inv_def bitmap_ok_def vm_budget_def avail_cong [of "vm\<lparr>cr3 := c\<rparr>" vm])

lemma start_program_runs:
  fixes s :: "'a os_scheme"
  assumes m: "program_memory_ok mem k (os_vm s)" and t: "t = v2p (os_vm s) (pm_table_v mem)"
    and psi: "0 < psi_size psi" "psi_size psi \<le> PAGE_SIZE_LARGE" "place_ok (psi_min_address psi)"
    and p: "p < length (sc_procs (os_sched s))"
  shows "\<exists>s'. start_program mem p psi entry s = Some (True, s') \<and> os_interrupts s' \<and> cr3 (os_vm s') = cr3 (os_vm s) \<and>
    program_space (os_vm s) mem (psi_min_address psi) ((os_vm s')\<lparr>cr3 := t\<rparr>) \<and>
    (\<forall>x. pt_index x 39 \<noteq> 511 \<longrightarrow> v2p (os_vm s') x = v2p (os_vm s) x) \<and>
    heap_inv (pr_heap (sc_procs (os_sched s') ! p)) (os_vm s') \<and> live (pr_heap (sc_procs (os_sched s') ! p)) = {}"
proof -
  let ?vm = "os_vm s" and ?va = "psi_min_address psi"
  let ?b = "v2p ?vm (pm_program_v mem)" and ?st = "v2p ?vm (pm_stack_v mem)"
  have m': "pt_inv ?vm" "{512 * k..<512 * (k + 5)} \<subseteq> avail ?vm" "pm_table_v mem \<noteq> 0" "fresh_table t ?vm"
    "pt_index (pm_program_v mem) 39 \<noteq> 511" "large_frame ?b" "pm_stack_v mem \<noteq> 0"
    "pt_index (pm_stack_v mem) 39 \<noteq> 511" "large_frame ?st" "fresh_blocks (pm_blocks mem)"
    using m t by (simp_all add: program_memory_ok_def)
  have ns: "pt_inv (new_space t ?vm)" by (rule new_space_inv [OF m'(4,1)])
  have "room (512 * (k + 5)) (512 * k) (new_space t ?vm)"
    using m'(2) avail_cong [of "new_space t ?vm" ?vm] by (simp add: room_def build_page_table_frame)
  from user_space_built [OF ns this _ psi m'(6,9,10)] obtain h vm' where
    u: "map_user_space mem psi ?b ?st (new_space t ?vm) = Some (Some h, True, vm')"
      "maps (user_pages ?va) (new_space t ?vm) vm'" "heap_inv h vm'" "live h = {}"
      "\<forall>x. same_large_page x ?va \<longrightarrow> v2p vm' x = ?b + (x AND 0x1FFFFF)"
      "\<forall>x. same_large_page x user_stack \<longrightarrow> v2p vm' x = ?st + (x AND 0x1FFFFF)"
    by auto
  have c: "cr3 vm' = t" using u(2) by (simp add: maps_def)
  have low: "\<forall>q \<in> user_pages ?va. unat (pt_index q 39) < kernel_half"
    using psi(3) user_layout(3,5) by (auto simp: user_pages_def place_ok_def kernel_half)
  have other: "v2p vm' x = v2p (new_space t ?vm) x"
    if "pt_index x 39 \<noteq> 511" "\<forall>q \<in> user_pages ?va. \<not> same_large_page x q" for x
    using u(2) that by (simp add: maps_def)
  have ps: "program_space ?vm mem ?va vm'"
    unfolding program_space_def
  proof (intro conjI allI impI)
    show "pt_inv vm'" using u(2) by (simp add: maps_def)
    fix x
    show "same_large_page x ?va \<Longrightarrow> v2p vm' x = ?b + (x AND 0x1FFFFF)"
      "same_large_page x user_stack \<Longrightarrow> v2p vm' x = ?st + (x AND 0x1FFFFF)" using u(5,6) by auto
    show "v2p vm' x = v2p ?vm x" if x: "pt_index x 39 \<noteq> 511" "kernel_half \<le> unat (pt_index x 39)"
    proof -
      have "\<forall>q \<in> user_pages ?va. \<not> same_large_page x q" using low x(2) by (auto simp: same_large_page_index)
      then show ?thesis using other [OF x(1)] new_space_translates [OF m'(4) x(1)] x(2) by simp
    qed
    show "v2p vm' x = 0" if x: "unat (pt_index x 39) < kernel_half" "\<forall>q \<in> user_pages ?va. \<not> same_large_page x q"
    proof -
      have i: "pt_index x 39 \<noteq> 511" using x(1) by (auto simp: kernel_half)
      show ?thesis using other [OF i x(2)] new_space_translates [OF m'(4) i] x(1) by simp
    qed
  qed
  let ?old = "vm'\<lparr>cr3 := cr3 ?vm\<rparr>"
  have old: "v2p ?old x = v2p ?vm x" if "pt_index x 39 \<noteq> 511" for x
    by (rule old_space_kept [OF m'(4,1) u(2) low that])
  obtain th sc where pt: "program_thread mem p entry t (os_sched (upd_process p (\<lambda>pr. pr\<lparr>pr_page_table := pm_table_v mem\<rparr>) s)) = (th, sc)"
    by fastforce
  have pl: "p < length (sc_procs sc)"
    using pt p by (auto simp: program_thread_def vhtread_next_handle_def upd_process_def Let_def split: prod.splits)
  have b: "v2p (build_page_table t ?vm) (pm_program_v mem) = ?b" "v2p (build_page_table t ?vm) (pm_stack_v mem) = ?st"
    using build_page_table_translates [OF m'(4,1)] m'(5,8) by simp_all
  have same: "vm'\<lparr>cr3 := t\<rparr> = vm'" by (simp add: c [symmetric])
  have cc: "cr3 (build_page_table t ?vm) = cr3 ?vm" by (rule build_page_table_frame(1))
  show ?thesis
    using m'(3,7) t pt pl u(1) b cc ps old u(3,4) same
    by (simp add: start_program_def Let_def vmem_virtual_to_physical_def upd_process_def amd64_set_page_table_def vthread_add_def
        split: prod.split)
qed


section \<open>The thread\<close>

lemma start_program_thread:
  fixes s :: "'a os_scheme"
  assumes inv: "sched_inv (os_sched s)" and h: "global_vthread_handle_counter (os_sched s) \<noteq> -1"
    and p: "p < length (sc_procs (os_sched s))" and fpu: "pm_fpu_v mem \<noteq> 0"
    and r: "start_program mem p psi entry s = Some (True, s')"
  shows "\<exists>t. sched_inv (os_sched s') \<and> vthread_get (global_vthread_handle_counter (os_sched s)) (os_sched s) = None \<and>
    g_threads (os_sched s') = g_threads (os_sched s) @ [(global_vthread_handle_counter (os_sched s), t)] \<and>
    vt_state t = VT_RUNNING \<and> vt_parent t = Some p \<and> vt_page_table t = v2p (os_vm s) (pm_table_v mem) \<and>
    vt_stack_top t = stack_start (pm_stack_v mem) - 168 \<and>
    map (\<lambda>k. sc_mem (os_sched s') (vt_stack_top t + of_nat (8 * k))) [0..<21] =
      replicate 15 0 @ [0, entry, 0x2B, 0x202, stack_start user_stack, 0x23]"
proof -
  let ?sc = "os_sched s" and ?h = "global_vthread_handle_counter (os_sched s)" and ?sp = "stack_start (pm_stack_v mem)"
  let ?t = "v2p (os_vm s) (pm_table_v mem)"
  have len: "length (user_frame entry) = 21" by (simp add: user_frame_def)
  obtain m where m: "fold push_word (user_frame entry) (?sp, clear_stack (pm_stack_v mem) (sc_mem ?sc)) = (?sp - 168, m)"
    "\<forall>k < 21. m (?sp - 168 + of_nat (8 * k)) = rev (user_frame entry) ! k"
    using fold_push [of "user_frame entry" ?sp "clear_stack (pm_stack_v mem) (sc_mem ?sc)"] len by auto
  define t where "t = vthread_zero\<lparr>vt_stack_bottom := user_stack, vt_stack_bottom_kernel := pm_stack_v mem, vt_kstack := pm_kstack_v mem,
            vt_stack_top := ?sp - 168, vt_state := VT_RUNNING, vt_handle := ?h, vt_fpu_state := pm_fpu_v mem, vt_fpu := pm_fpu mem,
            vt_page_table := ?t, vt_tls_handle := ?h, vt_parent := Some p\<rparr>"
  have pt: "program_thread mem p entry ?t sc = (t, sc\<lparr>sc_mem := m, global_vthread_handle_counter := ?h + 1\<rparr>)"
    if "sc_mem sc = sc_mem ?sc" "global_vthread_handle_counter sc = ?h" for sc
    using m(1) that by (simp add: program_thread_def vhtread_next_handle_def t_def)
  have lm: "lm_inv (g_threads ?sc)" and old: "\<forall>(k, u) \<in> set (g_threads ?sc). thread_ok ?sc k u"
    using inv by (auto simp: sched_inv_def table_inv_def)
  have fresh: "lm_get ?h (g_threads ?sc) = None" using old by (auto simp: lm_get_None thread_ok_def)
  then have nk: "?h \<notin> fst ` set (g_threads ?sc)" by (auto simp: lm_get_None)
  have st: "vt_handle t = ?h" "t\<lparr>vt_state := VT_RUNNING\<rparr> = t" by (simp_all add: t_def)
  obtain sc where sc: "os_sched s' = sc\<lparr>g_threads := g_threads ?sc @ [(?h, t)]\<rparr>" "g_threads sc = g_threads ?sc" "sc_mem sc = m"
    "global_vthread_handle_counter sc = ?h + 1" "length (sc_procs sc) = length (sc_procs ?sc)" "g_process sc = g_process ?sc"
    "global_current_thread sc = global_current_thread ?sc"
    using r pt p st fresh
    by (auto simp: start_program_def Let_def vmem_virtual_to_physical_def upd_process_def amd64_set_page_table_def vthread_add_def
        lm_insert_def lm_contains_def bind_Some_iff split: if_splits prod.splits option.splits)
  let ?sc1 = "sc\<lparr>g_threads := g_threads ?sc\<rparr>"
  have "sched_inv ?sc1" using counter_step(1) [OF inv h] sc(2-7)
    by (auto simp: sched_inv_def table_inv_def thread_ok_def vhtread_next_handle_def)
  moreover have "?h < ?h + 1" using counter_step(3) [OF inv h] by (simp add: vhtread_next_handle_def)
  then have "thread_ok ?sc1 (vt_handle t) t" using sc(4,5) p fpu by (simp add: thread_ok_def t_def)
  ultimately have "sched_inv (snd (vthread_add t ?sc1))" by (rule vthread_add_inv(1))
  moreover have "snd (vthread_add t ?sc1) = os_sched s'"
    using fresh st sc(1) by (simp add: vthread_add_def lm_insert_def lm_contains_def)
  ultimately have si: "sched_inv (os_sched s')" by simp
  have "map (\<lambda>k. m (?sp - 168 + of_nat (8 * k))) [0..<21] = rev (user_frame entry)"
    by (rule nth_equalityI) (use m(2) len in simp_all)
  moreover have "rev (user_frame entry) = replicate 15 0 @ [0, entry, 0x2B, 0x202, stack_start user_stack, 0x23]"
    by (simp add: user_frame_def RFLAGS_IF_def RFLAGS_RES_def USER_DATA_SELECTOR_INDEX_def USER_CODE_SELECTOR_INDEX_def eval_nat_numeral)
  ultimately show ?thesis using si sc(1,3) fresh
    by (intro exI [of _ t]) (simp add: t_def vthread_get_def)
qed


section \<open>Properties\<close>


text \<open>
  C12. A started program runs from its entry point: the new thread is ready under a fresh handle at the end of the table, the
  scheduler's invariant is kept, the thread has the process's page table, and its stack holds, from its top on, cleared registers and the
  frame from which the interrupt return enters the program in the user's segments, with interrupts on and its own stack.
\<close>

theorem process_thread_enters:
  assumes "sched_inv (os_sched s)" and "global_vthread_handle_counter (os_sched s) \<noteq> -1"
    and "p < length (sc_procs (os_sched s))" and "pm_fpu_v mem \<noteq> 0"
    and "start_program mem p psi entry s = Some (True, s')"
  shows "\<exists>t. sched_inv (os_sched s') \<and> vthread_get (global_vthread_handle_counter (os_sched s)) (os_sched s) = None \<and>
    g_threads (os_sched s') = g_threads (os_sched s) @ [(global_vthread_handle_counter (os_sched s), t)] \<and>
    vt_state t = VT_RUNNING \<and> vt_parent t = Some p \<and> vt_page_table t = v2p (os_vm s) (pm_table_v mem) \<and>
    vt_stack_top t = stack_start (pm_stack_v mem) - 168 \<and>
    map (\<lambda>k. sc_mem (os_sched s') (vt_stack_top t + of_nat (8 * k))) [0..<21] =
      replicate 15 0 @ [0, entry, 0x2B, 0x202, stack_start user_stack, 0x23]"
  using start_program_thread [OF assms] .

text \<open>A kernel with three pages mapped: page 5 of the first for the table, one for the image and one for the stack.\<close>

definition kernel_page :: "nat \<Rightarrow> u64" where
  "kernel_page i = KERNEL_VIRTUAL_BASE + of_nat i * PAGE_SIZE_LARGE"

definition map_kernel :: "nat \<Rightarrow> u64 \<Rightarrow> vm \<Rightarrow> vm" where
  "map_kernel i pa vm = snd (vmem_map_2mb (kernel_page i) pa VMEM_KERNEL vm)"

definition demo_vm :: vm where
  "demo_vm = map_kernel 2 0x800000 (map_kernel 1 0x600000 (map_kernel 0 0 boot_vm2))"

definition demo_memory :: process_memory where
  "demo_memory = \<lparr>pm_raw = (\<lambda>n. replicate n 0), pm_file_v = 0, pm_program_v = kernel_page 1, pm_program = [], pm_table_v = kernel_page 0 + 0x5000,
     pm_stack_v = kernel_page 2, pm_kstack_v = 0, pm_fpu_v = 0xA000, pm_fpu = [], pm_blocks = replicate 3 zero_block\<rparr>"

definition demo_psi :: elf_program_section_info where
  "demo_psi = \<lparr>psi_size = 0x3000, psi_min_address = 0x400000, psi_max_address = 0x403000\<rparr>"

definition demo_os :: os where
  "demo_os = \<lparr>os_vm = demo_vm, os_vfs = vfs_init, os_sched = demo_sched\<lparr>sc_procs := sc_procs demo_sched @ [process_zero]\<rparr>,
     os_interrupts = True, global_pid_counter = 1\<rparr>"

lemma kernel_pages:
  "pt_index (kernel_page 0) 39 = 496" "pt_index (kernel_page 1) 39 = 496" "pt_index (kernel_page 2) 39 = 496"
  "is_aligned (kernel_page 0) PAGE_SIZE_LARGE" "is_aligned (kernel_page 1) PAGE_SIZE_LARGE" "is_aligned (kernel_page 2) PAGE_SIZE_LARGE"
  "\<not> same_large_page (kernel_page 0) (kernel_page 1)" "\<not> same_large_page (kernel_page 0) (kernel_page 2)"
  "\<not> same_large_page (kernel_page 1) (kernel_page 2)" "same_large_page (kernel_page 0 + 0x5000) (kernel_page 0)"
  "(kernel_page 0 + 0x5000) AND 0x1FFFFF = 0x5000" "kernel_page 1 AND 0x1FFFFF = 0" "kernel_page 2 AND 0x1FFFFF = 0"
  by (simp_all add: kernel_page_def KERNEL_VIRTUAL_BASE_def PAGE_SIZE_LARGE_def pt_index_def is_aligned_def same_large_page_index)

lemma map_kernel_step:
  assumes "pt_inv vm" "room 8000 m vm" "m + 1 < 4000" "is_aligned (kernel_page i) PAGE_SIZE_LARGE" "pt_index (kernel_page i) 39 = 496"
    "large_frame pa"
  shows "maps {kernel_page i} vm (map_kernel i pa vm)" "room 8000 (m + 2) (map_kernel i pa vm)"
    "same_large_page x (kernel_page i) \<Longrightarrow> v2p (map_kernel i pa vm) x = pa + (x AND 0x1FFFFF)"
proof -
  obtain ok vm' where v: "vmem_map_2mb (kernel_page i) pa VMEM_KERNEL vm = (ok, vm')" by fastforce
  then have e: "map_kernel i pa vm = vm'" by (simp add: map_kernel_def)
  have b: "bitmap_ok vm" using assms(1) by (simp add: pt_inv_def)
  show rm: "room 8000 (m + 2) (map_kernel i pa vm)" unfolding e by (rule room_map_2mb [OF assms(2) _ b v]) (use assms(3) in simp)
  have av: "avail vm' \<noteq> {}" using room_avail [OF rm] assms(3) by (simp add: e)
  have f: "is_aligned pa PAGE_SIZE_LARGE" "pt_frame pa = pa" and ix: "pt_index (kernel_page i) 39 \<noteq> 511"
    using assms(5,6) by (simp_all add: large_frame_def)
  note mm = maps_2mb [OF assms(1,4) f(1) ix f(2) v av]
  show "maps {kernel_page i} vm (map_kernel i pa vm)" using mm(2) by (simp add: e)
  show "same_large_page x (kernel_page i) \<Longrightarrow> v2p (map_kernel i pa vm) x = pa + (x AND 0x1FFFFF)" using mm(3) by (simp add: e)
qed

lemma demo_frames: "large_frame 0" "large_frame 0x600000" "large_frame 0x800000"
  by (simp_all add: large_frame_def is_aligned_def PAGE_SIZE_LARGE_def pt_frame_def)

lemma demo_vm:
  "pt_inv demo_vm" "room 8000 518 demo_vm" "spares boot_vm2 demo_vm"
  "v2p demo_vm (kernel_page 0 + 0x5000) = 0x5000" "v2p demo_vm (kernel_page 1) = 0x600000" "v2p demo_vm (kernel_page 2) = 0x800000"
proof -
  let ?v1 = "map_kernel 0 0 boot_vm2" let ?v2 = "map_kernel 1 0x600000 ?v1"
  have r0: "room 8000 512 boot_vm2" by (simp add: room_def boot_vm2_avail)
  note s1 = map_kernel_step [OF boot_vm2_inv r0 _ kernel_pages(4,1) demo_frames(1)]
  have i1: "pt_inv ?v1" using s1(1) by (simp add: maps_def)
  have r1: "room 8000 514 ?v1" using s1(2) by simp
  note s2 = map_kernel_step [OF i1 r1 _ kernel_pages(5,2) demo_frames(2)]
  have i2: "pt_inv ?v2" using s2(1) by (simp add: maps_def)
  have r2: "room 8000 516 ?v2" using s2(2) by simp
  note s3 = map_kernel_step [OF i2 r2 _ kernel_pages(6,3) demo_frames(3)]
  show "pt_inv demo_vm" using s3(1) by (simp add: maps_def demo_vm_def)
  show "room 8000 518 demo_vm" using s3(2) by (simp add: demo_vm_def)
  have m3: "maps {kernel_page 2} ?v2 demo_vm" using s3(1) by (simp add: demo_vm_def)
  note m23 = maps_trans [OF s2(1) m3]
  show "spares boot_vm2 demo_vm" using maps_trans [OF s1(1) m23] by (simp add: maps_def)
  have "v2p demo_vm (kernel_page 0 + 0x5000) = v2p ?v1 (kernel_page 0 + 0x5000)"
    by (rule translation_kept [OF m23 _ kernel_pages(10)]) (use kernel_pages(1,7,8) in auto)
  then show "v2p demo_vm (kernel_page 0 + 0x5000) = 0x5000" using s1(3) [OF _ kernel_pages(10)] by (simp add: kernel_pages)
  have self: "same_large_page x x" for x by (simp add: same_large_page_def)
  have "v2p demo_vm (kernel_page 1) = v2p ?v2 (kernel_page 1)"
    by (rule translation_kept [OF m3 _ self]) (use kernel_pages(2,9) in auto)
  then show "v2p demo_vm (kernel_page 1) = 0x600000" using s2(3) [OF _ self] kernel_pages(12) by (simp del: One_nat_def)
  show "v2p demo_vm (kernel_page 2) = 0x800000" using s3(3) [OF _ self] by (simp add: kernel_pages demo_vm_def)
qed

lemma demo_memory_ok: "program_memory_ok demo_memory 2 (os_vm demo_os)"
proof -
  have "foreign boot_vm2 0x5000"
  proof -
    have e: "ent boot_vm2 = ent boot_vm" "cr3 boot_vm2 = cr3 boot_vm" by (simp_all add: boot_vm2_def ent_def fun_eq_iff)
    have v: "valid boot_vm2 q \<longleftrightarrow> q = []" for q
      using tbl_cong [OF e(2), of "\<lambda>_ _. True" q] boot_valid [of q] by (simp add: e(1))
    show ?thesis by (simp add: foreign_def page_taken_def boot_vm2_bit v) (simp add: boot_vm2_def boot_vm_def boot_frame)
  qed
  then have "fresh_table 0x5000 demo_vm" using demo_vm(3) by (simp add: fresh_table_def spares_def)
  moreover have "{1024..<3584} \<subseteq> avail demo_vm" using demo_vm(2) by (auto simp: room_def)
  moreover have "kernel_page 0 + 0x5000 \<noteq> 0" "kernel_page 2 \<noteq> 0" "pt_index (kernel_page 1) 39 \<noteq> 511" "pt_index (kernel_page 2) 39 \<noteq> 511"
    by (simp_all add: kernel_page_def KERNEL_VIRTUAL_BASE_def PAGE_SIZE_LARGE_def pt_index_def)
  moreover have "fresh_blocks (replicate 3 zero_block)" by (simp add: fresh_blocks_def zero_block_def numeral_3_eq_3)
  ultimately show ?thesis
    using demo_vm(1,4-6) demo_frames by (simp add: program_memory_ok_def demo_os_def demo_memory_def)
qed


lemma demo_psi_ok: "0 < psi_size demo_psi" "psi_size demo_psi \<le> PAGE_SIZE_LARGE" "place_ok (psi_min_address demo_psi)"
proof -
  show "0 < psi_size demo_psi" "psi_size demo_psi \<le> PAGE_SIZE_LARGE" by (simp_all add: demo_psi_def PAGE_SIZE_LARGE_def)
  show "place_ok (psi_min_address demo_psi)"
    unfolding place_ok_def user_layout(4) kernel_half
    by (simp add: demo_psi_def is_aligned_def PAGE_SIZE_LARGE_def PAGE_SIZE_HUGE_def user_stack_def pt_index_def same_large_page_index)
qed

lemma demo_os_sched:
  "sched_inv (os_sched demo_os)" "global_vthread_handle_counter (os_sched demo_os) \<noteq> -1" "1 < length (sc_procs (os_sched demo_os))"
  using demo_sched_inv demo_facts(5)
  by (auto simp: demo_os_def sched_inv_def table_inv_def thread_ok_def)


theorem process_thread_enters_witness:
  "\<exists>s' t. start_program demo_memory 1 demo_psi 0x401000 demo_os = Some (True, s') \<and>
     g_threads (os_sched s') = g_threads demo_sched @ [(2, t)] \<and> vt_page_table t = 0x5000 \<and>
     sc_mem (os_sched s') (vt_stack_top t + 128) = 0x401000"
proof -
  obtain s' where r: "start_program demo_memory 1 demo_psi 0x401000 demo_os = Some (True, s')"
    using start_program_runs [OF demo_memory_ok refl demo_psi_ok demo_os_sched(3)] by blast
  have f: "pm_fpu_v demo_memory \<noteq> 0" by (simp add: demo_memory_def)
  have e: "g_threads (os_sched demo_os) = g_threads demo_sched" "global_vthread_handle_counter (os_sched demo_os) = 2"
    "v2p (os_vm demo_os) (pm_table_v demo_memory) = 0x5000"
    using demo_vm(4) by (simp_all add: demo_os_def demo_sched_def demo_memory_def)
  obtain t where t: "g_threads (os_sched s') = g_threads demo_sched @ [(2, t)]" "vt_page_table t = 0x5000"
    "map (\<lambda>k. sc_mem (os_sched s') (vt_stack_top t + of_nat (8 * k))) [0..<21] = replicate 15 0 @ [0, 0x401000, 0x2B, 0x202, stack_start user_stack, 0x23]"
    using process_thread_enters [OF demo_os_sched f r] unfolding e by auto
  from arg_cong [OF t(3), of "\<lambda>l. l ! 16"] have "sc_mem (os_sched s') (vt_stack_top t + 128) = 0x401000"
    by (simp add: nth_append)
  then show ?thesis using r t(1,2) by blast
qed

end
