(* ===== verification/Syscalls.thy ===== *)
theory Syscalls
  imports Process Window_Events
begin

text \<open>
  System calls: \<open>src/kernel/src/syscall_handler.cpp\<close>, their dispatch in \<open>src/kernel/src/arch/amd64/amd64_entry.cpp\<close>
  and the calls a user program makes, \<open>src/shared/src/vrosapi\<close>.

  The memory of the calling program is a function from addresses to bytes, and a null pointer followed is \<open>None\<close>, as is a
  path without an end. A call either returns a value or stops its thread. Printing is left out. The copy of
  \<open>cr3\<close> in the scheduler is not used here.
\<close>

definition SYSCALL_RESULT_OK :: u64 where "SYSCALL_RESULT_OK = 0"
definition SYSCALL_RESULT_ERR :: u64 where "SYSCALL_RESULT_ERR = 1"
definition SYSCALL_TERMINATE_PROCESS :: u64 where "SYSCALL_TERMINATE_PROCESS = 0"
definition SYSCALL_HEAP_ALLOC :: u64 where "SYSCALL_HEAP_ALLOC = 1"
definition SYSCALL_HEAP_FREE :: u64 where "SYSCALL_HEAP_FREE = 2"
definition SYSCALL_CREATE_WINDOW :: u64 where "SYSCALL_CREATE_WINDOW = 3"
definition SYSCALL_GET_WINDOW_BUFFER :: u64 where "SYSCALL_GET_WINDOW_BUFFER = 4"
definition SYSCALL_RENDER_WINDOW :: u64 where "SYSCALL_RENDER_WINDOW = 5"
definition SYSCALL_POLL_EVENT :: u64 where "SYSCALL_POLL_EVENT = 6"
definition SYSCALL_OPEN_FILE :: u64 where "SYSCALL_OPEN_FILE = 7"
definition SYSCALL_READ_FILE :: u64 where "SYSCALL_READ_FILE = 8"
definition SYSCALL_TIME_SINCE_BOOT :: u64 where "SYSCALL_TIME_SINCE_BOOT = 9"
definition SYSCALL_WINDOW_RESIZE :: u64 where "SYSCALL_WINDOW_RESIZE = 10"

record system = os +
  sys_wm :: window_manager
  sys_last_handle :: u64
  sys_gd :: graphics_driver
  sys_mem :: "u64 \<Rightarrow> u8"

datatype 'a sys_result = Returned u64 'a | Stopped 'a

section \<open>The memory of the program\<close>

definition mem_read :: "(u64 \<Rightarrow> u8) \<Rightarrow> u64 \<Rightarrow> nat \<Rightarrow> u8 list" where
  "mem_read mem a n = map (\<lambda>i. mem (a + of_nat i)) [0..<n]"

fun mem_write :: "(u64 \<Rightarrow> u8) \<Rightarrow> u64 \<Rightarrow> u8 list \<Rightarrow> u64 \<Rightarrow> u8" where
  "mem_write mem a [] = mem"
| "mem_write mem a (b # bs) = mem_write (mem(a := b)) (a + 1) bs"

definition read_word :: "(u64 \<Rightarrow> u8) \<Rightarrow> u64 \<Rightarrow> u64 option" where
  "read_word mem a = rd64 (mem_read mem a 8) 0"

definition read_int :: "(u64 \<Rightarrow> u8) \<Rightarrow> u64 \<Rightarrow> u32 option" where
  "read_int mem a = rd32 (mem_read mem a 4) 0"

partial_function (option) mem_text :: "(u64 \<Rightarrow> u8) \<Rightarrow> u64 \<Rightarrow> u8 list option" where
  "mem_text mem a = (if mem a = 0 then Some [] else do { r \<leftarrow> mem_text mem (a + 1); Some (mem a # r) })"

fun event_bytes :: "window_event \<Rightarrow> u8 list" where
  "event_bytes (WE_MBL_DOWN x y) = le32 0 @ le32 x @ le32 y"
| "event_bytes (WE_MBL_UP x y) = le32 1 @ le32 x @ le32 y"
| "event_bytes (WE_MBR_DOWN x y) = le32 2 @ le32 x @ le32 y"
| "event_bytes (WE_MBR_UP x y) = le32 3 @ le32 x @ le32 y"

section \<open>Handlers\<close>

text \<open>\<open>heap_alloc\<close> and \<open>heap_free\<close> on the heap of the process \<open>p\<close>.\<close>

definition process_heap_alloc :: "nat \<Rightarrow> u64 \<Rightarrow> 'a os_scheme \<Rightarrow> u64 \<times> 'a os_scheme" where
  "process_heap_alloc p sz s =
     (case heap_alloc vmem_smart_alloc_pages (pr_heap (sc_procs (os_sched s) ! p)) sz (os_vm s) of (r, h, vm) \<Rightarrow>
        (r, upd_process p (\<lambda>pr. pr\<lparr>pr_heap := h\<rparr>) (s\<lparr>os_vm := vm\<rparr>)))"

definition process_heap_free :: "nat \<Rightarrow> u64 \<Rightarrow> 'a os_scheme \<Rightarrow> 'a os_scheme option" where
  "process_heap_free p ptr s = do {
     h \<leftarrow> heap_free (pr_heap (sc_procs (os_sched s) ! p)) ptr;
     Some (upd_process p (\<lambda>pr. pr\<lparr>pr_heap := h\<rparr>) s) }"

definition ptr_option :: "u64 \<Rightarrow> u64 option" where "ptr_option p = (if p = 0 then None else Some p)"
definition ptr_value :: "u64 option \<Rightarrow> u64" where "ptr_value p = (case p of None \<Rightarrow> 0 | Some p \<Rightarrow> p)"

text \<open>Every handler begins with the test for a current process.\<close>

definition with_process :: "(nat \<Rightarrow> 'a sys_result option) \<Rightarrow> 'b os_scheme \<Rightarrow> 'a \<Rightarrow> 'a sys_result option" where
  "with_process f s s' = (case get_current_process s of None \<Rightarrow> Some (Returned SYSCALL_RESULT_OK s') | Some p \<Rightarrow> f p)"

definition syscall_terminate_current_process :: "system \<Rightarrow> system sys_result option" where
  "syscall_terminate_current_process s =
     map_option (\<lambda>sc. Stopped (s\<lparr>os_sched := sc\<rparr>)) (vthread_terminate_current (os_sched s))"

definition syscall_heap_alloc :: "u64 \<Rightarrow> system \<Rightarrow> system sys_result option" where
  "syscall_heap_alloc sz s = with_process (\<lambda>p. case process_heap_alloc p sz s of (r, s) \<Rightarrow> Some (Returned r s)) s s"

definition syscall_heap_free :: "u64 \<Rightarrow> system \<Rightarrow> system sys_result option" where
  "syscall_heap_free ptr s =
     with_process (\<lambda>p. map_option (Returned SYSCALL_RESULT_OK) (process_heap_free p ptr s)) s s"

definition syscall_handler_create_window :: "u64 \<Rightarrow> system \<Rightarrow> system sys_result option" where
  "syscall_handler_create_window wnd_desc s = with_process (\<lambda>p.
     if wnd_desc = 0 then None else do {
       hook \<leftarrow> read_word (sys_mem s) wnd_desc;
       w \<leftarrow> read_int (sys_mem s) (wnd_desc + 16);
       h \<leftarrow> read_int (sys_mem s) (wnd_desc + 20);
       let (r, s) = process_heap_alloc p (scast (w * h) * 4) s;
       let (handle, last, wm) = wm_allocate_window w h hook p (ptr_option r) (sys_last_handle s) (sys_wm s);
       Some (Returned handle (s\<lparr>sys_last_handle := last, sys_wm := wm\<rparr>)) }) s s"

definition syscall_handler_get_window_buffer :: "u64 \<Rightarrow> system \<Rightarrow> system sys_result option" where
  "syscall_handler_get_window_buffer handle s =
     with_process (\<lambda>p. Some (Returned (ptr_value (wm_window_get_buffer (wm_windows (sys_wm s)) handle)) s)) s s"

definition syscall_handler_render_window :: "u64 \<Rightarrow> system \<Rightarrow> system sys_result option" where
  "syscall_handler_render_window handle s =
     with_process (\<lambda>p. Some (Returned SYSCALL_RESULT_OK (s\<lparr>sys_wm := (sys_wm s)\<lparr>wm_should_render := True\<rparr>\<rparr>))) s s"

text \<open>The hook is written when the window exists and its pointer is not null, the event when there is one.\<close>

definition syscall_handler_poll_event :: "u64 \<Rightarrow> u64 \<Rightarrow> u64 \<Rightarrow> system \<Rightarrow> system sys_result option" where
  "syscall_handler_poll_event handle event hook s = with_process (\<lambda>p.
     if event = 0 then Some (Returned SYSCALL_RESULT_OK s)
     else case wm_window_poll_event handle (wm_windows (sys_wm s)) of ((e, h), ws) \<Rightarrow>
       let mem = (case h of Some v \<Rightarrow> if hook \<noteq> 0 then mem_write (sys_mem s) hook (le64 v) else sys_mem s | None \<Rightarrow> sys_mem s);
           mem = (case e of Some v \<Rightarrow> mem_write mem event (event_bytes v) | None \<Rightarrow> mem)
       in Some (Returned (if e = None then 0 else 1) (s\<lparr>sys_wm := (sys_wm s)\<lparr>wm_windows := ws\<rparr>, sys_mem := mem\<rparr>))) s s"

definition syscall_handler_open_file :: "u64 \<Rightarrow> system \<Rightarrow> system sys_result option" where
  "syscall_handler_open_file path s = with_process (\<lambda>p.
     if path = 0 then None else do {
       text \<leftarrow> mem_text (sys_mem s) path;
       (descriptor, v) \<leftarrow> vfs_open_file (os_vfs s) text;
       Some (Returned descriptor (s\<lparr>os_vfs := v\<rparr>)) }) s s"

text \<open>\<open>raw\<close> are the contents of fresh blocks of the kernel's heap.\<close>

definition syscall_handler_read_file :: "(nat \<Rightarrow> u8 list) \<Rightarrow> u64 \<Rightarrow> u64 \<Rightarrow> u64 \<Rightarrow> system \<Rightarrow> system sys_result option" where
  "syscall_handler_read_file raw handle data sz s = with_process (\<lambda>p. do {
     (ok, file_data, file_size) \<leftarrow> vfs_read_file True True raw (os_vfs s) handle (None, 0);
     if \<not> ok then Some (Returned SYSCALL_RESULT_ERR s) else do {
     let (target_mem, s) = process_heap_alloc p file_size s;
     if target_mem = 0 then Some (Returned SYSCALL_RESULT_ERR s) else do {
     bytes \<leftarrow> (if file_size = 0 then Some [] else file_data);
     let s = s\<lparr>sys_mem := mem_write (sys_mem s) target_mem bytes\<rparr>;
     if data = 0 \<or> sz = 0 then None else
     Some (Returned SYSCALL_RESULT_OK
       (s\<lparr>sys_mem := mem_write (mem_write (sys_mem s) data (le64 target_mem)) sz (le64 file_size)\<rparr>)) } } }) s s"

definition syscall_handler_time_since_boot :: "system \<Rightarrow> system sys_result option" where
  "syscall_handler_time_since_boot s = with_process (\<lambda>p. Some (Returned (sc_now (os_sched s)) s)) s s"

text \<open>The window's old buffer is released before the new one is requested, on the heap of the window's process.\<close>

definition syscall_handler_window_resize :: "u64 \<Rightarrow> u64 \<Rightarrow> u64 \<Rightarrow> system \<Rightarrow> system sys_result option" where
  "syscall_handler_window_resize handle width height s = with_process (\<lambda>p. do {
     let w = ucast width;
     let h = ucast height;
     (x, y) \<leftarrow> graphics_driver_get_size (sys_gd s);
     case find (\<lambda>win. wd_handle win = handle) (wm_windows (sys_wm s)) of
       Some win \<Rightarrow>
         if ucast w > x \<or> ucast h > y then Some (Returned 0 s) else do {
           s \<leftarrow> process_heap_free (wd_parent_process win) (ptr_value (wd_buffer win)) s;
           let (r, s) = process_heap_alloc (wd_parent_process win) (ucast (w * h) * 4) s;
           (ok, wm) \<leftarrow> wm_window_resize (sys_gd s) handle w h (ptr_option r) (sys_wm s);
           Some (Returned (if ok then 1 else 0) (s\<lparr>sys_wm := wm\<rparr>)) }
     | None \<Rightarrow> Some (Returned 0 s) }) s s"

section \<open>Dispatch\<close>

definition syscall_dispatch :: "(nat \<Rightarrow> u8 list) \<Rightarrow> u64 \<Rightarrow> u64 \<Rightarrow> u64 \<Rightarrow> u64 \<Rightarrow> u64 \<Rightarrow> u64 \<Rightarrow> u64 \<Rightarrow> system \<Rightarrow>
    system sys_result option" where
  "syscall_dispatch raw syscall_num a1 a2 a3 a4 a5 a6 s =
     (if syscall_num = SYSCALL_TERMINATE_PROCESS then syscall_terminate_current_process s
      else if syscall_num = SYSCALL_HEAP_ALLOC then syscall_heap_alloc a1 s
      else if syscall_num = SYSCALL_HEAP_FREE then syscall_heap_free a1 s
      else if syscall_num = SYSCALL_CREATE_WINDOW then syscall_handler_create_window a1 s
      else if syscall_num = SYSCALL_GET_WINDOW_BUFFER then syscall_handler_get_window_buffer a1 s
      else if syscall_num = SYSCALL_RENDER_WINDOW then syscall_handler_render_window a1 s
      else if syscall_num = SYSCALL_POLL_EVENT then syscall_handler_poll_event a1 a2 a3 s
      else if syscall_num = SYSCALL_OPEN_FILE then syscall_handler_open_file a1 s
      else if syscall_num = SYSCALL_READ_FILE then syscall_handler_read_file raw a1 a2 a3 s
      else if syscall_num = SYSCALL_TIME_SINCE_BOOT then syscall_handler_time_since_boot s
      else if syscall_num = SYSCALL_WINDOW_RESIZE then syscall_handler_window_resize a1 a2 a3 s
      else Some (Returned SYSCALL_RESULT_OK s))"

text \<open>The registers that carry the arguments, as the entry stub saves them.\<close>

record syscall_regs =
  rg_rdi :: u64
  rg_rsi :: u64
  rg_rdx :: u64
  rg_r10 :: u64
  rg_r8 :: u64
  rg_r9 :: u64

definition amd64_syscall_dispatch :: "(nat \<Rightarrow> u8 list) \<Rightarrow> u64 \<Rightarrow> syscall_regs \<Rightarrow> system \<Rightarrow> system sys_result option" where
  "amd64_syscall_dispatch raw syscall_num regs s =
     syscall_dispatch raw syscall_num (rg_rdi regs) (rg_rsi regs) (rg_rdx regs) (rg_r10 regs) (rg_r8 regs) (rg_r9 regs) s"

section \<open>The calls of a user program\<close>

text \<open>\<open>regs\<close> is what the program has in its registers; a call sets those that carry its arguments.\<close>

type_synonym 'a call = "(nat \<Rightarrow> u8 list) \<Rightarrow> syscall_regs \<Rightarrow> system \<Rightarrow> ('a \<times> system) option"

definition returned :: "(u64 \<Rightarrow> 'a) \<Rightarrow> system sys_result option \<Rightarrow> ('a \<times> system) option" where
  "returned f r = (case r of Some (Returned v s) \<Rightarrow> Some (f v, s) | _ \<Rightarrow> None)"

definition syscall_malloc :: "u64 \<Rightarrow> u64 call" where
  "syscall_malloc sz raw regs s = returned id (amd64_syscall_dispatch raw 1 (regs\<lparr>rg_rdi := sz\<rparr>) s)"

definition syscall_free :: "u64 \<Rightarrow> bool call" where
  "syscall_free ptr raw regs s = returned (\<lambda>r. r = 0) (amd64_syscall_dispatch raw 2 (regs\<lparr>rg_rdi := ptr\<rparr>) s)"

definition syscall_create_window :: "u64 \<Rightarrow> u64 call" where
  "syscall_create_window wnd_desc raw regs s = returned id (amd64_syscall_dispatch raw 3 (regs\<lparr>rg_rdi := wnd_desc\<rparr>) s)"

definition syscall_get_window_buffer :: "u64 \<Rightarrow> u64 call" where
  "syscall_get_window_buffer handle raw regs s = returned id (amd64_syscall_dispatch raw 4 (regs\<lparr>rg_rdi := handle\<rparr>) s)"

definition syscall_render_window :: "u64 \<Rightarrow> bool call" where
  "syscall_render_window handle raw regs s = returned (\<lambda>r. r = 0) (amd64_syscall_dispatch raw 5 (regs\<lparr>rg_rdi := handle\<rparr>) s)"

definition syscall_poll_event :: "u64 \<Rightarrow> u64 \<Rightarrow> u64 \<Rightarrow> bool call" where
  "syscall_poll_event handle event hook raw regs s =
     returned (\<lambda>r. r = 1) (amd64_syscall_dispatch raw 6 (regs\<lparr>rg_rdi := handle, rg_rsi := event, rg_rdx := hook\<rparr>) s)"

definition syscall_open_file :: "u64 \<Rightarrow> u64 call" where
  "syscall_open_file path raw regs s = returned id (amd64_syscall_dispatch raw 7 (regs\<lparr>rg_rdi := path\<rparr>) s)"

definition syscall_read_file :: "u64 \<Rightarrow> u64 \<Rightarrow> u64 \<Rightarrow> bool call" where
  "syscall_read_file handle data sz raw regs s =
     returned (\<lambda>r. r = 0) (amd64_syscall_dispatch raw 8 (regs\<lparr>rg_rdi := handle, rg_rsi := data, rg_rdx := sz\<rparr>) s)"

definition syscall_time_since_boot :: "u64 call" where
  "syscall_time_since_boot raw regs s = returned id (amd64_syscall_dispatch raw 9 regs s)"

definition syscall_window_resize :: "u64 \<Rightarrow> u64 \<Rightarrow> u64 \<Rightarrow> bool call" where
  "syscall_window_resize handle w h raw regs s =
     returned (\<lambda>r. r = 1) (amd64_syscall_dispatch raw 10 (regs\<lparr>rg_rdi := handle, rg_rsi := w, rg_rdx := h\<rparr>) s)"

end
