(* ===== verification/Minesweeper.thy ===== *)
theory Minesweeper
  imports Common Window_Event
begin

text \<open>
  The game of the user program: \<open>src/minesweeper/src/minesweeper.cpp\<close>,
  \<open>src/minesweeper/include/minesweeper.hpp\<close> and the event handlers of
  \<open>src/minesweeper/src/main.cpp\<close>.

  A pointer to a tile is its index in the board; a callback is a function of the index and the game.
  Reading or writing outside the board, through a null board, or a configuration that does not exist
  is \<open>None\<close>. Drawing is in \<open>Game_Screen\<close>, with the fields of \<open>game_t\<close> that only drawing uses;
  \<open>mark_count\<close>, which nothing uses, is left out; \<open>gm_tile_size\<close> and \<open>gm_smiley_size\<close> are the \<open>sprite_size\<close> of two sprites.
\<close>

record tile =
  tl_bomb_count :: int
  tl_x :: int
  tl_y :: int
  tl_is_bomb :: bool
  tl_is_marked :: bool
  tl_is_revealed :: bool
  tl_is_peeking :: bool
  tl_has_clicked :: bool

record game_config =
  gc_width :: nat
  gc_height :: nat
  gc_bomb_count :: nat

record game =
  gm_active_game_config :: nat
  gm_game_board :: "tile list option"
  gm_is_running :: bool
  gm_has_won :: bool
  gm_board_offsetx :: u32
  gm_board_offsety :: u32
  gm_tile_size :: u32
  gm_smiley_size :: u32
  gm_smileyx :: u32
  gm_smileyy :: u32

definition game_configs :: "game_config list" where
  "game_configs = [\<lparr>gc_width = 9, gc_height = 9, gc_bomb_count = 10\<rparr>,
     \<lparr>gc_width = 16, gc_height = 16, gc_bomb_count = 40\<rparr>, \<lparr>gc_width = 30, gc_height = 16, gc_bomb_count = 99\<rparr>]"

definition active_config :: "game \<Rightarrow> game_config option" where
  "active_config g = (if gm_active_game_config g < length game_configs
     then Some (game_configs ! gm_active_game_config g) else None)"

definition tile_at :: "game \<Rightarrow> nat \<Rightarrow> tile option" where
  "tile_at g i = do { b \<leftarrow> gm_game_board g; if i < length b then Some (b ! i) else None }"

definition upd_tile :: "nat \<Rightarrow> (tile \<Rightarrow> tile) \<Rightarrow> game \<Rightarrow> game option" where
  "upd_tile i f g = do { b \<leftarrow> gm_game_board g;
     if i < length b then Some (g\<lparr>gm_game_board := Some (b[i := f (b ! i)])\<rparr>) else None }"

section \<open>Positions\<close>

definition valid_pos :: "game_config \<Rightarrow> int \<Rightarrow> int \<Rightarrow> bool" where
  "valid_pos c x y \<longleftrightarrow> \<not> (x < 0 \<or> y < 0) \<and> x < int (gc_width c) \<and> y < int (gc_height c)"

definition is_valid_grid_pos :: "game \<Rightarrow> int \<Rightarrow> int \<Rightarrow> bool option" where
  "is_valid_grid_pos g x y =
     (if x < 0 \<or> y < 0 then Some False else map_option (\<lambda>c. valid_pos c x y) (active_config g))"

text \<open>The loops visit the columns from left to right, and each from the top to the bottom.\<close>

definition board_indices :: "game_config \<Rightarrow> nat list" where
  "board_indices c = concat (map (\<lambda>x. map (\<lambda>y. x + gc_width c * y) [0..<gc_height c]) [0..<gc_width c])"

definition loop_game_board :: "(nat \<Rightarrow> game \<Rightarrow> game option) \<Rightarrow> game \<Rightarrow> game option" where
  "loop_game_board callback g = do { c \<leftarrow> active_config g; each callback (board_indices c) g }"

definition neighbour_indices :: "game_config \<Rightarrow> int \<Rightarrow> int \<Rightarrow> nat list" where
  "neighbour_indices c x y = map (\<lambda>(i, j). nat (x + i + int (gc_width c) * (y + j)))
     (filter (\<lambda>(i, j). \<not> (\<not> valid_pos c (x + i) (y + j) \<or> (i = 0 \<and> j = 0)))
       (List.product [-1, 0, 1] [-1, 0, 1]))"

definition neighbours :: "game \<Rightarrow> nat \<Rightarrow> nat list option" where
  "neighbours g i = do { c \<leftarrow> active_config g; t \<leftarrow> tile_at g i; Some (neighbour_indices c (tl_x t) (tl_y t)) }"

text \<open>The callback gets the neighbour and the tile itself.\<close>

definition loop_neighbour_tiles :: "nat \<Rightarrow> (nat \<Rightarrow> nat \<Rightarrow> game \<Rightarrow> game option) \<Rightarrow> game \<Rightarrow> game option" where
  "loop_neighbour_tiles i callback g = do { ns \<leftarrow> neighbours g i; each (\<lambda>j. callback j i) ns g }"

text \<open>The position is an \<open>int\<close> that the comparison with the \<open>u32\<close> size converts.\<close>

definition get_tile_from_pos :: "game \<Rightarrow> u32 \<Rightarrow> u32 \<Rightarrow> nat option option" where
  "get_tile_from_pos g x y = do {
     c \<leftarrow> active_config g;
     if x \<ge> of_nat (gc_width c) * gm_tile_size g \<or> y \<ge> of_nat (gc_height c) * gm_tile_size g \<or>
        sint x < 0 \<or> sint y < 0 then Some None
     else Some (Some (unat (x div gm_tile_size g + of_nat (gc_width c) * (y div gm_tile_size g)))) }"

definition get_tile_at :: "game \<Rightarrow> u32 \<Rightarrow> u32 \<Rightarrow> nat option" where
  "get_tile_at g x y = do { c \<leftarrow> active_config g; Some (unat (x + of_nat (gc_width c) * y)) }"

section \<open>Playing\<close>

definition minesweeper_end_game :: "bool \<Rightarrow> game \<Rightarrow> game option" where
  "minesweeper_end_game won g =
     loop_game_board (\<lambda>i g. do {
         t \<leftarrow> tile_at g i;
         if tl_is_bomb t \<and> \<not> tl_is_marked t then upd_tile i (\<lambda>t. t\<lparr>tl_is_revealed := True\<rparr>) g else Some g })
       (g\<lparr>gm_is_running := False, gm_has_won := won\<rparr>)"

definition tile_mark :: "nat \<Rightarrow> game \<Rightarrow> game option" where
  "tile_mark i g = do {
     t \<leftarrow> tile_at g i;
     if tl_is_revealed t then Some g
     else upd_tile i (\<lambda>t. t\<lparr>tl_is_marked := \<not> tl_is_marked t\<rparr>) g }"

definition tile_peek_nearby :: "nat \<Rightarrow> game \<Rightarrow> game option" where
  "tile_peek_nearby i g =
     loop_neighbour_tiles i (\<lambda>j _ g. do {
       t \<leftarrow> tile_at g j;
       if \<not> tl_is_revealed t \<and> \<not> tl_is_marked t then upd_tile j (\<lambda>t. t\<lparr>tl_is_peeking := True\<rparr>) g else Some g }) g"

text \<open>The number of tiles that are not revealed; every call of \<open>tile_reveal\<close> that goes on lowers it.\<close>

definition unrevealed :: "game \<Rightarrow> nat" where
  "unrevealed g = (case gm_game_board g of None \<Rightarrow> 0 | Some b \<Rightarrow> length (filter (\<lambda>t. \<not> tl_is_revealed t) b))"

lemma length_filter_update:
  assumes "i < length b"
  shows "length (filter P (b[i := x])) + (if P (b ! i) then 1 else 0) =
     length (filter P b) + (if P x then 1 else 0)"
proof -
  have "length (filter P (b[i := x])) = length (filter P (take i b)) + (if P x then 1 else 0) + length (filter P (drop (Suc i) b))" for x
    using assms by (simp add: upd_conv_take_nth_drop)
  from this [of x] this [of "b ! i"] show ?thesis by simp
qed

lemma unrevealed_upd:
  assumes "upd_tile i f g = Some g'" "tile_at g i = Some t"
  shows "unrevealed g' + (if \<not> tl_is_revealed t then 1 else 0) =
    unrevealed g + (if \<not> tl_is_revealed (f t) then 1 else 0)"
proof -
  obtain b where "gm_game_board g = Some b" "i < length b" "t = b ! i"
    using assms(2) by (cases "gm_game_board g") (simp_all add: tile_at_def split: if_splits)
  moreover from this have "g' = g\<lparr>gm_game_board := Some (b[i := f (b ! i)])\<rparr>"
    using assms(1) by (simp add: upd_tile_def)
  ultimately show ?thesis using length_filter_update [of i b "\<lambda>t. \<not> tl_is_revealed t" "f (b ! i)"]
    by (simp add: unrevealed_def)
qed

lemma each_mono:
  fixes m :: "'s \<Rightarrow> nat"
  assumes "each f xs s = Some s'" "\<And>x s s'. f x s = Some s' \<Longrightarrow> m s' \<le> m s"
  shows "m s' \<le> m s"
  using assms(1)
proof (induction xs arbitrary: s)
  case (Cons x xs)
  then obtain s1 where "f x s = Some s1" "each f xs s1 = Some s'" by (auto simp: bind_Some_iff)
  with Cons.IH assms(2) show ?case by (meson order.trans)
qed simp

lemma tile_at_of_upd: "upd_tile i f g = Some g' \<Longrightarrow> \<exists>t. tile_at g i = Some t"
  by (cases "gm_game_board g") (simp_all add: upd_tile_def tile_at_def split: if_splits)

lemma unrevealed_end_game: "minesweeper_end_game won g = Some g' \<Longrightarrow> unrevealed g' \<le> unrevealed g"
proof -
  assume e: "minesweeper_end_game won g = Some g'"
  let ?g = "g\<lparr>gm_is_running := False, gm_has_won := won\<rparr>"
  obtain c where c: "each (\<lambda>i g. do { t \<leftarrow> tile_at g i;
         if tl_is_bomb t \<and> \<not> tl_is_marked t then upd_tile i (\<lambda>t. t\<lparr>tl_is_revealed := True\<rparr>) g else Some g })
       (board_indices c) ?g = Some g'"
    using e by (auto simp: minesweeper_end_game_def loop_game_board_def bind_Some_iff)
  have "unrevealed g' \<le> unrevealed ?g"
  proof (rule each_mono [OF c])
    fix i s s' assume "do { t \<leftarrow> tile_at s i;
         if tl_is_bomb t \<and> \<not> tl_is_marked t then upd_tile i (\<lambda>t. t\<lparr>tl_is_revealed := True\<rparr>) s else Some s } = Some s'"
    then show "unrevealed s' \<le> unrevealed s"
      using unrevealed_upd [of i "\<lambda>t. t\<lparr>tl_is_revealed := True\<rparr>" s s']
      by (auto simp: bind_Some_iff split: if_splits)
  qed
  then show ?thesis by (simp add: unrevealed_def)
qed

function (sequential) tile_reveal :: "nat \<Rightarrow> game \<Rightarrow> game option"
  and reveal_neighbours :: "nat list \<Rightarrow> game \<Rightarrow> game option" where
  "tile_reveal i g = do {
     t \<leftarrow> tile_at g i;
     if tl_is_revealed t \<or> tl_is_marked t then Some g
     else do {
       g \<leftarrow> upd_tile i (\<lambda>t. t\<lparr>tl_is_revealed := True\<rparr>) g;
       if tl_is_bomb t then minesweeper_end_game False g
       else if tl_bomb_count t \<ge> 1 then Some g
       else do { ns \<leftarrow> neighbours g i; reveal_neighbours ns g } } }"
| "reveal_neighbours [] g = Some g"
| "reveal_neighbours (j # js) g = do {
     t \<leftarrow> tile_at g j;
     g \<leftarrow> (if \<not> tl_is_bomb t \<and> \<not> tl_is_marked t then tile_reveal j g else Some g);
     reveal_neighbours js g }"
  by pat_completeness auto

termination
proof -
  let ?m = "measures [\<lambda>x. case x of Inl (i, g) \<Rightarrow> unrevealed g | Inr (js, g) \<Rightarrow> unrevealed g,
    \<lambda>x. case x of Inl (i, g) \<Rightarrow> 1 | Inr (js, g) \<Rightarrow> 2 * length js]"
  have le1: "tile_reveal_reveal_neighbours_dom (Inl (i, g)) \<Longrightarrow> (\<And>g'. tile_reveal i g = Some g' \<Longrightarrow> unrevealed g' \<le> unrevealed g)"
    and le2: "tile_reveal_reveal_neighbours_dom (Inr (js, g)) \<Longrightarrow> (\<And>g'. reveal_neighbours js g = Some g' \<Longrightarrow> unrevealed g' \<le> unrevealed g)"
    for i g js
  proof (induction i g and js g rule: tile_reveal_reveal_neighbours.pinduct)
    case (1 i g)
    note r = 1(3) [unfolded tile_reveal.psimps [OF 1(1)]]
    then obtain t where t: "tile_at g i = Some t" by (cases "tile_at g i") simp_all
    show ?case
    proof (cases "tl_is_revealed t \<or> tl_is_marked t")
      case True
      then show ?thesis using r t by simp
    next
      case False
      then obtain g1 where g1: "upd_tile i (\<lambda>t. t\<lparr>tl_is_revealed := True\<rparr>) g = Some g1"
        using r t by (cases "upd_tile i (\<lambda>t. t\<lparr>tl_is_revealed := True\<rparr>) g") simp_all
      have "unrevealed g1 \<le> unrevealed g" using unrevealed_upd [OF g1 t] by simp
      moreover have "unrevealed g' \<le> unrevealed g1"
      proof (cases "tl_is_bomb t \<or> tl_bomb_count t \<ge> 1")
        case True
        then show ?thesis using r t False g1 unrevealed_end_game [of False g1 g'] by (auto split: if_splits)
      next
        case nb: False
        then obtain ns where "neighbours g1 i = Some ns" "reveal_neighbours ns g1 = Some g'"
          using r t False g1 by (cases "neighbours g1 i") simp_all
        then show ?thesis using 1(2) [OF t False g1] nb by blast
      qed
      ultimately show ?thesis by simp
    qed
  next
    case (2 g)
    then show ?case by (simp add: reveal_neighbours.psimps)
  next
    case (3 j js g)
    note r = 3(4) [unfolded reveal_neighbours.psimps(2) [OF 3(1)]]
    then obtain t where t: "tile_at g j = Some t" by (cases "tile_at g j") simp_all
    let ?first = "if \<not> tl_is_bomb t \<and> \<not> tl_is_marked t then tile_reveal j g else Some g"
    obtain g1 where g1: "?first = Some g1" "reveal_neighbours js g1 = Some g'"
      using r t by (cases ?first) simp_all
    have "unrevealed g1 \<le> unrevealed g"
      using g1(1) 3(2) [OF t] by (auto split: if_splits)
    then show ?case using 3(3) [OF t g1(1) g1(2)] by simp
  qed
  show ?thesis
  proof (relation ?m, goal_cases)
    case 1 then show ?case by simp
  next
    case (2 i g t g' ns)
    then show ?case using unrevealed_upd [OF 2(3) 2(1)] by simp
  next
    case (3 j js g t)
    then show ?case by simp
  next
    case (4 j js g t g')
    then have "unrevealed g' \<le> unrevealed g" using le1 [of j g g'] by (auto split: if_splits)
    then show ?case by auto
  qed
qed

declare tile_reveal.simps [simp del]

section \<open>Setting up the board\<close>

definition blank_tile :: "game_config \<Rightarrow> nat \<Rightarrow> tile" where
  "blank_tile c i = \<lparr>tl_bomb_count = 0, tl_x = int (i mod gc_width c), tl_y = int (i div gc_width c), tl_is_bomb = False,
     tl_is_marked = False, tl_is_revealed = False, tl_is_peeking = False, tl_has_clicked = False\<rparr>"

text \<open>
  The bombs: \<open>n\<close> of them are left to place. A chosen position is replaced by the last one; with no
  position left the remainder divides by zero.
\<close>

fun place_bombs :: "game_config \<Rightarrow> nat \<Rightarrow> nat \<Rightarrow> (nat \<times> nat) list \<Rightarrow> game \<Rightarrow> u64 \<Rightarrow> (game \<times> u64) option" where
  "place_bombs c 0 bomb_positions_count bomb_positions g seed = Some (g, seed)"
| "place_bombs c (Suc n) bomb_positions_count bomb_positions g seed =
     (if bomb_positions_count = 0 then None
      else let (r, seed) = random_number seed;
               index = unat r mod bomb_positions_count;
               (x, y) = bomb_positions ! index;
               bomb_positions_count = bomb_positions_count - 1;
               bomb_positions = bomb_positions[index := bomb_positions ! bomb_positions_count]
           in do {
             g \<leftarrow> upd_tile (x + gc_width c * y) (\<lambda>t. t\<lparr>tl_is_bomb := True\<rparr>) g;
             place_bombs c n bomb_positions_count bomb_positions g seed })"

definition count_bombs :: "game \<Rightarrow> game option" where
  "count_bombs g =
     loop_game_board (\<lambda>i g. do {
       t \<leftarrow> tile_at g i;
       if tl_is_bomb t then Some g
       else loop_neighbour_tiles i (\<lambda>j i g. do {
              t \<leftarrow> tile_at g j;
              if tl_is_bomb t then upd_tile i (\<lambda>t. t\<lparr>tl_bomb_count := tl_bomb_count t + 1\<rparr>) g else Some g }) g }) g"

text \<open>\<open>alloc_ok\<close> is whether the board can be allocated; the list of positions is used unchecked.\<close>

definition game_board_create :: "bool \<Rightarrow> game \<Rightarrow> u64 \<Rightarrow> ((bool \<times> game) \<times> u64) option" where
  "game_board_create alloc_ok g seed =
     (if gm_game_board g \<noteq> None then Some ((False, g), seed)
      else do {
        c \<leftarrow> active_config g;
        if \<not> alloc_ok then Some ((False, g), seed)
        else do {
          let n = gc_height c * gc_width c;
          let g = g\<lparr>gm_game_board := Some (map (blank_tile c) [0..<n])\<rparr>;
          let positions = map (\<lambda>i. (i mod gc_width c, i div gc_width c)) [0..<n];
          (g, seed) \<leftarrow> place_bombs c (gc_bomb_count c) n positions g seed;
          g \<leftarrow> count_bombs g;
          Some ((True, g\<lparr>gm_is_running := False\<rparr>), seed) } })"

section \<open>Events\<close>

definition minesweeper_handle_lmb_down :: "u32 \<Rightarrow> u32 \<Rightarrow> game \<Rightarrow> game option" where
  "minesweeper_handle_lmb_down x y g =
     (if \<not> gm_is_running g then Some g
      else do {
        r \<leftarrow> get_tile_from_pos g (x - gm_board_offsetx g) (y - gm_board_offsety g);
        case r of None \<Rightarrow> Some g
        | Some i \<Rightarrow> do {
            t \<leftarrow> tile_at g i;
            if tl_is_revealed t then tile_peek_nearby i g
            else upd_tile i (\<lambda>t. t\<lparr>tl_is_peeking := True\<rparr>) g } })"

definition count_unrevealed :: "game_config \<Rightarrow> game \<Rightarrow> nat option" where
  "count_unrevealed c g = each (\<lambda>i n. do { t \<leftarrow> tile_at g i; Some (if tl_is_revealed t then n else n + 1) })
     [0..<gc_width c * gc_height c] 0"

definition remove_peeking :: "game \<Rightarrow> game option" where
  "remove_peeking g =
     loop_game_board (\<lambda>i g. do {
       t \<leftarrow> tile_at g i;
       if tl_is_bomb t then Some g
       else loop_neighbour_tiles i (\<lambda>j _ g. do {
              t \<leftarrow> tile_at g j;
              if tl_is_peeking t then upd_tile j (\<lambda>t. t\<lparr>tl_is_peeking := False\<rparr>) g else Some g }) g }) g"

definition minesweeper_handle_lmb_up :: "bool \<Rightarrow> u32 \<Rightarrow> u32 \<Rightarrow> game \<Rightarrow> u64 \<Rightarrow> (game \<times> u64) option" where
  "minesweeper_handle_lmb_up alloc_ok x y g seed =
     (if y < gm_board_offsety g then
        (if x \<ge> gm_smileyx g \<and> x < gm_smileyx g + gm_smiley_size g \<and>
            y \<ge> gm_smileyy g \<and> y < gm_smileyy g + gm_smiley_size g
         then do {
           (r, seed) \<leftarrow> game_board_create alloc_ok (g\<lparr>gm_game_board := None\<rparr>) seed;
           Some ((snd r)\<lparr>gm_is_running := True, gm_has_won := False\<rparr>, seed) }
         else Some (g, seed))
      else if \<not> gm_is_running g then Some (g, seed)
      else do {
        c \<leftarrow> active_config g;
        r \<leftarrow> get_tile_from_pos g (x - gm_board_offsetx g) (y - gm_board_offsety g);
        case r of None \<Rightarrow> Some (g, seed)
        | Some i \<Rightarrow> do {
            g \<leftarrow> upd_tile i (\<lambda>t. t\<lparr>tl_has_clicked := True\<rparr>) g;
            g \<leftarrow> tile_reveal i g;
            n \<leftarrow> count_unrevealed c g;
            g \<leftarrow> (if n = gc_bomb_count c then minesweeper_end_game True g else Some g);
            g \<leftarrow> remove_peeking g;
            Some (g, seed) } })"

definition minesweeper_handle_rmb_up :: "u32 \<Rightarrow> u32 \<Rightarrow> game \<Rightarrow> game option" where
  "minesweeper_handle_rmb_up x y g =
     (if \<not> gm_is_running g then Some g
      else do {
        r \<leftarrow> get_tile_from_pos g (x - gm_board_offsetx g) (y - gm_board_offsety g);
        case r of None \<Rightarrow> Some g | Some i \<Rightarrow> tile_mark i g })"

definition event_hook :: "bool \<Rightarrow> window_event \<Rightarrow> game \<Rightarrow> u64 \<Rightarrow> (game \<times> u64) option" where
  "event_hook alloc_ok e g seed =
     (case e of
        WE_MBL_DOWN x y \<Rightarrow> map_option (\<lambda>g. (g, seed)) (minesweeper_handle_lmb_down x y g)
      | WE_MBL_UP x y \<Rightarrow> minesweeper_handle_lmb_up alloc_ok x y g seed
      | WE_MBR_UP x y \<Rightarrow> map_option (\<lambda>g. (g, seed)) (minesweeper_handle_rmb_up x y g)
      | _ \<Rightarrow> Some (g, seed))"

datatype sprite_kind = TILE_EMPTY | TILE_BOMBS int | TILE_BOMB | TILE_BOMB_EXPLODED | TILE_UNREVEALED
  | TILE_MARKED | TILE_MARKED_WRONG

definition tile_get_sprite :: "game \<Rightarrow> tile \<Rightarrow> sprite_kind" where
  "tile_get_sprite g t =
     (if tl_is_peeking t then TILE_EMPTY
      else if \<not> tl_is_revealed t then
        (if \<not> gm_is_running g \<and> tl_is_marked t \<and> \<not> tl_is_bomb t then TILE_MARKED_WRONG
         else if tl_is_marked t then TILE_MARKED else TILE_UNREVEALED)
      else if tl_is_bomb t then (if tl_has_clicked t then TILE_BOMB_EXPLODED else TILE_BOMB)
      else if 1 \<le> tl_bomb_count t \<and> tl_bomb_count t \<le> 8 then TILE_BOMBS (tl_bomb_count t)
      else TILE_EMPTY)"

end
