(* ===== verification/Minesweeper_Play.thy ===== *)
theory Minesweeper_Play
  imports Minesweeper
begin

text \<open>
  What the game guarantees: revealing a tile floods exactly the region that is connected through
  tiles without neighbouring bombs, a new board has exactly its number of bombs and the right
  counts for every random seed, and no sequence of events leaves the board.
\<close>

section \<open>Boards\<close>

text \<open>A game with the board \<open>b\<close> of configuration \<open>c\<close>: the tiles know where they are.\<close>

definition board_of :: "game_config \<Rightarrow> tile list \<Rightarrow> game \<Rightarrow> bool" where
  "board_of c b g \<longleftrightarrow> active_config g = Some c \<and> gm_game_board g = Some b \<and>
     length b = gc_width c * gc_height c \<and>
     (\<forall>i < length b. tl_x (b ! i) = int (i mod gc_width c) \<and> tl_y (b ! i) = int (i div gc_width c))"

definition nbrs :: "game_config \<Rightarrow> nat \<Rightarrow> nat list" where
  "nbrs c i = neighbour_indices c (int (i mod gc_width c)) (int (i div gc_width c))"

lemma valid_pos_index:
  "valid_pos c x y \<Longrightarrow> nat (x + int (gc_width c) * y) = nat x + gc_width c * nat y \<and> nat x < gc_width c \<and> nat y < gc_height c"
  by (auto simp: valid_pos_def nat_add_distrib nat_mult_distrib)

lemma index_in_board: "x < w \<Longrightarrow> y < h \<Longrightarrow> x + w * y < w * (h :: nat)"
proof -
  assume "x < w" "y < h"
  then have "x + w * y < w + w * y" by simp
  also have "\<dots> = w * Suc y" by simp
  also have "\<dots> \<le> w * h" using \<open>y < h\<close> by (intro mult_le_mono2) simp
  finally show ?thesis .
qed

lemma nbrs_in_board: "j \<in> set (nbrs c i) \<Longrightarrow> j < gc_width c * gc_height c"
proof -
  assume "j \<in> set (nbrs c i)"
  then obtain p where p: "j = (case p of (d, e) \<Rightarrow> nat (int (i mod gc_width c) + d + int (gc_width c) * (int (i div gc_width c) + e)))"
    "case p of (d, e) \<Rightarrow> \<not> (\<not> valid_pos c (int (i mod gc_width c) + d) (int (i div gc_width c) + e) \<or> (d = 0 \<and> e = 0))"
    unfolding nbrs_def neighbour_indices_def set_map set_filter by blast
  then obtain x y where j: "j = nat (x + int (gc_width c) * y)" "valid_pos c x y"
    by (cases p) auto
  show ?thesis using valid_pos_index [OF j(2)] index_in_board unfolding j(1) by metis
qed

lemma board_of_tile: "board_of c b g \<Longrightarrow> i < length b \<Longrightarrow> tile_at g i = Some (b ! i)"
  by (simp add: board_of_def tile_at_def)

lemma board_of_upd: "board_of c b g \<Longrightarrow> i < length b \<Longrightarrow>
    upd_tile i f g = Some (g\<lparr>gm_game_board := Some (b[i := f (b ! i)])\<rparr>)"
  by (simp add: board_of_def upd_tile_def)

lemma board_of_neighbours: "board_of c b g \<Longrightarrow> i < length b \<Longrightarrow> neighbours g i = Some (nbrs c i)"
  by (simp add: neighbours_def board_of_tile) (simp add: board_of_def nbrs_def)

lemma active_config_upd [simp]: "active_config (g\<lparr>gm_game_board := x\<rparr>) = active_config g"
  "active_config (g\<lparr>gm_is_running := r\<rparr>) = active_config g" "active_config (g\<lparr>gm_has_won := v\<rparr>) = active_config g"
  by (simp_all add: active_config_def)

section \<open>Revealing floods a region\<close>

text \<open>The board with exactly the tiles of a set revealed.\<close>

definition with_revealed :: "nat set \<Rightarrow> tile list \<Rightarrow> tile list" where
  "with_revealed A b = map (\<lambda>k. (b ! k)\<lparr>tl_is_revealed := k \<in> A\<rparr>) [0..<length b]"

definition revealed_tiles :: "tile list \<Rightarrow> nat set" where
  "revealed_tiles b = {k. k < length b \<and> tl_is_revealed (b ! k)}"

definition open_tile :: "tile list \<Rightarrow> nat \<Rightarrow> bool" where
  "open_tile b k \<longleftrightarrow> \<not> tl_is_bomb (b ! k) \<and> \<not> tl_is_marked (b ! k)"

text \<open>The region of \<open>i\<close>: tiles reached from \<open>i\<close> by steps from a tile with count 0 to a neighbour that
  is neither a bomb nor marked, through tiles that are not revealed (\<open>A\<close>).\<close>

inductive reach :: "game_config \<Rightarrow> tile list \<Rightarrow> nat set \<Rightarrow> nat \<Rightarrow> nat \<Rightarrow> bool" for c b A i where
  start: "i \<notin> A \<Longrightarrow> reach c b A i i"
| step: "reach c b A i j \<Longrightarrow> tl_bomb_count (b ! j) < 1 \<Longrightarrow> k \<in> set (nbrs c j) \<Longrightarrow> open_tile b k \<Longrightarrow> k \<notin> A \<Longrightarrow>
    reach c b A i k"

definition region :: "game_config \<Rightarrow> tile list \<Rightarrow> nat set \<Rightarrow> nat \<Rightarrow> nat set" where
  "region c b A i = {k. reach c b A i k}"

lemma length_with_revealed [simp]: "length (with_revealed A b) = length b"
  by (simp add: with_revealed_def)

lemma nth_with_revealed: "k < length b \<Longrightarrow> with_revealed A b ! k = (b ! k)\<lparr>tl_is_revealed := k \<in> A\<rparr>"
  by (simp add: with_revealed_def)

lemma with_revealed_self: "with_revealed (revealed_tiles b) b = b"
  by (rule nth_equalityI) (auto simp: nth_with_revealed revealed_tiles_def)

lemma with_revealed_insert:
  "i < length b \<Longrightarrow> (with_revealed A b)[i := (with_revealed A b ! i)\<lparr>tl_is_revealed := True\<rparr>] = with_revealed (insert i A) b"
  by (rule nth_equalityI) (auto simp: nth_with_revealed nth_list_update)

lemma board_of_with_revealed:
  "board_of c b g \<Longrightarrow> board_of c (with_revealed A b) (g\<lparr>gm_game_board := Some (with_revealed A b)\<rparr>)"
  by (simp add: board_of_def nth_with_revealed)

lemma reach_not_in: "reach c b A i k \<Longrightarrow> k \<notin> A"
  by (induction rule: reach.induct) auto

lemma reach_start: "reach c b A i k \<Longrightarrow> i \<notin> A"
  by (induction rule: reach.induct) auto

lemma reach_trans: "reach c b A j k \<Longrightarrow> reach c b A i j \<Longrightarrow> reach c b A i k"
  by (induction rule: reach.induct) (auto intro: reach.step)

lemma reach_mono: "reach c b A' i k \<Longrightarrow> A \<subseteq> A' \<Longrightarrow> reach c b A i k"
  by (induction rule: reach.induct) (auto intro: reach.intros)

text \<open>The first step of the depth-first search.\<close>

lemma region_unfold:
  assumes "i \<notin> A" "tl_bomb_count (b ! i) < 1"
  shows "insert i A \<union> (\<Union>j \<in> {j \<in> set (nbrs c i). open_tile b j}. region c b (insert i A) j) = A \<union> region c b A i"
proof -
  have "k = i \<or> (\<exists>j \<in> set (nbrs c i). open_tile b j \<and> reach c b (insert i A) j k)" if "reach c b A i k" for k
    using that
  proof (induction rule: reach.induct)
    case (step j k)
    show ?case
    proof (cases "k = i")
      case False
      from step.IH show ?thesis
      proof
        assume "j = i"
        then show ?thesis using step.hyps False by (auto intro: reach.start)
      next
        assume "\<exists>n \<in> set (nbrs c i). open_tile b n \<and> reach c b (insert i A) n j"
        then show ?thesis using step.hyps False by (auto intro: reach.step)
      qed
    qed simp
  qed simp
  moreover have "reach c b A i k" if "j \<in> set (nbrs c i)" "open_tile b j" "reach c b (insert i A) j k" for j k
  proof -
    have "j \<notin> A" using reach_start [OF that(3)] by simp
    then have "reach c b A i j" using assms that by (auto intro: reach.intros)
    moreover have "reach c b A j k" using that(3) by (rule reach_mono) auto
    ultimately show ?thesis by (rule reach_trans [rotated])
  qed
  ultimately show ?thesis using reach.start [OF assms(1), of c b] unfolding region_def by blast
qed

lemma region_leaf: "tl_bomb_count (b ! i) \<ge> 1 \<Longrightarrow> i \<notin> A \<Longrightarrow> region c b A i = {i}"
proof -
  assume a: "tl_bomb_count (b ! i) \<ge> 1" "i \<notin> A"
  have "k = i" if "reach c b A i k" for k
    using that by (induction rule: reach.induct) (use a in auto)
  then show ?thesis using a reach.start by (auto simp: region_def)
qed

lemma region_blocked: "i \<in> A \<Longrightarrow> region c b A i = {}"
  by (auto simp: region_def dest: reach_start)

text \<open>After the region of \<open>j\<close> has been revealed, the rest of a region is what it adds.\<close>

lemma region_after: "A \<union> region c b A j \<union> region c b (A \<union> region c b A j) i = A \<union> region c b A j \<union> region c b A i"
proof -
  have "k \<in> region c b A j \<or> reach c b (A \<union> region c b A j) i k" if "reach c b A i k" for k
    using that
  proof (induction rule: reach.induct)
    case start
    then show ?case by (auto intro: reach.start)
  next
    case (step m k)
    show ?case
    proof (cases "m \<in> region c b A j")
      case True
      then have "reach c b A j k" using step.hyps unfolding region_def by (auto intro: reach.step)
      then show ?thesis by (simp add: region_def)
    next
      case False
      then show ?thesis using step by (cases "k \<in> region c b A j") (auto intro: reach.step)
    qed
  qed
  moreover have "reach c b A i k" if "reach c b (A \<union> region c b A j) i k" for k
    using that by (rule reach_mono) auto
  ultimately show ?thesis unfolding region_def by blast
qed

lemma region_after_all:
  "A \<union> region c b A j \<union> (\<Union>i \<in> S. region c b (A \<union> region c b A j) i) = A \<union> region c b A j \<union> (\<Union>i \<in> S. region c b A i)"
  using region_after [of A c b j] by blast

abbreviation with_board :: "game \<Rightarrow> tile list \<Rightarrow> game" where
  "with_board g b \<equiv> g\<lparr>gm_game_board := Some b\<rparr>"

lemma upd_reveal:
  assumes "board_of c b g0" "i < length b"
  shows "upd_tile i (\<lambda>t. t\<lparr>tl_is_revealed := True\<rparr>) (with_board g0 (with_revealed A b)) =
    Some (with_board g0 (with_revealed (insert i A) b))"
  using board_of_upd [OF board_of_with_revealed [OF assms(1), of A], of i] assms(2)
  by (simp add: with_revealed_insert [symmetric])

lemma reveal_flood:
  shows "g = with_board g0 (with_revealed A b) \<Longrightarrow> board_of c b g0 \<Longrightarrow> i < length b \<Longrightarrow> open_tile b i \<Longrightarrow>
      tile_reveal i g = Some (with_board g0 (with_revealed (A \<union> region c b A i) b))"
    and "g = with_board g0 (with_revealed A b) \<Longrightarrow> board_of c b g0 \<Longrightarrow> \<forall>j \<in> set js. j < length b \<Longrightarrow>
      reveal_neighbours js g =
        Some (with_board g0 (with_revealed (A \<union> (\<Union>j \<in> {j \<in> set js. open_tile b j}. region c b A j)) b))"
proof (induction i g and js g arbitrary: A and A rule: tile_reveal_reveal_neighbours.induct)
  case (1 i g)
  note b = 1(3) and lt = 1(4) and op = 1(5)
  have t: "tile_at g i = Some ((b ! i)\<lparr>tl_is_revealed := i \<in> A\<rparr>)"
    using board_of_tile [OF board_of_with_revealed [OF b, of A], of i] lt by (simp add: 1(2) nth_with_revealed)
  show ?case
  proof (cases "i \<in> A")
    case True
    then show ?thesis using t by (simp add: tile_reveal.simps 1(2) region_blocked)
  next
    case False
    let ?g1 = "with_board g0 (with_revealed (insert i A) b)"
    have u: "upd_tile i (\<lambda>t. t\<lparr>tl_is_revealed := True\<rparr>) g = Some ?g1"
      using upd_reveal [OF b lt] by (simp add: 1(2))
    show ?thesis
    proof (cases "tl_bomb_count (b ! i) \<ge> 1")
      case True
      then show ?thesis using t u False op region_leaf [OF True False, of c]
        by (simp add: tile_reveal.simps open_tile_def)
    next
      case zero: False
      have ns: "neighbours ?g1 i = Some (nbrs c i)"
        using board_of_neighbours [OF board_of_with_revealed [OF b], of i "insert i A"] lt by simp
      have "\<forall>j \<in> set (nbrs c i). j < length b" using nbrs_in_board b by (auto simp: board_of_def)
      then have "reveal_neighbours (nbrs c i) ?g1 = Some (with_board g0 (with_revealed
          (insert i A \<union> (\<Union>j \<in> {j \<in> set (nbrs c i). open_tile b j}. region c b (insert i A) j)) b))"
        using 1(1) [OF t _ u _ _ ns refl b] False op zero by (simp add: open_tile_def)
      then show ?thesis using t u ns False op zero region_unfold [OF False, of b c]
        by (simp add: tile_reveal.simps open_tile_def)
    qed
  qed
next
  case (2 g)
  then show ?case by simp
next
  case (3 j js g)
  note b = 3(4) and lt = 3(5)
  have jl: "j < length b" using lt by simp
  have t: "tile_at g j = Some ((b ! j)\<lparr>tl_is_revealed := j \<in> A\<rparr>)"
    using board_of_tile [OF board_of_with_revealed [OF b, of A], of j] jl by (simp add: 3(3) nth_with_revealed)
  show ?case
  proof (cases "open_tile b j")
    case True
    let ?A = "A \<union> region c b A j"
    have r: "tile_reveal j g = Some (with_board g0 (with_revealed ?A b))"
      using 3(1) [OF t _ 3(3) b jl True] True by (simp add: open_tile_def)
    have "reveal_neighbours js (with_board g0 (with_revealed ?A b)) =
        Some (with_board g0 (with_revealed (?A \<union> (\<Union>j \<in> {j \<in> set js. open_tile b j}. region c b ?A j)) b))"
      using 3(2) [OF t _ refl b] True r lt by (simp add: open_tile_def)
    moreover have "{i \<in> set (j # js). open_tile b i} = insert j {i \<in> set js. open_tile b i}" using True by auto
    ultimately show ?thesis using t r True region_after_all [of A c b j "{i \<in> set js. open_tile b i}"]
      by (simp add: open_tile_def Un_assoc)
  next
    case False
    then have "{i \<in> set (j # js). open_tile b i} = {i \<in> set js. open_tile b i}" by auto
    moreover have c: "\<not> (\<not> tl_is_bomb (b ! j) \<and> \<not> tl_is_marked (b ! j))" using False by (simp add: open_tile_def)
    moreover have "reveal_neighbours js g =
        Some (with_board g0 (with_revealed (A \<union> (\<Union>j \<in> {j \<in> set js. open_tile b j}. region c b A j)) b))"
      using 3(2) [OF t _ 3(3) b] c lt by fastforce
    ultimately show ?thesis using t by auto
  qed
qed

section \<open>The end of a game\<close>

text \<open>A loop over the board whose body changes only the tile it is at.\<close>

lemma set_board_indices: "set (board_indices c) = {..< gc_width c * gc_height c}"
proof -
  have "i \<in> set (board_indices c)" if "i < gc_width c * gc_height c" for i
  proof -
    have "0 < gc_width c" using that by (metis gr_zeroI mult_0 not_less_zero)
    moreover have "i div gc_width c < gc_height c" using that by (simp add: less_mult_imp_div_less mult.commute)
    moreover have "i = i mod gc_width c + gc_width c * (i div gc_width c)" by simp
    ultimately show ?thesis unfolding board_indices_def set_concat set_map set_upt
      by (metis (no_types, lifting) UN_I atLeastLessThan_iff image_eqI image_image le0 mod_less_divisor list.set_map set_upt)
  qed
  then show ?thesis using index_in_board by (auto simp: board_indices_def)
qed

lemma distinct_board_indices: "distinct (board_indices c)"
proof (rule card_distinct)
  have "length (board_indices c) = gc_width c * gc_height c"
    by (simp add: board_indices_def length_concat o_def sum_list_triv)
  then show "card (set (board_indices c)) = length (board_indices c)" by (simp add: set_board_indices)
qed

lemma each_board:
  assumes "\<And>i b'. i < length b \<Longrightarrow> length b' = length b \<Longrightarrow> b' ! i = b ! i \<Longrightarrow>
      \<forall>k < length b. b' ! k = b ! k \<or> b' ! k = f k (b ! k) \<Longrightarrow> body i (with_board g b') = Some (with_board g (b'[i := f i (b ! i)]))"
    and "distinct is" "\<forall>i \<in> set is. i < length b"
  shows "each body is (with_board g b) = Some (with_board g (map (\<lambda>k. if k \<in> set is then f k (b ! k) else b ! k) [0..<length b]))"
proof -
  have "each body is (with_board g b') = Some (with_board g (map (\<lambda>k. if k \<in> set is then f k (b ! k) else b' ! k) [0..<length b]))"
    if "length b' = length b" "\<forall>i \<in> set is. b' ! i = b ! i" "\<forall>k < length b. b' ! k = b ! k \<or> b' ! k = f k (b ! k)" for b'
    using that assms(2,3)
  proof (induction "is" arbitrary: b')
    case Nil
    then have "map ((!) b') [0..<length b] = b'" by (metis map_nth)
    then show ?case by simp
  next
    case (Cons i js)
    let ?b = "b'[i := f i (b ! i)]"
    have i: "i < length b" "i \<notin> set js" using Cons.prems by auto
    have "body i (with_board g b') = Some (with_board g ?b)"
      using assms(1) [of i b'] Cons.prems i by simp
    moreover have "each body js (with_board g ?b) =
        Some (with_board g (map (\<lambda>k. if k \<in> set js then f k (b ! k) else ?b ! k) [0..<length b]))"
      using Cons.prems i by (intro Cons.IH) (auto simp: nth_list_update)
    moreover have "map (\<lambda>k. if k \<in> set js then f k (b ! k) else ?b ! k) [0..<length b] =
        map (\<lambda>k. if k \<in> set (i # js) then f k (b ! k) else b' ! k) [0..<length b]"
      using i Cons.prems(1) by (auto simp: nth_list_update)
    ultimately show ?case by simp
  qed
  from this [of b] show ?thesis by simp
qed

definition end_board :: "tile list \<Rightarrow> tile list" where
  "end_board b = map (\<lambda>k. if tl_is_bomb (b ! k) \<and> \<not> tl_is_marked (b ! k)
     then (b ! k)\<lparr>tl_is_revealed := True\<rparr> else b ! k) [0..<length b]"

lemma length_end_board [simp]: "length (end_board b) = length b"
  by (simp add: end_board_def)

lemma nth_end_board: "k < length b \<Longrightarrow> end_board b ! k =
    (if tl_is_bomb (b ! k) \<and> \<not> tl_is_marked (b ! k) then (b ! k)\<lparr>tl_is_revealed := True\<rparr> else b ! k)"
  by (simp add: end_board_def)

lemma board_of_index: "board_of c b g \<Longrightarrow> set (board_indices c) = {..< length b}"
  by (simp add: board_of_def set_board_indices)

lemma board_of_flags [simp]:
  "board_of c b (g\<lparr>gm_is_running := r\<rparr>) = board_of c b g" "board_of c b (g\<lparr>gm_has_won := v\<rparr>) = board_of c b g"
  by (simp_all add: board_of_def)

text \<open>Boards that differ only in what play changes.\<close>

lemma board_of_map:
  "board_of c b g \<Longrightarrow> length b' = length b \<Longrightarrow> (\<And>k. k < length b \<Longrightarrow> tl_x (b' ! k) = tl_x (b ! k) \<and> tl_y (b' ! k) = tl_y (b ! k)) \<Longrightarrow>
   board_of c b' (with_board g b')"
  by (simp add: board_of_def)

lemma list_update_self: "b' ! i = x \<Longrightarrow> b'[i := x] = b'"
  by auto

lemma end_game_eq:
  assumes "board_of c b g"
  shows "minesweeper_end_game won g =
    Some (g\<lparr>gm_is_running := False, gm_has_won := won, gm_game_board := Some (end_board b)\<rparr>)"
proof -
  let ?g = "g\<lparr>gm_is_running := False, gm_has_won := won\<rparr>"
  let ?f = "\<lambda>k t. if tl_is_bomb t \<and> \<not> tl_is_marked t then t\<lparr>tl_is_revealed := True\<rparr> else t"
  have g: "with_board ?g b = ?g" using assms by (simp add: board_of_def)
  have "each (\<lambda>i g. do {
         t \<leftarrow> tile_at g i;
         if tl_is_bomb t \<and> \<not> tl_is_marked t then upd_tile i (\<lambda>t. t\<lparr>tl_is_revealed := True\<rparr>) g else Some g })
      (board_indices c) (with_board ?g b) =
    Some (with_board ?g (map (\<lambda>k. if k \<in> set (board_indices c) then ?f k (b ! k) else b ! k) [0..<length b]))"
    by (rule each_board) (use board_of_index [OF assms] distinct_board_indices in
        \<open>auto simp: tile_at_def upd_tile_def list_update_self\<close>)
  moreover have "map (\<lambda>k. if k \<in> set (board_indices c) then ?f k (b ! k) else b ! k) [0..<length b] = end_board b"
    using board_of_index [OF assms] by (simp add: end_board_def)
  ultimately show ?thesis
    using assms unfolding minesweeper_end_game_def loop_game_board_def g by (simp add: board_of_def)
qed

text \<open>
  Revealing a tile of a board: nothing happens to a tile that is revealed or marked; a bomb ends
  the game as lost and shows the bombs that are not marked; any other tile is revealed together with
  exactly the region that is connected to it through tiles without a bomb next to them, and nothing
  else changes. The recursion ends and stays on the board.
\<close>

lemma tile_reveal_eq:
  assumes "board_of c b g" "i < length b"
  shows "tile_reveal i g = Some
    (if tl_is_revealed (b ! i) \<or> tl_is_marked (b ! i) then g
     else if tl_is_bomb (b ! i)
     then g\<lparr>gm_is_running := False, gm_has_won := False,
            gm_game_board := Some (end_board (b[i := (b ! i)\<lparr>tl_is_revealed := True\<rparr>]))\<rparr>
     else g\<lparr>gm_game_board := Some (with_revealed (revealed_tiles b \<union> region c b (revealed_tiles b) i) b)\<rparr>)"
proof -
  let ?R = "revealed_tiles b"
  have g: "g = with_board g (with_revealed ?R b)"
    using assms(1) by (simp add: with_revealed_self board_of_def)
  have t: "tile_at g i = Some (b ! i)" using board_of_tile [OF assms] .
  show ?thesis
  proof (cases "tl_is_revealed (b ! i) \<or> tl_is_marked (b ! i)")
    case True
    then show ?thesis using t by (simp add: tile_reveal.simps)
  next
    case False
    show ?thesis
    proof (cases "tl_is_bomb (b ! i)")
      case True
      let ?b = "b[i := (b ! i)\<lparr>tl_is_revealed := True\<rparr>]"
      have u: "upd_tile i (\<lambda>t. t\<lparr>tl_is_revealed := True\<rparr>) g = Some (with_board g ?b)"
        using board_of_upd [OF assms] by simp
      have "board_of c ?b (with_board g ?b)"
        using assms by (intro board_of_map [OF assms(1)]) (auto simp: nth_list_update)
      from end_game_eq [OF this, of False] show ?thesis
        using t u False True by (simp add: tile_reveal.simps)
    next
      case nb: False
      then have "tile_reveal i g = Some (with_board g (with_revealed (?R \<union> region c b ?R i) b))"
        using reveal_flood(1) [OF g assms] False by (simp add: open_tile_def)
      then show ?thesis using nb False by simp
    qed
  qed
qed

section \<open>New boards\<close>

definition set_bombs :: "nat set \<Rightarrow> tile list \<Rightarrow> tile list" where
  "set_bombs S b = map (\<lambda>k. if k \<in> S then (b ! k)\<lparr>tl_is_bomb := True\<rparr> else b ! k) [0..<length b]"

text \<open>A board with bombs at \<open>S\<close> before the first click.\<close>

definition fresh_board :: "game_config \<Rightarrow> nat set \<Rightarrow> tile list" where
  "fresh_board c S = map (\<lambda>k. (blank_tile c k)\<lparr>tl_is_bomb := k \<in> S,
     tl_bomb_count := (if k \<in> S then 0 else int (length (filter (\<lambda>j. j \<in> S) (nbrs c k))))\<rparr>) [0..<gc_width c * gc_height c]"

definition pos_index :: "game_config \<Rightarrow> nat \<times> nat \<Rightarrow> nat" where
  "pos_index c p = fst p + gc_width c * snd p"

lemma set_bombs_insert:
  "e < length b \<Longrightarrow> set_bombs S (b[e := (b ! e)\<lparr>tl_is_bomb := True\<rparr>]) = set_bombs (insert e S) b"
  by (rule nth_equalityI) (auto simp: set_bombs_def nth_list_update)

text \<open>Choosing without repetition: the last position takes the place of the chosen one.\<close>

lemma place_bombs_eq:
  assumes "board_of c b g" "n \<le> cnt" "cnt \<le> length ps"
    "\<forall>k < cnt. pos_index c (ps ! k) < length b" "inj_on (\<lambda>k. pos_index c (ps ! k)) {..<cnt}"
  shows "\<exists>S seed'. place_bombs c n cnt ps (with_board g b) seed = Some (with_board g (set_bombs S b), seed') \<and>
    card S = n \<and> finite S \<and> S \<subseteq> (\<lambda>k. pos_index c (ps ! k)) ` {..<cnt}"
  using assms
proof (induction n arbitrary: cnt ps b g seed)
  case 0
  have "set_bombs {} b = b" by (rule nth_equalityI) (simp_all add: set_bombs_def)
  then show ?case by (intro exI [of _ "{}"] exI [of _ seed]) simp
next
  case (Suc n)
  obtain r seed1 where r: "random_number seed = (r, seed1)" by fastforce
  define i where "i = unat r mod cnt"
  define e where "e = pos_index c (ps ! i)"
  define m where "m = cnt - 1"
  let ?ps = "ps[i := ps ! m]"
  let ?b = "b[e := (b ! e)\<lparr>tl_is_bomb := True\<rparr>]"
  let ?\<sigma> = "\<lambda>j. if j = i then m else j"
  have i: "i < cnt" "0 < cnt" "m < cnt" "n \<le> m" using Suc.prems(2) by (simp_all add: i_def m_def)
  have e: "e < length b" using Suc.prems(4) i by (simp add: e_def)
  have at: "pos_index c (?ps ! j) = pos_index c (ps ! ?\<sigma> j)" if "j < m" for j
    using that i Suc.prems(3) by (simp add: nth_list_update)
  have sig: "?\<sigma> j < cnt \<and> ?\<sigma> j \<noteq> i" if "j < m" for j using that i unfolding m_def by auto
  have inj: "inj_on (\<lambda>k. pos_index c (?ps ! k)) {..<m}"
  proof (rule inj_onI)
    fix j k assume jk: "j \<in> {..<m}" "k \<in> {..<m}" "pos_index c (?ps ! j) = pos_index c (?ps ! k)"
    then have "pos_index c (ps ! ?\<sigma> j) = pos_index c (ps ! ?\<sigma> k)" using at by simp
    then have "?\<sigma> j = ?\<sigma> k" using inj_onD [OF Suc.prems(5), of "?\<sigma> j" "?\<sigma> k"] sig jk(1,2) by simp
    then show "j = k" using jk(1,2) by (auto split: if_splits)
  qed
  have b: "board_of c ?b (with_board g ?b)"
    by (rule board_of_map [OF Suc.prems(1)]) (use e in \<open>auto simp: nth_list_update\<close>)
  have "board_of c ?b (with_board g ?b) \<and> (\<forall>k < m. pos_index c (?ps ! k) < length ?b)"
    using b at sig Suc.prems(4) by simp
  then obtain S seed' where S: "place_bombs c n m ?ps (with_board (with_board g ?b) ?b) seed1 =
      Some (with_board (with_board g ?b) (set_bombs S ?b), seed')"
    "card S = n" "finite S" "S \<subseteq> (\<lambda>k. pos_index c (?ps ! k)) ` {..<m}"
    using Suc.IH [where b = ?b and g = "with_board g ?b" and cnt = m and ps = ?ps and seed = seed1] inj i Suc.prems(3) by auto
  have "e \<notin> S"
  proof
    assume "e \<in> S"
    then obtain j where "j < m" "e = pos_index c (ps ! ?\<sigma> j)" using S(4) at by auto
    then show False using inj_onD [OF Suc.prems(5), of i "?\<sigma> j"] sig [of j] i by (simp add: e_def)
  qed
  moreover have "S \<subseteq> (\<lambda>k. pos_index c (ps ! k)) ` {..<cnt}"
  proof
    fix x assume "x \<in> S"
    then obtain j where "j < m" "x = pos_index c (ps ! ?\<sigma> j)" using S(4) at by auto
    then show "x \<in> (\<lambda>k. pos_index c (ps ! k)) ` {..<cnt}" using sig [of j] by blast
  qed
  moreover have "place_bombs c (Suc n) cnt ps (with_board g b) seed = Some (with_board g (set_bombs (insert e S) b), seed')"
  proof -
    have "upd_tile (fst (ps ! i) + gc_width c * snd (ps ! i)) (\<lambda>t. t\<lparr>tl_is_bomb := True\<rparr>) (with_board g b) = Some (with_board g ?b)"
      using e by (simp add: upd_tile_def e_def pos_index_def)
    moreover have "cnt - Suc 0 = m" by (simp add: m_def)
    ultimately show ?thesis using S(1) i r set_bombs_insert [OF e, of S]
      by (simp add: i_def [symmetric] split_beta Let_def)
  qed
  moreover have "e \<in> (\<lambda>k. pos_index c (ps ! k)) ` {..<cnt}" using i by (auto simp: e_def)
  ultimately show ?case using S(2,3) by (intro exI [of _ "insert e S"] exI [of _ seed']) simp
qed

text \<open>Counting the bombs around one tile.\<close>

lemma count_around:
  assumes "i < length b" "\<forall>j \<in> set js. j < length b"
  shows "each (\<lambda>j g. do { t \<leftarrow> tile_at g j;
      if tl_is_bomb t then upd_tile i (\<lambda>t. t\<lparr>tl_bomb_count := tl_bomb_count t + 1\<rparr>) g else Some g }) js (with_board g b) =
    Some (with_board g (b[i := (b ! i)\<lparr>tl_bomb_count := tl_bomb_count (b ! i) + int (length (filter (\<lambda>j. tl_is_bomb (b ! j)) js))\<rparr>]))"
  using assms
proof (induction js arbitrary: b)
  case Nil
  then show ?case by simp
next
  case (Cons j js)
  show ?case
  proof (cases "tl_is_bomb (b ! j)")
    case True
    let ?b = "b[i := (b ! i)\<lparr>tl_bomb_count := tl_bomb_count (b ! i) + 1\<rparr>]"
    have "tl_is_bomb (?b ! k) = tl_is_bomb (b ! k)" for k
      using Cons.prems(1) by (cases "k = i") simp_all
    then show ?thesis using Cons.IH [of ?b] Cons.prems True
      by (simp add: tile_at_def upd_tile_def add.assoc)
  next
    case False
    then show ?thesis using Cons by (simp add: tile_at_def)
  qed
qed

definition counted_board :: "game_config \<Rightarrow> tile list \<Rightarrow> tile list" where
  "counted_board c b = map (\<lambda>k. if tl_is_bomb (b ! k) then b ! k
     else (b ! k)\<lparr>tl_bomb_count := tl_bomb_count (b ! k) + int (length (filter (\<lambda>j. tl_is_bomb (b ! j)) (nbrs c k)))\<rparr>) [0..<length b]"

lemma count_bombs_eq:
  assumes "board_of c b g"
  shows "count_bombs g = Some (with_board g (counted_board c b))"
proof -
  let ?f = "\<lambda>k t. if tl_is_bomb t then t
     else t\<lparr>tl_bomb_count := tl_bomb_count t + int (length (filter (\<lambda>j. tl_is_bomb (b ! j)) (nbrs c k)))\<rparr>"
  let ?body = "\<lambda>i g. do { t \<leftarrow> tile_at g i;
       if tl_is_bomb t then Some g
       else loop_neighbour_tiles i (\<lambda>j i g. do {
              t \<leftarrow> tile_at g j;
              if tl_is_bomb t then upd_tile i (\<lambda>t. t\<lparr>tl_bomb_count := tl_bomb_count t + 1\<rparr>) g else Some g }) g }"
  have g: "with_board g b = g" using assms by (simp add: board_of_def)
  have body: "?body i (with_board g b') = Some (with_board g (b'[i := ?f i (b ! i)]))"
    if h: "i < length b" "length b' = length b" "b' ! i = b ! i" "\<forall>k < length b. b' ! k = b ! k \<or> b' ! k = ?f k (b ! k)" for i b'
  proof (cases "tl_is_bomb (b ! i)")
    case True
    then show ?thesis using h by (simp add: tile_at_def list_update_self)
  next
    case False
    have "tl_x (b' ! k) = tl_x (b ! k) \<and> tl_y (b' ! k) = tl_y (b ! k)" if "k < length b" for k
      using h(4) that by fastforce
    then have b': "board_of c b' (with_board g b')" by (rule board_of_map [OF assms h(2)])
    have n: "neighbours (with_board g b') i = Some (nbrs c i)"
      using board_of_neighbours [OF b'] h(1,2) by simp
    have js: "\<forall>j \<in> set (nbrs c i). j < length b'" using nbrs_in_board assms h(2) by (auto simp: board_of_def)
    have "filter (\<lambda>j. tl_is_bomb (b' ! j)) (nbrs c i) = filter (\<lambda>j. tl_is_bomb (b ! j)) (nbrs c i)"
    proof (rule filter_cong)
      fix j assume "j \<in> set (nbrs c i)"
      then have "b' ! j = b ! j \<or> b' ! j = ?f j (b ! j)" using h(2,4) js by simp
      then show "tl_is_bomb (b' ! j) = tl_is_bomb (b ! j)" by (auto split: if_splits)
    qed simp
    then show ?thesis using count_around [of i b', OF _ js] h(1-3) False n
      by (simp add: tile_at_def loop_neighbour_tiles_def)
  qed
  have "each ?body (board_indices c) (with_board g b) =
    Some (with_board g (map (\<lambda>k. if k \<in> set (board_indices c) then ?f k (b ! k) else b ! k) [0..<length b]))"
  proof (rule each_board)
    fix i b' assume "i < length b" "length b' = length b" "b' ! i = b ! i" "\<forall>k < length b. b' ! k = b ! k \<or> b' ! k = ?f k (b ! k)"
    then show "?body i (with_board g b') = Some (with_board g (b'[i := ?f i (b ! i)]))" by (rule body)
  qed (use board_of_index [OF assms] distinct_board_indices in auto)
  moreover have "map (\<lambda>k. if k \<in> set (board_indices c) then ?f k (b ! k) else b ! k) [0..<length b] = counted_board c b"
    using board_of_index [OF assms] by (simp add: counted_board_def)
  ultimately show ?thesis
    using assms unfolding count_bombs_def loop_game_board_def g by (simp add: board_of_def)
qed

lemma config_bound: "active_config g = Some c \<Longrightarrow>
    0 < gc_width c \<and> gc_width c \<le> 30 \<and> gc_height c \<le> 16 \<and> 0 < gc_bomb_count c \<and> gc_bomb_count c < gc_width c * gc_height c"
  by (auto simp: active_config_def game_configs_def less_Suc_eq numeral_3_eq_3 split: if_splits)

text \<open>
  A new board, for every state of the random number generator: creating it succeeds on a game
  without a board, the board has exactly the configuration's number of bombs, every other tile knows
  how many of its neighbours are bombs, and nothing is revealed or marked.
\<close>

lemma game_board_create_fresh:
  assumes "active_config g = Some c" "gm_game_board g = None"
  shows "\<exists>S seed'. game_board_create True g seed =
      Some ((True, g\<lparr>gm_game_board := Some (fresh_board c S), gm_is_running := False\<rparr>), seed') \<and>
    S \<subseteq> {..< gc_width c * gc_height c} \<and> card S = gc_bomb_count c"
proof -
  let ?n = "gc_height c * gc_width c"
  let ?ps = "map (\<lambda>i. (i mod gc_width c, i div gc_width c)) [0..<?n]"
  let ?b = "map (blank_tile c) [0..<?n]"
  have at: "pos_index c (?ps ! k) = k" if "k < ?n" for k
    using that by (simp add: pos_index_def)
  have b: "board_of c ?b (with_board g ?b)"
    using assms(1) by (simp add: board_of_def blank_tile_def mult.commute)
  have "inj_on (\<lambda>k. pos_index c (?ps ! k)) {..<?n}" using at by (intro inj_onI) simp
  then obtain S seed' where S: "place_bombs c (gc_bomb_count c) ?n ?ps (with_board (with_board g ?b) ?b) seed =
      Some (with_board (with_board g ?b) (set_bombs S ?b), seed')"
    "card S = gc_bomb_count c" "S \<subseteq> (\<lambda>k. pos_index c (?ps ! k)) ` {..<?n}"
    using place_bombs_eq [OF b, of "gc_bomb_count c" ?n ?ps seed] at config_bound [OF assms(1)]
    by (auto simp: mult.commute)
  have sub: "S \<subseteq> {..<?n}" using S(3) at by auto
  let ?b1 = "set_bombs S ?b"
  have b1: "board_of c ?b1 (with_board g ?b1)"
    by (rule board_of_map [OF b, simplified]) (auto simp: set_bombs_def)
  have eq: "counted_board c ?b1 = fresh_board c S"
  proof (rule nth_equalityI)
    fix k assume "k < length (counted_board c ?b1)"
    then have k: "k < ?n" by (simp add: counted_board_def set_bombs_def)
    have bomb: "tl_is_bomb (?b1 ! j) \<longleftrightarrow> j \<in> S" if "j < ?n" for j
      using that by (simp add: set_bombs_def blank_tile_def)
    have "filter (\<lambda>j. tl_is_bomb (?b1 ! j)) (nbrs c k) = filter (\<lambda>j. j \<in> S) (nbrs c k)"
    proof (rule filter_cong)
      fix j assume "j \<in> set (nbrs c k)"
      then show "tl_is_bomb (?b1 ! j) = (j \<in> S)" using bomb nbrs_in_board [of j c k] by (simp add: mult.commute)
    qed simp
    moreover have "?b1 ! k = (blank_tile c k)\<lparr>tl_is_bomb := k \<in> S\<rparr>" using k by (simp add: set_bombs_def blank_tile_def)
    ultimately show "counted_board c ?b1 ! k = fresh_board c S ! k"
      using k by (simp add: counted_board_def fresh_board_def set_bombs_def blank_tile_def mult.commute)
  qed (simp add: counted_board_def set_bombs_def fresh_board_def mult.commute)
  have "game_board_create True g seed =
      Some ((True, g\<lparr>gm_game_board := Some (fresh_board c S), gm_is_running := False\<rparr>), seed')"
    using assms S(1) count_bombs_eq [OF b1] by (simp add: game_board_create_def Let_def eq)
  then show ?thesis using sub S(2) by (auto simp: mult.commute)
qed

section \<open>Play\<close>

text \<open>What marking, clicking and peeking leave alone.\<close>

definition core :: "tile \<Rightarrow> int \<times> int \<times> bool \<times> int \<times> bool" where
  "core t = (tl_x t, tl_y t, tl_is_bomb t, tl_bomb_count t, tl_is_revealed t)"

definition same_core :: "game \<Rightarrow> tile list \<Rightarrow> game \<Rightarrow> bool" where
  "same_core g b g' \<longleftrightarrow> (\<exists>b'. g' = with_board g b' \<and> map core b' = map core b)"

lemma core_nth: "map core b' = map core b \<Longrightarrow> k < length b \<Longrightarrow> core (b' ! k) = core (b ! k) \<and> length b' = length b"
  by (metis length_map nth_map)

lemma board_of_core: "board_of c b g \<Longrightarrow> map core b' = map core b \<Longrightarrow> board_of c b' (with_board g b')"
  by (rule board_of_map [of c b g b']) (auto dest: core_nth map_eq_imp_length_eq simp: core_def)

lemma each_total:
  assumes "P s" "\<And>x s. x \<in> set xs \<Longrightarrow> P s \<Longrightarrow> \<exists>s'. f x s = Some s' \<and> P s'"
  shows "\<exists>s'. each f xs s = Some s' \<and> P s'"
  using assms
proof (induction xs arbitrary: s)
  case (Cons x xs)
  then obtain s1 where "f x s = Some s1" "P s1" by (meson list.set_intros(1))
  then show ?case using Cons by simp
qed simp

lemma upd_same_core:
  assumes "same_core g b g1" "i < length b" "\<And>t. core (f t) = core t"
  shows "\<exists>g2. upd_tile i f g1 = Some g2 \<and> same_core g b g2"
proof -
  obtain b' where b': "g1 = with_board g b'" "map core b' = map core b" using assms(1) by (auto simp: same_core_def)
  then have "i < length b'" using assms(2) by (metis length_map)
  moreover have "map core (b'[i := f (b' ! i)]) = map core b"
    unfolding b'(2) [symmetric] map_update assms(3) by (rule list_update_self) (simp add: \<open>i < length b'\<close>)
  ultimately show ?thesis using b'(1) by (auto simp: upd_tile_def same_core_def)
qed

lemma tile_same_core:
  "same_core g b g1 \<Longrightarrow> i < length b \<Longrightarrow> \<exists>t. tile_at g1 i = Some t \<and> core t = core (b ! i)"
  by (auto simp: same_core_def tile_at_def dest: core_nth map_eq_imp_length_eq)

lemma neighbours_same_core:
  assumes "board_of c b g" "same_core g b g1" "i < length b"
  shows "neighbours g1 i = Some (nbrs c i)"
proof -
  obtain b' where "g1 = with_board g b'" "map core b' = map core b" using assms(2) by (auto simp: same_core_def)
  then show ?thesis using board_of_neighbours [OF board_of_core [OF assms(1)], of b' i] assms(3)
    by (metis length_map)
qed

lemma config_same_core: "same_core g b g1 \<Longrightarrow> active_config g1 = active_config g"
  by (auto simp: same_core_def)

lemma same_core_self: "board_of c b g \<Longrightarrow> same_core g b g"
  unfolding same_core_def by (rule exI [of _ b]) (simp add: board_of_def)

lemma nbrs_lt: "board_of c b g \<Longrightarrow> j \<in> set (nbrs c i) \<Longrightarrow> j < length b"
  by (simp add: board_of_def nbrs_in_board)

lemma tile_peek_nearby_same:
  assumes "board_of c b g" "i < length b"
  shows "\<exists>g'. tile_peek_nearby i g = Some g' \<and> same_core g b g'"
proof -
  have "\<exists>g'. each (\<lambda>j g. do { t \<leftarrow> tile_at g j;
       if \<not> tl_is_revealed t \<and> \<not> tl_is_marked t then upd_tile j (\<lambda>t. t\<lparr>tl_is_peeking := True\<rparr>) g else Some g }) (nbrs c i) g = Some g'
      \<and> same_core g b g'"
  proof (rule each_total [where P = "same_core g b"], rule same_core_self [OF assms(1)])
    fix j g1 assume "j \<in> set (nbrs c i)" and s: "same_core g b g1"
    then have j: "j < length b" using nbrs_lt [OF assms(1)] by blast
    show "\<exists>g'. do { t \<leftarrow> tile_at g1 j;
       if \<not> tl_is_revealed t \<and> \<not> tl_is_marked t then upd_tile j (\<lambda>t. t\<lparr>tl_is_peeking := True\<rparr>) g1 else Some g1 } = Some g' \<and> same_core g b g'"
      using tile_same_core [OF s j] upd_same_core [OF s j, of "\<lambda>t. t\<lparr>tl_is_peeking := True\<rparr>"] s by (auto simp: core_def)
  qed
  then show ?thesis using board_of_neighbours [OF assms] by (simp add: tile_peek_nearby_def loop_neighbour_tiles_def)
qed

lemma remove_peeking_same:
  assumes "board_of c b g"
  shows "\<exists>g'. remove_peeking g = Some g' \<and> same_core g b g'"
proof -
  let ?inner = "\<lambda>j g. do { t \<leftarrow> tile_at g j;
      if tl_is_peeking t then upd_tile j (\<lambda>t. t\<lparr>tl_is_peeking := False\<rparr>) g else Some g }"
  have inner: "\<exists>g'. each ?inner (nbrs c i) g1 = Some g' \<and> same_core g b g'" if "same_core g b g1" for i g1
  proof (rule each_total [where P = "same_core g b"], rule that)
    fix j g1 assume "j \<in> set (nbrs c i)" and s: "same_core g b g1"
    then have j: "j < length b" using nbrs_lt [OF assms] by blast
    show "\<exists>g'. ?inner j g1 = Some g' \<and> same_core g b g'"
      using tile_same_core [OF s j] upd_same_core [OF s j, of "\<lambda>t. t\<lparr>tl_is_peeking := False\<rparr>"] s by (auto simp: core_def)
  qed
  have "\<exists>g'. each (\<lambda>i g. do { t \<leftarrow> tile_at g i;
       if tl_is_bomb t then Some g
       else loop_neighbour_tiles i (\<lambda>j _ g. ?inner j g) g }) (board_indices c) g = Some g' \<and> same_core g b g'"
  proof (rule each_total [where P = "same_core g b"], rule same_core_self [OF assms])
    fix i g1 assume "i \<in> set (board_indices c)" and s: "same_core g b g1"
    then have i: "i < length b" using board_of_index [OF assms] by simp
    show "\<exists>g'. do { t \<leftarrow> tile_at g1 i; if tl_is_bomb t then Some g1
       else loop_neighbour_tiles i (\<lambda>j _ g. ?inner j g) g1 } = Some g' \<and> same_core g b g'"
      using tile_same_core [OF s i] neighbours_same_core [OF assms s i] inner [OF s, of i] s
      by (auto simp: loop_neighbour_tiles_def)
  qed
  then show ?thesis using assms by (simp add: remove_peeking_def loop_game_board_def board_of_def)
qed

definition bombs :: "tile list \<Rightarrow> nat set" where
  "bombs b = {k. k < length b \<and> tl_is_bomb (b ! k)}"

definition safe_hidden :: "tile list \<Rightarrow> nat set" where
  "safe_hidden b = {k. k < length b \<and> \<not> tl_is_bomb (b ! k) \<and> \<not> tl_is_revealed (b ! k)}"

text \<open>The invariant of play: the right number of bombs, right counts, and while the game runs no bomb
  shows and some safe tile is hidden.\<close>

definition play_board :: "game_config \<Rightarrow> bool \<Rightarrow> tile list \<Rightarrow> bool" where
  "play_board c running b \<longleftrightarrow> card (bombs b) = gc_bomb_count c \<and>
     (\<forall>k < length b. \<not> tl_is_bomb (b ! k) \<longrightarrow>
        tl_bomb_count (b ! k) = int (length (filter (\<lambda>j. tl_is_bomb (b ! j)) (nbrs c k)))) \<and>
     (running \<longrightarrow> (\<forall>k < length b. tl_is_bomb (b ! k) \<longrightarrow> \<not> tl_is_revealed (b ! k)) \<and> safe_hidden b \<noteq> {})"

definition play_inv :: "game_config \<Rightarrow> game \<Rightarrow> bool" where
  "play_inv c g \<longleftrightarrow> (\<exists>b. board_of c b g \<and> play_board c (gm_is_running g) b)"

lemma play_board_bombs:
  assumes "play_board c r b" "board_of c b g" "length b' = length b"
    "\<And>k. k < length b \<Longrightarrow> tl_is_bomb (b' ! k) = tl_is_bomb (b ! k) \<and> tl_bomb_count (b' ! k) = tl_bomb_count (b ! k)"
    "r' \<longrightarrow> (\<forall>k < length b. tl_is_bomb (b ! k) \<longrightarrow> \<not> tl_is_revealed (b' ! k)) \<and> safe_hidden b' \<noteq> {}"
  shows "play_board c r' b'"
proof -
  have "filter (\<lambda>j. tl_is_bomb (b' ! j)) (nbrs c k) = filter (\<lambda>j. tl_is_bomb (b ! j)) (nbrs c k)" for k
    by (rule filter_cong) (use nbrs_lt [OF assms(2)] assms(4) in auto)
  moreover have "bombs b' = bombs b" using assms(3,4) by (auto simp: bombs_def)
  ultimately show ?thesis using assms(1,3-5) by (simp add: play_board_def)
qed

lemma core_fields: "core t = core u \<longleftrightarrow> tl_x t = tl_x u \<and> tl_y t = tl_y u \<and> tl_is_bomb t = tl_is_bomb u \<and>
    tl_bomb_count t = tl_bomb_count u \<and> tl_is_revealed t = tl_is_revealed u"
  by (simp add: core_def)

lemma same_core_sets:
  assumes "map core b' = map core b"
  shows "safe_hidden b' = safe_hidden b" "revealed_tiles b' = revealed_tiles b" "bombs b' = bombs b"
  using core_nth [OF assms] map_eq_imp_length_eq [OF assms]
  by (auto simp: safe_hidden_def revealed_tiles_def bombs_def core_fields)

lemma play_inv_same:
  assumes "board_of c b g" "play_board c (gm_is_running g) b" "same_core g b g'"
  shows "play_inv c g'"
proof -
  obtain b' where b': "g' = with_board g b'" "map core b' = map core b" using assms(3) by (auto simp: same_core_def)
  have r: "tl_is_bomb (b' ! k) = tl_is_bomb (b ! k) \<and> tl_bomb_count (b' ! k) = tl_bomb_count (b ! k)"
    "tl_is_revealed (b' ! k) = tl_is_revealed (b ! k)" if "k < length b" for k
    using core_nth [OF b'(2) that] by (simp_all add: core_fields)
  have "play_board c (gm_is_running g) b'"
    using assms(2) map_eq_imp_length_eq [OF b'(2)] r same_core_sets(1) [OF b'(2)]
    by (intro play_board_bombs [OF assms(2,1)]) (auto simp: play_board_def)
  then show ?thesis using board_of_core [OF assms(1) b'(2)] b'(1) by (auto simp: play_inv_def)
qed

lemma count_unrevealed_eq:
  assumes "board_of c b g"
  shows "count_unrevealed c g = Some (card {k. k < length b \<and> \<not> tl_is_revealed (b ! k)})"
proof -
  have "each (\<lambda>i n. do { t \<leftarrow> tile_at g i; Some (if tl_is_revealed t then n else n + 1) }) js n =
      Some (n + length (filter (\<lambda>k. \<not> tl_is_revealed (b ! k)) js))" if "\<forall>k \<in> set js. k < length b" for js n
    using that by (induction js arbitrary: n) (simp_all add: board_of_tile [OF assms])
  from this [of "[0..<length b]" 0] have "count_unrevealed c g = Some (length (filter (\<lambda>k. \<not> tl_is_revealed (b ! k)) [0..<length b]))"
    using assms by (simp add: count_unrevealed_def board_of_def)
  also have "length (filter (\<lambda>k. \<not> tl_is_revealed (b ! k)) [0..<length b]) = card {k. k < length b \<and> \<not> tl_is_revealed (b ! k)}"
    by (subst distinct_card [symmetric]) (auto intro: arg_cong [of _ _ card])
  finally show ?thesis .
qed

lemma unat_mult_le: "unat (a * b :: 'a::len word) \<le> unat a * unat b"
  by (simp add: unat_word_ariths)

lemma get_tile_from_pos_in:
  assumes "board_of c b g"
  shows "\<exists>r. get_tile_from_pos g x y = Some r \<and> (\<forall>i. r = Some i \<longrightarrow> i < length b)"
proof -
  have c: "active_config g = Some c" using assms by (simp add: board_of_def)
  have bd: "gc_width c \<le> 30" "gc_height c \<le> 16" using config_bound [OF c] by auto
  let ?T = "unat (gm_tile_size g)"
  have eq: "x div gm_tile_size g + of_nat (gc_width c) * (y div gm_tile_size g) =
      of_nat (unat x div ?T + gc_width c * (unat y div ?T))"
    by (simp add: word_arith_nat_div)
  have lt: "unat x div ?T + gc_width c * (unat y div ?T) < gc_width c * gc_height c"
    if "x < of_nat (gc_width c) * gm_tile_size g" "y < of_nat (gc_height c) * gm_tile_size g"
  proof -
    have lt: "unat z < n * ?T" if "z < of_nat n * gm_tile_size g" "n \<le> 30" for z n
    proof -
      have "unat z < unat (of_nat n * gm_tile_size g)" using that(1) by (simp add: word_less_nat_alt)
      also have "\<dots> \<le> unat (of_nat n :: u32) * ?T" by (rule unat_mult_le)
      also have "unat (of_nat n :: u32) = n" using that(2) by (simp add: unat_of_nat)
      finally show ?thesis .
    qed
    have "unat x div ?T < gc_width c" "unat y div ?T < gc_height c"
      using lt [OF that(1)] lt [OF that(2)] bd by (simp_all add: less_mult_imp_div_less)
    then show ?thesis by (rule index_in_board)
  qed
  have small: "n < gc_width c * gc_height c \<Longrightarrow> unat (of_nat n :: u32) = n" for n
  proof -
    assume "n < gc_width c * gc_height c"
    also have "\<dots> \<le> 30 * 16" using bd by (intro mult_le_mono)
    finally show ?thesis by (simp add: unat_of_nat)
  qed
  have "unat (x div gm_tile_size g + of_nat (gc_width c) * (y div gm_tile_size g)) < length b"
    if "x < of_nat (gc_width c) * gm_tile_size g" "y < of_nat (gc_height c) * gm_tile_size g"
    using lt [OF that] assms unfolding eq small [OF lt [OF that]] by (simp add: board_of_def)
  then show ?thesis using c by (auto simp: get_tile_from_pos_def not_le)
qed

text \<open>What one click on a tile does to the board and to the game.\<close>

lemma finish_click:
  assumes "board_of c b g"
    "play_board c (gm_is_running g \<and> card {k. k < length b \<and> \<not> tl_is_revealed (b ! k)} \<noteq> gc_bomb_count c) b"
  shows "\<exists>g' b'. do { n \<leftarrow> count_unrevealed c g;
      g \<leftarrow> (if n = gc_bomb_count c then minesweeper_end_game True g else Some g);
      g \<leftarrow> remove_peeking g; Some (g, seed) } = Some (g', seed) \<and> play_inv c g' \<and> gm_game_board g' = Some b' \<and>
      safe_hidden b' = safe_hidden b \<and>
      (if card {k. k < length b \<and> \<not> tl_is_revealed (b ! k)} = gc_bomb_count c
       then \<not> gm_is_running g' \<and> gm_has_won g'
       else gm_is_running g' = gm_is_running g \<and> gm_has_won g' = gm_has_won g \<and> revealed_tiles b' = revealed_tiles b)"
proof (cases "card {k. k < length b \<and> \<not> tl_is_revealed (b ! k)} = gc_bomb_count c")
  case True
  let ?g = "g\<lparr>gm_is_running := False, gm_has_won := True, gm_game_board := Some (end_board b)\<rparr>"
  have "board_of c (end_board b) (with_board g (end_board b))"
    by (rule board_of_map [OF assms(1)]) (simp_all add: end_board_def)
  then have b1: "board_of c (end_board b) ?g" by (simp add: board_of_def active_config_def split: if_splits)
  have p1: "play_board c (gm_is_running ?g) (end_board b)"
    by (rule play_board_bombs [OF assms(2,1)]) (simp_all add: end_board_def)
  obtain g' where g': "remove_peeking ?g = Some g'" "same_core ?g (end_board b) g'"
    using remove_peeking_same [OF b1] by blast
  then obtain b' where b': "g' = with_board ?g b'" "map core b' = map core (end_board b)" by (auto simp: same_core_def)
  have "safe_hidden (end_board b) = safe_hidden b" by (auto simp: safe_hidden_def nth_end_board split: if_splits)
  then have "safe_hidden b' = safe_hidden b" using same_core_sets(1) [OF b'(2)] by simp
  then show ?thesis
    using True count_unrevealed_eq [OF assms(1)] end_game_eq [OF assms(1), of True] g' b'(1) play_inv_same [OF b1 p1 g'(2)]
    by (intro exI [of _ g'] exI [of _ b']) simp
next
  case False
  obtain g' where g': "remove_peeking g = Some g'" "same_core g b g'"
    using remove_peeking_same [OF assms(1)] by blast
  then obtain b' where b': "g' = with_board g b'" "map core b' = map core b" by (auto simp: same_core_def)
  then show ?thesis
    using False count_unrevealed_eq [OF assms(1)] g' play_inv_same [OF assms(1) _ g'(2)] assms(2) same_core_sets [OF b'(2)]
    by (intro exI [of _ g'] exI [of _ b']) simp
qed

lemma hidden_split:
  "card {k. k < length b \<and> \<not> tl_is_revealed (b ! k)} =
   card (safe_hidden b) + card {k \<in> bombs b. \<not> tl_is_revealed (b ! k)}"
proof -
  have "{k. k < length b \<and> \<not> tl_is_revealed (b ! k)} = safe_hidden b \<union> {k \<in> bombs b. \<not> tl_is_revealed (b ! k)}"
    by (auto simp: safe_hidden_def bombs_def)
  then show ?thesis by (simp add: card_Un_disjoint safe_hidden_def bombs_def disjoint_iff)
qed

lemma hidden_no_bombs:
  assumes "card (bombs b) = n" "\<forall>k < length b. tl_is_bomb (b ! k) \<longrightarrow> \<not> tl_is_revealed (b ! k)"
  shows "card {k. k < length b \<and> \<not> tl_is_revealed (b ! k)} = n \<longleftrightarrow> safe_hidden b = {}"
proof -
  have "{k \<in> bombs b. \<not> tl_is_revealed (b ! k)} = bombs b" using assms(2) by (auto simp: bombs_def)
  then show ?thesis using assms(1) hidden_split [of b] by (simp add: safe_hidden_def)
qed

lemma board_of_game:
  "board_of c b g \<Longrightarrow> length b' = length b \<Longrightarrow> (\<And>k. k < length b \<Longrightarrow> tl_x (b' ! k) = tl_x (b ! k) \<and> tl_y (b' ! k) = tl_y (b ! k)) \<Longrightarrow>
   gm_active_game_config g' = gm_active_game_config g \<Longrightarrow> gm_game_board g' = Some b' \<Longrightarrow> board_of c b' g'"
  by (auto simp: board_of_def active_config_def split: if_splits)

lemma handle_click:
  assumes "gm_is_running g" "\<not> y < gm_board_offsety g" "board_of c b g" "i < length b"
    "get_tile_from_pos g (x - gm_board_offsetx g) (y - gm_board_offsety g) = Some (Some i)"
    "tile_reveal i (with_board g (b[i := (b ! i)\<lparr>tl_has_clicked := True\<rparr>])) = Some g1"
  shows "minesweeper_handle_lmb_up ok x y g seed = do { n \<leftarrow> count_unrevealed c g1;
      g \<leftarrow> (if n = gc_bomb_count c then minesweeper_end_game True g1 else Some g1);
      g \<leftarrow> remove_peeking g; Some (g, seed) }"
  using assms(1,2,5,6) board_of_upd [OF assms(3,4)] assms(3)
  by (simp add: minesweeper_handle_lmb_up_def board_of_def)

lemma region_safe:
  assumes "reach c b A i k" "open_tile b i" "i < length b" "board_of c b g"
  shows "open_tile b k \<and> k < length b"
  using assms(1) by (induction rule: reach.induct) (use assms nbrs_lt [OF assms(4)] in auto)

lemma reach_cong:
  assumes "reach c b A i k" "\<And>k. tl_bomb_count (b' ! k) = tl_bomb_count (b ! k)" "\<And>k. open_tile b' k = open_tile b k"
  shows "reach c b' A i k"
  using assms(1) by (induction rule: reach.induct) (auto intro: reach.intros simp: assms(2,3))

lemma region_cong:
  assumes "\<And>k. tl_bomb_count (b' ! k) = tl_bomb_count (b ! k)" "\<And>k. open_tile b' k = open_tile b k"
  shows "region c b' A i = region c b A i"
  using reach_cong [of c b A i _ b'] reach_cong [of c b' A i _ b] assms unfolding region_def by auto

text \<open>
  What a click on a tile does while the game runs. A marked or revealed tile changes nothing. A safe
  tile is revealed with exactly its region, and the game goes on if and only if a safe tile is
  still hidden; otherwise it is won. A bomb ends the game; it is then counted as won in
  exactly one case, when the hidden safe tiles and the marked bombs together are as many as the bombs.
\<close>

lemma click_outcome:
  assumes "board_of c b g" "play_board c True b" "gm_is_running g" "\<not> y < gm_board_offsety g"
    and "get_tile_from_pos g (x - gm_board_offsetx g) (y - gm_board_offsety g) = Some (Some i)"
  shows "\<exists>g' b'. minesweeper_handle_lmb_up ok x y g seed = Some (g', seed) \<and> play_inv c g' \<and> gm_game_board g' = Some b' \<and>
    (if tl_is_marked (b ! i) \<or> tl_is_revealed (b ! i)
     then gm_is_running g' \<and> safe_hidden b' = safe_hidden b \<and> revealed_tiles b' = revealed_tiles b
     else if tl_is_bomb (b ! i)
     then \<not> gm_is_running g' \<and>
       (gm_has_won g' \<longleftrightarrow> card (safe_hidden b) + card {k \<in> bombs b. tl_is_marked (b ! k)} = gc_bomb_count c)
     else safe_hidden b' = safe_hidden b - region c b (revealed_tiles b) i \<and>
       gm_is_running g' = (safe_hidden b' \<noteq> {}) \<and> gm_has_won g' = (if safe_hidden b' = {} then True else gm_has_won g))"
proof -
  have i: "i < length b"
    using get_tile_from_pos_in [OF assms(1), of "x - gm_board_offsetx g" "y - gm_board_offsety g"] assms(5) by auto
  let ?b = "b[i := (b ! i)\<lparr>tl_has_clicked := True\<rparr>]" and ?R = "revealed_tiles b"
  have core: "map core ?b = map core b" by (simp add: map_update list_update_self i core_def)
  have b0: "board_of c ?b (with_board g ?b)" by (rule board_of_core [OF assms(1) core])
  have "same_core g b (with_board g ?b)" using core by (auto simp: same_core_def)
  have nth: "?b ! k = (if k = i then (b ! i)\<lparr>tl_has_clicked := True\<rparr> else b ! k)" if "k < length b" for k using that by simp
  have eqs: "tl_is_bomb (?b ! k) = tl_is_bomb (b ! k)" "tl_is_marked (?b ! k) = tl_is_marked (b ! k)"
    "tl_bomb_count (?b ! k) = tl_bomb_count (b ! k)" "tl_is_revealed (?b ! k) = tl_is_revealed (b ! k)" for k
    by (cases "k = i"; simp add: i)+
  have p0: "play_board c True ?b"
    by (rule play_board_bombs [OF assms(2,1)]) (use assms(2) same_core_sets(1) [OF core] eqs in \<open>auto simp: play_board_def\<close>)
  note sets = same_core_sets [OF core]
  have nb: "card (bombs b) = gc_bomb_count c" "\<forall>k < length b. tl_is_bomb (b ! k) \<longrightarrow> \<not> tl_is_revealed (b ! k)" "safe_hidden b \<noteq> {}"
    using assms(2) by (simp_all add: play_board_def)
  have il: "i < length ?b" using i by simp
  show ?thesis
  proof (cases "tl_is_marked (b ! i) \<or> tl_is_revealed (b ! i)")
    case True
    then have "tile_reveal i (with_board g ?b) = Some (with_board g ?b)"
      using tile_reveal_eq [OF b0 il] eqs(2,4) [of i] by auto
    note h = handle_click [OF assms(3,4,1) i assms(5) this, of ok seed]
    have "card {k. k < length ?b \<and> \<not> tl_is_revealed (?b ! k)} \<noteq> gc_bomb_count c"
      using hidden_no_bombs [of ?b "gc_bomb_count c"] p0 by (simp add: play_board_def)
    then show ?thesis using finish_click [OF b0, of seed] p0 assms(3) True sets unfolding h by auto
  next
    case False
    show ?thesis
    proof (cases "tl_is_bomb (b ! i)")
      case True
      let ?b1 = "?b[i := (?b ! i)\<lparr>tl_is_revealed := True\<rparr>]"
      define b2 where "b2 = end_board ?b1"
      let ?g1 = "(with_board g ?b)\<lparr>gm_is_running := False, gm_has_won := False, gm_game_board := Some b2\<rparr>"
      have "tile_reveal i (with_board g ?b) = Some ?g1"
        using tile_reveal_eq [OF b0 il] False True eqs(1,2,4) [of i] by (auto simp: b2_def)
      note h = handle_click [OF assms(3,4,1) i assms(5) this, of ok seed]
      have b1: "?b1 ! k = (if k = i then (b ! i)\<lparr>tl_has_clicked := True, tl_is_revealed := True\<rparr> else b ! k)"
        if "k < length b" for k
        using that by (simp add: nth_list_update)
      have b2: "tl_is_bomb (b2 ! k) = tl_is_bomb (b ! k)" "tl_bomb_count (b2 ! k) = tl_bomb_count (b ! k)"
        "tl_x (b2 ! k) = tl_x (b ! k)" "tl_y (b2 ! k) = tl_y (b ! k)"
        "tl_is_revealed (b2 ! k) \<longleftrightarrow> tl_is_revealed (b ! k) \<or> (tl_is_bomb (b ! k) \<and> \<not> tl_is_marked (b ! k))"
        if "k < length b" for k
      proof -
        have e: "b2 ! k = (if tl_is_bomb (?b1 ! k) \<and> \<not> tl_is_marked (?b1 ! k) then (?b1 ! k)\<lparr>tl_is_revealed := True\<rparr> else ?b1 ! k)"
          unfolding b2_def by (rule nth_end_board) (simp add: that)
        show "tl_is_bomb (b2 ! k) = tl_is_bomb (b ! k)" "tl_bomb_count (b2 ! k) = tl_bomb_count (b ! k)"
          "tl_x (b2 ! k) = tl_x (b ! k)" "tl_y (b2 ! k) = tl_y (b ! k)"
          "tl_is_revealed (b2 ! k) \<longleftrightarrow> tl_is_revealed (b ! k) \<or> (tl_is_bomb (b ! k) \<and> \<not> tl_is_marked (b ! k))"
          unfolding e b1 [OF that] using True False by auto
      qed
      have len: "length b2 = length b" by (simp add: b2_def)
      have bo: "board_of c b2 ?g1" by (rule board_of_game [OF assms(1)]) (simp_all add: b2 len)
      have pb: "play_board c False b2" by (rule play_board_bombs [OF assms(2,1)]) (simp_all add: b2 len)
      have "safe_hidden b2 = safe_hidden b" using b2 by (auto simp: safe_hidden_def len)
      moreover have "{k \<in> bombs b2. \<not> tl_is_revealed (b2 ! k)} = {k \<in> bombs b. tl_is_marked (b ! k)}"
        using b2 nb(2) by (auto simp: bombs_def len)
      ultimately have "card {k. k < length b2 \<and> \<not> tl_is_revealed (b2 ! k)} = card (safe_hidden b) + card {k \<in> bombs b. tl_is_marked (b ! k)}"
        using hidden_split [of b2] by simp
      then show ?thesis using finish_click [OF bo, of seed] pb True False unfolding h by (auto split: if_splits)
    next
      case safe: False
      define b1 where "b1 = with_revealed (?R \<union> region c b ?R i) ?b"
      let ?g1 = "with_board g b1"
      have "region c ?b ?R i = region c b ?R i" by (rule region_cong) (simp_all only: eqs open_tile_def)
      then have "tile_reveal i (with_board g ?b) = Some ?g1"
        using tile_reveal_eq [OF b0 il] False safe eqs(1,2,4) [of i] sets(2) by (auto simp: b1_def)
      note h = handle_click [OF assms(3,4,1) i assms(5) this, of ok seed]
      have op: "open_tile b i" using False safe by (simp add: open_tile_def)
      have at: "tl_is_bomb (b1 ! k) = tl_is_bomb (b ! k)" "tl_bomb_count (b1 ! k) = tl_bomb_count (b ! k)"
        "tl_x (b1 ! k) = tl_x (b ! k)" "tl_y (b1 ! k) = tl_y (b ! k)"
        "tl_is_revealed (b1 ! k) \<longleftrightarrow> tl_is_revealed (b ! k) \<or> k \<in> region c b ?R i"
        if "k < length b" for k
        using that i by (cases "k = i"; simp add: b1_def nth_with_revealed revealed_tiles_def)+
      have len: "length b1 = length b" by (simp add: b1_def)
      have bo: "board_of c b1 ?g1" by (rule board_of_game [OF assms(1)]) (simp_all add: at len)
      have nobomb: "\<forall>k < length b. tl_is_bomb (b ! k) \<longrightarrow> \<not> tl_is_revealed (b1 ! k)"
        using at(5) nb(2) region_safe [OF _ op i assms(1)] by (auto simp: region_def open_tile_def)
      have sh: "safe_hidden b1 = safe_hidden b - region c b ?R i" using at by (auto simp: safe_hidden_def len)
      have "bombs b1 = bombs b" using at by (auto simp: bombs_def len)
      then have hid: "card {k. k < length b1 \<and> \<not> tl_is_revealed (b1 ! k)} = gc_bomb_count c \<longleftrightarrow> safe_hidden b1 = {}"
        using nobomb nb(1) at(1) len by (intro hidden_no_bombs) auto
      have pb: "play_board c (safe_hidden b1 \<noteq> {}) b1"
        by (rule play_board_bombs [OF assms(2,1)]) (use nobomb in \<open>simp_all add: at len\<close>)
      then have "play_board c (gm_is_running ?g1 \<and> card {k. k < length b1 \<and> \<not> tl_is_revealed (b1 ! k)} \<noteq> gc_bomb_count c) b1"
        using hid assms(3) by simp
      from finish_click [OF bo this, of seed, folded h, unfolded hid]
      obtain g' b' where f: "minesweeper_handle_lmb_up ok x y g seed = Some (g', seed)" "play_inv c g'"
        "gm_game_board g' = Some b'" "safe_hidden b' = safe_hidden b1"
        "if safe_hidden b1 = {} then \<not> gm_is_running g' \<and> gm_has_won g'
         else gm_is_running g' = gm_is_running ?g1 \<and> gm_has_won g' = gm_has_won ?g1 \<and> revealed_tiles b' = revealed_tiles b1"
        by blast
      have "gm_is_running g' = (safe_hidden b' \<noteq> {})" "gm_has_won g' = (if safe_hidden b' = {} then True else gm_has_won g)"
        using f(4,5) assms(3) by (simp_all split: if_splits)
      then show ?thesis using f(1-4) sh safe False by (intro exI [of _ g'] exI [of _ b']) simp
    qed
  qed
qed

lemma play_inv_fresh:
  assumes "active_config g = Some c" "S \<subseteq> {..< gc_width c * gc_height c}" "card S = gc_bomb_count c"
    "g' = g\<lparr>gm_game_board := Some (fresh_board c S), gm_is_running := r, gm_has_won := w\<rparr>"
  shows "play_inv c g'"
proof -
  let ?b = "fresh_board c S" and ?n = "gc_width c * gc_height c"
  have len: "length ?b = ?n" by (simp add: fresh_board_def)
  have at: "tl_is_bomb (?b ! k) \<longleftrightarrow> k \<in> S" "\<not> tl_is_revealed (?b ! k)" "tl_x (?b ! k) = int (k mod gc_width c)"
    "tl_y (?b ! k) = int (k div gc_width c)"
    "k \<notin> S \<Longrightarrow> tl_bomb_count (?b ! k) = int (length (filter (\<lambda>j. j \<in> S) (nbrs c k)))" if "k < ?n" for k
    using that by (simp_all add: fresh_board_def blank_tile_def)
  have "board_of c ?b g'"
    using assms(1) by (simp add: board_of_def assms(4) len at active_config_def split: if_splits)
  moreover have "play_board c r ?b"
  proof -
    have b: "bombs ?b = S" using assms(2) by (auto simp: bombs_def len at)
    have f: "filter (\<lambda>j. tl_is_bomb (?b ! j)) (nbrs c k) = filter (\<lambda>j. j \<in> S) (nbrs c k)" for k
      by (rule filter_cong) (simp_all add: at nbrs_in_board)
    have "safe_hidden ?b = {..< ?n} - S" by (auto simp: safe_hidden_def len at)
    moreover have "{..< ?n} - S \<noteq> {}"
    proof
      assume "{..< ?n} - S = {}"
      then have "S = {..< ?n}" using assms(2) by auto
      then show False using assms(3) config_bound [OF assms(1)] by simp
    qed
    ultimately show ?thesis using assms(3) by (simp add: play_board_def b f len at)
  qed
  ultimately show ?thesis by (auto simp: play_inv_def assms(4))
qed

lemma event_safe:
  assumes "play_inv c g"
  shows "\<exists>g' seed'. event_hook True e g seed = Some (g', seed') \<and> play_inv c g'"
proof -
  obtain b where b: "board_of c b g" "play_board c (gm_is_running g) b" using assms by (auto simp: play_inv_def)
  note self = same_core_self [OF b(1)]
  have tile: "\<exists>r. get_tile_from_pos g (x - gm_board_offsetx g) (y - gm_board_offsety g) = Some r \<and> (\<forall>i. r = Some i \<longrightarrow> i < length b)" for x y
    by (rule get_tile_from_pos_in [OF b(1)])
  have same: "play_inv c g'" if "same_core g b g'" for g' by (rule play_inv_same [OF b that])
  show ?thesis
  proof (cases e)
    case (WE_MBL_DOWN x y)
    obtain r where r: "get_tile_from_pos g (x - gm_board_offsetx g) (y - gm_board_offsety g) = Some r" "\<forall>i. r = Some i \<longrightarrow> i < length b"
      using tile by blast
    have "\<exists>g'. minesweeper_handle_lmb_down x y g = Some g' \<and> play_inv c g'"
    proof (cases "gm_is_running g \<and> r \<noteq> None")
      case True
      then obtain i where i: "r = Some i" "i < length b" using r(2) by auto
      then show ?thesis
        using True r(1) board_of_tile [OF b(1) i(2)] tile_peek_nearby_same [OF b(1) i(2)]
          upd_same_core [OF self i(2), of "\<lambda>t. t\<lparr>tl_is_peeking := True\<rparr>"] same
        by (auto simp: minesweeper_handle_lmb_down_def core_def)
    next
      case False
      then show ?thesis using r(1) assms by (auto simp: minesweeper_handle_lmb_down_def)
    qed
    then show ?thesis using WE_MBL_DOWN by (auto simp: event_hook_def)
  next
    case (WE_MBR_UP x y)
    obtain r where r: "get_tile_from_pos g (x - gm_board_offsetx g) (y - gm_board_offsety g) = Some r" "\<forall>i. r = Some i \<longrightarrow> i < length b"
      using tile by blast
    have "\<exists>g'. minesweeper_handle_rmb_up x y g = Some g' \<and> play_inv c g'"
    proof (cases "gm_is_running g \<and> r \<noteq> None")
      case True
      then obtain i where i: "r = Some i" "i < length b" using r(2) by auto
      then show ?thesis
        using True r(1) board_of_tile [OF b(1) i(2)] assms
          upd_same_core [OF self i(2), of "\<lambda>t. t\<lparr>tl_is_marked := \<not> tl_is_marked t\<rparr>"] same
        by (auto simp: minesweeper_handle_rmb_up_def tile_mark_def core_def)
    next
      case False
      then show ?thesis using r(1) assms by (auto simp: minesweeper_handle_rmb_up_def)
    qed
    then show ?thesis using WE_MBR_UP by (auto simp: event_hook_def)
  next
    case (WE_MBL_UP x y)
    have c: "active_config g = Some c" using b(1) by (simp add: board_of_def)
    have "\<exists>g' seed'. minesweeper_handle_lmb_up True x y g seed = Some (g', seed') \<and> play_inv c g'"
    proof (cases "y < gm_board_offsety g")
      case True
      obtain S seed' where S: "game_board_create True (g\<lparr>gm_game_board := None\<rparr>) seed =
          Some ((True, g\<lparr>gm_game_board := None, gm_game_board := Some (fresh_board c S), gm_is_running := False\<rparr>), seed')"
        "S \<subseteq> {..< gc_width c * gc_height c}" "card S = gc_bomb_count c"
        using game_board_create_fresh [of "g\<lparr>gm_game_board := None\<rparr>" c seed] c by auto
      have "play_inv c (g\<lparr>gm_game_board := Some (fresh_board c S), gm_is_running := True, gm_has_won := False\<rparr>)"
        by (rule play_inv_fresh [OF c S(2,3) refl])
      then show ?thesis using True S(1) assms by (simp add: minesweeper_handle_lmb_up_def)
    next
      case False
      obtain r where r: "get_tile_from_pos g (x - gm_board_offsetx g) (y - gm_board_offsety g) = Some r"
        using tile by blast
      show ?thesis
      proof (cases "gm_is_running g \<and> r \<noteq> None")
        case True
        then show ?thesis using click_outcome [OF b(1) _ _ False, of x _ True seed] b(2) r by auto
      next
        case False
        then show ?thesis using r c assms \<open>\<not> y < _\<close> by (auto simp: minesweeper_handle_lmb_up_def)
      qed
    qed
    then show ?thesis using WE_MBL_UP by (auto simp: event_hook_def)
  qed (use assms in \<open>auto simp: event_hook_def\<close>)
qed

definition run_events :: "window_event list \<Rightarrow> game \<times> u64 \<Rightarrow> (game \<times> u64) option" where
  "run_events = each (\<lambda>e (g, seed). event_hook True e g seed)"


definition demo_config :: game_config where
  "demo_config = \<lparr>gc_width = 9, gc_height = 9, gc_bomb_count = 10\<rparr>"

definition demo_game :: "tile list option \<Rightarrow> game" where
  "demo_game b = \<lparr>gm_active_game_config = 0, gm_game_board = b, gm_is_running = True, gm_has_won = False,
     gm_board_offsetx = 0, gm_board_offsety = 30, gm_tile_size = 16, gm_smiley_size = 26, gm_smileyx = 59, gm_smileyy = 2\<rparr>"

definition demo_board :: "tile list" where
  "demo_board = fresh_board demo_config {0..<10}"

lemma demo_config_active [simp]: "active_config (demo_game b) = Some demo_config"
  by (simp add: active_config_def demo_game_def game_configs_def demo_config_def)

lemma demo_game_ok:
  "board_of demo_config demo_board (demo_game (Some demo_board))" "play_board demo_config True demo_board"
proof -
  have "play_inv demo_config (demo_game (Some demo_board))"
    by (rule play_inv_fresh [OF demo_config_active [of None], where S = "{0..<10}" and r = True and w = False])
      (auto simp: demo_config_def demo_game_def demo_board_def)
  then show "board_of demo_config demo_board (demo_game (Some demo_board))" "play_board demo_config True demo_board"
    by (auto simp: play_inv_def board_of_def demo_game_def)
qed

lemma demo_position: "get_tile_from_pos (demo_game b) (130 - gm_board_offsetx (demo_game b)) (160 - gm_board_offsety (demo_game b)) = Some (Some 80)"
    "get_tile_from_pos (demo_game b) (3 - gm_board_offsetx (demo_game b)) (33 - gm_board_offsety (demo_game b)) = Some (Some 0)"
  by (simp_all add: get_tile_from_pos_def) (simp_all add: demo_game_def demo_config_def)

lemma demo_running: "gm_is_running (demo_game b)" "\<not> 160 < gm_board_offsety (demo_game b)" "\<not> 33 < gm_board_offsety (demo_game b)"
  by (simp_all add: demo_game_def)


text \<open>
  C23. A new game and any sequence of mouse events on it: creating the board succeeds for every random
  seed, no event leaves the board or recurses for ever, and after all of them the board has the
  configuration's number of bombs, the right counts, and as long as the game runs no bomb shows
  and a safe tile is still hidden.
\<close>

theorem minesweeper_play_safe:
  assumes "active_config g = Some c" "gm_game_board g = None"
  shows "\<exists>g1 seed1. game_board_create True g seed = Some ((True, g1), seed1) \<and>
    (\<forall>events. \<exists>g' seed'. run_events events (g1\<lparr>gm_is_running := True\<rparr>, seed1) = Some (g', seed') \<and> play_inv c g')"
proof -
  obtain S seed1 where S: "game_board_create True g seed =
      Some ((True, g\<lparr>gm_game_board := Some (fresh_board c S), gm_is_running := False\<rparr>), seed1)"
    "S \<subseteq> {..< gc_width c * gc_height c}" "card S = gc_bomb_count c"
    using game_board_create_fresh [OF assms] by blast
  have "play_inv c (g\<lparr>gm_game_board := Some (fresh_board c S), gm_is_running := True\<rparr>)"
    by (rule play_inv_fresh [OF assms(1) S(2,3), where w = "gm_has_won g"]) simp
  moreover have "\<exists>s'. (case s of (g, seed) \<Rightarrow> event_hook True e g seed) = Some s' \<and> play_inv c (fst s')"
    if "play_inv c (fst s)" for s e
    using event_safe [OF that, of e "snd s"] by (auto simp: split_beta)
  ultimately have "\<exists>s. run_events events (g\<lparr>gm_game_board := Some (fresh_board c S), gm_is_running := True\<rparr>, seed1) = Some s \<and> play_inv c (fst s)" for events
    unfolding run_events_def by (intro each_total [where P = "\<lambda>s. play_inv c (fst s)"]) simp_all
  then show ?thesis using S(1) by fastforce
qed

theorem minesweeper_play_safe_witness:
  "\<exists>g' seed'. run_events [WE_MBL_DOWN 40 70, WE_MBL_UP 40 70, WE_MBR_UP 99 99, WE_MBL_UP 65 10]
     ((snd (fst (the (game_board_create True (demo_game None) 7))))\<lparr>gm_is_running := True\<rparr>,
      snd (the (game_board_create True (demo_game None) 7))) = Some (g', seed') \<and> play_inv demo_config g'"
  using minesweeper_play_safe [OF demo_config_active, of None 7] by (fastforce simp: demo_game_def)

text \<open>A click on a bomb that is counted as a win: ten safe tiles are still hidden.\<close>

lemma bomb_click_wins:
  "\<exists>b. play_inv demo_config (demo_game (Some b)) \<and> tl_is_bomb (b ! 0) \<and> \<not> tl_is_marked (b ! 0) \<and>
     (\<exists>g'. minesweeper_handle_lmb_up True 3 33 (demo_game (Some b)) 0 = Some (g', 0) \<and> gm_has_won g')"
proof -
  let ?b = "with_revealed {20..<81} demo_board" and ?g = "demo_game (Some (with_revealed {20..<81} demo_board))"
  have len: "length demo_board = 81" by (simp add: demo_board_def fresh_board_def demo_config_def)
  have at: "tl_is_bomb (demo_board ! k) \<longleftrightarrow> k < 10" "\<not> tl_is_marked (demo_board ! k)" if "k < 81" for k
    using that by (simp_all add: demo_board_def fresh_board_def demo_config_def blank_tile_def)
  have nth: "?b ! k = (demo_board ! k)\<lparr>tl_is_revealed := k \<in> {20..<81}\<rparr>" if "k < 81" for k
    using that len by (simp only: nth_with_revealed)
  have sh: "safe_hidden ?b = {10..<20}" by (auto simp: safe_hidden_def nth at len)
  have mk: "{k \<in> bombs ?b. tl_is_marked (?b ! k)} = {}" by (auto simp: bombs_def nth at len)
  have bo: "board_of demo_config ?b ?g"
    by (rule board_of_game [OF demo_game_ok(1)]) (auto simp: nth len demo_game_def)
  have pb: "play_board demo_config True ?b"
    by (rule play_board_bombs [OF demo_game_ok(2,1)]) (auto simp: nth len sh at)
  have "tl_is_bomb (?b ! 0)" "\<not> (tl_is_marked (?b ! 0) \<or> tl_is_revealed (?b ! 0))" using nth [of 0] at [of 0] by auto
  then show ?thesis
    using click_outcome [OF bo pb demo_running(1,3) demo_position(2), of True 0] bo pb unfolding sh mk
    by (auto simp: demo_config_def play_inv_def demo_game_def)
qed

end
