(* ===== verification/Bmp.thy ===== *)
theory Bmp
  imports Syscalls Sched_Runs
begin

unbundle bit_operations_syntax

text \<open>
  Pictures: \<open>src/shared/src/bmp.cpp\<close>, \<open>src/shared/include/bmp.hpp\<close> and \<open>bmp_load_sprite\<close> of
  \<open>src/minesweeper/src/main.cpp\<close>.

  A file is a list of bytes; reading outside it, or writing outside the palette, is \<open>None\<close>. An \<open>i32\<close> is an \<open>int\<close>.
\<close>

record bmp_image =
  bi_file_data :: "u8 list"
  bi_file_size :: u64
  bi_width :: int
  bi_height :: int
  bi_bottom_up :: bool
  bi_colors :: "(u8 \<times> u8 \<times> u8) list"

definition blank_image :: bmp_image where
  "blank_image = \<lparr>bi_file_data = [], bi_file_size = 0, bi_width = 0, bi_height = 0, bi_bottom_up = False,
     bi_colors = replicate 256 (0, 0, 0)\<rparr>"

definition sizeof_file_header :: nat where "sizeof_file_header = 14"
definition sizeof_info_header :: nat where "sizeof_info_header = 40"

definition is_bmp :: "u8 list option \<Rightarrow> u64 \<Rightarrow> bool option" where
  "is_bmp data sz = (case data of None \<Rightarrow> Some False
     | Some d \<Rightarrow> if sz < of_nat (sizeof_file_header + sizeof_info_header + 3) then Some False
        else do { b \<leftarrow> rd8 d 0; if b \<noteq> 0x42 then Some False else do { m \<leftarrow> rd8 d 1; Some (m = 0x4D) } })"

text \<open>A colour is stored as blue, green, red.\<close>

definition load_color :: "u8 list \<Rightarrow> nat \<Rightarrow> (u8 \<times> u8 \<times> u8) list \<Rightarrow> (u8 \<times> u8 \<times> u8) list option" where
  "load_color d i colors = do {
     let p = sizeof_file_header + sizeof_info_header + i * 4;
     b \<leftarrow> rd8 d p;
     g \<leftarrow> rd8 d (p + 1);
     r \<leftarrow> rd8 d (p + 2);
     if i < length colors then Some (colors[i := (r, g, b)]) else None }"

definition bmp_load_image :: "u8 list option \<Rightarrow> u64 \<Rightarrow> bmp_image option \<Rightarrow> (bool \<times> bmp_image option) option" where
  "bmp_load_image file_data file_size img =
     (case file_data of None \<Rightarrow> Some (False, img) | Some d \<Rightarrow>
      case img of None \<Rightarrow> Some (False, img) | Some im \<Rightarrow>
      if file_size = 0 then Some (False, img) else do {
        valid \<leftarrow> is_bmp file_data file_size;
        if \<not> valid then Some (False, img) else do {
        let im = im\<lparr>bi_file_data := d, bi_file_size := file_size\<rparr>;
        bits_per_pixel \<leftarrow> rd16 d (sizeof_file_header + 14);
        if bits_per_pixel \<noteq> 8 then Some (False, Some im) else do {
        number_of_colors \<leftarrow> rd32 d (sizeof_file_header + 32);
        colors \<leftarrow> each (load_color d) [0..<unat number_of_colors] (bi_colors im);
        width \<leftarrow> rd32 d (sizeof_file_header + 4);
        height \<leftarrow> rd32 d (sizeof_file_header + 8);
        let im = im\<lparr>bi_colors := colors, bi_width := sint width, bi_height := sint height, bi_bottom_up := True\<rparr>;
        Some (True, Some (if bi_height im < 0 then im\<lparr>bi_height := - bi_height im, bi_bottom_up := False\<rparr> else im)) } } })"

section \<open>Sprites\<close>

record sprite =
  sp_size :: u32
  sp_data :: u64

text \<open>The four bytes of the pixel \<open>(x, y)\<close> of the sprite whose corner is \<open>(src_x, src_y)\<close> in the picture.\<close>

definition sprite_pixel :: "bmp_image \<Rightarrow> int \<Rightarrow> int \<Rightarrow> nat \<Rightarrow> nat \<Rightarrow> u8 list option" where
  "sprite_pixel im src_x src_y x y = do {
     image_data_offset \<leftarrow> rd32 (bi_file_data im) 10;
     let row_stride = (bi_width im + 3) AND NOT 3;
     let bmp_y = (if bi_bottom_up im then bi_height im - 1 - (int y + src_y) else int y + src_y);
     let pos = uint image_data_offset + (bmp_y * row_stride + (int x + src_x));
     if pos < 0 then None else do {
     index \<leftarrow> rd8 (bi_file_data im) (nat pos);
     if unat index < length (bi_colors im)
     then (case bi_colors im ! unat index of (r, g, b) \<Rightarrow> Some [b, g, r, 0xFF]) else None } }"

definition load_pixel :: "bmp_image \<Rightarrow> sprite \<Rightarrow> u32 \<Rightarrow> int \<Rightarrow> int \<Rightarrow> nat \<Rightarrow> nat \<Rightarrow> system \<Rightarrow> system option" where
  "load_pixel im sprite tile_size src_x src_y y x s = do {
     pixel \<leftarrow> sprite_pixel im src_x src_y x y;
     if sp_data sprite = 0 then None
     else Some (s\<lparr>sys_mem := mem_write (sys_mem s) (sp_data sprite + ucast ((of_nat x + tile_size * of_nat y) * 4)) pixel\<rparr>) }"

definition bmp_load_sprite :: "bmp_image option \<Rightarrow> u32 \<Rightarrow> int \<Rightarrow> int \<Rightarrow> (bool \<times> sprite) call" where
  "bmp_load_sprite img tile_size src_x src_y raw regs s =
     (case img of None \<Rightarrow> Some ((False, \<lparr>sp_size = 0, sp_data = 0\<rparr>), s)
      | Some im \<Rightarrow> do {
          (data, s) \<leftarrow> syscall_malloc (ucast (tile_size * tile_size) * 4) raw regs s;
          let sprite = \<lparr>sp_size = tile_size, sp_data = data\<rparr>;
          s \<leftarrow> each (\<lambda>y. each (load_pixel im sprite tile_size src_x src_y y) [0..<unat tile_size]) [0..<unat tile_size] s;
          Some ((True, sprite), s) })"

section \<open>The memory of a program, by address\<close>

lemma mem_write_nth:
  "length bs < 2 ^ 64 \<Longrightarrow> mem_write mem a bs x = (if unat (x - a) < length bs then bs ! unat (x - a) else mem x)"
proof (induction bs arbitrary: mem a)
  case (Cons b bs)
  have ih: "mem_write mem a (b # bs) x = (if unat (x - (a + 1)) < length bs then bs ! unat (x - (a + 1)) else (mem(a := b)) x)"
    using Cons by simp
  show ?case
  proof (cases "x = a")
    case True
    have "unat (- 1 :: u64) = 2 ^ 64 - 1" by (simp add: unat_eq_nat_uint uint_word_ariths)
    then have "unat (x - (a + 1)) = 2 ^ 64 - 1" by (simp add: True)
    then show ?thesis using Cons.prems unfolding ih by (simp add: True)
  next
    case False
    then have "unat (x - a) = Suc (unat (x - (a + 1)))"
      using unatSuc [of "x - (a + 1)"] by (simp add: diff_diff_eq [symmetric])
    then show ?thesis using False unfolding ih by simp
  qed
qed simp

lemma mem_write_at:
  assumes "unat a + length bs < 2 ^ 64" "j < 2 ^ 64"
  shows "mem_write mem a bs (of_nat j) = (if unat a \<le> j \<and> j < unat a + length bs then bs ! (j - unat a) else mem (of_nat j))"
proof -
  have u: "unat (of_nat j :: u64) = j" using assms(2) by (simp add: unat_of_nat)
  show ?thesis
  proof (cases "unat a \<le> j")
    case True
    then have "a \<le> of_nat j" using u by (simp add: word_le_nat_alt)
    then have "unat (of_nat j - a) = j - unat a" using u by (simp add: unat_sub)
    then show ?thesis using True assms(1) mem_write_nth [of bs mem a "of_nat j"] by auto
  next
    case False
    have "unat (of_nat j - a) = 2 ^ 64 + j - unat a"
      using False u assms(2) unat_sub_if' [of "of_nat j :: u64" a] by simp
    then show ?thesis using False assms(1) mem_write_nth [of bs mem a "of_nat j"] by auto
  qed
qed

lemma mem_write_append: "mem_write mem a (xs @ ys) = mem_write (mem_write mem a xs) (a + of_nat (length xs)) ys"
  by (induction xs arbitrary: mem a) (simp_all add: add.assoc)

lemma mem_read_at: "mem_read mem a n = map (\<lambda>i. mem (of_nat (unat a + i))) [0..<n]"
  by (simp add: mem_read_def)

lemma length_mem_read [simp]: "length (mem_read mem a n) = n"
  by (simp add: mem_read_def)

text \<open>Reading back what was written, and what lies beside it.\<close>

lemma mem_read_write:
  assumes "length bs < 2 ^ 64"
  shows "mem_read (mem_write mem a bs) a (length bs) = bs"
  by (rule nth_equalityI) (use assms in \<open>auto simp: mem_read_def mem_write_nth unat_of_nat\<close>)

lemma mem_read_beside:
  assumes "unat a + length bs < 2 ^ 64" "unat p + n < 2 ^ 64" "unat p + n \<le> unat a \<or> unat a + length bs \<le> unat p"
  shows "mem_read (mem_write mem a bs) p n = mem_read mem p n"
  unfolding mem_read_at by (rule map_cong [OF refl]) (use assms mem_write_at [OF assms(1)] in \<open>auto simp del: of_nat_add\<close>)

lemma length_concat_map: "(\<And>i. i < n \<Longrightarrow> length (bs i) = w) \<Longrightarrow> length (concat (map bs [0..<n])) = n * w"
  by (induction n) simp_all

text \<open>A loop whose rounds write blocks that follow each other.\<close>

lemma each_writes:
  assumes "\<And>i m. i < n \<Longrightarrow> f i (s\<lparr>sys_mem := m\<rparr>) = Some (s\<lparr>sys_mem := mem_write m (a + of_nat (i * w)) (bs i)\<rparr>)"
    and "\<And>i. i < n \<Longrightarrow> length (bs i) = w"
  shows "each f [0..<n] (s\<lparr>sys_mem := m\<rparr>) = Some (s\<lparr>sys_mem := mem_write m a (concat (map bs [0..<n]))\<rparr>)"
  using assms
proof (induction n)
  case (Suc n)
  have len: "length (concat (map bs [0..<n])) = n * w"
    by (rule length_concat_map) (simp add: Suc.prems(2))
  show ?case using Suc by (simp add: each_append mem_write_append len)
qed simp

section \<open>Loading a sprite\<close>

definition sprite_bytes :: "(nat \<Rightarrow> nat \<Rightarrow> u8 list) \<Rightarrow> nat \<Rightarrow> u8 list" where
  "sprite_bytes pixel n = concat (map (\<lambda>y. concat (map (\<lambda>x. pixel x y) [0..<n])) [0..<n])"

lemma length_sprite_bytes:
  assumes "\<And>x y. x < n \<Longrightarrow> y < n \<Longrightarrow> length (pixel x y) = 4"
  shows "length (sprite_bytes pixel n) = n * (n * 4)"
  unfolding sprite_bytes_def by (rule length_concat_map, rule length_concat_map) (rule assms)

lemma sprite_pixel_length: "sprite_pixel im src_x src_y x y = Some p \<Longrightarrow> length p = 4"
  by (auto simp: sprite_pixel_def split_beta Let_def split: bind_splits if_splits)

lemma index_in_square: "x < n \<Longrightarrow> y < n \<Longrightarrow> x + n * y < n * (n :: nat)"
proof -
  assume "x < n" "y < n"
  then have "x + n * y < n + n * y" by simp
  also have "\<dots> = n * Suc y" by simp
  also have "\<dots> \<le> n * n" using \<open>y < n\<close> by (intro mult_le_mono2) simp
  finally show ?thesis .
qed

text \<open>The loops of \<open>bmp_load_sprite\<close> write the pixels row by row.\<close>

lemma load_pixels:
  assumes "\<And>x y. x < unat n \<Longrightarrow> y < unat n \<Longrightarrow> sprite_pixel im src_x src_y x y = Some (pixel x y)"
    and "sp_data sprite \<noteq> 0" "unat n * unat n * 4 < 2 ^ 32"
  shows "each (\<lambda>y. each (load_pixel im sprite n src_x src_y y) [0..<unat n]) [0..<unat n] s =
    Some (s\<lparr>sys_mem := mem_write (sys_mem s) (sp_data sprite) (sprite_bytes pixel (unat n))\<rparr>)"
proof -
  let ?p = "sp_data sprite"
  have len: "length (pixel x y) = 4" if "x < unat n" "y < unat n" for x y
    using sprite_pixel_length [OF assms(1) [OF that]] .
  have ix: "ucast ((of_nat x + n * of_nat y) * 4 :: u32) = (of_nat (y * (unat n * 4)) + of_nat (x * 4) :: u64)"
    if "x < unat n" "y < unat n" for x y
  proof -
    have "(x + unat n * y) * 4 < 2 ^ 32"
    proof -
      have "x + unat n * y < unat n * unat n" by (rule index_in_square) (use that in simp_all)
      then show ?thesis using assms(3) by simp
    qed
    then have "unat ((of_nat x + n * of_nat y) * 4 :: u32) = (x + unat n * y) * 4"
      using unat_of_nat [of "(x + unat n * y) * 4", where 'a = 32] by simp
    then have "ucast ((of_nat x + n * of_nat y) * 4 :: u32) = (of_nat ((x + unat n * y) * 4) :: u64)" by (metis of_nat_unat)
    then show ?thesis by (simp add: algebra_simps)
  qed
  have row: "each (load_pixel im sprite n src_x src_y y) [0..<unat n] (s\<lparr>sys_mem := m\<rparr>) =
      Some (s\<lparr>sys_mem := mem_write m (?p + of_nat (y * (unat n * 4))) (concat (map (\<lambda>x. pixel x y) [0..<unat n]))\<rparr>)"
    if "y < unat n" for y m
    by (rule each_writes) (use assms(1,2) that ix len in \<open>simp_all add: load_pixel_def add.assoc\<close>)
  have "each (\<lambda>y. each (load_pixel im sprite n src_x src_y y) [0..<unat n]) [0..<unat n] (s\<lparr>sys_mem := sys_mem s\<rparr>) =
      Some (s\<lparr>sys_mem := mem_write (sys_mem s) ?p (sprite_bytes pixel (unat n))\<rparr>)"
    unfolding sprite_bytes_def
    by (rule each_writes [where w = "unat n * 4"]) (use row len in \<open>simp_all add: length_concat_map\<close>)
  then show ?thesis by simp
qed

section \<open>Picture files\<close>

text \<open>The file of a picture with the palette \<open>palette\<close> and the rows \<open>rows\<close> of width \<open>w\<close>, from the top; \<open>up\<close> is
  whether the rows are stored from the bottom.\<close>

definition padded :: "u8 list \<Rightarrow> u8 list" where
  "padded row = row @ replicate ((4 - length row mod 4) mod 4) 0"

definition bmp_headers :: "bool \<Rightarrow> nat \<Rightarrow> nat \<Rightarrow> nat \<Rightarrow> u32 \<Rightarrow> u8 list" where
  "bmp_headers up n w h fsz =
     [0x42, 0x4D] @ le32 fsz @ replicate 4 0 @ le32 (of_nat (54 + 4 * n)) @
     le32 40 @ le32 (of_nat w) @ le32 (if up then of_nat h else - of_nat h) @ le16 1 @ le16 8 @ replicate 16 0 @
     le32 (of_nat n) @ le32 0"

definition bmp_file :: "bool \<Rightarrow> (u8 \<times> u8 \<times> u8) list \<Rightarrow> nat \<Rightarrow> u8 list list \<Rightarrow> u32 \<Rightarrow> u8 list" where
  "bmp_file up palette w rows fsz =
     bmp_headers up (length palette) w (length rows) fsz @ concat (map (\<lambda>(r, g, b). [b, g, r, 0]) palette) @
     concat (map padded (if up then rev rows else rows))"

definition picture_ok :: "(u8 \<times> u8 \<times> u8) list \<Rightarrow> nat \<Rightarrow> u8 list list \<Rightarrow> bool" where
  "picture_ok palette w rows \<longleftrightarrow> palette \<noteq> [] \<and> length palette \<le> 256 \<and> rows \<noteq> [] \<and> w < 2 ^ 31 - 4 \<and> length rows < 2 ^ 31 \<and>
     (\<forall>row \<in> set rows. length row = w)"

definition picture_image :: "bool \<Rightarrow> (u8 \<times> u8 \<times> u8) list \<Rightarrow> nat \<Rightarrow> u8 list list \<Rightarrow> u32 \<Rightarrow> u64 \<Rightarrow> bmp_image" where
  "picture_image up palette w rows fsz sz =
     \<lparr>bi_file_data = bmp_file up palette w rows fsz, bi_file_size = sz, bi_width = int w, bi_height = int (length rows),
      bi_bottom_up = up, bi_colors = palette @ replicate (256 - length palette) (0, 0, 0)\<rparr>"

lemma length_headers: "length (bmp_headers up n w h fsz) = 54"
  by (simp add: bmp_headers_def)

lemma length_palette: "length (concat (map (\<lambda>(r, g, b). [b, g, r, 0]) (palette :: (u8 \<times> u8 \<times> u8) list))) = 4 * length palette"
  by (induction palette) auto

lemma length_padded: "length (padded row) = (length row + 3) div 4 * 4"
proof -
  have "n + (4 - n mod 4) mod 4 = (n + 3) div 4 * 4" for n :: nat
  proof -
    have n: "n = 4 * (n div 4) + n mod 4" "n mod 4 < 4" by simp_all
    then consider "n mod 4 = 0" | "n mod 4 = 1" | "n mod 4 = 2" | "n mod 4 = 3" by linarith
    then show ?thesis using n(1) by cases (simp_all, presburger+)
  qed
  then show ?thesis by (simp add: padded_def)
qed

lemma rd32_after: "data = pre @ le32 x @ post \<Longrightarrow> length pre = k \<Longrightarrow> rd32 data k = Some x"
  by (rule rd32_le32) simp

lemma rd16_after: "data = pre @ le16 x @ post \<Longrightarrow> length pre = k \<Longrightarrow> rd16 data k = Some x"
  by (rule rd16_le16) simp

lemma headers_at:
  assumes "data = bmp_headers up n w h fsz @ rest"
  shows "rd8 data 0 = Some 0x42" "rd8 data 1 = Some 0x4D" "rd32 data 10 = Some (of_nat (54 + 4 * n))"
    "rd32 data 18 = Some (of_nat w)" "rd32 data 22 = Some (if up then of_nat h else - of_nat h)" "rd16 data 28 = Some 8"
    "rd32 data 46 = Some (of_nat n)"
proof -
  note d = assms [unfolded bmp_headers_def]
  show "rd32 data 10 = Some (of_nat (54 + 4 * n))"
    by (rule rd32_after [of _ "[0x42, 0x4D] @ le32 fsz @ replicate 4 0"]) (simp_all add: d)
  show "rd32 data 18 = Some (of_nat w)"
    by (rule rd32_after [of _ "[0x42, 0x4D] @ le32 fsz @ replicate 4 0 @ le32 (of_nat (54 + 4 * n)) @ le32 40"]) (simp_all add: d)
  show "rd32 data 22 = Some (if up then of_nat h else - of_nat h)"
    by (rule rd32_after [of _ "[0x42, 0x4D] @ le32 fsz @ replicate 4 0 @ le32 (of_nat (54 + 4 * n)) @ le32 40 @ le32 (of_nat w)"])
      (simp_all add: d)
  show "rd16 data 28 = Some 8"
    by (rule rd16_after [of _ "[0x42, 0x4D] @ le32 fsz @ replicate 4 0 @ le32 (of_nat (54 + 4 * n)) @ le32 40 @ le32 (of_nat w) @
      le32 (if up then of_nat h else - of_nat h) @ le16 1"]) (simp_all add: d)
  show "rd32 data 46 = Some (of_nat n)"
    by (rule rd32_after [of _ "[0x42, 0x4D] @ le32 fsz @ replicate 4 0 @ le32 (of_nat (54 + 4 * n)) @ le32 40 @ le32 (of_nat w) @
      le32 (if up then of_nat h else - of_nat h) @ le16 1 @ le16 8 @ replicate 16 0"]) (simp_all add: d)
qed (simp_all add: assms bmp_headers_def rd8_def)

lemma nth_concat_blocks:
  "\<forall>xs \<in> set xss. length xs = w \<Longrightarrow> i < length xss \<Longrightarrow> j < w \<Longrightarrow>
   i * w + j < length (concat xss) \<and> concat xss ! (i * w + j) = xss ! i ! j"
proof (induction xss arbitrary: i)
  case (Cons xs xss)
  then show ?case by (cases i) (simp_all add: nth_append add.assoc)
qed simp

lemma rd8_behind: "length pre = k \<Longrightarrow> i < length post \<Longrightarrow> rd8 (pre @ post) (k + i) = Some (post ! i)"
  by (simp add: rd8_def nth_append)

lemma palette_at:
  assumes "data = pre @ concat (map (\<lambda>(r, g, b). [b, g, r, 0]) (palette :: (u8 \<times> u8 \<times> u8) list)) @ post" "i < length palette" "c < 4"
  shows "rd8 data (length pre + i * 4 + c) = Some ((case palette ! i of (r, g, b) \<Rightarrow> [b, g, r, 0]) ! c)"
proof -
  let ?p = "map (\<lambda>(r, g, b). [b, g, r, 0]) palette"
  have "\<forall>xs \<in> set ?p. length xs = 4" by auto
  from nth_concat_blocks [OF this, of i c] assms(2,3)
  have "i * 4 + c < length (concat ?p)" "concat ?p ! (i * 4 + c) = (case palette ! i of (r, g, b) \<Rightarrow> [b, g, r, 0]) ! c"
    by simp_all
  then show ?thesis by (simp add: assms(1) rd8_def nth_append add.assoc)
qed

lemma load_colors:
  assumes "data = bmp_headers up n w h fsz @ concat (map (\<lambda>(r, g, b). [b, g, r, 0]) palette) @ post"
    and "k \<le> length palette" "length palette \<le> length colors"
  shows "each (load_color data) [0..<k] colors = Some (take k palette @ drop k colors)"
  using assms(2)
proof (induction k)
  case (Suc k)
  have at: "rd8 data (54 + k * 4 + c) = Some ((case palette ! k of (r, g, b) \<Rightarrow> [b, g, r, 0]) ! c)" if "c < 4" for c
    using palette_at [OF assms(1) _ that, of k] Suc.prems by (simp add: length_headers)
  have "load_color data k (take k palette @ drop k colors) = Some ((take k palette @ drop k colors)[k := palette ! k])"
    using at [of 0] at [of 1] at [of 2] Suc.prems assms(3)
    by (simp add: load_color_def sizeof_file_header_def sizeof_info_header_def split_beta numeral_2_eq_2)
  also have "(take k palette @ drop k colors)[k := palette ! k] = take (Suc k) palette @ drop (Suc k) colors"
    using Suc.prems assms(3)
    by (simp add: list_update_append take_Suc_conv_app_nth upd_conv_take_nth_drop)
  finally show ?case using Suc by (simp add: each_append)
qed simp

lemma image_loaded:
  assumes "picture_ok palette w rows" "file = bmp_file up palette w rows fsz" "length file < 2 ^ 31"
  shows "bmp_load_image (Some file) (of_nat (length file)) (Some blank_image) =
    Some (True, Some (picture_image up palette w rows fsz (of_nat (length file))))"
proof -
  let ?n = "length palette" and ?h = "length rows"
  have ok: "palette \<noteq> []" "?n \<le> 256" "rows \<noteq> []" "w < 2 ^ 31 - 4" "?h < 2 ^ 31" using assms(1) by (simp_all add: picture_ok_def)
  note f = assms(2) [unfolded bmp_file_def]
  note hd = headers_at [OF f]
  have len: "54 + 4 * ?n \<le> length file" by (simp add: f length_headers length_palette)
  have n1: "1 \<le> ?n" using ok(1) by (cases palette) simp_all
  have lw: "unat (of_nat (length file) :: u64) = length file" using assms(3) by (simp add: unat_of_nat)
  have "\<not> (of_nat (length file) :: u64) < of_nat (sizeof_file_header + sizeof_info_header + 3)"
    using len n1 lw by (simp add: word_less_nat_alt sizeof_file_header_def sizeof_info_header_def)
  then have bmp: "is_bmp (Some file) (of_nat (length file)) = Some True" using hd(1,2) by (simp add: is_bmp_def)
  have nz: "(of_nat (length file) :: u64) \<noteq> 0" using len n1 lw by (metis add_leE le_numeral_extra(2) mult_is_0 not_one_le_zero unat_0 zero_neq_numeral le_zero_eq add_is_0)
  have n: "unat (of_nat ?n :: u32) = ?n" using ok(2) by (simp add: unat_of_nat)
  have colors: "each (load_color file) [0..<?n] (bi_colors blank_image) = Some (palette @ replicate (256 - ?n) (0, 0, 0))"
    using load_colors [OF f, of ?n "bi_colors blank_image"] ok(2) by (simp add: blank_image_def)
  have w: "sint (of_nat w :: u32) = int w" using ok(4) by (simp add: signed_of_nat signed_take_bit_int_eq_self)
  have "sint (word_of_int (- int ?h) :: u32) = - int ?h" using ok(5) by (simp add: signed_of_int signed_take_bit_int_eq_self del: of_int_minus)
  then have h: "sint (of_nat ?h :: u32) = int ?h" "sint (- of_nat ?h :: u32) = - int ?h"
    using ok(5) by (simp_all add: signed_of_nat signed_take_bit_int_eq_self)
  show ?thesis
    using hd bmp nz n colors w h ok(3)
    by (simp add: bmp_load_image_def picture_image_def sizeof_file_header_def assms(2) [symmetric] blank_image_def)
qed

lemma and_not_3: "(x :: int) AND NOT 3 = x div 4 * 4"
proof -
  have "x AND NOT (mask 2) = push_bit 2 (drop_bit 2 x)"
  proof (rule bit_eqI)
    fix n show "bit (x AND NOT (mask 2)) n = bit (push_bit 2 (drop_bit 2 x)) n"
    proof (cases "2 \<le> n")
      case True
      then obtain m where "n = m + 2" by (metis le_add_diff_inverse2)
      then show ?thesis by (simp add: bit_simps)
    qed (simp add: bit_simps)
  qed
  then show ?thesis by (simp add: mask_eq_exp_minus_1 push_bit_eq_mult drop_bit_eq_div)
qed

text \<open>The colour that the picture has at the place a sprite's pixel is taken from.\<close>

definition picture_pixel :: "(u8 \<times> u8 \<times> u8) list \<Rightarrow> u8 list list \<Rightarrow> nat \<Rightarrow> nat \<Rightarrow> u8 list" where
  "picture_pixel palette rows x y = (case palette ! unat (rows ! y ! x) of (r, g, b) \<Rightarrow> [b, g, r, 0xFF])"

lemma pixel_of_picture:
  assumes "picture_ok palette w rows" "length (bmp_file up palette w rows fsz) < 2 ^ 31"
    and "src_x + x < w" "src_y + y < length rows" "unat (rows ! (src_y + y) ! (src_x + x)) < length palette"
  shows "sprite_pixel (picture_image up palette w rows fsz sz) (int src_x) (int src_y) x y =
    Some (picture_pixel palette rows (src_x + x) (src_y + y))"
proof -
  let ?n = "length palette" and ?h = "length rows" and ?X = "src_x + x" and ?Y = "src_y + y"
  let ?file = "bmp_file up palette w rows fsz" and ?S = "(w + 3) div 4 * 4"
  let ?stored = "map padded (if up then rev rows else rows)" and ?i = "if up then ?h - 1 - ?Y else ?Y"
  have ok: "?n \<le> 256" "\<forall>row \<in> set rows. length row = w" using assms(1) by (simp_all add: picture_ok_def)
  have bl: "\<forall>xs \<in> set ?stored. length xs = ?S" using ok(2) by (auto simp: length_padded)
  have il: "?i < length ?stored" using assms(4) by auto
  have jS: "?X < ?S" using assms(3) by presburger
  have "(if up then rev rows else rows) ! ?i = rows ! ?Y" using assms(4) by (simp add: rev_nth)
  then have st: "?stored ! ?i = padded (rows ! ?Y)" using il by simp
  have px: "padded (rows ! ?Y) ! ?X = rows ! ?Y ! ?X" using assms(3,4) ok(2) by (simp add: padded_def nth_append)
  have p0: "length (bmp_headers up ?n w ?h fsz @ concat (map (\<lambda>(r, g, b). [b, g, r, 0]) palette)) = 54 + 4 * ?n"
    by (simp add: length_headers length_palette)
  have rd: "rd8 ?file (54 + 4 * ?n + (?i * ?S + ?X)) = Some (rows ! ?Y ! ?X)"
    using rd8_behind [OF p0, of "?i * ?S + ?X" "concat ?stored"] nth_concat_blocks [OF bl il jS] unfolding st px
    by (simp only: bmp_file_def append_assoc)
  have off: "rd32 ?file 10 = Some (of_nat (54 + 4 * ?n))" by (rule headers_at(3)) (simp only: bmp_file_def)
  have un: "uint (of_nat (54 + 4 * ?n) :: u32) = int (54 + 4 * ?n)" using ok(1) by (simp add: uint_nat unat_of_nat del: of_nat_add)
  have row: "(if up then int ?h - 1 - (int y + int src_y) else int y + int src_y) = int ?i" using assms(4) by (simp add: of_nat_diff)
  have "int (54 + 4 * ?n) + (int ?i * int ?S + (int x + int src_x)) = int (54 + 4 * ?n + (?i * ?S + ?X))" by simp
  moreover have "(int w + 3) AND NOT 3 = int ?S" unfolding and_not_3 by (simp add: zdiv_int)
  ultimately have at: "uint (of_nat (54 + 4 * ?n) :: u32) + ((if up then int ?h - 1 - (int y + int src_y) else int y + int src_y) *
      ((int w + 3) AND NOT 3) + (int x + int src_x)) = int (54 + 4 * ?n + (?i * ?S + ?X))"
    unfolding un row by simp
  show ?thesis
    using assms(5) ok(1) unfolding sprite_pixel_def picture_image_def
    by (simp only: bmp_image.simps off rd at bind.simps Let_def nat_int of_nat_less_0_iff if_False) (simp add: nth_append picture_pixel_def split_beta)
qed

lemma nth_sprite_bytes:
  assumes "\<And>x y. x < n \<Longrightarrow> y < n \<Longrightarrow> length (pixel x y) = 4" "x < n" "y < n" "c < 4"
  shows "sprite_bytes pixel n ! ((x + n * y) * 4 + c) = pixel x y ! c"
proof -
  let ?row = "\<lambda>y. concat (map (\<lambda>x. pixel x y) [0..<n])"
  have "\<forall>xs \<in> set (map ?row [0..<n]). length xs = n * 4" using assms(1) by (auto simp: length_concat_map)
  moreover have "x * 4 + c < n * 4" using assms(2,4) by linarith
  ultimately have "concat (map ?row [0..<n]) ! (y * (n * 4) + (x * 4 + c)) = ?row y ! (x * 4 + c)"
    using nth_concat_blocks [of "map ?row [0..<n]" "n * 4" y "x * 4 + c"] assms(3) by simp
  moreover have "?row y ! (x * 4 + c) = pixel x y ! c"
    using nth_concat_blocks [of "map (\<lambda>x. pixel x y) [0..<n]" 4 x c] assms by auto
  ultimately show ?thesis by (simp add: sprite_bytes_def algebra_simps)
qed

lemma sprite_stored:
  assumes "\<And>x y. x < unat n \<Longrightarrow> y < unat n \<Longrightarrow> sprite_pixel im (int src_x) (int src_y) x y = Some (pixel x y)"
    and "unat n * unat n * 4 < 2 ^ 32" "syscall_malloc (ucast (n * n) * 4) raw regs s = Some (data, s1)" "data \<noteq> 0"
  shows "bmp_load_sprite (Some im) n (int src_x) (int src_y) raw regs s =
    Some ((True, \<lparr>sp_size = n, sp_data = data\<rparr>), s1\<lparr>sys_mem := mem_write (sys_mem s1) data (sprite_bytes pixel (unat n))\<rparr>)"
  using load_pixels [of n im "int src_x" "int src_y" pixel "\<lparr>sp_size = n, sp_data = data\<rparr>" s1] assms
  by (simp add: bmp_load_sprite_def)

lemma mem_read_part:
  assumes "length bs < 2 ^ 64" "k + n \<le> length bs"
  shows "mem_read (mem_write mem a bs) (a + of_nat k) n = take n (drop k bs)"
proof (rule nth_equalityI)
  fix i assume "i < length (mem_read (mem_write mem a bs) (a + of_nat k) n)"
  then have i: "i < n" by simp
  then have "unat (of_nat (k + i) :: u64) = k + i" using assms by (simp add: unat_of_nat del: of_nat_add)
  moreover have "a + of_nat k + of_nat i - a = (of_nat (k + i) :: u64)" by simp
  ultimately show "mem_read (mem_write mem a bs) (a + of_nat k) n ! i = take n (drop k bs) ! i"
    using mem_write_nth [OF assms(1), of mem a "a + of_nat k + of_nat i"] i assms(2) by (simp add: mem_read_def)
qed (use assms in simp)

section \<open>Property\<close>

text \<open>
  C31. Pictures arrive in memory. A sprite cut out of a picture file (8 bits per pixel, stored from the top or from the bottom, any
  palette up to 256 colours) is in the memory that the process allocated, and each of its pixels has the bytes of the colour that
  the picture has at that place. No other byte of the program's memory changes.
\<close>

theorem bmp_sprite_pixels:
  assumes "picture_ok palette w rows" "\<forall>row \<in> set rows. \<forall>k \<in> set row. unat k < length palette"
    and "file = bmp_file up palette w rows fsz" "length file < 2 ^ 31"
    and "src_x + unat n \<le> w" "src_y + unat n \<le> length rows" "unat n * unat n * 4 < 2 ^ 32"
    and "syscall_malloc (ucast (n * n) * 4) raw regs s = Some (data, s1)" "data \<noteq> 0"
  shows "\<exists>im s2. bmp_load_image (Some file) (of_nat (length file)) (Some blank_image) = Some (True, Some im) \<and>
    bmp_load_sprite (Some im) n (int src_x) (int src_y) raw regs s = Some ((True, \<lparr>sp_size = n, sp_data = data\<rparr>), s2) \<and>
    (\<forall>x < unat n. \<forall>y < unat n. mem_read (sys_mem s2) (data + of_nat ((x + unat n * y) * 4)) 4 =
       picture_pixel palette rows (src_x + x) (src_y + y)) \<and>
    (\<forall>a. unat (a - data) \<ge> unat n * unat n * 4 \<longrightarrow> sys_mem s2 a = sys_mem s1 a)"
proof -
  define im where "im = picture_image up palette w rows fsz (of_nat (length file))"
  let ?px = "\<lambda>x y. picture_pixel palette rows (src_x + x) (src_y + y)" and ?N = "unat n"
  let ?bs = "sprite_bytes ?px ?N"
  have len4: "length (?px x y) = 4" for x y by (simp add: picture_pixel_def split_beta)
  then have len: "length ?bs = ?N * ?N * 4" by (simp add: length_sprite_bytes)
  have px: "sprite_pixel im (int src_x) (int src_y) x y = Some (?px x y)" if "x < ?N" "y < ?N" for x y
  proof -
    have c: "src_x + x < w" "src_y + y < length rows" using that assms(5,6) by simp_all
    then have "length (rows ! (src_y + y)) = w" using assms(1) by (simp add: picture_ok_def)
    then have "unat (rows ! (src_y + y) ! (src_x + x)) < length palette" using assms(2) c nth_mem by metis
    then show ?thesis unfolding im_def by (intro pixel_of_picture [OF assms(1)] c) (use assms(3,4) in simp_all)
  qed
  let ?s2 = "s1\<lparr>sys_mem := mem_write (sys_mem s1) data ?bs\<rparr>"
  have l: "bmp_load_sprite (Some im) n (int src_x) (int src_y) raw regs s = Some ((True, \<lparr>sp_size = n, sp_data = data\<rparr>), ?s2)"
    by (rule sprite_stored) (use px assms(7-9) in auto)
  have L: "length ?bs < 2 ^ 64" using len assms(7) by simp
  have "mem_read (sys_mem ?s2) (data + of_nat ((x + ?N * y) * 4)) 4 = ?px x y" if "x < ?N" "y < ?N" for x y
  proof -
    have b: "(x + ?N * y) * 4 + 4 \<le> length ?bs" using index_in_square [OF that] len by simp
    have "take 4 (drop ((x + ?N * y) * 4) ?bs) = ?px x y"
      by (rule nth_equalityI) (use b len4 nth_sprite_bytes [of ?N ?px] that in auto)
    then show ?thesis using mem_read_part [OF L b, of "sys_mem s1" data] by simp
  qed
  moreover have "sys_mem ?s2 a = sys_mem s1 a" if "unat (a - data) \<ge> ?N * ?N * 4" for a
    using mem_write_nth [OF L, of "sys_mem s1" data a] that len by simp
  ultimately show ?thesis using image_loaded [OF assms(1,3,4)] l im_def by blast
qed

text \<open>A system with one process, whose heap is \<open>small_heap\<close>, and a picture of six pixels.\<close>

definition demo_system :: system where
  "demo_system = \<lparr>os_vm = boot_vm2, os_vfs = vfs_init, os_sched = demo_sched\<lparr>sc_procs := [process_zero\<lparr>pr_heap := small_heap\<rparr>]\<rparr>,
     os_interrupts = True, global_pid_counter = 1, sys_wm = demo_wm, sys_last_handle = 2, sys_gd = GD_UNKNOWN, sys_mem = (\<lambda>_. 0)\<rparr>"

definition demo_regs :: syscall_regs where
  "demo_regs = \<lparr>rg_rdi = 0, rg_rsi = 0, rg_rdx = 0, rg_r10 = 0, rg_r8 = 0, rg_r9 = 0\<rparr>"

lemma demo_process: "get_current_process demo_system = Some 0"
  by (simp add: get_current_process_def demo_system_def demo_sched_def)

lemma demo_malloc:
  assumes "0 < sz" "sz < 0x200000"
  shows "\<exists>s. syscall_malloc sz raw regs demo_system = Some (0x40400000 - sz, s) \<and> sys_mem s = sys_mem demo_system"
proof -
  have ne: "0x200000 \<noteq> sz" and le: "sz \<le> 0x200000" using assms(2) by auto
  have "\<exists>h. heap_alloc vmem_smart_alloc_pages small_heap sz boot_vm2 = (0x40400000 - sz, h, boot_vm2)"
    using assms ne le by (simp add: heap_alloc.simps filter_donor_unused find_donor_def find_unused_def small_heap_blocks
        zero_block_def donor_block_filter_def Let_def)
  then obtain h where "heap_alloc vmem_smart_alloc_pages small_heap sz boot_vm2 = (0x40400000 - sz, h, boot_vm2)" by blast
  moreover have "pr_heap (sc_procs (os_sched demo_system) ! 0) = small_heap" "os_vm demo_system = boot_vm2"
    by (simp_all add: demo_system_def)
  ultimately show ?thesis using demo_process
    by (simp add: syscall_malloc_def returned_def amd64_syscall_dispatch_def syscall_dispatch_def SYSCALL_TERMINATE_PROCESS_def
        SYSCALL_HEAP_ALLOC_def syscall_heap_alloc_def with_process_def process_heap_alloc_def upd_process_def)
qed

theorem bmp_sprite_pixels_witness:
  "\<exists>im s2. bmp_load_image (Some (bmp_file True [(1, 2, 3), (4, 5, 6)] 3 [[0, 1, 0], [1, 1, 0]] 70)) 70 (Some blank_image) = Some (True, Some im) \<and>
    bmp_load_sprite (Some im) 2 1 0 (\<lambda>_. []) demo_regs demo_system = Some ((True, \<lparr>sp_size = 2, sp_data = 0x403FFFF0\<rparr>), s2) \<and>
    mem_read (sys_mem s2) (0x403FFFF0 + 12) 4 = [3, 2, 1, 0xFF]"
proof -
  let ?p = "[(1, 2, 3), (4, 5, 6)] :: (u8 \<times> u8 \<times> u8) list" and ?r = "[[0, 1, 0], [1, 1, 0]] :: u8 list list"
  define f where "f = bmp_file True ?p 3 ?r 70"
  have len: "length f = 70" by (simp add: f_def bmp_file_def length_headers length_padded)
  obtain s1 where m: "syscall_malloc (ucast (2 * 2 :: u32) * 4) (\<lambda>_. []) demo_regs demo_system = Some (0x403FFFF0, s1)"
    using demo_malloc [of 16] by auto
  have ok: "picture_ok ?p 3 ?r" "\<forall>row \<in> set ?r. \<forall>k \<in> set row. unat k < length ?p" by (simp_all add: picture_ok_def)
  have b: "length f < 2 ^ 31" "1 + unat (2 :: u32) \<le> 3" "0 + unat (2 :: u32) \<le> length ?r" "unat (2 :: u32) * unat (2 :: u32) * 4 < 2 ^ 32"
    by (simp_all add: len)
  from bmp_sprite_pixels [OF ok f_def b m] obtain im s2 where r:
    "bmp_load_image (Some f) (of_nat (length f)) (Some blank_image) = Some (True, Some im)"
    "bmp_load_sprite (Some im) 2 (int 1) (int 0) (\<lambda>_. []) demo_regs demo_system = Some ((True, \<lparr>sp_size = 2, sp_data = 0x403FFFF0\<rparr>), s2)"
    "\<forall>x < unat (2 :: u32). \<forall>y < unat (2 :: u32). mem_read (sys_mem s2) (0x403FFFF0 + of_nat ((x + unat (2 :: u32) * y) * 4)) 4 =
       picture_pixel ?p ?r (1 + x) (0 + y)" by auto
  have "mem_read (sys_mem s2) (0x403FFFF0 + 12) 4 = [3, 2, 1, 0xFF]" using r(3) [rule_format, of 1 1] by (simp add: picture_pixel_def)
  then show ?thesis using r(1,2) len by (auto simp: f_def)
qed

end
