(* ===== verification/Game_Screen.thy ===== *)
theory Game_Screen
  imports Bmp Minesweeper_Play
begin

text \<open>
  What the game draws: \<open>sprite_render\<close>, \<open>render_box\<close> and \<open>render_gameboard\<close> of \<open>src/minesweeper/src/main.cpp\<close>.

  \<open>game_ui\<close> has the fields of \<open>game_t\<close> and the statics of \<open>main.cpp\<close> that only drawing uses. The board is the
  list of tiles of the game, not bytes of the program's memory; the window's buffer and the sprites are such bytes.
\<close>

record game_ui =
  ui_window_handle :: u64
  ui_sprites :: "sprite_kind \<Rightarrow> sprite"
  ui_smiley_happy :: sprite
  ui_smiley_dead :: sprite
  ui_smiley_cool :: sprite
  ui_window_width :: u64
  ui_window_height :: u64

definition tile_size :: u32 where "tile_size = 16"

text \<open>A row of a sprite is copied with \<open>memcpy\<close>.\<close>

definition sprite_row :: "u64 \<Rightarrow> u64 \<Rightarrow> sprite \<Rightarrow> u32 \<Rightarrow> u32 \<Rightarrow> nat \<Rightarrow> (u64 \<Rightarrow> u8) \<Rightarrow> u64 \<Rightarrow> u8" where
  "sprite_row window_width buffer sprite dst_x dst_y y mem =
     (let target = buffer + (scast dst_x + window_width * scast (dst_y + of_nat y)) * 4;
          src = sp_data sprite + ucast (sp_size sprite * of_nat y) * 4
      in mem_write mem target (mem_read mem src (unat (ucast (sp_size sprite) * 4 :: u64))))"

definition sprite_render :: "game_ui \<Rightarrow> u64 \<Rightarrow> sprite option \<Rightarrow> u32 \<Rightarrow> u32 \<Rightarrow> (u64 \<Rightarrow> u8) \<Rightarrow> bool \<times> (u64 \<Rightarrow> u8)" where
  "sprite_render ui buffer sprite dst_x dst_y mem =
     (case sprite of None \<Rightarrow> (False, mem) | Some sp \<Rightarrow>
        if buffer = 0 then (False, mem)
        else (True, fold (sprite_row (ui_window_width ui) buffer sp dst_x dst_y) [0..<unat (sp_size sp)] mem))"

definition render_box :: "game_ui \<Rightarrow> u64 \<Rightarrow> u32 \<Rightarrow> u32 \<Rightarrow> u32 \<Rightarrow> u32 \<Rightarrow> u32 \<Rightarrow> (u64 \<Rightarrow> u8) \<Rightarrow> bool \<times> (u64 \<Rightarrow> u8)" where
  "render_box ui buffer x y w h color mem =
     (if ucast (x + w) > ui_window_width ui \<or> ucast (y + h) > ui_window_height ui then (False, mem)
      else let row = buffer + (ucast y * ui_window_width ui + ucast x) * 4 in
        (True, fold (\<lambda>j. fold (\<lambda>i mem. mem_write mem (row + of_nat j * ui_window_width ui * 4 + of_nat i * 4) (le32 color))
            [0..<unat w]) [0..<unat h] mem))"

text \<open>A null buffer is cleared, which stops the program.\<close>

definition draw_tile :: "game \<Rightarrow> game_ui \<Rightarrow> u64 \<Rightarrow> nat \<Rightarrow> nat \<Rightarrow> (u64 \<Rightarrow> u8) \<Rightarrow> (u64 \<Rightarrow> u8) option" where
  "draw_tile g ui buffer x y mem = do {
     i \<leftarrow> get_tile_at g (of_nat x) (of_nat y);
     t \<leftarrow> tile_at g i;
     let sprite = ui_sprites ui (tile_get_sprite g t);
     Some (snd (sprite_render ui buffer (Some sprite) (of_nat x * tile_size + gm_board_offsetx g) (of_nat y * tile_size + gm_board_offsety g) mem)) }"

definition draw_gameboard :: "game \<Rightarrow> game_ui \<Rightarrow> u64 \<Rightarrow> (u64 \<Rightarrow> u8) \<Rightarrow> (u64 \<Rightarrow> u8) option" where
  "draw_gameboard g ui buffer mem = (if buffer = 0 then None else do {
     let mem = mem_write mem buffer (replicate (unat (ui_window_width ui * ui_window_height ui * 4)) 0);
     c \<leftarrow> active_config g;
     let mem = snd (render_box ui buffer 0 0 (tile_size * of_nat (gc_width c)) 30 0xFFC0C0C0 mem);
     mem \<leftarrow> each (\<lambda>x. each (draw_tile g ui buffer x) [0..<gc_height c]) [0..<gc_width c] mem;
     let smiley = (if gm_is_running g then ui_smiley_happy ui
                   else if gm_has_won g then ui_smiley_cool ui else ui_smiley_dead ui);
     Some (snd (sprite_render ui buffer (Some smiley) (gm_smileyx g) (gm_smileyy g) mem)) })"

definition render_gameboard :: "game \<Rightarrow> game_ui \<Rightarrow> unit call" where
  "render_gameboard g ui raw regs s = do {
     (buffer, s) \<leftarrow> syscall_get_window_buffer (ui_window_handle ui) raw regs s;
     mem \<leftarrow> draw_gameboard g ui buffer (sys_mem s);
     (_, s) \<leftarrow> syscall_render_window (ui_window_handle ui) raw regs (s\<lparr>sys_mem := mem\<rparr>);
     Some ((), s) }"

section \<open>The buffer as a picture\<close>

text \<open>\<open>screen B W H m0 m F\<close>: the buffer at \<open>B\<close>, of \<open>W\<close> by \<open>H\<close> pixels of four bytes, has the bytes \<open>F\<close>, and the rest of
  the memory is that of \<open>m0\<close>.\<close>

definition screen :: "nat \<Rightarrow> nat \<Rightarrow> nat \<Rightarrow> (u64 \<Rightarrow> u8) \<Rightarrow> (u64 \<Rightarrow> u8) \<Rightarrow> (nat \<Rightarrow> nat \<Rightarrow> nat \<Rightarrow> u8) \<Rightarrow> bool" where
  "screen B W H m0 m F \<longleftrightarrow>
     (\<forall>x < W. \<forall>y < H. \<forall>c < 4. m (of_nat (B + 4 * (x + W * y) + c)) = F x y c) \<and>
     (\<forall>a < 2 ^ 64. \<not> (B \<le> a \<and> a < B + 4 * (W * H)) \<longrightarrow> m (of_nat a) = m0 (of_nat a))"

lemma row_between:
  assumes "x' < W" "x + n \<le> (W :: nat)"
  shows "x + W * y \<le> x' + W * y' \<and> x' + W * y' < x + n + W * y \<longleftrightarrow> y' = y \<and> x \<le> x' \<and> x' < x + n"
proof -
  consider "y' < y" | "y' = y" | "y < y'" by (rule linorder_cases)
  then show ?thesis
  proof cases
    case 1
    then have "W * Suc y' \<le> W * y" by (intro mult_le_mono2) simp
    then show ?thesis using assms 1 by auto
  next
    case 3
    then have "W * Suc y \<le> W * y'" by (intro mult_le_mono2) simp
    then show ?thesis using assms 3 by auto
  qed auto
qed

lemma in_picture: "x < W \<Longrightarrow> y < H \<Longrightarrow> x + W * y < W * (H :: nat)"
  by (rule index_in_board)

lemma quarter: "c < 4 \<Longrightarrow> B + 4 * p \<le> B + 4 * q + c \<and> B + 4 * q + c < B + 4 * p + 4 * n \<longleftrightarrow> p \<le> q \<and> q < p + (n :: nat)"
  by arith

lemma quarter_outside: "p + n \<le> q \<Longrightarrow> \<not> (B \<le> a \<and> a < B + 4 * q) \<Longrightarrow> \<not> (B + 4 * p \<le> a \<and> a < B + 4 * p + 4 * (n :: nat))"
  by arith

text \<open>Writing part of a row.\<close>

lemma screen_row:
  assumes "screen B W H m0 m F" "B + 4 * (W * H) < 2 ^ 64" "x + n \<le> W" "y < H" "length bs = 4 * n"
  shows "screen B W H m0 (mem_write m (of_nat (B + 4 * (x + W * y))) bs)
    (\<lambda>x' y' c. if y' = y \<and> x \<le> x' \<and> x' < x + n then bs ! (4 * (x' - x) + c) else F x' y' c)"
proof -
  let ?a = "B + 4 * (x + W * y)"
  have end_in: "x + n + W * y \<le> W * H"
  proof -
    have "W * Suc y \<le> W * H" using assms(4) by (intro mult_le_mono2) simp
    then show ?thesis using assms(3) by simp
  qed
  then have ua: "unat (of_nat ?a :: u64) = ?a" using assms(2) by (simp add: unat_of_nat del: of_nat_add of_nat_mult)
  have out: "\<forall>a < 2 ^ 64. \<not> (B \<le> a \<and> a < B + 4 * (W * H)) \<longrightarrow> m (of_nat a) = m0 (of_nat a)" using assms(1) unfolding screen_def by blast
  have lt: "unat (of_nat ?a :: u64) + length bs < 2 ^ 64" using assms(2,5) end_in unfolding ua by simp
  have w: "mem_write m (of_nat ?a) bs (of_nat j) = (if ?a \<le> j \<and> j < ?a + 4 * n then bs ! (j - ?a) else m (of_nat j))" if "j < 2 ^ 64" for j
    using mem_write_at [OF lt that] unfolding ua assms(5) .
  have "mem_write m (of_nat ?a) bs (of_nat (B + 4 * (x' + W * y') + c)) =
      (if y' = y \<and> x \<le> x' \<and> x' < x + n then bs ! (4 * (x' - x) + c) else F x' y' c)"
    if p: "x' < W" "y' < H" "c < 4" for x' y' c
  proof -
    have j: "B + 4 * (x' + W * y') + c < 2 ^ 64" using in_picture [OF p(1,2)] assms(2) p(3) by simp
    have "?a \<le> B + 4 * (x' + W * y') + c \<and> B + 4 * (x' + W * y') + c < ?a + 4 * n \<longleftrightarrow>
        x + W * y \<le> x' + W * y' \<and> x' + W * y' < x + W * y + n" using p(3) by (rule quarter)
    also have "\<dots> \<longleftrightarrow> x + W * y \<le> x' + W * y' \<and> x' + W * y' < x + n + W * y" by (simp add: ac_simps)
    also have "\<dots> \<longleftrightarrow> y' = y \<and> x \<le> x' \<and> x' < x + n" by (rule row_between [OF p(1) assms(3)])
    finally have iff: "?a \<le> B + 4 * (x' + W * y') + c \<and> B + 4 * (x' + W * y') + c < ?a + 4 * n \<longleftrightarrow> y' = y \<and> x \<le> x' \<and> x' < x + n" .
    have "y' = y \<Longrightarrow> x \<le> x' \<Longrightarrow> B + 4 * (x' + W * y') + c - ?a = 4 * (x' - x) + c" by auto
    then show ?thesis using w [OF j] iff assms(1) p by (auto simp: screen_def)
  qed
  moreover have "mem_write m (of_nat ?a) bs (of_nat a) = m0 (of_nat a)" if "a < 2 ^ 64" "\<not> (B \<le> a \<and> a < B + 4 * (W * H))" for a
  proof -
    have "x + W * y + n \<le> W * H" using end_in by simp
    then have "\<not> (?a \<le> a \<and> a < ?a + 4 * n)" using that(2) by (rule quarter_outside)
    then have "mem_write m (of_nat ?a) bs (of_nat a) = m (of_nat a)" unfolding w [OF that(1)] by (rule if_not_P)
    then show ?thesis using out that by metis
  qed
  ultimately show ?thesis unfolding screen_def by blast
qed

section \<open>Sprites and boxes on the screen\<close>

lemma scast_small: "unat (w :: u32) < 2 ^ 31 \<Longrightarrow> (scast w :: u64) = of_nat (unat w)"
proof -
  assume "unat w < 2 ^ 31"
  then have "int (unat w) < int (2 ^ 31)" by (simp only: of_nat_less_iff)
  then have "uint w < 2 ^ 31" by simp
  moreover have "- (2 ^ 31) \<le> uint w" by (rule order_trans [OF _ uint_ge_0]) simp
  ultimately have "sint w = uint w" by (simp add: sint_uint signed_take_bit_int_eq_self)
  then have "uint (scast w :: u64) = uint w" using scast_nonneg [of w] uint_ge_0 [of w] by simp
  then have "int (unat (scast w :: u64)) = int (unat w)" by simp
  then have "unat (scast w :: u64) = unat w" by (simp only: of_nat_eq_iff)
  then have "(of_nat (unat (scast w :: u64)) :: u64) = of_nat (unat w)" by (simp only:)
  then show ?thesis by simp
qed

text \<open>A sprite of \<open>n\<close> by \<open>n\<close> pixels that lies outside the buffer.\<close>

definition sprite_ok :: "nat \<Rightarrow> nat \<Rightarrow> nat \<Rightarrow> sprite \<Rightarrow> nat \<Rightarrow> bool" where
  "sprite_ok B W H sp n \<longleftrightarrow> unat (sp_size sp) = n \<and> n < 2 ^ 15 \<and> unat (sp_data sp) + 4 * (n * n) < 2 ^ 64 \<and>
     (unat (sp_data sp) + 4 * (n * n) \<le> B \<or> B + 4 * (W * H) \<le> unat (sp_data sp))"

definition sprite_byte :: "(u64 \<Rightarrow> u8) \<Rightarrow> sprite \<Rightarrow> nat \<Rightarrow> nat \<Rightarrow> nat \<Rightarrow> u8" where
  "sprite_byte mem sp i j c = mem (of_nat (unat (sp_data sp) + 4 * (i + unat (sp_size sp) * j) + c))"

lemma sprite_byte_kept:
  assumes "screen B W H m0 m F" "sprite_ok B W H sp n" "i < n" "j < n" "c < 4"
  shows "sprite_byte m sp i j c = sprite_byte m0 sp i j c"
proof -
  have "i + n * j < n * n" by (rule index_in_square [OF assms(3,4)])
  then show ?thesis using assms by (auto simp: screen_def sprite_ok_def sprite_byte_def simp del: of_nat_add of_nat_mult)
qed

lemma screen_sprite_row:
  assumes "screen B W H m0 m F" "sprite_ok B W H sp n" "j < n"
    and "unat buffer = B" "unat ww = W" "B + 4 * (W * H) < 2 ^ 64"
    and "unat dx + n \<le> W" "unat dy + n \<le> H" "W < 2 ^ 31" "H < 2 ^ 31"
  shows "screen B W H m0 (sprite_row ww buffer sp dx dy j m)
    (\<lambda>x y c. if y = unat dy + j \<and> unat dx \<le> x \<and> x < unat dx + n then sprite_byte m0 sp (x - unat dx) j c else F x y c)"
proof -
  let ?x = "unat dx" and ?y = "unat dy + j" and ?P = "unat (sp_data sp)"
  have n: "unat (sp_size sp) = n" "n < 2 ^ 15" "?P + 4 * (n * n) < 2 ^ 64" using assms(2) by (simp_all add: sprite_ok_def)
  have s: "sp_size sp = of_nat n" unfolding n(1) [symmetric] by simp
  have b: "buffer = of_nat B" "ww = of_nat W" "sp_data sp = of_nat ?P" by (simp_all flip: assms(4,5))
  have nj: "n * j < 2 ^ 30"
  proof -
    have "n * j < 2 ^ 15 * 2 ^ 15" using n(2) assms(3) by (intro mult_strict_mono) simp_all
    then show ?thesis by simp
  qed
  have dx: "(scast dx :: u64) = of_nat ?x" by (rule scast_small) (use assms(7,9) in simp)
  have "unat (dy + of_nat j) = ?y" using assms(3,8,10) unat_of_nat [of ?y, where 'a = 32] by simp
  then have dy: "(scast (dy + of_nat j) :: u64) = of_nat ?y" using scast_small [of "dy + of_nat j"] assms(3,8,10) by simp
  have target: "buffer + (scast dx + ww * scast (dy + of_nat j)) * 4 = of_nat (B + 4 * (?x + W * ?y))"
    unfolding dx dy by (subst b(1), subst b(2)) (simp add: algebra_simps)
  have "unat (sp_size sp * of_nat j) = n * j" using nj unat_of_nat [of "n * j", where 'a = 32] by (simp add: s)
  then have "(ucast (sp_size sp * of_nat j) :: u64) = of_nat (n * j)" by (metis of_nat_unat)
  then have src: "sp_data sp + ucast (sp_size sp * of_nat j) * 4 = of_nat (?P + 4 * (n * j))" by (subst b(3)) simp
  have "(ucast (sp_size sp) :: u64) = of_nat n" by (metis n(1) of_nat_unat)
  then have sz: "unat (ucast (sp_size sp) * 4 :: u64) = 4 * n" using n(2) unat_of_nat [of "4 * n", where 'a = 64] by (simp add: mult.commute)
  let ?bs = "mem_read m (of_nat (?P + 4 * (n * j))) (4 * n)"
  have row: "sprite_row ww buffer sp dx dy j m = mem_write m (of_nat (B + 4 * (?x + W * ?y))) ?bs"
    unfolding sprite_row_def Let_def target src sz ..
  have "n * j + n \<le> n * n" using mult_le_mono2 [of "Suc j" n n] assms(3) by simp
  then have "unat (of_nat (?P + 4 * (n * j)) :: u64) = ?P + 4 * (n * j)" using n(3) by (simp add: unat_of_nat del: of_nat_add of_nat_mult)
  then have bs: "?bs ! (4 * i + c) = sprite_byte m0 sp i j c" if "i < n" "c < 4" for i c
  proof -
    have "?bs ! (4 * i + c) = m (of_nat (?P + 4 * (n * j) + (4 * i + c)))"
      using that by (simp add: mem_read_def)
    also have "?P + 4 * (n * j) + (4 * i + c) = ?P + 4 * (i + unat (sp_size sp) * j) + c" by (simp add: n(1))
    finally show ?thesis using sprite_byte_kept [OF assms(1,2) that(1) assms(3) that(2)] by (simp add: sprite_byte_def)
  qed
  have "screen B W H m0 (sprite_row ww buffer sp dx dy j m)
      (\<lambda>x y c. if y = ?y \<and> ?x \<le> x \<and> x < ?x + n then ?bs ! (4 * (x - ?x) + c) else F x y c)"
    unfolding row by (rule screen_row [OF assms(1,6,7)]) (use assms(3,8) in simp_all)
  then show ?thesis unfolding screen_def using bs by auto
qed

lemma screen_cong:
  assumes "screen B W H m0 m F" "\<And>x y c. x < W \<Longrightarrow> y < H \<Longrightarrow> c < 4 \<Longrightarrow> F x y c = G x y c"
  shows "screen B W H m0 m G"
  using assms by (simp add: screen_def)

text \<open>A whole sprite at \<open>(dx, dy)\<close>.\<close>

definition with_sprite :: "(u64 \<Rightarrow> u8) \<Rightarrow> sprite \<Rightarrow> nat \<Rightarrow> nat \<Rightarrow> nat \<Rightarrow> (nat \<Rightarrow> nat \<Rightarrow> nat \<Rightarrow> u8) \<Rightarrow> nat \<Rightarrow> nat \<Rightarrow> nat \<Rightarrow> u8" where
  "with_sprite m0 sp n dx dy F x y c =
     (if dx \<le> x \<and> x < dx + n \<and> dy \<le> y \<and> y < dy + n then sprite_byte m0 sp (x - dx) (y - dy) c else F x y c)"

lemma screen_sprite:
  assumes "screen B W H m0 m F" "sprite_ok B W H sp n" "0 < B"
    and "unat buffer = B" "unat (ui_window_width ui) = W" "B + 4 * (W * H) < 2 ^ 64"
    and "unat dx + n \<le> W" "unat dy + n \<le> H" "W < 2 ^ 31" "H < 2 ^ 31"
  shows "screen B W H m0 (snd (sprite_render ui buffer (Some sp) dx dy m)) (with_sprite m0 sp n (unat dx) (unat dy) F)"
proof -
  have "screen B W H m0 (fold (sprite_row (ui_window_width ui) buffer sp dx dy) [0..<k] m)
      (\<lambda>x y c. if unat dx \<le> x \<and> x < unat dx + n \<and> unat dy \<le> y \<and> y < unat dy + k then sprite_byte m0 sp (x - unat dx) (y - unat dy) c else F x y c)"
    if "k \<le> n" for k
    using that
  proof (induction k)
    case 0
    show ?case by (simp, rule screen_cong [OF assms(1)]) auto
  next
    case (Suc k)
    then show ?case using screen_sprite_row [OF Suc.IH assms(2) _ assms(4-10), of k]
      by (auto elim!: screen_cong)
  qed
  from this [of n] show ?thesis using assms(2,3,4) by (auto simp: sprite_render_def with_sprite_def [abs_def] sprite_ok_def)
qed

lemma screen_zero:
  assumes "unat buffer = B" "B + 4 * (W * H) < 2 ^ 64"
  shows "screen B W H m (mem_write m buffer (replicate (4 * (W * H)) 0)) (\<lambda>_ _ _. 0)"
proof -
  have lt: "unat buffer + length (replicate (4 * (W * H)) (0 :: u8)) < 2 ^ 64" using assms by simp
  note w = mem_write_at [OF lt, unfolded assms(1)]
  have "mem_write m buffer (replicate (4 * (W * H)) 0) (of_nat (B + 4 * (x + W * y) + c)) = 0"
    if p: "x < W" "y < H" "c < 4" for x y c
  proof -
    have "x + W * y < W * H" by (rule in_picture [OF p(1,2)])
    then have q: "4 * (x + W * y) + c < 4 * (W * H)" using p(3) by simp
    then have "B + 4 * (x + W * y) + c < 2 ^ 64" using assms(2) by simp
    from w [OF this] q show ?thesis by (simp add: add.assoc del: of_nat_add of_nat_mult)
  qed
  moreover have "mem_write m buffer (replicate (4 * (W * H)) 0) (of_nat a) = m (of_nat a)"
    if "a < 2 ^ 64" "\<not> (B \<le> a \<and> a < B + 4 * (W * H))" for a
    using w [OF that(1)] that(2) by (metis length_replicate)
  ultimately show ?thesis unfolding screen_def by blast
qed

lemma screen_box:
  assumes "screen B W H m0 m F" "0 < B" "unat buffer = B" "unat (ui_window_width ui) = W" "unat (ui_window_height ui) = H"
    and "B + 4 * (W * H) < 2 ^ 64" "unat w \<le> W" "unat h \<le> H"
  shows "screen B W H m0 (snd (render_box ui buffer 0 0 w h color m))
    (\<lambda>x y c. if x < unat w \<and> y < unat h then le32 color ! c else F x y c)"
proof -
  let ?ww = "ui_window_width ui"
  have b: "buffer = of_nat B" "?ww = of_nat W" by (simp_all flip: assms(3,4))
  have pos: "buffer + of_nat j * ?ww * 4 + of_nat i * 4 = (of_nat (B + 4 * (i + W * j)) :: u64)" for i j
    unfolding b by (simp add: algebra_simps)
  let ?line = "\<lambda>j. fold (\<lambda>i mem. mem_write mem (buffer + of_nat j * ?ww * 4 + of_nat i * 4) (le32 color))"
  have line: "screen B W H m0 (?line j [0..<k] m) (\<lambda>x y c. if x < k \<and> y = j then le32 color ! c else G x y c)"
    if "screen B W H m0 m G" "k \<le> unat w" "j < unat h" for j k m G
    using that(2)
  proof (induction k)
    case (Suc k)
    have k: "k + 1 \<le> W" "j < H" "length (le32 color) = 4 * 1" using Suc.prems assms(7,8) that(3) by simp_all
    have "screen B W H m0 (?line j [0..<k] m) (\<lambda>x y c. if x < k \<and> y = j then le32 color ! c else G x y c)" using Suc by simp
    from screen_row [OF this assms(6) k] show ?case by (auto simp: pos elim!: screen_cong)
  qed (simp add: that(1))
  have "screen B W H m0 (fold (\<lambda>j. ?line j [0..<unat w]) [0..<k] m) (\<lambda>x y c. if x < unat w \<and> y < k then le32 color ! c else F x y c)"
    if "k \<le> unat h" for k
    using that
  proof (induction k)
    case (Suc k)
    then have "screen B W H m0 (fold (\<lambda>j. ?line j [0..<unat w]) [0..<k] m) (\<lambda>x y c. if x < unat w \<and> y < k then le32 color ! c else F x y c)" by simp
    from line [OF this order_refl, of k] Suc.prems show ?case by (auto elim!: screen_cong)
  qed (simp add: assms(1))
  moreover have "\<not> (ucast w > ?ww \<or> ucast h > ui_window_height ui)" using assms(4,5,7,8) by (simp add: word_less_nat_alt unat_ucast_up)
  ultimately show ?thesis by (simp add: render_box_def)
qed

section \<open>The board on the screen\<close>

text \<open>What the window shows: the tile at each place by its sprite, and above the board a grey box with the smiley.\<close>

definition tile_byte :: "(u64 \<Rightarrow> u8) \<Rightarrow> game_ui \<Rightarrow> game \<Rightarrow> tile \<Rightarrow> nat \<Rightarrow> nat \<Rightarrow> nat \<Rightarrow> u8" where
  "tile_byte mem ui g t = sprite_byte mem (ui_sprites ui (tile_get_sprite g t))"

definition smiley :: "game_ui \<Rightarrow> game \<Rightarrow> sprite" where
  "smiley ui g = (if gm_is_running g then ui_smiley_happy ui else if gm_has_won g then ui_smiley_cool ui else ui_smiley_dead ui)"

definition header_byte :: "(u64 \<Rightarrow> u8) \<Rightarrow> game_ui \<Rightarrow> game \<Rightarrow> nat \<Rightarrow> nat \<Rightarrow> nat \<Rightarrow> nat \<Rightarrow> u8" where
  "header_byte mem ui g n x y c =
     with_sprite mem (smiley ui g) n (unat (gm_smileyx g)) (unat (gm_smileyy g)) (\<lambda>x y c. le32 0xFFC0C0C0 ! c) x y c"

definition board_picture :: "(u64 \<Rightarrow> u8) \<Rightarrow> game_ui \<Rightarrow> game \<Rightarrow> game_config \<Rightarrow> tile list \<Rightarrow> nat \<Rightarrow> nat \<Rightarrow> nat \<Rightarrow> nat \<Rightarrow> u8" where
  "board_picture mem ui g c b n x y ch =
     (if y < 30 then header_byte mem ui g n x y ch
      else tile_byte mem ui g (b ! (x div 16 + gc_width c * ((y - 30) div 16))) (x mod 16) ((y - 30) mod 16) ch)"

text \<open>The buffer has the size that \<open>main\<close> asks for, and the sprites are outside it.\<close>

definition ui_ok :: "game_config \<Rightarrow> game_ui \<Rightarrow> nat \<Rightarrow> nat \<Rightarrow> bool" where
  "ui_ok c ui B n \<longleftrightarrow> unat (ui_window_width ui) = 16 * gc_width c \<and> unat (ui_window_height ui) = 16 * gc_height c + 30 \<and>
     0 < B \<and> B + 4 * (16 * gc_width c * (16 * gc_height c + 30)) < 2 ^ 64 \<and>
     (\<forall>k. sprite_ok B (16 * gc_width c) (16 * gc_height c + 30) (ui_sprites ui k) 16) \<and>
     (\<forall>sp \<in> {ui_smiley_happy ui, ui_smiley_dead ui, ui_smiley_cool ui}. sprite_ok B (16 * gc_width c) (16 * gc_height c + 30) sp n)"

lemma config_sizes: "active_config g = Some c \<Longrightarrow> gc_width c \<in> {9, 16, 30} \<and> gc_height c \<in> {9, 16}"
  by (auto simp: active_config_def game_configs_def less_Suc_eq numeral_3_eq_3 split: if_splits)

lemma board_tile_at:
  assumes "board_of c b g" "x < gc_width c" "y < gc_height c"
  shows "\<exists>i. get_tile_at g (of_nat x) (of_nat y) = Some i \<and> tile_at g i = Some (b ! (x + gc_width c * y))"
proof -
  have ac: "active_config g = Some c" and len: "length b = gc_width c * gc_height c" using assms(1) by (simp_all add: board_of_def)
  have sz: "gc_width c \<le> 30" "gc_height c \<le> 16" using config_sizes [OF ac] by auto
  have lt: "x + gc_width c * y < gc_width c * gc_height c" by (rule in_picture [OF assms(2,3)])
  also have "\<dots> \<le> 30 * 16" using sz by (intro mult_le_mono)
  finally have "unat (of_nat (x + gc_width c * y) :: u32) = x + gc_width c * y" by (simp add: unat_of_nat del: of_nat_add of_nat_mult)
  then have "get_tile_at g (of_nat x) (of_nat y) = Some (x + gc_width c * y)" using ac by (simp add: get_tile_at_def)
  moreover have "x + gc_width c * y < length b" using lt len by simp
  ultimately show ?thesis using board_of_tile [OF assms(1)] by blast
qed

lemma screen_tile:
  assumes "board_of c b g" "ui_ok c ui B n" "gm_board_offsetx g = 0" "gm_board_offsety g = 30" "unat buffer = B"
    and "W = 16 * gc_width c" "H = 16 * gc_height c + 30" "screen B W H m0 m F" "x < gc_width c" "y < gc_height c"
  shows "\<exists>m'. draw_tile g ui buffer x y m = Some m' \<and> screen B W H m0 m'
    (\<lambda>px py ch. if px div 16 = x \<and> 30 \<le> py \<and> (py - 30) div 16 = y
       then tile_byte m0 ui g (b ! (x + gc_width c * y)) (px mod 16) ((py - 30) mod 16) ch else F px py ch)"
proof -
  have ac: "active_config g = Some c" using assms(1) by (simp add: board_of_def)
  have sz: "gc_width c \<le> 30" "gc_height c \<le> 16" using config_sizes [OF ac] by auto
  obtain i where i: "get_tile_at g (of_nat x) (of_nat y) = Some i" "tile_at g i = Some (b ! (x + gc_width c * y))"
    using board_tile_at [OF assms(1,9,10)] by blast
  let ?t = "b ! (x + gc_width c * y)" and ?dx = "of_nat x * tile_size + gm_board_offsetx g" and ?dy = "of_nat y * tile_size + gm_board_offsety g"
  let ?sp = "ui_sprites ui (tile_get_sprite g ?t)"
  have ux: "unat ?dx = 16 * x" using assms(9) sz(1) unat_of_nat [of "16 * x", where 'a = 32] by (simp add: assms(3) tile_size_def mult.commute)
  have uy: "unat ?dy = 16 * y + 30" using assms(10) sz(2) unat_of_nat [of "16 * y + 30", where 'a = 32] by (simp add: assms(4) tile_size_def mult.commute)
  have u: "sprite_ok B W H ?sp 16" "0 < B" "unat (ui_window_width ui) = W" "B + 4 * (W * H) < 2 ^ 64"
    using assms(2) by (simp_all add: ui_ok_def assms(6,7))
  have "screen B W H m0 (snd (sprite_render ui buffer (Some ?sp) ?dx ?dy m)) (with_sprite m0 ?sp 16 (unat ?dx) (unat ?dy) F)"
    by (rule screen_sprite [OF assms(8) u(1,2) assms(5) u(3,4)]) (use ux uy assms(6,7,9,10) sz in simp_all)
  moreover have "with_sprite m0 ?sp 16 (unat ?dx) (unat ?dy) F px py ch =
      (if px div 16 = x \<and> 30 \<le> py \<and> (py - 30) div 16 = y then tile_byte m0 ui g ?t (px mod 16) ((py - 30) mod 16) ch else F px py ch)" for px py ch
  proof -
    have "16 * x \<le> px \<and> px < 16 * x + 16 \<longleftrightarrow> px div 16 = x" by auto
    moreover have "16 * y + 30 \<le> py \<and> py < 16 * y + 30 + 16 \<longleftrightarrow> 30 \<le> py \<and> (py - 30) div 16 = y" by auto
    moreover have "px - 16 * x = px mod 16" if "px div 16 = x" using that by (auto simp: minus_mult_div_eq_mod)
    moreover have "py - (16 * y + 30) = (py - 30) mod 16" if "(py - 30) div 16 = y"
    proof -
      have "py - (16 * y + 30) = py - 30 - 16 * y" by arith
      then show ?thesis using that minus_mult_div_eq_mod [of "py - 30" 16] by metis
    qed
    ultimately show ?thesis unfolding ux uy with_sprite_def tile_byte_def by auto
  qed
  ultimately show ?thesis using i by (intro exI conjI) (simp add: draw_tile_def, simp only: screen_def)
qed

lemma each_stages:
  assumes "P 0 s" "\<And>k s. k < n \<Longrightarrow> P k s \<Longrightarrow> \<exists>s'. f k s = Some s' \<and> P (Suc k) s'"
  shows "\<exists>s'. each f [0..<n] s = Some s' \<and> P n s'"
  using assms
proof (induction n)
  case (Suc n)
  then obtain s1 where "each f [0..<n] s = Some s1" "P n s1" by auto
  with Suc.prems(2) [of n s1] show ?case by (auto simp: each_append)
qed simp

lemma board_drawn:
  assumes "board_of c b g" "ui_ok c ui B n" "gm_board_offsetx g = 0" "gm_board_offsety g = 30" "unat buffer = B"
    and "W = 16 * gc_width c" "H = 16 * gc_height c + 30" "screen B W H m0 m F"
  shows "\<exists>m'. each (\<lambda>x. each (draw_tile g ui buffer x) [0..<gc_height c]) [0..<gc_width c] m = Some m' \<and> screen B W H m0 m'
    (\<lambda>px py ch. if 30 \<le> py then tile_byte m0 ui g (b ! (px div 16 + gc_width c * ((py - 30) div 16))) (px mod 16) ((py - 30) mod 16) ch
       else F px py ch)"
proof -
  let ?T = "\<lambda>px py ch. tile_byte m0 ui g (b ! (px div 16 + gc_width c * ((py - 30) div 16))) (px mod 16) ((py - 30) mod 16) ch"
  let ?P = "\<lambda>x y m. screen B W H m0 m (\<lambda>px py ch. if 30 \<le> py \<and> (px div 16 < x \<or> px div 16 = x \<and> (py - 30) div 16 < y) then ?T px py ch else F px py ch)"
  have col: "\<exists>m'. each (draw_tile g ui buffer x) [0..<gc_height c] m = Some m' \<and> ?P (Suc x) 0 m'" if x: "x < gc_width c" and p: "?P x 0 m" for x m
  proof -
    have "\<exists>m'. each (draw_tile g ui buffer x) [0..<gc_height c] m = Some m' \<and> ?P x (gc_height c) m'"
    proof (rule each_stages [where P = "?P x"])
      fix y m assume y: "y < gc_height c" and p: "?P x y m"
      from screen_tile [OF assms(1-7) p x y] show "\<exists>m'. draw_tile g ui buffer x y m = Some m' \<and> ?P x (Suc y) m'"
        by (fastforce elim!: screen_cong simp: less_Suc_eq)
    qed (rule p)
    moreover have "(py - 30) div 16 < gc_height c" if "30 \<le> py" "py < H" for py using that assms(7) by (simp add: div_less_iff_less_mult less_diff_conv2)
    ultimately show ?thesis by (fastforce elim!: screen_cong simp: less_Suc_eq)
  qed
  have "\<exists>m'. each (\<lambda>x. each (draw_tile g ui buffer x) [0..<gc_height c]) [0..<gc_width c] m = Some m' \<and> ?P (gc_width c) 0 m'"
    by (rule each_stages [where P = "\<lambda>x. ?P x 0"]) (use assms(8) col in auto)
  moreover have "px div 16 < gc_width c" if "px < W" for px using that assms(6) by (simp add: div_less_iff_less_mult mult.commute)
  ultimately show ?thesis by (fastforce elim!: screen_cong)
qed

lemma gameboard_drawn:
  assumes "board_of c b g" "ui_ok c ui B n" "gm_board_offsetx g = 0" "gm_board_offsety g = 30" "unat buffer = B"
    and "W = 16 * gc_width c" "H = 16 * gc_height c + 30" "unat (gm_smileyx g) + n \<le> W" "unat (gm_smileyy g) + n \<le> 30"
  shows "\<exists>m'. draw_gameboard g ui buffer m = Some m' \<and> screen B W H m m' (board_picture m ui g c b n)"
proof -
  have ac: "active_config g = Some c" using assms(1) by (simp add: board_of_def)
  have sz: "gc_width c \<le> 30" "gc_height c \<le> 16" using config_sizes [OF ac] by auto
  have u: "0 < B" "unat (ui_window_width ui) = W" "unat (ui_window_height ui) = H" "B + 4 * (W * H) < 2 ^ 64" "sprite_ok B W H (smiley ui g) n"
    using assms(2) by (auto simp: ui_ok_def assms(6,7) smiley_def)
  have bn: "buffer \<noteq> 0" using u(1) assms(5) by auto
  have "unat (ui_window_width ui * ui_window_height ui * 4) = 4 * (W * H)"
  proof -
    have "W * H * 4 < 2 ^ 64" using u(4) by linarith
    then show ?thesis using unat_of_nat [of "W * H * 4", where 'a = 64] by (simp flip: u(2,3))
  qed
  note z = screen_zero [OF assms(5) u(4), of m]
  let ?w = "tile_size * of_nat (gc_width c)"
  have uw: "unat ?w = W" using sz(1) unat_of_nat [of "16 * gc_width c", where 'a = 32] by (simp add: tile_size_def assms(6))
  have "30 \<le> H" by (simp add: assms(7))
  then have b0: "screen B W H m (snd (render_box ui buffer 0 0 ?w 30 0xFFC0C0C0 (mem_write m buffer (replicate (4 * (W * H)) 0))))
      (\<lambda>x y ch. if x < unat ?w \<and> y < unat (30 :: u32) then le32 0xFFC0C0C0 ! ch else 0)"
    by (intro screen_box [OF z u(1) assms(5) u(2,3,4)]) (simp_all add: uw)
  obtain m1 where m1: "each (\<lambda>x. each (draw_tile g ui buffer x) [0..<gc_height c]) [0..<gc_width c]
      (snd (render_box ui buffer 0 0 ?w 30 0xFFC0C0C0 (mem_write m buffer (replicate (4 * (W * H)) 0)))) = Some m1"
    "screen B W H m m1 (\<lambda>px py ch. if 30 \<le> py then tile_byte m ui g (b ! (px div 16 + gc_width c * ((py - 30) div 16))) (px mod 16) ((py - 30) mod 16) ch
       else if px < unat ?w \<and> py < unat (30 :: u32) then le32 0xFFC0C0C0 ! ch else 0)"
    using board_drawn [OF assms(1-7) b0] by blast
  let ?m2 = "snd (sprite_render ui buffer (Some (smiley ui g)) (gm_smileyx g) (gm_smileyy g) m1)"
  have "screen B W H m ?m2 (with_sprite m (smiley ui g) n (unat (gm_smileyx g)) (unat (gm_smileyy g))
      (\<lambda>px py ch. if 30 \<le> py then tile_byte m ui g (b ! (px div 16 + gc_width c * ((py - 30) div 16))) (px mod 16) ((py - 30) mod 16) ch
       else if px < unat ?w \<and> py < unat (30 :: u32) then le32 0xFFC0C0C0 ! ch else 0))"
    by (rule screen_sprite [OF m1(2) u(5,1) assms(5) u(2,4) assms(8)]) (use assms(6,7,9) sz in simp_all)
  then have "screen B W H m ?m2 (board_picture m ui g c b n)"
    by (rule screen_cong) (use assms(9) uw in \<open>auto simp: board_picture_def header_byte_def with_sprite_def\<close>)
  then show ?thesis using m1(1) ac bn \<open>unat (ui_window_width ui * ui_window_height ui * 4) = 4 * (W * H)\<close>
    by (auto simp: draw_gameboard_def smiley_def)
qed

end
