(* ===== verification/Game_Loop.thy ===== *)
theory Game_Loop
  imports Game_Screen
begin

text \<open>
  The game as a program of the system: \<open>main\<close> and the event handlers of \<open>src/minesweeper/src/main.cpp\<close> with the
  calls they make.

  The board is the list of tiles of the game; the block allocated for it, and the one for the positions of the bombs, are
  requested and released, but their bytes are not part of \<open>sys_mem\<close>. The picture file is read once, when it has been
  loaded. The places of local variables and of the constant path in the program's memory are arguments.
\<close>

record game_program =
  gp_game :: game
  gp_seed :: u64
  gp_board :: u64
  gp_ui :: game_ui

definition sizeof_tile :: u64 where "sizeof_tile = 24"

text \<open>The allocations of \<open>game_board_create\<close>: the address of the board, or 0.\<close>

definition board_blocks :: "game_config \<Rightarrow> u64 call" where
  "board_blocks c raw regs s = do {
     let n = (of_nat (gc_height c * gc_width c) :: u64);
     (board, s) \<leftarrow> syscall_malloc (n * sizeof_tile) raw regs s;
     if board = 0 then Some (0, s) else do {
       (positions, s) \<leftarrow> syscall_malloc (n * 4 * 2) raw regs s;
       if positions = 0 then None else do {
         (_, s) \<leftarrow> syscall_free positions raw regs s;
         Some (board, s) } } }"

definition on_smiley :: "game \<Rightarrow> u32 \<Rightarrow> u32 \<Rightarrow> bool" where
  "on_smiley g x y \<longleftrightarrow> y < gm_board_offsety g \<and> x \<ge> gm_smileyx g \<and> x < gm_smileyx g + gm_smiley_size g \<and>
     y \<ge> gm_smileyy g \<and> y < gm_smileyy g + gm_smiley_size g"

text \<open>Whether a handler finds a tile, and so comes to draw.\<close>

definition on_tile :: "game \<Rightarrow> u32 \<Rightarrow> u32 \<Rightarrow> bool option" where
  "on_tile g x y = (if \<not> gm_is_running g then Some False
     else map_option (\<lambda>r. r \<noteq> None) (get_tile_from_pos g (x - gm_board_offsetx g) (y - gm_board_offsety g)))"

definition play_on_tile :: "window_event \<Rightarrow> u32 \<Rightarrow> u32 \<Rightarrow> game_program \<Rightarrow> game_program call" where
  "play_on_tile e x y p raw regs s = do {
     tile \<leftarrow> on_tile (gp_game p) x y;
     (g, seed) \<leftarrow> event_hook True e (gp_game p) (gp_seed p);
     let p = p\<lparr>gp_game := g, gp_seed := seed\<rparr>;
     if tile then do { (_, s) \<leftarrow> render_gameboard g (gp_ui p) raw regs s; Some (p, s) } else Some (p, s) }"

definition play_new_game :: "window_event \<Rightarrow> game_program \<Rightarrow> game_program call" where
  "play_new_game e p raw regs s = do {
     (_, s) \<leftarrow> syscall_free (gp_board p) raw regs s;
     c \<leftarrow> active_config (gp_game p);
     (board, s) \<leftarrow> board_blocks c raw regs s;
     (g, seed) \<leftarrow> event_hook (board \<noteq> 0) e (gp_game p) (gp_seed p);
     let p = p\<lparr>gp_game := g, gp_seed := seed, gp_board := board\<rparr>;
     (_, s) \<leftarrow> render_gameboard g (gp_ui p) raw regs s;
     Some (p, s) }"

definition play_event :: "window_event \<Rightarrow> game_program \<Rightarrow> game_program call" where
  "play_event e p raw regs s =
     (case e of
        WE_MBL_DOWN x y \<Rightarrow> play_on_tile e x y p raw regs s
      | WE_MBL_UP x y \<Rightarrow>
          if y < gm_board_offsety (gp_game p)
          then if on_smiley (gp_game p) x y then play_new_game e p raw regs s else Some (p, s)
          else play_on_tile e x y p raw regs s
      | WE_MBR_UP x y \<Rightarrow> play_on_tile e x y p raw regs s
      | WE_MBR_DOWN x y \<Rightarrow> Some (p, s))"

text \<open>The event that a call has stored.\<close>

definition read_event :: "(u64 \<Rightarrow> u8) \<Rightarrow> u64 \<Rightarrow> window_event option" where
  "read_event mem a = do {
     ty \<leftarrow> read_int mem a;
     x \<leftarrow> read_int mem (a + 4);
     y \<leftarrow> read_int mem (a + 8);
     if ty = 0 then Some (WE_MBL_DOWN x y) else if ty = 1 then Some (WE_MBL_UP x y)
     else if ty = 2 then Some (WE_MBR_DOWN x y) else if ty = 3 then Some (WE_MBR_UP x y) else None }"

text \<open>The inner loop: it ends when no event is left.\<close>

partial_function (option) event_loop ::
  "u64 \<Rightarrow> u64 \<Rightarrow> (nat \<Rightarrow> u8 list) \<Rightarrow> syscall_regs \<Rightarrow> game_program \<Rightarrow> system \<Rightarrow> (game_program \<times> system) option" where
  "event_loop handle event raw regs p s = do {
     (more_events, s) \<leftarrow> syscall_poll_event handle event 0 raw regs s;
     if \<not> more_events then Some (p, s) else do {
       e \<leftarrow> read_event (sys_mem s) event;
       (p, s) \<leftarrow> play_event e p raw regs s;
       event_loop handle event raw regs p s } }"

section \<open>main\<close>

definition DEFAULT_GAME_CONFIG :: nat where "DEFAULT_GAME_CONFIG = 1"

text \<open>Where the sprites lie in the picture.\<close>

definition sprite_places :: "(sprite_kind \<times> int \<times> int) list" where
  "sprite_places = [(TILE_BOMBS 1, 0, 68), (TILE_BOMBS 2, 17, 68), (TILE_BOMBS 3, 34, 68), (TILE_BOMBS 4, 51, 68),
     (TILE_BOMBS 5, 68, 68), (TILE_BOMBS 6, 85, 68), (TILE_BOMBS 7, 102, 68), (TILE_BOMBS 8, 119, 68), (TILE_BOMB, 85, 51),
     (TILE_BOMB_EXPLODED, 102, 51), (TILE_MARKED, 34, 51), (TILE_MARKED_WRONG, 51, 51), (TILE_UNREVEALED, 0, 51), (TILE_EMPTY, 17, 51)]"

definition no_sprite :: sprite where "no_sprite = \<lparr>sp_size = 0, sp_data = 0\<rparr>"

definition load_sprites :: "bmp_image \<Rightarrow> game_ui \<Rightarrow> game_ui call" where
  "load_sprites im ui raw regs s = do {
     (sprites, s) \<leftarrow> each (\<lambda>(kind, x, y) (sprites, s). do {
         ((_, sp), s) \<leftarrow> bmp_load_sprite (Some im) tile_size x y raw regs s;
         Some (sprites(kind := sp), s) }) sprite_places (ui_sprites ui, s);
     ((_, happy), s) \<leftarrow> bmp_load_sprite (Some im) 26 0 24 raw regs s;
     (_, s) \<leftarrow> bmp_load_sprite (Some im) 26 27 24 raw regs s;
     ((_, dead), s) \<leftarrow> bmp_load_sprite (Some im) 26 108 24 raw regs s;
     ((_, cool), s) \<leftarrow> bmp_load_sprite (Some im) 26 81 24 raw regs s;
     Some (ui\<lparr>ui_sprites := sprites, ui_smiley_happy := happy, ui_smiley_dead := dead, ui_smiley_cool := cool\<rparr>, s) }"

definition load_spritesheet :: "u64 \<Rightarrow> u64 \<Rightarrow> u64 \<Rightarrow> bmp_image call" where
  "load_spritesheet path data sz raw regs s = do {
     (file_handle, s) \<leftarrow> syscall_open_file path raw regs s;
     let s = s\<lparr>sys_mem := mem_write (mem_write (sys_mem s) data (le64 0)) sz (le64 0)\<rparr>;
     (_, s) \<leftarrow> syscall_read_file file_handle data sz raw regs s;
     p \<leftarrow> read_word (sys_mem s) data;
     n \<leftarrow> read_word (sys_mem s) sz;
     (_, img) \<leftarrow> bmp_load_image (if p = 0 then None else Some (mem_read (sys_mem s) p (unat n))) n (Some blank_image);
     im \<leftarrow> img;
     Some (im, s) }"

definition new_game :: "u64 \<Rightarrow> (game \<times> u64 \<times> u64) call" where
  "new_game seed raw regs s = do {
     let g = \<lparr>gm_active_game_config = DEFAULT_GAME_CONFIG, gm_game_board = None, gm_is_running = False, gm_has_won = False,
       gm_board_offsetx = 0, gm_board_offsety = 30, gm_tile_size = 0, gm_smiley_size = 0, gm_smileyx = 0, gm_smileyy = 0\<rparr>;
     c \<leftarrow> active_config g;
     (board, s) \<leftarrow> board_blocks c raw regs s;
     ((_, g), seed) \<leftarrow> game_board_create (board \<noteq> 0) g seed;
     Some ((g, seed, board), s) }"

definition minesweeper_main :: "u64 \<Rightarrow> u64 \<Rightarrow> u64 \<Rightarrow> u64 \<Rightarrow> u64 \<Rightarrow> game_program call" where
  "minesweeper_main path data sz desc hook raw regs s = do {
     (seed, s) \<leftarrow> syscall_time_since_boot raw regs s;
     ((g, seed, board), s) \<leftarrow> new_game seed raw regs s;
     c \<leftarrow> active_config g;
     let width = tile_size * of_nat (gc_width c);
     let height = tile_size * of_nat (gc_height c) + 30;
     (im, s) \<leftarrow> load_spritesheet path data sz raw regs s;
     (ui, s) \<leftarrow> load_sprites im \<lparr>ui_window_handle = 0, ui_sprites = (\<lambda>_. no_sprite), ui_smiley_happy = no_sprite,
         ui_smiley_dead = no_sprite, ui_smiley_cool = no_sprite, ui_window_width = ucast width, ui_window_height = ucast height\<rparr> raw regs s;
     let smiley_size = sp_size (ui_smiley_happy ui);
     let g = g\<lparr>gm_tile_size := sp_size (ui_sprites ui TILE_EMPTY), gm_smiley_size := smiley_size,
         gm_smileyx := (of_nat (gc_width c) * tile_size) div 2 - smiley_size div 2, gm_smileyy := 15 - smiley_size div 2\<rparr>;
     let mem = mem_write (sys_mem s) desc (le64 hook @ replicate 8 0 @ le32 width @ le32 height);
     (handle, s) \<leftarrow> syscall_create_window desc raw regs (s\<lparr>sys_mem := mem\<rparr>);
     (buffer, s) \<leftarrow> syscall_get_window_buffer handle raw regs s;
     if buffer = 0 then None else do {
     let s = s\<lparr>sys_mem := mem_write (sys_mem s) buffer (replicate (unat (ui_window_width ui * ui_window_height ui * 4)) 0)\<rparr>;
     let ui = ui\<lparr>ui_window_handle := handle\<rparr>;
     let g = g\<lparr>gm_is_running := True\<rparr>;
     (_, s) \<leftarrow> render_gameboard g ui raw regs s;
     Some (\<lparr>gp_game = g, gp_seed = seed, gp_board = board, gp_ui = ui\<rparr>, s) } }"

section \<open>What play leaves alone\<close>

definition layout :: "game \<Rightarrow> nat \<times> u32 \<times> u32 \<times> u32 \<times> u32 \<times> u32 \<times> u32" where
  "layout g = (gm_active_game_config g, gm_board_offsetx g, gm_board_offsety g, gm_tile_size g, gm_smiley_size g, gm_smileyx g, gm_smileyy g)"

lemma each_keeps:
  assumes "each f xs s = Some s'" "\<And>x s s'. f x s = Some s' \<Longrightarrow> P s' = P s"
  shows "P s' = P s"
  using assms(1)
proof (induction xs arbitrary: s)
  case (Cons x xs)
  then obtain s1 where "f x s = Some s1" "each f xs s1 = Some s'" by (auto simp: bind_Some_iff)
  with Cons.IH assms(2) show ?case by metis
qed simp

lemma upd_tile_layout: "upd_tile i f g = Some g' \<Longrightarrow> layout g' = layout g"
  by (auto simp: upd_tile_def layout_def bind_Some_iff split: if_splits)

lemma loop_layout:
  assumes "loop_game_board f g = Some g'" "\<And>i g g'. f i g = Some g' \<Longrightarrow> layout g' = layout g"
  shows "layout g' = layout g"
  using assms(1) by (auto simp: loop_game_board_def bind_Some_iff intro: each_keeps [where P = layout] assms(2))

lemma neighbours_layout:
  assumes "loop_neighbour_tiles i f g = Some g'" "\<And>j g g'. f j i g = Some g' \<Longrightarrow> layout g' = layout g"
  shows "layout g' = layout g"
  using assms(1) by (auto simp: loop_neighbour_tiles_def bind_Some_iff intro: each_keeps [where P = layout] assms(2))

lemma end_game_layout:
  assumes "minesweeper_end_game won g = Some g'"
  shows "layout g' = layout g"
proof -
  have "layout g' = layout (g\<lparr>gm_is_running := False, gm_has_won := won\<rparr>)"
    using assms unfolding minesweeper_end_game_def
    by (rule loop_layout) (auto simp: bind_Some_iff split: if_splits intro: upd_tile_layout)
  then show ?thesis by (simp add: layout_def)
qed

lemma tile_reveal_layout:
  shows "tile_reveal i g = Some g' \<Longrightarrow> layout g' = layout g"
    and "reveal_neighbours js g = Some g' \<Longrightarrow> layout g' = layout g"
proof (induction i g and js g arbitrary: g' and g' rule: tile_reveal_reveal_neighbours.induct)
  case (1 i g)
  note r = 1(2) [unfolded tile_reveal.simps [of i g]]
  then obtain t where t: "tile_at g i = Some t" by (cases "tile_at g i") simp_all
  show ?case
  proof (cases "tl_is_revealed t \<or> tl_is_marked t")
    case True
    then show ?thesis using r t by simp
  next
    case False
    then obtain g1 where g1: "upd_tile i (\<lambda>t. t\<lparr>tl_is_revealed := True\<rparr>) g = Some g1"
      using r t by (cases "upd_tile i (\<lambda>t. t\<lparr>tl_is_revealed := True\<rparr>) g") simp_all
    have "layout g' = layout g1"
    proof (cases "tl_is_bomb t \<or> tl_bomb_count t \<ge> 1")
      case True
      then show ?thesis using r t False g1 end_game_layout [of False g1 g'] by (auto split: if_splits)
    next
      case nb: False
      then obtain ns where "neighbours g1 i = Some ns" "reveal_neighbours ns g1 = Some g'"
        using r t False g1 by (cases "neighbours g1 i") simp_all
      then show ?thesis using 1(1) [OF t False g1] nb by blast
    qed
    then show ?thesis using upd_tile_layout [OF g1] by simp
  qed
next
  case (2 g)
  then show ?case by simp
next
  case (3 j js g)
  note r = 3(3) [unfolded reveal_neighbours.simps(2) [of j js g]]
  then obtain t where t: "tile_at g j = Some t" by (cases "tile_at g j") simp_all
  let ?first = "if \<not> tl_is_bomb t \<and> \<not> tl_is_marked t then tile_reveal j g else Some g"
  obtain g1 where g1: "?first = Some g1" "reveal_neighbours js g1 = Some g'"
    using r t by (cases ?first) simp_all
  have "layout g1 = layout g" using g1(1) 3(1) [OF t] by (auto split: if_splits)
  then show ?case using 3(2) [OF t g1(1) g1(2)] by simp
qed

lemma rmb_up_layout: "minesweeper_handle_rmb_up x y g = Some g' \<Longrightarrow> layout g' = layout g"
  by (auto simp: minesweeper_handle_rmb_up_def tile_mark_def bind_Some_iff split: if_splits option.splits intro: upd_tile_layout)

lemma peek_layout: "tile_peek_nearby i g = Some g' \<Longrightarrow> layout g' = layout g"
  unfolding tile_peek_nearby_def by (erule neighbours_layout) (auto simp: bind_Some_iff split: if_splits intro: upd_tile_layout)

lemma lmb_down_layout: "minesweeper_handle_lmb_down x y g = Some g' \<Longrightarrow> layout g' = layout g"
  by (auto simp: minesweeper_handle_lmb_down_def bind_Some_iff split: if_splits option.splits intro: upd_tile_layout peek_layout)

lemma remove_peeking_layout: "remove_peeking g = Some g' \<Longrightarrow> layout g' = layout g"
  unfolding remove_peeking_def
proof (erule loop_layout)
  fix i g g'
  let ?f = "\<lambda>j _ g. do { t \<leftarrow> tile_at g j; if tl_is_peeking t then upd_tile j (\<lambda>t. t\<lparr>tl_is_peeking := False\<rparr>) g else Some g }"
  assume e: "do { t \<leftarrow> tile_at g i; if tl_is_bomb t then Some g else loop_neighbour_tiles i ?f g } = Some g'"
  have keep: "layout g2 = layout g1" if "?f j k g1 = Some g2" for j k g1 g2
    using that by (auto simp: bind_Some_iff split: if_splits intro: upd_tile_layout)
  have "loop_neighbour_tiles i ?f g = Some g' \<Longrightarrow> layout g' = layout g" by (rule neighbours_layout [where f = ?f]) (assumption, rule keep)
  then show "layout g' = layout g" using e by (cases "tile_at g i") (auto split: if_splits)
qed

lemma lmb_up_layout: "\<not> y < gm_board_offsety g \<Longrightarrow> minesweeper_handle_lmb_up ok x y g seed = Some (g', seed') \<Longrightarrow> layout g' = layout g"
  by (auto simp: minesweeper_handle_lmb_up_def bind_Some_iff split: if_splits option.splits
      dest!: upd_tile_layout tile_reveal_layout(1) end_game_layout remove_peeking_layout)

section \<open>The event in memory\<close>

lemma length_event_bytes: "length (event_bytes e) = 12"
  by (cases e) simp_all

lemma read_int_at:
  assumes "mem_read mem (a + of_nat k) 4 = le32 v"
  shows "read_int mem (a + of_nat k) = Some v"
  unfolding read_int_def assms by (rule rd32_le32 [of 0 _ _ "[]"]) simp

text \<open>The program reads the event that the call wrote.\<close>

lemma read_event_written: "read_event (mem_write mem a (event_bytes e)) a = Some e"
proof -
  have len: "length (event_bytes e) < 2 ^ 64" by (simp add: length_event_bytes)
  note part = mem_read_part [OF len, of _ 4 mem a, unfolded length_event_bytes]
  obtain ty x y where e: "event_bytes e = le32 ty @ le32 x @ le32 y"
    "(if ty = 0 then Some (WE_MBL_DOWN x y) else if ty = 1 then Some (WE_MBL_UP x y)
      else if ty = 2 then Some (WE_MBR_DOWN x y) else if ty = 3 then Some (WE_MBR_UP x y) else None) = Some e"
    by (cases e) auto
  have "mem_read (mem_write mem a (event_bytes e)) (a + of_nat 0) 4 = le32 ty" using part [of 0] by (simp add: e(1))
  note r0 = read_int_at [OF this]
  have "mem_read (mem_write mem a (event_bytes e)) (a + of_nat 4) 4 = le32 x" using part [of 4] by (simp add: e(1))
  note r4 = read_int_at [OF this]
  have "mem_read (mem_write mem a (event_bytes e)) (a + of_nat 8) 4 = le32 y" using part [of 8] by (simp add: e(1))
  note r8 = read_int_at [OF this]
  show ?thesis using r0 r4 r8 e(2) by (simp add: read_event_def)
qed

section \<open>The calls of one round\<close>

lemma poll_call:
  assumes "get_current_process s \<noteq> None" "event \<noteq> 0" "wm_window_poll_event h (wm_windows (sys_wm s)) = ((e, hk), ws)"
  shows "syscall_poll_event h event 0 raw regs s = Some (e \<noteq> None, s\<lparr>sys_wm := (sys_wm s)\<lparr>wm_windows := ws\<rparr>,
    sys_mem := (case e of None \<Rightarrow> sys_mem s | Some v \<Rightarrow> mem_write (sys_mem s) event (event_bytes v))\<rparr>)"
  using assms by (auto simp: syscall_poll_event_def returned_def amd64_syscall_dispatch_def syscall_dispatch_def SYSCALL_TERMINATE_PROCESS_def
      SYSCALL_HEAP_ALLOC_def SYSCALL_HEAP_FREE_def SYSCALL_CREATE_WINDOW_def SYSCALL_GET_WINDOW_BUFFER_def SYSCALL_RENDER_WINDOW_def
      SYSCALL_POLL_EVENT_def syscall_handler_poll_event_def with_process_def split: option.splits)

lemma buffer_call:
  assumes "get_current_process s \<noteq> None" "wm_window_get_buffer (wm_windows (sys_wm s)) h = Some buffer"
  shows "syscall_get_window_buffer h raw regs s = Some (buffer, s)"
  using assms by (auto simp: syscall_get_window_buffer_def returned_def amd64_syscall_dispatch_def syscall_dispatch_def SYSCALL_TERMINATE_PROCESS_def
      SYSCALL_HEAP_ALLOC_def SYSCALL_HEAP_FREE_def SYSCALL_CREATE_WINDOW_def SYSCALL_GET_WINDOW_BUFFER_def
      syscall_handler_get_window_buffer_def with_process_def ptr_value_def split: option.splits)

lemma render_call:
  assumes "get_current_process s \<noteq> None"
  shows "syscall_render_window h raw regs s = Some (True, s\<lparr>sys_wm := (sys_wm s)\<lparr>wm_should_render := True\<rparr>\<rparr>)"
  using assms by (auto simp: syscall_render_window_def returned_def amd64_syscall_dispatch_def syscall_dispatch_def SYSCALL_TERMINATE_PROCESS_def
      SYSCALL_HEAP_ALLOC_def SYSCALL_HEAP_FREE_def SYSCALL_CREATE_WINDOW_def SYSCALL_GET_WINDOW_BUFFER_def SYSCALL_RENDER_WINDOW_def
      SYSCALL_RESULT_OK_def syscall_handler_render_window_def with_process_def split: option.splits)

lemma poll_buffer: "wm_window_get_buffer (snd (wm_window_poll_event h ws)) k = wm_window_get_buffer ws k"
  by (induction ws) (auto simp: split_beta)

section \<open>The player sees the game\<close>

definition ui_sprite :: "game_ui \<Rightarrow> nat \<Rightarrow> sprite \<Rightarrow> nat \<Rightarrow> bool" where
  "ui_sprite ui n sp k \<longleftrightarrow> (\<exists>kind. sp = ui_sprites ui kind) \<and> k = 16 \<or>
     sp \<in> {ui_smiley_happy ui, ui_smiley_dead ui, ui_smiley_cool ui} \<and> k = n"

text \<open>The window shows the board of the game.\<close>

definition shown :: "nat \<Rightarrow> game_ui \<Rightarrow> game \<Rightarrow> game_config \<Rightarrow> nat \<Rightarrow> (u64 \<Rightarrow> u8) \<Rightarrow> bool" where
  "shown B ui g c n m \<longleftrightarrow> (\<forall>b. gm_game_board g = Some b \<longrightarrow>
     (\<forall>x < 16 * gc_width c. \<forall>y < 16 * gc_height c + 30. \<forall>ch < 4.
        m (of_nat (B + 4 * (x + 16 * gc_width c * y) + ch)) = board_picture m ui g c b n x y ch))"

definition layout_ok :: "game_config \<Rightarrow> nat \<Rightarrow> game \<Rightarrow> bool" where
  "layout_ok c n g \<longleftrightarrow> gm_board_offsetx g = 0 \<and> gm_board_offsety g = 30 \<and>
     unat (gm_smileyx g) + n \<le> 16 * gc_width c \<and> unat (gm_smileyy g) + n \<le> 30"

text \<open>The event variable lies beside the buffer and the sprites.\<close>

definition event_place :: "nat \<Rightarrow> game_ui \<Rightarrow> game_config \<Rightarrow> nat \<Rightarrow> nat \<Rightarrow> bool" where
  "event_place B ui c n E \<longleftrightarrow> 0 < E \<and> E + 12 < 2 ^ 64 \<and> (E + 12 \<le> B \<or> B + 4 * (16 * gc_width c * (16 * gc_height c + 30)) \<le> E) \<and>
     (\<forall>sp k. ui_sprite ui n sp k \<longrightarrow> E + 12 \<le> unat (sp_data sp) \<or> unat (sp_data sp) + 4 * (k * k) \<le> E)"

text \<open>Only the buffer and the event variable change.\<close>

definition untouched :: "nat \<Rightarrow> game_config \<Rightarrow> nat \<Rightarrow> (u64 \<Rightarrow> u8) \<Rightarrow> (u64 \<Rightarrow> u8) \<Rightarrow> bool" where
  "untouched B c E m0 m \<longleftrightarrow> (\<forall>a < 2 ^ 64. \<not> (B \<le> a \<and> a < B + 4 * (16 * gc_width c * (16 * gc_height c + 30))) \<and> \<not> (E \<le> a \<and> a < E + 12) \<longrightarrow>
     m (of_nat a) = m0 (of_nat a))"

lemma untouched_trans: "untouched B c E m0 m1 \<Longrightarrow> untouched B c E m1 m2 \<Longrightarrow> untouched B c E m0 m2"
  by (simp add: untouched_def)

lemma untouched_refl: "untouched B c E m m"
  by (simp add: untouched_def)

lemma untouched_sprites:
  assumes "untouched B c E m0 m" "ui_ok c ui B n" "event_place B ui c n E" "ui_sprite ui n sp k" "i < k" "j < k" "ch < 4"
  shows "sprite_byte m sp i j ch = sprite_byte m0 sp i j ch"
proof -
  let ?P = "unat (sp_data sp)" and ?S = "4 * (16 * gc_width c * (16 * gc_height c + 30))"
  have "sprite_ok B (16 * gc_width c) (16 * gc_height c + 30) sp k" using assms(2,4) by (auto simp: ui_ok_def ui_sprite_def)
  then have ok: "unat (sp_size sp) = k" "?P + 4 * (k * k) < 2 ^ 64" "?P + 4 * (k * k) \<le> B \<or> B + ?S \<le> ?P" by (simp_all add: sprite_ok_def)
  have e: "E + 12 \<le> ?P \<or> ?P + 4 * (k * k) \<le> E" using assms(3,4) by (auto simp: event_place_def)
  let ?a = "?P + 4 * (i + k * j) + ch"
  have "i + k * j < k * k" by (rule index_in_square [OF assms(5,6)])
  then have a: "?P \<le> ?a" "?a < ?P + 4 * (k * k)" using assms(7) by simp_all
  have "\<not> (B \<le> ?a \<and> ?a < B + ?S)" "\<not> (E \<le> ?a \<and> ?a < E + 12)" "?a < 2 ^ 64" using a ok(2,3) e by linarith+
  then show ?thesis using assms(1) unfolding untouched_def sprite_byte_def ok(1) by blast
qed

lemma same_picture:
  assumes "\<And>sp k i j ch. ui_sprite ui n sp k \<Longrightarrow> i < k \<Longrightarrow> j < k \<Longrightarrow> ch < 4 \<Longrightarrow> sprite_byte m sp i j ch = sprite_byte m0 sp i j ch" "ch < 4"
  shows "board_picture m ui g c b n x y ch = board_picture m0 ui g c b n x y ch"
proof -
  have "ui_sprite ui n (ui_sprites ui k) 16" "ui_sprite ui n (smiley ui g) n" for k by (auto simp: ui_sprite_def smiley_def)
  note k = assms(1) [OF this(1)] assms(1) [OF this(2)]
  show ?thesis using k assms(2) by (auto simp: board_picture_def tile_byte_def header_byte_def with_sprite_def)
qed

lemma screen_untouched: "screen B (16 * gc_width c) (16 * gc_height c + 30) m m' F \<Longrightarrow> untouched B c E m m'"
  by (simp add: screen_def untouched_def)

text \<open>The state of the program between two rounds of the loop.\<close>

definition playing :: "game_config \<Rightarrow> u64 \<Rightarrow> u64 \<Rightarrow> u64 \<Rightarrow> nat \<Rightarrow> game_program \<Rightarrow> system \<Rightarrow> bool" where
  "playing c h buffer event n p s \<longleftrightarrow>
     play_inv c (gp_game p) \<and> layout_ok c n (gp_game p) \<and> ui_ok c (gp_ui p) (unat buffer) n \<and> ui_window_handle (gp_ui p) = h \<and>
     event_place (unat buffer) (gp_ui p) c n (unat event) \<and> get_current_process s \<noteq> None \<and>
     wm_ok (sys_wm s) \<and> h \<in> set (map wd_handle (wm_windows (sys_wm s))) \<and>
     wm_window_get_buffer (wm_windows (sys_wm s)) h = Some buffer \<and> shown (unat buffer) (gp_ui p) (gp_game p) c n (sys_mem s)"

lemma drawn_shown:
  assumes "board_of c b g" "ui_ok c ui B n" "event_place B ui c n E" "layout_ok c n g" "unat buffer = B"
  shows "\<exists>m'. draw_gameboard g ui buffer m = Some m' \<and> shown B ui g c n m' \<and> untouched B c E m m'"
proof -
  let ?W = "16 * gc_width c" and ?H = "16 * gc_height c + 30"
  obtain m' where m': "draw_gameboard g ui buffer m = Some m'" "screen B ?W ?H m m' (board_picture m ui g c b n)"
    using gameboard_drawn [OF assms(1,2) _ _ assms(5) refl refl, of m] assms(4) by (auto simp: layout_ok_def)
  have u: "untouched B c E m m'" by (rule screen_untouched [OF m'(2)])
  then have "shown B ui g c n m'"
    using m'(2) assms(1) same_picture [OF untouched_sprites [OF u assms(2,3)]] unfolding screen_def shown_def by (auto simp: board_of_def)
  then show ?thesis using m'(1) u by blast
qed

lemma render_step:
  assumes "playing c h buffer event n p s" "play_inv c g" "layout_ok c n g"
  shows "\<exists>s'. render_gameboard g (gp_ui p) raw regs s = Some ((), s') \<and> playing c h buffer event n (p\<lparr>gp_game := g, gp_seed := seed\<rparr>) s' \<and>
    wm_windows (sys_wm s') = wm_windows (sys_wm s) \<and> untouched (unat buffer) c (unat event) (sys_mem s) (sys_mem s')"
proof -
  let ?B = "unat buffer" and ?ui = "gp_ui p"
  note pl = assms(1) [unfolded playing_def]
  obtain b where b: "board_of c b g" using assms(2) by (auto simp: play_inv_def)
  have ui: "ui_ok c ?ui ?B n" using pl by simp
  obtain m' where m': "draw_gameboard g ?ui buffer (sys_mem s) = Some m'" "shown ?B ?ui g c n m'"
    and u: "untouched ?B c (unat event) (sys_mem s) m'"
    using drawn_shown [OF b ui _ assms(3) refl, of "unat event" "sys_mem s"] pl by blast
  from m'(2) have "playing c h buffer event n (p\<lparr>gp_game := g, gp_seed := seed\<rparr>)
      (s\<lparr>sys_mem := m', sys_wm := (sys_wm s)\<lparr>wm_should_render := True\<rparr>\<rparr>)"
    using pl assms(2,3) by (simp add: playing_def get_current_process_def wm_ok_def)
  moreover have "render_gameboard g ?ui raw regs s = Some ((), s\<lparr>sys_mem := m', sys_wm := (sys_wm s)\<lparr>wm_should_render := True\<rparr>\<rparr>)"
    using pl m'(1) buffer_call [of s h buffer raw regs] render_call [of "s\<lparr>sys_mem := m'\<rparr>" h raw regs]
    by (simp add: render_gameboard_def get_current_process_def)
  ultimately show ?thesis using u by auto
qed

definition starts_game :: "game \<Rightarrow> window_event \<Rightarrow> bool" where
  "starts_game g e = (case e of WE_MBL_UP x y \<Rightarrow> on_smiley g x y | _ \<Rightarrow> False)"

lemma layout_facts:
  assumes "layout g' = layout g"
  shows "layout_ok c n g' = layout_ok c n g" "starts_game g' e = starts_game g e"
  using assms by (auto simp: layout_def layout_ok_def starts_game_def on_smiley_def split: window_event.splits)

lemma tile_step:
  assumes "playing c h buffer event n p s"
    and "e \<in> {WE_MBL_DOWN x y, WE_MBR_UP x y} \<or> (e = WE_MBL_UP x y \<and> \<not> y < gm_board_offsety (gp_game p))"
  shows "\<exists>p' s'. play_on_tile e x y p raw regs s = Some (p', s') \<and> playing c h buffer event n p' s' \<and>
    event_hook True e (gp_game p) (gp_seed p) = Some (gp_game p', gp_seed p') \<and> layout (gp_game p') = layout (gp_game p) \<and>
    wm_windows (sys_wm s') = wm_windows (sys_wm s) \<and> untouched (unat buffer) c (unat event) (sys_mem s) (sys_mem s')"
proof -
  let ?g = "gp_game p"
  have inv: "play_inv c ?g" "layout_ok c n ?g" using assms(1) by (simp_all add: playing_def)
  obtain b where "board_of c b ?g" using inv(1) by (auto simp: play_inv_def)
  then obtain r where r: "get_tile_from_pos ?g (x - gm_board_offsetx ?g) (y - gm_board_offsety ?g) = Some r"
    using get_tile_from_pos_in [of c b ?g "x - gm_board_offsetx ?g" "y - gm_board_offsety ?g"] by blast
  obtain g' seed' where g': "event_hook True e ?g (gp_seed p) = Some (g', seed')" "play_inv c g'"
    using event_safe [OF inv(1), of e "gp_seed p"] by blast
  have lay: "layout g' = layout ?g"
    using g'(1) assms(2) lmb_down_layout [of x y ?g g'] rmb_up_layout [of x y ?g g'] lmb_up_layout [of y ?g True x "gp_seed p" g' seed']
    by (auto simp: event_hook_def)
  have lo: "layout_ok c n g'" using layout_facts(1) [OF lay] inv(2) by simp
  show ?thesis
  proof (cases "gm_is_running ?g \<and> r \<noteq> None")
    case True
    then have t: "on_tile ?g x y = Some True" using r by (simp add: on_tile_def)
    obtain s' where s': "render_gameboard g' (gp_ui p) raw regs s = Some ((), s')" "playing c h buffer event n (p\<lparr>gp_game := g', gp_seed := seed'\<rparr>) s'"
      "wm_windows (sys_wm s') = wm_windows (sys_wm s)" "untouched (unat buffer) c (unat event) (sys_mem s) (sys_mem s')"
      using render_step [OF assms(1) g'(2) lo, of raw regs seed'] by blast
    then show ?thesis using t g'(1) lay
      by (intro exI [of _ "p\<lparr>gp_game := g', gp_seed := seed'\<rparr>"] exI [of _ s']) (simp add: play_on_tile_def)
  next
    case False
    then have t: "on_tile ?g x y = Some False" using r by (auto simp: on_tile_def)
    have "event_hook True e ?g (gp_seed p) = Some (?g, gp_seed p)"
      using False r assms(2) inv(1) by (auto simp: event_hook_def minesweeper_handle_lmb_down_def minesweeper_handle_lmb_up_def
          minesweeper_handle_rmb_up_def play_inv_def board_of_def)
    then have "play_on_tile e x y p raw regs s = Some (p, s)" using t by (simp add: play_on_tile_def)
    then show ?thesis using \<open>event_hook True e ?g (gp_seed p) = Some (?g, gp_seed p)\<close> assms(1) untouched_refl by auto
  qed
qed

lemma event_step:
  assumes "playing c h buffer event n p s" "\<not> starts_game (gp_game p) e"
  shows "\<exists>p' s'. play_event e p raw regs s = Some (p', s') \<and> playing c h buffer event n p' s' \<and>
    event_hook True e (gp_game p) (gp_seed p) = Some (gp_game p', gp_seed p') \<and> layout (gp_game p') = layout (gp_game p) \<and>
    wm_windows (sys_wm s') = wm_windows (sys_wm s) \<and> untouched (unat buffer) c (unat event) (sys_mem s) (sys_mem s')"
proof (cases e)
  case (WE_MBL_UP x y)
  then show ?thesis
  proof (cases "y < gm_board_offsety (gp_game p)")
    case True
    then have "play_event e p raw regs s = Some (p, s)" "event_hook True e (gp_game p) (gp_seed p) = Some (gp_game p, gp_seed p)"
      using assms(2) WE_MBL_UP by (auto simp: play_event_def starts_game_def on_smiley_def event_hook_def minesweeper_handle_lmb_up_def)
    then show ?thesis using assms(1) untouched_refl by auto
  next
    case False
    then show ?thesis using tile_step [OF assms(1), of e x y raw regs] WE_MBL_UP by (simp add: play_event_def)
  qed
next
  case (WE_MBL_DOWN x y)
  then show ?thesis using tile_step [OF assms(1), of e x y raw regs] by (simp add: play_event_def)
next
  case (WE_MBR_UP x y)
  then show ?thesis using tile_step [OF assms(1), of e x y raw regs] by (simp add: play_event_def)
next
  case (WE_MBR_DOWN x y)
  then show ?thesis using assms(1) untouched_refl by (auto simp: play_event_def event_hook_def)
qed

lemma poll_round:
  assumes "playing c h buffer event n p s"
  shows "\<exists>s'. syscall_poll_event h event 0 raw regs s = Some (pend h (wm_windows (sys_wm s)) \<noteq> [], s') \<and> playing c h buffer event n p s' \<and>
    pend h (wm_windows (sys_wm s')) = tl (pend h (wm_windows (sys_wm s))) \<and>
    untouched (unat buffer) c (unat event) (sys_mem s) (sys_mem s') \<and>
    (pend h (wm_windows (sys_wm s)) \<noteq> [] \<longrightarrow> read_event (sys_mem s') event = Some (hd (pend h (wm_windows (sys_wm s)))))"
proof -
  let ?ws = "wm_windows (sys_wm s)" and ?B = "unat buffer" and ?E = "unat event"
  note pl = assms [unfolded playing_def]
  have ok: "distinct (map wd_handle ?ws)" "list_all queue_ok ?ws" using pl by (simp_all add: wm_ok_def)
  obtain hk ws' where poll: "wm_window_poll_event h ?ws = ((case pend h ?ws of [] \<Rightarrow> None | e # _ \<Rightarrow> Some e, hk), ws')"
    "map wd_handle ws' = map wd_handle ?ws" "list_all queue_ok ws'" "pend h ws' = tl (pend h ?ws)"
    using poll_step [OF ok, of h] pl by blast
  have buf: "wm_window_get_buffer ws' h = Some buffer" using poll_buffer [of h ?ws h] poll(1) pl by simp
  define m' where "m' = (case pend h ?ws of [] \<Rightarrow> sys_mem s | e # _ \<Rightarrow> mem_write (sys_mem s) event (event_bytes e))"
  let ?s' = "s\<lparr>sys_wm := (sys_wm s)\<lparr>wm_windows := ws'\<rparr>, sys_mem := m'\<rparr>"
  have E: "0 < ?E" "?E + 12 < 2 ^ 64" "?E + 12 \<le> ?B \<or> ?B + 4 * (16 * gc_width c * (16 * gc_height c + 30)) \<le> ?E"
    using pl by (simp_all add: event_place_def)
  have w: "m' (of_nat a) = sys_mem s (of_nat a)" if "a < 2 ^ 64" "\<not> (?E \<le> a \<and> a < ?E + 12)" for a
    using that mem_write_at [of event _ a "sys_mem s"] E(2) length_event_bytes
    by (auto simp: m'_def split: list.splits)
  then have u: "untouched ?B c ?E (sys_mem s) m'" by (simp add: untouched_def)
  have call: "syscall_poll_event h event 0 raw regs s = Some (pend h ?ws \<noteq> [], ?s')"
  proof -
    have "get_current_process s \<noteq> None" "event \<noteq> 0" using pl E(1) by auto
    from poll_call [OF this poll(1), of raw regs] show ?thesis by (cases "pend h ?ws") (simp_all add: m'_def)
  qed
  have ui: "ui_ok c (gp_ui p) ?B n" "event_place ?B (gp_ui p) c n ?E" using pl by simp_all
  have "m' (of_nat (?B + 4 * (x + 16 * gc_width c * y) + ch)) = sys_mem s (of_nat (?B + 4 * (x + 16 * gc_width c * y) + ch))"
    if "x < 16 * gc_width c" "y < 16 * gc_height c + 30" "ch < 4" for x y ch
  proof -
    let ?a = "?B + 4 * (x + 16 * gc_width c * y) + ch" and ?S = "4 * (16 * gc_width c * (16 * gc_height c + 30))"
    have "x + 16 * gc_width c * y < 16 * gc_width c * (16 * gc_height c + 30)" by (rule in_picture [OF that(1,2)])
    then have a: "?B \<le> ?a" "?a < ?B + ?S" using that(3) by simp_all
    moreover have "?B + ?S < 2 ^ 64" using ui(1) by (simp add: ui_ok_def)
    ultimately show ?thesis using E(3) by (intro w) linarith+
  qed
  then have sh: "shown ?B (gp_ui p) (gp_game p) c n m'"
    using pl same_picture [OF untouched_sprites [OF u ui]] unfolding shown_def by simp
  have "playing c h buffer event n p ?s'"
    using pl sh buf poll ok by (simp add: playing_def get_current_process_def wm_ok_def)
  moreover have "read_event m' event = Some (hd (pend h ?ws))" if "pend h ?ws \<noteq> []"
    using that read_event_written by (auto simp: m'_def neq_Nil_conv)
  ultimately show ?thesis using call u poll(4) by (intro exI [of _ ?s']) simp
qed

text \<open>The loop ends: every round takes one event from the queue.\<close>

lemma event_loop_ends:
  assumes "playing c h buffer event n p s" "\<forall>e \<in> set (pend h (wm_windows (sys_wm s))). \<not> starts_game (gp_game p) e"
  shows "\<exists>p' s'. event_loop h event raw regs p s = Some (p', s') \<and>
    run_events (pend h (wm_windows (sys_wm s))) (gp_game p, gp_seed p) = Some (gp_game p', gp_seed p') \<and>
    playing c h buffer event n p' s' \<and> pend h (wm_windows (sys_wm s')) = [] \<and> untouched (unat buffer) c (unat event) (sys_mem s) (sys_mem s')"
  using assms
proof (induction "pend h (wm_windows (sys_wm s))" arbitrary: p s)
  case Nil
  then obtain s1 where "syscall_poll_event h event 0 raw regs s = Some (False, s1)" "playing c h buffer event n p s1"
    "pend h (wm_windows (sys_wm s1)) = []" "untouched (unat buffer) c (unat event) (sys_mem s) (sys_mem s1)"
    using poll_round [OF Nil.prems(1), of raw regs] by auto
  then show ?case using Nil.hyps by (subst event_loop.simps) (simp add: run_events_def)
next
  case (Cons e es)
  have now: "pend h (wm_windows (sys_wm s)) = e # es" using Cons.hyps(2) by simp
  obtain s1 where s1: "syscall_poll_event h event 0 raw regs s = Some (True, s1)" "playing c h buffer event n p s1"
    "pend h (wm_windows (sys_wm s1)) = es" "untouched (unat buffer) c (unat event) (sys_mem s) (sys_mem s1)" "read_event (sys_mem s1) event = Some e"
    using poll_round [OF Cons.prems(1), of raw regs] unfolding now by auto
  have e: "\<not> starts_game (gp_game p) e" using Cons.prems(2) by (simp flip: Cons.hyps(2))
  obtain p2 s2 where s2: "play_event e p raw regs s1 = Some (p2, s2)" "playing c h buffer event n p2 s2"
    "event_hook True e (gp_game p) (gp_seed p) = Some (gp_game p2, gp_seed p2)" "layout (gp_game p2) = layout (gp_game p)"
    "wm_windows (sys_wm s2) = wm_windows (sys_wm s1)" "untouched (unat buffer) c (unat event) (sys_mem s1) (sys_mem s2)"
    using event_step [OF s1(2) e, of raw regs] by blast
  have es: "es = pend h (wm_windows (sys_wm s2))" using s1(3) s2(5) by simp
  have "\<forall>e \<in> set es. \<not> starts_game (gp_game p2) e" using Cons.prems(2) layout_facts(2) [OF s2(4)] by (simp flip: Cons.hyps(2))
  with Cons.hyps(1) [OF es s2(2)] es obtain p' s' where r: "event_loop h event raw regs p2 s2 = Some (p', s')"
    "run_events es (gp_game p2, gp_seed p2) = Some (gp_game p', gp_seed p')" "playing c h buffer event n p' s'"
    "pend h (wm_windows (sys_wm s')) = []" "untouched (unat buffer) c (unat event) (sys_mem s2) (sys_mem s')" by auto
  have "event_loop h event raw regs p s = Some (p', s')" using s1(1,5) s2(1) r(1) by (subst event_loop.simps) simp
  moreover have "run_events (pend h (wm_windows (sys_wm s))) (gp_game p, gp_seed p) = Some (gp_game p', gp_seed p')"
    using s2(3) r(2) by (simp add: run_events_def flip: Cons.hyps(2))
  ultimately show ?case using r(3-5) untouched_trans [OF untouched_trans [OF s1(4) s2(6)]] by blast
qed

section \<open>Property\<close>


text \<open>A game of 9 by 9 tiles in a window whose buffer is at \<open>0x200000\<close>; the button is pressed and released on a tile.\<close>

definition game_wm :: window_manager where
  "game_wm = \<lparr>wm_should_render = False, wm_windows = [demo_window 144 174 demo_buffer 0 0 1], wm_cursor_x = 60, wm_cursor_y = 70\<rparr>"

definition demo_ui :: game_ui where
  "demo_ui = \<lparr>ui_window_handle = 0, ui_sprites = (\<lambda>_. \<lparr>sp_size = 16, sp_data = 0x300000\<rparr>), ui_smiley_happy = \<lparr>sp_size = 26, sp_data = 0x310000\<rparr>,
     ui_smiley_dead = \<lparr>sp_size = 26, sp_data = 0x310000\<rparr>, ui_smiley_cool = \<lparr>sp_size = 26, sp_data = 0x310000\<rparr>,
     ui_window_width = 144, ui_window_height = 174\<rparr>"

definition demo_program :: game_program where
  "demo_program = \<lparr>gp_game = demo_game (Some demo_board), gp_seed = 7, gp_board = 0x330000, gp_ui = demo_ui\<rparr>"

definition game_system :: "(u64 \<Rightarrow> u8) \<Rightarrow> system" where
  "game_system mem = demo_system\<lparr>sys_wm := wm_run [(0, 0, MDOWNL), (0, 0, MUPL)] game_wm, sys_mem := mem\<rparr>"

lemma game_wm_ok: "wm_ok game_wm"
proof -
  have "queue_ok (demo_window 100 80 demo_buffer 7 0 1)" using demo_wm_ok by (simp add: wm_ok_def demo_wm_eq)
  then have "queue_ok (demo_window 144 174 demo_buffer 0 0 1)" by (simp add: queue_ok_def demo_window_def)
  then show ?thesis by (simp add: wm_ok_def game_wm_def)
qed

lemma demo_program_ok:
  "play_inv demo_config (gp_game demo_program)" "layout_ok demo_config 26 (gp_game demo_program)"
  "ui_ok demo_config demo_ui (unat (0x200000 :: u64)) 26" "event_place (unat (0x200000 :: u64)) demo_ui demo_config 26 (unat (0x320000 :: u64))"
proof -
  show "play_inv demo_config (gp_game demo_program)"
    using demo_game_ok by (auto simp: play_inv_def demo_program_def demo_running)
  show "layout_ok demo_config 26 (gp_game demo_program)" by (simp add: layout_ok_def demo_program_def demo_game_def demo_config_def)
  show "ui_ok demo_config demo_ui (unat (0x200000 :: u64)) 26" by (simp add: ui_ok_def demo_ui_def demo_config_def sprite_ok_def)
  show "event_place (unat (0x200000 :: u64)) demo_ui demo_config 26 (unat (0x320000 :: u64))"
    by (auto simp: event_place_def ui_sprite_def demo_ui_def demo_config_def)
qed

lemma game_events:
  "take 7 (pend 0 (wm_windows game_wm) @ events_to 0 [(0, 0, MDOWNL), (0, 0, MUPL)] game_wm) = [WE_MBL_DOWN 40 50, WE_MBL_UP 40 50]"
  by code_simp


end
