(* ===== verification/Spec2Isabelle.thy ===== *)
theory Spec2Isabelle
  imports Prelude Common Bitmap Ring_Buffer Containers Multiboot Pmem Page_Table Vmem Heap Dma_Heap
    Std_String Net Transport Dns Dhcp Network_Manager
    Sched Sched_Runs Mutex Block_Device File_Path Iso9660 Iso9660_Tree Fat32 Fat32_Tree Vfs
    System_Info Mount Boot_Medium Partitions
    Elf Driver Input Framebuffer Canvas Font Kterminal Kterminal_Page
    Window_Event Window_Manager Window_Events Process Address_Space Process_Start Syscalls
    Minesweeper Minesweeper_Play Bmp Game_Screen Game_Loop
begin

text \<open>
  Virtual Reflections OS is a 64-bit kernel in C++ (\<open>src/kernel\<close>) with a freestanding standard library that it
  shares with its user programs (\<open>src/shared\<close>).  This development models the parts that carry the
  system's own logic and proves what makes them correct.  Paths below are relative to \<open>src/src\<close>.

  \<^bold>\<open>How the parts interact.\<close>  GRUB hands over the multiboot information; the physical page allocator reads
  the size of memory from it and hands out pages; the virtual memory layer maps them; the heaps live in ranges the
  virtual memory layer backs.  Every other component allocates from the heap and keeps its objects in the
  shared containers and strings.  The timer interrupt drives the scheduler, which switches between the threads of
  the table; threads exclude each other with mutexes.  Frames from a network driver pass the controller's
  queue, Ethernet, ARP, IP, and UDP or TCP, and end in the listener of a socket; DNS and DHCP are two such
  listeners.  Disks are registered with the disk manager, wrapped as block devices and read by the two file systems,
  which the virtual file system mounts.  At boot every disk is registered, cut into its partitions and mounted, and the
  one that carries the identification from the boot loader's command line gets the logical name \<open>boot\<close>.  Programs and drivers are ELF files read from it, loaded into memory and
  linked to the kernel's functions.  The interrupts of mouse and keyboard queue what they decode.  The terminal
  shows keys and output through the graphics driver; the window manager sends the events of the mouse to the queue
  of a window, from which user programs such as the game poll them, and composes the picture of all windows.  A program is
  started as a process with an address space, a heap and a thread of its own, and reaches the heap, the files, the clock
  and its windows by system calls; the game is one: it loads its sprites, draws its board into the buffer of its window
  and handles the events it polls.

  \<^bold>\<open>Theories and what they model.\<close>
  \<^item> \<open>Prelude\<close>: machine words, buffers with explicit out-of-bounds accesses, bytes at a place.
  \<^item> \<open>Common\<close>, \<open>Bitmap\<close>, \<open>Ring_Buffer\<close>, \<open>Containers\<close>, \<open>Std_String\<close>: \<open>shared/include/common.hpp\<close> and
    \<open>shared/include/std\<close>.  A dynamic array is modelled to its slots, a linear map is the list of its
    pairs, a string is its buffer and length.
  \<^item> \<open>Multiboot\<close>, \<open>Pmem\<close>, \<open>Page_Table\<close>, \<open>Vmem\<close>, \<open>Heap\<close>, \<open>Dma_Heap\<close>: \<open>kernel/src/multiboot.cpp\<close>, \<open>kernel/src/memory\<close> and
    \<open>kernel/src/arch/amd64/vmem.cpp\<close>.  Page tables are words of physical memory; the heap is its array of
    block descriptors, linked by index.
  \<^item> \<open>Sched\<close>, \<open>Sched_Runs\<close>, \<open>Mutex\<close>: \<open>kernel/src/virtual_thread.cpp\<close>, \<open>kernel/src/arch/amd64/vthread.cpp\<close>, \<open>kernel/src/utils/mutex.cpp\<close>.  A
    pointer to a thread is its handle; locking is a step relation in which threads interleave.
  \<^item> \<open>Net\<close>, \<open>Transport\<close>, \<open>Dns\<close>, \<open>Dhcp\<close>, \<open>Network_Manager\<close>: \<open>kernel/src/network\<close>.  Interfaces, sockets and connections are indices in
    one state; frames for a driver are recorded in order.
  \<^item> \<open>Block_Device\<close>, \<open>File_Path\<close>, \<open>Iso9660\<close>, \<open>Fat32\<close>: \<open>kernel/src/drivers/storage/block_device.cpp\<close>, \<open>kernel/src/filesystems\<close>;
    \<open>Iso9660_Tree\<close> and \<open>Fat32_Tree\<close> hold the disk formats and the proofs.  \<open>Vfs\<close>: \<open>kernel/src/filesystems/vfs.cpp\<close>, mounts and
    file descriptors over them.
  \<^item> \<open>System_Info\<close>: \<open>kernel/src/system_info.cpp\<close>, \<open>kernel/src/smbios.cpp\<close> and \<open>cpu_get_name\<close>.  \<open>Mount\<close>: \<open>mount_disks\<close> and the search for
    the boot medium of \<open>kernel/src/main.cpp\<close>, and \<open>kernel/src/drivers/storage/mbr.cpp\<close>; \<open>Boot_Medium\<close> and \<open>Partitions\<close> hold the media, the
    format of the partition table and the proofs.
  \<^item> \<open>Elf\<close>, \<open>Driver\<close>: \<open>kernel/src/elf.cpp\<close> and \<open>kernel/src/drivers/driver.cpp\<close>.  A file and a loaded image are buffers; the table of
    drivers maps handles to them.
  \<^item> \<open>Input\<close>: \<open>kernel/src/drivers/ps2\<close>, \<open>kernel/src/drivers/generic_keyboard.cpp\<close> and \<open>kernel/include/utils/event.hpp\<close>.  An interrupt handler
    takes the byte it reads as an argument.
  \<^item> \<open>Framebuffer\<close>, \<open>Font\<close>: \<open>kernel/src/drivers/graphics\<close> and the graphics mode of \<open>kernel/src/drivers/vga.cpp\<close>.  A buffer is the list
    of its pixels.  \<open>Canvas\<close> says what each drawing function paints, whatever driver is behind it.
  \<^item> \<open>Kterminal\<close>: \<open>kernel/src/kterminal.cpp\<close> and \<open>kernel/include/ansi.hpp\<close>; \<open>Kterminal_Page\<close> holds the page of coloured characters the
    screen shows and the proofs.
  \<^item> \<open>Window_Event\<close>, \<open>Window_Manager\<close>, \<open>Window_Events\<close>: \<open>kernel/src/gui/display_driver.cpp\<close>, \<open>shared/include/vrosapi/window.hpp\<close> and the mouse
    handler of \<open>kernel/src/main.cpp\<close>.
  \<^item> \<open>Process\<close>: \<open>kernel/src/process.cpp\<close>; \<open>Address_Space\<close> and \<open>Process_Start\<close> hold the proofs about the page table and the
    thread of a new process.  The state joins page tables, file systems and scheduler.
  \<^item> \<open>Syscalls\<close>: \<open>kernel/src/syscall_handler.cpp\<close>, its dispatch in \<open>kernel/src/arch/amd64/amd64_entry.cpp\<close> and the wrappers of
    \<open>shared/src/vrosapi\<close>.  The memory of the calling program is a function from addresses to bytes.
  \<^item> \<open>Minesweeper\<close>, \<open>Minesweeper_Play\<close>: the rules of the user program \<open>minesweeper\<close>.  The board is its list of tiles, and a
    pointer to a tile its index.  \<open>Bmp\<close>: \<open>shared/src/bmp.cpp\<close> and the sprites cut out of a picture.  \<open>Game_Screen\<close>: what the game
    draws.  \<open>Game_Loop\<close>: \<open>main\<close> and the loop over the events, as a program that makes system calls.

  \<^bold>\<open>Conventions.\<close>  A buffer is the list of its bytes, and an access outside it, a division by zero or another
  undefined behaviour is the value \<open>None\<close>; so a statement \<open>f x = Some y\<close> includes memory safety.  A nullable pointer is
  an option.  The answer of an allocation that the code checks is an argument.  Integers are words of the
  code's width; where a loop counts with \<open>nat\<close> its theory says why the counter cannot wrap.

  \<^bold>\<open>What the lemmas show.\<close>  Each component has an invariant that its operations keep (page tables, heap chain, thread
  table, lock owners), the result of its operations on every branch, and where it has a contract, a
  refinement of it: ring buffer to bounded queue, linear map to finite map, heap to a set of disjoint blocks,
  strings to byte lists, both file systems to directory trees, a connection to the peer's byte stream, the pixels of
  the terminal to a page of characters, the windows' queues to the events that fall to each window, and the buffer of the game's window to the picture of its board.
  Interfaces are locales (\<open>bounded_fifo\<close>, \<open>key_value_store\<close> and those of the allocators), interpreted on the code's model.

  \<^bold>\<open>Bounds and fuel.\<close>  Loops end by measures: free pages for the backing of a range, threads left for the scheduler,
  bytes left for parsers and directory scans.  The recursion over a path has fuel, one unit per byte and one
  more, which is proved to be enough.  Loops over FAT cluster chains in directories need not end; they are
  partial functions, and \<open>Fat32_Tree\<close> shows a table for which the search does not end.  The loop over the events of a
  program is one too; it ends after as many rounds as events wait.

  \<^bold>\<open>Not modelled.\<close>  Drivers that are reads and writes of device registers (AHCI, IDE, NVMe, e1000, rtl8168, the VGA
  ports, PIC, APIC, PIT programming), assembly, descriptor table setup, the old terminal, floating point, the old copies of DNS and DHCP in \<open>network_drivers\<close>, and the boot sequence that only calls the rest
  in order.  Printing is left out everywhere.
\<close>

end
